(* ===== verification/Prelude.thy ===== *)
theory Prelude
  imports Main "HOL-Library.Word"
begin

unbundle bit_operations_syntax

text \<open>
  Shared vocabulary of the development: the outcome type of C++ functions that may throw, the
  fixed-width arithmetic of \<^verbatim>\<open>uint8_t\<close> and \<^verbatim>\<open>uint32_t\<close> counters, and the view of a byte string
  as a list of bits, most significant bit first. The collections \<open>result_simps\<close>,
  \<open>bit_list_simps\<close> and \<open>model_defs\<close> are extended by the component theories.
\<close>

named_theorems result_simps \<open>computation rules of the outcome combinators\<close>
named_theorems bit_list_simps \<open>rewriting of packed bytes and bit lists\<close>
named_theorems model_defs \<open>unfolding of the component operations on concrete input\<close>

section \<open>Outcomes\<close>

text \<open>
  The exception classes thrown through the macros of \<^verbatim>\<open>Utility.hpp\<close>. A read outside an
  object, which C++ leaves undefined, is the separate outcome \<open>UndefinedBehaviour\<close>: the model
  never invents a value for it. Exception messages are not modelled.
\<close>

datatype error =
    InvalidArgument
  | LogicError
  | RuntimeError
  | OutOfRange
  | UndefinedBehaviour

type_synonym 'a result = "error + 'a"

definition rbind :: "'a result \<Rightarrow> ('a \<Rightarrow> 'b result) \<Rightarrow> 'b result" where
  "rbind m f = (case m of Inl e \<Rightarrow> Inl e | Inr x \<Rightarrow> f x)"

lemma rbind_Inl [simp, result_simps]: "rbind (Inl e) f = Inl e"
  and rbind_Inr [simp, result_simps]: "rbind (Inr x) f = f x"
  by (simp_all add: rbind_def)

lemma rbind_if [result_simps]: "rbind (if c then m else n) f = (if c then rbind m f else rbind n f)"
  by simp

lemma rbind_Inr_iff: "rbind m f = Inr y \<longleftrightarrow> (\<exists>x. m = Inr x \<and> f x = Inr y)"
  by (cases m) simp_all

lemma rbind_assoc: "rbind (rbind m f) g = rbind m (\<lambda>x. rbind (f x) g)"
  by (cases m) simp_all

text \<open>
  \<open>CHECK_PARAMETER_...\<close> throws \<^verbatim>\<open>std::invalid_argument\<close>, \<open>CHECK_VALUE_...\<close>,
  \<open>CHECK_TRUE\<close> and \<open>CHECK_FALSE\<close> throw \<^verbatim>\<open>std::runtime_error\<close>; the other macros throw
  the class their name says.
\<close>

definition check_that :: "error \<Rightarrow> bool \<Rightarrow> 'a result \<Rightarrow> 'a result" where
  "check_that e c k = (if c then k else Inl e)"

definition CheckParameterCondition :: "bool \<Rightarrow> 'a result \<Rightarrow> 'a result" where
  "CheckParameterCondition c k = check_that InvalidArgument c k"

definition CheckValueCondition :: "bool \<Rightarrow> 'a result \<Rightarrow> 'a result" where
  "CheckValueCondition c k = check_that RuntimeError c k"

lemmas check_defs [result_simps] =
  check_that_def CheckParameterCondition_def CheckValueCondition_def

lemma check_that_True [simp]: "check_that e True k = k"
  and check_that_False [simp]: "check_that e False k = Inl e"
  and CheckParameterCondition_True [simp]: "CheckParameterCondition True k = k"
  and CheckParameterCondition_False [simp]: "CheckParameterCondition False k = Inl InvalidArgument"
  and CheckValueCondition_True [simp]: "CheckValueCondition True k = k"
  and CheckValueCondition_False [simp]: "CheckValueCondition False k = Inl RuntimeError"
  by (simp_all add: check_defs)

text \<open>A total-correctness predicate: the computation returns, and its value satisfies \<open>P\<close>.\<close>

definition succeeds :: "'a result \<Rightarrow> ('a \<Rightarrow> bool) \<Rightarrow> bool" where
  "succeeds m P = (case m of Inl _ \<Rightarrow> False | Inr x \<Rightarrow> P x)"

lemma succeeds_Inr [simp]: "succeeds (Inr x) P = P x"
  and succeeds_Inl [simp]: "\<not> succeeds (Inl e) P"
  by (simp_all add: succeeds_def)

lemma succeeds_iff: "succeeds m P \<longleftrightarrow> (\<exists>x. m = Inr x \<and> P x)"
  by (cases m) simp_all

lemma succeeds_rbind [intro]:
  "succeeds m P \<Longrightarrow> (\<And>x. P x \<Longrightarrow> succeeds (f x) Q) \<Longrightarrow> succeeds (rbind m f) Q"
  by (cases m) simp_all

lemma succeeds_mono: "succeeds m P \<Longrightarrow> (\<And>x. P x \<Longrightarrow> Q x) \<Longrightarrow> succeeds m Q"
  by (cases m) simp_all

section \<open>Fixed-width counters\<close>

type_synonym byte = "8 word"

definition u32 :: "nat \<Rightarrow> nat" where
  "u32 n = n mod 4294967296"

definition u8 :: "nat \<Rightarrow> nat" where
  "u8 n = n mod 256"

definition u32_sub :: "nat \<Rightarrow> nat \<Rightarrow> nat" where
  "u32_sub a b = u32 (a + (4294967296 - u32 b))"

lemma u32_small [simp]: "n < 4294967296 \<Longrightarrow> u32 n = n"
  and u32_bound [simp]: "u32 n < 4294967296"
  by (simp_all add: u32_def)

lemma u8_small [simp]: "n < 256 \<Longrightarrow> u8 n = n"
  and u8_bound [simp]: "u8 n < 256"
  by (simp_all add: u8_def)

lemma u32_sub_le [simp]:
  assumes "b \<le> a" and "a < 4294967296"
  shows "u32_sub a b = a - b"
proof -
  have "u32_sub a b = ((a - b) + 4294967296) mod 4294967296"
    using assms by (simp add: u32_sub_def u32_def)
  also have "\<dots> = a - b"
    using assms by (simp only: mod_add_self2) simp
  finally show ?thesis .
qed

section \<open>Bytes as bit lists\<close>

definition byte_bits :: "byte \<Rightarrow> bool list" where
  "byte_bits b = [bit b 7, bit b 6, bit b 5, bit b 4, bit b 3, bit b 2, bit b 1, bit b 0]"

definition data_bits :: "byte list \<Rightarrow> bool list" where
  "data_bits ds = concat (map byte_bits ds)"

definition byte_of_bits :: "bool list \<Rightarrow> byte" where
  "byte_of_bits bs = horner_sum of_bool 2 (rev (take 8 (bs @ replicate 8 False)))"

definition padding :: "nat \<Rightarrow> nat" where
  "padding n = (8 - n mod 8) mod 8"

lemma length_byte_bits [simp]: "length (byte_bits b) = 8"
  by (simp add: byte_bits_def)

lemma byte_bits_nth: "i < 8 \<Longrightarrow> byte_bits b ! i = bit b (7 - i)"
proof -
  assume "i < 8"
  then consider "i = 0" | "i = 1" | "i = 2" | "i = 3" | "i = 4" | "i = 5" | "i = 6" | "i = 7"
    by linarith
  then show ?thesis
    by cases (simp_all add: byte_bits_def)
qed

lemma byte_bits_bit: "i < 8 \<Longrightarrow> bit b i = byte_bits b ! (7 - i)"
  by (simp add: byte_bits_nth)

lemma bit_byte_of_bits:
  "bit (byte_of_bits bs) i \<longleftrightarrow> i < 8 \<and> 7 - i < length bs \<and> bs ! (7 - i)"
proof (cases "i < 8")
  case True
  have "rev (take 8 (bs @ replicate 8 False)) ! i = (bs @ replicate 8 False) ! (7 - i)"
    using True by (subst rev_nth) (simp_all del: take_append)
  then show ?thesis
    using True
    by (auto simp: byte_of_bits_def bit_horner_sum_bit_word_iff nth_append
             simp del: take_append rev_append)
next
  case False
  then show ?thesis
    by (auto simp: byte_of_bits_def bit_horner_sum_bit_word_iff)
qed

lemma byte_eqI: "(\<And>i. i < 8 \<Longrightarrow> bit a i = bit b i) \<Longrightarrow> a = (b :: byte)"
  by (rule bit_word_eqI) simp

lemma byte_bits_of_bits:
  "byte_bits (byte_of_bits bs) = take 8 (bs @ replicate 8 False)"
  by (rule nth_equalityI) (auto simp: byte_bits_nth bit_byte_of_bits nth_append)

lemma byte_of_bits_byte_bits [simp]: "byte_of_bits (byte_bits b) = b"
  by (rule byte_eqI) (auto simp: bit_byte_of_bits byte_bits_nth)

lemma byte_bits_of_bits8 [simp]: "length bs = 8 \<Longrightarrow> byte_bits (byte_of_bits bs) = bs"
  by (simp add: byte_bits_of_bits)

lemma byte_bits_inject [simp]: "byte_bits a = byte_bits b \<longleftrightarrow> a = b"
  by (metis byte_of_bits_byte_bits)

lemma data_bits_Nil [simp]: "data_bits [] = []"
  and data_bits_Cons [simp]: "data_bits (d # ds) = byte_bits d @ data_bits ds"
  and data_bits_append [simp]: "data_bits (ds @ es) = data_bits ds @ data_bits es"
  by (simp_all add: data_bits_def)

lemma length_data_bits [simp]: "length (data_bits ds) = 8 * length ds"
  by (induction ds) simp_all

lemma data_bits_inject [simp]: "data_bits ds = data_bits es \<longleftrightarrow> ds = es"
proof (induction ds arbitrary: es)
  case Nil
  then show ?case
    by (metis data_bits_Nil length_data_bits length_0_conv mult_is_0 zero_neq_numeral)
next
  case (Cons d ds)
  then show ?case
  proof (cases es)
    case Nil
    then show ?thesis
      by (metis data_bits_Nil length_data_bits length_0_conv mult_is_0 zero_neq_numeral)
  next
    case (Cons e es')
    then show ?thesis
      using Cons.IH by simp
  qed
qed

text \<open>
  \<open>pack bs\<close> stores \<open>bs\<close> left aligned in as few bytes as possible, the unused bits of the last
  byte being zero: the representation \<^verbatim>\<open>BinaryVector\<close> keeps in \<^verbatim>\<open>m_data\<close>.
\<close>

function pack :: "bool list \<Rightarrow> byte list" where
  "pack bs = (if bs = [] then [] else byte_of_bits (take 8 bs) # pack (drop 8 bs))"
  by pat_completeness auto
termination
  by (relation "measure length") auto

declare pack.simps [simp del]

lemma pack_Nil [simp]: "pack [] = []"
  by (simp add: pack.simps)

lemma pack_step: "bs \<noteq> [] \<Longrightarrow> pack bs = byte_of_bits (take 8 bs) # pack (drop 8 bs)"
  by (simp add: pack.simps [of bs])

lemma pack_short: "bs \<noteq> [] \<Longrightarrow> length bs \<le> 8 \<Longrightarrow> pack bs = [byte_of_bits bs]"
  by (simp add: pack_step)

lemma pack_byte_append [simp]: "length bs = 8 \<Longrightarrow> pack (bs @ cs) = byte_of_bits bs # pack cs"
  using pack_step [of "bs @ cs"] by (cases "bs = []") simp_all

lemma pack_data_bits_append: "pack (data_bits ds @ cs) = ds @ pack cs"
  by (induction ds) simp_all

lemma pack_data_bits [simp]: "pack (data_bits ds) = ds"
  using pack_data_bits_append [of ds "[]"] by simp

lemma padding_less: "padding n < 8"
  by (simp add: padding_def)

lemma padding_0 [simp]: "n mod 8 = 0 \<Longrightarrow> padding n = 0"
  and padding_nz: "n mod 8 \<noteq> 0 \<Longrightarrow> padding n = 8 - n mod 8"
  by (simp_all add: padding_def)

lemma padding_add8 [simp]: "padding (8 + n) = padding n"
  by (simp add: padding_def)

lemma length_pack: "length (pack bs) = (length bs + 7) div 8"
proof (induction bs rule: pack.induct)
  case (1 bs)
  show ?case
  proof (cases "bs = []")
    case False
    with 1 have "length (pack bs) = Suc ((length bs - 8 + 7) div 8)"
      by (simp add: pack_step)
    also have "\<dots> = (length bs + 7) div 8"
      using False by (cases "length bs \<le> 8") (auto simp: Suc_le_eq div_if le_Suc_eq not_le)
    finally show ?thesis .
  qed simp
qed

lemma data_bits_pack: "data_bits (pack bs) = bs @ replicate (padding (length bs)) False"
proof (induction bs rule: pack.induct)
  case (1 bs)
  show ?case
  proof (cases "8 \<le> length bs")
    case True
    then have ne: "bs \<noteq> []" by auto
    have "padding (length bs - 8) = padding (length bs)"
      using padding_add8 [of "length bs - 8"] True by simp
    with 1 True ne show ?thesis
      by (simp add: pack_step flip: append_assoc)
  next
    case False
    then show ?thesis
      by (cases "bs = []") (auto simp: pack_short byte_bits_of_bits padding_def)
  qed
qed

lemma pack_unique:
  "data_bits ds = bs @ replicate (padding (length bs)) False \<Longrightarrow> ds = pack bs"
  using data_bits_pack [of bs] data_bits_inject [of ds "pack bs"] by simp

lemma pack_inject:
  assumes "length bs = length cs"
  shows "pack bs = pack cs \<longleftrightarrow> bs = cs"
proof
  assume "pack bs = pack cs"
  then have "data_bits (pack bs) = data_bits (pack cs)" by simp
  then show "bs = cs"
    using assms by (simp add: data_bits_pack)
qed simp

lemma pack_append:
  assumes "length bs mod 8 = 0"
  shows "pack (bs @ cs) = pack bs @ pack cs"
proof -
  have "data_bits (pack bs) = bs"
    using assms by (simp add: data_bits_pack)
  then show ?thesis
    using pack_data_bits_append [of "pack bs" cs] by simp
qed

text \<open>A bit list is a whole number of bytes followed by an incomplete one.\<close>

lemma split_aligned:
  obtains fs rs where "bs = fs @ rs" and "length fs mod 8 = 0" and "length rs = length bs mod 8"
    and "length fs = length bs - length bs mod 8"
proof
  let ?k = "length bs - length bs mod 8"
  show "bs = take ?k bs @ drop ?k bs" by simp
  show "length (take ?k bs) mod 8 = 0"
    by (simp add: minus_mod_eq_mult_div)
  show "length (drop ?k bs) = length bs mod 8" by simp
  show "length (take ?k bs) = ?k" by simp
qed

lemma pack_nth:
  assumes "j < (length bs + 7) div 8"
  shows "pack bs ! j = byte_of_bits (take 8 (drop (8 * j) bs))"
  using assms
proof (induction j arbitrary: bs)
  case 0
  then have "bs \<noteq> []" by auto
  then show ?case by (simp add: pack_step)
next
  case (Suc j)
  then have "bs \<noteq> []" by auto
  moreover have "j < (length (drop 8 bs) + 7) div 8"
    using Suc.prems by auto
  ultimately show ?case
    using Suc.IH [of "drop 8 bs"] by (simp add: pack_step add.commute)
qed

lemma data_bits_nth_byte: "d < length ds \<Longrightarrow> take 8 (drop (8 * d) (data_bits ds)) = byte_bits (ds ! d)"
proof (induction ds arbitrary: d)
  case (Cons x ds)
  then show ?case by (cases d) simp_all
qed simp

section \<open>Stateful operations\<close>

text \<open>
  A non-const member function is an action on the state of its object (or on the store of
  objects it reaches): it returns or throws, and leaves a state behind in both cases, so what an
  exception leaves half done is visible.
\<close>

type_synonym ('s, 'a) act = "'s \<Rightarrow> 'a result \<times> 's"

definition act_return :: "'a \<Rightarrow> ('s, 'a) act" where
  "act_return x s = (Inr x, s)"

definition act_throw :: "error \<Rightarrow> ('s, 'a) act" where
  "act_throw e s = (Inl e, s)"

definition act_bind :: "('s, 'a) act \<Rightarrow> ('a \<Rightarrow> ('s, 'b) act) \<Rightarrow> ('s, 'b) act" where
  "act_bind m f s = (case m s of (Inl e, s') \<Rightarrow> (Inl e, s') | (Inr x, s') \<Rightarrow> f x s')"

definition act_then :: "('s, unit) act \<Rightarrow> ('s, 'b) act \<Rightarrow> ('s, 'b) act" where
  "act_then m n = act_bind m (\<lambda>_. n)"

definition act_read :: "('s \<Rightarrow> 'a result) \<Rightarrow> ('s, 'a) act" where
  "act_read f s = (f s, s)"

definition act_modify :: "('s \<Rightarrow> 's) \<Rightarrow> ('s, unit) act" where
  "act_modify f s = (Inr (), f s)"

text \<open>Replaces a part of the state by the value computed, unless the computation throws.\<close>

definition act_assign :: "('s \<Rightarrow> 'a result) \<Rightarrow> ('a \<Rightarrow> 's \<Rightarrow> 's) \<Rightarrow> ('s, unit) act" where
  "act_assign f put s = (case f s of Inl e \<Rightarrow> (Inl e, s) | Inr x \<Rightarrow> (Inr (), put x s))"

fun act_each :: "('x \<Rightarrow> ('s, unit) act) \<Rightarrow> 'x list \<Rightarrow> ('s, unit) act" where
  "act_each f [] = act_return ()"
| "act_each f (x # xs) = act_then (f x) (act_each f xs)"

definition act_if :: "('s \<Rightarrow> bool) \<Rightarrow> ('s, 'a) act \<Rightarrow> ('s, 'a) act \<Rightarrow> ('s, 'a) act" where
  "act_if b m n s = (if b s then m s else n s)"

definition act_when :: "('s \<Rightarrow> bool) \<Rightarrow> ('s, unit) act \<Rightarrow> ('s, unit) act" where
  "act_when b m = act_if b m (act_return ())"

named_theorems act_simps \<open>computation rules of actions\<close>

lemma act_bind_simps [act_simps]:
  "m s = (Inr x, s') \<Longrightarrow> act_bind m f s = f x s'"
  "m s = (Inl e, s') \<Longrightarrow> act_bind m f s = (Inl e, s')"
  by (simp_all add: act_bind_def)

lemma act_then_simps [act_simps]:
  "m s = (Inr u, s') \<Longrightarrow> act_then m n s = n s'"
  "m s = (Inl e, s') \<Longrightarrow> act_then m n s = (Inl e, s')"
  by (simp_all add: act_then_def act_bind_simps)

lemma act_assign_simps [act_simps]:
  "f s = Inr x \<Longrightarrow> act_assign f put s = (Inr (), put x s)"
  "f s = Inl e \<Longrightarrow> act_assign f put s = (Inl e, s)"
  by (simp_all add: act_assign_def)

lemma act_if_simps [act_simps]:
  "act_if b m n s = (if b s then m s else n s)" "act_when b u s = (if b s then u s else (Inr (), s))"
  by (simp_all add: act_if_def act_when_def act_return_def)

lemma act_basic [simp]:
  "act_return x s = (Inr x, s)" "act_throw e s = (Inl e, s)"
  "act_read g s = (g s, s)" "act_modify h s = (Inr (), h s)"
  by (simp_all add: act_return_def act_throw_def act_read_def act_modify_def)

text \<open>\<open>keeps I m\<close>: the action preserves \<open>I\<close>, whether it returns or throws.\<close>

definition keeps :: "('s \<Rightarrow> bool) \<Rightarrow> ('s, 'a) act \<Rightarrow> bool" where
  "keeps I m \<longleftrightarrow> (\<forall>s. I s \<longrightarrow> I (snd (m s)))"

lemma keepsI: "(\<And>s. I s \<Longrightarrow> I (snd (m s))) \<Longrightarrow> keeps I m"
  by (simp add: keeps_def)

lemma keepsD: "keeps I m \<Longrightarrow> I s \<Longrightarrow> I (snd (m s))"
  by (simp add: keeps_def)

lemma keeps_basic [simp, intro]:
  "keeps I (act_return x)" "keeps I (act_throw e)" "keeps I (act_read g)"
  by (simp_all add: keeps_def)

lemma keeps_modify: "(\<And>s. I s \<Longrightarrow> I (h s)) \<Longrightarrow> keeps I (act_modify h)"
  by (simp add: keeps_def)

lemma keeps_assign: "(\<And>s x. I s \<Longrightarrow> f s = Inr x \<Longrightarrow> I (put x s)) \<Longrightarrow> keeps I (act_assign f put)"
  by (simp add: keeps_def act_assign_def split: sum.splits)

lemma keeps_bind: "keeps I m \<Longrightarrow> (\<And>x. keeps I (f x)) \<Longrightarrow> keeps I (act_bind m f)"
  unfolding keeps_def act_bind_def by (auto split: prod.splits sum.splits)

lemma keeps_then: "keeps I m \<Longrightarrow> keeps I n \<Longrightarrow> keeps I (act_then m n)"
  by (simp add: act_then_def keeps_bind)

lemma keeps_if: "(b \<Longrightarrow> keeps I m) \<Longrightarrow> (\<not> b \<Longrightarrow> keeps I n) \<Longrightarrow> keeps I (if b then m else n)"
  by simp

lemma keeps_act_if: "keeps I m \<Longrightarrow> keeps I n \<Longrightarrow> keeps I (act_if b m n)"
  and keeps_act_when: "keeps I u \<Longrightarrow> keeps I (act_when b u)"
  by (simp_all add: keeps_def act_simps)

lemma keeps_each: "(\<And>x. x \<in> set xs \<Longrightarrow> keeps I (f x)) \<Longrightarrow> keeps I (act_each f xs)"
  by (induction xs) (auto intro: keeps_then)

end
