(* ===== verification/BV_Core.thy ===== *)
theory BV_Core
  imports Prelude
begin

text \<open>
  The class \<^verbatim>\<open>BinaryVector\<close> of \<^verbatim>\<open>Mast_Core/include/BinaryVector.hpp\<close> and the part of
  \<^verbatim>\<open>Mast_Core/src/BinaryVector.cpp\<close> that builds, grows, compares and combines vectors: a bit
  stream stored most significant bit first, left aligned in bytes, with a bit count and a size
  property. Every operation is characterised on \<open>bv_make bs p\<close>, the canonical vector holding the
  bit list \<open>bs\<close>; the class invariant \<open>bv_inv\<close> says exactly that a vector is of that form.
\<close>

section \<open>Data\<close>

datatype BitsAlignment = Right | Left

datatype SizeProperty = NotFixed | Fixed | FixedOnCopy

record BinaryVector =
  m_data :: "byte list"
  m_usedBits :: nat
  m_sizeProperty :: SizeProperty

definition LEFT_BITS_MASK_8 :: "byte list" where
  "LEFT_BITS_MASK_8 =
    [0b00000000, 0b10000000, 0b11000000, 0b11100000, 0b11110000,
     0b11111000, 0b11111100, 0b11111110, 0b11111111]"

definition LEFT_BITS_CLEAR_MASK_8 :: "byte list" where
  "LEFT_BITS_CLEAR_MASK_8 =
    [0b11111111, 0b01111111, 0b00111111, 0b00011111, 0b00001111,
     0b00000111, 0b00000011, 0b00000001, 0b00000000]"

definition RIGHT_BITS_MASK_8 :: "byte list" where
  "RIGHT_BITS_MASK_8 =
    [0b00000000, 0b00000001, 0b00000011, 0b00000111, 0b00001111,
     0b00011111, 0b00111111, 0b01111111, 0b11111111]"

definition BIT_MASK_8 :: "byte list" where
  "BIT_MASK_8 =
    [0b10000000, 0b01000000, 0b00100000, 0b00010000,
     0b00001000, 0b00000100, 0b00000010, 0b00000001]"

definition FixedSize :: "BinaryVector \<Rightarrow> bool" where
  "FixedSize v = (m_sizeProperty v = Fixed)"

definition HasFixedSize :: "BinaryVector \<Rightarrow> bool" where
  "HasFixedSize v = (m_sizeProperty v \<noteq> NotFixed)"

definition FixSize :: "bool \<Rightarrow> BinaryVector \<Rightarrow> BinaryVector" where
  "FixSize fixSize v = v\<lparr>m_sizeProperty := if fixSize then Fixed else NotFixed\<rparr>"

definition IsEmpty :: "BinaryVector \<Rightarrow> bool" where
  "IsEmpty v = (m_data v = [])"

definition BitsCount :: "BinaryVector \<Rightarrow> nat" where
  "BitsCount v = m_usedBits v"

definition BytesCount :: "BinaryVector \<Rightarrow> nat" where
  "BytesCount v = length (m_data v)"

definition IsNegative :: "BinaryVector \<Rightarrow> bool result" where
  "IsNegative v = (case m_data v of [] \<Rightarrow> Inl UndefinedBehaviour | d # _ \<Rightarrow> Inr (d AND 0x80 \<noteq> 0))"

definition BytesCountFromBitsCount :: "nat \<Rightarrow> nat" where
  "BytesCountFromBitsCount bitsCount = u32 (bitsCount + 7) div 8"

definition LastByteBitsCount :: "nat \<Rightarrow> nat" where
  "LastByteBitsCount usedBits =
    (if usedBits = 0 then 0
     else let bitsCount = usedBits mod 8 in if bitsCount = 0 then 8 else bitsCount)"

text \<open>
  \<^verbatim>\<open>m_data.back()\<close> and \<^verbatim>\<open>m_data[i]\<close> on a vector that does not hold the element are undefined.
\<close>

definition update_back :: "(byte \<Rightarrow> byte) \<Rightarrow> byte list \<Rightarrow> byte list result" where
  "update_back f ds = (if ds = [] then Inl UndefinedBehaviour else Inr (butlast ds @ [f (last ds)]))"

definition update_at :: "nat \<Rightarrow> (byte \<Rightarrow> byte) \<Rightarrow> byte list \<Rightarrow> byte list result" where
  "update_at i f ds = (if i < length ds then Inr (ds[i := f (ds ! i)]) else Inl UndefinedBehaviour)"

definition read_at :: "byte list \<Rightarrow> nat \<Rightarrow> byte result" where
  "read_at ds i = (if i < length ds then Inr (ds ! i) else Inl UndefinedBehaviour)"

definition resize :: "nat \<Rightarrow> byte list \<Rightarrow> byte list" where
  "resize n ds = take n ds @ replicate (n - length ds) 0"

definition with_data :: "BinaryVector \<Rightarrow> byte list result \<Rightarrow> BinaryVector result" where
  "with_data v m = rbind m (\<lambda>ds. Inr (v\<lparr>m_data := ds\<rparr>))"

definition MaskLastByte :: "BinaryVector \<Rightarrow> BinaryVector result" where
  "MaskLastByte v =
    (let bitsOnLastByte = m_usedBits v mod 8
     in if bitsOnLastByte \<noteq> 0
        then with_data v (update_back (\<lambda>b. b AND LEFT_BITS_MASK_8 ! bitsOnLastByte) (m_data v))
        else Inr v)"

section \<open>Construction, copy and move\<close>

definition BinaryVector_empty :: BinaryVector where
  "BinaryVector_empty = \<lparr>m_data = [], m_usedBits = 0, m_sizeProperty = NotFixed\<rparr>"

definition BinaryVector_fill :: "nat \<Rightarrow> byte \<Rightarrow> SizeProperty \<Rightarrow> BinaryVector result" where
  "BinaryVector_fill bitsCount fillPattern sizeProperty =
    (let v = \<lparr>m_data = replicate (u32 (bitsCount + 7) div 8) fillPattern,
              m_usedBits = bitsCount, m_sizeProperty = sizeProperty\<rparr>;
         lastByteBitsCount = bitsCount mod 8
     in if lastByteBitsCount \<noteq> 0
        then with_data v (update_back (\<lambda>b. b AND LEFT_BITS_MASK_8 ! lastByteBitsCount) (m_data v))
        else Inr v)"

definition BinaryVector_copy :: "BinaryVector \<Rightarrow> BinaryVector" where
  "BinaryVector_copy rhs =
    \<lparr>m_data = m_data rhs, m_usedBits = m_usedBits rhs,
     m_sizeProperty = (if m_sizeProperty rhs = FixedOnCopy then FixedOnCopy else NotFixed)\<rparr>"

definition BinaryVector_copy_as :: "BinaryVector \<Rightarrow> SizeProperty \<Rightarrow> BinaryVector" where
  "BinaryVector_copy_as rhs sizeProperty = (BinaryVector_copy rhs)\<lparr>m_sizeProperty := sizeProperty\<rparr>"

text \<open>A move returns the new vector and the state the moved-from vector is left in.\<close>

definition BinaryVector_move :: "BinaryVector \<Rightarrow> BinaryVector \<times> BinaryVector" where
  "BinaryVector_move rhs =
    (\<lparr>m_data = m_data rhs, m_usedBits = m_usedBits rhs,
      m_sizeProperty = (if m_sizeProperty rhs = FixedOnCopy then FixedOnCopy else NotFixed)\<rparr>,
     \<lparr>m_data = [], m_usedBits = 0, m_sizeProperty = NotFixed\<rparr>)"

definition BinaryVector_data :: "byte list \<Rightarrow> nat \<Rightarrow> SizeProperty \<Rightarrow> BinaryVector result" where
  "BinaryVector_data data bitsCount sizeProperty =
    (let expectedSize = u32 (bitsCount + 7) div 8
     in MaskLastByte \<lparr>m_data = resize expectedSize data, m_usedBits = bitsCount,
                      m_sizeProperty = sizeProperty\<rparr>)"

definition assign_copy :: "BinaryVector \<Rightarrow> BinaryVector \<Rightarrow> BinaryVector result" where
  "assign_copy v rhs =
    (if FixedSize v \<and> m_usedBits rhs \<noteq> m_usedBits v then Inl LogicError
     else Inr \<lparr>m_data = m_data rhs, m_usedBits = m_usedBits rhs,
               m_sizeProperty = (if m_sizeProperty rhs = FixedOnCopy then FixedOnCopy
                                 else m_sizeProperty v)\<rparr>)"

definition assign_move :: "BinaryVector \<Rightarrow> BinaryVector \<Rightarrow> (BinaryVector \<times> BinaryVector) result" where
  "assign_move v rhs =
    (if FixedSize v \<and> m_usedBits rhs \<noteq> m_usedBits v then Inl LogicError
     else Inr (\<lparr>m_data = m_data rhs, m_usedBits = m_usedBits rhs,
                m_sizeProperty = (if m_sizeProperty rhs = FixedOnCopy then FixedOnCopy
                                  else m_sizeProperty v)\<rparr>,
               \<lparr>m_data = [], m_usedBits = 0, m_sizeProperty = NotFixed\<rparr>))"

definition Clear :: "BinaryVector \<Rightarrow> BinaryVector" where
  "Clear v = v\<lparr>m_data := [], m_usedBits := 0\<rparr>"

section \<open>Appending\<close>

definition Append_u8 :: "byte \<Rightarrow> nat \<Rightarrow> BitsAlignment \<Rightarrow> BinaryVector \<Rightarrow> BinaryVector result" where
  "Append_u8 value numberOfBits alignment v =
    (if numberOfBits = 0 then Inl InvalidArgument
     else if FixedSize v then Inl LogicError
     else if numberOfBits > 8 then Inl InvalidArgument
     else
      let value1 = (if alignment = Right then push_bit (8 - numberOfBits) value else value);
          value2 = value1 AND LEFT_BITS_MASK_8 ! numberOfBits;
          lastByteBits = m_usedBits v mod 8;
          freeBits = (if lastByteBits = 0 then 8 else 8 - lastByteBits);
          counted = v\<lparr>m_usedBits := u32 (m_usedBits v + numberOfBits)\<rparr>
      in if freeBits = 8 then Inr (counted\<lparr>m_data := m_data v @ [value2]\<rparr>)
         else if freeBits \<ge> numberOfBits
         then with_data counted
                (update_back (\<lambda>lastByte. lastByte OR drop_bit (8 - freeBits) value2) (m_data v))
         else with_data counted
                (rbind (update_back (\<lambda>lastByte. lastByte OR drop_bit lastByteBits value2) (m_data v))
                   (\<lambda>ds. Inr (ds @ [push_bit freeBits value2]))))"

fun Append_bytes :: "byte list \<Rightarrow> nat \<Rightarrow> BinaryVector \<Rightarrow> BinaryVector result" where
  "Append_bytes [] bitsToAppend v = (if bitsToAppend = 0 then Inr v else Inl UndefinedBehaviour)"
| "Append_bytes (d # ds) bitsToAppend v =
    (if bitsToAppend \<ge> 8 then rbind (Append_u8 d 8 Right v) (Append_bytes ds (bitsToAppend - 8))
     else if bitsToAppend \<noteq> 0 then Append_u8 d bitsToAppend Left v
     else Inr v)"

definition Append :: "BinaryVector \<Rightarrow> BinaryVector \<Rightarrow> BinaryVector result" where
  "Append rhs v =
    (if FixedSize v then Inl LogicError else Append_bytes (m_data rhs) (m_usedBits rhs) v)"

text \<open>
  The two loops of \<^verbatim>\<open>AppendChunks\<close>. The threshold is a multiple of eight, so it never wraps;
  the guard \<open>0 < numberOfBits\<close> is the check made before the loops.
\<close>

function AppendChunks_start :: "BitsAlignment \<Rightarrow> nat \<Rightarrow> nat \<Rightarrow> nat \<Rightarrow> nat \<times> nat" where
  "AppendChunks_start alignment numberOfBits threshold chunkId =
    (if 0 < numberOfBits \<and> threshold \<ge> numberOfBits
     then AppendChunks_start alignment numberOfBits (threshold - 8)
            (if alignment = Right then Suc chunkId else chunkId)
     else (threshold, chunkId))"
  by pat_completeness auto
termination
  by (relation "measure (\<lambda>(_, _, t, _). t)") auto

function AppendChunks_loop ::
    "BitsAlignment \<Rightarrow> byte list \<Rightarrow> nat \<Rightarrow> nat \<Rightarrow> nat \<Rightarrow> BinaryVector \<Rightarrow> BinaryVector result" where
  "AppendChunks_loop alignment chunks numberOfBits threshold chunkId v =
    (if numberOfBits > threshold
     then rbind (read_at chunks chunkId) (\<lambda>bits.
       let maxBits = min numberOfBits 8;
           chunkNumberOfBits = (if alignment = Left then maxBits else numberOfBits - threshold)
       in rbind (Append_u8 bits chunkNumberOfBits alignment v) (\<lambda>v'.
            if threshold = 0 then Inr v'
            else AppendChunks_loop alignment chunks (numberOfBits - chunkNumberOfBits)
                   (threshold - 8) (Suc chunkId) v'))
     else Inr v)"
  by pat_completeness auto
termination
  by (relation "measure (\<lambda>(_, _, _, t, _, _). t)") auto

declare AppendChunks_start.simps [simp del] AppendChunks_loop.simps [simp del]

definition AppendChunks ::
    "nat \<Rightarrow> BitsAlignment \<Rightarrow> byte list \<Rightarrow> BinaryVector \<Rightarrow> BinaryVector result" where
  "AppendChunks numberOfBits alignment chunksList v =
    (if FixedSize v then Inl LogicError
     else if numberOfBits = 0 then Inl InvalidArgument
     else
      let maxBits = u8 (length chunksList * 8)
      in if numberOfBits > maxBits then Inl InvalidArgument
         else
          let (threshold, chunkId) = AppendChunks_start alignment numberOfBits (maxBits - 8) 0
          in AppendChunks_loop alignment chunksList numberOfBits threshold chunkId v)"

definition Append_u16 :: "16 word \<Rightarrow> nat \<Rightarrow> BitsAlignment \<Rightarrow> BinaryVector \<Rightarrow> BinaryVector result" where
  "Append_u16 value numberOfBits alignment v =
    (if FixedSize v then Inl LogicError
     else if numberOfBits = 0 then Inl InvalidArgument
     else AppendChunks numberOfBits alignment [ucast (drop_bit 8 value), ucast value] v)"

definition Append_u32 :: "32 word \<Rightarrow> nat \<Rightarrow> BitsAlignment \<Rightarrow> BinaryVector \<Rightarrow> BinaryVector result" where
  "Append_u32 value numberOfBits alignment v =
    (if FixedSize v then Inl LogicError
     else if numberOfBits = 0 then Inl InvalidArgument
     else AppendChunks numberOfBits alignment
            [ucast (drop_bit 24 value), ucast (drop_bit 16 value),
             ucast (drop_bit 8 value), ucast value] v)"

definition Append_u64 :: "64 word \<Rightarrow> nat \<Rightarrow> BitsAlignment \<Rightarrow> BinaryVector \<Rightarrow> BinaryVector result" where
  "Append_u64 value numberOfBits alignment v =
    (if FixedSize v then Inl LogicError
     else if numberOfBits = 0 then Inl InvalidArgument
     else AppendChunks numberOfBits alignment
            [ucast (drop_bit 56 value), ucast (drop_bit 48 value),
             ucast (drop_bit 40 value), ucast (drop_bit 32 value),
             ucast (drop_bit 24 value), ucast (drop_bit 16 value),
             ucast (drop_bit 8 value), ucast value] v)"

text \<open>
  \<^verbatim>\<open>AppendBits\<close> may throw after it has already inserted whole bytes, so its model returns the
  vector it leaves behind together with the exception, if any.
\<close>

definition AppendBits :: "bool \<Rightarrow> nat \<Rightarrow> BinaryVector \<Rightarrow> BinaryVector \<times> error option" where
  "AppendBits bitIsOne count v =
    (let value = (if bitIsOne then 0xFF else 0);
         bytesCount = count div 8;
         v1 = (if bytesCount \<noteq> 0
               then v\<lparr>m_data := m_data v @ replicate bytesCount value,
                      m_usedBits := u32 (m_usedBits v + 8 * bytesCount)\<rparr>
               else v);
         count1 = count - 8 * bytesCount
     in if count1 \<noteq> 0
        then (case Append_u8 value count1 Right v1 of
                Inl e \<Rightarrow> (v1, Some e)
              | Inr v2 \<Rightarrow> (v2, None))
        else (v1, None))"

definition outcome :: "'a \<times> error option \<Rightarrow> 'a result" where
  "outcome r = (case snd r of None \<Rightarrow> Inr (fst r) | Some e \<Rightarrow> Inl e)"

definition concatenate :: "BinaryVector \<Rightarrow> BinaryVector \<Rightarrow> BinaryVector result" where
  "concatenate v rhs = Append rhs (BinaryVector_copy v)"

definition PrependBits :: "nat \<Rightarrow> byte \<Rightarrow> BinaryVector \<Rightarrow> BinaryVector result" where
  "PrependBits bitsCount fillPattern v =
    rbind (BinaryVector_fill bitsCount fillPattern NotFixed) (\<lambda>tmp.
    rbind (Append v tmp) (\<lambda>tmp'.
    rbind (assign_move v tmp') (\<lambda>(v', _). Inr v')))"

section \<open>Single bits, comparison, bitwise operators\<close>

definition ClearBit :: "nat \<Rightarrow> BinaryVector \<Rightarrow> BinaryVector result" where
  "ClearBit bitOffset v =
    CheckParameterCondition (bitOffset < m_usedBits v)
      (with_data v (update_at (bitOffset div 8) (\<lambda>b. b AND NOT (BIT_MASK_8 ! (bitOffset mod 8))) (m_data v)))"

definition SetBit :: "nat \<Rightarrow> BinaryVector \<Rightarrow> BinaryVector result" where
  "SetBit bitOffset v =
    CheckParameterCondition (bitOffset < m_usedBits v)
      (with_data v (update_at (bitOffset div 8) (\<lambda>b. b OR BIT_MASK_8 ! (bitOffset mod 8)) (m_data v)))"

definition ToggleBit :: "nat \<Rightarrow> BinaryVector \<Rightarrow> BinaryVector result" where
  "ToggleBit bitOffset v =
    CheckParameterCondition (bitOffset < m_usedBits v)
      (with_data v (update_at (bitOffset div 8) (\<lambda>b. b XOR BIT_MASK_8 ! (bitOffset mod 8)) (m_data v)))"

definition CompareEqualTo :: "BinaryVector \<Rightarrow> BinaryVector \<Rightarrow> bool result" where
  "CompareEqualTo v rhs =
    (if m_usedBits v \<noteq> m_usedBits rhs then Inr False
     else if m_usedBits v = 0 then Inr True
     else
      let bitsOnLastByte = m_usedBits v mod 8
      in if bitsOnLastByte = 0 then Inr (m_data v = m_data rhs)
         else if m_data v = [] \<or> m_data rhs = [] then Inl UndefinedBehaviour
         else
          let areEqual = (if length (m_data v) > 1
                          then butlast (m_data v) = butlast (m_data rhs) else True)
          in if areEqual
             then Inr (last (m_data v) AND LEFT_BITS_MASK_8 ! bitsOnLastByte
                       = last (m_data rhs) AND LEFT_BITS_MASK_8 ! bitsOnLastByte)
             else Inr False)"

fun compare_masked :: "byte list \<Rightarrow> byte list \<Rightarrow> byte list \<Rightarrow> bool result" where
  "compare_masked [] rhs dontCare = Inr True"
| "compare_masked (l # ls) (r # rs) (m # ms) =
    (if l \<noteq> r
     then (if (l XOR r) AND m \<noteq> 0 then Inr False else compare_masked ls rs ms)
     else compare_masked ls rs ms)"
| "compare_masked (l # ls) _ _ = Inl UndefinedBehaviour"

definition CompareEqualTo_mask :: "BinaryVector \<Rightarrow> BinaryVector \<Rightarrow> BinaryVector \<Rightarrow> bool result" where
  "CompareEqualTo_mask v rhs dontCareMask =
    (if IsEmpty dontCareMask then CompareEqualTo v rhs
     else if m_usedBits v \<noteq> m_usedBits rhs then Inr False
     else if m_usedBits v = 0 then Inr True
     else if m_usedBits dontCareMask \<noteq> m_usedBits v then Inl LogicError
     else compare_masked (m_data v) (m_data rhs) (m_data dontCareMask))"

fun combine_bytes :: "(byte \<Rightarrow> byte \<Rightarrow> byte) \<Rightarrow> byte list \<Rightarrow> byte list \<Rightarrow> byte list result" where
  "combine_bytes f [] right = Inr []"
| "combine_bytes f (l # ls) [] = Inl UndefinedBehaviour"
| "combine_bytes f (l # ls) (r # rs) = rbind (combine_bytes f ls rs) (\<lambda>ds. Inr (f l r # ds))"

definition combine_assign ::
    "(byte \<Rightarrow> byte \<Rightarrow> byte) \<Rightarrow> BinaryVector \<Rightarrow> BinaryVector \<Rightarrow> BinaryVector result" where
  "combine_assign f v rhs =
    (if m_usedBits rhs \<noteq> m_usedBits v then Inl LogicError
     else rbind (with_data v (combine_bytes f (m_data v) (m_data rhs))) MaskLastByte)"

definition and_assign :: "BinaryVector \<Rightarrow> BinaryVector \<Rightarrow> BinaryVector result" where
  "and_assign = combine_assign (\<lambda>l r. l AND r)"

definition or_assign :: "BinaryVector \<Rightarrow> BinaryVector \<Rightarrow> BinaryVector result" where
  "or_assign = combine_assign (\<lambda>l r. l OR r)"

definition xor_assign :: "BinaryVector \<Rightarrow> BinaryVector \<Rightarrow> BinaryVector result" where
  "xor_assign = combine_assign (\<lambda>l r. l XOR r)"

definition ToggleBits :: "BinaryVector \<Rightarrow> BinaryVector result" where
  "ToggleBits v = MaskLastByte (v\<lparr>m_data := map (\<lambda>byte. NOT byte) (m_data v)\<rparr>)"

definition toggled :: "BinaryVector \<Rightarrow> BinaryVector result" where
  "toggled v = ToggleBits (BinaryVector_copy v)"

text \<open>The free operators copy the left operand (\<^verbatim>\<open>auto result = lhs\<close>), then combine in place.\<close>

definition bitand :: "BinaryVector \<Rightarrow> BinaryVector \<Rightarrow> BinaryVector result" where
  "bitand lhs rhs = and_assign (BinaryVector_copy lhs) rhs"

definition bitor :: "BinaryVector \<Rightarrow> BinaryVector \<Rightarrow> BinaryVector result" where
  "bitor lhs rhs = or_assign (BinaryVector_copy lhs) rhs"

definition bitxor :: "BinaryVector \<Rightarrow> BinaryVector \<Rightarrow> BinaryVector result" where
  "bitxor lhs rhs = xor_assign (BinaryVector_copy lhs) rhs"

fun LeadingZeroesCount_loop :: "byte list \<Rightarrow> nat \<Rightarrow> nat \<Rightarrow> nat" where
  "LeadingZeroesCount_loop [] count remainingBits = count"
| "LeadingZeroesCount_loop (bits # ds) count remainingBits =
    (if bits = 0
     then (if remainingBits \<ge> 8
           then LeadingZeroesCount_loop ds (u32 (count + 8)) (remainingBits - 8)
           else u32 (count + remainingBits))
     else
      let lut = [4, 3, 2, 2, 1, 1, 1, 1, 0, 0, 0, 0, 0, 0, 0, 0] :: nat list;
          upper = lut ! unat (drop_bit 4 bits);
          lastCount = (if upper = 4 then upper + lut ! unat (bits AND 0x0F) else upper)
      in u32 (count + min lastCount remainingBits))"

definition LeadingZeroesCount :: "BinaryVector \<Rightarrow> nat" where
  "LeadingZeroesCount v = LeadingZeroesCount_loop (m_data v) 0 (m_usedBits v)"

section \<open>The abstraction: a vector is a list of bits\<close>

definition bits_of :: "BinaryVector \<Rightarrow> bool list" where
  "bits_of v = take (m_usedBits v) (data_bits (m_data v))"

definition bv_make :: "bool list \<Rightarrow> SizeProperty \<Rightarrow> BinaryVector" where
  "bv_make bs p = \<lparr>m_data = pack bs, m_usedBits = length bs, m_sizeProperty = p\<rparr>"

definition bv_inv :: "BinaryVector \<Rightarrow> bool" where
  "bv_inv v \<longleftrightarrow>
    m_usedBits v < 4294967296
    \<and> length (m_data v) = (m_usedBits v + 7) div 8
    \<and> list_all Not (drop (m_usedBits v) (data_bits (m_data v)))"

section \<open>Masks, the canonical vector and appending one byte\<close>

lemma LEFT_BITS_MASK_8_nth: "n \<le> 8 \<Longrightarrow> LEFT_BITS_MASK_8 ! n = NOT (mask (8 - n))"
proof -
  assume "n \<le> 8"
  then consider "n = 0" | "n = 1" | "n = 2" | "n = 3" | "n = 4" | "n = 5" | "n = 6" | "n = 7" | "n = 8"
    by linarith
  then show ?thesis
    by cases (simp_all add: LEFT_BITS_MASK_8_def mask_numeral)
qed

lemma LEFT_BITS_CLEAR_MASK_8_nth: "n \<le> 8 \<Longrightarrow> LEFT_BITS_CLEAR_MASK_8 ! n = mask (8 - n)"
proof -
  assume "n \<le> 8"
  then consider "n = 0" | "n = 1" | "n = 2" | "n = 3" | "n = 4" | "n = 5" | "n = 6" | "n = 7" | "n = 8"
    by linarith
  then show ?thesis
    by cases (simp_all add: LEFT_BITS_CLEAR_MASK_8_def mask_numeral)
qed

lemma RIGHT_BITS_MASK_8_nth: "n \<le> 8 \<Longrightarrow> RIGHT_BITS_MASK_8 ! n = mask n"
proof -
  assume "n \<le> 8"
  then consider "n = 0" | "n = 1" | "n = 2" | "n = 3" | "n = 4" | "n = 5" | "n = 6" | "n = 7" | "n = 8"
    by linarith
  then show ?thesis
    by cases (simp_all add: RIGHT_BITS_MASK_8_def mask_numeral)
qed

lemma BIT_MASK_8_nth: "n < 8 \<Longrightarrow> BIT_MASK_8 ! n = push_bit (7 - n) 1"
proof -
  assume "n < 8"
  then consider "n = 0" | "n = 1" | "n = 2" | "n = 3" | "n = 4" | "n = 5" | "n = 6" | "n = 7"
    by linarith
  then show ?thesis
    by cases (simp_all add: BIT_MASK_8_def push_bit_eq_mult)
qed

definition value_bits :: "nat \<Rightarrow> BitsAlignment \<Rightarrow> bool list \<Rightarrow> bool list" where
  "value_bits n alignment bs =
    (if alignment = Right then drop (length bs - n) bs else take n bs)"

lemma byte_and_mask:
  "n \<le> 8 \<Longrightarrow> byte_of_bits bs AND LEFT_BITS_MASK_8 ! n = byte_of_bits (take n bs)"
  by (rule byte_eqI) (auto simp: LEFT_BITS_MASK_8_nth bit_byte_of_bits bit_simps)

lemma byte_or_drop:
  "length rs \<le> 8 \<Longrightarrow> byte_of_bits rs OR drop_bit (length rs) (byte_of_bits xs) = byte_of_bits (rs @ xs)"
  by (rule byte_eqI)
    (auto simp: bit_byte_of_bits bit_simps nth_append less_diff_conv2 diff_diff_left add.commute not_less)

lemma byte_push:
  "length xs \<le> 8 \<Longrightarrow> push_bit m (byte_of_bits xs) = byte_of_bits (drop m xs)"
  by (rule byte_eqI) (auto simp: bit_byte_of_bits bit_simps algebra_simps)

lemma byte_push_byte: "m \<le> 8 \<Longrightarrow> push_bit m b = byte_of_bits (drop m (byte_bits b))"
  using byte_push [of "byte_bits b" m] by simp

lemma byte_of_bits_take: "8 \<le> n \<Longrightarrow> byte_of_bits (take n bs) = byte_of_bits bs"
  by (rule byte_eqI) (auto simp: bit_byte_of_bits)

lemma aligned_value:
  assumes "n \<le> 8"
  shows "(if al = Right then push_bit (8 - n) value else value) AND LEFT_BITS_MASK_8 ! n
         = byte_of_bits (value_bits n al (byte_bits value))"
proof (cases "al = Right")
  case True
  then show ?thesis
    using assms by (simp add: byte_push_byte byte_and_mask value_bits_def)
next
  case False
  then show ?thesis
    using assms byte_and_mask [of n "byte_bits value"] by (simp add: value_bits_def)
qed

lemma length_value_bits: "n \<le> length bs \<Longrightarrow> length (value_bits n al bs) = n"
  by (simp add: value_bits_def)

lemma bv_make_sel [simp]:
  "m_data (bv_make bs p) = pack bs" "m_usedBits (bv_make bs p) = length bs"
  "m_sizeProperty (bv_make bs p) = p"
  by (simp_all add: bv_make_def)

lemma bv_make_inject [simp]: "bv_make bs p = bv_make cs q \<longleftrightarrow> bs = cs \<and> p = q"
  by (auto simp: bv_make_def pack_inject)

lemma bits_of_make [simp]: "bits_of (bv_make bs p) = bs"
  by (simp add: bits_of_def data_bits_pack)

lemma bv_inv_make [simp]: "bv_inv (bv_make bs p) \<longleftrightarrow> length bs < 4294967296"
  by (auto simp: bv_inv_def length_pack data_bits_pack list_all_iff)

lemma ceil8: "8 * ((n + 7) div 8) = n + padding n"
proof (cases "n mod 8 = 0")
  case True
  then show ?thesis by (auto elim: dvdE simp: mod_eq_0_iff_dvd padding_def)
next
  case False
  define q r where "q = n div 8" and "r = n mod 8"
  have n: "n = 8 * q + r" and r: "0 < r" "r < 8"
    using False by (simp_all add: q_def r_def)
  have "(8 * q + (r + 7)) div 8 = q + (r + 7) div 8"
    by simp
  moreover have "(r + 7) div 8 = 1"
    using r by (simp add: div_if)
  ultimately have "8 * ((n + 7) div 8) = 8 * q + 8"
    by (simp add: n add.assoc)
  moreover have "padding n = 8 - r"
    using r by (simp add: padding_def n)
  ultimately show ?thesis
    using n r by simp
qed

lemma bv_inv_imp_make:
  assumes "bv_inv v"
  shows "v = bv_make (bits_of v) (m_sizeProperty v)"
proof -
  let ?n = "m_usedBits v" and ?d = "data_bits (m_data v)"
  have len: "length ?d = ?n + padding ?n"
    using assms by (simp add: bv_inv_def ceil8)
  have "drop ?n ?d = replicate (padding ?n) False"
    using assms len by (auto simp: bv_inv_def list_all_iff intro!: replicate_eqI)
  then have "?d = bits_of v @ replicate (padding ?n) False"
    unfolding bits_of_def by (metis append_take_drop_id)
  moreover have l: "length (bits_of v) = ?n"
    using len by (simp add: bits_of_def)
  ultimately have "m_data v = pack (bits_of v)"
    by (intro pack_unique) simp
  with l show ?thesis
    by (simp add: bv_make_def)
qed

lemma bv_inv_cases:
  assumes "bv_inv v"
  obtains bs p where "v = bv_make bs p" and "length bs < 4294967296"
  using bv_inv_imp_make [OF assms] assms bv_inv_make by metis

lemma bv_inv_iff:
  "bv_inv v \<longleftrightarrow> (\<exists>bs p. v = bv_make bs p \<and> length bs < 4294967296)"
  using bv_inv_cases by force

lemma pack_aligned_rest:
  assumes "length fs mod 8 = 0" and "rs \<noteq> []" and "length rs \<le> 8"
  shows "pack (fs @ rs) = pack fs @ [byte_of_bits rs]"
  using assms by (simp add: pack_append pack_short)

text \<open>The three cases of \<^verbatim>\<open>Append\<close>, on the last byte of the vector.\<close>

lemma Append_u8_cases:
  fixes v :: BinaryVector
  assumes n: "0 < n" "n \<le> 8" and nf: "m_sizeProperty v \<noteq> Fixed"
    and k: "k = m_usedBits v mod 8"
    and xs: "xs = value_bits n al (byte_bits value)"
  shows "k = 0 \<Longrightarrow> Append_u8 value n al v
           = Inr (v\<lparr>m_usedBits := u32 (m_usedBits v + n), m_data := m_data v @ [byte_of_bits xs]\<rparr>)"
    and "k \<noteq> 0 \<Longrightarrow> n \<le> 8 - k \<Longrightarrow> m_data v = ds @ [l] \<Longrightarrow> Append_u8 value n al v
           = Inr (v\<lparr>m_usedBits := u32 (m_usedBits v + n),
                    m_data := ds @ [l OR drop_bit k (byte_of_bits xs)]\<rparr>)"
    and "k \<noteq> 0 \<Longrightarrow> 8 - k < n \<Longrightarrow> m_data v = ds @ [l] \<Longrightarrow> Append_u8 value n al v
           = Inr (v\<lparr>m_usedBits := u32 (m_usedBits v + n),
                    m_data := ds @ [l OR drop_bit k (byte_of_bits xs), push_bit (8 - k) (byte_of_bits xs)]\<rparr>)"
proof -
  have val: "(if al = Right then push_bit (8 - n) value else value) AND LEFT_BITS_MASK_8 ! n
             = byte_of_bits xs"
    using n by (simp add: aligned_value xs)
  have k8: "k < 8" "8 - (8 - k) = k" using k by simp_all
  show "k = 0 \<Longrightarrow> Append_u8 value n al v
           = Inr (v\<lparr>m_usedBits := u32 (m_usedBits v + n), m_data := m_data v @ [byte_of_bits xs]\<rparr>)"
    using n nf by (simp add: Append_u8_def FixedSize_def val flip: k)
  show "k \<noteq> 0 \<Longrightarrow> n \<le> 8 - k \<Longrightarrow> m_data v = ds @ [l] \<Longrightarrow> Append_u8 value n al v
           = Inr (v\<lparr>m_usedBits := u32 (m_usedBits v + n),
                    m_data := ds @ [l OR drop_bit k (byte_of_bits xs)]\<rparr>)"
    using n nf k8
    unfolding Append_u8_def Let_def val k [symmetric]
    by (simp add: FixedSize_def update_back_def with_data_def)
  show "k \<noteq> 0 \<Longrightarrow> 8 - k < n \<Longrightarrow> m_data v = ds @ [l] \<Longrightarrow> Append_u8 value n al v
           = Inr (v\<lparr>m_usedBits := u32 (m_usedBits v + n),
                    m_data := ds @ [l OR drop_bit k (byte_of_bits xs), push_bit (8 - k) (byte_of_bits xs)]\<rparr>)"
    using n nf k8
    unfolding Append_u8_def Let_def val k [symmetric]
    by (simp add: FixedSize_def update_back_def with_data_def)
qed

lemma Append_u8_make:
  assumes n: "0 < n" "n \<le> 8" and p: "p \<noteq> Fixed" and small: "length bs + n < 4294967296"
  shows "Append_u8 value n al (bv_make bs p)
         = Inr (bv_make (bs @ value_bits n al (byte_bits value)) p)"
proof -
  define xs where "xs = value_bits n al (byte_bits value)"
  have lx: "length xs = n"
    using n by (simp add: xs_def length_value_bits)
  obtain fs rs where bs: "bs = fs @ rs" "length fs mod 8 = 0" "length rs = length bs mod 8"
    using split_aligned [of bs] by metis
  have base: "m_sizeProperty (bv_make bs p) \<noteq> Fixed" "length rs = m_usedBits (bv_make bs p) mod 8"
    using p bs(3) by simp_all
  note step = Append_u8_cases [OF n base xs_def]
  have used: "u32 (length bs + n) = length (bs @ xs)"
    using small lx by simp
  have k: "length rs < 8" using bs(3) by simp
  have pk: "pack bs = pack fs @ [byte_of_bits rs]" if "rs \<noteq> []"
    using bs(1,2) that k by (simp add: pack_aligned_rest)
  have orr: "byte_of_bits rs OR drop_bit (length rs) (byte_of_bits xs) = byte_of_bits (rs @ xs)"
    using byte_or_drop [of rs xs] k by simp
  have psh: "push_bit m (byte_of_bits xs) = byte_of_bits (drop m xs)" for m
    using byte_push [of xs] lx n by simp
  consider "rs = []" | "rs \<noteq> []" "n \<le> 8 - length rs" | "rs \<noteq> []" "8 - length rs < n"
    by linarith
  then show ?thesis
  proof cases
    case 1
    have "pack (bs @ xs) = pack bs @ [byte_of_bits xs]"
      using bs(1,2) 1 lx n pack_aligned_rest [of fs xs] by auto
    then show ?thesis
      using step(1) 1 used by (simp add: bv_make_def xs_def)
  next
    case 2
    have "pack (bs @ xs) = pack fs @ [byte_of_bits (rs @ xs)]"
      using bs(1,2) 2 k lx pack_aligned_rest [of fs "rs @ xs"] by simp
    then show ?thesis
      using step(2) 2 used pk orr by (simp add: bv_make_def xs_def)
  next
    case 3
    let ?a = "take (8 - length rs) xs" and ?b = "drop (8 - length rs) xs"
    have l8: "length (rs @ ?a) = 8" and ne: "?b \<noteq> []" "length ?b \<le> 8"
      using k lx 3 n by auto
    have "pack ((rs @ ?a) @ ?b) = [byte_of_bits (rs @ ?a), byte_of_bits ?b]"
      by (simp only: pack_byte_append [OF l8] pack_short [OF ne])
    moreover have "byte_of_bits (rs @ ?a) = byte_of_bits (rs @ xs)"
      using byte_of_bits_take [of 8 "rs @ xs"] k by simp
    ultimately have "pack (bs @ xs) = pack fs @ [byte_of_bits (rs @ xs), byte_of_bits ?b]"
      using bs(1,2) by (simp add: pack_append)
    then show ?thesis
      using step(3) 3 used pk orr psh by (simp add: bv_make_def xs_def)
  qed
qed

section \<open>Appending vectors, chunks and machine words\<close>

lemma Append_u8_fixed: "0 < n \<Longrightarrow> Append_u8 value n al (bv_make bs Fixed) = Inl LogicError"
  by (simp add: Append_u8_def FixedSize_def)

lemma value_bits_all [simp]: "length bs = n \<Longrightarrow> value_bits n al bs = bs"
  by (simp add: value_bits_def)

lemma value_bits_Left_byte [simp]: "length cs \<le> 8 \<Longrightarrow> value_bits (length cs) Left (byte_bits (byte_of_bits cs)) = cs"
  by (simp add: value_bits_def byte_bits_of_bits)

lemma Append_bytes_make:
  assumes "p \<noteq> Fixed" and "length bs + length cs < 4294967296"
  shows "Append_bytes (pack cs) (length cs) (bv_make bs p) = Inr (bv_make (bs @ cs) p)"
  using assms(2)
proof (induction cs arbitrary: bs rule: pack.induct)
  case (1 cs)
  consider "cs = []" | "cs \<noteq> []" "length cs < 8" | "8 \<le> length cs" by linarith
  then show ?case
  proof cases
    case 1
    then show ?thesis by simp
  next
    case 2
    have "pack cs = [byte_of_bits cs]"
      using 2 by (intro pack_short) auto
    then show ?thesis
      using 2 assms(1) "1.prems" Append_u8_make [of "length cs" p bs "byte_of_bits cs" Left] by auto
  next
    case 3
    then have ne: "cs \<noteq> []" by auto
    have t8: "length (take 8 cs) = 8" using 3 by simp
    have "Append_u8 (byte_of_bits (take 8 cs)) 8 Right (bv_make bs p)
          = Inr (bv_make (bs @ take 8 cs) p)"
      using Append_u8_make [of 8 p bs "byte_of_bits (take 8 cs)" Right] assms(1) "1.prems" 3 t8
      by simp
    moreover have "Append_bytes (pack (drop 8 cs)) (length (drop 8 cs)) (bv_make (bs @ take 8 cs) p)
          = Inr (bv_make ((bs @ take 8 cs) @ drop 8 cs) p)"
      using 3 "1.prems" by (intro "1.IH" ne) simp
    ultimately show ?thesis
      using 3 ne by (simp add: pack_step)
  qed
qed

lemma Append_make:
  assumes "length bs + length cs < 4294967296"
  shows "Append (bv_make cs q) (bv_make bs p)
         = (if p = Fixed then Inl LogicError else Inr (bv_make (bs @ cs) p))"
  using assms by (simp add: Append_def FixedSize_def Append_bytes_make)

text \<open>Where the search of the first chunk of \<^verbatim>\<open>AppendChunks\<close> stops.\<close>

lemma AppendChunks_start_eq:
  assumes "0 < n" and "n \<le> 8 * Suc m"
  shows "AppendChunks_start al n (8 * m) c
         = (8 * ((n - 1) div 8), if al = Right then c + (m - (n - 1) div 8) else c)"
  using assms
proof (induction m arbitrary: c)
  case 0
  then have "(n - 1) div 8 = 0" by simp
  then show ?case
    using 0 by (simp add: AppendChunks_start.simps [of al n 0 c])
next
  case (Suc m)
  show ?case
  proof (cases "n \<le> 8 * Suc m")
    case True
    have "(n - 1) div 8 \<le> m" using True Suc.prems(1) by simp
    then show ?thesis
      using Suc True by (subst AppendChunks_start.simps) (simp add: Suc_diff_le)
  next
    case False
    then have "(n - 1) div 8 = Suc m" using Suc.prems by simp
    then show ?thesis
      using False by (subst AppendChunks_start.simps) simp
  qed
qed


lemma data_bits_drop: "data_bits (drop c ds) = drop (8 * c) (data_bits ds)"
proof (induction ds arbitrary: c)
  case (Cons d ds)
  then show ?case by (cases c) simp_all
qed simp

lemma drop_data_bits_step:
  "c < length ds \<Longrightarrow> drop (8 * c) (data_bits ds) = byte_bits (ds ! c) @ drop (8 * Suc c) (data_bits ds)"
  unfolding data_bits_drop [symmetric] by (simp flip: Cons_nth_drop_Suc)

lemma AppendChunks_loop_Right:
  assumes "8 * q < n" and "n \<le> 8 * q + 8" and "c + Suc q = length ds"
    and "p \<noteq> Fixed" and "length bs + n < 4294967296"
  shows "AppendChunks_loop Right ds n (8 * q) c (bv_make bs p)
         = Inr (bv_make (bs @ drop (8 * length ds - n) (data_bits ds)) p)"
  using assms
proof (induction q arbitrary: n c bs)
  case 0
  have "drop (8 * length ds - n) (data_bits ds) = drop (8 - n) (drop (8 * c) (data_bits ds))"
    using 0 by (simp add: algebra_simps flip: "0.prems"(3))
  then show ?case
    using 0 Append_u8_make [of n p bs "ds ! c" Right] drop_data_bits_step [of c ds]
    by (simp add: AppendChunks_loop.simps [of Right ds n 0 c] read_at_def value_bits_def)
next
  case (Suc q)
  define r where "r = n - 8 * Suc q"
  define xs where "xs = drop (8 - r) (byte_bits (ds ! c))"
  have r: "0 < r" "r \<le> 8" "n = 8 * Suc q + r" and lx: "length xs = r"
    using Suc.prems by (simp_all add: r_def xs_def)
  have rest: "AppendChunks_loop Right ds (8 * Suc q) (8 * q) (Suc c) (bv_make (bs @ xs) p)
      = Inr (bv_make ((bs @ xs) @ drop (8 * length ds - 8 * Suc q) (data_bits ds)) p)"
    using Suc.prems r lx by (intro Suc.IH) simp_all
  have "drop (8 * length ds - n) (data_bits ds) = drop (8 - r) (drop (8 * c) (data_bits ds))"
    using r Suc.prems(3) by (simp add: algebra_simps flip: Suc.prems(3))
  moreover have "8 * length ds - 8 * Suc q = 8 * Suc c"
    using Suc.prems(3) by simp
  ultimately have "drop (8 * length ds - n) (data_bits ds)
      = xs @ drop (8 * length ds - 8 * Suc q) (data_bits ds)"
    using drop_data_bits_step [of c ds] Suc.prems(3) r by (simp add: xs_def)
  moreover have "Append_u8 (ds ! c) r Right (bv_make bs p) = Inr (bv_make (bs @ xs) p)"
    using Append_u8_make [of r p bs "ds ! c" Right] Suc.prems r by (simp add: value_bits_def xs_def)
  ultimately show ?case
    using Suc.prems r rest
    by (subst AppendChunks_loop.simps) (simp add: read_at_def)
qed

lemma AppendChunks_loop_Left:
  assumes "8 * q < n" and "n \<le> 8 * q + 8" and "c + q < length ds"
    and "p \<noteq> Fixed" and "length bs + n < 4294967296"
  shows "AppendChunks_loop Left ds n (8 * q) c (bv_make bs p)
         = Inr (bv_make (bs @ take n (drop (8 * c) (data_bits ds))) p)"
  using assms
proof (induction q arbitrary: n c bs)
  case 0
  then show ?case
    using Append_u8_make [of n p bs "ds ! c" Left] drop_data_bits_step [of c ds]
    by (simp add: AppendChunks_loop.simps [of Left ds n 0 c] read_at_def value_bits_def)
next
  case (Suc q)
  have "AppendChunks_loop Left ds (n - 8) (8 * q) (Suc c) (bv_make (bs @ byte_bits (ds ! c)) p)
      = Inr (bv_make ((bs @ byte_bits (ds ! c)) @ take (n - 8) (drop (8 * Suc c) (data_bits ds))) p)"
    using Suc.prems by (intro Suc.IH) simp_all
  moreover have "Append_u8 (ds ! c) 8 Left (bv_make bs p) = Inr (bv_make (bs @ byte_bits (ds ! c)) p)"
    using Append_u8_make [of 8 p bs "ds ! c" Left] Suc.prems by simp
  ultimately show ?case
    using Suc.prems drop_data_bits_step [of c ds]
    by (subst AppendChunks_loop.simps) (simp add: read_at_def)
qed

lemma AppendChunks_make:
  assumes "0 < n" and "n \<le> 8 * length ds" and "length ds < 32"
    and "p \<noteq> Fixed" and "length bs + n < 4294967296"
  shows "AppendChunks n al ds (bv_make bs p)
         = Inr (bv_make (bs @ value_bits n al (data_bits ds)) p)"
proof -
  obtain m where m: "length ds = Suc m" using assms by (cases "length ds") auto
  define q where "q = (n - 1) div 8"
  have q: "8 * q < n" "n \<le> 8 * q + 8" "q \<le> m"
    using assms(1,2) m unfolding q_def by simp_all
  have u: "u8 (length ds * 8) = 8 * length ds" using assms(3) by simp
  have "AppendChunks_start al n (8 * length ds - 8) 0 = (8 * q, if al = Right then m - q else 0)"
    using AppendChunks_start_eq [of n m al 0] assms m by (simp add: q_def)
  then have "AppendChunks n al ds (bv_make bs p)
      = AppendChunks_loop al ds n (8 * q) (if al = Right then m - q else 0) (bv_make bs p)"
    using assms u by (simp add: AppendChunks_def FixedSize_def mult.commute)
  also have "\<dots> = Inr (bv_make (bs @ value_bits n al (data_bits ds)) p)"
    using q m assms AppendChunks_loop_Right [of q n "m - q" ds p bs]
      AppendChunks_loop_Left [of q n 0 ds p bs]
    by (cases al) (simp_all add: value_bits_def)
  finally show ?thesis .
qed

definition word_bits :: "'a::len word \<Rightarrow> bool list" where
  "word_bits w = map (bit w) (rev [0..<LENGTH('a)])"

lemma length_word_bits [simp]: "length (word_bits (w :: 'a::len word)) = LENGTH('a)"
  by (simp add: word_bits_def)

lemma word_bits_nth: "i < LENGTH('a) \<Longrightarrow> word_bits (w :: 'a::len word) ! i = bit w (LENGTH('a) - Suc i)"
  by (simp add: word_bits_def rev_nth)

lemma word_bits_byte: "word_bits b = byte_bits b"
  by (rule nth_equalityI) (simp_all add: word_bits_nth byte_bits_nth)

lemma data_bits_u16: "data_bits [ucast (drop_bit 8 v), ucast v] = word_bits (v :: 16 word)"
  by (simp add: byte_bits_def word_bits_def bit_simps upt_rec [of 0 16] upt_rec [of "Suc 0" 16] flip: numeral_2_eq_2)

lemma data_bits_u32:
  "data_bits [ucast (drop_bit 24 v), ucast (drop_bit 16 v), ucast (drop_bit 8 v), ucast v]
   = word_bits (v :: 32 word)"
  by (simp add: byte_bits_def word_bits_def bit_simps upt_rec [of 0 32] upt_rec [of "Suc 0" 32] flip: numeral_2_eq_2)

lemma data_bits_u64:
  "data_bits [ucast (drop_bit 56 v), ucast (drop_bit 48 v), ucast (drop_bit 40 v), ucast (drop_bit 32 v),
     ucast (drop_bit 24 v), ucast (drop_bit 16 v), ucast (drop_bit 8 v), ucast v]
   = word_bits (v :: 64 word)"
  by (simp add: byte_bits_def word_bits_def bit_simps upt_rec [of 0 64] upt_rec [of "Suc 0" 64] flip: numeral_2_eq_2)

lemma Append_u16_make:
  "0 < n \<Longrightarrow> n \<le> 16 \<Longrightarrow> p \<noteq> Fixed \<Longrightarrow> length bs + n < 4294967296 \<Longrightarrow>
   Append_u16 v n al (bv_make bs p) = Inr (bv_make (bs @ value_bits n al (word_bits v)) p)"
  by (simp add: Append_u16_def FixedSize_def AppendChunks_make del: data_bits_Cons
      flip: data_bits_u16)

lemma Append_u32_make:
  "0 < n \<Longrightarrow> n \<le> 32 \<Longrightarrow> p \<noteq> Fixed \<Longrightarrow> length bs + n < 4294967296 \<Longrightarrow>
   Append_u32 v n al (bv_make bs p) = Inr (bv_make (bs @ value_bits n al (word_bits v)) p)"
  by (simp add: Append_u32_def FixedSize_def AppendChunks_make del: data_bits_Cons
      flip: data_bits_u32)

lemma Append_u64_make:
  "0 < n \<Longrightarrow> n \<le> 64 \<Longrightarrow> p \<noteq> Fixed \<Longrightarrow> length bs + n < 4294967296 \<Longrightarrow>
   Append_u64 v n al (bv_make bs p) = Inr (bv_make (bs @ value_bits n al (word_bits v)) p)"
  by (simp add: Append_u64_def FixedSize_def AppendChunks_make del: data_bits_Cons
      flip: data_bits_u64)

section \<open>Filling, masking and construction from data\<close>

lemma byte_bits_0 [simp]: "byte_bits 0 = replicate 8 False"
  and byte_bits_FF [simp]: "byte_bits 0xFF = replicate 8 True"
  by (simp_all add: byte_bits_def numeral_eq_Suc)

lemma data_bits_replicate_const: "byte_bits b = replicate 8 x \<Longrightarrow> data_bits (replicate m b) = replicate (8 * m) x"
  by (induction m) (simp_all flip: replicate_add)

lemma pack_replicate_append:
  "pack (replicate (8 * m) x @ bs) = replicate m (if x then 0xFF else 0) @ pack bs"
  using pack_data_bits_append [of "replicate m (if x then 0xFF else 0)" bs]
  by (simp add: data_bits_replicate_const split: if_splits)

lemma AppendBits_make:
  assumes "length bs mod 8 = 0 \<or> count < 8" and "p \<noteq> Fixed \<or> count mod 8 = 0"
    and "length bs + count < 4294967296"
  shows "AppendBits b count (bv_make bs p) = (bv_make (bs @ replicate count b) p, None)"
proof -
  define fill where "fill = (if b then 0xFF else 0 :: byte)"
  define q where "q = count div 8"
  have count: "count = 8 * q + count mod 8" by (simp add: q_def)
  have rem: "count - 8 * (count div 8) = count mod 8" by (simp add: minus_mult_div_eq_mod)
  have one: "AppendBits b (count mod 8) (bv_make bs' p) = (bv_make (bs' @ replicate (count mod 8) b) p, None)"
    if "length bs' + count mod 8 < 4294967296" for bs'
    using Append_u8_make [of "count mod 8" p bs' fill Right] assms(2) that
    by (cases "count mod 8 = 0")
      (auto simp: AppendBits_def fill_def value_bits_def min_def)
  show ?thesis
  proof (cases "q = 0")
    case True
    then have "count mod 8 = count" using count by simp
    then show ?thesis using one [of bs] assms(3) by simp
  next
    case False
    then have "length bs mod 8 = 0" using assms(1) count by auto
    then have pk: "pack (bs @ replicate (8 * q) b) = pack bs @ replicate q fill"
      using pack_replicate_append [of q b "[]"] by (simp add: pack_append fill_def)
    have v1: "(bv_make bs p)\<lparr>m_data := m_data (bv_make bs p) @ replicate (count div 8) (if b then 0xFF else 0),
        m_usedBits := u32 (m_usedBits (bv_make bs p) + 8 * (count div 8))\<rparr>
        = bv_make (bs @ replicate (8 * q) b) p"
      using pk assms(3) count by (simp add: bv_make_def q_def fill_def)
    have "AppendBits b count (bv_make bs p)
        = AppendBits b (count mod 8) (bv_make (bs @ replicate (8 * q) b) p)"
      using False unfolding AppendBits_def Let_def rem v1 by (simp add: q_def)
    also have "\<dots> = (bv_make ((bs @ replicate (8 * q) b) @ replicate (count mod 8) b) p, None)"
      using count assms(3) by (intro one) simp
    also have "(bs @ replicate (8 * q) b) @ replicate (count mod 8) b = bs @ replicate count b"
      using count by (metis append_assoc replicate_add)
    finally show ?thesis .
  qed
qed

lemma MaskLastByte_bits:
  assumes "length (m_data v) = (m_usedBits v + 7) div 8"
  shows "MaskLastByte v = Inr (bv_make (bits_of v) (m_sizeProperty v))"
proof -
  let ?n = "m_usedBits v" and ?ds = "m_data v"
  define k where "k = ?n mod 8"
  have len: "8 * length ?ds = ?n + padding ?n"
    using assms ceil8 [of ?n] by simp
  have lb: "length (bits_of v) = ?n"
    using len by (simp add: bits_of_def)
  show ?thesis
  proof (cases "k = 0")
    case True
    then have "bits_of v = data_bits ?ds"
      using len by (simp add: bits_of_def k_def)
    then have "?ds = pack (bits_of v)" by simp
    then show ?thesis
      using True lb by (simp add: MaskLastByte_def bv_make_def k_def)
  next
    case False
    then have pos: "0 < length ?ds" using len by (auto simp: k_def)
    define fs l where "fs = butlast ?ds" and "l = last ?ds"
    have ds: "?ds = fs @ [l]" using pos by (simp add: fs_def l_def)
    have "?n = 8 * length fs + k"
      using len False ds by (simp add: k_def padding_nz)
    then have bits: "bits_of v = data_bits fs @ take k (byte_bits l)"
      by (simp add: bits_of_def ds)
    have k8: "k < 8" by (simp add: k_def)
    have "pack (bits_of v) = fs @ pack (take k (byte_bits l))"
      by (simp add: bits pack_data_bits_append)
    also have "pack (take k (byte_bits l)) = [byte_of_bits (take k (byte_bits l))]"
      using False k8 by (intro pack_short) (auto simp: byte_bits_def)
    also have "byte_of_bits (take k (byte_bits l)) = l AND LEFT_BITS_MASK_8 ! k"
      using byte_and_mask [of k "byte_bits l"] k8 by simp
    finally have "pack (bits_of v) = fs @ [l AND LEFT_BITS_MASK_8 ! k]" .
    then show ?thesis
      using False lb
      by (simp add: MaskLastByte_def with_data_def update_back_def ds bv_make_def flip: k_def)
  qed
qed

definition fill_bits :: "nat \<Rightarrow> byte \<Rightarrow> bool list" where
  "fill_bits n fillPattern = take n (data_bits (replicate ((n + 7) div 8) fillPattern))"

lemma length_fill_bits [simp]: "length (fill_bits n b) = n"
  using ceil8 [of n] by (simp add: fill_bits_def)

lemma fill_bits_0 [simp]: "fill_bits n 0 = replicate n False"
  and fill_bits_FF [simp]: "fill_bits n 0xFF = replicate n True"
  using ceil8 [of n] by (simp_all add: fill_bits_def data_bits_replicate_const [OF byte_bits_0] data_bits_replicate_const [OF byte_bits_FF])

lemma BinaryVector_fill_MaskLastByte:
  "BinaryVector_fill n pat sp
   = MaskLastByte \<lparr>m_data = replicate (u32 (n + 7) div 8) pat, m_usedBits = n, m_sizeProperty = sp\<rparr>"
  by (simp add: BinaryVector_fill_def MaskLastByte_def Let_def)

lemma BinaryVector_fill_make:
  "n + 7 < 4294967296 \<Longrightarrow> BinaryVector_fill n pat sp = Inr (bv_make (fill_bits n pat) sp)"
  by (simp add: BinaryVector_fill_MaskLastByte MaskLastByte_bits bits_of_def fill_bits_def)

lemma data_bits_take: "data_bits (take c ds) = take (8 * c) (data_bits ds)"
proof (induction ds arbitrary: c)
  case (Cons d ds)
  then show ?case by (cases c) simp_all
qed simp

lemma BinaryVector_data_make:
  assumes "n + 7 < 4294967296"
  shows "BinaryVector_data ds n sp = Inr (bv_make (take n (data_bits ds @ replicate n False)) sp)"
proof -
  have c: "8 * ((n + 7) div 8) = n + padding n" by (rule ceil8)
  let ?m = "(n + 7) div 8"
  have "take n (data_bits (resize ?m ds)) = take n (data_bits ds @ replicate n False)"
  proof (rule nth_equalityI)
    show "length (take n (data_bits (resize ?m ds))) = length (take n (data_bits ds @ replicate n False))"
      using c by (simp add: resize_def)
    fix i assume i: "i < length (take n (data_bits (resize ?m ds)))"
    show "take n (data_bits (resize ?m ds)) ! i = take n (data_bits ds @ replicate n False) ! i"
      using i c by (auto simp: resize_def nth_append data_bits_take data_bits_replicate_const [OF byte_bits_0])
  qed
  then show ?thesis
    using assms by (simp add: BinaryVector_data_def MaskLastByte_bits bits_of_def resize_def)
qed

section \<open>Bitwise operators, assignment and comparison\<close>

definition bitwise :: "(byte \<Rightarrow> byte \<Rightarrow> byte) \<Rightarrow> (bool \<Rightarrow> bool \<Rightarrow> bool) \<Rightarrow> bool" where
  "bitwise f g \<longleftrightarrow> (\<forall>l r. byte_bits (f l r) = map2 g (byte_bits l) (byte_bits r))"

lemma bitwise_and: "bitwise (\<lambda>l r. l AND r) (\<and>)"
  and bitwise_or: "bitwise (\<lambda>l r. l OR r) (\<or>)"
  and bitwise_xor: "bitwise (\<lambda>l r. l XOR r) (\<noteq>)"
  by (simp_all add: bitwise_def byte_bits_def bit_simps)

lemma combine_bytes_eq:
  "length ls = length rs \<Longrightarrow> combine_bytes f ls rs = Inr (map2 f ls rs)"
  by (induction f ls rs rule: combine_bytes.induct) simp_all

lemma data_bits_map2:
  assumes "bitwise f g" and "length ls = length rs"
  shows "data_bits (map2 f ls rs) = map2 g (data_bits ls) (data_bits rs)"
  using assms(2)
proof (induction ls rs rule: list_induct2)
  case (Cons l ls r rs)
  then show ?case
    using assms(1) by (simp add: bitwise_def zip_append)
qed simp

lemma combine_assign_make:
  assumes "bitwise f g"
  shows "combine_assign f (bv_make bs p) (bv_make cs q)
         = (if length bs = length cs then Inr (bv_make (map2 g bs cs) p) else Inl LogicError)"
proof (cases "length bs = length cs")
  case True
  then have l: "length (pack bs) = length (pack cs)" by (simp add: length_pack)
  have "combine_assign f (bv_make bs p) (bv_make cs q)
      = MaskLastByte ((bv_make bs p)\<lparr>m_data := map2 f (pack bs) (pack cs)\<rparr>)"
    using True l by (simp add: combine_assign_def with_data_def combine_bytes_eq)
  also have "\<dots> = Inr (bv_make (take (length bs) (map2 g (data_bits (pack bs)) (data_bits (pack cs)))) p)"
    using l data_bits_map2 [OF assms l]
    by (subst MaskLastByte_bits) (simp_all add: length_pack bits_of_def)
  also have "take (length bs) (map2 g (data_bits (pack bs)) (data_bits (pack cs))) = map2 g bs cs"
    using True by (simp add: data_bits_pack take_map zip_append)
  finally show ?thesis using True by simp
qed (simp add: combine_assign_def)

lemmas and_assign_make = combine_assign_make [OF bitwise_and, folded and_assign_def]
  and or_assign_make = combine_assign_make [OF bitwise_or, folded or_assign_def]
  and xor_assign_make = combine_assign_make [OF bitwise_xor, folded xor_assign_def]

lemma data_bits_not: "data_bits (map (\<lambda>b. NOT b) ds) = map Not (data_bits ds)"
  by (induction ds) (simp_all add: byte_bits_def bit_simps)

lemma ToggleBits_make: "ToggleBits (bv_make bs p) = Inr (bv_make (map Not bs) p)"
  unfolding ToggleBits_def
  by (subst MaskLastByte_bits)
    (simp_all add: length_pack bits_of_def data_bits_not take_map data_bits_pack)

lemma BinaryVector_copy_make [simp]:
  "BinaryVector_copy (bv_make bs p) = bv_make bs (if p = FixedOnCopy then FixedOnCopy else NotFixed)"
  by (simp add: BinaryVector_copy_def bv_make_def)

lemma BinaryVector_copy_as_make [simp]: "BinaryVector_copy_as (bv_make bs p) q = bv_make bs q"
  by (simp add: BinaryVector_copy_as_def BinaryVector_copy_def bv_make_def)

lemma BinaryVector_empty_make: "BinaryVector_empty = bv_make [] NotFixed"
  by (simp add: BinaryVector_empty_def bv_make_def)

lemma BinaryVector_move_make:
  "BinaryVector_move (bv_make bs p)
   = (bv_make bs (if p = FixedOnCopy then FixedOnCopy else NotFixed), bv_make [] NotFixed)"
  by (simp add: BinaryVector_move_def bv_make_def)

lemma Clear_make [simp]: "Clear (bv_make bs p) = bv_make [] p"
  by (simp add: Clear_def bv_make_def)

lemma FixSize_make [simp]: "FixSize b (bv_make bs p) = bv_make bs (if b then Fixed else NotFixed)"
  by (simp add: FixSize_def bv_make_def)

lemma set_sizeProperty_make [simp]: "(bv_make bs p)\<lparr>m_sizeProperty := q\<rparr> = bv_make bs q"
  by (simp add: bv_make_def)

lemma IsEmpty_make [simp]: "IsEmpty (bv_make bs p) \<longleftrightarrow> bs = []"
  by (simp add: IsEmpty_def pack.simps [of bs])

lemma BitsCount_make [simp]: "BitsCount (bv_make bs p) = length bs"
  by (simp add: BitsCount_def)

lemma BytesCount_make [simp]: "BytesCount (bv_make bs p) = (length bs + 7) div 8"
  by (simp add: BytesCount_def length_pack)

lemma FixedSize_make [simp]: "FixedSize (bv_make bs p) \<longleftrightarrow> p = Fixed"
  by (simp add: FixedSize_def)

lemma assign_copy_make:
  "assign_copy (bv_make bs p) (bv_make cs q)
   = (if p = Fixed \<and> length cs \<noteq> length bs then Inl LogicError
      else Inr (bv_make cs (if q = FixedOnCopy then FixedOnCopy else p)))"
  by (simp add: assign_copy_def bv_make_def FixedSize_def)

lemma assign_move_make:
  "assign_move (bv_make bs p) (bv_make cs q)
   = (if p = Fixed \<and> length cs \<noteq> length bs then Inl LogicError
      else Inr (bv_make cs (if q = FixedOnCopy then FixedOnCopy else p), bv_make [] NotFixed))"
  by (simp add: assign_move_def bv_make_def FixedSize_def)

lemma toggled_make:
  "toggled (bv_make bs p) = Inr (bv_make (map Not bs) (if p = FixedOnCopy then FixedOnCopy else NotFixed))"
  by (simp add: toggled_def ToggleBits_make)

lemma concatenate_make:
  "length bs + length cs < 4294967296 \<Longrightarrow>
   concatenate (bv_make bs p) (bv_make cs q)
   = Inr (bv_make (bs @ cs) (if p = FixedOnCopy then FixedOnCopy else NotFixed))"
  by (simp add: concatenate_def Append_make)

lemma PrependBits_make:
  "n + length bs < 4294967296 \<Longrightarrow> n + 7 < 4294967296 \<Longrightarrow>
   PrependBits n pat (bv_make bs p)
   = (if p = Fixed \<and> n \<noteq> 0 then Inl LogicError else Inr (bv_make (fill_bits n pat @ bs) p))"
  by (simp add: PrependBits_def BinaryVector_fill_make Append_make assign_move_make)

lemma IsNegative_make:
  "IsNegative (bv_make bs p) = (if bs = [] then Inl UndefinedBehaviour else Inr (hd bs))"
proof (cases bs)
  case (Cons b cs)
  have "(byte_of_bits (b # take 7 cs) AND 0x80 \<noteq> 0) = bit (byte_of_bits (b # take 7 cs)) 7"
    using and_exp_eq_0_iff_not_bit [of "byte_of_bits (b # take 7 cs)" 7] by simp
  also have "\<dots> = b"
    by (simp add: bit_byte_of_bits)
  finally show ?thesis
    using Cons by (simp add: IsNegative_def pack_step)
qed (simp add: IsNegative_def)

lemma pack_eq_masked:
  assumes "length bs = length cs" and "length bs mod 8 \<noteq> 0"
  shows "pack bs \<noteq> []" and "last (pack bs) AND LEFT_BITS_MASK_8 ! (length bs mod 8) = last (pack bs)"
proof -
  obtain fs rs where bs: "bs = fs @ rs" "length fs mod 8 = 0" "length rs = length bs mod 8"
    using split_aligned [of bs] by metis
  have "rs \<noteq> []" "length rs < 8" using bs(3) assms(2) by auto
  then have pk: "pack bs = pack fs @ [byte_of_bits rs]"
    using bs(1,2) by (simp add: pack_aligned_rest)
  then show "pack bs \<noteq> []" by simp
  have "byte_of_bits rs AND LEFT_BITS_MASK_8 ! length rs = byte_of_bits rs"
    using \<open>length rs < 8\<close> by (simp add: byte_and_mask)
  then show "last (pack bs) AND LEFT_BITS_MASK_8 ! (length bs mod 8) = last (pack bs)"
    unfolding pk bs(3) [symmetric] by simp
qed

lemma CompareEqualTo_make: "CompareEqualTo (bv_make bs p) (bv_make cs q) = Inr (bs = cs)"
proof (cases "length bs = length cs \<and> length bs mod 8 \<noteq> 0")
  case True
  then have e: "length bs = length cs" and m: "length bs mod 8 \<noteq> 0" "length cs mod 8 \<noteq> 0" by auto
  note b = pack_eq_masked [OF e m(1)] and c = pack_eq_masked [OF e [symmetric] m(2)]
  have split: "pack bs = pack cs \<longleftrightarrow> butlast (pack bs) = butlast (pack cs) \<and> last (pack bs) = last (pack cs)"
    using b(1) c(1) by (metis append_butlast_last_id)
  have "\<not> 1 < length (pack bs) \<Longrightarrow> butlast (pack bs) = butlast (pack cs)"
    using e by (simp add: length_pack butlast_conv_take)
  then show ?thesis
    using e m b c split pack_inject [OF e] by (auto simp: CompareEqualTo_def Let_def)
next
  case False
  then show ?thesis
    by (auto simp: CompareEqualTo_def pack_inject)
qed

lemma all_less8_rev: "(\<forall>i < 8 :: nat. P i) \<longleftrightarrow> (\<forall>i < 8. P (7 - i))"
proof
  assume r: "\<forall>i < 8. P (7 - i)"
  show "\<forall>i < 8. P i"
  proof (intro allI impI)
    fix i :: nat assume "i < 8"
    then have "7 - (7 - i) = i" by simp
    then show "P i" using r [rule_format, of "7 - i"] by simp
  qed
qed simp

lemma all_less_8_add: "(\<forall>i < 8 + n :: nat. P i) \<longleftrightarrow> (\<forall>i < 8. P i) \<and> (\<forall>i < n. P (8 + i))"
proof
  assume r: "(\<forall>i < 8. P i) \<and> (\<forall>i < n. P (8 + i))"
  show "\<forall>i < 8 + n. P i"
  proof (intro allI impI)
    fix i assume i: "i < 8 + n"
    show "P i"
      using r i spec [of "\<lambda>j. j < n \<longrightarrow> P (8 + j)" "i - 8"] by (cases "i < 8") auto
  qed
qed simp

lemma compare_masked_bits:
  assumes "length ls = length rs" and "length ls = length ms"
  shows "compare_masked ls rs ms
    = Inr (\<forall>i < 8 * length ls. data_bits ms ! i \<longrightarrow> data_bits ls ! i = data_bits rs ! i)"
  using assms
proof (induction ls rs ms rule: compare_masked.induct)
  case (2 l ls r rs m ms)
  have byte: "(l XOR r) AND m = 0 \<longleftrightarrow> (\<forall>i < 8. byte_bits m ! i \<longrightarrow> byte_bits l ! i = byte_bits r ! i)"
  proof -
    have "(l XOR r) AND m = 0 \<longleftrightarrow> (\<forall>i < 8. bit m i \<longrightarrow> bit l i = bit r i)"
      by (auto simp: bit_eq_iff bit_simps)
    also have "\<dots> \<longleftrightarrow> (\<forall>i < 8. bit m (7 - i) \<longrightarrow> bit l (7 - i) = bit r (7 - i))"
      by (rule all_less8_rev)
    finally show ?thesis by (simp add: byte_bits_nth)
  qed
  have len: "8 * length (l # ls) = 8 + 8 * length ls" by simp
  show ?case
    using 2 byte unfolding len all_less_8_add
    by (cases "l = r") (auto simp: nth_append)
qed simp_all

lemma CompareEqualTo_mask_make:
  "CompareEqualTo_mask (bv_make bs p) (bv_make cs q) (bv_make ms r)
   = (if ms = [] then Inr (bs = cs)
      else if length bs \<noteq> length cs then Inr False
      else if bs = [] then Inr True
      else if length ms \<noteq> length bs then Inl LogicError
      else Inr (\<forall>i < length bs. ms ! i \<longrightarrow> bs ! i = cs ! i))"
proof (cases "ms \<noteq> [] \<and> length bs = length cs \<and> bs \<noteq> [] \<and> length ms = length bs")
  case True
  then have "compare_masked (pack bs) (pack cs) (pack ms)
      = Inr (\<forall>i < 8 * length (pack bs). data_bits (pack ms) ! i
              \<longrightarrow> data_bits (pack bs) ! i = data_bits (pack cs) ! i)"
    by (intro compare_masked_bits) (simp_all add: length_pack)
  also have "(\<forall>i < 8 * length (pack bs). data_bits (pack ms) ! i
              \<longrightarrow> data_bits (pack bs) ! i = data_bits (pack cs) ! i)
      \<longleftrightarrow> (\<forall>i < length bs. ms ! i \<longrightarrow> bs ! i = cs ! i)"
    using True by (auto simp: length_pack ceil8 data_bits_pack nth_append)
  finally show ?thesis
    using True by (simp add: CompareEqualTo_mask_def)
next
  case False
  then show ?thesis
    by (auto simp: CompareEqualTo_mask_def CompareEqualTo_make)
qed

section \<open>Single bit updates and leading zeroes\<close>

lemma bits_update_byte:
  assumes "i < length bs" and "\<And>j. j < 8 \<Longrightarrow> byte_bits (f b) ! j = (if j = i mod 8 then x else byte_bits b ! j)"
    and "b = pack bs ! (i div 8)"
  shows "(pack bs)[i div 8 := f b] = pack (bs[i := x])"
proof (rule pack_unique, rule nth_equalityI)
  have len: "8 * length (pack bs) = length bs + padding (length bs)"
    by (simp add: length_pack ceil8)
  then show "length (data_bits ((pack bs)[i div 8 := f b]))
      = length (bs[i := x] @ replicate (padding (length (bs[i := x]))) False)"
    by simp
  have nth: "data_bits ds ! j = byte_bits (ds ! (j div 8)) ! (j mod 8)" if "j < 8 * length ds" for ds j
    using that
  proof (induction ds arbitrary: j)
    case (Cons d ds)
    show ?case
    proof (cases "j < 8")
      case False
      then have "j div 8 = Suc ((j - 8) div 8)" "j mod 8 = (j - 8) mod 8" "j - 8 < 8 * length ds"
        using Cons.prems by (auto simp: le_div_geq le_mod_geq)
      then show ?thesis using Cons.IH [of "j - 8"] False by (simp add: nth_append)
    qed (simp add: nth_append)
  qed simp
  fix j assume j: "j < length (data_bits ((pack bs)[i div 8 := f b]))"
  then have jl: "j < 8 * length (pack bs)" by simp
  have old: "byte_bits (pack bs ! (j div 8)) ! (j mod 8) = (bs @ replicate (padding (length bs)) False) ! j"
    using nth [OF jl] by (simp add: data_bits_pack)
  have il: "i div 8 < length (pack bs)"
    using assms(1) len by linarith
  have "data_bits ((pack bs)[i div 8 := f b]) ! j
      = byte_bits ((pack bs)[i div 8 := f b] ! (j div 8)) ! (j mod 8)"
    using jl by (intro nth) simp
  also have "\<dots> = (if j = i then x else (bs @ replicate (padding (length bs)) False) ! j)"
  proof (cases "j div 8 = i div 8")
    case True
    then have "j mod 8 = i mod 8 \<longleftrightarrow> j = i"
      by (metis mult_div_mod_eq)
    then show ?thesis
      using True assms(2) [of "j mod 8"] il old assms(3) by auto
  next
    case False
    then show ?thesis using old by auto
  qed
  also have "\<dots> = (bs[i := x] @ replicate (padding (length (bs[i := x]))) False) ! j"
    using assms(1) by (auto simp: nth_append)
  finally show "data_bits ((pack bs)[i div 8 := f b]) ! j
      = (bs[i := x] @ replicate (padding (length (bs[i := x]))) False) ! j" .
qed

lemma update_at_pack:
  assumes "i < length bs"
    and "\<And>b j. j < 8 \<Longrightarrow> byte_bits b ! (i mod 8) = bs ! i \<Longrightarrow>
           byte_bits (f b) ! j = (if j = i mod 8 then x else byte_bits b ! j)"
  shows "update_at (i div 8) f (pack bs) = Inr (pack (bs[i := x]))"
proof -
  have il: "i div 8 < (length bs + 7) div 8"
    using assms(1) by linarith
  let ?b = "pack bs ! (i div 8)"
  have eq: "8 * (i div 8) + i mod 8 = i" by simp
  then have "i mod 8 < length bs - 8 * (i div 8)"
    using assms(1) by linarith
  then have "byte_bits ?b ! (i mod 8) = bs ! i"
    using assms(1) eq by (simp add: pack_nth [OF il] byte_bits_of_bits nth_append)
  then have "(pack bs)[i div 8 := f ?b] = pack (bs[i := x])"
    using assms by (intro bits_update_byte) simp_all
  then show ?thesis
    using il by (simp add: update_at_def length_pack)
qed

lemma mask_bit_nth: "k < 8 \<Longrightarrow> j < 8 \<Longrightarrow> bit (BIT_MASK_8 ! k) (7 - j) \<longleftrightarrow> j = k"
  by (auto simp: BIT_MASK_8_nth bit_simps)

lemma SetBit_make:
  "SetBit i (bv_make bs p)
   = (if i < length bs then Inr (bv_make (bs[i := True]) p) else Inl InvalidArgument)"
  using update_at_pack [of i bs "\<lambda>b. b OR BIT_MASK_8 ! (i mod 8)" True]
  by (auto simp: SetBit_def with_data_def byte_bits_nth bit_simps mask_bit_nth bv_make_def)

lemma ClearBit_make:
  "ClearBit i (bv_make bs p)
   = (if i < length bs then Inr (bv_make (bs[i := False]) p) else Inl InvalidArgument)"
proof -
  have *: "byte_bits (b AND NOT (BIT_MASK_8 ! (i mod 8))) ! j
      = (if j = i mod 8 then False else byte_bits b ! j)" if "j < 8" for b :: byte and j
    using that mask_bit_nth [of "i mod 8" j] by (auto simp: byte_bits_nth bit_and_iff bit_not_iff)
  show ?thesis
    using update_at_pack [of i bs "\<lambda>b. b AND NOT (BIT_MASK_8 ! (i mod 8))" False] *
    by (simp add: ClearBit_def with_data_def bv_make_def)
qed

lemma ToggleBit_make:
  "ToggleBit i (bv_make bs p)
   = (if i < length bs then Inr (bv_make (bs[i := \<not> bs ! i]) p) else Inl InvalidArgument)"
  using update_at_pack [of i bs "\<lambda>b. b XOR BIT_MASK_8 ! (i mod 8)" "\<not> bs ! i"]
  by (auto simp: ToggleBit_def with_data_def byte_bits_nth bit_simps mask_bit_nth bv_make_def)

text \<open>Counting leading zeroes through the nibble table.\<close>

lemma byte_leading_zeroes:
  "(let lut = [4, 3, 2, 2, 1, 1, 1, 1, 0, 0, 0, 0, 0, 0, 0, 0] :: nat list;
        upper = lut ! unat (drop_bit 4 d);
        lastCount = (if upper = 4 then upper + lut ! unat (d AND 0x0F) else upper)
    in lastCount) = length (takeWhile Not (byte_bits d))"
proof -
  obtain b7 b6 b5 b4 b3 b2 b1 b0 where "byte_bits d = [b7, b6, b5, b4, b3, b2, b1, b0]"
    by (simp add: byte_bits_def)
  then have "d = byte_of_bits [b7, b6, b5, b4, b3, b2, b1, b0]"
    by (metis byte_of_bits_byte_bits)
  then show ?thesis
    by (cases b7; cases b6; cases b5; cases b4; cases b3; cases b2; cases b1; cases b0)
       (simp_all add: byte_of_bits_def byte_bits_def)
qed

lemma LeadingZeroesCount_loop_nonzero:
  "d \<noteq> 0 \<Longrightarrow> LeadingZeroesCount_loop (d # ds) count r
   = u32 (count + min (length (takeWhile Not (byte_bits d))) r)"
  unfolding byte_leading_zeroes [of d, symmetric] LeadingZeroesCount_loop.simps Let_def
  by (simp only: if_False)

lemma LeadingZeroesCount_loop_make:
  "count + length bs < 4294967296 \<Longrightarrow>
   LeadingZeroesCount_loop (pack bs) count (length bs) = count + length (takeWhile Not bs)"
proof (induction bs arbitrary: count rule: pack.induct)
  case (1 bs)
  show ?case
  proof (cases "bs = []")
    case False
    let ?t = "take 8 bs" and ?b = "byte_of_bits (take 8 bs)"
    have bits: "byte_bits ?b = ?t @ replicate (8 - length bs) False"
      by (simp add: byte_bits_of_bits min_def)
    have "?b = 0 \<longleftrightarrow> byte_bits ?b = byte_bits 0"
      by (rule byte_bits_inject [symmetric])
    also have "\<dots> \<longleftrightarrow> (\<forall>x \<in> set (byte_bits ?b). \<not> x)"
      by (auto simp: byte_bits_def)
    also have "\<dots> \<longleftrightarrow> (\<forall>x \<in> set ?t. \<not> x)"
      unfolding bits by auto
    finally have zero: "?b = 0 \<longleftrightarrow> (\<forall>x \<in> set ?t. \<not> x)" .
    have split: "takeWhile Not bs = takeWhile Not (?t @ drop 8 bs)"
      by simp
    show ?thesis
    proof (cases "?b = 0")
      case True
      then have all: "takeWhile Not bs = ?t @ takeWhile Not (drop 8 bs)"
        using zero unfolding split by (subst takeWhile_append2) blast+
      have "LeadingZeroesCount_loop (pack (drop 8 bs)) (count + 8) (length bs - 8)
          = count + 8 + length (takeWhile Not (drop 8 bs))" if "8 \<le> length bs"
        using 1(1) [OF False, of "count + 8"] 1(2) that by simp
      then show ?thesis
        using True 1(2) unfolding all by (auto simp: pack_step [OF False])
    next
      case nz: False
      then obtain x where x: "x \<in> set ?t" "x"
        using zero by blast
      then have one: "takeWhile Not bs = takeWhile Not ?t"
        unfolding split by (simp add: takeWhile_append1 [of True] del: append_take_drop_id)
      have "takeWhile Not (byte_bits ?b) = takeWhile Not ?t"
        unfolding bits using x by (simp add: takeWhile_append1 [of True])
      moreover have "length (takeWhile Not ?t) \<le> length bs"
        by (metis length_takeWhile_le length_take min.bounded_iff)
      ultimately show ?thesis
        using nz 1(2) unfolding one
        by (simp add: pack_step [OF False] LeadingZeroesCount_loop_nonzero min_absorb1
               del: LeadingZeroesCount_loop.simps)
    qed
  qed simp
qed

lemma LeadingZeroesCount_make:
  "length bs < 4294967296 \<Longrightarrow> LeadingZeroesCount (bv_make bs p) = length (takeWhile Not bs)"
  using LeadingZeroesCount_loop_make [of 0 bs]
  by (simp add: LeadingZeroesCount_def bv_make_def)

end
