(* ===== verification/Bit_Values.thy ===== *)
theory Bit_Values
  imports BV_Core
begin

text \<open>
  Numeric reading of bit lists: unsigned (most significant bit first) and two's complement, the
  values the \<^verbatim>\<open>Get\<close> and \<^verbatim>\<open>Set\<close> members of \<^verbatim>\<open>BinaryVector\<close> exchange with machine words.
\<close>

definition bits_val :: "bool list \<Rightarrow> nat" where
  "bits_val bs = horner_sum of_bool 2 (rev bs)"

definition bits_sval :: "bool list \<Rightarrow> int" where
  "bits_sval bs = (if bs \<noteq> [] \<and> hd bs then int (bits_val bs) - 2 ^ length bs else int (bits_val bs))"

lemma bits_val_Nil [simp]: "bits_val [] = 0"
  and bits_val_snoc [simp]: "bits_val (bs @ [b]) = 2 * bits_val bs + of_bool b"
  by (simp_all add: bits_val_def)

lemma bits_val_append: "bits_val (bs @ cs) = bits_val bs * 2 ^ length cs + bits_val cs"
  by (induction cs rule: rev_induct) (simp_all add: algebra_simps flip: append_assoc)

lemma bits_val_Cons: "bits_val (b # bs) = of_bool b * 2 ^ length bs + bits_val bs"
  using bits_val_append [of "[b]" bs] by (simp add: bits_val_def)

lemma bits_val_replicate [simp]: "bits_val (replicate n False) = 0"
  by (induction n) (simp_all add: bits_val_Cons)

lemma bits_val_less: "bits_val bs < 2 ^ length bs"
  by (induction bs) (auto simp: bits_val_Cons of_bool_def)

lemma bits_val_inject: "length bs = length cs \<Longrightarrow> bits_val bs = bits_val cs \<longleftrightarrow> bs = cs"
proof (induction bs cs rule: list_induct2)
  case (Cons b bs c cs)
  then show ?case
    using bits_val_less [of bs] bits_val_less [of cs] by (cases b; cases c) (auto simp: bits_val_Cons)
qed simp

lemma bits_val_word_bits: "bits_val (word_bits w) = unat (w :: 'a::len word)"
proof -
  have "rev (word_bits w) = map (bit (unat w)) [0..<LENGTH('a)]"
    by (simp add: word_bits_def rev_map bit_unsigned_iff)
  then have "bits_val (word_bits w) = take_bit LENGTH('a) (unat w)"
    by (simp only: bits_val_def horner_sum_bit_eq_take_bit)
  then show ?thesis
    by (simp add: take_bit_nat_eq_self_iff unsigned_less)
qed

lemma bits_val_small:
  assumes "w \<le> length bs"
  shows "bits_val bs \<le> 2 ^ w - 1 \<longleftrightarrow> bs = replicate (length bs - w) False @ drop (length bs - w) bs"
proof -
  let ?h = "take (length bs - w) bs" and ?t = "drop (length bs - w) bs"
  have lt: "length ?t = w" using assms by simp
  have val: "bits_val bs = bits_val ?h * 2 ^ w + bits_val ?t"
    using bits_val_append [of ?h ?t] lt by simp
  have "bits_val bs \<le> 2 ^ w - 1 \<longleftrightarrow> bits_val bs < 2 ^ w"
    by (simp add: less_eq_iff_succ_less) 
  also have "\<dots> \<longleftrightarrow> bits_val ?h = 0"
    using bits_val_less [of ?t] unfolding val lt by (cases "bits_val ?h") auto
  also have "\<dots> \<longleftrightarrow> ?h = replicate (length bs - w) False"
    using bits_val_inject [of ?h "replicate (length bs - w) False"] by simp
  also have "\<dots> \<longleftrightarrow> bs = replicate (length bs - w) False @ ?t"
    by (metis append_take_drop_id same_append_eq append_same_eq)
  finally show ?thesis .
qed

lemma bits_sval_word_bits: "bits_sval (word_bits w) = sint (w :: 'a::len word)"
proof -
  have hd: "word_bits w \<noteq> []" "hd (word_bits w) = bit w (LENGTH('a) - 1)"
    using word_bits_nth [of 0 w] by (auto simp: hd_conv_nth simp flip: length_0_conv)
  have "sint w = (if bit w (LENGTH('a) - 1) then int (unat w) - 2 ^ LENGTH('a) else int (unat w))"
  proof -
    have "sint w = signed_take_bit (LENGTH('a) - 1) (uint w)"
      by (simp add: sint_uint)
    also have "\<dots> = take_bit LENGTH('a) (uint w) - 2 ^ LENGTH('a) * of_bool (bit (uint w) (LENGTH('a) - 1))"
      by (simp add: signed_take_bit_eq_take_bit_minus)
    finally show ?thesis
      by (simp add: bit_uint_iff of_bool_def take_bit_int_eq_self_iff)
  qed
  then show ?thesis
    using hd by (simp add: bits_sval_def bits_val_word_bits)
qed

section \<open>Appending a machine word\<close>

text \<open>
  What the four overloads \<^verbatim>\<open>Append(uintN_t, numberOfBits, alignment)\<close> promise the members
  templated on the value type: appending the \<open>n\<close> rightmost or leftmost bits of the value.
\<close>

locale word_append =
  fixes valueBitsCount :: nat
    and vbits :: "bool list"
    and append :: "nat \<Rightarrow> BitsAlignment \<Rightarrow> BinaryVector \<Rightarrow> BinaryVector result"
  assumes count: "0 < valueBitsCount" "valueBitsCount \<le> 64"
    and length_vbits: "length vbits = valueBitsCount"
    and append_make: "\<And>n al bs p. 0 < n \<Longrightarrow> n \<le> valueBitsCount \<Longrightarrow> p \<noteq> Fixed \<Longrightarrow>
           length bs + n < 4294967296 \<Longrightarrow>
           append n al (bv_make bs p) = Inr (bv_make (bs @ value_bits n al vbits) p)"
    and append_Fixed: "\<And>n al bs. 0 < n \<Longrightarrow> append n al (bv_make bs Fixed) = Inl LogicError"

interpretation append_u8: word_append 8 "word_bits value" "Append_u8 value" for "value"
  by unfold_locales (simp_all add: Append_u8_make Append_u8_fixed word_bits_byte)

interpretation append_u16: word_append 16 "word_bits value" "Append_u16 value" for "value"
  by unfold_locales ((rule Append_u16_make; assumption) | simp add: Append_u16_def)+

interpretation append_u32: word_append 32 "word_bits value" "Append_u32 value" for "value"
  by unfold_locales ((rule Append_u32_make; assumption) | simp add: Append_u32_def)+

interpretation append_u64: word_append 64 "word_bits value" "Append_u64 value" for "value"
  by unfold_locales ((rule Append_u64_make; assumption) | simp add: Append_u64_def)+

end
