(* ===== verification/BV_Access.thy ===== *)
theory BV_Access
  imports Bit_Values
begin

text \<open>
  Reading a \<^verbatim>\<open>BinaryVector\<close> as a machine integer (the \<^verbatim>\<open>Get\<close> overloads) and assigning one
  (\<^verbatim>\<open>Set\<close>, through \<^verbatim>\<open>SetUnsigned\<close> and \<^verbatim>\<open>SetSigned\<close>); \<^verbatim>\<open>Mast_Core/src/BinaryVector.cpp\<close>.
\<close>

section \<open>Definitions\<close>

definition MergeToByte :: "nat \<Rightarrow> nat \<Rightarrow> bool \<Rightarrow> BinaryVector \<Rightarrow> byte result" where
  "MergeToByte lsbOffset lsbBitsCount asSigned v =
    (let secondToLastByteBits = 8 - lsbBitsCount
     in rbind (read_at (m_data v) lsbOffset) (\<lambda>lsb.
        let value_L = drop_bit secondToLastByteBits lsb
        in if lsbOffset = 0
           then if asSigned
                then rbind (IsNegative v) (\<lambda>negative.
                     Inr (if negative then value_L OR LEFT_BITS_MASK_8 ! secondToLastByteBits else value_L))
                else Inr value_L
           else rbind (read_at (m_data v) (lsbOffset - 1)) (\<lambda>msb.
                Inr (push_bit lsbBitsCount msb OR value_L))))"

text \<open>
  The bytes \<open>value_k, ..., value_0\<close> of the \<^verbatim>\<open>Get\<close> overloads, most significant first:
  \<open>value_k\<close> is merged from the data when the vector has more than \<open>8 * k\<close> bits and is the fill
  byte otherwise. \<open>bytes_word\<close> combines them as \<^verbatim>\<open>reinterpret_cast<uint8_t*>\<close> does on either
  byte order.
\<close>

fun value_bytes :: "nat \<Rightarrow> bool \<Rightarrow> byte \<Rightarrow> BinaryVector \<Rightarrow> byte list result" where
  "value_bytes 0 asSigned fillBits v = Inr []"
| "value_bytes (Suc k) asSigned fillBits v =
    (let lastByteBits = LastByteBitsCount (m_usedBits v);
         lastByteOffset = u32_sub (length (m_data v)) 1
     in rbind (if m_usedBits v > 8 * k
               then MergeToByte (u32_sub lastByteOffset k) lastByteBits asSigned v
               else Inr fillBits) (\<lambda>value_k.
        rbind (value_bytes k asSigned fillBits v) (\<lambda>values. Inr (value_k # values))))"

definition bytes_word :: "byte list \<Rightarrow> 'a::len word" where
  "bytes_word ds = foldl (\<lambda>w d. push_bit 8 w OR ucast d) 0 ds"

definition Get_unsigned :: "nat \<Rightarrow> BinaryVector \<Rightarrow> byte list result" where
  "Get_unsigned sizeOfValue v =
    (if IsEmpty v then Inl LogicError else value_bytes sizeOfValue False 0 v)"

definition Get_signed :: "nat \<Rightarrow> BinaryVector \<Rightarrow> byte list result" where
  "Get_signed sizeOfValue v =
    (if IsEmpty v then Inl LogicError
     else rbind (IsNegative v) (\<lambda>negative.
          value_bytes sizeOfValue True (if negative then 0xFF else 0) v))"

definition Get_u8 :: "BinaryVector \<Rightarrow> 8 word result" where
  "Get_u8 v = rbind (Get_unsigned 1 v) (\<lambda>ds. Inr (bytes_word ds))"

definition Get_u16 :: "BinaryVector \<Rightarrow> 16 word result" where
  "Get_u16 v = rbind (Get_unsigned 2 v) (\<lambda>ds. Inr (bytes_word ds))"

definition Get_u32 :: "BinaryVector \<Rightarrow> 32 word result" where
  "Get_u32 v = rbind (Get_unsigned 4 v) (\<lambda>ds. Inr (bytes_word ds))"

definition Get_u64 :: "BinaryVector \<Rightarrow> 64 word result" where
  "Get_u64 v = rbind (Get_unsigned 8 v) (\<lambda>ds. Inr (bytes_word ds))"

definition Get_s8 :: "BinaryVector \<Rightarrow> 8 word result" where
  "Get_s8 v =
    (if IsEmpty v then Inl LogicError
     else MergeToByte (u32_sub (length (m_data v)) 1) (LastByteBitsCount (m_usedBits v)) True v)"

definition Get_s16 :: "BinaryVector \<Rightarrow> 16 word result" where
  "Get_s16 v = rbind (Get_signed 2 v) (\<lambda>ds. Inr (bytes_word ds))"

definition Get_s32 :: "BinaryVector \<Rightarrow> 32 word result" where
  "Get_s32 v = rbind (Get_signed 4 v) (\<lambda>ds. Inr (bytes_word ds))"

definition Get_s64 :: "BinaryVector \<Rightarrow> 64 word result" where
  "Get_s64 v = rbind (Get_signed 8 v) (\<lambda>ds. Inr (bytes_word ds))"

text \<open>
  \<open>appendValue\<close> is the \<^verbatim>\<open>Append\<close> overload for the value's type applied to the value. The size
  property is released during the assignment and set back to \<^verbatim>\<open>Fixed\<close> on every exit.
\<close>

definition SetValue ::
    "nat \<Rightarrow> (nat \<Rightarrow> BitsAlignment \<Rightarrow> BinaryVector \<Rightarrow> BinaryVector result) \<Rightarrow> bool
     \<Rightarrow> BinaryVector \<Rightarrow> BinaryVector result" where
  "SetValue valueBitsCount appendValue negative v =
    (let initialBitsCount = m_usedBits v;
         cleared = Clear v
     in if \<not> FixedSize v \<or> initialBitsCount = 0
        then appendValue valueBitsCount Right cleared
        else
         let released = cleared\<lparr>m_sizeProperty := NotFixed\<rparr>
         in rbind (if initialBitsCount > valueBitsCount
                   then rbind (outcome (AppendBits negative (initialBitsCount - valueBitsCount) released))
                          (\<lambda>extended. appendValue valueBitsCount Right extended)
                   else appendValue initialBitsCount Right released)
              (\<lambda>assigned. Inr (assigned\<lparr>m_sizeProperty := Fixed\<rparr>)))"

definition SetUnsigned ::
    "nat \<Rightarrow> (nat \<Rightarrow> BitsAlignment \<Rightarrow> BinaryVector \<Rightarrow> BinaryVector result)
     \<Rightarrow> BinaryVector \<Rightarrow> BinaryVector result" where
  "SetUnsigned valueBitsCount appendValue v = SetValue valueBitsCount appendValue False v"

definition SetSigned ::
    "nat \<Rightarrow> (nat \<Rightarrow> BitsAlignment \<Rightarrow> BinaryVector \<Rightarrow> BinaryVector result) \<Rightarrow> bool
     \<Rightarrow> BinaryVector \<Rightarrow> BinaryVector result" where
  "SetSigned valueBitsCount appendValue isNegative v = SetValue valueBitsCount appendValue isNegative v"

definition Set_u8 :: "8 word \<Rightarrow> BinaryVector \<Rightarrow> BinaryVector result" where
  "Set_u8 val = SetUnsigned 8 (Append_u8 val)"

definition Set_u16 :: "16 word \<Rightarrow> BinaryVector \<Rightarrow> BinaryVector result" where
  "Set_u16 val = SetUnsigned 16 (Append_u16 val)"

definition Set_u32 :: "32 word \<Rightarrow> BinaryVector \<Rightarrow> BinaryVector result" where
  "Set_u32 val = SetUnsigned 32 (Append_u32 val)"

definition Set_u64 :: "64 word \<Rightarrow> BinaryVector \<Rightarrow> BinaryVector result" where
  "Set_u64 val = SetUnsigned 64 (Append_u64 val)"

text \<open>A signed value is the word of its two's complement, as \<^verbatim>\<open>std::make_unsigned_t\<close> gives it.\<close>

definition Set_s8 :: "8 word \<Rightarrow> BinaryVector \<Rightarrow> BinaryVector result" where
  "Set_s8 val = SetSigned 8 (Append_u8 val) (sint val < 0)"

definition Set_s16 :: "16 word \<Rightarrow> BinaryVector \<Rightarrow> BinaryVector result" where
  "Set_s16 val = SetSigned 16 (Append_u16 val) (sint val < 0)"

definition Set_s32 :: "32 word \<Rightarrow> BinaryVector \<Rightarrow> BinaryVector result" where
  "Set_s32 val = SetSigned 32 (Append_u32 val) (sint val < 0)"

definition Set_s64 :: "64 word \<Rightarrow> BinaryVector \<Rightarrow> BinaryVector result" where
  "Set_s64 val = SetSigned 64 (Append_u64 val) (sint val < 0)"

section \<open>Extension of a bit list to a given width\<close>

text \<open>The rightmost \<open>n\<close> bits, padded on the left with \<open>s\<close> when there are fewer.\<close>

definition widen :: "nat \<Rightarrow> bool \<Rightarrow> bool list \<Rightarrow> bool list" where
  "widen n s bs = drop (length bs) (replicate n s @ bs)"

lemma length_widen [simp]: "length (widen n s bs) = n"
  by (simp add: widen_def)

lemma widen_ge: "n \<le> length bs \<Longrightarrow> widen n s bs = drop (length bs - n) bs"
  by (simp add: widen_def)

lemma widen_le: "length bs \<le> n \<Longrightarrow> widen n s bs = replicate (n - length bs) s @ bs"
  by (simp add: widen_def)

lemma widen_self [simp]: "length bs = n \<Longrightarrow> widen n s bs = bs"
  by (simp add: widen_ge)

lemma widen_nth:
  "i < n \<Longrightarrow> widen n s bs ! i = (if n \<le> i + length bs then bs ! (i + length bs - n) else s)"
  by (cases "n \<le> length bs") (auto simp: widen_def nth_append add.commute)

lemma widen_add: "widen (m + n) s bs = take m (widen (m + n) s bs) @ widen n s bs"
proof -
  have "drop m (widen (m + n) s bs) = widen n s bs"
    by (rule nth_equalityI) (auto simp: widen_nth)
  then show ?thesis by (metis append_take_drop_id)
qed

lemma LastByteBitsCount_bytes:
  assumes "bs \<noteq> []"
  obtains m l where "length (pack bs) = Suc m" "LastByteBitsCount (length bs) = l"
    "length bs = 8 * m + l" "0 < l" "l \<le> 8"
proof
  define m l where "m = (length bs + 7) div 8 - 1" and "l = LastByteBitsCount (length bs)"
  have pos: "0 < length bs" using assms by simp
  then have "0 < (length bs + 7) div 8" by linarith
  then have m: "(length bs + 7) div 8 = Suc m" by (simp add: m_def)
  then show "length (pack bs) = Suc m" by (simp add: length_pack)
  have "l = 8 - padding (length bs)"
    using assms padding_nz [of "length bs"]
    by (cases "length bs mod 8 = 0") (simp_all add: l_def LastByteBitsCount_def Let_def)
  then show "length bs = 8 * m + l" "0 < l" "l \<le> 8"
    using ceil8 [of "length bs"] padding_less [of "length bs"] unfolding m by simp_all
  show "LastByteBitsCount (length bs) = l" by (simp add: l_def)
qed

section \<open>Get: correctness\<close>

lemma IsNegative_make_ne: "bs \<noteq> [] \<Longrightarrow> IsNegative (bv_make bs p) = Inr (hd bs)"
  by (simp add: IsNegative_make)

lemma read_byte:
  assumes "j < length (pack bs)"
  shows "\<exists>b. read_at (pack bs) j = Inr b
    \<and> byte_bits b = take 8 (drop (8 * j) (bs @ replicate (padding (length bs)) False))"
proof -
  have "byte_bits (pack bs ! j) = take 8 (drop (8 * j) (data_bits (pack bs)))"
    using data_bits_nth_byte [OF assms] by simp
  then show ?thesis using assms by (simp add: read_at_def data_bits_pack)
qed

lemma drop_bit_take:
  assumes "l \<le> 8"
  shows "byte_bits (drop_bit (8 - l) b) = replicate (8 - l) False @ take l (byte_bits b)"
  using assms by (intro nth_equalityI) (auto simp: byte_bits_nth bit_simps nth_append add.commute dest: bit_imp_le_length)

lemma drop_bit_take_negative:
  assumes "l \<le> 8"
  shows "byte_bits (drop_bit (8 - l) b OR LEFT_BITS_MASK_8 ! (8 - l)) = replicate (8 - l) True @ take l (byte_bits b)"
  using assms
  by (intro nth_equalityI) (auto simp: byte_bits_nth bit_simps nth_append LEFT_BITS_MASK_8_nth add.commute dest: bit_imp_le_length)

lemma push_merge:
  assumes "l \<le> 8"
  shows "byte_bits (push_bit l h OR drop_bit (8 - l) b) = drop l (byte_bits h) @ take l (byte_bits b)"
  using assms by (intro nth_equalityI) (auto simp: byte_bits_nth bit_simps nth_append add.commute dest: bit_imp_le_length)

lemma MergeToByte_make:
  assumes ne: "bs \<noteq> []" and o: "length bs = 8 * m + l" "0 < l" "l \<le> 8" "j \<le> m"
  shows "\<exists>b. MergeToByte j l s (bv_make bs p) = Inr b
    \<and> byte_bits b = take 8 (drop (8 * j + l) (replicate 8 (s \<and> hd bs) @ bs))"
proof -
  have m: "length (pack bs) = Suc m" using o by (simp add: length_pack)
  obtain b where b: "read_at (pack bs) j = Inr b"
    "byte_bits b = take 8 (drop (8 * j) (bs @ replicate (padding (length bs)) False))"
    using read_byte [of j bs] m o(4) by auto
  have tb: "take l (byte_bits b) = take l (drop (8 * j) bs)"
    using o by (auto simp: b(2) min_def)
  show ?thesis
  proof (cases "j = 0")
    case True
    have "take 8 (drop (8 * j + l) (replicate 8 (s \<and> hd bs) @ bs)) = replicate (8 - l) (s \<and> hd bs) @ take l bs"
      using True o by simp
    moreover have "take l (byte_bits b) = take l bs" using True tb by simp
    ultimately show ?thesis
      using True b(1) o(3) drop_bit_take [of l b] drop_bit_take_negative [of l b]
      by (simp add: MergeToByte_def IsNegative_make_ne [OF ne] Let_def)
  next
    case False
    then obtain i where i: "j = Suc i" by (cases j) simp_all
    obtain h where h: "read_at (pack bs) i = Inr h"
      "byte_bits h = take 8 (drop (8 * i) (bs @ replicate (padding (length bs)) False))"
      using read_byte [of i bs] m o(4) i by auto
    have "drop l (byte_bits h) = take (8 - l) (drop (8 * i + l) bs)"
      using o i by (simp add: h(2) drop_take add.commute)
    then have "byte_bits (push_bit l h OR drop_bit (8 - l) b)
        = take (8 - l) (drop (8 * i + l) bs) @ take l (drop (8 - l) (drop (8 * i + l) bs))"
      using push_merge [OF o(3), of h b] tb i o(3) by (simp add: add.commute)
    also have "\<dots> = take 8 (drop (8 * i + l) bs)"
      using take_add [of "8 - l" l "drop (8 * i + l) bs"] o(3) by simp
    finally show ?thesis
      using b(1) h(1) i by (simp add: MergeToByte_def Let_def)
  qed
qed

lemma value_bytes_make:
  assumes ne: "bs \<noteq> []" and len: "length bs < 4294967296" and k: "k < 4294967296"
    and fill: "byte_bits fillBits = replicate 8 (s \<and> hd bs)"
  shows "\<exists>ds. value_bytes k s fillBits (bv_make bs p) = Inr ds
    \<and> data_bits ds = widen (8 * k) (s \<and> hd bs) bs"
  using k
proof (induction k)
  case (Suc k)
  obtain m l where ml: "length (pack bs) = Suc m" "LastByteBitsCount (length bs) = l"
    "length bs = 8 * m + l" "0 < l" "l \<le> 8"
    using LastByteBitsCount_bytes [OF ne] by blast
  obtain ds where ds: "value_bytes k s fillBits (bv_make bs p) = Inr ds"
    "data_bits ds = widen (8 * k) (s \<and> hd bs) bs"
    using Suc by auto
  have "\<exists>b. (if length bs > 8 * k then MergeToByte (u32_sub (u32_sub (Suc m) 1) k) l s (bv_make bs p)
             else Inr fillBits) = Inr b
      \<and> byte_bits b = take 8 (widen (8 + 8 * k) (s \<and> hd bs) bs)"
  proof (cases "length bs > 8 * k")
    case True
    then have km: "k \<le> m" using ml by linarith
    have off: "u32_sub (u32_sub (Suc m) 1) k = m - k"
      using km ml len by (subst u32_sub_le; simp)
    have "take 8 (drop (8 * (m - k) + l) (replicate 8 (s \<and> hd bs) @ bs)) = take 8 (widen (8 + 8 * k) (s \<and> hd bs) bs)"
    proof (rule nth_equalityI)
      obtain e where e: "m = k + e" using km le_Suc_ex by blast
      fix i assume "i < length (take 8 (drop (8 * (m - k) + l) (replicate 8 (s \<and> hd bs) @ bs)))"
      then have "i < 8" by (simp del: drop_append)
      then show "take 8 (drop (8 * (m - k) + l) (replicate 8 (s \<and> hd bs) @ bs)) ! i
          = take 8 (widen (8 + 8 * k) (s \<and> hd bs) bs) ! i"
        using ml(3,4) unfolding e
        by (simp add: widen_nth nth_append [of "replicate _ _"] algebra_simps del: drop_append)
    qed (use ml km in simp)
    then show ?thesis
      using MergeToByte_make [OF ne ml(3-5), of "m - k" s p] True off by simp
  next
    case False
    then show ?thesis
      using fill by (auto simp: widen_le simp del: replicate.simps)
  qed
  then obtain b where b: "(if length bs > 8 * k then MergeToByte (u32_sub (u32_sub (Suc m) 1) k) l s (bv_make bs p)
             else Inr fillBits) = Inr b" "byte_bits b = take 8 (widen (8 + 8 * k) (s \<and> hd bs) bs)"
    by blast
  have "value_bytes (Suc k) s fillBits (bv_make bs p) = Inr (b # ds)"
    unfolding value_bytes.simps Let_def bv_make_sel ml(1,2) by (simp only: b(1) ds(1) rbind_Inr)
  then show ?case
    using b(2) ds(2) widen_add [of 8 "8 * k" "s \<and> hd bs" bs] by simp
qed (simp add: widen_def)

lemma bit_bytes_word:
  "bit (bytes_word ds :: 'a::len word) i
   \<longleftrightarrow> i < LENGTH('a) \<and> i < 8 * length ds \<and> data_bits ds ! (8 * length ds - Suc i)"
proof (induction ds arbitrary: i rule: rev_induct)
  case (snoc d ds)
  have "bytes_word (ds @ [d]) = (push_bit 8 (bytes_word ds) OR ucast d :: 'a word)"
    by (simp add: bytes_word_def)
  then show ?case
    using snoc.IH [of "i - 8"]
    by (cases "i < 8") (auto simp: bit_simps nth_append byte_bits_nth Suc_diff_le not_less dest: bit_imp_le_length)
qed (simp add: bytes_word_def)

lemma word_bits_bytes_word:
  "8 * length ds = LENGTH('a) \<Longrightarrow> word_bits (bytes_word ds :: 'a::len word) = data_bits ds"
  by (rule nth_equalityI) (auto simp: word_bits_nth bit_bytes_word)

lemma word_eqI_bits: "word_bits v = word_bits w \<Longrightarrow> v = (w :: 'a::len word)"
proof (rule bit_word_eqI)
  fix n assume "word_bits v = word_bits w" and n: "n < LENGTH('a)"
  then have "word_bits v ! (LENGTH('a) - Suc n) = word_bits w ! (LENGTH('a) - Suc n)" by simp
  then show "bit v n = bit w n" using n by (simp add: word_bits_nth)
qed

lemma fill_byte: "byte_bits (if s then 0xFF else 0) = replicate 8 s"
  by (cases s) (simp_all del: replicate.simps)

lemma Get_unsigned_make:
  assumes "bs \<noteq> []" and "length bs < 4294967296" and "8 * k = LENGTH('a)" "k < 4294967296"
  shows "\<exists>w :: 'a::len word. rbind (Get_unsigned k (bv_make bs p)) (\<lambda>ds. Inr (bytes_word ds)) = Inr w
    \<and> word_bits w = widen LENGTH('a) False bs"
proof -
  obtain ds where ds: "value_bytes k False 0 (bv_make bs p) = Inr ds" "data_bits ds = widen (8 * k) False bs"
    using value_bytes_make [of bs k 0 False p] assms by auto
  then have "8 * length ds = LENGTH('a)" using assms(3) by (metis length_data_bits length_widen)
  then show ?thesis
    using ds assms by (simp add: Get_unsigned_def word_bits_bytes_word)
qed

lemma Get_signed_make:
  assumes "bs \<noteq> []" and "length bs < 4294967296" and "8 * k = LENGTH('a)" "k < 4294967296"
  shows "\<exists>w :: 'a::len word. rbind (Get_signed k (bv_make bs p)) (\<lambda>ds. Inr (bytes_word ds)) = Inr w
    \<and> word_bits w = widen LENGTH('a) (hd bs) bs"
proof -
  obtain ds where ds: "value_bytes k True (if hd bs then 0xFF else 0) (bv_make bs p) = Inr ds"
    "data_bits ds = widen (8 * k) (hd bs) bs"
    using value_bytes_make [of bs k "if hd bs then 0xFF else 0" True p] fill_byte [of "hd bs"] assms by auto
  then have "8 * length ds = LENGTH('a)" using assms(3) by (metis length_data_bits length_widen)
  then show ?thesis
    using ds assms by (simp add: Get_signed_def word_bits_bytes_word IsNegative_make_ne)
qed

lemma Get_make:
  assumes "bs \<noteq> []" and "length bs < 4294967296"
  shows "\<exists>w. Get_u8 (bv_make bs p) = Inr w \<and> word_bits w = widen 8 False bs"
    and "\<exists>w. Get_u16 (bv_make bs p) = Inr w \<and> word_bits w = widen 16 False bs"
    and "\<exists>w. Get_u32 (bv_make bs p) = Inr w \<and> word_bits w = widen 32 False bs"
    and "\<exists>w. Get_u64 (bv_make bs p) = Inr w \<and> word_bits w = widen 64 False bs"
    and "\<exists>w. Get_s16 (bv_make bs p) = Inr w \<and> word_bits w = widen 16 (hd bs) bs"
    and "\<exists>w. Get_s32 (bv_make bs p) = Inr w \<and> word_bits w = widen 32 (hd bs) bs"
    and "\<exists>w. Get_s64 (bv_make bs p) = Inr w \<and> word_bits w = widen 64 (hd bs) bs"
  using Get_unsigned_make [OF assms, where 'a = 8, of 1 p] Get_unsigned_make [OF assms, where 'a = 16, of 2 p]
    Get_unsigned_make [OF assms, where 'a = 32, of 4 p] Get_unsigned_make [OF assms, where 'a = 64, of 8 p]
    Get_signed_make [OF assms, where 'a = 16, of 2 p] Get_signed_make [OF assms, where 'a = 32, of 4 p]
    Get_signed_make [OF assms, where 'a = 64, of 8 p]
  by (simp_all add: Get_u8_def Get_u16_def Get_u32_def Get_u64_def Get_s16_def Get_s32_def Get_s64_def)

lemma Get_s8_make:
  assumes "bs \<noteq> []" and "length bs < 4294967296"
  shows "\<exists>w. Get_s8 (bv_make bs p) = Inr w \<and> word_bits w = widen 8 (hd bs) bs"
proof -
  have "\<exists>ds. value_bytes 1 True (if hd bs then 0xFF else 0) (bv_make bs p) = Inr ds
      \<and> data_bits ds = widen 8 (hd bs) bs"
    using value_bytes_make [of bs 1 "if hd bs then 0xFF else 0" True p] fill_byte [of "hd bs"] assms by auto
  moreover have "0 < length bs" using assms(1) by simp
  ultimately show ?thesis
    using assms by (auto simp: Get_s8_def rbind_Inr_iff word_bits_byte u32_sub_def u32_def)
qed

section \<open>Set: correctness\<close>

context word_append
begin

lemma SetValue_make:
  assumes "length bs < 4294967296"
  shows "SetValue valueBitsCount append neg (bv_make bs p)
    = (if p \<noteq> Fixed then Inr (bv_make vbits p)
       else if bs = [] then Inl LogicError
       else Inr (bv_make (widen (length bs) neg vbits) Fixed))"
proof -
  note cnt = count length_vbits
  show ?thesis
  proof (cases "p = Fixed \<and> bs \<noteq> []")
    case False
    then show ?thesis
      using cnt append_make [of valueBitsCount p "[]" Right] append_Fixed [of valueBitsCount Right "[]"]
      by (auto simp: SetValue_def)
  next
    case fixed: True
    show ?thesis
    proof (cases "valueBitsCount < length bs")
      case True
      have "AppendBits neg (length bs - valueBitsCount) (bv_make [] NotFixed)
          = (bv_make (replicate (length bs - valueBitsCount) neg) NotFixed, None)"
        using AppendBits_make [of "[]" "length bs - valueBitsCount" NotFixed neg] assms by simp
      then show ?thesis
        using fixed True cnt assms
        by (simp add: SetValue_def outcome_def append_make widen_le)
    next
      case False
      then show ?thesis
        using fixed cnt assms
        by (simp add: SetValue_def append_make widen_ge value_bits_def)
    qed
  qed
qed

end

lemma sint_neg_hd: "sint (w :: 'a::len word) < 0 \<longleftrightarrow> hd (word_bits w)"
proof -
  have "word_bits w \<noteq> []" by (simp flip: length_greater_0_conv)
  moreover have "int (bits_val (word_bits w)) < 2 ^ length (word_bits w)"
    using bits_val_less [of "word_bits w"] by (metis of_nat_less_iff of_nat_numeral of_nat_power)
  ultimately show ?thesis
    by (simp add: bits_sval_def flip: bits_sval_word_bits)
qed

lemmas SetValue_word_make =
  append_u8.SetValue_make append_u16.SetValue_make append_u32.SetValue_make append_u64.SetValue_make

lemmas Set_defs = SetUnsigned_def SetSigned_def
  Set_u8_def Set_u16_def Set_u32_def Set_u64_def Set_s8_def Set_s16_def Set_s32_def Set_s64_def

lemma Set_unsigned_make:
  assumes "length bs < 4294967296"
  shows "Set_u8 w8 (bv_make bs p) = (if p \<noteq> Fixed then Inr (bv_make (word_bits w8) p)
      else if bs = [] then Inl LogicError else Inr (bv_make (widen (length bs) False (word_bits w8)) Fixed))"
    and "Set_u16 w16 (bv_make bs p) = (if p \<noteq> Fixed then Inr (bv_make (word_bits w16) p)
      else if bs = [] then Inl LogicError else Inr (bv_make (widen (length bs) False (word_bits w16)) Fixed))"
    and "Set_u32 w32 (bv_make bs p) = (if p \<noteq> Fixed then Inr (bv_make (word_bits w32) p)
      else if bs = [] then Inl LogicError else Inr (bv_make (widen (length bs) False (word_bits w32)) Fixed))"
    and "Set_u64 w64 (bv_make bs p) = (if p \<noteq> Fixed then Inr (bv_make (word_bits w64) p)
      else if bs = [] then Inl LogicError else Inr (bv_make (widen (length bs) False (word_bits w64)) Fixed))"
  using assms by (simp_all only: Set_defs SetValue_word_make)

lemma Set_signed_make:
  assumes "length bs < 4294967296"
  shows "Set_s8 w8 (bv_make bs p) = (if p \<noteq> Fixed then Inr (bv_make (word_bits w8) p)
      else if bs = [] then Inl LogicError else Inr (bv_make (widen (length bs) (hd (word_bits w8)) (word_bits w8)) Fixed))"
    and "Set_s16 w16 (bv_make bs p) = (if p \<noteq> Fixed then Inr (bv_make (word_bits w16) p)
      else if bs = [] then Inl LogicError else Inr (bv_make (widen (length bs) (hd (word_bits w16)) (word_bits w16)) Fixed))"
    and "Set_s32 w32 (bv_make bs p) = (if p \<noteq> Fixed then Inr (bv_make (word_bits w32) p)
      else if bs = [] then Inl LogicError else Inr (bv_make (widen (length bs) (hd (word_bits w32)) (word_bits w32)) Fixed))"
    and "Set_s64 w64 (bv_make bs p) = (if p \<noteq> Fixed then Inr (bv_make (word_bits w64) p)
      else if bs = [] then Inl LogicError else Inr (bv_make (widen (length bs) (hd (word_bits w64)) (word_bits w64)) Fixed))"
  using assms by (simp_all only: Set_defs SetValue_word_make sint_neg_hd)

text \<open>Numeric reading of an extended bit list.\<close>

lemma bits_val_widen_le: "length bs \<le> n \<Longrightarrow> bits_val (widen n False bs) = bits_val bs"
  by (simp add: widen_le bits_val_append)

lemma bits_val_widen: "bits_val (widen n False bs) = bits_val bs mod 2 ^ n"
proof (cases "length bs \<le> n")
  case True
  then show ?thesis
    using order.strict_trans2 [OF bits_val_less [of bs] power_increasing [OF True]]
    by (simp add: bits_val_widen_le)
next
  case False
  then have "bits_val bs = bits_val (take (length bs - n) bs) * 2 ^ n + bits_val (widen n False bs)"
    using bits_val_append [of "take (length bs - n) bs" "widen n False bs"]
    by (simp add: widen_ge)
  then show ?thesis
    using bits_val_less [of "widen n False bs"] by (simp add: mod_mult_self4)
qed

lemma bits_sval_replicate:
  "bs \<noteq> [] \<Longrightarrow> bits_sval (replicate n (hd bs) @ bs) = bits_sval bs"
proof (induction n)
  case (Suc n)
  then show ?case
    by (cases n) (auto simp: bits_sval_def bits_val_Cons hd_append)
qed simp

lemma bits_sval_widen: "bs \<noteq> [] \<Longrightarrow> length bs \<le> n \<Longrightarrow> bits_sval (widen n (hd bs) bs) = bits_sval bs"
  by (simp add: widen_le bits_sval_replicate)

lemma widen_widen:
  "length bs \<le> m \<Longrightarrow> widen (length bs) t (widen m s bs) = bs"
  by (rule nth_equalityI) (auto simp: widen_nth)

end
