(* ===== verification/IndexedRange.thy ===== *)
theory IndexedRange
  imports Prelude
begin

text \<open>
  \<^verbatim>\<open>struct IndexedRange\<close> of \<^verbatim>\<open>Mast_Core/include/IndexedRange.hpp\<close>: a pair of 32-bit indexes in
  either order. The width of the full 32-bit range does not fit and is refused.
\<close>

record IndexedRange =
  left :: nat
  right :: nat

definition IndexedRange_default :: IndexedRange where
  "IndexedRange_default = \<lparr>left = 0, right = 0\<rparr>"

definition IndexedRange_single :: "nat \<Rightarrow> IndexedRange" where
  "IndexedRange_single index = \<lparr>left = index, right = index\<rparr>"

definition IndexedRange_of :: "nat \<Rightarrow> nat \<Rightarrow> IndexedRange" where
  "IndexedRange_of leftIndex rightIndex = \<lparr>left = leftIndex, right = rightIndex\<rparr>"

definition Reversed :: "IndexedRange \<Rightarrow> IndexedRange" where
  "Reversed r = IndexedRange_of (right r) (left r)"

definition IsSingleBit :: "IndexedRange \<Rightarrow> bool" where
  "IsSingleBit r = (left r = right r)"

definition IsMultiBits :: "IndexedRange \<Rightarrow> bool" where
  "IsMultiBits r = (left r \<noteq> right r)"

definition IncreasesTowardLeft :: "IndexedRange \<Rightarrow> bool" where
  "IncreasesTowardLeft r = (left r > right r)"

definition IncreasesTowardRight :: "IndexedRange \<Rightarrow> bool" where
  "IncreasesTowardRight r = (left r < right r)"

definition MaxIndex :: "IndexedRange \<Rightarrow> nat" where
  "MaxIndex r = max (left r) (right r)"

definition Width :: "IndexedRange \<Rightarrow> nat result" where
  "Width r =
    (let diff = (if left r > right r then left r - right r else right r - left r);
         width = u32 (1 + diff)
     in CheckValueCondition (width \<noteq> 0) (Inr width))"

definition range_wf :: "IndexedRange \<Rightarrow> bool" where
  "range_wf r \<longleftrightarrow> left r < 4294967296 \<and> right r < 4294967296"

text \<open>The set of indexes a range denotes, in either orientation.\<close>

definition indexes :: "IndexedRange \<Rightarrow> nat set" where
  "indexes r = {min (left r) (right r) .. max (left r) (right r)}"

lemma card_indexes: "card (indexes r) = 1 + max (left r) (right r) - min (left r) (right r)"
  by (simp add: indexes_def)

lemma Width_eq:
  assumes "range_wf r"
  shows "Width r = (if card (indexes r) = 4294967296 then Inl RuntimeError else Inr (card (indexes r)))"
proof -
  have "1 + (if left r > right r then left r - right r else right r - left r) = card (indexes r)"
    by (auto simp: card_indexes)
  moreover have "0 < card (indexes r)" "card (indexes r) \<le> 4294967296"
    using assms by (auto simp: card_indexes range_wf_def)
  ultimately show ?thesis
    by (auto simp: Width_def Let_def u32_def)
qed

lemma Width_increasing:
  "left r \<le> right r \<Longrightarrow> right r < 4294967295 \<Longrightarrow> Width r = Inr (right r - left r + 1)"
  by (simp add: Width_def)

lemma orientation:
  "IsMultiBits r \<longleftrightarrow> \<not> IsSingleBit r"
  "IsMultiBits r \<longleftrightarrow> IncreasesTowardLeft r \<noteq> IncreasesTowardRight r"
  by (auto simp: IsMultiBits_def IsSingleBit_def IncreasesTowardLeft_def IncreasesTowardRight_def)

lemma Reversed_facts [simp]:
  "Reversed (Reversed r) = r" "indexes (Reversed r) = indexes r" "MaxIndex (Reversed r) = MaxIndex r"
  "IncreasesTowardLeft (Reversed r) = IncreasesTowardRight r" "range_wf (Reversed r) = range_wf r"
  by (auto simp: Reversed_def IndexedRange_of_def indexes_def MaxIndex_def range_wf_def
      IncreasesTowardLeft_def IncreasesTowardRight_def min.commute max.commute)

end
