(* ===== verification/BV_Slices.thy ===== *)
theory BV_Slices
  imports BV_Access IndexedRange
begin

text \<open>
  Slices of a \<^verbatim>\<open>BinaryVector\<close> (\<^verbatim>\<open>Mast_Core/src/BinaryVector.cpp\<close>): \<^verbatim>\<open>Slice\<close>,
  \<^verbatim>\<open>ReverseSlice\<close>, the \<^verbatim>\<open>SetSlice\<close> family, conversion from and to right aligned buffers and
  \<^verbatim>\<open>TruncateLeadingZeroes\<close>. A raw source pointer is modelled by the bytes readable from it
  (\<open>None\<close> for the null pointer); reading past them is \<open>UndefinedBehaviour\<close>.
\<close>

section \<open>Slice\<close>

function Slice_loop :: "byte list \<Rightarrow> nat \<Rightarrow> nat \<Rightarrow> BinaryVector \<Rightarrow> BinaryVector result" where
  "Slice_loop data byteOffset bitsCount acc =
    (if bitsCount \<ge> 8
     then rbind (read_at data byteOffset) (\<lambda>byte.
          rbind (Append_u8 byte 8 Right acc)
                (Slice_loop data (Suc byteOffset) (bitsCount - 8)))
     else if bitsCount \<noteq> 0
     then rbind (read_at data byteOffset) (\<lambda>byte. Append_u8 byte bitsCount Left acc)
     else Inr acc)"
  by pat_completeness auto
termination
  by (relation "measure (\<lambda>(_, _, n, _). n)") auto

declare Slice_loop.simps [simp del]

definition Slice :: "nat \<Rightarrow> nat \<Rightarrow> BinaryVector \<Rightarrow> BinaryVector result" where
  "Slice firstBitOffset bitsCount v =
    (if bitsCount \<noteq> 0 then
      CheckParameterCondition (firstBitOffset < m_usedBits v)
      (CheckParameterCondition (u32 (firstBitOffset + bitsCount) \<le> m_usedBits v)
        (let byteOffset = firstBitOffset div 8;
             bitOffsetInFirstByte = firstBitOffset mod 8;
             bitsInFirstByte = min bitsCount (8 - bitOffsetInFirstByte)
         in if bitsInFirstByte \<noteq> 0
            then rbind (read_at (m_data v) byteOffset) (\<lambda>byte.
                 rbind (Append_u8 (push_bit bitOffsetInFirstByte byte) bitsInFirstByte Left BinaryVector_empty)
                       (Slice_loop (m_data v) (Suc byteOffset) (bitsCount - bitsInFirstByte)))
            else Slice_loop (m_data v) byteOffset bitsCount BinaryVector_empty))
     else Inr BinaryVector_empty)"

definition Slice_range :: "IndexedRange \<Rightarrow> BinaryVector \<Rightarrow> BinaryVector result" where
  "Slice_range rng v = rbind (Width rng) (\<lambda>width. Slice (left rng) width v)"

lemma read_at_pack: "j < (length bs + 7) div 8 \<Longrightarrow> read_at (pack bs) j = Inr (byte_of_bits (take 8 (drop (8 * j) bs)))"
  by (simp add: read_at_def length_pack pack_nth)

lemma Slice_loop_make:
  assumes "n = 0 \<or> 8 * j + n \<le> length bs" and "p \<noteq> Fixed" and "length cs + n < 4294967296"
  shows "Slice_loop (pack bs) j n (bv_make cs p) = Inr (bv_make (cs @ take n (drop (8 * j) bs)) p)"
  using assms
proof (induction n arbitrary: j cs rule: less_induct)
  case (less n)
  let ?b = "byte_of_bits (take 8 (drop (8 * j) bs))"
  consider "n = 0" | "0 < n" "n < 8" | "8 \<le> n" by linarith
  then show ?case
  proof cases
    case 1
    then show ?thesis by (simp add: Slice_loop.simps)
  next
    case 2
    then have rd: "read_at (pack bs) j = Inr ?b"
      using less.prems by (intro read_at_pack) linarith
    have "value_bits n Left (byte_bits ?b) = take n (drop (8 * j) bs)"
      using 2 less.prems by (auto simp: value_bits_def byte_bits_of_bits min_def)
    then show ?thesis
      using 2 less.prems rd by (subst Slice_loop.simps) (simp add: Append_u8_make)
  next
    case 3
    then have rd: "read_at (pack bs) j = Inr ?b"
      using less.prems by (intro read_at_pack) linarith
    have full: "byte_bits ?b = take 8 (drop (8 * j) bs)"
      using 3 less.prems by simp
    have split: "take n (drop (8 * j) bs) = take 8 (drop (8 * j) bs) @ take (n - 8) (drop (8 * Suc j) bs)"
      using 3 take_add [of 8 "n - 8" "drop (8 * j) bs"] by (simp add: add.commute)
    have "Slice_loop (pack bs) j n (bv_make cs p)
        = Slice_loop (pack bs) (Suc j) (n - 8) (bv_make (cs @ take 8 (drop (8 * j) bs)) p)"
      using 3 less.prems rd by (subst Slice_loop.simps) (simp add: Append_u8_make full)
    also have "\<dots> = Inr (bv_make ((cs @ take 8 (drop (8 * j) bs)) @ take (n - 8) (drop (8 * Suc j) bs)) p)"
      using 3 less.prems by (intro less.IH) auto
    finally show ?thesis by (simp add: split)
  qed
qed

lemma Slice_make:
  assumes "length bs < 4294967296" and "f + n < 4294967296"
  shows "Slice f n (bv_make bs p)
    = (if n = 0 \<or> f < length bs \<and> f + n \<le> length bs
       then Inr (bv_make (take n (drop f bs)) NotFixed) else Inl InvalidArgument)"
proof (cases "n \<noteq> 0 \<and> f + n \<le> length bs")
  case False
  then show ?thesis
    using assms by (auto simp: Slice_def BinaryVector_empty_make check_defs)
next
  case True
  define j k m where "j = f div 8" and "k = f mod 8" and "m = min n (8 - k)"
  have f: "f = 8 * j + k" and k: "k < 8" by (simp_all add: j_def k_def)
  let ?b = "byte_of_bits (take 8 (drop (8 * j) bs))"
  have rd: "read_at (pack bs) j = Inr ?b"
    using True f by (intro read_at_pack) linarith
  have m: "0 < m" "m \<le> 8" "m \<le> 8 - k" "m \<le> n" using True k by (auto simp: m_def)
  have "push_bit k ?b = byte_of_bits (drop k (take 8 (drop (8 * j) bs)))"
    by (rule byte_push) simp
  then have "value_bits m Left (byte_bits (push_bit k ?b)) = take m (drop f bs)"
    using m True by (auto simp: value_bits_def byte_bits_of_bits min_def f drop_take add.commute)
  then have first: "Append_u8 (push_bit k ?b) m Left BinaryVector_empty = Inr (bv_make (take m (drop f bs)) NotFixed)"
    using m by (simp add: BinaryVector_empty_make Append_u8_make)
  have rest: "Slice_loop (pack bs) (Suc j) (n - m) (bv_make (take m (drop f bs)) NotFixed)
      = Inr (bv_make (take m (drop f bs) @ take (n - m) (drop (8 * Suc j) bs)) NotFixed)"
    using True m assms f by (intro Slice_loop_make) (auto simp: m_def)
  have "take n (drop f bs) = take m (drop f bs) @ take (n - m) (drop (8 * Suc j) bs)"
  proof (cases "n = m")
    case False
    then have "f + m = 8 * Suc j" using f m k by (auto simp: m_def)
    then show ?thesis using m by (metis add.commute drop_drop le_add_diff_inverse take_add)
  qed simp
  then show ?thesis
    using True assms rd first rest m unfolding Slice_def Let_def
    by (simp flip: j_def k_def m_def)
qed

text \<open>
  The bound check adds two 32-bit numbers: when the sum wraps, the request passes the check and
  the copy runs past the end of the data.
\<close>

lemma Slice_loop_overread:
  assumes "(length bs + 7) div 8 < j + (n + 7) div 8" and "j \<le> (length bs + 7) div 8"
    and "p \<noteq> Fixed" and "length cs \<le> 8 * j" and "length bs < 4294967264"
  shows "Slice_loop (pack bs) j n (bv_make cs p) = Inl UndefinedBehaviour"
  using assms
proof (induction n arbitrary: j cs rule: less_induct)
  case (less n)
  show ?case
  proof (cases "j = (length bs + 7) div 8")
    case True
    then have "0 < n" using less.prems(1) by (cases n) simp_all
    then show ?thesis
      using True by (subst Slice_loop.simps) (simp add: read_at_def length_pack)
  next
    case False
    then have j: "j < (length bs + 7) div 8" "8 \<le> n" using less.prems by linarith+
    have "Slice_loop (pack bs) (Suc j) (n - 8)
        (bv_make (cs @ byte_bits (byte_of_bits (take 8 (drop (8 * j) bs)))) p) = Inl UndefinedBehaviour"
      using j less.prems by (intro less.IH) auto
    moreover have "length cs + 8 < 4294967296"
      using j less.prems by linarith
    ultimately show ?thesis
      using j less.prems(3) by (subst Slice_loop.simps) (simp add: read_at_pack Append_u8_make)
  qed
qed

lemma Slice_wraps:
  assumes "f < length bs" and "n < 4294967296" and "4294967296 \<le> f + n" and "length bs < 4294967264"
  shows "Slice f n (bv_make bs p) = Inl UndefinedBehaviour"
proof -
  define j k where "j = f div 8" and "k = f mod 8"
  have f: "f = 8 * j + k" and k: "k < 8" by (simp_all add: j_def k_def)
  have m: "min n (8 - k) = 8 - k" using assms k by linarith
  have rd: "j < (length bs + 7) div 8" using assms(1) f by linarith
  have "u32 (f + n) = f + n - 4294967296"
    using assms by (simp add: u32_def le_mod_geq)
  then have "u32 (f + n) \<le> length bs"
    using assms by linarith
  moreover have "Slice_loop (pack bs) (Suc j) (n - (8 - k)) (bv_make cs NotFixed) = Inl UndefinedBehaviour"
    if "length cs = 8 - k" for cs
    using that assms f k rd by (intro Slice_loop_overread) (simp | linarith)+
  moreover obtain cs where "Append_u8 (push_bit k (byte_of_bits (take 8 (drop (8 * j) bs)))) (8 - k) Left
      BinaryVector_empty = Inr (bv_make cs NotFixed)" "length cs = 8 - k"
    using k by (simp add: BinaryVector_empty_make Append_u8_make length_value_bits)
  ultimately show ?thesis
    using assms m k read_at_pack [OF rd] unfolding Slice_def Let_def
    by (simp add: m flip: j_def k_def)
qed

section \<open>SetSlice\<close>

text \<open>
  \<^verbatim>\<open>SetSlice_Impl\<close>: \<open>source\<close> is the memory readable from the source pointer, \<open>data\<close> the bytes
  of the vector, \<open>d\<close> and \<open>s\<close> the positions of \<^verbatim>\<open>dest\<close> and \<^verbatim>\<open>srce\<close>.
\<close>

fun SetSlice_copy :: "nat \<Rightarrow> nat \<Rightarrow> nat \<Rightarrow> byte list \<Rightarrow> byte list \<Rightarrow> byte list result" where
  "SetSlice_copy 0 d s source data = Inr data"
| "SetSlice_copy (Suc count) d s source data =
    rbind (read_at source s) (\<lambda>b.
    rbind (update_at d (\<lambda>_. b) data) (SetSlice_copy count (Suc d) (Suc s) source))"

function SetSlice_merge ::
    "nat \<Rightarrow> nat \<Rightarrow> nat \<Rightarrow> nat \<Rightarrow> nat \<Rightarrow> byte list \<Rightarrow> byte list \<Rightarrow> byte list result" where
  "SetSlice_merge boundaryOffset srcLastByteBitsCount remainingBits d s source data =
    (if remainingBits \<noteq> 0 then
      let srcMsbBitsCount = 8 - boundaryOffset;
          srcKeepMsbMask = LEFT_BITS_MASK_8 ! srcMsbBitsCount;
          srcKeepLsbMask = RIGHT_BITS_MASK_8 ! boundaryOffset
      in rbind (read_at source s) (\<lambda>msb.
         rbind (read_at source (Suc s)) (\<lambda>lsb.
          let srcValue = push_bit srcMsbBitsCount (msb AND srcKeepLsbMask)
                         OR drop_bit boundaryOffset (lsb AND srcKeepMsbMask)
          in if remainingBits \<ge> 8
             then rbind (update_at d (\<lambda>_. srcValue) data)
                    (SetSlice_merge boundaryOffset srcLastByteBitsCount (remainingBits - 8)
                       (Suc d) (Suc s) source)
             else
              let dstKeepLsbMask = LEFT_BITS_CLEAR_MASK_8 ! srcLastByteBitsCount
              in update_at d (\<lambda>b. (b AND dstKeepLsbMask) OR (srcValue AND NOT dstKeepLsbMask)) data))
     else Inr data)"
  by pat_completeness auto
termination
  by (relation "measure (\<lambda>(_, _, n, _, _, _, _). n)") auto

declare SetSlice_merge.simps [simp del]

definition SetSlice_bytes :: "nat \<Rightarrow> nat \<Rightarrow> byte list \<Rightarrow> byte list \<Rightarrow> byte list result" where
  "SetSlice_bytes startOffset srcBitsCount source data =
    (let dstByteOffset = startOffset div 8;
         offsetInFirstBytes = startOffset mod 8
     in if offsetInFirstBytes = 0 then
          let srcLastByteBitsCount = srcBitsCount mod 8;
              fullBytesCount = srcBitsCount div 8
          in rbind (SetSlice_copy fullBytesCount dstByteOffset 0 source data) (\<lambda>data'.
             if srcLastByteBitsCount \<noteq> 0
             then rbind (read_at source fullBytesCount) (\<lambda>srce.
                  update_at (dstByteOffset + fullBytesCount)
                    (\<lambda>dest. (dest AND LEFT_BITS_CLEAR_MASK_8 ! srcLastByteBitsCount)
                            OR (srce AND LEFT_BITS_MASK_8 ! srcLastByteBitsCount)) data')
             else Inr data')
        else
          let boundaryOffset = startOffset mod 8
          in if boundaryOffset + srcBitsCount < 8 then
               let dstMask = LEFT_BITS_MASK_8 ! boundaryOffset
                             OR LEFT_BITS_CLEAR_MASK_8 ! (boundaryOffset + srcBitsCount - 1 + 1)
               in rbind (read_at source 0) (\<lambda>srce.
                  update_at dstByteOffset
                    (\<lambda>dest. (dest AND dstMask)
                            OR drop_bit boundaryOffset (srce AND LEFT_BITS_MASK_8 ! srcBitsCount)) data)
             else
               let srcMsbBitsCount = 8 - offsetInFirstBytes;
                   srcLastByteBitsCount = (srcBitsCount - srcMsbBitsCount) mod 8
               in rbind (read_at source 0) (\<lambda>srce.
                  rbind (update_at dstByteOffset
                           (\<lambda>dest. (dest AND LEFT_BITS_MASK_8 ! boundaryOffset)
                                   OR drop_bit boundaryOffset (srce AND LEFT_BITS_MASK_8 ! srcMsbBitsCount)) data)
                    (SetSlice_merge boundaryOffset srcLastByteBitsCount (srcBitsCount - srcMsbBitsCount)
                       (Suc dstByteOffset) 0 source)))"

definition SetSlice_Impl :: "nat \<Rightarrow> nat \<Rightarrow> byte list option \<Rightarrow> BinaryVector \<Rightarrow> BinaryVector result" where
  "SetSlice_Impl startOffset bitsCount source v =
    (case source of
       None \<Rightarrow> Inl InvalidArgument
     | Some src \<Rightarrow>
        if IsEmpty v then Inl RuntimeError
        else
         CheckParameterCondition (startOffset \<le> u32_sub (BitsCount v) 1)
         (CheckParameterCondition (u32 (startOffset + bitsCount) \<le> BitsCount v)
           (with_data v (SetSlice_bytes startOffset bitsCount src (m_data v)))))"

text \<open>
  \<open>slack\<close> is the memory readable past the end of the assigned vector's bytes (none in general),
  \<open>null\<close> whether \<^verbatim>\<open>data()\<close> of an empty \<^verbatim>\<open>std::vector\<close> is the null pointer, which the
  standard leaves open.
\<close>

definition DataLeftAligned :: "bool \<Rightarrow> byte list \<Rightarrow> BinaryVector \<Rightarrow> byte list option" where
  "DataLeftAligned null slack v = (if m_data v = [] \<and> null then None else Some (m_data v @ slack))"

definition SetSlice :: "bool \<Rightarrow> byte list \<Rightarrow> nat \<Rightarrow> BinaryVector \<Rightarrow> BinaryVector \<Rightarrow> BinaryVector result" where
  "SetSlice null slack startOffset val v =
    SetSlice_Impl startOffset (BitsCount val) (DataLeftAligned null slack val) v"

section \<open>Writing a slice: correctness\<close>

definition splice :: "nat \<Rightarrow> 'a list \<Rightarrow> 'a list \<Rightarrow> 'a list" where
  "splice off cs bs = take off bs @ cs @ drop (off + length cs) bs"

lemma splice_length [simp]: "off + length cs \<le> length bs \<Longrightarrow> length (splice off cs bs) = length bs"
  by (simp add: splice_def)

lemma splice_Nil [simp]: "splice off [] bs = bs"
  by (simp add: splice_def)

lemma splice_splice:
  "a + length xs + length ys \<le> length zs \<Longrightarrow>
   splice (a + length xs) ys (splice a xs zs) = splice a (xs @ ys) zs"
  by (simp add: splice_def ac_simps)

lemma splice_append:
  "off + length cs \<le> length bs \<Longrightarrow> splice off cs (bs @ ds) = splice off cs bs @ ds"
  by (simp add: splice_def)

lemma splice_pad:
  "off + length cs \<le> length bs \<Longrightarrow> data_bits ds = splice off cs (data_bits (pack bs))
   \<Longrightarrow> ds = pack (splice off cs bs)"
  by (rule pack_unique) (simp add: data_bits_pack splice_append)

text \<open>A byte write that replaces some consecutive bits of the byte.\<close>

lemma update_at_splice:
  assumes "d < length ds" and "byte_bits (f (ds ! d)) = splice k cs (byte_bits (ds ! d))"
    and "k + length cs \<le> 8"
  shows "\<exists>ds'. update_at d f ds = Inr ds' \<and> length ds' = length ds
           \<and> data_bits ds' = splice (8 * d + k) cs (data_bits ds)"
proof -
  let ?ds = "ds[d := f (ds ! d)]"
  have parts: "data_bits ds = take (8 * d) (data_bits ds) @ byte_bits (ds ! d) @ drop (8 * Suc d) (data_bits ds)"
    using data_bits_nth_byte [OF assms(1)]
    by (metis append_take_drop_id drop_drop mult_Suc_right add.commute)
  have "?ds = take d ds @ [f (ds ! d)] @ drop (Suc d) ds"
    using assms(1) by (simp add: upd_conv_take_nth_drop)
  then have "data_bits ?ds = take (8 * d) (data_bits ds) @ splice k cs (byte_bits (ds ! d)) @ drop (8 * Suc d) (data_bits ds)"
    using assms(2) by (simp add: data_bits_take data_bits_drop)
  also have "\<dots> = splice (8 * d + k) cs (data_bits ds)"
    using assms(1,3) by (subst (3) parts) (simp add: splice_def min_def)
  finally show ?thesis
    using assms(1) by (simp add: update_at_def)
qed

lemma byte_splice:
  assumes "k + length cs \<le> 8" and "\<And>i. i < 8 \<Longrightarrow> bit x (7 - i) = (if k \<le> i \<and> i < k + length cs then cs ! (i - k) else bit b (7 - i))"
  shows "byte_bits x = splice k cs (byte_bits b)"
  using assms by (intro nth_equalityI) (auto simp: byte_bits_nth splice_def nth_append)

lemma byte_splice_partial:
  assumes "k + n \<le> 8"
  shows "byte_bits ((b AND (LEFT_BITS_MASK_8 ! k OR LEFT_BITS_CLEAR_MASK_8 ! (k + n)))
                    OR drop_bit k (s AND LEFT_BITS_MASK_8 ! n))
         = splice k (take n (byte_bits s)) (byte_bits b)"
  using assms
  by (intro byte_splice)
    (auto simp: LEFT_BITS_MASK_8_nth LEFT_BITS_CLEAR_MASK_8_nth bit_simps byte_bits_nth add.commute)

lemma byte_splice_full: "byte_bits s = splice 0 (byte_bits s) (byte_bits b)"
  by (simp add: splice_def)

lemma byte_splice_head:
  assumes "n \<le> 8"
  shows "byte_bits ((b AND LEFT_BITS_CLEAR_MASK_8 ! n) OR (s AND LEFT_BITS_MASK_8 ! n))
         = splice 0 (take n (byte_bits s)) (byte_bits b)"
  using assms
  by (intro byte_splice)
    (auto simp: LEFT_BITS_MASK_8_nth LEFT_BITS_CLEAR_MASK_8_nth bit_simps byte_bits_nth)

lemma byte_splice_tail:
  assumes "k \<le> 8"
  shows "byte_bits ((b AND LEFT_BITS_MASK_8 ! k) OR drop_bit k (s AND LEFT_BITS_MASK_8 ! (8 - k)))
         = splice k (take (8 - k) (byte_bits s)) (byte_bits b)"
  using assms
  by (intro byte_splice) (auto simp: LEFT_BITS_MASK_8_nth bit_simps byte_bits_nth add.commute)

lemma byte_merge:
  assumes "0 < k" "k < 8"
  shows "byte_bits (push_bit (8 - k) (m AND RIGHT_BITS_MASK_8 ! k) OR drop_bit k (l AND LEFT_BITS_MASK_8 ! (8 - k)))
         = drop (8 - k) (byte_bits m) @ take (8 - k) (byte_bits l)"
  using assms
  by (intro nth_equalityI)
    (auto simp: LEFT_BITS_MASK_8_nth RIGHT_BITS_MASK_8_nth bit_simps byte_bits_nth nth_append add.commute)

lemma byte_splice_last:
  assumes "n \<le> 8"
  shows "byte_bits ((b AND LEFT_BITS_CLEAR_MASK_8 ! n) OR (s AND NOT (LEFT_BITS_CLEAR_MASK_8 ! n)))
         = splice 0 (take n (byte_bits s)) (byte_bits b)"
  using byte_splice_head [OF assms, of b s] assms
  by (simp add: LEFT_BITS_MASK_8_nth LEFT_BITS_CLEAR_MASK_8_nth)

lemma SetSlice_copy_splice:
  "d + count \<le> length data \<Longrightarrow> s + count \<le> length source \<Longrightarrow>
   \<exists>data'. SetSlice_copy count d s source data = Inr data' \<and> length data' = length data
     \<and> data_bits data' = splice (8 * d) (take (8 * count) (drop (8 * s) (data_bits source))) (data_bits data)"
proof (induction count arbitrary: d s data)
  case (Suc count)
  let ?src = "data_bits source"
  have b: "byte_bits (source ! s) = take 8 (drop (8 * s) ?src)"
    using Suc.prems by (simp add: data_bits_nth_byte)
  obtain ds where ds: "update_at d (\<lambda>_. source ! s) data = Inr ds" "length ds = length data"
    "data_bits ds = splice (8 * d) (byte_bits (source ! s)) (data_bits data)"
    using update_at_splice [of d data "\<lambda>_. source ! s" 0 "byte_bits (source ! s)"] Suc.prems byte_splice_full
    by auto
  obtain data' where data': "SetSlice_copy count (Suc d) (Suc s) source ds = Inr data'" "length data' = length ds"
    "data_bits data' = splice (8 * Suc d) (take (8 * count) (drop (8 * Suc s) ?src)) (data_bits ds)"
    using Suc.IH [of "Suc d" ds "Suc s"] Suc.prems ds(2) by auto
  have "data_bits data' = splice (8 * d + length (byte_bits (source ! s)))
      (take (8 * count) (drop (8 * Suc s) ?src)) (splice (8 * d) (byte_bits (source ! s)) (data_bits data))"
    using data'(3) ds(3) by (simp add: add.commute)
  also have "\<dots> = splice (8 * d) (byte_bits (source ! s) @ take (8 * count) (drop (8 * Suc s) ?src)) (data_bits data)"
    using Suc.prems by (intro splice_splice) simp
  also have "byte_bits (source ! s) @ take (8 * count) (drop (8 * Suc s) ?src)
      = take (8 * Suc count) (drop (8 * s) ?src)"
    using take_add [of 8 "8 * count" "drop (8 * s) ?src"] by (simp add: b add.commute)
  finally show ?case
    using Suc.prems ds data' by (simp add: read_at_def)
qed simp

lemma SetSlice_merge_splice:
  assumes "0 < k" "k < 8" and "lastBits = r mod 8"
    and "r \<noteq> 0 \<Longrightarrow> Suc s + (r - 1) div 8 < length source" and "8 * d + r \<le> 8 * length data"
  shows "\<exists>data'. SetSlice_merge k lastBits r d s source data = Inr data' \<and> length data' = length data
     \<and> data_bits data' = splice (8 * d) (take r (drop (8 * s + (8 - k)) (data_bits source))) (data_bits data)"
  using assms(3-)
proof (induction r arbitrary: d s data rule: less_induct)
  case (less r)
  let ?src = "data_bits source"
  let ?v = "push_bit (8 - k) (source ! s AND RIGHT_BITS_MASK_8 ! k)
            OR drop_bit k (source ! Suc s AND LEFT_BITS_MASK_8 ! (8 - k))"
  show ?case
  proof (cases "r = 0")
    case True
    then show ?thesis by (subst SetSlice_merge.simps) simp
  next
    case False
    then have len: "Suc s < length source" using less.prems(2) by linarith
    then have rd: "read_at source s = Inr (source ! s)" "read_at source (Suc s) = Inr (source ! Suc s)"
      by (simp_all add: read_at_def)
    have vbits: "byte_bits ?v = take 8 (drop (8 * s + (8 - k)) ?src)"
    proof -
      let ?X = "drop (8 * s) ?src"
      have "take 8 (drop (8 * s + (8 - k)) ?src) = take (k + (8 - k)) (drop (8 - k) ?X)"
        using assms(2) by (simp add: add.commute)
      also have "\<dots> = take k (drop (8 - k) ?X) @ take (8 - k) (drop (k + (8 - k)) ?X)"
        using take_add [of k "8 - k" "drop (8 - k) ?X"] by (simp add: ac_simps)
      also have "\<dots> = drop (8 - k) (take 8 ?X) @ take (8 - k) (take 8 (drop 8 ?X))"
        using assms(2) by (simp add: drop_take min_def)
      also have "take 8 ?X = byte_bits (source ! s)"
        using len by (simp add: data_bits_nth_byte)
      also have "take 8 (drop 8 ?X) = byte_bits (source ! Suc s)"
        using len data_bits_nth_byte [of "Suc s" source] by (simp add: add.commute)
      finally show ?thesis
        using byte_merge [OF assms(1,2)] by simp
    qed
    show ?thesis
    proof (cases "8 \<le> r")
      case True
      then have d: "d < length data" using less.prems by linarith
      obtain ds where ds: "update_at d (\<lambda>_. ?v) data = Inr ds" "length ds = length data"
        "data_bits ds = splice (8 * d) (byte_bits ?v) (data_bits data)"
        using update_at_splice [OF d, of "\<lambda>_. ?v" 0 "byte_bits ?v"] byte_splice_full by auto
      have r8: "r - 8 < r" "lastBits = (r - 8) mod 8"
        using True less.prems(1) by (simp_all add: le_mod_geq)
      have "Suc (Suc s) + (r - 8 - 1) div 8 < length source" if "r - 8 \<noteq> 0"
        using less.prems(2) that by linarith
      moreover have "8 * Suc d + (r - 8) \<le> 8 * length ds"
        using less.prems(3) True ds(2) by simp
      ultimately obtain data' where
        data': "SetSlice_merge k lastBits (r - 8) (Suc d) (Suc s) source ds = Inr data'" "length data' = length ds"
        "data_bits data' = splice (8 * Suc d) (take (r - 8) (drop (8 * Suc s + (8 - k)) ?src)) (data_bits ds)"
        using less.IH [OF r8, of "Suc s" "Suc d" ds] by blast
      have "data_bits data' = splice (8 * d + length (byte_bits ?v))
          (take (r - 8) (drop (8 * Suc s + (8 - k)) ?src)) (splice (8 * d) (byte_bits ?v) (data_bits data))"
        unfolding data'(3) ds(3) by (simp add: add.commute)
      also have "\<dots> = splice (8 * d) (byte_bits ?v @ take (r - 8) (drop (8 * Suc s + (8 - k)) ?src)) (data_bits data)"
        using less.prems(3) True by (intro splice_splice) simp
      also have "byte_bits ?v @ take (r - 8) (drop (8 * Suc s + (8 - k)) ?src) = take r (drop (8 * s + (8 - k)) ?src)"
        using take_add [of 8 "r - 8" "drop (8 * s + (8 - k)) ?src"] True unfolding vbits by (simp add: ac_simps)
      finally show ?thesis
        using True False rd ds(1,2) data'(1,2)
        by (subst SetSlice_merge.simps) (simp add: Let_def)
    next
      case small: False
      then have "d < length data" using less.prems False by linarith
      moreover have "take r (byte_bits ?v) = take r (drop (8 * s + (8 - k)) ?src)"
        unfolding vbits using small by (simp add: min_def)
      ultimately have "\<exists>ds. update_at d (\<lambda>b. (b AND LEFT_BITS_CLEAR_MASK_8 ! r) OR (?v AND NOT (LEFT_BITS_CLEAR_MASK_8 ! r))) data = Inr ds
          \<and> length ds = length data \<and> data_bits ds = splice (8 * d) (take r (drop (8 * s + (8 - k)) ?src)) (data_bits data)"
        using update_at_splice [of d data "\<lambda>b. (b AND LEFT_BITS_CLEAR_MASK_8 ! r) OR (?v AND NOT (LEFT_BITS_CLEAR_MASK_8 ! r))"
            0 "take r (byte_bits ?v)"] byte_splice_last [of r] small by simp
      then show ?thesis
        using small False rd less.prems(1)
        by (subst SetSlice_merge.simps) (simp add: Let_def)
    qed
  qed
qed

lemma SetSlice_merge_overread:
  assumes "length source \<le> Suc s + (r - 1) div 8" and "0 < r" and "s \<le> length source"
    and "8 * d + r \<le> 8 * length data"
  shows "SetSlice_merge k lastBits r d s source data = Inl UndefinedBehaviour"
  using assms
proof (induction r arbitrary: d s data rule: less_induct)
  case (less r)
  consider "length source \<le> Suc s" | "Suc s < length source" "8 \<le> r" "d < length data"
    using less.prems by linarith
  then show ?case
  proof cases
    case 1
    then show ?thesis
      using less.prems by (subst SetSlice_merge.simps) (simp add: read_at_def Let_def)
  next
    case 2
    have "SetSlice_merge k lastBits (r - 8) (Suc d) (Suc s) source (data[d := b]) = Inl UndefinedBehaviour" for b
      using 2 less.prems by (intro less.IH) (simp | linarith)+
    then show ?thesis
      using 2 less.prems by (subst SetSlice_merge.simps) (simp add: read_at_def update_at_def Let_def)
  qed
qed

text \<open>
  The bytes \<open>SetSlice_Impl\<close> reads for \<open>n\<close> bits written at offset \<open>off\<close>: with an unaligned
  offset the last step reads one byte more than the bits need when they end in the byte before.
\<close>

definition SetSlice_reads :: "nat \<Rightarrow> nat \<Rightarrow> nat" where
  "SetSlice_reads off n =
    (let k = off mod 8
     in if k = 0 then (n + 7) div 8
        else if n \<le> 8 - k then 1
        else 2 + (n - (8 - k) - 1) div 8)"

lemma SetSlice_bytes_aligned:
  assumes "(n + 7) div 8 \<le> length source" and "8 * j + n \<le> 8 * length data"
  shows "\<exists>data'. SetSlice_bytes (8 * j) n source data = Inr data' \<and> length data' = length data
     \<and> data_bits data' = splice (8 * j) (take n (data_bits source)) (data_bits data)"
proof -
  define q r where "q = n div 8" and "r = n mod 8"
  have n: "n = 8 * q + r" and r: "r < 8" by (simp_all add: q_def r_def)
  let ?src = "data_bits source"
  obtain ds where ds: "SetSlice_copy q j 0 source data = Inr ds" "length ds = length data"
    "data_bits ds = splice (8 * j) (take (8 * q) ?src) (data_bits data)"
  proof -
    have "q \<le> length source" using assms n by linarith
    then show ?thesis using SetSlice_copy_splice [of j q data 0 source] assms n that by auto
  qed
  show ?thesis
  proof (cases "r = 0")
    case True
    then show ?thesis
      using ds n by (simp add: SetSlice_bytes_def flip: q_def r_def)
  next
    case False
    then have q: "q < length source" "j + q < length ds"
      using assms n ds(2) by linarith+
    have last: "take r (byte_bits (source ! q)) = take r (drop (8 * q) ?src)"
      using data_bits_nth_byte [OF q(1)] r by (metis less_imp_le min.absorb1 take_take)
    obtain data' where data': "update_at (j + q) (\<lambda>dest. (dest AND LEFT_BITS_CLEAR_MASK_8 ! r)
        OR (source ! q AND LEFT_BITS_MASK_8 ! r)) ds = Inr data'" "length data' = length ds"
      "data_bits data' = splice (8 * (j + q)) (take r (byte_bits (source ! q))) (data_bits ds)"
      using update_at_splice [OF q(2), of _ 0 "take r (byte_bits (source ! q))"] byte_splice_head [of r] r
      by fastforce
    have lq: "length (take (8 * q) ?src) = 8 * q" using q(1) by simp
    have "data_bits data' = splice (8 * j + length (take (8 * q) ?src)) (take r (drop (8 * q) ?src))
        (splice (8 * j) (take (8 * q) ?src) (data_bits data))"
      unfolding data'(3) ds(3) last lq by (simp add: algebra_simps)
    also have "\<dots> = splice (8 * j) (take (8 * q) ?src @ take r (drop (8 * q) ?src)) (data_bits data)"
      using q assms n lq ds(2) by (intro splice_splice) simp
    also have "take (8 * q) ?src @ take r (drop (8 * q) ?src) = take n ?src"
      unfolding n by (rule take_add [symmetric])
    finally show ?thesis
      using False q data'(1,2) ds(1,2)
      by (simp add: SetSlice_bytes_def read_at_def flip: q_def r_def)
  qed
qed

lemma SetSlice_bytes_partial:
  assumes "0 < k" "k + n < 8" and "source \<noteq> []" and "j < length data"
  shows "\<exists>data'. SetSlice_bytes (8 * j + k) n source data = Inr data' \<and> length data' = length data
     \<and> data_bits data' = splice (8 * j + k) (take n (data_bits source)) (data_bits data)"
proof -
  have div: "(8 * j + k) div 8 = j" "(8 * j + k) mod 8 = k" "k + n - 1 + 1 = k + n"
    using assms by simp_all
  have src: "take n (byte_bits (source ! 0)) = take n (data_bits source)"
    using assms by (cases source) simp_all
  have "\<exists>data'. update_at j (\<lambda>dest. (dest AND (LEFT_BITS_MASK_8 ! k OR LEFT_BITS_CLEAR_MASK_8 ! (k + n)))
      OR drop_bit k (source ! 0 AND LEFT_BITS_MASK_8 ! n)) data = Inr data' \<and> length data' = length data
      \<and> data_bits data' = splice (8 * j + k) (take n (byte_bits (source ! 0))) (data_bits data)"
    using assms by (intro update_at_splice byte_splice_partial) simp_all
  then show ?thesis
    using assms unfolding SetSlice_bytes_def div Let_def src
    by (simp add: read_at_def)
qed

lemma SetSlice_bytes_merge:
  assumes "0 < k" "k < 8" "8 \<le> k + n" and "8 * j + k + n \<le> 8 * length data"
    and "SetSlice_reads (8 * j + k) n \<le> length source"
  shows "\<exists>data'. SetSlice_bytes (8 * j + k) n source data = Inr data' \<and> length data' = length data
     \<and> data_bits data' = splice (8 * j + k) (take n (data_bits source)) (data_bits data)"
proof -
  have div: "(8 * j + k) div 8 = j" "(8 * j + k) mod 8 = k"
    using assms by simp_all
  have j: "j < length data" using assms by linarith
  have ne: "0 < length source" and reads: "n - (8 - k) \<noteq> 0 \<Longrightarrow> Suc 0 + (n - (8 - k) - 1) div 8 < length source"
    using assms(1-3,5) unfolding SetSlice_reads_def div Let_def by (auto split: if_splits)
  let ?src = "data_bits source" and ?h = "take (8 - k) (byte_bits (source ! 0))"
  obtain ds where ds: "update_at j (\<lambda>dest. (dest AND LEFT_BITS_MASK_8 ! k)
      OR drop_bit k (source ! 0 AND LEFT_BITS_MASK_8 ! (8 - k))) data = Inr ds" "length ds = length data"
    "data_bits ds = splice (8 * j + k) ?h (data_bits data)"
    using update_at_splice [OF j, of _ k ?h] byte_splice_tail [of k] assms by fastforce
  obtain data' where data': "SetSlice_merge k ((n - (8 - k)) mod 8) (n - (8 - k)) (Suc j) 0 source ds = Inr data'"
    "length data' = length ds"
    "data_bits data' = splice (8 * Suc j) (take (n - (8 - k)) (drop (8 - k) ?src)) (data_bits ds)"
    using SetSlice_merge_splice [of k "(n - (8 - k)) mod 8" "n - (8 - k)" 0 source "Suc j" ds]
      assms ds(2) reads by auto
  have h: "?h = take (8 - k) ?src" "length ?h = 8 - k"
    using ne assms by (cases source; simp)+
  have "data_bits data' = splice (8 * j + k + length ?h) (take (n - (8 - k)) (drop (8 - k) ?src))
      (splice (8 * j + k) ?h (data_bits data))"
    using assms unfolding data'(3) ds(3) h(2) by (simp add: add.commute)
  also have "\<dots> = splice (8 * j + k) (?h @ take (n - (8 - k)) (drop (8 - k) ?src)) (data_bits data)"
    using assms h(2) by (intro splice_splice) simp
  also have "?h @ take (n - (8 - k)) (drop (8 - k) ?src) = take n ?src"
    using take_add [of "8 - k" "n - (8 - k)" ?src] assms by (simp add: h(1))
  finally show ?thesis
    using assms ne data' ds unfolding SetSlice_bytes_def div Let_def
    by (simp add: read_at_def)
qed

section \<open>SetSlice on vectors\<close>

lemma SetSlice_bytes_splice:
  assumes "SetSlice_reads off n \<le> length source" and "off + n \<le> 8 * length data" and "off < 8 * length data"
  shows "\<exists>data'. SetSlice_bytes off n source data = Inr data' \<and> length data' = length data
     \<and> data_bits data' = splice off (take n (data_bits source)) (data_bits data)"
proof -
  define j k where "j = off div 8" and "k = off mod 8"
  have off: "off = 8 * j + k" and k: "k < 8" by (simp_all add: j_def k_def)
  have j: "j < length data" using assms(3) off by linarith
  consider (aligned) "k = 0" | (partial) "0 < k" "k + n < 8" | (merge) "0 < k" "8 \<le> k + n" by linarith
  then show ?thesis
  proof cases
    case aligned
    then show ?thesis
      using SetSlice_bytes_aligned [of n source j data] assms off
      by (simp add: SetSlice_reads_def)
  next
    case partial
    then have "source \<noteq> []"
      using assms(1) by (auto simp: SetSlice_reads_def Let_def simp flip: k_def split: if_splits)
    then show ?thesis
      using SetSlice_bytes_partial [of k n source j data] partial j off by simp
  next
    case merge
    then show ?thesis
      using SetSlice_bytes_merge [of k n j data source] k assms off by simp
  qed
qed

lemma with_data_make:
  "length cs = length bs \<Longrightarrow> with_data (bv_make bs p) (Inr (pack cs)) = Inr (bv_make cs p)"
  by (simp add: with_data_def bv_make_def)

lemma last_offset:
  assumes "bs \<noteq> []" and "length bs < 4294967296"
  shows "off \<le> u32_sub (length bs) 1 \<longleftrightarrow> off < length bs"
proof -
  have "1 \<le> length bs" using assms(1) by (cases bs) simp_all
  then show ?thesis using assms(2) by auto
qed

lemma SetSlice_Impl_make:
  assumes len: "length bs < 4294967296" "off + n < 4294967296"
    and src: "n \<le> 8 * length source" "SetSlice_reads off n \<le> length source"
  shows "SetSlice_Impl off n (Some source) (bv_make bs p)
    = (if bs = [] then Inl RuntimeError
       else if off < length bs \<and> off + n \<le> length bs
       then Inr (bv_make (splice off (take n (data_bits source)) bs) p)
       else Inl InvalidArgument)"
proof (cases "bs \<noteq> [] \<and> off < length bs \<and> off + n \<le> length bs")
  case False
  have "off \<le> u32_sub (length bs) (Suc 0) \<longleftrightarrow> off < length bs" if "bs \<noteq> []"
    using last_offset [OF that len(1), of off] by simp
  then show ?thesis
    using False len by (auto simp: SetSlice_Impl_def check_defs)
next
  case True
  then have sub: "off \<le> u32_sub (length bs) 1"
    using last_offset [of bs off] len(1) by simp
  have l8: "length bs \<le> 8 * length (pack bs)" by (simp add: length_pack ceil8)
  obtain data' where "SetSlice_bytes off n source (pack bs) = Inr data'"
    and bits: "data_bits data' = splice off (take n (data_bits source)) (data_bits (pack bs))"
    using SetSlice_bytes_splice [OF src(2), of "pack bs"] True l8 by auto
  moreover have "data' = pack (splice off (take n (data_bits source)) bs)"
    using True src(1) bits by (intro splice_pad) simp_all
  ultimately show ?thesis
    using True len src(1) sub
    by (simp add: SetSlice_Impl_def with_data_make)
qed

lemma SetSlice_reads_le: "0 < n \<Longrightarrow> SetSlice_reads off n \<le> Suc ((n + 7) div 8)"
  by (simp add: SetSlice_reads_def Let_def) linarith

text \<open>Assigning a non-empty vector, when at least one byte follows its data or is not read.\<close>

lemma SetSlice_make:
  assumes "length bs < 4294967296" and "off + length cs < 4294967296" and "cs \<noteq> []"
    and "slack \<noteq> [] \<or> SetSlice_reads off (length cs) \<le> (length cs + 7) div 8"
  shows "SetSlice null slack off (bv_make cs q) (bv_make bs p)
    = (if bs = [] then Inl RuntimeError
       else if off < length bs \<and> off + length cs \<le> length bs
       then Inr (bv_make (splice off cs bs) p)
       else Inl InvalidArgument)"
proof -
  have ne: "pack cs \<noteq> []" using assms(3) by (simp add: pack_step)
  have reads: "SetSlice_reads off (length cs) \<le> length (pack cs @ slack)"
  proof -
    have "SetSlice_reads off (length cs) \<le> Suc ((length cs + 7) div 8)"
      using assms(3) by (intro SetSlice_reads_le) simp
    then show ?thesis
      using assms(4) by (cases slack) (auto simp: length_pack)
  qed
  have n: "length cs \<le> 8 * length (pack cs @ slack)"
    by (simp add: length_pack ceil8 distrib_left)
  have bits: "take (length cs) (data_bits (pack cs @ slack)) = cs"
    by (simp add: data_bits_pack)
  show ?thesis
    unfolding SetSlice_def DataLeftAligned_def BitsCount_make bv_make_sel
    using SetSlice_Impl_make [OF assms(1,2) n reads, of p] ne by (simp only: bits if_False simp_thms option.case) 
qed

lemma SetSlice_bytes_overread:
  assumes "length source < SetSlice_reads off n" and "off + n \<le> 8 * length data" and "off mod 8 \<noteq> 0"
    and "off < 8 * length data"
  shows "SetSlice_bytes off n source data = Inl UndefinedBehaviour"
proof -
  define j k where "j = off div 8" and "k = off mod 8"
  have off: "off = 8 * j + k" and k: "k < 8" "k \<noteq> 0" using assms(3) by (simp_all add: j_def k_def)
  have j: "j < length data" using assms(4) off by linarith
  show ?thesis
  proof (cases "source = []")
    case True
    then show ?thesis
      using k unfolding SetSlice_bytes_def Let_def k_def [symmetric]
      by (simp add: read_at_def)
  next
    case False
    then have n: "8 - k < n" and short: "length source < 2 + (n - (8 - k) - 1) div 8"
      using assms(1) k by (auto simp: SetSlice_reads_def Let_def simp flip: k_def split: if_splits)
    have "SetSlice_merge k l (n - (8 - k)) (Suc j) 0 source (data[j := b]) = Inl UndefinedBehaviour" for l b
      using n short k assms(2) off by (intro SetSlice_merge_overread) auto
    then show ?thesis
      using False n j k unfolding SetSlice_bytes_def Let_def k_def [symmetric] j_def [symmetric]
      by (simp add: read_at_def update_at_def)
  qed
qed

lemma SetSlice_overread:
  assumes "length bs < 4294967296" and "off + length cs \<le> length bs" and "cs \<noteq> []"
    and "off mod 8 \<noteq> 0" and "(length cs + 7) div 8 < SetSlice_reads off (length cs)"
  shows "SetSlice null [] off (bv_make cs q) (bv_make bs p) = Inl UndefinedBehaviour"
proof -
  have "0 < length cs" using assms(3) by simp
  then have off: "off < length bs" using assms(2) by linarith
  then have ne: "pack cs \<noteq> []" "bs \<noteq> []" "off < length bs" using assms(3) by (auto simp: pack_step)
  note sub = last_offset [OF ne(2) assms(1), of off]
  have l8: "length bs \<le> 8 * length (pack bs)" by (simp add: length_pack ceil8)
  have "SetSlice_bytes off (length cs) (pack cs) (pack bs) = Inl UndefinedBehaviour"
    using assms ne l8 by (intro SetSlice_bytes_overread) (simp_all add: length_pack)
  then show ?thesis
    using ne sub assms(1,2)
    by (simp add: SetSlice_def DataLeftAligned_def SetSlice_Impl_def with_data_def)
qed

section \<open>SetSlice on machine words and right aligned buffers\<close>

definition MAX_UNSIGNED_VALUE_FOR_BITS_COUNT :: "nat list" where
  "MAX_UNSIGNED_VALUE_FOR_BITS_COUNT =
    [0x0, 0x1, 0x3, 0x7, 0xF, 0x1F, 0x3F, 0x7F, 0xFF, 0x1FF, 0x3FF, 0x7FF, 0xFFF, 0x1FFF, 0x3FFF,
     0x7FFF, 0xFFFF, 0x1FFFF, 0x3FFFF, 0x7FFFF, 0xFFFFF, 0x1FFFFF, 0x3FFFFF, 0x7FFFFF, 0xFFFFFF,
     0x1FFFFFF, 0x3FFFFFF, 0x7FFFFFF, 0xFFFFFFF, 0x1FFFFFFF, 0x3FFFFFFF, 0x7FFFFFFF, 0xFFFFFFFF,
     0x1FFFFFFFF, 0x3FFFFFFFF, 0x7FFFFFFFF, 0xFFFFFFFFF, 0x1FFFFFFFFF, 0x3FFFFFFFFF, 0x7FFFFFFFFF,
     0xFFFFFFFFFF, 0x1FFFFFFFFFF, 0x3FFFFFFFFFF, 0x7FFFFFFFFFF, 0xFFFFFFFFFFF, 0x1FFFFFFFFFFF,
     0x3FFFFFFFFFFF, 0x7FFFFFFFFFFF, 0xFFFFFFFFFFFF, 0x1FFFFFFFFFFFF, 0x3FFFFFFFFFFFF,
     0x7FFFFFFFFFFFF, 0xFFFFFFFFFFFFF, 0x1FFFFFFFFFFFFF, 0x3FFFFFFFFFFFFF, 0x7FFFFFFFFFFFFF,
     0xFFFFFFFFFFFFFF, 0x1FFFFFFFFFFFFFF, 0x3FFFFFFFFFFFFFF, 0x7FFFFFFFFFFFFFF, 0xFFFFFFFFFFFFFFF,
     0x1FFFFFFFFFFFFFFF, 0x3FFFFFFFFFFFFFFF, 0x7FFFFFFFFFFFFFFF, 0xFFFFFFFFFFFFFFFF]"

definition SetSlice_T ::
    "nat \<Rightarrow> nat \<Rightarrow> (nat \<Rightarrow> BitsAlignment \<Rightarrow> BinaryVector \<Rightarrow> BinaryVector result)
     \<Rightarrow> bool \<Rightarrow> byte list \<Rightarrow> IndexedRange \<Rightarrow> BinaryVector \<Rightarrow> BinaryVector result" where
  "SetSlice_T valueBitsCount val appendValue null slack rng v =
    (if IsEmpty v then Inl RuntimeError
     else rbind (Width rng) (\<lambda>rangeBitsCount.
      CheckParameterCondition (rangeBitsCount \<le> BitsCount v)
      (CheckParameterCondition (right rng < BitsCount v)
      (CheckParameterCondition (IsSingleBit rng \<or> IncreasesTowardRight rng)
       (rbind (if rangeBitsCount > valueBitsCount
               then rbind (outcome (AppendBits False (rangeBitsCount - valueBitsCount) BinaryVector_empty))
                      (appendValue valueBitsCount Right)
               else if rangeBitsCount < valueBitsCount
               then CheckParameterCondition (val \<le> MAX_UNSIGNED_VALUE_FOR_BITS_COUNT ! rangeBitsCount)
                      (appendValue rangeBitsCount Right BinaryVector_empty)
               else appendValue rangeBitsCount Right BinaryVector_empty)
         (\<lambda>asBinaryVector.
           SetSlice_Impl (left rng) rangeBitsCount (DataLeftAligned null slack asBinaryVector) v))))))"

definition SetSlice_u8 :: "bool \<Rightarrow> byte list \<Rightarrow> IndexedRange \<Rightarrow> 8 word \<Rightarrow> BinaryVector \<Rightarrow> BinaryVector result" where
  "SetSlice_u8 null slack rng val = SetSlice_T 8 (unat val) (Append_u8 val) null slack rng"

definition SetSlice_u16 :: "bool \<Rightarrow> byte list \<Rightarrow> IndexedRange \<Rightarrow> 16 word \<Rightarrow> BinaryVector \<Rightarrow> BinaryVector result" where
  "SetSlice_u16 null slack rng val = SetSlice_T 16 (unat val) (Append_u16 val) null slack rng"

definition SetSlice_u32 :: "bool \<Rightarrow> byte list \<Rightarrow> IndexedRange \<Rightarrow> 32 word \<Rightarrow> BinaryVector \<Rightarrow> BinaryVector result" where
  "SetSlice_u32 null slack rng val = SetSlice_T 32 (unat val) (Append_u32 val) null slack rng"

definition SetSlice_u64 :: "bool \<Rightarrow> byte list \<Rightarrow> IndexedRange \<Rightarrow> 64 word \<Rightarrow> BinaryVector \<Rightarrow> BinaryVector result" where
  "SetSlice_u64 null slack rng val = SetSlice_T 64 (unat val) (Append_u64 val) null slack rng"

lemma MAX_UNSIGNED_VALUE_eq:
  "MAX_UNSIGNED_VALUE_FOR_BITS_COUNT = map (\<lambda>n. 2 ^ n - 1) [0..<65]"
  by (simp add: MAX_UNSIGNED_VALUE_FOR_BITS_COUNT_def upt_rec [of 0] upt_rec [of "Suc 0"] flip: numeral_2_eq_2)

lemma MAX_UNSIGNED_VALUE_nth: "n \<le> 64 \<Longrightarrow> MAX_UNSIGNED_VALUE_FOR_BITS_COUNT ! n = 2 ^ n - 1"
  by (simp add: MAX_UNSIGNED_VALUE_eq del: upt_Suc)

context word_append
begin

lemma SetSlice_T_as_vector:
  assumes len: "length bs < 4294967295" and rng: "left rng \<le> right rng" "right rng < length bs"
  shows "SetSlice_T valueBitsCount (bits_val vbits) append null slack rng (bv_make bs p)
    = (if bits_val vbits < 2 ^ (right rng - left rng + 1)
       then SetSlice null slack (left rng) (bv_make (widen (right rng - left rng + 1) False vbits) NotFixed) (bv_make bs p)
       else Inl InvalidArgument)"
proof -
  define w where "w = right rng - left rng + 1"
  have w: "Width rng = Inr w" "0 < w" "left rng + w \<le> length bs"
    using Width_increasing [of rng] rng len by (auto simp: w_def)
  have guards: "w \<le> length bs" "IsSingleBit rng \<or> IncreasesTowardRight rng" "bs \<noteq> []"
    using w rng by (auto simp: IsSingleBit_def IncreasesTowardRight_def)
  have fits: "bits_val vbits < 2 ^ w" if "valueBitsCount \<le> w"
    using order.strict_trans2 [OF bits_val_less [of vbits] power_increasing [of "length vbits" w]] that length_vbits
    by simp
  define built where "built = (if w > valueBitsCount
               then rbind (outcome (AppendBits False (w - valueBitsCount) BinaryVector_empty))
                      (append valueBitsCount Right)
               else if w < valueBitsCount
               then CheckParameterCondition (bits_val vbits \<le> MAX_UNSIGNED_VALUE_FOR_BITS_COUNT ! w)
                      (append w Right BinaryVector_empty)
               else append w Right BinaryVector_empty)"
  have built: "built = (if bits_val vbits < 2 ^ w then Inr (bv_make (widen w False vbits) NotFixed)
                        else Inl InvalidArgument)"
  proof -
    consider "w > valueBitsCount" | "w = valueBitsCount" | "w < valueBitsCount" by linarith
    then show ?thesis
    proof cases
      case 1
      have "AppendBits False (w - valueBitsCount) BinaryVector_empty
          = (bv_make (replicate (w - valueBitsCount) False) NotFixed, None)"
        using AppendBits_make [of "[]" "w - valueBitsCount" NotFixed False] guards len
        by (simp add: BinaryVector_empty_make)
      then show ?thesis
        using 1 fits guards len count length_vbits
        by (simp add: built_def outcome_def append_make widen_le)
    next
      case 2
      then show ?thesis
        using fits count length_vbits by (simp add: built_def append_make BinaryVector_empty_make)
    next
      case 3
      have "bits_val vbits \<le> 2 ^ w - 1 \<longleftrightarrow> bits_val vbits < 2 ^ w"
        by (simp add: less_eq_iff_succ_less)
      then show ?thesis
        using 3 w count length_vbits
        by (simp add: built_def append_make BinaryVector_empty_make MAX_UNSIGNED_VALUE_nth
            widen_ge value_bits_def check_defs)
    qed
  qed
  have "rbind built (\<lambda>as. SetSlice_Impl (left rng) w (DataLeftAligned null slack as) (bv_make bs p))
      = (if bits_val vbits < 2 ^ w then SetSlice null slack (left rng) (bv_make (widen w False vbits) NotFixed) (bv_make bs p)
         else Inl InvalidArgument)"
    by (simp add: built SetSlice_def)
  then show ?thesis
    using w guards rng unfolding built_def w_def [symmetric]
    by (simp add: SetSlice_T_def)
qed

lemma SetSlice_T_make:
  assumes len: "length bs < 4294967295" and rng: "left rng \<le> right rng" "right rng < length bs"
    and slack: "slack \<noteq> []"
  shows "SetSlice_T valueBitsCount (bits_val vbits) append null slack rng (bv_make bs p)
    = (if bits_val vbits < 2 ^ (right rng - left rng + 1)
       then Inr (bv_make (splice (left rng) (widen (right rng - left rng + 1) False vbits) bs) p)
       else Inl InvalidArgument)"
proof -
  define w where "w = right rng - left rng + 1"
  have w: "0 < w" "left rng + w \<le> length bs" "bs \<noteq> []" using rng by (auto simp: w_def)
  then have ne: "widen w False vbits \<noteq> []" using length_widen [of w False vbits] by fastforce
  show ?thesis
    using SetSlice_make [of bs "left rng" "widen w False vbits" slack null NotFixed p] ne w len slack
    unfolding SetSlice_T_as_vector [OF len rng] w_def [symmetric] by simp
qed

end

section \<open>Right aligned buffers\<close>

text \<open>
  The pointer routine \<^verbatim>\<open>ShiftBufferLeft\<close> on one memory \<open>mem\<close>, with the positions of
  \<^verbatim>\<open>pSource\<close> and \<^verbatim>\<open>pDest\<close> in it: source and destination may be the same buffer. The bit
  counter is \<open>8 * bytesCount - leftShiftCount\<close>, so it meets the end test before it could wrap.
  \<^verbatim>\<open>memcpy\<close> is undefined on ranges that overlap; the identical range is copied onto itself.
\<close>

definition memcpy :: "byte list \<Rightarrow> nat \<Rightarrow> nat \<Rightarrow> nat \<Rightarrow> byte list result" where
  "memcpy mem d s count =
    (if length mem < d + count \<or> length mem < s + count \<or> (s \<noteq> d \<and> s < d + count \<and> d < s + count)
     then Inl UndefinedBehaviour
     else Inr (take d mem @ take count (drop s mem) @ drop (d + count) mem))"

function ShiftBufferLeft_loop :: "nat \<Rightarrow> nat \<Rightarrow> nat \<Rightarrow> nat \<Rightarrow> byte list \<Rightarrow> byte list result" where
  "ShiftBufferLeft_loop leftShiftCount bitsCount s d mem =
    (if bitsCount \<noteq> 0 then
      let rightShiftCount = 8 - leftShiftCount
      in rbind (read_at mem s) (\<lambda>pByte.
          let msb = push_bit leftShiftCount pByte
          in if bitsCount \<le> rightShiftCount
             then update_at d (\<lambda>_. msb) mem
             else rbind (read_at mem (Suc s)) (\<lambda>next.
                  rbind (update_at d (\<lambda>_. msb OR drop_bit rightShiftCount next) mem)
                    (ShiftBufferLeft_loop leftShiftCount (bitsCount - 8) (Suc s) (Suc d))))
     else Inr mem)"
  by pat_completeness auto
termination
  by (relation "measure (\<lambda>(_, n, _, _, _). n)") auto

declare ShiftBufferLeft_loop.simps [simp del]

definition ShiftBufferLeft_ptr :: "nat \<Rightarrow> nat \<Rightarrow> nat \<Rightarrow> nat \<Rightarrow> byte list \<Rightarrow> byte list result" where
  "ShiftBufferLeft_ptr pSource pDest bytesCount leftShiftCount mem =
    CheckParameterCondition (leftShiftCount \<le> 7)
      (if bytesCount = 0 then Inr mem
       else if leftShiftCount = 0 then memcpy mem pDest pSource bytesCount
       else ShiftBufferLeft_loop leftShiftCount (u32_sub (u32 (bytesCount * 8)) leftShiftCount)
              pSource pDest mem)"

text \<open>
  The overload on two vectors, first for distinct vectors (the memory is the destination followed
  by the source), then called with the same vector twice.
\<close>

definition ShiftBufferLeft :: "byte list \<Rightarrow> byte list \<Rightarrow> nat \<Rightarrow> byte list result" where
  "ShiftBufferLeft sourceBuffer destBuffer bitsCount =
    (if bitsCount = 0 then Inr destBuffer
     else
      let bytesCount = BytesCountFromBitsCount bitsCount
      in CheckParameterCondition (length sourceBuffer \<ge> bytesCount)
          (let dest = (if length destBuffer < bytesCount then resize bytesCount destBuffer else destBuffer);
               firstByteOffset = length sourceBuffer - bytesCount;
               leftShiftCount = 8 - LastByteBitsCount bitsCount
           in rbind (ShiftBufferLeft_ptr (length dest + firstByteOffset) 0 bytesCount leftShiftCount
                       (dest @ sourceBuffer)) (\<lambda>mem.
              Inr (resize bytesCount (take (length dest) mem)))))"

definition ShiftBufferLeft_same :: "byte list \<Rightarrow> nat \<Rightarrow> byte list result" where
  "ShiftBufferLeft_same buffer bitsCount =
    (if bitsCount = 0 then Inr buffer
     else
      let bytesCount = BytesCountFromBitsCount bitsCount
      in CheckParameterCondition (length buffer \<ge> bytesCount)
          (let firstByteOffset = length buffer - bytesCount;
               leftShiftCount = 8 - LastByteBitsCount bitsCount
           in rbind (ShiftBufferLeft_ptr firstByteOffset 0 bytesCount leftShiftCount buffer) (\<lambda>mem.
              Inr (resize bytesCount mem))))"

definition CreateFromRightAlignedBuffer :: "byte list \<Rightarrow> nat \<Rightarrow> SizeProperty \<Rightarrow> BinaryVector result" where
  "CreateFromRightAlignedBuffer buffer bitsCount sizeProperty =
    rbind (ShiftBufferLeft buffer (replicate (length buffer) 0) bitsCount)
      (\<lambda>newBuffer. BinaryVector_data newBuffer bitsCount sizeProperty)"

definition CreateFromRightAlignedBuffer_move :: "byte list \<Rightarrow> nat \<Rightarrow> SizeProperty \<Rightarrow> BinaryVector result" where
  "CreateFromRightAlignedBuffer_move buffer bitsCount sizeProperty =
    rbind (ShiftBufferLeft_same buffer bitsCount)
      (\<lambda>newBuffer. BinaryVector_data newBuffer bitsCount sizeProperty)"

lemma byte_shift:
  assumes "0 < k" "k < 8"
  shows "byte_bits (push_bit k m OR drop_bit (8 - k) l) = drop k (byte_bits m) @ take k (byte_bits l)"
  using assms by (intro nth_equalityI)
    (auto simp: bit_simps byte_bits_nth nth_append add.commute dest: bit_imp_le_length)

lemma byte_shift_last:
  assumes "k < 8"
  shows "byte_bits (push_bit k m) = drop k (byte_bits m) @ replicate k False"
  using assms by (intro nth_equalityI)
    (auto simp: bit_simps byte_bits_nth nth_append add.commute dest: bit_imp_le_length)

lemma ShiftBufferLeft_loop_bits:
  assumes k: "0 < k" "k < 8"
  shows "length mem = s + Suc c \<Longrightarrow> d \<le> s \<Longrightarrow>
    \<exists>mem'. ShiftBufferLeft_loop k (8 * Suc c - k) s d mem = Inr mem' \<and> length mem' = length mem
      \<and> data_bits (take (d + Suc c) mem')
          = data_bits (take d mem) @ drop k (data_bits (drop s mem)) @ replicate k False"
proof (induction c arbitrary: s d mem)
  case 0
  have rd: "drop s mem = [mem ! s]" and d: "d < length mem"
    using 0 by (simp_all flip: Cons_nth_drop_Suc)
  then show ?case
    using 0 k by (subst ShiftBufferLeft_loop.simps)
      (simp add: read_at_def update_at_def take_Suc_conv_app_nth byte_shift_last Let_def)
next
  case (Suc c)
  let ?b = "push_bit k (mem ! s) OR drop_bit (8 - k) (mem ! Suc s)"
  let ?mem = "mem[d := ?b]"
  have rd: "drop s mem = mem ! s # mem ! Suc s # drop (Suc (Suc s)) mem" and d: "d < length mem"
    using Suc.prems by (simp_all add: Cons_nth_drop_Suc)
  obtain mem' where mem': "ShiftBufferLeft_loop k (8 * Suc c - k) (Suc s) (Suc d) ?mem = Inr mem'"
    "length mem' = length mem"
    "data_bits (take (Suc d + Suc c) mem')
      = data_bits (take (Suc d) ?mem) @ drop k (data_bits (drop (Suc s) ?mem)) @ replicate k False"
    using Suc.IH [of ?mem "Suc s" "Suc d"] Suc.prems by auto
  have "drop (Suc s) ?mem = drop (Suc s) mem"
    using Suc.prems by simp
  then have "data_bits (take (d + Suc (Suc c)) mem')
      = data_bits (take d mem) @ (byte_bits ?b @ drop k (data_bits (drop (Suc s) mem))) @ replicate k False"
    using mem'(3) d by (simp add: take_Suc_conv_app_nth)
  also have "byte_bits ?b @ drop k (data_bits (drop (Suc s) mem)) = drop k (data_bits (drop s mem))"
  proof -
    have rd2: "drop (Suc s) mem = mem ! Suc s # drop (Suc (Suc s)) mem"
      using Suc.prems by (simp add: Cons_nth_drop_Suc)
    have "drop k (byte_bits x @ xs) = drop k (byte_bits x) @ xs" for x xs
      using k by simp
    then show ?thesis
      unfolding byte_shift [OF k] rd rd2 data_bits_Cons by (metis append_assoc append_take_drop_id)
  qed
  finally have bits: "data_bits (take (d + Suc (Suc c)) mem')
      = data_bits (take d mem) @ drop k (data_bits (drop s mem)) @ replicate k False" .
  have n: "8 * Suc (Suc c) - k \<noteq> 0" "\<not> 8 * Suc (Suc c) - k \<le> 8 - k" "8 * Suc (Suc c) - k - 8 = 8 * Suc c - k"
    using k by auto
  have "s < length mem" "Suc s < length mem" using Suc.prems by auto
  then have "ShiftBufferLeft_loop k (8 * Suc (Suc c) - k) s d mem = Inr mem'"
    unfolding ShiftBufferLeft_loop.simps [of k "8 * Suc (Suc c) - k"] Let_def n(3)
    using d mem'(1) n(1,2) by (simp only: read_at_def update_at_def if_True if_False rbind_Inr not_False_eq_True)
  then show ?case using mem'(2) bits by blast
qed

lemma ShiftBufferLeft_ptr_bits:
  assumes "length mem = s + Suc c" and "k < 8" and "k = 0 \<Longrightarrow> s = 0 \<or> Suc c \<le> s" and "8 * Suc c < 4294967296"
  shows "\<exists>mem'. ShiftBufferLeft_ptr s 0 (Suc c) k mem = Inr mem' \<and> length mem' = length mem
      \<and> data_bits (take (Suc c) mem') = drop k (data_bits (drop s mem)) @ replicate k False"
proof (cases "k = 0")
  case True
  then show ?thesis
    using assms by (auto simp: ShiftBufferLeft_ptr_def memcpy_def)
next
  case False
  have "u32_sub (u32 (Suc c * 8)) k = 8 * Suc c - k"
    using assms(2,4) by (subst u32_sub_le) (simp_all add: mult.commute)
  then show ?thesis
    using ShiftBufferLeft_loop_bits [of k mem s c 0] False assms
    by (simp add: ShiftBufferLeft_ptr_def)
qed

lemma LastByteBitsCount_split:
  assumes "0 < n"
  obtains c l where "(n + 7) div 8 = Suc c" "LastByteBitsCount n = l" "n = 8 * c + l" "0 < l" "l \<le> 8"
  using LastByteBitsCount_bytes [of "replicate n True"] assms
  by (auto simp: length_pack)

lemma right_aligned_drop:
  assumes "Suc c \<le> length buffer" and "0 < l" "l \<le> 8"
  shows "drop (8 - l) (data_bits (drop (length buffer - Suc c) buffer)) = drop (8 * length buffer - (8 * c + l)) (data_bits buffer)"
proof -
  have "8 - l + 8 * (length buffer - Suc c) = 8 * length buffer - (8 * c + l)"
    using assms by (simp add: diff_mult_distrib2)
  then show ?thesis by (simp add: data_bits_drop add.commute)
qed

lemma ShiftBufferLeft_bits:
  assumes "0 < n" and "n + 7 < 4294967296" and "length dest = length buffer" and "(n + 7) div 8 \<le> length buffer"
  shows "\<exists>ds. ShiftBufferLeft buffer dest n = Inr ds
    \<and> data_bits ds = drop (8 * length buffer - n) (data_bits buffer) @ replicate (padding n) False"
proof -
  obtain c l where cl: "(n + 7) div 8 = Suc c" "LastByteBitsCount n = l" "n = 8 * c + l" "0 < l" "l \<le> 8"
    using LastByteBitsCount_split [OF assms(1)] by blast
  have bc: "BytesCountFromBitsCount n = Suc c"
    using assms(2) cl(1) by (simp add: BytesCountFromBitsCount_def)
  have pad: "padding n = 8 - l"
    using ceil8 [of n] cl by simp
  let ?mem = "dest @ buffer" and ?s = "length dest + (length buffer - Suc c)"
  obtain mem' where mem': "ShiftBufferLeft_ptr ?s 0 (Suc c) (8 - l) ?mem = Inr mem'" "length mem' = length ?mem"
    "data_bits (take (Suc c) mem') = drop (8 - l) (data_bits (drop ?s ?mem)) @ replicate (8 - l) False"
  proof -
    have "8 * ((n + 7) div 8) \<le> n + 7" by simp
    then have "length ?mem = ?s + Suc c" "8 * Suc c < 4294967296" "8 - l < 8" "?s = 0 \<or> Suc c \<le> ?s"
      using assms cl(4,5) unfolding cl(1) by auto
    then show ?thesis using ShiftBufferLeft_ptr_bits [of ?mem ?s c "8 - l"] that by blast
  qed
  have res: "resize (Suc c) (take (length dest) mem') = take (Suc c) mem'"
    using assms(3,4) cl(1) mem'(2) by (auto simp: resize_def min_def)
  have "ShiftBufferLeft buffer dest n = Inr (take (Suc c) mem')"
    using assms cl(1) mem'(1) unfolding ShiftBufferLeft_def bc cl(2) Let_def
    by (simp flip: res)
  moreover have "data_bits (take (Suc c) mem')
      = drop (8 * length buffer - n) (data_bits buffer) @ replicate (padding n) False"
    using mem'(3) assms(4) right_aligned_drop [of c buffer l] cl(1,4,5)
    by (simp add: pad flip: cl(3))
  ultimately show ?thesis by blast
qed

lemma ShiftBufferLeft_same_bits:
  assumes "0 < n" and "n + 7 < 4294967296" and "(n + 7) div 8 \<le> length buffer"
    and "n mod 8 = 0 \<Longrightarrow> length buffer = n div 8 \<or> 2 * (n div 8) \<le> length buffer"
  shows "\<exists>ds. ShiftBufferLeft_same buffer n = Inr ds
    \<and> data_bits ds = drop (8 * length buffer - n) (data_bits buffer) @ replicate (padding n) False"
proof -
  obtain c l where cl: "(n + 7) div 8 = Suc c" "LastByteBitsCount n = l" "n = 8 * c + l" "0 < l" "l \<le> 8"
    using LastByteBitsCount_split [OF assms(1)] by blast
  have bc: "BytesCountFromBitsCount n = Suc c"
    using assms(2) cl(1) by (simp add: BytesCountFromBitsCount_def)
  have pad: "padding n = 8 - l"
    using ceil8 [of n] cl by simp
  let ?s = "length buffer - Suc c"
  have ov: "?s = 0 \<or> Suc c \<le> ?s" if "8 - l = 0"
    using that assms(3,4) cl(1,3,5) by auto
  have "8 * ((n + 7) div 8) \<le> n + 7" by simp
  then have ls: "length buffer = ?s + Suc c" "8 * Suc c < 4294967296" "8 - l < 8"
    using assms(2,3) cl unfolding cl(1) by linarith+
  obtain mem' where mem': "ShiftBufferLeft_ptr ?s 0 (Suc c) (8 - l) buffer = Inr mem'" "length mem' = length buffer"
    "data_bits (take (Suc c) mem') = drop (8 - l) (data_bits (drop ?s buffer)) @ replicate (8 - l) False"
    using ShiftBufferLeft_ptr_bits [OF ls(1) ls(3) ov ls(2)] by blast
  have res: "resize (Suc c) mem' = take (Suc c) mem'"
    using assms(3) cl(1) mem'(2) by (simp add: resize_def)
  have "ShiftBufferLeft_same buffer n = Inr (take (Suc c) mem')"
    using assms cl(1) mem'(1) unfolding ShiftBufferLeft_same_def bc cl(2) Let_def
    by (simp flip: res)
  moreover have "data_bits (take (Suc c) mem')
      = drop (8 * length buffer - n) (data_bits buffer) @ replicate (padding n) False"
    using mem'(3) assms(3) right_aligned_drop [of c buffer l] cl(1,4,5)
    by (simp add: pad flip: cl(3))
  ultimately show ?thesis by blast
qed

lemma take_padded:
  assumes "data_bits ds = xs @ replicate k False"
  shows "take (length xs) (data_bits ds @ replicate n False) = xs"
  unfolding assms by simp

lemma CreateFromRightAlignedBuffer_make:
  assumes "n + 7 < 4294967296"
  shows "CreateFromRightAlignedBuffer buffer n sp
    = (if (n + 7) div 8 \<le> length buffer
       then Inr (bv_make (drop (8 * length buffer - n) (data_bits buffer)) sp) else Inl InvalidArgument)"
proof (cases "n = 0 \<or> length buffer < (n + 7) div 8")
  case True
  then show ?thesis
    using assms
    by (auto simp: CreateFromRightAlignedBuffer_def ShiftBufferLeft_def BinaryVector_data_make
        BytesCountFromBitsCount_def check_defs)
next
  case False
  then have n: "n \<le> 8 * length buffer" by linarith
  show ?thesis
    using ShiftBufferLeft_bits [of n "replicate (length buffer) 0" buffer] assms False n
      take_padded [of _ "drop (8 * length buffer - n) (data_bits buffer)"]
    by (auto simp: CreateFromRightAlignedBuffer_def BinaryVector_data_make simp del: take_append)
qed

lemma CreateFromRightAlignedBuffer_move_make:
  assumes "n + 7 < 4294967296"
    and "n mod 8 = 0 \<Longrightarrow> length buffer \<le> n div 8 \<or> 2 * (n div 8) \<le> length buffer"
  shows "CreateFromRightAlignedBuffer_move buffer n sp = CreateFromRightAlignedBuffer buffer n sp"
proof (cases "n = 0 \<or> length buffer < (n + 7) div 8")
  case True
  then show ?thesis
    using assms(1)
    by (auto simp: CreateFromRightAlignedBuffer_make CreateFromRightAlignedBuffer_move_def
        ShiftBufferLeft_same_def BinaryVector_data_make BytesCountFromBitsCount_def check_defs)
next
  case False
  then have n: "n \<le> 8 * length buffer" and "n mod 8 = 0 \<Longrightarrow> length buffer = n div 8 \<or> 2 * (n div 8) \<le> length buffer"
    using assms(2) by linarith+
  then show ?thesis
    using ShiftBufferLeft_same_bits [of n buffer] assms(1) False
      take_padded [of _ "drop (8 * length buffer - n) (data_bits buffer)"]
    by (auto simp: CreateFromRightAlignedBuffer_make CreateFromRightAlignedBuffer_move_def
        BinaryVector_data_make simp del: take_append)
qed

section \<open>Right aligned copies, reversed slices and truncation\<close>

function DataRightAligned_loop :: "byte list \<Rightarrow> nat \<Rightarrow> nat \<Rightarrow> nat \<Rightarrow> byte list result" where
  "DataRightAligned_loop data binVectorLsbBits remainingBitsCount pByte =
    (if remainingBitsCount \<noteq> 0 \<and> pByte < length data then
      let bufferShiftCount = 8 - binVectorLsbBits
      in rbind (read_at data pByte) (\<lambda>msb.
         rbind (read_at data (Suc pByte)) (\<lambda>lsb.
          let msb' = push_bit binVectorLsbBits msb AND LEFT_BITS_MASK_8 ! bufferShiftCount;
              lsb' = drop_bit bufferShiftCount lsb AND RIGHT_BITS_MASK_8 ! binVectorLsbBits
          in rbind (DataRightAligned_loop data binVectorLsbBits (remainingBitsCount - 8) (Suc pByte))
               (\<lambda>rest. Inr ((msb' OR lsb') # rest))))
     else Inr [])"
  by pat_completeness auto
termination
  by (relation "measure (\<lambda>(_, _, n, _). n)") auto

declare DataRightAligned_loop.simps [simp del]

definition DataRightAligned :: "BinaryVector \<Rightarrow> byte list result" where
  "DataRightAligned v =
    (let binVectorLsbBits = LastByteBitsCount (m_usedBits v)
     in if binVectorLsbBits = 0 then Inr (m_data v)
        else rbind (read_at (m_data v) 0) (\<lambda>byte.
          let first = drop_bit (8 - binVectorLsbBits) byte AND RIGHT_BITS_MASK_8 ! binVectorLsbBits
          in rbind (DataRightAligned_loop (m_data v) binVectorLsbBits (m_usedBits v - binVectorLsbBits) 0)
               (\<lambda>rest. Inr (first # rest))))"

definition reverse_byte :: "byte \<Rightarrow> byte" where
  "reverse_byte n =
    (let lookup = [0x0, 0x8, 0x4, 0xC, 0x2, 0xA, 0x6, 0xE,
                   0x1, 0x9, 0x5, 0xD, 0x3, 0xB, 0x7, 0xF] :: byte list
     in push_bit 4 (lookup ! unat (n AND 0b1111)) OR lookup ! unat (drop_bit 4 n))"

definition ReverseSlice :: "nat \<Rightarrow> nat \<Rightarrow> BinaryVector \<Rightarrow> BinaryVector result" where
  "ReverseSlice firstBitOffset bitsCount v =
    (if bitsCount \<noteq> 0 then
      rbind (Slice firstBitOffset bitsCount v) (\<lambda>originalSlice.
      rbind (CreateFromRightAlignedBuffer (map reverse_byte (rev (m_data originalSlice)))
               (BitsCount originalSlice) NotFixed) (\<lambda>tmp.
      rbind (assign_move BinaryVector_empty tmp) (\<lambda>(res, _). Inr res)))
     else Inr BinaryVector_empty)"

definition TruncateLeadingZeroes :: "nat \<Rightarrow> BinaryVector \<Rightarrow> BinaryVector result" where
  "TruncateLeadingZeroes numberOfBitsToRemove v =
    CheckParameterCondition (numberOfBitsToRemove \<le> m_usedBits v)
    (CheckParameterCondition (numberOfBitsToRemove \<le> LeadingZeroesCount v)
      (let remainingCount = m_usedBits v - numberOfBitsToRemove
       in rbind (Slice numberOfBitsToRemove remainingCount v) (\<lambda>tmp.
          rbind (assign_move v tmp) (\<lambda>(res, _). Inr res))))"

lemma right_first_byte:
  assumes "l \<le> 8"
  shows "byte_bits (drop_bit (8 - l) b AND RIGHT_BITS_MASK_8 ! l) = replicate (8 - l) False @ take l (byte_bits b)"
  using assms by (intro nth_equalityI)
    (auto simp: bit_simps byte_bits_nth nth_append RIGHT_BITS_MASK_8_nth add.commute dest: bit_imp_le_length)

lemma right_merge_byte:
  assumes "l \<le> 8"
  shows "byte_bits (push_bit l m AND LEFT_BITS_MASK_8 ! (8 - l) OR drop_bit (8 - l) b AND RIGHT_BITS_MASK_8 ! l)
    = drop l (byte_bits m) @ take l (byte_bits b)"
  using assms by (intro nth_equalityI)
    (auto simp: bit_simps byte_bits_nth nth_append RIGHT_BITS_MASK_8_nth LEFT_BITS_MASK_8_nth
      add.commute dest: bit_imp_le_length)

lemma DataRightAligned_loop_bits:
  "l \<le> 8 \<Longrightarrow> length data = j + Suc c \<Longrightarrow>
   \<exists>ds. DataRightAligned_loop data l (8 * c) j = Inr ds
     \<and> data_bits ds = take (8 * c) (drop (8 * j + l) (data_bits data))"
proof (induction c arbitrary: j)
  case 0
  then show ?case by (subst DataRightAligned_loop.simps) simp
next
  case (Suc c)
  let ?X = "data_bits data"
  let ?b = "push_bit l (data ! j) AND LEFT_BITS_MASK_8 ! (8 - l)
            OR drop_bit (8 - l) (data ! Suc j) AND RIGHT_BITS_MASK_8 ! l"
  obtain ds where ds: "DataRightAligned_loop data l (8 * c) (Suc j) = Inr ds"
    "data_bits ds = take (8 * c) (drop (8 * Suc j + l) ?X)"
    using Suc.IH [of "Suc j"] Suc.prems by auto
  have j: "j < length data" "Suc j < length data" using Suc.prems by simp_all
  have "byte_bits ?b = take 8 (drop (8 * j + l) ?X)"
  proof -
    have "take 8 (drop (8 * j + l) ?X) = take (8 - l) (drop (8 * j + l) ?X) @ take l (drop (8 * j + 8) ?X)"
      using Suc.prems(1) take_add [of "8 - l" l "drop (8 * j + l) ?X"] by (simp add: ac_simps)
    moreover have "drop l (byte_bits (data ! j)) = take (8 - l) (drop (8 * j + l) ?X)"
      by (simp add: drop_take add.commute flip: data_bits_nth_byte [OF j(1)])
    moreover have "take l (byte_bits (data ! Suc j)) = take l (drop (8 * j + 8) ?X)"
      using Suc.prems(1) by (simp add: min_def add.commute flip: data_bits_nth_byte [OF j(2)])
    ultimately show ?thesis
      unfolding right_merge_byte [OF Suc.prems(1)] by simp
  qed
  moreover have "take (8 * Suc c) (drop (8 * j + l) ?X)
      = take 8 (drop (8 * j + l) ?X) @ take (8 * c) (drop (8 * Suc j + l) ?X)"
    using take_add [of 8 "8 * c" "drop (8 * j + l) ?X"] by (simp add: ac_simps)
  moreover have "DataRightAligned_loop data l (8 * Suc c) j = Inr (?b # ds)"
    unfolding DataRightAligned_loop.simps [of data l "8 * Suc c"] Let_def
    using ds(1) j by (simp add: read_at_def)
  ultimately show ?case using ds(2) by simp
qed

lemma DataRightAligned_make:
  assumes "length bs < 4294967296"
  shows "\<exists>ds. DataRightAligned (bv_make bs p) = Inr ds
    \<and> data_bits ds = replicate (padding (length bs)) False @ bs"
proof (cases "bs = []")
  case True
  then show ?thesis by (simp add: DataRightAligned_def LastByteBitsCount_def)
next
  case False
  obtain m l where ml: "length (pack bs) = Suc m" "LastByteBitsCount (length bs) = l"
    "length bs = 8 * m + l" "0 < l" "l \<le> 8"
    using LastByteBitsCount_bytes [OF False] by blast
  have pad: "padding (length bs) = 8 - l"
    using ceil8 [of "length bs"] ml by (simp add: length_pack)
  obtain ds where ds: "DataRightAligned_loop (pack bs) l (8 * m) 0 = Inr ds"
    "data_bits ds = take (8 * m) (drop l (data_bits (pack bs)))"
    using DataRightAligned_loop_bits [of l "pack bs" 0 m] ml by auto
  obtain b where b: "read_at (pack bs) 0 = Inr b" "byte_bits b = take 8 (bs @ replicate (padding (length bs)) False)"
    using read_byte [of 0 bs] ml(1) by auto
  let ?d = "drop_bit (8 - l) b AND RIGHT_BITS_MASK_8 ! l"
  have "byte_bits ?d = replicate (8 - l) False @ take l bs"
    using ml b(2) by (simp add: right_first_byte min_def)
  then have "data_bits (?d # ds) = replicate (8 - l) False @ bs"
    using ml by (simp add: ds(2) data_bits_pack)
  moreover have "DataRightAligned (bv_make bs p) = Inr (?d # ds)"
    using b(1) ds(1) ml unfolding DataRightAligned_def Let_def bv_make_sel ml(2)
    by simp
  ultimately show ?thesis using pad by simp
qed

lemma byte_bits_reverse: "byte_bits (reverse_byte n) = rev (byte_bits n)"
proof -
  obtain b7 b6 b5 b4 b3 b2 b1 b0 where "byte_bits n = [b7, b6, b5, b4, b3, b2, b1, b0]"
    by (simp add: byte_bits_def)
  then have "n = byte_of_bits [b7, b6, b5, b4, b3, b2, b1, b0]"
    by (metis byte_of_bits_byte_bits)
  then show ?thesis
    by (cases b7; cases b6; cases b5; cases b4; cases b3; cases b2; cases b1; cases b0)
       (simp_all add: byte_of_bits_def byte_bits_def reverse_byte_def)
qed

lemma data_bits_reverse: "data_bits (map reverse_byte (rev ds)) = rev (data_bits ds)"
  by (induction ds) (simp_all add: byte_bits_reverse)

lemma ReverseSlice_make:
  assumes "length bs < 4294967289" and "f + n < 4294967296"
  shows "ReverseSlice f n (bv_make bs p)
    = (if n = 0 \<or> f < length bs \<and> f + n \<le> length bs
       then Inr (bv_make (rev (take n (drop f bs))) NotFixed) else Inl InvalidArgument)"
proof (cases "n \<noteq> 0 \<and> f + n \<le> length bs")
  case False
  then show ?thesis
    using assms by (auto simp: ReverseSlice_def Slice_make BinaryVector_empty_make)
next
  case True
  define xs where "xs = take n (drop f bs)"
  have l: "length xs = n" using True by (auto simp: xs_def min_def)
  have "CreateFromRightAlignedBuffer (map reverse_byte (rev (pack xs))) n NotFixed = Inr (bv_make (rev xs) NotFixed)"
    using True assms l
    by (simp add: CreateFromRightAlignedBuffer_make length_pack data_bits_reverse data_bits_pack ceil8)
  then show ?thesis
    using True assms l
    by (simp add: ReverseSlice_def Slice_make BinaryVector_empty_make assign_move_make flip: xs_def)
qed

lemma TruncateLeadingZeroes_make:
  assumes "length bs < 4294967296"
  shows "TruncateLeadingZeroes n (bv_make bs p)
    = (if n \<le> length (takeWhile Not bs)
       then if p = Fixed \<and> n \<noteq> 0 then Inl LogicError
            else Inr (bv_make (drop n bs) p)
       else Inl InvalidArgument)"
proof -
  have le: "length (takeWhile Not bs) \<le> length bs" by (rule length_takeWhile_le)
  show ?thesis
  proof (cases "n \<le> length (takeWhile Not bs)")
    case True
    then have "n \<le> length bs" using le by linarith
    moreover from this have "Slice n (length bs - n) (bv_make bs p) = Inr (bv_make (drop n bs) NotFixed)"
      using assms by (auto simp: Slice_make)
    ultimately show ?thesis
      using True assms by (auto simp: TruncateLeadingZeroes_def LeadingZeroesCount_make assign_move_make)
  next
    case False
    then show ?thesis
      using assms by (simp add: TruncateLeadingZeroes_def LeadingZeroesCount_make check_defs)
  qed
qed

end
