(* ===== verification/BV_Invariant.thy ===== *)
theory BV_Invariant
  imports BV_Slices
begin

text \<open>
  The class invariant of \<^verbatim>\<open>BinaryVector\<close> under every member that modifies a vector: a result that is
  not an exception satisfies \<open>bv_inv\<close>.
\<close>

section \<open>Results that keep the invariant\<close>

definition result_inv :: "BinaryVector result \<Rightarrow> bool" where
  "result_inv res \<longleftrightarrow> (\<forall>u. res = Inr u \<longrightarrow> bv_inv u)"

lemma result_inv_simps [simp]:
  "result_inv (Inl e)" "result_inv (Inr u) \<longleftrightarrow> bv_inv u" "result_inv (if b then res else res') \<longleftrightarrow> (if b then result_inv res else result_inv res')"
  by (simp_all add: result_inv_def)

section \<open>Appending\<close>

lemma result_inv_Append: "length bs + length cs < 4294967296 \<Longrightarrow> result_inv (Append (bv_make cs q) (bv_make bs p))"
  by (simp add: Append_make)

lemma result_inv_Append_u8: "length bs + 8 < 4294967296 \<Longrightarrow> result_inv (Append_u8 x n al (bv_make bs p))"
proof -
  assume bs: "length bs + 8 < 4294967296"
  consider "n = 0 \<or> p = Fixed \<or> n > 8" | "p \<noteq> Fixed" "0 < n" "n \<le> 8" by linarith
  then show ?thesis
  proof cases
    case 1
    then show ?thesis by (auto simp: Append_u8_def FixedSize_def bv_make_def)
  next
    case 2
    then show ?thesis using bs by (simp add: Append_u8_make length_value_bits)
  qed
qed

lemma result_inv_AppendChunks:
  assumes "length bs + 8 * length ds < 4294967296" and "length ds < 32"
  shows "result_inv (AppendChunks n al ds (bv_make bs p))"
proof -
  consider "p = Fixed \<or> n = 0 \<or> n > 8 * length ds" | "p \<noteq> Fixed" "0 < n" "n \<le> 8 * length ds" by linarith
  then show ?thesis
  proof cases
    case 1
    then show ?thesis using assms(2) by (auto simp: AppendChunks_def FixedSize_def bv_make_def)
  next
    case 2
    then show ?thesis using assms by (simp add: AppendChunks_make length_value_bits)
  qed
qed

lemma result_inv_Append_words:
  assumes "length bs + 64 < 4294967296"
  shows "result_inv (Append_u16 w16 n al (bv_make bs p))" "result_inv (Append_u32 w32 n al (bv_make bs p))"
    "result_inv (Append_u64 w64 n al (bv_make bs p))"
  using assms by (simp_all add: Append_u16_def Append_u32_def Append_u64_def result_inv_AppendChunks)

text \<open>Whole bytes appended after padding would break the invariant: the size has to be a multiple of eight.\<close>

lemma AppendBits_inv:
  assumes "length bs mod 8 = 0 \<or> k < 8" and "length bs + k < 4294967296"
  shows "bv_inv (fst (AppendBits b k (bv_make bs p)))"
proof (cases "p \<noteq> Fixed \<or> k mod 8 = 0")
  case True
  then show ?thesis using AppendBits_make [OF assms(1) _ assms(2), of p b] assms(2) by simp
next
  case False
  let ?v = "fst (AppendBits b (8 * (k div 8)) (bv_make bs Fixed))"
  have v: "?v = bv_make (bs @ replicate (8 * (k div 8)) b) Fixed"
    using AppendBits_make [of bs "8 * (k div 8)" Fixed b] assms by auto
  have "fst (AppendBits b k (bv_make bs Fixed)) = ?v"
    using False by (auto simp: AppendBits_def Let_def Append_u8_def FixedSize_def bv_make_def minus_mult_div_eq_mod split: sum.splits)
  moreover have "length bs + 8 * (k div 8) < 4294967296" using assms(2) by linarith
  ultimately show ?thesis using v False by simp
qed

lemma result_inv_PrependBits: "k + length bs + 7 < 4294967296 \<Longrightarrow> result_inv (PrependBits k pat (bv_make bs p))"
  by (simp add: PrependBits_make fill_bits_def)

section \<open>Slices\<close>

lemma SetSlice_Impl_result:
  assumes "length bs < 4294967296" and "off + n < 4294967296" and "n \<le> 8 * length source"
    and "SetSlice_Impl off n (Some source) (bv_make bs p) = Inr u"
  shows "u = bv_make (splice off (take n (data_bits source)) bs) p \<and> off + n \<le> length bs"
proof (cases "SetSlice_reads off n \<le> length source")
  case True
  then show ?thesis using SetSlice_Impl_make [OF assms(1-3) True, of p] assms(4) by (auto split: if_splits)
next
  case False
  have "off mod 8 \<noteq> 0"
  proof
    assume "off mod 8 = 0"
    then have "SetSlice_reads off n = (n + 7) div 8" by (simp add: SetSlice_reads_def)
    then show False using False assms(3) by linarith
  qed
  moreover have "off < length bs" "off + n \<le> length bs"
    using assms(1,2,4) last_offset [of bs off] by (auto simp: SetSlice_Impl_def check_defs split: if_splits)
  moreover have "length bs \<le> 8 * length (pack bs)" by (simp add: length_pack ceil8)
  ultimately have "SetSlice_bytes off n source (pack bs) = Inl UndefinedBehaviour"
    using False by (intro SetSlice_bytes_overread) simp_all
  then show ?thesis using assms(4) by (auto simp: SetSlice_Impl_def check_defs with_data_def split: if_splits)
qed

lemma length_splice: "off + length cs \<le> length bs \<Longrightarrow> length (splice off cs bs) = length bs"
  by (simp add: splice_def)

lemma result_inv_SetSlice:
  assumes "length bs < 4294967296" and "off + length cs < 4294967296"
  shows "result_inv (SetSlice null slack off (bv_make cs q) (bv_make bs p))"
  unfolding result_inv_def
proof (intro allI impI)
  fix u assume u: "SetSlice null slack off (bv_make cs q) (bv_make bs p) = Inr u"
  then have impl: "SetSlice_Impl off (length cs) (Some (pack cs @ slack)) (bv_make bs p) = Inr u"
    by (auto simp: SetSlice_def DataLeftAligned_def SetSlice_Impl_def split: if_splits)
  have n: "length cs \<le> 8 * length (pack cs @ slack)" by (simp add: length_pack ceil8 distrib_left)
  note res = SetSlice_Impl_result [OF assms n impl]
  have "length (take (length cs) (data_bits (pack cs @ slack))) = length cs" by (simp add: data_bits_pack)
  then show "bv_inv u" using res assms(1) length_splice by fastforce
qed

context word_append
begin

lemma result_inv_SetSlice_T:
  assumes "length bs < 4294967295"
  shows "result_inv (SetSlice_T valueBitsCount (bits_val vbits) append null slack rng (bv_make bs p))"
proof (cases "left rng \<le> right rng \<and> right rng < length bs")
  case True
  then have "left rng + (right rng - left rng + 1) < 4294967296" using assms by linarith
  then show ?thesis using True assms SetSlice_T_as_vector [of bs rng null slack p] by (simp add: result_inv_SetSlice)
next
  case False
  then have "\<exists>e. SetSlice_T valueBitsCount (bits_val vbits) append null slack rng (bv_make bs p) = Inl e"
    by (cases "Width rng") (auto simp: SetSlice_T_def IsSingleBit_def IncreasesTowardRight_def check_defs)
  then show ?thesis by auto
qed

end

lemma result_inv_SetSlice_words:
  assumes "length bs < 4294967295"
  shows "result_inv (SetSlice_u8 null slack rng x8 (bv_make bs p))" "result_inv (SetSlice_u16 null slack rng x16 (bv_make bs p))"
    "result_inv (SetSlice_u32 null slack rng x32 (bv_make bs p))" "result_inv (SetSlice_u64 null slack rng x64 (bv_make bs p))"
  using append_u8.result_inv_SetSlice_T [OF assms, of x8 null slack rng p] append_u16.result_inv_SetSlice_T [OF assms, of x16 null slack rng p]
    append_u32.result_inv_SetSlice_T [OF assms, of x32 null slack rng p] append_u64.result_inv_SetSlice_T [OF assms, of x64 null slack rng p]
  by (simp_all add: bits_val_word_bits SetSlice_u8_def SetSlice_u16_def SetSlice_u32_def SetSlice_u64_def)

section \<open>Assignment and bitwise operations\<close>

lemma result_inv_Set_words:
  assumes "length bs < 4294967296"
  shows "result_inv (Set_u8 x8 (bv_make bs p))" "result_inv (Set_u16 x16 (bv_make bs p))"
    "result_inv (Set_u32 x32 (bv_make bs p))" "result_inv (Set_u64 x64 (bv_make bs p))"
    "result_inv (Set_s8 x8 (bv_make bs p))" "result_inv (Set_s16 x16 (bv_make bs p))"
    "result_inv (Set_s32 x32 (bv_make bs p))" "result_inv (Set_s64 x64 (bv_make bs p))"
  using assms by (simp_all add: Set_unsigned_make Set_signed_make)

lemma result_inv_assign:
  assumes "length cs < 4294967296"
  shows "result_inv (assign_copy (bv_make bs p) (bv_make cs q))" "assign_move (bv_make bs p) (bv_make cs q) = Inr (u, u') \<Longrightarrow> bv_inv u \<and> bv_inv u'"
  using assms by (auto simp: assign_copy_make assign_move_make split: if_splits)

lemma result_inv_bits:
  assumes "length bs < 4294967296"
  shows "result_inv (and_assign (bv_make bs p) (bv_make cs q))" "result_inv (or_assign (bv_make bs p) (bv_make cs q))"
    "result_inv (xor_assign (bv_make bs p) (bv_make cs q))" "result_inv (ToggleBits (bv_make bs p))" "result_inv (toggled (bv_make bs p))"
    "result_inv (SetBit i (bv_make bs p))" "result_inv (ClearBit i (bv_make bs p))" "result_inv (ToggleBit i (bv_make bs p))"
  using assms by (simp_all add: and_assign_make or_assign_make xor_assign_make ToggleBits_make toggled_make SetBit_make ClearBit_make ToggleBit_make)

lemma result_inv_TruncateLeadingZeroes: "length bs < 4294967296 \<Longrightarrow> result_inv (TruncateLeadingZeroes k (bv_make bs p))"
  by (auto simp: TruncateLeadingZeroes_make)

lemma result_inv_concatenate: "length bs + length cs < 4294967296 \<Longrightarrow> result_inv (concatenate (bv_make bs p) (bv_make cs q))"
  by (simp add: concatenate_make)

end
