(* ===== verification/Text_Utility.thy ===== *)
theory Text_Utility
  imports Prelude
begin

text \<open>
  The pure text functions of \<^verbatim>\<open>class Utility\<close> (\<^verbatim>\<open>Mast_Core/src/Utility.cpp\<close>,
  \<^verbatim>\<open>Utility.hpp\<close>). A \<^verbatim>\<open>string_view\<close> is the list of its characters; \<^verbatim>\<open>front()\<close> and
  \<^verbatim>\<open>back()\<close> of an empty view are undefined. File access and exception messages are not
  modelled.
\<close>

section \<open>The operations of the standard library used\<close>

definition view_front :: "string \<Rightarrow> char result" where
  "view_front s = (case s of [] \<Rightarrow> Inl UndefinedBehaviour | c # _ \<Rightarrow> Inr c)"

definition view_back :: "string \<Rightarrow> char result" where
  "view_back s = (if s = [] then Inl UndefinedBehaviour else Inr (last s))"

definition occurs_at :: "string \<Rightarrow> string \<Rightarrow> nat \<Rightarrow> bool" where
  "occurs_at sub txt pos = (pos + length sub \<le> length txt \<and> take (length sub) (drop pos txt) = sub)"

definition view_find :: "string \<Rightarrow> string \<Rightarrow> nat \<Rightarrow> nat option" where
  "view_find sub txt start = find (occurs_at sub txt) [start..<Suc (length txt)]"

definition view_rfind :: "string \<Rightarrow> string \<Rightarrow> nat option" where
  "view_rfind sub txt = find (occurs_at sub txt) (rev [0..<Suc (length txt)])"

definition isdigit :: "char \<Rightarrow> bool" where
  "isdigit c = (48 \<le> (of_char c :: nat) \<and> (of_char c :: nat) \<le> 57)"

definition digit_value :: "char \<Rightarrow> nat" where
  "digit_value c = of_char c - 48"

definition blank :: "char \<Rightarrow> bool" where
  "blank c = (c = CHR 0x20 \<or> c = CHR 0x09)"

lemma find_upt_Some:
  "find P [a..<b] = Some p \<longleftrightarrow> a \<le> p \<and> p < b \<and> P p \<and> (\<forall>q. a \<le> q \<and> q < p \<longrightarrow> \<not> P q)"
proof (induction "b - a" arbitrary: a)
  case (Suc n)
  then have ab: "a < b" by simp
  have IH: "find P [Suc a..<b] = Some p
      \<longleftrightarrow> Suc a \<le> p \<and> p < b \<and> P p \<and> (\<forall>q. Suc a \<le> q \<and> q < p \<longrightarrow> \<not> P q)"
    using Suc by (intro Suc.hyps) simp
  show ?case
  proof (cases "P a")
    case True
    then show ?thesis using ab by (auto simp: upt_conv_Cons dest: le_neq_implies_less)
  next
    case False
    then have "find P [a..<b] = find P [Suc a..<b]" using ab by (simp add: upt_conv_Cons)
    then show ?thesis
      using IH False by (auto simp: Suc_le_eq) (metis le_neq_implies_less)+
  qed
qed auto

lemma find_upt_None: "find P [a..<b] = None \<longleftrightarrow> (\<forall>q. a \<le> q \<and> q < b \<longrightarrow> \<not> P q)"
  by (auto simp: find_None_iff)

lemma find_rev_upt_Some:
  "find P (rev [0..<b]) = Some p \<longleftrightarrow> p < b \<and> P p \<and> (\<forall>q. p < q \<and> q < b \<longrightarrow> \<not> P q)"
  by (induction b) (auto simp: less_Suc_eq)

lemma find_rev_upt_None: "find P (rev [0..<b]) = None \<longleftrightarrow> (\<forall>q. q < b \<longrightarrow> \<not> P q)"
  by (auto simp: find_None_iff)

lemma occurs_at_bound: "occurs_at sub txt p \<Longrightarrow> p + length sub \<le> length txt"
  by (simp add: occurs_at_def)

lemma occurs_at_less: "occurs_at sub txt p \<Longrightarrow> p < Suc (length txt)"
  by (simp add: occurs_at_def)

lemma view_find_Some:
  "view_find sub txt start = Some p
   \<longleftrightarrow> start \<le> p \<and> occurs_at sub txt p \<and> (\<forall>q. start \<le> q \<and> q < p \<longrightarrow> \<not> occurs_at sub txt q)"
  unfolding view_find_def find_upt_Some using occurs_at_less [of sub "txt"] by blast

lemma view_find_progress:
  assumes "view_find sub txt start = Some p" and "sub \<noteq> []"
  shows "Suc (length txt) - (p + length sub) < Suc (length txt) - start"
  using assms by (cases sub) (auto simp: view_find_Some dest!: occurs_at_bound)

lemma view_find_None:
  "view_find sub txt start = None \<longleftrightarrow> (\<forall>q. start \<le> q \<longrightarrow> \<not> occurs_at sub txt q)"
  unfolding view_find_def find_upt_None using occurs_at_less [of sub "txt"] by blast

lemma view_rfind_Some:
  "view_rfind sub txt = Some p \<longleftrightarrow> occurs_at sub txt p \<and> (\<forall>q. p < q \<longrightarrow> \<not> occurs_at sub txt q)"
  unfolding view_rfind_def find_rev_upt_Some using occurs_at_less [of sub "txt"] by blast

lemma view_rfind_None: "view_rfind sub txt = None \<longleftrightarrow> (\<forall>q. \<not> occurs_at sub txt q)"
  unfolding view_rfind_def find_rev_upt_None using occurs_at_less [of sub "txt"] by blast

section \<open>Definitions\<close>

definition Contains :: "string \<Rightarrow> char \<Rightarrow> bool" where
  "Contains txt aChar = (aChar \<in> set txt)"

definition TrimLeft :: "string \<Rightarrow> string" where
  "TrimLeft txt =
    (case txt of
       [] \<Rightarrow> []
     | c # _ \<Rightarrow> if blank c then
         (case find (\<lambda>i. \<not> blank (txt ! i)) [0..<length txt] of
            None \<Rightarrow> drop (length txt) txt
          | Some startPos \<Rightarrow> drop startPos txt)
       else txt)"

definition TrimRight :: "string \<Rightarrow> string" where
  "TrimRight txt =
    (if txt = [] then []
     else if blank (last txt) then
       (case find (\<lambda>i. \<not> blank (txt ! i)) (rev [0..<length txt]) of
          None \<Rightarrow> take (length txt - length txt) txt
        | Some startPos \<Rightarrow> take (length txt - (length txt - Suc startPos)) txt)
     else txt)"

definition TrimBoth :: "string \<Rightarrow> string" where
  "TrimBoth txt = TrimRight (TrimLeft txt)"

definition EndsWith :: "string \<Rightarrow> string \<Rightarrow> bool" where
  "EndsWith txt substring =
    (if substring = [] then False
     else if length substring > length txt then False
     else drop (length txt - length substring) txt = substring)"

definition StartsWith :: "string \<Rightarrow> string \<Rightarrow> bool" where
  "StartsWith txt substring =
    (if substring = [] then False
     else if length substring > length txt then False
     else take (length txt - (length txt - length substring)) txt = substring)"

definition ExtractDirectoryPath :: "string \<Rightarrow> string" where
  "ExtractDirectoryPath filePath =
    (let sepPosLinux = view_rfind ''/'' filePath;
         sepPosWindows = view_rfind [CHR 0x5C] filePath;
         sepPos = (case sepPosLinux of
                     None \<Rightarrow> sepPosWindows
                   | Some l \<Rightarrow> (case sepPosWindows of
                       None \<Rightarrow> sepPosLinux
                     | Some w \<Rightarrow> if l > w then sepPosLinux else sepPosWindows))
     in case sepPos of
          Some pos \<Rightarrow> take (pos + 1) filePath
        | None \<Rightarrow> ''.'')"

definition BackToken :: "string \<Rightarrow> string \<Rightarrow> string" where
  "BackToken txt separator =
    (if txt = [] \<or> separator = [] then txt
     else case view_rfind separator txt of
         None \<Rightarrow> txt
       | Some foundPos \<Rightarrow> drop (foundPos + length separator) txt)"

definition FrontTokens :: "string \<Rightarrow> string \<Rightarrow> string" where
  "FrontTokens txt separator =
    (if txt = [] then txt
     else
      let count = (if separator \<noteq> [] then
                     (case view_rfind separator txt of Some endPos \<Rightarrow> endPos | None \<Rightarrow> length txt)
                   else length txt)
      in take count txt)"

text \<open>The guard \<open>value > 15\<close> bounds the loop: every turn divides the value by 16.\<close>

function MinimalBitsForValue_loop :: "nat \<Rightarrow> nat \<Rightarrow> nat \<times> nat" where
  "MinimalBitsForValue_loop bitsCount val =
    (if val > 15 then MinimalBitsForValue_loop (bitsCount + 4) (val div 16) else (bitsCount, val))"
  by pat_completeness auto
termination
  by (relation "measure snd") auto

declare MinimalBitsForValue_loop.simps [simp del]

definition MinimalBitsForValue :: "nat \<Rightarrow> nat" where
  "MinimalBitsForValue val =
    (let bitsForVal = [1, 1, 2, 2, 3, 3, 3, 3, 4, 4, 4, 4, 4, 4, 4, 4] :: nat list;
         (bitsCount, low) = MinimalBitsForValue_loop 0 val
     in bitsCount + bitsForVal ! low)"

definition IfNotEmpty_SingleQuoteAndSuffixWithSpace :: "string \<Rightarrow> string" where
  "IfNotEmpty_SingleQuoteAndSuffixWithSpace txt =
    (if txt \<noteq> [] then [CHR 0x27] @ txt @ [CHR 0x27, CHR 0x20] else [])"

definition SingleQuote :: "string \<Rightarrow> string" where
  "SingleQuote txt = [CHR 0x27] @ txt @ [CHR 0x27]"

text \<open>A non-empty separator makes \<^verbatim>\<open>startPos\<close> grow; the loop is not entered with an empty one.\<close>

function Split_loop :: "string \<Rightarrow> string \<Rightarrow> nat \<Rightarrow> string list" where
  "Split_loop txt separator startPos =
    (if separator = [] then []
     else case view_find separator txt startPos of
       Some endPos \<Rightarrow>
         take (endPos - startPos) (drop startPos txt)
         # Split_loop txt separator (endPos + length separator)
     | None \<Rightarrow> if startPos < length txt then [drop startPos txt] else [])"
  by pat_completeness auto
termination
  by (relation "measure (\<lambda>(t, _, p). Suc (length t) - p)")
    (auto dest: view_find_progress)

declare Split_loop.simps [simp del]

definition Split :: "string \<Rightarrow> string \<Rightarrow> string list" where
  "Split txt separator =
    (if txt \<noteq> [] then
       if separator = [] then [txt] else Split_loop txt separator 0
     else [])"

function TokensCount_loop :: "string \<Rightarrow> string \<Rightarrow> nat \<Rightarrow> nat \<Rightarrow> nat" where
  "TokensCount_loop txt separator pos count =
    (if separator = [] then count
     else case view_find separator txt pos of
       None \<Rightarrow> count
     | Some found \<Rightarrow> TokensCount_loop txt separator (found + length separator) (count + 1))"
  by pat_completeness auto
termination
  by (relation "measure (\<lambda>(t, _, p, _). Suc (length t) - p)")
    (auto dest: view_find_progress)

declare TokensCount_loop.simps [simp del]

definition TokensCount :: "string \<Rightarrow> string \<Rightarrow> nat" where
  "TokensCount txt separator =
    (if txt = [] then 0
     else if separator = [] then 1 else TokensCount_loop txt separator 0 1)"

text \<open>
  \<^verbatim>\<open>std::stoull\<close> on a text that starts with a digit reads the longest prefix of digits, and
  throws \<^verbatim>\<open>std::out_of_range\<close> when the number does not fit 64 bits.
\<close>

definition digits_value :: "string \<Rightarrow> nat" where
  "digits_value ds = foldl (\<lambda>n c. 10 * n + digit_value c) 0 ds"

definition stoull :: "string \<Rightarrow> nat result" where
  "stoull txt =
    (let ds = takeWhile isdigit txt
     in if ds = [] then Inl InvalidArgument
        else if digits_value ds \<ge> 2 ^ 64 then Inl OutOfRange
        else Inr (digits_value ds))"

text \<open>
  The product is 64-bit unsigned; \<^verbatim>\<open>std::chrono::milliseconds\<close> stores it as a signed count.
\<close>

definition ToMilliseconds :: "string \<Rightarrow> int result" where
  "ToMilliseconds text0 =
    (let durationStr = TrimBoth text0
     in CheckParameterCondition (durationStr \<noteq> [])
       (rbind (view_front durationStr) (\<lambda>first.
        CheckParameterCondition (first \<noteq> CHR 0x2D)
       (rbind (view_back durationStr) (\<lambda>lastChar.
        CheckParameterCondition (lastChar = CHR 0x73)
        (let number = butlast durationStr
         in rbind (view_front number) (\<lambda>sign.
         let unsigned = (if sign = CHR 0x2B then TrimLeft (tl number) else number)
         in rbind (view_front unsigned) (\<lambda>firstDigit.
            CheckParameterCondition (isdigit firstDigit)
            (rbind (view_back unsigned) (\<lambda>suffix.
             let factor = (if suffix = CHR 0x6D then 1 else 1000);
                 digits = TrimRight (if suffix = CHR 0x6D then butlast unsigned else unsigned)
             in rbind (view_back digits) (\<lambda>lastDigit.
                CheckParameterCondition (isdigit lastDigit)
                 (rbind (stoull digits) (\<lambda>duration.
                  Inr (sint (word_of_nat (duration * factor) :: 64 word)))))))))))))))"

text \<open>\<open>ToUInt32\<close>: the loop that skips leading zeroes, then the loop that reads digits.\<close>

fun skip_zeros :: "string \<Rightarrow> bool \<Rightarrow> nat \<Rightarrow> (string \<times> bool \<times> nat) result" where
  "skip_zeros [] parsedDigits processed = Inl UndefinedBehaviour"
| "skip_zeros (c # cs) parsedDigits processed =
    (if c = CHR 0x30 then skip_zeros cs True (processed + 1)
     else Inr (c # cs, parsedDigits, processed))"

fun ToUInt32_loop :: "string \<Rightarrow> nat \<Rightarrow> nat \<Rightarrow> (nat \<times> nat) result" where
  "ToUInt32_loop [] val parsedCount = Inr (val, parsedCount)"
| "ToUInt32_loop (c # cs) val parsedCount =
    (if \<not> isdigit c then Inr (val, parsedCount)
     else if val > 4294967295 div 10 then Inl OutOfRange
     else
      let digit = digit_value c; val10 = u32 (val * 10)
      in if u32 (val10 + digit) < val10 then Inl OutOfRange
         else ToUInt32_loop cs (u32 (val10 + digit)) (parsedCount + 1))"

definition ToUInt32 :: "string \<Rightarrow> (nat \<times> nat) result" where
  "ToUInt32 txt =
    (let trimmed = TrimLeft txt
     in CheckParameterCondition (trimmed \<noteq> [])
       (rbind (view_front trimmed) (\<lambda>first.
        let curText = (if first = CHR 0x2B then tl trimmed else trimmed)
        in rbind (skip_zeros curText False (length txt - length curText))
             (\<lambda>(digits, parsedDigits, processedCharacters).
            rbind (ToUInt32_loop digits 0 0) (\<lambda>(val, parsedCount).
            CheckParameterCondition (parsedDigits \<or> parsedCount \<noteq> 0)
              (Inr (val, processedCharacters + parsedCount)))))))"

section \<open>Trimming, prefixes and suffixes\<close>

lemma TrimLeft_dropWhile: "TrimLeft txt = dropWhile blank txt"
proof (cases "\<exists>c cs. txt = c # cs \<and> blank c")
  case True
  show ?thesis
  proof (cases "find (\<lambda>i. \<not> blank (txt ! i)) [0..<length txt]")
    case None
    then have "\<forall>c \<in> set txt. blank c"
      unfolding find_upt_None by (auto simp: in_set_conv_nth)
    then have "dropWhile blank txt = []" by simp
    moreover have "TrimLeft txt = []"
      using None True by (auto simp: TrimLeft_def simp del: upt_Suc)
    ultimately show ?thesis by metis
  next
    case (Some p)
    then have p: "p < length txt" "\<not> blank (txt ! p)" "\<forall>q < p. blank (txt ! q)"
      unfolding find_upt_Some by auto
    then have "takeWhile blank txt = take p txt"
      by (intro takeWhile_eq_take_P_nth) auto
    then have "dropWhile blank txt = drop p txt"
      using p(1) by (simp add: dropWhile_eq_drop)
    then show ?thesis using Some True by (auto simp: TrimLeft_def simp del: upt_Suc)
  qed
qed (auto simp: TrimLeft_def split: list.splits)

lemma TrimRight_eq: "TrimRight txt = rev (dropWhile blank (rev txt))"
proof (cases "txt \<noteq> [] \<and> blank (last txt)")
  case True
  show ?thesis
  proof (cases "find (\<lambda>i. \<not> blank (txt ! i)) (rev [0..<length txt])")
    case None
    then have "\<forall>c \<in> set txt. blank c"
      unfolding find_rev_upt_None by (auto simp: in_set_conv_nth)
    then have "dropWhile blank (rev txt) = []" by simp
    then show ?thesis using None True by (simp add: TrimRight_def)
  next
    case (Some p)
    then have p: "p < length txt" "\<not> blank (txt ! p)" "\<forall>q. p < q \<and> q < length txt \<longrightarrow> blank (txt ! q)"
      unfolding find_rev_upt_Some by auto
    have "blank (rev txt ! i)" if "i < length txt - Suc p" for i
    proof -
      have "p < length txt - Suc i" "length txt - Suc i < length txt" "i < length txt"
        using that by linarith+
      then show ?thesis using p(3) by (simp add: rev_nth)
    qed
    then have "takeWhile blank (rev txt) = take (length txt - Suc p) (rev txt)"
      using p(1,2) by (intro takeWhile_eq_take_P_nth) (simp_all add: rev_nth)
    then have "dropWhile blank (rev txt) = drop (length txt - Suc p) (rev txt)"
      using p(1) by (simp add: dropWhile_eq_drop)
    then show ?thesis using Some True p(1) by (simp add: TrimRight_def rev_drop)
  qed
next
  case False
  then show ?thesis
    by (cases "txt" rule: rev_cases) (auto simp: TrimRight_def)
qed

lemma StartsWith_iff: "StartsWith txt sub \<longleftrightarrow> sub \<noteq> [] \<and> (\<exists>rest. txt = sub @ rest)"
  by (auto simp: StartsWith_def) (metis append_take_drop_id)

lemma EndsWith_iff: "EndsWith txt sub \<longleftrightarrow> sub \<noteq> [] \<and> (\<exists>front. txt = front @ sub)"
  by (auto simp: EndsWith_def) (metis append_take_drop_id)

section \<open>Tokens\<close>

lemma occurs_at_split: "occurs_at sub txt p \<Longrightarrow> txt = take p txt @ sub @ drop (p + length sub) txt"
  unfolding occurs_at_def by (metis append_take_drop_id drop_drop add.commute)

lemma tokens_split:
  assumes "separator \<noteq> []" and "view_rfind separator txt = Some p"
  shows "FrontTokens txt separator = take p txt" "BackToken txt separator = drop (p + length separator) txt"
    "txt = FrontTokens txt separator @ separator @ BackToken txt separator"
proof -
  have occ: "occurs_at separator txt p" using assms(2) by (simp add: view_rfind_Some)
  then have ne: "txt \<noteq> []" using assms(1) by (auto simp: occurs_at_def)
  show "FrontTokens txt separator = take p txt" "BackToken txt separator = drop (p + length separator) txt"
    using assms ne by (simp_all add: FrontTokens_def BackToken_def)
  then show "txt = FrontTokens txt separator @ separator @ BackToken txt separator"
    using occurs_at_split [OF occ] by simp
qed

lemma BackToken_no_separator:
  assumes "separator \<noteq> []" and "occurs_at separator (BackToken txt separator) q"
  shows False
proof (cases "view_rfind separator txt")
  case None
  then have "BackToken txt separator = txt" by (simp add: BackToken_def)
  then show ?thesis using assms(2) None by (simp add: view_rfind_None)
next
  case (Some p)
  then have "occurs_at separator txt (p + length separator + q)"
    using assms tokens_split(2) [OF assms(1) Some] by (cases separator) (auto simp: occurs_at_def ac_simps)
  then show ?thesis
    using Some assms(1) by (cases separator) (auto simp: view_rfind_Some)
qed

definition join :: "string \<Rightarrow> string list \<Rightarrow> string" where
  "join sep ts = (case ts of [] \<Rightarrow> [] | t # us \<Rightarrow> t @ concat (map (\<lambda>u. sep @ u) us))"

lemma join_simps [simp]: "join sep [] = []" "join sep [t] = t"
  "join sep (t # u # us) = t @ sep @ join sep (u # us)"
  by (simp_all add: join_def)

text \<open>The number of separators \<^verbatim>\<open>Split\<close> finds, scanning from the left without overlap.\<close>

function separators :: "string \<Rightarrow> string \<Rightarrow> nat \<Rightarrow> nat" where
  "separators txt sep start =
    (if sep = [] then 0
     else case view_find sep txt start of
       None \<Rightarrow> 0
     | Some p \<Rightarrow> Suc (separators txt sep (p + length sep)))"
  by pat_completeness auto
termination
  by (relation "measure (\<lambda>(t, _, p). Suc (length t) - p)") (auto dest: view_find_progress)

declare separators.simps [simp del]

text \<open>
  The tokens joined with the separator give back the text, but for one separator at its end,
  which \<^verbatim>\<open>Split\<close> drops together with the empty token after it.
\<close>

lemma Split_loop_join:
  assumes "sep \<noteq> []" and "start \<le> length txt"
  shows "(join sep (Split_loop txt sep start) = drop start txt
           \<and> length (Split_loop txt sep start) = separators txt sep start + of_bool (drop start txt \<noteq> []))
       \<or> (join sep (Split_loop txt sep start) @ sep = drop start txt
           \<and> length (Split_loop txt sep start) = separators txt sep start)"
  using assms
proof (induction "txt" sep start rule: Split_loop.induct)
  case (1 "txt" sep start)
  show ?case
  proof (cases "view_find sep txt start")
    case None
    then show ?thesis
      using 1(2,3) by (subst (1 2 3 4) Split_loop.simps, subst (1 2) separators.simps) auto
  next
    case (Some p)
    then have p: "start \<le> p" "occurs_at sep txt p" by (simp_all add: view_find_Some)
    let ?next = "p + length sep"
    have le: "?next \<le> length txt" using p(2) by (rule occurs_at_bound)
    have L: "Split_loop txt sep start = take (p - start) (drop start txt) # Split_loop txt sep ?next"
      and S: "separators txt sep start = Suc (separators txt sep ?next)"
      using Some 1(2) by (subst Split_loop.simps, simp, subst separators.simps, simp)
    have "drop p txt = sep @ drop ?next txt"
      using p(2) unfolding occurs_at_def by (metis append_take_drop_id drop_drop add.commute)
    then have parts: "drop start txt = take (p - start) (drop start txt) @ sep @ drop ?next txt"
      using p(1) append_take_drop_id [of "p - start" "drop start txt"] by simp
    have ne: "drop start txt \<noteq> []" using 1(2) by (subst parts) simp
    show ?thesis
    proof (cases "Split_loop txt sep ?next")
      case Nil
      then have "drop ?next txt = []"
        using 1(2) by (subst (asm) Split_loop.simps) (auto split: option.splits if_splits)
      then show ?thesis
        using 1(1) [OF 1(2) Some 1(2) le] Nil L S parts 1(2) by auto
    next
      case (Cons u us)
      have "drop ?next txt \<noteq> []"
      proof
        assume "drop ?next txt = []"
        then have "view_find sep txt ?next = None" "length txt \<le> ?next"
          using 1(2) by (cases sep; auto simp: view_find_None dest: occurs_at_bound)+
        then show False using Cons by (subst (asm) Split_loop.simps) (simp split: if_splits)
      qed
      then show ?thesis
        using 1(1) [OF 1(2) Some 1(2) le] L S parts ne Cons by auto
    qed
  qed
qed

lemma TokensCount_loop_eq: "TokensCount_loop txt sep pos count = count + separators txt sep pos"
proof (induction "txt" sep pos count rule: TokensCount_loop.induct)
  case (1 "txt" sep pos count)
  then show ?case
    by (subst TokensCount_loop.simps, subst separators.simps) (auto split: option.splits)
qed

lemma TokensCount_eq:
  "txt \<noteq> [] \<Longrightarrow> TokensCount txt sep = Suc (separators txt sep 0)"
  by (simp add: TokensCount_def TokensCount_loop_eq separators.simps [of _ "[]"])

lemma Split_join:
  assumes "sep \<noteq> []" and "txt \<noteq> []"
  shows "txt = join sep (Split txt sep) \<and> length (Split txt sep) = TokensCount txt sep
       \<or> txt = join sep (Split txt sep) @ sep \<and> Suc (length (Split txt sep)) = TokensCount txt sep"
  using Split_loop_join [OF assms(1), of 0 "txt"] assms by (auto simp: Split_def TokensCount_eq)

section \<open>Directory of a path\<close>

lemma occurs_at_char: "occurs_at [c] txt p \<longleftrightarrow> p < length txt \<and> txt ! p = c"
  by (auto simp: occurs_at_def take_Suc_conv_app_nth Cons_nth_drop_Suc [symmetric])

definition path_separator :: "char \<Rightarrow> bool" where
  "path_separator c = (c = CHR 0x2F \<or> c = CHR 0x5C)"

lemma ExtractDirectoryPath_cases:
  "(\<forall>c \<in> set txt. \<not> path_separator c) \<and> ExtractDirectoryPath txt = ''.''
   \<or> (\<exists>c file. txt = ExtractDirectoryPath txt @ file \<and> ExtractDirectoryPath txt \<noteq> []
        \<and> path_separator (last (ExtractDirectoryPath txt)) \<and> (\<forall>c \<in> set file. \<not> path_separator c))"
proof -
  have found: "?thesis" if "ExtractDirectoryPath txt = take (p + 1) txt" "p < length txt"
    "path_separator (txt ! p)" "\<forall>q. p < q \<and> q < length txt \<longrightarrow> \<not> path_separator (txt ! q)" for p
  proof -
    have "txt = take (p + 1) txt @ drop (p + 1) txt" by simp
    moreover have "last (take (p + 1) txt) = txt ! p" "take (p + 1) txt \<noteq> []"
      using that(2) by (auto simp: take_Suc_conv_app_nth)
    moreover have "\<forall>c \<in> set (drop (p + 1) txt). \<not> path_separator c"
      using that(4) by (auto simp: in_set_conv_nth)
    ultimately show ?thesis using that(1,3) by metis
  qed
  show ?thesis
  proof (cases "view_rfind ''/'' txt"; cases "view_rfind [CHR 0x5C] txt")
    assume "view_rfind ''/'' txt = None" "view_rfind [CHR 0x5C] txt = None"
    moreover from this have "ExtractDirectoryPath txt = ''.''" by (simp add: ExtractDirectoryPath_def)
    ultimately show ?thesis
      by (auto simp: view_rfind_None occurs_at_char path_separator_def in_set_conv_nth)
  next
    fix w assume a: "view_rfind ''/'' txt = None" "view_rfind [CHR 0x5C] txt = Some w"
    then have "ExtractDirectoryPath txt = take (w + 1) txt" by (simp add: ExtractDirectoryPath_def)
    then show ?thesis
      using a by (intro found [of w])
        (auto simp: view_rfind_None view_rfind_Some occurs_at_char path_separator_def)
  next
    fix l assume a: "view_rfind ''/'' txt = Some l" "view_rfind [CHR 0x5C] txt = None"
    then have "ExtractDirectoryPath txt = take (l + 1) txt" by (simp add: ExtractDirectoryPath_def)
    then show ?thesis
      using a by (intro found [of l])
        (auto simp: view_rfind_None view_rfind_Some occurs_at_char path_separator_def)
  next
    fix l w assume a: "view_rfind ''/'' txt = Some l" "view_rfind [CHR 0x5C] txt = Some w"
    then have "ExtractDirectoryPath txt = take (max l w + 1) txt"
      by (auto simp: ExtractDirectoryPath_def max_def)
    then show ?thesis
      using a by (intro found [of "max l w"])
        (auto simp: view_rfind_Some occurs_at_char path_separator_def max_def)
  qed
qed

section \<open>Numbers\<close>

lemma MinimalBitsForValue_loop_eq:
  "\<exists>k low. MinimalBitsForValue_loop b v = (b + 4 * k, low) \<and> low = v div 2 ^ (4 * k) \<and> low \<le> 15
     \<and> (0 < k \<longrightarrow> 0 < low)"
proof (induction b v rule: MinimalBitsForValue_loop.induct)
  case (1 b v)
  show ?case
  proof (cases "v > 15")
    case True
    then obtain k low where "MinimalBitsForValue_loop (b + 4) (v div 16) = (b + 4 + 4 * k, low)"
      "low = v div 16 div 2 ^ (4 * k)" "low \<le> 15" "0 < k \<longrightarrow> 0 < low"
      using 1 by blast
    moreover have "0 < low" if "k = 0"
      using True that calculation(2) by simp
    ultimately show ?thesis
      using True by (subst MinimalBitsForValue_loop.simps)
        (auto intro!: exI [of _ "Suc k"] simp: power_add div_mult2_eq)
  next
    case False
    then show ?thesis
      by (subst MinimalBitsForValue_loop.simps) (auto intro!: exI [of _ 0])
  qed
qed

lemma bitsForVal_nth:
  assumes "low \<le> 15"
  defines "m \<equiv> [1, 1, 2, 2, 3, 3, 3, 3, 4, 4, 4, 4, 4, 4, 4, 4] ! low"
  shows "0 < m" "low < 2 ^ m" "0 < low \<Longrightarrow> 2 ^ (m - 1) \<le> low"
proof -
  have "0 < m \<and> low < 2 ^ m \<and> (0 < low \<longrightarrow> 2 ^ (m - 1) \<le> low)"
  proof (cases "low \<le> 7")
    case True
    then consider "low = 0" | "low = 1" | "low = 2" | "low = 3" | "low = 4" | "low = 5" | "low = 6" | "low = 7"
      by linarith
    then show ?thesis by cases (simp_all add: m_def)
  next
    case False
    then consider "low = 8" | "low = 9" | "low = 10" | "low = 11" | "low = 12" | "low = 13" | "low = 14" | "low = 15"
      using assms(1) by linarith
    then show ?thesis by cases (simp_all add: m_def)
  qed
  then show "0 < m" "low < 2 ^ m" "0 < low \<Longrightarrow> 2 ^ (m - 1) \<le> low" by simp_all
qed

lemma MinimalBitsForValue_bounds:
  "0 < MinimalBitsForValue v" "v < 2 ^ MinimalBitsForValue v"
  "0 < v \<Longrightarrow> 2 ^ (MinimalBitsForValue v - 1) \<le> v"
proof -
  obtain k low where loop: "MinimalBitsForValue_loop 0 v = (4 * k, low)" and low: "low = v div 2 ^ (4 * k)"
    "low \<le> 15" "0 < k \<longrightarrow> 0 < low"
    using MinimalBitsForValue_loop_eq [of 0 v] by auto
  define m where "m = [1, 1, 2, 2, 3, 3, 3, 3, 4, 4, 4, 4, 4, 4, 4, 4 :: nat] ! low"
  have eq: "MinimalBitsForValue v = 4 * k + m"
    by (simp add: MinimalBitsForValue_def loop m_def del: nth_Cons_numeral)
  note m = bitsForVal_nth [OF low(2), folded m_def]
  show "0 < MinimalBitsForValue v" using m(1) eq by simp
  have "v div 2 ^ (4 * k) < 2 ^ m" using m(2) low(1) by simp
  then have "v < 2 ^ m * 2 ^ (4 * k)" by (simp add: div_less_iff_less_mult)
  then show "v < 2 ^ MinimalBitsForValue v" by (simp add: eq power_add mult.commute)
  assume "0 < v"
  then have "0 < low" using low by (cases k) simp_all
  then have "2 ^ (m - 1) \<le> v div 2 ^ (4 * k)" using m(3) low(1) by simp
  then have "2 ^ (m - 1) * 2 ^ (4 * k) \<le> v" by (simp add: less_eq_div_iff_mult_less_eq)
  moreover have "MinimalBitsForValue v - 1 = (m - 1) + 4 * k" using m(1) eq by simp
  ultimately show "2 ^ (MinimalBitsForValue v - 1) \<le> v" by (simp only: power_add)
qed

abbreviation digits_from :: "nat \<Rightarrow> string \<Rightarrow> nat" where
  "digits_from n ds \<equiv> foldl (\<lambda>n c. 10 * n + digit_value c) n ds"

lemma digits_from_mono: "n \<le> digits_from n ds"
proof (induction ds arbitrary: n)
  case (Cons d ds)
  have "n \<le> 10 * n + digit_value d" by simp
  also have "\<dots> \<le> digits_from (10 * n + digit_value d) ds" by (rule Cons.IH)
  finally show ?case by simp
qed simp

lemma digit_value_le: "isdigit c \<Longrightarrow> digit_value c \<le> 9"
  unfolding isdigit_def digit_value_def by linarith

lemma ToUInt32_loop_eq:
  assumes "\<forall>c \<in> set ds. isdigit c" and "rest = [] \<or> \<not> isdigit (hd rest)" and "val < 4294967296"
  shows "ToUInt32_loop (ds @ rest) val n
    = (if digits_from val ds < 4294967296 then Inr (digits_from val ds, n + length ds) else Inl OutOfRange)"
  using assms(1,3)
proof (induction ds arbitrary: val n)
  case Nil
  then show ?case using assms(2) by (cases rest) auto
next
  case (Cons d ds)
  let ?next = "10 * val + digit_value d"
  have d: "isdigit d" "digit_value d \<le> 9" using Cons.prems by (auto simp: digit_value_le)
  show ?case
  proof (cases "?next < 4294967296")
    case True
    then have "\<not> val > 429496729" by linarith
    then show ?thesis
      using True d Cons.IH [of ?next "n + 1"] Cons.prems by (simp add: mult.commute)
  next
    case False
    then have big: "\<not> digits_from ?next ds < 4294967296"
      using digits_from_mono [of ?next ds] by linarith
    show ?thesis
    proof (cases "val > 429496729")
      case True
      then show ?thesis using d big by simp
    next
      case small: False
      then have "u32 (val * 10) = 10 * val" by simp
      moreover have "u32 ?next < 10 * val"
        using False small d by (simp add: u32_def le_mod_geq)
      ultimately show ?thesis using d big small by (simp add: Let_def mult.commute)
    qed
  qed
qed

lemma skip_zeros_eq:
  "skip_zeros cs f n
   = (if dropWhile (\<lambda>c. c = CHR 0x30) cs = [] then Inl UndefinedBehaviour
      else Inr (dropWhile (\<lambda>c. c = CHR 0x30) cs, f \<or> takeWhile (\<lambda>c. c = CHR 0x30) cs \<noteq> [],
                n + length (takeWhile (\<lambda>c. c = CHR 0x30) cs)))"
  by (induction cs arbitrary: f n) auto

lemma digits_from_zeros: "\<forall>c \<in> set zs. c = CHR 0x30 \<Longrightarrow> digits_from 0 zs = 0"
  by (induction zs) (simp_all add: digit_value_def)

lemma not_digit [simp]: "\<not> isdigit CHR 0x20" "\<not> isdigit CHR 0x09" "\<not> isdigit CHR 0x2B" "isdigit CHR 0x30"
  "\<not> isdigit CHR 0x73" "\<not> isdigit CHR 0x6D" "\<not> isdigit CHR 0x2D"
  by (simp_all add: isdigit_def)

lemma digit_not_blank: "isdigit c \<Longrightarrow> \<not> blank c"
  by (auto simp: blank_def)

lemma ToUInt32_eq:
  assumes ws: "\<forall>c \<in> set ws. blank c" and sign: "sg = [] \<or> sg = ''+''"
    and ds: "ds \<noteq> []" "\<forall>c \<in> set ds. isdigit c" and rest: "rest = [] \<or> \<not> isdigit (hd rest)"
    and some: "rest \<noteq> [] \<or> (\<exists>c \<in> set ds. c \<noteq> CHR 0x30)"
  shows "ToUInt32 (ws @ sg @ ds @ rest)
    = (if digits_value ds < 4294967296
       then Inr (digits_value ds, length ws + length sg + length ds) else Inl OutOfRange)"
proof -
  let ?z = "\<lambda>c. c = CHR 0x30"
  obtain d ds' where ds': "ds = d # ds'" using ds(1) by (cases ds) auto
  have trim: "TrimLeft (ws @ sg @ ds @ rest) = sg @ ds @ rest"
  proof -
    have "dropWhile blank (ws @ sg @ ds @ rest) = dropWhile blank (sg @ ds @ rest)"
      using ws by (intro dropWhile_append2) blast
    moreover have "\<not> blank d" using ds(2) ds' digit_not_blank by simp
    ultimately show ?thesis
      using sign ds' by (auto simp: TrimLeft_dropWhile blank_def)
  qed
  define zs ms where "zs = takeWhile ?z ds" and "ms = dropWhile ?z ds"
  have split: "ds = zs @ ms" by (simp add: zs_def ms_def)
  have zs: "\<forall>c \<in> set zs. c = CHR 0x30" by (auto simp: zs_def dest: set_takeWhileD)
  have tw: "dropWhile ?z (ds @ rest) = ms @ rest" "takeWhile ?z (ds @ rest) = zs"
  proof -
    have r: "rest = [] \<or> hd rest \<noteq> CHR 0x30" using rest by auto
    show "dropWhile ?z (ds @ rest) = ms @ rest" "takeWhile ?z (ds @ rest) = zs"
      using r unfolding zs_def ms_def
      by (induction ds; cases rest; auto)+
  qed
  have ne: "ms @ rest \<noteq> []"
    using some unfolding ms_def by auto
  have skip: "skip_zeros (ds @ rest) False n = Inr (ms @ rest, zs \<noteq> [], n + length zs)" for n
    unfolding skip_zeros_eq tw using ne by simp
  have ms: "\<forall>c \<in> set ms. isdigit c" using ds(2) split by auto
  have val: "digits_value ds = digits_from 0 ms"
    using digits_from_zeros [OF zs] by (simp add: digits_value_def split)
  have cond: "zs \<noteq> [] \<or> ms \<noteq> []" using ds(1) split by auto
  have plus: "(if hd (sg @ ds @ rest) = CHR 0x2B then tl (sg @ ds @ rest) else sg @ ds @ rest) = ds @ rest"
    using sign ds ds' by auto
  have ne2: "sg @ ds @ rest \<noteq> []" "view_front (sg @ ds @ rest) = Inr (hd (sg @ ds @ rest))"
    using ds' sign by (auto simp: view_front_def)
  have len: "length (ws @ sg @ ds @ rest) - length (ds @ rest) + length zs + length ms
      = length ws + length sg + length ds"
    using arg_cong [OF split, of length] by simp
  have "ToUInt32 (ws @ sg @ ds @ rest) = rbind (ToUInt32_loop (ms @ rest) 0 0) (\<lambda>(val, parsedCount).
      CheckParameterCondition (zs \<noteq> [] \<or> parsedCount \<noteq> 0)
        (Inr (val, length (ws @ sg @ ds @ rest) - length (ds @ rest) + length zs + parsedCount)))"
    unfolding ToUInt32_def trim Let_def ne2(2) rbind_Inr plus skip prod.case
    using ne2(1) by (simp only: not_False_eq_True CheckParameterCondition_True simp_thms)
  also have "\<dots> = (if digits_value ds < 4294967296
       then Inr (digits_value ds, length ws + length sg + length ds) else Inl OutOfRange)"
    unfolding ToUInt32_loop_eq [OF ms rest, of 0 0, simplified] val [symmetric] len [symmetric]
    using cond by (simp add: check_defs)
  finally show ?thesis .
qed

section \<open>Durations\<close>

lemma view_front_hd: "xs \<noteq> [] \<Longrightarrow> view_front xs = Inr (hd xs)"
  by (cases xs) (simp_all add: view_front_def)

lemma TrimLeft_blanks: "\<forall>c \<in> set ws. blank c \<Longrightarrow> xs = [] \<or> \<not> blank (hd xs) \<Longrightarrow> TrimLeft (ws @ xs) = xs"
  unfolding TrimLeft_dropWhile by (subst dropWhile_append2) (cases xs; auto)+

lemma TrimRight_blanks: "\<forall>c \<in> set ws. blank c \<Longrightarrow> xs = [] \<or> \<not> blank (last xs) \<Longrightarrow> TrimRight (xs @ ws) = xs"
proof -
  assume "\<forall>c \<in> set ws. blank c" "xs = [] \<or> \<not> blank (last xs)"
  then have "dropWhile blank (rev ws @ rev xs) = rev xs"
    by (subst dropWhile_append2) (cases xs rule: rev_cases; auto)+
  then show ?thesis by (simp add: TrimRight_eq)
qed

lemma ToMilliseconds_eq:
  assumes blanks: "\<forall>c \<in> set (ws @ ws' @ ws'' @ sp). blank c" and sign: "sg = [] \<or> sg = CHR 0x2B # ws''"
    and ds: "ds \<noteq> []" "\<forall>c \<in> set ds. isdigit c"
    and unit: "u = ''s'' \<and> factor = 1000 \<or> u = ''ms'' \<and> factor = 1"
  shows "ToMilliseconds (ws @ sg @ ds @ sp @ u @ ws')
    = (if digits_value ds < 2 ^ 64
       then Inr (sint (word_of_nat (digits_value ds * factor) :: 64 word)) else Inl OutOfRange)"
proof -
  obtain d ds' where ds': "ds = d # ds'" "isdigit d" using ds by (cases ds) auto
  obtain es e where es: "ds = es @ [e]" "isdigit e" using ds by (cases ds rule: rev_cases) auto
  obtain m where m: "u = m @ ''s''" "m = [] \<and> factor = 1000 \<or> m = ''m'' \<and> factor = 1"
    using unit by auto
  let ?core = "sg @ ds @ sp @ u" and ?number = "sg @ ds @ sp @ m"
  have hd: "hd ?core = CHR 0x2B \<or> hd ?core = d" "?core \<noteq> []" "last ?core = CHR 0x73"
    using sign ds'(1) m(1) by auto
  have nb: "\<not> blank (CHR 0x2B)" "\<not> blank (CHR 0x73)" "\<not> blank d" "\<not> blank e"
    "\<not> blank (CHR 0x6D)"
    using ds'(2) es(2) digit_not_blank by (auto simp: blank_def)
  have "hd (?core @ ws') = hd ?core" using hd(2) by (rule hd_append2)
  then have "\<not> blank (hd (?core @ ws'))" using hd(1) nb by metis
  moreover have "\<forall>c \<in> set ws. blank c" "\<forall>c \<in> set ws'. blank c" using blanks by simp_all
  ultimately have "TrimLeft (ws @ ?core @ ws') = ?core @ ws'"
    by (intro TrimLeft_blanks disjI2)
  moreover have "TrimRight (?core @ ws') = ?core"
    using hd(3) nb(2) \<open>\<forall>c \<in> set ws'. blank c\<close> by (intro TrimRight_blanks disjI2) metis+
  ultimately have trim: "TrimBoth (ws @ sg @ ds @ sp @ u @ ws') = ?core"
    by (simp add: TrimBoth_def)
  have front: "view_front ?core = Inr (hd ?core)" using hd(2) by (rule view_front_hd)
  have minus: "hd ?core \<noteq> CHR 0x2D" using hd(1) ds'(2) by auto
  have coreq: "?core = ?number @ [CHR 0x73]" by (simp add: m(1))
  have bck: "view_back ?core = Inr (CHR 0x73)" "butlast ?core = ?number"
    unfolding coreq by (simp add: view_back_def, rule butlast_snoc)
  have nfront: "view_front ?number = Inr (hd ?core)"
    using sign ds'(1) m(1) by (auto simp: view_front_def)
  have usg: "(if hd ?core = CHR 0x2B then TrimLeft (tl ?number) else ?number) = ds @ sp @ m"
  proof (cases "sg = []")
    case True
    then show ?thesis using ds' by auto
  next
    case False
    then have "sg = CHR 0x2B # ws''" using sign by simp
    moreover have "TrimLeft (ws'' @ ds @ sp @ m) = ds @ sp @ m"
      using blanks ds' nb by (intro TrimLeft_blanks) auto
    ultimately show ?thesis by simp
  qed
  have ufront: "view_front (ds @ sp @ m) = Inr d" using ds'(1) by (simp add: view_front_def)
  obtain s where s: "view_back (ds @ sp @ m) = Inr s" "s = CHR 0x6D \<longleftrightarrow> factor = 1"
    "(if s = CHR 0x6D then butlast (ds @ sp @ m) else ds @ sp @ m) = ds @ sp"
  proof (cases "m = []")
    case True
    have "last (ds @ sp) \<noteq> CHR 0x6D"
    proof (cases "sp = []")
      case True
      then show ?thesis using es by auto
    next
      case False
      then have "blank (last sp)" using blanks by simp
      then show ?thesis using False by (auto simp: blank_def)
    qed
    then show ?thesis using True m(2) es(1) that [of "last (ds @ sp)"] by (simp add: view_back_def)
  next
    case False
    then show ?thesis using m(2) that [of "CHR 0x6D"] by (auto simp: view_back_def butlast_append)
  qed
  have fac: "(if s = CHR 0x6D then 1 else 1000) = factor" using s(2) m(2) by auto
  have tr: "TrimRight (ds @ sp) = ds" using blanks es nb by (intro TrimRight_blanks) auto
  have dback: "view_back ds = Inr e" using es by (simp add: view_back_def)
  have tw: "takeWhile isdigit ds = ds" using ds(2) by (simp add: takeWhile_eq_all_conv)
  have st: "stoull ds = (if digits_value ds < 2 ^ 64 then Inr (digits_value ds) else Inl OutOfRange)"
    using ds(1) unfolding stoull_def Let_def tw by simp
  show ?thesis
    unfolding ToMilliseconds_def trim Let_def front bck rbind_Inr nfront usg ufront s(1,3) fac tr dback st
    using hd(2) minus ds'(2) es(2) by (simp add: check_defs)
qed

text \<open>Only the first and last characters of the number are checked to be digits.\<close>

lemma ToMilliseconds_garbage: "ToMilliseconds ''1x2s'' = Inr 1000"
  by (simp add: ToMilliseconds_def TrimBoth_def TrimLeft_def TrimRight_def blank_def view_front_def view_back_def
      isdigit_def stoull_def digits_value_def digit_value_def)

end
