(* ===== verification/BV_Text.thy ===== *)
theory BV_Text
  imports BV_Slices Text_Utility
begin

text \<open>
  The textual forms of a \<^verbatim>\<open>BinaryVector\<close> (\<^verbatim>\<open>Mast_Core/src/BinaryVector.cpp\<close>): the
  printers \<^verbatim>\<open>DataAs...String\<close> and the parsers \<^verbatim>\<open>CreateFrom...String\<close>. An output stream is the
  text written to it. A \<^verbatim>\<open>string_view\<close> parameter of a parser is optional: \<open>None\<close> is a view on the
  null pointer. Log output is not modelled.
\<close>

section \<open>Printers\<close>

definition LEFT_BITS_MASK_4 :: "byte list" where
  "LEFT_BITS_MASK_4 = [0b0000, 0b1000, 0b1100, 0b1110, 0b1111]"

definition BINARY_NIBBLES :: "string list" where
  "BINARY_NIBBLES =
    [''0000'', ''0001'', ''0010'', ''0011'', ''0100'', ''0101'', ''0110'', ''0111'',
     ''1000'', ''1001'', ''1010'', ''1011'', ''1100'', ''1101'', ''1110'', ''1111'']"

definition HEX_NIBBLES :: "string list" where
  "HEX_NIBBLES =
    [''0'', ''1'', ''2'', ''3'', ''4'', ''5'', ''6'', ''7'',
     ''8'', ''9'', ''A'', ''B'', ''C'', ''D'', ''E'', ''F'']"

text \<open>The state of a printer: the stream, \<^verbatim>\<open>nibblesCount\<close> and \<^verbatim>\<open>bytesCount\<close>.\<close>

type_synonym printer = "string \<times> nat \<times> nat"

definition appendNibble_binary :: "string \<Rightarrow> string \<Rightarrow> nat \<Rightarrow> string \<Rightarrow> string \<Rightarrow> printer \<Rightarrow> printer" where
  "appendNibble_binary quadSeparator octoSeparator bytesPerLine eolSeparator nibble st =
    (case st of (os, nibblesCount, bytesCount) \<Rightarrow>
      let (os', nibblesCount', bytesCount') =
        (if nibblesCount = 1 then (os @ quadSeparator, nibblesCount, bytesCount)
         else if nibblesCount = 2 then
           (let bytesCount1 = u32 (bytesCount + 1)
            in (if bytesCount1 = bytesPerLine then os @ eolSeparator @ [CHR 0x0A] else os @ octoSeparator,
                0, bytesCount1))
         else (os, nibblesCount, bytesCount))
      in (os' @ nibble, nibblesCount' + 1, bytesCount'))"

definition appendBits_text :: "string \<Rightarrow> string \<Rightarrow> nat \<Rightarrow> string \<Rightarrow> byte \<Rightarrow> nat \<Rightarrow> printer \<Rightarrow> printer" where
  "appendBits_text quadSeparator octoSeparator bytesPerLine eolSeparator bitsOnLsb bitsCount st =
    (if bitsCount \<noteq> 0
     then appendNibble_binary quadSeparator octoSeparator bytesPerLine eolSeparator
            (take bitsCount (BINARY_NIBBLES ! unat bitsOnLsb)) st
     else st)"

fun DataAsBinaryString_loop ::
    "string \<Rightarrow> string \<Rightarrow> nat \<Rightarrow> string \<Rightarrow> byte list \<Rightarrow> nat \<Rightarrow> printer \<Rightarrow> printer" where
  "DataAsBinaryString_loop q oc bpl eol [] bitsCount st = st"
| "DataAsBinaryString_loop q oc bpl eol (byte # bytes) bitsCount st =
    (if bitsCount \<ge> 8 then
       DataAsBinaryString_loop q oc bpl eol bytes (bitsCount - 8)
         (appendNibble_binary q oc bpl eol (BINARY_NIBBLES ! unat (byte AND 0x0F))
           (appendNibble_binary q oc bpl eol (BINARY_NIBBLES ! unat (drop_bit 4 byte)) st))
     else if bitsCount \<ge> 4 then
       DataAsBinaryString_loop q oc bpl eol bytes (bitsCount - 4)
         (appendBits_text q oc bpl eol (byte AND 0x0F) (bitsCount - 4)
           (appendNibble_binary q oc bpl eol (BINARY_NIBBLES ! unat (drop_bit 4 byte)) st))
     else
       DataAsBinaryString_loop q oc bpl eol bytes bitsCount
         (appendBits_text q oc bpl eol (drop_bit 4 byte AND 0x0F) bitsCount st))"

definition DataAsBinaryString :: "string \<Rightarrow> string \<Rightarrow> nat \<Rightarrow> string \<Rightarrow> bool \<Rightarrow> BinaryVector \<Rightarrow> string" where
  "DataAsBinaryString quadSeparator octoSeparator bytesPerLine eolSeparator prefixWith0b v =
    fst (DataAsBinaryString_loop quadSeparator octoSeparator bytesPerLine eolSeparator
           (m_data v) (m_usedBits v) (if prefixWith0b then ''0b'' else [], 0, 0))"

definition appendNibble_hex :: "string \<Rightarrow> string \<Rightarrow> nat \<Rightarrow> string \<Rightarrow> string \<Rightarrow> printer \<Rightarrow> printer" where
  "appendNibble_hex quadSeparator octoSeparator bytesPerLine eolSeparator nibble st =
    (case st of (os, nibblesCount, bytesCount) \<Rightarrow>
      let (os', nibblesCount', bytesCount') =
        (if nibblesCount \<noteq> 0 \<and> nibblesCount mod 2 = 0 then
           let bytesCount1 = u32 (bytesCount + 1)
           in if bytesCount1 = bytesPerLine then (os @ eolSeparator @ [CHR 0x0A], 0, 0)
              else if nibblesCount = 4 then (os @ quadSeparator, nibblesCount, bytesCount1)
              else if nibblesCount = 8 then (os @ octoSeparator, 0, bytesCount1)
              else (os, nibblesCount, bytesCount1)
         else (os, nibblesCount, bytesCount))
      in (os' @ nibble, nibblesCount' + 1, bytesCount'))"

fun DataAsHexString_loop ::
    "string \<Rightarrow> string \<Rightarrow> nat \<Rightarrow> string \<Rightarrow> byte list \<Rightarrow> nat \<Rightarrow> printer \<Rightarrow> printer" where
  "DataAsHexString_loop q oc bpl eol [] bitsCount st = st"
| "DataAsHexString_loop q oc bpl eol (byte # bytes) bitsCount st =
    (if bitsCount \<ge> 8 then
       DataAsHexString_loop q oc bpl eol bytes (bitsCount - 8)
         (appendNibble_hex q oc bpl eol (HEX_NIBBLES ! unat (byte AND 0x0F))
           (appendNibble_hex q oc bpl eol (HEX_NIBBLES ! unat (drop_bit 4 byte)) st))
     else if bitsCount > 4 then
       DataAsHexString_loop q oc bpl eol bytes (bitsCount - 4)
         (appendNibble_hex q oc bpl eol (HEX_NIBBLES ! unat (byte AND LEFT_BITS_MASK_4 ! (bitsCount - 4)))
           (appendNibble_hex q oc bpl eol (HEX_NIBBLES ! unat (drop_bit 4 byte)) st))
     else
       DataAsHexString_loop q oc bpl eol bytes bitsCount
         (appendNibble_hex q oc bpl eol
           (HEX_NIBBLES ! unat (drop_bit 4 byte AND LEFT_BITS_MASK_4 ! bitsCount)) st))"

definition DataAsHexString :: "string \<Rightarrow> string \<Rightarrow> nat \<Rightarrow> string \<Rightarrow> bool \<Rightarrow> BinaryVector \<Rightarrow> string" where
  "DataAsHexString quadSeparator octoSeparator bytesPerLine eolSeparator prefixWith0x v =
    fst (DataAsHexString_loop quadSeparator octoSeparator bytesPerLine eolSeparator
           (m_data v) (m_usedBits v) (if prefixWith0x then ''0x'' else [], 0, 0))"

text \<open>The digits of the last, incomplete, nibble.\<close>

definition lastBits_text :: "BinaryVector \<Rightarrow> string result" where
  "lastBits_text v =
    (let lastByteBitsCount = m_usedBits v mod 8;
         lastQuadBitsCount = m_usedBits v mod 4;
         shiftCount = (if lastByteBitsCount < 4 then 8 - lastQuadBitsCount else 4 - lastQuadBitsCount)
     in if m_data v = [] then Inl UndefinedBehaviour
        else
         let byte = drop_bit shiftCount (last (m_data v)) AND 0x0F
         in Inr (take lastQuadBitsCount (drop (4 - lastQuadBitsCount) (BINARY_NIBBLES ! unat byte))))"

definition DataAsMixString ::
    "nat \<Rightarrow> string \<Rightarrow> string \<Rightarrow> nat \<Rightarrow> string \<Rightarrow> BinaryVector \<Rightarrow> string result" where
  "DataAsMixString hexStyleThreshold quadSeparator octaSeparator bytesPerLine eolSeparator v =
    (if m_usedBits v = 0 then Inr []
     else if m_usedBits v < hexStyleThreshold
     then Inr (DataAsBinaryString quadSeparator octaSeparator bytesPerLine eolSeparator True v)
     else
      let smartString = DataAsHexString quadSeparator octaSeparator bytesPerLine eolSeparator True v
      in if m_usedBits v mod 4 \<noteq> 0
         then rbind (lastBits_text v) (\<lambda>lastBits.
              Inr (take (length smartString - 1) smartString @ ''/b'' @ lastBits))
         else Inr smartString)"

text \<open>\<^verbatim>\<open>operator<<\<close> and \<^verbatim>\<open>std::to_string\<close> on an unsigned number.\<close>

fun to_string :: "nat \<Rightarrow> string" where
  "to_string n =
    (if n < 10 then [char_of (48 + n)] else to_string (n div 10) @ [char_of (48 + n mod 10)])"

declare to_string.simps [simp del]

definition DataAsICLBinaryString :: "BinaryVector \<Rightarrow> string" where
  "DataAsICLBinaryString v =
    to_string (m_usedBits v) @ [CHR 0x27, CHR ''b''] @ DataAsBinaryString ''_'' ''_'' 0 [] False v"

definition DataAsICLHexString :: "BinaryVector \<Rightarrow> string" where
  "DataAsICLHexString v =
    to_string (m_usedBits v) @ [CHR 0x27, CHR ''h''] @ DataAsHexString ''_'' ''_'' 0 [] False v"

definition DataAsICLMixString :: "nat \<Rightarrow> BinaryVector \<Rightarrow> string result" where
  "DataAsICLMixString hexStyleThreshold v =
    (if m_usedBits v = 0 then Inr []
     else if m_usedBits v < max hexStyleThreshold 4 then Inr (DataAsICLBinaryString v)
     else
      let plainNibblesCount = m_usedBits v div 4;
          lastQuadBitsCount = m_usedBits v mod 4;
          smartString = to_string (plainNibblesCount * 4) @ [CHR 0x27, CHR ''h'']
                        @ DataAsHexString ''_'' ''_'' 0 [] False v;
          popped = (if lastQuadBitsCount \<noteq> 0 then butlast smartString else smartString);
          trimmed = (if last popped = CHR ''_'' then butlast popped else popped)
      in if lastQuadBitsCount \<noteq> 0
         then rbind (lastBits_text v) (\<lambda>lastBits.
              Inr (trimmed @ '', '' @ to_string lastQuadBitsCount @ [CHR 0x27, CHR ''b''] @ lastBits))
         else Inr trimmed)"

section \<open>Parsers\<close>

datatype DontCare = IsError | IsZero | IsOne

datatype NumberBase = UndefinedBase | Binary | Hexadecimal | Decimal | Octal

definition ignored_chars :: string where
  "ignored_chars = [CHR ''-'', CHR ''_'', CHR '':'', CHR ''|'', CHR '','', CHR 0x27, CHR 0x09, CHR 0x0A,
                    CHR '' '', CHR 0x00, CHR ''/'', CHR 0x5C]"

definition leading_blank :: "char \<Rightarrow> bool" where
  "leading_blank c = (c = CHR 0x0A \<or> c = CHR 0x09 \<or> c = CHR '' '')"

text \<open>The parser state: the result so far, \<^verbatim>\<open>nextByte\<close> and \<^verbatim>\<open>bitCount\<close>.\<close>

type_synonym builder = "BinaryVector \<times> byte \<times> nat"

definition push_byte :: "byte \<Rightarrow> nat \<Rightarrow> BinaryVector \<Rightarrow> BinaryVector" where
  "push_byte b n v = v\<lparr>m_data := m_data v @ [b], m_usedBits := u32 (m_usedBits v + n)\<rparr>"

definition appendBit :: "bool \<Rightarrow> builder \<Rightarrow> builder" where
  "appendBit b st =
    (case st of (res, nextByte, bitCount) \<Rightarrow>
      let nextByte' = push_bit 1 nextByte OR of_bool b
      in if bitCount + 1 = 8 then (push_byte nextByte' 8 res, 0, 0)
         else (res, nextByte', bitCount + 1))"

fun CreateFromBinaryString_loop :: "DontCare \<Rightarrow> char \<Rightarrow> string \<Rightarrow> builder \<Rightarrow> builder result" where
  "CreateFromBinaryString_loop dontCare previousChar [] st = Inr st"
| "CreateFromBinaryString_loop dontCare previousChar (nextChar # rest) st =
    (if nextChar = CHR ''0'' then CreateFromBinaryString_loop dontCare nextChar rest (appendBit False st)
     else if nextChar = CHR ''1'' then CreateFromBinaryString_loop dontCare nextChar rest (appendBit True st)
     else if nextChar = CHR ''x'' \<or> nextChar = CHR ''X'' then
       (case dontCare of
          IsError \<Rightarrow> Inl InvalidArgument
        | IsZero \<Rightarrow> CreateFromBinaryString_loop dontCare nextChar rest (appendBit False st)
        | IsOne \<Rightarrow> CreateFromBinaryString_loop dontCare nextChar rest (appendBit True st))
     else if nextChar \<in> set ignored_chars then CreateFromBinaryString_loop dontCare nextChar rest st
     else if nextChar = CHR ''b'' \<or> nextChar = CHR ''B'' then
       (if previousChar \<noteq> CHR 0x5C \<and> previousChar \<noteq> CHR ''/'' then Inl InvalidArgument
        else CreateFromBinaryString_loop dontCare nextChar rest st)
     else Inl InvalidArgument)"

definition skip_prefix :: "char \<Rightarrow> char \<Rightarrow> string \<Rightarrow> string" where
  "skip_prefix lower upper bits =
    (if length bits \<ge> 2 \<and> (bits ! 1 = lower \<or> bits ! 1 = upper) \<and> bits ! 0 = CHR ''0''
     then drop 2 bits else bits)"

definition CreateFromBinaryString ::
    "string option \<Rightarrow> SizeProperty \<Rightarrow> DontCare \<Rightarrow> BinaryVector result" where
  "CreateFromBinaryString view sizeProperty dontCare =
    (case view of
       None \<Rightarrow> Inl InvalidArgument
     | Some bits \<Rightarrow>
        rbind (CreateFromBinaryString_loop dontCare (CHR 0x00)
                 (skip_prefix (CHR ''b'') (CHR ''B'') (dropWhile leading_blank bits))
                 (BinaryVector_empty, 0, 0)) (\<lambda>(res, nextByte, bitCount).
          let res' = (if bitCount \<noteq> 0 then push_byte (push_bit (8 - bitCount) nextByte) bitCount res else res)
          in Inr (res'\<lparr>m_sizeProperty := sizeProperty\<rparr>)))"

text \<open>
  \<^verbatim>\<open>CreateFromDecString\<close>. Skipping leading zeroes calls \<^verbatim>\<open>front()\<close> with no test for an
  exhausted text. The loop state is \<^verbatim>\<open>bitsCount\<close>, \<^verbatim>\<open>parsedDigits\<close>, \<^verbatim>\<open>hasSize\<close>,
  \<^verbatim>\<open>nextMustBe_D\<close> and \<^verbatim>\<open>value\<close>; the letter after a quote leaves \<^verbatim>\<open>hasDigit\<close> set, so it
  counts as a digit zero.
\<close>

fun skip_leading_zeros :: "string \<Rightarrow> bool \<Rightarrow> (string \<times> bool) result" where
  "skip_leading_zeros [] parsedDigits = Inl UndefinedBehaviour"
| "skip_leading_zeros (c # cs) parsedDigits =
    (if c = CHR ''0'' then skip_leading_zeros cs True else Inr (c # cs, parsedDigits))"

definition u64 :: "nat \<Rightarrow> nat" where
  "u64 n = n mod 18446744073709551616"

definition dec_digit :: "nat \<Rightarrow> nat \<Rightarrow> nat result" where
  "dec_digit digit val =
    (if val > 18446744073709551615 div 10 then Inl OutOfRange
     else
      let val10 = u64 (val * 10)
      in if u64 (val10 + digit) < val10 then Inl OutOfRange else Inr (u64 (val10 + digit)))"

fun CreateFromDecString_loop ::
    "string \<Rightarrow> nat \<Rightarrow> bool \<Rightarrow> bool \<Rightarrow> bool \<Rightarrow> nat \<Rightarrow> (nat \<times> bool \<times> bool \<times> nat) result" where
  "CreateFromDecString_loop [] bitsCount parsedDigits hasSize nextMustBe_D val =
    Inr (bitsCount, parsedDigits, hasSize, val)"
| "CreateFromDecString_loop (c # cs) bitsCount parsedDigits hasSize nextMustBe_D val =
    (if nextMustBe_D \<and> c \<noteq> CHR ''d'' \<and> c \<noteq> CHR ''D'' then Inl InvalidArgument
     else if isdigit c then
       rbind (dec_digit (digit_value c) val) (CreateFromDecString_loop cs bitsCount True hasSize nextMustBe_D)
     else if c = CHR 0x27 then
       CheckParameterCondition (\<not> hasSize)
        (if parsedDigits
         then CheckParameterCondition (u32 val \<noteq> 0) (CreateFromDecString_loop cs (u32 val) False True True 0)
         else CreateFromDecString_loop cs bitsCount parsedDigits hasSize True val)
     else if c = CHR ''d'' \<or> c = CHR ''D'' then
       CheckParameterCondition nextMustBe_D
         (rbind (dec_digit 0 val) (CreateFromDecString_loop cs bitsCount True hasSize False))
     else if c \<in> set ignored_chars then
       CreateFromDecString_loop cs bitsCount parsedDigits hasSize nextMustBe_D val
     else Inl InvalidArgument)"

definition CreateFromDecString :: "string option \<Rightarrow> SizeProperty \<Rightarrow> BinaryVector result" where
  "CreateFromDecString view sizeProperty =
    (case view of
       None \<Rightarrow> Inl InvalidArgument
     | Some bits0 \<Rightarrow>
        let bits = TrimLeft bits0
        in if bits = [] then Inr BinaryVector_empty
           else
            let inverted = (hd bits = CHR ''~'');
                bits1 = (if inverted then tl bits else bits)
            in rbind (skip_leading_zeros bits1 False) (\<lambda>(digits, parsedDigits).
               rbind (CreateFromDecString_loop digits 32 parsedDigits False False 0)
                (\<lambda>(bitsCount, parsed, hasSize, val).
                 CheckParameterCondition parsed
                  (let bitsCount' = (if \<not> hasSize \<and> val > 4294967295 then 64 else bitsCount)
                   in rbind (Append_u64 (word_of_nat val) (u8 bitsCount') Right BinaryVector_empty) (\<lambda>res.
                      let res' = res\<lparr>m_sizeProperty := sizeProperty\<rparr>
                      in if inverted then ToggleBits res' else Inr res')))))"

definition hex_value :: "char \<Rightarrow> byte option" where
  "hex_value c =
    (if isdigit c then Some (word_of_nat (digit_value c))
     else if c = CHR ''A'' \<or> c = CHR ''a'' then Some 0xA
     else if c = CHR ''B'' \<or> c = CHR ''b'' then Some 0xB
     else if c = CHR ''C'' \<or> c = CHR ''c'' then Some 0xC
     else if c = CHR ''D'' \<or> c = CHR ''d'' then Some 0xD
     else if c = CHR ''E'' \<or> c = CHR ''e'' then Some 0xE
     else if c = CHR ''F'' \<or> c = CHR ''f'' then Some 0xF
     else None)"

definition appendNibble :: "byte \<Rightarrow> builder \<Rightarrow> builder" where
  "appendNibble val st =
    (case st of (res, nextByte, bitCount) \<Rightarrow>
      let nextByte' = nextByte OR val
      in if bitCount + 4 = 8 then (push_byte nextByte' 8 res, 0, 0)
         else (res, push_bit 4 nextByte', bitCount + 4))"

fun CreateFromHexString_loop :: "DontCare \<Rightarrow> char \<Rightarrow> string \<Rightarrow> builder \<Rightarrow> builder result" where
  "CreateFromHexString_loop dontCare previousChar [] st = Inr st"
| "CreateFromHexString_loop dontCare previousChar (nextChar # rest) st =
    (case hex_value nextChar of
       Some val \<Rightarrow> CreateFromHexString_loop dontCare nextChar rest (appendNibble val st)
     | None \<Rightarrow>
        if nextChar \<in> set ignored_chars then CreateFromHexString_loop dontCare nextChar rest st
        else if nextChar = CHR ''x'' \<or> nextChar = CHR ''X'' then
         (if previousChar = CHR 0x5C \<or> previousChar = CHR ''/''
          then CreateFromHexString_loop dontCare nextChar rest st
          else case dontCare of
              IsError \<Rightarrow> Inl InvalidArgument
            | IsZero \<Rightarrow> CreateFromHexString_loop dontCare nextChar rest (appendNibble 0 st)
            | IsOne \<Rightarrow> CreateFromHexString_loop dontCare nextChar rest (appendNibble 0xF st))
        else Inl InvalidArgument)"

text \<open>The loop over leading blanks of \<^verbatim>\<open>CreateFromHexString\<close> does not test the length.\<close>

fun skip_blanks_unbounded :: "string \<Rightarrow> string result" where
  "skip_blanks_unbounded [] = Inl UndefinedBehaviour"
| "skip_blanks_unbounded (c # cs) =
    (if leading_blank c then skip_blanks_unbounded cs else Inr (c # cs))"

definition CreateFromHexString ::
    "string option \<Rightarrow> SizeProperty \<Rightarrow> DontCare \<Rightarrow> BinaryVector result" where
  "CreateFromHexString view sizeProperty dontCare =
    (case view of
       None \<Rightarrow> Inl InvalidArgument
     | Some bits0 \<Rightarrow>
        rbind (skip_blanks_unbounded bits0) (\<lambda>bits.
        rbind (CreateFromHexString_loop dontCare (CHR 0x00)
                 (skip_prefix (CHR ''x'') (CHR ''X'') bits) (BinaryVector_empty, 0, 0))
         (\<lambda>(res, nextByte, bitCount).
          let res' = (if bitCount \<noteq> 0 then push_byte nextByte bitCount res else res)
          in Inr (res'\<lparr>m_sizeProperty := sizeProperty\<rparr>))))"

section \<open>CreateFromString\<close>

record EncodingInfo =
  base :: NumberBase
  inverted :: bool
  bitsCount :: nat

definition NumberBaseForValuePrefix :: "string \<Rightarrow> NumberBase" where
  "NumberBaseForValuePrefix number =
    (case number of
       [] \<Rightarrow> UndefinedBase
     | baseChar # _ \<Rightarrow>
        if baseChar = CHR ''b'' \<or> baseChar = CHR ''B'' then Binary
        else if baseChar = CHR ''h'' \<or> baseChar = CHR ''H'' \<or> baseChar = CHR ''x'' \<or> baseChar = CHR ''X''
        then Hexadecimal
        else if baseChar = CHR ''d'' \<or> baseChar = CHR ''D'' then Decimal
        else if baseChar = CHR ''o'' \<or> baseChar = CHR ''O'' then Octal
        else UndefinedBase)"

definition icl_encoding :: "bool \<Rightarrow> string \<Rightarrow> nat \<times> nat \<Rightarrow> EncodingInfo \<times> string" where
  "icl_encoding isInverted str parsed =
    (let (count, bitId) = parsed
     in if bitId < length str \<and> str ! bitId = CHR 0x27
        then
         let str' = drop (bitId + 1) str;
             format = NumberBaseForValuePrefix str'
         in (\<lparr>base = format, inverted = isInverted, bitsCount = count\<rparr>,
             if format \<noteq> UndefinedBase then drop 1 str' else str')
        else if count \<noteq> 0
        then (\<lparr>base = Decimal, inverted = isInverted, bitsCount = 0\<rparr>, str)
        else (\<lparr>base = UndefinedBase, inverted = isInverted, bitsCount = count\<rparr>, str))"

definition extractEncodingInfo :: "bool \<Rightarrow> string \<Rightarrow> (EncodingInfo \<times> string) result" where
  "extractEncodingInfo firstChunk stringValue =
    rbind (view_front stringValue) (\<lambda>firstChar.
     if Contains (if firstChunk then [CHR ''0'', CHR ''/'', CHR 0x5C] else [CHR ''/'', CHR 0x5C]) firstChar
     then
      let format = NumberBaseForValuePrefix (drop 1 stringValue)
      in Inr (\<lparr>base = format, inverted = False, bitsCount = 0\<rparr>,
              if format \<noteq> UndefinedBase then drop 2 stringValue else stringValue)
     else
      let isInverted = (firstChar = CHR ''~'');
          str = (if isInverted then drop 1 stringValue else stringValue)
      in if str = [] then Inr (\<lparr>base = UndefinedBase, inverted = isInverted, bitsCount = 0\<rparr>, str)
         else rbind (view_front str) (\<lambda>c.
              rbind (if Contains ''123456789'' c then ToUInt32 str else Inr (0, 0))
                (\<lambda>parsed. Inr (icl_encoding isInverted str parsed))))"

definition find_first_of :: "string \<Rightarrow> string \<Rightarrow> nat option" where
  "find_first_of chars str = find (\<lambda>i. str ! i \<in> set chars) [0..<length str]"

definition getNextChunk :: "bool \<Rightarrow> string \<Rightarrow> (EncodingInfo \<times> string \<times> string) result" where
  "getNextChunk firstChunk stringValue =
    rbind (extractEncodingInfo firstChunk (TrimLeft stringValue)) (\<lambda>(info, str).
      if base info = UndefinedBase then Inr (info, str, str)
      else case find_first_of [CHR ''/'', CHR '','', CHR 0x5C, CHR 0x27] str of
          None \<Rightarrow> Inr (info, str, [])
        | Some offset \<Rightarrow>
            let rest = drop offset str
            in Inr (info, take offset str,
                    if hd rest = CHR '','' then TrimLeft (tl rest) else rest))"

definition chunk_vector :: "EncodingInfo \<Rightarrow> string \<Rightarrow> DontCare \<Rightarrow> BinaryVector result" where
  "chunk_vector info bitsChunk dontCare =
    (case base info of
       Binary \<Rightarrow> CreateFromBinaryString (Some bitsChunk) NotFixed dontCare
     | Hexadecimal \<Rightarrow> CreateFromHexString (Some bitsChunk) NotFixed dontCare
     | Decimal \<Rightarrow> CreateFromDecString (Some bitsChunk) NotFixed
     | Octal \<Rightarrow> Inl InvalidArgument
     | UndefinedBase \<Rightarrow> Inl InvalidArgument)"

text \<open>
  The end of a turn of the loop: the chunk is truncated or extended to its stated size, inverted
  when asked, and appended. Extending appends to the result, before the chunk.
\<close>

definition append_chunk :: "EncodingInfo \<Rightarrow> BinaryVector \<Rightarrow> BinaryVector \<Rightarrow> BinaryVector result" where
  "append_chunk info chunkVector res =
    (let chunkBitsCount = BitsCount chunkVector
     in rbind
         (if bitsCount info \<noteq> 0 \<and> bitsCount info \<noteq> chunkBitsCount then
            if bitsCount info < chunkBitsCount
            then rbind (Slice (chunkBitsCount - bitsCount info) (bitsCount info) chunkVector)
                   (\<lambda>truncated. Inr (truncated, res))
            else rbind (IsNegative chunkVector) (\<lambda>isNegative.
                 rbind (outcome (AppendBits (if inverted info then \<not> isNegative else isNegative)
                                   (bitsCount info - chunkBitsCount) res))
                   (\<lambda>extended. Inr (chunkVector, extended)))
          else Inr (chunkVector, res))
         (\<lambda>(chunk, res').
           rbind (if inverted info then ToggleBits chunk else Inr chunk) (\<lambda>chunk'. Append chunk' res')))"

text \<open>Every turn consumes a non-empty chunk, so the loop ends.\<close>

function (sequential) CreateFromString_loop ::
    "DontCare \<Rightarrow> bool \<Rightarrow> string \<Rightarrow> BinaryVector \<Rightarrow> BinaryVector result" where
  "CreateFromString_loop dontCare firstChunk stringValue res =
    (if stringValue = [] then Inr res
     else case getNextChunk firstChunk stringValue of
         Inl e \<Rightarrow> Inl e
       | Inr (info, bitsChunk, rest) \<Rightarrow>
          if bitsChunk = [] then Inl InvalidArgument
          else case chunk_vector info bitsChunk dontCare of
              Inl e \<Rightarrow> Inl e
            | Inr chunkVector \<Rightarrow>
               (case append_chunk info chunkVector res of
                  Inl e \<Rightarrow> Inl e
                | Inr res' \<Rightarrow> CreateFromString_loop dontCare False rest res'))"
  by pat_completeness auto

lemma TrimLeft_length: "length (TrimLeft s) \<le> length s"
  by (simp add: TrimLeft_dropWhile length_dropWhile_le)

lemma icl_encoding_length: "icl_encoding isInverted s parsed = (info, str) \<Longrightarrow> length str \<le> length s"
  by (cases parsed) (auto simp: icl_encoding_def Let_def split: if_splits)

lemma extractEncodingInfo_length:
  assumes "extractEncodingInfo f s = Inr (info, str)"
  shows "length str \<le> length s"
proof -
  obtain c where c: "view_front s = Inr c"
    using assms by (auto simp: extractEncodingInfo_def rbind_Inr_iff)
  define str0 where "str0 = (if c = CHR ''~'' then drop 1 s else s)"
  have l0: "length str0 \<le> length s" by (simp add: str0_def)
  show ?thesis
  proof (cases "Contains (if f then [CHR ''0'', CHR ''/'', CHR 0x5C] else [CHR ''/'', CHR 0x5C]) c")
    case True
    then show ?thesis
      using assms unfolding extractEncodingInfo_def c rbind_Inr Let_def if_P [OF True] by auto
  next
    case False
    show ?thesis
      using assms l0
      unfolding extractEncodingInfo_def c rbind_Inr Let_def if_not_P [OF False] str0_def [symmetric]
      by (cases "str0 = []") (auto simp: rbind_Inr_iff dest!: icl_encoding_length)
  qed
qed

lemma getNextChunk_progress:
  assumes "getNextChunk f s = Inr (info, chunk, rest)" and "chunk \<noteq> []" and "base info \<noteq> UndefinedBase"
  shows "length rest < length s"
proof -
  obtain str where str: "extractEncodingInfo f (TrimLeft s) = Inr (info, str)"
    using assms(1) by (auto simp: getNextChunk_def rbind_Inr_iff Let_def split: prod.splits if_splits option.splits)
  have le: "length str \<le> length s"
    using extractEncodingInfo_length [OF str] TrimLeft_length [of s] by simp
  show ?thesis
  proof (cases "find_first_of [CHR ''/'', CHR '','', CHR 0x5C, CHR 0x27] str")
    case None
    then have "chunk = str" "rest = []" using assms str by (auto simp: getNextChunk_def)
    then show ?thesis using assms(2) le by (cases str) auto
  next
    case (Some offset)
    then have eq: "chunk = take offset str"
      "rest = (if hd (drop offset str) = CHR '','' then TrimLeft (tl (drop offset str)) else drop offset str)"
      using assms str by (auto simp: getNextChunk_def Let_def)
    have "length rest \<le> length (drop offset str)"
      unfolding eq(2) using TrimLeft_length [of "tl (drop offset str)"] by (auto simp: le_diff_conv)
    moreover have "0 < offset" "str \<noteq> []" using assms(2) eq(1) by auto
    ultimately show ?thesis using le by (cases str) auto
  qed
qed

termination CreateFromString_loop
  by (relation "measure (\<lambda>(_, _, s, _). length s)")
    (auto intro!: getNextChunk_progress simp: chunk_vector_def)

declare CreateFromString_loop.simps [simp del]

definition CreateFromString :: "string option \<Rightarrow> SizeProperty \<Rightarrow> DontCare \<Rightarrow> BinaryVector result" where
  "CreateFromString view sizeProperty dontCare =
    (case view of
       None \<Rightarrow> Inl InvalidArgument
     | Some str0 \<Rightarrow>
        let str = TrimLeft str0
        in if str = [] then Inr BinaryVector_empty
           else rbind (CreateFromString_loop dontCare True (dropWhile leading_blank str) BinaryVector_empty)
                 (\<lambda>res. Inr (res\<lparr>m_sizeProperty := sizeProperty\<rparr>)))"

end
