(* ===== verification/Binary_Text.thy ===== *)
theory Binary_Text
  imports BV_Text
begin

text \<open>The bits a binary text denotes: its digits, ignorable characters left out.\<close>

definition bin_char :: "char \<Rightarrow> bool" where
  "bin_char c = (c = CHR ''0'' \<or> c = CHR ''1'')"

definition text_bits :: "string \<Rightarrow> bool list" where
  "text_bits s = map (\<lambda>c. c = CHR ''1'') (filter bin_char s)"

definition binary_text :: "string \<Rightarrow> bool" where
  "binary_text s = (\<forall>c \<in> set s. bin_char c \<or> c \<in> set ignored_chars)"

lemma text_bits_simps [simp]:
  "text_bits [] = []" "text_bits (s @ t) = text_bits s @ text_bits t"
  "text_bits (c # s) = (if bin_char c then (c = CHR ''1'') # text_bits s else text_bits s)"
  by (simp_all add: text_bits_def)

lemma binary_text_simps [simp]:
  "binary_text []" "binary_text (s @ t) \<longleftrightarrow> binary_text s \<and> binary_text t"
  "binary_text (c # s) \<longleftrightarrow> (bin_char c \<or> c \<in> set ignored_chars) \<and> binary_text s"
  by (auto simp: binary_text_def)

lemma length_text_bits: "length (text_bits s) \<le> length s"
  by (simp add: text_bits_def)

lemma ignored_text_bits: "set s \<subseteq> set ignored_chars \<Longrightarrow> text_bits s = [] \<and> binary_text s"
  by (induction s) (auto simp: bin_char_def ignored_chars_def)

text \<open>What the state of the binary parser represents.\<close>

definition bin_rep :: "bool list \<Rightarrow> builder \<Rightarrow> bool" where
  "bin_rep xs st =
    (case st of (v, nextByte, bitCount) \<Rightarrow>
      \<exists>fs rs. xs = fs @ rs \<and> length fs mod 8 = 0 \<and> length rs = bitCount \<and> bitCount < 8
        \<and> v = bv_make fs NotFixed \<and> byte_bits nextByte = replicate (8 - bitCount) False @ rs)"

lemma push_byte_make:
  assumes "length fs mod 8 = 0" and "length rs \<le> 8" and "rs \<noteq> []" and "byte_bits b = rs @ replicate (8 - length rs) False"
    and "length fs + length rs < 4294967296"
  shows "push_byte b (length rs) (bv_make fs p) = bv_make (fs @ rs) p"
proof -
  have "byte_bits (byte_of_bits rs) = rs @ replicate (8 - length rs) False"
    using assms(2) by (simp add: byte_bits_of_bits min_def)
  then have "b = byte_of_bits rs" using assms(4) byte_bits_inject [of b "byte_of_bits rs"] by simp
  then show ?thesis
    using assms by (simp add: push_byte_def bv_make_def pack_append pack_short)
qed

lemma byte_bits_push_or: "byte_bits (push_bit 1 b OR of_bool x) = drop 1 (byte_bits b) @ [x]"
  unfolding byte_bits_def bit_or_iff bit_push_bit_iff bit_of_bool_iff by simp

lemma appendBit_rep:
  assumes "bin_rep xs st" and "length xs < 4294967295"
  shows "bin_rep (xs @ [x]) (appendBit x st)"
proof -
  obtain v nb c where st: "st = (v, nb, c)" by (cases st)
  obtain fs rs where r: "xs = fs @ rs" "length fs mod 8 = 0" "length rs = c" "c < 8" "v = bv_make fs NotFixed"
    "byte_bits nb = replicate (8 - c) False @ rs"
    using assms(1) by (auto simp: bin_rep_def st)
  let ?nb = "push_bit 1 nb OR of_bool x"
  have nb: "byte_bits ?nb = replicate (8 - (c + 1)) False @ rs @ [x]"
    unfolding byte_bits_push_or using r by (simp add: drop_append)
  show ?thesis
  proof (cases "c + 1 = 8")
    case True
    then have "push_byte ?nb 8 v = bv_make (xs @ [x]) NotFixed"
      using push_byte_make [of fs "rs @ [x]" ?nb NotFixed] r nb assms(2) by simp
    then show ?thesis
      using True r by (auto simp: appendBit_def st bin_rep_def)
  next
    case False
    then show ?thesis
      using r nb by (auto simp: appendBit_def st bin_rep_def intro!: exI [of _ fs] exI [of _ "rs @ [x]"])
  qed
qed

lemma bin_char_not_special: "bin_char c \<Longrightarrow> c = CHR ''0'' \<or> c = CHR ''1''"
  by (simp add: bin_char_def)

lemma ignored_not_digit: "c \<in> set ignored_chars \<Longrightarrow> c \<noteq> CHR ''0'' \<and> c \<noteq> CHR ''1'' \<and> c \<noteq> CHR ''x'' \<and> c \<noteq> CHR ''X''
   \<and> c \<noteq> CHR ''b'' \<and> c \<noteq> CHR ''B'' \<and> \<not> bin_char c"
  by (auto simp: ignored_chars_def bin_char_def)

lemma CreateFromBinaryString_loop_rep:
  "binary_text s \<Longrightarrow> bin_rep xs st \<Longrightarrow> length xs + length (text_bits s) < 4294967296 \<Longrightarrow>
   \<exists>st'. CreateFromBinaryString_loop dc prev s st = Inr st' \<and> bin_rep (xs @ text_bits s) st'"
proof (induction s arbitrary: prev xs st)
  case (Cons c s)
  show ?case
  proof (cases "bin_char c")
    case True
    let ?st = "appendBit (c = CHR ''1'') st"
    have "bin_rep (xs @ [c = CHR ''1'']) ?st" using Cons.prems True by (intro appendBit_rep) simp_all
    then obtain st' where "CreateFromBinaryString_loop dc c s ?st = Inr st'"
      "bin_rep ((xs @ [c = CHR ''1'']) @ text_bits s) st'"
      using Cons.IH [of "xs @ [c = CHR ''1'']" ?st c] Cons.prems True by auto
    then show ?thesis using bin_char_not_special [OF True] by (elim disjE) (simp_all add: bin_char_def)
  next
    case False
    then have "c \<in> set ignored_chars" using Cons.prems(1) by simp
    then show ?thesis
      using Cons.IH [of xs st c] Cons.prems ignored_not_digit [of c] False by simp
  qed
qed simp

lemma skip_prefix_binary_text: "binary_text s \<Longrightarrow> skip_prefix (CHR ''b'') (CHR ''B'') s = s"
proof -
  assume s: "binary_text s"
  have "s ! 1 \<noteq> CHR ''b'' \<and> s ! 1 \<noteq> CHR ''B''" if "2 \<le> length s"
  proof -
    have "s ! 1 \<in> set s" using that by (intro nth_mem) simp
    then have "bin_char (s ! 1) \<or> s ! 1 \<in> set ignored_chars" using s by (simp add: binary_text_def)
    then show ?thesis using ignored_not_digit [of "s ! 1"] by (auto simp: bin_char_def)
  qed
  then show ?thesis by (auto simp: skip_prefix_def)
qed

lemma dropWhile_blank_text:
  "text_bits (dropWhile leading_blank s) = text_bits s" "binary_text s \<Longrightarrow> binary_text (dropWhile leading_blank s)"
  by (induction s) (auto simp: leading_blank_def bin_char_def)

lemma CreateFromBinaryString_core:
  assumes "binary_text s" and "length (text_bits s) < 4294967296"
  shows "rbind (CreateFromBinaryString_loop dc prev s (BinaryVector_empty, 0, 0)) (\<lambda>(res, nextByte, bitCount).
          let res' = (if bitCount \<noteq> 0 then push_byte (push_bit (8 - bitCount) nextByte) bitCount res else res)
          in Inr (res'\<lparr>m_sizeProperty := sp\<rparr>)) = Inr (bv_make (text_bits s) sp)"
proof -
  have "bin_rep [] (BinaryVector_empty, 0, 0)" by (simp add: bin_rep_def BinaryVector_empty_make)
  then obtain v nb c where st: "CreateFromBinaryString_loop dc prev s (BinaryVector_empty, 0, 0) = Inr (v, nb, c)"
    "bin_rep (text_bits s) (v, nb, c)"
    using CreateFromBinaryString_loop_rep [OF assms(1), of "[]" _ dc prev] assms(2) by force
  then obtain fs rs where r: "text_bits s = fs @ rs" "length fs mod 8 = 0" "length rs = c" "c < 8" "v = bv_make fs NotFixed"
    "byte_bits nb = replicate (8 - c) False @ rs"
    by (auto simp: bin_rep_def)
  show ?thesis
  proof (cases "c = 0")
    case True
    then show ?thesis using st(1) r by simp
  next
    case False
    have "byte_bits (push_bit (8 - c) nb) = rs @ replicate (8 - c) False"
      using r(3,4,6) False byte_shift_last [of "8 - c" nb] by simp
    then have "push_byte (push_bit (8 - c) nb) c v = bv_make (fs @ rs) NotFixed"
      using push_byte_make [of fs rs "push_bit (8 - c) nb" NotFixed] r False assms(2)
      by auto
    then show ?thesis using st(1) r(1) False by simp
  qed
qed

lemma CreateFromBinaryString_eq:
  assumes "binary_text s" and "length (text_bits s) < 4294967296"
  shows "CreateFromBinaryString (Some s) sp dc = Inr (bv_make (text_bits s) sp)"
    and "CreateFromBinaryString (Some (''0b'' @ s)) sp dc = Inr (bv_make (text_bits s) sp)"
proof -
  let ?s = "dropWhile leading_blank s"
  have "length (text_bits ?s) < 4294967296" using assms(2) dropWhile_blank_text(1) [of s] by simp
  then show "CreateFromBinaryString (Some s) sp dc = Inr (bv_make (text_bits s) sp)"
    using CreateFromBinaryString_core [of ?s dc "CHR 0x00" sp] dropWhile_blank_text [of s] assms(1)
    by (simp add: CreateFromBinaryString_def skip_prefix_binary_text)
  have "dropWhile leading_blank (''0b'' @ s) = ''0b'' @ s" by (simp add: leading_blank_def)
  moreover have "skip_prefix (CHR ''b'') (CHR ''B'') (''0b'' @ s) = s" by (simp add: skip_prefix_def)
  ultimately show "CreateFromBinaryString (Some (''0b'' @ s)) sp dc = Inr (bv_make (text_bits s) sp)"
    using CreateFromBinaryString_core [OF assms, of dc "CHR 0x00" sp]
    by (simp only: CreateFromBinaryString_def option.case)
qed

section \<open>Binary text of a vector\<close>

lemma nibble_strings:
  "text_bits (BINARY_NIBBLES ! unat (drop_bit 4 b)) = take 4 (byte_bits b)"
  "text_bits (BINARY_NIBBLES ! unat (b AND 0x0F)) = drop 4 (byte_bits b)"
  "list_all bin_char (BINARY_NIBBLES ! unat (drop_bit 4 b))" "list_all bin_char (BINARY_NIBBLES ! unat (b AND 0x0F))"
  "length (BINARY_NIBBLES ! unat (drop_bit 4 b)) = 4" "length (BINARY_NIBBLES ! unat (b AND 0x0F)) = 4"
proof -
  obtain b7 b6 b5 b4 b3 b2 b1 b0 where "byte_bits b = [b7, b6, b5, b4, b3, b2, b1, b0]"
    by (simp add: byte_bits_def)
  then have b: "b = byte_of_bits [b7, b6, b5, b4, b3, b2, b1, b0]"
    by (metis byte_of_bits_byte_bits)
  show "text_bits (BINARY_NIBBLES ! unat (drop_bit 4 b)) = take 4 (byte_bits b)"
    and "list_all bin_char (BINARY_NIBBLES ! unat (drop_bit 4 b))"
    and "length (BINARY_NIBBLES ! unat (drop_bit 4 b)) = 4"
    unfolding b
    by (cases b7; cases b6; cases b5; cases b4; cases b3; cases b2; cases b1; cases b0;
        simp add: byte_of_bits_def byte_bits_def BINARY_NIBBLES_def bin_char_def)+
  show "text_bits (BINARY_NIBBLES ! unat (b AND 0x0F)) = drop 4 (byte_bits b)"
    and "list_all bin_char (BINARY_NIBBLES ! unat (b AND 0x0F))"
    and "length (BINARY_NIBBLES ! unat (b AND 0x0F)) = 4"
    unfolding b
    by (cases b7; cases b6; cases b5; cases b4; cases b3; cases b2; cases b1; cases b0;
        simp add: byte_of_bits_def byte_bits_def BINARY_NIBBLES_def bin_char_def)+
qed

lemma all_bin_text: "list_all bin_char s \<Longrightarrow> text_bits (take n s) = take n (text_bits s) \<and> binary_text (take n s)"
proof (induction s arbitrary: n)
  case (Cons c s)
  then show ?case by (cases n) auto
qed simp

text \<open>
  Separators a printer may insert so that the parser ignores them; the end-of-line separator is
  only written when \<^verbatim>\<open>bytesPerLine\<close> is not zero.
\<close>

definition ignorable :: "string \<Rightarrow> string \<Rightarrow> nat \<Rightarrow> string \<Rightarrow> bool" where
  "ignorable q oc bpl eol \<longleftrightarrow>
    set q \<subseteq> set ignored_chars \<and> set oc \<subseteq> set ignored_chars \<and> (bpl = 0 \<or> set eol \<subseteq> set ignored_chars)"

definition prints :: "(string \<Rightarrow> bool) \<Rightarrow> (string \<Rightarrow> bool list) \<Rightarrow> bool list \<Rightarrow> nat \<Rightarrow> printer \<Rightarrow> printer \<Rightarrow> bool" where
  "prints ok val bs k st st' \<longleftrightarrow>
    (\<exists>t. fst st' = fst st @ t \<and> ok t \<and> val t = bs) \<and> snd (snd st') \<le> snd (snd st) + k"

lemma prints_mono: "prints ok val bs k st st' \<Longrightarrow> k \<le> l \<Longrightarrow> prints ok val bs l st st'"
  by (auto simp: prints_def)

text \<open>
  What a reading of digit texts (the accepted texts and the bits they denote) promises the
  printers: it is compatible with concatenation and blind to ignorable characters.
\<close>

locale text_reading =
  fixes ok :: "string \<Rightarrow> bool" and val :: "string \<Rightarrow> bool list"
  assumes ok_append: "ok (s @ t) \<longleftrightarrow> ok s \<and> ok t"
    and val_append: "val (s @ t) = val s @ val t"
    and ignored: "set s \<subseteq> set ignored_chars \<Longrightarrow> ok s \<and> val s = []"
begin

lemma prints_refl: "prints ok val [] 0 st st"
  using ignored [of "[]"] by (auto simp: prints_def intro: exI [of _ "[]"])

lemma prints_trans:
  assumes "prints ok val bs k st st'" and "prints ok val cs l st' st''"
  shows "prints ok val (bs @ cs) (k + l) st st''"
proof -
  obtain t u where "fst st' = fst st @ t" "ok t" "val t = bs" "fst st'' = fst st' @ u" "ok u" "val u = cs"
    using assms by (auto simp: prints_def)
  then have "fst st'' = fst st @ (t @ u) \<and> ok (t @ u) \<and> val (t @ u) = bs @ cs"
    by (simp add: ok_append val_append)
  then show ?thesis
    using assms unfolding prints_def by (intro conjI exI [of _ "t @ u"]) (simp_all add: prints_def)
qed

text \<open>A separator made of ignorable characters, then a nibble.\<close>

lemma prints_nibble:
  assumes "fst st' = fst st @ sep @ nib" and "set sep \<subseteq> set ignored_chars" and "ok nib"
    and "snd (snd st') \<le> snd (snd st) + k"
  shows "prints ok val (val nib) k st st'"
  using assms ignored [of sep] by (auto simp: prints_def ok_append val_append intro!: exI [of _ "sep @ nib"])

end

interpretation binary: text_reading binary_text text_bits
  by unfold_locales (auto simp: ignored_text_bits)

lemma newline_ignored: "CHR 0x0A \<in> set ignored_chars"
  by (simp add: ignored_chars_def)

lemma appendNibble_binary_prints:
  assumes "ignorable q oc bpl eol" and "binary_text nib" and "snd (snd st) + 1 < 4294967296"
  shows "prints binary_text text_bits (text_bits nib) 1 st (appendNibble_binary q oc bpl eol nib st)"
proof -
  obtain os n k where st: "st = (os, n, k)" by (cases st)
  have sep: "set q \<subseteq> set ignored_chars" "set oc \<subseteq> set ignored_chars"
    "bpl \<noteq> 0 \<Longrightarrow> set (eol @ [CHR 0x0A]) \<subseteq> set ignored_chars"
    using assms(1) newline_ignored by (auto simp: ignorable_def)
  consider "n = 1" | "n = 2" "k + 1 = bpl" | "n = 2" "k + 1 \<noteq> bpl" | "n \<noteq> 1" "n \<noteq> 2" by blast
  then show ?thesis
  proof cases
    case 1
    then show ?thesis using sep assms(2)
      by (intro binary.prints_nibble [of _ _ q]) (simp_all add: st appendNibble_binary_def)
  next
    case 2
    then show ?thesis using sep assms(2,3)
      by (intro binary.prints_nibble [of _ _ "eol @ [CHR 0x0A]"]) (simp_all add: st appendNibble_binary_def)
  next
    case 3
    then show ?thesis using sep assms(2,3)
      by (intro binary.prints_nibble [of _ _ oc]) (simp_all add: st appendNibble_binary_def)
  next
    case 4
    then show ?thesis using assms(2)
      by (intro binary.prints_nibble [of _ _ "[]"]) (simp_all add: st appendNibble_binary_def)
  qed
qed

lemma all_bin_binary_text: "list_all bin_char s \<Longrightarrow> binary_text s"
  by (auto simp: binary_text_def list_all_iff)

lemma appendBits_text_prints:
  assumes "ignorable q oc bpl eol" and "snd (snd st) + 1 < 4294967296"
    and "list_all bin_char (BINARY_NIBBLES ! unat b)"
  shows "prints binary_text text_bits (take n (text_bits (BINARY_NIBBLES ! unat b))) 1 st (appendBits_text q oc bpl eol b n st)"
proof (cases "n = 0")
  case True
  then show ?thesis by (auto simp: appendBits_text_def prints_def intro: exI [of _ "[]"])
next
  case False
  then show ?thesis
    using appendNibble_binary_prints [OF assms(1) _ assms(2), of "take n (BINARY_NIBBLES ! unat b)"]
      all_bin_text [OF assms(3), of n]
    by (simp add: appendBits_text_def)
qed

lemma upper_nibble: "drop_bit 4 b AND 0x0F = drop_bit 4 (b :: byte)"
proof (rule byte_eqI)
  fix i :: nat assume "i < 8"
  have "(0x0F :: byte) = mask 4" by (simp add: mask_numeral)
  then show "bit (drop_bit 4 b AND 0x0F) i = bit (drop_bit 4 b) i"
    by (simp only: bit_and_iff bit_drop_bit_eq bit_mask_iff) (auto dest: bit_imp_le_length)
qed

lemma DataAsBinaryString_loop_prints:
  assumes ign: "ignorable q oc bpl eol"
  shows "length data = (n + 7) div 8 \<Longrightarrow> snd (snd st) + 2 * length data < 4294967296 \<Longrightarrow>
    prints binary_text text_bits (take n (data_bits data)) (2 * length data) st (DataAsBinaryString_loop q oc bpl eol data n st)"
proof (induction data arbitrary: n st)
  case Nil
  then show ?case by (simp add: binary.prints_refl)
next
  case (Cons b data)
  let ?hi = "BINARY_NIBBLES ! unat (drop_bit 4 b)" and ?lo = "BINARY_NIBBLES ! unat (b AND 0x0F)"
  note nib = nibble_strings [of b]
  define st1 where "st1 = appendNibble_binary q oc bpl eol ?hi st"
  have hi: "prints binary_text text_bits (take 4 (byte_bits b)) 1 st st1"
    using appendNibble_binary_prints [OF ign all_bin_binary_text [OF nib(3)], of st] Cons.prems(2) nib(1)
    by (simp add: st1_def)
  then have c1: "snd (snd st1) + 1 < 4294967296" "snd (snd st1) \<le> snd (snd st) + 1"
    using Cons.prems(2) by (auto simp: prints_def)
  consider "8 \<le> n" | "4 \<le> n" "n < 8" | "n < 4" by linarith
  then show ?case
  proof cases
    case 1
    let ?st2 = "appendNibble_binary q oc bpl eol ?lo st1"
    have lo: "prints binary_text text_bits (drop 4 (byte_bits b)) 1 st1 ?st2"
      using appendNibble_binary_prints [OF ign all_bin_binary_text [OF nib(4)] c1(1)] nib(2) by simp
    then have "snd (snd ?st2) \<le> snd (snd st) + 2" using c1(2) by (auto simp: prints_def)
    then have "prints binary_text text_bits (take (n - 8) (data_bits data)) (2 * length data) ?st2
        (DataAsBinaryString_loop q oc bpl eol data (n - 8) ?st2)"
      using Cons.prems 1 by (intro Cons.IH) auto
    then have "prints binary_text text_bits (take 4 (byte_bits b) @ drop 4 (byte_bits b) @ take (n - 8) (data_bits data))
        (1 + (1 + 2 * length data)) st (DataAsBinaryString_loop q oc bpl eol data (n - 8) ?st2)"
      using hi lo by (blast intro: binary.prints_trans)
    moreover have "take 4 (byte_bits b) @ drop 4 (byte_bits b) @ take (n - 8) (data_bits data)
        = take n (data_bits (b # data))"
      using 1 by (simp flip: append_assoc)
    ultimately show ?thesis using 1 by (simp add: st1_def)
  next
    case 2
    then have "data = []" using Cons.prems(1) by (cases data) auto
    moreover have "prints binary_text text_bits (take (n - 4) (drop 4 (byte_bits b))) 1 st1
        (appendBits_text q oc bpl eol (b AND 0x0F) (n - 4) st1)"
      using appendBits_text_prints [OF ign c1(1) nib(4), of "n - 4"] nib(2) by simp
    then have "prints binary_text text_bits (take 4 (byte_bits b) @ take (n - 4) (drop 4 (byte_bits b))) (1 + 1) st
        (appendBits_text q oc bpl eol (b AND 0x0F) (n - 4) st1)"
      using hi by (blast intro: binary.prints_trans)
    moreover have "take 4 (byte_bits b) @ take (n - 4) (drop 4 (byte_bits b)) = take n (byte_bits b)"
      using 2 take_add [of 4 "n - 4" "byte_bits b"] by simp
    ultimately show ?thesis using 2 by (auto simp: st1_def intro: prints_mono)
  next
    case 3
    then have "data = []" using Cons.prems(1) by (cases data) auto
    moreover have "prints binary_text text_bits (take n (take 4 (byte_bits b))) 1 st
        (appendBits_text q oc bpl eol (drop_bit 4 b) n st)"
      using appendBits_text_prints [OF ign _ nib(3), of st n] nib(1) Cons.prems(2) by simp
    moreover have "take n (take 4 (byte_bits b)) = take n (byte_bits b)" using 3 by (simp add: min_def)
    ultimately show ?thesis using 3 by (auto simp: upper_nibble intro: prints_mono)
  qed
qed

lemma DataAsBinaryString_text:
  assumes "ignorable q oc bpl eol" and "length bs < 4294967296"
  shows "\<exists>t. DataAsBinaryString q oc bpl eol pre (bv_make bs p) = (if pre then ''0b'' else []) @ t
    \<and> binary_text t \<and> text_bits t = bs"
proof -
  have "2 * length (pack bs) < 4294967296" using assms(2) by (simp add: length_pack)
  then show ?thesis
    using DataAsBinaryString_loop_prints [OF assms(1), of "pack bs" "length bs" "(if pre then ''0b'' else [], 0, 0)"]
    by (auto simp: DataAsBinaryString_def prints_def length_pack data_bits_pack)
qed

lemma binary_roundtrip:
  assumes "ignorable q oc bpl eol" and "length bs < 4294967296"
  shows "CreateFromBinaryString (Some (DataAsBinaryString q oc bpl eol pre (bv_make bs p))) sp dc
    = Inr (bv_make bs sp)"
proof -
  obtain t where "DataAsBinaryString q oc bpl eol pre (bv_make bs p) = (if pre then ''0b'' else []) @ t"
    "binary_text t" "text_bits t = bs"
    using DataAsBinaryString_text [OF assms, of pre p] by blast
  then show ?thesis
    using CreateFromBinaryString_eq [of t sp dc] assms(2) by (cases pre) simp_all
qed

end
