(* ===== verification/Hex_Text.thy ===== *)
theory Hex_Text
  imports Binary_Text
begin

text \<open>
  Hexadecimal text of a \<^verbatim>\<open>BinaryVector\<close>: what \<^verbatim>\<open>DataAsHexString\<close> prints is read back by
  \<^verbatim>\<open>CreateFromHexString\<close> as the same bits, padded with zeroes to whole digits.
\<close>

definition hex_digit :: "char \<Rightarrow> bool" where
  "hex_digit c = (hex_value c \<noteq> None)"

definition nibble_of :: "char \<Rightarrow> bool list" where
  "nibble_of c = (case hex_value c of None \<Rightarrow> [] | Some v \<Rightarrow> drop 4 (byte_bits v))"

definition hex_text :: "string \<Rightarrow> bool" where
  "hex_text s = (\<forall>c \<in> set s. hex_digit c \<or> c \<in> set ignored_chars)"

definition hex_bits :: "string \<Rightarrow> bool list" where
  "hex_bits s = concat (map nibble_of s)"

lemma hex_bits_simps [simp]:
  "hex_bits [] = []" "hex_bits (s @ t) = hex_bits s @ hex_bits t" "hex_bits (c # s) = nibble_of c @ hex_bits s"
  by (simp_all add: hex_bits_def)

lemma hex_text_simps [simp]:
  "hex_text []" "hex_text (s @ t) \<longleftrightarrow> hex_text s \<and> hex_text t"
  "hex_text (c # s) \<longleftrightarrow> (hex_digit c \<or> c \<in> set ignored_chars) \<and> hex_text s"
  by (auto simp: hex_text_def)

lemma hex_value_less: "hex_value c = Some v \<Longrightarrow> v AND 0x0F = v"
proof -
  have digit: "(word_of_nat (digit_value c) :: byte) AND 0x0F = word_of_nat (digit_value c)" if "isdigit c"
  proof -
    have "digit_value c \<in> {0, 1, 2, 3, 4, 5, 6, 7, 8, 9}"
      using digit_value_le [OF that] by auto
    then show ?thesis by (elim insertE) simp_all
  qed
  assume "hex_value c = Some v"
  then show ?thesis using digit by (auto simp: hex_value_def split: if_splits)
qed

lemma length_nibble_of: "hex_digit c \<Longrightarrow> length (nibble_of c) = 4"
  by (auto simp: nibble_of_def hex_digit_def)

lemma hex_value_bits:
  assumes "hex_value c = Some v"
  shows "byte_bits v = replicate 4 False @ nibble_of c"
proof -
  have m: "v AND mask 4 = v" using hex_value_less [OF assms] by (simp add: mask_numeral)
  have "\<not> bit v i" if "4 \<le> i" for i
  proof -
    have "bit v i = bit (v AND mask 4) i" by (simp add: m)
    then show ?thesis using that by (simp add: bit_simps)
  qed
  then show ?thesis
    using assms by (intro nth_equalityI) (auto simp: nibble_of_def byte_bits_nth nth_append)
qed

lemma ignored_not_hex: "c \<in> set ignored_chars \<Longrightarrow> hex_value c = None \<and> c \<noteq> CHR ''x'' \<and> c \<noteq> CHR ''X'' \<and> nibble_of c = []"
proof -
  assume c: "c \<in> set ignored_chars"
  have "list_all (\<lambda>c. hex_value c = None \<and> c \<noteq> CHR ''x'' \<and> c \<noteq> CHR ''X'') ignored_chars"
    by code_simp
  then have "hex_value c = None \<and> c \<noteq> CHR ''x'' \<and> c \<noteq> CHR ''X''"
    using c unfolding list_all_iff by blast
  then show ?thesis by (simp add: nibble_of_def)
qed

interpretation hex: text_reading hex_text hex_bits
proof unfold_locales
  fix s assume "set s \<subseteq> set ignored_chars"
  then show "hex_text s \<and> hex_bits s = []"
    by (induction s) (auto simp: ignored_not_hex)
qed simp_all

text \<open>What the state of the hexadecimal parser represents.\<close>

definition hex_rep :: "bool list \<Rightarrow> builder \<Rightarrow> bool" where
  "hex_rep xs st =
    (case st of (v, nextByte, bitCount) \<Rightarrow>
      \<exists>fs rs. xs = fs @ rs \<and> length fs mod 8 = 0 \<and> length rs = bitCount \<and> (bitCount = 0 \<or> bitCount = 4)
        \<and> v = bv_make fs NotFixed \<and> byte_bits nextByte = rs @ replicate (8 - bitCount) False)"

lemma or_nibble:
  assumes "byte_bits b = rs @ replicate 4 False" and "byte_bits v = replicate 4 False @ ns"
  shows "byte_bits (b OR v) = rs @ ns"
proof -
  have "length rs = 4" "length ns = 4"
    using arg_cong [OF assms(1), of length] arg_cong [OF assms(2), of length] by simp_all
  then show ?thesis
  proof (intro nth_equalityI)
    fix i assume i: "i < length (byte_bits (b OR v))"
    then have "byte_bits (b OR v) ! i = (byte_bits b ! i \<or> byte_bits v ! i)"
      by (simp add: byte_bits_nth bit_simps)
    then show "byte_bits (b OR v) ! i = (rs @ ns) ! i"
      using i \<open>length rs = 4\<close> unfolding assms by (auto simp: nth_append)
  qed simp
qed

lemma byte_bits_push4: "byte_bits (push_bit 4 b) = drop 4 (byte_bits b) @ replicate 4 False"
  using byte_shift_last [of 4 b] by simp

lemma appendNibble_rep:
  assumes "hex_rep xs st" and "byte_bits v = replicate 4 False @ ns" and "length xs + 4 < 4294967296"
  shows "hex_rep (xs @ ns) (appendNibble v st)"
proof -
  obtain w nb c where st: "st = (w, nb, c)" by (cases st)
  obtain fs rs where r: "xs = fs @ rs" "length fs mod 8 = 0" "length rs = c" "c = 0 \<or> c = 4" "w = bv_make fs NotFixed"
    "byte_bits nb = rs @ replicate (8 - c) False"
    using assms(1) by (auto simp: hex_rep_def st)
  have ns: "length ns = 4" using arg_cong [OF assms(2), of length] by simp
  show ?thesis
  proof (cases "c = 0")
    case True
    then have "nb = 0" using r(3,6) byte_bits_inject [of nb 0] by simp
    moreover have "byte_bits (push_bit 4 v) = ns @ replicate 4 False"
      unfolding byte_bits_push4 assms(2) by simp
    ultimately show ?thesis
      using True r ns by (auto simp: appendNibble_def st hex_rep_def intro!: exI [of _ fs] exI [of _ ns])
  next
    case False
    then have c: "c = 4" using r(4) by simp
    then have "byte_bits (nb OR v) = rs @ ns" using r(6) assms(2) by (intro or_nibble) simp_all
    then have "push_byte (nb OR v) 8 w = bv_make (xs @ ns) NotFixed"
    proof -
      have "length (rs @ ns) = 8" "rs @ ns \<noteq> []" using r(3) c ns by auto
      then show ?thesis
        using push_byte_make [of fs "rs @ ns" "nb OR v" NotFixed] r(1,2,5) assms(3) ns
          \<open>byte_bits (nb OR v) = rs @ ns\<close> by auto
    qed
    then show ?thesis
      using c r ns by (auto simp: appendNibble_def st hex_rep_def)
  qed
qed

lemma CreateFromHexString_loop_rep:
  "hex_text s \<Longrightarrow> hex_rep xs st \<Longrightarrow> length xs + length (hex_bits s) < 4294967296 \<Longrightarrow>
   \<exists>st'. CreateFromHexString_loop dc prev s st = Inr st' \<and> hex_rep (xs @ hex_bits s) st'"
proof (induction s arbitrary: prev xs st)
  case (Cons c s)
  show ?case
  proof (cases "hex_value c")
    case (Some v)
    then have d: "hex_digit c" "byte_bits v = replicate 4 False @ nibble_of c" "length (nibble_of c) = 4"
      using hex_value_bits [OF Some] length_nibble_of by (auto simp: hex_digit_def)
    have "hex_rep (xs @ nibble_of c) (appendNibble v st)"
      using Cons.prems d by (intro appendNibble_rep) simp_all
    moreover have "length (xs @ nibble_of c) + length (hex_bits s) < 4294967296" using Cons.prems(3) by simp
    ultimately obtain st' where "CreateFromHexString_loop dc c s (appendNibble v st) = Inr st'"
      "hex_rep ((xs @ nibble_of c) @ hex_bits s) st'"
      using Cons.IH [of "xs @ nibble_of c" "appendNibble v st" c] Cons.prems(1) by auto
    then show ?thesis using Some by simp
  next
    case None
    then have "c \<in> set ignored_chars" using Cons.prems(1) by (auto simp: hex_digit_def)
    then show ?thesis
      using Cons.IH [of xs st c] Cons.prems ignored_not_hex [of c] None by simp
  qed
qed simp

lemma skip_blanks_eq:
  "skip_blanks_unbounded s
   = (if dropWhile leading_blank s = [] then Inl UndefinedBehaviour else Inr (dropWhile leading_blank s))"
  by (induction s) auto

lemma skip_prefix_hex_text: "hex_text s \<Longrightarrow> skip_prefix (CHR ''x'') (CHR ''X'') s = s"
proof -
  assume s: "hex_text s"
  have x: "hex_value (CHR ''x'') = None" "hex_value (CHR ''X'') = None"
    by (simp_all add: hex_value_def isdigit_def)
  have "s ! 1 \<noteq> CHR ''x'' \<and> s ! 1 \<noteq> CHR ''X''" if "2 \<le> length s"
  proof -
    have "s ! 1 \<in> set s" using that by (intro nth_mem) simp
    then have "hex_digit (s ! 1) \<or> s ! 1 \<in> set ignored_chars" using s by (simp add: hex_text_def)
    then show ?thesis using ignored_not_hex [of "s ! 1"] x by (auto simp: hex_digit_def)
  qed
  then show ?thesis by (auto simp: skip_prefix_def)
qed

lemma dropWhile_blank_hex:
  "hex_bits (dropWhile leading_blank s) = hex_bits s" "hex_text s \<Longrightarrow> hex_text (dropWhile leading_blank s)"
proof -
  have "leading_blank c \<Longrightarrow> c \<in> set ignored_chars" for c
    by (auto simp: leading_blank_def ignored_chars_def)
  then show "hex_bits (dropWhile leading_blank s) = hex_bits s"
    and "hex_text s \<Longrightarrow> hex_text (dropWhile leading_blank s)"
    using ignored_not_hex by (induction s) auto
qed

lemma CreateFromHexString_core:
  assumes "hex_text s" and "length (hex_bits s) < 4294967296"
  shows "rbind (CreateFromHexString_loop dc prev s (BinaryVector_empty, 0, 0)) (\<lambda>(res, nextByte, bitCount).
          let res' = (if bitCount \<noteq> 0 then push_byte nextByte bitCount res else res)
          in Inr (res'\<lparr>m_sizeProperty := sp\<rparr>)) = Inr (bv_make (hex_bits s) sp)"
proof -
  have "hex_rep [] (BinaryVector_empty, 0, 0)" by (simp add: hex_rep_def BinaryVector_empty_make)
  then obtain v nb c where st: "CreateFromHexString_loop dc prev s (BinaryVector_empty, 0, 0) = Inr (v, nb, c)"
    "hex_rep (hex_bits s) (v, nb, c)"
    using CreateFromHexString_loop_rep [OF assms(1), of "[]" _ dc prev] assms(2) by force
  then obtain fs rs where r: "hex_bits s = fs @ rs" "length fs mod 8 = 0" "length rs = c" "c = 0 \<or> c = 4"
    "v = bv_make fs NotFixed" "byte_bits nb = rs @ replicate (8 - c) False"
    by (auto simp: hex_rep_def)
  show ?thesis
  proof (cases "c = 0")
    case True
    then show ?thesis using st(1) r by simp
  next
    case False
    then have "rs \<noteq> []" "c \<le> 8" using r(3,4) by auto
    then have "push_byte nb c v = bv_make (fs @ rs) NotFixed"
      using push_byte_make [of fs rs nb NotFixed] r assms(2) by simp
    then show ?thesis using st(1) r(1) False by simp
  qed
qed

lemma CreateFromHexString_eq:
  assumes "hex_text s" and "length (hex_bits s) < 4294967296"
  shows "dropWhile leading_blank s \<noteq> [] \<Longrightarrow> CreateFromHexString (Some s) sp dc = Inr (bv_make (hex_bits s) sp)"
    and "CreateFromHexString (Some (''0x'' @ s)) sp dc = Inr (bv_make (hex_bits s) sp)"
proof -
  let ?s = "dropWhile leading_blank s"
  have "length (hex_bits ?s) < 4294967296" using assms(2) dropWhile_blank_hex(1) [of s] by simp
  then show "?s \<noteq> [] \<Longrightarrow> CreateFromHexString (Some s) sp dc = Inr (bv_make (hex_bits s) sp)"
    using CreateFromHexString_core [of ?s dc "CHR 0x00" sp] dropWhile_blank_hex [of s] assms(1)
    by (simp add: CreateFromHexString_def skip_prefix_hex_text skip_blanks_eq)
  have "skip_blanks_unbounded (''0x'' @ s) = Inr (''0x'' @ s)" by (simp add: leading_blank_def)
  moreover have "skip_prefix (CHR ''x'') (CHR ''X'') (''0x'' @ s) = s" by (simp add: skip_prefix_def)
  ultimately show "CreateFromHexString (Some (''0x'' @ s)) sp dc = Inr (bv_make (hex_bits s) sp)"
    using CreateFromHexString_core [OF assms, of dc "CHR 0x00" sp]
    by (simp only: CreateFromHexString_def option.case rbind_Inr)
qed

section \<open>Hexadecimal text of a vector\<close>

lemma hex_nibble:
  assumes "byte_bits x = replicate 4 False @ [a, b, c, d]"
  shows "hex_bits (HEX_NIBBLES ! unat x) = [a, b, c, d]" "hex_text (HEX_NIBBLES ! unat x)"
    "length (HEX_NIBBLES ! unat x) = 1"
proof -
  have x: "x = byte_of_bits [False, False, False, False, a, b, c, d]"
    using assms byte_of_bits_byte_bits [of x] by (simp add: eval_nat_numeral)
  show "hex_bits (HEX_NIBBLES ! unat x) = [a, b, c, d]" "hex_text (HEX_NIBBLES ! unat x)"
    "length (HEX_NIBBLES ! unat x) = 1"
    unfolding x
    by (cases a; cases b; cases c; cases d;
        simp add: byte_of_bits_def HEX_NIBBLES_def nibble_of_def hex_value_def isdigit_def
          digit_value_def byte_bits_def hex_digit_def)+
qed

lemma hex_nibble_bits:
  assumes "byte_bits x = replicate 4 False @ ns"
  shows "hex_bits (HEX_NIBBLES ! unat x) = ns \<and> hex_text (HEX_NIBBLES ! unat x) \<and> length (HEX_NIBBLES ! unat x) = 1"
proof -
  have "length ns = 4" using arg_cong [OF assms, of length] by simp
  then obtain a b c d where "ns = [a, b, c, d]"
    by (auto simp: numeral_eq_Suc length_Suc_conv)
  then show ?thesis using hex_nibble [of x a b c d] assms by simp
qed

lemma byte_bits_nibbles:
  "byte_bits (drop_bit 4 b) = replicate 4 False @ take 4 (byte_bits b)"
  "byte_bits (b AND 0x0F) = replicate 4 False @ drop 4 (byte_bits b)"
  "k \<le> 4 \<Longrightarrow> byte_bits (b AND LEFT_BITS_MASK_4 ! k) = replicate 4 False @ take k (drop 4 (byte_bits b)) @ replicate (4 - k) False"
proof -
  show "byte_bits (drop_bit 4 b) = replicate 4 False @ take 4 (byte_bits b)"
    using drop_bit_take [of 4 b] by simp
  have "byte_bits (b AND mask 4) = replicate 4 False @ drop 4 (byte_bits b)"
    by (intro nth_equalityI) (auto simp: byte_bits_nth bit_simps nth_append)
  then show "byte_bits (b AND 0x0F) = replicate 4 False @ drop 4 (byte_bits b)"
    by (simp add: mask_numeral)
  assume k: "k \<le> 4"
  have m: "LEFT_BITS_MASK_4 ! k = mask 4 AND NOT (mask (4 - k))"
  proof -
    consider "k = 0" | "k = 1" | "k = 2" | "k = 3" | "k = 4" using k by linarith
    then show ?thesis by cases (simp_all add: LEFT_BITS_MASK_4_def mask_numeral)
  qed
  show "byte_bits (b AND LEFT_BITS_MASK_4 ! k) = replicate 4 False @ take k (drop 4 (byte_bits b)) @ replicate (4 - k) False"
    unfolding m using k by (intro nth_equalityI) (auto simp: byte_bits_nth bit_simps nth_append)
qed

lemma appendNibble_hex_prints:
  assumes "ignorable q oc bpl eol" and "hex_text nib" and "snd (snd st) + 1 < 4294967296"
  shows "prints hex_text hex_bits (hex_bits nib) 1 st (appendNibble_hex q oc bpl eol nib st)"
proof -
  obtain os n k where st: "st = (os, n, k)" by (cases st)
  have sep: "set q \<subseteq> set ignored_chars" "set oc \<subseteq> set ignored_chars"
    "bpl \<noteq> 0 \<Longrightarrow> set (eol @ [CHR 0x0A]) \<subseteq> set ignored_chars"
    using assms(1) newline_ignored by (auto simp: ignorable_def)
  let ?b = "n \<noteq> 0 \<and> n mod 2 = 0"
  consider "\<not> ?b" | "?b" "k + 1 = bpl" | "?b" "k + 1 \<noteq> bpl" "n = 4" | "?b" "k + 1 \<noteq> bpl" "n = 8"
    | "?b" "k + 1 \<noteq> bpl" "n \<noteq> 4" "n \<noteq> 8"
    by (cases ?b; cases "k + 1 = bpl"; cases "n = 4"; cases "n = 8") auto
  then show ?thesis
  proof cases
    case 1
    then show ?thesis using assms(2)
      by (intro hex.prints_nibble [of _ _ "[]"]) (auto simp: st appendNibble_hex_def)
  next
    case 2
    then show ?thesis using sep assms(2,3)
      by (intro hex.prints_nibble [of _ _ "eol @ [CHR 0x0A]"]) (simp_all add: st appendNibble_hex_def)
  next
    case 3
    then show ?thesis using sep assms(2,3)
      by (intro hex.prints_nibble [of _ _ q]) (simp_all add: st appendNibble_hex_def)
  next
    case 4
    then show ?thesis using sep assms(2,3)
      by (intro hex.prints_nibble [of _ _ oc]) (simp_all add: st appendNibble_hex_def)
  next
    case 5
    then show ?thesis using sep assms(2,3)
      by (intro hex.prints_nibble [of _ _ "[]"]) (simp_all add: st appendNibble_hex_def)
  qed
qed

definition padding4 :: "nat \<Rightarrow> nat" where
  "padding4 n = (4 - n mod 4) mod 4"

lemma DataAsHexString_loop_prints:
  assumes ign: "ignorable q oc bpl eol"
  shows "length data = (n + 7) div 8 \<Longrightarrow> snd (snd st) + 2 * length data < 4294967296 \<Longrightarrow>
    prints hex_text hex_bits (take n (data_bits data) @ replicate (padding4 n) False) (2 * length data) st
      (DataAsHexString_loop q oc bpl eol data n st)"
proof (induction data arbitrary: n st)
  case Nil
  then have "n = 0" by simp
  then show ?case by (simp add: hex.prints_refl padding4_def)
next
  case (Cons b data)
  let ?hi = "HEX_NIBBLES ! unat (drop_bit 4 b)" and ?lo = "HEX_NIBBLES ! unat (b AND 0x0F)"
  have print: "prints hex_text hex_bits ns 1 s (appendNibble_hex q oc bpl eol (HEX_NIBBLES ! unat x) s)"
    if "byte_bits x = replicate 4 False @ ns" and "snd (snd s) + 1 < 4294967296" for x ns s
    using appendNibble_hex_prints [OF ign _ that(2), of "HEX_NIBBLES ! unat x"] hex_nibble_bits [OF that(1)] by simp
  define st1 where "st1 = appendNibble_hex q oc bpl eol ?hi st"
  have hi: "prints hex_text hex_bits (take 4 (byte_bits b)) 1 st st1"
    unfolding st1_def using Cons.prems(2) by (intro print byte_bits_nibbles) simp
  then have c1: "snd (snd st1) + 1 < 4294967296" "snd (snd st1) \<le> snd (snd st) + 1"
    using Cons.prems(2) by (auto simp: prints_def)
  have n0: "0 < n" using Cons.prems(1) by (cases n) auto
  consider "8 \<le> n" | "4 < n" "n < 8" | "n \<le> 4" by linarith
  then show ?case
  proof cases
    case 1
    let ?st2 = "appendNibble_hex q oc bpl eol ?lo st1"
    have lo: "prints hex_text hex_bits (drop 4 (byte_bits b)) 1 st1 ?st2"
      using c1(1) by (intro print byte_bits_nibbles)
    then have "snd (snd ?st2) \<le> snd (snd st) + 2" using c1(2) by (auto simp: prints_def)
    then have "prints hex_text hex_bits (take (n - 8) (data_bits data) @ replicate (padding4 (n - 8)) False)
        (2 * length data) ?st2 (DataAsHexString_loop q oc bpl eol data (n - 8) ?st2)"
      using Cons.prems 1 by (intro Cons.IH) auto
    then have "prints hex_text hex_bits (take 4 (byte_bits b) @ drop 4 (byte_bits b)
          @ take (n - 8) (data_bits data) @ replicate (padding4 (n - 8)) False)
        (1 + (1 + 2 * length data)) st (DataAsHexString_loop q oc bpl eol data (n - 8) ?st2)"
      using hi lo by (blast intro: hex.prints_trans)
    moreover have "take 4 (byte_bits b) @ drop 4 (byte_bits b) @ take (n - 8) (data_bits data)
          @ replicate (padding4 (n - 8)) False
        = take n (data_bits (b # data)) @ replicate (padding4 n) False"
    proof -
      have "padding4 (n - 8) = padding4 n"
        using mod_mult_self2 [of "n - 8" 4 2] 1 by (simp add: padding4_def)
      then show ?thesis using 1 by (simp flip: append_assoc)
    qed
    ultimately show ?thesis using 1 by (simp add: st1_def)
  next
    case 2
    then have "data = []" using Cons.prems(1) by (cases data) auto
    moreover have "prints hex_text hex_bits (take (n - 4) (drop 4 (byte_bits b)) @ replicate (4 - (n - 4)) False) 1 st1
        (appendNibble_hex q oc bpl eol (HEX_NIBBLES ! unat (b AND LEFT_BITS_MASK_4 ! (n - 4))) st1)"
      using c1(1) 2 by (intro print byte_bits_nibbles) simp_all
    then have "prints hex_text hex_bits (take 4 (byte_bits b) @ take (n - 4) (drop 4 (byte_bits b)) @ replicate (4 - (n - 4)) False)
        (1 + 1) st (appendNibble_hex q oc bpl eol (HEX_NIBBLES ! unat (b AND LEFT_BITS_MASK_4 ! (n - 4))) st1)"
      using hi by (blast intro: hex.prints_trans)
    moreover have "take 4 (byte_bits b) @ take (n - 4) (drop 4 (byte_bits b)) @ replicate (4 - (n - 4)) False
        = take n (byte_bits b) @ replicate (padding4 n) False"
    proof -
      have "n mod 4 = n - 4" using 2 by (simp add: le_mod_geq)
      then have "padding4 n = 4 - (n - 4)" using 2 by (simp add: padding4_def)
      then show ?thesis using 2 take_add [of 4 "n - 4" "byte_bits b"] by simp
    qed
    ultimately show ?thesis using 2 by (auto simp: st1_def intro: prints_mono)
  next
    case 3
    then have "data = []" using Cons.prems(1) by (cases data) auto
    moreover have "prints hex_text hex_bits (take n (drop 4 (byte_bits (drop_bit 4 b))) @ replicate (4 - n) False) 1 st
        (appendNibble_hex q oc bpl eol (HEX_NIBBLES ! unat (drop_bit 4 b AND LEFT_BITS_MASK_4 ! n)) st)"
      using 3 Cons.prems(2) by (intro print byte_bits_nibbles) simp_all
    moreover have "take n (drop 4 (byte_bits (drop_bit 4 b))) @ replicate (4 - n) False
        = take n (byte_bits b) @ replicate (padding4 n) False"
    proof -
      have "padding4 n = 4 - n" using 3 n0 by (cases "n = 4") (simp_all add: padding4_def)
      then show ?thesis using 3 by (simp add: byte_bits_nibbles(1) min_def)
    qed
    ultimately show ?thesis using 3 by (auto intro: prints_mono)
  qed
qed

lemma DataAsHexString_text:
  assumes "ignorable q oc bpl eol" and "length bs < 4294967296"
  shows "\<exists>t. DataAsHexString q oc bpl eol pre (bv_make bs p) = (if pre then ''0x'' else []) @ t
    \<and> hex_text t \<and> hex_bits t = bs @ replicate (padding4 (length bs)) False"
proof -
  have "2 * length (pack bs) < 4294967296" using assms(2) by (simp add: length_pack)
  then show ?thesis
    using DataAsHexString_loop_prints [OF assms(1), of "pack bs" "length bs" "(if pre then ''0x'' else [], 0, 0)"]
    by (auto simp: DataAsHexString_def prints_def length_pack data_bits_pack)
qed

lemma padding4_less: "padding4 n < 4"
  by (simp add: padding4_def)

lemma padding4_digits: "(n + padding4 n) mod 4 = 0"
proof -
  have "(n + padding4 n) mod 4 = (n mod 4 + padding4 n) mod 4" by (simp add: mod_add_left_eq)
  moreover have "n mod 4 < 4" by simp
  then consider "n mod 4 = 0" | "n mod 4 = 1" | "n mod 4 = 2" | "n mod 4 = 3" by linarith
  then have "(n mod 4 + padding4 n) mod 4 = 0" by cases (simp_all add: padding4_def)
  ultimately show ?thesis by simp
qed

lemma hex_roundtrip:
  assumes "ignorable q oc bpl eol" and "length bs < 4294967292" and "pre \<or> bs \<noteq> []"
  shows "CreateFromHexString (Some (DataAsHexString q oc bpl eol pre (bv_make bs p))) sp dc
    = Inr (bv_make (bs @ replicate (padding4 (length bs)) False) sp)"
proof -
  obtain t where t: "DataAsHexString q oc bpl eol pre (bv_make bs p) = (if pre then ''0x'' else []) @ t"
    "hex_text t" "hex_bits t = bs @ replicate (padding4 (length bs)) False"
    using DataAsHexString_text [of q oc bpl eol bs pre p] assms by auto
  have "dropWhile leading_blank t \<noteq> []" if "\<not> pre"
  proof
    assume "dropWhile leading_blank t = []"
    then have "hex_bits t = []" using dropWhile_blank_hex(1) [of t] by (simp only: hex_bits_simps(1))
    then show False using t(3) assms(3) that by simp
  qed
  then show ?thesis
    using CreateFromHexString_eq [of t sp dc] t assms(2) padding4_less [of "length bs"] by (cases pre) simp_all
qed

text \<open>The text of an empty vector without prefix is empty, and skipping blanks reads past its end.\<close>

lemma hex_empty_unread: "CreateFromHexString (Some (DataAsHexString q oc bpl eol False (bv_make [] p))) sp dc = Inl UndefinedBehaviour"
  by (simp add: DataAsHexString_def CreateFromHexString_def pack.simps [of "[]"])

end
