(* ===== verification/SVF_Vector.thy ===== *)
theory SVF_Vector
  imports Hex_Text
begin

text \<open>
  The class \<^verbatim>\<open>SVFVector\<close> of \<^verbatim>\<open>Mast_Core/src/SVFVector.cpp\<close>: a bit stream kept as right
  aligned hexadecimal text, an even number of upper case digits of which the last
  \<^verbatim>\<open>m_usedBits\<close> bits count. The lemmas give the text a constructor accepts, the bits it stands for,
  and the round trips between SVF text and \<^verbatim>\<open>BinaryVector\<close>.
\<close>

section \<open>Data and operations\<close>

record SVFVector =
  svf_data :: string
  svf_usedBits :: nat

text \<open>\<^verbatim>\<open>std::setw(2)\<close> with \<^verbatim>\<open>std::setfill('0')\<close>, \<^verbatim>\<open>std::hex\<close> and \<^verbatim>\<open>std::uppercase\<close>, of a byte value.\<close>

definition put_hex_byte :: "byte \<Rightarrow> string" where
  "put_hex_byte b = HEX_NIBBLES ! unat (drop_bit 4 b) @ HEX_NIBBLES ! unat (b AND 0x0F)"

function SVFVector_loop :: "byte list \<Rightarrow> nat \<Rightarrow> nat \<Rightarrow> nat \<Rightarrow> string \<Rightarrow> string result" where
  "SVFVector_loop data binVectorLsbBits remainingBitsCount pByte os =
    (if remainingBitsCount \<noteq> 0 \<and> pByte < length data then
      let binVectorMsbBits = 8 - binVectorLsbBits
      in rbind (read_at data pByte) (\<lambda>msb.
         rbind (read_at data (Suc pByte)) (\<lambda>lsb.
          let msb' = push_bit binVectorLsbBits msb AND LEFT_BITS_MASK_8 ! binVectorMsbBits;
              lsb' = drop_bit binVectorMsbBits lsb AND RIGHT_BITS_MASK_8 ! binVectorLsbBits
          in SVFVector_loop data binVectorLsbBits (remainingBitsCount - 8) (Suc pByte)
               (os @ put_hex_byte (msb' OR lsb'))))
     else Inr os)"
  by pat_completeness auto
termination
  by (relation "measure (\<lambda>(_, _, n, _, _). n)") auto

declare SVFVector_loop.simps [simp del]

definition SVFVector_of_binary :: "BinaryVector \<Rightarrow> SVFVector result" where
  "SVFVector_of_binary binaryVector =
    (let bits_count = BitsCount binaryVector
     in if bits_count \<noteq> 0 then
          let binVectorLsbBits = bits_count mod 8;
              data = m_data binaryVector
          in rbind
               (if binVectorLsbBits = 0 then Inr (concat (map put_hex_byte data))
                else rbind (read_at data 0) (\<lambda>byte.
                       SVFVector_loop data binVectorLsbBits (bits_count - binVectorLsbBits) 0
                         (put_hex_byte (drop_bit (8 - binVectorLsbBits) byte
                                        AND RIGHT_BITS_MASK_8 ! binVectorLsbBits))))
               (\<lambda>os. Inr \<lparr>svf_data = os, svf_usedBits = bits_count\<rparr>)
        else Inr \<lparr>svf_data = [], svf_usedBits = 0\<rparr>)"

definition CharToNibble :: "char \<Rightarrow> byte result" where
  "CharToNibble aChar =
    (if isdigit aChar then Inr (word_of_nat (digit_value aChar))
     else if aChar = CHR ''A'' \<or> aChar = CHR ''a'' then Inr 0xA
     else if aChar = CHR ''B'' \<or> aChar = CHR ''b'' then Inr 0xB
     else if aChar = CHR ''C'' \<or> aChar = CHR ''c'' then Inr 0xC
     else if aChar = CHR ''D'' \<or> aChar = CHR ''d'' then Inr 0xD
     else if aChar = CHR ''E'' \<or> aChar = CHR ''e'' then Inr 0xE
     else if aChar = CHR ''F'' \<or> aChar = CHR ''f'' then Inr 0xF
     else Inl LogicError)"

text \<open>One turn of the loop of \<^verbatim>\<open>CleanSvfString\<close>: the character kept, if any.\<close>

definition clean_char :: "char \<Rightarrow> string result" where
  "clean_char nextChar =
    (if nextChar \<in> set ''0123456789ABCDEF'' then Inr [nextChar]
     else if nextChar = CHR ''a'' then Inr ''A''
     else if nextChar = CHR ''b'' then Inr ''B''
     else if nextChar = CHR ''c'' then Inr ''C''
     else if nextChar = CHR ''d'' then Inr ''D''
     else if nextChar = CHR ''e'' then Inr ''E''
     else if nextChar = CHR ''f'' then Inr ''F''
     else if nextChar \<in> set [CHR ''-'', CHR ''_'', CHR '':'', CHR '','', CHR '' '', CHR 0x09,
                              CHR 0x27, CHR 0x0D, CHR 0x0A, CHR 0x00] then Inr []
     else Inl InvalidArgument)"

fun CleanSvfString_loop :: "string \<Rightarrow> string \<Rightarrow> string result" where
  "CleanSvfString_loop [] data = Inr data"
| "CleanSvfString_loop (nextChar # rest) data =
    rbind (clean_char nextChar) (\<lambda>c. CleanSvfString_loop rest (data @ c))"

definition CleanSvfString :: "string \<Rightarrow> nat \<Rightarrow> string result" where
  "CleanSvfString svfString bits_count =
    (if bits_count > length svfString * 4 then Inl InvalidArgument
     else
      let expectedBytesCount = u32 (bits_count + 7) div 8;
          expectedCharCount = u32 (expectedBytesCount * 2)
      in rbind (CleanSvfString_loop svfString []) (\<lambda>data.
          if length data = u32_sub expectedCharCount 1 then
            let bitsOnLastBytes = bits_count mod 8
            in if bitsOnLastBytes \<noteq> 0 \<and> bitsOnLastBytes \<le> 4 then Inr (''0'' @ data)
               else Inl InvalidArgument
          else if length data > expectedCharCount then Inr (drop (length data - expectedCharCount) data)
          else if length data < expectedCharCount then Inl InvalidArgument
          else Inr data))"

definition SVFVector_of_text :: "string \<Rightarrow> nat \<Rightarrow> SVFVector result" where
  "SVFVector_of_text svfString bits_count =
    rbind (CleanSvfString svfString bits_count) (\<lambda>data.
      Inr \<lparr>svf_data = data, svf_usedBits = bits_count\<rparr>)"

definition SVFVector_eq :: "SVFVector \<Rightarrow> SVFVector \<Rightarrow> bool" where
  "SVFVector_eq v rhs =
    (if svf_usedBits v \<noteq> svf_usedBits rhs then False
     else if svf_usedBits v = 0 then True
     else svf_data v = svf_data rhs)"

fun ToBinaryVector_loop :: "string \<Rightarrow> nat \<Rightarrow> BinaryVector \<Rightarrow> BinaryVector result" where
  "ToBinaryVector_loop (msbChar # lsbChar # rest) usedBitsOnLastByte res =
    rbind (CharToNibble msbChar) (\<lambda>msb.
    rbind (CharToNibble lsbChar) (\<lambda>lsb.
    rbind (Append_u8 (push_bit 4 msb + lsb) usedBitsOnLastByte Right res)
      (ToBinaryVector_loop rest 8)))"
| "ToBinaryVector_loop [msbChar] usedBitsOnLastByte res = Inl UndefinedBehaviour"
| "ToBinaryVector_loop [] usedBitsOnLastByte res = Inr res"

definition ToBinaryVector :: "SVFVector \<Rightarrow> BinaryVector result" where
  "ToBinaryVector v =
    (if length (svf_data v) mod 2 \<noteq> 0 then Inl LogicError
     else
      let bitsOnLastByte = svf_usedBits v mod 8;
          usedBitsOnLastByte = (if bitsOnLastByte = 0 then 8 else bitsOnLastByte)
      in ToBinaryVector_loop (svf_data v) usedBitsOnLastByte BinaryVector_empty)"

section \<open>Cleaning\<close>

text \<open>\<open>svf_text\<close> accepts a text, \<open>svf_digits\<close> are its digits in upper case.\<close>

definition svf_text :: "string \<Rightarrow> bool" where
  "svf_text s = list_all (\<lambda>c. succeeds (clean_char c) (\<lambda>_. True)) s"

definition svf_digits :: "string \<Rightarrow> string" where
  "svf_digits s = concat (map (\<lambda>c. case clean_char c of Inl _ \<Rightarrow> [] | Inr d \<Rightarrow> d) s)"

lemma clean_char_length: "clean_char c = Inr d \<Longrightarrow> length d \<le> 1"
  by (auto simp: clean_char_def split: if_splits)

lemma clean_char_error: "clean_char c = Inl e \<Longrightarrow> e = InvalidArgument"
  by (simp add: clean_char_def split: if_splits)

lemma length_svf_digits: "length (svf_digits s) \<le> length s"
proof (induction s)
  case (Cons c s)
  then show ?case
    using clean_char_length [of c] by (cases "clean_char c") (auto simp: svf_digits_def dest: clean_char_length)
qed (simp add: svf_digits_def)

lemma CleanSvfString_loop_eq:
  "CleanSvfString_loop s d = (if svf_text s then Inr (d @ svf_digits s) else Inl InvalidArgument)"
proof (induction s arbitrary: d)
  case (Cons c s)
  then show ?case
    by (cases "clean_char c") (auto simp: svf_text_def svf_digits_def dest: clean_char_error)
qed (simp add: svf_text_def svf_digits_def)

lemma digits_needed:
  assumes "0 < (n :: nat)"
  obtains m l where "(n + 7) div 8 = Suc m" "n = 8 * m + l" "0 < l" "l \<le> 8"
    "n mod 8 = (if l = 8 then 0 else l)"
proof -
  obtain m l where "(n + 7) div 8 = Suc m" "n = 8 * m + l" "0 < l" "l \<le> 8"
    using LastByteBitsCount_split [OF assms] by blast
  then show thesis using that by (cases "l = 8") auto
qed

lemma CleanSvfString_eq:
  assumes "n < 4294967289" and "length s < 4294967295"
  shows "CleanSvfString s n
    = (if svf_text s \<and> n \<le> 4 * length (svf_digits s)
       then Inr (drop (length (svf_digits s) + 1 - 2 * ((n + 7) div 8)) (CHR ''0'' # svf_digits s))
       else Inl InvalidArgument)"
proof (cases "svf_text s")
  case False
  then show ?thesis by (simp add: CleanSvfString_def CleanSvfString_loop_eq Let_def)
next
  case True
  define k where "k = length (svf_digits s)"
  have ks: "k \<le> length s" by (simp add: k_def length_svf_digits)
  show ?thesis
  proof (cases "n = 0")
    case True
    have m: "u32_sub 0 (Suc 0) = 4294967295" by (simp add: u32_sub_def u32_def)
    have k: "length (svf_digits s) < 4294967295" using ks assms(2) by (simp add: k_def)
    show ?thesis using k True \<open>svf_text s\<close>
      by (simp add: CleanSvfString_def CleanSvfString_loop_eq m)
  next
    case False
    then obtain m l where ml: "(n + 7) div 8 = Suc m" "n = 8 * m + l" "0 < l" "l \<le> 8"
      "n mod 8 = (if l = 8 then 0 else l)"
      using digits_needed [of n] by auto
    have e: "u32 (u32 (n + 7) div 8 * 2) = 2 * m + 2" "u32_sub (2 * m + 2) 1 = 2 * m + 1"
      using assms(1) ml by simp_all
    have u: "CleanSvfString s n = (if n > length s * 4 then Inl InvalidArgument
       else if k = 2 * m + 1 then if l \<le> 4 then Inr (CHR ''0'' # svf_digits s) else Inl InvalidArgument
       else if k > 2 * m + 2 then Inr (drop (k - (2 * m + 2)) (svf_digits s))
       else if k < 2 * m + 2 then Inl InvalidArgument else Inr (svf_digits s))"
      unfolding CleanSvfString_def e Let_def CleanSvfString_loop_eq
      using True ml(3-5) by (simp add: e k_def)
    consider "k < 2 * m + 1" | "k = 2 * m + 1" "l \<le> 4" | "k = 2 * m + 1" "4 < l" | "2 * m + 2 \<le> k" by linarith
    then show ?thesis
    proof cases
      case 1
      then show ?thesis unfolding u ml(1) using ml(2,3) by (simp add: k_def [symmetric])
    next
      case 2
      then show ?thesis unfolding u ml(1) using ml(2) ks True by (simp add: k_def [symmetric])
    next
      case 3
      then show ?thesis unfolding u ml(1) using ml(2) by (simp add: k_def [symmetric])
    next
      case 4
      then have "k + 1 - 2 * Suc m = Suc (k - (2 * m + 2))" by simp
      then show ?thesis unfolding u ml(1) using 4 ml(2,4) ks True by (simp add: k_def [symmetric])
    qed
  qed
qed


section \<open>Text to bits\<close>

lemma CharToNibble_eq: "CharToNibble c = (case hex_value c of None \<Rightarrow> Inl LogicError | Some v \<Rightarrow> Inr v)"
  by (simp add: CharToNibble_def hex_value_def)

lemma nibble_pair:
  assumes "hex_value c = Some x" and "hex_value d = Some y"
  shows "byte_bits (push_bit 4 x + y) = nibble_of c @ nibble_of d"
proof -
  have bx: "byte_bits (push_bit 4 x) = nibble_of c @ replicate 4 False"
    unfolding byte_bits_push4 hex_value_bits [OF assms(1)] by simp
  have by': "byte_bits y = replicate 4 False @ nibble_of d"
    by (rule hex_value_bits [OF assms(2)])
  have l: "length (nibble_of c) = 4" "length (nibble_of d) = 4"
    using assms by (auto intro!: length_nibble_of simp: hex_digit_def)
  have "\<not> bit (push_bit 4 x) i \<or> \<not> bit y i" for i
  proof (cases "i < 4")
    case True
    then show ?thesis by (simp add: bit_push_bit_iff)
  next
    case False
    then have "\<not> bit y i" if "i < 8"
      using byte_bits_bit [of i y] that by' by (auto simp: nth_append)
    then show ?thesis using bit_imp_le_length [of y i] by (cases "i < 8") auto
  qed
  then have "push_bit 4 x + y = push_bit 4 x OR y"
    by (intro disjunctive_add) auto
  then show ?thesis using or_nibble [OF bx by'] by simp
qed

definition hex_digits :: "string \<Rightarrow> bool" where
  "hex_digits s = list_all hex_digit s"

lemma hex_digits_bits: "hex_digits s \<Longrightarrow> length (hex_bits s) = 4 * length s"
  by (induction s) (auto simp: hex_digits_def length_nibble_of)

lemma ToBinaryVector_loop_bits:
  assumes "hex_digits s" and "length s = 2 * k" and "0 < u" "u \<le> 8"
    and "length xs + 4 * length s < 4294967296"
  shows "ToBinaryVector_loop s u (bv_make xs NotFixed) = Inr (bv_make (xs @ drop (8 - u) (hex_bits s)) NotFixed)"
  using assms
proof (induction k arbitrary: s u xs)
  case (Suc k)
  then obtain c d t where s: "s = c # d # t" "length t = 2 * k"
    by (auto simp: length_Suc_conv)
  with Suc.prems(1) obtain x y where v: "hex_value c = Some x" "hex_value d = Some y"
    and t: "hex_digits t" and l: "length (nibble_of c) = 4" "length (nibble_of d) = 4"
    by (auto simp: hex_digits_def length_nibble_of) (auto simp: hex_digit_def)
  let ?ys = "drop (8 - u) (nibble_of c @ nibble_of d)"
  have "Append_u8 (push_bit 4 x + y) u Right (bv_make xs NotFixed) = Inr (bv_make (xs @ ?ys) NotFixed)"
    using Suc.prems(3-5) nibble_pair [OF v] l by (subst Append_u8_make) (simp_all add: value_bits_def s)
  moreover have "ToBinaryVector_loop t 8 (bv_make (xs @ ?ys) NotFixed)
      = Inr (bv_make ((xs @ ?ys) @ drop (8 - 8) (hex_bits t)) NotFixed)"
    using Suc.prems(3-5) s t l by (intro Suc.IH) simp_all
  ultimately show ?case using v l by (simp add: s CharToNibble_eq)
qed simp

lemma ToBinaryVector_eq:
  assumes "hex_digits s" and "length s = 2 * ((n + 7) div 8)" and "n < 4294967289"
  shows "ToBinaryVector \<lparr>svf_data = s, svf_usedBits = n\<rparr>
    = Inr (bv_make (drop (4 * length s - n) (hex_bits s)) NotFixed)"
proof (cases "n = 0")
  case True
  then show ?thesis using assms(2) by (simp add: ToBinaryVector_def BinaryVector_empty_make)
next
  case False
  then obtain m l where ml: "(n + 7) div 8 = Suc m" "n = 8 * m + l" "0 < l" "l \<le> 8"
      "n mod 8 = (if l = 8 then 0 else l)"
    using digits_needed [of n] by auto
  then have "ToBinaryVector_loop s l (bv_make [] NotFixed) = Inr (bv_make ([] @ drop (8 - l) (hex_bits s)) NotFixed)"
    using assms by (intro ToBinaryVector_loop_bits [where k = "Suc m"]) simp_all
  moreover have "(if n mod 8 = 0 then 8 else n mod 8) = l" using ml by simp
  moreover have "4 * length s - n = 8 - l" using assms(2) ml by simp
  ultimately show ?thesis using assms(2) by (simp add: ToBinaryVector_def BinaryVector_empty_make Let_def)
qed

text \<open>Cleaned text consists of digits only.\<close>

lemma clean_char_digit: "clean_char c = Inr d \<Longrightarrow> hex_digits d \<and> hex_bits d = nibble_of c"
proof -
  have all: "list_all (\<lambda>c. hex_digits [c]) ''0123456789ABCDEF''"
    "list_all (\<lambda>c. nibble_of c = []) [CHR ''-'', CHR ''_'', CHR '':'', CHR '','', CHR '' '', CHR 0x09,
                              CHR 0x27, CHR 0x0D, CHR 0x0A, CHR 0x00]"
    by code_simp+
  have low: "hex_digits ''A''" "hex_digits ''B''" "hex_digits ''C''" "hex_digits ''D''" "hex_digits ''E''" "hex_digits ''F''"
    "nibble_of (CHR ''A'') = nibble_of (CHR ''a'')" "nibble_of (CHR ''B'') = nibble_of (CHR ''b'')"
    "nibble_of (CHR ''C'') = nibble_of (CHR ''c'')" "nibble_of (CHR ''D'') = nibble_of (CHR ''d'')"
    "nibble_of (CHR ''E'') = nibble_of (CHR ''e'')" "nibble_of (CHR ''F'') = nibble_of (CHR ''f'')"
    by code_simp+
  assume c: "clean_char c = Inr d"
  consider "c \<in> set ''0123456789ABCDEF''" "d = [c]" | "d = ''A''" "c = CHR ''a''" | "d = ''B''" "c = CHR ''b''"
    | "d = ''C''" "c = CHR ''c''" | "d = ''D''" "c = CHR ''d''" | "d = ''E''" "c = CHR ''e''" | "d = ''F''" "c = CHR ''f''"
    | "d = []" "c \<in> set [CHR ''-'', CHR ''_'', CHR '':'', CHR '','', CHR '' '', CHR 0x09,
                              CHR 0x27, CHR 0x0D, CHR 0x0A, CHR 0x00]"
    using c unfolding clean_char_def by (simp only: split: if_splits) auto
  then show ?thesis
  proof cases
    case 1
    then have "hex_digits [c]" using all(1) unfolding list_all_iff by blast
    then show ?thesis using 1(2) by simp
  next
    case 8
    then have "nibble_of c = []" using all(2) unfolding list_all_iff by blast
    then show ?thesis using 8(1) by (simp add: hex_digits_def)
  qed (use low in \<open>simp_all\<close>)
qed

lemma svf_digits_hex:
  "hex_digits (svf_digits s) \<and> (svf_text s \<longrightarrow> hex_bits (svf_digits s) = hex_bits s)"
proof (induction s)
  case (Cons c s)
  then show ?case
    using clean_char_digit [of c] by (cases "clean_char c") (auto simp: svf_text_def svf_digits_def hex_digits_def)
qed (simp add: svf_digits_def hex_digits_def)

lemma hex_digits_simps [simp]:
  "hex_digits []" "hex_digits (c # s) \<longleftrightarrow> hex_digit c \<and> hex_digits s" "hex_digits (s @ t) \<longleftrightarrow> hex_digits s \<and> hex_digits t"
  by (simp_all add: hex_digits_def)

lemma hex_digits_drop: "hex_digits s \<Longrightarrow> hex_digits (drop k s)"
  by (auto simp: hex_digits_def list_all_iff dest: in_set_dropD)

lemma hex_bits_drop: "hex_digits s \<Longrightarrow> hex_bits (drop k s) = drop (4 * k) (hex_bits s)"
proof (induction s arbitrary: k)
  case (Cons c s)
  then show ?case by (cases k) (simp_all add: length_nibble_of)
qed simp

lemma SVFVector_text_bits:
  assumes "n < 4294967289" and "length s < 4294967295"
  shows "rbind (SVFVector_of_text s n) ToBinaryVector
    = (if svf_text s \<and> n \<le> length (hex_bits s)
       then Inr (bv_make (drop (length (hex_bits s) - n) (hex_bits s)) NotFixed) else Inl InvalidArgument)"
proof -
  have len: "svf_text s \<Longrightarrow> length (hex_bits s) = 4 * length (svf_digits s)"
    using svf_digits_hex [of s] hex_digits_bits [of "svf_digits s"] by auto
  show ?thesis
  proof (cases "svf_text s \<and> n \<le> 4 * length (svf_digits s)")
    case False
    then show ?thesis using len by (auto simp: SVFVector_of_text_def CleanSvfString_eq [OF assms])
  next
    case True
    define e where "e = (n + 7) div 8"
    define d where "d = CHR ''0'' # svf_digits s"
    define t where "t = drop (length (svf_digits s) + 1 - 2 * e) d"
    have e: "n \<le> 8 * e" "8 * e \<le> n + 7" using ceil8 [of n] padding_less [of n] by (simp_all add: e_def)
    have "hex_digit (CHR ''0'')" by code_simp
    then have d: "hex_digits d" using svf_digits_hex [of s] by (simp add: d_def)
    have z: "nibble_of (CHR ''0'') = replicate 4 False" by code_simp
    have "2 * e \<le> length (svf_digits s) + 1" using True e by linarith
    then have t: "length t = 2 * e" "hex_digits t"
      "hex_bits t = drop (4 * (length (svf_digits s) + 1 - 2 * e)) (hex_bits d)"
      using d hex_digits_drop [OF d] by (simp_all add: t_def hex_bits_drop d_def)
    have "rbind (SVFVector_of_text s n) ToBinaryVector = ToBinaryVector \<lparr>svf_data = t, svf_usedBits = n\<rparr>"
      using True by (simp add: SVFVector_of_text_def CleanSvfString_eq [OF assms] t_def e_def d_def)
    also have "\<dots> = Inr (bv_make (drop (8 * e - n) (hex_bits t)) NotFixed)"
      using assms(1) t(1,2) by (subst ToBinaryVector_eq) (simp_all add: e_def)
    also have "drop (8 * e - n) (hex_bits t) = drop (4 * length (svf_digits s) - n + 4) (hex_bits d)"
    proof -
      have "8 * e - n + 4 * (length (svf_digits s) + 1 - 2 * e) = 4 * length (svf_digits s) - n + 4"
        using True e \<open>2 * e \<le> length (svf_digits s) + 1\<close> by linarith
      then show ?thesis by (simp only: t(3) drop_drop)
    qed
    also have "\<dots> = drop (length (hex_bits s) - n) (hex_bits s)"
      using True svf_digits_hex [of s] len by (simp add: d_def z)
    finally show ?thesis using True len by simp
  qed
qed

section \<open>Bits to text and back\<close>

lemma put_hex_byte_bits:
  "hex_digits (put_hex_byte b) \<and> hex_bits (put_hex_byte b) = byte_bits b \<and> length (put_hex_byte b) = 2"
proof -
  have hi: "byte_bits (drop_bit 4 b) = replicate 4 False @ take 4 (byte_bits b)"
    and lo: "byte_bits (b AND 0x0F) = replicate 4 False @ drop 4 (byte_bits b)"
    by (rule byte_bits_nibbles)+
  have one: "hex_digits (HEX_NIBBLES ! unat x)" if "byte_bits x = replicate 4 False @ ns" for x ns
  proof -
    have h: "hex_bits (HEX_NIBBLES ! unat x) = ns" "length (HEX_NIBBLES ! unat x) = 1" "length ns = 4"
      using hex_nibble_bits [OF that] arg_cong [OF that, of length] by simp_all
    then obtain c where "HEX_NIBBLES ! unat x = [c]" by (auto simp: length_Suc_conv)
    then show ?thesis using h by (auto simp: hex_digit_def nibble_of_def split: option.splits)
  qed
  show ?thesis
    using hex_nibble_bits [OF hi] hex_nibble_bits [OF lo] one [OF hi] one [OF lo]
    by (simp add: put_hex_byte_def)
qed

lemma put_hex_bytes:
  "hex_digits (concat (map put_hex_byte ds)) \<and> hex_bits (concat (map put_hex_byte ds)) = data_bits ds
   \<and> length (concat (map put_hex_byte ds)) = 2 * length ds"
  by (induction ds) (simp_all add: put_hex_byte_bits)

lemma SVFVector_loop_eq:
  "SVFVector_loop data l n j os
   = rbind (DataRightAligned_loop data l n j) (\<lambda>ds. Inr (os @ concat (map put_hex_byte ds)))"
proof (induction n arbitrary: j os rule: less_induct)
  case (less n)
  show ?case
  proof (cases "n \<noteq> 0 \<and> Suc j < length data")
    case False
    then show ?thesis
      by (subst SVFVector_loop.simps, subst DataRightAligned_loop.simps) (auto simp: Let_def read_at_def)
  next
    case True
    then show ?thesis
      using less [of "n - 8" "Suc j"]
      by (subst SVFVector_loop.simps, subst DataRightAligned_loop.simps)
        (simp add: Let_def read_at_def rbind_assoc)
  qed
qed

lemma SVFVector_of_binary_eq:
  assumes "length bs < 4294967296"
  shows "\<exists>ds. SVFVector_of_binary (bv_make bs p)
      = Inr \<lparr>svf_data = concat (map put_hex_byte ds), svf_usedBits = length bs\<rparr>
    \<and> data_bits ds = replicate (padding (length bs)) False @ bs"
proof (cases "length bs mod 8 = 0")
  case True
  then show ?thesis
    by (cases "bs = []") (auto simp: SVFVector_of_binary_def data_bits_pack intro!: exI [of _ "pack bs"])
next
  case False
  then have l: "LastByteBitsCount (length bs) = length bs mod 8" "bs \<noteq> []"
    by (auto simp: LastByteBitsCount_def)
  obtain ds where ds: "DataRightAligned (bv_make bs p) = Inr ds"
    "data_bits ds = replicate (padding (length bs)) False @ bs"
    using DataRightAligned_make [OF assms] by blast
  have "SVFVector_of_binary (bv_make bs p)
      = rbind (DataRightAligned (bv_make bs p)) (\<lambda>ds.
          Inr \<lparr>svf_data = concat (map put_hex_byte ds), svf_usedBits = length bs\<rparr>)"
    using l False
    by (cases "read_at (pack bs) 0")
      (simp_all add: SVFVector_of_binary_def DataRightAligned_def SVFVector_loop_eq rbind_assoc Let_def)
  then show ?thesis using ds by auto
qed

lemma SVFVector_of_binary_text:
  assumes "length bs < 4294967296"
  shows "\<exists>s. SVFVector_of_binary (bv_make bs p) = Inr \<lparr>svf_data = s, svf_usedBits = length bs\<rparr>
    \<and> hex_digits s \<and> length s = 2 * ((length bs + 7) div 8)
    \<and> hex_bits s = replicate (padding (length bs)) False @ bs"
proof -
  obtain ds where ds: "SVFVector_of_binary (bv_make bs p)
      = Inr \<lparr>svf_data = concat (map put_hex_byte ds), svf_usedBits = length bs\<rparr>"
    "data_bits ds = replicate (padding (length bs)) False @ bs"
    using SVFVector_of_binary_eq [OF assms] by blast
  have "8 * length ds = 8 * ((length bs + 7) div 8)"
    using arg_cong [OF ds(2), of length] ceil8 [of "length bs"] by simp
  then show ?thesis using ds put_hex_bytes [of ds] by auto
qed

lemma SVF_roundtrip:
  assumes "length bs < 4294967289"
  shows "rbind (SVFVector_of_binary (bv_make bs p)) ToBinaryVector = Inr (bv_make bs NotFixed)"
proof -
  obtain s where s: "SVFVector_of_binary (bv_make bs p) = Inr \<lparr>svf_data = s, svf_usedBits = length bs\<rparr>"
    "hex_digits s" "length s = 2 * ((length bs + 7) div 8)" "hex_bits s = replicate (padding (length bs)) False @ bs"
    using SVFVector_of_binary_text [of bs p] assms by auto
  have "4 * length s - length bs = padding (length bs)"
    using s(3) ceil8 [of "length bs"] by simp
  then show ?thesis using s assms by (simp add: ToBinaryVector_eq)
qed

text \<open>The text a vector prints to is accepted as it is, and denotes the same \<^verbatim>\<open>SVFVector\<close>.\<close>

lemma put_hex_bytes_clean:
  "svf_text (concat (map put_hex_byte ds)) \<and> svf_digits (concat (map put_hex_byte ds)) = concat (map put_hex_byte ds)"
proof -
  have nib: "svf_text (HEX_NIBBLES ! n) \<and> svf_digits (HEX_NIBBLES ! n) = HEX_NIBBLES ! n" if "n < 16" for n
  proof -
    have "list_all (\<lambda>t. svf_text t \<and> svf_digits t = t) HEX_NIBBLES" by code_simp
    moreover have "length HEX_NIBBLES = 16" by (simp add: HEX_NIBBLES_def)
    ultimately show ?thesis using that by (simp add: list_all_length)
  qed
  have app: "svf_text (s @ t) \<longleftrightarrow> svf_text s \<and> svf_text t" "svf_digits (s @ t) = svf_digits s @ svf_digits t" for s t
    by (simp_all add: svf_text_def svf_digits_def)
  have small: "unat (drop_bit 4 (b :: byte)) < 16" "unat (b AND 0x0F) < 16" for b
  proof -
    have "unat b < 256" using unsigned_less [of b] by simp
    then show "unat (drop_bit 4 b) < 16" by (simp only: unat_drop_bit_eq) (simp add: drop_bit_eq_div)
    have "b AND 0x0F \<le> 0x0F" by (rule word_and_le1)
    then show "unat (b AND 0x0F) < 16" by (simp add: word_le_nat_alt)
  qed
  have byte: "svf_text (put_hex_byte b) \<and> svf_digits (put_hex_byte b) = put_hex_byte b" for b
    using nib [OF small(1) [of b]] nib [OF small(2) [of b]] by (simp add: put_hex_byte_def app)
  show ?thesis
    by (induction ds) (simp_all add: byte app, simp_all add: svf_text_def svf_digits_def)
qed

lemma SVFVector_reread:
  assumes "length bs < 4294967289"
  shows "rbind (SVFVector_of_binary (bv_make bs p)) (\<lambda>v. SVFVector_of_text (svf_data v) (svf_usedBits v))
    = SVFVector_of_binary (bv_make bs p)"
proof -
  obtain ds where ds: "SVFVector_of_binary (bv_make bs p)
      = Inr \<lparr>svf_data = concat (map put_hex_byte ds), svf_usedBits = length bs\<rparr>"
    "data_bits ds = replicate (padding (length bs)) False @ bs"
    using SVFVector_of_binary_eq [of bs p] assms by auto
  let ?t = "concat (map put_hex_byte ds)"
  have k: "length ds = (length bs + 7) div 8"
    using arg_cong [OF ds(2), of length] ceil8 [of "length bs"] by simp
  have len: "length ?t = 2 * length ds" using put_hex_bytes [of ds] by simp
  have n: "length bs \<le> 4 * length ?t" using len k ceil8 [of "length bs"] by simp
  have "length ?t < 4294967295" using len k assms by simp
  then have "CleanSvfString ?t (length bs) = Inr ?t"
    using put_hex_bytes_clean [of ds] n assms
    by (subst CleanSvfString_eq) (simp_all add: len k)
  then show ?thesis using ds(1) by (simp add: SVFVector_of_text_def)
qed

end
