(* ===== verification/BV_Properties.thy ===== *)
theory BV_Properties
  imports BV_Invariant BV_Text Hex_Text SVF_Vector
begin

text \<open>
  What \<^verbatim>\<open>BinaryVector\<close> and \<^verbatim>\<open>SVFVector\<close> promise, stated on the list of bits \<open>bits_of v\<close> of a vector
  satisfying the class invariant \<open>bv_inv\<close>. Each statement is followed, where it has hypotheses,
  by an instance on concrete vectors.
\<close>

section \<open>Invariant and growth\<close>

text \<open>C23: Every public member of BinaryVector that modifies the vector or makes another one by an operator
  on two vectors keeps the class invariant (exact byte count, bit count within 32 bits, unused bits zero) whenever it
  returns, as long as the sizes stay within 32 bits: AppendBits only on a size that is a multiple of 8 or for
  fewer than 8 bits, and AppendChunks for up to 8 chunks.\<close>

theorem modifiers_keep_invariant:
  assumes "bv_inv v" and "bv_inv w" and "m_usedBits v + m_usedBits w < 4294967296" and "m_usedBits v + 64 < 4294967296"
  shows "result_inv (Append w v) \<and> result_inv (concatenate v w)
    \<and> result_inv (Append_u8 x8 n al v) \<and> result_inv (Append_u16 x16 n al v) \<and> result_inv (Append_u32 x32 n al v)
    \<and> result_inv (Append_u64 x64 n al v) \<and> (length ds \<le> 8 \<longrightarrow> result_inv (AppendChunks n al ds v))
    \<and> (m_usedBits v + k + 7 < 4294967296 \<longrightarrow> result_inv (PrependBits k pat v))
    \<and> (m_usedBits v + k < 4294967296 \<longrightarrow> m_usedBits v mod 8 = 0 \<or> k < 8 \<longrightarrow> bv_inv (fst (AppendBits b k v)))
    \<and> result_inv (assign_copy v w) \<and> (\<forall>u u'. assign_move v w = Inr (u, u') \<longrightarrow> bv_inv u \<and> bv_inv u')
    \<and> bv_inv (Clear v) \<and> bv_inv (FixSize b v) \<and> result_inv (TruncateLeadingZeroes k v)
    \<and> result_inv (and_assign v w) \<and> result_inv (or_assign v w) \<and> result_inv (xor_assign v w)
    \<and> result_inv (ToggleBits v) \<and> result_inv (toggled v)
    \<and> result_inv (SetBit i v) \<and> result_inv (ClearBit i v) \<and> result_inv (ToggleBit i v)
    \<and> result_inv (Set_u8 x8 v) \<and> result_inv (Set_u16 x16 v) \<and> result_inv (Set_u32 x32 v) \<and> result_inv (Set_u64 x64 v)
    \<and> result_inv (Set_s8 x8 v) \<and> result_inv (Set_s16 x16 v) \<and> result_inv (Set_s32 x32 v) \<and> result_inv (Set_s64 x64 v)
    \<and> (off + m_usedBits w < 4294967296 \<longrightarrow> result_inv (SetSlice null slack off w v))
    \<and> result_inv (SetSlice_u8 null slack rng x8 v) \<and> result_inv (SetSlice_u16 null slack rng x16 v)
    \<and> result_inv (SetSlice_u32 null slack rng x32 v) \<and> result_inv (SetSlice_u64 null slack rng x64 v)"
proof -
  obtain bs p cs q where v: "v = bv_make bs p" and w: "w = bv_make cs q" "length cs < 4294967296"
    using assms(1,2) bv_inv_cases by metis
  have len: "length bs + length cs < 4294967296" "length bs + 64 < 4294967296" using assms v w by simp_all
  show ?thesis
    unfolding v w(1)
    by (intro conjI impI allI result_inv_Append result_inv_concatenate result_inv_Append_u8 result_inv_Append_words result_inv_AppendChunks
        result_inv_PrependBits AppendBits_inv result_inv_assign result_inv_bits result_inv_TruncateLeadingZeroes result_inv_Set_words
        result_inv_SetSlice result_inv_SetSlice_words; use len w(2) in \<open>auto dest: result_inv_assign(2)\<close>)
qed

theorem modifiers_keep_invariant_witness:
  "(\<exists>u. Append (bv_make [True, False, True] NotFixed) (bv_make [True] NotFixed) = Inr u \<and> bv_inv u)
    \<and> bv_inv (fst (AppendBits True 3 (bv_make [True] NotFixed)))"
proof -
  note inv = modifiers_keep_invariant [of "bv_make [True] NotFixed" "bv_make [True, False, True] NotFixed"]
  have "\<exists>u. Append (bv_make [True, False, True] NotFixed) (bv_make [True] NotFixed) = Inr u" by (simp add: Append_make)
  moreover have "result_inv (Append (bv_make [True, False, True] NotFixed) (bv_make [True] NotFixed))" using inv by simp
  moreover have "bv_inv (fst (AppendBits True 3 (bv_make [True] NotFixed)))" using inv by simp
  ultimately show ?thesis by (auto simp: result_inv_def)
qed

text \<open>C35: Append(BinaryVector) adds exactly the bits of the argument after those of the vector, whatever the
  alignment of both within their bytes, and throws for a vector whose size property is Fixed. A vector
  that is FixedOnCopy is extended like one that is not fixed, although BinaryVector.hpp documents it as fixed.\<close>

theorem Append_refines:
  assumes "bv_inv v" and "bv_inv w" and "m_usedBits v + m_usedBits w < 4294967296"
  shows "case m_sizeProperty v of Fixed \<Rightarrow> Append w v = Inl LogicError
    | _ \<Rightarrow> \<exists>u. Append w v = Inr u \<and> bits_of u = bits_of v @ bits_of w \<and> m_sizeProperty u = m_sizeProperty v"
proof -
  obtain bs p cs q where "v = bv_make bs p" "w = bv_make cs q"
    using assms(1,2) bv_inv_cases by metis
  then show ?thesis using assms by (cases p) (simp_all add: Append_make)
qed

theorem Append_refines_witness:
  "(\<exists>u. Append (bv_make [False, True] Fixed) (bv_make [True, True, True] NotFixed) = Inr u
     \<and> bits_of u = [True, True, True, False, True])
   \<and> (\<exists>u. Append (bv_make [False] NotFixed) (bv_make [True] FixedOnCopy) = Inr u \<and> bits_of u = [True, False])
   \<and> Append (bv_make [False] NotFixed) (bv_make [True] Fixed) = Inl LogicError"
  using Append_refines [of "bv_make [True, True, True] NotFixed" "bv_make [False, True] Fixed"]
    Append_refines [of "bv_make [True] FixedOnCopy" "bv_make [False] NotFixed"]
    Append_refines [of "bv_make [True] Fixed" "bv_make [False] NotFixed"] by auto

text \<open>The four overloads Append(uintN_t, numberOfBits, alignment) append the numberOfBits
  rightmost, or leftmost, bits of the value; the 16 to 64 bits versions go through AppendChunks.\<close>

theorem Append_words:
  assumes "p \<noteq> Fixed" and "length bs + 64 < 4294967296" and "0 < n"
  shows "(n \<le> 8 \<longrightarrow> Append_u8 w8 n al (bv_make bs p) = Inr (bv_make (bs @ value_bits n al (word_bits w8)) p))
    \<and> (n \<le> 16 \<longrightarrow> Append_u16 w16 n al (bv_make bs p) = Inr (bv_make (bs @ value_bits n al (word_bits w16)) p))
    \<and> (n \<le> 32 \<longrightarrow> Append_u32 w32 n al (bv_make bs p) = Inr (bv_make (bs @ value_bits n al (word_bits w32)) p))
    \<and> (n \<le> 64 \<longrightarrow> Append_u64 w64 n al (bv_make bs p) = Inr (bv_make (bs @ value_bits n al (word_bits w64)) p))"
  using assms
  by (simp_all add: append_u8.append_make append_u16.append_make append_u32.append_make append_u64.append_make)

theorem Append_words_witness:
  "Append_u16 0x00A5 12 Right (bv_make [True] NotFixed)
   = Inr (bv_make ([True] @ value_bits 12 Right (word_bits (0x00A5 :: 16 word))) NotFixed)"
  using Append_words [of NotFixed "[True]" 12 "0x00A5" Right] by simp

section \<open>Slices\<close>

text \<open>C36: Slice(first, count) returns the count bits from offset first, and throws
  invalid_argument exactly when they do not lie inside the vector, as long as first + count fits
  in 32 bits.\<close>

theorem Slice_refines:
  assumes "bv_inv v" and "first + count < 4294967296"
  shows "if count = 0 \<or> first + count \<le> length (bits_of v)
    then \<exists>u. Slice first count v = Inr u \<and> bv_inv u \<and> bits_of u = take count (drop first (bits_of v))
    else Slice first count v = Inl InvalidArgument"
proof -
  obtain bs p where v: "v = bv_make bs p" "length bs < 4294967296" using assms(1) by (rule bv_inv_cases)
  show ?thesis using assms(2) v by (auto simp: Slice_make)
qed

theorem Slice_refines_witness:
  "\<exists>u. Slice 1 2 (bv_make [True, False, True, True] NotFixed) = Inr u \<and> bits_of u = [False, True]"
  using Slice_refines [of "bv_make [True, False, True, True] NotFixed" 1 2] by auto

text \<open>When first + count wraps around 32 bits, the range check of Slice passes and the copy
  loop reads past the end of the vector.\<close>

theorem Slice_overflow:
  assumes "first < length bs" and "count < 4294967296" and "4294967296 \<le> first + count"
    and "length bs < 4294967264"
  shows "Slice first count (bv_make bs p) = Inl UndefinedBehaviour"
  using assms by (rule Slice_wraps)

theorem Slice_overflow_witness:
  "Slice 4 4294967292 (bv_make [True, True, True, True, True] NotFixed) = Inl UndefinedBehaviour"
  by (rule Slice_overflow) simp_all

text \<open>C30: SetSlice(offset, value) replaces exactly the bits from offset on by those of value and
  changes no other bit, provided the byte after the assigned vector's data may be read (slack);
  it refuses an empty vector and a slice that does not fit.\<close>

theorem SetSlice_refines:
  assumes "bv_inv v" and "bv_inv w" and "bits_of w \<noteq> []" and "slack \<noteq> []"
    and "offset + length (bits_of w) < 4294967296"
  shows "if bits_of v = [] then SetSlice null slack offset w v = Inl RuntimeError
    else if offset + length (bits_of w) \<le> length (bits_of v)
    then \<exists>u. SetSlice null slack offset w v = Inr u \<and> bv_inv u \<and> m_sizeProperty u = m_sizeProperty v
      \<and> bits_of u = take offset (bits_of v) @ bits_of w @ drop (offset + length (bits_of w)) (bits_of v)
    else SetSlice null slack offset w v = Inl InvalidArgument"
proof -
  obtain bs p where v: "v = bv_make bs p" "length bs < 4294967296" using assms(1) by (rule bv_inv_cases)
  obtain cs q where w: "w = bv_make cs q" using assms(2) by (rule bv_inv_cases)
  show ?thesis using assms v by (auto simp: w SetSlice_make splice_def Suc_le_eq less_le_trans length_greater_0_conv [symmetric]
        simp del: length_greater_0_conv)
qed

theorem SetSlice_refines_witness:
  "\<exists>u. SetSlice False [0] 1 (bv_make [True, True] NotFixed) (bv_make [False, False, False, False] Fixed) = Inr u
     \<and> bits_of u = [False, True, True, False]"
  using SetSlice_refines [of "bv_make [False, False, False, False] Fixed" "bv_make [True, True] NotFixed" "[0]" 1 False]
  by (auto simp: drop_Cons')

text \<open>SetSlice at an offset that is not a byte boundary reads one byte past the data of the
  assigned vector when the last bits to copy are in the byte before.\<close>

theorem SetSlice_reads_past_source:
  assumes "length bs < 4294967296" and "offset + length cs \<le> length bs" and "cs \<noteq> []"
    and "offset mod 8 \<noteq> 0" and "(length cs + 7) div 8 < SetSlice_reads offset (length cs)"
  shows "SetSlice null [] offset (bv_make cs q) (bv_make bs p) = Inl UndefinedBehaviour"
  using assms by (rule SetSlice_overread)

theorem SetSlice_reads_past_source_witness:
  "SetSlice False [] 4 (bv_make (replicate 8 True) NotFixed) (bv_make (replicate 16 False) NotFixed) = Inl UndefinedBehaviour"
  by (rule SetSlice_reads_past_source) (simp_all add: SetSlice_reads_def)

section \<open>Bits, comparison and operators\<close>

text \<open>SetBit, ClearBit and ToggleBit change one bit and nothing else, and throw
  invalid_argument for an offset out of range.\<close>

theorem single_bits:
  assumes "bv_inv v"
  shows "if i < length (bits_of v)
    then (\<exists>u. SetBit i v = Inr u \<and> bits_of u = (bits_of v)[i := True])
       \<and> (\<exists>u. ClearBit i v = Inr u \<and> bits_of u = (bits_of v)[i := False])
       \<and> (\<exists>u. ToggleBit i v = Inr u \<and> bits_of u = (bits_of v)[i := \<not> bits_of v ! i])
    else SetBit i v = Inl InvalidArgument \<and> ClearBit i v = Inl InvalidArgument \<and> ToggleBit i v = Inl InvalidArgument"
proof -
  obtain bs p where "v = bv_make bs p" using assms by (rule bv_inv_cases)
  then show ?thesis by (simp add: SetBit_make ClearBit_make ToggleBit_make)
qed

theorem single_bits_witness:
  "\<exists>u. ToggleBit 1 (bv_make [False, False] Fixed) = Inr u \<and> bits_of u = [False, True]"
  using single_bits [of "bv_make [False, False] Fixed" 1] by auto

text \<open>The operators and, or, xor and not act bit by bit on vectors of the same size and throw
  logic_error on different sizes; comparison is equality of the bits, whatever the size
  property, and with a mask equality of the bits the mask selects.\<close>

theorem bitwise_and_comparison:
  assumes "bv_inv v" and "bv_inv w" and "length (bits_of v) = length (bits_of w)" and "bv_inv m"
    and "length (bits_of m) = length (bits_of v)" and "bits_of m \<noteq> []"
  shows "(\<exists>u. and_assign v w = Inr u \<and> bits_of u = map2 (\<and>) (bits_of v) (bits_of w))
    \<and> (\<exists>u. or_assign v w = Inr u \<and> bits_of u = map2 (\<or>) (bits_of v) (bits_of w))
    \<and> (\<exists>u. xor_assign v w = Inr u \<and> bits_of u = map2 (\<noteq>) (bits_of v) (bits_of w))
    \<and> (\<exists>u. toggled v = Inr u \<and> bits_of u = map Not (bits_of v))
    \<and> (CompareEqualTo v w = Inr (bits_of v = bits_of w))
    \<and> (CompareEqualTo_mask v w m = Inr (\<forall>i < length (bits_of v). bits_of m ! i \<longrightarrow> bits_of v ! i = bits_of w ! i))"
proof (intro conjI impI)
  obtain bs p cs q ms r where vwm: "v = bv_make bs p" "w = bv_make cs q" "m = bv_make ms r"
    using assms(1,2,4) bv_inv_cases by metis
  have "bs \<noteq> []" using assms vwm by auto
  then show "\<exists>u. and_assign v w = Inr u \<and> bits_of u = map2 (\<and>) (bits_of v) (bits_of w)"
    and "\<exists>u. or_assign v w = Inr u \<and> bits_of u = map2 (\<or>) (bits_of v) (bits_of w)"
    and "\<exists>u. xor_assign v w = Inr u \<and> bits_of u = map2 (\<noteq>) (bits_of v) (bits_of w)"
    and "\<exists>u. toggled v = Inr u \<and> bits_of u = map Not (bits_of v)"
    and "CompareEqualTo v w = Inr (bits_of v = bits_of w)"
    and "CompareEqualTo_mask v w m = Inr (\<forall>i < length (bits_of v). bits_of m ! i \<longrightarrow> bits_of v ! i = bits_of w ! i)"
    using assms by (simp_all add: vwm and_assign_make or_assign_make xor_assign_make toggled_make
        CompareEqualTo_make CompareEqualTo_mask_make)
qed

theorem bitwise_and_comparison_witness:
  "CompareEqualTo (bv_make [True, False] Fixed) (bv_make [True, False] NotFixed) = Inr True"
  using bitwise_and_comparison [of "bv_make [True, False] Fixed" "bv_make [True, False] NotFixed" "bv_make [True, True] NotFixed"]
  by simp

section \<open>Values\<close>

text \<open>A machine word stored with Set into a resizable vector is read back by Get, for the four
  unsigned widths.\<close>

theorem Set_Get_roundtrip:
  assumes "bv_inv v" and "m_sizeProperty v \<noteq> Fixed"
  shows "(rbind (Set_u8 w8 v) Get_u8 = Inr w8)
    \<and> (rbind (Set_u16 w16 v) Get_u16 = Inr w16)
    \<and> (rbind (Set_u32 w32 v) Get_u32 = Inr w32)
    \<and> (rbind (Set_u64 w64 v) Get_u64 = Inr w64)"
proof (intro conjI impI)
  obtain bs p where v: "v = bv_make bs p" "length bs < 4294967296" using assms(1) by (rule bv_inv_cases)
  have p: "p \<noteq> Fixed" using assms(2) v by simp
  have inj: "word_bits a = word_bits b \<Longrightarrow> a = b" for a b :: "'a::len word"
    by (metis bits_val_word_bits word_unat_eq_iff)
  have same: "widen LENGTH('a) False (word_bits w) = word_bits w" for w :: "'a::len word"
    by (simp add: widen_def)
  have ne: "word_bits w \<noteq> []" for w :: "'a::len word"
    by (metis len_gt_0 length_word_bits less_numeral_extra(3) list.size(3))
  show "rbind (Set_u8 w8 v) Get_u8 = Inr w8"
    using Get_make(1) [OF ne, of w8 p] same [of w8] by (auto simp: v p Set_unsigned_make dest: inj)
  show "rbind (Set_u16 w16 v) Get_u16 = Inr w16"
    using Get_make(2) [OF ne, of w16 p] same [of w16] by (auto simp: v p Set_unsigned_make dest: inj)
  show "rbind (Set_u32 w32 v) Get_u32 = Inr w32"
    using Get_make(3) [OF ne, of w32 p] same [of w32] by (auto simp: v p Set_unsigned_make dest: inj)
  show "rbind (Set_u64 w64 v) Get_u64 = Inr w64"
    using Get_make(4) [OF ne, of w64 p] same [of w64] by (auto simp: v p Set_unsigned_make dest: inj)
qed

theorem Set_Get_roundtrip_witness:
  "rbind (Set_u16 0x1234 (bv_make [True] NotFixed)) Get_u16 = Inr 0x1234"
  using Set_Get_roundtrip [of "bv_make [True] NotFixed" _ "0x1234"] by simp

text \<open>Get reads the vector as a number: the unsigned overloads give its value modulo the width
  of the type, the signed ones sign-extend from the leftmost bit.\<close>

theorem Get_values:
  assumes "bv_inv v" and "bits_of v \<noteq> []"
  shows "(\<exists>w. Get_u32 v = Inr w \<and> unat w = bits_val (bits_of v) mod 2 ^ 32)
    \<and> (\<exists>w. Get_u64 v = Inr w \<and> unat w = bits_val (bits_of v) mod 2 ^ 64)
    \<and> (length (bits_of v) \<le> 32 \<longrightarrow> (\<exists>w. Get_s32 v = Inr w \<and> sint w = bits_sval (bits_of v)))"
proof (intro conjI impI)
  obtain bs p where v: "v = bv_make bs p" "length bs < 4294967296" using assms(1) by (rule bv_inv_cases)
  have bs: "bs \<noteq> []" using assms(2) v by simp
  show "\<exists>w. Get_u32 v = Inr w \<and> unat w = bits_val (bits_of v) mod 2 ^ 32"
    using Get_make(3) [OF bs v(2), of p] unfolding v
    by (metis bits_of_make bits_val_widen bits_val_word_bits)
  show "\<exists>w. Get_u64 v = Inr w \<and> unat w = bits_val (bits_of v) mod 2 ^ 64"
    using Get_make(4) [OF bs v(2), of p] unfolding v
    by (metis bits_of_make bits_val_widen bits_val_word_bits)
  show "length (bits_of v) \<le> 32 \<Longrightarrow> \<exists>w. Get_s32 v = Inr w \<and> sint w = bits_sval (bits_of v)"
    using Get_make(6) [OF bs v(2), of p] bits_sval_widen [OF bs, of 32] unfolding v
    by (metis bits_of_make bits_sval_word_bits)
qed

theorem Get_values_witness:
  "\<exists>w. Get_s32 (bv_make [True, True, False] NotFixed) = Inr w \<and> sint w = - 2"
  using Get_values [of "bv_make [True, True, False] NotFixed"] by (simp add: bits_sval_def bits_val_def)

section \<open>Buffers, reversal, truncation\<close>

text \<open>DataRightAligned and CreateFromRightAlignedBuffer are inverse: the right aligned bytes
  of a vector, with its bit count, give the vector back.\<close>

theorem right_aligned_roundtrip:
  assumes "bv_inv v" and "length (bits_of v) + 7 < 4294967296"
  shows "rbind (DataRightAligned v) (\<lambda>ds. CreateFromRightAlignedBuffer ds (BitsCount v) (m_sizeProperty v)) = Inr v"
proof -
  obtain bs p where v: "v = bv_make bs p" "length bs < 4294967296" using assms(1) by (rule bv_inv_cases)
  obtain ds where ds: "DataRightAligned v = Inr ds" "data_bits ds = replicate (padding (length bs)) False @ bs"
    using DataRightAligned_make [OF v(2), of p] v(1) by blast
  have len: "8 * length ds = length bs + padding (length bs)"
    using arg_cong [OF ds(2), of length] by simp
  then have "length ds = (length bs + 7) div 8" using ceil8 [of "length bs"] by linarith
  then show ?thesis
    using assms(2) len ds by (simp add: v CreateFromRightAlignedBuffer_make)
qed

theorem right_aligned_roundtrip_witness:
  "rbind (DataRightAligned (bv_make [True, False, True] Fixed))
     (\<lambda>ds. CreateFromRightAlignedBuffer ds 3 Fixed) = Inr (bv_make [True, False, True] Fixed)"
  using right_aligned_roundtrip [of "bv_make [True, False, True] Fixed"] by (simp add: numeral_3_eq_3)

text \<open>ReverseSlice returns the bits of the slice in reverse order; reversing the whole vector
  twice gives its bits back.\<close>

theorem ReverseSlice_refines:
  assumes "bv_inv v" and "length (bits_of v) < 4294967289" and "first + count < 4294967296"
  shows "(if count = 0 \<or> first + count \<le> length (bits_of v)
    then \<exists>u. ReverseSlice first count v = Inr u \<and> bits_of u = rev (take count (drop first (bits_of v)))
    else ReverseSlice first count v = Inl InvalidArgument)
    \<and> (\<exists>u. rbind (ReverseSlice 0 (BitsCount v) v) (ReverseSlice 0 (BitsCount v)) = Inr u \<and> bits_of u = bits_of v)"
proof (intro conjI impI)
  obtain bs p where v: "v = bv_make bs p" "length bs < 4294967296" using assms(1) by (rule bv_inv_cases)
  show "if count = 0 \<or> first + count \<le> length (bits_of v)
    then \<exists>u. ReverseSlice first count v = Inr u \<and> bits_of u = rev (take count (drop first (bits_of v)))
    else ReverseSlice first count v = Inl InvalidArgument"
    and "\<exists>u. rbind (ReverseSlice 0 (BitsCount v) v) (ReverseSlice 0 (BitsCount v)) = Inr u \<and> bits_of u = bits_of v"
    using assms v by (auto simp: ReverseSlice_make)
qed

theorem ReverseSlice_refines_witness:
  "\<exists>u. ReverseSlice 1 3 (bv_make [True, True, False, False] NotFixed) = Inr u \<and> bits_of u = [False, False, True]"
  using ReverseSlice_refines [of "bv_make [True, True, False, False] NotFixed" 1 3] by auto

text \<open>TruncateLeadingZeroes removes leading bits only when they are all zero, so the number
  the vector stands for is unchanged; it refuses to remove a one and to resize a fixed vector.\<close>

theorem TruncateLeadingZeroes_value:
  assumes "bv_inv v"
  shows "if n \<le> length (takeWhile Not (bits_of v))
    then if FixedSize v \<and> n \<noteq> 0 then TruncateLeadingZeroes n v = Inl LogicError
      else \<exists>u. TruncateLeadingZeroes n v = Inr u \<and> length (bits_of u) = length (bits_of v) - n
        \<and> bits_val (bits_of u) = bits_val (bits_of v)
    else TruncateLeadingZeroes n v = Inl InvalidArgument"
proof -
  obtain bs p where v: "v = bv_make bs p" "length bs < 4294967296" using assms by (rule bv_inv_cases)
  have "bits_val (drop n bs) = bits_val bs" if "n \<le> length (takeWhile Not bs)"
  proof -
    have "take n bs = take n (takeWhile Not bs)" using that by (metis takeWhile_eq_take take_take min.absorb1)
    then have "\<forall>b \<in> set (take n bs). \<not> b" by (metis in_set_takeD set_takeWhileD)
    then have "take n bs = replicate (length (take n bs)) False" by (metis replicate_eqI)
    then have "bits_val (take n bs) = 0" by (metis bits_val_replicate)
    then show ?thesis using bits_val_append [of "take n bs" "drop n bs"] by simp
  qed
  then show ?thesis using v by (simp add: TruncateLeadingZeroes_make)
qed

theorem TruncateLeadingZeroes_value_witness:
  "\<exists>u. TruncateLeadingZeroes 1 (bv_make [False, False, True] NotFixed) = Inr u \<and> bits_val (bits_of u) = 1"
  using TruncateLeadingZeroes_value [of "bv_make [False, False, True] NotFixed" 1] by (auto simp: bits_val_def)

section \<open>Text\<close>

text \<open>C39: The binary text of a vector, with any ignorable separators and line length, is read back
  by CreateFromBinaryString as the same bits.\<close>

theorem binary_text_roundtrip:
  assumes "bv_inv v" and "ignorable q oc bpl eol"
  shows "\<exists>u. CreateFromBinaryString (Some (DataAsBinaryString q oc bpl eol pre v)) sp dc = Inr u
    \<and> bits_of u = bits_of v \<and> bv_inv u"
proof -
  obtain bs p where v: "v = bv_make bs p" "length bs < 4294967296" using assms(1) by (rule bv_inv_cases)
  show ?thesis using binary_roundtrip [OF assms(2) v(2), of pre p sp dc] v by simp
qed

theorem binary_text_roundtrip_witness:
  "\<exists>u. CreateFromBinaryString (Some (DataAsBinaryString ''_'' '':'' 0 '','' True (bv_make [True, False, True] Fixed))) NotFixed IsError = Inr u
    \<and> bits_of u = [True, False, True]"
  using binary_text_roundtrip [of "bv_make [True, False, True] Fixed" "''_''" "'':''" 0 "'',''" True NotFixed IsError]
  by (auto simp: ignorable_def ignored_chars_def)

text \<open>C40: The hexadecimal text of a vector, with or without the prefix and with any ignorable separators and line
  length, is read back by CreateFromHexString as the same bits followed by zeroes up to a whole number of
  digits. Only the text of an empty vector without prefix is not: reading it runs past its end.\<close>

theorem hex_text_roundtrip:
  assumes "bv_inv v" and "ignorable q oc bpl eol" and "length (bits_of v) < 4294967292"
  shows "if \<not> pre \<and> IsEmpty v then CreateFromHexString (Some (DataAsHexString q oc bpl eol pre v)) sp dc = Inl UndefinedBehaviour
    else \<exists>u k. CreateFromHexString (Some (DataAsHexString q oc bpl eol pre v)) sp dc = Inr u
      \<and> bits_of u = bits_of v @ replicate k False \<and> k < 4 \<and> (length (bits_of v) + k) mod 4 = 0"
proof -
  obtain bs p where v: "v = bv_make bs p" "length bs < 4294967296" using assms(1) by (rule bv_inv_cases)
  show ?thesis
  proof (cases "pre \<or> bs \<noteq> []")
    case True
    have "CreateFromHexString (Some (DataAsHexString q oc bpl eol pre v)) sp dc = Inr (bv_make (bs @ replicate (padding4 (length bs)) False) sp)"
      using hex_roundtrip [OF assms(2) _ True, of p sp dc] v assms(3) by simp
    then show ?thesis using True v padding4_less [of "length bs"] padding4_digits [of "length bs"]
      by (auto intro!: exI [of _ "padding4 (length bs)"])
  qed (use v hex_empty_unread in auto)
qed

theorem hex_text_roundtrip_witness:
  "(\<exists>u k. CreateFromHexString (Some (DataAsHexString ''_'' '':'' 0 '','' False (bv_make [True, False, True] Fixed))) NotFixed IsError = Inr u
      \<and> bits_of u = [True, False, True] @ replicate k False)
    \<and> CreateFromHexString (Some (DataAsHexString ''_'' '':'' 0 '','' False (bv_make [] Fixed))) NotFixed IsError = Inl UndefinedBehaviour"
proof -
  have ign: "ignorable ''_'' '':'' 0 '',''" by (simp add: ignorable_def ignored_chars_def)
  show ?thesis
    using hex_text_roundtrip [of "bv_make [True, False, True] Fixed", OF _ ign, where pre = False and sp = NotFixed and dc = IsError]
      hex_text_roundtrip [of "bv_make [] Fixed", OF _ ign, where pre = False and sp = NotFixed and dc = IsError] by auto
qed

text \<open>C38: A vector converted to SVF text and back is the same vector, and the SVF text it prints
  is accepted unchanged by the SVFVector text constructor.\<close>

theorem SVFVector_roundtrip:
  assumes "bv_inv v" and "length (bits_of v) < 4294967289"
  shows "(\<exists>u. rbind (SVFVector_of_binary v) ToBinaryVector = Inr u \<and> bits_of u = bits_of v)
    \<and> (rbind (SVFVector_of_binary v) (\<lambda>s. SVFVector_of_text (svf_data s) (svf_usedBits s)) = SVFVector_of_binary v)"
proof (intro conjI impI)
  obtain bs p where v: "v = bv_make bs p" using assms(1) by (rule bv_inv_cases)
  show "\<exists>u. rbind (SVFVector_of_binary v) ToBinaryVector = Inr u \<and> bits_of u = bits_of v"
    and "rbind (SVFVector_of_binary v) (\<lambda>s. SVFVector_of_text (svf_data s) (svf_usedBits s)) = SVFVector_of_binary v"
    using SVF_roundtrip [of bs p] SVFVector_reread [of bs p] assms(2) by (simp_all add: v)
qed

theorem SVFVector_roundtrip_witness:
  "\<exists>u. rbind (SVFVector_of_binary (bv_make [True, False, True, True, False, True, True, True, False] Fixed)) ToBinaryVector = Inr u
    \<and> bits_of u = [True, False, True, True, False, True, True, True, False]"
  using SVFVector_roundtrip [of "bv_make [True, False, True, True, False, True, True, True, False] Fixed"] by simp

text \<open>SVF text is accepted when it holds only digits and the ignored separators and at least
  bitsCount bits of digits; the vector is then made of the last bitsCount bits. Anything else is
  invalid_argument.\<close>

theorem SVFVector_text_value:
  assumes "n < 4294967289" and "length s < 4294967295"
  shows "rbind (SVFVector_of_text s n) ToBinaryVector
    = (if svf_text s \<and> n \<le> length (hex_bits s)
       then Inr (bv_make (drop (length (hex_bits s) - n) (hex_bits s)) NotFixed) else Inl InvalidArgument)"
  using assms by (rule SVFVector_text_bits)

theorem SVFVector_text_value_witness:
  "rbind (SVFVector_of_text ''1:a'' 6) ToBinaryVector = Inr (bv_make [False, True, True, False, True, False] NotFixed)"
proof -
  have "svf_text ''1:a''" "hex_bits ''1:a'' = [False, False, False, True, True, False, True, False]"
    by code_simp+
  then show ?thesis using SVFVector_text_value [of 6 "''1:a''"] by simp
qed

section \<open>Fixed size\<close>

text \<open>AppendBits does not honour the fixed size of a vector: whole bytes are added to a Fixed
  vector without any exception.\<close>

theorem AppendBits_ignores_Fixed:
  assumes "length bs mod 8 = 0" and "length bs + 8 * k < 4294967296"
  shows "AppendBits b (8 * k) (bv_make bs Fixed) = (bv_make (bs @ replicate (8 * k) b) Fixed, None)"
  using AppendBits_make [of bs "8 * k" Fixed b] assms by simp

theorem AppendBits_ignores_Fixed_witness:
  "AppendBits True 8 (bv_make [] Fixed) = (bv_make (replicate 8 True) Fixed, None)"
  using AppendBits_ignores_Fixed [of "[]" 1 True] by simp

end
