(* ===== verification/Registers.thy ===== *)
theory Registers
  imports BV_Slices
begin

text \<open>
  The class \<^verbatim>\<open>Register\<close> (\<^verbatim>\<open>Mast_Core/include/Register.hpp\<close>, \<^verbatim>\<open>Mast_Core/src/Register.cpp\<close>) and
  the part of its base \<^verbatim>\<open>SystemModelNode\<close> it uses. A register keeps what was and will be shifted
  to and from the circuit under test. Setters are actions on the register: the state they leave
  when the size check of an assignment throws is part of the model. \<open>reg_inv n\<close> is the class
  invariant of a register of \<open>n\<close> bits that is not a black box.
\<close>

section \<open>Data\<close>

datatype BitsOrdering = Undefined | Downto | Upto

record SystemModelNode =
  m_identifier :: nat
  m_name :: string
  m_pendingCount :: nat
  m_priority :: nat
  m_iRunloopCount :: nat

record Register = SystemModelNode +
  m_pendingRead :: bool
  m_holdValue :: bool
  m_mustCheckExpected :: bool
  m_isBlackBox :: bool
  m_bitsOrdering :: BitsOrdering
  m_mismatches :: nat
  m_nextToSut :: BinaryVector
  m_lastToSut :: BinaryVector
  m_lastFromSut :: BinaryVector
  m_lastReadFromSut :: BinaryVector
  m_expectedFromSut :: BinaryVector
  m_bypass :: BinaryVector
  m_dontCareMask :: BinaryVector
  m_resetValue :: BinaryVector

definition DEFAULT_NODE_NAME :: string where
  "DEFAULT_NODE_NAME = ''unnamed''"

definition MakeNodeName :: "string \<Rightarrow> string" where
  "MakeNodeName name = (if name = [] then DEFAULT_NODE_NAME else name)"

text \<open>The static counter \<^verbatim>\<open>sm_nextIdentifier\<close> is a 32-bit state of its own.\<close>

definition NextIdentifier :: "(nat, nat) act" where
  "NextIdentifier counter = (Inr counter, u32 (counter + 1))"

definition SetPendingCount :: "nat \<Rightarrow> 'a SystemModelNode_scheme \<Rightarrow> 'a SystemModelNode_scheme" where
  "SetPendingCount count n = n\<lparr>m_pendingCount := count\<rparr>"

definition IncrementPendings :: "nat \<Rightarrow> 'a SystemModelNode_scheme \<Rightarrow> 'a SystemModelNode_scheme" where
  "IncrementPendings count n = n\<lparr>m_pendingCount := u32 (m_pendingCount n + count)\<rparr>"

definition SetPending :: "'a SystemModelNode_scheme \<Rightarrow> 'a SystemModelNode_scheme" where
  "SetPending n = n\<lparr>m_pendingCount := 1\<rparr>"

definition Node_ResetPending :: "'a SystemModelNode_scheme \<Rightarrow> 'a SystemModelNode_scheme" where
  "Node_ResetPending n = n\<lparr>m_pendingCount := 0\<rparr>"

definition Node_IsPending :: "'a SystemModelNode_scheme \<Rightarrow> bool" where
  "Node_IsPending n = (m_pendingCount n \<noteq> 0)"

section \<open>Construction and getters\<close>

definition Register_create ::
    "nat \<Rightarrow> string \<Rightarrow> BinaryVector \<Rightarrow> BinaryVector \<Rightarrow> bool \<Rightarrow> BitsOrdering \<Rightarrow> Register result" where
  "Register_create ident name bypassSequence resetSequence holdValue bitsOrdering =
    rbind (BinaryVector_fill (BitsCount bypassSequence) 0 NotFixed) (\<lambda>lastRead.
      let resetValue = fst (BinaryVector_move resetSequence);
          reg = \<lparr>m_identifier = ident, m_name = MakeNodeName name, m_pendingCount = 0,
                 m_priority = 0, m_iRunloopCount = 0,
                 m_pendingRead = False, m_holdValue = holdValue, m_mustCheckExpected = False,
                 m_isBlackBox = False, m_bitsOrdering = bitsOrdering, m_mismatches = 0,
                 m_nextToSut = BinaryVector_copy_as bypassSequence Fixed,
                 m_lastToSut = BinaryVector_copy_as bypassSequence Fixed,
                 m_lastFromSut = BinaryVector_copy_as bypassSequence Fixed,
                 m_lastReadFromSut = lastRead,
                 m_expectedFromSut = BinaryVector_copy_as bypassSequence Fixed,
                 m_bypass = (fst (BinaryVector_move bypassSequence))\<lparr>m_sizeProperty := Fixed\<rparr>,
                 m_dontCareMask = BinaryVector_empty,
                 m_resetValue = resetValue\<rparr>
      in if \<not> IsEmpty resetValue
         then CheckParameterCondition (BitsCount resetValue = BitsCount (m_bypass reg))
                (Inr (reg\<lparr>m_resetValue := FixSize True resetValue\<rparr>))
         else Inr reg)"

definition Register_create_no_reset ::
    "nat \<Rightarrow> string \<Rightarrow> BinaryVector \<Rightarrow> bool \<Rightarrow> BitsOrdering \<Rightarrow> Register result" where
  "Register_create_no_reset ident name bypassSequence holdValue bitsOrdering =
    Register_create ident name (BinaryVector_copy bypassSequence) BinaryVector_empty holdValue bitsOrdering"

definition SetAsBlackBox :: "Register \<Rightarrow> Register" where
  "SetAsBlackBox r =
    r\<lparr>m_isBlackBox := True,
      m_nextToSut := FixSize False (m_nextToSut r),
      m_lastToSut := FixSize False (m_lastToSut r),
      m_lastFromSut := FixSize False (m_lastFromSut r),
      m_lastReadFromSut := FixSize False (m_lastReadFromSut r),
      m_expectedFromSut := FixSize False (m_expectedFromSut r),
      m_bypass := FixSize False (m_bypass r),
      m_dontCareMask := FixSize False (m_dontCareMask r),
      m_resetValue := FixSize False (m_resetValue r)\<rparr>"

definition Register_BitsCount :: "Register \<Rightarrow> nat" where
  "Register_BitsCount r = BitsCount (m_bypass r)"

definition Register_IsPending :: "Register \<Rightarrow> bool" where
  "Register_IsPending r = (m_pendingRead r \<or> Node_IsPending r)"

definition Register_PendingCount :: "Register \<Rightarrow> nat" where
  "Register_PendingCount r = (if m_pendingRead r \<or> Node_IsPending r then 1 else 0)"

definition Register_LastCompareResult :: "Register \<Rightarrow> BinaryVector result" where
  "Register_LastCompareResult r =
    rbind (bitxor (m_lastReadFromSut r) (m_expectedFromSut r)) (\<lambda>res.
      if \<not> IsEmpty (m_dontCareMask r) then and_assign res (m_dontCareMask r) else Inr res)"

section \<open>Setters\<close>

text \<open>Assignment to a member: \<^verbatim>\<open>operator=\<close> of \<^verbatim>\<open>BinaryVector\<close>, copying or moving.\<close>

definition copy_to ::
    "('s \<Rightarrow> BinaryVector) \<Rightarrow> (BinaryVector \<Rightarrow> 's \<Rightarrow> 's) \<Rightarrow> BinaryVector \<Rightarrow> ('s, unit) act" where
  "copy_to sel put rhs = act_assign (\<lambda>s. assign_copy (sel s) rhs) put"

definition move_to ::
    "('s \<Rightarrow> BinaryVector) \<Rightarrow> (BinaryVector \<Rightarrow> 's \<Rightarrow> 's) \<Rightarrow> BinaryVector \<Rightarrow> ('s, unit) act" where
  "move_to sel put rhs = act_assign (\<lambda>s. rbind (assign_move (sel s) rhs) (\<lambda>(v, _). Inr v)) put"

definition put_nextToSut :: "BinaryVector \<Rightarrow> Register \<Rightarrow> Register" where
  "put_nextToSut v r = r\<lparr>m_nextToSut := v\<rparr>"

definition put_lastToSut :: "BinaryVector \<Rightarrow> Register \<Rightarrow> Register" where
  "put_lastToSut v r = r\<lparr>m_lastToSut := v\<rparr>"

definition put_lastFromSut :: "BinaryVector \<Rightarrow> Register \<Rightarrow> Register" where
  "put_lastFromSut v r = r\<lparr>m_lastFromSut := v\<rparr>"

definition put_lastReadFromSut :: "BinaryVector \<Rightarrow> Register \<Rightarrow> Register" where
  "put_lastReadFromSut v r = r\<lparr>m_lastReadFromSut := v\<rparr>"

definition put_expectedFromSut :: "BinaryVector \<Rightarrow> Register \<Rightarrow> Register" where
  "put_expectedFromSut v r = r\<lparr>m_expectedFromSut := v\<rparr>"

definition put_bypass :: "BinaryVector \<Rightarrow> Register \<Rightarrow> Register" where
  "put_bypass v r = r\<lparr>m_bypass := v\<rparr>"

definition put_dontCareMask :: "BinaryVector \<Rightarrow> Register \<Rightarrow> Register" where
  "put_dontCareMask v r = r\<lparr>m_dontCareMask := v\<rparr>"

definition Register_ResetPending :: "Register \<Rightarrow> Register" where
  "Register_ResetPending r = Node_ResetPending (r\<lparr>m_pendingRead := False\<rparr>)"

definition SetPendingForWrite :: "bool \<Rightarrow> Register \<Rightarrow> Register" where
  "SetPendingForWrite pendingForWrite r = SetPendingCount (if pendingForWrite then 1 else 0) r"

definition SetPendingForRead :: "bool \<Rightarrow> Register \<Rightarrow> Register" where
  "SetPendingForRead pendingForRead r = r\<lparr>m_pendingRead := pendingForRead\<rparr>"

definition SetHoldValue :: "bool \<Rightarrow> Register \<Rightarrow> Register" where
  "SetHoldValue holdValue r = r\<lparr>m_holdValue := holdValue\<rparr>"

definition SetCheckExpected :: "bool \<Rightarrow> Register \<Rightarrow> Register" where
  "SetCheckExpected checkExpected r = r\<lparr>m_mustCheckExpected := checkExpected\<rparr>"

definition ResetMismatches :: "Register \<Rightarrow> Register" where
  "ResetMismatches r = r\<lparr>m_mismatches := 0\<rparr>"

definition Register_SetToSut :: "BinaryVector \<Rightarrow> (Register, unit) act" where
  "Register_SetToSut sequence =
    act_then (act_when m_holdValue (copy_to m_bypass put_bypass sequence))
             (copy_to m_nextToSut put_nextToSut sequence)"

definition Register_SetToSut_move :: "BinaryVector \<Rightarrow> (Register, unit) act" where
  "Register_SetToSut_move sequence =
    act_then (act_when m_holdValue (copy_to m_bypass put_bypass sequence))
             (move_to m_nextToSut put_nextToSut sequence)"

text \<open>The member templates take the overload of \<^verbatim>\<open>BinaryVector::Set\<close> their type selects.\<close>

definition Register_SetToSut_T :: "('v \<Rightarrow> BinaryVector \<Rightarrow> BinaryVector result) \<Rightarrow> 'v \<Rightarrow> (Register, unit) act" where
  "Register_SetToSut_T set_overload newValue =
    act_then (act_assign (\<lambda>r. set_overload newValue (m_nextToSut r)) put_nextToSut)
      (act_when m_holdValue (act_assign (\<lambda>r. set_overload newValue (m_bypass r)) put_bypass))"

definition SetBypass :: "BinaryVector \<Rightarrow> (Register, unit) act" where
  "SetBypass = move_to m_bypass put_bypass"

definition Register_SetExpectedFromSut :: "BinaryVector \<Rightarrow> (Register, unit) act" where
  "Register_SetExpectedFromSut = move_to m_expectedFromSut put_expectedFromSut"

text \<open>The temporary \<^verbatim>\<open>BinaryVector(n, 0, SizeProperty::Fixed)\<close> is moved into the empty mask.\<close>

definition ensure_mask :: "(Register, unit) act" where
  "ensure_mask =
    act_when (\<lambda>r. IsEmpty (m_dontCareMask r))
      (act_assign (\<lambda>r. rbind (BinaryVector_fill (BitsCount (m_expectedFromSut r)) 0 Fixed) (\<lambda>tmp.
                        rbind (assign_move (m_dontCareMask r) tmp) (\<lambda>(v, _). Inr v))) put_dontCareMask)"

definition Register_SetExpectedFromSut_mask :: "BinaryVector \<Rightarrow> BinaryVector \<Rightarrow> (Register, unit) act" where
  "Register_SetExpectedFromSut_mask sequence dontCareMask =
    (if IsEmpty dontCareMask
     then act_then (act_modify (\<lambda>r. put_dontCareMask (Clear (m_dontCareMask r)) r))
                   (Register_SetExpectedFromSut (BinaryVector_copy sequence))
     else if BitsCount dontCareMask \<noteq> BitsCount sequence then act_throw InvalidArgument
     else act_then ensure_mask
          (act_then (move_to m_expectedFromSut put_expectedFromSut sequence)
                    (move_to m_dontCareMask put_dontCareMask dontCareMask)))"

definition Register_SetExpectedFromSut_T ::
    "('v \<Rightarrow> BinaryVector \<Rightarrow> BinaryVector result) \<Rightarrow> 'v \<Rightarrow> (Register, unit) act" where
  "Register_SetExpectedFromSut_T set_overload newValue =
    act_assign (\<lambda>r. set_overload newValue (m_expectedFromSut r)) put_expectedFromSut"

definition Register_SetExpectedFromSut_mask_T ::
    "('v \<Rightarrow> BinaryVector \<Rightarrow> BinaryVector result) \<Rightarrow> 'v \<Rightarrow> 'v \<Rightarrow> (Register, unit) act" where
  "Register_SetExpectedFromSut_mask_T set_overload newValue dontCareMask =
    act_then (act_assign (\<lambda>r. set_overload newValue (m_expectedFromSut r)) put_expectedFromSut)
      (act_then ensure_mask
        (act_assign (\<lambda>r. set_overload dontCareMask (m_dontCareMask r)) put_dontCareMask))"

definition UpdateLastToSut :: "(Register, unit) act" where
  "UpdateLastToSut r = copy_to m_lastToSut put_lastToSut (m_nextToSut r) r"

definition Register_ResetSize :: "nat \<Rightarrow> (Register, unit) act" where
  "Register_ResetSize newSize =
    act_assign (\<lambda>r. rbind (BinaryVector_fill newSize 0 NotFixed) (\<lambda>dummy.
                    rbind (assign_move (m_bypass r) dummy) (\<lambda>(v, _). Inr v))) put_bypass"

definition SetFromSut :: "BinaryVector \<Rightarrow> (Register, unit) act" where
  "SetFromSut sequence =
    act_then (act_when m_pendingRead (copy_to m_lastReadFromSut put_lastReadFromSut sequence))
   (act_then (act_when m_mustCheckExpected
               (act_bind (act_read (\<lambda>r. CompareEqualTo_mask sequence (m_expectedFromSut r) (m_dontCareMask r)))
                 (\<lambda>same. if \<not> same then act_modify (\<lambda>r. r\<lparr>m_mismatches := u32 (m_mismatches r + 1)\<rparr>)
                         else act_return ())))
             (move_to m_lastFromSut put_lastFromSut sequence))"

definition Register_Reset :: "(Register, unit) act" where
  "Register_Reset =
    act_then (act_modify (\<lambda>r. put_dontCareMask (Clear (m_dontCareMask r))
                ((Register_ResetPending r)\<lparr>m_mismatches := 0, m_mustCheckExpected := False\<rparr>)))
      (\<lambda>r. if IsEmpty (m_resetValue r) then act_return () r
           else act_then (copy_to m_bypass put_bypass (m_resetValue r))
                         (copy_to m_nextToSut put_nextToSut (m_resetValue r)) r)"

section \<open>The class invariant\<close>

definition fixed_bits :: "nat \<Rightarrow> BinaryVector \<Rightarrow> bool" where
  "fixed_bits n v \<longleftrightarrow> v = bv_make (bits_of v) Fixed \<and> length (bits_of v) = n"

definition loose :: "BinaryVector \<Rightarrow> bool" where
  "loose v \<longleftrightarrow> v = bv_make (bits_of v) NotFixed \<and> length (bits_of v) < 4294967296"

definition reg_inv :: "nat \<Rightarrow> Register \<Rightarrow> bool" where
  "reg_inv n r \<longleftrightarrow> n < 4294967296
    \<and> fixed_bits n (m_nextToSut r) \<and> fixed_bits n (m_lastToSut r) \<and> fixed_bits n (m_lastFromSut r)
    \<and> fixed_bits n (m_expectedFromSut r) \<and> fixed_bits n (m_bypass r)
    \<and> loose (m_lastReadFromSut r) \<and> loose (m_dontCareMask r)
    \<and> (m_resetValue r = bv_make [] NotFixed \<or> fixed_bits n (m_resetValue r))
    \<and> m_mismatches r < 4294967296 \<and> m_pendingCount r \<le> 1 \<and> \<not> m_isBlackBox r"

text \<open>What a caller may pass by value or by reference: any vector that is not fixed on copy.\<close>

definition plain :: "BinaryVector \<Rightarrow> bool" where
  "plain v \<longleftrightarrow> bv_inv v \<and> m_sizeProperty v \<noteq> FixedOnCopy"

lemma fixed_make [simp]: "fixed_bits n (bv_make bs p) \<longleftrightarrow> p = Fixed \<and> length bs = n"
  by (auto simp: fixed_bits_def)

lemma loose_make [simp]: "loose (bv_make bs p) \<longleftrightarrow> p = NotFixed \<and> length bs < 4294967296"
  by (auto simp: loose_def)

lemma plain_make [simp]: "plain (bv_make bs p) \<longleftrightarrow> p \<noteq> FixedOnCopy \<and> length bs < 4294967296"
  by (auto simp: plain_def)

lemma plain_cases: "plain v \<Longrightarrow> v = bv_make (bits_of v) (m_sizeProperty v) \<and> length (bits_of v) < 4294967296"
  using bv_inv_imp_make [of v] unfolding plain_def by (metis bv_inv_make)

lemma fixedE:
  assumes "fixed_bits n v"
  obtains bs where "v = bv_make bs Fixed" "length bs = n"
  using assms unfolding fixed_bits_def by blast

lemma looseE:
  assumes "loose v"
  obtains bs where "v = bv_make bs NotFixed" "length bs < 4294967296"
  using assms unfolding loose_def by blast

lemma plainE:
  assumes "plain v"
  obtains bs p where "v = bv_make bs p" "length bs < 4294967296" "p \<noteq> FixedOnCopy"
  using plain_cases [OF assms] assms unfolding plain_def by metis

text \<open>Assignments to members of known length.\<close>

lemma assign_fixed:
  assumes "fixed_bits n v" and "plain rhs"
  shows "assign_copy v rhs = (if BitsCount rhs = n then Inr (bv_make (bits_of rhs) Fixed) else Inl LogicError)"
    and "rbind (assign_move v rhs) (\<lambda>(u, _). Inr u)
      = (if BitsCount rhs = n then Inr (bv_make (bits_of rhs) Fixed) else Inl LogicError)"
proof -
  obtain bs where v: "v = bv_make bs Fixed" "length bs = n" using assms(1) by (rule fixedE)
  obtain cs q where r: "rhs = bv_make cs q" "q \<noteq> FixedOnCopy" using assms(2) by (rule plainE)
  show "assign_copy v rhs = (if BitsCount rhs = n then Inr (bv_make (bits_of rhs) Fixed) else Inl LogicError)"
    and "rbind (assign_move v rhs) (\<lambda>(u, _). Inr u)
      = (if BitsCount rhs = n then Inr (bv_make (bits_of rhs) Fixed) else Inl LogicError)"
    using v r by (auto simp: assign_copy_make assign_move_make)
qed

lemma assign_loose:
  assumes "loose v" and "plain rhs"
  shows "assign_copy v rhs = Inr (bv_make (bits_of rhs) NotFixed)"
    and "rbind (assign_move v rhs) (\<lambda>(u, _). Inr u) = Inr (bv_make (bits_of rhs) NotFixed)"
proof -
  obtain bs where v: "v = bv_make bs NotFixed" using assms(1) by (rule looseE)
  obtain cs q where r: "rhs = bv_make cs q" "q \<noteq> FixedOnCopy" using assms(2) by (rule plainE)
  show "assign_copy v rhs = Inr (bv_make (bits_of rhs) NotFixed)"
    and "rbind (assign_move v rhs) (\<lambda>(u, _). Inr u) = Inr (bv_make (bits_of rhs) NotFixed)"
    using v r by (auto simp: assign_copy_make assign_move_make)
qed

lemma plain_len: "plain v \<Longrightarrow> BitsCount v = length (bits_of v) \<and> length (bits_of v) < 4294967296"
  by (metis BitsCount_make plainE bits_of_make)

lemmas put_defs =
  put_nextToSut_def put_lastToSut_def put_lastFromSut_def put_lastReadFromSut_def
  put_expectedFromSut_def put_bypass_def put_dontCareMask_def

lemma reg_invD:
  assumes "reg_inv n r"
  shows "fixed_bits n (m_nextToSut r)" "fixed_bits n (m_lastToSut r)" "fixed_bits n (m_lastFromSut r)"
    "fixed_bits n (m_expectedFromSut r)" "fixed_bits n (m_bypass r)" "loose (m_lastReadFromSut r)"
    "loose (m_dontCareMask r)" "m_resetValue r = bv_make [] NotFixed \<or> fixed_bits n (m_resetValue r)"
    "n < 4294967296" "m_mismatches r < 4294967296" "m_pendingCount r \<le> 1" "\<not> m_isBlackBox r"
  using assms by (simp_all add: reg_inv_def)

text \<open>Writing one member keeps the invariant when the member keeps its own.\<close>

lemma reg_inv_put:
  assumes "reg_inv n r"
  shows "fixed_bits n v \<Longrightarrow> reg_inv n (put_nextToSut v r)" "fixed_bits n v \<Longrightarrow> reg_inv n (put_lastToSut v r)"
    "fixed_bits n v \<Longrightarrow> reg_inv n (put_lastFromSut v r)" "fixed_bits n v \<Longrightarrow> reg_inv n (put_expectedFromSut v r)"
    "fixed_bits n v \<Longrightarrow> reg_inv n (put_bypass v r)" "loose v \<Longrightarrow> reg_inv n (put_lastReadFromSut v r)"
    "loose v \<Longrightarrow> reg_inv n (put_dontCareMask v r)"
  using assms by (simp_all add: reg_inv_def put_defs)

text \<open>A member of a register with its invariant: the interface the setters are proved against.\<close>

locale register_member =
  fixes sel :: "Register \<Rightarrow> BinaryVector" and put :: "BinaryVector \<Rightarrow> Register \<Rightarrow> Register"
  assumes sel_fixed: "reg_inv n r \<Longrightarrow> fixed_bits n (sel r)"
    and put_inv: "reg_inv n r \<Longrightarrow> fixed_bits n v \<Longrightarrow> reg_inv n (put v r)"
    and sel_put: "sel (put v r) = v"
begin

lemma copy_to_eq:
  assumes "reg_inv n r" and "plain v"
  shows "copy_to sel put v r
    = (if BitsCount v = n then (Inr (), put (bv_make (bits_of v) Fixed) r) else (Inl LogicError, r))"
  using assign_fixed [OF sel_fixed [OF assms(1)] assms(2)] by (simp add: copy_to_def act_simps)

lemma move_to_eq:
  assumes "reg_inv n r" and "plain v"
  shows "move_to sel put v r
    = (if BitsCount v = n then (Inr (), put (bv_make (bits_of v) Fixed) r) else (Inl LogicError, r))"
  using assign_fixed [OF sel_fixed [OF assms(1)] assms(2)] by (simp add: move_to_def act_simps)

lemma put_bits_inv:
  "reg_inv n r \<Longrightarrow> plain v \<Longrightarrow> BitsCount v = n \<Longrightarrow> reg_inv n (put (bv_make (bits_of v) Fixed) r)"
  using plain_len [of v] by (intro put_inv) simp_all

lemma keeps_copy_to: "plain v \<Longrightarrow> keeps (reg_inv n) (copy_to sel put v)"
  by (auto simp: keeps_def copy_to_eq intro: put_bits_inv)

lemma keeps_move_to: "plain v \<Longrightarrow> keeps (reg_inv n) (move_to sel put v)"
  by (auto simp: keeps_def move_to_eq intro: put_bits_inv)

lemma keeps_set_overload:
  assumes "\<And>bs. length bs = n \<Longrightarrow> succeeds (set_overload x (bv_make bs Fixed)) (fixed_bits n) \<or> (\<exists>e. set_overload x (bv_make bs Fixed) = Inl e)"
  shows "keeps (reg_inv n) (act_assign (\<lambda>r. set_overload x (sel r)) put)"
proof (rule keeps_assign)
  fix r y assume r: "reg_inv n r" and y: "set_overload x (sel r) = Inr y"
  obtain bs where "sel r = bv_make bs Fixed" "length bs = n" using sel_fixed [OF r] by (rule fixedE)
  then have "fixed_bits n y" using assms [of bs] y by auto
  then show "reg_inv n (put y r)" by (rule put_inv [OF r])
qed

end

interpretation to_sut: register_member m_nextToSut put_nextToSut
  by unfold_locales (simp_all add: reg_inv_def put_defs)

interpretation sent: register_member m_lastToSut put_lastToSut
  by unfold_locales (simp_all add: reg_inv_def put_defs)

interpretation from_sut: register_member m_lastFromSut put_lastFromSut
  by unfold_locales (simp_all add: reg_inv_def put_defs)

interpretation expected: register_member m_expectedFromSut put_expectedFromSut
  by unfold_locales (simp_all add: reg_inv_def put_defs)

interpretation bypass: register_member m_bypass put_bypass
  by unfold_locales (simp_all add: reg_inv_def put_defs)

section \<open>Every operation preserves the invariant\<close>

lemma Register_create_inv:
  assumes "plain bypassSequence" and "plain resetSequence" and "length (bits_of bypassSequence) < 4294967289"
    and "Register_create ident name bypassSequence resetSequence holdValue bitsOrdering = Inr r"
  shows "reg_inv (BitsCount bypassSequence) r"
proof -
  obtain bs p where b: "bypassSequence = bv_make bs p" "length bs < 4294967296" "p \<noteq> FixedOnCopy"
    using assms(1) by (rule plainE)
  obtain cs q where c: "resetSequence = bv_make cs q" "length cs < 4294967296" "q \<noteq> FixedOnCopy"
    using assms(2) by (rule plainE)
  have "length bs < 4294967289" using assms(3) b by simp
  then show ?thesis
    using assms(4) b c
    by (auto simp: Register_create_def BinaryVector_fill_make BinaryVector_move_make reg_inv_def check_defs
        BinaryVector_empty_make Let_def split: if_splits)
qed

lemma keeps_ensure_mask: "n < 4294967289 \<Longrightarrow> keeps (reg_inv n) ensure_mask"
proof (rule keepsI)
  fix r assume n: "n < 4294967289" and r: "reg_inv n r"
  obtain bs where e: "m_expectedFromSut r = bv_make bs Fixed" "length bs = n"
    using reg_invD(4) [OF r] by (rule fixedE)
  obtain ms where m: "m_dontCareMask r = bv_make ms NotFixed" using reg_invD(7) [OF r] by (rule looseE)
  have "reg_inv n (put_dontCareMask (bv_make (replicate n False) NotFixed) r)"
    using n by (intro reg_inv_put(7) [OF r]) simp
  then show "reg_inv n (snd (ensure_mask r))"
    using r e m n by (simp add: ensure_mask_def act_simps BinaryVector_fill_make assign_move_make)
qed

lemma keeps_put_mask: "plain v \<Longrightarrow> keeps (reg_inv n) (move_to m_dontCareMask put_dontCareMask v)"
  unfolding move_to_def using plain_len [of v]
  by (intro keeps_assign) (auto simp: reg_invD assign_loose intro: reg_inv_put)

lemma keeps_clear_mask:
  "reg_inv n r \<Longrightarrow> reg_inv n (put_dontCareMask (Clear (m_dontCareMask r)) r)"
  using looseE [OF reg_invD(7)] by (intro reg_inv_put) (force, metis Clear_make loose_make list.size(3) zero_less_numeral)

lemmas keeps_intros = keeps_act_if keeps_act_when keeps_then keeps_bind keeps_if keeps_basic
  to_sut.keeps_copy_to to_sut.keeps_move_to sent.keeps_copy_to from_sut.keeps_move_to
  expected.keeps_move_to bypass.keeps_copy_to bypass.keeps_move_to keeps_put_mask keeps_modify

lemma keeps_SetToSut:
  assumes "plain v"
  shows "keeps (reg_inv n) (Register_SetToSut v)" "keeps (reg_inv n) (Register_SetToSut_move v)"
  using assms unfolding Register_SetToSut_def Register_SetToSut_move_def
  by (intro keeps_intros; simp)+

lemma keeps_SetExpectedFromSut:
  assumes "plain v"
  shows "keeps (reg_inv n) (Register_SetExpectedFromSut v)" "keeps (reg_inv n) (SetBypass v)"
  using assms unfolding Register_SetExpectedFromSut_def SetBypass_def by (intro keeps_intros; simp)+

lemma keeps_SetExpectedFromSut_mask:
  assumes "plain v" "plain m" "n < 4294967289"
  shows "keeps (reg_inv n) (Register_SetExpectedFromSut_mask v m)"
proof -
  have "plain (BinaryVector_copy v)" using assms(1) by (elim plainE) simp
  then show ?thesis
    using assms unfolding Register_SetExpectedFromSut_mask_def
    by (intro keeps_if keeps_intros keeps_ensure_mask keeps_SetExpectedFromSut keeps_clear_mask)
qed

lemma keeps_SetFromSut:
  assumes "plain v"
  shows "keeps (reg_inv n) (SetFromSut v)"
proof -
  have "keeps (reg_inv n) (copy_to m_lastReadFromSut put_lastReadFromSut v)"
    unfolding copy_to_def using plain_len [OF assms] assms
    by (intro keeps_assign) (auto simp: reg_invD assign_loose intro: reg_inv_put)
  moreover have "reg_inv n r \<Longrightarrow> reg_inv n (r\<lparr>m_mismatches := u32 (m_mismatches r + 1)\<rparr>)" for r
    by (simp add: reg_inv_def)
  ultimately show ?thesis
    using assms unfolding SetFromSut_def
    by (intro keeps_if keeps_intros)
qed

lemma keeps_UpdateLastToSut: "keeps (reg_inv n) UpdateLastToSut"
proof (rule keepsI)
  fix r assume r: "reg_inv n r"
  have "plain (m_nextToSut r)" using reg_invD(1,9) [OF r] by (elim fixedE) simp
  then show "reg_inv n (snd (UpdateLastToSut r))"
    unfolding UpdateLastToSut_def by (rule keepsD [OF sent.keeps_copy_to r])
qed

lemma keeps_ResetSize:
  assumes "k < 4294967289"
  shows "keeps (reg_inv n) (Register_ResetSize k)"
proof -
  have "Register_ResetSize k = move_to m_bypass put_bypass (bv_make (replicate k False) NotFixed)"
    using assms by (simp add: Register_ResetSize_def move_to_def BinaryVector_fill_make)
  then show ?thesis using assms by (simp add: bypass.keeps_move_to)
qed

lemma keeps_Reset: "keeps (reg_inv n) Register_Reset"
proof -
  have clear: "reg_inv n (put_dontCareMask (Clear (m_dontCareMask r))
      ((Register_ResetPending r)\<lparr>m_mismatches := 0, m_mustCheckExpected := False\<rparr>))" if "reg_inv n r" for r
  proof -
    have "reg_inv n ((Register_ResetPending r)\<lparr>m_mismatches := 0, m_mustCheckExpected := False\<rparr>)"
      using that by (simp add: reg_inv_def Register_ResetPending_def Node_ResetPending_def)
    from keeps_clear_mask [OF this] show ?thesis
      by (simp add: Register_ResetPending_def Node_ResetPending_def)
  qed
  have res: "keeps (reg_inv n) (\<lambda>r. if IsEmpty (m_resetValue r) then act_return () r
           else act_then (copy_to m_bypass put_bypass (m_resetValue r))
                         (copy_to m_nextToSut put_nextToSut (m_resetValue r)) r)"
  proof (rule keepsI)
    fix r assume r: "reg_inv n r"
    show "reg_inv n (snd (if IsEmpty (m_resetValue r) then act_return () r
           else act_then (copy_to m_bypass put_bypass (m_resetValue r))
                         (copy_to m_nextToSut put_nextToSut (m_resetValue r)) r))"
    proof (cases "IsEmpty (m_resetValue r)")
      case False
      then have "plain (m_resetValue r)" using reg_invD(8,9) [OF r] by (auto elim: fixedE)
      then show ?thesis
        using False r by (auto intro: keepsD [OF keeps_then] bypass.keeps_copy_to to_sut.keeps_copy_to)
    qed (simp add: r)
  qed
  show ?thesis unfolding Register_Reset_def by (intro keeps_then keeps_modify clear res)
qed

lemma keeps_flags:
  assumes "reg_inv n r"
  shows "reg_inv n (SetPending r)" "reg_inv n (Register_ResetPending r)" "reg_inv n (SetPendingForRead b r)"
    "reg_inv n (SetPendingForWrite b r)" "reg_inv n (SetHoldValue b r)" "reg_inv n (SetCheckExpected b r)"
    "reg_inv n (ResetMismatches r)"
  using assms by (simp_all add: reg_inv_def SetPending_def Register_ResetPending_def Node_ResetPending_def
      SetPendingForRead_def SetPendingForWrite_def SetPendingCount_def SetHoldValue_def SetCheckExpected_def
      ResetMismatches_def)

text \<open>The member templates keep the invariant for each overload of \<^verbatim>\<open>Set\<close> that keeps the size of a fixed vector.\<close>

definition sizes_kept :: "('v \<Rightarrow> BinaryVector \<Rightarrow> BinaryVector result) \<Rightarrow> bool" where
  "sizes_kept set_overload \<longleftrightarrow> (\<forall>x bs p y. length bs < 4294967296 \<longrightarrow> set_overload x (bv_make bs p) = Inr y
    \<longrightarrow> (\<exists>cs. y = bv_make cs p \<and> length cs < 4294967296 \<and> (p = Fixed \<longrightarrow> length cs = length bs)))"

lemma sizes_keptD: "sizes_kept set_overload \<Longrightarrow> set_overload x (bv_make bs p) = Inr y \<Longrightarrow> length bs < 4294967296
    \<Longrightarrow> \<exists>cs. y = bv_make cs p \<and> length cs < 4294967296 \<and> (p = Fixed \<longrightarrow> length cs = length bs)"
  unfolding sizes_kept_def by blast

lemma sizes_kept_Set:
  "sizes_kept Set_u8" "sizes_kept Set_u16" "sizes_kept Set_u32" "sizes_kept Set_u64"
  "sizes_kept Set_s8" "sizes_kept Set_s16" "sizes_kept Set_s32" "sizes_kept Set_s64"
  by (auto simp: sizes_kept_def Set_unsigned_make Set_signed_make split: if_splits)

definition templates_keep :: "nat \<Rightarrow> ('v \<Rightarrow> BinaryVector \<Rightarrow> BinaryVector result) \<Rightarrow> 'v \<Rightarrow> 'v \<Rightarrow> bool" where
  "templates_keep n set_overload x dontCareMask \<longleftrightarrow> keeps (reg_inv n) (Register_SetToSut_T set_overload x)
    \<and> keeps (reg_inv n) (Register_SetExpectedFromSut_T set_overload x)
    \<and> keeps (reg_inv n) (Register_SetExpectedFromSut_mask_T set_overload x dontCareMask)"

lemma keeps_templates:
  assumes so: "sizes_kept set_overload" and n: "n < 4294967289"
  shows "templates_keep n set_overload x dontCareMask"
proof -
  have fixed: "succeeds (set_overload x (bv_make bs Fixed)) (fixed_bits n) \<or> (\<exists>e. set_overload x (bv_make bs Fixed) = Inl e)"
    if bs: "length bs = n" for bs x
  proof (cases "set_overload x (bv_make bs Fixed)")
    case (Inr y)
    then obtain cs where "y = bv_make cs Fixed" "length cs = n" using sizes_keptD [OF so Inr] n bs by auto
    then show ?thesis using Inr by simp
  qed simp
  have mask: "keeps (reg_inv n) (act_assign (\<lambda>r. set_overload dontCareMask (m_dontCareMask r)) put_dontCareMask)"
  proof (rule keeps_assign)
    fix r y assume r: "reg_inv n r" and y: "set_overload dontCareMask (m_dontCareMask r) = Inr y"
    obtain ms where m: "m_dontCareMask r = bv_make ms NotFixed" "length ms < 4294967296" using reg_invD(7) [OF r] by (rule looseE)
    obtain cs where "y = bv_make cs NotFixed" "length cs < 4294967296" using sizes_keptD [OF so y [unfolded m(1)] m(2)] by auto
    then have "loose y" by simp
    then show "reg_inv n (put_dontCareMask y r)" by (rule reg_inv_put(7) [OF r])
  qed
  note members = to_sut.keeps_set_overload expected.keeps_set_overload bypass.keeps_set_overload
  show ?thesis
    unfolding templates_keep_def Register_SetToSut_T_def Register_SetExpectedFromSut_T_def Register_SetExpectedFromSut_mask_T_def
    by (intro conjI keeps_then keeps_act_when members mask keeps_ensure_mask n; use fixed in simp)
qed

lemma keeps_node_setters:
  assumes "reg_inv n r"
  shows "reg_inv n (Node_ResetPending r)" "c \<le> 1 \<Longrightarrow> reg_inv n (SetPendingCount c r)"
    "m_pendingCount r + c \<le> 1 \<Longrightarrow> reg_inv n (IncrementPendings c r)"
  using assms by (auto simp: reg_inv_def Node_ResetPending_def SetPendingCount_def IncrementPendings_def u32_def)

section \<open>Behaviour of the operations\<close>

lemma Register_SetToSut_eq:
  assumes "reg_inv n r" and "plain v"
  shows "Register_SetToSut v r =
    (if BitsCount v = n
     then (Inr (), r\<lparr>m_bypass := if m_holdValue r then bv_make (bits_of v) Fixed else m_bypass r,
                     m_nextToSut := bv_make (bits_of v) Fixed\<rparr>)
     else (Inl LogicError, r))"
proof -
  have "reg_inv n (put_bypass (bv_make (bits_of v) Fixed) r)" if "BitsCount v = n"
    using bypass.put_bits_inv [OF assms that] .
  then show ?thesis
    using assms bypass.copy_to_eq [OF assms] to_sut.copy_to_eq [OF assms]
      to_sut.copy_to_eq [OF _ assms(2), of n "put_bypass (bv_make (bits_of v) Fixed) r"]
    by (simp add: Register_SetToSut_def act_then_def act_bind_def act_simps put_defs)
qed

lemma Register_SetToSut_move_eq:
  assumes "reg_inv n r" and "plain v"
  shows "Register_SetToSut_move v r = Register_SetToSut v r"
proof -
  have "reg_inv n (put_bypass (bv_make (bits_of v) Fixed) r)" if "BitsCount v = n"
    using bypass.put_bits_inv [OF assms that] .
  then show ?thesis
    using assms bypass.copy_to_eq [OF assms] to_sut.copy_to_eq [OF assms] to_sut.move_to_eq [OF assms]
      to_sut.copy_to_eq [OF _ assms(2), of n "put_bypass (bv_make (bits_of v) Fixed) r"]
      to_sut.move_to_eq [OF _ assms(2), of n "put_bypass (bv_make (bits_of v) Fixed) r"]
    by (simp add: Register_SetToSut_def Register_SetToSut_move_def act_then_def act_bind_def act_simps)
qed

text \<open>Comparison with the expected value as the standard asks: only the cared-for bits count.\<close>

definition care_equal :: "bool list \<Rightarrow> bool list \<Rightarrow> bool list \<Rightarrow> bool" where
  "care_equal xs ys ms = (length xs = length ys
     \<and> (if ms = [] then xs = ys else \<forall>i < length xs. ms ! i \<longrightarrow> xs ! i = ys ! i))"

lemma SetFromSut_eq:
  assumes r: "reg_inv n r" and v: "plain v" and len: "BitsCount v = n"
    and mask: "bits_of (m_dontCareMask r) = [] \<or> length (bits_of (m_dontCareMask r)) = n"
  shows "SetFromSut v r = (Inr (),
    r\<lparr>m_lastReadFromSut := if m_pendingRead r then bv_make (bits_of v) NotFixed else m_lastReadFromSut r,
      m_mismatches := if m_mustCheckExpected r
          \<and> \<not> care_equal (bits_of v) (bits_of (m_expectedFromSut r)) (bits_of (m_dontCareMask r))
        then u32 (m_mismatches r + 1) else m_mismatches r,
      m_lastFromSut := bv_make (bits_of v) Fixed\<rparr>)"
proof -
  obtain bs p where b: "v = bv_make bs p" "length bs < 4294967296" using v by (rule plainE)
  obtain es where e: "m_expectedFromSut r = bv_make es Fixed" "length es = n"
    using reg_invD(4) [OF r] by (rule fixedE)
  obtain ms where m: "m_dontCareMask r = bv_make ms NotFixed" using reg_invD(7) [OF r] by (rule looseE)
  have bs: "length bs = n" using len b by simp
  have cmp: "CompareEqualTo_mask v (m_expectedFromSut r) (m_dontCareMask r) = Inr (care_equal bs es ms)"
    using mask bs e by (auto simp: b(1) e(1) m CompareEqualTo_mask_make care_equal_def)
  have read: "copy_to m_lastReadFromSut put_lastReadFromSut v r = (Inr (), put_lastReadFromSut (bv_make bs NotFixed) r)"
    using assign_loose(1) [OF reg_invD(6) [OF r] v] b by (simp add: copy_to_def act_simps)
  have put: "move_to m_lastFromSut put_lastFromSut v s = (Inr (), put_lastFromSut (bv_make bs Fixed) s)"
    if "m_lastFromSut s = m_lastFromSut r" for s
    using assign_fixed(2) [OF reg_invD(3) [OF r] v] that b bs by (simp add: move_to_def act_assign_def)
  show ?thesis
    using cmp read b e m
    by (simp add: SetFromSut_def act_then_def act_bind_def act_simps put [unfolded b(1)] put_defs)
qed

text \<open>A value of the wrong length is counted as a mismatch, stored as last read, and then refused.\<close>

lemma SetFromSut_wrong_length:
  assumes r: "reg_inv n r" and v: "plain v" and len: "BitsCount v \<noteq> n"
  shows "fst (SetFromSut v r) = Inl LogicError"
    and "m_lastFromSut (snd (SetFromSut v r)) = m_lastFromSut r"
    and "m_pendingRead r \<Longrightarrow> m_lastReadFromSut (snd (SetFromSut v r)) = bv_make (bits_of v) NotFixed"
    and "m_mustCheckExpected r \<Longrightarrow> m_mismatches (snd (SetFromSut v r)) = u32 (m_mismatches r + 1)"
proof -
  obtain bs p where b: "v = bv_make bs p" "length bs < 4294967296" using v by (rule plainE)
  obtain es where e: "m_expectedFromSut r = bv_make es Fixed" "length es = n"
    using reg_invD(4) [OF r] by (rule fixedE)
  obtain ms where m: "m_dontCareMask r = bv_make ms NotFixed" using reg_invD(7) [OF r] by (rule looseE)
  have cmp: "CompareEqualTo_mask v (m_expectedFromSut r) (m_dontCareMask r) = Inr False"
    using len e b by (auto simp: m CompareEqualTo_mask_make)
  have read: "copy_to m_lastReadFromSut put_lastReadFromSut v r = (Inr (), put_lastReadFromSut (bv_make bs NotFixed) r)"
    using assign_loose(1) [OF reg_invD(6) [OF r] v] b by (simp add: copy_to_def act_simps)
  have put: "move_to m_lastFromSut put_lastFromSut v s = (Inl LogicError, s)"
    if "m_lastFromSut s = m_lastFromSut r" for s
    using assign_fixed(2) [OF reg_invD(3) [OF r] v] that b len by (simp add: move_to_def act_assign_def)
  show "fst (SetFromSut v r) = Inl LogicError"
    and "m_lastFromSut (snd (SetFromSut v r)) = m_lastFromSut r"
    and "m_pendingRead r \<Longrightarrow> m_lastReadFromSut (snd (SetFromSut v r)) = bv_make (bits_of v) NotFixed"
    and "m_mustCheckExpected r \<Longrightarrow> m_mismatches (snd (SetFromSut v r)) = u32 (m_mismatches r + 1)"
    using cmp read b
    by (simp_all add: SetFromSut_def act_then_def act_bind_def act_simps put [unfolded b(1)] put_defs)
qed

lemma Register_Reset_eq:
  assumes r: "reg_inv n r"
  shows "Register_Reset r = (Inr (),
    r\<lparr>m_pendingCount := 0, m_pendingRead := False, m_mismatches := 0, m_mustCheckExpected := False,
      m_dontCareMask := bv_make [] NotFixed,
      m_bypass := if bits_of (m_resetValue r) = [] then m_bypass r else m_resetValue r,
      m_nextToSut := if bits_of (m_resetValue r) = [] then m_nextToSut r else m_resetValue r\<rparr>)"
proof -
  obtain ms where m: "m_dontCareMask r = bv_make ms NotFixed" using reg_invD(7) [OF r] by (rule looseE)
  obtain bs where b: "m_bypass r = bv_make bs Fixed" "length bs = n" using reg_invD(5) [OF r] by (rule fixedE)
  obtain cs where c: "m_nextToSut r = bv_make cs Fixed" "length cs = n" using reg_invD(1) [OF r] by (rule fixedE)
  show ?thesis
  proof (cases "bits_of (m_resetValue r) = []")
    case True
    then have "m_resetValue r = bv_make [] NotFixed \<or> m_resetValue r = bv_make [] Fixed"
      using reg_invD(8) [OF r] by (auto elim!: fixedE)
    then have "IsEmpty (m_resetValue r)" by auto
    then show ?thesis using True m
      by (simp add: Register_Reset_def act_then_def act_bind_def put_defs Register_ResetPending_def Node_ResetPending_def)
  next
    case False
    then have "fixed_bits n (m_resetValue r)" using reg_invD(8) [OF r] by auto
    then obtain vs where v: "m_resetValue r = bv_make vs Fixed" "length vs = n" by (rule fixedE)
    then show ?thesis using False m b c
      by (simp add: Register_Reset_def act_then_def act_bind_def put_defs Register_ResetPending_def
          Node_ResetPending_def copy_to_def act_assign_def assign_copy_make)
  qed
qed

lemma LastCompareResult_eq:
  assumes r: "reg_inv n r" and len: "length (bits_of (m_lastReadFromSut r)) = n"
    and mask: "bits_of (m_dontCareMask r) = [] \<or> length (bits_of (m_dontCareMask r)) = n"
  shows "\<exists>p. Register_LastCompareResult r = Inr (bv_make
    (let diff = map2 (\<noteq>) (bits_of (m_lastReadFromSut r)) (bits_of (m_expectedFromSut r))
     in if bits_of (m_dontCareMask r) = [] then diff else map2 (\<and>) diff (bits_of (m_dontCareMask r))) p)"
proof -
  obtain bs where b: "m_lastReadFromSut r = bv_make bs NotFixed" using reg_invD(6) [OF r] by (rule looseE)
  obtain es where e: "m_expectedFromSut r = bv_make es Fixed" "length es = n" using reg_invD(4) [OF r] by (rule fixedE)
  obtain ms where m: "m_dontCareMask r = bv_make ms NotFixed" using reg_invD(7) [OF r] by (rule looseE)
  show ?thesis
    using b e m len mask
    by (auto simp: Register_LastCompareResult_def bitxor_def xor_assign_make and_assign_make Let_def)
qed

section \<open>Expected value and mask\<close>

lemma SetExpectedFromSut_mask_eq:
  assumes r: "reg_inv n r" and n: "n < 4294967289" and v: "plain v" and m: "plain m"
    and len: "BitsCount v = n" "BitsCount m = n" and pos: "0 < n"
  shows "Register_SetExpectedFromSut_mask v m r
    = (Inr (), r\<lparr>m_expectedFromSut := bv_make (bits_of v) Fixed, m_dontCareMask := bv_make (bits_of m) NotFixed\<rparr>)"
proof -
  obtain bs p where b: "v = bv_make bs p" "p \<noteq> FixedOnCopy" using v by (rule plainE)
  obtain cs q where c: "m = bv_make cs q" "q \<noteq> FixedOnCopy" using m by (rule plainE)
  obtain es where e: "m_expectedFromSut r = bv_make es Fixed" "length es = n" using reg_invD(4) [OF r] by (rule fixedE)
  obtain ms where d: "m_dontCareMask r = bv_make ms NotFixed" using reg_invD(7) [OF r] by (rule looseE)
  have "cs \<noteq> []" using len(2) pos c by auto
  then show ?thesis
    using b c e d n len
    by (simp add: Register_SetExpectedFromSut_mask_def ensure_mask_def act_then_def act_bind_def act_simps
        BinaryVector_fill_make assign_move_make move_to_def put_defs)
qed

text \<open>
  When the new expected value is refused, the empty mask (every bit compared) has already been
  replaced by an all-zero one (no bit compared): afterwards no received value is a mismatch.
\<close>

lemma SetExpectedFromSut_mask_failure:
  assumes r: "reg_inv n r" and n: "0 < n" "n < 4294967289" and v: "plain v" and m: "plain m"
    and len: "BitsCount v = BitsCount m" "BitsCount v \<noteq> n" "0 < BitsCount m"
    and empty: "IsEmpty (m_dontCareMask r)"
  shows "Register_SetExpectedFromSut_mask v m r
    = (Inl LogicError, r\<lparr>m_dontCareMask := bv_make (replicate n False) NotFixed\<rparr>)"
proof -
  obtain bs p where b: "v = bv_make bs p" "p \<noteq> FixedOnCopy" using v by (rule plainE)
  obtain cs q where c: "m = bv_make cs q" "q \<noteq> FixedOnCopy" using m by (rule plainE)
  obtain es where e: "m_expectedFromSut r = bv_make es Fixed" "length es = n" using reg_invD(4) [OF r] by (rule fixedE)
  obtain ms where d: "m_dontCareMask r = bv_make ms NotFixed" using reg_invD(7) [OF r] by (rule looseE)
  have "cs \<noteq> []" using len(3) c by auto
  then show ?thesis
    using b c e d n len empty
    by (simp add: Register_SetExpectedFromSut_mask_def ensure_mask_def act_then_def act_bind_def act_simps
        BinaryVector_fill_make assign_move_make move_to_def put_defs)
qed

text \<open>
  The mask never becomes fixed in size: assigning a fixed temporary does not carry the property
  over. An integral mask is then stored at the width of its type, not of the register, and the
  next checked scan throws.
\<close>

lemma SetExpectedFromSut_mask_u8:
  assumes r: "reg_inv n r" and n: "0 < n" "n < 4294967289" "n \<noteq> 8" and v: "plain v" "BitsCount v = n"
    and chk: "m_mustCheckExpected r"
  shows "\<exists>r'. Register_SetExpectedFromSut_mask_T Set_u8 x mk r = (Inr (), r')
    \<and> length (bits_of (m_dontCareMask r')) = 8 \<and> fst (SetFromSut v r') = Inl LogicError"
proof -
  obtain bs p where b: "v = bv_make bs p" "length bs < 4294967296" "p \<noteq> FixedOnCopy" using v(1) by (rule plainE)
  obtain es where e: "m_expectedFromSut r = bv_make es Fixed" "length es = n" using reg_invD(4) [OF r] by (rule fixedE)
  obtain ms where d: "m_dontCareMask r = bv_make ms NotFixed" "length ms < 4294967296" using reg_invD(7) [OF r] by (rule looseE)
  obtain ls where l: "m_lastReadFromSut r = bv_make ls NotFixed" using reg_invD(6) [OF r] by (rule looseE)
  have len: "length bs = n" "length es < 4294967296" "es \<noteq> []" "bs \<noteq> []"
    using v(2) b e n by auto
  define r' where "r' = r\<lparr>m_expectedFromSut := bv_make (widen n False (word_bits x)) Fixed,
      m_dontCareMask := bv_make (word_bits mk) NotFixed\<rparr>"
  have 1: "Register_SetExpectedFromSut_mask_T Set_u8 x mk r = (Inr (), r')"
    using e d len n
    by (simp add: Register_SetExpectedFromSut_mask_T_def ensure_mask_def act_then_def act_bind_def act_simps
        Set_unsigned_make BinaryVector_fill_make assign_move_make put_defs r'_def)
  have w: "length (word_bits mk) = 8" "word_bits mk \<noteq> []" using length_word_bits [of mk] by (auto simp del: length_word_bits)
  have "CompareEqualTo_mask v (bv_make (widen n False (word_bits x)) Fixed) (bv_make (word_bits mk) NotFixed) = Inl LogicError"
    using w n len by (simp add: b(1) CompareEqualTo_mask_make)
  then have "fst (SetFromSut v r') = Inl LogicError"
    using chk b l
    by (simp add: SetFromSut_def act_then_def act_bind_def act_simps r'_def copy_to_def assign_copy_make put_defs)
  then show ?thesis using 1 w by (auto simp: r'_def)
qed

text \<open>A value that is fixed on copy, once assigned, makes the register accept any other length.\<close>

lemma SetToSut_FixedOnCopy:
  assumes r: "reg_inv n r" and n: "length bs = n" and m: "length cs < 4294967296"
  shows "\<exists>r'. Register_SetToSut (bv_make bs FixedOnCopy) r = (Inr (), r')
    \<and> fst (Register_SetToSut (bv_make cs NotFixed) r') = Inr ()
    \<and> bits_of (m_nextToSut (snd (Register_SetToSut (bv_make cs NotFixed) r'))) = cs"
proof -
  obtain es where e: "m_nextToSut r = bv_make es Fixed" "length es = n" using reg_invD(1) [OF r] by (rule fixedE)
  obtain fs where f: "m_bypass r = bv_make fs Fixed" "length fs = n" using reg_invD(5) [OF r] by (rule fixedE)
  show ?thesis
    using e f n by (simp add: Register_SetToSut_def act_then_def act_bind_def act_simps copy_to_def assign_copy_make put_defs)
qed

end
