(* ===== verification/Base_Properties.thy ===== *)
theory Base_Properties
  imports Registers Text_Utility
begin

text \<open>
  What the text utilities and the registers promise. Each statement is followed, where it has
  hypotheses, by an instance on concrete values.
\<close>

section \<open>Text utilities\<close>

text \<open>Utility::Split loses nothing: joining the tokens with the separator gives the text back,
  up to one trailing separator, and TokensCount counts that empty last token, which Split drops.\<close>

theorem Split_lossless:
  assumes "separator \<noteq> []" and "txt \<noteq> []"
  shows "txt = join separator (Split txt separator) \<and> length (Split txt separator) = TokensCount txt separator
     \<or> txt = join separator (Split txt separator) @ separator
       \<and> Suc (length (Split txt separator)) = TokensCount txt separator"
  using assms by (rule Split_join)

theorem Split_lossless_witness:
  "''a,b,'' = join '','' (Split ''a,b,'' '','') \<and> length (Split ''a,b,'' '','') = TokensCount ''a,b,'' '',''
     \<or> ''a,b,'' = join '','' (Split ''a,b,'' '','') @ '',''
       \<and> Suc (length (Split ''a,b,'' '','')) = TokensCount ''a,b,'' '',''"
  by (rule Split_lossless) simp_all

text \<open>Utility::ToUInt32 reads blanks, an optional plus sign and decimal digits as the number
  they denote and the count of characters consumed, and throws out_of_range exactly when the
  number does not fit in 32 bits.\<close>

theorem ToUInt32_value:
  assumes "\<forall>c \<in> set ws. blank c" and "sg = [] \<or> sg = ''+''" and "ds \<noteq> []" and "\<forall>c \<in> set ds. isdigit c"
    and "rest = [] \<or> \<not> isdigit (hd rest)" and "rest \<noteq> [] \<or> (\<exists>c \<in> set ds. c \<noteq> CHR 0x30)"
  shows "ToUInt32 (ws @ sg @ ds @ rest)
    = (if digits_value ds < 4294967296
       then Inr (digits_value ds, length ws + length sg + length ds) else Inl OutOfRange)"
  using assms by (rule ToUInt32_eq)

theorem ToUInt32_value_witness: "ToUInt32 '' +042x'' = Inr (42, 5)"
  using ToUInt32_value [of "'' ''" "''+''" "''042''" "''x''"]
  by (simp add: blank_def isdigit_def digits_value_def digit_value_def)

text \<open>Utility::MinimalBitsForValue is the width of the value in binary: it is never zero, the
  value fits in it, and in no smaller width unless the value is zero.\<close>

theorem MinimalBitsForValue_minimal:
  "0 < MinimalBitsForValue v \<and> v < 2 ^ MinimalBitsForValue v
   \<and> (v \<noteq> 0 \<longrightarrow> (\<forall>k. v < 2 ^ k \<longrightarrow> MinimalBitsForValue v \<le> k))"
proof (intro conjI impI allI)
  fix k assume v: "v \<noteq> 0" "v < 2 ^ k"
  have "2 ^ (MinimalBitsForValue v - 1) \<le> v" using MinimalBitsForValue_bounds(3) v by simp
  then have "2 ^ (MinimalBitsForValue v - 1) < (2 :: nat) ^ k" using v(2) by linarith
  then have "MinimalBitsForValue v - 1 < k" by simp
  then show "MinimalBitsForValue v \<le> k" by linarith
qed (rule MinimalBitsForValue_bounds)+

theorem MinimalBitsForValue_minimal_witness: "MinimalBitsForValue 5 \<le> 3"
  using MinimalBitsForValue_minimal [of 5] by (auto dest: spec [of _ 3])

section \<open>Registers\<close>

text \<open>C22: A register built from a bypass sequence satisfies the class invariant of its width, and every
  setter that Register.hpp declares, except SetAsBlackBox, keeps it, also when the setter throws: the
  values exchanged with the circuit keep the width of the register and their fixed size. The sequences
  passed are not FixedOnCopy vectors, and widths are at most 2^32 - 8. Of the setters of the base class, ResetPending and
  SetPending keep it, SetPendingCount and IncrementPendings as long as the count stays 0 or 1.\<close>

theorem Register_invariant:
  assumes "plain v" and "plain m" and "n < 4294967289" and "k < 4294967289"
  shows "(Register_create ident name v m hold ord = Inr r \<longrightarrow> BitsCount v = n \<longrightarrow> reg_inv n r)
    \<and> keeps (reg_inv n) (Register_SetToSut v) \<and> keeps (reg_inv n) (Register_SetToSut_move v)
    \<and> keeps (reg_inv n) (SetFromSut v) \<and> keeps (reg_inv n) (SetBypass v)
    \<and> keeps (reg_inv n) (Register_SetExpectedFromSut v) \<and> keeps (reg_inv n) (Register_SetExpectedFromSut_mask v m)
    \<and> templates_keep n Set_u8 x8 y8 \<and> templates_keep n Set_u16 x16 y16 \<and> templates_keep n Set_u32 x32 y32
    \<and> templates_keep n Set_u64 x64 y64 \<and> templates_keep n Set_s8 x8 y8 \<and> templates_keep n Set_s16 x16 y16
    \<and> templates_keep n Set_s32 x32 y32 \<and> templates_keep n Set_s64 x64 y64
    \<and> keeps (reg_inv n) UpdateLastToSut \<and> keeps (reg_inv n) Register_Reset \<and> keeps (reg_inv n) (Register_ResetSize k)
    \<and> (\<forall>f \<in> {SetPendingForRead b, SetPendingForWrite b, SetHoldValue b, SetCheckExpected b, ResetMismatches, Register_ResetPending,
          Node_ResetPending, SetPending}. keeps (reg_inv n) (act_modify f))
    \<and> (\<forall>r c. reg_inv n r \<longrightarrow> (c \<le> 1 \<longrightarrow> reg_inv n (SetPendingCount c r))
        \<and> (m_pendingCount r + c \<le> 1 \<longrightarrow> reg_inv n (IncrementPendings c r)))"
proof -
  have "reg_inv n r" if "Register_create ident name v m hold ord = Inr r" "BitsCount v = n"
    using Register_create_inv [OF assms(1,2) _ that(1)] plain_len [OF assms(1)] assms(3) that(2) by simp
  then show ?thesis
    using assms by (auto intro: keeps_SetToSut keeps_SetFromSut keeps_SetExpectedFromSut keeps_SetExpectedFromSut_mask keeps_UpdateLastToSut
        keeps_Reset keeps_ResetSize keeps_templates sizes_kept_Set keeps_modify keeps_flags keeps_node_setters)
qed

theorem Register_invariant_witness:
  "keeps (reg_inv 2) (SetFromSut (bv_make [True, False] NotFixed))"
  using Register_invariant [of "bv_make [True, False] NotFixed" "bv_make [] NotFixed" 2 0] by fastforce

text \<open>C37: SetToSut is all or nothing: a sequence of the register's width becomes the next value to
  send, and the bypass value too when the register holds its value; any other width throws
  logic_error and changes nothing.\<close>

theorem Register_SetToSut_atomic:
  assumes "reg_inv n r" and "plain v"
  shows "Register_SetToSut v r =
    (if BitsCount v = n
     then (Inr (), r\<lparr>m_bypass := if m_holdValue r then bv_make (bits_of v) Fixed else m_bypass r,
                     m_nextToSut := bv_make (bits_of v) Fixed\<rparr>)
     else (Inl LogicError, r))"
  using assms by (rule Register_SetToSut_eq)

definition sample_register :: Register where
  "sample_register =
    \<lparr>m_identifier = 1, m_name = ''r'', m_pendingCount = 0, m_priority = 0, m_iRunloopCount = 0,
     m_pendingRead = True, m_holdValue = True, m_mustCheckExpected = True, m_isBlackBox = False,
     m_bitsOrdering = Downto, m_mismatches = 0,
     m_nextToSut = bv_make [False, False] Fixed, m_lastToSut = bv_make [False, False] Fixed,
     m_lastFromSut = bv_make [False, False] Fixed, m_lastReadFromSut = bv_make [False, False] NotFixed,
     m_expectedFromSut = bv_make [True, False] Fixed, m_bypass = bv_make [False, False] Fixed,
     m_dontCareMask = bv_make [] NotFixed, m_resetValue = bv_make [True, True] Fixed\<rparr>"

lemma sample_register_inv: "reg_inv 2 sample_register"
  by (simp add: reg_inv_def sample_register_def)

theorem Register_SetToSut_atomic_witness:
  "m_bypass (snd (Register_SetToSut (bv_make [True, False] NotFixed) sample_register)) = bv_make [True, False] Fixed
   \<and> Register_SetToSut (bv_make [True] NotFixed) sample_register = (Inl LogicError, sample_register)"
  using Register_SetToSut_atomic [OF sample_register_inv, of "bv_make [True, False] NotFixed"]
    Register_SetToSut_atomic [OF sample_register_inv, of "bv_make [True] NotFixed"]
  by (simp add: sample_register_def)

text \<open>C32: SetFromSut records the value received, keeps it as last read value when a read is
  pending, and counts one mismatch exactly when checking is on and a bit selected by the mask
  (any bit, when there is no mask) differs from the expected value.\<close>

theorem SetFromSut_counts:
  assumes "reg_inv n r" and "plain v" and "BitsCount v = n"
    and "bits_of (m_dontCareMask r) = [] \<or> length (bits_of (m_dontCareMask r)) = n"
  shows "SetFromSut v r = (Inr (),
    r\<lparr>m_lastReadFromSut := if m_pendingRead r then bv_make (bits_of v) NotFixed else m_lastReadFromSut r,
      m_mismatches := if m_mustCheckExpected r
          \<and> \<not> care_equal (bits_of v) (bits_of (m_expectedFromSut r)) (bits_of (m_dontCareMask r))
        then u32 (m_mismatches r + 1) else m_mismatches r,
      m_lastFromSut := bv_make (bits_of v) Fixed\<rparr>)"
  using assms by (rule SetFromSut_eq)

theorem SetFromSut_counts_witness:
  "m_mismatches (snd (SetFromSut (bv_make [True, True] NotFixed) sample_register)) = 1"
  using SetFromSut_counts [OF sample_register_inv, of "bv_make [True, True] NotFixed"]
  by (simp add: sample_register_def care_equal_def)

text \<open>A failing SetExpectedFromSut(sequence, mask) is not atomic: the empty mask, which
  compares every bit, is left replaced by an all-zero one, which compares none.\<close>

theorem SetExpectedFromSut_not_atomic:
  assumes "reg_inv n r" and "0 < n" and "n < 4294967289" and "plain v" and "plain m"
    and "BitsCount v = BitsCount m" and "BitsCount v \<noteq> n" and "0 < BitsCount m" and "IsEmpty (m_dontCareMask r)"
  shows "Register_SetExpectedFromSut_mask v m r
    = (Inl LogicError, r\<lparr>m_dontCareMask := bv_make (replicate n False) NotFixed\<rparr>)"
  using assms by (intro SetExpectedFromSut_mask_failure)

theorem SetExpectedFromSut_not_atomic_witness:
  "Register_SetExpectedFromSut_mask (bv_make [True] NotFixed) (bv_make [True] NotFixed) sample_register
   = (Inl LogicError, sample_register\<lparr>m_dontCareMask := bv_make [False, False] NotFixed\<rparr>)"
  using SetExpectedFromSut_not_atomic [OF sample_register_inv, of "bv_make [True] NotFixed" "bv_make [True] NotFixed"]
  by (simp add: sample_register_def numeral_2_eq_2)

text \<open>An 8-bit integral don't care mask given to a register of another width is stored on
  8 bits, so that the next checked SetFromSut throws logic_error.\<close>

theorem SetExpectedFromSut_integral_mask:
  assumes "reg_inv n r" and "0 < n" and "n < 4294967289" and "n \<noteq> 8" and "plain v" and "BitsCount v = n"
    and "m_mustCheckExpected r"
  shows "\<exists>r'. Register_SetExpectedFromSut_mask_T Set_u8 x mk r = (Inr (), r')
    \<and> length (bits_of (m_dontCareMask r')) = 8 \<and> fst (SetFromSut v r') = Inl LogicError"
  using assms by (intro SetExpectedFromSut_mask_u8)

theorem SetExpectedFromSut_integral_mask_witness:
  "\<exists>r'. Register_SetExpectedFromSut_mask_T Set_u8 2 3 sample_register = (Inr (), r')
    \<and> length (bits_of (m_dontCareMask r')) = 8 \<and> fst (SetFromSut (bv_make [True, False] NotFixed) r') = Inl LogicError"
  by (rule SetExpectedFromSut_integral_mask [OF sample_register_inv]) (simp_all add: sample_register_def)

end
