(* ===== verification/Virtual_Registers.thy ===== *)
theory Virtual_Registers
  imports Registers
begin

text \<open>
  The class \<^verbatim>\<open>VirtualRegister\<close> (\<^verbatim>\<open>Mast_Core/src/VirtualRegister.cpp\<close>): an ordered list of slices of
  registers that is read and written as if it were one register. Registers are shared through
  pointers, so the operations act on a store of registers. The section on correctness describes
  a virtual register by the cells (register, bit) its slices own.
\<close>

section \<open>Registers in a store\<close>

type_synonym register_ptr = "nat option"
type_synonym store = "nat \<Rightarrow> Register option"

record RegisterSlice =
  slice_reg :: register_ptr
  slice_range :: IndexedRange

record VirtualRegister =
  vr_identifiers :: "nat list"
  vr_registers :: "RegisterSlice list"

definition RegisterSlice_eq :: "RegisterSlice \<Rightarrow> RegisterSlice \<Rightarrow> bool" where
  "RegisterSlice_eq s rhs =
    (slice_reg s = slice_reg rhs \<and> left (slice_range s) = left (slice_range rhs)
     \<and> right (slice_range s) = right (slice_range rhs))"

text \<open>Following a null or dangling pointer is undefined.\<close>

definition deref :: "store \<Rightarrow> register_ptr \<Rightarrow> Register result" where
  "deref st p = (case p of None \<Rightarrow> Inl UndefinedBehaviour
    | Some a \<Rightarrow> (case st a of None \<Rightarrow> Inl UndefinedBehaviour | Some r \<Rightarrow> Inr r))"

definition act_at :: "register_ptr \<Rightarrow> (Register, 'a) act \<Rightarrow> (store, 'a) act" where
  "act_at p m st = (case p of None \<Rightarrow> (Inl UndefinedBehaviour, st)
    | Some a \<Rightarrow> (case st a of None \<Rightarrow> (Inl UndefinedBehaviour, st)
      | Some r \<Rightarrow> (case m r of (x, r') \<Rightarrow> (x, st(a \<mapsto> r')))))"

section \<open>Construction\<close>

definition VirtualRegister_empty :: VirtualRegister where
  "VirtualRegister_empty = \<lparr>vr_identifiers = [], vr_registers = []\<rparr>"

definition VirtualRegister_of :: "register_ptr \<Rightarrow> store \<Rightarrow> VirtualRegister result" where
  "VirtualRegister_of reg st =
    CheckParameterCondition (reg \<noteq> None)
    (rbind (deref st reg) (\<lambda>r.
      CheckParameterCondition (Register_BitsCount r \<ge> 1)
        (Inr \<lparr>vr_identifiers = [m_identifier r],
              vr_registers = [\<lparr>slice_reg = reg,
                               slice_range = IndexedRange_of (u32_sub (Register_BitsCount r) 1) 0\<rparr>]\<rparr>)))"

definition VR_Append :: "RegisterSlice \<Rightarrow> store \<Rightarrow> VirtualRegister \<Rightarrow> VirtualRegister result" where
  "VR_Append registerSlice st vr =
    CheckParameterCondition (slice_reg registerSlice \<noteq> None)
    (rbind (deref st (slice_reg registerSlice)) (\<lambda>reg.
      CheckParameterCondition (Register_BitsCount reg \<noteq> 0)
     (CheckParameterCondition (m_bitsOrdering reg \<noteq> Undefined)
     (rbind (Width (slice_range registerSlice)) (\<lambda>width.
      CheckParameterCondition (width \<le> Register_BitsCount reg)
     (CheckParameterCondition (MaxIndex (slice_range registerSlice) < Register_BitsCount reg)
     (rbind (if vr_registers vr \<noteq> []
             then rbind (deref st (slice_reg (last (vr_registers vr)))) (\<lambda>prev.
                    CheckParameterCondition (m_bitsOrdering reg = m_bitsOrdering prev) (Inr ()))
             else Inr ()) (\<lambda>_.
      Inr \<lparr>vr_identifiers = vr_identifiers vr @ [m_identifier reg],
           vr_registers = vr_registers vr @ [registerSlice]\<rparr>))))))))"

definition VirtualRegister_of_slice :: "RegisterSlice \<Rightarrow> store \<Rightarrow> VirtualRegister result" where
  "VirtualRegister_of_slice registerSlice st = VR_Append registerSlice st VirtualRegister_empty"

definition VR_Empty :: "VirtualRegister \<Rightarrow> bool" where
  "VR_Empty vr = (vr_registers vr = [])"

definition SlicesCount :: "VirtualRegister \<Rightarrow> nat" where
  "SlicesCount vr = u32 (length (vr_registers vr))"

fun sum_widths :: "RegisterSlice list \<Rightarrow> nat \<Rightarrow> nat result" where
  "sum_widths [] bitsCount = Inr bitsCount"
| "sum_widths (regSlice # rest) bitsCount =
    rbind (Width (slice_range regSlice)) (\<lambda>w. sum_widths rest (u32 (bitsCount + w)))"

definition VR_BitsCount :: "VirtualRegister \<Rightarrow> nat result" where
  "VR_BitsCount vr = sum_widths (vr_registers vr) 0"

definition VR_BitsOrdering :: "store \<Rightarrow> VirtualRegister \<Rightarrow> BitsOrdering result" where
  "VR_BitsOrdering st vr =
    (if vr_registers vr = [] then Inr Undefined
     else rbind (deref st (slice_reg (hd (vr_registers vr)))) (\<lambda>r. Inr (m_bitsOrdering r)))"

section \<open>Views\<close>

definition VR_GetSlice :: "IndexedRange \<Rightarrow> BitsOrdering \<Rightarrow> BinaryVector \<Rightarrow> BinaryVector result" where
  "VR_GetSlice rng bitsOrdering binaryVector =
    CheckParameterCondition (\<not> IsEmpty binaryVector)
      (if bitsOrdering = Upto then Slice_range rng binaryVector
       else
        let lastBitIndex = u32_sub (BitsCount binaryVector) 1;
            right' = u32_sub lastBitIndex (right rng);
            left' = u32_sub lastBitIndex (left rng)
        in Slice_range (IndexedRange_of left' right') binaryVector)"

definition VR_SetSlice ::
    "bool \<Rightarrow> byte list \<Rightarrow> IndexedRange \<Rightarrow> BitsOrdering \<Rightarrow> BinaryVector \<Rightarrow> BinaryVector \<Rightarrow> BinaryVector result" where
  "VR_SetSlice null slack rng bitsOrdering binaryVector val =
    CheckParameterCondition (\<not> IsEmpty binaryVector)
    (rbind (Width rng) (\<lambda>width.
      CheckValueCondition (width = BitsCount val)
        (if bitsOrdering = Upto then SetSlice null slack (left rng) val binaryVector
         else
          let lastBitIndex = u32_sub (BitsCount binaryVector) 1
          in SetSlice null slack (u32_sub lastBitIndex (left rng)) val binaryVector)))"

text \<open>The view is built in the target, which keeps what was appended when a step throws.\<close>

definition VR_GetView ::
    "(Register \<Rightarrow> BinaryVector result) \<Rightarrow> store \<Rightarrow> VirtualRegister \<Rightarrow> (BinaryVector, unit) act" where
  "VR_GetView getter st vr =
    (if vr_registers vr = [] then act_throw RuntimeError
     else act_bind (act_read (\<lambda>_. deref st (slice_reg (hd (vr_registers vr))))) (\<lambda>first.
       act_then (act_modify Clear)
         (act_each (\<lambda>registerSlice.
            act_assign (\<lambda>target.
              rbind (deref st (slice_reg registerSlice)) (\<lambda>reg.
              rbind (getter reg) (\<lambda>val.
              rbind (VR_GetSlice (slice_range registerSlice) (m_bitsOrdering first) val) (\<lambda>slice.
              Append slice target)))) (\<lambda>target' _. target')) (vr_registers vr))))"

text \<open>
  The getters return a reference to a cache member of the virtual register; the cache is cleared
  first and its size is never fixed, so its earlier contents do not matter.
\<close>

definition VR_view ::
    "(Register \<Rightarrow> BinaryVector result) \<Rightarrow> store \<Rightarrow> VirtualRegister \<Rightarrow> BinaryVector result" where
  "VR_view getter st vr =
    (case VR_GetView getter st vr BinaryVector_empty of (res, target) \<Rightarrow> rbind res (\<lambda>_. Inr target))"

definition VR_NextToSut :: "store \<Rightarrow> VirtualRegister \<Rightarrow> BinaryVector result" where
  "VR_NextToSut = VR_view (\<lambda>reg. Inr (BinaryVector_copy (m_nextToSut reg)))"

definition VR_LastToSut :: "store \<Rightarrow> VirtualRegister \<Rightarrow> BinaryVector result" where
  "VR_LastToSut = VR_view (\<lambda>reg. Inr (BinaryVector_copy (m_lastToSut reg)))"

definition VR_LastFromSut :: "store \<Rightarrow> VirtualRegister \<Rightarrow> BinaryVector result" where
  "VR_LastFromSut = VR_view (\<lambda>reg. Inr (BinaryVector_copy (m_lastFromSut reg)))"

definition VR_LastFromSut_to :: "store \<Rightarrow> VirtualRegister \<Rightarrow> (BinaryVector, unit) act" where
  "VR_LastFromSut_to = VR_GetView (\<lambda>reg. Inr (BinaryVector_copy (m_lastFromSut reg)))"

definition VR_LastFromSut_T :: "(BinaryVector \<Rightarrow> 'v result) \<Rightarrow> store \<Rightarrow> VirtualRegister \<Rightarrow> 'v result" where
  "VR_LastFromSut_T get_overload st vr = rbind (VR_LastFromSut st vr) get_overload"

definition VR_LastCompareResult :: "store \<Rightarrow> VirtualRegister \<Rightarrow> BinaryVector result" where
  "VR_LastCompareResult = VR_view Register_LastCompareResult"

section \<open>Updates\<close>

fun UpdateRegisters_upto ::
    "(RegisterSlice \<Rightarrow> IndexedRange \<Rightarrow> (store, unit) act) \<Rightarrow> RegisterSlice list \<Rightarrow> nat \<Rightarrow> (store, unit) act" where
  "UpdateRegisters_upto updater [] start = act_return ()"
| "UpdateRegisters_upto updater (registerSlice # rest) start =
    act_bind (act_read (\<lambda>_. Width (slice_range registerSlice))) (\<lambda>width.
      let right' = u32 (start + u32_sub width 1)
      in act_then (updater registerSlice (IndexedRange_of start right'))
           (UpdateRegisters_upto updater rest (u32 (right' + 1))))"

fun UpdateRegisters_downto ::
    "(RegisterSlice \<Rightarrow> IndexedRange \<Rightarrow> (store, unit) act) \<Rightarrow> RegisterSlice list \<Rightarrow> nat \<Rightarrow> (store, unit) act" where
  "UpdateRegisters_downto updater [] start = act_return ()"
| "UpdateRegisters_downto updater (registerSlice # rest) start =
    act_bind (act_read (\<lambda>_. Width (slice_range registerSlice))) (\<lambda>width.
      let right' = u32_sub start (u32_sub width 1)
      in act_then (updater registerSlice (IndexedRange_of start right'))
           (UpdateRegisters_downto updater rest (u32_sub right' 1)))"

definition UpdateRegisters ::
    "(RegisterSlice \<Rightarrow> IndexedRange \<Rightarrow> (store, unit) act) \<Rightarrow> VirtualRegister \<Rightarrow> (store, unit) act" where
  "UpdateRegisters updater vr =
    (if vr_registers vr = [] then act_throw UndefinedBehaviour
     else act_bind (act_read (\<lambda>st. deref st (slice_reg (hd (vr_registers vr))))) (\<lambda>first.
       if m_bitsOrdering first = Upto then UpdateRegisters_upto updater (vr_registers vr) 0
       else act_bind (act_read (\<lambda>_. VR_BitsCount vr)) (\<lambda>bitsCount.
              UpdateRegisters_downto updater (vr_registers vr) (u32_sub bitsCount 1))))"

definition SetView_updater ::
    "bool \<Rightarrow> byte list \<Rightarrow> (Register \<Rightarrow> BinaryVector) \<Rightarrow> (BinaryVector \<Rightarrow> (Register, unit) act) \<Rightarrow> BinaryVector
     \<Rightarrow> RegisterSlice \<Rightarrow> IndexedRange \<Rightarrow> (store, unit) act" where
  "SetView_updater null slack getter setter val registerSlice valueRange =
    act_bind (act_read (\<lambda>st. deref st (slice_reg registerSlice))) (\<lambda>reg.
    act_bind (act_read (\<lambda>_. VR_GetSlice valueRange (m_bitsOrdering reg) val)) (\<lambda>slicedValue.
    act_bind (act_read (\<lambda>_. VR_SetSlice null slack (slice_range registerSlice) (m_bitsOrdering reg)
                              (getter reg) slicedValue)) (\<lambda>regValue.
    act_at (slice_reg registerSlice) (setter regValue))))"

definition VR_SetView ::
    "bool \<Rightarrow> byte list \<Rightarrow> (Register \<Rightarrow> BinaryVector) \<Rightarrow> (BinaryVector \<Rightarrow> (Register, unit) act) \<Rightarrow> BinaryVector
     \<Rightarrow> VirtualRegister \<Rightarrow> (store, unit) act" where
  "VR_SetView null slack getter setter val vr =
    UpdateRegisters (SetView_updater null slack getter setter val) vr"

definition VR_SetToSut :: "bool \<Rightarrow> byte list \<Rightarrow> BinaryVector \<Rightarrow> VirtualRegister \<Rightarrow> (store, unit) act" where
  "VR_SetToSut null slack sequence vr =
    (if IsEmpty sequence then act_throw InvalidArgument
     else if vr_registers vr = [] then act_throw RuntimeError
     else VR_SetView null slack (\<lambda>reg. BinaryVector_copy (m_nextToSut reg)) Register_SetToSut sequence vr)"

definition SetExpected_updater ::
    "bool \<Rightarrow> byte list \<Rightarrow> BinaryVector \<Rightarrow> BinaryVector \<Rightarrow> RegisterSlice \<Rightarrow> IndexedRange \<Rightarrow> (store, unit) act" where
  "SetExpected_updater null slack sequence dontCareMask registerSlice valueRange =
    act_bind (act_read (\<lambda>st. deref st (slice_reg registerSlice))) (\<lambda>reg.
      let bitsOrdering = m_bitsOrdering reg;
          regExpected = BinaryVector_copy (m_expectedFromSut reg);
          regMask = BinaryVector_copy (m_dontCareMask reg)
      in act_bind (act_read (\<lambda>_. if IsEmpty regMask
                      then rbind (BinaryVector_fill (Register_BitsCount reg) 0 Fixed) (\<lambda>tmp.
                           rbind (assign_move regMask tmp) (\<lambda>(mk, _). Inr mk))
                      else Inr regMask)) (\<lambda>mask1.
         act_bind (act_read (\<lambda>_. VR_GetSlice valueRange bitsOrdering sequence)) (\<lambda>slicedExpected.
         act_bind (act_read (\<lambda>_. VR_GetSlice valueRange bitsOrdering dontCareMask)) (\<lambda>slicedMask.
         act_bind (act_read (\<lambda>_. VR_SetSlice null slack (slice_range registerSlice) bitsOrdering regExpected slicedExpected)) (\<lambda>expected'.
         act_bind (act_read (\<lambda>_. VR_SetSlice null slack (slice_range registerSlice) bitsOrdering mask1 slicedMask)) (\<lambda>mask2.
         act_at (slice_reg registerSlice)
           (Register_SetExpectedFromSut_mask (BinaryVector_copy expected') (BinaryVector_copy mask2))))))))"

definition VR_SetExpectedFromSut ::
    "bool \<Rightarrow> byte list \<Rightarrow> BinaryVector \<Rightarrow> BinaryVector \<Rightarrow> VirtualRegister \<Rightarrow> (store, unit) act" where
  "VR_SetExpectedFromSut null slack sequence dontCareMask vr =
    (if IsEmpty dontCareMask
     then VR_SetView null slack (\<lambda>reg. BinaryVector_copy (m_expectedFromSut reg))
            (\<lambda>val. Register_SetExpectedFromSut (BinaryVector_copy val)) sequence vr
     else if BitsCount dontCareMask \<noteq> BitsCount sequence then act_throw InvalidArgument
     else UpdateRegisters (SetExpected_updater null slack sequence dontCareMask) vr)"

definition VR_SetPending :: "VirtualRegister \<Rightarrow> (store, unit) act" where
  "VR_SetPending vr = act_each (\<lambda>regSlice. act_at (slice_reg regSlice) (act_modify SetPending)) (vr_registers vr)"

fun any_pending_read :: "store \<Rightarrow> RegisterSlice list \<Rightarrow> bool result" where
  "any_pending_read st [] = Inr False"
| "any_pending_read st (regSlice # rest) =
    rbind (deref st (slice_reg regSlice)) (\<lambda>r. if m_pendingRead r then Inr True else any_pending_read st rest)"

definition VR_IsPendingForRead :: "store \<Rightarrow> VirtualRegister \<Rightarrow> bool result" where
  "VR_IsPendingForRead st vr = any_pending_read st (vr_registers vr)"

definition VR_SetPendingForRead :: "bool \<Rightarrow> VirtualRegister \<Rightarrow> (store, unit) act" where
  "VR_SetPendingForRead pendingForRead vr =
    act_each (\<lambda>regSlice. act_at (slice_reg regSlice) (act_modify (SetPendingForRead pendingForRead))) (vr_registers vr)"

definition VR_ResetSize :: "nat \<Rightarrow> VirtualRegister \<Rightarrow> (store, unit) act" where
  "VR_ResetSize newSize vr = (if newSize = newSize then act_throw InvalidArgument else act_return ())"


section \<open>Geometry of slices\<close>

text \<open>
  Positions are counted from the left of a vector, whatever the ordering of the register.
  \<open>slice_ok ord n rng\<close> asks what the class never checks: the range runs in the direction of
  the register's bits ordering.
\<close>

definition slice_offset :: "BitsOrdering \<Rightarrow> nat \<Rightarrow> IndexedRange \<Rightarrow> nat" where
  "slice_offset ord n rng = (if ord = Upto then left rng else n - 1 - left rng)"

definition slice_width :: "IndexedRange \<Rightarrow> nat" where
  "slice_width rng = 1 + (if left rng > right rng then left rng - right rng else right rng - left rng)"

definition slice_ok :: "BitsOrdering \<Rightarrow> nat \<Rightarrow> IndexedRange \<Rightarrow> bool" where
  "slice_ok ord n rng \<longleftrightarrow> n < 4294967289
    \<and> (if ord = Upto then left rng \<le> right rng \<and> right rng < n else right rng \<le> left rng \<and> left rng < n)"

lemma slice_bounds:
  assumes "slice_ok ord n rng"
  shows "slice_offset ord n rng + slice_width rng \<le> n" "0 < slice_width rng" "n < 4294967289"
    "slice_offset ord n rng < n"
  using assms by (auto simp: slice_ok_def slice_offset_def slice_width_def split: if_splits)

lemma Width_slice: "slice_ok ord n rng \<Longrightarrow> Width rng = Inr (slice_width rng)"
  using slice_bounds [of ord n rng] by (simp add: Width_def slice_width_def Let_def)

lemma VR_GetSlice_make:
  assumes ok: "slice_ok ord (length bs) rng"
  shows "VR_GetSlice rng ord (bv_make bs p)
    = Inr (bv_make (take (slice_width rng) (drop (slice_offset ord (length bs) rng) bs)) NotFixed)"
proof -
  note b = slice_bounds [OF ok]
  have ne: "bs \<noteq> []" using b(4) by auto
  have slice: "Slice (slice_offset ord (length bs) rng) (slice_width rng) (bv_make bs p)
      = Inr (bv_make (take (slice_width rng) (drop (slice_offset ord (length bs) rng) bs)) NotFixed)"
    using b by (simp add: Slice_make)
  show ?thesis
  proof (cases "ord = Upto")
    case True
    then show ?thesis
      using ne slice Width_slice [OF ok]
      by (simp add: VR_GetSlice_def Slice_range_def slice_offset_def)
  next
    case False
    then have "left rng < length bs" "right rng \<le> left rng" using ok by (auto simp: slice_ok_def)
    then have "Width (IndexedRange_of (length bs - 1 - left rng) (length bs - 1 - right rng)) = Inr (slice_width rng)"
      using b by (subst Width_increasing) (auto simp: IndexedRange_of_def slice_width_def)
    then show ?thesis
      using False ne slice b \<open>left rng < length bs\<close> \<open>right rng \<le> left rng\<close>
      by (simp add: VR_GetSlice_def Slice_range_def slice_offset_def Let_def IndexedRange_of_def)
  qed
qed

lemma VR_SetSlice_make:
  assumes ok: "slice_ok ord (length bs) rng" and len: "length cs = slice_width rng" and slack: "slack \<noteq> []"
  shows "VR_SetSlice null slack rng ord (bv_make bs p) (bv_make cs q)
    = Inr (bv_make (splice (slice_offset ord (length bs) rng) cs bs) p)"
proof -
  note b = slice_bounds [OF ok]
  have ne: "bs \<noteq> []" "cs \<noteq> []" using b(2,4) len by auto
  have set: "SetSlice null slack (slice_offset ord (length bs) rng) (bv_make cs q) (bv_make bs p)
      = Inr (bv_make (splice (slice_offset ord (length bs) rng) cs bs) p)"
    using b ne len slack by (simp add: SetSlice_make)
  show ?thesis
  proof (cases "ord = Upto")
    case True
    then show ?thesis
      using ne set len Width_slice [OF ok] by (simp add: VR_SetSlice_def slice_offset_def)
  next
    case False
    then have "left rng < length bs" using ok by (simp add: slice_ok_def)
    then show ?thesis
      using False ne set len b Width_slice [OF ok] by (simp add: VR_SetSlice_def slice_offset_def Let_def)
  qed
qed

text \<open>The part of a value of \<open>N\<close> bits that starts at bit \<open>k\<close> from the left.\<close>

definition value_range :: "BitsOrdering \<Rightarrow> nat \<Rightarrow> nat \<Rightarrow> nat \<Rightarrow> IndexedRange" where
  "value_range ord N k w = (if ord = Upto then IndexedRange_of k (k + w - 1) else IndexedRange_of (N - 1 - k) (N - k - w))"

lemma value_range_ok:
  assumes "0 < w" "k + w \<le> N" "N < 4294967289"
  shows "slice_ok ord N (value_range ord N k w)" "slice_offset ord N (value_range ord N k w) = k"
    "slice_width (value_range ord N k w) = w"
  using assms by (auto simp: slice_ok_def slice_offset_def slice_width_def value_range_def IndexedRange_of_def)

section \<open>Registers with their invariant\<close>

definition store_ok :: "BitsOrdering \<Rightarrow> (nat \<Rightarrow> nat) \<Rightarrow> nat set \<Rightarrow> store \<Rightarrow> bool" where
  "store_ok ord n A st \<longleftrightarrow> (\<forall>a \<in> A. \<exists>r. st a = Some r \<and> reg_inv (n a) r \<and> m_bitsOrdering r = ord)"

definition slices_ok :: "BitsOrdering \<Rightarrow> (nat \<Rightarrow> nat) \<Rightarrow> nat set \<Rightarrow> RegisterSlice list \<Rightarrow> bool" where
  "slices_ok ord n A ss \<longleftrightarrow> (\<forall>s \<in> set ss. \<exists>a \<in> A. slice_reg s = Some a \<and> slice_ok ord (n a) (slice_range s))"

definition total_width :: "RegisterSlice list \<Rightarrow> nat" where
  "total_width ss = sum_list (map (\<lambda>s. slice_width (slice_range s)) ss)"

definition positions :: "BitsOrdering \<Rightarrow> (nat \<Rightarrow> nat) \<Rightarrow> RegisterSlice \<Rightarrow> nat list" where
  "positions ord n s = (let off = slice_offset ord (n (the (slice_reg s))) (slice_range s)
     in [off ..< off + slice_width (slice_range s)])"

definition cells :: "BitsOrdering \<Rightarrow> (nat \<Rightarrow> nat) \<Rightarrow> RegisterSlice \<Rightarrow> (nat \<times> nat) set" where
  "cells ord n s = Pair (the (slice_reg s)) ` set (positions ord n s)"

fun separate :: "BitsOrdering \<Rightarrow> (nat \<Rightarrow> nat) \<Rightarrow> RegisterSlice list \<Rightarrow> bool" where
  "separate ord n [] = True"
| "separate ord n (s # ss) = (cells ord n s \<inter> (\<Union>t \<in> set ss. cells ord n t) = {} \<and> separate ord n ss)"

definition slice_bits :: "(Register \<Rightarrow> bool list) \<Rightarrow> BitsOrdering \<Rightarrow> (nat \<Rightarrow> nat) \<Rightarrow> store \<Rightarrow> RegisterSlice \<Rightarrow> bool list" where
  "slice_bits get ord n st s = map (nth (get (the (st (the (slice_reg s)))))) (positions ord n s)"

definition view_bits :: "(Register \<Rightarrow> bool list) \<Rightarrow> BitsOrdering \<Rightarrow> (nat \<Rightarrow> nat) \<Rightarrow> store \<Rightarrow> RegisterSlice list \<Rightarrow> bool list" where
  "view_bits get ord n st ss = concat (map (slice_bits get ord n st) ss)"

lemma length_slice_bits [simp]: "length (slice_bits get ord n st s) = slice_width (slice_range s)"
  by (simp add: slice_bits_def positions_def Let_def)

lemma length_view_bits [simp]: "length (view_bits get ord n st ss) = total_width ss"
  by (induction ss) (simp_all add: view_bits_def total_width_def)

lemma total_width_simps [simp]:
  "total_width [] = 0" "total_width (s # ss) = slice_width (slice_range s) + total_width ss"
  by (simp_all add: total_width_def)

lemma slices_ok_simps [simp]:
  "slices_ok ord n A []"
  "slices_ok ord n A (s # ss) \<longleftrightarrow>
     (\<exists>a \<in> A. slice_reg s = Some a \<and> slice_ok ord (n a) (slice_range s)) \<and> slices_ok ord n A ss"
  by (auto simp: slices_ok_def)

lemma view_bits_simps [simp]:
  "view_bits get ord n st [] = []"
  "view_bits get ord n st (s # ss) = slice_bits get ord n st s @ view_bits get ord n st ss"
  by (simp_all add: view_bits_def)

lemma store_okE:
  assumes "store_ok ord n A st" "a \<in> A"
  obtains r where "st a = Some r" "reg_inv (n a) r" "m_bitsOrdering r = ord"
  using assms unfolding store_ok_def by blast

lemma sum_widths_eq:
  "slices_ok ord n A ss \<Longrightarrow> k < 4294967296 \<Longrightarrow> sum_widths ss k = Inr (u32 (k + total_width ss))"
proof (induction ss arbitrary: k)
  case (Cons s ss)
  then have "Width (slice_range s) = Inr (slice_width (slice_range s))"
    using Width_slice by fastforce
  then show ?case using Cons by (simp add: u32_def mod_add_left_eq add.assoc)
qed simp

lemma VR_BitsCount_eq: "slices_ok ord n A (vr_registers vr) \<Longrightarrow> VR_BitsCount vr = Inr (u32 (total_width (vr_registers vr)))"
  using sum_widths_eq [of ord n A "vr_registers vr" 0] by (simp add: VR_BitsCount_def)

section \<open>Reading a view\<close>

lemma take_drop_positions:
  "off + w \<le> length bs \<Longrightarrow> take w (drop off bs) = map (nth bs) [off ..< off + w]"
  by (rule nth_equalityI) simp_all

lemma GetView_loop:
  assumes "store_ok ord n A st" "slices_ok ord n A ss" "length acc + total_width ss < 4294967289"
    and get: "\<And>a r. reg_inv (n a) r \<Longrightarrow> \<exists>p. getter r = Inr (bv_make (get r) p) \<and> length (get r) = n a"
  shows "act_each (\<lambda>registerSlice. act_assign (\<lambda>target.
              rbind (deref st (slice_reg registerSlice)) (\<lambda>reg.
              rbind (getter reg) (\<lambda>val.
              rbind (VR_GetSlice (slice_range registerSlice) ord val) (\<lambda>slice.
              Append slice target)))) (\<lambda>target' _. target')) ss (bv_make acc NotFixed)
    = (Inr (), bv_make (acc @ view_bits get ord n st ss) NotFixed)"
  using assms(2,3)
proof (induction ss arbitrary: acc)
  case (Cons s ss)
  obtain a where a: "a \<in> A" "slice_reg s = Some a" and ok: "slice_ok ord (n a) (slice_range s)"
    using Cons.prems(1) by auto
  obtain r where r: "st a = Some r" "reg_inv (n a) r" using assms(1) a(1) by (rule store_okE)
  obtain p where g: "getter r = Inr (bv_make (get r) p)" "length (get r) = n a" using get [OF r(2)] by blast
  have bits: "take (slice_width (slice_range s)) (drop (slice_offset ord (n a) (slice_range s)) (get r))
      = slice_bits get ord n st s"
    using slice_bounds [OF ok] g a r
    by (simp add: slice_bits_def positions_def take_drop_positions Let_def)
  have gs: "VR_GetSlice (slice_range s) ord (bv_make (get r) p) = Inr (bv_make (slice_bits get ord n st s) NotFixed)"
    using VR_GetSlice_make [of ord "get r" "slice_range s" p] ok g bits by simp
  show ?case
    using Cons.IH [of "acc @ slice_bits get ord n st s"] Cons.prems a r g gs
    by (simp add: act_then_def act_bind_def act_assign_def deref_def Append_make)
qed simp

lemma VR_view_eq:
  assumes "store_ok ord n A st" "slices_ok ord n A (vr_registers vr)" "vr_registers vr \<noteq> []"
    and "total_width (vr_registers vr) < 4294967289"
    and get: "\<And>a r. reg_inv (n a) r \<Longrightarrow> \<exists>p. getter r = Inr (bv_make (get r) p) \<and> length (get r) = n a"
  shows "VR_view getter st vr = Inr (bv_make (view_bits get ord n st (vr_registers vr)) NotFixed)"
proof -
  obtain s ss where s: "vr_registers vr = s # ss" using assms(3) by (cases "vr_registers vr") auto
  obtain a where a: "a \<in> A" "slice_reg s = Some a" using assms(2) s by auto
  obtain r where r: "st a = Some r" "m_bitsOrdering r = ord" using assms(1) a(1) by (rule store_okE)
  show ?thesis
    using GetView_loop [OF assms(1,2), of "[]" getter get] assms(4) get s a r
    by (simp add: VR_view_def VR_GetView_def act_bind_def act_then_def deref_def BinaryVector_empty_make)
qed

lemma copy_fixed:
  "fixed_bits k v \<Longrightarrow> \<exists>p. Inr (BinaryVector_copy v) = (Inr (bv_make (bits_of v) p) :: BinaryVector result) \<and> length (bits_of v) = k"
  by (elim fixedE) auto

lemma VR_views_eq:
  assumes "store_ok ord n A st" "slices_ok ord n A (vr_registers vr)" "vr_registers vr \<noteq> []"
    and "total_width (vr_registers vr) < 4294967289"
  shows "VR_NextToSut st vr = Inr (bv_make (view_bits (\<lambda>r. bits_of (m_nextToSut r)) ord n st (vr_registers vr)) NotFixed)"
    and "VR_LastToSut st vr = Inr (bv_make (view_bits (\<lambda>r. bits_of (m_lastToSut r)) ord n st (vr_registers vr)) NotFixed)"
    and "VR_LastFromSut st vr = Inr (bv_make (view_bits (\<lambda>r. bits_of (m_lastFromSut r)) ord n st (vr_registers vr)) NotFixed)"
  unfolding VR_NextToSut_def VR_LastToSut_def VR_LastFromSut_def
  by (intro VR_view_eq [OF assms] copy_fixed reg_invD(1-3); assumption)+

section \<open>Updating a view\<close>

text \<open>The walk over the slices with the part of the value each one receives, from bit \<open>k\<close> on.\<close>

fun visit_slices ::
    "(RegisterSlice \<Rightarrow> IndexedRange \<Rightarrow> (store, unit) act) \<Rightarrow> BitsOrdering \<Rightarrow> nat \<Rightarrow> RegisterSlice list \<Rightarrow> nat
     \<Rightarrow> (store, unit) act" where
  "visit_slices updater ord N [] k = act_return ()"
| "visit_slices updater ord N (s # ss) k =
    act_then (updater s (value_range ord N k (slice_width (slice_range s))))
             (visit_slices updater ord N ss (k + slice_width (slice_range s)))"

lemma act_bind_read: "act_bind (act_read g) f s = (case g s of Inl e \<Rightarrow> (Inl e, s) | Inr x \<Rightarrow> f x s)"
  by (simp add: act_bind_def split: sum.splits)

lemma act_then_cong: "(\<And>s. m s = m' s) \<Longrightarrow> (\<And>s. f s = f' s) \<Longrightarrow> act_then m f s = act_then m' f' s"
  by (simp add: act_then_def act_bind_def split: prod.split sum.split)

lemma UpdateRegisters_upto_eq:
  assumes "slices_ok Upto n A ss" "k + total_width ss < 4294967296"
  shows "UpdateRegisters_upto updater ss k st = visit_slices updater Upto N ss k st"
  using assms
proof (induction ss arbitrary: k st)
  case (Cons s ss)
  let ?w = "slice_width (slice_range s)"
  have w: "Width (slice_range s) = Inr ?w" "0 < ?w"
    using Cons.prems(1) Width_slice slice_bounds(2) by fastforce+
  have 1: "u32 (k + u32_sub ?w 1) = k + ?w - 1" "u32 (k + ?w - 1 + 1) = k + ?w"
    using w(2) Cons.prems(2) by simp_all
  have IH: "UpdateRegisters_upto updater ss (k + ?w) t = visit_slices updater Upto N ss (k + ?w) t" for t
    using Cons.IH Cons.prems by simp
  show ?case
    using w 1 by (auto simp: act_bind_read Let_def value_range_def IH intro!: act_then_cong)
qed simp

lemma UpdateRegisters_downto_eq:
  assumes "ord \<noteq> Upto" "slices_ok ord n A ss" "k + total_width ss = N" "N < 4294967296" "ss \<noteq> []"
  shows "UpdateRegisters_downto updater ss (N - 1 - k) st = visit_slices updater ord N ss k st"
  using assms(2,3,5)
proof (induction ss arbitrary: k st)
  case (Cons s ss)
  let ?w = "slice_width (slice_range s)"
  have w: "Width (slice_range s) = Inr ?w" "0 < ?w"
    using Cons.prems(1) Width_slice slice_bounds(2) by fastforce+
  have 1: "u32_sub (N - 1 - k) (u32_sub ?w 1) = N - k - ?w"
    using w(2) Cons.prems(2) assms(4) by simp
  have IH: "UpdateRegisters_downto updater ss (u32_sub (N - k - ?w) 1) t = visit_slices updater ord N ss (k + ?w) t" for t
  proof (cases ss)
    case (Cons s' ss')
    then have "0 < slice_width (slice_range s')"
      using Cons.prems(1) slice_bounds(2) by fastforce
    then have "u32_sub (N - k - ?w) 1 = N - 1 - (k + ?w)"
      using Cons Cons.prems(2) assms(4) by simp
    then show ?thesis using Cons.IH [of "k + ?w" t] Cons.prems Cons by simp
  qed simp
  show ?case
    using w 1 assms(1) IH by (auto simp: act_bind_read Let_def value_range_def intro!: act_then_cong)
qed simp

lemma UpdateRegisters_eq:
  assumes st: "store_ok ord n A st" and ok: "slices_ok ord n A (vr_registers vr)" "vr_registers vr \<noteq> []"
    and N: "total_width (vr_registers vr) < 4294967296"
  shows "UpdateRegisters updater vr st
    = visit_slices updater ord (total_width (vr_registers vr)) (vr_registers vr) 0 st"
proof -
  obtain s ss where s: "vr_registers vr = s # ss" using ok(2) by (cases "vr_registers vr") auto
  obtain a where a: "a \<in> A" "slice_reg s = Some a" "slice_ok ord (n a) (slice_range s)" using ok(1) s by auto
  obtain r where r: "st a = Some r" "m_bitsOrdering r = ord" using st a(1) by (rule store_okE)
  have first: "deref st (slice_reg (hd (vr_registers vr))) = Inr r" using s a r by (simp add: deref_def)
  have pos: "0 < total_width (vr_registers vr)" using s slice_bounds(2) [OF a(3)] by simp
  show ?thesis
  proof (cases "ord = Upto")
    case True
    then show ?thesis
      using UpdateRegisters_upto_eq [of n A "vr_registers vr" 0 updater st] first r(2) ok N
      by (simp add: UpdateRegisters_def act_bind_read)
  next
    case False
    then show ?thesis
      using UpdateRegisters_downto_eq [of ord n A "vr_registers vr" 0 _ updater st] first r(2) ok N pos
        VR_BitsCount_eq [OF ok(1)]
      by (simp add: UpdateRegisters_def act_bind_read)
  qed
qed

text \<open>
  What an update of one slice must do: take the bits \<open>k ..< k + w\<close> of the value and put them
  in the cells of the slice, leaving every other cell alone. An \<open>access\<close> names the vector of a
  register that is read and written.
\<close>

definition bit_at :: "(Register \<Rightarrow> bool list) \<Rightarrow> store \<Rightarrow> nat \<times> nat \<Rightarrow> bool" where
  "bit_at get st = (\<lambda>(a, i). get (the (st a)) ! i)"

text \<open>What an update never touches.\<close>

definition kept :: "Register \<Rightarrow> nat \<times> BitsOrdering \<times> BinaryVector \<times> BinaryVector \<times> nat \<times> bool" where
  "kept r = (m_identifier r, m_bitsOrdering r, m_lastToSut r, m_lastFromSut r, m_pendingCount r, m_pendingRead r)"

definition same_but_values :: "store \<Rightarrow> store \<Rightarrow> bool" where
  "same_but_values st st' \<longleftrightarrow> (\<forall>a. map_option kept (st' a) = map_option kept (st a))"

lemma same_but_values_refl [simp]: "same_but_values st st"
  by (simp add: same_but_values_def)

lemma same_but_values_trans: "same_but_values st st1 \<Longrightarrow> same_but_values st1 st2 \<Longrightarrow> same_but_values st st2"
  by (simp add: same_but_values_def)

lemma same_but_values_update: "st a = Some r \<Longrightarrow> kept r' = kept r \<Longrightarrow> same_but_values st (st(a \<mapsto> r'))"
  by (simp add: same_but_values_def)

locale register_access =
  fixes get :: "Register \<Rightarrow> bool list"
    and getter :: "Register \<Rightarrow> BinaryVector"
    and setter :: "BinaryVector \<Rightarrow> (Register, unit) act"
  assumes getter_eq: "reg_inv n r \<Longrightarrow> getter r = bv_make (get r) NotFixed"
    and get_length: "reg_inv n r \<Longrightarrow> length (get r) = n"
    and setter_ok: "reg_inv n r \<Longrightarrow> length bs = n \<Longrightarrow> \<exists>r'. setter (bv_make bs NotFixed) r = (Inr (), r')
      \<and> reg_inv n r' \<and> get r' = bs \<and> kept r' = kept r"
begin

lemma updater_step:
  assumes st: "store_ok ord n A st" and a: "a \<in> A" "slice_reg s = Some a"
    and ok: "slice_ok ord (n a) (slice_range s)" and slack: "slack \<noteq> []"
    and vs: "k + slice_width (slice_range s) \<le> length vs" "length vs < 4294967289"
  shows "\<exists>st'. SetView_updater null slack getter setter (bv_make vs p) s
        (value_range ord (length vs) k (slice_width (slice_range s))) st = (Inr (), st')
      \<and> store_ok ord n A st' \<and> same_but_values st st'
      \<and> slice_bits get ord n st' s = take (slice_width (slice_range s)) (drop k vs)
      \<and> (\<forall>b. b \<noteq> a \<longrightarrow> st' b = st b)
      \<and> (\<forall>i. i < n a \<longrightarrow> (a, i) \<notin> cells ord n s \<longrightarrow> bit_at get st' (a, i) = bit_at get st (a, i))"
proof -
  let ?w = "slice_width (slice_range s)" and ?off = "slice_offset ord (n a) (slice_range s)"
  let ?cs = "take ?w (drop k vs)"
  note b = slice_bounds [OF ok]
  obtain r where r: "st a = Some r" "reg_inv (n a) r" "m_bitsOrdering r = ord"
    using st a(1) by (rule store_okE)
  have len: "length (get r) = n a" by (rule get_length [OF r(2)])
  have cs: "length ?cs = ?w" using vs by simp
  note v = value_range_ok [OF b(2) vs(1,2), of ord]
  have val: "VR_GetSlice (value_range ord (length vs) k ?w) ord (bv_make vs p) = Inr (bv_make ?cs NotFixed)"
    using VR_GetSlice_make [OF v(1)] v by simp
  have put: "VR_SetSlice null slack (slice_range s) ord (getter r) (bv_make ?cs NotFixed)
      = Inr (bv_make (splice ?off ?cs (get r)) NotFixed)"
    using VR_SetSlice_make [of ord "get r" "slice_range s" ?cs slack] ok len cs slack getter_eq [OF r(2)] by simp
  have "length (splice ?off ?cs (get r)) = n a" using len cs b by simp
  from setter_ok [OF r(2) this] obtain r' where r': "setter (bv_make (splice ?off ?cs (get r)) NotFixed) r = (Inr (), r')"
    "reg_inv (n a) r'" "get r' = splice ?off ?cs (get r)" "kept r' = kept r" by auto
  have run: "SetView_updater null slack getter setter (bv_make vs p) s (value_range ord (length vs) k ?w) st
      = (Inr (), st(a \<mapsto> r'))"
    using a r val put r' by (simp add: SetView_updater_def act_bind_read deref_def act_at_def)
  have inv: "store_ok ord n A (st(a \<mapsto> r'))"
    using st r' r(3) by (auto simp: store_ok_def kept_def)
  have bits: "slice_bits get ord n (st(a \<mapsto> r')) s = ?cs"
    using a r' len cs b by (auto simp: slice_bits_def positions_def Let_def splice_def nth_append intro!: nth_equalityI)
  have frame: "bit_at get (st(a \<mapsto> r')) (a, i) = bit_at get st (a, i)" if "i < n a" "(a, i) \<notin> cells ord n s" for i
  proof -
    have "i < ?off \<or> ?off + ?w \<le> i" using that(2) a by (auto simp: cells_def positions_def Let_def)
    then show ?thesis
      using that(1) a r r' len cs b by (auto simp: bit_at_def splice_def nth_append min_def)
  qed
  show ?thesis using run inv bits frame same_but_values_update [of st a r r'] r(1) r'(4) by auto
qed

lemma slice_bits_frame:
  assumes "\<And>c. c \<in> cells ord n s \<Longrightarrow> bit_at get st' c = bit_at get st c"
  shows "slice_bits get ord n st' s = slice_bits get ord n st s"
proof -
  have "get (the (st' (the (slice_reg s)))) ! i = get (the (st (the (slice_reg s)))) ! i"
    if "i \<in> set (positions ord n s)" for i
    using assms [of "(the (slice_reg s), i)"] that by (simp add: cells_def bit_at_def)
  then show ?thesis by (simp add: slice_bits_def)
qed

lemma cells_bound: "slices_ok ord n A ss \<Longrightarrow> s \<in> set ss \<Longrightarrow> (a, i) \<in> cells ord n s \<Longrightarrow> i < n a"
  using slice_bounds(1) by (fastforce simp: slices_ok_def cells_def positions_def Let_def)

lemma visit_ok:
  assumes "store_ok ord n A st" "slices_ok ord n A ss" "separate ord n ss" "slack \<noteq> []"
    and "k + total_width ss \<le> length vs" "length vs < 4294967289"
  shows "\<exists>st'. visit_slices (SetView_updater null slack getter setter (bv_make vs p)) ord (length vs) ss k st = (Inr (), st')
      \<and> store_ok ord n A st' \<and> same_but_values st st' \<and> (\<forall>a. Some a \<notin> slice_reg ` set ss \<longrightarrow> st' a = st a)
      \<and> view_bits get ord n st' ss = take (total_width ss) (drop k vs)
      \<and> (\<forall>a i. i < n a \<longrightarrow> (a, i) \<notin> (\<Union>t \<in> set ss. cells ord n t) \<longrightarrow> bit_at get st' (a, i) = bit_at get st (a, i))"
  using assms
proof (induction ss arbitrary: k st)
  case (Cons s ss)
  let ?w = "slice_width (slice_range s)"
  obtain a where a: "a \<in> A" "slice_reg s = Some a" "slice_ok ord (n a) (slice_range s)"
    using Cons.prems(2) by auto
  obtain st1 where st1: "SetView_updater null slack getter setter (bv_make vs p) s (value_range ord (length vs) k ?w) st = (Inr (), st1)"
    "store_ok ord n A st1" "slice_bits get ord n st1 s = take ?w (drop k vs)" "\<And>b. b \<noteq> a \<Longrightarrow> st1 b = st b"
    "same_but_values st st1"
    "\<And>i. i < n a \<Longrightarrow> (a, i) \<notin> cells ord n s \<Longrightarrow> bit_at get st1 (a, i) = bit_at get st (a, i)"
    using updater_step [OF Cons.prems(1) a(1,2,3) Cons.prems(4), of k vs null p] Cons.prems(5,6) by auto
  obtain st2 where st2: "visit_slices (SetView_updater null slack getter setter (bv_make vs p)) ord (length vs) ss (k + ?w) st1 = (Inr (), st2)"
    "store_ok ord n A st2" "view_bits get ord n st2 ss = take (total_width ss) (drop (k + ?w) vs)"
    "\<And>a i. i < n a \<Longrightarrow> (a, i) \<notin> (\<Union>t \<in> set ss. cells ord n t) \<Longrightarrow> bit_at get st2 (a, i) = bit_at get st1 (a, i)"
    "same_but_values st1 st2" "\<And>a. Some a \<notin> slice_reg ` set ss \<Longrightarrow> st2 a = st1 a"
    using Cons.IH [OF st1(2), of "k + ?w"] Cons.prems(2-6) by auto
  have "bit_at get st2 c = bit_at get st1 c" if c: "c \<in> cells ord n s" for c
  proof -
    obtain b i where "c = (b, i)" by (cases c)
    then show ?thesis
      using st2(4) [of i b] c Cons.prems(3) cells_bound [OF Cons.prems(2), of s b i] by auto
  qed
  then have "slice_bits get ord n st2 s = take ?w (drop k vs)"
    using slice_bits_frame st1(3) by metis
  then have view: "view_bits get ord n st2 (s # ss) = take (total_width (s # ss)) (drop k vs)"
    using st2(3) by (simp add: take_add add.commute [of k])
  have frame: "bit_at get st2 (b, i) = bit_at get st (b, i)"
    if "i < n b" "(b, i) \<notin> (\<Union>t \<in> set (s # ss). cells ord n t)" for b i
    using st2(4) [of i b] st1(4) [of b] st1(6) [of i] that by (cases "b = a") (auto simp: bit_at_def)
  have rest: "\<forall>b. Some b \<notin> slice_reg ` set (s # ss) \<longrightarrow> st2 b = st b"
    using st2(6) st1(4) a(2) by auto
  show ?case
    using st1(1) st2(1,2) view frame rest same_but_values_trans [OF st1(5) st2(5)] by (auto simp: act_then_def act_bind_def)
qed simp

lemma SetView_ok:
  assumes "store_ok ord n A st" "slices_ok ord n A (vr_registers vr)" "separate ord n (vr_registers vr)"
    and "vr_registers vr \<noteq> []" "length vs = total_width (vr_registers vr)" "length vs < 4294967289" "slack \<noteq> []"
  shows "\<exists>st'. VR_SetView null slack getter setter (bv_make vs p) vr st = (Inr (), st')
      \<and> store_ok ord n A st' \<and> same_but_values st st' \<and> (\<forall>a. Some a \<notin> slice_reg ` set (vr_registers vr) \<longrightarrow> st' a = st a)
      \<and> view_bits get ord n st' (vr_registers vr) = vs
      \<and> (\<forall>a i. i < n a \<longrightarrow> (a, i) \<notin> (\<Union>t \<in> set (vr_registers vr). cells ord n t)
           \<longrightarrow> bit_at get st' (a, i) = bit_at get st (a, i))"
  using visit_ok [OF assms(1-3,7), of 0 vs null p] UpdateRegisters_eq [OF assms(1,2,4)] assms(5,6)
  by (simp add: VR_SetView_def)

end

interpretation vr_to_sut: register_access "\<lambda>r. bits_of (m_nextToSut r)" "\<lambda>r. BinaryVector_copy (m_nextToSut r)" Register_SetToSut
proof
  fix n r assume r: "reg_inv n r"
  obtain es where e: "m_nextToSut r = bv_make es Fixed" "length es = n" using reg_invD(1) [OF r] by (rule fixedE)
  show "BinaryVector_copy (m_nextToSut r) = bv_make (bits_of (m_nextToSut r)) NotFixed"
    and "length (bits_of (m_nextToSut r)) = n" using e by simp_all
  fix bs :: "bool list" assume bs: "length bs = n"
  have p: "plain (bv_make bs NotFixed)" using bs reg_invD(9) [OF r] by simp
  have "reg_inv n (snd (Register_SetToSut (bv_make bs NotFixed) r))"
    by (rule keepsD [OF keeps_SetToSut(1) [OF p] r])
  then show "\<exists>r'. Register_SetToSut (bv_make bs NotFixed) r = (Inr (), r') \<and> reg_inv n r'
      \<and> bits_of (m_nextToSut r') = bs \<and> kept r' = kept r"
    using Register_SetToSut_eq [OF r p] bs by (simp add: kept_def)
qed

interpretation vr_expected: register_access "\<lambda>r. bits_of (m_expectedFromSut r)"
  "\<lambda>r. BinaryVector_copy (m_expectedFromSut r)" "\<lambda>val. Register_SetExpectedFromSut (BinaryVector_copy val)"
proof
  fix n r assume r: "reg_inv n r"
  obtain es where e: "m_expectedFromSut r = bv_make es Fixed" "length es = n" using reg_invD(4) [OF r] by (rule fixedE)
  show "BinaryVector_copy (m_expectedFromSut r) = bv_make (bits_of (m_expectedFromSut r)) NotFixed"
    and "length (bits_of (m_expectedFromSut r)) = n" using e by simp_all
  fix bs :: "bool list" assume bs: "length bs = n"
  have p: "plain (bv_make bs NotFixed)" using bs reg_invD(9) [OF r] by simp
  have "reg_inv n (snd (Register_SetExpectedFromSut (bv_make bs NotFixed) r))"
    by (rule keepsD [OF keeps_SetExpectedFromSut(1) [OF p] r])
  then show "\<exists>r'. Register_SetExpectedFromSut (BinaryVector_copy (bv_make bs NotFixed)) r = (Inr (), r') \<and> reg_inv n r'
      \<and> bits_of (m_expectedFromSut r') = bs \<and> kept r' = kept r"
    using expected.move_to_eq [OF r p] bs
    by (simp add: Register_SetExpectedFromSut_def put_expectedFromSut_def kept_def)
qed

section \<open>Construction and its limits\<close>

lemma VR_Append_eq:
  assumes reg: "slice_reg s = Some a" "st a = Some r" and wf: "range_wf (slice_range s)" "Register_BitsCount r < 4294967296"
    and prev: "vr_registers vr \<noteq> [] \<Longrightarrow> deref st (slice_reg (last (vr_registers vr))) = Inr q"
  shows "VR_Append s st vr =
    (if Register_BitsCount r = 0 \<or> m_bitsOrdering r = Undefined then Inl InvalidArgument
     else if slice_width (slice_range s) = 4294967296 then Inl RuntimeError
     else if MaxIndex (slice_range s) < Register_BitsCount r
             \<and> (vr_registers vr \<noteq> [] \<longrightarrow> m_bitsOrdering r = m_bitsOrdering q)
     then Inr \<lparr>vr_identifiers = vr_identifiers vr @ [m_identifier r], vr_registers = vr_registers vr @ [s]\<rparr>
     else Inl InvalidArgument)"
proof -
  have card: "slice_width (slice_range s) = card (indexes (slice_range s))"
    by (auto simp: slice_width_def card_indexes)
  have w: "Width (slice_range s) = (if slice_width (slice_range s) = 4294967296 then Inl RuntimeError
      else Inr (slice_width (slice_range s)))"
    using Width_eq [OF wf(1)] card by simp
  have small: "slice_width (slice_range s) \<le> Register_BitsCount r" if "MaxIndex (slice_range s) < Register_BitsCount r"
    using that by (auto simp: slice_width_def MaxIndex_def)
  show ?thesis
    using reg prev w small
    by (cases "vr_registers vr = []") (auto simp: VR_Append_def check_defs deref_def)
qed

text \<open>
  The constructor from one register always uses the range from its last bit down to 0. Seen from
  a register whose bits are numbered upwards, that range starts at the last bit.
\<close>

lemma VirtualRegister_of_eq:
  assumes "st a = Some r" "reg_inv n r" "0 < n"
  shows "VirtualRegister_of (Some a) st = Inr \<lparr>vr_identifiers = [m_identifier r],
    vr_registers = [\<lparr>slice_reg = Some a, slice_range = \<lparr>left = n - 1, right = 0\<rparr>\<rparr>]\<rparr>"
proof -
  obtain bs where "m_bypass r = bv_make bs Fixed" "length bs = n" using reg_invD(5) [OF assms(2)] by (rule fixedE)
  then show ?thesis
    using assms(1,3) reg_invD(9) [OF assms(2)]
    by (simp add: VirtualRegister_of_def deref_def Register_BitsCount_def check_defs IndexedRange_of_def)
qed

lemma single_slice_ok: "0 < n \<Longrightarrow> n < 4294967289 \<Longrightarrow> ord \<noteq> Upto \<Longrightarrow> slice_ok ord n \<lparr>left = n - 1, right = 0\<rparr>"
  by (simp add: slice_ok_def)

lemma single_slice_upto:
  assumes "1 < length bs" "length bs < 2147483648"
  shows "VR_GetSlice \<lparr>left = length bs - 1, right = 0\<rparr> Upto (bv_make bs p) = Inl InvalidArgument"
proof -
  have "Width \<lparr>left = length bs - 1, right = 0\<rparr> = Inr (length bs)"
    using assms by (simp add: Width_def)
  moreover have "\<not> length bs - 1 + length bs \<le> length bs" "bs \<noteq> []" using assms by auto
  ultimately show ?thesis using assms by (simp add: VR_GetSlice_def Slice_range_def Slice_make check_defs)
qed

lemma VirtualRegister_of_upto:
  assumes "st a = Some r" "reg_inv n r" "1 < n" "n < 2147483648" "m_bitsOrdering r = Upto"
  shows "rbind (VirtualRegister_of (Some a) st) (VR_NextToSut st) = Inl InvalidArgument"
proof -
  obtain bs where b: "m_nextToSut r = bv_make bs Fixed" "length bs = n" using reg_invD(1) [OF assms(2)] by (rule fixedE)
  show ?thesis
    using VirtualRegister_of_eq [where st = st and a = a and n = n, OF assms(1,2)] assms b single_slice_upto [of bs NotFixed]
    by (simp add: VR_NextToSut_def VR_view_def VR_GetView_def act_bind_def act_then_def act_assign_def deref_def)
qed

text \<open>Without a register, \<^verbatim>\<open>SetToSut\<close> throws and \<^verbatim>\<open>SetExpectedFromSut\<close> is undefined.\<close>

lemma VR_empty_updates:
  assumes "vr_registers vr = []" "BitsCount v = BitsCount m"
  shows "\<not> IsEmpty v \<Longrightarrow> fst (VR_SetToSut null slack v vr st) = Inl RuntimeError"
    and "fst (VR_SetExpectedFromSut null slack v m vr st) = Inl UndefinedBehaviour"
  using assms by (simp_all add: VR_SetToSut_def VR_SetExpectedFromSut_def VR_SetView_def UpdateRegisters_def)

section \<open>Pending flags\<close>

definition slices_live :: "store \<Rightarrow> RegisterSlice list \<Rightarrow> bool" where
  "slices_live st ss \<longleftrightarrow> (\<forall>s \<in> set ss. \<exists>a r. slice_reg s = Some a \<and> st a = Some r)"

lemma slices_live: "store_ok ord n A st \<Longrightarrow> slices_ok ord n A ss \<Longrightarrow> slices_live st ss"
  unfolding slices_live_def slices_ok_def store_ok_def by blast

lemma each_register_modify:
  assumes "slices_live st ss" and "\<And>r. f (f r) = f r"
  shows "act_each (\<lambda>s. act_at (slice_reg s) (act_modify f)) ss st
    = (Inr (), \<lambda>a. if Some a \<in> slice_reg ` set ss then map_option f (st a) else st a)"
  using assms(1)
proof (induction ss arbitrary: st)
  case (Cons s ss)
  obtain a r where a: "slice_reg s = Some a" "st a = Some r" using Cons.prems by (auto simp: slices_live_def)
  have "slices_live (st(a \<mapsto> f r)) ss"
    using Cons.prems by (fastforce simp: slices_live_def fun_upd_def)
  note IH = Cons.IH [OF this]
  have "act_at (slice_reg s) (act_modify f) st = (Inr (), st(a \<mapsto> f r))" using a by (simp add: act_at_def)
  then have eq: "act_each (\<lambda>s. act_at (slice_reg s) (act_modify f)) (s # ss) st
      = act_each (\<lambda>s. act_at (slice_reg s) (act_modify f)) ss (st(a \<mapsto> f r))"
    by (simp add: act_simps)
  show ?case unfolding eq by (intro trans [OF IH]) (use a assms(2) in \<open>auto simp: fun_eq_iff\<close>)
qed simp

lemma VR_SetPendingForRead_eq:
  "slices_live st (vr_registers vr) \<Longrightarrow> VR_SetPendingForRead b vr st = (Inr (), \<lambda>a.
    if Some a \<in> slice_reg ` set (vr_registers vr) then map_option (SetPendingForRead b) (st a) else st a)"
  unfolding VR_SetPendingForRead_def by (rule each_register_modify) (simp_all add: SetPendingForRead_def)

lemma VR_SetPending_eq:
  "slices_live st (vr_registers vr) \<Longrightarrow> VR_SetPending vr st = (Inr (), \<lambda>a.
    if Some a \<in> slice_reg ` set (vr_registers vr) then map_option SetPending (st a) else st a)"
  unfolding VR_SetPending_def by (rule each_register_modify) (simp_all add: SetPending_def)

lemma VR_IsPendingForRead_eq:
  assumes "slices_live st (vr_registers vr)"
  shows "VR_IsPendingForRead st vr
    = Inr (\<exists>s \<in> set (vr_registers vr). m_pendingRead (the (st (the (slice_reg s)))))"
proof -
  have "any_pending_read st ss = Inr (\<exists>s \<in> set ss. m_pendingRead (the (st (the (slice_reg s)))))"
    if "slices_live st ss" for ss
    using that
  proof (induction ss)
    case (Cons s ss)
    obtain a r where a: "slice_reg s = Some a" "st a = Some r" using Cons.prems by (auto simp: slices_live_def)
    have "any_pending_read st ss = Inr (\<exists>s \<in> set ss. m_pendingRead (the (st (the (slice_reg s)))))"
      using Cons by (simp add: slices_live_def)
    then show ?case using a by (simp add: deref_def)
  qed simp
  then show ?thesis using assms by (simp add: VR_IsPendingForRead_def)
qed
end
