(* ===== verification/Path_Selectors.thy ===== *)
theory Path_Selectors
  imports Virtual_Registers BV_Text
begin

text \<open>
  The path selectors of linkers: the interface \<^verbatim>\<open>PathSelector\<close> and its implementations
  \<^verbatim>\<open>DefaultTableBasedPathSelector\<close>, \<^verbatim>\<open>DefaultBinaryPathSelector\<close>,
  \<^verbatim>\<open>DefaultOneHotPathSelector\<close>, \<^verbatim>\<open>DefaultNHotPathSelector\<close> and \<^verbatim>\<open>BrocadeSelector\<close>. A selector
  drives the registers of a multiplexer through a virtual register: a path is selected by the
  value that will be sent, active by the value last sent. The dynamic type of a selector is its
  \<open>m_kind\<close>; virtual calls dispatch on it. Table rows are copied and moved as the code does, so
  their size property is part of the model.

  The loops over path identifiers run from 1 to the paths count, which has to be below
  \<open>2 ^ 32 - 1\<close>: at that value the loops of the code never end.
\<close>

section \<open>Data\<close>

definition CanSelectNone_flag :: nat where "CanSelectNone_flag = 1"
definition InvertedBits_flag :: nat where "InvertedBits_flag = 2"
definition ReverseOrder_flag :: nat where "ReverseOrder_flag = 4"
definition StartAtZero_flag :: nat where "StartAtZero_flag = 8"

definition IsSet :: "nat \<Rightarrow> nat \<Rightarrow> bool" where
  "IsSet val flags = (val AND flags = flags)"

datatype SelectorKind = Table_Based | Binary | One_Hot | N_Hot | Brocade

record PathSelector =
  m_kind :: SelectorKind
  m_properties :: nat
  m_selectTable :: "BinaryVector list"
  m_deselectTable :: "BinaryVector list"
  m_pathsCount :: nat
  m_muxRegisters :: VirtualRegister
  m_invertedBits :: bool

definition CanSelectNone :: "PathSelector \<Rightarrow> bool" where
  "CanSelectNone sel = (m_properties sel AND CanSelectNone_flag = CanSelectNone_flag)"

definition SelectablePaths :: "PathSelector \<Rightarrow> nat" where
  "SelectablePaths sel = m_pathsCount sel"

section \<open>Tables\<close>

fun each_row :: "('a \<Rightarrow> BinaryVector result) \<Rightarrow> 'a list \<Rightarrow> BinaryVector list result" where
  "each_row f [] = Inr []"
| "each_row f (x # xs) = rbind (f x) (\<lambda>row. rbind (each_row f xs) (\<lambda>rows. Inr (row # rows)))"

definition InvertTable :: "BinaryVector list \<Rightarrow> BinaryVector list result" where
  "InvertTable table = each_row (\<lambda>elem. rbind (toggled elem) (\<lambda>t. rbind (assign_move elem t) (\<lambda>(v, _). Inr v))) table"

definition FixTable :: "BinaryVector list \<Rightarrow> BinaryVector list" where
  "FixTable table = map (FixSize True) table"

definition Binary_CheckRegisterLength :: "nat \<Rightarrow> nat \<Rightarrow> bool \<Rightarrow> unit result" where
  "Binary_CheckRegisterLength registerLength pathsCount canSelectNone =
    (let maxSelectorValue = (if \<not> canSelectNone \<and> pathsCount \<noteq> 0 then pathsCount - 1 else pathsCount);
         selectorMinWidth = MinimalBitsForValue maxSelectorValue
     in if registerLength < selectorMinWidth then Inl LogicError else Inr ())"

definition Binary_select_row :: "bool \<Rightarrow> nat \<Rightarrow> nat \<Rightarrow> BinaryVector result" where
  "Binary_select_row canSelectNone registerLength pathId =
    (let selectValue = (if canSelectNone then pathId else u32_sub pathId 1)
     in rbind (Append_u32 (word_of_nat selectValue) (u8 registerLength) Right BinaryVector_empty) (\<lambda>temp.
        Inr (BinaryVector_copy_as temp FixedOnCopy)))"

definition Binary_CreateSelectTable :: "nat \<Rightarrow> nat \<Rightarrow> nat \<Rightarrow> BinaryVector list result" where
  "Binary_CreateSelectTable registerLength pathsCount properties =
    (let isInverted = IsSet properties InvertedBits_flag;
         canSelectNone = IsSet properties CanSelectNone_flag
     in rbind (Binary_CheckRegisterLength registerLength pathsCount canSelectNone) (\<lambda>_.
        rbind (BinaryVector_fill registerLength 0 FixedOnCopy) (\<lambda>dummy.
        rbind (each_row (Binary_select_row canSelectNone registerLength) [1..<Suc pathsCount]) (\<lambda>rows.
          if isInverted then InvertTable (dummy # rows) else Inr (dummy # rows)))))"

definition Binary_CreateDeselectTable :: "nat \<Rightarrow> nat \<Rightarrow> nat \<Rightarrow> BinaryVector list result" where
  "Binary_CreateDeselectTable registerLength pathsCount properties =
    (let isInverted = IsSet properties InvertedBits_flag;
         canSelectNone = IsSet properties CanSelectNone_flag
     in rbind (Binary_CheckRegisterLength registerLength pathsCount canSelectNone) (\<lambda>_.
        rbind (BinaryVector_fill registerLength 0 FixedOnCopy) (\<lambda>row.
          let table = replicate (u32 (pathsCount + 1)) (BinaryVector_copy row)
          in if isInverted then InvertTable table else Inr table)))"

definition RegWidthForPathCount :: "nat \<Rightarrow> bool \<Rightarrow> nat result" where
  "RegWidthForPathCount pathsCount canSelectNone =
    (if pathsCount = 0 then Inl InvalidArgument
     else if pathsCount = 1 \<and> \<not> canSelectNone then Inl InvalidArgument
     else let maxValue = (if canSelectNone then pathsCount else pathsCount - 1)
          in Inr (MinimalBitsForValue maxValue))"

definition Binary_AssociatedRegisterInitialValue :: "nat \<Rightarrow> nat \<Rightarrow> BinaryVector result" where
  "Binary_AssociatedRegisterInitialValue pathsCount properties =
    (let canSelectNone = IsSet properties CanSelectNone_flag
     in rbind (RegWidthForPathCount pathsCount canSelectNone) (\<lambda>regSize. BinaryVector_fill regSize 0 Fixed))"

definition Hot_CheckRegisterLength :: "nat \<Rightarrow> nat \<Rightarrow> unit result" where
  "Hot_CheckRegisterLength registerLength pathsCount =
    (if registerLength < pathsCount then Inl LogicError else Inr ())"

text \<open>The vector \<^verbatim>\<open>temp\<close> carries one set bit from one iteration to the next only to clear it again.\<close>

fun OneHot_select_rows :: "bool \<Rightarrow> nat \<Rightarrow> BinaryVector \<Rightarrow> nat \<Rightarrow> BinaryVector list result" where
  "OneHot_select_rows reverseOrder selectionBit temp 0 = Inr []"
| "OneHot_select_rows reverseOrder selectionBit temp (Suc paths) =
    rbind (SetBit selectionBit temp) (\<lambda>temp1.
    rbind (ClearBit selectionBit temp1) (\<lambda>temp2.
    rbind (OneHot_select_rows reverseOrder
            (if reverseOrder then u32_sub selectionBit 1 else u32 (selectionBit + 1)) temp2 paths) (\<lambda>rows.
      Inr (BinaryVector_copy_as temp1 FixedOnCopy # rows))))"

definition OneHot_CreateSelectTable :: "nat \<Rightarrow> nat \<Rightarrow> nat \<Rightarrow> BinaryVector list result" where
  "OneHot_CreateSelectTable registerLength pathsCount properties =
    (let StartAtZero = IsSet properties StartAtZero_flag
     in rbind (if \<not> StartAtZero then Hot_CheckRegisterLength registerLength pathsCount
               else Hot_CheckRegisterLength registerLength (u32_sub pathsCount 1)) (\<lambda>_.
        rbind (BinaryVector_fill registerLength 0 FixedOnCopy) (\<lambda>dummy.
        let reverseOrder = IsSet properties ReverseOrder_flag;
            selectionBit = (if reverseOrder then u32_sub registerLength 1 else 0);
            firsts = (if StartAtZero then [dummy, dummy] else [dummy])
        in rbind (BinaryVector_fill registerLength 0 NotFixed) (\<lambda>temp.
           rbind (OneHot_select_rows reverseOrder selectionBit temp pathsCount) (\<lambda>rows.
             if IsSet properties InvertedBits_flag then InvertTable (firsts @ rows) else Inr (firsts @ rows))))))"

definition OneHot_CreateDeselectTable :: "nat \<Rightarrow> nat \<Rightarrow> nat \<Rightarrow> BinaryVector list result" where
  "OneHot_CreateDeselectTable registerLength pathsCount properties =
    (let StartAtZero = IsSet properties StartAtZero_flag;
         TableSizeModifier = (if StartAtZero then 2 else 1)
     in rbind (if \<not> StartAtZero then Hot_CheckRegisterLength registerLength pathsCount
               else Hot_CheckRegisterLength registerLength (u32_sub pathsCount 1)) (\<lambda>_.
        rbind (BinaryVector_fill registerLength 0 FixedOnCopy) (\<lambda>row.
          let table = replicate (u32 (pathsCount + TableSizeModifier)) (BinaryVector_copy row)
          in if IsSet properties InvertedBits_flag then InvertTable table else Inr table)))"

definition OneHot_AssociatedRegisterInitialValue :: "nat \<Rightarrow> nat \<Rightarrow> BinaryVector result" where
  "OneHot_AssociatedRegisterInitialValue pathsCount properties =
    (let canSelectNone = IsSet properties CanSelectNone_flag;
         invertedBits = IsSet properties InvertedBits_flag;
         reverseOrder = IsSet properties ReverseOrder_flag;
         StartAtZero = IsSet properties StartAtZero_flag
     in rbind (if invertedBits then BinaryVector_fill pathsCount 0xFF Fixed
               else BinaryVector_fill pathsCount 0x00 Fixed) (\<lambda>val.
          if StartAtZero then Inr val
          else if \<not> canSelectNone
          then let bitOffset = (if reverseOrder then u32_sub pathsCount 1 else 0)
               in if invertedBits then ClearBit bitOffset val else SetBit bitOffset val
          else Inr val))"

definition NHot_CreateDeselectTable :: "nat \<Rightarrow> nat \<Rightarrow> nat \<Rightarrow> BinaryVector list result" where
  "NHot_CreateDeselectTable registerLength pathsCount properties =
    rbind (OneHot_CreateSelectTable registerLength pathsCount properties) InvertTable"

definition REGISTER_BITS_COUNT :: nat where "REGISTER_BITS_COUNT = 8"
definition MAX_TAPS_COUNT :: nat where "MAX_TAPS_COUNT = 5"

definition Brocade_CreateSelectTable :: "nat \<Rightarrow> nat \<Rightarrow> BinaryVector list result" where
  "Brocade_CreateSelectTable pathsCount properties =
    CheckParameterCondition (1 \<le> pathsCount \<and> pathsCount \<le> MAX_TAPS_COUNT)
      (OneHot_CreateSelectTable REGISTER_BITS_COUNT pathsCount properties)"

definition Brocade_CreateDeselectTable :: "nat \<Rightarrow> nat \<Rightarrow> BinaryVector list result" where
  "Brocade_CreateDeselectTable pathsCount properties =
    CheckParameterCondition (1 \<le> pathsCount \<and> pathsCount \<le> MAX_TAPS_COUNT)
      (rbind (OneHot_CreateSelectTable REGISTER_BITS_COUNT pathsCount properties) InvertTable)"

section \<open>Construction\<close>

definition TableBased_of ::
    "SelectorKind \<Rightarrow> VirtualRegister \<Rightarrow> nat \<Rightarrow> BinaryVector list \<Rightarrow> BinaryVector list \<Rightarrow> nat \<Rightarrow> PathSelector result" where
  "TableBased_of kind associatedRegisters pathsCount selectTable deselectTable properties =
    (let sel = \<lparr>m_kind = kind, m_properties = properties, m_selectTable = FixTable selectTable,
                m_deselectTable = FixTable deselectTable, m_pathsCount = pathsCount,
                m_muxRegisters = associatedRegisters, m_invertedBits = False\<rparr>
     in if length (m_selectTable sel) \<noteq> length (m_deselectTable sel) then Inl InvalidArgument
        else if length (m_deselectTable sel) \<le> m_pathsCount sel then Inl InvalidArgument
        else Inr sel)"

definition TableBased_of_register ::
    "SelectorKind \<Rightarrow> register_ptr \<Rightarrow> store \<Rightarrow> nat \<Rightarrow> BinaryVector list \<Rightarrow> BinaryVector list \<Rightarrow> nat \<Rightarrow> PathSelector result" where
  "TableBased_of_register kind associatedRegister st pathsCount selectTable deselectTable properties =
    rbind (VirtualRegister_of associatedRegister st) (\<lambda>vr.
      TableBased_of kind vr pathsCount selectTable deselectTable properties)"

definition table_entry :: "Register \<Rightarrow> string \<Rightarrow> BinaryVector result" where
  "table_entry reg val =
    rbind (CreateFromString (Some val) NotFixed IsError) (\<lambda>binaryVector.
      CheckParameterCondition (BitsCount binaryVector = Register_BitsCount reg)
        (Inr (fst (BinaryVector_move binaryVector))))"

definition TableBased_of_text ::
    "register_ptr \<Rightarrow> store \<Rightarrow> nat \<Rightarrow> nat \<Rightarrow> string \<Rightarrow> PathSelector result" where
  "TableBased_of_text associatedRegister st pathsCount properties tables =
    rbind (VirtualRegister_of associatedRegister st) (\<lambda>vr.
    rbind (deref st associatedRegister) (\<lambda>reg.
      let vectors = Split tables '','';
          valuesCount = length vectors;
          tableDepth = valuesCount div 2
      in CheckParameterCondition (valuesCount \<noteq> 0)
        (CheckParameterCondition (valuesCount mod 2 = 0)
        (CheckParameterCondition (tableDepth > pathsCount)
        (rbind (each_row (table_entry reg) (take tableDepth vectors)) (\<lambda>selectTable.
         rbind (each_row (table_entry reg) (drop tableDepth vectors)) (\<lambda>deselectTable.
           Inr \<lparr>m_kind = Table_Based, m_properties = properties, m_selectTable = selectTable,
                m_deselectTable = deselectTable, m_pathsCount = pathsCount,
                m_muxRegisters = vr, m_invertedBits = False\<rparr>)))))))"

definition Binary_of :: "register_ptr \<Rightarrow> store \<Rightarrow> nat \<Rightarrow> nat \<Rightarrow> PathSelector result" where
  "Binary_of associatedRegister st pathsCount properties =
    CheckParameterCondition (associatedRegister \<noteq> None)
    (rbind (deref st associatedRegister) (\<lambda>reg.
     rbind (Binary_CreateSelectTable (Register_BitsCount reg) pathsCount properties) (\<lambda>selectTable.
     rbind (Binary_CreateDeselectTable (Register_BitsCount reg) pathsCount properties) (\<lambda>deselectTable.
     TableBased_of_register Binary associatedRegister st pathsCount selectTable deselectTable properties))))"

definition Binary_of_virtual :: "VirtualRegister \<Rightarrow> nat \<Rightarrow> nat \<Rightarrow> PathSelector result" where
  "Binary_of_virtual associatedRegisters pathsCount properties =
    rbind (VR_BitsCount associatedRegisters) (\<lambda>n.
    rbind (Binary_CreateSelectTable n pathsCount properties) (\<lambda>selectTable.
    rbind (Binary_CreateDeselectTable n pathsCount properties) (\<lambda>deselectTable.
    TableBased_of Binary associatedRegisters pathsCount selectTable deselectTable properties)))"

definition OneHot_of :: "register_ptr \<Rightarrow> store \<Rightarrow> nat \<Rightarrow> nat \<Rightarrow> PathSelector result" where
  "OneHot_of associatedRegister st pathsCount properties =
    CheckParameterCondition (associatedRegister \<noteq> None)
    (rbind (deref st associatedRegister) (\<lambda>reg.
     rbind (OneHot_CreateSelectTable (Register_BitsCount reg) pathsCount properties) (\<lambda>selectTable.
     rbind (OneHot_CreateDeselectTable (Register_BitsCount reg) pathsCount properties) (\<lambda>deselectTable.
     TableBased_of_register One_Hot associatedRegister st pathsCount selectTable deselectTable properties))))"

definition NHot_of :: "register_ptr \<Rightarrow> store \<Rightarrow> nat \<Rightarrow> nat \<Rightarrow> PathSelector result" where
  "NHot_of associatedRegister st pathsCount properties =
    CheckParameterCondition (associatedRegister \<noteq> None)
    (rbind (deref st associatedRegister) (\<lambda>reg.
     rbind (OneHot_CreateSelectTable (Register_BitsCount reg) pathsCount properties) (\<lambda>selectTable.
     rbind (NHot_CreateDeselectTable (Register_BitsCount reg) pathsCount properties) (\<lambda>deselectTable.
     rbind (TableBased_of_register N_Hot associatedRegister st pathsCount selectTable deselectTable properties) (\<lambda>sel.
     Inr (sel\<lparr>m_invertedBits := IsSet properties InvertedBits_flag\<rparr>))))))"

definition Brocade_of :: "register_ptr \<Rightarrow> store \<Rightarrow> nat \<Rightarrow> nat \<Rightarrow> PathSelector result" where
  "Brocade_of associatedRegister st slaveTapsCount properties =
    rbind (Brocade_CreateSelectTable slaveTapsCount properties) (\<lambda>selectTable.
    rbind (Brocade_CreateDeselectTable slaveTapsCount properties) (\<lambda>deselectTable.
    rbind (TableBased_of_register Brocade associatedRegister st slaveTapsCount selectTable deselectTable properties) (\<lambda>sel.
    rbind (VR_BitsCount (m_muxRegisters sel)) (\<lambda>n.
    CheckParameterCondition (n = REGISTER_BITS_COUNT) (Inr sel)))))"

section \<open>Queries\<close>

definition Selector_CheckPathIdentifier :: "PathSelector \<Rightarrow> nat \<Rightarrow> unit result" where
  "Selector_CheckPathIdentifier sel pathIdentifier =
    (if pathIdentifier \<ge> length (m_selectTable sel) then Inl OutOfRange else Inr ())"

text \<open>
  Comparing a value with a table row, as each class does: equality for tables, equality under the
  row for the N hot encodings.
\<close>

definition NHot_covers :: "bool \<Rightarrow> BinaryVector \<Rightarrow> BinaryVector \<Rightarrow> bool result" where
  "NHot_covers inverted_bits val selectMask =
    rbind (if inverted_bits then bitor val selectMask else bitand val selectMask) (\<lambda>masked.
      CompareEqualTo masked selectMask)"

definition Brocade_covers :: "BinaryVector \<Rightarrow> BinaryVector \<Rightarrow> bool result" where
  "Brocade_covers val selectMask = rbind (bitand val selectMask) (\<lambda>masked. CompareEqualTo masked selectMask)"

definition covers :: "PathSelector \<Rightarrow> BinaryVector \<Rightarrow> BinaryVector \<Rightarrow> bool result" where
  "covers sel val selectMask =
    (case m_kind sel of
       N_Hot \<Rightarrow> NHot_covers (m_invertedBits sel) val selectMask
     | Brocade \<Rightarrow> Brocade_covers val selectMask
     | _ \<Rightarrow> CompareEqualTo val selectMask)"

definition Selector_IsActive :: "store \<Rightarrow> PathSelector \<Rightarrow> nat \<Rightarrow> bool result" where
  "Selector_IsActive st sel pathIdentifier =
    rbind (Selector_CheckPathIdentifier sel pathIdentifier) (\<lambda>_.
    rbind (VR_LastToSut st (m_muxRegisters sel)) (\<lambda>lastToSut.
    covers sel lastToSut (m_selectTable sel ! pathIdentifier)))"

definition Selector_IsSelected :: "store \<Rightarrow> PathSelector \<Rightarrow> nat \<Rightarrow> bool result" where
  "Selector_IsSelected st sel pathIdentifier =
    rbind (Selector_CheckPathIdentifier sel pathIdentifier) (\<lambda>_.
    rbind (VR_NextToSut st (m_muxRegisters sel)) (\<lambda>nextToSut.
    covers sel nextToSut (m_selectTable sel ! pathIdentifier)))"

definition Selector_IsSelectedAndActive :: "store \<Rightarrow> PathSelector \<Rightarrow> nat \<Rightarrow> bool result" where
  "Selector_IsSelectedAndActive st sel pathIdentifier =
    rbind (Selector_CheckPathIdentifier sel pathIdentifier) (\<lambda>_.
    rbind (VR_LastToSut st (m_muxRegisters sel)) (\<lambda>lastToSut.
    rbind (VR_NextToSut st (m_muxRegisters sel)) (\<lambda>nextToSut.
    rbind (covers sel nextToSut (m_selectTable sel ! pathIdentifier)) (\<lambda>isSelected.
    rbind (covers sel lastToSut (m_selectTable sel ! pathIdentifier)) (\<lambda>isActive.
    Inr (isSelected \<and> isActive))))))"

fun count_active :: "store \<Rightarrow> PathSelector \<Rightarrow> nat list \<Rightarrow> nat \<Rightarrow> nat result" where
  "count_active st sel [] activeCount = Inr activeCount"
| "count_active st sel (pathId # pathIds) activeCount =
    rbind (Selector_IsActive st sel pathId) (\<lambda>active.
      count_active st sel pathIds (if active then activeCount + 1 else activeCount))"

definition ActiveCount :: "store \<Rightarrow> PathSelector \<Rightarrow> nat result" where
  "ActiveCount st sel = count_active st sel [1..<length (m_selectTable sel)] 0"

definition SelectionValue :: "PathSelector \<Rightarrow> nat \<Rightarrow> BinaryVector result" where
  "SelectionValue sel pathIdentifier =
    rbind (Selector_CheckPathIdentifier sel pathIdentifier) (\<lambda>_. Inr (m_selectTable sel ! pathIdentifier))"

section \<open>Selection\<close>

text \<open>
  The common end of every selection: nothing happens when the value is already there, otherwise
  it is set and the registers are made pending. Brocade skips the latter when the value is
  the one last sent.
\<close>

definition SetMux :: "bool \<Rightarrow> byte list \<Rightarrow> VirtualRegister \<Rightarrow> BinaryVector \<Rightarrow> (store, unit) act" where
  "SetMux null slack mux val =
    act_bind (act_read (\<lambda>st. rbind (VR_NextToSut st mux) (\<lambda>nextToSut. CompareEqualTo nextToSut val))) (\<lambda>same.
      if \<not> same then act_then (VR_SetToSut null slack val mux) (VR_SetPending mux) else act_return ())"

definition SetMux_Brocade :: "bool \<Rightarrow> byte list \<Rightarrow> VirtualRegister \<Rightarrow> BinaryVector \<Rightarrow> (store, unit) act" where
  "SetMux_Brocade null slack mux toSut =
    act_bind (act_read (\<lambda>st. rbind (VR_NextToSut st mux) (\<lambda>nextToSut. CompareEqualTo nextToSut toSut))) (\<lambda>same.
      if \<not> same
      then act_then (VR_SetToSut null slack toSut mux)
             (act_bind (act_read (\<lambda>st. rbind (VR_LastToSut st mux) (\<lambda>lastToSut. CompareEqualTo toSut lastToSut))) (\<lambda>sent.
                if \<not> sent then VR_SetPending mux else act_return ()))
      else act_return ())"

definition TableBased_Select :: "bool \<Rightarrow> byte list \<Rightarrow> PathSelector \<Rightarrow> nat \<Rightarrow> (store, unit) act" where
  "TableBased_Select null slack sel pathIdentifier =
    act_bind (act_read (\<lambda>_. Selector_CheckPathIdentifier sel pathIdentifier)) (\<lambda>_.
      SetMux null slack (m_muxRegisters sel) (m_selectTable sel ! pathIdentifier))"

definition OneHot_Select :: "bool \<Rightarrow> byte list \<Rightarrow> PathSelector \<Rightarrow> nat \<Rightarrow> (store, unit) act" where
  "OneHot_Select null slack sel pathIdentifier =
    TableBased_Select null slack sel
      (if \<not> CanSelectNone sel \<and> pathIdentifier = 0 then 1 else pathIdentifier)"

definition NHot_Select :: "bool \<Rightarrow> byte list \<Rightarrow> PathSelector \<Rightarrow> nat \<Rightarrow> (store, unit) act" where
  "NHot_Select null slack sel pathIdentifier =
    act_bind (act_read (\<lambda>_. Selector_CheckPathIdentifier sel pathIdentifier)) (\<lambda>_.
    act_bind (act_read (\<lambda>st. rbind (VR_NextToSut st (m_muxRegisters sel)) (\<lambda>nextToSut.
        let selectMask = m_selectTable sel ! pathIdentifier; toSut = BinaryVector_copy nextToSut
        in if pathIdentifier = 0 then assign_copy toSut selectMask
           else if m_invertedBits sel then and_assign toSut selectMask
           else or_assign toSut selectMask))) (\<lambda>toSut.
    SetMux null slack (m_muxRegisters sel) toSut))"

definition Brocade_Select :: "bool \<Rightarrow> byte list \<Rightarrow> PathSelector \<Rightarrow> nat \<Rightarrow> (store, unit) act" where
  "Brocade_Select null slack sel pathIdentifier =
    act_bind (act_read (\<lambda>_. Selector_CheckPathIdentifier sel pathIdentifier)) (\<lambda>_.
    act_bind (act_read (\<lambda>st. rbind (VR_NextToSut st (m_muxRegisters sel)) (\<lambda>nextToSut.
        let selectMask = m_selectTable sel ! pathIdentifier; toSut = BinaryVector_copy nextToSut
        in if pathIdentifier = 0 then assign_copy toSut selectMask else or_assign toSut selectMask))) (\<lambda>toSut.
    SetMux_Brocade null slack (m_muxRegisters sel) toSut))"

definition Selector_Select :: "bool \<Rightarrow> byte list \<Rightarrow> PathSelector \<Rightarrow> nat \<Rightarrow> (store, unit) act" where
  "Selector_Select null slack sel pathIdentifier =
    (case m_kind sel of
       One_Hot \<Rightarrow> OneHot_Select null slack sel pathIdentifier
     | N_Hot \<Rightarrow> NHot_Select null slack sel pathIdentifier
     | Brocade \<Rightarrow> Brocade_Select null slack sel pathIdentifier
     | _ \<Rightarrow> TableBased_Select null slack sel pathIdentifier)"

text \<open>
  Deselection may change the selector itself: \<^verbatim>\<open>selectValue\<close> is a reference into the deselect
  table, and when no path may stay open its entry is overwritten by the first select value.
\<close>

definition row_at :: "BinaryVector list \<Rightarrow> nat \<Rightarrow> BinaryVector result" where
  "row_at table i = (if i < length table then Inr (table ! i) else Inl UndefinedBehaviour)"

definition on_store :: "(store, 'a) act \<Rightarrow> (PathSelector \<times> store, 'a) act" where
  "on_store m s = (case m (snd s) of (res, st) \<Rightarrow> (res, (fst s, st)))"

definition replaced_entry :: "PathSelector \<Rightarrow> nat \<Rightarrow> BinaryVector result" where
  "replaced_entry sel pathIdentifier =
    rbind (row_at (m_deselectTable sel) pathIdentifier) (\<lambda>selectValue.
    rbind (if \<not> CanSelectNone sel
           then rbind (row_at (m_selectTable sel) 0) (CompareEqualTo selectValue) else Inr False) (\<lambda>none.
      if none then rbind (row_at (m_selectTable sel) 1) (assign_copy selectValue) else Inr selectValue))"

definition TableBased_Deselect :: "bool \<Rightarrow> byte list \<Rightarrow> nat \<Rightarrow> (PathSelector \<times> store, unit) act" where
  "TableBased_Deselect null slack pathIdentifier =
    act_bind (act_read (\<lambda>(sel, st). Selector_CheckPathIdentifier sel pathIdentifier)) (\<lambda>_.
    act_then (act_assign (\<lambda>(sel, st). replaced_entry sel pathIdentifier)
                (\<lambda>v (sel, st). (sel\<lparr>m_deselectTable := (m_deselectTable sel)[pathIdentifier := v]\<rparr>, st)))
      (\<lambda>(sel, st). on_store (SetMux null slack (m_muxRegisters sel) (m_deselectTable sel ! pathIdentifier)) (sel, st)))"

definition NHot_deselected :: "PathSelector \<Rightarrow> nat \<Rightarrow> BinaryVector \<Rightarrow> BinaryVector result" where
  "NHot_deselected sel pathIdentifier nextToSut =
    rbind (row_at (m_deselectTable sel) pathIdentifier) (\<lambda>deselectMask.
    rbind (if m_invertedBits sel then or_assign (BinaryVector_copy nextToSut) deselectMask
           else and_assign (BinaryVector_copy nextToSut) deselectMask) (\<lambda>toSut.
    rbind (if \<not> CanSelectNone sel then rbind (row_at (m_selectTable sel) 0) (CompareEqualTo toSut) else Inr False) (\<lambda>none.
    rbind (if none then rbind (row_at (m_selectTable sel) 1) (assign_copy toSut) else Inr toSut) (\<lambda>toSut'.
    rbind (if \<not> CanSelectNone sel then rbind (row_at (m_selectTable sel) 0) (CompareEqualTo toSut') else Inr False) (\<lambda>none'.
      if none' then Inl LogicError else Inr toSut')))))"

definition NHot_Deselect :: "bool \<Rightarrow> byte list \<Rightarrow> PathSelector \<Rightarrow> nat \<Rightarrow> (store, unit) act" where
  "NHot_Deselect null slack sel pathIdentifier =
    act_bind (act_read (\<lambda>_. Selector_CheckPathIdentifier sel pathIdentifier)) (\<lambda>_.
    act_bind (act_read (\<lambda>st. rbind (VR_NextToSut st (m_muxRegisters sel)) (NHot_deselected sel pathIdentifier))) (\<lambda>toSut.
    SetMux null slack (m_muxRegisters sel) toSut))"

definition Brocade_Deselect :: "bool \<Rightarrow> byte list \<Rightarrow> PathSelector \<Rightarrow> nat \<Rightarrow> (store, unit) act" where
  "Brocade_Deselect null slack sel pathIdentifier =
    act_bind (act_read (\<lambda>_. Selector_CheckPathIdentifier sel pathIdentifier)) (\<lambda>_.
    act_bind (act_read (\<lambda>st. rbind (VR_NextToSut st (m_muxRegisters sel)) (\<lambda>nextToSut.
        rbind (row_at (m_deselectTable sel) pathIdentifier) (and_assign (BinaryVector_copy nextToSut))))) (\<lambda>toSut.
    SetMux null slack (m_muxRegisters sel) toSut))"

definition Selector_Deselect :: "bool \<Rightarrow> byte list \<Rightarrow> nat \<Rightarrow> (PathSelector \<times> store, unit) act" where
  "Selector_Deselect null slack pathIdentifier = (\<lambda>(sel, st).
    (case m_kind sel of
       N_Hot \<Rightarrow> on_store (NHot_Deselect null slack sel pathIdentifier) (sel, st)
     | Brocade \<Rightarrow> on_store (Brocade_Deselect null slack sel pathIdentifier) (sel, st)
     | _ \<Rightarrow> TableBased_Deselect null slack pathIdentifier (sel, st)))"

section \<open>Driving the multiplexer\<close>

text \<open>
  \<open>mux_ok\<close>: the registers of the selector keep their class invariant and its slices are well
  formed. The value of the multiplexer is what its virtual register shows.
\<close>

definition mux_ok :: "BitsOrdering \<Rightarrow> (nat \<Rightarrow> nat) \<Rightarrow> nat set \<Rightarrow> VirtualRegister \<Rightarrow> store \<Rightarrow> bool" where
  "mux_ok ord n A vr st \<longleftrightarrow> store_ok ord n A st \<and> slices_ok ord n A (vr_registers vr) \<and> separate ord n (vr_registers vr)
    \<and> vr_registers vr \<noteq> [] \<and> total_width (vr_registers vr) < 4294967289"

definition next_bits :: "BitsOrdering \<Rightarrow> (nat \<Rightarrow> nat) \<Rightarrow> VirtualRegister \<Rightarrow> store \<Rightarrow> bool list" where
  "next_bits ord n vr st = view_bits (\<lambda>r. bits_of (m_nextToSut r)) ord n st (vr_registers vr)"

definition last_bits :: "BitsOrdering \<Rightarrow> (nat \<Rightarrow> nat) \<Rightarrow> VirtualRegister \<Rightarrow> store \<Rightarrow> bool list" where
  "last_bits ord n vr st = view_bits (\<lambda>r. bits_of (m_lastToSut r)) ord n st (vr_registers vr)"

definition mux_pending :: "VirtualRegister \<Rightarrow> store \<Rightarrow> bool" where
  "mux_pending vr st \<longleftrightarrow> (\<forall>s \<in> set (vr_registers vr). Node_IsPending (the (st (the (slice_reg s)))))"

lemma mux_okD:
  assumes "mux_ok ord n A vr st"
  shows "store_ok ord n A st" "slices_ok ord n A (vr_registers vr)" "separate ord n (vr_registers vr)"
    "vr_registers vr \<noteq> []" "total_width (vr_registers vr) < 4294967289"
  using assms by (simp_all add: mux_ok_def)

lemma length_mux_bits [simp]:
  "length (next_bits ord n vr st) = total_width (vr_registers vr)"
  "length (last_bits ord n vr st) = total_width (vr_registers vr)"
  by (simp_all add: next_bits_def last_bits_def)

lemma mux_views:
  assumes "mux_ok ord n A vr st"
  shows "VR_NextToSut st vr = Inr (bv_make (next_bits ord n vr st) NotFixed)"
    and "VR_LastToSut st vr = Inr (bv_make (last_bits ord n vr st) NotFixed)"
  using VR_views_eq [OF mux_okD(1,2,4,5) [OF assms]] by (simp_all add: next_bits_def last_bits_def)

lemma mux_width_pos: "mux_ok ord n A vr st \<Longrightarrow> 0 < total_width (vr_registers vr)"
  using slice_bounds(2) by (cases "vr_registers vr") (fastforce simp: mux_ok_def)+

lemma view_bits_cong:
  assumes "\<And>s. s \<in> set ss \<Longrightarrow> get (the (st' (the (slice_reg s)))) = get (the (st (the (slice_reg s))))"
  shows "view_bits get ord n st' ss = view_bits get ord n st ss"
  using assms by (simp add: view_bits_def slice_bits_def cong: map_cong)

lemma last_bits_kept:
  assumes "mux_ok ord n A vr st" "same_but_values st st'"
  shows "last_bits ord n vr st' = last_bits ord n vr st"
  unfolding last_bits_def
proof (rule view_bits_cong)
  fix s assume "s \<in> set (vr_registers vr)"
  then obtain a r where "slice_reg s = Some a" "st a = Some r"
    using slices_live [OF mux_okD(1,2) [OF assms(1)]] by (auto simp: slices_live_def)
  then show "bits_of (m_lastToSut (the (st' (the (slice_reg s))))) = bits_of (m_lastToSut (the (st (the (slice_reg s)))))"
    using assms(2) by (auto simp: same_but_values_def kept_def dest!: spec [of _ a])
qed

lemma set_ok:
  assumes mux: "mux_ok ord n A vr st" and len: "length vs = total_width (vr_registers vr)" and slack: "slack \<noteq> []"
  shows "\<exists>st'. VR_SetToSut null slack (bv_make vs p) vr st = (Inr (), st') \<and> mux_ok ord n A vr st'
    \<and> next_bits ord n vr st' = vs \<and> last_bits ord n vr st' = last_bits ord n vr st \<and> same_but_values st st'
    \<and> (\<forall>a. Some a \<notin> slice_reg ` set (vr_registers vr) \<longrightarrow> st' a = st a)"
proof -
  note m = mux_okD [OF mux]
  have "length vs < 4294967289" using len m(5) by simp
  from vr_to_sut.SetView_ok [OF m(1-4) len this slack, of null p] obtain st' where
    st': "VR_SetView null slack (\<lambda>r. BinaryVector_copy (m_nextToSut r)) Register_SetToSut (bv_make vs p) vr st = (Inr (), st')"
    "store_ok ord n A st'" "same_but_values st st'" "\<forall>a. Some a \<notin> slice_reg ` set (vr_registers vr) \<longrightarrow> st' a = st a"
    "view_bits (\<lambda>r. bits_of (m_nextToSut r)) ord n st' (vr_registers vr) = vs" by blast
  have "vs \<noteq> []" using len mux_width_pos [OF mux] by auto
  then have "VR_SetToSut null slack (bv_make vs p) vr st = (Inr (), st')"
    using st'(1) m(4) by (simp add: VR_SetToSut_def)
  moreover have "mux_ok ord n A vr st'" using st'(2) m by (simp add: mux_ok_def)
  ultimately show ?thesis
    using st' last_bits_kept [OF mux st'(3)] by (auto simp: next_bits_def)
qed

text \<open>What no selection changes in any register: its identity and what was sent and received.\<close>

definition past :: "Register \<Rightarrow> nat \<times> BitsOrdering \<times> BinaryVector \<times> BinaryVector \<times> bool" where
  "past r = (m_identifier r, m_bitsOrdering r, m_lastToSut r, m_lastFromSut r, m_pendingRead r)"

definition same_past :: "store \<Rightarrow> store \<Rightarrow> bool" where
  "same_past st st' \<longleftrightarrow> (\<forall>a. map_option past (st' a) = map_option past (st a))"

lemma same_past_refl [simp]: "same_past st st"
  by (simp add: same_past_def)

lemma same_past_trans: "same_past st st1 \<Longrightarrow> same_past st1 st2 \<Longrightarrow> same_past st st2"
  by (simp add: same_past_def)

lemma same_past_kept:
  assumes "same_but_values st st'" shows "same_past st st'"
  unfolding same_past_def
proof
  fix a
  have "map_option kept (st' a) = map_option kept (st a)" using assms by (simp add: same_but_values_def)
  then show "map_option past (st' a) = map_option past (st a)"
    by (cases "st a"; cases "st' a") (simp_all add: kept_def past_def)
qed

lemma pending_ok:
  assumes mux: "mux_ok ord n A vr st"
  shows "\<exists>st'. VR_SetPending vr st = (Inr (), st') \<and> mux_ok ord n A vr st' \<and> next_bits ord n vr st' = next_bits ord n vr st
    \<and> last_bits ord n vr st' = last_bits ord n vr st \<and> mux_pending vr st' \<and> same_past st st'
    \<and> (\<forall>a. Some a \<notin> slice_reg ` set (vr_registers vr) \<longrightarrow> st' a = st a)"
proof -
  note m = mux_okD [OF mux]
  let ?st' = "\<lambda>a. if Some a \<in> slice_reg ` set (vr_registers vr) then map_option SetPending (st a) else st a"
  have live: "slices_live st (vr_registers vr)" by (rule slices_live [OF m(1,2)])
  have run: "VR_SetPending vr st = (Inr (), ?st')" by (rule VR_SetPending_eq [OF live])
  have same: "m_nextToSut (the (?st' a)) = m_nextToSut (the (st a))" "m_lastToSut (the (?st' a)) = m_lastToSut (the (st a))"
    if "st a \<noteq> None" for a
    using that by (auto simp: SetPending_def)
  have live': "st (the (slice_reg s)) \<noteq> None" if "s \<in> set (vr_registers vr)" for s
    using live that by (auto simp: slices_live_def)
  have "store_ok ord n A ?st'"
    unfolding store_ok_def
  proof
    fix a assume "a \<in> A"
    then obtain r where r: "st a = Some r" "reg_inv (n a) r" "m_bitsOrdering r = ord" using m(1) by (elim store_okE)
    then have "reg_inv (n a) (SetPending r)" "m_bitsOrdering (SetPending r) = ord"
      by (simp_all add: keeps_flags) (simp add: SetPending_def)
    then show "\<exists>r. ?st' a = Some r \<and> reg_inv (n a) r \<and> m_bitsOrdering r = ord" using r by simp
  qed
  then have "mux_ok ord n A vr ?st'" using m by (simp add: mux_ok_def)
  moreover have "next_bits ord n vr ?st' = next_bits ord n vr st" "last_bits ord n vr ?st' = last_bits ord n vr st"
    unfolding next_bits_def last_bits_def using same live' by (auto intro!: view_bits_cong)
  moreover have "mux_pending vr ?st'"
    unfolding mux_pending_def
  proof
    fix s assume s: "s \<in> set (vr_registers vr)"
    then obtain a r where a: "slice_reg s = Some a" "st a = Some r" using live by (auto simp: slices_live_def)
    then have "Some a \<in> slice_reg ` set (vr_registers vr)" using s by (metis imageI)
    then show "Node_IsPending (the (?st' (the (slice_reg s))))"
      using a by (simp add: SetPending_def Node_IsPending_def del: image_iff)
  qed
  moreover have "same_past st ?st'"
    unfolding same_past_def
  proof
    fix a show "map_option past (?st' a) = map_option past (st a)" by (cases "st a") (simp_all add: past_def SetPending_def)
  qed
  ultimately show ?thesis using run by (auto simp del: image_iff)
qed

text \<open>What a change of the multiplexer value must do, whoever asks for it.\<close>

definition mux_change ::
    "BitsOrdering \<Rightarrow> (nat \<Rightarrow> nat) \<Rightarrow> nat set \<Rightarrow> VirtualRegister \<Rightarrow> bool list \<Rightarrow> store \<Rightarrow> store \<Rightarrow> bool" where
  "mux_change ord n A vr vs st st' \<longleftrightarrow> mux_ok ord n A vr st' \<and> next_bits ord n vr st' = vs
    \<and> last_bits ord n vr st' = last_bits ord n vr st \<and> same_past st st'
    \<and> (\<forall>a. Some a \<notin> slice_reg ` set (vr_registers vr) \<longrightarrow> st' a = st a)
    \<and> (vs = next_bits ord n vr st \<longrightarrow> st' = st)"

lemma SetMux_ok:
  assumes mux: "mux_ok ord n A vr st" and len: "length vs = total_width (vr_registers vr)" and slack: "slack \<noteq> []"
  shows "\<exists>st'. SetMux null slack vr (bv_make vs p) st = (Inr (), st') \<and> mux_change ord n A vr vs st st'
    \<and> (vs \<noteq> next_bits ord n vr st \<longrightarrow> mux_pending vr st')"
proof (cases "vs = next_bits ord n vr st")
  case True
  then show ?thesis
    using mux mux_views(1) [OF mux] by (simp add: SetMux_def act_bind_read CompareEqualTo_make mux_change_def)
next
  case False
  from set_ok [OF assms, of null p] obtain st1 where
    1: "VR_SetToSut null slack (bv_make vs p) vr st = (Inr (), st1)" "mux_ok ord n A vr st1" "next_bits ord n vr st1 = vs"
      "last_bits ord n vr st1 = last_bits ord n vr st" "\<forall>a. Some a \<notin> slice_reg ` set (vr_registers vr) \<longrightarrow> st1 a = st a"
      "same_past st st1"
    using same_past_kept by blast
  from pending_ok [OF 1(2)] obtain st2 where
    2: "VR_SetPending vr st1 = (Inr (), st2)" "mux_ok ord n A vr st2" "next_bits ord n vr st2 = next_bits ord n vr st1"
      "last_bits ord n vr st2 = last_bits ord n vr st1" "mux_pending vr st2"
      "\<forall>a. Some a \<notin> slice_reg ` set (vr_registers vr) \<longrightarrow> st2 a = st1 a" "same_past st1 st2"
    by blast
  have past: "same_past st st2" by (rule same_past_trans [OF 1(6) 2(7)])
  have "SetMux null slack vr (bv_make vs p) st = (Inr (), st2)"
    using False 1(1) 2(1) mux_views(1) [OF mux]
    by (simp add: SetMux_def act_bind_read CompareEqualTo_make act_simps)
  then show ?thesis using False 1 2 past by (simp add: mux_change_def del: image_iff)
qed

lemma SetMux_Brocade_ok:
  assumes mux: "mux_ok ord n A vr st" and len: "length vs = total_width (vr_registers vr)" and slack: "slack \<noteq> []"
  shows "\<exists>st'. SetMux_Brocade null slack vr (bv_make vs p) st = (Inr (), st') \<and> mux_change ord n A vr vs st st'
    \<and> (vs \<noteq> next_bits ord n vr st \<and> vs \<noteq> last_bits ord n vr st \<longrightarrow> mux_pending vr st')"
proof (cases "vs = next_bits ord n vr st")
  case True
  then show ?thesis
    using mux mux_views(1) [OF mux] by (simp add: SetMux_Brocade_def act_bind_read CompareEqualTo_make mux_change_def)
next
  case False
  from set_ok [OF assms, of null p] obtain st1 where
    1: "VR_SetToSut null slack (bv_make vs p) vr st = (Inr (), st1)" "mux_ok ord n A vr st1" "next_bits ord n vr st1 = vs"
      "last_bits ord n vr st1 = last_bits ord n vr st" "\<forall>a. Some a \<notin> slice_reg ` set (vr_registers vr) \<longrightarrow> st1 a = st a"
      "same_past st st1"
    using same_past_kept by blast
  from pending_ok [OF 1(2)] obtain st2 where
    2: "VR_SetPending vr st1 = (Inr (), st2)" "mux_ok ord n A vr st2" "next_bits ord n vr st2 = next_bits ord n vr st1"
      "last_bits ord n vr st2 = last_bits ord n vr st1" "mux_pending vr st2"
      "\<forall>a. Some a \<notin> slice_reg ` set (vr_registers vr) \<longrightarrow> st2 a = st1 a" "same_past st1 st2"
    by blast
  have past: "same_past st st2" by (rule same_past_trans [OF 1(6) 2(7)])
  have "SetMux_Brocade null slack vr (bv_make vs p) st
      = (Inr (), if vs = last_bits ord n vr st then st1 else st2)"
    using False 1(1,4) 2(1) mux_views(1) [OF mux] mux_views(2) [OF 1(2)]
    by (simp add: SetMux_Brocade_def act_bind_read CompareEqualTo_make act_simps)
  then show ?thesis using False 1 2 past by (simp add: mux_change_def del: image_iff)
qed

section \<open>The operations on values\<close>

text \<open>
  A selector is well formed when its tables have the same length, one row per path and the dummy
  row, and rows of the width of the multiplexer. Then each operation is a function of the value
  of the multiplexer: \<open>matches\<close>, \<open>select_value\<close> and \<open>deselect_value\<close>.
\<close>

definition rows_ok :: "nat \<Rightarrow> BinaryVector list \<Rightarrow> bool" where
  "rows_ok L table \<longleftrightarrow> (\<forall>row \<in> set table. \<exists>bs p. row = bv_make bs p \<and> length bs = L \<and> p \<noteq> FixedOnCopy)"

definition select_row :: "PathSelector \<Rightarrow> nat \<Rightarrow> bool list" where
  "select_row sel p = bits_of (m_selectTable sel ! p)"

definition deselect_row :: "PathSelector \<Rightarrow> nat \<Rightarrow> bool list" where
  "deselect_row sel p = bits_of (m_deselectTable sel ! p)"

definition sel_ok :: "PathSelector \<Rightarrow> bool" where
  "sel_ok sel \<longleftrightarrow> rows_ok (total_width (vr_registers (m_muxRegisters sel))) (m_selectTable sel)
    \<and> rows_ok (total_width (vr_registers (m_muxRegisters sel))) (m_deselectTable sel)
    \<and> length (m_selectTable sel) = length (m_deselectTable sel)
    \<and> 0 < m_pathsCount sel \<and> m_pathsCount sel < length (m_selectTable sel)
    \<and> (m_kind sel = N_Hot \<longrightarrow> select_row sel 0 \<noteq> select_row sel 1)"

definition masked_by :: "PathSelector \<Rightarrow> bool list \<Rightarrow> bool list \<Rightarrow> bool" where
  "masked_by sel vs ms = (if m_kind sel = N_Hot \<and> m_invertedBits sel then map2 (\<or>) vs ms = ms else map2 (\<and>) vs ms = ms)"

definition matches :: "PathSelector \<Rightarrow> bool list \<Rightarrow> nat \<Rightarrow> bool" where
  "matches sel vs p = (if m_kind sel \<in> {N_Hot, Brocade} then masked_by sel vs (select_row sel p) else vs = select_row sel p)"

definition select_value :: "PathSelector \<Rightarrow> nat \<Rightarrow> bool list \<Rightarrow> bool list" where
  "select_value sel p vs =
    (if m_kind sel \<in> {N_Hot, Brocade}
     then if p = 0 then select_row sel 0
          else if m_kind sel = N_Hot \<and> m_invertedBits sel then map2 (\<and>) vs (select_row sel p)
          else map2 (\<or>) vs (select_row sel p)
     else select_row sel (if m_kind sel = One_Hot \<and> \<not> CanSelectNone sel \<and> p = 0 then 1 else p))"

definition deselect_value :: "PathSelector \<Rightarrow> nat \<Rightarrow> bool list \<Rightarrow> bool list" where
  "deselect_value sel p vs =
    (let none = (if m_kind sel = N_Hot \<and> m_invertedBits sel then map2 (\<or>) vs (deselect_row sel p)
                 else if m_kind sel \<in> {N_Hot, Brocade} then map2 (\<and>) vs (deselect_row sel p)
                 else deselect_row sel p)
     in if m_kind sel \<noteq> Brocade \<and> \<not> CanSelectNone sel \<and> none = select_row sel 0 then select_row sel 1 else none)"

lemma rows_okE:
  assumes "rows_ok L table" "i < length table"
  obtains p where "table ! i = bv_make (bits_of (table ! i)) p" "length (bits_of (table ! i)) = L" "p \<noteq> FixedOnCopy"
  using assms nth_mem [of i table] unfolding rows_ok_def by (metis bits_of_make)

lemma select_rowE:
  assumes "sel_ok sel" "p < length (m_selectTable sel)"
  obtains q where "m_selectTable sel ! p = bv_make (select_row sel p) q" "q \<noteq> FixedOnCopy"
    "length (select_row sel p) = total_width (vr_registers (m_muxRegisters sel))"
  using assms rows_okE unfolding sel_ok_def select_row_def by metis

lemma deselect_rowE:
  assumes "sel_ok sel" "p < length (m_selectTable sel)"
  obtains q where "m_deselectTable sel ! p = bv_make (deselect_row sel p) q" "q \<noteq> FixedOnCopy"
    "length (deselect_row sel p) = total_width (vr_registers (m_muxRegisters sel))"
  using assms rows_okE [of _ "m_deselectTable sel" p] unfolding sel_ok_def deselect_row_def by metis

lemma covers_make:
  "length vs = length ms \<Longrightarrow> covers sel (bv_make vs p) (bv_make ms q)
    = Inr (if m_kind sel \<in> {N_Hot, Brocade} then masked_by sel vs ms else vs = ms)"
  by (cases "m_kind sel")
    (simp_all add: covers_def NHot_covers_def Brocade_covers_def bitor_def bitand_def or_assign_make and_assign_make CompareEqualTo_make masked_by_def)

lemma Selector_queries_eq:
  assumes sel: "sel_ok sel" and mux: "mux_ok ord n A (m_muxRegisters sel) st"
  shows "Selector_IsSelected st sel p = (if p < length (m_selectTable sel)
      then Inr (matches sel (next_bits ord n (m_muxRegisters sel) st) p) else Inl OutOfRange)"
    and "Selector_IsActive st sel p = (if p < length (m_selectTable sel)
      then Inr (matches sel (last_bits ord n (m_muxRegisters sel) st) p) else Inl OutOfRange)"
    and "Selector_IsSelectedAndActive st sel p = (if p < length (m_selectTable sel)
      then Inr (matches sel (next_bits ord n (m_muxRegisters sel) st) p \<and> matches sel (last_bits ord n (m_muxRegisters sel) st) p)
      else Inl OutOfRange)"
proof -
  note views = mux_views [OF mux]
  have row: "covers sel (bv_make vs NotFixed) (m_selectTable sel ! p) = Inr (matches sel vs p)"
    if p: "p < length (m_selectTable sel)" and vs: "length vs = total_width (vr_registers (m_muxRegisters sel))" for vs
  proof -
    obtain q where "m_selectTable sel ! p = bv_make (select_row sel p) q"
      "length (select_row sel p) = total_width (vr_registers (m_muxRegisters sel))"
      using sel p by (rule select_rowE)
    then show ?thesis using vs by (simp add: covers_make matches_def)
  qed
  show "Selector_IsSelected st sel p = (if p < length (m_selectTable sel)
      then Inr (matches sel (next_bits ord n (m_muxRegisters sel) st) p) else Inl OutOfRange)"
    and "Selector_IsActive st sel p = (if p < length (m_selectTable sel)
      then Inr (matches sel (last_bits ord n (m_muxRegisters sel) st) p) else Inl OutOfRange)"
    and "Selector_IsSelectedAndActive st sel p = (if p < length (m_selectTable sel)
      then Inr (matches sel (next_bits ord n (m_muxRegisters sel) st) p \<and> matches sel (last_bits ord n (m_muxRegisters sel) st) p)
      else Inl OutOfRange)"
    by (simp_all add: Selector_IsSelected_def Selector_IsActive_def Selector_IsSelectedAndActive_def
        Selector_CheckPathIdentifier_def views row)
qed

lemma ActiveCount_eq:
  assumes "sel_ok sel" "mux_ok ord n A (m_muxRegisters sel) st"
  shows "ActiveCount st sel = Inr (card {p \<in> {1..<length (m_selectTable sel)}. matches sel (last_bits ord n (m_muxRegisters sel) st) p})"
proof -
  let ?m = "matches sel (last_bits ord n (m_muxRegisters sel) st)"
  have loop: "count_active st sel ps k = Inr (k + length (filter ?m ps))"
    if "\<forall>p \<in> set ps. p < length (m_selectTable sel)" for ps k
    using that by (induction ps arbitrary: k) (simp_all add: Selector_queries_eq [OF assms])
  have "length (filter ?m [1..<length (m_selectTable sel)]) = card {p \<in> {1..<length (m_selectTable sel)}. ?m p}"
    by (subst distinct_card [symmetric]) (simp_all add: set_filter)
  then show ?thesis using loop [of "[1..<length (m_selectTable sel)]" 0] by (simp add: ActiveCount_def)
qed

lemma Selector_Select_ok:
  assumes sel: "sel_ok sel" and mux: "mux_ok ord n A (m_muxRegisters sel) st" and slack: "slack \<noteq> []"
    and p: "p < length (m_selectTable sel)"
  shows "\<exists>st'. Selector_Select null slack sel p st = (Inr (), st')
    \<and> mux_change ord n A (m_muxRegisters sel) (select_value sel p (next_bits ord n (m_muxRegisters sel) st)) st st'"
proof -
  let ?vr = "m_muxRegisters sel" and ?L = "total_width (vr_registers (m_muxRegisters sel))"
  let ?next = "next_bits ord n ?vr st"
  have chk: "Selector_CheckPathIdentifier sel i = Inr ()" if "i < length (m_selectTable sel)" for i
    using that by (simp add: Selector_CheckPathIdentifier_def)
  obtain q where r: "m_selectTable sel ! p = bv_make (select_row sel p) q" "q \<noteq> FixedOnCopy" "length (select_row sel p) = ?L"
    using sel p by (rule select_rowE)
  have one: "1 < length (m_selectTable sel)" using sel by (simp add: sel_ok_def)
  have table: "\<exists>st'. TableBased_Select null slack sel i st = (Inr (), st') \<and> mux_change ord n A ?vr (select_row sel i) st st'"
    if i: "i < length (m_selectTable sel)" for i
  proof -
    obtain q where "m_selectTable sel ! i = bv_make (select_row sel i) q" "length (select_row sel i) = ?L"
      using sel i by (rule select_rowE)
    then show ?thesis
      using SetMux_ok [OF mux, of "select_row sel i" slack null q] slack
      by (simp add: TableBased_Select_def act_bind_read chk [OF i]) blast
  qed
  show ?thesis
  proof (cases "m_kind sel")
    case Table_Based
    then show ?thesis using table [OF p] by (simp add: Selector_Select_def select_value_def)
  next
    case Binary
    then show ?thesis using table [OF p] by (simp add: Selector_Select_def select_value_def)
  next
    case One_Hot
    then show ?thesis using table [OF p] table [OF one] by (simp add: Selector_Select_def select_value_def OneHot_Select_def)
  next
    case N_Hot
    have c: "(if p = 0 then assign_copy (BinaryVector_copy (bv_make ?next NotFixed)) (bv_make (select_row sel p) q)
       else if m_invertedBits sel then and_assign (BinaryVector_copy (bv_make ?next NotFixed)) (bv_make (select_row sel p) q)
       else or_assign (BinaryVector_copy (bv_make ?next NotFixed)) (bv_make (select_row sel p) q)) = Inr (bv_make (select_value sel p ?next) NotFixed)"
      using N_Hot r(2,3) by (auto simp: select_value_def assign_copy_make and_assign_make or_assign_make)
    have "length (select_value sel p ?next) = ?L" using N_Hot r(3) by (cases "p = 0") (simp_all add: select_value_def)
    from SetMux_ok [OF mux this slack, of null NotFixed] obtain st' where
      st': "SetMux null slack ?vr (bv_make (select_value sel p ?next) NotFixed) st = (Inr (), st')"
      "mux_change ord n A ?vr (select_value sel p ?next) st st'" by blast
    have "Selector_Select null slack sel p st = (Inr (), st')"
      using N_Hot by (simp add: Selector_Select_def NHot_Select_def act_bind_read chk [OF p] r(1) Let_def mux_views(1) [OF mux] c st'(1) split del: if_split)
    then show ?thesis using st'(2) by blast
  next
    case Brocade
    have c: "(if p = 0 then assign_copy (BinaryVector_copy (bv_make ?next NotFixed)) (bv_make (select_row sel p) q)
       else or_assign (BinaryVector_copy (bv_make ?next NotFixed)) (bv_make (select_row sel p) q)) = Inr (bv_make (select_value sel p ?next) NotFixed)"
      using Brocade r(2,3) by (auto simp: select_value_def assign_copy_make or_assign_make)
    have "length (select_value sel p ?next) = ?L" using Brocade r(3) by (cases "p = 0") (simp_all add: select_value_def)
    from SetMux_Brocade_ok [OF mux this slack, of null NotFixed] obtain st' where
      st': "SetMux_Brocade null slack ?vr (bv_make (select_value sel p ?next) NotFixed) st = (Inr (), st')"
      "mux_change ord n A ?vr (select_value sel p ?next) st st'" by blast
    have "Selector_Select null slack sel p st = (Inr (), st')"
      using Brocade by (simp add: Selector_Select_def Brocade_Select_def act_bind_read chk [OF p] r(1) Let_def mux_views(1) [OF mux] c st'(1) split del: if_split)
    then show ?thesis using st'(2) by blast
  qed
qed

lemma Selector_Select_out_of_range:
  assumes "length (m_selectTable sel) \<le> p" "1 < length (m_selectTable sel)"
  shows "Selector_Select null slack sel p st = (Inl OutOfRange, st)"
  using assms by (cases "m_kind sel") (simp_all add: Selector_Select_def TableBased_Select_def OneHot_Select_def NHot_Select_def
      Brocade_Select_def Selector_CheckPathIdentifier_def act_bind_read)

text \<open>
  Deselection through a table may replace an entry of the deselect table; the change is not
  observable, since the entry it stores is the value that is computed each time.
\<close>

definition same_selector :: "PathSelector \<Rightarrow> PathSelector \<Rightarrow> bool" where
  "same_selector sel sel' \<longleftrightarrow> sel' = sel\<lparr>m_deselectTable := m_deselectTable sel'\<rparr> \<and> sel_ok sel'
    \<and> (\<forall>p vs. p < length (m_selectTable sel) \<longrightarrow> deselect_value sel' p vs = deselect_value sel p vs)"

lemma same_selector_refl [simp]: "sel_ok sel \<Longrightarrow> same_selector sel sel"
  by (simp add: same_selector_def)

lemma same_selector_values:
  assumes "same_selector sel sel'"
  shows "matches sel' = matches sel" "select_value sel' = select_value sel" "m_muxRegisters sel' = m_muxRegisters sel"
    "m_selectTable sel' = m_selectTable sel" "m_kind sel' = m_kind sel" "m_pathsCount sel' = m_pathsCount sel"
    "CanSelectNone sel' = CanSelectNone sel"
proof -
  from assms have eq: "sel' = sel\<lparr>m_deselectTable := m_deselectTable sel'\<rparr>" by (simp add: same_selector_def)
  show "matches sel' = matches sel" "select_value sel' = select_value sel" "m_muxRegisters sel' = m_muxRegisters sel"
    "m_selectTable sel' = m_selectTable sel" "m_kind sel' = m_kind sel" "m_pathsCount sel' = m_pathsCount sel"
    "CanSelectNone sel' = CanSelectNone sel"
    by (subst eq; simp add: fun_eq_iff matches_def masked_by_def select_value_def select_row_def CanSelectNone_def)+
qed

lemma rows_ok_update:
  "rows_ok L table \<Longrightarrow> length bs = L \<Longrightarrow> q \<noteq> FixedOnCopy \<Longrightarrow> rows_ok L (table[i := bv_make bs q])"
  unfolding rows_ok_def by (auto dest!: set_update_subset_insert [THEN subsetD])

lemma TableBased_Deselect_ok:
  assumes sel: "sel_ok sel" and mux: "mux_ok ord n A (m_muxRegisters sel) st" and slack: "slack \<noteq> []"
    and p: "p < length (m_selectTable sel)" and kind: "m_kind sel \<notin> {N_Hot, Brocade}"
  shows "\<exists>sel' st'. TableBased_Deselect null slack p (sel, st) = (Inr (), (sel', st')) \<and> same_selector sel sel'
    \<and> mux_change ord n A (m_muxRegisters sel) (deselect_value sel p (next_bits ord n (m_muxRegisters sel) st)) st st'"
proof -
  let ?L = "total_width (vr_registers (m_muxRegisters sel))" and ?next = "next_bits ord n (m_muxRegisters sel) st"
  have len: "0 < length (m_selectTable sel)" "1 < length (m_selectTable sel)" "length (m_deselectTable sel) = length (m_selectTable sel)"
    using sel by (auto simp: sel_ok_def)
  obtain q0 where r0: "m_selectTable sel ! 0 = bv_make (select_row sel 0) q0" "length (select_row sel 0) = ?L"
    using sel len(1) by (rule select_rowE)
  obtain q1 where r1: "m_selectTable sel ! 1 = bv_make (select_row sel 1) q1" "q1 \<noteq> FixedOnCopy" "length (select_row sel 1) = ?L"
    using sel len(2) by (rule select_rowE)
  obtain q where d: "m_deselectTable sel ! p = bv_make (deselect_row sel p) q" "q \<noteq> FixedOnCopy" "length (deselect_row sel p) = ?L"
    using sel p by (rule deselect_rowE)
  have val: "deselect_value sel p vs = (if \<not> CanSelectNone sel \<and> deselect_row sel p = select_row sel 0
      then select_row sel 1 else deselect_row sel p)" for vs
    using kind by (auto simp: deselect_value_def)
  have L: "length (deselect_value sel p vs) = ?L" for vs using val d(3) r1(3) by simp
  have entry: "replaced_entry sel p = Inr (bv_make (deselect_value sel p ?next) q)"
    using d r0 r1 len p by (simp add: replaced_entry_def row_at_def val CompareEqualTo_make assign_copy_make)
  let ?sel = "sel\<lparr>m_deselectTable := (m_deselectTable sel)[p := bv_make (deselect_value sel p ?next) q]\<rparr>"
  have row: "deselect_row ?sel i = (if i = p then deselect_value sel p ?next else deselect_row sel i)" for i
    using p len(3) by (simp add: deselect_row_def nth_list_update)
  have same_row: "select_row ?sel = select_row sel" "CanSelectNone ?sel = CanSelectNone sel"
    by (simp_all add: select_row_def fun_eq_iff CanSelectNone_def)
  have "sel_ok ?sel"
    using sel rows_ok_update [of ?L "m_deselectTable sel" "deselect_value sel p ?next" q p] L d(2)
    by (simp add: sel_ok_def same_row del: One_nat_def)
  moreover have "deselect_value ?sel i vs = deselect_value sel i vs" for i vs
    using kind row same_row val by (auto simp: deselect_value_def Let_def)
  ultimately have same: "same_selector sel ?sel" by (simp add: same_selector_def)
  obtain st' where st': "SetMux null slack (m_muxRegisters sel) (bv_make (deselect_value sel p ?next) q) st = (Inr (), st')"
    "mux_change ord n A (m_muxRegisters sel) (deselect_value sel p ?next) st st'"
    using SetMux_ok [OF mux L slack] by blast
  have "TableBased_Deselect null slack p (sel, st) = (Inr (), (?sel, st'))"
    using entry p len(3) st'(1)
    by (simp add: TableBased_Deselect_def act_bind_read Selector_CheckPathIdentifier_def act_then_def act_bind_def
        act_assign_def on_store_def)
  then show ?thesis using same st'(2) by blast
qed

lemma Selector_Deselect_ok:
  assumes sel: "sel_ok sel" and mux: "mux_ok ord n A (m_muxRegisters sel) st" and slack: "slack \<noteq> []"
    and p: "p < length (m_selectTable sel)"
  shows "\<exists>sel' st'. Selector_Deselect null slack p (sel, st) = (Inr (), (sel', st')) \<and> same_selector sel sel'
    \<and> mux_change ord n A (m_muxRegisters sel) (deselect_value sel p (next_bits ord n (m_muxRegisters sel) st)) st st'"
proof -
  let ?vr = "m_muxRegisters sel"
  let ?L = "total_width (vr_registers ?vr)" and ?next = "next_bits ord n ?vr st"
  have len: "0 < length (m_selectTable sel)" "1 < length (m_selectTable sel)" "length (m_deselectTable sel) = length (m_selectTable sel)"
    using sel by (auto simp: sel_ok_def)
  have chk: "Selector_CheckPathIdentifier sel p = Inr ()" using p by (simp add: Selector_CheckPathIdentifier_def)
  obtain q0 where r0: "m_selectTable sel ! 0 = bv_make (select_row sel 0) q0" "length (select_row sel 0) = ?L"
    using sel len(1) by (rule select_rowE)
  obtain q1 where r1: "m_selectTable sel ! 1 = bv_make (select_row sel 1) q1" "q1 \<noteq> FixedOnCopy" "length (select_row sel 1) = ?L"
    using sel len(2) by (rule select_rowE)
  obtain q where d: "m_deselectTable sel ! p = bv_make (deselect_row sel p) q" "length (deselect_row sel p) = ?L"
    using sel p by (rule deselect_rowE)
  show ?thesis
  proof (cases "m_kind sel")
    case N_Hot
    have neq: "select_row sel 1 \<noteq> select_row sel 0" using sel N_Hot by (auto simp: sel_ok_def)
    have L: "length (deselect_value sel p ?next) = ?L" using N_Hot d(2) r1(3) by (simp add: deselect_value_def Let_def)
    have val: "NHot_deselected sel p (bv_make ?next NotFixed) = Inr (bv_make (deselect_value sel p ?next) NotFixed)"
      using N_Hot d r0 r1 len p neq
      by (simp add: NHot_deselected_def row_at_def deselect_value_def and_assign_make or_assign_make CompareEqualTo_make
          assign_copy_make Let_def)
    obtain st' where st': "SetMux null slack ?vr (bv_make (deselect_value sel p ?next) NotFixed) st = (Inr (), st')"
      "mux_change ord n A ?vr (deselect_value sel p ?next) st st'"
      using SetMux_ok [OF mux L slack] by blast
    have "Selector_Deselect null slack p (sel, st) = (Inr (), (sel, st'))"
      using N_Hot by (simp add: Selector_Deselect_def NHot_Deselect_def on_store_def act_bind_read chk
          mux_views(1) [OF mux] val st'(1))
    then show ?thesis using st'(2) sel by auto
  next
    case Brocade
    have L: "length (deselect_value sel p ?next) = ?L" using Brocade d(2) by (simp add: deselect_value_def)
    obtain st' where st': "SetMux null slack ?vr (bv_make (deselect_value sel p ?next) NotFixed) st = (Inr (), st')"
      "mux_change ord n A ?vr (deselect_value sel p ?next) st st'"
      using SetMux_ok [OF mux L slack] by blast
    have "and_assign (BinaryVector_copy (bv_make ?next NotFixed)) (m_deselectTable sel ! p)
        = Inr (bv_make (deselect_value sel p ?next) NotFixed)"
      using Brocade d by (simp add: deselect_value_def and_assign_make)
    then have "Selector_Deselect null slack p (sel, st) = (Inr (), (sel, st'))"
      using Brocade p len(3) by (simp add: Selector_Deselect_def Brocade_Deselect_def on_store_def act_bind_read chk
          mux_views(1) [OF mux] row_at_def st'(1) del: BinaryVector_copy_make)
    then show ?thesis using st'(2) sel by auto
  qed (use TableBased_Deselect_ok [OF assms] in \<open>simp_all add: Selector_Deselect_def\<close>)
qed
end
