(* ===== verification/Selector_Codes.thy ===== *)
theory Selector_Codes
  imports Path_Selectors
begin

text \<open>
  The codes the selectors use: binary numbers, one hot and N hot rows, possibly in reverse order
  or inverted. Two contracts are stated as locales over the value functions of a selector and
  interpreted for the selectors the constructors build: at most one path matches (\<open>exclusive\<close>), or
  paths are switched one by one (\<open>independent\<close>).
\<close>

section \<open>Rows\<close>

definition signed_row :: "bool \<Rightarrow> bool list \<Rightarrow> bool list" where
  "signed_row neg bs = (if neg then map Not bs else bs)"

definition nat_bits :: "nat \<Rightarrow> nat \<Rightarrow> bool list" where
  "nat_bits L v = map (bit v) (rev [0..<L])"

definition hot_index :: "nat \<Rightarrow> bool \<Rightarrow> nat \<Rightarrow> nat" where
  "hot_index L reverseOrder p = (if reverseOrder then L - p else p - 1)"

definition hot_bits :: "nat \<Rightarrow> bool \<Rightarrow> nat \<Rightarrow> bool list" where
  "hot_bits L reverseOrder p = (replicate L False)[hot_index L reverseOrder p := True]"

lemma length_rows [simp]:
  "length (signed_row neg bs) = length bs" "length (nat_bits L v) = L" "length (hot_bits L rv p) = L"
  by (simp_all add: signed_row_def nat_bits_def hot_bits_def)

lemma signed_row_inject [simp]: "signed_row neg bs = signed_row neg cs \<longleftrightarrow> bs = cs"
  by (auto simp: signed_row_def inj_map_eq_map inj_def)

lemma bit_nat_big: "(v :: nat) < 2 ^ L \<Longrightarrow> L \<le> i \<Longrightarrow> \<not> bit v i"
  by (metis bit_iff_odd div_less dvd_0_right order_less_le_trans one_le_numeral power_increasing)

lemma nat_bits_inject:
  assumes "v < 2 ^ L" "w < 2 ^ L"
  shows "nat_bits L v = nat_bits L w \<longleftrightarrow> v = w"
proof
  assume eq: "nat_bits L v = nat_bits L w"
  show "v = w"
  proof (rule bit_eqI)
    fix i
    show "bit v i = bit w i"
    proof (cases "i < L")
      case True
      have "map (bit v) [0..<L] = map (bit w) [0..<L]"
        using eq by (simp add: nat_bits_def rev_map [symmetric])
      then show ?thesis using True by (simp add: map_eq_conv)
    qed (use assms bit_nat_big in auto)
  qed
qed simp

lemma nat_bits_0: "nat_bits L 0 = replicate L False"
  by (rule nth_equalityI) (simp_all add: nat_bits_def)

lemma value_bits_word:
  assumes "L \<le> 32" "v < 4294967296"
  shows "value_bits L Right (word_bits (word_of_nat v :: 32 word)) = nat_bits L v"
proof (rule nth_equalityI)
  show "length (value_bits L Right (word_bits (word_of_nat v :: 32 word))) = length (nat_bits L v)"
    using assms by (simp add: value_bits_def)
  fix i assume "i < length (value_bits L Right (word_bits (word_of_nat v :: 32 word)))"
  then have i: "i < L" using assms by (simp add: value_bits_def)
  then have "value_bits L Right (word_bits (word_of_nat v :: 32 word)) ! i = bit (word_of_nat v :: 32 word) (L - Suc i)"
    using assms by (simp add: value_bits_def word_bits_nth)
  also have "\<dots> = bit v (L - Suc i)"
    using assms(1) i by (auto simp: bit_of_nat_iff possible_bit_word)
  finally show "value_bits L Right (word_bits (word_of_nat v :: 32 word)) ! i = nat_bits L v ! i"
    using i by (simp add: nat_bits_def rev_nth)
qed

lemma hot_index_less: "0 < p \<Longrightarrow> p \<le> L \<Longrightarrow> hot_index L rv p < L"
  by (auto simp: hot_index_def)

lemma hot_index_inject: "0 < p \<Longrightarrow> p \<le> L \<Longrightarrow> 0 < q \<Longrightarrow> q \<le> L \<Longrightarrow> hot_index L rv p = hot_index L rv q \<longleftrightarrow> p = q"
  by (auto simp: hot_index_def)

lemma hot_bits_nth: "i < L \<Longrightarrow> hot_bits L rv p ! i \<longleftrightarrow> i = hot_index L rv p"
  by (cases "i = hot_index L rv p") (simp_all add: hot_bits_def)

lemma hot_bits_inject:
  assumes "0 < p" "p \<le> L" "0 < q" "q \<le> L"
  shows "hot_bits L rv p = hot_bits L rv q \<longleftrightarrow> p = q"
  using hot_bits_nth [OF hot_index_less [OF assms(1,2)], of rv] hot_index_inject [OF assms] by metis

lemma hot_bits_not_zero: "0 < p \<Longrightarrow> p \<le> L \<Longrightarrow> hot_bits L rv p \<noteq> replicate L False"
  using hot_bits_nth [OF hot_index_less] hot_index_less [of p L] by (metis nth_replicate)

section \<open>Tables\<close>

lemma each_row_Inr: "(\<And>x. x \<in> set xs \<Longrightarrow> f x = Inr (g x)) \<Longrightarrow> each_row f xs = Inr (map g xs)"
  by (induction xs) simp_all

lemma InvertTable_make:
  "InvertTable (map (\<lambda>bs. bv_make bs FixedOnCopy) rows) = Inr (map (\<lambda>bs. bv_make (map Not bs) FixedOnCopy) rows)"
  unfolding InvertTable_def
  by (induction rows) (simp_all add: toggled_make assign_move_make)

lemma sign_table:
  "(if neg then InvertTable (map (\<lambda>bs. bv_make bs FixedOnCopy) rows) else Inr (map (\<lambda>bs. bv_make bs FixedOnCopy) rows))
    = Inr (map (\<lambda>bs. bv_make (signed_row neg bs) FixedOnCopy) rows)"
  by (simp add: InvertTable_make signed_row_def)

lemma FixTable_make: "FixTable (map (\<lambda>bs. bv_make (f bs) q) rows) = map (\<lambda>bs. bv_make (f bs) Fixed) rows"
  by (simp add: FixTable_def)

definition binary_rows :: "nat \<Rightarrow> bool \<Rightarrow> nat \<Rightarrow> bool list list" where
  "binary_rows L canSelectNone paths =
    replicate L False # map (\<lambda>p. nat_bits L (if canSelectNone then p else p - 1)) [1..<Suc paths]"

definition hot_rows :: "nat \<Rightarrow> bool \<Rightarrow> nat \<Rightarrow> bool list list" where
  "hot_rows L reverseOrder paths = replicate L False # map (hot_bits L reverseOrder) [1..<Suc paths]"

definition binary_fits :: "nat \<Rightarrow> bool \<Rightarrow> nat \<Rightarrow> bool" where
  "binary_fits L canSelectNone paths \<longleftrightarrow> 0 < paths \<and> L \<le> 32 \<and> paths < 4294967295
    \<and> MinimalBitsForValue (if canSelectNone then paths else paths - 1) \<le> L"

lemma binary_fits_code:
  assumes "binary_fits L none paths" "0 < p" "p \<le> paths"
  shows "(if none then p else p - 1) < 2 ^ L"
proof -
  have "(if none then paths else paths - 1) < 2 ^ MinimalBitsForValue (if none then paths else paths - 1)"
    by (rule MinimalBitsForValue_bounds)
  also have "\<dots> \<le> 2 ^ L" using assms(1) by (simp add: binary_fits_def)
  finally show ?thesis using assms(2,3) by (auto split: if_splits)
qed

lemma binary_fits_pos: "binary_fits L none paths \<Longrightarrow> 0 < L"
  using MinimalBitsForValue_bounds(1) unfolding binary_fits_def by (metis gr_zeroI leD)

lemma Binary_CreateSelectTable_make:
  assumes "binary_fits L (IsSet props CanSelectNone_flag) paths"
  shows "Binary_CreateSelectTable L paths props
    = Inr (map (\<lambda>bs. bv_make (signed_row (IsSet props InvertedBits_flag) bs) FixedOnCopy)
               (binary_rows L (IsSet props CanSelectNone_flag) paths))"
proof -
  let ?none = "IsSet props CanSelectNone_flag"
  have L: "0 < L" "L \<le> 32" "paths < 4294967295"
    using binary_fits_pos [OF assms] assms unfolding binary_fits_def by blast+
  have chk: "Binary_CheckRegisterLength L paths ?none = Inr ()"
    using assms by (auto simp: Binary_CheckRegisterLength_def binary_fits_def Let_def)
  have row: "Binary_select_row ?none L p = Inr (bv_make (nat_bits L (if ?none then p else p - 1)) FixedOnCopy)"
    if "p \<in> set [1..<Suc paths]" for p
  proof -
    have p: "(if ?none then p else u32_sub p 1) = (if ?none then p else p - 1)" "(if ?none then p else p - 1) < 4294967296"
      using that L by auto
    show ?thesis
      unfolding Binary_select_row_def Let_def p(1)
      using L p(2) by (simp add: BinaryVector_empty_make Append_u32_make value_bits_word u8_def)
  qed
  have fill: "BinaryVector_fill L 0 FixedOnCopy = Inr (bv_make (replicate L False) FixedOnCopy)"
    using L by (simp add: BinaryVector_fill_make)
  have table: "bv_make (replicate L False) FixedOnCopy
      # map (\<lambda>p. bv_make (nat_bits L (if ?none then p else p - 1)) FixedOnCopy) [1..<Suc paths]
    = map (\<lambda>bs. bv_make bs FixedOnCopy) (binary_rows L ?none paths)"
    by (simp add: binary_rows_def)
  show ?thesis
    unfolding Binary_CreateSelectTable_def Let_def chk fill rbind_Inr
    using each_row_Inr [of "[1..<Suc paths]", OF row] by (simp only: rbind_Inr table sign_table)
qed

lemma Binary_CreateDeselectTable_make:
  assumes "binary_fits L (IsSet props CanSelectNone_flag) paths"
  shows "Binary_CreateDeselectTable L paths props
    = Inr (map (\<lambda>bs. bv_make (signed_row (IsSet props InvertedBits_flag) bs) FixedOnCopy)
               (replicate (Suc paths) (replicate L False)))"
proof -
  have chk: "Binary_CheckRegisterLength L paths (IsSet props CanSelectNone_flag) = Inr ()"
    using assms by (auto simp: Binary_CheckRegisterLength_def binary_fits_def Let_def)
  have fill: "BinaryVector_fill L 0 FixedOnCopy = Inr (bv_make (replicate L False) FixedOnCopy)"
    using assms by (simp add: BinaryVector_fill_make binary_fits_def)
  have table: "replicate (u32 (paths + 1)) (BinaryVector_copy (bv_make (replicate L False) FixedOnCopy))
      = map (\<lambda>bs. bv_make bs FixedOnCopy) (replicate (Suc paths) (replicate L False))"
    using assms by (simp add: binary_fits_def)
  show ?thesis
    unfolding Binary_CreateDeselectTable_def Let_def chk fill rbind_Inr table by (rule sign_table)
qed

lemma OneHot_select_rows_make:
  assumes "0 < k" "k + m \<le> Suc L" "L < 4294967296"
  shows "OneHot_select_rows rv (hot_index L rv k) (bv_make (replicate L False) NotFixed) m
    = Inr (map (\<lambda>p. bv_make (hot_bits L rv p) FixedOnCopy) [k..<k + m])"
  using assms(1,2)
proof (induction m arbitrary: k)
  case (Suc m)
  have i: "hot_index L rv k < L" using Suc.prems by (intro hot_index_less) auto
  have clear: "(replicate L False)[hot_index L rv k := True, hot_index L rv k := False] = replicate L False"
    using i by (metis list_update_id list_update_overwrite nth_replicate)
  have step: "(if rv then u32_sub (hot_index L rv k) 1 else u32 (hot_index L rv k + 1)) = hot_index L rv (Suc k)" if "m \<noteq> 0"
    using Suc.prems that assms(3) by (auto simp: hot_index_def)
  have rest: "OneHot_select_rows rv (if rv then u32_sub (hot_index L rv k) 1 else u32 (hot_index L rv k + 1))
      (bv_make (replicate L False) NotFixed) m = Inr (map (\<lambda>p. bv_make (hot_bits L rv p) FixedOnCopy) [Suc k..<Suc k + m])"
  proof (cases "m = 0")
    case False
    then show ?thesis using step [OF False] Suc.IH [of "Suc k"] Suc.prems by simp
  qed simp
  have upt: "[k..<k + Suc m] = k # [Suc k..<Suc k + m]" by (simp add: upt_conv_Cons)
  have "SetBit (hot_index L rv k) (bv_make (replicate L False) NotFixed) = Inr (bv_make (hot_bits L rv k) NotFixed)"
    "ClearBit (hot_index L rv k) (bv_make (hot_bits L rv k) NotFixed) = Inr (bv_make (replicate L False) NotFixed)"
    using i clear by (simp_all add: SetBit_make ClearBit_make hot_bits_def)
  then show ?case
    unfolding OneHot_select_rows.simps upt by (simp only: rbind_Inr rest BinaryVector_copy_as_make list.map)
qed simp

lemma OneHot_CreateSelectTable_make:
  assumes "paths \<le> L" "L < 4294967289" "\<not> IsSet props StartAtZero_flag"
  shows "OneHot_CreateSelectTable L paths props
    = Inr (map (\<lambda>bs. bv_make (signed_row (IsSet props InvertedBits_flag) bs) FixedOnCopy)
               (hot_rows L (IsSet props ReverseOrder_flag) paths))"
proof -
  let ?rv = "IsSet props ReverseOrder_flag"
  have chk: "Hot_CheckRegisterLength L paths = Inr ()" using assms by (simp add: Hot_CheckRegisterLength_def)
  have fill: "BinaryVector_fill L 0 sp = Inr (bv_make (replicate L False) sp)" for sp
    using assms by (simp add: BinaryVector_fill_make)
  have rows: "OneHot_select_rows ?rv (if ?rv then u32_sub L 1 else 0) (bv_make (replicate L False) NotFixed) paths
      = Inr (map (\<lambda>p. bv_make (hot_bits L ?rv p) FixedOnCopy) [1..<Suc paths])"
  proof (cases "paths = 0")
    case False
    then have "(if ?rv then u32_sub L 1 else 0) = hot_index L ?rv 1" using assms by (simp add: hot_index_def)
    then show ?thesis using OneHot_select_rows_make [of 1 paths L ?rv] assms by simp
  qed simp
  have table: "[bv_make (replicate L False) FixedOnCopy] @ map (\<lambda>p. bv_make (hot_bits L ?rv p) FixedOnCopy) [1..<Suc paths]
      = map (\<lambda>bs. bv_make bs FixedOnCopy) (hot_rows L ?rv paths)"
    by (simp add: hot_rows_def)
  show ?thesis
    unfolding OneHot_CreateSelectTable_def Let_def chk fill rbind_Inr rows
    by (simp only: assms(3) not_False_eq_True if_True if_False rbind_Inr chk table sign_table)
qed

lemma OneHot_CreateDeselectTable_make:
  assumes "paths \<le> L" "L < 4294967289" "\<not> IsSet props StartAtZero_flag"
  shows "OneHot_CreateDeselectTable L paths props
    = Inr (map (\<lambda>bs. bv_make (signed_row (IsSet props InvertedBits_flag) bs) FixedOnCopy)
               (replicate (Suc paths) (replicate L False)))"
proof -
  have chk: "Hot_CheckRegisterLength L paths = Inr ()" using assms by (simp add: Hot_CheckRegisterLength_def)
  have fill: "BinaryVector_fill L 0 FixedOnCopy = Inr (bv_make (replicate L False) FixedOnCopy)"
    using assms by (simp add: BinaryVector_fill_make)
  have table: "replicate (u32 (paths + 1)) (BinaryVector_copy (bv_make (replicate L False) FixedOnCopy))
      = map (\<lambda>bs. bv_make bs FixedOnCopy) (replicate (Suc paths) (replicate L False))"
    using assms by simp
  show ?thesis
    unfolding OneHot_CreateDeselectTable_def Let_def fill
    by (simp only: assms(3) not_False_eq_True if_True if_False rbind_Inr chk table sign_table)
qed

lemma NHot_CreateDeselectTable_make:
  assumes "paths \<le> L" "L < 4294967289" "\<not> IsSet props StartAtZero_flag"
  shows "NHot_CreateDeselectTable L paths props
    = Inr (map (\<lambda>bs. bv_make (signed_row (\<not> IsSet props InvertedBits_flag) bs) FixedOnCopy)
               (hot_rows L (IsSet props ReverseOrder_flag) paths))"
proof -
  have "InvertTable (map (\<lambda>bs. bv_make (signed_row neg bs) FixedOnCopy) rows)
      = Inr (map (\<lambda>bs. bv_make (signed_row (\<not> neg) bs) FixedOnCopy) rows)" for neg rows
    using InvertTable_make [of "map (signed_row neg) rows"] by (simp add: comp_def signed_row_def)
  then show ?thesis
    unfolding NHot_CreateDeselectTable_def OneHot_CreateSelectTable_make [OF assms] by simp
qed

text \<open>
  With \<^verbatim>\<open>StartAtZero\<close> the register may be one bit shorter than the number of paths, says the
  length check, but the loop still sets one bit per path: the last one is out of range.
\<close>

lemma OneHot_StartAtZero_short:
  assumes "IsSet props StartAtZero_flag" "paths = Suc L" "L < 4294967289"
  shows "OneHot_CreateSelectTable L paths props = Inl InvalidArgument"
proof -
  let ?rv = "IsSet props ReverseOrder_flag"
  have chk: "Hot_CheckRegisterLength L (u32_sub paths 1) = Inr ()" using assms by (simp add: Hot_CheckRegisterLength_def)
  have fill: "BinaryVector_fill L 0 sp = Inr (bv_make (replicate L False) sp)" for sp
    using assms by (simp add: BinaryVector_fill_make)
  have rows: "OneHot_select_rows rv i (bv_make (replicate L False) NotFixed) (Suc m) = Inl InvalidArgument"
    if "(if rv then i + 1 else L - i) = m \<and> i \<le> L \<or> i = 4294967295 \<and> m = 0 \<and> rv" for rv i m
    using that
  proof (induction m arbitrary: i)
    case 0
    then have "\<not> i < L" using assms(3) by (auto split: if_splits)
    then show ?case by (simp add: SetBit_make)
  next
    case (Suc m)
    then have i: "i < L \<or> rv \<and> i = L" by (auto split: if_splits)
    show ?case
    proof (cases "i < L")
      case True
      have clear: "(replicate L False)[i := True, i := False] = replicate L False"
        using True by (metis list_update_id list_update_overwrite nth_replicate)
      have next_i: "(if rv then u32_sub i 1 else u32 (i + 1)) = (if rv then (if i = 0 then 4294967295 else i - 1) else i + 1)"
      proof -
        have "u32_sub 0 1 = 4294967295" by (simp add: u32_sub_def u32_def)
        moreover have "u32_sub i 1 = i - 1" if "i \<noteq> 0" using that True assms(3) by simp
        moreover have "u32 (i + 1) = i + 1" using True assms(3) by simp
        ultimately show ?thesis by (cases "i = 0") simp_all
      qed
      have bits: "SetBit i (bv_make (replicate L False) NotFixed) = Inr (bv_make ((replicate L False)[i := True]) NotFixed)"
        "ClearBit i (bv_make ((replicate L False)[i := True]) NotFixed) = Inr (bv_make (replicate L False) NotFixed)"
        using True clear by (simp_all add: SetBit_make ClearBit_make)
      have rest: "OneHot_select_rows rv (if rv then (if i = 0 then 4294967295 else i - 1) else i + 1)
          (bv_make (replicate L False) NotFixed) (Suc m) = Inl InvalidArgument"
        using Suc True by (intro Suc.IH) (auto split: if_splits)
      show ?thesis
        unfolding OneHot_select_rows.simps(2) [of rv i _ "Suc m"] next_i
        by (simp only: bits rbind_Inr rest rbind_Inl)
    next
      case False
      then show ?thesis by (simp add: SetBit_make)
    qed
  qed
  have bit: "OneHot_select_rows ?rv (if ?rv then u32_sub L 1 else 0) (bv_make (replicate L False) NotFixed) (Suc L) = Inl InvalidArgument"
  proof (rule rows)
    show "(if ?rv then (if ?rv then u32_sub L 1 else 0) + 1 else L - (if ?rv then u32_sub L 1 else 0)) = L
      \<and> (if ?rv then u32_sub L 1 else 0) \<le> L \<or> (if ?rv then u32_sub L 1 else 0) = 4294967295 \<and> L = 0 \<and> ?rv"
    proof (cases "L = 0")
      case True
      then show ?thesis by (auto simp: u32_sub_def u32_def)
    next
      case False
      then have "u32_sub L 1 = L - 1" using assms(3) by simp
      then show ?thesis using False by simp
    qed
  qed
  show ?thesis
    unfolding OneHot_CreateSelectTable_def Let_def
    using assms(1,2) chk by (simp only: not_True_eq_False if_False rbind_Inr fill bit rbind_Inl)
qed

section \<open>What the constructors build\<close>

definition sel_width :: "PathSelector \<Rightarrow> nat" where
  "sel_width sel = total_width (vr_registers (m_muxRegisters sel))"

definition coded :: "PathSelector \<Rightarrow> bool \<Rightarrow> bool list list \<Rightarrow> bool" where
  "coded sel neg rows \<longleftrightarrow> m_selectTable sel = map (\<lambda>bs. bv_make (signed_row neg bs) Fixed) rows
    \<and> length rows = Suc (m_pathsCount sel) \<and> (\<forall>bs \<in> set rows. length bs = sel_width sel) \<and> 0 < m_pathsCount sel"

definition idle_deselect :: "PathSelector \<Rightarrow> bool \<Rightarrow> bool" where
  "idle_deselect sel neg \<longleftrightarrow> m_deselectTable sel
    = map (\<lambda>bs. bv_make (signed_row neg bs) Fixed) (replicate (Suc (m_pathsCount sel)) (replicate (sel_width sel) False))"

definition binary_built :: "PathSelector \<Rightarrow> bool" where
  "binary_built sel \<longleftrightarrow> m_kind sel = Binary \<and> binary_fits (sel_width sel) (CanSelectNone sel) (m_pathsCount sel)
    \<and> (\<exists>neg. coded sel neg (binary_rows (sel_width sel) (CanSelectNone sel) (m_pathsCount sel)) \<and> idle_deselect sel neg)"

definition one_hot_built :: "PathSelector \<Rightarrow> bool" where
  "one_hot_built sel \<longleftrightarrow> m_kind sel = One_Hot \<and> m_pathsCount sel \<le> sel_width sel
    \<and> (\<exists>neg rv. coded sel neg (hot_rows (sel_width sel) rv (m_pathsCount sel)) \<and> idle_deselect sel neg)"

definition n_hot_built :: "PathSelector \<Rightarrow> bool" where
  "n_hot_built sel \<longleftrightarrow> m_pathsCount sel \<le> sel_width sel
    \<and> (m_kind sel = N_Hot \<or> m_kind sel = Brocade \<and> CanSelectNone sel \<and> \<not> m_invertedBits sel)
    \<and> (\<exists>rv. coded sel (m_invertedBits sel) (hot_rows (sel_width sel) rv (m_pathsCount sel))
        \<and> m_deselectTable sel = map (\<lambda>bs. bv_make (signed_row (\<not> m_invertedBits sel) bs) Fixed)
            (hot_rows (sel_width sel) rv (m_pathsCount sel)))"

definition single_vr :: "nat \<Rightarrow> Register \<Rightarrow> VirtualRegister" where
  "single_vr a r = \<lparr>vr_identifiers = [m_identifier r],
    vr_registers = [\<lparr>slice_reg = Some a, slice_range = \<lparr>left = Register_BitsCount r - 1, right = 0\<rparr>\<rparr>]\<rparr>"

lemma reg_inv_BitsCount: "reg_inv n r \<Longrightarrow> Register_BitsCount r = n"
  using fixedE [OF reg_invD(5)] by (fastforce simp: Register_BitsCount_def)

lemma single_vr_of:
  assumes "st a = Some r" "reg_inv n r" "0 < n"
  shows "VirtualRegister_of (Some a) st = Inr (single_vr a r)"
  using VirtualRegister_of_eq [where st = st and a = a and n = n, OF assms] reg_inv_BitsCount [OF assms(2)]
  by (simp add: single_vr_def)

lemma single_vr_width [simp]: "reg_inv n r \<Longrightarrow> 0 < n \<Longrightarrow> total_width (vr_registers (single_vr a r)) = n"
  by (simp add: single_vr_def slice_width_def reg_inv_BitsCount)

lemma single_vr_ok:
  assumes "st a = Some r" "reg_inv n r" "0 < n" "n < 4294967289" "m_bitsOrdering r \<noteq> Upto"
  shows "mux_ok (m_bitsOrdering r) (\<lambda>_. n) {a} (single_vr a r) st"
  using assms single_slice_ok [of n "m_bitsOrdering r"] reg_inv_BitsCount [OF assms(2)]
  by (simp add: mux_ok_def store_ok_def) (simp add: single_vr_def slice_width_def)

lemma TableBased_of_make:
  assumes "length xs = Suc paths" "length ys = Suc paths"
  shows "TableBased_of kind vr paths (map (\<lambda>bs. bv_make (f bs) p) xs) (map (\<lambda>bs. bv_make (g bs) q) ys) props
    = Inr \<lparr>m_kind = kind, m_properties = props, m_selectTable = map (\<lambda>bs. bv_make (f bs) Fixed) xs,
           m_deselectTable = map (\<lambda>bs. bv_make (g bs) Fixed) ys, m_pathsCount = paths, m_muxRegisters = vr, m_invertedBits = False\<rparr>"
  using assms by (simp add: TableBased_of_def FixTable_make)

lemma rows_length [simp]:
  "length (binary_rows L none paths) = Suc paths" "length (hot_rows L rv paths) = Suc paths"
  "bs \<in> set (binary_rows L none paths) \<Longrightarrow> length bs = L" "bs \<in> set (hot_rows L rv paths) \<Longrightarrow> length bs = L"
  by (auto simp: binary_rows_def hot_rows_def simp del: upt_Suc)

lemmas built_defs = coded_def idle_deselect_def sel_width_def CanSelectNone_def IsSet_def

lemma Binary_of_built:
  assumes reg: "st a = Some r" "reg_inv L r" and fits: "binary_fits L (IsSet props CanSelectNone_flag) paths"
  shows "\<exists>sel. Binary_of (Some a) st paths props = Inr sel \<and> binary_built sel \<and> m_muxRegisters sel = single_vr a r
    \<and> m_pathsCount sel = paths \<and> m_properties sel = props"
proof -
  have L: "0 < L" by (rule binary_fits_pos [OF fits])
  have paths: "0 < paths" using fits by (simp add: binary_fits_def)
  show ?thesis
    using reg L fits paths Binary_CreateSelectTable_make [OF fits] Binary_CreateDeselectTable_make [OF fits]
      single_vr_of [where st = st and a = a, OF reg L] reg_inv_BitsCount [OF reg(2)]
    by (simp add: Binary_of_def deref_def TableBased_of_register_def TableBased_of_make binary_built_def del: replicate.simps map_replicate)
      (auto simp: built_defs simp del: replicate.simps map_replicate)
qed

lemma OneHot_of_built:
  assumes reg: "st a = Some r" "reg_inv L r" and fits: "0 < paths" "paths \<le> L" "L < 4294967289" "\<not> IsSet props StartAtZero_flag"
  shows "\<exists>sel. OneHot_of (Some a) st paths props = Inr sel \<and> one_hot_built sel \<and> m_muxRegisters sel = single_vr a r
    \<and> m_pathsCount sel = paths \<and> m_properties sel = props"
proof -
  have L: "0 < L" using fits by simp
  show ?thesis
    using reg L fits OneHot_CreateSelectTable_make [OF fits(2-4)] OneHot_CreateDeselectTable_make [OF fits(2-4)]
      single_vr_of [where st = st and a = a, OF reg L] reg_inv_BitsCount [OF reg(2)]
    by (simp add: OneHot_of_def deref_def TableBased_of_register_def TableBased_of_make one_hot_built_def del: replicate.simps map_replicate)
      (auto simp: coded_def idle_deselect_def sel_width_def simp del: replicate.simps map_replicate)
qed

lemma NHot_of_built:
  assumes reg: "st a = Some r" "reg_inv L r" and fits: "0 < paths" "paths \<le> L" "L < 4294967289" "\<not> IsSet props StartAtZero_flag"
  shows "\<exists>sel. NHot_of (Some a) st paths props = Inr sel \<and> n_hot_built sel \<and> m_muxRegisters sel = single_vr a r
    \<and> m_pathsCount sel = paths \<and> m_properties sel = props \<and> m_kind sel = N_Hot"
proof -
  have L: "0 < L" using fits by simp
  show ?thesis
    using reg L fits OneHot_CreateSelectTable_make [OF fits(2-4)] NHot_CreateDeselectTable_make [OF fits(2-4)]
      single_vr_of [where st = st and a = a, OF reg L] reg_inv_BitsCount [OF reg(2)]
    by (simp add: NHot_of_def deref_def TableBased_of_register_def TableBased_of_make n_hot_built_def del: replicate.simps map_replicate)
      (auto simp: coded_def sel_width_def simp del: replicate.simps map_replicate)
qed

lemma Brocade_of_built:
  assumes reg: "st a = Some r" "reg_inv 8 r" and fits: "0 < paths" "paths \<le> 5" "\<not> IsSet props StartAtZero_flag"
    and props: "IsSet props CanSelectNone_flag" "\<not> IsSet props InvertedBits_flag"
  shows "\<exists>sel. Brocade_of (Some a) st paths props = Inr sel \<and> n_hot_built sel \<and> m_muxRegisters sel = single_vr a r
    \<and> m_pathsCount sel = paths \<and> m_properties sel = props"
proof -
  have sel: "OneHot_CreateSelectTable 8 paths props
      = Inr (map (\<lambda>bs. bv_make (signed_row False bs) FixedOnCopy) (hot_rows 8 (IsSet props ReverseOrder_flag) paths))"
    using OneHot_CreateSelectTable_make [of paths 8 props] fits props by simp
  have desel: "rbind (OneHot_CreateSelectTable 8 paths props) InvertTable
      = Inr (map (\<lambda>bs. bv_make (signed_row True bs) FixedOnCopy) (hot_rows 8 (IsSet props ReverseOrder_flag) paths))"
    using NHot_CreateDeselectTable_make [of paths 8 props] fits props by (simp add: NHot_CreateDeselectTable_def)
  have vr: "VirtualRegister_of (Some a) st = Inr (single_vr a r)"
    using single_vr_of [where st = st and a = a and n = 8, OF reg] by simp
  have "slice_ok Downto 8 \<lparr>left = 7, right = 0\<rparr>" by (simp add: slice_ok_def)
  then have "VR_BitsCount (single_vr a r) = Inr 8"
    using reg_inv_BitsCount [OF reg(2)] by (simp add: VR_BitsCount_def single_vr_def Width_def)
  then show ?thesis
    using reg fits props sel desel vr
    by (simp add: Brocade_of_def Brocade_CreateSelectTable_def Brocade_CreateDeselectTable_def MAX_TAPS_COUNT_def
        REGISTER_BITS_COUNT_def TableBased_of_register_def TableBased_of_make n_hot_built_def del: replicate.simps map_replicate)
      (auto simp: built_defs simp del: replicate.simps map_replicate)
qed

section \<open>Selection contracts\<close>

text \<open>
  \<open>fits\<close> is an invariant of the selector that deselection keeps; on the selectors that satisfy it,
  selecting a path makes it match and deselecting it makes it not match, when the selector may
  be left idle, or leaves some other path open.
\<close>

definition paths_of :: "PathSelector \<Rightarrow> nat set" where
  "paths_of sel = {1..m_pathsCount sel}"

text \<open>An N hot register may have more bits than paths; then a stray bit also keeps it from being idle.\<close>

definition all_bits_used :: "PathSelector \<Rightarrow> bool" where
  "all_bits_used sel \<longleftrightarrow> (m_kind sel \<in> {N_Hot, Brocade} \<longrightarrow> m_pathsCount sel = sel_width sel)"

locale path_coding =
  fixes fits :: "PathSelector \<Rightarrow> bool"
  assumes fits_ok: "fits sel \<Longrightarrow> sel_ok sel"
    and fits_same: "fits sel \<Longrightarrow> same_selector sel sel' \<Longrightarrow> fits sel'"
    and select_matches: "fits sel \<Longrightarrow> p \<in> paths_of sel \<Longrightarrow> length vs = sel_width sel \<Longrightarrow> matches sel (select_value sel p vs) p"
    and idle: "fits sel \<Longrightarrow> CanSelectNone sel \<Longrightarrow> p \<in> paths_of sel \<Longrightarrow> \<not> matches sel (select_value sel 0 vs) p"
    and deselect_clears: "fits sel \<Longrightarrow> CanSelectNone sel \<Longrightarrow> p \<in> paths_of sel \<Longrightarrow> length vs = sel_width sel
      \<Longrightarrow> \<not> matches sel (deselect_value sel p vs) p"
    and never_idle: "fits sel \<Longrightarrow> \<not> CanSelectNone sel \<Longrightarrow> p \<in> paths_of sel \<Longrightarrow> length vs = sel_width sel
      \<Longrightarrow> all_bits_used sel \<Longrightarrow> \<exists>q \<in> paths_of sel. matches sel (deselect_value sel p vs) q"
begin

lemma path_in_table: "fits sel \<Longrightarrow> p \<in> paths_of sel \<Longrightarrow> p < length (m_selectTable sel)"
  using fits_ok [of sel] by (auto simp: sel_ok_def paths_of_def)

lemma Select_then_IsSelected:
  assumes fits: "fits sel" and mux: "mux_ok ord n A (m_muxRegisters sel) st" and slack: "slack \<noteq> []" and p: "p \<in> paths_of sel"
  shows "\<exists>st'. Selector_Select null slack sel p st = (Inr (), st')
    \<and> mux_change ord n A (m_muxRegisters sel) (select_value sel p (next_bits ord n (m_muxRegisters sel) st)) st st'
    \<and> Selector_IsSelected st' sel p = Inr True"
proof -
  obtain st' where st': "Selector_Select null slack sel p st = (Inr (), st')"
    "mux_change ord n A (m_muxRegisters sel) (select_value sel p (next_bits ord n (m_muxRegisters sel) st)) st st'"
    using Selector_Select_ok [OF fits_ok [OF fits] mux slack path_in_table [OF fits p]] by blast
  then have "Selector_IsSelected st' sel p = Inr True"
    using Selector_queries_eq(1) [OF fits_ok [OF fits], of ord n A st' p] path_in_table [OF fits p] select_matches [OF fits p]
    by (simp add: mux_change_def sel_width_def)
  then show ?thesis using st' by blast
qed

lemma Deselect_then_not_IsSelected:
  assumes fits: "fits sel" and mux: "mux_ok ord n A (m_muxRegisters sel) st" and slack: "slack \<noteq> []" and p: "p \<in> paths_of sel"
    and none: "CanSelectNone sel"
  shows "\<exists>sel' st'. Selector_Deselect null slack p (sel, st) = (Inr (), (sel', st')) \<and> fits sel' \<and> same_selector sel sel'
    \<and> mux_change ord n A (m_muxRegisters sel) (deselect_value sel p (next_bits ord n (m_muxRegisters sel) st)) st st'
    \<and> Selector_IsSelected st' sel' p = Inr False"
proof -
  obtain sel' st' where st': "Selector_Deselect null slack p (sel, st) = (Inr (), (sel', st'))" "same_selector sel sel'"
    "mux_change ord n A (m_muxRegisters sel) (deselect_value sel p (next_bits ord n (m_muxRegisters sel) st)) st st'"
    using Selector_Deselect_ok [OF fits_ok [OF fits] mux slack path_in_table [OF fits p]] by blast
  note same = same_selector_values [OF st'(2)]
  have "sel_ok sel'" "mux_ok ord n A (m_muxRegisters sel') st'"
    using st'(2,3) same(3) by (simp_all add: same_selector_def mux_change_def)
  then have "Selector_IsSelected st' sel' p = Inr False"
    using Selector_queries_eq(1) [of sel' ord n A st' p] path_in_table [OF fits p] deselect_clears [OF fits none p] st'(3) same
    by (simp add: mux_change_def sel_width_def)
  then show ?thesis using st' fits_same [OF fits st'(2)] by blast
qed

lemma Deselect_keeps_selected:
  assumes fits: "fits sel" and mux: "mux_ok ord n A (m_muxRegisters sel) st" and slack: "slack \<noteq> []" and p: "p \<in> paths_of sel"
    and none: "\<not> CanSelectNone sel" and used: "all_bits_used sel"
  shows "\<exists>sel' st'. Selector_Deselect null slack p (sel, st) = (Inr (), (sel', st')) \<and> fits sel'
    \<and> (\<exists>q \<in> paths_of sel. Selector_IsSelected st' sel' q = Inr True)"
proof -
  obtain sel' st' where st': "Selector_Deselect null slack p (sel, st) = (Inr (), (sel', st'))" "same_selector sel sel'"
    "mux_change ord n A (m_muxRegisters sel) (deselect_value sel p (next_bits ord n (m_muxRegisters sel) st)) st st'"
    using Selector_Deselect_ok [OF fits_ok [OF fits] mux slack path_in_table [OF fits p]] by blast
  note same = same_selector_values [OF st'(2)]
  have ok: "sel_ok sel'" "mux_ok ord n A (m_muxRegisters sel') st'"
    using st'(2,3) same(3) by (simp_all add: same_selector_def mux_change_def)
  obtain q where q: "q \<in> paths_of sel" "matches sel (deselect_value sel p (next_bits ord n (m_muxRegisters sel) st)) q"
    using never_idle [OF fits none p _ used, of "next_bits ord n (m_muxRegisters sel) st"] by (auto simp: sel_width_def)
  then have "Selector_IsSelected st' sel' q = Inr True"
    using Selector_queries_eq(1) [OF ok, of q] path_in_table [OF fits q(1)] st'(3) same by (simp add: mux_change_def)
  then show ?thesis using st' q(1) fits_same [OF fits st'(2)] by blast
qed

end

text \<open>One path at a time.\<close>

locale exclusive_coding = path_coding +
  assumes only_one: "fits sel \<Longrightarrow> p \<in> paths_of sel \<Longrightarrow> q \<in> paths_of sel \<Longrightarrow> matches sel vs p \<Longrightarrow> matches sel vs q \<Longrightarrow> p = q"
begin

lemma Select_selects_only:
  assumes fits: "fits sel" and mux: "mux_ok ord n A (m_muxRegisters sel) st" and slack: "slack \<noteq> []" and p: "p \<in> paths_of sel"
  shows "\<exists>st'. Selector_Select null slack sel p st = (Inr (), st') \<and> mux_ok ord n A (m_muxRegisters sel) st'
    \<and> (\<forall>q \<in> paths_of sel. Selector_IsSelected st' sel q = Inr (q = p))"
proof -
  obtain st' where st': "Selector_Select null slack sel p st = (Inr (), st')" "Selector_IsSelected st' sel p = Inr True"
    "mux_change ord n A (m_muxRegisters sel) (select_value sel p (next_bits ord n (m_muxRegisters sel) st)) st st'"
    using Select_then_IsSelected [OF assms] by blast
  then have ok: "mux_ok ord n A (m_muxRegisters sel) st'" by (simp add: mux_change_def)
  have "Selector_IsSelected st' sel q = Inr (q = p)" if "q \<in> paths_of sel" for q
    using Selector_queries_eq(1) [OF fits_ok [OF fits] ok, of q] Selector_queries_eq(1) [OF fits_ok [OF fits] ok, of p] st'(2)
      path_in_table [OF fits that] path_in_table [OF fits p] only_one [OF fits that p] by auto
  then show ?thesis using st' ok by blast
qed

text \<open>The number of active paths is at most one, whatever was sent.\<close>

lemma at_most_one_active:
  assumes fits: "fits sel" and mux: "mux_ok ord n A (m_muxRegisters sel) st"
    and size: "length (m_selectTable sel) = Suc (m_pathsCount sel)"
  shows "\<exists>k \<le> 1. ActiveCount st sel = Inr k"
proof -
  let ?on = "{p \<in> {1..<length (m_selectTable sel)}. matches sel (last_bits ord n (m_muxRegisters sel) st) p}"
  have "p = q" if "p \<in> ?on" "q \<in> ?on" for p q
  proof -
    have "p \<in> paths_of sel" "q \<in> paths_of sel" using that size by (simp_all add: paths_of_def less_Suc_eq_le)
    then show ?thesis using only_one [OF fits, of p q "last_bits ord n (m_muxRegisters sel) st"] that by simp
  qed
  moreover have "finite ?on" by simp
  ultimately have "card ?on \<le> Suc 0" using card_le_Suc0_iff_eq [of ?on] by blast
  then have "card ?on \<le> 1" by (simp only: One_nat_def)
  then show ?thesis using ActiveCount_eq [OF fits_ok [OF fits] mux] by blast
qed

end

text \<open>Paths switched independently.\<close>

locale independent_coding = path_coding +
  assumes select_others: "fits sel \<Longrightarrow> p \<in> paths_of sel \<Longrightarrow> q \<in> paths_of sel \<Longrightarrow> q \<noteq> p \<Longrightarrow> length vs = sel_width sel
      \<Longrightarrow> matches sel (select_value sel p vs) q = matches sel vs q"
    and deselect_others: "fits sel \<Longrightarrow> CanSelectNone sel \<Longrightarrow> p \<in> paths_of sel \<Longrightarrow> q \<in> paths_of sel \<Longrightarrow> q \<noteq> p
      \<Longrightarrow> length vs = sel_width sel \<Longrightarrow> matches sel (deselect_value sel p vs) q = matches sel vs q"
begin

lemma Select_keeps_others:
  assumes fits: "fits sel" and mux: "mux_ok ord n A (m_muxRegisters sel) st" and slack: "slack \<noteq> []" and p: "p \<in> paths_of sel"
  shows "\<exists>st'. Selector_Select null slack sel p st = (Inr (), st') \<and> mux_ok ord n A (m_muxRegisters sel) st'
    \<and> (\<forall>q \<in> paths_of sel. Selector_IsSelected st' sel q = (if q = p then Inr True else Selector_IsSelected st sel q))"
proof -
  obtain st' where st': "Selector_Select null slack sel p st = (Inr (), st')" "Selector_IsSelected st' sel p = Inr True"
    "mux_change ord n A (m_muxRegisters sel) (select_value sel p (next_bits ord n (m_muxRegisters sel) st)) st st'"
    using Select_then_IsSelected [OF assms] by blast
  then have ok: "mux_ok ord n A (m_muxRegisters sel) st'" by (simp add: mux_change_def)
  have "Selector_IsSelected st' sel q = Selector_IsSelected st sel q" if "q \<in> paths_of sel" "q \<noteq> p" for q
    using Selector_queries_eq(1) [OF fits_ok [OF fits] ok, of q] Selector_queries_eq(1) [OF fits_ok [OF fits] mux, of q]
      path_in_table [OF fits that(1)] select_others [OF fits p that] st'(3) by (simp add: mux_change_def sel_width_def)
  then show ?thesis using st' ok by (intro exI [of _ st']) auto
qed

lemma Deselect_keeps_others:
  assumes fits: "fits sel" and mux: "mux_ok ord n A (m_muxRegisters sel) st" and slack: "slack \<noteq> []" and p: "p \<in> paths_of sel"
    and none: "CanSelectNone sel"
  shows "\<exists>sel' st'. Selector_Deselect null slack p (sel, st) = (Inr (), (sel', st')) \<and> fits sel' \<and> same_selector sel sel'
    \<and> mux_ok ord n A (m_muxRegisters sel') st'
    \<and> (\<forall>q \<in> paths_of sel. Selector_IsSelected st' sel' q = (if q = p then Inr False else Selector_IsSelected st sel q))"
proof -
  obtain sel' st' where st': "Selector_Deselect null slack p (sel, st) = (Inr (), (sel', st'))" "fits sel'" "same_selector sel sel'"
    "mux_change ord n A (m_muxRegisters sel) (deselect_value sel p (next_bits ord n (m_muxRegisters sel) st)) st st'"
    "Selector_IsSelected st' sel' p = Inr False"
    using Deselect_then_not_IsSelected [OF assms] by blast
  note same = same_selector_values [OF st'(3)]
  have ok: "mux_ok ord n A (m_muxRegisters sel') st'" using st'(4) same(3) by (simp add: mux_change_def)
  have "Selector_IsSelected st' sel' q = Selector_IsSelected st sel q" if "q \<in> paths_of sel" "q \<noteq> p" for q
    using Selector_queries_eq(1) [OF fits_ok [OF st'(2)] ok, of q] Selector_queries_eq(1) [OF fits_ok [OF fits] mux, of q]
      path_in_table [OF fits that(1)] deselect_others [OF fits none p that] st'(4) same by (simp add: mux_change_def sel_width_def)
  then show ?thesis using st' ok by (intro exI [of _ sel'] exI [of _ st']) auto
qed

end

section \<open>The built selectors obey the contracts\<close>

definition fits_by :: "(PathSelector \<Rightarrow> bool) \<Rightarrow> PathSelector \<Rightarrow> bool" where
  "fits_by built sel \<longleftrightarrow> (\<exists>sel0. built sel0 \<and> same_selector sel0 sel)"

lemma same_selector_trans:
  assumes ab: "same_selector a b" and bc: "same_selector b c"
  shows "same_selector a c"
proof -
  have "c = a\<lparr>m_deselectTable := m_deselectTable c\<rparr>"
  proof -
    have "b = a\<lparr>m_deselectTable := m_deselectTable b\<rparr>" "c = b\<lparr>m_deselectTable := m_deselectTable c\<rparr>"
      using ab bc by (simp_all add: same_selector_def)
    then show ?thesis by (cases a; cases b; cases c) simp
  qed
  moreover have "m_selectTable b = m_selectTable a" by (rule same_selector_values(4) [OF ab])
  ultimately show ?thesis using ab bc by (simp add: same_selector_def)
qed

lemma codedD:
  assumes "coded sel neg rows" "p \<le> m_pathsCount sel"
  shows "select_row sel p = signed_row neg (rows ! p)" "p < length (m_selectTable sel)"
  using assms by (simp_all add: coded_def select_row_def)

lemma idle_deselectD:
  assumes "idle_deselect sel neg" "p \<le> m_pathsCount sel"
  shows "deselect_row sel p = signed_row neg (replicate (sel_width sel) False)"
  using assms nth_map [of p "replicate (Suc (m_pathsCount sel)) (replicate (sel_width sel) False)" "\<lambda>bs. bv_make (signed_row neg bs) Fixed"]
  by (simp add: idle_deselect_def deselect_row_def del: replicate.simps map_replicate)

lemma rows_ok_map: "(\<forall>bs \<in> set rows. length bs = L) \<Longrightarrow> rows_ok L (map (\<lambda>bs. bv_make (signed_row neg bs) Fixed) rows)"
  by (auto simp: rows_ok_def)

lemma binary_rows_nth:
  "binary_rows L none paths ! 0 = nat_bits L 0"
  "0 < p \<Longrightarrow> p \<le> paths \<Longrightarrow> binary_rows L none paths ! p = nat_bits L (if none then p else p - 1)"
  by (auto simp: binary_rows_def nat_bits_0 nth_Cons' simp del: upt_Suc)

lemma hot_rows_nth:
  "hot_rows L rv paths ! 0 = replicate L False"
  "0 < p \<Longrightarrow> p \<le> paths \<Longrightarrow> hot_rows L rv paths ! p = hot_bits L rv p"
  by (auto simp: hot_rows_def nth_Cons' simp del: upt_Suc)

lemma plain_sel_ok:
  assumes "coded sel neg rows" "idle_deselect sel neg" "m_kind sel \<noteq> N_Hot"
  shows "sel_ok sel"
  using assms rows_ok_map [of rows "sel_width sel" neg]
    rows_ok_map [of "replicate (Suc (m_pathsCount sel)) (replicate (sel_width sel) False)" "sel_width sel" neg]
  by (simp add: sel_ok_def coded_def idle_deselect_def sel_width_def del: replicate.simps map_replicate)

text \<open>Selectors that store a whole row: rows differ, and row 0 is idle or the first path.\<close>

definition row_coded :: "PathSelector \<Rightarrow> bool" where
  "row_coded sel \<longleftrightarrow> m_kind sel \<in> {Binary, One_Hot} \<and> sel_ok sel
    \<and> (\<forall>p \<in> paths_of sel. \<forall>q \<in> paths_of sel. select_row sel p = select_row sel q \<longrightarrow> p = q)
    \<and> (CanSelectNone sel \<longrightarrow> (\<forall>p \<in> paths_of sel. select_row sel p \<noteq> select_row sel 0))
    \<and> (\<forall>p \<in> paths_of sel. deselect_row sel p = select_row sel 0)"

lemma binary_row_coded:
  assumes "binary_built sel"
  shows "row_coded sel"
proof -
  obtain neg where c: "coded sel neg (binary_rows (sel_width sel) (CanSelectNone sel) (m_pathsCount sel))" "idle_deselect sel neg"
    and k: "m_kind sel = Binary" and f: "binary_fits (sel_width sel) (CanSelectNone sel) (m_pathsCount sel)"
    using assms by (auto simp: binary_built_def)
  have row: "select_row sel p = signed_row neg (nat_bits (sel_width sel) (if CanSelectNone sel then p else p - 1))"
    if "p \<in> paths_of sel" for p
    using codedD(1) [OF c(1)] binary_rows_nth(2) that by (simp add: paths_of_def)
  have row0: "select_row sel 0 = signed_row neg (nat_bits (sel_width sel) 0)"
    using codedD(1) [OF c(1)] binary_rows_nth(1) by simp
  have small: "(if CanSelectNone sel then p else p - 1) < 2 ^ sel_width sel" if "p \<in> paths_of sel" for p
    using binary_fits_code [OF f] that by (simp add: paths_of_def)
  have "p = q" if "p \<in> paths_of sel" "q \<in> paths_of sel" "select_row sel p = select_row sel q" for p q
    using that row small nat_bits_inject by (auto simp: paths_of_def split: if_splits)
  moreover have "select_row sel p \<noteq> select_row sel 0" if "CanSelectNone sel" "p \<in> paths_of sel" for p
    using that row row0 small [of p] nat_bits_inject [of p "sel_width sel" 0] by (auto simp: paths_of_def)
  ultimately show ?thesis
    using k plain_sel_ok [OF c] idle_deselectD [OF c(2)] row0 by (auto simp: row_coded_def paths_of_def nat_bits_0)
qed

lemma one_hot_row_coded:
  assumes "one_hot_built sel"
  shows "row_coded sel"
proof -
  obtain neg rv where c: "coded sel neg (hot_rows (sel_width sel) rv (m_pathsCount sel))" "idle_deselect sel neg"
    and k: "m_kind sel = One_Hot" and f: "m_pathsCount sel \<le> sel_width sel"
    using assms by (auto simp: one_hot_built_def)
  have row: "select_row sel p = signed_row neg (hot_bits (sel_width sel) rv p)" if "p \<in> paths_of sel" for p
    using codedD(1) [OF c(1)] hot_rows_nth(2) that by (simp add: paths_of_def)
  have row0: "select_row sel 0 = signed_row neg (replicate (sel_width sel) False)"
    using codedD(1) [OF c(1)] hot_rows_nth(1) by simp
  have "p = q" if "p \<in> paths_of sel" "q \<in> paths_of sel" "select_row sel p = select_row sel q" for p q
    using that row hot_bits_inject [of p "sel_width sel" q rv] f by (auto simp: paths_of_def)
  moreover have "select_row sel p \<noteq> select_row sel 0" if "p \<in> paths_of sel" for p
    using that row row0 hot_bits_not_zero [of p "sel_width sel" rv] f by (auto simp: paths_of_def)
  ultimately show ?thesis
    using k plain_sel_ok [OF c] idle_deselectD [OF c(2)] row0 by (auto simp: row_coded_def paths_of_def)
qed

lemma row_coded_contract:
  assumes built: "row_coded sel0" and same: "same_selector sel0 sel"
  shows "sel_ok sel"
    and "p \<in> paths_of sel \<Longrightarrow> matches sel (select_value sel p vs) p"
    and "CanSelectNone sel \<Longrightarrow> p \<in> paths_of sel \<Longrightarrow> \<not> matches sel (select_value sel 0 vs) p"
    and "CanSelectNone sel \<Longrightarrow> p \<in> paths_of sel \<Longrightarrow> \<not> matches sel (deselect_value sel p vs) p"
    and "\<not> CanSelectNone sel \<Longrightarrow> p \<in> paths_of sel \<Longrightarrow> \<exists>q \<in> paths_of sel. matches sel (deselect_value sel p vs) q"
    and "p \<in> paths_of sel \<Longrightarrow> q \<in> paths_of sel \<Longrightarrow> matches sel vs p \<Longrightarrow> matches sel vs q \<Longrightarrow> p = q"
proof -
  note s = same_selector_values [OF same]
  have paths: "paths_of sel = paths_of sel0" using s(6) by (simp add: paths_of_def)
  have "m_pathsCount sel0 < length (m_selectTable sel0)" using built by (simp add: row_coded_def sel_ok_def)
  then have in_table: "p < length (m_selectTable sel0)" if "p \<in> paths_of sel" for p
    using that unfolding paths by (simp add: paths_of_def)
  have dv: "deselect_value sel p vs = deselect_value sel0 p vs" if "p \<in> paths_of sel" for p vs
    using same in_table [OF that] by (simp add: same_selector_def)
  have kind: "m_kind sel0 = Binary \<or> m_kind sel0 = One_Hot"
    and idle: "p \<in> paths_of sel \<Longrightarrow> deselect_row sel0 p = select_row sel0 0" for p
    using built paths by (simp_all add: row_coded_def)
  have m: "matches sel vs p \<longleftrightarrow> vs = select_row sel0 p" for vs p
    unfolding s(1) using kind by (auto simp: matches_def)
  have v: "select_value sel p vs = select_row sel0 p" if "p \<in> paths_of sel" for p vs
    unfolding s(2) using kind that by (auto simp: select_value_def paths_of_def)
  have v0: "select_value sel 0 vs = select_row sel0 0" if "CanSelectNone sel" for vs
    unfolding s(2) using kind that s(7) by (auto simp: select_value_def)
  have d: "deselect_value sel p vs = (if CanSelectNone sel then select_row sel0 0 else select_row sel0 1)"
    if "p \<in> paths_of sel" for p vs
    unfolding dv [OF that] using kind idle [OF that] s(7) by (auto simp: deselect_value_def)
  have differ: "p \<in> paths_of sel \<Longrightarrow> CanSelectNone sel \<Longrightarrow> select_row sel0 0 \<noteq> select_row sel0 p" for p
    using built paths s(7) by (auto simp: row_coded_def)
  show "sel_ok sel" using same by (simp add: same_selector_def)
  show "p \<in> paths_of sel \<Longrightarrow> matches sel (select_value sel p vs) p" using v m by simp
  show "CanSelectNone sel \<Longrightarrow> p \<in> paths_of sel \<Longrightarrow> \<not> matches sel (select_value sel 0 vs) p"
    using v0 m differ by simp
  show "CanSelectNone sel \<Longrightarrow> p \<in> paths_of sel \<Longrightarrow> \<not> matches sel (deselect_value sel p vs) p"
    using d m differ by simp
  show "\<not> CanSelectNone sel \<Longrightarrow> p \<in> paths_of sel \<Longrightarrow> \<exists>q \<in> paths_of sel. matches sel (deselect_value sel p vs) q"
    using d m by (intro bexI [of _ 1]) (auto simp: paths_of_def)
  show "p \<in> paths_of sel \<Longrightarrow> q \<in> paths_of sel \<Longrightarrow> matches sel vs p \<Longrightarrow> matches sel vs q \<Longrightarrow> p = q"
    using m built paths by (simp add: row_coded_def)
qed

lemma exclusive_by_rows:
  assumes rows: "\<And>sel. built sel \<Longrightarrow> row_coded sel"
  shows "exclusive_coding (fits_by built)"
proof
  fix sel sel' :: PathSelector and p q :: nat and vs :: "bool list"
  assume fits: "fits_by built sel"
  then obtain sel0 where b: "built sel0" "same_selector sel0 sel" by (auto simp: fits_by_def)
  note c = row_coded_contract [OF rows [OF b(1)] b(2)]
  show "sel_ok sel" by (rule c(1))
  show "same_selector sel sel' \<Longrightarrow> fits_by built sel'"
    using b same_selector_trans unfolding fits_by_def by blast
  show "p \<in> paths_of sel \<Longrightarrow> matches sel (select_value sel p vs) p" by (rule c(2))
  show "CanSelectNone sel \<Longrightarrow> p \<in> paths_of sel \<Longrightarrow> \<not> matches sel (select_value sel 0 vs) p" by (rule c(3))
  show "CanSelectNone sel \<Longrightarrow> p \<in> paths_of sel \<Longrightarrow> \<not> matches sel (deselect_value sel p vs) p" by (rule c(4))
  show "\<not> CanSelectNone sel \<Longrightarrow> p \<in> paths_of sel \<Longrightarrow> \<exists>q \<in> paths_of sel. matches sel (deselect_value sel p vs) q" by (rule c(5))
  show "p \<in> paths_of sel \<Longrightarrow> q \<in> paths_of sel \<Longrightarrow> matches sel vs p \<Longrightarrow> matches sel vs q \<Longrightarrow> p = q" by (rule c(6))
qed

interpretation binary: exclusive_coding "fits_by binary_built"
  by (rule exclusive_by_rows) (rule binary_row_coded)

interpretation one_hot: exclusive_coding "fits_by one_hot_built"
  by (rule exclusive_by_rows) (rule one_hot_row_coded)

text \<open>Selectors that store one bit per path.\<close>

definition lit :: "bool \<Rightarrow> bool list \<Rightarrow> nat \<Rightarrow> bool" where
  "lit neg vs i = (vs ! i \<noteq> neg)"

definition hot_data :: "PathSelector \<Rightarrow> bool \<Rightarrow> bool \<Rightarrow> bool" where
  "hot_data sel neg rv \<longleftrightarrow> m_pathsCount sel \<le> sel_width sel
    \<and> (m_kind sel = N_Hot \<or> m_kind sel = Brocade \<and> CanSelectNone sel \<and> \<not> neg) \<and> m_invertedBits sel = neg
    \<and> coded sel neg (hot_rows (sel_width sel) rv (m_pathsCount sel))
    \<and> m_deselectTable sel = map (\<lambda>bs. bv_make (signed_row (\<not> neg) bs) Fixed) (hot_rows (sel_width sel) rv (m_pathsCount sel))"

lemma n_hot_built_data: "n_hot_built sel \<longleftrightarrow> (\<exists>neg rv. hot_data sel neg rv)"
  by (auto simp: n_hot_built_def hot_data_def)

lemma mask_bits:
  assumes i: "hot_index L rv p < L" and vs: "length vs = L"
  shows "(map2 (\<and>) vs (hot_bits L rv p) = hot_bits L rv p) \<longleftrightarrow> vs ! hot_index L rv p"
    and "(map2 (\<or>) vs (map Not (hot_bits L rv p)) = map Not (hot_bits L rv p)) \<longleftrightarrow> \<not> vs ! hot_index L rv p"
  using assms by (auto simp: list_eq_iff_nth_eq hot_bits_nth)

lemma switch_bits:
  assumes "length vs = L" "j < L"
  shows "map2 (\<or>) vs (hot_bits L rv p) ! j = (if j = hot_index L rv p then True else vs ! j)"
    and "map2 (\<and>) vs (map Not (hot_bits L rv p)) ! j = (if j = hot_index L rv p then False else vs ! j)"
  using assms by (auto simp: hot_bits_nth)

lemma hot_index_paths:
  assumes "hot_data sel neg rv" "p \<in> paths_of sel"
  shows "hot_index (sel_width sel) rv p < sel_width sel"
    and "q \<in> paths_of sel \<Longrightarrow> hot_index (sel_width sel) rv q = hot_index (sel_width sel) rv p \<longleftrightarrow> q = p"
  using assms hot_index_less [of p "sel_width sel" rv] hot_index_inject [of q "sel_width sel" p rv]
  by (auto simp: hot_data_def paths_of_def)

lemma hot_rows_of:
  assumes h: "hot_data sel neg rv"
  shows "select_row sel 0 = replicate (sel_width sel) neg"
    and "p \<in> paths_of sel \<Longrightarrow> select_row sel p = signed_row neg (hot_bits (sel_width sel) rv p)"
    and "p \<in> paths_of sel \<Longrightarrow> deselect_row sel p = signed_row (\<not> neg) (hot_bits (sel_width sel) rv p)"
proof -
  from h have c: "coded sel neg (hot_rows (sel_width sel) rv (m_pathsCount sel))"
    and d: "m_deselectTable sel = map (\<lambda>bs. bv_make (signed_row (\<not> neg) bs) Fixed) (hot_rows (sel_width sel) rv (m_pathsCount sel))"
    by (simp_all add: hot_data_def)
  show "select_row sel 0 = replicate (sel_width sel) neg"
    using codedD(1) [OF c, of 0] by (simp add: hot_rows_nth signed_row_def)
  show "p \<in> paths_of sel \<Longrightarrow> select_row sel p = signed_row neg (hot_bits (sel_width sel) rv p)"
    using codedD(1) [OF c, of p] by (simp add: hot_rows_nth paths_of_def)
  show "p \<in> paths_of sel \<Longrightarrow> deselect_row sel p = signed_row (\<not> neg) (hot_bits (sel_width sel) rv p)"
    by (simp add: deselect_row_def d hot_rows_nth paths_of_def)
qed

lemma hot_sel_ok:
  assumes h: "hot_data sel neg rv"
  shows "sel_ok sel"
proof -
  from h have c: "coded sel neg (hot_rows (sel_width sel) rv (m_pathsCount sel))"
    and d: "m_deselectTable sel = map (\<lambda>bs. bv_make (signed_row (\<not> neg) bs) Fixed) (hot_rows (sel_width sel) rv (m_pathsCount sel))"
    by (simp_all add: hot_data_def)
  have one: "1 \<in> paths_of sel" using c by (simp add: coded_def paths_of_def Suc_le_eq)
  have i: "hot_index (sel_width sel) rv 1 < sel_width sel" by (rule hot_index_paths(1) [OF h one])
  have "select_row sel 1 ! hot_index (sel_width sel) rv 1 \<noteq> select_row sel 0 ! hot_index (sel_width sel) rv 1"
    unfolding hot_rows_of(1) [OF h] hot_rows_of(2) [OF h one] using i by (simp add: signed_row_def hot_bits_nth)
  moreover have "rows_ok (sel_width sel) (m_selectTable sel)" "rows_ok (sel_width sel) (m_deselectTable sel)"
    using c unfolding d by (simp_all add: coded_def rows_ok_map)
  ultimately show ?thesis using c d unfolding sel_ok_def coded_def sel_width_def [symmetric] by auto
qed

lemma hot_matches:
  assumes h: "hot_data sel neg rv" and p: "p \<in> paths_of sel" and vs: "length vs = sel_width sel"
  shows "matches sel vs p \<longleftrightarrow> lit neg vs (hot_index (sel_width sel) rv p)"
  using h mask_bits [OF hot_index_paths(1) [OF h p] vs] hot_rows_of(2) [OF h p]
  by (auto simp: hot_data_def matches_def masked_by_def lit_def signed_row_def)

lemma hot_select:
  assumes h: "hot_data sel neg rv" and p: "p \<in> paths_of sel" and vs: "length vs = sel_width sel"
  shows "length (select_value sel p vs) = sel_width sel"
    and "j < sel_width sel \<Longrightarrow> select_value sel p vs ! j = (if j = hot_index (sel_width sel) rv p then \<not> neg else vs ! j)"
proof -
  have "select_value sel p vs = (if neg then map2 (\<and>) vs (map Not (hot_bits (sel_width sel) rv p))
      else map2 (\<or>) vs (hot_bits (sel_width sel) rv p))"
    using h p hot_rows_of(2) [OF h p] by (auto simp: hot_data_def select_value_def signed_row_def paths_of_def)
  then show "length (select_value sel p vs) = sel_width sel"
    and "j < sel_width sel \<Longrightarrow> select_value sel p vs ! j = (if j = hot_index (sel_width sel) rv p then \<not> neg else vs ! j)"
    using vs switch_bits [OF vs, of j rv p] by (simp_all split: if_splits)
qed

lemma hot_deselect:
  assumes h: "hot_data sel neg rv" and p: "p \<in> paths_of sel" and vs: "length vs = sel_width sel"
  obtains ws where "length ws = sel_width sel"
    and "\<And>j. j < sel_width sel \<Longrightarrow> ws ! j = (if j = hot_index (sel_width sel) rv p then neg else vs ! j)"
    and "deselect_value sel p vs = (if \<not> CanSelectNone sel \<and> ws = select_row sel 0 then select_row sel 1 else ws)"
proof -
  let ?ws = "if neg then map2 (\<or>) vs (hot_bits (sel_width sel) rv p)
      else map2 (\<and>) vs (map Not (hot_bits (sel_width sel) rv p))"
  have "deselect_value sel p vs = (if \<not> CanSelectNone sel \<and> ?ws = select_row sel 0 then select_row sel 1 else ?ws)"
    using h p hot_rows_of(3) [OF h p] by (auto simp: hot_data_def deselect_value_def signed_row_def Let_def)
  moreover have "length ?ws = sel_width sel" using vs by simp
  moreover have "?ws ! j = (if j = hot_index (sel_width sel) rv p then neg else vs ! j)" if "j < sel_width sel" for j
    using vs that by (auto simp: hot_bits_nth)
  ultimately show ?thesis by (rule that [rotated 2])
qed

lemma hot_never_idle:
  assumes h: "hot_data sel neg rv" and p: "p \<in> paths_of sel" and vs: "length vs = sel_width sel"
    and none: "\<not> CanSelectNone sel" and used: "all_bits_used sel"
  shows "\<exists>q \<in> paths_of sel. matches sel (deselect_value sel p vs) q"
proof -
  obtain ws where ws: "length ws = sel_width sel"
    "deselect_value sel p vs = (if \<not> CanSelectNone sel \<and> ws = select_row sel 0 then select_row sel 1 else ws)"
    using h p vs by (rule hot_deselect)
  have one: "1 \<in> paths_of sel" using p by (simp add: paths_of_def)
  show ?thesis
  proof (cases "ws = select_row sel 0")
    case True
    have "length (select_row sel 1) = sel_width sel" using hot_rows_of(2) [OF h one] by simp
    then have "matches sel (select_row sel 1) 1"
      using hot_matches [OF h one] hot_rows_of(2) [OF h one] hot_index_paths(1) [OF h one]
      by (simp add: lit_def signed_row_def hot_bits_nth)
    then show ?thesis using True ws(2) none one by auto
  next
    case False
    then obtain j where j: "j < sel_width sel" "ws ! j \<noteq> neg"
      using ws(1) unfolding hot_rows_of(1) [OF h] by (auto simp: list_eq_iff_nth_eq)
    let ?q = "if rv then sel_width sel - j else Suc j"
    have "m_pathsCount sel = sel_width sel" using h used by (auto simp: hot_data_def all_bits_used_def)
    then have q: "?q \<in> paths_of sel" "hot_index (sel_width sel) rv ?q = j"
      using j(1) by (auto simp: paths_of_def hot_index_def)
    then have "matches sel ws ?q" using hot_matches [OF h q(1) ws(1)] j(2) by (simp add: lit_def)
    then show ?thesis using False ws(2) q(1) by auto
  qed
qed

lemma hot_same:
  assumes h: "hot_data sel0 neg rv" and same: "same_selector sel0 sel"
  shows "paths_of sel = paths_of sel0" "sel_width sel = sel_width sel0" "CanSelectNone sel = CanSelectNone sel0"
    "matches sel = matches sel0" "select_value sel = select_value sel0" "all_bits_used sel = all_bits_used sel0"
    "p \<in> paths_of sel0 \<Longrightarrow> deselect_value sel p vs = deselect_value sel0 p vs"
proof -
  note s = same_selector_values [OF same]
  show "paths_of sel = paths_of sel0" "sel_width sel = sel_width sel0" "CanSelectNone sel = CanSelectNone sel0"
    "matches sel = matches sel0" "select_value sel = select_value sel0" "all_bits_used sel = all_bits_used sel0"
    using s by (simp_all add: paths_of_def sel_width_def all_bits_used_def)
  assume "p \<in> paths_of sel0"
  then have "p < length (m_selectTable sel0)" using h by (simp add: hot_data_def coded_def paths_of_def)
  then show "deselect_value sel p vs = deselect_value sel0 p vs" using same by (simp add: same_selector_def)
qed

interpretation n_hot: independent_coding "fits_by n_hot_built"
proof
  fix sel sel' :: PathSelector and p q :: nat and vs :: "bool list"
  assume "fits_by n_hot_built sel"
  then obtain sel0 where b: "n_hot_built sel0" "same_selector sel0 sel"
    by (auto simp: fits_by_def)
  then obtain neg rv where h: "hot_data sel0 neg rv" by (auto simp: n_hot_built_data)
  note s = hot_same [OF h b(2)]
  let ?L = "sel_width sel0" and ?i = "\<lambda>p. hot_index (sel_width sel0) rv p"
  show "sel_ok sel" using b(2) by (simp add: same_selector_def)
  show "same_selector sel sel' \<Longrightarrow> fits_by n_hot_built sel'"
    using b same_selector_trans unfolding fits_by_def by blast
  have m: "matches sel vs p \<longleftrightarrow> lit neg vs (?i p)" if "p \<in> paths_of sel" "length vs = sel_width sel" for p vs
    using hot_matches [OF h] that unfolding s by simp
  show "matches sel (select_value sel p vs) p" if "p \<in> paths_of sel" "length vs = sel_width sel"
    using hot_matches [OF h] hot_select [OF h] hot_index_paths(1) [OF h] that unfolding s by (simp add: lit_def)
  show "\<not> matches sel (select_value sel 0 vs) p" if "CanSelectNone sel" "p \<in> paths_of sel"
    using hot_matches [OF h, of p "select_row sel0 0"] hot_rows_of(1) [OF h] hot_index_paths(1) [OF h, of p] h that unfolding s
    by (auto simp: lit_def select_value_def hot_data_def)
  show "\<not> matches sel (deselect_value sel p vs) p" if c: "CanSelectNone sel" "p \<in> paths_of sel" "length vs = sel_width sel"
  proof -
    obtain ws where ws: "length ws = ?L" "\<And>j. j < ?L \<Longrightarrow> ws ! j = (if j = ?i p then neg else vs ! j)" "deselect_value sel0 p vs = ws"
      using hot_deselect [OF h, of p vs] c unfolding s by metis
    then show ?thesis
      using hot_matches [OF h, of p ws] hot_index_paths(1) [OF h, of p] c unfolding s by (simp add: s lit_def)
  qed
  show "\<exists>q \<in> paths_of sel. matches sel (deselect_value sel p vs) q"
    if "\<not> CanSelectNone sel" "p \<in> paths_of sel" "length vs = sel_width sel" "all_bits_used sel"
    using hot_never_idle [OF h] that unfolding s by (simp add: s)
  show "matches sel (select_value sel p vs) q = matches sel vs q"
    if "p \<in> paths_of sel" "q \<in> paths_of sel" "q \<noteq> p" "length vs = sel_width sel"
    using hot_matches [OF h, of q] hot_select [OF h, of p vs] hot_index_paths [OF h] that unfolding s by (simp add: lit_def)
  show "matches sel (deselect_value sel p vs) q = matches sel vs q"
    if c: "CanSelectNone sel" "p \<in> paths_of sel" "q \<in> paths_of sel" "q \<noteq> p" "length vs = sel_width sel"
  proof -
    obtain ws where ws: "length ws = ?L" "\<And>j. j < ?L \<Longrightarrow> ws ! j = (if j = ?i p then neg else vs ! j)" "deselect_value sel0 p vs = ws"
      using hot_deselect [OF h, of p vs] c unfolding s by metis
    then show ?thesis
      using hot_matches [OF h, of q] hot_index_paths [OF h] c unfolding s by (simp add: s lit_def)
  qed
qed
end
