(* ===== verification/Linkers.thy ===== *)
theory Linkers
  imports Selector_Codes
begin

text \<open>
  The state visitors work on, and the class \<^verbatim>\<open>Linker\<close> (\<^verbatim>\<open>Linker.hpp/.cpp\<close>). Nodes are shared
  through pointers: a world maps addresses to registers, to the data of parent nodes (the members
  only linkers have are part of the same record) and to path selectors. The shape of the tree is
  not part of the world: visitors do not change it.
\<close>

section \<open>The world\<close>

record ParentNode = SystemModelNode +
  m_ignoreForNodePath :: bool
  m_pathSelector :: "nat option"
  m_KeepOpen :: bool

record World =
  registers :: store
  parents :: "nat \<Rightarrow> ParentNode option"
  selectors :: "nat \<Rightarrow> PathSelector option"

definition on_registers :: "(store, 'a) act \<Rightarrow> (World, 'a) act" where
  "on_registers m w = (case m (registers w) of (res, st) \<Rightarrow> (res, w\<lparr>registers := st\<rparr>))"

definition at_parent :: "nat \<Rightarrow> (ParentNode \<Rightarrow> ParentNode) \<Rightarrow> (World, unit) act" where
  "at_parent a f w = (case parents w a of None \<Rightarrow> (Inl UndefinedBehaviour, w)
    | Some nd \<Rightarrow> (Inr (), w\<lparr>parents := (parents w)(a \<mapsto> f nd)\<rparr>))"

definition parent_at :: "World \<Rightarrow> nat \<Rightarrow> ParentNode result" where
  "parent_at w a = (case parents w a of None \<Rightarrow> Inl UndefinedBehaviour | Some nd \<Rightarrow> Inr nd)"

definition selector_of :: "World \<Rightarrow> nat \<Rightarrow> (nat \<times> PathSelector) result" where
  "selector_of w l = rbind (parent_at w l) (\<lambda>nd. case m_pathSelector nd of None \<Rightarrow> Inl UndefinedBehaviour
    | Some a \<Rightarrow> (case selectors w a of None \<Rightarrow> Inl UndefinedBehaviour | Some sel \<Rightarrow> Inr (a, sel)))"

definition on_selector :: "nat \<Rightarrow> PathSelector \<Rightarrow> (PathSelector \<times> store, 'a) act \<Rightarrow> (World, 'a) act" where
  "on_selector a sel m w = (case m (sel, registers w) of (res, (sel', st)) \<Rightarrow>
    (res, w\<lparr>registers := st, selectors := (selectors w)(a \<mapsto> sel')\<rparr>))"

section \<open>Linkers\<close>

definition Linker_create :: "nat \<Rightarrow> string \<Rightarrow> nat option \<Rightarrow> ParentNode result" where
  "Linker_create ident name pathSelector =
    (let nd = \<lparr>m_identifier = ident, m_name = MakeNodeName name, m_pendingCount = 0, m_priority = 0, m_iRunloopCount = 0,
               m_ignoreForNodePath = False, m_pathSelector = pathSelector, m_KeepOpen = False\<rparr>
     in CheckParameterCondition (pathSelector \<noteq> None) (Inr (nd\<lparr>m_ignoreForNodePath := True\<rparr>)))"

definition KeepOpen :: "ParentNode \<Rightarrow> bool" where
  "KeepOpen nd = m_KeepOpen nd"

definition SetKeepOpen :: "bool \<Rightarrow> ParentNode \<Rightarrow> ParentNode" where
  "SetKeepOpen b nd = nd\<lparr>m_KeepOpen := b\<rparr>"

definition ReplacePathSelector :: "nat option \<Rightarrow> ParentNode \<Rightarrow> ParentNode" where
  "ReplacePathSelector new_pathSelector nd = nd\<lparr>m_pathSelector := new_pathSelector\<rparr>"

definition Linker_SelectablePaths :: "World \<Rightarrow> nat \<Rightarrow> nat result" where
  "Linker_SelectablePaths w l = rbind (selector_of w l) (\<lambda>(_, sel). Inr (SelectablePaths sel))"

definition Linker_CheckPathIdentifier :: "World \<Rightarrow> nat \<Rightarrow> nat \<Rightarrow> unit result" where
  "Linker_CheckPathIdentifier w l pathIdentifier =
    rbind (selector_of w l) (\<lambda>(_, sel). if pathIdentifier > SelectablePaths sel then Inl OutOfRange else Inr ())"

definition Linker_IsActive :: "World \<Rightarrow> nat \<Rightarrow> nat \<Rightarrow> bool result" where
  "Linker_IsActive w l pathIdentifier =
    rbind (Linker_CheckPathIdentifier w l pathIdentifier) (\<lambda>_.
    rbind (selector_of w l) (\<lambda>(_, sel). Selector_IsActive (registers w) sel pathIdentifier))"

definition Linker_IsSelected :: "World \<Rightarrow> nat \<Rightarrow> nat \<Rightarrow> bool result" where
  "Linker_IsSelected w l pathIdentifier =
    rbind (Linker_CheckPathIdentifier w l pathIdentifier) (\<lambda>_.
    rbind (selector_of w l) (\<lambda>(_, sel). Selector_IsSelected (registers w) sel pathIdentifier))"

definition Linker_IsSelectedAndActive :: "World \<Rightarrow> nat \<Rightarrow> nat \<Rightarrow> bool result" where
  "Linker_IsSelectedAndActive w l pathIdentifier =
    rbind (selector_of w l) (\<lambda>(_, sel). Selector_IsSelectedAndActive (registers w) sel pathIdentifier)"

definition Linker_Deselect :: "bool \<Rightarrow> byte list \<Rightarrow> nat \<Rightarrow> nat \<Rightarrow> (World, unit) act" where
  "Linker_Deselect null slack l pathIdentifier =
    act_bind (act_read (\<lambda>w. Linker_CheckPathIdentifier w l pathIdentifier)) (\<lambda>_.
    act_bind (act_read (\<lambda>w. selector_of w l)) (\<lambda>(a, sel).
    on_selector a sel (Selector_Deselect null slack pathIdentifier)))"

fun any_pending :: "store \<Rightarrow> RegisterSlice list \<Rightarrow> bool result" where
  "any_pending st [] = Inr False"
| "any_pending st (sliceReg # rest) =
    rbind (deref st (slice_reg sliceReg)) (\<lambda>r. if Register_IsPending r then Inr True else any_pending st rest)"

definition Linker_Select :: "bool \<Rightarrow> byte list \<Rightarrow> nat \<Rightarrow> nat \<Rightarrow> (World, unit) act" where
  "Linker_Select null slack l pathIdentifier =
    act_bind (act_read (\<lambda>w. Linker_CheckPathIdentifier w l pathIdentifier)) (\<lambda>_.
    act_bind (act_read (\<lambda>w. selector_of w l)) (\<lambda>(a, sel).
    act_bind (act_read (\<lambda>w. if pathIdentifier = 0 then any_pending (registers w) (vr_registers (m_muxRegisters sel))
                            else Inr False)) (\<lambda>ignored.
      if ignored then act_return ()
      else on_registers (Selector_Select null slack sel pathIdentifier))))"

section \<open>A linker and its selector\<close>

definition linked :: "World \<Rightarrow> nat \<Rightarrow> nat \<Rightarrow> PathSelector \<Rightarrow> bool" where
  "linked w l a sel \<longleftrightarrow> (\<exists>nd. parents w l = Some nd \<and> m_pathSelector nd = Some a \<and> selectors w a = Some sel)"

lemma selector_of_linked: "linked w l a sel \<Longrightarrow> selector_of w l = Inr (a, sel)"
  by (auto simp: linked_def selector_of_def parent_at_def)

lemma linked_registers [simp]: "linked (w\<lparr>registers := st\<rparr>) l a sel = linked w l a sel"
  by (simp add: linked_def)

lemma linked_selectors: "linked w l a sel \<Longrightarrow> linked (w\<lparr>registers := st, selectors := (selectors w)(a \<mapsto> sel')\<rparr>) l a sel'"
  by (auto simp: linked_def)

lemma Linker_queries:
  assumes "linked w l a sel"
  shows "Linker_IsSelected w l p = (if p \<le> m_pathsCount sel then Selector_IsSelected (registers w) sel p else Inl OutOfRange)"
    and "Linker_IsActive w l p = (if p \<le> m_pathsCount sel then Selector_IsActive (registers w) sel p else Inl OutOfRange)"
    and "Linker_IsSelectedAndActive w l p = Selector_IsSelectedAndActive (registers w) sel p"
  using selector_of_linked [OF assms]
  by (simp_all add: Linker_IsSelected_def Linker_IsActive_def Linker_IsSelectedAndActive_def Linker_CheckPathIdentifier_def
      SelectablePaths_def)

lemma any_pending_eq:
  assumes "slices_live st ss"
  shows "any_pending st ss = Inr (\<exists>s \<in> set ss. Register_IsPending (the (st (the (slice_reg s)))))"
  using assms
proof (induction ss)
  case (Cons s ss)
  obtain a r where a: "slice_reg s = Some a" "st a = Some r" using Cons.prems by (auto simp: slices_live_def)
  have "any_pending st ss = Inr (\<exists>s \<in> set ss. Register_IsPending (the (st (the (slice_reg s)))))"
    using Cons by (simp add: slices_live_def)
  then show ?case using a by (simp add: deref_def)
qed simp

definition mux_waits :: "PathSelector \<Rightarrow> store \<Rightarrow> bool" where
  "mux_waits sel st \<longleftrightarrow> (\<exists>s \<in> set (vr_registers (m_muxRegisters sel)). Register_IsPending (the (st (the (slice_reg s)))))"

lemma Linker_Select_eq:
  assumes link: "linked w l a sel" and mux: "mux_ok ord n A (m_muxRegisters sel) (registers w)"
  shows "Linker_Select null slack l p w =
    (if p > m_pathsCount sel then (Inl OutOfRange, w)
     else if p = 0 \<and> mux_waits sel (registers w) then (Inr (), w)
     else on_registers (Selector_Select null slack sel p) w)"
  using selector_of_linked [OF link] any_pending_eq [OF slices_live [OF mux_okD(1,2) [OF mux]]]
  by (simp add: Linker_Select_def act_bind_read Linker_CheckPathIdentifier_def SelectablePaths_def mux_waits_def)

lemma Linker_Deselect_eq:
  assumes link: "linked w l a sel"
  shows "Linker_Deselect null slack l p w =
    (if p > m_pathsCount sel then (Inl OutOfRange, w) else on_selector a sel (Selector_Deselect null slack p) w)"
  using selector_of_linked [OF link]
  by (simp add: Linker_Deselect_def act_bind_read Linker_CheckPathIdentifier_def SelectablePaths_def)

text \<open>What the contracts of the codes give for a linker.\<close>

context path_coding
begin

lemma Linker_Select_then_IsSelected:
  assumes link: "linked w l a sel" and fits: "fits sel" and mux: "mux_ok ord n A (m_muxRegisters sel) (registers w)"
    and slack: "slack \<noteq> []" and p: "p \<in> paths_of sel"
  shows "\<exists>w'. Linker_Select null slack l p w = (Inr (), w') \<and> linked w' l a sel
    \<and> mux_ok ord n A (m_muxRegisters sel) (registers w') \<and> Linker_IsSelected w' l p = Inr True
    \<and> parents w' = parents w \<and> selectors w' = selectors w
    \<and> (\<forall>b. Some b \<notin> slice_reg ` set (vr_registers (m_muxRegisters sel)) \<longrightarrow> registers w' b = registers w b)"
proof -
  obtain st' where st': "Selector_Select null slack sel p (registers w) = (Inr (), st')"
    "mux_change ord n A (m_muxRegisters sel) (select_value sel p (next_bits ord n (m_muxRegisters sel) (registers w))) (registers w) st'"
    "Selector_IsSelected st' sel p = Inr True"
    using Select_then_IsSelected [OF fits mux slack p] by blast
  have "0 < p" "p \<le> m_pathsCount sel" using p by (simp_all add: paths_of_def)
  then have "Linker_Select null slack l p w = (Inr (), w\<lparr>registers := st'\<rparr>)"
    using Linker_Select_eq [OF link mux] st'(1) by (simp add: on_registers_def)
  moreover have "Linker_IsSelected (w\<lparr>registers := st'\<rparr>) l p = Inr True"
    using Linker_queries(1) [of "w\<lparr>registers := st'\<rparr>" l a sel p] link st'(3) \<open>p \<le> m_pathsCount sel\<close> by simp
  ultimately show ?thesis using link st'(2) by (intro exI [of _ "w\<lparr>registers := st'\<rparr>"]) (simp add: mux_change_def)
qed

lemma Linker_Deselect_then_not_IsSelected:
  assumes link: "linked w l a sel" and fits: "fits sel" and mux: "mux_ok ord n A (m_muxRegisters sel) (registers w)"
    and slack: "slack \<noteq> []" and p: "p \<in> paths_of sel" and none: "CanSelectNone sel"
  shows "\<exists>w' sel'. Linker_Deselect null slack l p w = (Inr (), w') \<and> linked w' l a sel' \<and> fits sel'
    \<and> mux_ok ord n A (m_muxRegisters sel') (registers w') \<and> Linker_IsSelected w' l p = Inr False"
proof -
  obtain sel' st' where st': "Selector_Deselect null slack p (sel, registers w) = (Inr (), (sel', st'))" "fits sel'" "same_selector sel sel'"
    "mux_change ord n A (m_muxRegisters sel) (deselect_value sel p (next_bits ord n (m_muxRegisters sel) (registers w))) (registers w) st'"
    "Selector_IsSelected st' sel' p = Inr False"
    using Deselect_then_not_IsSelected [OF fits mux slack p none] by blast
  note same = same_selector_values [OF st'(3)]
  let ?w = "w\<lparr>registers := st', selectors := (selectors w)(a \<mapsto> sel')\<rparr>"
  have p': "p \<le> m_pathsCount sel" using p by (simp add: paths_of_def)
  then have run: "Linker_Deselect null slack l p w = (Inr (), ?w)"
    using Linker_Deselect_eq [OF link] st'(1) by (simp add: on_selector_def)
  have link': "linked ?w l a sel'" by (rule linked_selectors [OF link])
  have "Linker_IsSelected ?w l p = Inr False"
    using Linker_queries(1) [OF link', of p] st'(5) p' same by simp
  then show ?thesis using run link' st'(2,4) same by (intro exI [of _ ?w] exI [of _ sel']) (simp add: mux_change_def)
qed

end
end
