(* ===== verification/Model_Properties.thy ===== *)
theory Model_Properties
  imports Linkers
begin

text \<open>
  What the parts of the system model promise: virtual registers, path selectors, linkers and the
  model tree. Each statement is followed, where it has hypotheses, by an instance on concrete
  values.
\<close>

section \<open>Virtual registers\<close>

definition sample_reg :: "nat \<Rightarrow> bool list \<Rightarrow> Register" where
  "sample_reg ident bs = \<lparr>m_identifier = ident, m_name = ''r'', m_pendingCount = 0, m_priority = 0, m_iRunloopCount = 0,
     m_pendingRead = False, m_holdValue = False, m_mustCheckExpected = False, m_isBlackBox = False,
     m_bitsOrdering = Downto, m_mismatches = 0, m_nextToSut = bv_make bs Fixed, m_lastToSut = bv_make bs Fixed,
     m_lastFromSut = bv_make bs Fixed, m_lastReadFromSut = bv_make bs NotFixed, m_expectedFromSut = bv_make bs Fixed,
     m_bypass = bv_make bs Fixed, m_dontCareMask = bv_make [] NotFixed, m_resetValue = bv_make [] NotFixed\<rparr>"

definition sample_store :: store where
  "sample_store a = (if a = 0 then Some (sample_reg 7 [True, False, True])
    else if a = 1 then Some (sample_reg 8 [False, False]) else None)"

definition sample_vr :: VirtualRegister where
  "sample_vr = \<lparr>vr_identifiers = [7, 8, 7], vr_registers =
     [\<lparr>slice_reg = Some 0, slice_range = \<lparr>left = 1, right = 0\<rparr>\<rparr>, \<lparr>slice_reg = Some 1, slice_range = \<lparr>left = 0, right = 0\<rparr>\<rparr>,
      \<lparr>slice_reg = Some 0, slice_range = \<lparr>left = 2, right = 2\<rparr>\<rparr>]\<rparr>"

definition sample_sizes :: "nat \<Rightarrow> nat" where
  "sample_sizes a = (if a = 0 then 3 else 2)"

lemma sample_reg_inv: "length bs < 4294967296 \<Longrightarrow> reg_inv (length bs) (sample_reg ident bs)"
  by (simp add: reg_inv_def sample_reg_def)

lemma sample_vr_ok:
  "store_ok Downto sample_sizes {0, 1} sample_store" "slices_ok Downto sample_sizes {0, 1} (vr_registers sample_vr)"
  "separate Downto sample_sizes (vr_registers sample_vr)" "vr_registers sample_vr \<noteq> []"
  "total_width (vr_registers sample_vr) = 4"
proof -
  have "reg_inv 3 (sample_reg 7 [True, False, True])" "reg_inv 2 (sample_reg 8 [False, False])"
    using sample_reg_inv [of "[True, False, True]" 7] sample_reg_inv [of "[False, False]" 8] by (simp_all add: numeral_3_eq_3 numeral_2_eq_2)
  then show "store_ok Downto sample_sizes {0, 1} sample_store"
    by (simp add: store_ok_def sample_store_def sample_sizes_def) (simp add: sample_reg_def)
  show "slices_ok Downto sample_sizes {0, 1} (vr_registers sample_vr)"
    by (simp add: sample_vr_def slice_ok_def sample_sizes_def)
  show "separate Downto sample_sizes (vr_registers sample_vr)"
    by (auto simp: sample_vr_def cells_def positions_def slice_offset_def slice_width_def sample_sizes_def Let_def)
  show "vr_registers sample_vr \<noteq> []" "total_width (vr_registers sample_vr) = 4"
    by (simp_all add: sample_vr_def slice_width_def)
qed

text \<open>C24: A virtual register behaves as one register. When its slices run in the direction of the
  bits ordering of their registers and no two of them share a bit, SetToSut with a value of the
  total width succeeds, NextToSut then reads that value back, every register keeps its class
  invariant and its other values, and no bit outside the slices changes.\<close>

theorem VR_SetToSut_view:
  assumes "store_ok ord n A st" and "slices_ok ord n A (vr_registers vr)" and "separate ord n (vr_registers vr)"
    and "vr_registers vr \<noteq> []" and "length vs = total_width (vr_registers vr)" and "length vs < 4294967289" and "slack \<noteq> []"
  shows "\<exists>st'. VR_SetToSut null slack (bv_make vs p) vr st = (Inr (), st')
    \<and> VR_NextToSut st' vr = Inr (bv_make vs NotFixed) \<and> store_ok ord n A st' \<and> same_but_values st st'
    \<and> (\<forall>a i. i < n a \<longrightarrow> (a, i) \<notin> (\<Union>t \<in> set (vr_registers vr). cells ord n t)
         \<longrightarrow> bits_of (m_nextToSut (the (st' a))) ! i = bits_of (m_nextToSut (the (st a))) ! i)"
proof -
  obtain st' where st': "VR_SetView null slack (\<lambda>r. BinaryVector_copy (m_nextToSut r)) Register_SetToSut (bv_make vs p) vr st = (Inr (), st')"
    "store_ok ord n A st'" "same_but_values st st'" "view_bits (\<lambda>r. bits_of (m_nextToSut r)) ord n st' (vr_registers vr) = vs"
    "\<forall>a i. i < n a \<longrightarrow> (a, i) \<notin> (\<Union>t \<in> set (vr_registers vr). cells ord n t)
       \<longrightarrow> bit_at (\<lambda>r. bits_of (m_nextToSut r)) st' (a, i) = bit_at (\<lambda>r. bits_of (m_nextToSut r)) st (a, i)"
    using vr_to_sut.SetView_ok [OF assms, of null p] by blast
  have "vs \<noteq> []" using assms(2,4,5) slice_bounds(2) by (cases "vr_registers vr") fastforce+
  moreover have "VR_NextToSut st' vr = Inr (bv_make vs NotFixed)"
    using VR_views_eq(1) [OF st'(2) assms(2,4)] st'(4) assms(5,6) by simp
  ultimately show ?thesis
    using st' assms(4) by (simp add: VR_SetToSut_def bit_at_def)
qed

theorem VR_SetToSut_view_witness:
  "\<exists>st'. VR_SetToSut False [0] (bv_make [True, True, False, True] NotFixed) sample_vr sample_store = (Inr (), st')
    \<and> VR_NextToSut st' sample_vr = Inr (bv_make [True, True, False, True] NotFixed)"
  using VR_SetToSut_view [OF sample_vr_ok(1-4), of "[True, True, False, True]" "[0]" False NotFixed] sample_vr_ok(5)
  by fastforce

text \<open>The values of a virtual register are the concatenation, in the order of the slices, of the
  slices of the values of its registers: to be sent, last sent and last received.\<close>

theorem VR_views_concatenate:
  assumes "store_ok ord n A st" and "slices_ok ord n A (vr_registers vr)" and "vr_registers vr \<noteq> []"
    and "total_width (vr_registers vr) < 4294967289"
  shows "VR_NextToSut st vr = Inr (bv_make (view_bits (\<lambda>r. bits_of (m_nextToSut r)) ord n st (vr_registers vr)) NotFixed)
    \<and> VR_LastToSut st vr = Inr (bv_make (view_bits (\<lambda>r. bits_of (m_lastToSut r)) ord n st (vr_registers vr)) NotFixed)
    \<and> VR_LastFromSut st vr = Inr (bv_make (view_bits (\<lambda>r. bits_of (m_lastFromSut r)) ord n st (vr_registers vr)) NotFixed)
    \<and> VR_BitsCount vr = Inr (total_width (vr_registers vr))"
  using VR_views_eq [OF assms] VR_BitsCount_eq [OF assms(2)] assms(4) by simp

theorem VR_views_concatenate_witness:
  "VR_NextToSut sample_store sample_vr = Inr (bv_make [False, True, False, True] NotFixed)"
  using VR_views_concatenate [OF sample_vr_ok(1,2,4)] sample_vr_ok(5)
  by (simp add: sample_vr_def slice_bits_def positions_def slice_offset_def slice_width_def sample_sizes_def sample_store_def
      sample_reg_def)

text \<open>SetExpectedFromSut without a mask writes the expected values of the registers through the
  view in the same way: each slice receives its part of the sequence and nothing else changes.\<close>

theorem VR_SetExpected_view:
  assumes "store_ok ord n A st" and "slices_ok ord n A (vr_registers vr)" and "separate ord n (vr_registers vr)"
    and "vr_registers vr \<noteq> []" and "length vs = total_width (vr_registers vr)" and "length vs < 4294967289" and "slack \<noteq> []"
  shows "\<exists>st'. VR_SetExpectedFromSut null slack (bv_make vs p) (bv_make [] q) vr st = (Inr (), st')
    \<and> view_bits (\<lambda>r. bits_of (m_expectedFromSut r)) ord n st' (vr_registers vr) = vs \<and> store_ok ord n A st' \<and> same_but_values st st'
    \<and> (\<forall>a i. i < n a \<longrightarrow> (a, i) \<notin> (\<Union>t \<in> set (vr_registers vr). cells ord n t)
         \<longrightarrow> bits_of (m_expectedFromSut (the (st' a))) ! i = bits_of (m_expectedFromSut (the (st a))) ! i)"
  using vr_expected.SetView_ok [OF assms, of null p]
  by (simp add: VR_SetExpectedFromSut_def bit_at_def) blast

theorem VR_SetExpected_view_witness:
  "\<exists>st'. VR_SetExpectedFromSut False [0] (bv_make [True, True, False, True] NotFixed) (bv_make [] NotFixed) sample_vr sample_store
      = (Inr (), st') \<and> store_ok Downto sample_sizes {0, 1} st'"
  using VR_SetExpected_view [OF sample_vr_ok(1-4), of "[True, True, False, True]" "[0]" False NotFixed NotFixed] sample_vr_ok(5)
  by fastforce

text \<open>The virtual register of a single register whose bits are numbered upwards cannot be read:
  the constructor takes the range from the last bit down to 0, and the views refuse it.\<close>

theorem VirtualRegister_upto_unreadable:
  assumes "st a = Some r" and "reg_inv n r" and "1 < n" and "n < 2147483648" and "m_bitsOrdering r = Upto"
  shows "rbind (VirtualRegister_of (Some a) st) (VR_NextToSut st) = Inl InvalidArgument"
  using assms by (rule VirtualRegister_of_upto)

theorem VirtualRegister_upto_unreadable_witness:
  "\<exists>st :: store. rbind (VirtualRegister_of (Some 0) st) (VR_NextToSut st) = Inl InvalidArgument"
proof -
  let ?r = "(sample_reg 7 [True, False])\<lparr>m_bitsOrdering := Upto\<rparr>"
  have "reg_inv 2 ?r" using sample_reg_inv [of "[True, False]" 7] by (simp add: reg_inv_def numeral_2_eq_2)
  then have "rbind (VirtualRegister_of (Some 0) [0 \<mapsto> ?r]) (VR_NextToSut [0 \<mapsto> ?r]) = Inl InvalidArgument"
    using VirtualRegister_upto_unreadable [of "[0 \<mapsto> ?r]" 0 ?r 2] by simp
  then show ?thesis by blast
qed

text \<open>Append accepts a slice exactly when its register has bits and a defined ordering, the range
  stays within the register and the ordering is that of the slices before it; it never checks that
  the range runs in the direction of the ordering.\<close>

theorem VR_Append_accepts:
  assumes "slice_reg s = Some a" and "st a = Some r" and "range_wf (slice_range s)" and "Register_BitsCount r < 4294967296"
    and "vr_registers vr \<noteq> [] \<longrightarrow> deref st (slice_reg (last (vr_registers vr))) = Inr q"
  shows "VR_Append s st vr =
    (if Register_BitsCount r = 0 \<or> m_bitsOrdering r = Undefined then Inl InvalidArgument
     else if slice_width (slice_range s) = 4294967296 then Inl RuntimeError
     else if MaxIndex (slice_range s) < Register_BitsCount r
             \<and> (vr_registers vr \<noteq> [] \<longrightarrow> m_bitsOrdering r = m_bitsOrdering q)
     then Inr \<lparr>vr_identifiers = vr_identifiers vr @ [m_identifier r], vr_registers = vr_registers vr @ [s]\<rparr>
     else Inl InvalidArgument)"
  using assms by (intro VR_Append_eq) simp_all

theorem VR_Append_accepts_witness:
  "VR_Append \<lparr>slice_reg = Some 1, slice_range = \<lparr>left = 0, right = 1\<rparr>\<rparr> sample_store sample_vr
    = Inr \<lparr>vr_identifiers = [7, 8, 7, 8], vr_registers = vr_registers sample_vr @ [\<lparr>slice_reg = Some 1, slice_range = \<lparr>left = 0, right = 1\<rparr>\<rparr>]\<rparr>"
  using VR_Append_accepts [of "\<lparr>slice_reg = Some 1, slice_range = \<lparr>left = 0, right = 1\<rparr>\<rparr>" 1 sample_store "sample_reg 8 [False, False]"
      sample_vr "sample_reg 7 [True, False, True]"]
  by (simp add: sample_store_def sample_vr_def range_wf_def deref_def slice_width_def MaxIndex_def Register_BitsCount_def
      sample_reg_def)

section \<open>Path selectors and linkers\<close>

text \<open>C27: A binary selector opens exactly one path. Constructed on a register wide enough for its
  paths, with or without an idle code and inverted or not, it succeeds; selecting path p then
  makes p and no other path selected.\<close>

theorem Binary_selector_exclusive:
  assumes "st a = Some r" and "reg_inv L r" and "m_bitsOrdering r \<noteq> Upto"
    and "binary_fits L (IsSet props CanSelectNone_flag) paths" and "1 \<le> p" and "p \<le> paths" and "slack \<noteq> []"
  shows "\<exists>sel st'. Binary_of (Some a) st paths props = Inr sel \<and> Selector_Select null slack sel p st = (Inr (), st')
    \<and> (\<forall>q. 1 \<le> q \<and> q \<le> paths \<longrightarrow> Selector_IsSelected st' sel q = Inr (q = p))"
proof -
  obtain sel where sel: "Binary_of (Some a) st paths props = Inr sel" "binary_built sel" "m_muxRegisters sel = single_vr a r"
    "m_pathsCount sel = paths"
    using Binary_of_built [of st a r, OF assms(1,2,4)] by blast
  have fits: "fits_by binary_built sel"
    using sel(2) row_coded_contract(1) [OF binary_row_coded [OF sel(2)]] binary_row_coded [OF sel(2)]
    unfolding fits_by_def row_coded_def by (blast intro: same_selector_refl)
  have L: "0 < L" "L < 4294967289" using binary_fits_pos [OF assms(4)] assms(4) by (simp_all add: binary_fits_def)
  have mux: "mux_ok (m_bitsOrdering r) (\<lambda>_. L) {a} (m_muxRegisters sel) st"
    unfolding sel(3) using single_vr_ok [of st a r L] assms(1-3) L by blast
  have "p \<in> paths_of sel" using assms(5,6) sel(4) by (simp add: paths_of_def)
  from binary.Select_selects_only [OF fits mux assms(7) this] show ?thesis
    using sel(1,4) by (fastforce simp: paths_of_def)
qed

definition small_store :: "nat \<Rightarrow> Register option" where
  "small_store a = (if a = 0 then Some (sample_reg 7 [False, False, False]) else None)"

lemma small_reg: "small_store 0 = Some (sample_reg 7 [False, False, False])"
  "reg_inv 3 (sample_reg 7 [False, False, False])" "m_bitsOrdering (sample_reg 7 [False, False, False]) \<noteq> Upto"
  using sample_reg_inv [of "[False, False, False]" 7] by (simp_all add: small_store_def numeral_3_eq_3) (simp add: sample_reg_def)

theorem Binary_selector_exclusive_witness:
  "\<exists>sel st'. Binary_of (Some 0) small_store 4 0 = Inr sel \<and> Selector_Select False [0] sel 3 small_store = (Inr (), st')
    \<and> Selector_IsSelected st' sel 3 = Inr True \<and> Selector_IsSelected st' sel 2 = Inr False"
proof -
  have "binary_fits 3 (IsSet 0 CanSelectNone_flag) 4"
    by (simp add: binary_fits_def IsSet_def CanSelectNone_flag_def MinimalBitsForValue_def MinimalBitsForValue_loop.simps Let_def)
  from Binary_selector_exclusive [of small_store 0, OF small_reg this, of 3 "[0]" False] show ?thesis by fastforce
qed

text \<open>C28: A one hot selector opens exactly one path: selecting path p makes p and no other path
  selected, in either bit order and polarity.\<close>

theorem OneHot_selector_exclusive:
  assumes "st a = Some r" and "reg_inv L r" and "m_bitsOrdering r \<noteq> Upto" and "L < 4294967289"
    and "\<not> IsSet props StartAtZero_flag" and "paths \<le> L" and "1 \<le> p" and "p \<le> paths" and "slack \<noteq> []"
  shows "\<exists>sel st'. OneHot_of (Some a) st paths props = Inr sel \<and> Selector_Select null slack sel p st = (Inr (), st')
    \<and> (\<forall>q. 1 \<le> q \<and> q \<le> paths \<longrightarrow> Selector_IsSelected st' sel q = Inr (q = p))"
proof -
  have paths: "0 < paths" using assms(7,8) by simp
  obtain sel where sel: "OneHot_of (Some a) st paths props = Inr sel" "one_hot_built sel" "m_muxRegisters sel = single_vr a r"
    "m_pathsCount sel = paths"
    using OneHot_of_built [of st a r, OF assms(1,2) paths assms(6,4,5)] by blast
  have fits: "fits_by one_hot_built sel"
    using sel(2) one_hot_row_coded [OF sel(2)] unfolding fits_by_def row_coded_def by (blast intro: same_selector_refl)
  have L: "0 < L" using paths assms(6) by simp
  have mux: "mux_ok (m_bitsOrdering r) (\<lambda>_. L) {a} (m_muxRegisters sel) st"
    unfolding sel(3) using single_vr_ok [of st a r L] assms(1-4) L by blast
  have "p \<in> paths_of sel" using assms(7,8) sel(4) by (simp add: paths_of_def)
  from one_hot.Select_selects_only [OF fits mux assms(9) this] show ?thesis
    using sel(1,4) by (fastforce simp: paths_of_def)
qed

theorem OneHot_selector_exclusive_witness:
  "\<exists>sel st'. OneHot_of (Some 0) small_store 3 5 = Inr sel \<and> Selector_Select False [0] sel 3 small_store = (Inr (), st')
    \<and> Selector_IsSelected st' sel 3 = Inr True \<and> Selector_IsSelected st' sel 2 = Inr False"
proof -
  have "\<not> IsSet 5 StartAtZero_flag" by (simp add: IsSet_def StartAtZero_flag_def)
  from OneHot_selector_exclusive [of small_store 0, OF small_reg _ this, of 3 3 "[0]" False] show ?thesis by fastforce
qed



text \<open>A selector built by one of the constructors, perhaps after some deselections.\<close>

definition standard_selector :: "PathSelector \<Rightarrow> bool" where
  "standard_selector sel \<longleftrightarrow> fits_by binary_built sel \<or> fits_by one_hot_built sel \<or> fits_by n_hot_built sel"

lemma small_one_hot:
  "\<exists>sel. OneHot_of (Some 0) small_store 3 0 = Inr sel \<and> standard_selector sel
    \<and> mux_ok Downto (\<lambda>_. 3) {0} (m_muxRegisters sel) small_store \<and> \<not> CanSelectNone sel \<and> all_bits_used sel \<and> paths_of sel = {1..3}"
proof -
  have "\<not> IsSet 0 StartAtZero_flag" by (simp add: IsSet_def StartAtZero_flag_def)
  then obtain sel where sel: "OneHot_of (Some 0) small_store 3 0 = Inr sel" "one_hot_built sel"
    "m_muxRegisters sel = single_vr 0 (sample_reg 7 [False, False, False])" "m_pathsCount sel = 3" "m_properties sel = 0"
    using OneHot_of_built [of small_store 0, OF small_reg(1,2), of 3 0] by auto
  have "fits_by one_hot_built sel"
    using sel(2) one_hot_row_coded [OF sel(2)] unfolding fits_by_def row_coded_def by (blast intro: same_selector_refl)
  moreover have "mux_ok Downto (\<lambda>_. 3) {0} (m_muxRegisters sel) small_store"
    unfolding sel(3) using single_vr_ok [of small_store 0, OF small_reg(1,2) _ _ small_reg(3)] by (simp add: sample_reg_def)
  ultimately show ?thesis
    using sel by (auto simp: standard_selector_def CanSelectNone_def CanSelectNone_flag_def all_bits_used_def one_hot_built_def paths_of_def)
qed

text \<open>C31: A binary, one hot or N hot selector that may not select none is never left idle: whatever path is deselected,
  some path of the selector is selected afterwards. The selector is as its constructor made it, perhaps after
  deselections, its registers are those of a sound multiplexer, the memory after a source vector is readable,
  and an N hot selector has as many register bits as paths: with a wider register a stray bit
  passes for a selection and all paths can be closed.\<close>

theorem Deselect_never_idle:
  assumes "standard_selector sel" and "mux_ok ord n A (m_muxRegisters sel) st" and "slack \<noteq> []" and "p \<in> paths_of sel"
    and "\<not> CanSelectNone sel" and "all_bits_used sel"
  shows "\<exists>sel' st'. Selector_Deselect null slack p (sel, st) = (Inr (), (sel', st')) \<and> standard_selector sel'
    \<and> (\<exists>q \<in> paths_of sel. Selector_IsSelected st' sel' q = Inr True)"
  using assms(1) binary.Deselect_keeps_selected [OF _ assms(2-6)] one_hot.Deselect_keeps_selected [OF _ assms(2-6)]
    n_hot.Deselect_keeps_selected [OF _ assms(2-6)]
  unfolding standard_selector_def by metis

theorem Deselect_never_idle_witness:
  "\<exists>sel sel' st'. OneHot_of (Some 0) small_store 3 0 = Inr sel \<and> Selector_Deselect False [0] 2 (sel, small_store) = (Inr (), (sel', st'))
    \<and> (\<exists>q \<in> {1..3}. Selector_IsSelected st' sel' q = Inr True)"
proof -
  obtain sel where sel: "OneHot_of (Some 0) small_store 3 0 = Inr sel" "standard_selector sel"
    "mux_ok Downto (\<lambda>_. 3) {0} (m_muxRegisters sel) small_store" "\<not> CanSelectNone sel" "all_bits_used sel" "paths_of sel = {1..3}"
    using small_one_hot by blast
  have "\<exists>sel' st'. Selector_Deselect False [0] 2 (sel, small_store) = (Inr (), (sel', st')) \<and> standard_selector sel'
    \<and> (\<exists>q \<in> paths_of sel. Selector_IsSelected st' sel' q = Inr True)"
    by (rule Deselect_never_idle [OF sel(2,3)]) (simp_all add: sel(4-6))
  then show ?thesis using sel(1,6) by auto
qed

text \<open>C26: A linker selects through its selector. Path identifiers above the selectable paths throw
  out_of_range and change nothing; selecting none is ignored while a register of the multiplexer
  is pending; selecting a path succeeds, makes it selected, and changes no register outside the
  multiplexer and no other node.\<close>

theorem Linker_Select_selects:
  assumes "linked w l a sel" and "standard_selector sel" and "mux_ok ord n A (m_muxRegisters sel) (registers w)" and "slack \<noteq> []"
  shows "(m_pathsCount sel < p \<longrightarrow> Linker_Select null slack l p w = (Inl OutOfRange, w))
    \<and> (mux_waits sel (registers w) \<longrightarrow> Linker_Select null slack l 0 w = (Inr (), w))
    \<and> (p \<in> paths_of sel \<longrightarrow> (\<exists>w'. Linker_Select null slack l p w = (Inr (), w') \<and> Linker_IsSelected w' l p = Inr True
        \<and> parents w' = parents w \<and> selectors w' = selectors w
        \<and> (\<forall>b. Some b \<notin> slice_reg ` set (vr_registers (m_muxRegisters sel)) \<longrightarrow> registers w' b = registers w b)))"
  using assms(2) Linker_Select_eq [OF assms(1,3)] binary.Linker_Select_then_IsSelected [OF assms(1) _ assms(3,4)]
    one_hot.Linker_Select_then_IsSelected [OF assms(1) _ assms(3,4)] n_hot.Linker_Select_then_IsSelected [OF assms(1) _ assms(3,4)]
  unfolding standard_selector_def by (metis not_less_zero)

theorem Linker_Select_selects_witness:
  "\<exists>w :: World. \<exists>w'. Linker_Select False [0] 5 2 w = (Inr (), w') \<and> Linker_IsSelected w' 5 2 = Inr True
    \<and> Linker_Select False [0] 5 4 w = (Inl OutOfRange, w)"
proof -
  obtain sel where sel: "OneHot_of (Some 0) small_store 3 0 = Inr sel" "standard_selector sel"
    "mux_ok Downto (\<lambda>_. 3) {0} (m_muxRegisters sel) small_store" "paths_of sel = {1..3}"
    using small_one_hot by blast
  obtain nd where nd: "Linker_create 9 ''l'' (Some 1) = Inr nd" "m_pathSelector nd = Some 1"
    by (simp add: Linker_create_def)
  let ?w = "\<lparr>registers = small_store, parents = [5 \<mapsto> nd], selectors = [1 \<mapsto> sel]\<rparr>"
  have link: "linked ?w 5 1 sel" using nd(2) by (simp add: linked_def)
  have paths: "m_pathsCount sel = 3" using sel(4) by (auto simp: paths_of_def)
  have mux: "mux_ok Downto (\<lambda>_. 3) {0} (m_muxRegisters sel) (registers ?w)" using sel(3) by simp
  have p: "2 \<in> paths_of sel" "m_pathsCount sel < 4" using sel(4) paths by simp_all
  have "\<exists>w'. Linker_Select False [0] 5 2 ?w = (Inr (), w') \<and> Linker_IsSelected w' 5 2 = Inr True"
    using Linker_Select_selects [OF link sel(2) mux, of "[0]" 2 False] p(1) by blast
  moreover have "Linker_Select False [0] 5 4 ?w = (Inl OutOfRange, ?w)"
    using Linker_Select_selects [OF link sel(2) mux, of "[0]" 4 False] p(2) by blast
  ultimately show ?thesis by blast
qed

text \<open>With StartAtZero the length check of the one hot selector accepts a register one bit
  shorter than the number of paths, but building the select table then throws: the last path has
  no bit.\<close>

theorem OneHot_StartAtZero_throws:
  assumes "IsSet props StartAtZero_flag" and "paths = Suc L" and "L < 4294967289"
  shows "Hot_CheckRegisterLength L (u32_sub paths 1) = Inr () \<and> OneHot_CreateSelectTable L paths props = Inl InvalidArgument"
  using OneHot_StartAtZero_short [OF assms] assms(2,3) by (simp add: Hot_CheckRegisterLength_def)

theorem OneHot_StartAtZero_throws_witness:
  "Hot_CheckRegisterLength 3 (u32_sub 4 1) = Inr () \<and> OneHot_CreateSelectTable 3 4 9 = Inl InvalidArgument"
proof -
  have "IsSet 9 StartAtZero_flag" by (simp add: IsSet_def StartAtZero_flag_def)
  then show ?thesis using OneHot_StartAtZero_throws [of 9 4 3] by simp
qed

end
