(* ===== verification/Model_Tree.thy ===== *)
theory Model_Tree
  imports Linkers
begin

text \<open>
  The tree of a system model and the visitors that only count: the base class
  \<^verbatim>\<open>SystemModelVisitor\<close>, \<^verbatim>\<open>PropagatePendingVisitor\<close> and \<^verbatim>\<open>ResetiRunLoopVisitor\<close>. A tree is the shape
  the pointers \<^verbatim>\<open>FirstChild\<close> and \<^verbatim>\<open>NextSibling\<close> draw: a leaf names the address of a register in the
  world, an inner node its class, the address of its data and its children. \<^verbatim>\<open>Accept\<close> is the case
  distinction on the class. Visitors change the data of nodes, never the tree.
\<close>

section \<open>Trees\<close>

datatype NodeClass = AccessInterface | AccessInterfaceTranslator | Chain | Linker | Streamer

datatype SystemTree = RegisterLeaf nat | ParentTree NodeClass nat "SystemTree list"

definition on_register :: "nat \<Rightarrow> (Register, 'a) act \<Rightarrow> (World, 'a) act" where
  "on_register a m = on_registers (act_at (Some a) m)"

definition register_at :: "World \<Rightarrow> nat \<Rightarrow> Register result" where
  "register_at w a = deref (registers w) (Some a)"

definition SetiRunLoop :: "nat \<Rightarrow> 'a SystemModelNode_scheme \<Rightarrow> 'a SystemModelNode_scheme" where
  "SetiRunLoop count nd = nd\<lparr>m_iRunloopCount := count\<rparr>"

text \<open>The virtual getters of a node: registers override the first two.\<close>

fun PendingCount :: "World \<Rightarrow> SystemTree \<Rightarrow> nat result" where
  "PendingCount w (RegisterLeaf a) = rbind (register_at w a) (\<lambda>r. Inr (Register_PendingCount r))"
| "PendingCount w (ParentTree cls a children) = rbind (parent_at w a) (\<lambda>nd. Inr (m_pendingCount nd))"

fun IsPending :: "World \<Rightarrow> SystemTree \<Rightarrow> bool result" where
  "IsPending w (RegisterLeaf a) = rbind (register_at w a) (\<lambda>r. Inr (Register_IsPending r))"
| "IsPending w (ParentTree cls a children) = rbind (parent_at w a) (\<lambda>nd. Inr (Node_IsPending nd))"

fun iRunLoopCount :: "World \<Rightarrow> SystemTree \<Rightarrow> nat result" where
  "iRunLoopCount w (RegisterLeaf a) = rbind (register_at w a) (\<lambda>r. Inr (m_iRunloopCount r))"
| "iRunLoopCount w (ParentTree cls a children) = rbind (parent_at w a) (\<lambda>nd. Inr (m_iRunloopCount nd))"

section \<open>Propagation of pending registers\<close>

definition PropagatePending_VisitRegister :: "(Register, unit) act" where
  "PropagatePending_VisitRegister =
    act_bind (act_read (\<lambda>reg. CompareEqualTo (m_nextToSut reg) (m_lastToSut reg))) (\<lambda>same.
      if \<not> same then act_modify SetPending else act_return ())"

fun PropagatePending :: "SystemTree \<Rightarrow> (World, unit) act"
  and ChildrenPendings_loop :: "SystemTree list \<Rightarrow> nat \<Rightarrow> nat \<Rightarrow> (World, nat \<times> nat) act" where
  "PropagatePending (RegisterLeaf a) = on_register a PropagatePending_VisitRegister"
| "PropagatePending (ParentTree cls a children) =
    act_bind (ChildrenPendings_loop children 0 0) (\<lambda>(pendingCount, iRunLoopCount).
    act_bind (act_read (\<lambda>w. parent_at w a)) (\<lambda>parentNode.
      let loops = max iRunLoopCount (m_iRunloopCount parentNode)
      in at_parent a (\<lambda>nd. SetiRunLoop (if cls = AccessInterface \<or> cls = AccessInterfaceTranslator then 0 else loops)
                            (SetPendingCount pendingCount nd))))"
| "ChildrenPendings_loop [] pendingCount loopCount = act_return (pendingCount, loopCount)"
| "ChildrenPendings_loop (child # siblings) pendingCount loopCount =
    act_then (PropagatePending child)
    (act_bind (act_read (\<lambda>w. PendingCount w child)) (\<lambda>count.
     act_bind (act_read (\<lambda>w. iRunLoopCount w child)) (\<lambda>loops.
       ChildrenPendings_loop siblings (u32 (pendingCount + count)) (if loops > loopCount then max loopCount loops else loopCount))))"

section \<open>Reset of the run loops\<close>

text \<open>The children of a linker are visited when their path, counted from 1, is active.\<close>

fun ResetiRunLoop :: "SystemTree \<Rightarrow> (World, unit) act"
  and ResetiRunLoop_VisitChildren :: "SystemTree list \<Rightarrow> (World, unit) act"
  and ResetiRunLoop_VisitActive :: "nat \<Rightarrow> SystemTree list \<Rightarrow> nat \<Rightarrow> (World, unit) act" where
  "ResetiRunLoop (RegisterLeaf a) = on_register a (act_modify (SetiRunLoop 0))"
| "ResetiRunLoop (ParentTree cls a children) =
    act_then (if cls = AccessInterface then act_return ()
              else if cls = Linker then ResetiRunLoop_VisitActive a children 1
              else ResetiRunLoop_VisitChildren children)
      (at_parent a (SetiRunLoop 0))"
| "ResetiRunLoop_VisitChildren [] = act_return ()"
| "ResetiRunLoop_VisitChildren (child # siblings) =
    act_then (ResetiRunLoop child) (ResetiRunLoop_VisitChildren siblings)"
| "ResetiRunLoop_VisitActive l [] pathIdentifier = act_return ()"
| "ResetiRunLoop_VisitActive l (child # siblings) pathIdentifier =
    act_bind (act_read (\<lambda>w. Linker_IsActive w l pathIdentifier)) (\<lambda>active.
    act_then (if active then ResetiRunLoop child else act_return ())
      (ResetiRunLoop_VisitActive l siblings (u32 (pathIdentifier + 1))))"

section \<open>The nodes of a tree\<close>

fun tree_registers :: "SystemTree \<Rightarrow> nat list" where
  "tree_registers (RegisterLeaf a) = [a]"
| "tree_registers (ParentTree cls a children) = concat (map tree_registers children)"

fun tree_parents :: "SystemTree \<Rightarrow> nat list" where
  "tree_parents (RegisterLeaf a) = []"
| "tree_parents (ParentTree cls a children) = a # concat (map tree_parents children)"

fun subtrees :: "SystemTree \<Rightarrow> SystemTree set" where
  "subtrees (RegisterLeaf a) = {RegisterLeaf a}"
| "subtrees (ParentTree cls a children) = insert (ParentTree cls a children) (\<Union>c \<in> set children. subtrees c)"

abbreviation forest_registers :: "SystemTree list \<Rightarrow> nat list" where
  "forest_registers ts \<equiv> concat (map tree_registers ts)"

abbreviation forest_parents :: "SystemTree list \<Rightarrow> nat list" where
  "forest_parents ts \<equiv> concat (map tree_parents ts)"

abbreviation forest_subtrees :: "SystemTree list \<Rightarrow> SystemTree set" where
  "forest_subtrees ts \<equiv> (\<Union>t \<in> set ts. subtrees t)"

definition live_register :: "(nat \<Rightarrow> nat) \<Rightarrow> World \<Rightarrow> nat \<Rightarrow> bool" where
  "live_register n w a \<longleftrightarrow> (\<exists>r. registers w a = Some r \<and> reg_inv (n a) r)"

definition forest_ok :: "(nat \<Rightarrow> nat) \<Rightarrow> World \<Rightarrow> SystemTree list \<Rightarrow> bool" where
  "forest_ok n w ts \<longleftrightarrow> (\<forall>a \<in> set (forest_registers ts). live_register n w a)
    \<and> (\<forall>p \<in> set (forest_parents ts). parents w p \<noteq> None)
    \<and> distinct (forest_registers ts) \<and> distinct (forest_parents ts)"

definition tree_ok :: "(nat \<Rightarrow> nat) \<Rightarrow> World \<Rightarrow> SystemTree \<Rightarrow> bool" where
  "tree_ok n w t \<longleftrightarrow> forest_ok n w [t]"

lemma subtree_self [simp]: "t \<in> subtrees t"
  by (cases t) simp_all

lemma subtree_nodes:
  "s \<in> subtrees t \<Longrightarrow> set (tree_registers s) \<subseteq> set (tree_registers t)"
  "s \<in> subtrees t \<Longrightarrow> set (tree_parents s) \<subseteq> set (tree_parents t)"
proof (induction t)
  case (ParentTree cls a children)
  { case 1 then show ?case using ParentTree.IH(1) by fastforce }
  { case 2 then show ?case using ParentTree.IH(2) by fastforce }
qed simp_all

lemma forest_subtree_nodes:
  "s \<in> forest_subtrees ts \<Longrightarrow> set (tree_registers s) \<subseteq> set (forest_registers ts)"
  "s \<in> forest_subtrees ts \<Longrightarrow> set (tree_parents s) \<subseteq> set (forest_parents ts)"
  using subtree_nodes by fastforce+

section \<open>What propagation computes\<close>

definition marked :: "Register \<Rightarrow> Register" where
  "marked r = (if bits_of (m_nextToSut r) = bits_of (m_lastToSut r) then r else SetPending r)"

definition on_each :: "(Register \<Rightarrow> Register) \<Rightarrow> nat list \<Rightarrow> store \<Rightarrow> store" where
  "on_each f as st a = (if a \<in> set as then map_option f (st a) else st a)"

definition pending_below :: "World \<Rightarrow> SystemTree list \<Rightarrow> nat" where
  "pending_below w ts = length (filter (\<lambda>a. Register_IsPending (the (registers w a))) (forest_registers ts))"

fun run_loops :: "World \<Rightarrow> SystemTree \<Rightarrow> nat" where
  "run_loops w (RegisterLeaf a) = m_iRunloopCount (the (registers w a))"
| "run_loops w (ParentTree cls a children) =
    (if cls = AccessInterface \<or> cls = AccessInterfaceTranslator then 0
     else max (foldl (\<lambda>k c. max k (run_loops w c)) 0 children) (m_iRunloopCount (the (parents w a))))"

definition uncounted :: "ParentNode \<Rightarrow> ParentNode" where
  "uncounted nd = nd\<lparr>m_pendingCount := 0, m_iRunloopCount := 0\<rparr>"

definition counted :: "World \<Rightarrow> World \<Rightarrow> SystemTree \<Rightarrow> bool" where
  "counted w w' s \<longleftrightarrow> PendingCount w' s = Inr (pending_below w' [s]) \<and> iRunLoopCount w' s = Inr (run_loops w s)"

definition propagated :: "SystemTree list \<Rightarrow> World \<Rightarrow> World \<Rightarrow> bool" where
  "propagated ts w w' \<longleftrightarrow> registers w' = on_each marked (forest_registers ts) (registers w)
    \<and> selectors w' = selectors w \<and> (\<forall>p. p \<notin> set (forest_parents ts) \<longrightarrow> parents w' p = parents w p)
    \<and> (\<forall>p. map_option uncounted (parents w' p) = map_option uncounted (parents w p))
    \<and> (\<forall>s \<in> forest_subtrees ts. counted w w' s)"

lemma marked_facts [simp]:
  "m_iRunloopCount (marked r) = m_iRunloopCount r" "reg_inv k r \<Longrightarrow> reg_inv k (marked r)"
  "bits_of (m_nextToSut (marked r)) = bits_of (m_nextToSut r)" "bits_of (m_lastToSut (marked r)) = bits_of (m_lastToSut r)"
  by (auto simp: marked_def SetPending_def reg_inv_def)

lemma VisitRegister_marked:
  assumes "reg_inv k r"
  shows "PropagatePending_VisitRegister r = (Inr (), marked r)"
proof -
  have "m_nextToSut r = bv_make (bits_of (m_nextToSut r)) Fixed" "m_lastToSut r = bv_make (bits_of (m_lastToSut r)) Fixed"
    using reg_invD(1,2) [OF assms] by (simp_all add: fixed_bits_def)
  then have "CompareEqualTo (m_nextToSut r) (m_lastToSut r) = Inr (bits_of (m_nextToSut r) = bits_of (m_lastToSut r))"
    by (metis CompareEqualTo_make)
  then show ?thesis by (simp add: PropagatePending_VisitRegister_def act_bind_read marked_def)
qed

lemma on_register_eq:
  assumes "registers w a = Some r" and "m r = (x, r')"
  shows "on_register a m w = (x, w\<lparr>registers := (registers w)(a \<mapsto> r')\<rparr>)"
  using assms by (simp add: on_register_def on_registers_def act_at_def)

lemma on_each_simps [simp]:
  "on_each f [] st = st"
  "st a = Some r \<Longrightarrow> st(a \<mapsto> f r) = on_each f [a] st"
  "a \<notin> set as \<Longrightarrow> on_each f as st a = st a"
  "a \<in> set as \<Longrightarrow> on_each f as st a = map_option f (st a)"
  by (auto simp: on_each_def fun_eq_iff)

lemma on_each_append: "set as \<inter> set bs = {} \<Longrightarrow> on_each f bs (on_each f as st) = on_each f (as @ bs) st"
  by (auto simp: on_each_def fun_eq_iff)

lemma run_loops_cong:
  assumes "\<And>a. a \<in> set (tree_registers t) \<Longrightarrow> m_iRunloopCount (the (registers w a)) = m_iRunloopCount (the (registers w' a))"
    and "\<And>p. p \<in> set (tree_parents t) \<Longrightarrow> parents w p = parents w' p"
  shows "run_loops w t = run_loops w' t"
  using assms
proof (induction t)
  case (ParentTree cls a children)
  have "foldl (\<lambda>k c. max k (run_loops w c)) 0 children = foldl (\<lambda>k c. max k (run_loops w' c)) 0 children"
  proof (rule foldl_cong)
    fix k c assume c: "c \<in> set children"
    have "run_loops w c = run_loops w' c"
      using c ParentTree.prems by (intro ParentTree.IH [OF c]) auto
    then show "max k (run_loops w c) = max k (run_loops w' c)" by simp
  qed simp_all
  then show ?case using ParentTree.prems(2) [of a] by simp
qed simp

lemma forest_ok_simps:
  "forest_ok n w [] \<longleftrightarrow> True"
  "forest_ok n w (t # ts) \<longleftrightarrow> forest_ok n w [t] \<and> forest_ok n w ts
    \<and> set (tree_registers t) \<inter> set (forest_registers ts) = {} \<and> set (tree_parents t) \<inter> set (forest_parents ts) = {}"
  "forest_ok n w [ParentTree cls a children] \<longleftrightarrow> forest_ok n w children \<and> parents w a \<noteq> None \<and> a \<notin> set (forest_parents children)"
  "forest_ok n w [RegisterLeaf a] \<longleftrightarrow> live_register n w a"
  by (auto simp: forest_ok_def)

lemma forest_ok_cong:
  assumes "forest_ok n w ts" and "\<And>a. a \<in> set (forest_registers ts) \<Longrightarrow> live_register n w a \<Longrightarrow> live_register n w' a"
    and "\<And>p. p \<in> set (forest_parents ts) \<Longrightarrow> parents w p \<noteq> None \<Longrightarrow> parents w' p \<noteq> None"
  shows "forest_ok n w' ts"
  using assms unfolding forest_ok_def by blast

lemma pending_below_simps [simp]:
  "pending_below w [] = 0"
  "NO_MATCH [] ts \<Longrightarrow> pending_below w (t # ts) = pending_below w [t] + pending_below w ts"
  "pending_below w [ParentTree cls a children] = pending_below w children"
  by (simp_all add: pending_below_def)

lemma pending_below_cong:
  "(\<And>a. a \<in> set (forest_registers ts) \<Longrightarrow> registers w a = registers w' a) \<Longrightarrow> pending_below w ts = pending_below w' ts"
  unfolding pending_below_def by (intro arg_cong [where f = length] filter_cong) simp_all

lemma counts_cong:
  assumes "\<And>a. a \<in> set (tree_registers s) \<Longrightarrow> registers w a = registers w' a"
    and "\<And>p. p \<in> set (tree_parents s) \<Longrightarrow> parents w p = parents w' p"
  shows "PendingCount w s = PendingCount w' s" "iRunLoopCount w s = iRunLoopCount w' s"
  using assms by (cases s; simp add: register_at_def deref_def parent_at_def)+

lemma counted_frame:
  assumes "counted w w1 s" and "\<And>a. a \<in> set (tree_registers s) \<Longrightarrow> registers w1 a = registers w2 a"
    and "\<And>p. p \<in> set (tree_parents s) \<Longrightarrow> parents w1 p = parents w2 p"
  shows "counted w w2 s"
  using assms(1) counts_cong [OF assms(2,3)] pending_below_cong [of "[s]" w1 w2] assms(2) by (simp add: counted_def)

lemma counted_start:
  assumes "counted w1 w2 s"
    and "\<And>a. a \<in> set (tree_registers s) \<Longrightarrow> m_iRunloopCount (the (registers w a)) = m_iRunloopCount (the (registers w1 a))"
    and "\<And>p. p \<in> set (tree_parents s) \<Longrightarrow> parents w p = parents w1 p"
  shows "counted w w2 s"
  using assms(1) run_loops_cong [OF assms(2,3)] by (simp add: counted_def)

lemma on_each_marked_loops:
  "m_iRunloopCount (the (st a)) = m_iRunloopCount (the (on_each marked as st a))"
  by (cases "st a") (auto simp: on_each_def)

lemma propagated_Cons:
  assumes ok: "forest_ok n w (c # cs)" and w1: "propagated [c] w w1" and w2: "propagated cs w1 w2"
  shows "propagated (c # cs) w w2"
proof -
  have disj: "set (tree_registers c) \<inter> set (forest_registers cs) = {}" "set (tree_parents c) \<inter> set (forest_parents cs) = {}"
    using ok forest_ok_simps(2) [of n w c cs] by simp_all
  note 1 = w1 [unfolded propagated_def] and 2 = w2 [unfolded propagated_def]
  have regs: "registers w2 = on_each marked (forest_registers (c # cs)) (registers w)"
    using 1 2 disj by (simp add: on_each_append)
  have "counted w w2 s" if s: "s \<in> forest_subtrees (c # cs)" for s
  proof (cases "s \<in> subtrees c")
    case True
    then have nodes: "set (tree_registers s) \<subseteq> set (tree_registers c)" "set (tree_parents s) \<subseteq> set (tree_parents c)"
      by (rule subtree_nodes)+
    have "counted w w1 s" using 1 True by simp
    then show ?thesis
    proof (rule counted_frame)
      show "registers w1 a = registers w2 a" if "a \<in> set (tree_registers s)" for a
      proof -
        have "a \<notin> set (forest_registers cs)" using that nodes(1) disj(1) by blast
        then show ?thesis using 2 by simp
      qed
      show "parents w1 p = parents w2 p" if "p \<in> set (tree_parents s)" for p
      proof -
        have "p \<notin> set (forest_parents cs)" using that nodes(2) disj(2) by blast
        then show ?thesis using 2 by simp
      qed
    qed
  next
    case False
    then have s: "s \<in> forest_subtrees cs" using s by simp
    note nodes = forest_subtree_nodes [OF s]
    have "counted w1 w2 s" using 2 s by blast
    then show ?thesis
    proof (rule counted_start)
      show "m_iRunloopCount (the (registers w a)) = m_iRunloopCount (the (registers w1 a))" for a
        using 1 by (simp add: on_each_marked_loops)
      show "parents w p = parents w1 p" if "p \<in> set (tree_parents s)" for p
      proof -
        have "p \<notin> set (tree_parents c)" using that nodes(2) disj(2) by blast
        then show ?thesis using 1 by simp
      qed
    qed
  qed
  then show ?thesis using 1 2 regs unfolding propagated_def by simp
qed

lemma propagated_Nil: "propagated [] w w' \<longleftrightarrow> w' = w"
  by (auto simp: propagated_def fun_eq_iff)

lemma propagated_counts:
  assumes "propagated [c] w w'"
  shows "PendingCount w' c = Inr (pending_below w' [c])" "iRunLoopCount w' c = Inr (run_loops w c)"
  using assms by (simp_all add: propagated_def counted_def)

lemma propagated_ok:
  assumes "forest_ok n w ts" and "propagated cs w w'" shows "forest_ok n w' ts"
proof (rule forest_ok_cong [OF assms(1)])
  note p = assms(2) [unfolded propagated_def]
  show "live_register n w' a" if "live_register n w a" for a
    using that p by (auto simp: live_register_def on_each_def)
  show "parents w' q \<noteq> None" if "parents w q \<noteq> None" for q
    using that p by (metis map_option_is_None)
qed

lemma propagated_run_loops:
  assumes ok: "forest_ok n w (c # cs)" and w1: "propagated [c] w w1" and x: "x \<in> set cs"
  shows "run_loops w1 x = run_loops w x"
proof (rule run_loops_cong)
  note 1 = w1 [unfolded propagated_def]
  show "m_iRunloopCount (the (registers w1 a)) = m_iRunloopCount (the (registers w a))" for a
    using 1 by (simp add: on_each_marked_loops [symmetric])
  show "parents w1 p = parents w p" if "p \<in> set (tree_parents x)" for p
  proof -
    have "p \<notin> set (tree_parents c)" using that x ok forest_ok_simps(2) [of n w c cs] by auto
    then show ?thesis using 1 by simp
  qed
qed

lemma pending_below_bound: "pending_below w ts \<le> length (forest_registers ts)"
  by (simp add: pending_below_def)

definition propagates :: "(nat \<Rightarrow> nat) \<Rightarrow> SystemTree \<Rightarrow> bool" where
  "propagates n c \<longleftrightarrow> (\<forall>w. tree_ok n w c \<longrightarrow> length (tree_registers c) < 4294967296
    \<longrightarrow> (\<exists>w'. PropagatePending c w = (Inr (), w') \<and> propagated [c] w w'))"

lemma ChildrenPendings_loop_eq:
  assumes "\<And>c. c \<in> set cs \<Longrightarrow> propagates n c" and "forest_ok n w cs"
    and "k + length (forest_registers cs) < 4294967296"
  shows "\<exists>w'. ChildrenPendings_loop cs k l w
      = (Inr (k + pending_below w' cs, foldl (\<lambda>m c. max m (run_loops w c)) l cs), w') \<and> propagated cs w w'"
  using assms
proof (induction cs arbitrary: k l w)
  case Nil
  then show ?case by (simp add: propagated_Nil)
next
  case (Cons c cs)
  have ok: "tree_ok n w c" "forest_ok n w cs" using Cons.prems(2) forest_ok_simps(2) [of n w c cs] by (simp_all add: tree_ok_def)
  obtain w1 where w1: "PropagatePending c w = (Inr (), w1)" "propagated [c] w w1"
    using Cons.prems(1) [of c] ok(1) Cons.prems(3) by (auto simp: propagates_def)
  note counts = propagated_counts [OF w1(2)]
  let ?k = "k + pending_below w1 [c]" and ?l = "max l (run_loops w c)"
  have le: "pending_below w1 [c] \<le> length (tree_registers c)" using pending_below_bound [of w1 "[c]"] by simp
  have "forest_ok n w1 cs" by (rule propagated_ok [OF ok(2) w1(2)])
  then obtain w2 where w2: "ChildrenPendings_loop cs ?k ?l w1
      = (Inr (?k + pending_below w2 cs, foldl (\<lambda>m c. max m (run_loops w1 c)) ?l cs), w2)" "propagated cs w1 w2"
    using Cons.IH [of w1 ?k ?l] Cons.prems(1,3) le by auto
  have fold: "foldl (\<lambda>m c. max m (run_loops w1 c)) ?l cs = foldl (\<lambda>m c. max m (run_loops w c)) ?l cs"
    using propagated_run_loops [OF Cons.prems(2) w1(2)] by (intro foldl_cong) simp_all
  have all: "propagated (c # cs) w w2" by (rule propagated_Cons [OF Cons.prems(2) w1(2) w2(2)])
  have same: "pending_below w1 [c] = pending_below w2 [c]"
  proof (rule pending_below_cong)
    fix a assume "a \<in> set (forest_registers [c])"
    then have "a \<notin> set (forest_registers cs)" using Cons.prems(2) forest_ok_simps(2) [of n w c cs] by auto
    then show "registers w1 a = registers w2 a" using w2(2) by (simp add: propagated_def)
  qed
  have "pending_below w2 (c # cs) = pending_below w2 [c] + pending_below w2 cs" by (cases cs) simp_all
  moreover have "(if run_loops w c > l then max l (run_loops w c) else l) = ?l" by auto
  ultimately have "ChildrenPendings_loop (c # cs) k l w
      = (Inr (k + pending_below w2 (c # cs), foldl (\<lambda>m c. max m (run_loops w c)) l (c # cs)), w2)"
    using w1(1) w2(1) counts le Cons.prems(3) fold same
    by (simp add: act_then_simps act_bind_read u32_small add.assoc)
  then show ?case using all by blast
qed

lemma at_parent_eq:
  "parents w a = Some nd \<Longrightarrow> at_parent a f w = (Inr (), w\<lparr>parents := (parents w)(a \<mapsto> f nd)\<rparr>)"
  by (simp add: at_parent_def)

lemma propagated_parent:
  assumes ok: "forest_ok n w [ParentTree cls a cs]" and w1: "propagated cs w w1" and nd: "parents w a = Some nd"
    and nd': "m_pendingCount nd' = pending_below w1 cs" "m_iRunloopCount nd' = run_loops w (ParentTree cls a cs)"
      "uncounted nd' = uncounted nd"
  shows "propagated [ParentTree cls a cs] w (w1\<lparr>parents := (parents w1)(a \<mapsto> nd')\<rparr>)"
proof -
  let ?w = "w1\<lparr>parents := (parents w1)(a \<mapsto> nd')\<rparr>"
  have a: "a \<notin> set (forest_parents cs)" using ok by (simp add: forest_ok_simps(3))
  note 1 = w1 [unfolded propagated_def]
  have root: "counted w ?w (ParentTree cls a cs)"
    using nd'(1,2) pending_below_cong [of cs ?w w1] by (simp add: counted_def parent_at_def)
  have inner: "counted w ?w s" if s: "s \<in> forest_subtrees cs" for s
  proof (rule counted_frame)
    show "counted w w1 s" using 1 s by blast
    show "parents w1 p = parents ?w p" if "p \<in> set (tree_parents s)" for p
      using that a forest_subtree_nodes(2) [OF s] by auto
  qed simp
  have "map_option uncounted (parents ?w p) = map_option uncounted (parents w p)" for p
    using 1 nd nd'(3) by simp
  then show ?thesis using 1 root inner unfolding propagated_def by simp
qed

lemma PropagatePending_eq: "propagates n t"
proof (induction t)
  case (RegisterLeaf a)
  show ?case unfolding propagates_def
  proof (intro allI impI)
    fix w assume "tree_ok n w (RegisterLeaf a)"
    then obtain r where r: "registers w a = Some r" "reg_inv (n a) r"
      by (auto simp: tree_ok_def forest_ok_simps(4) live_register_def)
    have w': "PropagatePending (RegisterLeaf a) w = (Inr (), w\<lparr>registers := on_each marked [a] (registers w)\<rparr>)"
      using on_register_eq [OF r(1), where m = PropagatePending_VisitRegister, OF VisitRegister_marked [OF r(2)]] r(1) by simp
    have "propagated [RegisterLeaf a] w (w\<lparr>registers := on_each marked [a] (registers w)\<rparr>)"
      using r by (simp add: propagated_def counted_def pending_below_def register_at_def deref_def Register_PendingCount_def Register_IsPending_def)
    then show "\<exists>w'. PropagatePending (RegisterLeaf a) w = (Inr (), w') \<and> propagated [RegisterLeaf a] w w'"
      using w' by blast
  qed
next
  case (ParentTree cls a cs)
  show ?case unfolding propagates_def
  proof (intro allI impI)
    fix w assume ok: "tree_ok n w (ParentTree cls a cs)" and len: "length (tree_registers (ParentTree cls a cs)) < 4294967296"
    then obtain nd where nd: "parents w a = Some nd" by (auto simp: tree_ok_def forest_ok_simps(3))
    have cs: "forest_ok n w cs" "a \<notin> set (forest_parents cs)" using ok by (simp_all add: tree_ok_def forest_ok_simps(3))
    obtain w1 where w1: "ChildrenPendings_loop cs 0 0 w
        = (Inr (pending_below w1 cs, foldl (\<lambda>m c. max m (run_loops w c)) 0 cs), w1)" "propagated cs w w1"
      using ChildrenPendings_loop_eq [OF ParentTree.IH cs(1), of 0 0] len by auto
    have nd1: "parents w1 a = Some nd" using w1(2) nd cs(2) by (simp add: propagated_def)
    let ?nd = "SetiRunLoop (run_loops w (ParentTree cls a cs)) (SetPendingCount (pending_below w1 cs) nd)"
    have "PropagatePending (ParentTree cls a cs) w = (Inr (), w1\<lparr>parents := (parents w1)(a \<mapsto> ?nd)\<rparr>)"
      using w1(1) nd nd1 by (simp add: act_bind_def act_bind_read parent_at_def at_parent_def Let_def)
    moreover have "propagated [ParentTree cls a cs] w (w1\<lparr>parents := (parents w1)(a \<mapsto> ?nd)\<rparr>)"
      by (rule propagated_parent [OF _ w1(2) nd])
        (use ok in \<open>simp_all add: tree_ok_def SetiRunLoop_def SetPendingCount_def uncounted_def\<close>)
    ultimately show "\<exists>w'. PropagatePending (ParentTree cls a cs) w = (Inr (), w') \<and> propagated [ParentTree cls a cs] w w'"
      by blast
  qed
qed

end
