(* ===== verification/Scan_Chain.thy ===== *)
theory Scan_Chain
  imports Model_Tree
begin

text \<open>
  What is shifted through the circuit: \<^verbatim>\<open>ToSutVisitor\<close> (\<^verbatim>\<open>internal/ToSutVisitor.hpp\<close>,
  \<^verbatim>\<open>ToSutVisitor.cpp\<close>) collects the values of the active registers of a channel, and \<^verbatim>\<open>FromSutUpdater\<close>
  (\<^verbatim>\<open>FromSutUpdater.cpp\<close>) deals the received bits out to the same registers, which it finds by their
  identifiers in the system model (\<^verbatim>\<open>SystemModel::NodeWithId\<close>).
\<close>

section \<open>Collecting the bits to send\<close>

record ToSutVisitor =
  toSutVector :: BinaryVector
  activeRegisters :: "nat list"
  ignorePendingState :: bool
  activeStreamers :: "(nat \<times> nat \<times> nat) list"
  checkExpected :: bool
  expectedFromSut :: BinaryVector
  dontCareMask :: BinaryVector

definition ToSutVisitor_create :: "bool \<Rightarrow> ToSutVisitor" where
  "ToSutVisitor_create ignorePending =
    \<lparr>toSutVector = BinaryVector_empty, activeRegisters = [], ignorePendingState = ignorePending, activeStreamers = [],
     checkExpected = False, expectedFromSut = BinaryVector_empty, dontCareMask = BinaryVector_empty\<rparr>"

definition ToSutVisitor_Reset :: "ToSutVisitor \<Rightarrow> ToSutVisitor" where
  "ToSutVisitor_Reset v = v\<lparr>toSutVector := Clear (toSutVector v), activeRegisters := []\<rparr>"

definition append_toSut :: "BinaryVector \<Rightarrow> (ToSutVisitor, unit) act" where
  "append_toSut rhs = act_assign (\<lambda>v. Append rhs (toSutVector v)) (\<lambda>x v. v\<lparr>toSutVector := x\<rparr>)"

definition append_expected :: "BinaryVector \<Rightarrow> (ToSutVisitor, unit) act" where
  "append_expected rhs = act_assign (\<lambda>v. Append rhs (expectedFromSut v)) (\<lambda>x v. v\<lparr>expectedFromSut := x\<rparr>)"

definition append_mask :: "BinaryVector \<Rightarrow> (ToSutVisitor, unit) act" where
  "append_mask rhs = act_assign (\<lambda>v. Append rhs (dontCareMask v)) (\<lambda>x v. v\<lparr>dontCareMask := x\<rparr>)"

definition ToSut_VisitRegister :: "Register \<Rightarrow> (ToSutVisitor, unit) act" where
  "ToSut_VisitRegister reg =
    act_then (\<lambda>v. append_toSut (if ignorePendingState v \<or> Node_IsPending reg then m_nextToSut reg else m_bypass reg) v)
   (act_then
     (if m_mustCheckExpected reg
      then act_then (act_modify (\<lambda>v. v\<lparr>checkExpected := True\<rparr>))
          (act_then (append_expected (m_expectedFromSut reg))
            (if \<not> IsEmpty (m_dontCareMask reg) then append_mask (m_dontCareMask reg)
             else act_bind (act_read (\<lambda>_. rbind (BinaryVector_fill (Register_BitsCount reg) 0 Fixed) ToggleBits)) append_mask))
      else act_then (act_bind (act_read (\<lambda>_. BinaryVector_fill (Register_BitsCount reg) 0 Fixed)) append_expected)
          (act_bind (act_read (\<lambda>_. BinaryVector_fill (Register_BitsCount reg) 0 Fixed)) append_mask))
     (act_modify (\<lambda>v. v\<lparr>activeRegisters := activeRegisters v @ [m_identifier reg]\<rparr>)))"

text \<open>An access interface stops the visit; a streamer records where its part of the chain begins and ends.\<close>

fun ToSut :: "World \<Rightarrow> SystemTree \<Rightarrow> (ToSutVisitor, unit) act"
  and ToSut_VisitChildren :: "World \<Rightarrow> SystemTree list \<Rightarrow> (ToSutVisitor, unit) act"
  and ToSut_VisitActive :: "World \<Rightarrow> nat \<Rightarrow> SystemTree list \<Rightarrow> nat \<Rightarrow> (ToSutVisitor, unit) act" where
  "ToSut w (RegisterLeaf a) = act_bind (act_read (\<lambda>_. register_at w a)) ToSut_VisitRegister"
| "ToSut w (ParentTree cls a children) =
    (if cls = AccessInterface then act_return ()
     else if cls = Linker then ToSut_VisitActive w a children 1
     else if cls = Streamer
     then act_bind (act_read (\<lambda>v. Inr (BitsCount (toSutVector v)))) (\<lambda>before.
          act_then (ToSut_VisitChildren w children)
          (act_bind (act_read (\<lambda>_. parent_at w a)) (\<lambda>streamer.
             act_modify (\<lambda>v. v\<lparr>activeStreamers := activeStreamers v
               @ [(before, BitsCount (toSutVector v), m_identifier streamer)]\<rparr>))))
     else ToSut_VisitChildren w children)"
| "ToSut_VisitChildren w [] = act_return ()"
| "ToSut_VisitChildren w (child # siblings) = act_then (ToSut w child) (ToSut_VisitChildren w siblings)"
| "ToSut_VisitActive w l [] pathIdentifier = act_return ()"
| "ToSut_VisitActive w l (child # siblings) pathIdentifier =
    act_bind (act_read (\<lambda>_. Linker_IsActive w l pathIdentifier)) (\<lambda>active.
    act_then (if active then ToSut w child else act_return ())
      (ToSut_VisitActive w l siblings (u32 (pathIdentifier + 1))))"

section \<open>Dealing out the received bits\<close>

text \<open>A node of the model is a register or a parent; a removed node leaves a null entry.\<close>

datatype NodeRef = RegisterRef nat | ParentRef nat

definition NodeWithId :: "NodeRef option list \<Rightarrow> nat \<Rightarrow> NodeRef result" where
  "NodeWithId m_identifierMapping identifier =
    (if identifier \<ge> length m_identifierMapping then Inl LogicError
     else case m_identifierMapping ! identifier of None \<Rightarrow> Inl LogicError | Some node \<Rightarrow> Inr node)"

definition RegisterWithId :: "NodeRef option list \<Rightarrow> nat \<Rightarrow> register_ptr result" where
  "RegisterWithId m_identifierMapping identifier =
    rbind (NodeWithId m_identifierMapping identifier) (\<lambda>node. Inr (case node of RegisterRef a \<Rightarrow> Some a | ParentRef a \<Rightarrow> None))"

definition FromSut_slice :: "NodeRef option list \<Rightarrow> nat \<Rightarrow> nat \<Rightarrow> BinaryVector \<Rightarrow> store
    \<Rightarrow> (register_ptr \<times> nat \<times> BinaryVector) result" where
  "FromSut_slice ids offset regId fromSutVector st =
    rbind (RegisterWithId ids regId) (\<lambda>reg.
    CheckValueCondition (reg \<noteq> None)
    (rbind (deref st reg) (\<lambda>r.
      let bitsCount = Register_BitsCount r
      in if u32 (offset + bitsCount) > BitsCount fromSutVector then Inl LogicError
         else rbind (Slice offset bitsCount fromSutVector) (\<lambda>part. Inr (reg, bitsCount, part)))))"

definition FromSut_update :: "BinaryVector \<Rightarrow> (Register, unit) act" where
  "FromSut_update part =
    act_then (SetFromSut part)
   (act_then UpdateLastToSut
   (act_modify (\<lambda>r. SetCheckExpected False (Register_ResetPending r))))"

fun UpdateRegisters_loop :: "NodeRef option list \<Rightarrow> BinaryVector \<Rightarrow> nat \<Rightarrow> nat list \<Rightarrow> (store, unit) act" where
  "UpdateRegisters_loop ids fromSutVector offset [] =
    (if offset \<noteq> BitsCount fromSutVector then act_throw LogicError else act_return ())"
| "UpdateRegisters_loop ids fromSutVector offset (regId # rest) =
    act_bind (act_read (FromSut_slice ids offset regId fromSutVector)) (\<lambda>(reg, bitsCount, part).
    act_then (act_at reg (FromSut_update part))
      (UpdateRegisters_loop ids fromSutVector (u32 (offset + bitsCount)) rest))"

definition FromSut_UpdateRegisters :: "NodeRef option list \<Rightarrow> nat list \<Rightarrow> BinaryVector \<Rightarrow> (store, unit) act" where
  "FromSut_UpdateRegisters ids activeRegs fromSutVector = UpdateRegisters_loop ids fromSutVector 0 activeRegs"

section \<open>The active part of the chain\<close>

definition path_open :: "World \<Rightarrow> NodeClass \<Rightarrow> nat \<Rightarrow> nat \<Rightarrow> bool" where
  "path_open w cls l i \<longleftrightarrow> cls \<noteq> Linker \<or> Linker_IsActive w l i = Inr True"

fun active :: "World \<Rightarrow> SystemTree \<Rightarrow> nat list"
  and active_from :: "World \<Rightarrow> NodeClass \<Rightarrow> nat \<Rightarrow> nat \<Rightarrow> SystemTree list \<Rightarrow> nat list" where
  "active w (RegisterLeaf a) = [a]"
| "active w (ParentTree cls l cs) = (if cls = AccessInterface then [] else active_from w cls l 1 cs)"
| "active_from w cls l i [] = []"
| "active_from w cls l i (c # cs) = (if path_open w cls l i then active w c else []) @ active_from w cls l (Suc i) cs"

text \<open>The queries a visit makes are defined, and registers and streamers exist.\<close>

fun visitable :: "(nat \<Rightarrow> nat) \<Rightarrow> World \<Rightarrow> SystemTree \<Rightarrow> bool"
  and visitable_from :: "(nat \<Rightarrow> nat) \<Rightarrow> World \<Rightarrow> NodeClass \<Rightarrow> nat \<Rightarrow> nat \<Rightarrow> SystemTree list \<Rightarrow> bool" where
  "visitable n w (RegisterLeaf a) = live_register n w a"
| "visitable n w (ParentTree cls l cs) = (parents w l \<noteq> None \<and> (cls = AccessInterface \<or> visitable_from n w cls l 1 cs))"
| "visitable_from n w cls l i [] = (i < 4294967296)"
| "visitable_from n w cls l i (c # cs) =
    ((cls = Linker \<longrightarrow> Linker_IsActive w l i = Inr True \<or> Linker_IsActive w l i = Inr False)
     \<and> (path_open w cls l i \<longrightarrow> visitable n w c) \<and> visitable_from n w cls l (Suc i) cs)"

definition width_of :: "(nat \<Rightarrow> nat) \<Rightarrow> nat list \<Rightarrow> nat" where
  "width_of n as = sum_list (map n as)"

definition register_of :: "World \<Rightarrow> nat \<Rightarrow> Register" where
  "register_of w a = the (registers w a)"

definition shift_out :: "bool \<Rightarrow> Register \<Rightarrow> bool list" where
  "shift_out ignore r = bits_of (if ignore \<or> Node_IsPending r then m_nextToSut r else m_bypass r)"

definition expect_bits :: "Register \<Rightarrow> bool list" where
  "expect_bits r = (if m_mustCheckExpected r then bits_of (m_expectedFromSut r)
                    else replicate (length (bits_of (m_bypass r))) False)"

definition mask_bits_of :: "Register \<Rightarrow> bool list" where
  "mask_bits_of r = (if \<not> m_mustCheckExpected r then replicate (length (bits_of (m_bypass r))) False
                     else if bits_of (m_dontCareMask r) = [] then replicate (length (bits_of (m_bypass r))) True
                     else bits_of (m_dontCareMask r))"

definition chain_bits :: "(Register \<Rightarrow> bool list) \<Rightarrow> World \<Rightarrow> nat list \<Rightarrow> bool list" where
  "chain_bits f w as = concat (map (\<lambda>a. f (register_of w a)) as)"

fun levels :: "(nat \<Rightarrow> nat) \<Rightarrow> World \<Rightarrow> nat \<Rightarrow> SystemTree \<Rightarrow> (nat \<times> nat \<times> nat) list"
  and levels_from :: "(nat \<Rightarrow> nat) \<Rightarrow> World \<Rightarrow> NodeClass \<Rightarrow> nat \<Rightarrow> nat \<Rightarrow> nat \<Rightarrow> SystemTree list \<Rightarrow> (nat \<times> nat \<times> nat) list" where
  "levels n w off (RegisterLeaf a) = []"
| "levels n w off (ParentTree cls l cs) = (if cls = AccessInterface then [] else levels_from n w cls l 1 off cs
     @ (if cls = Streamer then [(off, off + width_of n (active_from w cls l 1 cs), m_identifier (the (parents w l)))] else []))"
| "levels_from n w cls l i off [] = []"
| "levels_from n w cls l i off (c # cs) =
    (if path_open w cls l i then levels n w off c @ levels_from n w cls l (Suc i) (off + width_of n (active w c)) cs
     else levels_from n w cls l (Suc i) off cs)"

section \<open>What a visit collects\<close>

definition mask_fits :: "nat \<Rightarrow> Register \<Rightarrow> bool" where
  "mask_fits k r \<longleftrightarrow> bits_of (m_dontCareMask r) = [] \<or> length (bits_of (m_dontCareMask r)) = k"

definition collected ::
    "bool \<Rightarrow> bool list \<Rightarrow> bool list \<Rightarrow> bool list \<Rightarrow> nat list \<Rightarrow> (nat \<times> nat \<times> nat) list \<Rightarrow> bool \<Rightarrow> ToSutVisitor" where
  "collected ign xs es ms ids lv ce = \<lparr>toSutVector = bv_make xs NotFixed, activeRegisters = ids, ignorePendingState = ign,
     activeStreamers = lv, checkExpected = ce, expectedFromSut = bv_make es NotFixed, dontCareMask = bv_make ms NotFixed\<rparr>"

lemma collected_sel [simp]:
  "ignorePendingState (collected ign xs es ms ids lv ce) = ign"
  "BitsCount (toSutVector (collected ign xs es ms ids lv ce)) = length xs"
  "collected ign xs es ms ids lv ce\<lparr>activeRegisters := ids'\<rparr> = collected ign xs es ms ids' lv ce"
  "activeRegisters (collected ign xs es ms ids lv ce) = ids"
  "activeStreamers (collected ign xs es ms ids lv ce) = lv"
  "collected ign xs es ms ids lv ce\<lparr>activeStreamers := lv'\<rparr> = collected ign xs es ms ids lv' ce"
  "collected ign xs es ms ids lv ce\<lparr>checkExpected := ce'\<rparr> = collected ign xs es ms ids lv ce'"
  by (simp_all add: collected_def)

lemma append_collected:
  assumes "fixed_bits k v \<or> loose v"
  shows "length xs + length (bits_of v) < 4294967296 \<Longrightarrow>
      append_toSut v (collected ign xs es ms ids lv ce) = (Inr (), collected ign (xs @ bits_of v) es ms ids lv ce)"
    and "length es + length (bits_of v) < 4294967296 \<Longrightarrow>
      append_expected v (collected ign xs es ms ids lv ce) = (Inr (), collected ign xs (es @ bits_of v) ms ids lv ce)"
    and "length ms + length (bits_of v) < 4294967296 \<Longrightarrow>
      append_mask v (collected ign xs es ms ids lv ce) = (Inr (), collected ign xs es (ms @ bits_of v) ids lv ce)"
proof -
  obtain q where v: "v = bv_make (bits_of v) q" using assms by (auto simp: fixed_bits_def loose_def)
  have "Append v (bv_make ys NotFixed) = Inr (bv_make (ys @ bits_of v) NotFixed)" if "length ys + length (bits_of v) < 4294967296" for ys
    using Append_make [OF that, of q NotFixed] v by simp
  then show "length xs + length (bits_of v) < 4294967296 \<Longrightarrow>
      append_toSut v (collected ign xs es ms ids lv ce) = (Inr (), collected ign (xs @ bits_of v) es ms ids lv ce)"
    "length es + length (bits_of v) < 4294967296 \<Longrightarrow>
      append_expected v (collected ign xs es ms ids lv ce) = (Inr (), collected ign xs (es @ bits_of v) ms ids lv ce)"
    "length ms + length (bits_of v) < 4294967296 \<Longrightarrow>
      append_mask v (collected ign xs es ms ids lv ce) = (Inr (), collected ign xs es (ms @ bits_of v) ids lv ce)"
    by (simp_all add: append_toSut_def append_expected_def append_mask_def act_assign_def collected_def)
qed

lemma reg_lengths:
  assumes "reg_inv k r"
  shows "length (bits_of (m_bypass r)) = k" "length (bits_of (m_nextToSut r)) = k" "length (bits_of (m_expectedFromSut r)) = k"
    "Register_BitsCount r = k"
  using reg_invD [OF assms] by (simp_all add: fixed_bits_def reg_inv_BitsCount [OF assms])

lemma length_chain_value:
  assumes "reg_inv k r" and "mask_fits k r"
  shows "length (shift_out ign r) = k" "length (expect_bits r) = k" "length (mask_bits_of r) = k"
  using assms reg_lengths [OF assms(1)] by (auto simp: shift_out_def expect_bits_def mask_bits_of_def mask_fits_def)

lemma ToSut_VisitRegister_eq:
  assumes r: "reg_inv k r" and m: "mask_fits k r" and k: "k + 7 < 4294967296"
    and len: "length xs + k < 4294967296" "length es = length xs" "length ms = length xs"
  shows "ToSut_VisitRegister r (collected ign xs es ms ids lv ce) = (Inr (), collected ign (xs @ shift_out ign r)
      (es @ expect_bits r) (ms @ mask_bits_of r) (ids @ [m_identifier r]) lv (ce \<or> m_mustCheckExpected r))"
proof -
  note f = reg_invD [OF r] and n = reg_lengths [OF r]
  have fill: "BinaryVector_fill k 0 Fixed = Inr (bv_make (replicate k False) Fixed)"
    using BinaryVector_fill_make [OF k] by simp
  have toSut: "append_toSut (if ign \<or> Node_IsPending r then m_nextToSut r else m_bypass r) (collected ign xs es ms ids lv ce)
      = (Inr (), collected ign (xs @ shift_out ign r) es ms ids lv ce)"
    using append_collected(1) [of k "m_nextToSut r"] append_collected(1) [of k "m_bypass r"] f(1,5) n len
    by (simp add: shift_out_def)
  show ?thesis
  proof (cases "m_mustCheckExpected r")
    case False
    have "fixed_bits k (bv_make (replicate k False) Fixed)" by simp
    then have "append_expected (bv_make (replicate k False) Fixed) (collected ign ys es ms ids lv ce) = (Inr (), collected ign ys (es @ replicate k False) ms ids lv ce)"
      "append_mask (bv_make (replicate k False) Fixed) (collected ign ys es' ms ids lv ce) = (Inr (), collected ign ys es' (ms @ replicate k False) ids lv ce)" for ys es'
      using append_collected(2,3) [of k "bv_make (replicate k False) Fixed"] len by simp_all
    then show ?thesis using False toSut n fill
      by (simp add: ToSut_VisitRegister_def act_then_simps act_bind_read expect_bits_def mask_bits_of_def)
  next
    case True
    have exp: "append_expected (m_expectedFromSut r) (collected ign ys es ms ids lv ce') = (Inr (), collected ign ys (es @ bits_of (m_expectedFromSut r)) ms ids lv ce')" for ys ce'
      using append_collected(2) [of k "m_expectedFromSut r"] f(4) n len by simp
    have mask: "append_mask (m_dontCareMask r) (collected ign ys es' ms ids lv ce') = (Inr (), collected ign ys es' (ms @ mask_bits_of r) ids lv ce')"
      if "bits_of (m_dontCareMask r) \<noteq> []" for ys es' ce'
      using append_collected(3) [of k "m_dontCareMask r"] f(7) m n len that True by (simp add: mask_bits_of_def mask_fits_def)
    have ones: "append_mask (bv_make (replicate k True) Fixed) (collected ign ys es' ms ids lv ce') = (Inr (), collected ign ys es' (ms @ replicate k True) ids lv ce')" for ys es' ce'
      using append_collected(3) [of k "bv_make (replicate k True) Fixed"] len by simp
    obtain q where q: "m_dontCareMask r = bv_make (bits_of (m_dontCareMask r)) q" using f(7) by (auto simp: loose_def)
    have "IsEmpty (m_dontCareMask r) = (bits_of (m_dontCareMask r) = [])" using IsEmpty_make [of "bits_of (m_dontCareMask r)" q] q by simp
    then show ?thesis using True toSut n fill exp mask ones
      by (simp add: ToSut_VisitRegister_def act_then_simps act_bind_read expect_bits_def mask_bits_of_def ToggleBits_make)
  qed
qed

lemma visitable_live:
  "visitable n w t \<Longrightarrow> \<forall>a \<in> set (active w t). live_register n w a"
  "visitable_from n w cls l i cs \<Longrightarrow> \<forall>a \<in> set (active_from w cls l i cs). live_register n w a"
  by (induction w t and w cls l i cs rule: active_active_from.induct) (auto split: if_splits)

lemma width_of_append [simp]: "width_of n (as @ bs) = width_of n as + width_of n bs"
  by (simp add: width_of_def)

lemma chain_bits_append [simp]: "chain_bits f w (as @ bs) = chain_bits f w as @ chain_bits f w bs"
  by (simp add: chain_bits_def)

definition chain_ok :: "(nat \<Rightarrow> nat) \<Rightarrow> World \<Rightarrow> nat list \<Rightarrow> bool" where
  "chain_ok n w as \<longleftrightarrow> (\<forall>a \<in> set as. live_register n w a \<and> mask_fits (n a) (register_of w a))"

lemma chain_ok_append [simp]: "chain_ok n w (as @ bs) \<longleftrightarrow> chain_ok n w as \<and> chain_ok n w bs"
  by (auto simp: chain_ok_def)

lemma length_chain_bits:
  assumes "chain_ok n w as"
  shows "length (chain_bits (shift_out ign) w as) = width_of n as" "length (chain_bits expect_bits w as) = width_of n as"
    "length (chain_bits mask_bits_of w as) = width_of n as"
  using assms
  by (induction as) (auto simp: chain_bits_def chain_ok_def width_of_def live_register_def register_of_def length_chain_value)

definition extended :: "bool \<Rightarrow> World \<Rightarrow> nat list \<Rightarrow> (nat \<times> nat \<times> nat) list \<Rightarrow> ToSutVisitor \<Rightarrow> ToSutVisitor" where
  "extended ign w as lv v = collected ign (bits_of (toSutVector v) @ chain_bits (shift_out ign) w as)
     (bits_of (expectedFromSut v) @ chain_bits expect_bits w as) (bits_of (dontCareMask v) @ chain_bits mask_bits_of w as)
     (activeRegisters v @ map (\<lambda>a. m_identifier (register_of w a)) as) (activeStreamers v @ lv)
     (checkExpected v \<or> (\<exists>a \<in> set as. m_mustCheckExpected (register_of w a)))"

definition aligned :: "bool \<Rightarrow> nat \<Rightarrow> ToSutVisitor \<Rightarrow> bool" where
  "aligned ign k v \<longleftrightarrow> (\<exists>xs es ms ids lv ce. v = collected ign xs es ms ids lv ce \<and> length xs = k \<and> length es = k \<and> length ms = k)"

lemma extended_extended: "extended ign w bs lv' (extended ign w as lv v) = extended ign w (as @ bs) (lv @ lv') v"
  by (simp add: extended_def collected_def disj_assoc bex_Un)

lemma extended_aligned: "aligned ign k v \<Longrightarrow> chain_ok n w as \<Longrightarrow> aligned ign (k + width_of n as) (extended ign w as lv v)"
  unfolding aligned_def extended_def using length_chain_bits by (fastforce simp: collected_def)

lemma extended_nothing: "aligned ign k v \<Longrightarrow> extended ign w [] [] v = v"
  by (auto simp: aligned_def extended_def collected_def chain_bits_def)

lemma aligned_BitsCount: "aligned ign k v \<Longrightarrow> BitsCount (toSutVector v) = k"
  by (auto simp: aligned_def)

lemma ToSut_register:
  assumes live: "live_register n w a" and fits: "mask_fits (n a) (register_of w a)"
    and v: "aligned ign k v" and len: "k + n a + 7 < 4294967296"
  shows "ToSut w (RegisterLeaf a) v = (Inr (), extended ign w [a] [] v)"
proof -
  obtain r where r: "registers w a = Some r" "reg_inv (n a) r" "register_of w a = r" using live by (auto simp: live_register_def register_of_def)
  obtain xs es ms ids lv ce where c: "v = collected ign xs es ms ids lv ce" "length xs = k" "length es = k" "length ms = k"
    using v by (auto simp: aligned_def)
  show ?thesis
    using ToSut_VisitRegister_eq [OF r(2), of xs es ms ign ids lv ce] fits r len c
    by (simp add: act_bind_read register_at_def deref_def extended_def chain_bits_def collected_def)
qed

text \<open>Both loops over children do the same on open paths.\<close>

definition ToSut_loop :: "World \<Rightarrow> NodeClass \<Rightarrow> nat \<Rightarrow> nat \<Rightarrow> SystemTree list \<Rightarrow> (ToSutVisitor, unit) act" where
  "ToSut_loop w cls l i cs = (if cls = Linker then ToSut_VisitActive w l cs i else ToSut_VisitChildren w cs)"

lemma visitable_from_less: "visitable_from n w cls l i cs \<Longrightarrow> i + length cs < 4294967296"
proof (induction cs arbitrary: i)
  case (Cons c cs)
  then show ?case using Cons.IH [of "Suc i"] by simp
qed simp

lemma ToSut_loop_Cons:
  assumes "visitable_from n w cls l i (c # cs)"
  shows "ToSut_loop w cls l i (c # cs) v
    = (if path_open w cls l i then act_then (ToSut w c) (ToSut_loop w cls l (Suc i) cs) v else ToSut_loop w cls l (Suc i) cs v)"
  using assms visitable_from_less [OF assms]
  by (auto simp: ToSut_loop_def path_open_def act_bind_read act_then_simps u32_small)

lemma ToSut_collects:
  "visitable n w t \<Longrightarrow> chain_ok n w (active w t) \<Longrightarrow> aligned ign k v \<Longrightarrow> k + width_of n (active w t) + 7 < 4294967296 \<Longrightarrow>
    ToSut w t v = (Inr (), extended ign w (active w t) (levels n w k t) v)"
  "visitable_from n w cls l i cs \<Longrightarrow> chain_ok n w (active_from w cls l i cs) \<Longrightarrow> aligned ign k v \<Longrightarrow>
    k + width_of n (active_from w cls l i cs) + 7 < 4294967296 \<Longrightarrow>
    ToSut_loop w cls l i cs v = (Inr (), extended ign w (active_from w cls l i cs) (levels_from n w cls l i k cs) v)"
proof (induction w t and w cls l i cs arbitrary: k v and k v rule: active_active_from.induct)
  case (1 w a)
  then show ?case using ToSut_register [of n w a ign k v] by (simp add: chain_ok_def width_of_def)
next
  case (2 w cls l cs)
  show ?case
  proof (cases "cls = AccessInterface")
    case True
    then show ?thesis using extended_nothing [OF "2.prems"(3)] by simp
  next
    case False
    have run: "ToSut_loop w cls l 1 cs v = (Inr (), extended ign w (active_from w cls l 1 cs) (levels_from n w cls l 1 k cs) v)"
      using "2.IH" [OF False, of k v] "2.prems" False by simp
    show ?thesis
    proof (cases "cls = Streamer")
      case True
      obtain nd where nd: "parents w l = Some nd" using "2.prems"(1) by auto
      have "aligned ign (k + width_of n (active_from w cls l 1 cs)) (extended ign w (active_from w cls l 1 cs) (levels_from n w cls l 1 k cs) v)"
        using extended_aligned [OF "2.prems"(3)] "2.prems"(2) False by simp
      then have after: "BitsCount (toSutVector (extended ign w (active_from w cls l 1 cs) (levels_from n w cls l 1 k cs) v))
          = k + width_of n (active_from w cls l 1 cs)" by (rule aligned_BitsCount)
      show ?thesis using run True nd after aligned_BitsCount [OF "2.prems"(3)]
        by (simp add: ToSut_loop_def act_bind_read act_then_simps parent_at_def extended_def)
    next
      case not: False
      then show ?thesis using run False by (simp add: ToSut_loop_def split: if_splits)
    qed
  qed
next
  case (3 w cls l i)
  then show ?case using extended_nothing [OF "3.prems"(3)] by (simp add: ToSut_loop_def)
next
  case (4 w cls l i c cs)
  show ?case
  proof (cases "path_open w cls l i")
    case False
    then show ?thesis using 4 ToSut_loop_Cons [OF "4.prems"(1), of v] by simp
  next
    case True
    let ?v = "extended ign w (active w c) (levels n w k c) v"
    have run: "ToSut w c v = (Inr (), ?v)" using 4 True by simp
    have al: "aligned ign (k + width_of n (active w c)) ?v" using extended_aligned [OF "4.prems"(3)] "4.prems"(2) True by simp
    have "ToSut_loop w cls l (Suc i) cs ?v = (Inr (), extended ign w (active_from w cls l (Suc i) cs)
        (levels_from n w cls l (Suc i) (k + width_of n (active w c)) cs) ?v)"
      using "4.IH"(2) [OF _ _ al] "4.prems" True by (simp add: add.assoc)
    then show ?thesis using ToSut_loop_Cons [OF "4.prems"(1), of v] True run by (simp add: act_then_simps extended_extended)
  qed
qed

section \<open>What a received vector changes\<close>

definition received :: "bool list \<Rightarrow> Register \<Rightarrow> Register" where
  "received bs r =
    r\<lparr>m_lastReadFromSut := if m_pendingRead r then bv_make bs NotFixed else m_lastReadFromSut r,
      m_mismatches := if m_mustCheckExpected r \<and> \<not> care_equal bs (bits_of (m_expectedFromSut r)) (bits_of (m_dontCareMask r))
        then u32 (m_mismatches r + 1) else m_mismatches r,
      m_lastFromSut := bv_make bs Fixed, m_lastToSut := bv_make (bits_of (m_nextToSut r)) Fixed,
      m_pendingRead := False, m_pendingCount := 0, m_mustCheckExpected := False\<rparr>"

lemma FromSut_update_eq:
  assumes r: "reg_inv k r" and v: "plain v" "BitsCount v = k" and m: "mask_fits k r"
  shows "FromSut_update v r = (Inr (), received (bits_of v) r)"
proof -
  define r1 where "r1 = r\<lparr>m_lastReadFromSut := if m_pendingRead r then bv_make (bits_of v) NotFixed else m_lastReadFromSut r,
      m_mismatches := if m_mustCheckExpected r \<and> \<not> care_equal (bits_of v) (bits_of (m_expectedFromSut r)) (bits_of (m_dontCareMask r))
        then u32 (m_mismatches r + 1) else m_mismatches r,
      m_lastFromSut := bv_make (bits_of v) Fixed\<rparr>"
  have set: "SetFromSut v r = (Inr (), r1)" using SetFromSut_eq [OF r v] m by (simp add: mask_fits_def r1_def)
  have fixed: "fixed_bits k (m_lastToSut r)" using reg_invD [OF r] by simp
  obtain bs where bs: "m_nextToSut r = bv_make bs Fixed" "length bs = k" by (rule fixedE [OF reg_invD(1) [OF r]])
  then have p: "plain (m_nextToSut r)" "BitsCount (m_nextToSut r) = k" using reg_invD(9) [OF r] by simp_all
  have "assign_copy (m_lastToSut r) (m_nextToSut r) = Inr (bv_make (bits_of (m_nextToSut r)) Fixed)"
    using assign_fixed [OF fixed(1) p(1)] p(2) by simp
  then have "UpdateLastToSut r1 = (Inr (), r1\<lparr>m_lastToSut := bv_make (bits_of (m_nextToSut r)) Fixed\<rparr>)"
    by (simp add: UpdateLastToSut_def copy_to_def act_assign_def put_lastToSut_def r1_def)
  then show ?thesis
    by (simp add: FromSut_update_def act_then_simps set received_def SetCheckExpected_def Register_ResetPending_def
        Node_ResetPending_def r1_def)
qed

lemma received_inv:
  assumes "reg_inv k r" and "length bs = k"
  shows "reg_inv k (received bs r)"
  using assms by (auto simp: received_def reg_inv_def u32_def fixed_bits_def loose_def)

fun chunk :: "(nat \<Rightarrow> nat) \<Rightarrow> nat list \<Rightarrow> nat \<Rightarrow> bool list \<Rightarrow> bool list" where
  "chunk n [] a bs = []"
| "chunk n (x # xs) a bs = (if a = x then take (n x) bs else chunk n xs a (drop (n x) bs))"

definition dealt :: "(nat \<Rightarrow> nat) \<Rightarrow> nat list \<Rightarrow> bool list \<Rightarrow> store \<Rightarrow> store" where
  "dealt n as bs st b = (if b \<in> set as then map_option (received (chunk n as b bs)) (st b) else st b)"

definition known :: "NodeRef option list \<Rightarrow> World \<Rightarrow> nat list \<Rightarrow> bool" where
  "known ids w as \<longleftrightarrow> (\<forall>a \<in> set as. RegisterWithId ids (m_identifier (register_of w a)) = Inr (Some a))"

definition idents :: "World \<Rightarrow> nat list \<Rightarrow> nat list" where
  "idents w as = map (\<lambda>a. m_identifier (register_of w a)) as"

lemma FromSut_step:
  assumes ok: "chain_ok n w (a # as)" and ids: "known ids w (a # as)" and len: "length bs < 4294967296" "off + n a < 4294967296"
    "off \<le> length bs"
  shows "UpdateRegisters_loop ids (bv_make bs p) off (idents w (a # as)) (registers w)
    = (if off + n a > length bs then (Inl LogicError, registers w)
       else UpdateRegisters_loop ids (bv_make bs p) (off + n a) (idents w as)
              ((registers w)(a \<mapsto> received (take (n a) (drop off bs)) (register_of w a))))"
proof -
  obtain r where r: "registers w a = Some r" "reg_inv (n a) r" "register_of w a = r" "mask_fits (n a) r"
    using ok by (auto simp: chain_ok_def live_register_def register_of_def)
  have id: "RegisterWithId ids (m_identifier r) = Inr (Some a)" using ids r(3) by (simp add: known_def)
  have n: "Register_BitsCount r = n a" by (rule reg_lengths(4) [OF r(2)])
  show ?thesis
  proof (cases "off + n a > length bs")
    case True
    then show ?thesis using id r n len by (simp add: idents_def act_bind_def FromSut_slice_def deref_def u32_small)
  next
    case False
    let ?c = "take (n a) (drop off bs)"
    have c: "length ?c = n a" using False by simp
    have "Slice off (n a) (bv_make bs p) = Inr (bv_make ?c NotFixed)"
    proof (cases "n a = 0")
      case True
      then show ?thesis using Slice_make [OF len(1,2), of p] by simp
    next
      case not: False
      then show ?thesis using Slice_make [OF len(1,2), of p] False by simp
    qed
    then have cut: "FromSut_slice ids off (m_identifier r) (bv_make bs p) (registers w) = Inr (Some a, n a, bv_make ?c NotFixed)"
      using id r n len False by (simp add: FromSut_slice_def deref_def u32_small Let_def)
    have "FromSut_update (bv_make ?c NotFixed) r = (Inr (), received ?c r)"
      using FromSut_update_eq [OF r(2) _ _ r(4), of "bv_make ?c NotFixed"] c len by simp
    then show ?thesis using cut r False len(2) by (simp add: idents_def act_bind_read act_then_def act_at_def act_bind_def u32_small)
  qed
qed

lemma dealt_Cons:
  assumes "a \<notin> set as" and "st a = Some r"
  shows "dealt n (a # as) bs st = dealt n as (drop (n a) bs) (st(a \<mapsto> received (take (n a) bs) r))"
  using assms by (auto simp: dealt_def fun_eq_iff)

lemma other_registers:
  assumes "a \<notin> set as"
  shows "chain_ok n (w\<lparr>registers := (registers w)(a \<mapsto> r)\<rparr>) as = chain_ok n w as"
    "known ids (w\<lparr>registers := (registers w)(a \<mapsto> r)\<rparr>) as = known ids w as"
    "idents (w\<lparr>registers := (registers w)(a \<mapsto> r)\<rparr>) as = idents w as"
  using assms by (auto simp: chain_ok_def known_def idents_def live_register_def register_of_def)

lemma UpdateRegisters_loop_eq:
  assumes "chain_ok n w as" and "known ids w as" and "distinct as" and "length bs < 4294967296"
    and "off \<le> length bs" and "off + width_of n as < 4294967296"
  shows "if off + width_of n as = length bs
    then UpdateRegisters_loop ids (bv_make bs p) off (idents w as) (registers w) = (Inr (), dealt n as (drop off bs) (registers w))
    else \<exists>st. UpdateRegisters_loop ids (bv_make bs p) off (idents w as) (registers w) = (Inl LogicError, st)"
  using assms
proof (induction as arbitrary: off w)
  case Nil
  then show ?case by (auto simp: idents_def width_of_def dealt_def fun_eq_iff)
next
  case (Cons a as)
  have wd: "width_of n (a # as) = n a + width_of n as" by (simp add: width_of_def)
  have "off + n a < 4294967296" using Cons.prems(6) wd by simp
  note step = FromSut_step [OF Cons.prems(1,2,4) this Cons.prems(5), of p]
  show ?case
  proof (cases "off + n a > length bs")
    case True
    then have "off + width_of n (a # as) \<noteq> length bs" using wd by simp
    then show ?thesis using step True by simp
  next
    case False
    let ?r = "received (take (n a) (drop off bs)) (register_of w a)"
    let ?w = "w\<lparr>registers := (registers w)(a \<mapsto> ?r)\<rparr>"
    have a: "a \<notin> set as" "registers w a = Some (register_of w a)"
      using Cons.prems(1,3) by (auto simp: chain_ok_def live_register_def register_of_def)
    have ok: "chain_ok n ?w as" "known ids ?w as" using Cons.prems(1,2) other_registers [OF a(1)] by (simp_all add: chain_ok_def known_def)
    have IH: "if off + n a + width_of n as = length bs
      then UpdateRegisters_loop ids (bv_make bs p) (off + n a) (idents ?w as) (registers ?w)
        = (Inr (), dealt n as (drop (off + n a) bs) (registers ?w))
      else \<exists>st. UpdateRegisters_loop ids (bv_make bs p) (off + n a) (idents ?w as) (registers ?w) = (Inl LogicError, st)"
      by (rule Cons.IH [OF ok]) (use Cons.prems(3,4,6) False wd in simp_all)
    have "dealt n as (drop (off + n a) bs) (registers ?w) = dealt n (a # as) (drop off bs) (registers w)"
      using dealt_Cons [of a as "registers w" "register_of w a" n "drop off bs"] a by (simp add: add.commute)
    moreover have "UpdateRegisters_loop ids (bv_make bs p) off (idents w (a # as)) (registers w)
        = UpdateRegisters_loop ids (bv_make bs p) (off + n a) (idents ?w as) (registers ?w)"
      using step False other_registers(3) [OF a(1), of w ?r] by simp
    moreover have "off + width_of n (a # as) = off + n a + width_of n as" using wd by simp
    ultimately show ?thesis using IH by (simp only:)
  qed
qed

text \<open>Reading back the bits that were sent gives every register its own part.\<close>

lemma chunk_chain_bits:
  assumes "a \<in> set as" and "\<And>a. a \<in> set as \<Longrightarrow> length (f (register_of w a)) = n a"
  shows "chunk n as a (chain_bits f w as) = f (register_of w a)"
  using assms by (induction as) (auto simp: chain_bits_def)

end
