(* ===== verification/Configuration.thy ===== *)
theory Configuration
  imports Scan_Chain
begin

text \<open>
  Configuration: \<^verbatim>\<open>ConfigureVisitor\<close> (\<^verbatim>\<open>ConfigureVisitor.cpp\<close>) and the algorithms that decide what a
  linker selects (\<^verbatim>\<open>ConfigureAlgorithm_LastOrDefault.cpp\<close> and its siblings). The visitor marks the
  registers whose value has to be sent, opens the paths to pending nodes, closes the others and
  counts the pending registers of every node it visits.
\<close>

section \<open>Algorithms\<close>

text \<open>A visitor without algorithm (a null pointer) is \<open>None\<close>. No algorithm does anything when it starts.\<close>

datatype ConfigurationAlgorithm = LastOrDefault | LastOrDefault_Greedy | Last_Lazy | CloseAll

definition ProcessPending :: "bool \<Rightarrow> byte list \<Rightarrow> ConfigurationAlgorithm \<Rightarrow> nat \<Rightarrow> nat \<Rightarrow> (World, unit) act" where
  "ProcessPending null slack algorithm l pathIdentifier =
    act_bind (act_read (\<lambda>w. Linker_IsActive w l pathIdentifier)) (\<lambda>active.
      if algorithm = CloseAll
      then if active
           then act_bind (act_read (\<lambda>w. parent_at w l)) (\<lambda>linker.
                  if \<not> KeepOpen linker then Linker_Deselect null slack l pathIdentifier else act_return ())
           else Linker_Select null slack l pathIdentifier
      else if \<not> active then Linker_Select null slack l pathIdentifier else act_return ())"

text \<open>The greedy algorithm closes the linker as soon as one of its paths is selected and active.\<close>

fun Greedy_loop :: "bool \<Rightarrow> byte list \<Rightarrow> nat \<Rightarrow> nat list \<Rightarrow> (World, unit) act" where
  "Greedy_loop null slack l [] = act_return ()"
| "Greedy_loop null slack l (pathId # rest) =
    act_bind (act_read (\<lambda>w. Linker_IsSelectedAndActive w l pathId)) (\<lambda>served.
      if served then Linker_Select null slack l 0 else Greedy_loop null slack l rest)"

definition ResolvePendings :: "bool \<Rightarrow> byte list \<Rightarrow> ConfigurationAlgorithm option \<Rightarrow> nat \<Rightarrow> (World, unit) act" where
  "ResolvePendings null slack algorithm l =
    act_bind (act_read (\<lambda>w. parent_at w l)) (\<lambda>linker.
      case algorithm of
        Some Last_Lazy \<Rightarrow> act_return ()
      | Some CloseAll \<Rightarrow> act_return ()
      | Some LastOrDefault_Greedy \<Rightarrow>
          if \<not> Node_IsPending linker then Linker_Select null slack l 0
          else if m_pendingCount linker = 1
          then act_bind (act_read (\<lambda>w. Linker_SelectablePaths w l)) (\<lambda>pathCount.
                 Greedy_loop null slack l [1..<Suc pathCount])
          else act_return ()
      | _ \<Rightarrow> if \<not> Node_IsPending linker then Linker_Select null slack l 0 else act_return ())"

section \<open>The visitor\<close>

definition Configure_VisitRegister :: "(Register, unit) act" where
  "Configure_VisitRegister =
    act_bind (act_read (\<lambda>reg. CompareEqualTo (m_nextToSut reg) (m_lastToSut reg))) (\<lambda>same.
      act_modify (SetPendingForWrite (\<not> same)))"

fun tally_pendings :: "SystemTree list \<Rightarrow> nat \<Rightarrow> World \<Rightarrow> nat result" where
  "tally_pendings [] pendingCount w = Inr pendingCount"
| "tally_pendings (child # siblings) pendingCount w =
    rbind (PendingCount w child) (\<lambda>count. tally_pendings siblings (u32 (pendingCount + count)) w)"

fun Linker_tally :: "nat \<Rightarrow> SystemTree list \<Rightarrow> (World, unit) act" where
  "Linker_tally l [] = act_return ()"
| "Linker_tally l (child # siblings) =
    act_bind (act_read (\<lambda>w. PendingCount w child)) (\<lambda>count.
    act_then (at_parent l (IncrementPendings count)) (Linker_tally l siblings))"

text \<open>What happens to one path of a linker once its child is configured.\<close>

definition configure_path ::
    "bool \<Rightarrow> byte list \<Rightarrow> ConfigurationAlgorithm option \<Rightarrow> nat \<Rightarrow> SystemTree \<Rightarrow> nat \<Rightarrow> (World, unit) act" where
  "configure_path null slack algorithm l child pathIdentifier =
    act_bind (act_read (\<lambda>w. IsPending w child)) (\<lambda>pending.
      if pending
      then act_bind (act_read (\<lambda>w. PendingCount w child)) (\<lambda>count.
           act_then (at_parent l (IncrementPendings count))
             (case algorithm of Some alg \<Rightarrow> ProcessPending null slack alg l pathIdentifier
                              | None \<Rightarrow> Linker_Select null slack l pathIdentifier))
      else act_bind (act_read (\<lambda>w. Linker_IsSelected w l pathIdentifier)) (\<lambda>selected.
           if selected
           then act_bind (act_read (\<lambda>w. parent_at w l)) (\<lambda>linker.
                  if \<not> KeepOpen linker then Linker_Deselect null slack l pathIdentifier else act_return ())
           else act_return ()))"

fun Configure :: "bool \<Rightarrow> byte list \<Rightarrow> ConfigurationAlgorithm option \<Rightarrow> SystemTree \<Rightarrow> (World, unit) act"
  and ConfigureChildren :: "bool \<Rightarrow> byte list \<Rightarrow> ConfigurationAlgorithm option \<Rightarrow> SystemTree list \<Rightarrow> (World, unit) act"
  and Configure_paths :: "bool \<Rightarrow> byte list \<Rightarrow> ConfigurationAlgorithm option \<Rightarrow> nat \<Rightarrow> SystemTree list \<Rightarrow> nat \<Rightarrow> (World, unit) act" where
  "Configure null slack algorithm (RegisterLeaf a) = on_register a Configure_VisitRegister"
| "Configure null slack algorithm (ParentTree cls a children) =
    (if cls = Linker
     then act_then (at_parent a Node_ResetPending)
         (act_then (Configure_paths null slack algorithm a children 1)
         (act_then (at_parent a Node_ResetPending)
         (act_then (Linker_tally a children)
           (ResolvePendings null slack algorithm a))))
     else act_then (ConfigureChildren null slack algorithm children)
         (act_bind (act_read (tally_pendings children 0)) (\<lambda>pendingCount.
            at_parent a (SetPendingCount pendingCount))))"
| "ConfigureChildren null slack algorithm [] = act_return ()"
| "ConfigureChildren null slack algorithm (child # siblings) =
    act_then (Configure null slack algorithm child) (ConfigureChildren null slack algorithm siblings)"
| "Configure_paths null slack algorithm l [] pathIdentifier = act_return ()"
| "Configure_paths null slack algorithm l (child # siblings) pathIdentifier =
    act_then (Configure null slack algorithm child)
   (act_then (configure_path null slack algorithm l child pathIdentifier)
      (Configure_paths null slack algorithm l siblings (u32 (pathIdentifier + 1))))"

section \<open>What configuration may change\<close>

definition mux_addresses :: "PathSelector \<Rightarrow> nat set" where
  "mux_addresses sel = {a. Some a \<in> slice_reg ` set (vr_registers (m_muxRegisters sel))}"

definition linker_ok :: "BitsOrdering \<Rightarrow> (nat \<Rightarrow> nat) \<Rightarrow> nat set \<Rightarrow> World \<Rightarrow> nat \<Rightarrow> nat \<Rightarrow> bool" where
  "linker_ok ord n A w l k \<longleftrightarrow> (\<exists>x sel. linked w l x sel \<and> sel_ok sel \<and> mux_ok ord n A (m_muxRegisters sel) (registers w)
     \<and> k \<le> m_pathsCount sel \<and> m_pathsCount sel < 4294967295)"

definition world_ok :: "BitsOrdering \<Rightarrow> (nat \<Rightarrow> nat) \<Rightarrow> nat set \<Rightarrow> World \<Rightarrow> SystemTree list \<Rightarrow> bool" where
  "world_ok ord n A w ts \<longleftrightarrow> store_ok ord n A (registers w) \<and> (\<forall>a \<in> set (forest_registers ts). live_register n w a)
    \<and> (\<forall>p \<in> set (forest_parents ts). parents w p \<noteq> None)
    \<and> (\<forall>l cs. ParentTree Linker l cs \<in> forest_subtrees ts \<longrightarrow> linker_ok ord n A w l (length cs))"

definition linker_muxes :: "World \<Rightarrow> nat \<Rightarrow> nat set" where
  "linker_muxes w l = {a. \<exists>x sel. linked w l x sel \<and> a \<in> mux_addresses sel}"

definition linkers_in :: "SystemTree list \<Rightarrow> nat set" where
  "linkers_in ts = {l. \<exists>cs. ParentTree Linker l cs \<in> forest_subtrees ts}"

definition touched :: "World \<Rightarrow> SystemTree list \<Rightarrow> nat set" where
  "touched w ts = set (forest_registers ts) \<union> (\<Union>l \<in> linkers_in ts. linker_muxes w l)"

definition selector_links :: "World \<Rightarrow> SystemTree list \<Rightarrow> nat set" where
  "selector_links w ts = {x. \<exists>l \<in> linkers_in ts. \<exists>sel. linked w l x sel}"

definition same_code :: "PathSelector \<Rightarrow> PathSelector \<Rightarrow> bool" where
  "same_code sel sel' \<longleftrightarrow> sel' = sel \<or> same_selector sel sel'"

lemma same_code_trans: "same_code sel1 sel2 \<Longrightarrow> same_code sel2 sel3 \<Longrightarrow> same_code sel1 sel3"
  by (auto simp: same_code_def intro: same_selector_trans)

definition configured :: "(nat \<Rightarrow> nat) \<Rightarrow> nat set \<Rightarrow> nat set \<Rightarrow> nat set \<Rightarrow> World \<Rightarrow> World \<Rightarrow> bool" where
  "configured n R X P w w' \<longleftrightarrow> same_past (registers w) (registers w')
    \<and> (\<forall>a. a \<notin> R \<longrightarrow> registers w' a = registers w a) \<and> (\<forall>a. live_register n w a \<longrightarrow> live_register n w' a)
    \<and> (\<forall>x. rel_option same_code (selectors w x) (selectors w' x)) \<and> (\<forall>x. x \<notin> X \<longrightarrow> selectors w' x = selectors w x)
    \<and> (\<forall>p. p \<notin> P \<longrightarrow> parents w' p = parents w p)
    \<and> (\<forall>p. map_option uncounted (parents w' p) = map_option uncounted (parents w p))"

lemma configured_refl: "configured n R X P w w"
  by (auto simp: configured_def same_code_def intro!: option.rel_refl)

lemma configured_mono: "configured n R X P w w' \<Longrightarrow> R \<subseteq> R' \<Longrightarrow> X \<subseteq> X' \<Longrightarrow> P \<subseteq> P' \<Longrightarrow> configured n R' X' P' w w'"
  unfolding configured_def by blast

lemma configured_trans:
  assumes 1: "configured n R X P w w1" and 2: "configured n R X P w1 w2"
  shows "configured n R X P w w2"
proof -
  have "rel_option same_code (selectors w x) (selectors w2 x)" for x
  proof -
    have "rel_option same_code (selectors w x) (selectors w1 x)" "rel_option same_code (selectors w1 x) (selectors w2 x)"
      using 1 2 by (simp_all add: configured_def)
    then show ?thesis
      by (cases "selectors w x"; cases "selectors w1 x"; cases "selectors w2 x") (auto intro: same_code_trans)
  qed
  then show ?thesis using 1 2 unfolding configured_def by (auto intro: same_past_trans)
qed

lemma configured_linked:
  assumes "configured n R X P w w'" and "linked w l x sel"
  obtains sel' where "linked w' l x sel'" "same_code sel sel'" "x \<notin> X \<Longrightarrow> sel' = sel"
proof -
  obtain nd where nd: "parents w l = Some nd" "m_pathSelector nd = Some x" "selectors w x = Some sel"
    using assms(2) by (auto simp: linked_def)
  have "rel_option same_code (Some sel) (selectors w' x)" using assms(1) nd(3) unfolding configured_def by metis
  then obtain sel' where sel': "selectors w' x = Some sel'" "same_code sel sel'" by (cases "selectors w' x") auto
  have "map_option uncounted (parents w' l) = Some (uncounted nd)" using assms(1) nd(1) by (simp add: configured_def)
  then obtain nd' where nd': "parents w' l = Some nd'" "uncounted nd' = uncounted nd" by auto
  have "m_pathSelector nd' = m_pathSelector nd" using arg_cong [OF nd'(2), of m_pathSelector] by (simp add: uncounted_def)
  then have "linked w' l x sel'" using nd' sel'(1) nd(2) by (simp add: linked_def)
  moreover have "sel' = sel" if "x \<notin> X" using assms(1) that nd(3) sel'(1) by (simp add: configured_def)
  ultimately show ?thesis using sel'(2) that by blast
qed

lemma configured_linked_back:
  assumes "configured n R X P w w'" and "linked w' l x sel'"
  obtains sel where "linked w l x sel" "same_code sel sel'"
proof -
  obtain nd' where nd': "parents w' l = Some nd'" "m_pathSelector nd' = Some x" "selectors w' x = Some sel'"
    using assms(2) by (auto simp: linked_def)
  have "rel_option same_code (selectors w x) (Some sel')" using assms(1) nd'(3) unfolding configured_def by metis
  then obtain sel where sel: "selectors w x = Some sel" "same_code sel sel'" by (cases "selectors w x") auto
  have "map_option uncounted (parents w l) = Some (uncounted nd')" using assms(1) nd'(1) unfolding configured_def by (metis option.simps(9))
  then obtain nd where nd: "parents w l = Some nd" "uncounted nd = uncounted nd'" by auto
  have "m_pathSelector nd = m_pathSelector nd'" using arg_cong [OF nd(2), of m_pathSelector] by (simp add: uncounted_def)
  then have "linked w l x sel" using nd sel(1) nd'(2) by (simp add: linked_def)
  then show ?thesis using sel(2) that by blast
qed

lemma same_code_mux: "same_code sel sel' \<Longrightarrow> m_muxRegisters sel' = m_muxRegisters sel \<and> mux_addresses sel' = mux_addresses sel
    \<and> m_pathsCount sel' = m_pathsCount sel \<and> (sel_ok sel \<longrightarrow> sel_ok sel')"
  using same_selector_values [of sel sel'] by (auto simp: same_code_def same_selector_def mux_addresses_def)

lemma configured_muxes: "configured n R X P w w' \<Longrightarrow> linker_muxes w' l = linker_muxes w l"
  unfolding linker_muxes_def
proof (intro set_eqI iffI; clarsimp)
  fix a x sel assume "configured n R X P w w'" "linked w' l x sel" "a \<in> mux_addresses sel"
  then show "\<exists>x sel. linked w l x sel \<and> a \<in> mux_addresses sel"
    by (elim configured_linked_back) (auto dest: same_code_mux)
next
  fix a x sel assume "configured n R X P w w'" "linked w l x sel" "a \<in> mux_addresses sel"
  then show "\<exists>x sel. linked w' l x sel \<and> a \<in> mux_addresses sel"
    by (elim configured_linked) (auto dest: same_code_mux)
qed

lemma configured_sets:
  assumes "configured n R X P w w'"
  shows "touched w' ts = touched w ts" "selector_links w' ts = selector_links w ts"
proof -
  show "touched w' ts = touched w ts" using configured_muxes [OF assms] by (simp add: touched_def)
  show "selector_links w' ts = selector_links w ts"
  proof -
    have "(\<exists>sel. linked w' l x sel) = (\<exists>sel. linked w l x sel)" for l x
    proof
      assume "\<exists>sel. linked w' l x sel"
      then obtain sel where "linked w' l x sel" by blast
      from configured_linked_back [OF assms this] show "\<exists>sel. linked w l x sel" by blast
    next
      assume "\<exists>sel. linked w l x sel"
      then obtain sel where "linked w l x sel" by blast
      from configured_linked [OF assms this] show "\<exists>sel. linked w' l x sel" by blast
    qed
    then show ?thesis by (simp add: selector_links_def)
  qed
qed

lemma configured_linker_ok:
  assumes c: "configured n R X P w w'" and ok: "linker_ok ord n A w l k" and st: "store_ok ord n A (registers w')"
  shows "linker_ok ord n A w' l k"
proof -
  obtain x sel where sel: "linked w l x sel" "sel_ok sel" "mux_ok ord n A (m_muxRegisters sel) (registers w)"
    "k \<le> m_pathsCount sel" "m_pathsCount sel < 4294967295"
    using ok by (auto simp: linker_ok_def)
  obtain sel' where sel': "linked w' l x sel'" "same_code sel sel'" by (rule configured_linked [OF c sel(1)])
  have "mux_ok ord n A (m_muxRegisters sel) (registers w')" using sel(3) st by (simp add: mux_ok_def)
  then show ?thesis using sel sel' same_code_mux [OF sel'(2)] unfolding linker_ok_def by metis
qed

lemma configured_world_ok:
  assumes c: "configured n R X P w w'" and ok: "world_ok ord n A w ts" and st: "store_ok ord n A (registers w')"
  shows "world_ok ord n A w' ts"
proof -
  have pars: "parents w' p \<noteq> None" if "parents w p \<noteq> None" for p
  proof -
    have "map_option uncounted (parents w' p) = map_option uncounted (parents w p)" using c by (simp add: configured_def)
    then show ?thesis using that by auto
  qed
  have live: "live_register n w' a" if "live_register n w a" for a using c that by (simp add: configured_def)
  note o = ok [unfolded world_ok_def]
  show ?thesis unfolding world_ok_def
  proof (intro conjI ballI allI impI)
    show "store_ok ord n A (registers w')" by (rule st)
    show "live_register n w' a" if "a \<in> set (forest_registers ts)" for a using o live that by blast
    show "parents w' p \<noteq> None" if "p \<in> set (forest_parents ts)" for p using o pars that by blast
    show "linker_ok ord n A w' l (length cs)" if "ParentTree Linker l cs \<in> forest_subtrees ts" for l cs
      by (rule configured_linker_ok [OF c _ st]) (use o that in blast)
  qed
qed

section \<open>Every step of a configuration succeeds\<close>

definition config_step ::
    "BitsOrdering \<Rightarrow> (nat \<Rightarrow> nat) \<Rightarrow> nat set \<Rightarrow> nat set \<Rightarrow> nat set \<Rightarrow> nat set \<Rightarrow> (World, unit) act \<Rightarrow> World \<Rightarrow> bool" where
  "config_step ord n A R X P m w \<longleftrightarrow> (\<exists>w'. m w = (Inr (), w') \<and> configured n R X P w w' \<and> store_ok ord n A (registers w'))"

lemma config_step_return: "store_ok ord n A (registers w) \<Longrightarrow> config_step ord n A R X P (act_return ()) w"
  by (simp add: config_step_def configured_refl)

lemma config_step_then:
  assumes "config_step ord n A R X P m w"
    and "\<And>w'. m w = (Inr (), w') \<Longrightarrow> configured n R X P w w' \<Longrightarrow> store_ok ord n A (registers w') \<Longrightarrow> config_step ord n A R X P m2 w'"
  shows "config_step ord n A R X P (act_then m m2) w"
proof -
  obtain w1 where 1: "m w = (Inr (), w1)" "configured n R X P w w1" "store_ok ord n A (registers w1)"
    using assms(1) by (auto simp: config_step_def)
  obtain w2 where 2: "m2 w1 = (Inr (), w2)" "configured n R X P w1 w2" "store_ok ord n A (registers w2)"
    using assms(2) [OF 1] by (auto simp: config_step_def)
  show ?thesis unfolding config_step_def using 1(1) 2 configured_trans [OF 1(2) 2(2)] by (auto simp: act_then_simps)
qed

lemma config_step_read:
  "g w = Inr x \<Longrightarrow> config_step ord n A R X P (f x) w \<Longrightarrow> config_step ord n A R X P (act_bind (act_read g) f) w"
  by (simp add: config_step_def act_bind_read)

lemma config_step_mono:
  "config_step ord n A R X P m w \<Longrightarrow> R \<subseteq> R' \<Longrightarrow> X \<subseteq> X' \<Longrightarrow> P \<subseteq> P' \<Longrightarrow> config_step ord n A R' X' P' m w"
  unfolding config_step_def using configured_mono by blast

lemma mux_addresses_sub: "mux_ok ord n A (m_muxRegisters sel) st \<Longrightarrow> mux_addresses sel \<subseteq> A"
  unfolding mux_addresses_def mux_ok_def slices_ok_def by auto

lemma live_after_mux:
  assumes "store_ok ord n A st'" and "\<forall>a. a \<notin> mux_addresses sel \<longrightarrow> st' a = registers w a" and "mux_addresses sel \<subseteq> A"
    and "live_register n w a"
  shows "\<exists>r. st' a = Some r \<and> reg_inv (n a) r"
  using assms unfolding store_ok_def live_register_def by (metis subsetD)

lemma mux_change_configured:
  assumes "mux_ok ord n A (m_muxRegisters sel) (registers w)" and "mux_change ord n A (m_muxRegisters sel) vs (registers w) st'"
    and "\<forall>y. rel_option same_code (selectors w y) (sels y)" "\<forall>y. y \<notin> X \<longrightarrow> sels y = selectors w y"
  shows "configured n (mux_addresses sel) X {} w (w\<lparr>registers := st', selectors := sels\<rparr>)"
    and "store_ok ord n A st'"
proof -
  have st': "store_ok ord n A st'" "same_past (registers w) st'" "\<forall>a. a \<notin> mux_addresses sel \<longrightarrow> st' a = registers w a"
    using assms(2) by (simp_all add: mux_change_def mux_ok_def mux_addresses_def)
  have "live_register n (w\<lparr>registers := st', selectors := sels\<rparr>) a" if "live_register n w a" for a
    using live_after_mux [OF st'(1,3) mux_addresses_sub [OF assms(1)] that] by (simp add: live_register_def)
  then show "configured n (mux_addresses sel) X {} w (w\<lparr>registers := st', selectors := sels\<rparr>)"
    using st' assms(3,4) by (simp add: configured_def)
  show "store_ok ord n A st'" by (rule st'(1))
qed

lemma Linker_Select_step:
  assumes link: "linked w l x sel" and sel: "sel_ok sel" and mux: "mux_ok ord n A (m_muxRegisters sel) (registers w)"
    and slack: "slack \<noteq> []" and p: "p \<le> m_pathsCount sel"
  shows "config_step ord n A (linker_muxes w l) X P (Linker_Select null slack l p) w"
proof -
  have sub: "mux_addresses sel \<subseteq> linker_muxes w l" using link by (auto simp: linker_muxes_def)
  have st: "store_ok ord n A (registers w)" using mux by (simp add: mux_ok_def)
  show ?thesis
  proof (cases "p = 0 \<and> mux_waits sel (registers w)")
    case True
    then show ?thesis using Linker_Select_eq [OF link mux, of null slack p] p st configured_refl by (simp add: config_step_def)
  next
    case False
    have "p < length (m_selectTable sel)" using sel p by (simp add: sel_ok_def)
    then obtain st' where st': "Selector_Select null slack sel p (registers w) = (Inr (), st')"
      "mux_change ord n A (m_muxRegisters sel) (select_value sel p (next_bits ord n (m_muxRegisters sel) (registers w))) (registers w) st'"
      using Selector_Select_ok [OF sel mux slack] by blast
    have run: "Linker_Select null slack l p w = (Inr (), w\<lparr>registers := st'\<rparr>)"
      using Linker_Select_eq [OF link mux, of null slack p] False p st'(1) by (auto simp: on_registers_def)
    have refl: "\<forall>y. rel_option same_code (selectors w y) (selectors w y)"
      by (auto intro!: option.rel_refl simp: same_code_def)
    have "configured n (mux_addresses sel) X {} w (w\<lparr>registers := st', selectors := selectors w\<rparr>)"
      by (rule mux_change_configured(1) [OF mux st'(2) refl]) simp
    then have "configured n (linker_muxes w l) X P w (w\<lparr>registers := st'\<rparr>)"
      using sub by (auto elim: configured_mono)
    then show ?thesis using run mux_change_configured(2) [OF mux st'(2) refl, of X] by (simp add: config_step_def)
  qed
qed

lemma Linker_Deselect_step:
  assumes link: "linked w l x sel" and sel: "sel_ok sel" and mux: "mux_ok ord n A (m_muxRegisters sel) (registers w)"
    and slack: "slack \<noteq> []" and p: "p \<le> m_pathsCount sel"
  shows "config_step ord n A (linker_muxes w l) {x. \<exists>sel. linked w l x sel} P (Linker_Deselect null slack l p) w"
proof -
  have sub: "mux_addresses sel \<subseteq> linker_muxes w l" "{x} \<subseteq> {x. \<exists>sel. linked w l x sel}" using link by (auto simp: linker_muxes_def)
  have "p < length (m_selectTable sel)" using sel p by (simp add: sel_ok_def)
  then obtain sel' st' where st': "Selector_Deselect null slack p (sel, registers w) = (Inr (), (sel', st'))" "same_selector sel sel'"
      "mux_change ord n A (m_muxRegisters sel) (deselect_value sel p (next_bits ord n (m_muxRegisters sel) (registers w))) (registers w) st'"
    using Selector_Deselect_ok [OF sel mux slack] by blast
  let ?w = "w\<lparr>registers := st', selectors := (selectors w)(x \<mapsto> sel')\<rparr>"
  have run: "Linker_Deselect null slack l p w = (Inr (), ?w)"
    using Linker_Deselect_eq [OF link, of null slack p] p st'(1) by (simp add: on_selector_def)
  have rel: "\<forall>y. rel_option same_code (selectors w y) (((selectors w)(x \<mapsto> sel')) y)"
    using st'(2) link by (auto simp: same_code_def linked_def intro!: option.rel_refl)
  have "configured n (mux_addresses sel) {x} {} w ?w"
    by (rule mux_change_configured(1) [OF mux st'(3) rel]) simp
  then have "configured n (linker_muxes w l) {x. \<exists>sel. linked w l x sel} P w ?w"
    using sub by (auto elim: configured_mono)
  then show ?thesis using run mux_change_configured(2) [OF mux st'(3) rel, of "{x}"] by (simp add: config_step_def)
qed

lemma at_parent_step:
  assumes "parents w l \<noteq> None" and "\<And>nd. uncounted (f nd) = uncounted nd" and "store_ok ord n A (registers w)" and "l \<in> P"
  shows "config_step ord n A R X P (at_parent l f) w"
proof -
  obtain nd where nd: "parents w l = Some nd" using assms(1) by auto
  have "configured n R X P w (w\<lparr>parents := (parents w)(l \<mapsto> f nd)\<rparr>)"
    using nd assms(2,4) by (auto simp: configured_def live_register_def same_code_def intro!: option.rel_refl)
  then show ?thesis using nd assms(3) by (simp add: config_step_def at_parent_def)
qed

text \<open>A linker whose multiplexer, selectors and data a step may change.\<close>

definition at_linker ::
    "BitsOrdering \<Rightarrow> (nat \<Rightarrow> nat) \<Rightarrow> nat set \<Rightarrow> nat set \<Rightarrow> nat set \<Rightarrow> nat set \<Rightarrow> World \<Rightarrow> nat \<Rightarrow> nat \<Rightarrow> bool" where
  "at_linker ord n A R X P w l k \<longleftrightarrow> linker_ok ord n A w l k \<and> linker_muxes w l \<subseteq> R \<and> {x. \<exists>sel. linked w l x sel} \<subseteq> X \<and> l \<in> P"

lemma configured_selectors: "configured n R X P w w' \<Longrightarrow> {x. \<exists>sel. linked w' l x sel} = {x. \<exists>sel. linked w l x sel}"
  by (auto elim: configured_linked_back) (auto elim: configured_linked)

lemma at_linker_configured:
  "at_linker ord n A R X P w l k \<Longrightarrow> configured n R' X' P' w w' \<Longrightarrow> store_ok ord n A (registers w') \<Longrightarrow> at_linker ord n A R X P w' l k"
  unfolding at_linker_def using configured_linker_ok configured_muxes [of n R' X' P' w w' l] configured_selectors [of n R' X' P' w w' l] by simp

lemma at_linkerE:
  assumes "at_linker ord n A R X P w l k"
  obtains x sel nd where "linked w l x sel" "sel_ok sel" "mux_ok ord n A (m_muxRegisters sel) (registers w)" "k \<le> m_pathsCount sel"
    "m_pathsCount sel < 4294967295" "store_ok ord n A (registers w)" "parents w l = Some nd" "parent_at w l = Inr nd"
proof -
  obtain x sel where sel: "linked w l x sel" "sel_ok sel" "mux_ok ord n A (m_muxRegisters sel) (registers w)" "k \<le> m_pathsCount sel"
    "m_pathsCount sel < 4294967295"
    using assms by (auto simp: at_linker_def linker_ok_def)
  moreover obtain nd where "parents w l = Some nd" using sel(1) by (auto simp: linked_def)
  ultimately show ?thesis using that by (simp add: mux_ok_def parent_at_def)
qed

lemma at_linker_queries:
  assumes "at_linker ord n A R X P w l k" and "p \<le> k"
  obtains b1 b2 where "Linker_IsActive w l p = Inr b1" "Linker_IsSelected w l p = Inr b2"
    "\<exists>b. Linker_IsSelectedAndActive w l p = Inr b" "\<exists>m. Linker_SelectablePaths w l = Inr m \<and> m < 4294967295"
proof -
  obtain x sel nd where sel: "linked w l x sel" "sel_ok sel" "mux_ok ord n A (m_muxRegisters sel) (registers w)" "k \<le> m_pathsCount sel"
    "m_pathsCount sel < 4294967295"
    using assms(1) by (rule at_linkerE)
  have p: "p < length (m_selectTable sel)" "p \<le> m_pathsCount sel" using sel(2,4) assms(2) by (simp_all add: sel_ok_def)
  have "\<exists>m. Linker_SelectablePaths w l = Inr m \<and> m < 4294967295"
    using selector_of_linked [OF sel(1)] sel(5) by (simp add: Linker_SelectablePaths_def SelectablePaths_def)
  then show ?thesis
    using that Linker_queries [OF sel(1), of p] Selector_queries_eq [OF sel(2,3), of p] p by simp
qed

lemma at_linker_Select:
  assumes "at_linker ord n A R X P w l k" and "slack \<noteq> []" and "p \<le> k"
  shows "config_step ord n A R X P (Linker_Select null slack l p) w"
proof -
  obtain x sel nd where sel: "linked w l x sel" "sel_ok sel" "mux_ok ord n A (m_muxRegisters sel) (registers w)" "k \<le> m_pathsCount sel"
    using assms(1) by (rule at_linkerE)
  have "config_step ord n A (linker_muxes w l) X P (Linker_Select null slack l p) w"
    by (rule Linker_Select_step [OF sel(1-3) assms(2)]) (use sel(4) assms(3) in simp)
  then show ?thesis by (rule config_step_mono) (use assms(1) in \<open>simp_all add: at_linker_def\<close>)
qed

lemma at_linker_Deselect:
  assumes "at_linker ord n A R X P w l k" and "slack \<noteq> []" and "p \<le> k"
  shows "config_step ord n A R X P (Linker_Deselect null slack l p) w"
proof -
  obtain x sel nd where sel: "linked w l x sel" "sel_ok sel" "mux_ok ord n A (m_muxRegisters sel) (registers w)" "k \<le> m_pathsCount sel"
    using assms(1) by (rule at_linkerE)
  have "config_step ord n A (linker_muxes w l) {x. \<exists>sel. linked w l x sel} P (Linker_Deselect null slack l p) w"
    by (rule Linker_Deselect_step [OF sel(1-3) assms(2)]) (use sel(4) assms(3) in simp)
  then show ?thesis by (rule config_step_mono) (use assms(1) in \<open>simp_all add: at_linker_def\<close>)
qed

lemma at_linker_close:
  assumes "at_linker ord n A R X P w l k" and "slack \<noteq> []" and "p \<le> k"
  shows "config_step ord n A R X P (act_bind (act_read (\<lambda>w. parent_at w l)) (\<lambda>linker.
    if \<not> KeepOpen linker then Linker_Deselect null slack l p else act_return ())) w"
proof -
  obtain x sel nd where nd: "parent_at w l = Inr nd" "store_ok ord n A (registers w)" using assms(1) by (rule at_linkerE)
  show ?thesis
    by (rule config_step_read [where g = "\<lambda>w. parent_at w l", OF nd(1)])
      (use at_linker_Deselect [OF assms] config_step_return [OF nd(2)] in simp)
qed

lemma ProcessPending_step:
  assumes "at_linker ord n A R X P w l k" and "slack \<noteq> []" and "p \<le> k"
  shows "config_step ord n A R X P (ProcessPending null slack algorithm l p) w"
proof -
  obtain b1 b2 where q: "Linker_IsActive w l p = Inr b1" "Linker_IsSelected w l p = Inr b2" using assms(1,3) by (rule at_linker_queries)
  obtain x sel nd where nd: "store_ok ord n A (registers w)" using assms(1) by (rule at_linkerE)
  show ?thesis unfolding ProcessPending_def
    by (rule config_step_read [where g = "\<lambda>w. Linker_IsActive w l p", OF q(1)])
      (use at_linker_Select [OF assms] at_linker_close [OF assms] config_step_return [OF nd] in simp)
qed

lemma Greedy_step:
  assumes "at_linker ord n A R X P w l k" and "slack \<noteq> []" and "\<forall>p \<in> set ps. p \<le> k"
  shows "config_step ord n A R X P (Greedy_loop null slack l ps) w"
  using assms(3)
proof (induction ps)
  case Nil
  obtain x sel nd where nd: "store_ok ord n A (registers w)" using assms(1) by (rule at_linkerE)
  then show ?case by (simp add: config_step_return del: act_basic)
next
  case (Cons p ps)
  have "p \<le> k" using Cons.prems by simp
  then obtain b where b: "Linker_IsSelectedAndActive w l p = Inr b" using assms(1) by (auto elim: at_linker_queries)
  have "config_step ord n A R X P (Linker_Select null slack l 0) w" by (rule at_linker_Select [OF assms(1,2)]) simp
  then show ?case using Cons
    by (simp del: act_basic) (rule config_step_read [where g = "\<lambda>w. Linker_IsSelectedAndActive w l p", OF b], simp)
qed

lemma at_linker_full:
  assumes "at_linker ord n A R X P w l k" and "Linker_SelectablePaths w l = Inr m"
  shows "at_linker ord n A R X P w l m"
proof -
  obtain x sel where sel: "linked w l x sel" "sel_ok sel" "mux_ok ord n A (m_muxRegisters sel) (registers w)" "k \<le> m_pathsCount sel"
    "m_pathsCount sel < 4294967295"
    using assms by (auto simp: at_linker_def linker_ok_def)
  then have "m = m_pathsCount sel" using selector_of_linked [OF sel(1)] assms(2) by (simp add: Linker_SelectablePaths_def SelectablePaths_def)
  then show ?thesis using assms(1) sel by (auto simp: at_linker_def linker_ok_def)
qed

lemma ResolvePendings_step:
  assumes "at_linker ord n A R X P w l k" and "slack \<noteq> []"
  shows "config_step ord n A R X P (ResolvePendings null slack algorithm l) w"
proof -
  obtain x sel nd where nd: "parent_at w l = Inr nd" "store_ok ord n A (registers w)" using assms(1) by (rule at_linkerE)
  obtain m where m: "Linker_SelectablePaths w l = Inr m" using assms(1) by (auto elim: at_linker_queries [where p = 0])
  have greedy: "config_step ord n A R X P (act_bind (act_read (\<lambda>w. Linker_SelectablePaths w l)) (\<lambda>pathCount.
      Greedy_loop null slack l [1..<Suc pathCount])) w"
    by (rule config_step_read [where g = "\<lambda>w. Linker_SelectablePaths w l", OF m])
      (rule Greedy_step [OF at_linker_full [OF assms(1) m] assms(2)], auto)
  have idle: "config_step ord n A R X P (Linker_Select null slack l 0) w" by (rule at_linker_Select [OF assms(1,2)]) simp
  show ?thesis unfolding ResolvePendings_def
    by (rule config_step_read [where g = "\<lambda>w. parent_at w l", OF nd(1)])
      (use idle greedy config_step_return [OF nd(2)] in \<open>simp split: option.split ConfigurationAlgorithm.split\<close>)
qed

section \<open>Configuration of a tree\<close>

definition config_ok ::
    "BitsOrdering \<Rightarrow> (nat \<Rightarrow> nat) \<Rightarrow> nat set \<Rightarrow> nat set \<Rightarrow> nat set \<Rightarrow> nat set \<Rightarrow> World \<Rightarrow> SystemTree list \<Rightarrow> bool" where
  "config_ok ord n A R X P w ts \<longleftrightarrow> world_ok ord n A w ts \<and> touched w ts \<subseteq> R \<and> selector_links w ts \<subseteq> X \<and> set (forest_parents ts) \<subseteq> P"

lemma config_ok_configured:
  "config_ok ord n A R X P w ts \<Longrightarrow> configured n R' X' P' w w' \<Longrightarrow> store_ok ord n A (registers w') \<Longrightarrow> config_ok ord n A R X P w' ts"
  unfolding config_ok_def using configured_world_ok configured_sets [of n R' X' P' w w' ts] by blast

lemma config_ok_sub:
  assumes "config_ok ord n A R X P w ts" and "forest_subtrees ss \<subseteq> forest_subtrees ts"
    and "set (forest_registers ss) \<subseteq> set (forest_registers ts)" and "set (forest_parents ss) \<subseteq> set (forest_parents ts)"
  shows "config_ok ord n A R X P w ss"
proof -
  have "linkers_in ss \<subseteq> linkers_in ts" using assms(2) unfolding linkers_in_def by blast
  then have sub: "touched w ss \<subseteq> touched w ts" "selector_links w ss \<subseteq> selector_links w ts"
    using assms(3) unfolding touched_def selector_links_def by blast+
  have ok: "world_ok ord n A w ss"
    unfolding world_ok_def
  proof (intro conjI ballI allI impI)
    have "world_ok ord n A w ts" using assms(1) by (simp add: config_ok_def)
    note o = this [unfolded world_ok_def]
    show "store_ok ord n A (registers w)" using o by blast
    show "live_register n w a" if "a \<in> set (forest_registers ss)" for a using o assms(3) that by blast
    show "parents w p \<noteq> None" if "p \<in> set (forest_parents ss)" for p using o assms(4) that by blast
    show "linker_ok ord n A w l (length cs)" if "ParentTree Linker l cs \<in> forest_subtrees ss" for l cs
      using o [THEN conjunct2, THEN conjunct2, THEN conjunct2] subsetD [OF assms(2) that] by simp
  qed
  have c: "touched w ts \<subseteq> R" "selector_links w ts \<subseteq> X" "set (forest_parents ts) \<subseteq> P"
    using assms(1) by (simp_all only: config_ok_def)
  show ?thesis unfolding config_ok_def
    by (intro conjI ok order_trans [OF sub(1) c(1)] order_trans [OF sub(2) c(2)] order_trans [OF assms(4) c(3)])
qed

lemma config_ok_head: "config_ok ord n A R X P w (c # cs) \<Longrightarrow> config_ok ord n A R X P w [c]"
  and config_ok_tail: "config_ok ord n A R X P w (c # cs) \<Longrightarrow> config_ok ord n A R X P w cs"
  by (rule config_ok_sub; assumption?; auto)+

lemma config_ok_children: "config_ok ord n A R X P w [ParentTree cls l cs] \<Longrightarrow> config_ok ord n A R X P w cs"
  by (rule config_ok_sub; assumption?; auto)

lemma config_ok_linker:
  assumes "config_ok ord n A R X P w [ParentTree Linker l cs]"
  shows "at_linker ord n A R X P w l (length cs)"
proof -
  have "l \<in> linkers_in [ParentTree Linker l cs]" by (auto simp: linkers_in_def)
  then have "linker_muxes w l \<subseteq> touched w [ParentTree Linker l cs]"
    "{x. \<exists>sel. linked w l x sel} \<subseteq> selector_links w [ParentTree Linker l cs]"
    unfolding touched_def selector_links_def by blast+
  moreover have "linker_ok ord n A w l (length cs)" "l \<in> P" using assms unfolding config_ok_def world_ok_def by auto
  ultimately show ?thesis using assms unfolding at_linker_def config_ok_def by blast
qed

lemma config_ok_parent:
  assumes "config_ok ord n A R X P w [ParentTree cls a cs]"
  obtains nd where "parents w a = Some nd" "a \<in> P" "store_ok ord n A (registers w)"
  using assms unfolding config_ok_def world_ok_def by auto

lemma PendingCount_ok:
  assumes "config_ok ord n A R X P w (c # cs)"
  shows "\<exists>k. PendingCount w c = Inr k" "\<exists>b. IsPending w c = Inr b"
  using assms unfolding config_ok_def world_ok_def live_register_def
  by (cases c; auto simp: register_at_def deref_def parent_at_def)+

definition refreshed :: "Register \<Rightarrow> Register" where
  "refreshed r = SetPendingForWrite (bits_of (m_nextToSut r) \<noteq> bits_of (m_lastToSut r)) r"

lemma Configure_VisitRegister_eq:
  assumes "reg_inv k r" shows "Configure_VisitRegister r = (Inr (), refreshed r)"
proof -
  have "m_nextToSut r = bv_make (bits_of (m_nextToSut r)) Fixed" "m_lastToSut r = bv_make (bits_of (m_lastToSut r)) Fixed"
    using reg_invD(1,2) [OF assms] by (simp_all add: fixed_bits_def)
  then have "CompareEqualTo (m_nextToSut r) (m_lastToSut r) = Inr (bits_of (m_nextToSut r) = bits_of (m_lastToSut r))"
    by (metis CompareEqualTo_make)
  then show ?thesis by (simp add: Configure_VisitRegister_def act_bind_read refreshed_def)
qed

lemma refreshed_facts:
  "past (refreshed r) = past r" "reg_inv k r \<Longrightarrow> reg_inv k (refreshed r)" "m_bitsOrdering (refreshed r) = m_bitsOrdering r"
  "bits_of (m_nextToSut (refreshed r)) = bits_of (m_nextToSut r)"
  "reg_inv k r \<Longrightarrow> Register_IsPending (refreshed r) \<longleftrightarrow> m_pendingRead r \<or> bits_of (m_nextToSut r) \<noteq> bits_of (m_lastToSut r)"
  by (simp_all add: refreshed_def past_def SetPendingForWrite_def SetPendingCount_def Register_IsPending_def Node_IsPending_def)
    (auto simp: reg_inv_def)

lemma register_update_step:
  assumes r: "registers w a = Some r" "past r' = past r" "\<And>k. reg_inv k r \<Longrightarrow> reg_inv k r'" "m_bitsOrdering r' = m_bitsOrdering r"
    and st: "store_ok ord n A (registers w)" and a: "a \<in> R"
  shows "configured n R X P w (w\<lparr>registers := (registers w)(a \<mapsto> r')\<rparr>)" "store_ok ord n A ((registers w)(a \<mapsto> r'))"
proof -
  show "configured n R X P w (w\<lparr>registers := (registers w)(a \<mapsto> r')\<rparr>)"
    using r a by (auto simp: configured_def same_past_def live_register_def same_code_def intro!: option.rel_refl)
  show "store_ok ord n A ((registers w)(a \<mapsto> r'))"
    using st r unfolding store_ok_def by fastforce
qed

lemma Configure_register_step:
  assumes "config_ok ord n A R X P w [RegisterLeaf a]"
  shows "config_step ord n A R X P (Configure null slack algorithm (RegisterLeaf a)) w"
proof -
  obtain r where r: "registers w a = Some r" "reg_inv (n a) r" "store_ok ord n A (registers w)" "a \<in> R"
    using assms unfolding config_ok_def world_ok_def live_register_def touched_def by auto
  have run: "Configure null slack algorithm (RegisterLeaf a) w = (Inr (), w\<lparr>registers := (registers w)(a \<mapsto> refreshed r)\<rparr>)"
    using on_register_eq [OF r(1), where m = Configure_VisitRegister, OF Configure_VisitRegister_eq [OF r(2)]] by simp
  show ?thesis
    unfolding config_step_def using run register_update_step [OF r(1) refreshed_facts(1,2,3) r(3,4)] by auto
qed

lemma configure_path_step:
  assumes l: "at_linker ord n A R X P w l k" and slack: "slack \<noteq> []" and p: "p \<le> k" and c: "config_ok ord n A R2 X2 P2 w (c # cs)"
  shows "config_step ord n A R X P (configure_path null slack algorithm l c p) w"
proof -
  obtain x sel nd where nd: "linked w l x sel" "store_ok ord n A (registers w)" "parents w l = Some nd" using l by (rule at_linkerE)
  obtain j where j: "PendingCount w c = Inr j" using PendingCount_ok(1) [OF c] by blast
  obtain b where b: "IsPending w c = Inr b" using PendingCount_ok(2) [OF c] by blast
  obtain b1 b2 where q: "Linker_IsActive w l p = Inr b1" "Linker_IsSelected w l p = Inr b2" using l p by (rule at_linker_queries)
  have count: "config_step ord n A R X P (at_parent l (IncrementPendings j)) w"
    by (rule at_parent_step) (use nd l in \<open>auto simp: uncounted_def IncrementPendings_def at_linker_def\<close>)
  have open': "config_step ord n A R X P (case algorithm of Some alg \<Rightarrow> ProcessPending null slack alg l p
      | None \<Rightarrow> Linker_Select null slack l p) w'" if "configured n R X P w w'" "store_ok ord n A (registers w')" for w'
    using ProcessPending_step at_linker_Select at_linker_configured [OF l that] slack p by (auto split: option.split)
  have pending: "config_step ord n A R X P (act_bind (act_read (\<lambda>w. PendingCount w c)) (\<lambda>count.
      act_then (at_parent l (IncrementPendings count)) (case algorithm of Some alg \<Rightarrow> ProcessPending null slack alg l p
        | None \<Rightarrow> Linker_Select null slack l p))) w"
    by (rule config_step_read [where g = "\<lambda>w. PendingCount w c", OF j]) (rule config_step_then [OF count open'])
  have idle: "config_step ord n A R X P (act_bind (act_read (\<lambda>w. Linker_IsSelected w l p)) (\<lambda>selected.
      if selected then act_bind (act_read (\<lambda>w. parent_at w l)) (\<lambda>linker.
          if \<not> KeepOpen linker then Linker_Deselect null slack l p else act_return ())
      else act_return ())) w"
    by (rule config_step_read [where g = "\<lambda>w. Linker_IsSelected w l p", OF q(2)])
      (use at_linker_close [OF l slack p] config_step_return [OF nd(2)] in simp)
  show ?thesis unfolding configure_path_def
    by (rule config_step_read [where g = "\<lambda>w. IsPending w c", OF b]) (use pending idle in simp)
qed

lemma Linker_tally_step:
  assumes "at_linker ord n A R X P w l k" and "config_ok ord n A R X P w cs"
  shows "config_step ord n A R X P (Linker_tally l cs) w"
  using assms
proof (induction cs arbitrary: w)
  case Nil
  obtain x sel nd where "linked w l x sel" "store_ok ord n A (registers w)" using Nil(1) by (rule at_linkerE)
  then show ?case by (simp add: config_step_return del: act_basic)
next
  case (Cons c cs)
  obtain x sel nd where nd: "linked w l x sel" "store_ok ord n A (registers w)" "parents w l = Some nd" using Cons.prems(1) by (rule at_linkerE)
  obtain j where j: "PendingCount w c = Inr j" using PendingCount_ok(1) [OF Cons.prems(2)] by blast
  have count: "config_step ord n A R X P (at_parent l (IncrementPendings j)) w"
    by (rule at_parent_step) (use nd Cons.prems(1) in \<open>auto simp: uncounted_def IncrementPendings_def at_linker_def\<close>)
  show ?case unfolding Linker_tally.simps
  proof (rule config_step_read [where g = "\<lambda>w. PendingCount w c", OF j], rule config_step_then [OF count])
    fix w' assume "configured n R X P w w'" "store_ok ord n A (registers w')"
    then show "config_step ord n A R X P (Linker_tally l cs) w'"
      by (intro Cons.IH at_linker_configured [OF Cons.prems(1)] config_ok_configured [OF config_ok_tail [OF Cons.prems(2)]])
  qed
qed

definition configures :: "bool \<Rightarrow> byte list \<Rightarrow> ConfigurationAlgorithm option \<Rightarrow> SystemTree \<Rightarrow> bool" where
  "configures null slack algorithm c \<longleftrightarrow> (\<forall>ord n A R X P w. config_ok ord n A R X P w [c]
     \<longrightarrow> config_step ord n A R X P (Configure null slack algorithm c) w)"

lemma ConfigureChildren_step:
  assumes "\<And>c. c \<in> set cs \<Longrightarrow> configures null slack algorithm c" and "config_ok ord n A R X P w cs"
  shows "config_step ord n A R X P (ConfigureChildren null slack algorithm cs) w"
  using assms
proof (induction cs arbitrary: w)
  case Nil
  then show ?case by (simp add: config_step_return config_ok_def world_ok_def del: act_basic)
next
  case (Cons c cs)
  show ?case unfolding ConfigureChildren.simps
  proof (rule config_step_then)
    show "config_step ord n A R X P (Configure null slack algorithm c) w"
      using Cons.prems config_ok_head by (simp add: configures_def)
    fix w' assume "configured n R X P w w'" "store_ok ord n A (registers w')"
    then show "config_step ord n A R X P (ConfigureChildren null slack algorithm cs) w'"
      using Cons.prems(1) by (intro Cons.IH config_ok_configured [OF config_ok_tail [OF Cons.prems(2)]]) auto
  qed
qed

lemma Configure_paths_step:
  assumes "\<And>c. c \<in> set cs \<Longrightarrow> configures null slack algorithm c" and "config_ok ord n A R X P w cs"
    and "at_linker ord n A R X P w l k" and "slack \<noteq> []" and "p + length cs \<le> k + 1" and "k < 4294967295"
  shows "config_step ord n A R X P (Configure_paths null slack algorithm l cs p) w"
  using assms
proof (induction cs arbitrary: w p)
  case Nil
  then show ?case by (simp add: config_step_return config_ok_def world_ok_def del: act_basic)
next
  case (Cons c cs)
  show ?case unfolding Configure_paths.simps
  proof (intro config_step_then)
    show "config_step ord n A R X P (Configure null slack algorithm c) w"
      using Cons.prems config_ok_head by (simp add: configures_def)
    fix w1 assume 1: "configured n R X P w w1" "store_ok ord n A (registers w1)"
    show "config_step ord n A R X P (configure_path null slack algorithm l c p) w1"
      by (rule configure_path_step [OF at_linker_configured [OF Cons.prems(3) 1] Cons.prems(4) _ config_ok_configured [OF Cons.prems(2) 1]])
        (use Cons.prems(5) in simp)
    fix w2 assume 2: "configured n R X P w1 w2" "store_ok ord n A (registers w2)"
    have p: "u32 (p + 1) + length cs \<le> k + 1" using Cons.prems(5,6) by (simp add: u32_small)
    show "config_step ord n A R X P (Configure_paths null slack algorithm l cs (u32 (p + 1))) w2"
      using Cons.prems(1,4,6) p
      by (intro Cons.IH config_ok_configured [OF config_ok_configured [OF config_ok_tail [OF Cons.prems(2)] 1] 2]
          at_linker_configured [OF at_linker_configured [OF Cons.prems(3) 1] 2]) auto
  qed
qed

definition pending_counts :: "World \<Rightarrow> SystemTree list \<Rightarrow> nat" where
  "pending_counts w ts = sum_list (map (\<lambda>c. projr (PendingCount w c)) ts)"

lemma tally_pendings_eq:
  assumes "config_ok ord n A R X P w cs" and "j < 4294967296"
  shows "tally_pendings cs j w = Inr (u32 (j + pending_counts w cs))"
  using assms
proof (induction cs arbitrary: j)
  case Nil
  then show ?case by (simp add: pending_counts_def u32_small)
next
  case (Cons c cs)
  obtain k where k: "PendingCount w c = Inr k" using PendingCount_ok(1) [OF Cons.prems(1)] by blast
  have "tally_pendings cs (u32 (j + k)) w = Inr (u32 (u32 (j + k) + pending_counts w cs))"
    by (rule Cons.IH [OF config_ok_tail [OF Cons.prems(1)]]) (simp add: u32_def)
  then show ?case using k by (simp add: pending_counts_def u32_def mod_add_left_eq add.assoc)
qed

theorem Configure_succeeds:
  assumes slack: "slack \<noteq> []"
  shows "configures null slack algorithm t"
proof (induction t)
  case (RegisterLeaf a)
  show ?case unfolding configures_def using Configure_register_step by blast
next
  case (ParentTree cls l cs)
  show ?case unfolding configures_def
  proof (intro allI impI)
    fix ord n A R X P w assume ok: "config_ok ord n A R X P w [ParentTree cls l cs]"
    obtain nd where nd: "parents w l = Some nd" "l \<in> P" "store_ok ord n A (registers w)" using ok by (rule config_ok_parent)
    have cs: "config_ok ord n A R X P w cs" by (rule config_ok_children [OF ok])
    have alive: "parents w' l \<noteq> None" if "configured n R X P w w'" for w'
    proof -
      have "map_option uncounted (parents w' l) = map_option uncounted (parents w l)" using that by (simp add: configured_def)
      then show ?thesis using nd(1) by auto
    qed
    have zero: "config_step ord n A R X P (at_parent l Node_ResetPending) w'"
      if "configured n R X P w w'" "store_ok ord n A (registers w')" for w'
      by (rule at_parent_step [OF alive [OF that(1)] _ that(2) nd(2)]) (simp add: uncounted_def Node_ResetPending_def)
    show "config_step ord n A R X P (Configure null slack algorithm (ParentTree cls l cs)) w"
    proof (cases "cls = Linker")
      case True
      have lk: "at_linker ord n A R X P w l (length cs)" using ok True config_ok_linker by blast
      have len: "length cs < 4294967295" using at_linkerE [OF lk] by (metis le_less_trans)
      have "config_step ord n A R X P (act_then (at_parent l Node_ResetPending)
          (act_then (Configure_paths null slack algorithm l cs 1) (act_then (at_parent l Node_ResetPending)
          (act_then (Linker_tally l cs) (ResolvePendings null slack algorithm l))))) w"
      proof (intro config_step_then)
        show "config_step ord n A R X P (at_parent l Node_ResetPending) w" by (rule zero [OF configured_refl nd(3)])
        fix w1 assume 1: "configured n R X P w w1" "store_ok ord n A (registers w1)"
        show "config_step ord n A R X P (Configure_paths null slack algorithm l cs 1) w1"
          by (rule Configure_paths_step [OF ParentTree.IH config_ok_configured [OF cs 1] at_linker_configured [OF lk 1] slack _ len]) simp_all
        fix w2 assume "configured n R X P w1 w2" and 2: "store_ok ord n A (registers w2)"
        then have c2: "configured n R X P w w2" using configured_trans [OF 1(1)] by blast
        show "config_step ord n A R X P (at_parent l Node_ResetPending) w2" by (rule zero [OF c2 2])
        fix w3 assume "configured n R X P w2 w3" and 3: "store_ok ord n A (registers w3)"
        then have c3: "configured n R X P w w3" using configured_trans [OF c2] by blast
        show "config_step ord n A R X P (Linker_tally l cs) w3"
          by (rule Linker_tally_step [OF at_linker_configured [OF lk c3 3] config_ok_configured [OF cs c3 3]])
        fix w4 assume "configured n R X P w3 w4" and 4: "store_ok ord n A (registers w4)"
        then have c4: "configured n R X P w w4" using configured_trans [OF c3] by blast
        show "config_step ord n A R X P (ResolvePendings null slack algorithm l) w4"
          by (rule ResolvePendings_step [OF at_linker_configured [OF lk c4 4] slack])
      qed
      then show ?thesis using True by simp
    next
      case False
      have "config_step ord n A R X P (act_then (ConfigureChildren null slack algorithm cs)
         (act_bind (act_read (tally_pendings cs 0)) (\<lambda>pendingCount. at_parent l (SetPendingCount pendingCount)))) w"
      proof (rule config_step_then)
        show "config_step ord n A R X P (ConfigureChildren null slack algorithm cs) w"
          by (rule ConfigureChildren_step [OF ParentTree.IH cs])
        fix w1 assume 1: "configured n R X P w w1" "store_ok ord n A (registers w1)"
        have tally: "tally_pendings cs 0 w1 = Inr (u32 (0 + pending_counts w1 cs))"
          by (rule tally_pendings_eq [OF config_ok_configured [OF cs 1]]) simp
        have "config_step ord n A R X P (at_parent l (SetPendingCount k)) w1" for k
          by (rule at_parent_step [OF alive [OF 1(1)] _ 1(2) nd(2)]) (simp add: uncounted_def SetPendingCount_def)
        then show "config_step ord n A R X P
            (act_bind (act_read (tally_pendings cs 0)) (\<lambda>pendingCount. at_parent l (SetPendingCount pendingCount))) w1"
          by (rule config_step_read [where g = "tally_pendings cs 0", OF tally])
      qed
      then show ?thesis using False by simp
    qed
  qed
qed

end
