(* ===== verification/Configuration_Decisions.thy ===== *)
theory Configuration_Decisions
  imports Configuration
begin

text \<open>
  What configuration decides. The tree is \<open>independent\<close> when no node hides in the multiplexer of a
  linker above it and no two parts share nodes: then the state of a child is final once the child
  has been visited, and a linker with an exclusive selector ends up with the last pending path its
  algorithm wants to open.
\<close>

section \<open>Independent trees\<close>

fun independent :: "World \<Rightarrow> SystemTree \<Rightarrow> bool"
  and independents :: "World \<Rightarrow> SystemTree list \<Rightarrow> bool" where
  "independent w (RegisterLeaf a) = True"
| "independent w (ParentTree cls l cs) = (l \<notin> set (forest_parents cs) \<and> independents w cs
    \<and> (cls = Linker \<longrightarrow> linker_muxes w l \<inter> touched w cs = {} \<and> {x. \<exists>sel. linked w l x sel} \<inter> selector_links w cs = {}))"
| "independents w [] = True"
| "independents w (c # cs) = (independent w c \<and> independents w cs
    \<and> set (tree_registers c) \<inter> touched w cs = {} \<and> set (tree_parents c) \<inter> set (forest_parents cs) = {})"

lemma independent_configured:
  assumes "configured n R X P w w'"
  shows "independent w' t = independent w t" "independents w' cs = independents w cs"
  using configured_sets [OF assms] configured_muxes [OF assms] configured_selectors [OF assms]
  by (induction w t and w cs rule: independent_independents.induct) auto

lemma config_ok_own: "config_ok ord n A R X P w ts \<Longrightarrow> config_ok ord n A (touched w ts) (selector_links w ts) (set (forest_parents ts)) w ts"
  by (simp add: config_ok_def)

lemma Configure_run:
  assumes "slack \<noteq> []" and "config_ok ord n A R X P w [c]"
  obtains w' where "Configure null slack algorithm c w = (Inr (), w')" "store_ok ord n A (registers w')"
    "configured n (touched w [c]) (selector_links w [c]) (set (tree_parents c)) w w'"
    "configured n R X P w w'"
proof -
  have "config_step ord n A (touched w [c]) (selector_links w [c]) (set (forest_parents [c])) (Configure null slack algorithm c) w"
    using Configure_succeeds [OF assms(1), of null algorithm c] config_ok_own [OF assms(2)] unfolding configures_def by blast
  then obtain w' where w': "Configure null slack algorithm c w = (Inr (), w')" "store_ok ord n A (registers w')"
    "configured n (touched w [c]) (selector_links w [c]) (set (tree_parents c)) w w'"
    by (auto simp: config_step_def)
  have "configured n R X P w w'"
    by (rule configured_mono [OF w'(3)]) (use assms(2) in \<open>simp_all add: config_ok_def\<close>)
  then show ?thesis using w' that by blast
qed

text \<open>The pending state of a node is a function of its own data.\<close>

fun node_register :: "SystemTree \<Rightarrow> nat set" where
  "node_register (RegisterLeaf a) = {a}"
| "node_register (ParentTree cls l cs) = {}"

fun node_parent :: "SystemTree \<Rightarrow> nat set" where
  "node_parent (RegisterLeaf a) = {}"
| "node_parent (ParentTree cls l cs) = {l}"

lemma node_state_kept:
  assumes "configured n R X P w w'" and "node_register c \<inter> R = {}" and "node_parent c \<inter> P = {}"
  shows "PendingCount w' c = PendingCount w c" "IsPending w' c = IsPending w c"
  using assms by (cases c; auto simp: configured_def register_at_def deref_def parent_at_def)+

lemma node_in_tree: "node_register c \<subseteq> set (tree_registers c)" "node_parent c \<subseteq> set (tree_parents c)"
  by (cases c; simp)+

lemma IsPending_PendingCount:
  assumes "config_ok ord n A R X P w (c # cs)"
  shows "IsPending w c = Inr (projr (PendingCount w c) \<noteq> 0)"
  using assms unfolding config_ok_def world_ok_def live_register_def
  by (cases c) (auto simp: register_at_def deref_def parent_at_def Register_IsPending_def Register_PendingCount_def Node_IsPending_def)

section \<open>Counts are bounded by the number of registers\<close>

definition bounded :: "World \<Rightarrow> SystemTree \<Rightarrow> bool" where
  "bounded w c \<longleftrightarrow> (\<exists>k \<le> length (tree_registers c). PendingCount w c = Inr k)"

lemma bounded_register: "config_ok ord n A R X P w (RegisterLeaf a # cs) \<Longrightarrow> bounded w (RegisterLeaf a)"
  unfolding config_ok_def world_ok_def live_register_def bounded_def
  by (auto simp: register_at_def deref_def Register_PendingCount_def)

lemma bounded_kept:
  assumes b: "bounded w c" and c: "configured n R X P w w'" and p: "node_parent c \<inter> P = {}"
    and ok: "config_ok ord n A R' X' P' w' (c # cs)"
  shows "bounded w' c"
proof (cases c)
  case (RegisterLeaf a)
  then show ?thesis using bounded_register ok by blast
next
  case (ParentTree cls l ds)
  then have "PendingCount w' c = PendingCount w c" using node_state_kept(1) [of n R X P w w' c] c p by simp
  then show ?thesis using b by (simp add: bounded_def)
qed

lemma pending_counts_bounded: "\<forall>c \<in> set cs. bounded w c \<Longrightarrow> pending_counts w cs \<le> length (forest_registers cs)"
  unfolding pending_counts_def by (induction cs) (auto simp: bounded_def)

lemma Linker_Select_parents: "parents (snd (Linker_Select null slack l p w)) = parents w"
  by (auto simp: Linker_Select_def act_bind_def on_registers_def split: sum.splits prod.splits)

lemma Greedy_parents: "parents (snd (Greedy_loop null slack l ps w)) = parents w"
  by (induction ps) (auto simp: act_bind_def Linker_Select_parents split: sum.splits)

lemma ResolvePendings_parents: "parents (snd (ResolvePendings null slack algorithm l w)) = parents w"
  by (auto simp: ResolvePendings_def act_bind_def Linker_Select_parents Greedy_parents
      split: sum.splits option.splits ConfigurationAlgorithm.splits)

lemma pending_counts_Cons: "pending_counts w (c # cs) = projr (PendingCount w c) + pending_counts w cs"
  by (simp add: pending_counts_def)

lemma pending_counts_cong: "(\<And>c. c \<in> set cs \<Longrightarrow> PendingCount w' c = PendingCount w c) \<Longrightarrow> pending_counts w' cs = pending_counts w cs"
  by (auto simp: pending_counts_def intro!: arg_cong [where f = sum_list] map_cong)

lemma PendingCount_other_parent:
  "node_parent c \<inter> {l} = {} \<Longrightarrow> PendingCount (w\<lparr>parents := (parents w)(l := x)\<rparr>) c = PendingCount w c"
  by (cases c) (auto simp: register_at_def parent_at_def)

lemma Linker_tally_eq:
  assumes "\<forall>c \<in> set cs. (\<exists>k. PendingCount w c = Inr k) \<and> l \<notin> node_parent c" and "parents w l = Some nd"
    and "m_pendingCount nd < 4294967296"
  shows "Linker_tally l cs w = (Inr (), w\<lparr>parents := (parents w)(l \<mapsto> nd\<lparr>m_pendingCount := u32 (m_pendingCount nd + pending_counts w cs)\<rparr>)\<rparr>)"
  using assms
proof (induction cs arbitrary: w nd)
  case Nil
  then show ?case by (simp add: pending_counts_def u32_small fun_upd_idem)
next
  case (Cons c cs)
  obtain k where k: "PendingCount w c = Inr k" using Cons.prems(1) by auto
  let ?nd = "IncrementPendings k nd" let ?w = "w\<lparr>parents := (parents w)(l \<mapsto> ?nd)\<rparr>"
  have same: "PendingCount ?w d = PendingCount w d" if "d \<in> set cs" for d
    using Cons.prems(1) that by (intro PendingCount_other_parent) auto
  have "Linker_tally l cs ?w = (Inr (), ?w\<lparr>parents := (parents ?w)(l \<mapsto> ?nd\<lparr>m_pendingCount := u32 (m_pendingCount ?nd + pending_counts ?w cs)\<rparr>)\<rparr>)"
    by (rule Cons.IH) (use Cons.prems(1) same in \<open>auto simp: IncrementPendings_def u32_def\<close>)
  moreover have "pending_counts ?w cs = pending_counts w cs" by (rule pending_counts_cong [OF same])
  ultimately show ?case using k Cons.prems(2)
    by (simp add: act_bind_read act_then_simps at_parent_def pending_counts_Cons IncrementPendings_def u32_def mod_add_left_eq add.assoc) (simp add: fun_upd_def)
qed

definition bounds :: "bool \<Rightarrow> byte list \<Rightarrow> ConfigurationAlgorithm option \<Rightarrow> SystemTree \<Rightarrow> bool" where
  "bounds null slack algorithm c \<longleftrightarrow> (\<forall>ord n A R X P w w'. config_ok ord n A R X P w [c] \<longrightarrow> independent w c
     \<longrightarrow> Configure null slack algorithm c w = (Inr (), w') \<longrightarrow> bounded w' c)"

lemma config_step_run:
  assumes "config_step ord n A R X P m w" and "m w = (Inr (), w')"
  shows "configured n R X P w w'" "store_ok ord n A (registers w')"
  using assms by (auto simp: config_step_def)

lemma act_then_Inr:
  assumes "act_then m1 m2 w = (Inr u, w')"
  obtains w1 where "m1 w = (Inr (), w1)" "m2 w1 = (Inr u, w')"
  using assms by (auto simp: act_then_def act_bind_def split: prod.splits sum.splits)

lemma ConfigureChildren_bounded:
  assumes slack: "slack \<noteq> []" and "\<And>c. c \<in> set cs \<Longrightarrow> bounds null slack algorithm c" and "config_ok ord n A R X P w cs"
    and "independents w cs" and "ConfigureChildren null slack algorithm cs w = (Inr (), w')"
  shows "\<forall>c \<in> set cs. bounded w' c"
  using assms(2-)
proof (induction cs arbitrary: w)
  case (Cons c cs)
  obtain w1 where w1: "Configure null slack algorithm c w = (Inr (), w1)" "ConfigureChildren null slack algorithm cs w1 = (Inr (), w')"
    using Cons.prems(4) by (auto elim: act_then_Inr)
  have okc: "config_ok ord n A R X P w [c]" by (rule config_ok_head [OF Cons.prems(2)])
  have c1: "configured n R X P w w1" "store_ok ord n A (registers w1)"
    using Configure_run [OF slack okc, of null algorithm] w1(1) by auto
  have bc: "bounded w1 c" using Cons.prems(1) [of c] okc Cons.prems(3) w1(1) unfolding bounds_def by fastforce
  have ok1: "config_ok ord n A R X P w1 (c # cs)" by (rule config_ok_configured [OF Cons.prems(2) c1])
  have ind: "independents w1 cs" using Cons.prems(3) independent_configured(2) [OF c1(1)] by simp
  have IH: "\<forall>d \<in> set cs. bounded w' d" using Cons.prems(1) by (intro Cons.IH [OF _ config_ok_tail [OF ok1] ind w1(2)]) auto
  have "config_step ord n A (touched w1 cs) (selector_links w1 cs) (set (forest_parents cs)) (ConfigureChildren null slack algorithm cs) w1"
    by (rule ConfigureChildren_step [OF Configure_succeeds [OF slack] config_ok_own [OF config_ok_tail [OF ok1]]])
  note step = config_step_run [OF this w1(2)]
  have "bounded w' c"
  proof (rule bounded_kept [OF bc step(1)])
    show "node_parent c \<inter> set (forest_parents cs) = {}" using Cons.prems(3) node_in_tree(2) [of c] by auto
    show "config_ok ord n A R X P w' (c # cs)" by (rule config_ok_configured [OF ok1 step])
  qed
  then show ?case using IH by simp
qed simp

text \<open>One iteration over the paths of a linker: the child, its path, and the frames of both.\<close>

lemma Configure_paths_Cons:
  assumes slack: "slack \<noteq> []" and ok: "config_ok ord n A R X P w (c # cs)" and lk: "at_linker ord n A R X P w l k"
    and p: "p + length cs < k + 1" "k < 4294967295"
    and run: "Configure_paths null slack algorithm l (c # cs) p w = (Inr (), w')"
  obtains w1 w2 where "Configure null slack algorithm c w = (Inr (), w1)" "configure_path null slack algorithm l c p w1 = (Inr (), w2)"
    "Configure_paths null slack algorithm l cs (p + 1) w2 = (Inr (), w')"
    "configured n (touched w [c]) (selector_links w [c]) (set (tree_parents c)) w w1" "configured n R X P w w1"
    "configured n (linker_muxes w l) {x. \<exists>sel. linked w l x sel} {l} w1 w2" "configured n R X P w w2"
    "config_ok ord n A R X P w1 (c # cs)" "at_linker ord n A R X P w1 l k"
    "config_ok ord n A R X P w2 (c # cs)" "at_linker ord n A R X P w2 l k"
proof -
  obtain w1 w2 where w: "Configure null slack algorithm c w = (Inr (), w1)" "configure_path null slack algorithm l c p w1 = (Inr (), w2)"
    "Configure_paths null slack algorithm l cs (u32 (p + 1)) w2 = (Inr (), w')"
    using run by (auto elim!: act_then_Inr)
  have c1: "configured n (touched w [c]) (selector_links w [c]) (set (tree_parents c)) w w1" "configured n R X P w w1" "store_ok ord n A (registers w1)"
    using Configure_run [OF slack config_ok_head [OF ok], of null algorithm] w(1) by auto
  have ok1: "config_ok ord n A R X P w1 (c # cs)" and lk1: "at_linker ord n A R X P w1 l k"
    by (rule config_ok_configured [OF ok c1(2,3)], rule at_linker_configured [OF lk c1(2,3)])
  have own: "at_linker ord n A (linker_muxes w1 l) {x. \<exists>sel. linked w1 l x sel} {l} w1 l k" using lk1 by (simp add: at_linker_def)
  have "config_step ord n A (linker_muxes w1 l) {x. \<exists>sel. linked w1 l x sel} {l} (configure_path null slack algorithm l c p) w1"
    by (rule configure_path_step [OF own slack _ ok1]) (use p in simp)
  note c2 = config_step_run [OF this w(2)]
  have c2': "configured n R X P w1 w2" by (rule configured_mono [OF c2(1)]) (use lk1 in \<open>auto simp: at_linker_def\<close>)
  have "u32 (p + 1) = p + 1" using p by (simp add: u32_small)
  then show ?thesis
    using that w c1 c2 c2' configured_trans [OF c1(2) c2'] ok1 lk1 config_ok_configured [OF ok1 c2'] at_linker_configured [OF lk1 c2'] c2(2)
      configured_muxes [OF c1(2), of l] configured_selectors [OF c1(2), of l] by simp
qed

lemma Configure_paths_bounded:
  assumes slack: "slack \<noteq> []" and "\<And>c. c \<in> set cs \<Longrightarrow> bounds null slack algorithm c" and "config_ok ord n A R X P w cs"
    and "at_linker ord n A R X P w l k" and "p + length cs \<le> k + 1" and "k < 4294967295"
    and "independents w cs" and "l \<notin> set (forest_parents cs)"
    and "Configure_paths null slack algorithm l cs p w = (Inr (), w')"
  shows "\<forall>c \<in> set cs. bounded w' c"
  using assms(2-)
proof (induction cs arbitrary: w p)
  case (Cons c cs)
  have lt: "p + length cs < k + 1" using Cons.prems(4) by simp
  obtain w1 w2 where w: "Configure null slack algorithm c w = (Inr (), w1)" "Configure_paths null slack algorithm l cs (p + 1) w2 = (Inr (), w')"
    "configured n R X P w w1" "configured n (linker_muxes w l) {x. \<exists>sel. linked w l x sel} {l} w1 w2" "configured n R X P w w2"
    "config_ok ord n A R X P w2 (c # cs)" "at_linker ord n A R X P w2 l k"
    using Configure_paths_Cons [OF slack Cons.prems(2,3) lt Cons.prems(5,8)] by blast
  have bc: "bounded w1 c" using Cons.prems(1) [of c] config_ok_head [OF Cons.prems(2)] Cons.prems(6) w(1) unfolding bounds_def by fastforce
  have node: "node_parent c \<inter> {l} = {}" "node_parent c \<inter> set (forest_parents cs) = {}"
    using Cons.prems(6,7) node_in_tree(2) [of c] by auto
  have b2: "bounded w2 c" by (rule bounded_kept [OF bc w(4) node(1) w(6)])
  have ok2: "config_ok ord n A R X P w2 cs" by (rule config_ok_tail [OF w(6)])
  have ind: "independents w2 cs" using Cons.prems(6) independent_configured(2) [OF w(5)] by simp
  have IH: "\<forall>d \<in> set cs. bounded w' d"
    by (rule Cons.IH [OF Cons.prems(1) ok2 w(7) _ Cons.prems(5) ind _ w(2)]) (use Cons.prems(4,7) in auto)
  let ?R = "touched w2 cs \<union> linker_muxes w2 l" and ?X = "selector_links w2 cs \<union> {x. \<exists>sel. linked w2 l x sel}" and ?P = "set (forest_parents cs) \<union> {l}"
  have "config_step ord n A ?R ?X ?P (Configure_paths null slack algorithm l cs (p + 1)) w2"
  proof (rule Configure_paths_step [OF Configure_succeeds [OF slack] _ _ slack])
    show "config_ok ord n A ?R ?X ?P w2 cs" using ok2 unfolding config_ok_def by blast
    show "at_linker ord n A ?R ?X ?P w2 l k" using w(7) unfolding at_linker_def by blast
  qed (use Cons.prems(4,5) in auto)
  note step = config_step_run [OF this w(2)]
  have "bounded w' c"
    by (rule bounded_kept [OF b2 step(1) _ config_ok_configured [OF w(6) step]]) (use node in auto)
  then show ?case using IH by simp
qed simp

lemma sum_bounded:
  assumes "\<forall>c \<in> set cs. bounded w c" and "length (forest_registers cs) \<le> m"
  shows "u32 (pending_counts w cs) \<le> m"
  using pending_counts_bounded [OF assms(1)] assms(2) by (simp add: u32_def)

theorem Configure_bounded:
  assumes slack: "slack \<noteq> []"
  shows "bounds null slack algorithm t"
proof (induction t)
  case (RegisterLeaf a)
  show ?case unfolding bounds_def
  proof (intro allI impI)
    fix ord n A R X P w w' assume ok: "config_ok ord n A R X P w [RegisterLeaf a]"
      and "Configure null slack algorithm (RegisterLeaf a) w = (Inr (), w')"
    then have c: "configured n R X P w w'" "store_ok ord n A (registers w')"
      using Configure_run [OF slack ok, of null algorithm] by auto
    show "bounded w' (RegisterLeaf a)" by (rule bounded_register [OF config_ok_configured [OF ok c]])
  qed
next
  case (ParentTree cls l cs)
  show ?case unfolding bounds_def
  proof (intro allI impI)
    fix ord n A R X P w w'
    assume ok: "config_ok ord n A R X P w [ParentTree cls l cs]" and ind: "independent w (ParentTree cls l cs)"
      and run: "Configure null slack algorithm (ParentTree cls l cs) w = (Inr (), w')"
    obtain nd where nd: "parents w l = Some nd" "l \<in> P" "store_ok ord n A (registers w)" using ok by (rule config_ok_parent)
    have cs: "config_ok ord n A R X P w cs" by (rule config_ok_children [OF ok])
    have l: "l \<notin> set (forest_parents cs)" "independents w cs" using ind by auto
    show "bounded w' (ParentTree cls l cs)"
    proof (cases "cls = Linker")
      case False
      obtain w1 where w1: "ConfigureChildren null slack algorithm cs w = (Inr (), w1)"
        "act_bind (act_read (tally_pendings cs 0)) (\<lambda>pendingCount. at_parent l (SetPendingCount pendingCount)) w1 = (Inr (), w')"
        using run False by (auto elim!: act_then_Inr)
      have b: "\<forall>c \<in> set cs. bounded w1 c" by (rule ConfigureChildren_bounded [OF slack ParentTree.IH cs l(2) w1(1)])
      note c1 = config_step_run [OF ConfigureChildren_step [OF Configure_succeeds [OF slack] cs] w1(1)]
      have "tally_pendings cs 0 w1 = Inr (u32 (0 + pending_counts w1 cs))"
        by (rule tally_pendings_eq [OF config_ok_configured [OF cs c1]]) simp
      then have "PendingCount w' (ParentTree cls l cs) = Inr (u32 (pending_counts w1 cs))"
        using w1(2) by (auto simp: act_bind_read at_parent_def parent_at_def SetPendingCount_def split: option.splits)
      then show ?thesis using sum_bounded [OF b] by (simp add: bounded_def)
    next
      case True
      obtain w0 w1 w2 w3 where ws: "at_parent l Node_ResetPending w = (Inr (), w0)" "Configure_paths null slack algorithm l cs 1 w0 = (Inr (), w1)"
        "at_parent l Node_ResetPending w1 = (Inr (), w2)" "Linker_tally l cs w2 = (Inr (), w3)" "ResolvePendings null slack algorithm l w3 = (Inr (), w')"
        using run True by (auto elim!: act_then_Inr)
      have lk: "at_linker ord n A R X P w l (length cs)" using ok True config_ok_linker by blast
      have len: "length cs < 4294967295" using at_linkerE [OF lk] by (metis le_less_trans)
      have "config_step ord n A R X P (at_parent l Node_ResetPending) w"
        by (rule at_parent_step [OF _ _ nd(3,2)]) (use nd in \<open>simp_all add: uncounted_def Node_ResetPending_def\<close>)
      note c0 = config_step_run [OF this ws(1)]
      have ok0: "config_ok ord n A R X P w0 cs" and lk0: "at_linker ord n A R X P w0 l (length cs)"
        by (rule config_ok_configured [OF cs c0], rule at_linker_configured [OF lk c0])
      have b1: "\<forall>c \<in> set cs. bounded w1 c"
        by (rule Configure_paths_bounded [OF slack ParentTree.IH ok0 lk0 _ len _ l(1) ws(2)])
          (use l(2) independent_configured(2) [OF c0(1)] in simp_all)
      obtain nd1 where nd1: "parents w1 l = Some nd1" "w2 = w1\<lparr>parents := (parents w1)(l \<mapsto> Node_ResetPending nd1)\<rparr>"
        using ws(3) by (auto simp: at_parent_def split: option.splits)
      have other: "node_parent c \<inter> {l} = {}" if "c \<in> set cs" for c using l(1) node_in_tree(2) [of c] that by auto
      have b2: "\<forall>c \<in> set cs. bounded w2 c" using b1 PendingCount_other_parent [OF other] nd1(2) by (auto simp: bounded_def)
      have "Linker_tally l cs w2 = (Inr (), w2\<lparr>parents := (parents w2)(l \<mapsto> (Node_ResetPending nd1)
          \<lparr>m_pendingCount := u32 (m_pendingCount (Node_ResetPending nd1) + pending_counts w2 cs)\<rparr>)\<rparr>)"
        by (rule Linker_tally_eq) (use b2 other nd1 in \<open>auto simp: bounded_def Node_ResetPending_def\<close>)
      then have "PendingCount w3 (ParentTree cls l cs) = Inr (u32 (pending_counts w2 cs))"
        using ws(4) by (auto simp: parent_at_def Node_ResetPending_def)
      then have "PendingCount w' (ParentTree cls l cs) = Inr (u32 (pending_counts w2 cs))"
        using ResolvePendings_parents [of null slack algorithm l w3] ws(5) by (simp add: parent_at_def)
      then show ?thesis using sum_bounded [OF b2] by (simp add: bounded_def)
    qed
  qed
qed

section \<open>The paths a linker has chosen\<close>

definition chosen :: "BitsOrdering \<Rightarrow> (nat \<Rightarrow> nat) \<Rightarrow> PathSelector \<Rightarrow> World \<Rightarrow> nat set" where
  "chosen ord n sel w = {q \<in> paths_of sel. matches sel (next_bits ord n (m_muxRegisters sel) (registers w)) q}"

definition live_paths :: "BitsOrdering \<Rightarrow> (nat \<Rightarrow> nat) \<Rightarrow> PathSelector \<Rightarrow> World \<Rightarrow> nat set" where
  "live_paths ord n sel w = {q \<in> paths_of sel. matches sel (last_bits ord n (m_muxRegisters sel) (registers w)) q}"

definition wants :: "ConfigurationAlgorithm option \<Rightarrow> BitsOrdering \<Rightarrow> (nat \<Rightarrow> nat) \<Rightarrow> PathSelector \<Rightarrow> World \<Rightarrow> nat \<Rightarrow> bool" where
  "wants algorithm ord n sel w p \<longleftrightarrow> algorithm = None \<or> p \<notin> live_paths ord n sel w"

definition wanted :: "ConfigurationAlgorithm option \<Rightarrow> BitsOrdering \<Rightarrow> (nat \<Rightarrow> nat) \<Rightarrow> PathSelector \<Rightarrow> World \<Rightarrow> SystemTree list \<Rightarrow> nat \<Rightarrow> nat set" where
  "wanted algorithm ord n sel w cs p =
    {p + i | i. i < length cs \<and> IsPending w (cs ! i) = Inr True \<and> wants algorithm ord n sel w (p + i)}"

lemma wanted_Nil [simp]: "wanted algorithm ord n sel w [] p = {}"
  by (simp add: wanted_def)

lemma wanted_Cons:
  "wanted algorithm ord n sel w (c # cs) p
    = (if IsPending w c = Inr True \<and> wants algorithm ord n sel w p then {p} else {}) \<union> wanted algorithm ord n sel w cs (Suc p)"
proof (intro set_eqI iffI)
  fix x assume "x \<in> wanted algorithm ord n sel w (c # cs) p"
  then obtain i where i: "x = p + i" "i < length (c # cs)" "IsPending w ((c # cs) ! i) = Inr True" "wants algorithm ord n sel w (p + i)"
    by (auto simp: wanted_def)
  then show "x \<in> (if IsPending w c = Inr True \<and> wants algorithm ord n sel w p then {p} else {}) \<union> wanted algorithm ord n sel w cs (Suc p)"
    by (cases i) (auto simp: wanted_def)
next
  fix x assume x: "x \<in> (if IsPending w c = Inr True \<and> wants algorithm ord n sel w p then {p} else {}) \<union> wanted algorithm ord n sel w cs (Suc p)"
  show "x \<in> wanted algorithm ord n sel w (c # cs) p"
  proof (cases "x \<in> wanted algorithm ord n sel w cs (Suc p)")
    case True
    then obtain j where "x = p + Suc j" "Suc j < length (c # cs)" "IsPending w ((c # cs) ! Suc j) = Inr True" "wants algorithm ord n sel w (p + Suc j)"
      by (auto simp: wanted_def)
    then show ?thesis unfolding wanted_def by blast
  next
    case False
    then have "x = p + 0" "0 < length (c # cs)" "IsPending w ((c # cs) ! 0) = Inr True" "wants algorithm ord n sel w (p + 0)"
      using x by (auto split: if_splits)
    then show ?thesis unfolding wanted_def by blast
  qed
qed

lemma wanted_ge: "q \<in> wanted algorithm ord n sel w cs p \<Longrightarrow> p \<le> q \<and> q < p + length cs"
  by (auto simp: wanted_def)

lemma finite_wanted [simp]: "finite (wanted algorithm ord n sel w cs p)"
  unfolding wanted_def by simp

lemma live_register_slices:
  assumes "mux_ok ord n A (m_muxRegisters sel) st" and "s \<in> set (vr_registers (m_muxRegisters sel))"
  obtains a r where "slice_reg s = Some a" "st a = Some r" "a \<in> mux_addresses sel"
proof -
  obtain a r where a: "slice_reg s = Some a" "st a = Some r"
    using slices_live [OF mux_okD(1,2) [OF assms(1)]] assms(2) by (auto simp: slices_live_def)
  then have "a \<in> mux_addresses sel" using assms(2) unfolding mux_addresses_def by (metis imageI mem_Collect_eq)
  then show ?thesis using a that by blast
qed

lemma chosen_kept:
  assumes c: "configured n R X P w w'" and mux: "mux_ok ord n A (m_muxRegisters sel) (registers w)" and disj: "mux_addresses sel \<inter> R = {}"
  shows "chosen ord n sel w' = chosen ord n sel w"
proof -
  have "next_bits ord n (m_muxRegisters sel) (registers w') = next_bits ord n (m_muxRegisters sel) (registers w)"
    unfolding next_bits_def
  proof (rule view_bits_cong)
    fix s assume s: "s \<in> set (vr_registers (m_muxRegisters sel))"
    obtain a r where a: "slice_reg s = Some a" "registers w a = Some r" "a \<in> mux_addresses sel" by (rule live_register_slices [OF mux s])
    then have "registers w' a = registers w a" using c disj unfolding configured_def by blast
    then show "bits_of (m_nextToSut (the (registers w' (the (slice_reg s))))) = bits_of (m_nextToSut (the (registers w (the (slice_reg s)))))"
      using a by simp
  qed
  then show ?thesis by (simp add: chosen_def)
qed

lemma live_paths_kept:
  assumes c: "configured n R X P w w'" and mux: "mux_ok ord n A (m_muxRegisters sel) (registers w)"
  shows "live_paths ord n sel w' = live_paths ord n sel w"
proof -
  have "last_bits ord n (m_muxRegisters sel) (registers w') = last_bits ord n (m_muxRegisters sel) (registers w)"
    unfolding last_bits_def
  proof (rule view_bits_cong)
    fix s assume s: "s \<in> set (vr_registers (m_muxRegisters sel))"
    obtain a r where a: "slice_reg s = Some a" "registers w a = Some r" "a \<in> mux_addresses sel" by (rule live_register_slices [OF mux s])
    have "map_option past (registers w' a) = map_option past (registers w a)" using c unfolding configured_def same_past_def by blast
    then show "bits_of (m_lastToSut (the (registers w' (the (slice_reg s))))) = bits_of (m_lastToSut (the (registers w (the (slice_reg s)))))"
      using a by (cases "registers w' a") (auto simp: past_def)
  qed
  then show ?thesis by (simp add: live_paths_def)
qed

lemma wanted_kept:
  assumes "live_paths ord n sel w' = live_paths ord n sel w" and "\<And>c. c \<in> set cs \<Longrightarrow> IsPending w' c = IsPending w c"
  shows "wanted algorithm ord n sel w' cs p = wanted algorithm ord n sel w cs p"
  using assms unfolding wanted_def wants_def by (metis nth_mem)

lemma chosen_mux_change: "matches sel' = matches sel \<Longrightarrow> m_muxRegisters sel' = m_muxRegisters sel \<Longrightarrow> m_pathsCount sel' = m_pathsCount sel
    \<Longrightarrow> chosen ord n sel' w = chosen ord n sel w \<and> live_paths ord n sel' w = live_paths ord n sel w"
  by (simp add: chosen_def live_paths_def paths_of_def)

lemma same_code_values:
  "same_code sel sel' \<Longrightarrow> matches sel' = matches sel \<and> m_muxRegisters sel' = m_muxRegisters sel \<and> m_pathsCount sel' = m_pathsCount sel
    \<and> CanSelectNone sel' = CanSelectNone sel \<and> select_value sel' = select_value sel"
  using same_selector_values [of sel sel'] by (auto simp: same_code_def)

definition follows :: "BitsOrdering \<Rightarrow> (nat \<Rightarrow> nat) \<Rightarrow> nat set \<Rightarrow> World \<Rightarrow> nat \<Rightarrow> PathSelector \<Rightarrow> bool" where
  "follows ord n A w l sel \<longleftrightarrow> (\<exists>x sel'. linked w l x sel' \<and> same_code sel sel') \<and> mux_ok ord n A (m_muxRegisters sel) (registers w)"

lemma follows_kept:
  assumes "follows ord n A w l sel" and "configured n R X P w w'" and "store_ok ord n A (registers w')"
  shows "follows ord n A w' l sel"
proof -
  obtain x sel' where s: "linked w l x sel'" "same_code sel sel'" using assms(1) by (auto simp: follows_def)
  obtain sel'' where "linked w' l x sel''" "same_code sel' sel''" by (rule configured_linked [OF assms(2) s(1)])
  then show ?thesis using s assms(1,3) same_code_trans unfolding follows_def mux_ok_def by blast
qed

lemma chosen_registers: "registers w' = registers w \<Longrightarrow> chosen ord n sel w' = chosen ord n sel w \<and> live_paths ord n sel w' = live_paths ord n sel w"
  by (simp add: chosen_def live_paths_def)

lemma at_parent_run:
  assumes "at_parent l f w = (Inr (), w')"
  obtains nd where "parents w l = Some nd" "w' = w\<lparr>parents := (parents w)(l \<mapsto> f nd)\<rparr>"
  using assms by (auto simp: at_parent_def split: option.splits)

lemma follows_parents:
  assumes "follows ord n A w l sel" and "parents w l = Some nd" and "m_pathSelector nd' = m_pathSelector nd"
  shows "follows ord n A (w\<lparr>parents := (parents w)(l \<mapsto> nd')\<rparr>) l sel"
  using assms by (auto simp: follows_def linked_def)

lemma touched_Cons: "touched w (c # cs) = touched w [c] \<union> touched w cs"
proof -
  have "linkers_in (c # cs) = linkers_in [c] \<union> linkers_in cs" unfolding linkers_in_def by auto
  then show ?thesis unfolding touched_def by auto
qed

lemma follows_muxes: "follows ord n A w l sel \<Longrightarrow> mux_addresses sel \<subseteq> linker_muxes w l"
  unfolding follows_def linker_muxes_def using same_code_mux by blast

lemma Configure_paths_own:
  assumes slack: "slack \<noteq> []" and ok: "config_ok ord n A R X P w cs" and lk: "at_linker ord n A R X P w l k"
    and len: "p + length cs \<le> k + 1" "k < 4294967295" and run: "Configure_paths null slack algorithm l cs p w = (Inr (), w')"
  shows "configured n (touched w cs \<union> linker_muxes w l) (selector_links w cs \<union> {x. \<exists>sel. linked w l x sel}) (set (forest_parents cs) \<union> {l}) w w'"
    and "configured n R X P w w'" and "store_ok ord n A (registers w')"
proof -
  let ?R = "touched w cs \<union> linker_muxes w l" and ?X = "selector_links w cs \<union> {x. \<exists>sel. linked w l x sel}" and ?P = "set (forest_parents cs) \<union> {l}"
  have "config_step ord n A ?R ?X ?P (Configure_paths null slack algorithm l cs p) w"
  proof (rule Configure_paths_step [OF Configure_succeeds [OF slack] _ _ slack len])
    show "config_ok ord n A ?R ?X ?P w cs" using ok unfolding config_ok_def by blast
    show "at_linker ord n A ?R ?X ?P w l k" using lk unfolding at_linker_def by blast
  qed
  from config_step_run [OF this run] show c: "configured n ?R ?X ?P w w'" "store_ok ord n A (registers w')" by blast+
  show "configured n R X P w w'"
    by (rule configured_mono [OF c(1)]) (use ok lk in \<open>auto simp: config_ok_def at_linker_def\<close>)
qed

lemma Max_wanted: "B \<noteq> {} \<Longrightarrow> finite B \<Longrightarrow> \<forall>q \<in> B. p < q \<Longrightarrow> Max ({p} \<union> B) = Max (B :: nat set)"
  by (simp add: Max_insert)

lemma Greedy_none:
  "\<forall>p \<in> set ps. Linker_IsSelectedAndActive w l p = Inr False \<Longrightarrow> Greedy_loop null slack l ps w = (Inr (), w)"
  by (induction ps) (simp_all add: act_bind_read)

lemma pending_counts_pos:
  assumes "c \<in> set cs" and "projr (PendingCount w c) \<noteq> 0" shows "0 < pending_counts w cs"
  using assms unfolding pending_counts_def by (induction cs) auto

lemma IsPending_count:
  assumes "config_ok ord n A R X P w cs" and "c \<in> set cs"
  shows "IsPending w c = Inr (projr (PendingCount w c) \<noteq> 0)"
proof -
  have "config_ok ord n A R X P w [c]" by (rule config_ok_sub [OF assms(1)]) (use assms(2) in auto)
  then show ?thesis by (rule IsPending_PendingCount)
qed

lemma pending_counts_zero: "\<forall>c \<in> set cs. projr (PendingCount w c) = 0 \<Longrightarrow> pending_counts w cs = 0"
  unfolding pending_counts_def by (induction cs) auto

text \<open>The phases of \<^verbatim>\<open>VisitLinker\<close> and what each leaves alone.\<close>

lemma VisitLinker_phases:
  assumes slack: "slack \<noteq> []" and ok: "config_ok ord n A R X P w [ParentTree Linker l cs]" and ind: "independent w (ParentTree Linker l cs)"
    and regs: "length (forest_registers cs) < 4294967296"
    and run: "Configure null slack algorithm (ParentTree Linker l cs) w = (Inr (), w')"
  obtains w0 w1 w3 nd where "configured n R X P w w0" "registers w0 = registers w" "config_ok ord n A R X P w0 cs" "at_linker ord n A R X P w0 l (length cs)"
    "Configure_paths null slack algorithm l cs 1 w0 = (Inr (), w1)" "configured n R X P w w1" "configured n R X P w0 w1" "config_ok ord n A R X P w1 cs"
    "registers w3 = registers w1" "selectors w3 = selectors w1" "at_linker ord n A R X P w3 l (length cs)" "configured n R X P w w3"
    "parent_at w3 l = Inr nd" "m_pendingCount nd = pending_counts w1 cs" "ResolvePendings null slack algorithm l w3 = (Inr (), w')"
    "\<forall>c \<in> set cs. IsPending w' c = IsPending w1 c" "length cs < 4294967295" "configured n R X P w w'"
proof -
  obtain nd0 where nd: "parents w l = Some nd0" "l \<in> P" "store_ok ord n A (registers w)" using ok by (rule config_ok_parent)
  have cs: "config_ok ord n A R X P w cs" by (rule config_ok_children [OF ok])
  have l: "l \<notin> set (forest_parents cs)" "independents w cs" "linker_muxes w l \<inter> touched w cs = {}" using ind by auto
  obtain w0 w1 w2 w3 where ws: "at_parent l Node_ResetPending w = (Inr (), w0)" "Configure_paths null slack algorithm l cs 1 w0 = (Inr (), w1)"
    "at_parent l Node_ResetPending w1 = (Inr (), w2)" "Linker_tally l cs w2 = (Inr (), w3)" "ResolvePendings null slack algorithm l w3 = (Inr (), w')"
    using run by (auto elim!: act_then_Inr)
  have lk: "at_linker ord n A R X P w l (length cs)" by (rule config_ok_linker [OF ok])
  have len: "length cs < 4294967295" using at_linkerE [OF lk] by (metis le_less_trans)
  have "config_step ord n A R X P (at_parent l Node_ResetPending) w"
    by (rule at_parent_step [OF _ _ nd(3,2)]) (use nd in \<open>simp_all add: uncounted_def Node_ResetPending_def\<close>)
  note c0 = config_step_run [OF this ws(1)]
  have ok0: "config_ok ord n A R X P w0 cs" and lk0: "at_linker ord n A R X P w0 l (length cs)"
    by (rule config_ok_configured [OF cs c0], rule at_linker_configured [OF lk c0])
  have ind0: "independents w0 cs" using l(2) independent_configured(2) [OF c0(1)] by simp
  note own1 = Configure_paths_own [OF slack ok0 lk0 _ len ws(2)]
  have c01: "configured n R X P w0 w1" "store_ok ord n A (registers w1)" by (rule own1(2), simp, rule own1(3), simp)
  have c1: "configured n R X P w w1" by (rule configured_trans [OF c0(1) c01(1)])
  have ok1: "config_ok ord n A R X P w1 cs" and lk1: "at_linker ord n A R X P w1 l (length cs)"
    by (rule config_ok_configured [OF ok0 c01], rule at_linker_configured [OF lk0 c01])
  have b1: "\<forall>c \<in> set cs. bounded w1 c"
    by (rule Configure_paths_bounded [OF slack Configure_bounded [OF slack] ok0 lk0 _ len ind0 l(1) ws(2)]) simp
  obtain nd1 where nd1: "parents w1 l = Some nd1" "w2 = w1\<lparr>parents := (parents w1)(l \<mapsto> Node_ResetPending nd1)\<rparr>"
    using ws(3) by (rule at_parent_run)
  have other: "node_parent c \<inter> {l} = {}" if "c \<in> set cs" for c using l(1) node_in_tree(2) [of c] that by auto
  have pc: "PendingCount w2 c = PendingCount w1 c" if "c \<in> set cs" for c unfolding nd1(2) by (rule PendingCount_other_parent [OF other [OF that]])
  have sum: "pending_counts w2 cs = pending_counts w1 cs" "pending_counts w1 cs < 4294967296"
    using pending_counts_cong [OF pc] pending_counts_bounded [OF b1] regs by simp_all
  let ?nd = "nd1\<lparr>m_pendingCount := pending_counts w1 cs\<rparr>"
  have "Linker_tally l cs w2 = (Inr (), w2\<lparr>parents := (parents w2)(l \<mapsto> (Node_ResetPending nd1)
      \<lparr>m_pendingCount := u32 (m_pendingCount (Node_ResetPending nd1) + pending_counts w2 cs)\<rparr>)\<rparr>)"
    by (rule Linker_tally_eq) (use b1 pc other nd1 in \<open>auto simp: bounded_def Node_ResetPending_def\<close>)
  then have w3: "w3 = w1\<lparr>parents := (parents w1)(l \<mapsto> ?nd)\<rparr>"
    using ws(4) nd1(2) sum by (simp add: Node_ResetPending_def u32_small)
  have c13: "configured n R X P w1 w3" and st3: "store_ok ord n A (registers w3)"
  proof -
    have "at_parent l (\<lambda>nd. nd\<lparr>m_pendingCount := pending_counts w1 cs\<rparr>) w1 = (Inr (), w3)" using nd1(1) w3 by (simp add: at_parent_def)
    moreover have "config_step ord n A R X P (at_parent l (\<lambda>nd. nd\<lparr>m_pendingCount := pending_counts w1 cs\<rparr>)) w1"
      by (rule at_parent_step [OF _ _ c01(2) nd(2)]) (use nd1 in \<open>simp_all add: uncounted_def\<close>)
    ultimately show "configured n R X P w1 w3" "store_ok ord n A (registers w3)" using config_step_run by blast+
  qed
  have c3: "configured n R X P w w3" by (rule configured_trans [OF c1 c13])
  have lk3: "at_linker ord n A R X P w3 l (length cs)" by (rule at_linker_configured [OF lk1 c13 st3])
  have own3: "at_linker ord n A (linker_muxes w3 l) {x. \<exists>sel. linked w3 l x sel} {l} w3 l (length cs)" using lk3 by (simp add: at_linker_def)
  note r = config_step_run [OF ResolvePendings_step [OF own3 slack] ws(5)] and r' = config_step_run [OF ResolvePendings_step [OF lk3 slack] ws(5)]
  have pend: "IsPending w' c = IsPending w1 c" if c: "c \<in> set cs" for c
  proof -
    have "node_register c \<subseteq> touched w cs" using node_in_tree(1) [of c] c by (auto simp: touched_def)
    then have "node_register c \<inter> linker_muxes w3 l = {}" using l(3) configured_muxes [OF c3] by auto
    then have "IsPending w' c = IsPending w3 c" by (rule node_state_kept(2) [OF r(1) _ other [OF c]])
    also have "\<dots> = IsPending w1 c" unfolding w3 using other [OF c] by (cases c) (auto simp: register_at_def parent_at_def)
    finally show ?thesis .
  qed
  show ?thesis
    by (rule that [OF c0(1) _ ok0 lk0 ws(2) c1 c01(1) ok1 _ _ lk3 c3 _ _ ws(5) _ len configured_trans [OF c3 r'(1)], where nd = ?nd])
      (use ws(1) pend in \<open>auto simp: w3 parent_at_def at_parent_def split: option.splits\<close>)
qed

context exclusive_coding
begin

lemma fits_code: "fits sel \<Longrightarrow> same_code sel sel' \<Longrightarrow> fits sel'"
  using fits_same by (auto simp: same_code_def)

lemma Select_chooses:
  assumes link: "linked w l x sel'" and same: "same_code sel sel'" and fits: "fits sel"
    and mux: "mux_ok ord n A (m_muxRegisters sel) (registers w)" and slack: "slack \<noteq> []" and p: "p \<in> paths_of sel"
    and run: "Linker_Select null slack l p w = (Inr (), w')"
  shows "chosen ord n sel w' = {p}"
proof -
  note v = same_code_values [OF same]
  have mux': "mux_ok ord n A (m_muxRegisters sel') (registers w)" and p': "p \<in> paths_of sel'" using mux p v by (simp_all add: paths_of_def)
  have fits': "fits sel'" by (rule fits_code [OF fits same])
  obtain st' where st': "Selector_Select null slack sel' p (registers w) = (Inr (), st')" "mux_ok ord n A (m_muxRegisters sel') st'"
    "\<forall>q \<in> paths_of sel'. Selector_IsSelected st' sel' q = Inr (q = p)"
    using Select_selects_only [OF fits' mux' slack p', of null] by blast
  have w': "w' = w\<lparr>registers := st'\<rparr>"
    using Linker_Select_eq [OF link mux', of null slack p] run st'(1) p' by (auto simp: paths_of_def on_registers_def)
  have "matches sel' (next_bits ord n (m_muxRegisters sel') st') q = (q = p)" if "q \<in> paths_of sel'" for q
    using Selector_queries_eq(1) [OF fits_ok [OF fits'] st'(2), of q] st'(3) path_in_table [OF fits' that] that by auto
  then have "chosen ord n sel' w' = {p}" using p' w' by (auto simp: chosen_def)
  then show ?thesis using chosen_mux_change [of sel' sel] v by simp
qed

lemma IsActive_live:
  assumes link: "linked w l x sel'" and same: "same_code sel sel'" and fits: "fits sel"
    and mux: "mux_ok ord n A (m_muxRegisters sel) (registers w)" and p: "p \<in> paths_of sel"
  shows "Linker_IsActive w l p = Inr (p \<in> live_paths ord n sel w)" "Linker_IsSelected w l p = Inr (p \<in> chosen ord n sel w)"
    "Linker_IsSelectedAndActive w l p = Inr (p \<in> chosen ord n sel w \<inter> live_paths ord n sel w)"
proof -
  note v = same_code_values [OF same]
  have mux': "mux_ok ord n A (m_muxRegisters sel') (registers w)" and p': "p \<in> paths_of sel'" using mux p v by (simp_all add: paths_of_def)
  have fits': "fits sel'" by (rule fits_code [OF fits same])
  note q = Selector_queries_eq [OF fits_ok [OF fits'] mux', of p] and t = path_in_table [OF fits' p'] and lq = Linker_queries [OF link, of p]
  show "Linker_IsActive w l p = Inr (p \<in> live_paths ord n sel w)" "Linker_IsSelected w l p = Inr (p \<in> chosen ord n sel w)"
    "Linker_IsSelectedAndActive w l p = Inr (p \<in> chosen ord n sel w \<inter> live_paths ord n sel w)"
    using q t lq p v by (simp_all add: live_paths_def chosen_def paths_of_def)
qed

lemma path_decided:
  assumes fits: "fits sel" and fol: "follows ord n A w l sel" and slack: "slack \<noteq> []" and p: "p \<in> paths_of sel"
    and alg: "algorithm \<noteq> Some CloseAll" and b: "IsPending w c = Inr b"
    and run: "configure_path null slack algorithm l c p w = (Inr (), w')"
  shows "b \<and> wants algorithm ord n sel w p \<Longrightarrow> chosen ord n sel w' = {p}"
    and "b \<and> \<not> wants algorithm ord n sel w p \<or> \<not> b \<and> p \<notin> chosen ord n sel w \<Longrightarrow> chosen ord n sel w' = chosen ord n sel w"
proof -
  have mux: "mux_ok ord n A (m_muxRegisters sel) (registers w)" using fol by (simp add: follows_def)
  obtain x sel' where lk: "linked w l x sel'" "same_code sel sel'" using fol by (auto simp: follows_def)
  note q = IsActive_live [OF lk fits mux p]
  have *: "(b \<and> wants algorithm ord n sel w p \<longrightarrow> chosen ord n sel w' = {p})
    \<and> (b \<and> \<not> wants algorithm ord n sel w p \<or> \<not> b \<and> p \<notin> chosen ord n sel w \<longrightarrow> chosen ord n sel w' = chosen ord n sel w)"
  proof (cases b)
    case False
    then show ?thesis using run b q(2) by (auto simp: configure_path_def act_bind_read)
  next
    case True
    obtain k where k: "PendingCount w c = Inr k" using run b True by (cases "PendingCount w c") (auto simp: configure_path_def act_bind_def)
    obtain w1 where w1: "at_parent l (IncrementPendings k) w = (Inr (), w1)"
      "(case algorithm of Some alg \<Rightarrow> ProcessPending null slack alg l p | None \<Rightarrow> Linker_Select null slack l p) w1 = (Inr (), w')"
      using run b True k by (auto simp: configure_path_def act_bind_read elim!: act_then_Inr)
    obtain nd where nd: "parents w l = Some nd" "w1 = w\<lparr>parents := (parents w)(l \<mapsto> IncrementPendings k nd)\<rparr>" using w1(1) by (rule at_parent_run)
    have fol1: "follows ord n A w1 l sel" unfolding nd(2) by (rule follows_parents [OF fol nd(1)]) (simp add: IncrementPendings_def)
    have mux1: "mux_ok ord n A (m_muxRegisters sel) (registers w1)" using fol1 by (simp add: follows_def)
    obtain x' sel1 where lk1: "linked w1 l x' sel1" "same_code sel sel1" using fol1 by (auto simp: follows_def)
    have same: "chosen ord n sel w1 = chosen ord n sel w" "live_paths ord n sel w1 = live_paths ord n sel w"
      using chosen_registers [of w1 w] nd(2) by simp_all
    note sel = Select_chooses [OF lk1 fits mux1 slack p] and act = IsActive_live(1) [OF lk1 fits mux1 p]
    show ?thesis
    proof (cases algorithm)
      case None
      then show ?thesis using sel w1(2) True by (simp add: wants_def)
    next
      case (Some a)
      then have "(if p \<in> live_paths ord n sel w then act_return () else Linker_Select null slack l p) w1 = (Inr (), w')"
        using w1(2) act same alg by (simp add: ProcessPending_def act_bind_read split: if_splits)
      then show ?thesis using sel Some True same by (auto simp: wants_def split: if_splits)
    qed
  qed
  then show "b \<and> wants algorithm ord n sel w p \<Longrightarrow> chosen ord n sel w' = {p}"
    "b \<and> \<not> wants algorithm ord n sel w p \<or> \<not> b \<and> p \<notin> chosen ord n sel w \<Longrightarrow> chosen ord n sel w' = chosen ord n sel w"
    by blast+
qed

lemma paths_decided:
  assumes fits: "fits sel" and slack: "slack \<noteq> []" and alg: "algorithm \<noteq> Some CloseAll" and "config_ok ord n A R X P w cs"
    and "at_linker ord n A R X P w l k" and "follows ord n A w l sel" and "p + length cs \<le> k + 1" and "k < 4294967295"
    and "0 < p" and "k \<le> m_pathsCount sel" and "independents w cs" and "l \<notin> set (forest_parents cs)"
    and "linker_muxes w l \<inter> touched w cs = {}" and "Configure_paths null slack algorithm l cs p w = (Inr (), w')"
  shows "(wanted algorithm ord n sel w' cs p \<noteq> {} \<longrightarrow> chosen ord n sel w' = {Max (wanted algorithm ord n sel w' cs p)})
    \<and> (wanted algorithm ord n sel w' cs p = {} \<and> chosen ord n sel w \<inter> {p..<p + length cs} = {} \<longrightarrow> chosen ord n sel w' = chosen ord n sel w)"
  using assms(4-)
proof (induction cs arbitrary: w p)
  case Nil
  then show ?case by simp
next
  case (Cons c cs)
  have lt: "p + length cs < k + 1" using Cons.prems(4) by simp
  obtain w1 w2 where w: "Configure null slack algorithm c w = (Inr (), w1)" "configure_path null slack algorithm l c p w1 = (Inr (), w2)"
    "Configure_paths null slack algorithm l cs (p + 1) w2 = (Inr (), w')"
    "configured n (touched w [c]) (selector_links w [c]) (set (tree_parents c)) w w1" "configured n R X P w w1"
    "configured n (linker_muxes w l) {x. \<exists>sel. linked w l x sel} {l} w1 w2" "configured n R X P w w2"
    "config_ok ord n A R X P w1 (c # cs)" "at_linker ord n A R X P w1 l k"
    "config_ok ord n A R X P w2 (c # cs)" "at_linker ord n A R X P w2 l k"
    by (rule Configure_paths_Cons [OF slack Cons.prems(1,2) lt Cons.prems(5,11)])
  have st: "store_ok ord n A (registers w1)" "store_ok ord n A (registers w2)"
    using w(8,10) by (simp_all add: config_ok_def world_ok_def)
  have fol: "follows ord n A w1 l sel" "follows ord n A w2 l sel"
    by (rule follows_kept [OF Cons.prems(3) w(5) st(1)], rule follows_kept [OF Cons.prems(3) w(7) st(2)])
  have mux: "mux_ok ord n A (m_muxRegisters sel) (registers w)" "mux_ok ord n A (m_muxRegisters sel) (registers w2)"
    using Cons.prems(3) fol(2) by (simp_all add: follows_def)
  have pp: "p \<in> paths_of sel" using Cons.prems(6,7) lt by (simp add: paths_of_def)
  have sets: "linker_muxes w2 l = linker_muxes w l" "touched w2 cs = touched w cs" "linker_muxes w l \<inter> touched w [c] = {}"
    "linker_muxes w l \<inter> touched w cs = {}"
    using configured_muxes [OF w(7)] configured_sets(1) [OF w(7)] Cons.prems(10) touched_Cons [of w c cs] by auto
  have ch1: "chosen ord n sel w1 = chosen ord n sel w"
    by (rule chosen_kept [OF w(4) mux(1)]) (use follows_muxes [OF Cons.prems(3)] sets(3) in blast)
  obtain b where b: "IsPending w1 c = Inr b" using PendingCount_ok(2) [OF w(8)] by blast
  have ind: "independents w2 cs" using Cons.prems(8) independent_configured(2) [OF w(7)] by simp
  note own = Configure_paths_own [OF slack config_ok_tail [OF w(10)] w(11) _ Cons.prems(5) w(3)]
  have own': "configured n (touched w2 cs \<union> linker_muxes w2 l) (selector_links w2 cs \<union> {x. \<exists>sel. linked w2 l x sel}) (set (forest_parents cs) \<union> {l}) w2 w'"
    by (rule own) (use lt in simp)
  have reg: "node_register c \<inter> linker_muxes w l = {}" "node_register c \<inter> touched w cs = {}" "node_parent c \<inter> {l} = {}"
    "node_parent c \<inter> set (forest_parents cs) = {}"
  proof -
    have "node_register c \<subseteq> touched w [c]" using node_in_tree(1) [of c] by (auto simp: touched_def)
    then show "node_register c \<inter> linker_muxes w l = {}" using sets(3) by blast
    show "node_register c \<inter> touched w cs = {}" "node_parent c \<inter> {l} = {}" "node_parent c \<inter> set (forest_parents cs) = {}"
      using node_in_tree [of c] Cons.prems(8,9) by auto
  qed
  have "IsPending w2 c = Inr b" using node_state_kept(2) [OF w(6) reg(1,3)] b by simp
  moreover have "IsPending w' c = IsPending w2 c"
    by (rule node_state_kept(2) [OF own']) (use reg sets in auto)
  ultimately have bw': "IsPending w' c = Inr b" by simp
  have live: "live_paths ord n sel w' = live_paths ord n sel w1" "live_paths ord n sel w' = live_paths ord n sel w"
    using live_paths_kept [OF own' mux(2)] live_paths_kept [OF w(7) mux(1)] live_paths_kept [OF w(5) mux(1)] by simp_all
  have wn: "wants algorithm ord n sel w' p = wants algorithm ord n sel w1 p" using live by (simp add: wants_def)
  let ?S = "wanted algorithm ord n sel w' cs (Suc p)"
  have IH: "(?S \<noteq> {} \<longrightarrow> chosen ord n sel w' = {Max ?S})
    \<and> (?S = {} \<and> chosen ord n sel w2 \<inter> {Suc p..<Suc p + length cs} = {} \<longrightarrow> chosen ord n sel w' = chosen ord n sel w2)"
    using Cons.IH [OF config_ok_tail [OF w(10)] w(11) fol(2) _ Cons.prems(5) _ Cons.prems(7) ind, of "Suc p"] lt Cons.prems(9) sets w(3) by simp
  note d = path_decided [OF fits fol(1) slack pp alg b w(2)]
  have gt: "\<forall>q \<in> ?S. p < q" using wanted_ge by fastforce
  show ?case
  proof (cases "b \<and> wants algorithm ord n sel w1 p")
    case True
    then have S: "wanted algorithm ord n sel w' (c # cs) p = {p} \<union> ?S" using bw' wn by (simp add: wanted_Cons)
    have "chosen ord n sel w2 = {p}" by (rule d(1) [OF True])
    then show ?thesis using IH S Max_wanted [OF _ finite_wanted gt] by (cases "?S = {}") auto
  next
    case False
    then have S: "wanted algorithm ord n sel w' (c # cs) p = ?S" using bw' wn by (auto simp: wanted_Cons)
    have rest: "chosen ord n sel w' = chosen ord n sel w" if free: "chosen ord n sel w \<inter> {p..<p + length (c # cs)} = {}" and none: "?S = {}"
    proof -
      have "p \<in> {p..<p + length (c # cs)}" by simp
      then have "p \<notin> chosen ord n sel w" using free by blast
      then have same: "chosen ord n sel w2 = chosen ord n sel w" using d(2) False ch1 by auto
      have "{Suc p..<Suc p + length cs} \<subseteq> {p..<p + length (c # cs)}" by auto
      then have "chosen ord n sel w \<inter> {Suc p..<Suc p + length cs} = {}" using free by blast
      then show ?thesis using IH none same by simp
    qed
    show ?thesis unfolding S using IH rest by blast
  qed
qed

theorem linker_decided:
  assumes fits: "fits sel" and slack: "slack \<noteq> []" and alg: "algorithm \<noteq> Some CloseAll"
    and ok: "config_ok ord n A R X P w [ParentTree Linker l cs]" and ind: "independent w (ParentTree Linker l cs)"
    and fol: "follows ord n A w l sel" and regs: "length (forest_registers cs) < 4294967296" and paths: "length cs \<le> m_pathsCount sel"
    and run: "Configure null slack algorithm (ParentTree Linker l cs) w = (Inr (), w')"
    and S: "wanted algorithm ord n sel w' cs 1 \<noteq> {}"
  shows "chosen ord n sel w' = {Max (wanted algorithm ord n sel w' cs 1)}"
proof -
  obtain w0 w1 w3 nd where w: "configured n R X P w w0" "registers w0 = registers w" "config_ok ord n A R X P w0 cs" "at_linker ord n A R X P w0 l (length cs)"
    "Configure_paths null slack algorithm l cs 1 w0 = (Inr (), w1)" "configured n R X P w w1" "configured n R X P w0 w1" "config_ok ord n A R X P w1 cs"
    "registers w3 = registers w1" "selectors w3 = selectors w1" "at_linker ord n A R X P w3 l (length cs)" "configured n R X P w w3"
    "parent_at w3 l = Inr nd" "m_pendingCount nd = pending_counts w1 cs" "ResolvePendings null slack algorithm l w3 = (Inr (), w')"
    "\<forall>c \<in> set cs. IsPending w' c = IsPending w1 c" "length cs < 4294967295" "configured n R X P w w'"
    by (rule VisitLinker_phases [OF slack ok ind regs run])
  have l: "l \<notin> set (forest_parents cs)" "independents w0 cs" "linker_muxes w0 l \<inter> touched w0 cs = {}"
    using ind independent_configured(2) [OF w(1)] configured_muxes [OF w(1)] configured_sets(1) [OF w(1)] by auto
  have st: "store_ok ord n A (registers w0)" "store_ok ord n A (registers w3)"
    using w(3,8,9) by (simp_all add: config_ok_def world_ok_def)
  have fol0: "follows ord n A w0 l sel" and fol3: "follows ord n A w3 l sel"
    by (rule follows_kept [OF fol w(1) st(1)], rule follows_kept [OF fol w(12) st(2)])
  have mux: "mux_ok ord n A (m_muxRegisters sel) (registers w)" "mux_ok ord n A (m_muxRegisters sel) (registers w3)"
    using fol fol3 by (simp_all add: follows_def)
  let ?S = "wanted algorithm ord n sel w' cs 1"
  have live: "live_paths ord n sel w' = live_paths ord n sel w1" "live_paths ord n sel w3 = live_paths ord n sel w1"
    using live_paths_kept [OF w(18) mux(1)] live_paths_kept [OF w(6) mux(1)] live_paths_kept [OF w(12) mux(1)] by simp_all
  have S1: "wanted algorithm ord n sel w1 cs 1 = ?S" by (rule wanted_kept [symmetric]) (use live w(16) in auto)
  have "chosen ord n sel w1 = {Max ?S}"
    using paths_decided [OF fits slack alg w(3,4) fol0 _ w(17) _ paths l(2,1,3) w(5)] S unfolding S1 by simp
  then have ch3: "chosen ord n sel w3 = {Max ?S}" using chosen_registers [of w3 w1] w(9) by simp
  have Max: "Max ?S \<in> ?S" using S finite_wanted by (rule Max_in [rotated])
  then obtain i where i: "i < length cs" "IsPending w' (cs ! i) = Inr True" by (auto simp: wanted_def)
  have "IsPending w1 (cs ! i) = Inr True" using i w(16) by simp
  then have "projr (PendingCount w1 (cs ! i)) \<noteq> 0" using IsPending_count [OF w(8) nth_mem [OF i(1)]] by simp
  then have pos: "Node_IsPending nd" using pending_counts_pos [OF nth_mem [OF i(1)]] w(14) by (simp add: Node_IsPending_def)
  obtain x sel' where lk: "linked w3 l x sel'" "same_code sel sel'" using fol3 by (auto simp: follows_def)
  have "w' = w3"
  proof (cases "algorithm = Some LastOrDefault_Greedy")
    case False
    then show ?thesis using w(13,15) pos alg
      by (auto simp: ResolvePendings_def act_bind_read split: option.splits ConfigurationAlgorithm.splits)
  next
    case True
    have "Max ?S \<notin> live_paths ord n sel w3" using Max True live by (auto simp: wanted_def wants_def)
    then have "\<forall>p \<in> set [1..<Suc (m_pathsCount sel)]. Linker_IsSelectedAndActive w3 l p = Inr False"
      using IsActive_live(3) [OF lk fits mux(2)] ch3 by (auto simp: paths_of_def)
    then have greedy: "Greedy_loop null slack l [1..<Suc (m_pathsCount sel)] w3 = (Inr (), w3)" by (rule Greedy_none)
    have "Linker_SelectablePaths w3 l = Inr (m_pathsCount sel)"
      using selector_of_linked [OF lk(1)] same_code_values [OF lk(2)] by (simp add: Linker_SelectablePaths_def SelectablePaths_def)
    then show ?thesis using w(13,15) pos True greedy by (auto simp: ResolvePendings_def act_bind_read split: if_splits)
  qed
  then show ?thesis using ch3 by simp
qed

lemma Select_none:
  assumes link: "linked w l x sel'" and same: "same_code sel sel'" and fits: "fits sel" and none: "CanSelectNone sel"
    and mux: "mux_ok ord n A (m_muxRegisters sel) (registers w)" and slack: "slack \<noteq> []"
    and run: "Linker_Select null slack l 0 w = (Inr (), w')"
  shows "chosen ord n sel w' = {} \<or> w' = w \<and> mux_waits sel (registers w)"
proof -
  note v = same_code_values [OF same]
  have mux': "mux_ok ord n A (m_muxRegisters sel') (registers w)" using mux v by simp
  have fits': "fits sel'" by (rule fits_code [OF fits same])
  have "0 < length (m_selectTable sel')" using fits_ok [OF fits'] by (auto simp: sel_ok_def)
  then obtain st' where st': "Selector_Select null slack sel' 0 (registers w) = (Inr (), st')"
    "mux_change ord n A (m_muxRegisters sel') (select_value sel' 0 (next_bits ord n (m_muxRegisters sel') (registers w))) (registers w) st'"
    using Selector_Select_ok [OF fits_ok [OF fits'] mux' slack] by blast
  have idle: "chosen ord n sel (w\<lparr>registers := st'\<rparr>) = {}"
    using st'(2) v idle [OF fits none, of _ "next_bits ord n (m_muxRegisters sel) (registers w)"] by (auto simp: chosen_def mux_change_def)
  have "Linker_Select null slack l 0 w = (if mux_waits sel' (registers w) then (Inr (), w) else (Inr (), w\<lparr>registers := st'\<rparr>))"
    using Linker_Select_eq [OF link mux', of null slack 0] st'(1) by (simp add: on_registers_def)
  then show ?thesis using run idle v by (simp add: mux_waits_def split: if_splits)
qed

theorem linker_closed:
  assumes fits: "fits sel" and slack: "slack \<noteq> []" and alg: "algorithm \<in> {None, Some LastOrDefault, Some LastOrDefault_Greedy}"
    and ok: "config_ok ord n A R X P w [ParentTree Linker l cs]" and ind: "independent w (ParentTree Linker l cs)"
    and fol: "follows ord n A w l sel" and regs: "length (forest_registers cs) < 4294967296" and none: "CanSelectNone sel"
    and run: "Configure null slack algorithm (ParentTree Linker l cs) w = (Inr (), w')"
    and idle: "\<forall>c \<in> set cs. IsPending w' c = Inr False"
  shows "chosen ord n sel w' = {} \<or> mux_waits sel (registers w')"
proof -
  obtain w1 w3 nd where w: "config_ok ord n A R X P w1 cs" "registers w3 = registers w1" "configured n R X P w w3"
    "parent_at w3 l = Inr nd" "m_pendingCount nd = pending_counts w1 cs" "ResolvePendings null slack algorithm l w3 = (Inr (), w')"
    "\<forall>c \<in> set cs. IsPending w' c = IsPending w1 c"
    by (rule VisitLinker_phases [OF slack ok ind regs run]) blast
  have "\<forall>c \<in> set cs. projr (PendingCount w1 c) = 0" using IsPending_count [OF w(1)] w(7) idle by fastforce
  then have "\<not> Node_IsPending nd" using pending_counts_zero w(5) by (simp add: Node_IsPending_def)
  then have sel: "Linker_Select null slack l 0 w3 = (Inr (), w')"
    using w(4,6) alg by (auto simp: ResolvePendings_def act_bind_read)
  have st: "store_ok ord n A (registers w3)" using w(1,2) by (simp add: config_ok_def world_ok_def)
  have fol3: "follows ord n A w3 l sel" by (rule follows_kept [OF fol w(3) st])
  then obtain x sel' where lk: "linked w3 l x sel'" "same_code sel sel'" and mux: "mux_ok ord n A (m_muxRegisters sel) (registers w3)"
    by (auto simp: follows_def)
  from Select_none [OF lk fits none mux slack sel] show ?thesis by auto
qed

end

end
