(* ===== verification/Application_Threads.thy ===== *)
theory Application_Threads
  imports Scan_Chain
begin

text \<open>
  Application threads and the requests they queue: the parts of \<^verbatim>\<open>SystemModelManager_impl\<close>
  (\<^verbatim>\<open>internal/SystemModelManager_impl.hpp\<close>, \<^verbatim>\<open>SystemModelManager_impl.cpp\<close>) that run under its data
  mutex. A thread is a number, the application data a pointer denotes is found under the number of
  its thread. Waiting on condition variables is not modelled: a thread blocked in \<^verbatim>\<open>iApply\<close> is a
  member of \<open>m_pendingThreads\<close>, and it may leave when its \<open>canProceed\<close> is set.
\<close>

section \<open>The state of the manager\<close>

datatype RegisterInterface = SingleRegister nat | RegistersGroup VirtualRegister

record QueuedRequest =
  request_reg :: RegisterInterface
  request_value :: BinaryVector
  request_mask :: BinaryVector

datatype AppState =
    NotInitialized | Initialized | WrapperThreadStarted | ApplicationThreadStarted | WriteRequest | ReadRequest
  | RefreshRequest | InApply | Running | Terminated | TerminatedWithException

record ApplicationData =
  currentState :: AppState
  canProceed :: bool
  pendingRegistersIds :: "nat set"
  queuedWrites :: "QueuedRequest list"
  queuedReads :: "QueuedRequest list"
  queuedRefreshes :: "QueuedRequest list"

record Manager =
  system :: World
  identifierMapping :: "NodeRef option list"
  m_managerThreadId :: nat
  m_threadToAppData :: "nat \<Rightarrow> ApplicationData option"
  m_regIdToAppData :: "(nat \<times> nat) list"
  m_pendingThreads :: "nat set"

definition on_system :: "(World, 'b) act \<Rightarrow> ('a Manager_scheme, 'b) act" where
  "on_system a m = (case a (system m) of (res, w) \<Rightarrow> (res, m\<lparr>system := w\<rparr>))"

definition ApplicationData_create :: "AppState \<Rightarrow> ApplicationData" where
  "ApplicationData_create p_currentState =
    \<lparr>currentState = p_currentState, canProceed = False, pendingRegistersIds = {}, queuedWrites = [], queuedReads = [],
     queuedRefreshes = []\<rparr>"

text \<open>
  Only foreign threads are refused: for the manager's own thread an iterator to the end of the map
  is dereferenced when the thread has no entry.
\<close>

definition ApplicationDataForThreadId :: "'a Manager_scheme \<Rightarrow> nat \<Rightarrow> ApplicationData result" where
  "ApplicationDataForThreadId m threadId =
    (case m_threadToAppData m threadId of
       Some data \<Rightarrow> Inr data
     | None \<Rightarrow> if threadId \<noteq> m_managerThreadId m then Inl LogicError else Inl UndefinedBehaviour)"

definition with_app :: "nat \<Rightarrow> (ApplicationData \<Rightarrow> ApplicationData) \<Rightarrow> ('a Manager_scheme, unit) act" where
  "with_app threadId f m =
    (case ApplicationDataForThreadId m threadId of
       Inl e \<Rightarrow> (Inl e, m)
     | Inr appData \<Rightarrow> (Inr (), m\<lparr>m_threadToAppData := (m_threadToAppData m)(threadId \<mapsto> f appData)\<rparr>))"

definition set_canProceed :: "bool \<Rightarrow> ApplicationData \<Rightarrow> ApplicationData" where
  "set_canProceed b d = d\<lparr>canProceed := b\<rparr>"

definition set_currentState :: "AppState \<Rightarrow> ApplicationData \<Rightarrow> ApplicationData" where
  "set_currentState st d = d\<lparr>currentState := st\<rparr>"

section \<open>Threads and the registers they wait for\<close>

definition add_pending :: "nat \<Rightarrow> ApplicationData \<Rightarrow> ApplicationData" where
  "add_pending regId d = d\<lparr>canProceed := False, pendingRegistersIds := insert regId (pendingRegistersIds d)\<rparr>"

definition RegisterPendingThread :: "nat \<Rightarrow> Register \<Rightarrow> ('a Manager_scheme, unit) act" where
  "RegisterPendingThread threadId reg =
    act_bind (act_read (\<lambda>m. Inr (threadId \<noteq> m_managerThreadId m))) (\<lambda>application.
      if \<not> application then act_return ()
      else act_bind (act_read (\<lambda>m. ApplicationDataForThreadId m threadId)) (\<lambda>appData.
             let regId = m_identifier reg
             in if regId \<in> pendingRegistersIds appData then with_app threadId (set_canProceed False)
                else act_then (with_app threadId (add_pending regId))
                       (act_modify (\<lambda>m. m\<lparr>m_regIdToAppData := m_regIdToAppData m @ [(regId, threadId)]\<rparr>))))"

definition served :: "nat \<Rightarrow> 'a Manager_scheme \<Rightarrow> 'a Manager_scheme" where
  "served regId m = m\<lparr>
     m_threadToAppData := (\<lambda>t. if (regId, t) \<in> set (m_regIdToAppData m)
       then map_option (\<lambda>d. d\<lparr>pendingRegistersIds := pendingRegistersIds d - {regId}\<rparr>) (m_threadToAppData m t)
       else m_threadToAppData m t),
     m_regIdToAppData := filter (\<lambda>(r, _). r \<noteq> regId) (m_regIdToAppData m)\<rparr>"

fun ReportServedRegisters :: "nat list \<Rightarrow> ('a Manager_scheme, unit) act" where
  "ReportServedRegisters [] = act_return ()"
| "ReportServedRegisters (regId # rest) =
    act_bind (act_read (\<lambda>m. RegisterWithId (identifierMapping m) regId)) (\<lambda>reg.
    act_then (act_modify (served regId)) (ReportServedRegisters rest))"

text \<open>A \<^verbatim>\<open>std::set\<close> is traversed in ascending order; the current element may be erased.\<close>

fun ReleaseServedThreads_loop :: "nat list \<Rightarrow> ('a Manager_scheme, unit) act" where
  "ReleaseServedThreads_loop [] = act_return ()"
| "ReleaseServedThreads_loop (threadId # rest) =
    act_bind (act_read (\<lambda>m. ApplicationDataForThreadId m threadId)) (\<lambda>appData.
    act_then (if pendingRegistersIds appData = {}
              then act_then (with_app threadId (set_canProceed True))
                     (act_modify (\<lambda>m. m\<lparr>m_pendingThreads := m_pendingThreads m - {threadId}\<rparr>))
              else act_return ())
      (ReleaseServedThreads_loop rest))"

definition ReleaseServedThreads :: "('a Manager_scheme, unit) act" where
  "ReleaseServedThreads m = ReleaseServedThreads_loop (sorted_list_of_set (m_pendingThreads m)) m"

text \<open>What \<^verbatim>\<open>iApply\<close> does before its thread waits.\<close>

definition Report_pending :: "nat \<Rightarrow> ('a Manager_scheme, unit) act" where
  "Report_pending threadId =
    act_then (with_app threadId (set_canProceed False))
      (act_modify (\<lambda>m. m\<lparr>m_pendingThreads := insert threadId (m_pendingThreads m)\<rparr>))"

section \<open>The registry is consistent\<close>

definition waits_for :: "'a Manager_scheme \<Rightarrow> nat \<Rightarrow> nat set" where
  "waits_for m t = (case m_threadToAppData m t of None \<Rightarrow> {} | Some d \<Rightarrow> pendingRegistersIds d)"

definition may_proceed :: "'a Manager_scheme \<Rightarrow> nat \<Rightarrow> bool" where
  "may_proceed m t = (case m_threadToAppData m t of None \<Rightarrow> False | Some d \<Rightarrow> canProceed d)"

definition registry_ok :: "'a Manager_scheme \<Rightarrow> bool" where
  "registry_ok m \<longleftrightarrow> distinct (m_regIdToAppData m) \<and> finite (m_pendingThreads m)
    \<and> (\<forall>r t. (r, t) \<in> set (m_regIdToAppData m) \<longleftrightarrow> r \<in> waits_for m t)
    \<and> (\<forall>t \<in> m_pendingThreads m. m_threadToAppData m t \<noteq> None \<and> \<not> may_proceed m t)"

inductive manager_step :: "'a Manager_scheme \<Rightarrow> 'a Manager_scheme \<Rightarrow> bool" where
  request: "t \<notin> m_pendingThreads m \<Longrightarrow> RegisterPendingThread t reg m = (res, m') \<Longrightarrow> manager_step m m'"
| block: "Report_pending t m = (Inr (), m') \<Longrightarrow> manager_step m m'"
| serve: "ReportServedRegisters ids m = (res, m') \<Longrightarrow> manager_step m m'"
| release: "ReleaseServedThreads m = (res, m') \<Longrightarrow> manager_step m m'"

lemma with_app_known:
  "m_threadToAppData m t = Some d \<Longrightarrow> with_app t f m = (Inr (), m\<lparr>m_threadToAppData := (m_threadToAppData m)(t \<mapsto> f d)\<rparr>)"
  by (simp add: with_app_def ApplicationDataForThreadId_def)

lemma registry_views:
  "waits_for (m\<lparr>m_threadToAppData := (m_threadToAppData m)(t \<mapsto> d)\<rparr>) u = (if u = t then pendingRegistersIds d else waits_for m u)"
  "may_proceed (m\<lparr>m_threadToAppData := (m_threadToAppData m)(t \<mapsto> d)\<rparr>) u = (if u = t then canProceed d else may_proceed m u)"
  "waits_for (m\<lparr>m_pendingThreads := P\<rparr>) u = waits_for m u" "may_proceed (m\<lparr>m_pendingThreads := P\<rparr>) u = may_proceed m u"
  "waits_for (m\<lparr>m_regIdToAppData := R\<rparr>) u = waits_for m u" "may_proceed (m\<lparr>m_regIdToAppData := R\<rparr>) u = may_proceed m u"
  by (simp_all add: waits_for_def may_proceed_def)

lemma known_views: "m_threadToAppData m t = Some d \<Longrightarrow> waits_for m t = pendingRegistersIds d \<and> may_proceed m t = canProceed d"
  by (simp add: waits_for_def may_proceed_def)

lemma RegisterPendingThread_eq:
  assumes "m_threadToAppData m t = Some d" and "t \<noteq> m_managerThreadId m"
  shows "RegisterPendingThread t reg m = (Inr (), m\<lparr>m_threadToAppData := (m_threadToAppData m)(t \<mapsto> add_pending (m_identifier reg) d),
      m_regIdToAppData := m_regIdToAppData m @ (if m_identifier reg \<in> pendingRegistersIds d then [] else [(m_identifier reg, t)])\<rparr>)"
  using assms
  by (simp add: RegisterPendingThread_def act_bind_read ApplicationDataForThreadId_def with_app_known act_then_simps Let_def
      add_pending_def set_canProceed_def insert_absorb)

lemma RegisterPendingThread_other:
  "t = m_managerThreadId m \<Longrightarrow> RegisterPendingThread t reg m = (Inr (), m)"
  "t \<noteq> m_managerThreadId m \<Longrightarrow> m_threadToAppData m t = None \<Longrightarrow> RegisterPendingThread t reg m = (Inl LogicError, m)"
  by (simp_all add: RegisterPendingThread_def act_bind_def ApplicationDataForThreadId_def)

lemma registry_request:
  assumes ok: "registry_ok m" and free: "t \<notin> m_pendingThreads m" and run: "RegisterPendingThread t reg m = (res, m')"
  shows "registry_ok m'"
proof (cases "t = m_managerThreadId m \<or> m_threadToAppData m t = None")
  case True
  then have "RegisterPendingThread t reg m = (Inr (), m) \<or> RegisterPendingThread t reg m = (Inl LogicError, m)"
    using RegisterPendingThread_other by blast
  then show ?thesis using run ok by auto
next
  case False
  then obtain d where d: "m_threadToAppData m t = Some d" "t \<noteq> m_managerThreadId m" by auto
  let ?r = "m_identifier reg" and ?new = "if m_identifier reg \<in> pendingRegistersIds d then [] else [(m_identifier reg, t)]"
  have m': "m' = m\<lparr>m_threadToAppData := (m_threadToAppData m)(t \<mapsto> add_pending ?r d), m_regIdToAppData := m_regIdToAppData m @ ?new\<rparr>"
    using run RegisterPendingThread_eq [OF d, of reg] by simp
  have wt: "waits_for m t = pendingRegistersIds d" using known_views [OF d(1)] by simp
  have w: "waits_for m' u = (if u = t then insert ?r (waits_for m t) else waits_for m u)"
    and p: "may_proceed m' u = (u \<noteq> t \<and> may_proceed m u)" for u
    by (simp_all add: m' registry_views add_pending_def wt)
  note ok' = ok [unfolded registry_ok_def]
  show ?thesis unfolding registry_ok_def
  proof (intro conjI allI)
    show "distinct (m_regIdToAppData m')" using ok' wt by (auto simp: m')
    show "finite (m_pendingThreads m')" using ok' by (simp add: m')
    show "((r, u) \<in> set (m_regIdToAppData m')) = (r \<in> waits_for m' u)" for r u
      using ok' wt unfolding w by (auto simp: m')
    show "\<forall>u \<in> m_pendingThreads m'. m_threadToAppData m' u \<noteq> None \<and> \<not> may_proceed m' u"
      using ok' free unfolding p by (auto simp: m')
  qed
qed

lemma registry_block:
  assumes ok: "registry_ok m" and run: "Report_pending t m = (Inr (), m')"
  shows "registry_ok m'"
proof -
  obtain d where d: "m_threadToAppData m t = Some d"
    using run by (auto simp: Report_pending_def act_then_def act_bind_def with_app_def ApplicationDataForThreadId_def split: option.splits if_splits)
  have m': "m' = m\<lparr>m_threadToAppData := (m_threadToAppData m)(t \<mapsto> set_canProceed False d), m_pendingThreads := insert t (m_pendingThreads m)\<rparr>"
    using run d by (simp add: Report_pending_def act_then_simps with_app_known)
  have w: "waits_for m' u = waits_for m u" and p: "may_proceed m' u = (u \<noteq> t \<and> may_proceed m u)" for u
    using known_views [OF d] by (simp_all add: m' registry_views set_canProceed_def)
  show ?thesis using ok unfolding registry_ok_def w p by (simp add: m')
qed

lemma served_views:
  assumes "registry_ok m"
  shows "waits_for (served r m) t = waits_for m t - {r}" "may_proceed (served r m) t = may_proceed m t"
    "m_pendingThreads (served r m) = m_pendingThreads m" "m_threadToAppData (served r m) t = None \<longleftrightarrow> m_threadToAppData m t = None"
    "identifierMapping (served r m) = identifierMapping m"
proof -
  have "r \<in> waits_for m t \<longleftrightarrow> (r, t) \<in> set (m_regIdToAppData m)" using assms by (simp add: registry_ok_def)
  then show "waits_for (served r m) t = waits_for m t - {r}"
    by (cases "m_threadToAppData m t") (auto simp: served_def waits_for_def)
  show "may_proceed (served r m) t = may_proceed m t" by (cases "m_threadToAppData m t") (auto simp: served_def may_proceed_def)
qed (simp_all add: served_def)

lemma registry_served: "registry_ok m \<Longrightarrow> registry_ok (served r m)"
  using served_views [of m r] by (auto simp: registry_ok_def) (auto simp: served_def)

lemma ReportServedRegisters_ok:
  assumes "registry_ok m" and "ReportServedRegisters ids m = (res, m')"
  shows "registry_ok m' \<and> m_pendingThreads m' = m_pendingThreads m \<and> (\<forall>t. may_proceed m' t = may_proceed m t)
    \<and> (\<forall>t. waits_for m' t \<subseteq> waits_for m t) \<and> (res = Inr () \<longrightarrow> (\<forall>t. waits_for m' t = waits_for m t - set ids))"
  using assms
proof (induction ids arbitrary: m)
  case (Cons r ids)
  show ?case
  proof (cases "RegisterWithId (identifierMapping m) r")
    case (Inl e)
    then show ?thesis using Cons.prems by (auto simp: act_bind_def)
  next
    case (Inr reg)
    then have run: "ReportServedRegisters ids (served r m) = (res, m')" using Cons.prems by (simp add: act_bind_read act_then_simps)
    show ?thesis using Cons.IH [OF registry_served [OF Cons.prems(1)] run] served_views [OF Cons.prems(1), of r] by auto
  qed
qed auto

lemma ReportServedRegisters_returns:
  assumes "\<forall>r \<in> set ids. \<exists>reg. RegisterWithId (identifierMapping m) r = Inr reg"
  shows "\<exists>m'. ReportServedRegisters ids m = (Inr (), m')"
  using assms
proof (induction ids arbitrary: m)
  case (Cons r ids)
  have "identifierMapping (served r m) = identifierMapping m" by (simp add: served_def)
  then show ?case using Cons by (auto simp: act_bind_read act_then_simps)
qed simp

section \<open>Releasing threads\<close>

definition released :: "nat set \<Rightarrow> 'a Manager_scheme \<Rightarrow> 'a Manager_scheme \<Rightarrow> bool" where
  "released T m m' \<longleftrightarrow> m_pendingThreads m' = m_pendingThreads m - {t \<in> T. waits_for m t = {}}
    \<and> (\<forall>t. waits_for m' t = waits_for m t) \<and> (\<forall>t. may_proceed m' t \<longleftrightarrow> may_proceed m t \<or> t \<in> T \<and> waits_for m t = {})
    \<and> m_regIdToAppData m' = m_regIdToAppData m \<and> (\<forall>t. m_threadToAppData m' t = None \<longleftrightarrow> m_threadToAppData m t = None)"

lemma ReleaseServedThreads_loop_eq:
  assumes "\<forall>t \<in> set ts. m_threadToAppData m t \<noteq> None"
  shows "\<exists>m'. ReleaseServedThreads_loop ts m = (Inr (), m') \<and> released (set ts) m m'"
  using assms
proof (induction ts arbitrary: m)
  case Nil
  then show ?case by (auto simp: released_def)
next
  case (Cons t ts)
  obtain d where d: "m_threadToAppData m t = Some d" using Cons.prems by auto
  note v = known_views [OF d]
  show ?case
  proof (cases "pendingRegistersIds d = {}")
    case True
    let ?m = "m\<lparr>m_threadToAppData := (m_threadToAppData m)(t \<mapsto> set_canProceed True d), m_pendingThreads := m_pendingThreads m - {t}\<rparr>"
    have "\<forall>u \<in> set ts. m_threadToAppData ?m u \<noteq> None" using Cons.prems by simp
    from Cons.IH [OF this] obtain m' where m': "ReleaseServedThreads_loop ts ?m = (Inr (), m')" "released (set ts) ?m m'" by blast
    have "ReleaseServedThreads_loop (t # ts) m = (Inr (), m')"
      using m'(1) d True by (simp add: act_bind_read ApplicationDataForThreadId_def act_then_simps with_app_known)
    moreover have "released (set (t # ts)) m m'"
      using m'(2) v True d by (auto simp: released_def registry_views set_canProceed_def split: if_splits)
    ultimately show ?thesis by blast
  next
    case False
    have "\<forall>u \<in> set ts. m_threadToAppData m u \<noteq> None" using Cons.prems by simp
    from Cons.IH [OF this] obtain m' where m': "ReleaseServedThreads_loop ts m = (Inr (), m')" "released (set ts) m m'" by blast
    have "ReleaseServedThreads_loop (t # ts) m = (Inr (), m')"
      using m'(1) d False by (simp add: act_bind_read ApplicationDataForThreadId_def act_then_simps)
    moreover have "released (set (t # ts)) m m'" using m'(2) v False by (auto simp: released_def)
    ultimately show ?thesis by blast
  qed
qed

lemma ReleaseServedThreads_eq:
  assumes "registry_ok m"
  shows "\<exists>m'. ReleaseServedThreads m = (Inr (), m') \<and> released (m_pendingThreads m) m m' \<and> registry_ok m'"
proof -
  have "finite (m_pendingThreads m)" "\<forall>t \<in> m_pendingThreads m. m_threadToAppData m t \<noteq> None"
    using assms by (simp_all add: registry_ok_def)
  then obtain m' where m': "ReleaseServedThreads m = (Inr (), m')" "released (m_pendingThreads m) m m'"
    using ReleaseServedThreads_loop_eq [of "sorted_list_of_set (m_pendingThreads m)" m] by (auto simp: ReleaseServedThreads_def)
  moreover have "registry_ok m'" using m'(2) assms by (auto simp: released_def registry_ok_def)
  ultimately show ?thesis by blast
qed

lemma registry_step: "manager_step m m' \<Longrightarrow> registry_ok m \<Longrightarrow> registry_ok m'"
proof (induction rule: manager_step.induct)
  case (request t m reg res m')
  then show ?case using registry_request by blast
next
  case (block t m m')
  then show ?case using registry_block by blast
next
  case (serve ids m res m')
  then show ?case using ReportServedRegisters_ok by blast
next
  case (release m res m')
  then show ?case using ReleaseServedThreads_eq [of m] by auto
qed

end
