(* ===== verification/Requests.thy ===== *)
theory Requests
  imports Application_Threads
begin

text \<open>
  The requests of an application (\<^verbatim>\<open>iWrite\<close>, \<^verbatim>\<open>iRead\<close>, \<^verbatim>\<open>iRefresh\<close>, \<^verbatim>\<open>iScan\<close>, \<^verbatim>\<open>iGet\<close>, \<^verbatim>\<open>iGetStatus\<close> of
  \<^verbatim>\<open>SystemModelManager_impl.cpp\<close>), the processing of the queues by \<^verbatim>\<open>iApply\<close>, and the visitor
  \<^verbatim>\<open>MismatchesCollector\<close>. A path is already resolved to the register interface it names; no monitor
  is attached. The overload of \<^verbatim>\<open>Set\<close> or \<^verbatim>\<open>Get\<close> a type selects is a parameter.
\<close>

section \<open>Register interfaces\<close>

definition deref_at :: "World \<Rightarrow> register_ptr \<Rightarrow> Register result" where
  "deref_at w reg = deref (registers w) reg"

fun RI_Identifiers :: "World \<Rightarrow> RegisterInterface \<Rightarrow> nat list result" where
  "RI_Identifiers w (SingleRegister a) = rbind (register_at w a) (\<lambda>r. Inr [m_identifier r])"
| "RI_Identifiers w (RegistersGroup vr) = Inr (vr_identifiers vr)"

fun RI_BitsCount :: "World \<Rightarrow> RegisterInterface \<Rightarrow> nat result" where
  "RI_BitsCount w (SingleRegister a) = rbind (register_at w a) (\<lambda>r. Inr (Register_BitsCount r))"
| "RI_BitsCount w (RegistersGroup vr) = VR_BitsCount vr"

fun RI_isBlackBox :: "World \<Rightarrow> RegisterInterface \<Rightarrow> bool result" where
  "RI_isBlackBox w (SingleRegister a) = rbind (register_at w a) (\<lambda>r. Inr (m_isBlackBox r))"
| "RI_isBlackBox w (RegistersGroup vr) = Inr False"

fun RI_SetToSut :: "bool \<Rightarrow> byte list \<Rightarrow> BinaryVector \<Rightarrow> RegisterInterface \<Rightarrow> (store, unit) act" where
  "RI_SetToSut null slack sequence (SingleRegister a) = act_at (Some a) (Register_SetToSut sequence)"
| "RI_SetToSut null slack sequence (RegistersGroup vr) = VR_SetToSut null slack sequence vr"

fun RI_SetExpectedFromSut :: "bool \<Rightarrow> byte list \<Rightarrow> BinaryVector \<Rightarrow> BinaryVector \<Rightarrow> RegisterInterface \<Rightarrow> (store, unit) act" where
  "RI_SetExpectedFromSut null slack sequence maskBits (SingleRegister a) =
    act_at (Some a) (Register_SetExpectedFromSut_mask sequence maskBits)"
| "RI_SetExpectedFromSut null slack sequence maskBits (RegistersGroup vr) = VR_SetExpectedFromSut null slack sequence maskBits vr"

fun RI_ResetSize :: "nat \<Rightarrow> RegisterInterface \<Rightarrow> (store, unit) act" where
  "RI_ResetSize newSize (SingleRegister a) = act_at (Some a) (Register_ResetSize newSize)"
| "RI_ResetSize newSize (RegistersGroup vr) = VR_ResetSize newSize vr"

fun RI_LastFromSut :: "(BinaryVector \<Rightarrow> 'v result) \<Rightarrow> World \<Rightarrow> RegisterInterface \<Rightarrow> 'v result" where
  "RI_LastFromSut get_overload w (SingleRegister a) = rbind (register_at w a) (\<lambda>r. get_overload (m_lastFromSut r))"
| "RI_LastFromSut get_overload w (RegistersGroup vr) = VR_LastFromSut_T get_overload (registers w) vr"

fun RI_LastCompareResult :: "World \<Rightarrow> RegisterInterface \<Rightarrow> BinaryVector result" where
  "RI_LastCompareResult w (SingleRegister a) = rbind (register_at w a) Register_LastCompareResult"
| "RI_LastCompareResult w (RegistersGroup vr) = VR_LastCompareResult (registers w) vr"

section \<open>Queuing requests\<close>

definition QueuedRequest_create :: "RegisterInterface \<Rightarrow> BinaryVector \<Rightarrow> BinaryVector \<Rightarrow> QueuedRequest" where
  "QueuedRequest_create p_reg p_value p_mask =
    \<lparr>request_reg = p_reg, request_value = BinaryVector_copy p_value, request_mask = BinaryVector_copy p_mask\<rparr>"

definition queue_write :: "QueuedRequest \<Rightarrow> ApplicationData \<Rightarrow> ApplicationData" where
  "queue_write request d = d\<lparr>queuedWrites := queuedWrites d @ [request], currentState := WriteRequest\<rparr>"

definition queue_read :: "QueuedRequest \<Rightarrow> ApplicationData \<Rightarrow> ApplicationData" where
  "queue_read request d = d\<lparr>queuedReads := queuedReads d @ [request], currentState := ReadRequest\<rparr>"

definition fixed_value :: "(BinaryVector \<Rightarrow> BinaryVector result) \<Rightarrow> RegisterInterface \<Rightarrow> ('a Manager_scheme, BinaryVector) act" where
  "fixed_value set_overload reg =
    act_bind (act_read (\<lambda>m. RI_BitsCount (system m) reg)) (\<lambda>bitsCount.
      act_read (\<lambda>_. rbind (BinaryVector_fill bitsCount 0 Fixed) (\<lambda>asBV.
        rbind (set_overload asBV) (\<lambda>v. Inr (fst (BinaryVector_move v))))))"

definition iWrite_impl :: "(BinaryVector \<Rightarrow> BinaryVector result) \<Rightarrow> nat \<Rightarrow> RegisterInterface \<Rightarrow> ('a Manager_scheme, unit) act" where
  "iWrite_impl set_overload threadId reg =
    act_bind (fixed_value set_overload reg) (\<lambda>asBinaryVector.
      with_app threadId (queue_write (QueuedRequest_create reg asBinaryVector BinaryVector_empty)))"

definition iRead_impl :: "(BinaryVector \<Rightarrow> BinaryVector result) \<Rightarrow> nat \<Rightarrow> RegisterInterface \<Rightarrow> ('a Manager_scheme, unit) act" where
  "iRead_impl set_expected threadId reg =
    act_bind (fixed_value set_expected reg) (\<lambda>expectedAsBV.
      with_app threadId (queue_read (QueuedRequest_create reg expectedAsBV BinaryVector_empty)))"

definition iRead_impl_mask ::
    "(BinaryVector \<Rightarrow> BinaryVector result) \<Rightarrow> (BinaryVector \<Rightarrow> BinaryVector result) \<Rightarrow> nat \<Rightarrow> RegisterInterface
     \<Rightarrow> ('a Manager_scheme, unit) act" where
  "iRead_impl_mask set_expected set_mask threadId reg =
    act_bind (fixed_value set_expected reg) (\<lambda>expectedAsBV.
    act_bind (fixed_value set_mask reg) (\<lambda>dontCareAsBV.
      with_app threadId (queue_read (QueuedRequest_create reg expectedAsBV dontCareAsBV))))"

definition iRefresh :: "nat \<Rightarrow> RegisterInterface \<Rightarrow> ('a Manager_scheme, unit) act" where
  "iRefresh threadId reg = with_app threadId (\<lambda>d.
     d\<lparr>queuedRefreshes := queuedRefreshes d @ [QueuedRequest_create reg BinaryVector_empty BinaryVector_empty],
       currentState := RefreshRequest\<rparr>)"

text \<open>A black box takes the size of the value scanned; other registers are refused.\<close>

definition sized_value :: "BinaryVector \<Rightarrow> nat \<Rightarrow> BinaryVector result" where
  "sized_value value newValueSize = rbind (BinaryVector_fill newValueSize 0 NotFixed) (\<lambda>asBV.
     rbind (assign_move asBV value) (\<lambda>(v, _). Inr (fst (BinaryVector_move v))))"

definition iScan_resize :: "nat \<Rightarrow> RegisterInterface \<Rightarrow> ('a Manager_scheme, unit) act" where
  "iScan_resize newValueSize reg =
    act_bind (act_read (\<lambda>m. RI_isBlackBox (system m) reg)) (\<lambda>blackBox.
      if \<not> blackBox then act_throw InvalidArgument
      else act_bind (act_read (\<lambda>m. RI_BitsCount (system m) reg)) (\<lambda>bitsCount.
        if newValueSize \<noteq> bitsCount then on_system (on_registers (RI_ResetSize newValueSize reg)) else act_return ()))"

definition iScan_impl :: "BinaryVector \<Rightarrow> nat \<Rightarrow> RegisterInterface \<Rightarrow> ('a Manager_scheme, unit) act" where
  "iScan_impl value threadId reg =
    act_bind (act_read (\<lambda>_. sized_value value (BitsCount value))) (\<lambda>asBinaryVector.
    act_then (iScan_resize (BitsCount value) reg)
      (with_app threadId (queue_write (QueuedRequest_create reg asBinaryVector BinaryVector_empty))))"

definition iScan_impl_expected :: "BinaryVector \<Rightarrow> BinaryVector \<Rightarrow> nat \<Rightarrow> RegisterInterface \<Rightarrow> ('a Manager_scheme, unit) act" where
  "iScan_impl_expected value expectedValue threadId reg =
    act_bind (act_read (\<lambda>_. sized_value value (BitsCount value))) (\<lambda>asBinaryVector.
    act_bind (act_read (\<lambda>_. sized_value expectedValue (BitsCount value))) (\<lambda>expectedAsBV.
    act_then (iScan_resize (BitsCount value) reg)
      (with_app threadId (\<lambda>d. d\<lparr>
         queuedWrites := queuedWrites d @ [QueuedRequest_create reg asBinaryVector BinaryVector_empty],
         queuedReads := queuedReads d @ [QueuedRequest_create reg expectedAsBV BinaryVector_empty],
         currentState := WriteRequest\<rparr>))))"

section \<open>Processing the queues\<close>

definition pending_write :: "Register \<Rightarrow> bool result" where
  "pending_write reg = rbind (CompareEqualTo (m_nextToSut reg) (m_lastToSut reg)) (\<lambda>same. Inr (\<not> same))"

definition register_with_id :: "nat \<Rightarrow> ('a Manager_scheme, register_ptr) act" where
  "register_with_id identifier = act_read (\<lambda>m. RegisterWithId (identifierMapping m) identifier)"

definition update_register :: "register_ptr \<Rightarrow> (Register \<Rightarrow> Register) \<Rightarrow> ('a Manager_scheme, unit) act" where
  "update_register reg f = on_system (on_registers (act_at reg (act_modify f)))"

definition pending_thread :: "nat \<Rightarrow> register_ptr \<Rightarrow> ('a Manager_scheme, unit) act" where
  "pending_thread threadId reg = act_bind (act_read (\<lambda>m. deref_at (system m) reg)) (RegisterPendingThread threadId)"

definition written :: "nat \<Rightarrow> nat \<Rightarrow> ('a Manager_scheme, unit) act" where
  "written threadId identifier =
    act_bind (register_with_id identifier) (\<lambda>reg.
    act_bind (act_read (\<lambda>m. rbind (deref_at (system m) reg) pending_write)) (\<lambda>pendingWrite.
      if pendingWrite then pending_thread threadId reg else act_return ()))"

definition refreshing :: "nat \<Rightarrow> nat \<Rightarrow> ('a Manager_scheme, unit) act" where
  "refreshing threadId identifier =
    act_bind (register_with_id identifier) (\<lambda>reg.
    act_then (update_register reg (SetPendingForRead True)) (pending_thread threadId reg))"

definition reading :: "nat \<Rightarrow> nat \<Rightarrow> ('a Manager_scheme, unit) act" where
  "reading threadId identifier =
    act_bind (register_with_id identifier) (\<lambda>reg.
    act_then (update_register reg (SetCheckExpected True))
   (act_then (update_register reg (SetPendingForRead True)) (pending_thread threadId reg)))"

definition each_identifier :: "(nat \<Rightarrow> ('a Manager_scheme, unit) act) \<Rightarrow> QueuedRequest \<Rightarrow> ('a Manager_scheme, unit) act" where
  "each_identifier f request = act_bind (act_read (\<lambda>m. RI_Identifiers (system m) (request_reg request))) (act_each f)"

definition Process_write :: "bool \<Rightarrow> byte list \<Rightarrow> nat \<Rightarrow> QueuedRequest \<Rightarrow> ('a Manager_scheme, unit) act" where
  "Process_write null slack threadId request =
    act_then (on_system (on_registers (RI_SetToSut null slack (request_value request) (request_reg request))))
      (each_identifier (written threadId) request)"

definition Process_read :: "bool \<Rightarrow> byte list \<Rightarrow> nat \<Rightarrow> QueuedRequest \<Rightarrow> ('a Manager_scheme, unit) act" where
  "Process_read null slack threadId request =
    act_then (on_system (on_registers (RI_SetExpectedFromSut null slack (BinaryVector_copy (request_value request))
        (BinaryVector_copy (request_mask request)) (request_reg request))))
      (each_identifier (reading threadId) request)"

definition each_request ::
    "(ApplicationData \<Rightarrow> QueuedRequest list) \<Rightarrow> (QueuedRequest \<Rightarrow> ('a Manager_scheme, unit) act) \<Rightarrow> nat
     \<Rightarrow> ('a Manager_scheme, unit) act" where
  "each_request queue f threadId =
    act_bind (act_read (\<lambda>m. ApplicationDataForThreadId m threadId)) (\<lambda>appData. act_each f (queue appData))"

definition ProcessQueuedRequests :: "bool \<Rightarrow> byte list \<Rightarrow> nat \<Rightarrow> ('a Manager_scheme, unit) act" where
  "ProcessQueuedRequests null slack threadId =
    act_then (each_request queuedWrites (Process_write null slack threadId) threadId)
   (act_then (with_app threadId (\<lambda>d. d\<lparr>queuedWrites := []\<rparr>))
   (act_then (each_request queuedRefreshes (each_identifier (refreshing threadId)) threadId)
   (act_then (with_app threadId (\<lambda>d. d\<lparr>queuedRefreshes := []\<rparr>))
   (act_then (each_request queuedReads (Process_read null slack threadId) threadId)
      (with_app threadId (\<lambda>d. d\<lparr>queuedReads := []\<rparr>))))))"

section \<open>Results\<close>

definition iGet_impl :: "(BinaryVector \<Rightarrow> 'v result) \<Rightarrow> RegisterInterface \<Rightarrow> ('a Manager_scheme, 'v) act" where
  "iGet_impl get_overload reg = act_read (\<lambda>m. RI_LastFromSut get_overload (system m) reg)"

definition iGetMiscompares :: "RegisterInterface \<Rightarrow> ('a Manager_scheme, BinaryVector) act" where
  "iGetMiscompares reg = act_read (\<lambda>m. RI_LastCompareResult (system m) reg)"

definition Collector_VisitRegister :: "bool \<Rightarrow> nat \<Rightarrow> (Register, nat) act" where
  "Collector_VisitRegister clearCounter count =
    act_bind (act_read (\<lambda>reg. Inr (u32 (count + m_mismatches reg)))) (\<lambda>total.
    act_then (if clearCounter then act_modify ResetMismatches else act_return ()) (act_return total))"

fun MismatchesCollector :: "bool \<Rightarrow> SystemTree \<Rightarrow> nat \<Rightarrow> (World, nat) act"
  and MismatchesCollector_VisitChildren :: "bool \<Rightarrow> SystemTree list \<Rightarrow> nat \<Rightarrow> (World, nat) act" where
  "MismatchesCollector clearCounter (RegisterLeaf a) count = on_register a (Collector_VisitRegister clearCounter count)"
| "MismatchesCollector clearCounter (ParentTree cls a children) count =
    MismatchesCollector_VisitChildren clearCounter children count"
| "MismatchesCollector_VisitChildren clearCounter [] count = act_return count"
| "MismatchesCollector_VisitChildren clearCounter (child # siblings) count =
    act_bind (MismatchesCollector clearCounter child count) (MismatchesCollector_VisitChildren clearCounter siblings)"

definition iGetStatus :: "SystemTree option \<Rightarrow> bool \<Rightarrow> ('a Manager_scheme, nat) act" where
  "iGetStatus node clearCounter =
    (case node of None \<Rightarrow> act_throw InvalidArgument
     | Some tree \<Rightarrow> on_system (MismatchesCollector clearCounter tree 0))"

section \<open>What processing requests changes\<close>

definition same_register :: "Register \<Rightarrow> Register \<Rightarrow> bool" where
  "same_register r r' \<longleftrightarrow> m_identifier r' = m_identifier r \<and> m_lastToSut r' = m_lastToSut r
    \<and> (m_pendingRead r \<longrightarrow> m_pendingRead r') \<and> (\<forall>k. reg_inv k r \<longrightarrow> reg_inv k r')"

definition same_queues :: "ApplicationData \<Rightarrow> ApplicationData \<Rightarrow> bool" where
  "same_queues d d' \<longleftrightarrow> queuedWrites d' = queuedWrites d \<and> queuedReads d' = queuedReads d \<and> queuedRefreshes d' = queuedRefreshes d"

definition asked :: "(ApplicationData \<Rightarrow> ApplicationData \<Rightarrow> bool) \<Rightarrow> nat \<Rightarrow> 'a Manager_scheme \<Rightarrow> 'a Manager_scheme \<Rightarrow> bool" where
  "asked q t m m' \<longleftrightarrow> (\<forall>a. rel_option same_register (registers (system m) a) (registers (system m') a))
    \<and> parents (system m') = parents (system m) \<and> selectors (system m') = selectors (system m)
    \<and> identifierMapping m' = identifierMapping m \<and> m_managerThreadId m' = m_managerThreadId m
    \<and> m_pendingThreads m' = m_pendingThreads m \<and> (\<forall>u. u \<noteq> t \<longrightarrow> m_threadToAppData m' u = m_threadToAppData m u)
    \<and> rel_option (\<lambda>d d'. pendingRegistersIds d \<subseteq> pendingRegistersIds d' \<and> q d d') (m_threadToAppData m t) (m_threadToAppData m' t)
    \<and> (registry_ok m \<and> t \<notin> m_pendingThreads m \<longrightarrow> registry_ok m')"

lemma rel_option_trans:
  assumes "rel_option R x y" and "rel_option R y z" and "\<And>a b c. R a b \<Longrightarrow> R b c \<Longrightarrow> R a c"
  shows "rel_option R x z"
  using assms(1,2) by (cases x; cases y; cases z) (auto intro: assms(3))

lemma same_register_trans: "same_register r r' \<Longrightarrow> same_register r' r'' \<Longrightarrow> same_register r r''"
  by (auto simp: same_register_def)

lemma asked_trans:
  assumes q: "\<And>x y z. q x y \<Longrightarrow> q y z \<Longrightarrow> q x z" and 1: "asked q t m m1" and 2: "asked q t m1 m2"
  shows "asked q t m m2"
proof -
  have r: "rel_option same_register (registers (system m) a) (registers (system m2) a)" for a
  proof (rule rel_option_trans [OF _ _ same_register_trans])
    show "rel_option same_register (registers (system m) a) (registers (system m1) a)"
      "rel_option same_register (registers (system m1) a) (registers (system m2) a)" using 1 2 by (simp_all add: asked_def)
  qed
  have d: "rel_option (\<lambda>d d'. pendingRegistersIds d \<subseteq> pendingRegistersIds d' \<and> q d d') (m_threadToAppData m t) (m_threadToAppData m2 t)"
  proof (rule rel_option_trans)
    show "rel_option (\<lambda>d d'. pendingRegistersIds d \<subseteq> pendingRegistersIds d' \<and> q d d') (m_threadToAppData m t) (m_threadToAppData m1 t)"
      "rel_option (\<lambda>d d'. pendingRegistersIds d \<subseteq> pendingRegistersIds d' \<and> q d d') (m_threadToAppData m1 t) (m_threadToAppData m2 t)"
      using 1 2 by (simp_all add: asked_def)
  qed (use q in blast)
  note 1 = 1 [unfolded asked_def] and 2 = 2 [unfolded asked_def]
  show ?thesis unfolding asked_def
  proof (intro conjI)
    show "\<forall>u. u \<noteq> t \<longrightarrow> m_threadToAppData m2 u = m_threadToAppData m u" using 1 2 by simp
    show "registry_ok m \<and> t \<notin> m_pendingThreads m \<longrightarrow> registry_ok m2" using 1 2 by simp
  qed (use 1 2 r d in simp_all)
qed

lemma asked_same_trans: "asked same_queues t m m1 \<Longrightarrow> asked same_queues t m1 m2 \<Longrightarrow> asked same_queues t m m2"
  by (rule asked_trans) (auto simp: same_queues_def)

lemma asked_any_trans: "asked (\<lambda>_ _. True) t m m1 \<Longrightarrow> asked (\<lambda>_ _. True) t m1 m2 \<Longrightarrow> asked (\<lambda>_ _. True) t m m2"
  by (rule asked_trans) auto

lemma asked_weaken: "asked q t m m' \<Longrightarrow> asked (\<lambda>_ _. True) t m m'"
  unfolding asked_def by (cases "m_threadToAppData m t"; cases "m_threadToAppData m' t") simp_all

lemma same_register_refl [simp]: "same_register r r"
  by (simp add: same_register_def)

lemma asked_refl: "asked same_queues t m m"
  by (auto simp: asked_def same_queues_def intro!: option.rel_refl)

lemma asked_waits: "asked q t m m' \<Longrightarrow> waits_for m t \<subseteq> waits_for m' t"
  by (auto simp: asked_def waits_for_def elim: option.rel_cases split: option.splits)

lemma asked_register:
  assumes "asked q t m m'" and "registers (system m) a = Some r"
  obtains r' where "registers (system m') a = Some r'" "same_register r r'"
proof -
  have "rel_option same_register (Some r) (registers (system m') a)" using assms unfolding asked_def by metis
  then show ?thesis using that by (cases "registers (system m') a") auto
qed

lemma asked_thread:
  assumes "asked q t m m'" and "m_threadToAppData m t = Some d"
  obtains d' where "m_threadToAppData m' t = Some d'" "q d d'"
proof -
  have "rel_option (\<lambda>d d'. pendingRegistersIds d \<subseteq> pendingRegistersIds d' \<and> q d d') (Some d) (m_threadToAppData m' t)"
    using assms unfolding asked_def by metis
  then show ?thesis using that by (cases "m_threadToAppData m' t") auto
qed

definition put_register :: "nat \<Rightarrow> Register \<Rightarrow> 'a Manager_scheme \<Rightarrow> 'a Manager_scheme" where
  "put_register a r m = m\<lparr>system := (system m)\<lparr>registers := (registers (system m))(a \<mapsto> r)\<rparr>\<rparr>"

lemma on_system_register:
  assumes "registers (system m) a = Some r" and "f r = (x, r')"
  shows "on_system (on_registers (act_at (Some a) f)) m = (x, put_register a r' m)"
  using assms by (simp add: on_system_def on_registers_def act_at_def put_register_def)

lemma put_register_simps [simp]:
  "registers (system (put_register a r m)) = (registers (system m))(a \<mapsto> r)" "parents (system (put_register a r m)) = parents (system m)"
  "selectors (system (put_register a r m)) = selectors (system m)" "identifierMapping (put_register a r m) = identifierMapping m"
  "m_managerThreadId (put_register a r m) = m_managerThreadId m" "m_pendingThreads (put_register a r m) = m_pendingThreads m"
  "m_threadToAppData (put_register a r m) = m_threadToAppData m" "m_regIdToAppData (put_register a r m) = m_regIdToAppData m"
  "waits_for (put_register a r m) u = waits_for m u" "may_proceed (put_register a r m) u = may_proceed m u"
  by (simp_all add: put_register_def waits_for_def may_proceed_def)

lemma asked_put_register:
  assumes "registers (system m) a = Some r" and "same_register r r'"
  shows "asked same_queues t m (put_register a r' m)"
  using assms by (auto simp: asked_def registry_ok_def same_queues_def intro!: option.rel_refl)

definition enrolled :: "nat \<Rightarrow> nat \<Rightarrow> 'a Manager_scheme \<Rightarrow> 'a Manager_scheme" where
  "enrolled t regId m = (case m_threadToAppData m t of None \<Rightarrow> m | Some d \<Rightarrow>
     m\<lparr>m_threadToAppData := (m_threadToAppData m)(t \<mapsto> add_pending regId d),
       m_regIdToAppData := m_regIdToAppData m @ (if regId \<in> pendingRegistersIds d then [] else [(regId, t)])\<rparr>)"

lemma asked_enrolled:
  assumes "m_threadToAppData m t = Some d" and "t \<noteq> m_managerThreadId m"
  shows "RegisterPendingThread t reg m = (Inr (), enrolled t (m_identifier reg) m)"
    and "asked same_queues t m (enrolled t (m_identifier reg) m)" and "m_identifier reg \<in> waits_for (enrolled t (m_identifier reg) m) t"
    and "registers (system (enrolled t (m_identifier reg) m)) = registers (system m)"
proof -
  show run: "RegisterPendingThread t reg m = (Inr (), enrolled t (m_identifier reg) m)"
    using RegisterPendingThread_eq [OF assms] assms(1) by (simp add: enrolled_def)
  have "registry_ok m \<and> t \<notin> m_pendingThreads m \<longrightarrow> registry_ok (enrolled t (m_identifier reg) m)"
    using registry_request [OF _ _ run] by blast
  then show "asked same_queues t m (enrolled t (m_identifier reg) m)"
    using assms(1) by (auto simp: asked_def enrolled_def add_pending_def same_queues_def intro!: option.rel_refl)
  show "m_identifier reg \<in> waits_for (enrolled t (m_identifier reg) m) t"
    using assms(1) by (simp add: enrolled_def waits_for_def add_pending_def)
  show "registers (system (enrolled t (m_identifier reg) m)) = registers (system m)" using assms(1) by (simp add: enrolled_def)
qed

section \<open>Requests on single registers\<close>

definition thread_known :: "nat \<Rightarrow> 'a Manager_scheme \<Rightarrow> bool" where
  "thread_known t m \<longleftrightarrow> m_threadToAppData m t \<noteq> None \<and> t \<noteq> m_managerThreadId m"

definition addressed :: "(nat \<Rightarrow> nat) \<Rightarrow> 'a Manager_scheme \<Rightarrow> QueuedRequest \<Rightarrow> nat \<Rightarrow> bool" where
  "addressed n m request a \<longleftrightarrow> request_reg request = SingleRegister a \<and> live_register n (system m) a
    \<and> RegisterWithId (identifierMapping m) (m_identifier (register_of (system m) a)) = Inr (Some a)"

definition write_ok :: "(nat \<Rightarrow> nat) \<Rightarrow> 'a Manager_scheme \<Rightarrow> QueuedRequest \<Rightarrow> nat \<Rightarrow> bool" where
  "write_ok n m request a \<longleftrightarrow> addressed n m request a \<and> plain (request_value request) \<and> BitsCount (request_value request) = n a"

definition read_ok :: "(nat \<Rightarrow> nat) \<Rightarrow> 'a Manager_scheme \<Rightarrow> QueuedRequest \<Rightarrow> nat \<Rightarrow> bool" where
  "read_ok n m request a \<longleftrightarrow> write_ok n m request a \<and> plain (request_mask request) \<and> 0 < n a \<and> n a < 4294967289
     \<and> (BitsCount (request_mask request) = 0 \<or> BitsCount (request_mask request) = n a)"

lemma addressed_asked:
  assumes "addressed n m request a" and "asked q t m m'"
  shows "addressed n m' request a"
proof -
  obtain r where r: "registers (system m) a = Some r" "reg_inv (n a) r" using assms(1) by (auto simp: addressed_def live_register_def)
  obtain r' where r': "registers (system m') a = Some r'" "same_register r r'" using asked_register [OF assms(2) r(1)] by blast
  have "identifierMapping m' = identifierMapping m" using assms(2) by (simp add: asked_def)
  then show ?thesis using assms(1) r r' by (auto simp: addressed_def live_register_def register_of_def same_register_def)
qed

lemma thread_known_asked: "thread_known t m \<Longrightarrow> asked q t m m' \<Longrightarrow> thread_known t m'"
  by (auto simp: thread_known_def asked_def elim: option.rel_cases)

lemma addressedE:
  assumes "addressed n m request a"
  obtains r where "registers (system m) a = Some r" "reg_inv (n a) r" "request_reg request = SingleRegister a"
    "RegisterWithId (identifierMapping m) (m_identifier r) = Inr (Some a)" "RI_Identifiers (system m) (request_reg request) = Inr [m_identifier r]"
  using assms that by (auto simp: addressed_def live_register_def register_of_def register_at_def deref_def)

text \<open>What is certain of a register once a request on it is processed.\<close>

definition to_send :: "Register \<Rightarrow> bool" where
  "to_send r \<longleftrightarrow> bits_of (m_nextToSut r) \<noteq> bits_of (m_lastToSut r)"

definition awaited :: "nat \<Rightarrow> 'a Manager_scheme \<Rightarrow> nat \<Rightarrow> bool" where
  "awaited t m a \<longleftrightarrow> m_identifier (register_of (system m) a) \<in> waits_for m t"

definition to_read :: "'a Manager_scheme \<Rightarrow> nat \<Rightarrow> bool" where
  "to_read m a \<longleftrightarrow> m_pendingRead (register_of (system m) a)"

lemma pending_write_eq:
  assumes "reg_inv k r" shows "pending_write r = Inr (to_send r)"
proof -
  have "m_nextToSut r = bv_make (bits_of (m_nextToSut r)) Fixed" "m_lastToSut r = bv_make (bits_of (m_lastToSut r)) Fixed"
    using reg_invD(1,2) [OF assms] by (simp_all add: fixed_bits_def)
  then have "CompareEqualTo (m_nextToSut r) (m_lastToSut r) = Inr (bits_of (m_nextToSut r) = bits_of (m_lastToSut r))"
    by (metis CompareEqualTo_make)
  then show ?thesis by (simp add: pending_write_def to_send_def)
qed

definition calm :: "'a Manager_scheme \<Rightarrow> 'a Manager_scheme \<Rightarrow> bool" where
  "calm m m' \<longleftrightarrow> (\<forall>a. map_option m_nextToSut (registers (system m') a) = map_option m_nextToSut (registers (system m) a))"

lemma calm_trans: "calm m m1 \<Longrightarrow> calm m1 m2 \<Longrightarrow> calm m m2"
  by (simp add: calm_def)

lemma awaited_asked:
  assumes "asked q t m m'" and "live_register n (system m) a"
  shows "awaited t m a \<Longrightarrow> awaited t m' a" "to_read m a \<Longrightarrow> to_read m' a"
    "calm m m' \<Longrightarrow> to_send (register_of (system m') a) = to_send (register_of (system m) a)"
proof -
  obtain r where r: "registers (system m) a = Some r" using assms(2) by (auto simp: live_register_def)
  obtain r' where r': "registers (system m') a = Some r'" "same_register r r'" using asked_register [OF assms(1) r] by blast
  show "awaited t m a \<Longrightarrow> awaited t m' a" using asked_waits [OF assms(1)] r r' by (auto simp: awaited_def register_of_def same_register_def)
  show "to_read m a \<Longrightarrow> to_read m' a" using r r' by (simp add: to_read_def register_of_def same_register_def)
  assume "calm m m'"
  then have "map_option m_nextToSut (registers (system m') a) = map_option m_nextToSut (registers (system m) a)" by (simp add: calm_def)
  then show "to_send (register_of (system m') a) = to_send (register_of (system m) a)"
    using r r' by (simp add: to_send_def register_of_def same_register_def)
qed

lemma live_asked: "live_register n (system m) a \<Longrightarrow> asked q t m m' \<Longrightarrow> live_register n (system m') a"
  by (auto simp: live_register_def same_register_def elim!: asked_register)

lemma pending_thread_eq:
  assumes "thread_known t m" and "registers (system m) a = Some r"
  shows "pending_thread t (Some a) m = (Inr (), enrolled t (m_identifier r) m)"
    "asked same_queues t m (enrolled t (m_identifier r) m)" "registers (system (enrolled t (m_identifier r) m)) = registers (system m)"
    "awaited t (enrolled t (m_identifier r) m) a"
proof -
  obtain d where d: "m_threadToAppData m t = Some d" "t \<noteq> m_managerThreadId m" using assms(1) by (auto simp: thread_known_def)
  note e = asked_enrolled [OF d, of r]
  show "pending_thread t (Some a) m = (Inr (), enrolled t (m_identifier r) m)"
    using e(1) assms(2) by (simp add: pending_thread_def act_bind_read deref_at_def deref_def)
  show "asked same_queues t m (enrolled t (m_identifier r) m)" "registers (system (enrolled t (m_identifier r) m)) = registers (system m)"
    by (rule e(2), rule e(4))
  show "awaited t (enrolled t (m_identifier r) m) a" using e(3,4) assms(2) by (simp add: awaited_def register_of_def)
qed

lemma written_eq:
  assumes t: "thread_known t m" and r: "registers (system m) a = Some r" "reg_inv k r"
    and id: "RegisterWithId (identifierMapping m) (m_identifier r) = Inr (Some a)"
  shows "\<exists>m'. written t (m_identifier r) m = (Inr (), m') \<and> asked same_queues t m m' \<and> registers (system m') = registers (system m)
    \<and> (to_send r \<longrightarrow> awaited t m' a)"
proof (cases "to_send r")
  case True
  then show ?thesis using pending_thread_eq [OF t r(1)] id r
    by (intro exI [of _ "enrolled t (m_identifier r) m"])
      (simp add: written_def register_with_id_def act_bind_read deref_at_def deref_def pending_write_eq [OF r(2)])
next
  case False
  then show ?thesis using id r asked_refl
    by (intro exI [of _ m]) (simp add: written_def register_with_id_def act_bind_read deref_at_def deref_def pending_write_eq [OF r(2)])
qed

lemma enlist_eq:
  assumes t: "thread_known t m" and r: "registers (system m) a = Some r" "reg_inv k r"
    and f: "same_register r (f r)" "m_pendingRead (f r)" "m_nextToSut (f r) = m_nextToSut r"
  shows "\<exists>m'. act_then (update_register (Some a) f) (pending_thread t (Some a)) m = (Inr (), m') \<and> asked same_queues t m m' \<and> calm m m'
    \<and> awaited t m' a \<and> to_read m' a \<and> registers (system m') = (registers (system m))(a \<mapsto> f r)"
proof -
  let ?m = "put_register a (f r) m"
  have up: "update_register (Some a) f m = (Inr (), ?m)"
    using on_system_register [OF r(1), of "act_modify f" "Inr ()" "f r"] by (simp add: update_register_def)
  have asked: "asked same_queues t m ?m" by (rule asked_put_register [OF r(1) f(1)])
  have r': "registers (system ?m) a = Some (f r)" by simp
  note e = pending_thread_eq [OF thread_known_asked [OF t asked] r']
  show ?thesis
    using up e(1) asked_same_trans [OF asked e(2)] e(3,4) f(2,3) r(1)
    by (intro exI [of _ "enrolled t (m_identifier (f r)) ?m"])
      (simp add: act_then_simps calm_def to_read_def register_of_def del: on_each_simps)
qed

lemma Process_write_eq:
  assumes t: "thread_known t m" and ok: "write_ok n m request a"
  shows "\<exists>m' r'. Process_write null slack t request m = (Inr (), m') \<and> asked same_queues t m m'
    \<and> registers (system m') = (registers (system m))(a \<mapsto> r') \<and> bits_of (m_nextToSut r') = bits_of (request_value request)
    \<and> (to_send r' \<longrightarrow> awaited t m' a)"
proof -
  have ad: "addressed n m request a" and v: "plain (request_value request)" "BitsCount (request_value request) = n a"
    using ok by (simp_all add: write_ok_def)
  obtain r where r: "registers (system m) a = Some r" "reg_inv (n a) r" "request_reg request = SingleRegister a"
    "RegisterWithId (identifierMapping m) (m_identifier r) = Inr (Some a)" using ad by (rule addressedE)
  let ?b = "bits_of (request_value request)"
  let ?r = "r\<lparr>m_bypass := if m_holdValue r then bv_make ?b Fixed else m_bypass r, m_nextToSut := bv_make ?b Fixed\<rparr>"
  let ?m = "put_register a ?r m"
  have len: "length ?b = n a" using plain_len [OF v(1)] v(2) by simp
  have set: "Register_SetToSut (request_value request) r = (Inr (), ?r)" using Register_SetToSut_eq [OF r(2) v(1)] v(2) by simp
  have inv: "reg_inv k ?r" if "reg_inv k r" for k
  proof -
    have "n a = k" using reg_inv_BitsCount [OF that] reg_inv_BitsCount [OF r(2)] by simp
    then show ?thesis using that len by (simp add: reg_inv_def)
  qed
  have run: "on_system (on_registers (RI_SetToSut null slack (request_value request) (request_reg request))) m = (Inr (), ?m)"
    using on_system_register [where f = "Register_SetToSut (request_value request)", OF r(1) set] r(3) by simp
  have asked: "asked same_queues t m ?m" by (rule asked_put_register [OF r(1)]) (use inv in \<open>simp add: same_register_def\<close>)
  have r': "registers (system ?m) a = Some ?r" by simp
  have id: "RegisterWithId (identifierMapping ?m) (m_identifier ?r) = Inr (Some a)" using r(4) by simp
  obtain m' where m': "written t (m_identifier ?r) ?m = (Inr (), m')" "asked same_queues t ?m m'" "registers (system m') = registers (system ?m)"
    "to_send ?r \<longrightarrow> awaited t m' a"
    using written_eq [OF thread_known_asked [OF t asked] r' inv [OF r(2)] id] by blast
  have "RI_Identifiers (system ?m) (request_reg request) = Inr [m_identifier ?r]" using r(3) by (simp add: register_at_def deref_def)
  then have "Process_write null slack t request m = (Inr (), m')"
    using run m'(1) by (simp add: Process_write_def each_identifier_def act_then_simps act_bind_read)
  then show ?thesis using asked_same_trans [OF asked m'(2)] m'(3,4) by (intro exI [of _ m'] exI [of _ ?r]) simp
qed

lemma refreshing_eq:
  assumes t: "thread_known t m" and ad: "addressed n m request a"
  shows "\<exists>m'. each_identifier (refreshing t) request m = (Inr (), m') \<and> asked same_queues t m m' \<and> calm m m' \<and> awaited t m' a \<and> to_read m' a"
proof -
  obtain r where r: "registers (system m) a = Some r" "reg_inv (n a) r" "request_reg request = SingleRegister a"
    "RegisterWithId (identifierMapping m) (m_identifier r) = Inr (Some a)" "RI_Identifiers (system m) (request_reg request) = Inr [m_identifier r]"
    using ad by (rule addressedE)
  have "same_register r (SetPendingForRead True r)" using keeps_flags(3) by (simp add: same_register_def SetPendingForRead_def)
  from enlist_eq [where f = "SetPendingForRead True", OF t r(1,2) this] obtain m' where m': "act_then (update_register (Some a) (SetPendingForRead True)) (pending_thread t (Some a)) m = (Inr (), m')"
    "asked same_queues t m m'" "calm m m'" "awaited t m' a" "to_read m' a" by (auto simp: SetPendingForRead_def)
  have "each_identifier (refreshing t) request m = (Inr (), m')"
    using r(4,5) m'(1) by (simp add: each_identifier_def act_bind_read refreshing_def register_with_id_def act_then_simps)
  then show ?thesis using m' by blast
qed

lemma SetExpected_same:
  assumes r: "reg_inv k r" and v: "plain v" "BitsCount v = k" and mk: "plain mk" "BitsCount mk = 0 \<or> BitsCount mk = k" and k: "0 < k" "k < 4294967289"
  shows "\<exists>r'. Register_SetExpectedFromSut_mask v mk r = (Inr (), r') \<and> same_register r r' \<and> m_nextToSut r' = m_nextToSut r
    \<and> bits_of (m_expectedFromSut r') = bits_of v \<and> bits_of (m_dontCareMask r') = bits_of mk"
proof -
  let ?r = "r\<lparr>m_expectedFromSut := bv_make (bits_of v) Fixed, m_dontCareMask := bv_make (bits_of mk) NotFixed\<rparr>"
  have len: "length (bits_of v) = k" "length (bits_of mk) = BitsCount mk" using plain_len [OF v(1)] plain_len [OF mk(1)] v(2) by simp_all
  have run: "Register_SetExpectedFromSut_mask v mk r = (Inr (), ?r)"
  proof (cases "BitsCount mk = 0")
    case False
    then show ?thesis using SetExpectedFromSut_mask_eq [OF r k(2) v(1) mk(1) v(2) _ k(1)] mk(2) by simp
  next
    case True
    obtain cs q where c: "mk = bv_make cs q" "q \<noteq> FixedOnCopy" using mk(1) by (rule plainE)
    obtain bs p where b: "v = bv_make bs p" "p \<noteq> FixedOnCopy" using v(1) by (rule plainE)
    obtain es where e: "m_expectedFromSut r = bv_make es Fixed" "length es = k" using reg_invD(4) [OF r] by (rule fixedE)
    obtain ms where d: "m_dontCareMask r = bv_make ms NotFixed" using reg_invD(7) [OF r] by (rule looseE)
    have "cs = []" using c True by simp
    then have mask: "Clear (m_dontCareMask r) = bv_make [] NotFixed" "bits_of mk = []" "IsEmpty mk"
      using c d by (simp_all add: Clear_def)
    have "assign_move (m_expectedFromSut r) (BinaryVector_copy v) = Inr (bv_make (bits_of v) Fixed, bv_make [] NotFixed)"
      using b e v(2) by (simp add: assign_move_make)
    then show ?thesis using mask
      by (simp add: Register_SetExpectedFromSut_mask_def Register_SetExpectedFromSut_def act_then_def act_bind_def act_modify_def
          move_to_def act_assign_def put_defs)
  qed
  have "length (bits_of mk) < 4294967296" using plain_len [OF mk(1)] by simp
  then have inv: "reg_inv k ?r" using r len(1) by (simp add: reg_inv_def)
  have "reg_inv j ?r" if "reg_inv j r" for j
  proof -
    have "j = k" using reg_inv_BitsCount [OF that] reg_inv_BitsCount [OF r] by simp
    show ?thesis unfolding \<open>j = k\<close> by (rule inv)
  qed
  then have "same_register r ?r" by (simp add: same_register_def)
  then show ?thesis using run by (intro exI [of _ ?r]) simp
qed

lemma reading_eq:
  assumes t: "thread_known t m" and ok: "read_ok n m request a"
  shows "\<exists>m'. Process_read null slack t request m = (Inr (), m') \<and> asked same_queues t m m' \<and> calm m m' \<and> awaited t m' a \<and> to_read m' a
    \<and> m_mustCheckExpected (register_of (system m') a)
    \<and> bits_of (m_expectedFromSut (register_of (system m') a)) = bits_of (request_value request)
    \<and> bits_of (m_dontCareMask (register_of (system m') a)) = bits_of (request_mask request)"
proof -
  have ad: "addressed n m request a" and v: "plain (request_value request)" "BitsCount (request_value request) = n a"
    and mk: "plain (request_mask request)" "BitsCount (request_mask request) = 0 \<or> BitsCount (request_mask request) = n a"
    and k: "0 < n a" "n a < 4294967289" using ok by (simp_all add: read_ok_def write_ok_def)
  obtain r where r: "registers (system m) a = Some r" "reg_inv (n a) r" "request_reg request = SingleRegister a"
    "RegisterWithId (identifierMapping m) (m_identifier r) = Inr (Some a)" using ad by (rule addressedE)
  let ?v = "BinaryVector_copy (request_value request)" and ?mk = "BinaryVector_copy (request_mask request)"
  have copies: "plain ?v" "BitsCount ?v = n a" "bits_of ?v = bits_of (request_value request)"
    "plain ?mk" "BitsCount ?mk = 0 \<or> BitsCount ?mk = n a" "bits_of ?mk = bits_of (request_mask request)"
    using v mk by (auto elim!: plainE)
  obtain r1 where r1: "Register_SetExpectedFromSut_mask ?v ?mk r = (Inr (), r1)" "same_register r r1" "m_nextToSut r1 = m_nextToSut r"
    "bits_of (m_expectedFromSut r1) = bits_of (request_value request)" "bits_of (m_dontCareMask r1) = bits_of (request_mask request)"
    using SetExpected_same [OF r(2) copies(1,2,4,5) k] copies(3,6) by auto
  let ?f = "\<lambda>r. SetPendingForRead True (SetCheckExpected True r)" and ?m1 = "put_register a r1 m"
  have set: "on_system (on_registers (RI_SetExpectedFromSut null slack ?v ?mk (request_reg request))) m = (Inr (), ?m1)"
    using on_system_register [where f = "Register_SetExpectedFromSut_mask ?v ?mk", OF r(1) r1(1)] r(3) by simp
  have a1: "asked same_queues t m ?m1" by (rule asked_put_register [OF r(1) r1(2)])
  have inv1: "reg_inv (n a) r1" using r1(2) r(2) by (simp add: same_register_def)
  have r': "registers (system ?m1) a = Some r1" by simp
  have "same_register r1 (?f r1)" using keeps_flags(3,6) by (simp add: same_register_def SetPendingForRead_def SetCheckExpected_def)
  from enlist_eq [where f = ?f, OF thread_known_asked [OF t a1] r' inv1 this]
  obtain m' where m': "act_then (update_register (Some a) ?f) (pending_thread t (Some a)) ?m1 = (Inr (), m')" "asked same_queues t ?m1 m'"
    "calm ?m1 m'" "awaited t m' a" "to_read m' a" "registers (system m') = (registers (system ?m1))(a \<mapsto> ?f r1)"
    by (auto simp: SetPendingForRead_def SetCheckExpected_def)
  have flags: "act_then (update_register (Some a) (SetCheckExpected True)) (act_then (update_register (Some a) (SetPendingForRead True))
      (pending_thread t (Some a))) ?m1 = (Inr (), m')"
    using m'(1) by (simp add: act_then_def act_bind_def update_register_def on_system_def on_registers_def act_at_def act_modify_def put_register_def)
  have "RI_Identifiers (system ?m1) (request_reg request) = Inr [m_identifier r1]" "m_identifier r1 = m_identifier r"
    using r(3) r1(2) by (simp_all add: register_at_def deref_def same_register_def)
  then have "Process_read null slack t request m = (Inr (), m')"
    using set flags r(4) by (simp add: Process_read_def each_identifier_def act_then_simps act_bind_read reading_def register_with_id_def)
  moreover have "calm m m'" using m'(3) r(1) r1(3) by (simp add: calm_def)
  ultimately show ?thesis
    using asked_same_trans [OF a1 m'(2)] m'(4,5,6) r1(4,5)
    by (intro exI [of _ m']) (simp add: register_of_def SetPendingForRead_def SetCheckExpected_def)
qed

section \<open>The queues\<close>

fun last_written :: "QueuedRequest list \<Rightarrow> nat list \<Rightarrow> nat \<Rightarrow> bool list option" where
  "last_written (request # requests) (a # as) b =
    (case last_written requests as b of Some bs \<Rightarrow> Some bs
     | None \<Rightarrow> if b = a then Some (bits_of (request_value request)) else None)"
| "last_written requests as b = None"

lemma last_written_None: "list_all2 P requests as \<Longrightarrow> last_written requests as b = None \<longleftrightarrow> b \<notin> set as"
  by (induction requests as rule: list_all2_induct) (auto split: option.split)

definition next_bits_of :: "'a Manager_scheme \<Rightarrow> nat \<Rightarrow> bool list" where
  "next_bits_of m a = bits_of (m_nextToSut (register_of (system m) a))"

lemma requests_asked:
  assumes "asked q t m m'"
  shows "list_all2 (addressed n m) requests as \<Longrightarrow> list_all2 (addressed n m') requests as"
    "list_all2 (write_ok n m) requests as \<Longrightarrow> list_all2 (write_ok n m') requests as"
    "list_all2 (read_ok n m) requests as \<Longrightarrow> list_all2 (read_ok n m') requests as"
  using addressed_asked [OF _ assms] by (auto simp: write_ok_def read_ok_def elim!: list_all2_mono)

lemma writes_eq:
  assumes "list_all2 (write_ok n m) requests as" and "thread_known t m"
  shows "\<exists>m'. act_each (Process_write null slack t) requests m = (Inr (), m') \<and> asked same_queues t m m'
    \<and> (\<forall>a. a \<notin> set as \<longrightarrow> registers (system m') a = registers (system m) a)
    \<and> (\<forall>a \<in> set as. last_written requests as a = Some (next_bits_of m' a) \<and> (to_send (register_of (system m') a) \<longrightarrow> awaited t m' a))"
  using assms
proof (induction requests arbitrary: m as)
  case Nil
  then show ?case using asked_refl by auto
next
  case (Cons request requests)
  obtain a bs where as: "as = a # bs" "write_ok n m request a" "list_all2 (write_ok n m) requests bs"
    using Cons.prems(1) by (auto simp: list_all2_Cons1)
  obtain m1 r1 where m1: "Process_write null slack t request m = (Inr (), m1)" "asked same_queues t m m1"
    "registers (system m1) = (registers (system m))(a \<mapsto> r1)" "bits_of (m_nextToSut r1) = bits_of (request_value request)"
    "to_send r1 \<longrightarrow> awaited t m1 a"
    using Process_write_eq [OF Cons.prems(2) as(2)] by blast
  have "live_register n (system m) a" using as(2) by (simp add: write_ok_def addressed_def)
  then have live: "live_register n (system m1) a" by (rule live_asked [OF _ m1(2)])
  obtain m2 where m2: "act_each (Process_write null slack t) requests m1 = (Inr (), m2)" "asked same_queues t m1 m2"
    "\<forall>b. b \<notin> set bs \<longrightarrow> registers (system m2) b = registers (system m1) b"
    "\<forall>b \<in> set bs. last_written requests bs b = Some (next_bits_of m2 b) \<and> (to_send (register_of (system m2) b) \<longrightarrow> awaited t m2 b)"
    using Cons.IH [OF requests_asked(2) [OF m1(2) as(3)] thread_known_asked [OF Cons.prems(2) m1(2)]] by blast
  have "last_written (request # requests) as a = Some (next_bits_of m2 a) \<and> (to_send (register_of (system m2) a) \<longrightarrow> awaited t m2 a)"
  proof (cases "a \<in> set bs")
    case True
    then show ?thesis using m2(4) as(1) by simp
  next
    case False
    then have same: "registers (system m2) a = Some r1" using m2(3) m1(3) by simp
    have "last_written requests bs a = None" using last_written_None [OF as(3)] False by simp
    then have "last_written (request # requests) as a = Some (next_bits_of m2 a)"
      using as(1) same m1(4) by (simp add: next_bits_of_def register_of_def)
    moreover have "to_send (register_of (system m2) a) \<longrightarrow> awaited t m2 a"
      using same m1(5) awaited_asked(1) [OF m2(2) live] by (simp add: register_of_def)
    ultimately show ?thesis by simp
  qed
  moreover have "last_written (request # requests) as b = Some (next_bits_of m2 b)
      \<and> (to_send (register_of (system m2) b) \<longrightarrow> awaited t m2 b)" if "b \<in> set bs" for b
    using m2(4) that as(1) by simp
  moreover have "registers (system m2) b = registers (system m) b" if "b \<notin> set as" for b
    using m2(3) m1(3) that as(1) by simp
  ultimately show ?case using m1(1) m2(1) asked_same_trans [OF m1(2) m2(2)] as(1)
    by (intro exI [of _ m2]) (simp add: act_then_simps)
qed

definition enlisted :: "nat \<Rightarrow> nat list \<Rightarrow> 'a Manager_scheme \<Rightarrow> 'a Manager_scheme \<Rightarrow> bool" where
  "enlisted t as m m' \<longleftrightarrow> asked same_queues t m m' \<and> calm m m' \<and> (\<forall>a \<in> set as. awaited t m' a \<and> to_read m' a)"

lemma enlisted_each:
  assumes step: "\<And>m request a. thread_known t m \<Longrightarrow> P m request a \<Longrightarrow> \<exists>m'. f request m = (Inr (), m') \<and> enlisted t [a] m m'"
    and live: "\<And>m request a. P m request a \<Longrightarrow> live_register n (system m) a"
    and kept: "\<And>m m' requests as. asked same_queues t m m' \<Longrightarrow> list_all2 (P m) requests as \<Longrightarrow> list_all2 (P m') requests as"
    and "list_all2 (P m) requests as" and "thread_known t m"
  shows "\<exists>m'. act_each f requests m = (Inr (), m') \<and> enlisted t as m m'"
  using assms(4-5)
proof (induction requests arbitrary: m as)
  case Nil
  then show ?case using asked_refl by (auto simp: enlisted_def calm_def)
next
  case (Cons request requests)
  obtain a bs where as: "as = a # bs" "P m request a" "list_all2 (P m) requests bs"
    using Cons.prems(1) by (auto simp: list_all2_Cons1)
  obtain m1 where m1: "f request m = (Inr (), m1)" "asked same_queues t m m1" "calm m m1" "awaited t m1 a" "to_read m1 a"
    using step [OF Cons.prems(2) as(2)] by (auto simp: enlisted_def)
  have live1: "live_register n (system m1) a" by (rule live_asked [OF live [OF as(2)] m1(2)])
  obtain m2 where m2: "act_each f requests m1 = (Inr (), m2)" "asked same_queues t m1 m2" "calm m1 m2"
    "\<forall>b \<in> set bs. awaited t m2 b \<and> to_read m2 b"
    using Cons.IH [OF kept [OF m1(2) as(3)] thread_known_asked [OF Cons.prems(2) m1(2)]] by (auto simp: enlisted_def)
  have "enlisted t as m m2"
    using asked_same_trans [OF m1(2) m2(2)] calm_trans [OF m1(3) m2(3)] m2(4) awaited_asked(1,2) [OF m2(2) live1] m1(4,5) as(1)
    by (simp add: enlisted_def)
  then show ?case using m1(1) m2(1) by (intro exI [of _ m2]) (simp add: act_then_simps)
qed

lemma refreshes_eq:
  "list_all2 (addressed n m) requests as \<Longrightarrow> thread_known t m \<Longrightarrow>
    \<exists>m'. act_each (each_identifier (refreshing t)) requests m = (Inr (), m') \<and> enlisted t as m m'"
proof (rule enlisted_each [where P = "addressed n" and n = n])
  show "\<exists>m'. each_identifier (refreshing t) request m = (Inr (), m') \<and> enlisted t [a] m m'"
    if "thread_known t m" "addressed n m request a" for m request a
    using refreshing_eq [OF that] by (auto simp: enlisted_def)
qed (auto simp: addressed_def intro: requests_asked(1))

lemma reads_eq:
  "list_all2 (read_ok n m) requests as \<Longrightarrow> thread_known t m \<Longrightarrow>
    \<exists>m'. act_each (Process_read null slack t) requests m = (Inr (), m') \<and> enlisted t as m m'"
proof (rule enlisted_each [where P = "read_ok n" and n = n])
  show "\<exists>m'. Process_read null slack t request m = (Inr (), m') \<and> enlisted t [a] m m'"
    if "thread_known t m" "read_ok n m request a" for m request a
    using reading_eq [OF that] by (auto simp: enlisted_def)
qed (auto simp: read_ok_def write_ok_def addressed_def intro: requests_asked(3))

definition processed ::
    "nat \<Rightarrow> ApplicationData \<Rightarrow> nat list \<Rightarrow> nat list \<Rightarrow> nat list \<Rightarrow> 'a Manager_scheme \<Rightarrow> 'a Manager_scheme \<Rightarrow> bool" where
  "processed t d ws fs rs m m' \<longleftrightarrow> asked (\<lambda>_ _. True) t m m'
    \<and> (\<exists>d'. m_threadToAppData m' t = Some d' \<and> queuedWrites d' = [] \<and> queuedReads d' = [] \<and> queuedRefreshes d' = [])
    \<and> (\<forall>a \<in> set ws. last_written (queuedWrites d) ws a = Some (next_bits_of m' a)
         \<and> (to_send (register_of (system m') a) \<longrightarrow> awaited t m' a))
    \<and> (\<forall>a \<in> set fs \<union> set rs. awaited t m' a \<and> to_read m' a)"

lemma with_app_queues:
  assumes d: "m_threadToAppData m t = Some d" and f: "pendingRegistersIds (f d) = pendingRegistersIds d" "canProceed (f d) = canProceed d"
  shows "with_app t f m = (Inr (), m\<lparr>m_threadToAppData := (m_threadToAppData m)(t \<mapsto> f d)\<rparr>)"
    and "asked (\<lambda>_ _. True) t m (m\<lparr>m_threadToAppData := (m_threadToAppData m)(t \<mapsto> f d)\<rparr>)"
    and "calm m (m\<lparr>m_threadToAppData := (m_threadToAppData m)(t \<mapsto> f d)\<rparr>)"
proof -
  show "with_app t f m = (Inr (), m\<lparr>m_threadToAppData := (m_threadToAppData m)(t \<mapsto> f d)\<rparr>)" by (rule with_app_known [OF d])
  let ?m = "m\<lparr>m_threadToAppData := (m_threadToAppData m)(t \<mapsto> f d)\<rparr>"
  have "waits_for ?m u = waits_for m u" "may_proceed ?m u = may_proceed m u" for u
    using f known_views [OF d] by (simp_all add: registry_views)
  then show "asked (\<lambda>_ _. True) t m ?m" using d f(1) by (auto simp: asked_def registry_ok_def intro!: option.rel_refl)
  show "calm m ?m" by (simp add: calm_def)
qed

theorem ProcessQueuedRequests_eq:
  assumes d: "m_threadToAppData m t = Some d" and t: "t \<noteq> m_managerThreadId m"
    and ws: "list_all2 (write_ok n m) (queuedWrites d) ws" and fs: "list_all2 (addressed n m) (queuedRefreshes d) fs"
    and rs: "list_all2 (read_ok n m) (queuedReads d) rs"
  shows "\<exists>m'. ProcessQueuedRequests null slack t m = (Inr (), m') \<and> processed t d ws fs rs m m'"
proof -
  have known: "thread_known t m" using d t by (simp add: thread_known_def)
  have live: "live_register n (system m) a" if "a \<in> set ws \<union> set fs \<union> set rs" for a
  proof -
    have "list_all2 (\<lambda>request a. live_register n (system m) a) (queuedWrites d) ws"
      "list_all2 (\<lambda>request a. live_register n (system m) a) (queuedRefreshes d) fs"
      "list_all2 (\<lambda>request a. live_register n (system m) a) (queuedReads d) rs"
      using ws fs rs by (auto simp: read_ok_def write_ok_def addressed_def elim!: list_all2_mono)
    then show ?thesis using that by (auto simp: list_all2_conv_all_nth in_set_conv_nth)
  qed
  obtain m1 where m1: "act_each (Process_write null slack t) (queuedWrites d) m = (Inr (), m1)" "asked same_queues t m m1"
    "\<forall>a \<in> set ws. last_written (queuedWrites d) ws a = Some (next_bits_of m1 a) \<and> (to_send (register_of (system m1) a) \<longrightarrow> awaited t m1 a)"
    using writes_eq [OF ws known] by blast
  obtain d1 where d1: "m_threadToAppData m1 t = Some d1" "same_queues d d1" by (rule asked_thread [OF m1(2) d])
  let ?m2 = "m1\<lparr>m_threadToAppData := (m_threadToAppData m1)(t \<mapsto> d1\<lparr>queuedWrites := []\<rparr>)\<rparr>"
  note c1 = with_app_queues [OF d1(1), of "\<lambda>d. d\<lparr>queuedWrites := []\<rparr>", simplified]
  have a2: "asked (\<lambda>_ _. True) t m ?m2" by (rule asked_any_trans [OF asked_weaken [OF m1(2)] c1(2)])
  have d2: "m_threadToAppData ?m2 t = Some (d1\<lparr>queuedWrites := []\<rparr>)" by simp
  obtain m3 where m3: "act_each (each_identifier (refreshing t)) (queuedRefreshes d) ?m2 = (Inr (), m3)" "enlisted t fs ?m2 m3"
    using refreshes_eq [OF requests_asked(1) [OF a2 fs] thread_known_asked [OF known a2]] by blast
  have a3: "asked same_queues t ?m2 m3" using m3(2) by (simp add: enlisted_def)
  obtain d3 where d3: "m_threadToAppData m3 t = Some d3" "same_queues (d1\<lparr>queuedWrites := []\<rparr>) d3" by (rule asked_thread [OF a3 d2])
  let ?m4 = "m3\<lparr>m_threadToAppData := (m_threadToAppData m3)(t \<mapsto> d3\<lparr>queuedRefreshes := []\<rparr>)\<rparr>"
  note c3 = with_app_queues [OF d3(1), of "\<lambda>d. d\<lparr>queuedRefreshes := []\<rparr>", simplified]
  have a34: "asked (\<lambda>_ _. True) t ?m2 ?m4" by (rule asked_any_trans [OF asked_weaken [OF a3] c3(2)])
  have a4: "asked (\<lambda>_ _. True) t m ?m4" by (rule asked_any_trans [OF a2 a34])
  have d4: "m_threadToAppData ?m4 t = Some (d3\<lparr>queuedRefreshes := []\<rparr>)" by simp
  obtain m5 where m5: "act_each (Process_read null slack t) (queuedReads d) ?m4 = (Inr (), m5)" "enlisted t rs ?m4 m5"
    using reads_eq [OF requests_asked(3) [OF a4 rs] thread_known_asked [OF known a4]] by blast
  have a5: "asked same_queues t ?m4 m5" using m5(2) by (simp add: enlisted_def)
  obtain d5 where d5: "m_threadToAppData m5 t = Some d5" "same_queues (d3\<lparr>queuedRefreshes := []\<rparr>) d5" by (rule asked_thread [OF a5 d4])
  let ?m6 = "m5\<lparr>m_threadToAppData := (m_threadToAppData m5)(t \<mapsto> d5\<lparr>queuedReads := []\<rparr>)\<rparr>"
  note c5 = with_app_queues [OF d5(1), of "\<lambda>d. d\<lparr>queuedReads := []\<rparr>", simplified]
  have a46: "asked (\<lambda>_ _. True) t ?m4 ?m6" by (rule asked_any_trans [OF asked_weaken [OF a5] c5(2)])
  have a26: "asked (\<lambda>_ _. True) t ?m2 ?m6" by (rule asked_any_trans [OF a34 a46])
  have a16: "asked (\<lambda>_ _. True) t m1 ?m6" by (rule asked_any_trans [OF c1(2) a26])
  have a06: "asked (\<lambda>_ _. True) t m ?m6" by (rule asked_any_trans [OF asked_weaken [OF m1(2)] a16])
  have calm16: "calm m1 ?m6"
    using m3(2) m5(2) by (simp add: enlisted_def calm_def)
  have q3: "queuedRefreshes (d1\<lparr>queuedWrites := []\<rparr>) = queuedRefreshes d" "queuedReads (d3\<lparr>queuedRefreshes := []\<rparr>) = queuedReads d"
    "queuedWrites d5 = []" "queuedRefreshes d5 = []"
    using d1(2) d3(2) d5(2) by (simp_all add: same_queues_def)
  have run1: "each_request queuedWrites (Process_write null slack t) t m = (Inr (), m1)"
    using m1(1) d by (simp add: each_request_def act_bind_read ApplicationDataForThreadId_def)
  have run3: "each_request queuedRefreshes (each_identifier (refreshing t)) t ?m2 = (Inr (), m3)"
    using m3(1) q3(1) by (simp add: each_request_def act_bind_read ApplicationDataForThreadId_def)
  have run5: "each_request queuedReads (Process_read null slack t) t ?m4 = (Inr (), m5)"
    using m5(1) q3(2) by (simp add: each_request_def act_bind_read ApplicationDataForThreadId_def)
  have run: "ProcessQueuedRequests null slack t m = (Inr (), ?m6)"
    by (simp add: ProcessQueuedRequests_def act_then_simps run1 c1(1) run3 c3(1) run5 c5(1))
  have live1: "live_register n (system m1) a" if "a \<in> set ws" for a by (rule live_asked [OF live m1(2)]) (use that in simp)
  have writes: "last_written (queuedWrites d) ws a = Some (next_bits_of ?m6 a) \<and> (to_send (register_of (system ?m6) a) \<longrightarrow> awaited t ?m6 a)"
    if a: "a \<in> set ws" for a
  proof -
    have "map_option m_nextToSut (registers (system ?m6) a) = map_option m_nextToSut (registers (system m1) a)"
      using calm16 by (simp add: calm_def)
    then have "next_bits_of ?m6 a = next_bits_of m1 a"
      using live1 [OF a] by (auto simp: next_bits_of_def register_of_def live_register_def)
    then show ?thesis using m1(3) a awaited_asked [OF a16 live1 [OF a]] calm16 by simp
  qed
  have "awaited t ?m6 a \<and> to_read ?m6 a" if a: "a \<in> set fs" for a
  proof -
    have "live_register n (system ?m2) a" by (rule live_asked [OF live a2]) (use a in simp)
    then have "live_register n (system m3) a" by (rule live_asked [OF _ a3])
    then show ?thesis using m3(2) a awaited_asked(1,2) [OF asked_any_trans [OF c3(2) a46]] by (simp add: enlisted_def)
  qed
  moreover have "awaited t ?m6 a \<and> to_read ?m6 a" if a: "a \<in> set rs" for a
  proof -
    have "live_register n (system ?m4) a" by (rule live_asked [OF live a4]) (use a in simp)
    then have "live_register n (system m5) a" by (rule live_asked [OF _ a5])
    then show ?thesis using m5(2) a awaited_asked(1,2) [OF c5(2)] by (simp add: enlisted_def)
  qed
  ultimately have "processed t d ws fs rs m ?m6" using a06 q3(3,4) writes by (auto simp: processed_def)
  then show ?thesis using run by blast
qed

end
