(* ===== verification/Streamers.thy ===== *)
theory Streamers
  imports Scan_Chain Hex_Text
begin

text \<open>
  Streamers: nodes that transform the part of the scan chain below them. The protocols
  \<^verbatim>\<open>TransparentStreamerProtocol\<close> and \<^verbatim>\<open>TriviumStreamerProtocol\<close> (a stream cipher, whose key stream
  comes from a Python object and is a parameter here), and the function \<^verbatim>\<open>ApplyStreamer\<close> of
  \<^verbatim>\<open>SystemModelManager_impl::DoHierarchicalDataCycle\<close>, which encodes a vector before it is sent and
  decodes what is received.
\<close>

section \<open>Protocols\<close>

datatype StreamerKind = TransparentStreamer | TriviumStreamer

record 'k StreamerProtocol =
  streamer_kind :: StreamerKind
  m_CurrentMask :: BinaryVector
  m_Trinvium_Xor_Mask :: BinaryVector
  m_Residual_Xor_Mask :: BinaryVector
  cipher :: 'k

type_synonym 'k cipher_object = "nat \<Rightarrow> ('k, string) act"

definition TRIVIUM_XOR_MASK :: "'k cipher_object \<Rightarrow> nat \<Rightarrow> ('k StreamerProtocol, BinaryVector) act" where
  "TRIVIUM_XOR_MASK get_keystream xor_bits p =
    (case get_keystream xor_bits (cipher p) of
       (Inl e, k) \<Rightarrow> (Inl e, p\<lparr>cipher := k\<rparr>)
     | (Inr keystream, k) \<Rightarrow> (CreateFromHexString (Some keystream) NotFixed IsError, p\<lparr>cipher := k\<rparr>))"

definition moved :: "(BinaryVector \<times> BinaryVector) result \<Rightarrow> BinaryVector result" where
  "moved res = rbind res (\<lambda>(v, _). Inr v)"

definition put_CurrentMask :: "BinaryVector \<Rightarrow> 'k StreamerProtocol \<Rightarrow> 'k StreamerProtocol" where
  "put_CurrentMask v p = p\<lparr>m_CurrentMask := v\<rparr>"

definition put_XorMask :: "BinaryVector \<Rightarrow> 'k StreamerProtocol \<Rightarrow> 'k StreamerProtocol" where
  "put_XorMask v p = p\<lparr>m_Trinvium_Xor_Mask := v\<rparr>"

definition put_Residual :: "BinaryVector \<Rightarrow> 'k StreamerProtocol \<Rightarrow> 'k StreamerProtocol" where
  "put_Residual v p = p\<lparr>m_Residual_Xor_Mask := v\<rparr>"

definition Transparent_NewMask :: "nat \<Rightarrow> ('k StreamerProtocol, unit) act" where
  "Transparent_NewMask MaskBits =
    act_assign (\<lambda>p. rbind (BinaryVector_fill MaskBits 0 NotFixed) (\<lambda>tmp. moved (assign_move (m_CurrentMask p) tmp))) put_CurrentMask"

definition xor_bytes :: "nat \<Rightarrow> nat \<Rightarrow> nat" where
  "xor_bytes MaskBits residual =
    (if MaskBits > residual
     then let xor_bits = MaskBits - residual in xor_bits div 8 + (if xor_bits mod 8 \<noteq> 0 then 1 else 0)
     else 0)"

definition residual_bits :: "nat \<Rightarrow> nat \<Rightarrow> nat" where
  "residual_bits MaskBits residual =
    (if MaskBits > residual then u32_sub (u32 (xor_bytes MaskBits residual * 8)) (MaskBits - residual) else residual - MaskBits)"

definition Trivium_NewMask :: "'k cipher_object \<Rightarrow> nat \<Rightarrow> ('k StreamerProtocol, unit) act" where
  "Trivium_NewMask get_keystream MaskBits =
    act_then (act_assign (\<lambda>p. assign_copy (m_Trinvium_Xor_Mask p) (m_Residual_Xor_Mask p)) put_XorMask)
   (act_bind (act_read (\<lambda>p. Inr (BitsCount (m_Residual_Xor_Mask p)))) (\<lambda>residual.
    act_then (if xor_bytes MaskBits residual > 0
              then act_bind (TRIVIUM_XOR_MASK get_keystream (u32 (xor_bytes MaskBits residual * 8))) (\<lambda>fresh.
                     act_assign (\<lambda>p. Append fresh (m_Trinvium_Xor_Mask p)) put_XorMask)
              else act_return ())
   (act_then (act_assign (\<lambda>p. rbind (Slice MaskBits (residual_bits MaskBits residual) (m_Trinvium_Xor_Mask p)) (\<lambda>rest.
                 moved (assign_move (m_Residual_Xor_Mask p) rest))) put_Residual)
             (act_assign (\<lambda>p. rbind (ReverseSlice 0 MaskBits (m_Trinvium_Xor_Mask p)) (\<lambda>bits.
                 moved (assign_move (m_CurrentMask p) bits))) put_CurrentMask))))"

definition NewMask :: "'k cipher_object \<Rightarrow> nat \<Rightarrow> ('k StreamerProtocol, BinaryVector) act" where
  "NewMask get_keystream MaskBits =
    act_bind (act_read (\<lambda>p. Inr (streamer_kind p))) (\<lambda>kind.
    act_bind (case kind of TransparentStreamer \<Rightarrow> Transparent_NewMask MaskBits
                         | TriviumStreamer \<Rightarrow> Trivium_NewMask get_keystream MaskBits) (\<lambda>_.
    act_read (\<lambda>p. Inr (m_CurrentMask p))))"

definition ApplyMask :: "StreamerKind \<Rightarrow> BinaryVector \<Rightarrow> BinaryVector \<Rightarrow> BinaryVector result" where
  "ApplyMask kind PlainText Mask =
    CheckParameterCondition (BitsCount PlainText = BitsCount Mask)
      (case kind of TransparentStreamer \<Rightarrow> bitor (BinaryVector_copy PlainText) (BinaryVector_copy Mask)
                  | TriviumStreamer \<Rightarrow> bitxor (BinaryVector_copy PlainText) (BinaryVector_copy Mask))"

section \<open>Encoding and decoding\<close>

text \<open>Masking twice, with the slices of the mask that begin at two positions.\<close>

definition masked_twice :: "StreamerKind \<Rightarrow> BinaryVector \<Rightarrow> nat \<Rightarrow> nat \<Rightarrow> nat \<Rightarrow> BinaryVector \<Rightarrow> BinaryVector result" where
  "masked_twice kind maskVector first1 first2 count part =
    rbind (Slice first1 count maskVector) (\<lambda>mask_1.
    rbind (Slice first2 count maskVector) (\<lambda>mask_2.
    rbind (ApplyMask kind part mask_1) (\<lambda>once. ApplyMask kind once mask_2)))"

definition joined :: "BinaryVector \<Rightarrow> BinaryVector \<Rightarrow> BinaryVector \<Rightarrow> BinaryVector result" where
  "joined BeforeVector ProtectedVector AfterVector =
    rbind (Append BeforeVector BinaryVector_empty) (\<lambda>v1.
    rbind (Append ProtectedVector v1) (\<lambda>v2. Append AfterVector v2))"

definition slice_if :: "nat \<Rightarrow> nat \<Rightarrow> BinaryVector \<Rightarrow> BinaryVector result" where
  "slice_if first count v = (if count > 0 then Slice first count v else Inr BinaryVector_empty)"

definition twice_if :: "StreamerKind \<Rightarrow> BinaryVector \<Rightarrow> nat \<Rightarrow> nat \<Rightarrow> nat \<Rightarrow> nat \<Rightarrow> BinaryVector \<Rightarrow> BinaryVector result" where
  "twice_if kind maskVector first1 first2 first count v =
    (if count > 0 then rbind (Slice first count v) (\<lambda>part. masked_twice kind maskVector first1 first2 count part)
     else Inr BinaryVector_empty)"

definition encoded_vector :: "StreamerKind \<Rightarrow> BinaryVector \<Rightarrow> nat \<Rightarrow> nat \<Rightarrow> BinaryVector \<Rightarrow> BinaryVector \<Rightarrow> BinaryVector result" where
  "encoded_vector kind maskVector before_bits EndOfProtectedBits vector_protected Vector =
    (let protectedBits = u32_sub EndOfProtectedBits before_bits; after_bits = u32_sub (BitsCount Vector) EndOfProtectedBits
     in rbind (Slice 0 protectedBits maskVector) (\<lambda>mask_protected.
        rbind (slice_if 0 before_bits Vector) (\<lambda>BeforeVector.
        rbind (twice_if kind maskVector 0 protectedBits EndOfProtectedBits after_bits Vector) (\<lambda>AfterVector.
        rbind (ApplyMask kind vector_protected mask_protected) (\<lambda>ProtectedVector.
          joined BeforeVector ProtectedVector AfterVector)))))"

definition decoded_vector :: "StreamerKind \<Rightarrow> BinaryVector \<Rightarrow> nat \<Rightarrow> nat \<Rightarrow> BinaryVector \<Rightarrow> BinaryVector \<Rightarrow> BinaryVector result" where
  "decoded_vector kind maskVector before_bits EndOfProtectedBits vector_protected Vector =
    (let protectedBits = u32_sub EndOfProtectedBits before_bits; after_bits = u32_sub (BitsCount Vector) EndOfProtectedBits;
         size = BitsCount maskVector
     in rbind (Slice (u32_sub size protectedBits) protectedBits maskVector) (\<lambda>mask_protected.
        rbind (slice_if EndOfProtectedBits after_bits Vector) (\<lambda>AfterVector.
        rbind (twice_if kind maskVector (u32_sub size before_bits) (u32_sub (u32_sub size before_bits) protectedBits) 0 before_bits Vector)
          (\<lambda>BeforeVector.
        rbind (ApplyMask kind vector_protected mask_protected) (\<lambda>ProtectedVector.
          joined BeforeVector ProtectedVector AfterVector)))))"

definition protected_slice :: "nat \<Rightarrow> nat \<Rightarrow> BinaryVector \<Rightarrow> BinaryVector result" where
  "protected_slice before_bits EndOfProtectedBits Vector =
    rbind (Slice before_bits (u32_sub EndOfProtectedBits before_bits) Vector) (\<lambda>vector_protected.
      CheckParameterCondition (EndOfProtectedBits > before_bits) (Inr vector_protected))"

definition Streamer_transform ::
    "'k cipher_object \<Rightarrow> nat \<Rightarrow> nat \<Rightarrow> BinaryVector \<Rightarrow> BinaryVector \<Rightarrow> bool \<Rightarrow> ('k StreamerProtocol, BinaryVector) act" where
  "Streamer_transform get_keystream before_bits EndOfProtectedBits Vector vector_protected isToSut =
    act_bind (act_read (\<lambda>p. Inr (streamer_kind p))) (\<lambda>kind.
      if isToSut
      then act_bind (NewMask get_keystream (BitsCount Vector)) (\<lambda>maskVector.
             act_read (\<lambda>_. encoded_vector kind (BinaryVector_copy maskVector) before_bits EndOfProtectedBits vector_protected Vector))
      else act_bind (act_read (\<lambda>p. Inr (m_CurrentMask p))) (\<lambda>maskVector.
             act_read (\<lambda>_. decoded_vector kind (BinaryVector_copy maskVector) before_bits EndOfProtectedBits vector_protected Vector)))"

section \<open>New masks\<close>

definition protocol_ok :: "'k StreamerProtocol \<Rightarrow> bool" where
  "protocol_ok p \<longleftrightarrow> loose (m_CurrentMask p) \<and> loose (m_Trinvium_Xor_Mask p) \<and> loose (m_Residual_Xor_Mask p)"

text \<open>The cipher object returns, as hexadecimal text, the next bits of a key stream.\<close>

definition keystream_of :: "'k cipher_object \<Rightarrow> ('k \<Rightarrow> nat \<Rightarrow> bool) \<Rightarrow> bool" where
  "keystream_of get_keystream ks \<longleftrightarrow> (\<forall>n k. n mod 8 = 0 \<longrightarrow> 0 < n \<longrightarrow> (\<exists>hexText k'. get_keystream n k = (Inr hexText, k')
     \<and> hex_text hexText \<and> dropWhile leading_blank hexText \<noteq> [] \<and> hex_bits hexText = map (ks k) [0..<n] \<and> (\<forall>i. ks k' i = ks k (n + i))))"

definition stream_bit :: "('k \<Rightarrow> nat \<Rightarrow> bool) \<Rightarrow> 'k StreamerProtocol \<Rightarrow> nat \<Rightarrow> bool" where
  "stream_bit ks p i = (case streamer_kind p of TransparentStreamer \<Rightarrow> False
     | TriviumStreamer \<Rightarrow> (let rest = bits_of (m_Residual_Xor_Mask p)
          in if i < length rest then rest ! i else ks (cipher p) (i - length rest)))"

definition new_mask :: "('k \<Rightarrow> nat \<Rightarrow> bool) \<Rightarrow> 'k StreamerProtocol \<Rightarrow> nat \<Rightarrow> bool list" where
  "new_mask ks p n = rev (map (stream_bit ks p) [0..<n])"

lemma moved_make [simp]: "moved (assign_move (bv_make bs NotFixed) (bv_make cs NotFixed)) = Inr (bv_make cs NotFixed)"
  by (simp add: moved_def assign_move_make)

lemma keystreamE:
  assumes "keystream_of get_keystream ks" and "n mod 8 = 0" and "0 < n" and "n < 4294967296"
  obtains k' where "TRIVIUM_XOR_MASK get_keystream n p = (Inr (bv_make (map (ks (cipher p)) [0..<n]) NotFixed), p\<lparr>cipher := k'\<rparr>)"
    "\<And>i. ks k' i = ks (cipher p) (n + i)"
proof -
  obtain hexText k' where k': "get_keystream n (cipher p) = (Inr hexText, k')" "hex_text hexText" "dropWhile leading_blank hexText \<noteq> []"
    "hex_bits hexText = map (ks (cipher p)) [0..<n]" "\<forall>i. ks k' i = ks (cipher p) (n + i)"
    using assms(1-3) unfolding keystream_of_def by metis
  have "CreateFromHexString (Some hexText) NotFixed IsError = Inr (bv_make (map (ks (cipher p)) [0..<n]) NotFixed)"
    using CreateFromHexString_eq(1) [OF k'(2) _ k'(3)] k'(4) assms(4) by simp
  then show ?thesis using that k'(1,5) by (simp add: TRIVIUM_XOR_MASK_def)
qed

definition renewed :: "('k \<Rightarrow> nat \<Rightarrow> bool) \<Rightarrow> nat \<Rightarrow> 'k StreamerProtocol \<Rightarrow> 'k StreamerProtocol \<Rightarrow> bool" where
  "renewed ks n p p' \<longleftrightarrow> protocol_ok p' \<and> streamer_kind p' = streamer_kind p \<and> m_CurrentMask p' = bv_make (new_mask ks p n) NotFixed
    \<and> (\<forall>i. stream_bit ks p' i = stream_bit ks p (n + i))"

lemma length_new_mask [simp]: "length (new_mask ks p n) = n"
  by (simp add: new_mask_def)

lemma map_stream_bit:
  assumes "streamer_kind p = TriviumStreamer" and "n \<le> length rest + j" and "rest = bits_of (m_Residual_Xor_Mask p)"
  shows "take n (rest @ map (ks (cipher p)) [0..<j]) = map (stream_bit ks p) [0..<n]"
  by (rule nth_equalityI) (use assms in \<open>auto simp: stream_bit_def nth_append Let_def\<close>)

text \<open>What a renewal leaves, whichever branch computed the bits.\<close>

lemma Trivium_rest:
  assumes tri: "streamer_kind p = TriviumStreamer" and ok: "protocol_ok p"
    and xor: "m_Trinvium_Xor_Mask q = bv_make (rest @ map (ks (cipher p)) [0..<j]) NotFixed" and rest: "rest = bits_of (m_Residual_Xor_Mask p)"
    and q: "streamer_kind q = streamer_kind p" "loose (m_CurrentMask q)" "loose (m_Residual_Xor_Mask q)" "\<forall>i. ks (cipher q) i = ks (cipher p) (j + i)"
    and n: "n \<le> length rest + j" "length rest + j < 4294967289" and k: "k = length rest + j - n"
  shows "\<exists>p'. act_then (act_assign (\<lambda>p. rbind (Slice n k (m_Trinvium_Xor_Mask p)) (\<lambda>rest.
                      moved (assign_move (m_Residual_Xor_Mask p) rest))) put_Residual)
          (act_assign (\<lambda>p. rbind (ReverseSlice 0 n (m_Trinvium_Xor_Mask p)) (\<lambda>bits.
                      moved (assign_move (m_CurrentMask p) bits))) put_CurrentMask) q = (Inr (), p') \<and> renewed ks n p p'"
proof -
  let ?s = "rest @ map (ks (cipher p)) [0..<j]"
  have len: "length ?s = length rest + j" by simp
  obtain ms where ms: "m_CurrentMask q = bv_make ms NotFixed" using q(2) by (rule looseE)
  obtain rs where rs: "m_Residual_Xor_Mask q = bv_make rs NotFixed" using q(3) by (rule looseE)
  have cut: "Slice n k (m_Trinvium_Xor_Mask q) = Inr (bv_make (drop n ?s) NotFixed)"
  proof -
    have "Slice n k (bv_make ?s NotFixed) = (if k = 0 \<or> n < length ?s \<and> n + k \<le> length ?s
        then Inr (bv_make (take k (drop n ?s)) NotFixed) else Inl InvalidArgument)"
      by (rule Slice_make) (use n k len in simp_all)
    moreover have "take k (drop n ?s) = drop n ?s" using k n by simp
    ultimately show ?thesis using xor n k len by auto
  qed
  have rev: "ReverseSlice 0 n (m_Trinvium_Xor_Mask q) = Inr (bv_make (new_mask ks p n) NotFixed)"
  proof -
    have "ReverseSlice 0 n (bv_make ?s NotFixed) = (if n = 0 \<or> 0 < length ?s \<and> 0 + n \<le> length ?s
        then Inr (bv_make (rev (take n (drop 0 ?s))) NotFixed) else Inl InvalidArgument)"
      by (rule ReverseSlice_make) (use n len in simp_all)
    moreover have "rev (take n ?s) = new_mask ks p n" using map_stream_bit [OF tri n(1) rest, of ks] by (simp only: new_mask_def)
    moreover have "n = 0 \<or> 0 < length ?s \<and> 0 + n \<le> length ?s" using n(1) len by linarith
    ultimately show ?thesis using xor by simp
  qed
  let ?p = "put_CurrentMask (bv_make (new_mask ks p n) NotFixed) (put_Residual (bv_make (drop n ?s) NotFixed) q)"
  have bit: "stream_bit ks ?p i = stream_bit ks p (n + i)" for i
  proof -
    have drops: "length (drop n ?s) = length rest + j - n" "drop n ?s ! i = ?s ! (n + i)"
      using n(1) by (simp_all add: nth_drop del: drop_append)
    have "stream_bit ks ?p i = (if i < length rest + j - n then ?s ! (n + i) else ks (cipher q) (i - (length rest + j - n)))"
      using tri q(1) by (simp add: stream_bit_def put_CurrentMask_def put_Residual_def Let_def drops del: drop_append)
    also have "\<dots> = stream_bit ks p (n + i)"
    proof (cases "i < length rest + j - n")
      case True
      then show ?thesis using tri rest by (auto simp: stream_bit_def nth_append Let_def)
    next
      case False
      then have "ks (cipher q) (i - (length rest + j - n)) = ks (cipher p) (n + i - length rest)" using q(4) n(1) by (simp add: add.commute)
      then show ?thesis using False tri rest n(1) by (auto simp: stream_bit_def Let_def)
    qed
    finally show ?thesis .
  qed
  have "length ?s < 4294967296" "n < 4294967296" using n len by simp_all
  then have "renewed ks n p ?p"
    using q(1) xor bit by (simp add: renewed_def protocol_ok_def put_CurrentMask_def put_Residual_def)
  then show ?thesis using cut rev ms rs
    by (intro exI [of _ ?p]) (simp add: act_then_simps act_assign_def put_Residual_def)
qed

lemma round_up8: "x \<le> (x div 8 + (if x mod 8 \<noteq> 0 then 1 else 0)) * 8" "(x div 8 + (if x mod 8 \<noteq> 0 then 1 else 0)) * 8 \<le> x + (7 :: nat)"
proof -
  have "x div 8 * 8 + x mod 8 = x" "x mod 8 < 8" by simp_all
  then show "x \<le> (x div 8 + (if x mod 8 \<noteq> 0 then 1 else 0)) * 8" "(x div 8 + (if x mod 8 \<noteq> 0 then 1 else 0)) * 8 \<le> x + 7"
    by (cases "x mod 8 = 0"; simp only: add_mult_distrib if_True if_False not_not simp_thms; linarith)+
qed

lemma xor_bytes_facts:
  assumes "n < 4294967281" and "k < n"
  shows "n \<le> k + xor_bytes n k * 8" "k + xor_bytes n k * 8 < 4294967289" "0 < xor_bytes n k"
    "residual_bits n k = k + xor_bytes n k * 8 - n"
proof -
  have bytes: "xor_bytes n k = (n - k) div 8 + (if (n - k) mod 8 \<noteq> 0 then 1 else 0)" using assms(2) by (simp add: xor_bytes_def Let_def)
  show le: "n \<le> k + xor_bytes n k * 8" and lt: "k + xor_bytes n k * 8 < 4294967289" and "0 < xor_bytes n k"
  proof -
    have both: "n \<le> k + xor_bytes n k * 8 \<and> k + xor_bytes n k * 8 \<le> n + 7"
      using round_up8 [of "n - k"] assms(2) unfolding bytes by linarith
    show "n \<le> k + xor_bytes n k * 8" "k + xor_bytes n k * 8 < 4294967289" using both assms(1) by linarith+
    show "0 < xor_bytes n k" using both assms(2) by (cases "xor_bytes n k") simp_all
  qed
  have "u32_sub (u32 (xor_bytes n k * 8)) (n - k) = xor_bytes n k * 8 - (n - k)" using le lt by simp
  then show "residual_bits n k = k + xor_bytes n k * 8 - n" using assms(2) le by (simp add: residual_bits_def)
qed

lemma NewMask_eq:
  assumes ok: "protocol_ok p" and ks: "keystream_of get_keystream ks" and n: "n < 4294967281"
    and rest: "length (bits_of (m_Residual_Xor_Mask p)) < 4294967281"
  shows "\<exists>p'. NewMask get_keystream n p = (Inr (bv_make (new_mask ks p n) NotFixed), p') \<and> renewed ks n p p'"
proof (cases "streamer_kind p")
  case TransparentStreamer
  obtain ms where ms: "m_CurrentMask p = bv_make ms NotFixed" using ok by (auto simp: protocol_ok_def elim: looseE)
  let ?p = "put_CurrentMask (bv_make (replicate n False) NotFixed) p"
  have zero: "new_mask ks p n = replicate n False"
  proof -
    have "stream_bit ks p = (\<lambda>_. False)" using TransparentStreamer by (simp add: stream_bit_def fun_eq_iff)
    then show ?thesis by (simp add: new_mask_def map_replicate_const)
  qed
  have "renewed ks n p ?p" using ok TransparentStreamer zero n
    by (simp add: renewed_def protocol_ok_def put_CurrentMask_def stream_bit_def)
  moreover have "NewMask get_keystream n p = (Inr (bv_make (new_mask ks p n) NotFixed), ?p)"
    using TransparentStreamer ms n zero
    by (simp add: NewMask_def act_bind_def act_read_def Transparent_NewMask_def act_assign_def BinaryVector_fill_make put_CurrentMask_def)
  ultimately show ?thesis by blast
next
  case TriviumStreamer
  define rs where "rs = bits_of (m_Residual_Xor_Mask p)"
  have residual: "m_Residual_Xor_Mask p = bv_make rs NotFixed" using ok by (simp add: protocol_ok_def loose_def rs_def)
  obtain xs where xs: "m_Trinvium_Xor_Mask p = bv_make xs NotFixed" using ok by (auto simp: protocol_ok_def elim: looseE)
  have len: "length rs < 4294967281" using rest by (simp add: rs_def)
  let ?p1 = "put_XorMask (bv_make rs NotFixed) p"
  have copy: "assign_copy (m_Trinvium_Xor_Mask p) (m_Residual_Xor_Mask p) = Inr (bv_make rs NotFixed)"
    using residual xs by (simp add: assign_copy_make)
  let ?tail = "\<lambda>k. act_then (act_assign (\<lambda>p. rbind (Slice n k (m_Trinvium_Xor_Mask p)) (\<lambda>rest.
                      moved (assign_move (m_Residual_Xor_Mask p) rest))) put_Residual)
          (act_assign (\<lambda>p. rbind (ReverseSlice 0 n (m_Trinvium_Xor_Mask p)) (\<lambda>bits.
                      moved (assign_move (m_CurrentMask p) bits))) put_CurrentMask)"
  have "\<exists>p'. Trivium_NewMask get_keystream n p = (Inr (), p') \<and> renewed ks n p p'"
  proof (cases "n > length rs")
    case False
    have q: "m_Trinvium_Xor_Mask ?p1 = bv_make (rs @ map (ks (cipher p)) [0..<0]) NotFixed" by (simp add: put_XorMask_def)
    have "\<exists>p'. ?tail (length rs - n) ?p1 = (Inr (), p') \<and> renewed ks n p p'"
      by (rule Trivium_rest [where ks = ks and j = 0, OF TriviumStreamer ok q rs_def]) (use ok False len in \<open>simp_all add: put_XorMask_def protocol_ok_def\<close>)
    then show ?thesis using copy residual False
      by (simp add: Trivium_NewMask_def act_then_simps act_assign_def act_bind_def act_read_def put_XorMask_def xor_bytes_def residual_bits_def)
  next
    case True
    define j where "j = xor_bytes n (length rs) * 8"
    note b = xor_bytes_facts [OF n True, folded j_def]
    have "j mod 8 = 0" "0 < j" "j < 4294967296" using b(2,3) by (simp_all add: j_def)
    from keystreamE [OF ks this, of ?p1] obtain k' where k': "TRIVIUM_XOR_MASK get_keystream j ?p1
        = (Inr (bv_make (map (ks (cipher ?p1)) [0..<j]) NotFixed), ?p1\<lparr>cipher := k'\<rparr>)"
      "\<And>i. ks k' i = ks (cipher ?p1) (j + i)" by blast
    have c: "cipher ?p1 = cipher p" by (simp add: put_XorMask_def)
    let ?q = "put_XorMask (bv_make (rs @ map (ks (cipher p)) [0..<j]) NotFixed) (?p1\<lparr>cipher := k'\<rparr>)"
    have app: "Append (bv_make (map (ks (cipher p)) [0..<j]) NotFixed) (bv_make rs NotFixed)
        = Inr (bv_make (rs @ map (ks (cipher p)) [0..<j]) NotFixed)"
      using Append_make [of rs "map (ks (cipher p)) [0..<j]" NotFixed NotFixed] b(2) by simp
    have m: "m_Trinvium_Xor_Mask (?p1\<lparr>cipher := k'\<rparr>) = bv_make rs NotFixed" by (simp add: put_XorMask_def)
    have q: "m_Trinvium_Xor_Mask ?q = bv_make (rs @ map (ks (cipher p)) [0..<j]) NotFixed" by (simp add: put_XorMask_def)
    have tail: "\<exists>p'. ?tail (length rs + j - n) ?q = (Inr (), p') \<and> renewed ks n p p'"
      by (rule Trivium_rest [where ks = ks and j = j, OF TriviumStreamer ok q rs_def])
        (use ok b(1,2) k'(2) c in \<open>simp_all add: put_XorMask_def protocol_ok_def\<close>)
    have "u32 (xor_bytes n (length rs) * 8) = j" using b(2) by (simp add: j_def)
    then show ?thesis using tail copy residual k'(1) c app m b(3,4)
      by (simp add: Trivium_NewMask_def act_then_simps act_assign_def act_bind_def act_read_def put_XorMask_def)
  qed
  then obtain p' where "Trivium_NewMask get_keystream n p = (Inr (), p')" "renewed ks n p p'" by blast
  then show ?thesis using TriviumStreamer
    by (intro exI [of _ p']) (simp add: NewMask_def act_bind_def act_read_def renewed_def)
qed

section \<open>What encoding and decoding compute\<close>

definition xor_with :: "bool list \<Rightarrow> bool list \<Rightarrow> bool list" where
  "xor_with xs ms = map2 (\<noteq>) xs ms"

definition encode :: "nat \<Rightarrow> nat \<Rightarrow> bool list \<Rightarrow> bool list \<Rightarrow> bool list" where
  "encode b e m xs = take b xs @ xor_with (take (e - b) (drop b xs)) (take (e - b) m)
    @ xor_with (xor_with (drop e xs) (take (length xs - e) m)) (take (length xs - e) (drop (e - b) m))"

definition decode :: "nat \<Rightarrow> nat \<Rightarrow> bool list \<Rightarrow> bool list \<Rightarrow> bool list" where
  "decode b e m ys = xor_with (xor_with (take b ys) (take b (drop (length ys - b) m))) (take b (drop (length ys - e) m))
    @ xor_with (take (e - b) (drop b ys)) (take (e - b) (drop (length ys - (e - b)) m)) @ drop e ys"

lemma length_xor_with [simp]: "length (xor_with xs ms) = min (length xs) (length ms)"
  by (simp add: xor_with_def)

lemma nth_xor_with [simp]: "i < length xs \<Longrightarrow> i < length ms \<Longrightarrow> xor_with xs ms ! i = (xs ! i \<noteq> ms ! i)"
  by (simp add: xor_with_def)

lemma encode_length [simp]: "b < e \<Longrightarrow> e \<le> length xs \<Longrightarrow> length m = length xs \<Longrightarrow> length (encode b e m xs) = length xs"
  by (simp add: encode_def)

lemma decode_length [simp]: "b < e \<Longrightarrow> e \<le> length xs \<Longrightarrow> length m = length xs \<Longrightarrow> length (decode b e m xs) = length xs"
  by (simp add: decode_def)

lemma encode_nth:
  assumes "b < e" "e \<le> length xs" "length m = length xs" "j < length xs"
  shows "encode b e m xs ! j = (xs ! j \<noteq> ((b \<le> j \<and> m ! (j - b)) \<noteq> (e \<le> j \<and> m ! (j - e))))"
proof -
  consider "j < b" | "b \<le> j" "j < e" | "e \<le> j" by linarith
  then show ?thesis
  proof cases
    case 1
    then show ?thesis using assms by (simp add: encode_def nth_append)
  next
    case 2
    then have "j - b < e - b" "b + (j - b) = j" by simp_all
    then show ?thesis using assms 2 by (simp add: encode_def nth_append)
  next
    case 3
    have "j - b - (e - b) = j - e" "\<not> j - b < e - b" using assms(1) 3 by simp_all
    then have i: "encode b e m xs ! j = xor_with (xor_with (drop e xs) (take (length xs - e) m)) (take (length xs - e) (drop (e - b) m)) ! (j - e)"
      using assms 3 by (simp add: encode_def nth_append)
    have "j - e < length xs - e" "e + (j - e) = j" "e - b + (j - e) = j - b" using assms(1,4) 3 by simp_all
    then show ?thesis using assms 3 unfolding i by simp blast
  qed
qed

lemma decode_nth:
  assumes "b < e" "e \<le> length ys" "length m = length ys" "j < length ys"
  shows "decode b e m ys ! j = (ys ! j \<noteq> ((j < b \<and> m ! (length ys - b + j)) \<noteq> (j < e \<and> m ! (length ys - e + j))))"
proof -
  consider "j < b" | "b \<le> j" "j < e" | "e \<le> j" by linarith
  then show ?thesis
  proof cases
    case 1
    then show ?thesis using assms by (simp add: decode_def nth_append) blast
  next
    case 2
    have "length ys - (e - b) + (j - b) = length ys - e + j" "j - b < e - b" "b + (j - b) = j" using assms(1,2) 2 by simp_all
    then show ?thesis using assms 2 by (simp add: decode_def nth_append)
  next
    case 3
    then have "\<not> j - b < e - b" "e + (j - b - (e - b)) = j" using assms(1) by simp_all
    then show ?thesis using assms 3 by (simp add: decode_def nth_append)
  qed
qed

definition quiet :: "StreamerKind \<Rightarrow> bool list \<Rightarrow> bool" where
  "quiet kind m \<longleftrightarrow> (kind = TransparentStreamer \<longrightarrow> True \<notin> set m)"

lemma or_quiet: "True \<notin> set ms \<Longrightarrow> length xs = length ms \<Longrightarrow> map2 (\<or>) xs ms = map2 (\<noteq>) xs ms"
  by (rule nth_equalityI) (auto simp: in_set_conv_nth)

lemma quiet_parts [simp]: "quiet kind m \<Longrightarrow> quiet kind (take k m)" "quiet kind m \<Longrightarrow> quiet kind (drop k m)"
  by (auto simp: quiet_def dest: in_set_takeD in_set_dropD)

lemma ApplyMask_make:
  assumes "length xs = length ms" and "quiet kind ms" and "p \<noteq> FixedOnCopy" and "q \<noteq> FixedOnCopy"
  shows "ApplyMask kind (bv_make xs p) (bv_make ms q) = Inr (bv_make (xor_with xs ms) NotFixed)"
  using assms by (cases kind)
    (simp_all add: ApplyMask_def bitor_def bitxor_def or_assign_make xor_assign_make xor_with_def quiet_def or_quiet)

lemma Slice_part:
  assumes "f + k \<le> length xs" and "length xs < 4294967296"
  shows "Slice f k (bv_make xs p) = Inr (bv_make (take k (drop f xs)) NotFixed)"
proof (cases "k = 0")
  case True
  then show ?thesis using Slice_make [of xs f k p] assms by simp
next
  case False
  then show ?thesis using Slice_make [of xs f k p] assms by simp
qed

lemma masked_twice_make:
  assumes "f1 + k \<le> length m" "f2 + k \<le> length m" "length m < 4294967296" "quiet kind m" "length xs = k"
  shows "masked_twice kind (bv_make m NotFixed) f1 f2 k (bv_make xs NotFixed)
    = Inr (bv_make (xor_with (xor_with xs (take k (drop f1 m))) (take k (drop f2 m))) NotFixed)"
  using assms by (simp add: masked_twice_def Slice_part ApplyMask_make)

lemma twice_if_make:
  assumes "f1 + k \<le> length m" "f2 + k \<le> length m" "length m < 4294967296" "quiet kind m" "f + k \<le> length xs" "length xs < 4294967296"
  shows "twice_if kind (bv_make m NotFixed) f1 f2 f k (bv_make xs NotFixed)
    = Inr (bv_make (xor_with (xor_with (take k (drop f xs)) (take k (drop f1 m))) (take k (drop f2 m))) NotFixed)"
proof (cases "0 < k")
  case True
  then show ?thesis using assms by (simp add: twice_if_def Slice_part masked_twice_make)
next
  case False
  then show ?thesis by (simp add: twice_if_def BinaryVector_empty_make xor_with_def)
qed

lemma joined_make:
  assumes "length as + length bs + length cs < 4294967296"
  shows "joined (bv_make as NotFixed) (bv_make bs NotFixed) (bv_make cs NotFixed) = Inr (bv_make (as @ bs @ cs) NotFixed)"
  using assms Append_make [of "[]" as NotFixed NotFixed] Append_make [of as bs NotFixed NotFixed] Append_make [of "as @ bs" cs NotFixed NotFixed]
  by (simp add: joined_def BinaryVector_empty_make)

lemma encoded_vector_make:
  assumes be: "b < e" "e \<le> length xs" and m: "length m = length xs" "quiet kind m" and len: "length xs < 4294967296"
  shows "encoded_vector kind (bv_make m NotFixed) b e (bv_make (take (e - b) (drop b xs)) NotFixed) (bv_make xs NotFixed)
    = Inr (bv_make (encode b e m xs) NotFixed)"
proof -
  have sub: "u32_sub e b = e - b" "u32_sub (length xs) e = length xs - e" using be len by simp_all
  have before: "slice_if 0 b (bv_make xs NotFixed) = Inr (bv_make (take b xs) NotFixed)"
    using be len by (simp add: slice_if_def Slice_part BinaryVector_empty_make)
  have after: "twice_if kind (bv_make m NotFixed) 0 (e - b) e (length xs - e) (bv_make xs NotFixed)
      = Inr (bv_make (xor_with (xor_with (drop e xs) (take (length xs - e) m)) (take (length xs - e) (drop (e - b) m))) NotFixed)"
    using twice_if_make [of 0 "length xs - e" m "e - b" kind e xs] be m len by simp
  show ?thesis using be m len
    by (simp add: encoded_vector_def Let_def sub before after Slice_part ApplyMask_make joined_make encode_def)
qed

lemma decoded_vector_make:
  assumes be: "b < e" "e \<le> length xs" and m: "length m = length xs" "quiet kind m" and len: "length xs < 4294967296"
  shows "decoded_vector kind (bv_make m NotFixed) b e (bv_make (take (e - b) (drop b xs)) NotFixed) (bv_make xs NotFixed)
    = Inr (bv_make (decode b e m xs) NotFixed)"
proof -
  have sub: "u32_sub e b = e - b" "u32_sub (length xs) e = length xs - e" "u32_sub (length xs) b = length xs - b"
    "u32_sub (length xs) (e - b) = length xs - (e - b)" "u32_sub (length xs - b) (e - b) = length xs - e" using be len by simp_all
  have after: "slice_if e (length xs - e) (bv_make xs NotFixed) = Inr (bv_make (drop e xs) NotFixed)"
    using be len by (simp add: slice_if_def Slice_part BinaryVector_empty_make)
  have before: "twice_if kind (bv_make m NotFixed) (length xs - b) (length xs - e) 0 b (bv_make xs NotFixed)
      = Inr (bv_make (xor_with (xor_with (take b xs) (take b (drop (length xs - b) m))) (take b (drop (length xs - e) m))) NotFixed)"
    using twice_if_make [of "length xs - b" b m "length xs - e" kind 0 xs] be m len by simp
  have prot: "Slice (length xs - (e - b)) (e - b) (bv_make m NotFixed) = Inr (bv_make (take (e - b) (drop (length xs - (e - b)) m)) NotFixed)"
    using be m len by (intro Slice_part) simp_all
  have mask: "ApplyMask kind (bv_make (take (e - b) (drop b xs)) NotFixed) (bv_make (take (e - b) (drop (length xs - (e - b)) m)) NotFixed)
      = Inr (bv_make (xor_with (take (e - b) (drop b xs)) (take (e - b) (drop (length xs - (e - b)) m))) NotFixed)"
    using be m by (intro ApplyMask_make) simp_all
  have "joined (bv_make (xor_with (xor_with (take b xs) (take b (drop (length xs - b) m))) (take b (drop (length xs - e) m))) NotFixed)
      (bv_make (xor_with (take (e - b) (drop b xs)) (take (e - b) (drop (length xs - (e - b)) m))) NotFixed) (bv_make (drop e xs) NotFixed)
    = Inr (bv_make (decode b e m xs) NotFixed)"
    unfolding decode_def using be m len by (intro joined_make) simp
  then show ?thesis using m by (simp add: decoded_vector_def Let_def sub after before prot mask del: take_all take_all_iff)
qed

lemma protected_slice_make:
  assumes "b \<le> e" "e \<le> length xs" "length xs < 4294967296"
  shows "protected_slice b e (bv_make xs NotFixed)
    = (if b < e then Inr (bv_make (take (e - b) (drop b xs)) NotFixed) else Inl InvalidArgument)"
proof -
  have "u32_sub e b = e - b" using assms by simp
  then show ?thesis using assms by (simp add: protected_slice_def Slice_part)
qed

lemma new_mask_quiet: "quiet (streamer_kind p) (new_mask ks p n)"
  by (cases "streamer_kind p") (auto simp: quiet_def new_mask_def stream_bit_def)

lemma transform_encodes:
  assumes ok: "protocol_ok p" and ks: "keystream_of get_keystream ks" and be: "b < e" "e \<le> length xs"
    and len: "length xs < 4294967281" "length (bits_of (m_Residual_Xor_Mask p)) < 4294967281"
  shows "\<exists>p'. Streamer_transform get_keystream b e (bv_make xs NotFixed) (bv_make (take (e - b) (drop b xs)) NotFixed) True p
      = (Inr (bv_make (encode b e (new_mask ks p (length xs)) xs) NotFixed), p') \<and> renewed ks (length xs) p p'"
proof -
  obtain p' where p': "NewMask get_keystream (length xs) p = (Inr (bv_make (new_mask ks p (length xs)) NotFixed), p')"
    "renewed ks (length xs) p p'" using NewMask_eq [OF ok ks len] by blast
  have "length xs < 4294967296" using len by simp
  then show ?thesis using p' encoded_vector_make [OF be _ new_mask_quiet]
    by (simp add: Streamer_transform_def act_bind_def act_read_def)
qed

lemma transform_decodes:
  assumes m: "m_CurrentMask p = bv_make m NotFixed" "length m = length xs" "quiet (streamer_kind p) m"
    and be: "b < e" "e \<le> length xs" and len: "length xs < 4294967296"
  shows "Streamer_transform get_keystream b e (bv_make xs NotFixed) (bv_make (take (e - b) (drop b xs)) NotFixed) False p
    = (Inr (bv_make (decode b e m xs) NotFixed), p)"
  using m decoded_vector_make [OF be m(2,3) len] by (simp add: Streamer_transform_def act_bind_def act_read_def)

end
