(* ===== verification/Streamer_Circuit.thy ===== *)
theory Streamer_Circuit
  imports Streamers
begin

text \<open>
  The reference for streamers: a scan chain whose streamers add (exclusive or) one bit of their key
  stream, on each clock, to the bit that enters and to the bit that leaves the part they protect.
  The vectors the manager sends and decodes are exactly those that make this circuit hold, and give
  back, the plain bits.
\<close>

section \<open>The circuit\<close>

text \<open>
  A level is the position where a streamer begins, the position after its end, and its mask: the
  key stream, last bit first. Position 0 is the input of the chain, the first bit shifted in is the
  last of the vector. \<open>crossing\<close> is what is added to the bit that enters position \<open>q\<close> at clock \<open>t\<close>.
\<close>

type_synonym level = "nat \<times> nat \<times> bool list"

fun crossing :: "nat \<Rightarrow> level list \<Rightarrow> nat \<Rightarrow> nat \<Rightarrow> bool" where
  "crossing n [] q t = False"
| "crossing n ((b, e, m) # ls) q t = (((q = b \<or> q = e) \<and> m ! (n - 1 - t)) \<noteq> crossing n ls q t)"

definition shift_clock :: "nat \<Rightarrow> level list \<Rightarrow> nat \<Rightarrow> bool list \<Rightarrow> bool \<Rightarrow> bool list \<times> bool" where
  "shift_clock n ls t chain i =
    (map (\<lambda>p. (if p = 0 then i else chain ! (p - 1)) \<noteq> crossing n ls p t) [0..<n], chain ! (n - 1) \<noteq> crossing n ls n t)"

fun shift_through :: "nat \<Rightarrow> level list \<Rightarrow> nat \<Rightarrow> bool list \<Rightarrow> bool list \<Rightarrow> bool list \<times> bool list" where
  "shift_through n ls t chain [] = (chain, [])"
| "shift_through n ls t chain (i # inputs) =
    (let (chain1, out) = shift_clock n ls t chain i; (chain2, outs) = shift_through n ls (Suc t) chain1 inputs
     in (chain2, out # outs))"

definition scan :: "level list \<Rightarrow> bool list \<Rightarrow> bool list \<Rightarrow> bool list \<times> bool list" where
  "scan ls captured sent = (let (chain, outs) = shift_through (length captured) ls 0 captured (rev sent) in (chain, rev outs))"

section \<open>Where every bit goes\<close>

definition parity :: "(nat \<Rightarrow> bool) \<Rightarrow> nat list \<Rightarrow> bool" where
  "parity f qs = foldr (\<lambda>q acc. f q \<noteq> acc) qs False"

lemma parity_simps [simp]:
  "parity f [] = False" "parity f (q # qs) = (f q \<noteq> parity f qs)" "parity f (qs @ rs) = (parity f qs \<noteq> parity f rs)"
proof -
  show "parity f [] = False" "parity f (q # qs) = (f q \<noteq> parity f qs)" by (simp_all add: parity_def)
  show "parity f (qs @ rs) = (parity f qs \<noteq> parity f rs)" by (induction qs) (simp_all add: parity_def, blast)
qed

lemma parity_xor: "parity (\<lambda>q. f q \<noteq> g q) qs = (parity f qs \<noteq> parity g qs)"
  by (induction qs) (simp_all, blast)

lemma parity_False [simp]: "parity (\<lambda>q. False) qs = False"
  by (induction qs) simp_all

lemma parity_cong: "(\<And>q. q \<in> set qs \<Longrightarrow> f q = g q) \<Longrightarrow> parity f qs = parity g qs"
  by (induction qs) simp_all

lemma parity_single: "distinct qs \<Longrightarrow> parity (\<lambda>q. q = a \<and> v) qs = (a \<in> set qs \<and> v)"
  by (induction qs) auto

text \<open>After \<open>t\<close> clocks position \<open>p\<close> holds an input bit, or a captured bit that has moved.\<close>

definition held :: "nat \<Rightarrow> level list \<Rightarrow> bool list \<Rightarrow> bool list \<Rightarrow> nat \<Rightarrow> nat \<Rightarrow> bool" where
  "held n ls captured inputs t p =
    (if p < t then inputs ! (t - 1 - p) \<noteq> parity (\<lambda>q. crossing n ls q (t - 1 - p + q)) [0..<Suc p]
     else captured ! (p - t) \<noteq> parity (\<lambda>q. crossing n ls q (q - 1 - (p - t))) [Suc (p - t)..<Suc p])"

lemma held_step:
  assumes "p < n" and "t < length inputs"
  shows "held n ls captured inputs (Suc t) p
    = ((if p = 0 then inputs ! t else held n ls captured inputs t (p - 1)) \<noteq> crossing n ls p t)"
proof (cases p)
  case 0
  then show ?thesis by (simp add: held_def)
next
  case (Suc k)
  show ?thesis
  proof (cases "k < t")
    case True
    then have "Suc t - 1 - p = t - 1 - k" "t - 1 - k + Suc k = t" using Suc by simp_all
    then show ?thesis using Suc True by (simp add: held_def) blast
  next
    case False
    then have "p - Suc t = k - t" "p - 1 - (k - t) = t" "[Suc (k - t)..<Suc p] = [Suc (k - t)..<Suc k] @ [p]" using Suc by simp_all
    then show ?thesis using Suc False by (simp add: held_def) blast
  qed
qed

lemma shift_through_eq:
  assumes "length chain = n" and "t + length rest = length inputs" and "rest = drop t inputs" and "length inputs \<le> n"
    and "\<And>p. p < n \<Longrightarrow> chain ! p = held n ls captured inputs t p"
  shows "length (fst (shift_through n ls t chain rest)) = n
    \<and> (\<forall>p < n. fst (shift_through n ls t chain rest) ! p = held n ls captured inputs (length inputs) p)
    \<and> length (snd (shift_through n ls t chain rest)) = length rest
    \<and> (\<forall>k < length rest. snd (shift_through n ls t chain rest) ! k
          = (held n ls captured inputs (t + k) (n - 1) \<noteq> crossing n ls n (t + k)))"
  using assms
proof (induction rest arbitrary: t chain)
  case Nil
  then show ?case by simp
next
  case (Cons i rest)
  let ?chain = "fst (shift_clock n ls t chain i)"
  have t: "t < length inputs" using Cons.prems(2) by simp
  have i: "i = inputs ! t" "rest = drop (Suc t) inputs"
    using Cons.prems(3) Cons_nth_drop_Suc [OF t] by (metis list.inject)+
  have len: "length ?chain = n" by (simp add: shift_clock_def)
  have n: "0 < n" using t Cons.prems(4) by simp
  have held: "?chain ! p = held n ls captured inputs (Suc t) p" if "p < n" for p
  proof -
    have "p - 1 < n" using that by simp
    then show ?thesis using Cons.prems(5) that i(1) held_step [OF that t, of ls captured] by (simp add: shift_clock_def)
  qed
  have out: "snd (shift_clock n ls t chain i) = (held n ls captured inputs t (n - 1) \<noteq> crossing n ls n t)"
    using Cons.prems(5) n by (simp add: shift_clock_def)
  note IH = Cons.IH [OF len _ i(2) Cons.prems(4) held]
  show ?case
    using IH Cons.prems(2) out by (auto simp: split_beta Let_def nth_Cons split: nat.splits)
qed

theorem scan_eq:
  assumes "length captured = n" and "length sent = n"
  shows "fst (scan ls captured sent) = map (\<lambda>j. sent ! j \<noteq> parity (\<lambda>q. crossing n ls q (n - 1 - j + q)) [0..<Suc j]) [0..<n]"
    and "snd (scan ls captured sent) = map (\<lambda>j. captured ! j \<noteq> parity (\<lambda>q. crossing n ls q (q - 1 - j)) [Suc j..<Suc n]) [0..<n]"
proof -
  have start: "captured ! p = held n ls captured (rev sent) 0 p" if "p < n" for p by (simp add: held_def)
  note run = shift_through_eq [where t = 0 and rest = "rev sent" and inputs = "rev sent", OF assms(1) _ _ _ start, simplified]
  have len: "length (rev sent) = n" using assms(2) by simp
  show "fst (scan ls captured sent) = map (\<lambda>j. sent ! j \<noteq> parity (\<lambda>q. crossing n ls q (n - 1 - j + q)) [0..<Suc j]) [0..<n]"
  proof (rule nth_equalityI)
    show "length (fst (scan ls captured sent)) = length (map (\<lambda>j. sent ! j \<noteq> parity (\<lambda>q. crossing n ls q (n - 1 - j + q)) [0..<Suc j]) [0..<n])"
      using run assms by (simp add: scan_def split_beta Let_def)
    fix j assume "j < length (fst (scan ls captured sent))"
    then have j: "j < n" using run assms by (simp add: scan_def split_beta Let_def)
    have "fst (scan ls captured sent) ! j = held n ls captured (rev sent) n j"
      using run assms j by (simp add: scan_def split_beta Let_def)
    moreover have "rev sent ! (n - 1 - j) = sent ! j" using j assms(2) by (simp add: rev_nth)
    ultimately show "fst (scan ls captured sent) ! j
        = map (\<lambda>j. sent ! j \<noteq> parity (\<lambda>q. crossing n ls q (n - 1 - j + q)) [0..<Suc j]) [0..<n] ! j"
      using j by (simp add: held_def)
  qed
  show "snd (scan ls captured sent) = map (\<lambda>j. captured ! j \<noteq> parity (\<lambda>q. crossing n ls q (q - 1 - j)) [Suc j..<Suc n]) [0..<n]"
  proof (rule nth_equalityI)
    show "length (snd (scan ls captured sent)) = length (map (\<lambda>j. captured ! j \<noteq> parity (\<lambda>q. crossing n ls q (q - 1 - j)) [Suc j..<Suc n]) [0..<n])"
      using run assms by (simp add: scan_def split_beta Let_def)
    fix j assume "j < length (snd (scan ls captured sent))"
    then have j: "j < n" using run assms by (simp add: scan_def split_beta Let_def)
    have "snd (scan ls captured sent) ! j = (held n ls captured (rev sent) (n - 1 - j) (n - 1) \<noteq> crossing n ls n (n - 1 - j))"
      using run assms j by (simp add: scan_def split_beta Let_def rev_nth)
    moreover have "n - 1 - (n - 1 - j) = j" "[Suc j..<Suc n] = [Suc j..<n] @ [n]" "Suc (n - 1) = n" "\<not> n - 1 < n - 1 - j"
      "crossing n ls n (n - 1 - j) = crossing n ls n (n - Suc j)" using j by simp_all
    ultimately show "snd (scan ls captured sent) ! j
        = map (\<lambda>j. captured ! j \<noteq> parity (\<lambda>q. crossing n ls q (q - 1 - j)) [Suc j..<Suc n]) [0..<n] ! j"
      using j by (simp add: held_def) blast
  qed
qed

section \<open>The software inverts the circuit\<close>

fun encode_all :: "level list \<Rightarrow> bool list \<Rightarrow> bool list" where
  "encode_all [] xs = xs"
| "encode_all ((b, e, m) # ls) xs = encode_all ls (encode b e m xs)"

fun decode_all :: "level list \<Rightarrow> bool list \<Rightarrow> bool list" where
  "decode_all [] ys = ys"
| "decode_all ((b, e, m) # ls) ys = decode b e m (decode_all ls ys)"

definition levels_ok :: "nat \<Rightarrow> level list \<Rightarrow> bool" where
  "levels_ok n ls \<longleftrightarrow> (\<forall>(b, e, m) \<in> set ls. b < e \<and> e \<le> n \<and> length m = n)"

lemma levels_ok_simps [simp]:
  "levels_ok n []" "levels_ok n ((b, e, m) # ls) \<longleftrightarrow> b < e \<and> e \<le> n \<and> length m = n \<and> levels_ok n ls"
  by (auto simp: levels_ok_def)

lemma crossing_single:
  assumes "b < e"
  shows "parity (\<lambda>q. (q = b \<or> q = e) \<and> f q) qs = (parity (\<lambda>q. q = b \<and> f q) qs \<noteq> parity (\<lambda>q. q = e \<and> f q) qs)"
proof -
  have "parity (\<lambda>q. (q = b \<or> q = e) \<and> f q) qs = parity (\<lambda>q. (q = b \<and> f q) \<noteq> (q = e \<and> f q)) qs"
    by (rule parity_cong) (use assms in auto)
  then show ?thesis by (simp only: parity_xor)
qed

lemma parity_at: "distinct qs \<Longrightarrow> parity (\<lambda>q. q = a \<and> f q) qs = (a \<in> set qs \<and> f a)"
  using parity_single [of qs a "f a"] parity_cong [of qs "\<lambda>q. q = a \<and> f q" "\<lambda>q. q = a \<and> f a"] by auto

lemma encode_all_length [simp]: "levels_ok (length xs) ls \<Longrightarrow> length (encode_all ls xs) = length xs"
  by (induction ls xs rule: encode_all.induct) simp_all

lemma decode_all_length [simp]: "levels_ok (length ys) ls \<Longrightarrow> length (decode_all ls ys) = length ys"
  by (induction ls ys rule: decode_all.induct) simp_all

lemma encode_all_nth:
  assumes "levels_ok n ls" and "length xs = n" and "j < n"
  shows "encode_all ls xs ! j = (xs ! j \<noteq> parity (\<lambda>q. crossing n ls q (n - 1 - j + q)) [0..<Suc j])"
  using assms
proof (induction ls xs rule: encode_all.induct)
  case (1 xs)
  then show ?case by simp
next
  case (2 b e m ls xs)
  have be: "b < e" "e \<le> length xs" "length m = length xs" using "2.prems" by simp_all
  have "parity (\<lambda>q. (q = b \<or> q = e) \<and> m ! (n - 1 - (n - 1 - j + q))) [0..<Suc j]
      = parity (\<lambda>q. (q = b \<or> q = e) \<and> m ! (j - q)) [0..<Suc j]"
    by (rule parity_cong) (use "2.prems" in simp)
  also have "\<dots> = ((b \<le> j \<and> m ! (j - b)) \<noteq> (e \<le> j \<and> m ! (j - e)))"
    unfolding crossing_single [OF be(1)] by (subst (1 2) parity_at) auto
  finally have own: "parity (\<lambda>q. (q = b \<or> q = e) \<and> m ! (n - 1 - (n - 1 - j + q))) [0..<Suc j]
      = ((b \<le> j \<and> m ! (j - b)) \<noteq> (e \<le> j \<and> m ! (j - e)))" .
  have IH: "encode_all ls (encode b e m xs) ! j = (encode b e m xs ! j \<noteq> parity (\<lambda>q. crossing n ls q (n - 1 - j + q)) [0..<Suc j])"
    by (rule "2.IH") (use "2.prems" in simp_all)
  have "encode b e m xs ! j = (xs ! j \<noteq> ((b \<le> j \<and> m ! (j - b)) \<noteq> (e \<le> j \<and> m ! (j - e))))"
    by (rule encode_nth [OF be]) (use "2.prems" in simp)
  moreover have "parity (\<lambda>q. crossing n ((b, e, m) # ls) q (n - 1 - j + q)) [0..<Suc j]
      = (((b \<le> j \<and> m ! (j - b)) \<noteq> (e \<le> j \<and> m ! (j - e))) \<noteq> parity (\<lambda>q. crossing n ls q (n - 1 - j + q)) [0..<Suc j])"
    unfolding crossing.simps parity_xor own ..
  ultimately show ?case unfolding encode_all.simps using IH by blast
qed

lemma decode_all_nth:
  assumes "levels_ok n ls" and "length ys = n" and "j < n"
  shows "decode_all ls ys ! j = (ys ! j \<noteq> parity (\<lambda>q. crossing n ls q (q - 1 - j)) [Suc j..<Suc n])"
  using assms
proof (induction ls ys rule: decode_all.induct)
  case (1 ys)
  then show ?case by simp
next
  case (2 b e m ls ys)
  let ?zs = "decode_all ls ys"
  have be: "b < e" "e \<le> length ?zs" "length m = length ?zs" and n: "length ?zs = n" using "2.prems" by simp_all
  have "parity (\<lambda>q. (q = b \<or> q = e) \<and> m ! (n - 1 - (q - 1 - j))) [Suc j..<Suc n]
      = parity (\<lambda>q. (q = b \<or> q = e) \<and> m ! (n - q + j)) [Suc j..<Suc n]"
  proof (rule parity_cong)
    fix q assume "q \<in> set [Suc j..<Suc n]"
    then have "n - 1 - (q - 1 - j) = n - q + j" by auto
    then show "((q = b \<or> q = e) \<and> m ! (n - 1 - (q - 1 - j))) = ((q = b \<or> q = e) \<and> m ! (n - q + j))" by simp
  qed
  also have "\<dots> = ((j < b \<and> m ! (n - b + j)) \<noteq> (j < e \<and> m ! (n - e + j)))"
    unfolding crossing_single [OF be(1)] using be n by (subst (1 2) parity_at) auto
  finally have own: "parity (\<lambda>q. (q = b \<or> q = e) \<and> m ! (n - 1 - (q - 1 - j))) [Suc j..<Suc n]
      = ((j < b \<and> m ! (n - b + j)) \<noteq> (j < e \<and> m ! (n - e + j)))" .
  have IH: "?zs ! j = (ys ! j \<noteq> parity (\<lambda>q. crossing n ls q (q - 1 - j)) [Suc j..<Suc n])"
    by (rule "2.IH") (use "2.prems" in simp_all)
  have "decode b e m ?zs ! j = (?zs ! j \<noteq> ((j < b \<and> m ! (n - b + j)) \<noteq> (j < e \<and> m ! (n - e + j))))"
    using decode_nth [OF be, of j] "2.prems"(3) n by simp
  moreover have "parity (\<lambda>q. crossing n ((b, e, m) # ls) q (q - 1 - j)) [Suc j..<Suc n]
      = (((j < b \<and> m ! (n - b + j)) \<noteq> (j < e \<and> m ! (n - e + j))) \<noteq> parity (\<lambda>q. crossing n ls q (q - 1 - j)) [Suc j..<Suc n])"
    unfolding crossing.simps parity_xor own ..
  ultimately show ?case unfolding decode_all.simps using IH by blast
qed

theorem circuit_inverts:
  assumes "levels_ok n ls" and "length xs = n" and "length captured = n"
  shows "fst (scan ls captured (encode_all ls xs)) = xs" and "decode_all ls (snd (scan ls captured (encode_all ls xs))) = captured"
proof -
  have sent: "length (encode_all ls xs) = n" using assms by simp
  note eq = scan_eq [OF assms(3) sent, of ls]
  show "fst (scan ls captured (encode_all ls xs)) = xs"
  proof (rule nth_equalityI)
    show "length (fst (scan ls captured (encode_all ls xs))) = length xs" using assms(2) by (simp add: eq(1))
    fix j assume "j < length (fst (scan ls captured (encode_all ls xs)))"
    then have j: "j < n" by (simp add: eq(1))
    show "fst (scan ls captured (encode_all ls xs)) ! j = xs ! j"
      using encode_all_nth [OF assms(1,2) j] j unfolding eq(1) by (simp del: upt_Suc) blast
  qed
  let ?out = "snd (scan ls captured (encode_all ls xs))"
  have out: "length ?out = n" by (simp add: eq(2))
  show "decode_all ls ?out = captured"
  proof (rule nth_equalityI)
    show "length (decode_all ls ?out) = length captured" using assms(1,3) out by simp
    fix j assume "j < length (decode_all ls ?out)"
    then have j: "j < n" using assms(1) out by simp
    have "?out ! j = (captured ! j \<noteq> parity (\<lambda>q. crossing n ls q (q - 1 - j)) [Suc j..<Suc n])"
      using j unfolding eq(2) by (simp del: upt_Suc)
    then show "decode_all ls ?out ! j = captured ! j" using decode_all_nth [OF assms(1) out j] by blast
  qed
qed

end
