(* ===== verification/Data_Cycle.thy ===== *)
theory Data_Cycle
  imports Streamer_Circuit Requests Configuration
begin

text \<open>
  Data cycles: \<^verbatim>\<open>SystemModelManager_impl::DoHierarchicalDataCycle\<close> sends what is pending below an access
  interface through its protocol, \<^verbatim>\<open>DataCycleVisitor\<close> visits the access interfaces, and
  \<^verbatim>\<open>DoDataCycles_Impl\<close> repeats both until nothing is pending; \<^verbatim>\<open>iApply\<close> starts it. The circuit
  behind a protocol is a parameter: an object \<open>ProtocolObject\<close> per access interface acts on a state
  \<open>circuit\<close>, \<^verbatim>\<open>LoopbackAccessInterfaceProtocol\<close> is one such object. The threads that
  \<^verbatim>\<open>VisitAccessInterfaceTranslator\<close> starts are a parameter too. A run of the loop is modelled without
  application threads interleaving between two passes, and may not end: then the result is \<open>None\<close>.
\<close>

section \<open>Requests to a protocol\<close>

record RVFRequest =
  m_CallbackId :: string
  m_ToSutVector :: BinaryVector
  m_ExpectedData :: BinaryVector
  m_ExpectedMask :: BinaryVector
  m_FormattedData :: string
  m_interfaceData :: "nat option"
  m_optionalData :: "nat option"

definition RVFRequest_create :: "string \<Rightarrow> RVFRequest" where
  "RVFRequest_create callbackId =
    \<lparr>m_CallbackId = callbackId, m_ToSutVector = BinaryVector_empty, m_ExpectedData = BinaryVector_empty,
     m_ExpectedMask = BinaryVector_empty, m_FormattedData = [], m_interfaceData = None, m_optionalData = None\<rparr>"

definition RVFRequest_of_vector :: "string \<Rightarrow> BinaryVector \<Rightarrow> nat option \<Rightarrow> RVFRequest" where
  "RVFRequest_of_vector callbackId Vector interfaceData =
    (RVFRequest_create callbackId)\<lparr>m_ToSutVector := BinaryVector_copy (BinaryVector_copy Vector), m_interfaceData := interfaceData\<rparr>"

definition RVFRequest_copy :: "RVFRequest \<Rightarrow> RVFRequest" where
  "RVFRequest_copy q = q\<lparr>m_ToSutVector := BinaryVector_copy (m_ToSutVector q),
     m_ExpectedData := BinaryVector_copy (m_ExpectedData q), m_ExpectedMask := BinaryVector_copy (m_ExpectedMask q)\<rparr>"

definition SetExpectedData :: "BinaryVector \<Rightarrow> RVFRequest \<Rightarrow> RVFRequest result" where
  "SetExpectedData sequence q = rbind (assign_copy (m_ExpectedData q) (BinaryVector_copy sequence)) (\<lambda>v. Inr (q\<lparr>m_ExpectedData := v\<rparr>))"

definition SetExpectedMask :: "BinaryVector \<Rightarrow> RVFRequest \<Rightarrow> RVFRequest result" where
  "SetExpectedMask sequence q = rbind (assign_copy (m_ExpectedMask q) (BinaryVector_copy sequence)) (\<lambda>v. Inr (q\<lparr>m_ExpectedMask := v\<rparr>))"

abbreviation CSU :: string where
  "CSU \<equiv> ''CSU''"

abbreviation RUNLOOP :: string where
  "RUNLOOP \<equiv> ''RUNLOOP''"

abbreviation NO_MORE_PENDING :: string where
  "NO_MORE_PENDING \<equiv> ''AI_FINISHED''"


text \<open>
  \<open>PushRequest\<close> is present in the protocols that derive from \<^verbatim>\<open>AccessInterfaceRawProtocol\<close>, whose
  requests go to a queue of the parent translator.
\<close>

record 's ProtocolObject =
  DoCallback :: "RVFRequest \<Rightarrow> nat \<Rightarrow> ('s, BinaryVector) act"
  PushRequest :: "(RVFRequest \<Rightarrow> ('s, unit) act) option"

definition Loopback_DoCallback :: "RVFRequest \<Rightarrow> nat \<Rightarrow> ('s, BinaryVector) act" where
  "Loopback_DoCallback Request channelId = act_return (BinaryVector_copy (m_ToSutVector Request))"

definition Loopback :: "'s ProtocolObject" where
  "Loopback = \<lparr>DoCallback = Loopback_DoCallback, PushRequest = None\<rparr>"

section \<open>The manager and its bench\<close>

text \<open>
  The protocols of streamers and access interfaces are found under the address of their node; the
  application data a node carries is a pointer. A background thread that may be joined (\<open>m_joinable\<close>)
  is the thread that runs the data cycles.
\<close>

record ('s, 'k) Bench = Manager +
  streamer_protocols :: "nat \<Rightarrow> 'k StreamerProtocol option"
  interface_protocols :: "nat \<Rightarrow> nat option"
  node_data :: "NodeRef \<Rightarrow> nat option"
  m_ActiveStreamers :: "(nat \<times> nat \<times> nat) list"
  m_firstAccessNode :: "SystemTree option"
  m_constructionThreadId :: nat
  m_joinable :: bool
  m_runLoop :: bool
  m_KillAllThreads :: bool
  circuit :: 's

record ('s, 'k) Setup =
  null_slices :: bool
  slack_bytes :: "byte list"
  m_algorithm :: "ConfigurationAlgorithm option"
  drivers :: "nat \<Rightarrow> 's ProtocolObject"
  keystream :: "'k cipher_object"
  translator_cycle :: "SystemTree \<Rightarrow> (('s, 'k) Bench, unit) act"

fun node_ref :: "SystemTree \<Rightarrow> NodeRef" where
  "node_ref (RegisterLeaf a) = RegisterRef a"
| "node_ref (ParentTree cls a children) = ParentRef a"

definition on_circuit :: "('s, 'a) act \<Rightarrow> (('s, 'k) Bench, 'a) act" where
  "on_circuit a b = (case a (circuit b) of (res, s) \<Rightarrow> (res, b\<lparr>circuit := s\<rparr>))"

definition on_protocol :: "nat \<Rightarrow> ('k StreamerProtocol, 'a) act \<Rightarrow> (('s, 'k) Bench, 'a) act" where
  "on_protocol a act b = (case streamer_protocols b a of None \<Rightarrow> (Inl UndefinedBehaviour, b)
    | Some p \<Rightarrow> (case act p of (res, p') \<Rightarrow> (res, b\<lparr>streamer_protocols := (streamer_protocols b)(a \<mapsto> p')\<rparr>)))"

section \<open>Streamers of the active path\<close>

text \<open>A node that is no streamer, or a streamer without protocol, is used through a null pointer.\<close>

definition streamer_with_id :: "nat \<Rightarrow> ('s, 'k) Bench \<Rightarrow> nat result" where
  "streamer_with_id StreamerId b =
    rbind (NodeWithId (identifierMapping b) StreamerId) (\<lambda>node.
      case node of RegisterRef a \<Rightarrow> Inl UndefinedBehaviour
      | ParentRef a \<Rightarrow> if streamer_protocols b a = None then Inl UndefinedBehaviour else Inr a)"

definition ApplyStreamer :: "'k cipher_object \<Rightarrow> nat \<Rightarrow> nat \<Rightarrow> nat \<Rightarrow> BinaryVector \<Rightarrow> bool \<Rightarrow> (('s, 'k) Bench, BinaryVector) act" where
  "ApplyStreamer get_keystream before_bits EndOfProtectedBits StreamerId Vector isToSut =
    act_bind (act_read (\<lambda>_. protected_slice before_bits EndOfProtectedBits Vector)) (\<lambda>vector_protected.
    act_bind (act_read (streamer_with_id StreamerId)) (\<lambda>a.
      on_protocol a (Streamer_transform get_keystream before_bits EndOfProtectedBits Vector vector_protected isToSut)))"

fun encode_levels :: "'k cipher_object \<Rightarrow> (nat \<times> nat \<times> nat) list \<Rightarrow> BinaryVector \<Rightarrow> (('s, 'k) Bench, BinaryVector) act" where
  "encode_levels gk [] Vector = act_return Vector"
| "encode_levels gk ((before_bits, end_bits, ident) # rest) Vector =
    act_bind (ApplyStreamer gk before_bits end_bits ident Vector True) (\<lambda>chypher.
    act_bind (act_read (\<lambda>_. moved (assign_move Vector chypher))) (encode_levels gk rest))"

text \<open>The levels are taken from the back of \<open>m_ActiveStreamers\<close>, each removed once it is applied.\<close>

fun decode_levels :: "'k cipher_object \<Rightarrow> (nat \<times> nat \<times> nat) list \<Rightarrow> BinaryVector \<Rightarrow> (('s, 'k) Bench, BinaryVector) act" where
  "decode_levels gk [] fromSutVector = act_return fromSutVector"
| "decode_levels gk ((before_bits, end_bits, ident) # rest) fromSutVector =
    act_bind (act_read (streamer_with_id ident)) (\<lambda>_.
    act_bind (ApplyStreamer gk before_bits end_bits ident fromSutVector False) (\<lambda>plain_text.
    act_bind (act_read (\<lambda>_. moved (assign_move fromSutVector plain_text))) (\<lambda>v.
    act_then (act_modify (\<lambda>b. b\<lparr>m_ActiveStreamers := butlast (m_ActiveStreamers b)\<rparr>))
      (decode_levels gk rest v))))"

section \<open>One channel\<close>

definition call_protocol :: "('s, 'k) Setup \<Rightarrow> nat \<Rightarrow> RVFRequest \<Rightarrow> nat \<Rightarrow> (('s, 'k) Bench, BinaryVector) act" where
  "call_protocol cfg p request channelId = on_circuit (DoCallback (drivers cfg p) (RVFRequest_copy request) channelId)"

definition run_loop_request :: "('s, 'k) Setup \<Rightarrow> nat \<Rightarrow> SystemTree \<Rightarrow> nat \<Rightarrow> BinaryVector \<Rightarrow> (('s, 'k) Bench, unit) act" where
  "run_loop_request cfg p nextChannel channelId toSut =
    act_bind (act_read (\<lambda>b. iRunLoopCount (system b) nextChannel)) (\<lambda>iRunLoopcount.
      if iRunLoopcount > 0
      then act_bind (act_read (\<lambda>b. Inr (node_data b (node_ref nextChannel)))) (\<lambda>data.
           act_bind (call_protocol cfg p ((RVFRequest_of_vector RUNLOOP toSut data)\<lparr>m_optionalData := Some iRunLoopcount\<rparr>) channelId)
             (\<lambda>_. on_system (ResetiRunLoop nextChannel)))
      else act_return ())"

definition cycle_request :: "ToSutVisitor \<Rightarrow> BinaryVector \<Rightarrow> nat option \<Rightarrow> RVFRequest result" where
  "cycle_request visitor toSut data =
    (let cur_request = RVFRequest_of_vector CSU toSut data
     in if checkExpected visitor
        then rbind (SetExpectedData (expectedFromSut visitor) cur_request) (SetExpectedMask (dontCareMask visitor))
        else Inr cur_request)"

definition update_served :: "nat list \<Rightarrow> BinaryVector \<Rightarrow> (('s, 'k) Bench, unit) act" where
  "update_served activeRegs fromSutVector =
    act_then (\<lambda>b. on_system (on_registers (FromSut_UpdateRegisters (identifierMapping b) activeRegs fromSutVector)) b)
   (act_then (ReportServedRegisters activeRegs) ReleaseServedThreads)"

definition send_channel :: "('s, 'k) Setup \<Rightarrow> nat \<Rightarrow> SystemTree \<Rightarrow> nat \<Rightarrow> ToSutVisitor \<Rightarrow> (('s, 'k) Bench, unit) act" where
  "send_channel cfg p nextChannel channelId visitor =
    act_bind (\<lambda>b. encode_levels (keystream cfg) (m_ActiveStreamers b) (toSutVector visitor) b) (\<lambda>toSut.
    act_then (run_loop_request cfg p nextChannel channelId toSut)
   (act_bind (act_read (\<lambda>b. cycle_request visitor toSut (node_data b (node_ref nextChannel)))) (\<lambda>cur_request.
    act_bind (call_protocol cfg p cur_request channelId) (\<lambda>response.
    act_bind (act_read (\<lambda>_. moved (assign_move BinaryVector_empty response))) (\<lambda>fromSutVector.
    act_bind (\<lambda>b. decode_levels (keystream cfg) (rev (m_ActiveStreamers b)) fromSutVector b)
      (update_served (activeRegisters visitor)))))))"

definition local_visit :: "World \<Rightarrow> SystemTree \<Rightarrow> ToSutVisitor result" where
  "local_visit w nextChannel = (case ToSut w nextChannel (ToSutVisitor_create False) of (Inl e, _) \<Rightarrow> Inl e | (Inr _, v) \<Rightarrow> Inr v)"

definition do_channel :: "('s, 'k) Setup \<Rightarrow> nat \<Rightarrow> SystemTree \<Rightarrow> nat \<Rightarrow> (('s, 'k) Bench, unit) act" where
  "do_channel cfg p nextChannel channelId =
    act_bind (act_read (\<lambda>b. IsPending (system b) nextChannel)) (\<lambda>pending.
      if pending
      then act_bind (act_read (\<lambda>b. local_visit (system b) nextChannel)) (\<lambda>visitor.
           act_then (act_modify (\<lambda>b. b\<lparr>m_ActiveStreamers := activeStreamers visitor\<rparr>))
             (if IsEmpty (toSutVector visitor) then act_return () else send_channel cfg p nextChannel channelId visitor))
      else act_return ())"

fun do_channels :: "('s, 'k) Setup \<Rightarrow> nat \<Rightarrow> SystemTree list \<Rightarrow> nat \<Rightarrow> (('s, 'k) Bench, unit) act" where
  "do_channels cfg p [] channelId = act_return ()"
| "do_channels cfg p (nextChannel # siblings) channelId =
    act_then (do_channel cfg p nextChannel channelId) (do_channels cfg p siblings (u32 (channelId + 1)))"

section \<open>One pass over the access interfaces\<close>

definition release_translator :: "('s, 'k) Setup \<Rightarrow> nat option \<Rightarrow> (('s, 'k) Bench, unit) act" where
  "release_translator cfg protocol =
    (case protocol of None \<Rightarrow> act_return ()
     | Some p \<Rightarrow> (case PushRequest (drivers cfg p) of None \<Rightarrow> act_return ()
         | Some push \<Rightarrow> on_circuit (push (RVFRequest_copy (RVFRequest_create NO_MORE_PENDING)))))"

definition DoHierarchicalDataCycle :: "('s, 'k) Setup \<Rightarrow> nat \<Rightarrow> SystemTree list \<Rightarrow> (('s, 'k) Bench, unit) act" where
  "DoHierarchicalDataCycle cfg a children =
    act_bind (act_read (\<lambda>b. Inr (interface_protocols b a))) (\<lambda>protocol.
    act_bind (act_read (\<lambda>b. rbind (parent_at (system b) a) (\<lambda>nd. Inr (Node_IsPending nd)))) (\<lambda>pending.
    act_then (if pending
              then (case protocol of None \<Rightarrow> act_throw RuntimeError | Some p \<Rightarrow> do_channels cfg p children 1)
              else act_return ())
      (release_translator cfg protocol)))"

text \<open>
  The background thread cannot join itself: \<^verbatim>\<open>std::thread::join\<close> throws \<^verbatim>\<open>std::system_error\<close>, a
  runtime error.
\<close>

definition Stop :: "(('s, 'k) Bench, unit) act" where
  "Stop b = (let b1 = b\<lparr>m_runLoop := False\<rparr>
             in if m_joinable b
             then (Inl RuntimeError, b1) else (Inr (), b1\<lparr>m_managerThreadId := m_constructionThreadId b1\<rparr>))"

definition catching :: "(('s, 'k) Bench, unit) act \<Rightarrow> (('s, 'k) Bench, unit) act" where
  "catching cycle b = (case cycle b of
      (Inr u, b1) \<Rightarrow> (Inr u, b1)
    | (Inl e, b1) \<Rightarrow> if e = UndefinedBehaviour then (Inl e, b1) else Stop (b1\<lparr>m_KillAllThreads := True\<rparr>))"

fun DataCycle :: "('s, 'k) Setup \<Rightarrow> SystemTree \<Rightarrow> (('s, 'k) Bench, unit) act"
  and DataCycle_VisitChildren :: "('s, 'k) Setup \<Rightarrow> SystemTree list \<Rightarrow> (('s, 'k) Bench, unit) act" where
  "DataCycle cfg (RegisterLeaf a) = act_return ()"
| "DataCycle cfg (ParentTree cls a children) =
    (if cls = AccessInterfaceTranslator
     then act_bind (act_read (\<lambda>b. Inr (m_runLoop b))) (\<lambda>running.
            if running then translator_cycle cfg (ParentTree cls a children) else act_return ())
     else act_then (DataCycle_VisitChildren cfg children)
            (if cls = AccessInterface
             then act_bind (act_read (\<lambda>b. Inr (interface_protocols b a))) (\<lambda>protocol.
                    if protocol = None then act_throw RuntimeError else catching (DoHierarchicalDataCycle cfg a children))
             else act_return ()))"
| "DataCycle_VisitChildren cfg [] = act_return ()"
| "DataCycle_VisitChildren cfg (child # siblings) = act_then (DataCycle cfg child) (DataCycle_VisitChildren cfg siblings)"

section \<open>The loop\<close>

definition cycle_start :: "('s, 'k) Setup \<Rightarrow> SystemTree \<Rightarrow> (('s, 'k) Bench, bool) act" where
  "cycle_start cfg root =
    act_then (on_system (Configure (null_slices cfg) (slack_bytes cfg) (m_algorithm cfg) root))
   (act_then (on_system (PropagatePending root))
      (act_read (\<lambda>b. IsPending (system b) root)))"

partial_function (option) DataCycles_loop :: "('s, 'k) Setup \<Rightarrow> SystemTree \<Rightarrow> ('s, 'k) Bench \<Rightarrow> (unit result \<times> ('s, 'k) Bench) option" where
  "DataCycles_loop cfg root b =
    (case cycle_start cfg root b of
       (Inl e, b1) \<Rightarrow> Some (Inl e, b1)
     | (Inr doDataCycle, b1) \<Rightarrow>
         if doDataCycle
         then (case DataCycle cfg root b1 of
                 (Inl e, b2) \<Rightarrow> Some (Inl e, b2)
               | (Inr _, b2) \<Rightarrow> DataCycles_loop cfg root b2)
         else Some (Inr (), b1))"

definition DoDataCycles_Impl :: "('s, 'k) Setup \<Rightarrow> SystemTree \<Rightarrow> ('s, 'k) Bench \<Rightarrow> (unit result \<times> ('s, 'k) Bench) option" where
  "DoDataCycles_Impl cfg root b =
    (case DataCycles_loop cfg root b of None \<Rightarrow> None
     | Some (Inl e, b1) \<Rightarrow> Some (Inl e, b1) | Some (Inr _, b1) \<Rightarrow> Some (ReleaseServedThreads b1))"

fun is_access_node :: "SystemTree \<Rightarrow> bool" where
  "is_access_node (RegisterLeaf a) = False"
| "is_access_node (ParentTree cls a children) = (cls = AccessInterface \<or> cls = AccessInterfaceTranslator)"

fun GetFirstAccessNode :: "SystemTree option \<Rightarrow> SystemTree result" where
  "GetFirstAccessNode None = Inl RuntimeError"
| "GetFirstAccessNode (Some (RegisterLeaf a)) = Inl RuntimeError"
| "GetFirstAccessNode (Some (ParentTree cls a children)) =
    (if is_access_node (ParentTree cls a children) then Inr (ParentTree cls a children)
     else if cls = Chain \<and> children \<noteq> [] \<and> is_access_node (hd children) then Inr (ParentTree cls a children)
     else Inl RuntimeError)"

definition DoDataCycles :: "('s, 'k) Setup \<Rightarrow> nat \<Rightarrow> SystemTree option \<Rightarrow> ('s, 'k) Bench \<Rightarrow> (unit result \<times> ('s, 'k) Bench) option" where
  "DoDataCycles cfg threadId root b =
    (if threadId \<noteq> m_managerThreadId b then Some (Inl RuntimeError, b)
     else case (case m_firstAccessNode b of Some t \<Rightarrow> Inr t | None \<Rightarrow> GetFirstAccessNode root) of
       Inl e \<Rightarrow> Some (Inl e, b)
     | Inr t \<Rightarrow> (case root of None \<Rightarrow> Some (Inl UndefinedBehaviour, b\<lparr>m_firstAccessNode := Some t\<rparr>)
         | Some tree \<Rightarrow> DoDataCycles_Impl cfg tree (b\<lparr>m_firstAccessNode := Some t\<rparr>)))"

text \<open>Up to the point where an application thread waits, or to the end on the thread of the manager.\<close>

definition iApply :: "('s, 'k) Setup \<Rightarrow> nat \<Rightarrow> SystemTree option \<Rightarrow> ('s, 'k) Bench \<Rightarrow> (unit result \<times> ('s, 'k) Bench) option" where
  "iApply cfg threadId root b =
    (case act_then (with_app threadId (set_currentState InApply)) (ProcessQueuedRequests (null_slices cfg) (slack_bytes cfg) threadId) b of
       (Inl e, b1) \<Rightarrow> Some (Inl e, b1)
     | (Inr _, b1) \<Rightarrow>
         if threadId = m_managerThreadId b1
         then (case DoDataCycles cfg threadId root b1 of
                 Some (Inr _, b2) \<Rightarrow>
                   Some (if m_KillAllThreads b2 then (Inr (), b2) else with_app threadId (set_currentState Running) b2)
               | r \<Rightarrow> r)
         else Some (Report_pending threadId b1))"

end
