(* ===== verification/Cycle_Visits.thy ===== *)
theory Cycle_Visits
  imports Data_Cycle
begin

text \<open>
  Visits that update every register of a tree without linkers: what configuration and the reset of
  the run loops do to a chain of registers, that such a chain is always active, and which steps touch
  only the registry of threads.
\<close>

section \<open>Visits that update every register\<close>

definition changed :: "(Register \<Rightarrow> Register) \<Rightarrow> SystemTree list \<Rightarrow> World \<Rightarrow> World \<Rightarrow> bool" where
  "changed f ts w w' \<longleftrightarrow> registers w' = on_each f (forest_registers ts) (registers w) \<and> selectors w' = selectors w
    \<and> (\<forall>p. p \<notin> set (forest_parents ts) \<longrightarrow> parents w' p = parents w p)
    \<and> (\<forall>p. map_option uncounted (parents w' p) = map_option uncounted (parents w p))"

fun chain_tree :: "SystemTree \<Rightarrow> bool" where
  "chain_tree (RegisterLeaf a) = True"
| "chain_tree (ParentTree cls a children) = (cls = Chain \<and> Suc (length children) < 4294967296 \<and> (\<forall>c \<in> set children. chain_tree c))"

lemma changed_Nil [simp]: "changed f [] w w' \<longleftrightarrow> w' = w"
  by (auto simp: changed_def fun_eq_iff)

lemma changed_ok:
  assumes "forest_ok n w ts" and "changed f cs w w'" and "\<And>k r. reg_inv k r \<Longrightarrow> reg_inv k (f r)"
  shows "forest_ok n w' ts"
proof (rule forest_ok_cong [OF assms(1)])
  note c = assms(2) [unfolded changed_def]
  show "live_register n w' a" if "live_register n w a" for a
    using that c assms(3) by (auto simp: live_register_def on_each_def)
  show "parents w' q \<noteq> None" if "parents w q \<noteq> None" for q
    using that c by (metis map_option_is_None)
qed

lemma changed_Cons:
  assumes "forest_ok n w (c # cs)" and "changed f [c] w w1" and "changed f cs w1 w2"
  shows "changed f (c # cs) w w2"
proof -
  have disj: "set (tree_registers c) \<inter> set (forest_registers cs) = {}"
    using assms(1) forest_ok_simps(2) [of n w c cs] by simp
  show ?thesis using assms(2,3) disj unfolding changed_def by (simp add: on_each_append)
qed

lemma changed_parent:
  assumes "changed f cs w w1" and "parents w1 a = Some nd" and "\<And>nd. uncounted (g nd) = uncounted nd"
  shows "changed f [ParentTree cls a cs] w (w1\<lparr>parents := (parents w1)(a \<mapsto> g nd)\<rparr>)"
  using assms unfolding changed_def by auto (metis option.simps(9))

lemma changed_leaf:
  assumes "registers w a = Some r" and "f r = r'"
  shows "changed f [RegisterLeaf a] w (w\<lparr>registers := (registers w)(a \<mapsto> r')\<rparr>)"
  using assms by (auto simp: changed_def on_each_def fun_eq_iff)

lemma changed_alive: "changed f ts w w' \<Longrightarrow> parents w a \<noteq> None \<Longrightarrow> \<exists>nd. parents w' a = Some nd"
  unfolding changed_def by (metis not_Some_eq option.map_disc_iff)

text \<open>A visit of one tree lifts to lists of trees.\<close>

definition visits :: "(Register \<Rightarrow> Register) \<Rightarrow> (nat \<Rightarrow> nat) \<Rightarrow> (SystemTree \<Rightarrow> (World, unit) act) \<Rightarrow> SystemTree \<Rightarrow> bool" where
  "visits f n act t \<longleftrightarrow> (\<forall>w. tree_ok n w t \<longrightarrow> (\<exists>w'. act t w = (Inr (), w') \<and> changed f [t] w w'))"

locale updating_visit =
  fixes f :: "Register \<Rightarrow> Register"
    and act :: "SystemTree \<Rightarrow> (World, unit) act"
    and children :: "SystemTree list \<Rightarrow> (World, unit) act"
  assumes children_Nil: "children [] w = (Inr (), w)"
    and children_Cons: "children (c # cs) = act_then (act c) (children cs)"
    and keeps_inv: "reg_inv k r \<Longrightarrow> reg_inv k (f r)"
begin

lemma visits_children:
  assumes "\<And>c. c \<in> set cs \<Longrightarrow> visits f n act c" and "forest_ok n w cs"
  shows "\<exists>w'. children cs w = (Inr (), w') \<and> changed f cs w w'"
  using assms
proof (induction cs arbitrary: w)
  case Nil
  then show ?case using children_Nil by simp
next
  case (Cons c cs)
  have ok: "tree_ok n w c" "forest_ok n w cs" using Cons.prems(2) forest_ok_simps(2) [of n w c cs] by (simp_all add: tree_ok_def)
  obtain w1 where w1: "act c w = (Inr (), w1)" "changed f [c] w w1"
    using Cons.prems(1) [of c] ok(1) by (auto simp: visits_def)
  obtain w2 where w2: "children cs w1 = (Inr (), w2)" "changed f cs w1 w2"
    using Cons.IH [of w1] Cons.prems(1) changed_ok [OF ok(2) w1(2) keeps_inv] by auto
  have "children (c # cs) w = (Inr (), w2)" using w1(1) w2(1) children_Cons by (simp add: act_then_simps)
  then show ?case using changed_Cons [OF Cons.prems(2) w1(2) w2(2)] by blast
qed

lemma visits_leaf:
  assumes "\<And>k r. reg_inv k r \<Longrightarrow> m r = (Inr (), f r)" and "act (RegisterLeaf a) = on_register a m"
  shows "visits f n act (RegisterLeaf a)"
  unfolding visits_def
proof (intro allI impI)
  fix w assume "tree_ok n w (RegisterLeaf a)"
  then obtain r where r: "registers w a = Some r" "reg_inv (n a) r" by (auto simp: tree_ok_def forest_ok_simps(4) live_register_def)
  have "on_register a m w = (Inr (), w\<lparr>registers := (registers w)(a \<mapsto> f r)\<rparr>)"
    by (rule on_register_eq [where m = m and r' = "f r", OF r(1) assms(1) [OF r(2)]])
  then show "\<exists>w'. act (RegisterLeaf a) w = (Inr (), w') \<and> changed f [RegisterLeaf a] w w'"
    using changed_leaf [of w a r f, OF r(1) refl] assms(2) by auto
qed

end

lemma refreshed_inv: "reg_inv k r \<Longrightarrow> reg_inv k (refreshed r)"
  using refreshed_facts(2) by blast

interpretation reset_loops: updating_visit "SetiRunLoop 0" ResetiRunLoop ResetiRunLoop_VisitChildren
  by unfold_locales (simp_all add: reg_inv_def SetiRunLoop_def)

interpretation configure: updating_visit refreshed "Configure null slack algorithm" "ConfigureChildren null slack algorithm"
  for null slack algorithm
  by unfold_locales (simp_all add: refreshed_inv)

lemma ResetiRunLoop_visits: "chain_tree t \<Longrightarrow> visits (SetiRunLoop 0) n ResetiRunLoop t"
proof (induction t)
  case (RegisterLeaf a)
  show ?case by (rule reset_loops.visits_leaf) simp_all
next
  case (ParentTree cls a cs)
  show ?case unfolding visits_def
  proof (intro allI impI)
    fix w assume ok: "tree_ok n w (ParentTree cls a cs)"
    have sub: "forest_ok n w cs" "parents w a \<noteq> None" using ok by (simp_all add: tree_ok_def forest_ok_simps(3))
    have "\<exists>w1. ResetiRunLoop_VisitChildren cs w = (Inr (), w1) \<and> changed (SetiRunLoop 0) cs w w1"
      by (rule reset_loops.visits_children [OF _ sub(1)]) (use ParentTree in auto)
    then obtain w1 where w1: "ResetiRunLoop_VisitChildren cs w = (Inr (), w1)" "changed (SetiRunLoop 0) cs w w1" by blast
    obtain nd where nd: "parents w1 a = Some nd" using changed_alive [OF w1(2) sub(2)] by blast
    have "changed (SetiRunLoop 0) [ParentTree cls a cs] w (w1\<lparr>parents := (parents w1)(a \<mapsto> SetiRunLoop 0 nd)\<rparr>)"
      by (rule changed_parent [OF w1(2) nd]) (simp add: uncounted_def SetiRunLoop_def)
    then show "\<exists>w'. ResetiRunLoop (ParentTree cls a cs) w = (Inr (), w') \<and> changed (SetiRunLoop 0) [ParentTree cls a cs] w w'"
      using ParentTree.prems w1(1) at_parent_eq [OF nd] by (auto simp: act_then_simps)
  qed
qed

fun linker_free :: "SystemTree \<Rightarrow> bool" where
  "linker_free (RegisterLeaf a) = True"
| "linker_free (ParentTree cls a children) = (cls \<noteq> Linker \<and> (\<forall>c \<in> set children. linker_free c))"

lemma chain_linker_free: "chain_tree t \<Longrightarrow> linker_free t"
  by (induction t) auto

lemma tally_defined:
  assumes "forest_ok n w cs"
  shows "\<exists>j'. tally_pendings cs j w = Inr j'"
  using assms
proof (induction cs arbitrary: j)
  case (Cons c cs)
  have ok: "forest_ok n w [c]" "forest_ok n w cs" using Cons.prems forest_ok_simps(2) [of n w c cs] by simp_all
  have "\<exists>k. PendingCount w c = Inr k"
    using ok(1) by (cases c) (auto simp: forest_ok_simps(3,4) live_register_def register_at_def deref_def parent_at_def)
  then show ?case using Cons.IH [OF ok(2)] by auto
qed simp

lemma Configure_visits: "linker_free t \<Longrightarrow> visits refreshed n (Configure null slack algorithm) t"
proof (induction t)
  case (RegisterLeaf a)
  show ?case by (rule configure.visits_leaf [where m = Configure_VisitRegister]) (simp_all add: Configure_VisitRegister_eq)
next
  case (ParentTree cls a cs)
  show ?case unfolding visits_def
  proof (intro allI impI)
    fix w assume ok: "tree_ok n w (ParentTree cls a cs)"
    have sub: "forest_ok n w cs" "parents w a \<noteq> None" using ok by (simp_all add: tree_ok_def forest_ok_simps(3))
    have "\<exists>w1. ConfigureChildren null slack algorithm cs w = (Inr (), w1) \<and> changed refreshed cs w w1"
      by (rule configure.visits_children [OF _ sub(1)]) (use ParentTree in auto)
    then obtain w1 where w1: "ConfigureChildren null slack algorithm cs w = (Inr (), w1)" "changed refreshed cs w w1" by blast
    obtain nd where nd: "parents w1 a = Some nd" using changed_alive [OF w1(2) sub(2)] by blast
    obtain j where j: "tally_pendings cs 0 w1 = Inr j" using tally_defined [OF changed_ok [OF sub(1) w1(2) refreshed_inv]] by blast
    have "changed refreshed [ParentTree cls a cs] w (w1\<lparr>parents := (parents w1)(a \<mapsto> SetPendingCount j nd)\<rparr>)"
      by (rule changed_parent [OF w1(2) nd]) (simp add: uncounted_def SetPendingCount_def)
    then show "\<exists>w'. Configure null slack algorithm (ParentTree cls a cs) w = (Inr (), w') \<and> changed refreshed [ParentTree cls a cs] w w'"
      using ParentTree.prems w1(1) at_parent_eq [OF nd] j by (auto simp: act_then_simps act_bind_read)
  qed
qed

section \<open>Chains are always active\<close>

lemma chain_active:
  "chain_tree t \<Longrightarrow> active w t = tree_registers t \<and> levels n w off t = []"
proof (induction t arbitrary: off)
  case (ParentTree cls a cs)
  have "active_from w Chain a i ds = concat (map tree_registers ds)" "levels_from n w Chain a i off ds = []"
    if "set ds \<subseteq> set cs" for i off ds
    using that ParentTree by (induction ds arbitrary: i off) (auto simp: path_open_def)
  then show ?case using ParentTree.prems by simp
qed simp

lemma chain_visitable:
  assumes "chain_tree t" and "tree_ok n w t"
  shows "visitable n w t"
  using assms
proof (induction t)
  case (RegisterLeaf a)
  then show ?case by (simp add: tree_ok_def forest_ok_simps(4))
next
  case (ParentTree cls a cs)
  have "visitable_from n w Chain a i ds"
    if "set ds \<subseteq> set cs" "i + length ds < 4294967296" "forest_ok n w ds" for i ds
    using that
  proof (induction ds arbitrary: i)
    case (Cons d ds)
    have "tree_ok n w d" "forest_ok n w ds" using Cons.prems(3) forest_ok_simps(2) [of n w d ds] by (simp_all add: tree_ok_def)
    then show ?case using Cons ParentTree.IH [of d] ParentTree.prems(1) by simp
  qed simp
  then show ?case using ParentTree.prems by (simp add: tree_ok_def forest_ok_simps(3))
qed

section \<open>Registers that keep their values\<close>

definition harmless :: "(Register \<Rightarrow> Register) \<Rightarrow> bool" where
  "harmless f \<longleftrightarrow> (\<forall>k r. reg_inv k r \<longrightarrow> reg_inv k (f r)) \<and> (\<forall>r. m_identifier (f r) = m_identifier r
     \<and> m_dontCareMask (f r) = m_dontCareMask r \<and> m_nextToSut (f r) = m_nextToSut r \<and> m_lastToSut (f r) = m_lastToSut r
     \<and> m_pendingRead (f r) = m_pendingRead r)"

lemma harmless_updates: "harmless (SetiRunLoop 0)" "harmless refreshed" "harmless marked"
  by (auto simp: harmless_def SetiRunLoop_def refreshed_def SetPendingForWrite_def SetPendingCount_def marked_def SetPending_def reg_inv_def)

lemma harmlessD: "harmless f \<Longrightarrow> reg_inv k r \<Longrightarrow> reg_inv k (f r)"
  by (simp add: harmless_def)

lemma changed_register:
  assumes "changed f ts w w'" and "live_register n w a"
  shows "register_of w' a = (if a \<in> set (forest_registers ts) then f (register_of w a) else register_of w a)"
    "harmless f \<Longrightarrow> live_register n w' a"
  using assms by (auto simp: changed_def live_register_def register_of_def on_each_def harmless_def)

lemma changed_chain:
  assumes "harmless f" and "changed f ts w w'" and "chain_ok n w as"
  shows "chain_ok n w' as" "known ids w as \<Longrightarrow> known ids w' as" "idents w' as = idents w as"
proof -
  have live: "live_register n w a" "mask_fits (n a) (register_of w a)" if "a \<in> set as" for a using assms(3) that by (simp_all add: chain_ok_def)
  have r: "live_register n w' a" "mask_fits (n a) (register_of w' a)" "m_identifier (register_of w' a) = m_identifier (register_of w a)"
    if "a \<in> set as" for a
    using changed_register [OF assms(2) live(1) [OF that]] assms(1) live(2) [OF that] by (auto simp: harmless_def mask_fits_def)
  then show "chain_ok n w' as" "known ids w as \<Longrightarrow> known ids w' as" "idents w' as = idents w as"
    by (simp_all add: chain_ok_def known_def idents_def)
qed

section \<open>What only the registry of threads sees\<close>

definition registry_only :: "'a Manager_scheme \<Rightarrow> 'a Manager_scheme \<Rightarrow> bool" where
  "registry_only m m' \<longleftrightarrow> (\<exists>T R P. m' = m\<lparr>m_threadToAppData := T, m_regIdToAppData := R, m_pendingThreads := P\<rparr>)"

lemma registry_onlyI: "registry_only m (m\<lparr>m_threadToAppData := T, m_regIdToAppData := R, m_pendingThreads := P\<rparr>)"
  unfolding registry_only_def by blast

lemma registry_only_refl: "registry_only m m"
  unfolding registry_only_def
  by (rule exI [of _ "m_threadToAppData m"], rule exI [of _ "m_regIdToAppData m"], rule exI [of _ "m_pendingThreads m"]) simp

lemma registry_only_trans: "registry_only m m1 \<Longrightarrow> registry_only m1 m2 \<Longrightarrow> registry_only m m2"
  unfolding registry_only_def by fastforce

lemma registry_only_steps:
  "registry_only m (m\<lparr>m_threadToAppData := T\<rparr>)" "registry_only m (m\<lparr>m_pendingThreads := P\<rparr>)"
  "registry_only m (m\<lparr>m_threadToAppData := T, m_pendingThreads := P\<rparr>)"
  "registry_only m (m\<lparr>m_threadToAppData := T, m_regIdToAppData := R\<rparr>)"
  using registry_onlyI [where m = m and T = T and R = "m_regIdToAppData m" and P = "m_pendingThreads m"]
    registry_onlyI [where m = m and T = "m_threadToAppData m" and R = "m_regIdToAppData m" and P = P]
    registry_onlyI [where m = m and T = T and R = "m_regIdToAppData m" and P = P]
    registry_onlyI [where m = m and T = T and R = R and P = "m_pendingThreads m"] by simp_all

lemma with_app_registry_only: "registry_only m (snd (with_app t f m))"
  by (auto simp: with_app_def registry_only_steps registry_only_refl split: sum.split)

lemma ReportServedRegisters_only: "registry_only m (snd (ReportServedRegisters ids m))"
proof (induction ids arbitrary: m)
  case (Cons r ids)
  have "registry_only m (served r m)" unfolding served_def by (rule registry_only_steps)
  then show ?case using Cons.IH [of "served r m"] registry_only_trans registry_only_refl
    by (cases "RegisterWithId (identifierMapping m) r") (auto simp: act_bind_def act_then_simps)
qed (simp add: registry_only_refl)

lemma ReleaseServedThreads_loop_only: "registry_only m (snd (ReleaseServedThreads_loop ts m))"
proof (induction ts arbitrary: m)
  case (Cons t ts)
  show ?case
  proof (cases "m_threadToAppData m t")
    case None
    then show ?thesis by (simp add: act_bind_def ApplicationDataForThreadId_def registry_only_refl)
  next
    case (Some d)
    let ?m = "m\<lparr>m_threadToAppData := (m_threadToAppData m)(t \<mapsto> set_canProceed True d), m_pendingThreads := m_pendingThreads m - {t}\<rparr>"
    have "registry_only m ?m" by (rule registry_only_steps)
    then show ?thesis using Some Cons.IH [of ?m] Cons.IH [of m] registry_only_trans
      by (auto simp: act_bind_read ApplicationDataForThreadId_def act_then_simps with_app_known)
  qed
qed (simp add: registry_only_refl)

lemma registry_only_facts:
  assumes "registry_only m m'"
  shows "system m' = system m" "identifierMapping m' = identifierMapping m" "m_managerThreadId m' = m_managerThreadId m"
  using assms by (auto simp: registry_only_def)

lemma registry_only_bench:
  assumes "registry_only (b :: ('s, 'k) Bench) b'"
  shows "interface_protocols b' = interface_protocols b" "streamer_protocols b' = streamer_protocols b" "circuit b' = circuit b"
    "m_KillAllThreads b' = m_KillAllThreads b" "m_joinable b' = m_joinable b" "m_constructionThreadId b' = m_constructionThreadId b"
    "m_runLoop b' = m_runLoop b" "m_ActiveStreamers b' = m_ActiveStreamers b"
  using assms by (auto simp: registry_only_def)

section \<open>Serving registers and releasing threads\<close>

text \<open>After the registers of a channel are served, the waiting threads that wait for nothing else may go on.\<close>

definition served_threads :: "nat set \<Rightarrow> 'a Manager_scheme \<Rightarrow> 'a Manager_scheme \<Rightarrow> bool" where
  "served_threads ids m m' \<longleftrightarrow> registry_ok m' \<and> (\<forall>t. waits_for m' t = waits_for m t - ids)
    \<and> (\<forall>t. t \<in> m_pendingThreads m' \<longleftrightarrow> t \<in> m_pendingThreads m \<and> waits_for m' t \<noteq> {})
    \<and> (\<forall>t. may_proceed m' t \<longleftrightarrow> may_proceed m t \<or> t \<in> m_pendingThreads m \<and> waits_for m' t = {})
    \<and> (\<forall>t. m_threadToAppData m' t = None \<longleftrightarrow> m_threadToAppData m t = None)"

lemma ReportServed_domain: "m_threadToAppData (snd (ReportServedRegisters ids m)) t = None \<longleftrightarrow> m_threadToAppData m t = None"
proof (induction ids arbitrary: m)
  case (Cons r ids)
  have "m_threadToAppData (served r m) t = None \<longleftrightarrow> m_threadToAppData m t = None" by (simp add: served_def)
  then show ?case using Cons.IH [of "served r m"]
    by (cases "RegisterWithId (identifierMapping m) r") (auto simp: act_bind_def act_then_simps)
qed simp

lemma serve_and_release:
  assumes ok: "registry_ok m" and ids: "\<forall>r \<in> set ids. \<exists>reg. RegisterWithId (identifierMapping m) r = Inr reg"
  shows "\<exists>m'. act_then (ReportServedRegisters ids) ReleaseServedThreads m = (Inr (), m') \<and> served_threads (set ids) m m' \<and> registry_only m m'"
proof -
  obtain m1 where m1: "ReportServedRegisters ids m = (Inr (), m1)" using ReportServedRegisters_returns [OF ids] by blast
  have 1: "registry_ok m1" "m_pendingThreads m1 = m_pendingThreads m" "\<forall>t. may_proceed m1 t = may_proceed m t"
    "\<forall>t. waits_for m1 t = waits_for m t - set ids" using ReportServedRegisters_ok [OF ok m1] by auto
  obtain m2 where m2: "ReleaseServedThreads m1 = (Inr (), m2)" "released (m_pendingThreads m1) m1 m2" "registry_ok m2"
    using ReleaseServedThreads_eq [OF 1(1)] by blast
  have "registry_only m m1" using ReportServedRegisters_only [of m ids] m1 by simp
  moreover have "registry_only m1 m2" using ReleaseServedThreads_loop_only [of m1] m2(1) by (metis ReleaseServedThreads_def snd_conv)
  ultimately have "registry_only m m2" by (rule registry_only_trans)
  moreover have "served_threads (set ids) m m2"
    using 1 m2(2,3) ReportServed_domain [of ids m] m1 unfolding served_threads_def released_def by auto
  ultimately show ?thesis using m1 m2(1) by (auto simp: act_then_simps)
qed

lemma served_threads_trans:
  assumes "served_threads A m m1" and "served_threads B m1 m2" shows "served_threads (A \<union> B) m m2"
  using assms unfolding served_threads_def by auto

end
