(* ===== verification/Cycle_Channels.thy ===== *)
theory Cycle_Channels
  imports Cycle_Visits
begin

text \<open>
  The channels of an access interface that are chains of registers: what a protocol that answers makes
  of one channel and of all of them (the registers are settled, the threads that waited for them only
  are released).
\<close>

section \<open>Protocols that answer\<close>

text \<open>
  A protocol returns as many bits as it sends, as the circuit shifts one bit out for each bit shifted
  in, and accepts the request that releases a translator.
\<close>

definition answers :: "'s ProtocolObject \<Rightarrow> bool" where
  "answers drv \<longleftrightarrow> (\<forall>q channelId s xs. m_ToSutVector q = bv_make xs NotFixed \<longrightarrow> length xs < 4294967296
       \<longrightarrow> (\<exists>ys s'. DoCallback drv q channelId s = (Inr (bv_make ys NotFixed), s') \<and> length ys = length xs))
    \<and> (\<forall>push. PushRequest drv = Some push \<longrightarrow> (\<forall>q s. \<exists>s'. push q s = (Inr (), s')))"

text \<open>The contract of a driver, and the protocol for tests as an instance of it.\<close>

locale scan_interface =
  fixes drv :: "'s ProtocolObject"
  assumes replies: "m_ToSutVector q = bv_make xs NotFixed \<Longrightarrow> length xs < 4294967296
      \<Longrightarrow> \<exists>ys s'. DoCallback drv q channelId s = (Inr (bv_make ys NotFixed), s') \<and> length ys = length xs"
    and accepts: "PushRequest drv = Some push \<Longrightarrow> \<exists>s'. push r s = (Inr (), s')"
begin

lemma answering: "answers drv"
  using replies accepts by (simp add: answers_def)

end

interpretation loopback: scan_interface "Loopback :: 's ProtocolObject"
  by unfold_locales (simp_all add: Loopback_def Loopback_DoCallback_def)

definition bench_only :: "('s, 'k) Bench \<Rightarrow> ('s, 'k) Bench \<Rightarrow> bool" where
  "bench_only b b' \<longleftrightarrow> identifierMapping b' = identifierMapping b \<and> m_managerThreadId b' = m_managerThreadId b
    \<and> interface_protocols b' = interface_protocols b \<and> m_KillAllThreads b' = m_KillAllThreads b
    \<and> m_joinable b' = m_joinable b \<and> m_constructionThreadId b' = m_constructionThreadId b \<and> m_runLoop b' = m_runLoop b"

lemma bench_only_refl [simp]: "bench_only b b"
  by (simp add: bench_only_def)

lemma bench_only_trans: "bench_only b b1 \<Longrightarrow> bench_only b1 b2 \<Longrightarrow> bench_only b b2"
  by (simp add: bench_only_def)

lemma bench_only_registry: "registry_only (b :: ('s, 'k) Bench) b' \<Longrightarrow> bench_only b b'"
  using registry_only_facts [of b b'] registry_only_bench [of b b'] by (simp add: bench_only_def)

lemma on_system_eq: "a (system m) = (x, w') \<Longrightarrow> on_system a m = (x, m\<lparr>system := w'\<rparr>)"
  by (simp add: on_system_def)

lemma same_registry:
  assumes "m_threadToAppData b' = m_threadToAppData b" "m_pendingThreads b' = m_pendingThreads b"
    "m_regIdToAppData b' = m_regIdToAppData b"
  shows "waits_for b' t = waits_for b t" "may_proceed b' t = may_proceed b t" "registry_ok b' = registry_ok b"
    "served_threads A b' m = served_threads A b m"
proof -
  have w: "waits_for b' t = waits_for b t" and p: "may_proceed b' t = may_proceed b t" for t
    using assms by (simp_all add: waits_for_def may_proceed_def)
  show "waits_for b' t = waits_for b t" "may_proceed b' t = may_proceed b t" by (rule w, rule p)
  show "registry_ok b' = registry_ok b" "served_threads A b' m = served_threads A b m"
    using assms w p by (simp_all add: registry_ok_def served_threads_def)
qed

section \<open>The requests of a channel\<close>

lemma request_sent [simp]:
  "m_ToSutVector (RVFRequest_copy (RVFRequest_of_vector k (bv_make xs NotFixed) d)) = bv_make xs NotFixed"
  "m_ToSutVector (RVFRequest_copy ((RVFRequest_of_vector k (bv_make xs NotFixed) d)\<lparr>m_optionalData := x\<rparr>)) = bv_make xs NotFixed"
  by (simp_all add: RVFRequest_copy_def RVFRequest_of_vector_def)

lemma cycle_request_eq:
  assumes "v = collected ign xs es ms ids lv ce"
  shows "\<exists>q. cycle_request v (bv_make ys NotFixed) d = Inr q \<and> m_ToSutVector (RVFRequest_copy q) = bv_make ys NotFixed"
  by (simp add: assms cycle_request_def collected_def SetExpectedData_def SetExpectedMask_def RVFRequest_of_vector_def
      RVFRequest_create_def RVFRequest_copy_def BinaryVector_empty_make assign_copy_make Let_def)

lemma call_answered:
  assumes "answers (drivers cfg p)" and "m_ToSutVector (RVFRequest_copy q) = bv_make xs NotFixed" and "length xs < 4294967296"
  shows "\<exists>ys s. call_protocol cfg p q ch b = (Inr (bv_make ys NotFixed), b\<lparr>circuit := s\<rparr>) \<and> length ys = length xs"
proof -
  obtain ys s where "DoCallback (drivers cfg p) (RVFRequest_copy q) ch (circuit b) = (Inr (bv_make ys NotFixed), s)" "length ys = length xs"
    using assms unfolding answers_def by blast
  then show ?thesis by (auto simp: call_protocol_def on_circuit_def)
qed

definition idle_change :: "SystemTree \<Rightarrow> World \<Rightarrow> World \<Rightarrow> bool" where
  "idle_change c w w' \<longleftrightarrow> w' = w \<or> changed (SetiRunLoop 0) [c] w w'"

lemma run_loop_request_eq:
  assumes ok: "tree_ok n (system b) c" "chain_tree c" and ans: "answers (drivers cfg p)" and len: "length xs < 4294967296"
  shows "\<exists>w' s. run_loop_request cfg p c ch (bv_make xs NotFixed) b = (Inr (), b\<lparr>system := w', circuit := s\<rparr>) \<and> idle_change c (system b) w'"
proof -
  obtain k where k: "iRunLoopCount (system b) c = Inr k"
    using ok(1) by (cases c) (auto simp: tree_ok_def forest_ok_simps(3,4) live_register_def register_at_def deref_def parent_at_def)
  show ?thesis
  proof (cases "k > 0")
    case False
    have "run_loop_request cfg p c ch (bv_make xs NotFixed) b = (Inr (), b\<lparr>system := system b, circuit := circuit b\<rparr>)"
      using k False by (simp add: run_loop_request_def act_bind_read)
    then show ?thesis unfolding idle_change_def by blast
  next
    case True
    let ?q = "(RVFRequest_of_vector RUNLOOP (bv_make xs NotFixed) (node_data b (node_ref c)))\<lparr>m_optionalData := Some k\<rparr>"
    obtain ys s where call: "call_protocol cfg p ?q ch b = (Inr (bv_make ys NotFixed), b\<lparr>circuit := s\<rparr>)"
      using call_answered [OF ans request_sent(2) len] by blast
    obtain w' where w': "ResetiRunLoop c (system b) = (Inr (), w')" "changed (SetiRunLoop 0) [c] (system b) w'"
      using ResetiRunLoop_visits [OF ok(2)] ok(1) unfolding visits_def by blast
    have "run_loop_request cfg p c ch (bv_make xs NotFixed) b = on_system (ResetiRunLoop c) (b\<lparr>circuit := s\<rparr>)"
      using k True call by (simp add: run_loop_request_def act_bind_def)
    also have "\<dots> = (Inr (), b\<lparr>system := w', circuit := s\<rparr>)"
      using on_system_eq [of "ResetiRunLoop c" "b\<lparr>circuit := s\<rparr>" "Inr ()" w'] w'(1) by simp
    finally show ?thesis using w'(2) unfolding idle_change_def by blast
  qed
qed

section \<open>One channel\<close>

text \<open>What the world is after a channel was sent and its answer dealt out.\<close>

definition channel_change :: "(nat \<Rightarrow> nat) \<Rightarrow> SystemTree \<Rightarrow> bool list \<Rightarrow> World \<Rightarrow> World \<Rightarrow> bool" where
  "channel_change n c ys w w' \<longleftrightarrow> (\<exists>w1. idle_change c w w1
     \<and> w' = w1\<lparr>registers := dealt n (tree_registers c) ys (registers w1)\<rparr>)"

lemma idle_chain:
  assumes "idle_change c w w'" and "chain_ok n w as"
  shows "chain_ok n w' as" "known ids w as \<Longrightarrow> known ids w' as" "idents w' as = idents w as"
  using assms changed_chain [OF harmless_updates(1)] unfolding idle_change_def by blast+

lemma FromSut_eq:
  assumes "chain_ok n w as" and "known ids w as" and "distinct as" and "length ys = width_of n as" "length ys < 4294967296"
  shows "on_registers (FromSut_UpdateRegisters ids (idents w as) (bv_make ys NotFixed)) w
    = (Inr (), w\<lparr>registers := dealt n as ys (registers w)\<rparr>)"
  using UpdateRegisters_loop_eq [OF assms(1-3) assms(5), of 0 NotFixed] assms(4,5)
  by (simp add: on_registers_def FromSut_UpdateRegisters_def)

lemma idents_known:
  assumes "known ids w as" shows "\<forall>r \<in> set (idents w as). \<exists>reg. RegisterWithId ids r = Inr reg"
  using assms by (auto simp: known_def idents_def)

lemma send_channel_eq:
  fixes b :: "('s, 'k) Bench"
  assumes ok: "tree_ok n (system b) c" "chain_tree c" and ans: "answers (drivers cfg p)"
    and as: "as = tree_registers c" and ch: "chain_ok n (system b) as" "known (identifierMapping b) (system b) as"
    and len: "width_of n as + 7 < 4294967296" and reg: "registry_ok b" and none: "m_ActiveStreamers b = []"
    and v: "v = collected False xs es ms (idents (system b) as) [] ce" "length xs = width_of n as"
  shows "\<exists>b' ys. send_channel cfg p c k v b = (Inr (), b') \<and> length ys = width_of n as
    \<and> channel_change n c ys (system b) (system b') \<and> bench_only b b' \<and> served_threads (set (idents (system b) as)) b b'"
proof -
  have len': "length xs < 4294967296" using v(2) len by simp
  have toSut: "toSutVector v = bv_make xs NotFixed" "activeRegisters v = idents (system b) as" using v(1) by (simp_all add: collected_def)
  obtain w1 s1 where run: "run_loop_request cfg p c k (bv_make xs NotFixed) b = (Inr (), b\<lparr>system := w1, circuit := s1\<rparr>)"
    and idle: "idle_change c (system b) w1" using run_loop_request_eq [OF ok ans len'] by blast
  let ?b1 = "b\<lparr>system := w1, circuit := s1\<rparr>"
  obtain q where q: "cycle_request v (bv_make xs NotFixed) (node_data ?b1 (node_ref c)) = Inr q"
    "m_ToSutVector (RVFRequest_copy q) = bv_make xs NotFixed" using cycle_request_eq [OF v(1)] by blast
  obtain ys s2 where call: "call_protocol cfg p q k ?b1 = (Inr (bv_make ys NotFixed), ?b1\<lparr>circuit := s2\<rparr>)" and ys: "length ys = length xs"
    using call_answered [OF ans q(2) len'] by blast
  note idle' = idle_chain [OF idle ch(1)]
  let ?b2 = "?b1\<lparr>circuit := s2\<rparr>" and ?w = "w1\<lparr>registers := dealt n as ys (registers w1)\<rparr>"
  have dist: "distinct as" using ok(1) as by (simp add: tree_ok_def forest_ok_def)
  have upd: "on_registers (FromSut_UpdateRegisters (identifierMapping b) (idents (system b) as) (bv_make ys NotFixed)) w1 = (Inr (), ?w)"
    using FromSut_eq [OF idle'(1) idle'(2) [OF ch(2)] dist] idle'(3) ys v(2) len' by simp
  let ?b3 = "?b2\<lparr>system := ?w\<rparr>"
  have reg3: "registry_ok ?b3" "\<And>A m. served_threads A ?b3 m = served_threads A b m" using same_registry [of ?b3 b] reg by simp_all
  have "\<forall>r \<in> set (idents (system b) as). \<exists>rg. RegisterWithId (identifierMapping ?b3) r = Inr rg"
    using idents_known [OF ch(2)] by simp
  from serve_and_release [OF reg3(1) this] obtain b' where b': "act_then (ReportServedRegisters (idents (system b) as)) ReleaseServedThreads ?b3 = (Inr (), b')"
    "served_threads (set (idents (system b) as)) ?b3 b'" "registry_only ?b3 b'" by blast
  have served: "update_served (idents (system b) as) (bv_make ys NotFixed) ?b2 = (Inr (), b')"
    using b'(1) upd by (simp add: update_served_def act_then_simps on_system_eq)
  have "send_channel cfg p c k v b = (Inr (), b')"
    using toSut run q(1) call served none
    by (simp add: send_channel_def act_bind_def act_then_def BinaryVector_empty_make)
  moreover have "system b' = ?w" using registry_only_facts(1) [OF b'(3)] by simp
  moreover have "bench_only ?b3 b'" using bench_only_registry [OF b'(3)] .
  then have "bench_only b b'" by (simp add: bench_only_def)
  moreover have "served_threads (set (idents (system b) as)) b b'" using b'(2) reg3(2) by simp
  moreover have "channel_change n c ys (system b) ?w" unfolding channel_change_def using idle as by blast
  ultimately show ?thesis using ys v(2) by auto
qed

section \<open>Settled registers\<close>

definition settled :: "Register \<Rightarrow> bool" where
  "settled r \<longleftrightarrow> bits_of (m_nextToSut r) = bits_of (m_lastToSut r) \<and> \<not> m_pendingRead r"

definition carried :: "Register \<Rightarrow> Register \<Rightarrow> bool" where
  "carried r r' \<longleftrightarrow> m_identifier r' = m_identifier r \<and> m_dontCareMask r' = m_dontCareMask r
     \<and> bits_of (m_nextToSut r') = bits_of (m_nextToSut r)"

lemma carried_refl [simp]: "carried r r"
  by (simp add: carried_def)

lemma carried_trans: "carried r r1 \<Longrightarrow> carried r1 r2 \<Longrightarrow> carried r r2"
  by (simp add: carried_def)

lemma received_settled:
  assumes "reg_inv k r"
  shows "settled (received ys r)" "carried r (received ys r)"
proof -
  show "settled (received ys r)" by (simp add: settled_def received_def)
  show "carried r (received ys r)" by (simp add: carried_def received_def)
qed

definition passed :: "(nat \<Rightarrow> nat) \<Rightarrow> SystemTree list \<Rightarrow> World \<Rightarrow> World \<Rightarrow> bool" where
  "passed n cs w w' \<longleftrightarrow> (\<forall>a. a \<notin> set (forest_registers cs) \<longrightarrow> registers w' a = registers w a)
    \<and> (\<forall>a \<in> set (forest_registers cs). live_register n w' a \<and> settled (register_of w' a) \<and> carried (register_of w a) (register_of w' a))
    \<and> selectors w' = selectors w \<and> (\<forall>p. p \<notin> set (forest_parents cs) \<longrightarrow> parents w' p = parents w p)
    \<and> (\<forall>p. map_option uncounted (parents w' p) = map_option uncounted (parents w p))"

lemma passed_Cons:
  assumes ok: "forest_ok n w (c # cs)" and 1: "passed n [c] w w1" and 2: "passed n cs w1 w2"
  shows "passed n (c # cs) w w2"
proof -
  have disj: "set (tree_registers c) \<inter> set (forest_registers cs) = {}"
    using ok forest_ok_simps(2) [of n w c cs] by simp
  have a: "live_register n w2 a \<and> settled (register_of w2 a) \<and> carried (register_of w a) (register_of w2 a)"
    if "a \<in> set (tree_registers c) \<or> a \<in> set (forest_registers cs)" for a
  proof (cases "a \<in> set (tree_registers c)")
    case True
    then have "a \<notin> set (forest_registers cs)" using disj by blast
    then have "registers w2 a = registers w1 a" using 2 unfolding passed_def by blast
    then show ?thesis using 1 True by (simp add: passed_def live_register_def register_of_def)
  next
    case False
    then have "registers w1 a = registers w a" using 1 by (simp add: passed_def)
    moreover have "a \<in> set (forest_registers cs)" using False that by blast
    then have "live_register n w2 a \<and> settled (register_of w2 a) \<and> carried (register_of w1 a) (register_of w2 a)"
      using 2 unfolding passed_def by blast
    ultimately show ?thesis by (simp add: register_of_def)
  qed
  then show ?thesis using 1 2 unfolding passed_def by auto
qed

lemma dealt_register:
  assumes "a \<in> set as" and "registers w a = Some r"
  shows "dealt n as ys (registers w) a = Some (received (chunk n as a ys) r)"
  using assms by (simp add: dealt_def)

lemma length_chunk: "a \<in> set as \<Longrightarrow> length ys = width_of n as \<Longrightarrow> length (chunk n as a ys) = n a"
  by (induction as arbitrary: ys) (auto simp: width_of_def)

lemma channel_passed:
  assumes ch: "channel_change n c ys w w'" and ok: "tree_ok n w c" and len: "length ys = width_of n (tree_registers c)"
  shows "passed n [c] w w'"
proof -
  obtain w1 where w1: "idle_change c w w1" "w' = w1\<lparr>registers := dealt n (tree_registers c) ys (registers w1)\<rparr>"
    using ch by (auto simp: channel_change_def)
  have frame: "(\<forall>a. a \<notin> set (tree_registers c) \<longrightarrow> registers w1 a = registers w a) \<and> selectors w1 = selectors w
      \<and> (\<forall>p. p \<notin> set (tree_parents c) \<longrightarrow> parents w1 p = parents w p)
      \<and> (\<forall>p. map_option uncounted (parents w1 p) = map_option uncounted (parents w p))"
    using w1(1) by (auto simp: idle_change_def changed_def)
  have "live_register n w' a \<and> settled (register_of w' a) \<and> carried (register_of w a) (register_of w' a)"
    if a: "a \<in> set (tree_registers c)" for a
  proof -
    obtain r where r: "registers w a = Some r" "reg_inv (n a) r" using ok a by (auto simp: tree_ok_def forest_ok_def live_register_def)
    obtain r1 where r1: "registers w1 a = Some r1" "reg_inv (n a) r1" "carried r r1"
      using w1(1) r a harmlessD [OF harmless_updates(1) r(2)] by (auto simp: idle_change_def changed_def carried_def SetiRunLoop_def)
    let ?r = "received (chunk n (tree_registers c) a ys) r1"
    have "registers w' a = Some ?r" using dealt_register [OF a r1(1)] w1(2) by simp
    moreover have "reg_inv (n a) ?r" by (rule received_inv [OF r1(2) length_chunk [OF a len]])
    moreover have "settled ?r" "carried r ?r" using received_settled [OF r1(2)] r1(3) by (simp, blast intro: carried_trans)
    ultimately show ?thesis using r(1) by (simp add: live_register_def register_of_def)
  qed
  then show ?thesis using frame w1(2) by (auto simp: passed_def dealt_def)
qed

section \<open>A pass over the channels\<close>

text \<open>Threads that leave the set of waiting threads may proceed; no thread waits for more than before.\<close>

definition relieved :: "nat set \<Rightarrow> 'a Manager_scheme \<Rightarrow> 'a Manager_scheme \<Rightarrow> bool" where
  "relieved S m m' \<longleftrightarrow> registry_ok m' \<and> (\<forall>t. waits_for m' t = waits_for m t - S) \<and> m_pendingThreads m' \<subseteq> m_pendingThreads m
    \<and> (\<forall>t \<in> m_pendingThreads m. t \<notin> m_pendingThreads m' \<longrightarrow> waits_for m' t = {} \<and> may_proceed m' t)
    \<and> (\<forall>t. may_proceed m t \<longrightarrow> may_proceed m' t) \<and> (\<forall>t. m_threadToAppData m' t = None \<longleftrightarrow> m_threadToAppData m t = None)"

lemma relieved_refl: "registry_ok m \<Longrightarrow> relieved {} m m"
  by (simp add: relieved_def)

lemma relieved_trans:
  assumes 1: "relieved S m m1" and 2: "relieved S' m1 m2" shows "relieved (S \<union> S') m m2"
proof -
  have "waits_for m2 t = {} \<and> may_proceed m2 t" if "t \<in> m_pendingThreads m" "t \<notin> m_pendingThreads m2" for t
  proof (cases "t \<in> m_pendingThreads m1")
    case True
    then show ?thesis using 2 that(2) unfolding relieved_def by blast
  next
    case False
    then have "waits_for m1 t = {}" "may_proceed m1 t" using 1 that(1) unfolding relieved_def by blast+
    then show ?thesis using 2 by (auto simp: relieved_def)
  qed
  then show ?thesis using 1 2 unfolding relieved_def by auto
qed

lemma served_relieved: "served_threads S m m' \<Longrightarrow> relieved S m m'"
  unfolding served_threads_def relieved_def by auto

definition channels_ready :: "(nat \<Rightarrow> nat) \<Rightarrow> NodeRef option list \<Rightarrow> World \<Rightarrow> SystemTree list \<Rightarrow> bool" where
  "channels_ready n ids w cs \<longleftrightarrow> forest_ok n w cs
    \<and> (\<forall>c \<in> set cs. chain_tree c \<and> width_of n (tree_registers c) + 7 < 4294967296 \<and> PendingCount w c = Inr (pending_below w [c]))
    \<and> chain_ok n w (forest_registers cs) \<and> known ids w (forest_registers cs)
    \<and> (\<forall>a \<in> set (forest_registers cs). 0 < n a \<and> (Register_IsPending (register_of w a) \<longleftrightarrow> \<not> settled (register_of w a)))"

lemma local_visit_eq:
  assumes ok: "tree_ok n w c" "chain_tree c" and ch: "chain_ok n w (tree_registers c)" and len: "width_of n (tree_registers c) + 7 < 4294967296"
  shows "\<exists>xs es ms ce. local_visit w c = Inr (collected False xs es ms (idents w (tree_registers c)) [] ce) \<and> length xs = width_of n (tree_registers c)"
proof -
  note act = chain_active [OF ok(2), of w n 0]
  have start: "ToSutVisitor_create False = collected False [] [] [] [] [] False"
    by (simp add: ToSutVisitor_create_def collected_def BinaryVector_empty_make)
  then have al: "aligned False 0 (ToSutVisitor_create False)" unfolding aligned_def by fastforce
  have "ToSut w c (ToSutVisitor_create False) = (Inr (), extended False w (tree_registers c) [] (ToSutVisitor_create False))"
    using ToSut_collects(1) [OF chain_visitable [OF ok(2,1)] _ al] ch len act by simp
  then show ?thesis using length_chain_bits(1) [OF ch, of False]
    by (auto simp: local_visit_def extended_def start collected_def idents_def)
qed

lemma pending_exists: "pending_below w [c] \<noteq> 0 \<longleftrightarrow> (\<exists>a \<in> set (tree_registers c). Register_IsPending (register_of w a))"
  by (auto simp: pending_below_def register_of_def filter_empty_conv)

lemma IsPending_eq:
  assumes "tree_ok n w c" and "PendingCount w c = Inr (pending_below w [c])"
  shows "IsPending w c = Inr (\<exists>a \<in> set (tree_registers c). Register_IsPending (register_of w a))"
proof (cases c)
  case (RegisterLeaf a)
  then show ?thesis using assms(1)
    by (auto simp: tree_ok_def forest_ok_simps(4) live_register_def register_at_def deref_def register_of_def)
next
  case (ParentTree cls a cs)
  then obtain nd where "parents w a = Some nd" using assms(1) by (auto simp: tree_ok_def forest_ok_simps(3))
  then show ?thesis using assms(2) pending_exists [of w c] ParentTree
    by (auto simp: parent_at_def Node_IsPending_def)
qed

lemma width_pos: "as \<noteq> [] \<Longrightarrow> \<forall>a \<in> set as. 0 < n a \<Longrightarrow> 0 < width_of n as"
  by (cases as) (auto simp: width_of_def)

lemma do_channel_eq:
  fixes b :: "('s, 'k) Bench"
  assumes rdy: "channels_ready n (identifierMapping b) (system b) [c]" and ans: "answers (drivers cfg p)" and reg: "registry_ok b"
  shows "\<exists>b' S. do_channel cfg p c k b = (Inr (), b') \<and> passed n [c] (system b) (system b') \<and> bench_only b b' \<and> relieved S b b'
    \<and> (\<forall>a \<in> set (tree_registers c). \<not> settled (register_of (system b) a) \<longrightarrow> m_identifier (register_of (system b) a) \<in> S)"
proof -
  let ?w = "system b" and ?as = "tree_registers c"
  have r: "tree_ok n ?w c" "chain_tree c" "width_of n ?as + 7 < 4294967296" "PendingCount ?w c = Inr (pending_below ?w [c])"
    "chain_ok n ?w ?as" "known (identifierMapping b) ?w ?as" "\<forall>a \<in> set ?as. 0 < n a"
    "\<forall>a \<in> set ?as. Register_IsPending (register_of ?w a) \<longleftrightarrow> \<not> settled (register_of ?w a)"
    using rdy by (simp_all add: channels_ready_def tree_ok_def)
  note pend = IsPending_eq [OF r(1,4)]
  show ?thesis
  proof (cases "\<exists>a \<in> set ?as. Register_IsPending (register_of ?w a)")
    case False
    then have "do_channel cfg p c k b = (Inr (), b)" using pend by (simp add: do_channel_def act_bind_read)
    moreover have "passed n [c] ?w ?w" using False r(1,8) by (auto simp: passed_def tree_ok_def forest_ok_def)
    moreover have "\<forall>a \<in> set ?as. settled (register_of ?w a)" using False r(8) by blast
    ultimately show ?thesis using relieved_refl [OF reg] by auto
  next
    case True
    obtain xs es ms ce where v: "local_visit ?w c = Inr (collected False xs es ms (idents ?w ?as) [] ce)" "length xs = width_of n ?as"
      using local_visit_eq [OF r(1,2,5,3)] by blast
    have "?as \<noteq> []" using True by auto
    then have "xs \<noteq> []" using v(2) width_pos [OF _ r(7)] by auto
    let ?b = "b\<lparr>m_ActiveStreamers := []\<rparr>"
    have sends: "do_channel cfg p c k b = send_channel cfg p c k (collected False xs es ms (idents ?w ?as) [] ce) ?b"
      using pend True v(1) \<open>xs \<noteq> []\<close> by (simp add: do_channel_def act_bind_read act_then_simps) (simp add: collected_def)
    have reg': "registry_ok ?b" "\<And>A m. served_threads A ?b m = served_threads A b m" using same_registry [of ?b b] reg by simp_all
    obtain b' ys where b': "send_channel cfg p c k (collected False xs es ms (idents ?w ?as) [] ce) ?b = (Inr (), b')"
      "length ys = width_of n ?as" "channel_change n c ys ?w (system b')" "bench_only ?b b'" "served_threads (set (idents ?w ?as)) ?b b'"
      using send_channel_eq [of n ?b c cfg p ?as "collected False xs es ms (idents ?w ?as) [] ce" xs es ms ce k] r(1-3,5,6) ans reg'(1) v(2)
      by auto
    have "bench_only b b'" using b'(4) by (simp add: bench_only_def)
    moreover have "relieved (set (idents ?w ?as)) b b'" using served_relieved b'(5) reg'(2) by blast
    moreover have "\<forall>a \<in> set ?as. m_identifier (register_of ?w a) \<in> set (idents ?w ?as)" by (simp add: idents_def)
    ultimately show ?thesis using sends b'(1) channel_passed [OF b'(3) r(1) b'(2)] by auto
  qed
qed

lemma ready_tail:
  assumes rdy: "channels_ready n ids w (c # cs)" and p: "passed n [c] w w1"
  shows "channels_ready n ids w1 cs"
proof -
  have ok: "forest_ok n w cs" and disj: "set (tree_registers c) \<inter> set (forest_registers cs) = {}" "set (tree_parents c) \<inter> set (forest_parents cs) = {}"
    using rdy forest_ok_simps(2) [of n w c cs] by (simp_all add: channels_ready_def)
  have regs: "registers w1 a = registers w a" if "a \<in> set (forest_registers cs)" for a
  proof -
    have "a \<notin> set (forest_registers [c])" using that disj(1) by auto
    then show ?thesis using p unfolding passed_def by blast
  qed
  have pars: "parents w1 q = parents w q" if "q \<in> set (forest_parents cs)" for q
  proof -
    have "q \<notin> set (forest_parents [c])" using that disj(2) by auto
    then show ?thesis using p unfolding passed_def by blast
  qed
  have same: "register_of w1 a = register_of w a" "live_register n w1 a = live_register n w a" if "a \<in> set (forest_registers cs)" for a
    using regs [OF that] by (simp_all add: register_of_def live_register_def)
  have "forest_ok n w1 cs" by (rule forest_ok_cong [OF ok]) (use same pars in auto)
  moreover have "PendingCount w1 d = Inr (pending_below w1 [d])" if d: "d \<in> set cs" for d
  proof -
    have r: "registers w d' = registers w1 d'" if "d' \<in> set (tree_registers d)" for d'
    proof -
      have "d' \<in> set (forest_registers cs)" using that d by auto
      then show ?thesis using regs by simp
    qed
    have q: "parents w d' = parents w1 d'" if "d' \<in> set (tree_parents d)" for d'
    proof -
      have "d' \<in> set (forest_parents cs)" using that d by auto
      then show ?thesis using pars by simp
    qed
    have "PendingCount w d = PendingCount w1 d" by (rule counts_cong(1) [OF r q])
    moreover have "pending_below w [d] = pending_below w1 [d]" by (rule pending_below_cong) (use r in simp)
    ultimately show ?thesis using rdy d by (simp add: channels_ready_def)
  qed
  ultimately show ?thesis using rdy same unfolding channels_ready_def chain_ok_def known_def by auto
qed

lemma do_channels_eq:
  fixes b :: "('s, 'k) Bench"
  assumes "channels_ready n (identifierMapping b) (system b) cs" and ans: "answers (drivers cfg p)" and "registry_ok b"
  shows "\<exists>b' S. do_channels cfg p cs k b = (Inr (), b') \<and> passed n cs (system b) (system b') \<and> bench_only b b' \<and> relieved S b b'
    \<and> (\<forall>a \<in> set (forest_registers cs). \<not> settled (register_of (system b) a) \<longrightarrow> m_identifier (register_of (system b) a) \<in> S)"
  using assms(1,3)
proof (induction cs arbitrary: b k)
  case Nil
  then show ?case using relieved_refl [of b] by (auto simp: passed_def)
next
  case (Cons c cs)
  let ?w = "system b"
  have ok: "forest_ok n ?w (c # cs)" using Cons.prems(1) by (simp add: channels_ready_def)
  have "channels_ready n (identifierMapping b) ?w [c]"
    using Cons.prems(1) forest_ok_simps(2) [of n ?w c cs] by (auto simp: channels_ready_def known_def)
  from do_channel_eq [OF this ans Cons.prems(2)] obtain b1 S where b1: "do_channel cfg p c k b = (Inr (), b1)" "passed n [c] ?w (system b1)"
    "bench_only b b1" "relieved S b b1"
    "\<forall>a \<in> set (tree_registers c). \<not> settled (register_of ?w a) \<longrightarrow> m_identifier (register_of ?w a) \<in> S" by blast
  have "channels_ready n (identifierMapping b1) (system b1) cs"
    using ready_tail [OF Cons.prems(1) b1(2)] b1(3) by (simp add: bench_only_def)
  moreover have "registry_ok b1" using b1(4) by (simp add: relieved_def)
  ultimately obtain b2 S' where b2: "do_channels cfg p cs (u32 (k + 1)) b1 = (Inr (), b2)" "passed n cs (system b1) (system b2)"
    "bench_only b1 b2" "relieved S' b1 b2"
    "\<forall>a \<in> set (forest_registers cs). \<not> settled (register_of (system b1) a) \<longrightarrow> m_identifier (register_of (system b1) a) \<in> S'"
    using Cons.IH [of b1 "u32 (k + 1)"] by blast
  have same: "register_of (system b1) a = register_of ?w a" if "a \<in> set (forest_registers cs)" for a
  proof -
    have "set (tree_registers c) \<inter> set (forest_registers cs) = {}" using ok forest_ok_simps(2) [of n ?w c cs] by simp
    then have "a \<notin> set (forest_registers [c])" using that by auto
    then have "registers (system b1) a = registers ?w a" using b1(2) unfolding passed_def by blast
    then show ?thesis by (simp add: register_of_def)
  qed
  have "do_channels cfg p (c # cs) k b = (Inr (), b2)" using b1(1) b2(1) by (simp add: act_then_simps)
  moreover have "\<forall>a \<in> set (forest_registers (c # cs)). \<not> settled (register_of ?w a) \<longrightarrow> m_identifier (register_of ?w a) \<in> S \<union> S'"
    using b1(5) b2(5) same by auto
  ultimately show ?case
    using passed_Cons [OF ok b1(2) b2(2)] bench_only_trans [OF b1(3) b2(3)] relieved_trans [OF b1(4) b2(4)] by blast
qed

end
