(* ===== verification/Cycle_Loop.thy ===== *)
theory Cycle_Loop
  imports Cycle_Channels
begin

text \<open>
  The loop of the data cycles over one access interface with chains of registers: with a protocol that
  answers it returns, every register is settled and the waiting threads are released; with a protocol
  that throws it does not return.
\<close>

lemma same_relieved:
  assumes "m_threadToAppData b' = m_threadToAppData b" "m_pendingThreads b' = m_pendingThreads b"
    "m_regIdToAppData b' = m_regIdToAppData b"
  shows "relieved S b' m = relieved S b m" "relieved S m b' = relieved S m b"
  using same_registry(1-3) [OF assms] assms by (simp_all add: relieved_def)

section \<open>The start of a pass\<close>

lemma marked_refreshed [simp]: "marked (refreshed r) = refreshed r"
  by (simp add: marked_def refreshed_def SetPending_def SetPendingForWrite_def SetPendingCount_def)

lemma on_each_marked_refreshed: "on_each marked as (on_each refreshed as st) = on_each refreshed as st"
  by (rule ext) (simp add: on_each_def option.map_comp comp_def)

lemma refreshed_pending: "reg_inv k r \<Longrightarrow> Register_IsPending (refreshed r) \<longleftrightarrow> \<not> settled r"
  using refreshed_facts(5) by (auto simp: settled_def)

definition prepared :: "SystemTree \<Rightarrow> World \<Rightarrow> World \<Rightarrow> bool" where
  "prepared t w w' \<longleftrightarrow> changed refreshed [t] w w' \<and> (\<forall>s \<in> subtrees t. PendingCount w' s = Inr (pending_below w' [s]))"

lemma cycle_start_eq:
  assumes ok: "tree_ok n (system b) t" "linker_free t" and len: "length (tree_registers t) < 4294967296"
  shows "\<exists>w'. cycle_start cfg t b = (Inr (\<exists>a \<in> set (tree_registers t). \<not> settled (register_of (system b) a)), b\<lparr>system := w'\<rparr>)
    \<and> prepared t (system b) w'"
proof -
  let ?w = "system b"
  obtain w1 where w1: "Configure (null_slices cfg) (slack_bytes cfg) (m_algorithm cfg) t ?w = (Inr (), w1)" "changed refreshed [t] ?w w1"
    using Configure_visits [OF ok(2)] ok(1) unfolding visits_def by blast
  have ok1: "tree_ok n w1 t" using changed_ok [OF _ w1(2) refreshed_inv] ok(1) by (simp add: tree_ok_def)
  obtain w2 where w2: "PropagatePending t w1 = (Inr (), w2)" "propagated [t] w1 w2"
    using PropagatePending_eq [of n t] ok1 len unfolding propagates_def by blast
  have "changed refreshed [t] ?w w2"
    using w1(2) w2(2) unfolding changed_def propagated_def by (simp add: on_each_marked_refreshed)
  moreover have "PendingCount w2 s = Inr (pending_below w2 [s])" if "s \<in> subtrees t" for s
    using w2(2) that by (simp add: propagated_def counted_def)
  ultimately have prep: "prepared t ?w w2" unfolding prepared_def by blast
  have ok2: "tree_ok n w2 t" using changed_ok [OF _ _ refreshed_inv] ok(1) prep by (auto simp: tree_ok_def prepared_def)
  have "Register_IsPending (register_of w2 a) \<longleftrightarrow> \<not> settled (register_of ?w a)" if a: "a \<in> set (tree_registers t)" for a
  proof -
    have live: "live_register n ?w a" using ok(1) a by (simp add: tree_ok_def forest_ok_def)
    have "register_of w2 a = refreshed (register_of ?w a)" using changed_register(1) [OF _ live] prep a by (auto simp: prepared_def)
    moreover obtain r where "register_of ?w a = r" "reg_inv (n a) r" using live by (auto simp: live_register_def register_of_def)
    ultimately show ?thesis using refreshed_pending by metis
  qed
  then have "IsPending w2 t = Inr (\<exists>a \<in> set (tree_registers t). \<not> settled (register_of ?w a))"
    using IsPending_eq [OF ok2] prep by (simp add: prepared_def)
  then have "cycle_start cfg t b = (Inr (\<exists>a \<in> set (tree_registers t). \<not> settled (register_of ?w a)), b\<lparr>system := w2\<rparr>)"
    using w1(1) w2(1) by (simp add: cycle_start_def act_then_def act_bind_def on_system_def)
  then show ?thesis using prep by blast
qed

section \<open>The hypotheses of a run\<close>

definition interface_ready :: "(nat \<Rightarrow> nat) \<Rightarrow> ('s, 'k) Bench \<Rightarrow> nat \<Rightarrow> SystemTree list \<Rightarrow> bool" where
  "interface_ready n b a cs \<longleftrightarrow> tree_ok n (system b) (ParentTree AccessInterface a cs) \<and> length (forest_registers cs) < 4294967296
    \<and> (\<forall>c \<in> set cs. chain_tree c \<and> width_of n (tree_registers c) + 7 < 4294967296)
    \<and> chain_ok n (system b) (forest_registers cs) \<and> known (identifierMapping b) (system b) (forest_registers cs)
    \<and> (\<forall>x \<in> set (forest_registers cs). 0 < n x) \<and> registry_ok b"

lemma prepared_ready:
  assumes rdy: "interface_ready n b a cs" and prep: "prepared (ParentTree AccessInterface a cs) (system b) w'"
  shows "channels_ready n (identifierMapping b) w' cs"
    "x \<in> set (forest_registers cs) \<Longrightarrow> carried (register_of (system b) x) (register_of w' x)"
    "x \<in> set (forest_registers cs) \<Longrightarrow> settled (register_of w' x) = settled (register_of (system b) x)"
    "interface_ready n (b\<lparr>system := w'\<rparr>) a cs"
proof -
  let ?t = "ParentTree AccessInterface a cs" and ?w = "system b"
  have ch: "changed refreshed [?t] ?w w'" using prep by (simp add: prepared_def)
  note r = rdy [unfolded interface_ready_def]
  have live: "live_register n ?w x" if "x \<in> set (forest_registers cs)" for x using r that by (auto simp: chain_ok_def)
  have reg: "register_of w' x = refreshed (register_of ?w x)" if "x \<in> set (forest_registers cs)" for x
    using changed_register(1) [OF ch live [OF that]] that by simp
  show car: "carried (register_of ?w x) (register_of w' x)" if "x \<in> set (forest_registers cs)" for x
    by (simp add: reg [OF that] carried_def refreshed_def SetPendingForWrite_def SetPendingCount_def)
  show sett: "settled (register_of w' x) = settled (register_of ?w x)" if "x \<in> set (forest_registers cs)" for x
    by (simp add: reg [OF that] settled_def refreshed_def SetPendingForWrite_def SetPendingCount_def)
  have tree: "tree_ok n w' ?t" using changed_ok [OF _ ch refreshed_inv] r by (simp add: tree_ok_def)
  note chain = changed_chain [OF harmless_updates(2) ch, of n "forest_registers cs"]
  have "Register_IsPending (register_of w' x) \<longleftrightarrow> \<not> settled (register_of w' x)" if x: "x \<in> set (forest_registers cs)" for x
  proof -
    obtain q where "register_of ?w x = q" "reg_inv (n x) q" using live [OF x] by (auto simp: live_register_def register_of_def)
    then show ?thesis using refreshed_pending sett [OF x] reg [OF x] by metis
  qed
  moreover have "PendingCount w' c = Inr (pending_below w' [c])" if "c \<in> set cs" for c
  proof -
    have "c \<in> subtrees c" by simp
    then have "c \<in> subtrees ?t" using that unfolding subtrees.simps by blast
    then show ?thesis using prep unfolding prepared_def by blast
  qed
  moreover have "forest_ok n w' cs" using tree by (simp add: tree_ok_def forest_ok_simps(3))
  ultimately show "channels_ready n (identifierMapping b) w' cs" using r chain unfolding channels_ready_def by blast
  show "interface_ready n (b\<lparr>system := w'\<rparr>) a cs"
    using r chain tree same_registry(3) [of "b\<lparr>system := w'\<rparr>" b] unfolding interface_ready_def by simp
qed

section \<open>One pass\<close>

lemma DataCycle_chain: "chain_tree t \<Longrightarrow> DataCycle cfg t b = (Inr (), b)"
proof (induction t)
  case (ParentTree cls a cs)
  have "DataCycle_VisitChildren cfg ds b = (Inr (), b)" if "set ds \<subseteq> set cs" for ds
    using that ParentTree by (induction ds) (auto simp: act_then_simps)
  then show ?case using ParentTree.prems by (simp add: act_then_simps)
qed simp

lemma DataCycle_channels: "\<forall>c \<in> set cs. chain_tree c \<Longrightarrow> DataCycle_VisitChildren cfg cs b = (Inr (), b)"
  by (induction cs) (auto simp: act_then_simps DataCycle_chain)

lemma release_translator_eq:
  assumes "answers (drivers cfg p)"
  shows "\<exists>s. release_translator cfg (Some p) b = (Inr (), b\<lparr>circuit := s\<rparr>)"
proof (cases "PushRequest (drivers cfg p)")
  case None
  then have "release_translator cfg (Some p) b = (Inr (), b\<lparr>circuit := circuit b\<rparr>)" by (simp add: release_translator_def)
  then show ?thesis by blast
next
  case (Some push)
  then obtain s where "push (RVFRequest_copy (RVFRequest_create NO_MORE_PENDING)) (circuit b) = (Inr (), s)"
    using assms unfolding answers_def by blast
  then show ?thesis using Some by (auto simp: release_translator_def on_circuit_def)
qed

lemma DataCycle_eq:
  fixes b :: "('s, 'k) Bench"
  assumes rdy: "channels_ready n (identifierMapping b) (system b) cs" and reg: "registry_ok b" and chains: "\<forall>c \<in> set cs. chain_tree c"
    and p: "interface_protocols b a = Some p" "answers (drivers cfg p)"
    and pend: "parents (system b) a = Some nd" "Node_IsPending nd"
  shows "\<exists>b' S. DataCycle cfg (ParentTree AccessInterface a cs) b = (Inr (), b') \<and> passed n cs (system b) (system b') \<and> bench_only b b'
    \<and> relieved S b b'
    \<and> (\<forall>x \<in> set (forest_registers cs). \<not> settled (register_of (system b) x) \<longrightarrow> m_identifier (register_of (system b) x) \<in> S)"
proof -
  obtain b1 S where b1: "do_channels cfg p cs 1 b = (Inr (), b1)" "passed n cs (system b) (system b1)" "bench_only b b1" "relieved S b b1"
    "\<forall>x \<in> set (forest_registers cs). \<not> settled (register_of (system b) x) \<longrightarrow> m_identifier (register_of (system b) x) \<in> S"
    using do_channels_eq [OF rdy p(2) reg] by blast
  obtain s where s: "release_translator cfg (Some p) b1 = (Inr (), b1\<lparr>circuit := s\<rparr>)" using release_translator_eq [OF p(2)] by blast
  have "DoHierarchicalDataCycle cfg a cs b = (Inr (), b1\<lparr>circuit := s\<rparr>)"
    using p(1) pend b1(1) s by (simp add: DoHierarchicalDataCycle_def act_bind_def act_then_def parent_at_def)
  then have "DataCycle cfg (ParentTree AccessInterface a cs) b = (Inr (), b1\<lparr>circuit := s\<rparr>)"
    using p(1) by (simp add: act_then_def act_bind_def catching_def DataCycle_channels [OF chains])
  moreover have "relieved S b (b1\<lparr>circuit := s\<rparr>)"
    using b1(4) same_relieved(2) [of "b1\<lparr>circuit := s\<rparr>" b1] by simp
  moreover have "bench_only b (b1\<lparr>circuit := s\<rparr>)" using b1(3) by (simp add: bench_only_def)
  ultimately show ?thesis using b1(2,5) by fastforce
qed

section \<open>The loop returns\<close>

lemma passed_ready:
  assumes rdy: "interface_ready n b a cs" and p: "passed n cs (system b) (system b')" and o: "bench_only b b'" and reg: "registry_ok b'"
  shows "interface_ready n b' a cs"
proof -
  note r = rdy [unfolded interface_ready_def]
  let ?w = "system b" and ?w' = "system b'"
  have x: "live_register n ?w' x" "carried (register_of ?w x) (register_of ?w' x)" if "x \<in> set (forest_registers cs)" for x
    using p that unfolding passed_def by blast+
  have pars: "parents ?w' q \<noteq> None" if "parents ?w q \<noteq> None" for q
  proof -
    have "map_option uncounted (parents ?w' q) = map_option uncounted (parents ?w q)" using p unfolding passed_def by blast
    then show ?thesis using that by auto
  qed
  have "forest_ok n ?w' [ParentTree AccessInterface a cs]"
    by (rule forest_ok_cong [of n ?w]) (use r x pars in \<open>auto simp: tree_ok_def\<close>)
  moreover have "chain_ok n ?w' (forest_registers cs)"
    using r x unfolding chain_ok_def mask_fits_def carried_def by metis
  moreover have "known (identifierMapping b') ?w' (forest_registers cs)"
    using r x o unfolding known_def carried_def bench_only_def by metis
  ultimately show ?thesis using r reg unfolding interface_ready_def by (simp add: tree_ok_def)
qed

definition finished :: "(nat \<Rightarrow> nat) \<Rightarrow> SystemTree list \<Rightarrow> ('s, 'k) Bench \<Rightarrow> ('s, 'k) Bench \<Rightarrow> bool" where
  "finished n cs b b' \<longleftrightarrow> (\<forall>x \<in> set (forest_registers cs). live_register n (system b') x \<and> settled (register_of (system b') x)
      \<and> carried (register_of (system b) x) (register_of (system b') x))
    \<and> bench_only b b' \<and> (\<exists>S. relieved S b b' \<and> (\<forall>x \<in> set (forest_registers cs). \<not> settled (register_of (system b) x)
        \<longrightarrow> m_identifier (register_of (system b) x) \<in> S))"

lemma linker_free_interface: "\<forall>c \<in> set cs. chain_tree c \<Longrightarrow> linker_free (ParentTree AccessInterface a cs)"
  using chain_linker_free by simp

lemma loop_settled:
  fixes b :: "('s, 'k) Bench"
  assumes rdy: "interface_ready n b a cs" and sett: "\<forall>x \<in> set (forest_registers cs). settled (register_of (system b) x)"
  shows "\<exists>b'. DataCycles_loop cfg (ParentTree AccessInterface a cs) b = Some (Inr (), b') \<and> finished n cs b b'"
proof -
  let ?t = "ParentTree AccessInterface a cs"
  note r = rdy [unfolded interface_ready_def]
  obtain w' where w': "cycle_start cfg ?t b = (Inr False, b\<lparr>system := w'\<rparr>)" "prepared ?t (system b) w'"
    using cycle_start_eq [of n b ?t cfg] linker_free_interface [of cs a] r sett by auto
  have "DataCycles_loop cfg ?t b = Some (Inr (), b\<lparr>system := w'\<rparr>)" using w'(1) by (simp add: DataCycles_loop.simps)
  moreover have "relieved {} b (b\<lparr>system := w'\<rparr>)"
    using r same_relieved(2) [of "b\<lparr>system := w'\<rparr>" b] relieved_refl [of b] by simp
  moreover have "live_register n w' x" if "x \<in> set (forest_registers cs)" for x
    using prepared_ready(4) [OF rdy w'(2)] that unfolding interface_ready_def chain_ok_def by simp blast
  ultimately show ?thesis
    using prepared_ready(2,3) [OF rdy w'(2)] sett unfolding finished_def by (auto simp: bench_only_def)
qed

lemma loop_returns:
  fixes b :: "('s, 'k) Bench"
  assumes rdy: "interface_ready n b a cs" and p: "interface_protocols b a = Some p" "answers (drivers cfg p)"
  shows "\<exists>b'. DataCycles_loop cfg (ParentTree AccessInterface a cs) b = Some (Inr (), b') \<and> finished n cs b b'"
proof (cases "\<forall>x \<in> set (forest_registers cs). settled (register_of (system b) x)")
  case True
  then show ?thesis by (rule loop_settled [OF rdy])
next
  case False
  let ?t = "ParentTree AccessInterface a cs"
  note r = rdy [unfolded interface_ready_def]
  have ex: "(\<exists>x \<in> set (tree_registers ?t). \<not> settled (register_of (system b) x)) = True" using False by simp
  obtain w' where w': "cycle_start cfg ?t b = (Inr True, b\<lparr>system := w'\<rparr>)" "prepared ?t (system b) w'"
    using cycle_start_eq [of n b ?t cfg, unfolded ex] linker_free_interface [of cs a] r by auto
  let ?b1 = "b\<lparr>system := w'\<rparr>"
  note prep = prepared_ready [OF rdy w'(2)]
  have reg1: "registry_ok ?b1" using prep(4) by (simp add: interface_ready_def)
  obtain nd where nd: "parents w' a = Some nd" "Node_IsPending nd"
  proof -
    have ok: "tree_ok n w' ?t" using prep(4) by (simp add: interface_ready_def)
    have count: "PendingCount w' ?t = Inr (pending_below w' [?t])" using w'(2) by (simp add: prepared_def)
    have "\<exists>x \<in> set (tree_registers ?t). Register_IsPending (register_of w' x)"
      using False prep(1,3) unfolding channels_ready_def by auto
    then have "IsPending w' ?t = Inr True" using IsPending_eq [OF ok count] by simp
    then show ?thesis using that by (auto simp: parent_at_def split: option.splits)
  qed
  obtain b2 S where b2: "DataCycle cfg ?t ?b1 = (Inr (), b2)" "passed n cs w' (system b2)" "bench_only ?b1 b2" "relieved S ?b1 b2"
    "\<forall>x \<in> set (forest_registers cs). \<not> settled (register_of w' x) \<longrightarrow> m_identifier (register_of w' x) \<in> S"
    using DataCycle_eq [of n ?b1 cs a p cfg nd] prep(1) reg1 r p nd by auto
  have reg2: "registry_ok b2" using b2(4) by (simp add: relieved_def)
  have rdy2: "interface_ready n b2 a cs" by (rule passed_ready [OF prep(4) _ b2(3) reg2]) (use b2(2) in simp)
  have "\<forall>x \<in> set (forest_registers cs). settled (register_of (system b2) x)" using b2(2) unfolding passed_def by blast
  from loop_settled [OF rdy2 this] obtain b3 where b3: "DataCycles_loop cfg ?t b2 = Some (Inr (), b3)" "finished n cs b2 b3" by blast
  have "DataCycles_loop cfg ?t b = DataCycles_loop cfg ?t b2" 
    by (subst DataCycles_loop.simps) (simp add: w'(1) b2(1) del: DataCycle.simps)
  moreover have "finished n cs b b3"
  proof -
    have "bench_only b b2" using b2(3) by (simp add: bench_only_def)
    then have only: "bench_only b b3" using b3(2) bench_only_trans unfolding finished_def by blast
    obtain S' where S': "relieved S' b2 b3" using b3(2) unfolding finished_def by blast
    have "relieved S b b2" using b2(4) same_relieved(1) [of ?b1 b] by simp
    then have rel: "relieved (S \<union> S') b b3" using S' relieved_trans by blast
    have ids: "m_identifier (register_of (system b) x) \<in> S" if "x \<in> set (forest_registers cs)" "\<not> settled (register_of (system b) x)" for x
    proof -
      have "\<not> settled (register_of w' x)" using prep(3) that by simp
      then have "m_identifier (register_of w' x) \<in> S" using b2(5) that(1) by blast
      then show ?thesis using prep(2) [OF that(1)] by (simp add: carried_def)
    qed
    have "carried (register_of (system b) x) (register_of (system b3) x)" if "x \<in> set (forest_registers cs)" for x
    proof -
      have "carried (register_of w' x) (register_of (system b2) x)" using b2(2) that unfolding passed_def by blast
      moreover have "carried (register_of (system b2) x) (register_of (system b3) x)" using b3(2) that unfolding finished_def by blast
      ultimately show ?thesis using prep(2) [OF that] carried_trans by blast
    qed
    then show ?thesis using b3(2) only rel ids unfolding finished_def by blast
  qed
  ultimately show ?thesis using b3(1) by auto
qed

text \<open>With the release of the threads that waited for nothing else.\<close>

definition waits_below :: "('s, 'k) Bench \<Rightarrow> nat list \<Rightarrow> nat \<Rightarrow> bool" where
  "waits_below b as t \<longleftrightarrow> (\<forall>i \<in> waits_for b t. \<exists>x \<in> set as. m_identifier (register_of (system b) x) = i \<and> \<not> settled (register_of (system b) x))"

lemma DoDataCycles_Impl_eq:
  fixes b :: "('s, 'k) Bench"
  assumes rdy: "interface_ready n b a cs" and p: "interface_protocols b a = Some p" "answers (drivers cfg p)"
  shows "\<exists>b'. DoDataCycles_Impl cfg (ParentTree AccessInterface a cs) b = Some (Inr (), b') \<and> finished n cs b b'
    \<and> (\<forall>t \<in> m_pendingThreads b. waits_below b (forest_registers cs) t \<longrightarrow> t \<notin> m_pendingThreads b' \<and> may_proceed b' t)"
proof -
  obtain b1 where b1: "DataCycles_loop cfg (ParentTree AccessInterface a cs) b = Some (Inr (), b1)" "finished n cs b b1"
    using loop_returns [OF assms] by blast
  obtain S where S: "relieved S b b1"
    "\<forall>x \<in> set (forest_registers cs). \<not> settled (register_of (system b) x) \<longrightarrow> m_identifier (register_of (system b) x) \<in> S"
    using b1(2) unfolding finished_def by blast
  obtain b2 where b2: "ReleaseServedThreads b1 = (Inr (), b2)" "released (m_pendingThreads b1) b1 b2" "registry_ok b2"
    using ReleaseServedThreads_eq [of b1] S(1) by (auto simp: relieved_def)
  have only: "registry_only b1 b2" using ReleaseServedThreads_loop_only [of b1] b2(1) by (metis ReleaseServedThreads_def snd_conv)
  have rel: "relieved {} b1 b2" using b2(2,3) unfolding released_def relieved_def by auto
  have "DoDataCycles_Impl cfg (ParentTree AccessInterface a cs) b = Some (Inr (), b2)" using b1(1) b2(1) by (simp add: DoDataCycles_Impl_def)
  moreover have "finished n cs b b2"
  proof -
    have "relieved S b b2" using relieved_trans [OF S(1) rel] by simp
    moreover have "bench_only b b2" using b1(2) bench_only_trans [OF _ bench_only_registry [OF only]] unfolding finished_def by blast
    ultimately show ?thesis using b1(2) S(2) registry_only_facts(1) [OF only] by (simp add: finished_def) blast
  qed
  moreover have "t \<notin> m_pendingThreads b2 \<and> may_proceed b2 t" if t: "t \<in> m_pendingThreads b" "waits_below b (forest_registers cs) t" for t
  proof -
    have "waits_for b t \<subseteq> S"
    proof
      fix i assume "i \<in> waits_for b t"
      then obtain x where x: "x \<in> set (forest_registers cs)" "m_identifier (register_of (system b) x) = i" "\<not> settled (register_of (system b) x)"
        using t(2) unfolding waits_below_def by blast
      have "m_identifier (register_of (system b) x) \<in> S" using S(2) x(1,3) by blast
      then show "i \<in> S" by (simp only: x(2))
    qed
    then have w: "waits_for b1 t = {}" using S(1) unfolding relieved_def by blast
    show ?thesis
    proof (cases "t \<in> m_pendingThreads b1")
      case True
      then show ?thesis using w b2(2) unfolding released_def by blast
    next
      case False
      then have "may_proceed b1 t" using S(1) t(1) unfolding relieved_def by blast
      then show ?thesis using b2(2) False unfolding released_def by blast
    qed
  qed
  ultimately show ?thesis by blast
qed

section \<open>A protocol that throws\<close>

text \<open>
  A protocol that throws: \<^verbatim>\<open>DataCycleVisitor::VisitAccessInterface\<close> swallows the exception and asks the
  manager to stop, but the loop of \<^verbatim>\<open>DoDataCycles_Impl\<close> only looks at the pending registers, which are
  still pending. Without a background thread the loop never ends.
\<close>

definition refuses :: "'s ProtocolObject \<Rightarrow> bool" where
  "refuses drv \<longleftrightarrow> (\<forall>q channelId s. \<exists>e s'. DoCallback drv q channelId s = (Inl e, s') \<and> e \<noteq> UndefinedBehaviour)"

definition only_circuit :: "('s, 'k) Bench \<Rightarrow> ('s, 'k) Bench \<Rightarrow> bool" where
  "only_circuit b b' \<longleftrightarrow> (\<exists>s L. b' = b\<lparr>circuit := s, m_ActiveStreamers := L\<rparr>)"

lemma call_refused:
  assumes "refuses (drivers cfg p)"
  shows "\<exists>e s. call_protocol cfg p q k b = (Inl e, b\<lparr>circuit := s\<rparr>) \<and> e \<noteq> UndefinedBehaviour"
proof -
  obtain e s where "DoCallback (drivers cfg p) (RVFRequest_copy q) k (circuit b) = (Inl e, s)" "e \<noteq> UndefinedBehaviour"
    using assms unfolding refuses_def by blast
  then show ?thesis by (auto simp: call_protocol_def on_circuit_def)
qed

lemma send_channel_refused:
  assumes ok: "tree_ok n (system b) c" and no: "refuses (drivers cfg p)" and none: "m_ActiveStreamers b = []"
    and v: "v = collected ign xs es ms ids [] ce"
  shows "\<exists>e s. send_channel cfg p c k v b = (Inl e, b\<lparr>circuit := s\<rparr>) \<and> e \<noteq> UndefinedBehaviour"
proof -
  have toSut: "toSutVector v = bv_make xs NotFixed" using v by (simp add: collected_def)
  obtain j where j: "iRunLoopCount (system b) c = Inr j"
    using ok by (cases c) (auto simp: tree_ok_def forest_ok_simps(3,4) live_register_def register_at_def deref_def parent_at_def)
  show ?thesis
  proof (cases "0 < j")
    case True
    let ?q = "(RVFRequest_of_vector RUNLOOP (bv_make xs NotFixed) (node_data b (node_ref c)))\<lparr>m_optionalData := Some j\<rparr>"
    obtain e s where e: "call_protocol cfg p ?q k b = (Inl e, b\<lparr>circuit := s\<rparr>)" "e \<noteq> UndefinedBehaviour"
      using call_refused [OF no] by blast
    then have "run_loop_request cfg p c k (bv_make xs NotFixed) b = (Inl e, b\<lparr>circuit := s\<rparr>)"
      using j True by (simp add: run_loop_request_def act_bind_def)
    then show ?thesis using toSut none e(2) by (auto simp: send_channel_def act_bind_def act_then_def)
  next
    case False
    obtain q where q: "cycle_request v (bv_make xs NotFixed) (node_data b (node_ref c)) = Inr q"
      using cycle_request_eq [OF v] by blast
    obtain e s where e: "call_protocol cfg p q k b = (Inl e, b\<lparr>circuit := s\<rparr>)" "e \<noteq> UndefinedBehaviour"
      using call_refused [OF no] by blast
    have "run_loop_request cfg p c k (bv_make xs NotFixed) b = (Inr (), b)" using j False by (simp add: run_loop_request_def act_bind_def)
    then show ?thesis using toSut none q e by (auto simp: send_channel_def act_bind_def act_then_def)
  qed
qed

lemma do_channels_refused:
  fixes b :: "('s, 'k) Bench"
  assumes "channels_ready n (identifierMapping b) (system b) cs" and no: "refuses (drivers cfg p)"
    and "\<exists>x \<in> set (forest_registers cs). \<not> settled (register_of (system b) x)"
  shows "\<exists>e b'. do_channels cfg p cs k b = (Inl e, b') \<and> e \<noteq> UndefinedBehaviour \<and> only_circuit b b'"
  using assms(1,3)
proof (induction cs arbitrary: k)
  case (Cons c cs)
  let ?w = "system b" and ?as = "tree_registers c"
  have fo: "forest_ok n ?w [c]" "forest_ok n ?w cs" using Cons.prems(1) forest_ok_simps(2) [of n ?w c cs] by (simp_all add: channels_ready_def)
  have r: "tree_ok n ?w c" "chain_tree c" "width_of n ?as + 7 < 4294967296" "PendingCount ?w c = Inr (pending_below ?w [c])"
    "chain_ok n ?w ?as" "\<forall>a \<in> set ?as. 0 < n a"
    "\<forall>a \<in> set ?as. Register_IsPending (register_of ?w a) \<longleftrightarrow> \<not> settled (register_of ?w a)"
    using Cons.prems(1) fo by (simp_all add: channels_ready_def tree_ok_def)
  note pend = IsPending_eq [OF r(1,4)]
  show ?case
  proof (cases "\<exists>a \<in> set ?as. Register_IsPending (register_of ?w a)")
    case False
    then have skip: "do_channel cfg p c k b = (Inr (), b)" using pend by (simp add: do_channel_def act_bind_read)
    have "channels_ready n (identifierMapping b) ?w cs" using Cons.prems(1) fo by (simp add: channels_ready_def known_def)
    moreover have "\<exists>x \<in> set (forest_registers cs). \<not> settled (register_of ?w x)" using Cons.prems(2) False r(7) by auto
    ultimately show ?thesis using Cons.IH [of "u32 (k + 1)"] skip by (simp add: act_then_simps)
  next
    case True
    obtain xs es ms ce where v: "local_visit ?w c = Inr (collected False xs es ms (idents ?w ?as) [] ce)" "length xs = width_of n ?as"
      using local_visit_eq [OF r(1,2,5,3)] by blast
    have "?as \<noteq> []" using True by auto
    then have "xs \<noteq> []" using v(2) width_pos [OF _ r(6)] by auto
    let ?b = "b\<lparr>m_ActiveStreamers := []\<rparr>"
    have sends: "do_channel cfg p c k b = send_channel cfg p c k (collected False xs es ms (idents ?w ?as) [] ce) ?b"
      using pend True v(1) \<open>xs \<noteq> []\<close> by (simp add: do_channel_def act_bind_read act_then_simps) (simp add: collected_def)
    obtain e s where e: "send_channel cfg p c k (collected False xs es ms (idents ?w ?as) [] ce) ?b = (Inl e, ?b\<lparr>circuit := s\<rparr>)"
      "e \<noteq> UndefinedBehaviour" 
      using send_channel_refused [of n ?b c cfg p _ False xs es ms "idents ?w ?as" ce k, OF _ no _ refl] r(1) by auto
    have "only_circuit b (?b\<lparr>circuit := s\<rparr>)" unfolding only_circuit_def by (intro exI [of _ s] exI [of _ "[]"]) simp
    then show ?thesis using sends e by (auto simp: act_then_simps)
  qed
qed simp

definition stuck :: "(nat \<Rightarrow> nat) \<Rightarrow> ('s, 'k) Setup \<Rightarrow> nat \<Rightarrow> SystemTree list \<Rightarrow> ('s, 'k) Bench \<Rightarrow> bool" where
  "stuck n cfg a cs b \<longleftrightarrow> interface_ready n b a cs \<and> (\<exists>p. interface_protocols b a = Some p \<and> refuses (drivers cfg p))
    \<and> \<not> m_joinable b \<and> (\<exists>x \<in> set (forest_registers cs). \<not> settled (register_of (system b) x))"

lemma interface_ready_cong:
  fixes b b' :: "('s, 'k) Bench"
  assumes "system b' = system b" "identifierMapping b' = identifierMapping b" "m_threadToAppData b' = m_threadToAppData b"
    "m_pendingThreads b' = m_pendingThreads b" "m_regIdToAppData b' = m_regIdToAppData b"
  shows "interface_ready n b' a cs = interface_ready n b a cs"
  using assms same_registry(3) [of b' b] by (simp add: interface_ready_def)

lemma stuck_start:
  assumes st: "stuck n cfg a cs b"
  shows "\<exists>w'. cycle_start cfg (ParentTree AccessInterface a cs) b = (Inr True, b\<lparr>system := w'\<rparr>)
    \<and> prepared (ParentTree AccessInterface a cs) (system b) w' \<and> stuck n cfg a cs (b\<lparr>system := w'\<rparr>)
    \<and> (\<exists>nd. parents w' a = Some nd \<and> Node_IsPending nd)"
proof -
  let ?t = "ParentTree AccessInterface a cs"
  have rdy: "interface_ready n b a cs" and some: "\<exists>x \<in> set (forest_registers cs). \<not> settled (register_of (system b) x)"
    using st by (simp_all add: stuck_def)
  note r = rdy [unfolded interface_ready_def]
  have ex: "(\<exists>x \<in> set (tree_registers ?t). \<not> settled (register_of (system b) x)) = True" using some by simp
  obtain w' where w': "cycle_start cfg ?t b = (Inr True, b\<lparr>system := w'\<rparr>)" "prepared ?t (system b) w'"
    using cycle_start_eq [of n b ?t cfg, unfolded ex] linker_free_interface [of cs a] r by auto
  note prep = prepared_ready [OF rdy w'(2)]
  have "stuck n cfg a cs (b\<lparr>system := w'\<rparr>)" using st prep(3,4) unfolding stuck_def by simp
  moreover have "\<exists>nd. parents w' a = Some nd \<and> Node_IsPending nd"
  proof -
    have ok: "tree_ok n w' ?t" using prep(4) by (simp add: interface_ready_def)
    have count: "PendingCount w' ?t = Inr (pending_below w' [?t])" using w'(2) by (simp add: prepared_def)
    have "\<exists>x \<in> set (tree_registers ?t). Register_IsPending (register_of w' x)"
      using some prep(1,3) unfolding channels_ready_def by auto
    then have "IsPending w' ?t = Inr True" using IsPending_eq [OF ok count] by simp
    then show ?thesis by (auto simp: parent_at_def split: option.splits)
  qed
  ultimately show ?thesis using w' by blast
qed

lemma stuck_pass:
  fixes b :: "('s, 'k) Bench"
  assumes st: "stuck n cfg a cs b" and nd: "parents (system b) a = Some nd" "Node_IsPending nd"
    and rdy: "channels_ready n (identifierMapping b) (system b) cs"
  shows "\<exists>b'. DataCycle cfg (ParentTree AccessInterface a cs) b = (Inr (), b') \<and> stuck n cfg a cs b'"
proof -
  obtain p where p: "interface_protocols b a = Some p" "refuses (drivers cfg p)" using st by (auto simp: stuck_def)
  have chains: "\<forall>c \<in> set cs. chain_tree c" using st by (simp add: stuck_def interface_ready_def)
  obtain e b1 where e: "do_channels cfg p cs 1 b = (Inl e, b1)" "e \<noteq> UndefinedBehaviour" "only_circuit b b1"
    using do_channels_refused [OF rdy p(2), of 1] st unfolding stuck_def by blast
  have "DoHierarchicalDataCycle cfg a cs b = (Inl e, b1)"
    using p(1) nd e(1) by (simp add: DoHierarchicalDataCycle_def act_bind_def act_then_def parent_at_def)
  then have "DataCycle cfg (ParentTree AccessInterface a cs) b = Stop (b1\<lparr>m_KillAllThreads := True\<rparr>)"
    using p(1) e(2) by (simp add: act_then_def act_bind_def catching_def DataCycle_channels [OF chains])
  moreover obtain s L where b1: "b1 = b\<lparr>circuit := s, m_ActiveStreamers := L\<rparr>" using e(3) by (auto simp: only_circuit_def)
  moreover have "\<not> m_joinable b" using st by (simp add: stuck_def)
  moreover have "stuck n cfg a cs (b1\<lparr>m_KillAllThreads := True, m_runLoop := False, m_managerThreadId := m_constructionThreadId b\<rparr>)"
    using st interface_ready_cong [of "b1\<lparr>m_KillAllThreads := True, m_runLoop := False, m_managerThreadId := m_constructionThreadId b\<rparr>" b]
    unfolding stuck_def by (simp add: b1)
  ultimately show ?thesis by (simp add: Stop_def Let_def)
qed

lemma loop_stuck:
  assumes "stuck n cfg a cs b"
  shows "DataCycles_loop cfg (ParentTree AccessInterface a cs) b = None"
proof (rule ccontr)
  let ?t = "ParentTree AccessInterface a cs"
  assume "DataCycles_loop cfg ?t b \<noteq> None"
  then obtain res where res: "DataCycles_loop cfg ?t b = Some res" by blast
  have "cfg' = cfg \<longrightarrow> root = ?t \<longrightarrow> \<not> stuck n cfg a cs b" if ret: "DataCycles_loop cfg' root b = Some res" for cfg' root b res
  proof (rule DataCycles_loop.raw_induct [where P = "\<lambda>cfg' root b res. cfg' = cfg \<longrightarrow> root = ?t \<longrightarrow> \<not> stuck n cfg a cs b", OF _ ret])
    fix f cfg' root b res
    assume IH: "\<And>cfg' root b res. f cfg' root b = Some res \<Longrightarrow> cfg' = cfg \<longrightarrow> root = ?t \<longrightarrow> \<not> stuck n cfg a cs b"
      and eq: "(case cycle_start cfg' root b of (Inl e, b1) \<Rightarrow> Some (Inl e, b1)
        | (Inr doDataCycle, b1) \<Rightarrow> if doDataCycle then case DataCycle cfg' root b1 of (Inl e, b2) \<Rightarrow> Some (Inl e, b2)
            | (Inr x, b2) \<Rightarrow> f cfg' root b2 else Some (Inr (), b1)) = Some res"
    show "cfg' = cfg \<longrightarrow> root = ?t \<longrightarrow> \<not> stuck n cfg a cs b"
    proof (intro impI notI)
      assume "cfg' = cfg" "root = ?t" and st: "stuck n cfg a cs b"
      obtain w' nd where w': "cycle_start cfg ?t b = (Inr True, b\<lparr>system := w'\<rparr>)" "prepared ?t (system b) w'"
        "stuck n cfg a cs (b\<lparr>system := w'\<rparr>)" "parents w' a = Some nd" "Node_IsPending nd" using stuck_start [OF st] by blast
      have rdy: "interface_ready n b a cs" using st by (simp add: stuck_def)
      obtain b2 where b2: "DataCycle cfg ?t (b\<lparr>system := w'\<rparr>) = (Inr (), b2)" "stuck n cfg a cs b2"
        using stuck_pass [OF w'(3)] w'(4,5) prepared_ready(1) [OF rdy w'(2)] by auto
      have "f cfg ?t b2 = Some res"
        using eq unfolding \<open>cfg' = cfg\<close> \<open>root = ?t\<close> w'(1) by (simp add: b2(1) del: DataCycle.simps)
      then show False using IH b2(2) by blast
    qed
  qed
  then show False using res assms by blast
qed

end
