(* ===== verification/Streamer_Levels.thy ===== *)
theory Streamer_Levels
  imports Data_Cycle
begin

text \<open>
  Nested streamers: what \<^verbatim>\<open>DoHierarchicalDataCycle\<close> sends through the levels of \<open>m_ActiveStreamers\<close>,
  and that the levels, undone from the last to the first, give back what the registers held.
\<close>

section \<open>Levels and their streamers\<close>

definition streamer_address :: "NodeRef option list \<Rightarrow> nat \<Rightarrow> nat" where
  "streamer_address ids ident = (case NodeWithId ids ident of Inr (ParentRef a) \<Rightarrow> a | _ \<Rightarrow> 0)"

definition level_ok :: "('s, 'k) Bench \<Rightarrow> nat \<Rightarrow> nat \<times> nat \<times> nat \<Rightarrow> bool" where
  "level_ok b n lv \<longleftrightarrow> (case lv of (before_bits, end_bits, ident) \<Rightarrow> before_bits < end_bits \<and> end_bits \<le> n
     \<and> (\<exists>a p. NodeWithId (identifierMapping b) ident = Inr (ParentRef a) \<and> streamer_protocols b a = Some p \<and> protocol_ok p
          \<and> length (bits_of (m_Residual_Xor_Mask p)) < 4294967281))"

definition level_address :: "('s, 'k) Bench \<Rightarrow> nat \<times> nat \<times> nat \<Rightarrow> nat" where
  "level_address b lv = streamer_address (identifierMapping b) (snd (snd lv))"

definition masked_level :: "('k \<Rightarrow> nat \<Rightarrow> bool) \<Rightarrow> ('s, 'k) Bench \<Rightarrow> nat \<Rightarrow> nat \<times> nat \<times> nat \<Rightarrow> level" where
  "masked_level ks b n lv = (fst lv, fst (snd lv), new_mask ks (the (streamer_protocols b (level_address b lv))) n)"

text \<open>Every streamer has made its mask.\<close>

definition masks_made :: "('k \<Rightarrow> nat \<Rightarrow> bool) \<Rightarrow> nat \<Rightarrow> (nat \<times> nat \<times> nat) list \<Rightarrow> ('s, 'k) Bench \<Rightarrow> ('s, 'k) Bench \<Rightarrow> bool" where
  "masks_made ks n lvs b b' \<longleftrightarrow> b' = b\<lparr>streamer_protocols := streamer_protocols b'\<rparr>
    \<and> (\<forall>a. a \<notin> level_address b ` set lvs \<longrightarrow> streamer_protocols b' a = streamer_protocols b a)
    \<and> (\<forall>lv \<in> set lvs. \<exists>p p'. streamer_protocols b (level_address b lv) = Some p \<and> streamer_protocols b' (level_address b lv) = Some p'
         \<and> renewed ks n p p')"

lemma level_okE:
  assumes "level_ok b n (f, e, ident)"
  obtains p where "f < e" "e \<le> n" "streamer_with_id ident b = Inr (level_address b (f, e, ident))"
    "streamer_protocols b (level_address b (f, e, ident)) = Some p" "protocol_ok p" "length (bits_of (m_Residual_Xor_Mask p)) < 4294967281"
  using assms that
  by (auto simp: level_ok_def level_address_def streamer_address_def streamer_with_id_def)

lemma ApplyStreamer_encodes:
  fixes b :: "('s, 'k) Bench"
  assumes ok: "level_ok b (length xs) (f, e, ident)" and ks: "keystream_of gk ks" and len: "length xs < 4294967281"
  shows "\<exists>p p'. ApplyStreamer gk f e ident (bv_make xs NotFixed) True b
      = (Inr (bv_make (encode f e (new_mask ks p (length xs)) xs) NotFixed),
         b\<lparr>streamer_protocols := (streamer_protocols b)(level_address b (f, e, ident) \<mapsto> p')\<rparr>)
    \<and> streamer_protocols b (level_address b (f, e, ident)) = Some p \<and> renewed ks (length xs) p p'"
proof -
  obtain p where p: "f < e" "e \<le> length xs" "streamer_with_id ident b = Inr (level_address b (f, e, ident))"
    "streamer_protocols b (level_address b (f, e, ident)) = Some p" "protocol_ok p" "length (bits_of (m_Residual_Xor_Mask p)) < 4294967281"
    using ok by (rule level_okE)
  obtain p' where p': "Streamer_transform gk f e (bv_make xs NotFixed) (bv_make (take (e - f) (drop f xs)) NotFixed) True p
      = (Inr (bv_make (encode f e (new_mask ks p (length xs)) xs) NotFixed), p')" "renewed ks (length xs) p p'"
    using transform_encodes [OF p(5) ks p(1,2) len p(6)] by blast
  have "protected_slice f e (bv_make xs NotFixed) = Inr (bv_make (take (e - f) (drop f xs)) NotFixed)"
    using protected_slice_make [of f e xs] p(1,2) len by simp
  then have "ApplyStreamer gk f e ident (bv_make xs NotFixed) True b
      = (Inr (bv_make (encode f e (new_mask ks p (length xs)) xs) NotFixed),
         b\<lparr>streamer_protocols := (streamer_protocols b)(level_address b (f, e, ident) \<mapsto> p')\<rparr>)"
    using p(3,4) p'(1) by (simp add: ApplyStreamer_def act_bind_def act_read_def on_protocol_def)
  then show ?thesis using p(4) p'(2) by blast
qed

section \<open>Encoding all levels\<close>

lemma encode_levels_eq:
  fixes b :: "('s, 'k) Bench"
  assumes "\<forall>lv \<in> set lvs. level_ok b (length xs) lv" and "distinct (map (level_address b) lvs)" and ks: "keystream_of gk ks"
    and "length xs < 4294967281"
  shows "\<exists>b'. encode_levels gk lvs (bv_make xs NotFixed) b
      = (Inr (bv_make (encode_all (map (masked_level ks b (length xs)) lvs) xs) NotFixed), b')
    \<and> masks_made ks (length xs) lvs b b'"
  using assms(1,2,4)
proof (induction lvs arbitrary: b xs)
  case Nil
  then show ?case by (simp add: masks_made_def)
next
  case (Cons lv lvs)
  obtain f e ident where lv: "lv = (f, e, ident)" by (cases lv)
  let ?n = "length xs" and ?a = "level_address b lv"
  have ok: "level_ok b ?n (f, e, ident)" using Cons.prems(1) lv by simp
  obtain p p' where p: "ApplyStreamer gk f e ident (bv_make xs NotFixed) True b
      = (Inr (bv_make (encode f e (new_mask ks p ?n) xs) NotFixed), b\<lparr>streamer_protocols := (streamer_protocols b)(?a \<mapsto> p')\<rparr>)"
    "streamer_protocols b ?a = Some p" "renewed ks ?n p p'"
    using ApplyStreamer_encodes [OF ok ks Cons.prems(3)] lv by blast
  let ?b = "b\<lparr>streamer_protocols := (streamer_protocols b)(?a \<mapsto> p')\<rparr>" and ?ys = "encode f e (new_mask ks p ?n) xs"
  have be: "f < e" "e \<le> ?n" using ok by (auto simp: level_ok_def)
  then have len: "length ?ys = ?n" by simp
  have addr: "level_address ?b = level_address b" by (simp add: fun_eq_iff level_address_def)
  have fresh: "level_address b x \<noteq> ?a" if "x \<in> set lvs" for x
    using Cons.prems(2) that by (metis distinct.simps(2) image_eqI list.simps(9) set_map)
  have ok': "\<forall>x \<in> set lvs. level_ok ?b (length ?ys) x"
  proof
    fix x assume x: "x \<in> set lvs"
    obtain g h i where g: "x = (g, h, i)" by (cases x)
    have "level_ok b ?n (g, h, i)" using Cons.prems(1) x g by simp
    then obtain c q where q: "g < h" "h \<le> ?n" "NodeWithId (identifierMapping b) i = Inr (ParentRef c)" "streamer_protocols b c = Some q" "protocol_ok q"
      "length (bits_of (m_Residual_Xor_Mask q)) < 4294967281" by (auto simp: level_ok_def)
    have "c \<noteq> ?a" using fresh [OF x] q(3) g by (simp add: level_address_def streamer_address_def)
    then show "level_ok ?b (length ?ys) x" using q g len unfolding level_ok_def by auto
  qed
  obtain b' where b': "encode_levels gk lvs (bv_make ?ys NotFixed) ?b
      = (Inr (bv_make (encode_all (map (masked_level ks ?b ?n) lvs) ?ys) NotFixed), b')" "masks_made ks ?n lvs ?b b'"
    using Cons.IH [OF ok' _ ] Cons.prems(2,3) len addr by auto
  have same: "map (masked_level ks ?b ?n) lvs = map (masked_level ks b ?n) lvs"
    using fresh by (simp add: masked_level_def addr)
  have "masked_level ks b ?n lv = (f, e, new_mask ks p ?n)" using p(2) lv by (simp add: masked_level_def)
  then have "encode_levels gk (lv # lvs) (bv_make xs NotFixed) b
      = (Inr (bv_make (encode_all (map (masked_level ks b ?n) (lv # lvs)) xs) NotFixed), b')"
    using p(1) b'(1) [unfolded same] by (simp add: lv act_bind_def act_read_def)
  moreover have "masks_made ks ?n (lv # lvs) b b'"
  proof -
    have "?a \<notin> level_address b ` set lvs" using fresh by fastforce
    then have "streamer_protocols b' ?a = Some p'" using b'(2) unfolding masks_made_def addr by simp
    moreover have "b' = b\<lparr>streamer_protocols := streamer_protocols b'\<rparr>" using b'(2) unfolding masks_made_def by simp
    ultimately show ?thesis using b'(2) p(2,3) fresh unfolding masks_made_def addr by auto
  qed
  ultimately show ?case by blast
qed

section \<open>Decoding all levels\<close>

lemma decode_levels_append:
  "decode_levels gk (xs @ ys) v b = act_bind (decode_levels gk xs v) (decode_levels gk ys) b"
proof (induction gk xs v arbitrary: b rule: decode_levels.induct)
  case (2 gk f e ident rest v)
  then show ?case by (simp add: act_bind_def act_then_def act_read_def split: prod.split sum.split)
qed (simp add: act_bind_def)

lemma ApplyStreamer_decodes:
  fixes b :: "('s, 'k) Bench"
  assumes ids: "streamer_with_id ident b = Inr a" and p: "streamer_protocols b a = Some p" "m_CurrentMask p = bv_make m NotFixed"
    "quiet (streamer_kind p) m" and len: "length m = length ys" "length ys < 4294967296" and be: "f < e" "e \<le> length ys"
  shows "ApplyStreamer gk f e ident (bv_make ys NotFixed) False b = (Inr (bv_make (decode f e m ys) NotFixed), b)"
proof -
  have "protected_slice f e (bv_make ys NotFixed) = Inr (bv_make (take (e - f) (drop f ys)) NotFixed)"
    using protected_slice_make [of f e ys] be len by simp
  moreover have "(streamer_protocols b)(a \<mapsto> p) = streamer_protocols b" using p(1) by auto
  ultimately show ?thesis
    using ids p(1) transform_decodes [OF p(2) len(1) p(3) be len(2)] by (simp add: ApplyStreamer_def act_bind_def act_read_def on_protocol_def)
qed

text \<open>The masks the levels hold, for the streamers found under their identifiers.\<close>

definition holds_mask :: "('s, 'k) Bench \<Rightarrow> nat \<Rightarrow> nat \<times> nat \<times> nat \<Rightarrow> level \<Rightarrow> bool" where
  "holds_mask b n lv l \<longleftrightarrow> (case lv of (f, e, ident) \<Rightarrow> case l of (f', e', m) \<Rightarrow> f' = f \<and> e' = e \<and> f < e \<and> e \<le> n \<and> length m = n
     \<and> (\<exists>a p. streamer_with_id ident b = Inr a \<and> streamer_protocols b a = Some p \<and> m_CurrentMask p = bv_make m NotFixed \<and> quiet (streamer_kind p) m))"

lemma holds_levels: "list_all2 (holds_mask b n) lvs ls \<Longrightarrow> levels_ok n ls"
  by (induction rule: list_all2_induct) (auto simp: holds_mask_def levels_ok_def split: prod.splits)

lemma decode_levels_eq:
  fixes b :: "('s, 'k) Bench"
  assumes "list_all2 (holds_mask b (length ys)) lvs ls" and "length ys < 4294967296"
  shows "decode_levels gk (rev lvs) (bv_make ys NotFixed) b
    = (Inr (bv_make (decode_all ls ys) NotFixed), b\<lparr>m_ActiveStreamers := take (length (m_ActiveStreamers b) - length lvs) (m_ActiveStreamers b)\<rparr>)"
  using assms(1)
proof (induction lvs ls rule: list_all2_induct)
  case Nil
  then show ?case by simp
next
  case (Cons lv lvs l ls)
  obtain f e ident m a p where v: "lv = (f, e, ident)" "l = (f, e, m)" "f < e" "e \<le> length ys" "length m = length ys"
    "streamer_with_id ident b = Inr a" "streamer_protocols b a = Some p" "m_CurrentMask p = bv_make m NotFixed" "quiet (streamer_kind p) m"
    using Cons(1) by (cases lv; cases l) (auto simp: holds_mask_def)
  have "levels_ok (length ys) ls" by (rule holds_levels [OF Cons(2)])
  then have len: "length (decode_all ls ys) = length ys" by simp
  let ?b = "b\<lparr>m_ActiveStreamers := take (length (m_ActiveStreamers b) - length lvs) (m_ActiveStreamers b)\<rparr>"
  have ids: "streamer_with_id ident ?b = Inr a" using v(6) by (auto simp: streamer_with_id_def rbind_def split: sum.splits NodeRef.splits)
  have run: "ApplyStreamer gk f e ident (bv_make (decode_all ls ys) NotFixed) False ?b = (Inr (bv_make (decode f e m (decode_all ls ys)) NotFixed), ?b)"
    by (rule ApplyStreamer_decodes [OF ids _ v(8,9)]) (use v len assms(2) in simp_all)
  have "butlast (take (length (m_ActiveStreamers b) - length lvs) (m_ActiveStreamers b))
      = take (length (m_ActiveStreamers b) - Suc (length lvs)) (m_ActiveStreamers b)"
    by (simp add: butlast_take)
  then show ?case
    using Cons(3) run ids by (simp add: decode_levels_append act_bind_def act_then_def act_read_def act_modify_def v(1,2))
qed

end
