(* ===== verification/Cycle_Properties.thy ===== *)
theory Cycle_Properties
  imports Cycle_Loop Model_Properties
begin

text \<open>
  What the data cycles and the registry of application threads promise, with instances on a small system.
\<close>

section \<open>A small system\<close>

text \<open>
  An access interface with two channels: a register that waits to be written, and a chain with another
  register. Thread 5 waits for the first register; thread 1 is the manager's.
\<close>

definition plain_node :: "nat \<Rightarrow> ParentNode" where
  "plain_node ident = \<lparr>m_identifier = ident, m_name = ''n'', m_pendingCount = 0, m_priority = 0, m_iRunloopCount = 0,
     m_ignoreForNodePath = False, m_pathSelector = None, m_KeepOpen = False\<rparr>"

definition written_reg :: Register where
  "written_reg = (sample_reg 0 [False, True])\<lparr>m_nextToSut := bv_make [True, True] Fixed\<rparr>"

definition small_world :: World where
  "small_world = \<lparr>registers = (\<lambda>a. if a = 0 then Some written_reg else if a = 1 then Some (sample_reg 1 [True]) else None),
     parents = (\<lambda>a. if a = 0 then Some (plain_node 2) else if a = 1 then Some (plain_node 3) else None), selectors = (\<lambda>_. None)\<rparr>"

abbreviation small_channels :: "SystemTree list" where
  "small_channels \<equiv> [RegisterLeaf 0, ParentTree Chain 1 [RegisterLeaf 1]]"

definition small_sizes :: "nat \<Rightarrow> nat" where
  "small_sizes a = (if a = 0 then 2 else 1)"

definition small_ids :: "NodeRef option list" where
  "small_ids = [Some (RegisterRef 0), Some (RegisterRef 1), Some (ParentRef 0), Some (ParentRef 1)]"

definition small_bench :: "(unit, unit) Bench" where
  "small_bench = \<lparr>system = small_world, identifierMapping = small_ids, m_managerThreadId = 1,
     m_threadToAppData = (\<lambda>t. if t = 5 then Some ((ApplicationData_create InApply)\<lparr>pendingRegistersIds := {0}\<rparr>) else None),
     m_regIdToAppData = [(0, 5)], m_pendingThreads = {5}, streamer_protocols = (\<lambda>_. None),
     interface_protocols = (\<lambda>a. if a = 0 then Some 0 else None), node_data = (\<lambda>_. None), m_ActiveStreamers = [],
     m_firstAccessNode = None, m_constructionThreadId = 1, m_joinable = False, m_runLoop = False, m_KillAllThreads = False, circuit = ()\<rparr>"

definition small_setup :: "unit ProtocolObject \<Rightarrow> (unit, unit) Setup" where
  "small_setup drv = \<lparr>null_slices = False, slack_bytes = [0], m_algorithm = Some LastOrDefault, drivers = (\<lambda>_. drv),
     keystream = (\<lambda>_. act_throw RuntimeError), translator_cycle = (\<lambda>_. act_return ())\<rparr>"

lemma small_registers:
  "registers small_world 0 = Some written_reg" "registers small_world (Suc 0) = Some (sample_reg (Suc 0) [True])"
  "register_of small_world 0 = written_reg" "register_of small_world (Suc 0) = sample_reg (Suc 0) [True]"
  "reg_inv (small_sizes 0) written_reg" "reg_inv (small_sizes (Suc 0)) (sample_reg (Suc 0) [True])"
proof -
  show "registers small_world 0 = Some written_reg" "registers small_world (Suc 0) = Some (sample_reg (Suc 0) [True])"
    "register_of small_world 0 = written_reg" "register_of small_world (Suc 0) = sample_reg (Suc 0) [True]"
    by (simp_all add: small_world_def register_of_def)
  have "reg_inv 2 (sample_reg 0 [False, True])" using sample_reg_inv [of "[False, True]" 0] by (simp add: numeral_2_eq_2)
  then show "reg_inv (small_sizes 0) written_reg" by (simp add: small_sizes_def written_reg_def reg_inv_def)
  show "reg_inv (small_sizes (Suc 0)) (sample_reg (Suc 0) [True])" using sample_reg_inv [of "[True]" 1] by (simp add: small_sizes_def)
qed

lemma small_flags:
  "m_identifier written_reg = 0" "m_identifier (sample_reg (Suc 0) [True]) = Suc 0" "m_dontCareMask written_reg = bv_make [] NotFixed"
  "m_dontCareMask (sample_reg (Suc 0) [True]) = bv_make [] NotFixed" "\<not> settled written_reg" "settled (sample_reg (Suc 0) [True])"
  "m_nextToSut written_reg = bv_make [True, True] Fixed" "m_nextToSut (sample_reg (Suc 0) [True]) = bv_make [True] Fixed"
  by (simp_all add: written_reg_def sample_reg_def settled_def)

lemma small_live: "live_register small_sizes small_world 0" "live_register small_sizes small_world (Suc 0)"
  using small_registers unfolding live_register_def by auto

lemma small_ready: "interface_ready small_sizes small_bench 0 small_channels"
proof -
  have sys: "system small_bench = small_world" by (simp add: small_bench_def)
  have tree: "tree_ok small_sizes small_world (ParentTree AccessInterface 0 small_channels)"
    using small_live by (simp add: tree_ok_def forest_ok_def) (simp add: small_world_def)
  have chain: "chain_ok small_sizes small_world (forest_registers small_channels)"
    using small_live by (simp add: chain_ok_def mask_fits_def small_registers small_flags)
  have known: "known small_ids small_world (forest_registers small_channels)"
    by (simp add: known_def small_registers small_flags RegisterWithId_def NodeWithId_def small_ids_def)
  have reg: "registry_ok small_bench"
    by (auto simp: registry_ok_def small_bench_def waits_for_def may_proceed_def ApplicationData_create_def split: if_splits)
  have size: "\<forall>x \<in> set (forest_registers small_channels). 0 < small_sizes x" by (simp add: small_sizes_def)
  have widths: "\<forall>c \<in> set small_channels. chain_tree c \<and> width_of small_sizes (tree_registers c) + 7 < 4294967296"
    by (simp add: width_of_def small_sizes_def)
  have ids: "identifierMapping small_bench = small_ids" by (simp add: small_bench_def)
  show ?thesis unfolding interface_ready_def sys ids using tree chain known reg size widths by simp
qed

section \<open>The loop of the data cycles\<close>

text \<open>C1: The loop of data cycles returns. When every channel of the access interface is a chain of
  registers of at least one bit and the protocol answers each request with as many bits, the loop
  ends without an exception, however the registers differ from what was sent last; then every register
  has been sent its value and none waits to be read or written any more.\<close>

theorem data_cycles_return:
  fixes b :: "('s, 'k) Bench"
  assumes "interface_ready n b a cs" and "interface_protocols b a = Some p" and "answers (drivers cfg p)"
  shows "\<exists>b'. DoDataCycles_Impl cfg (ParentTree AccessInterface a cs) b = Some (Inr (), b')
    \<and> (\<forall>x \<in> set (forest_registers cs). let r = register_of (system b) x; r' = register_of (system b') x in
         bits_of (m_nextToSut r') = bits_of (m_nextToSut r) \<and> bits_of (m_lastToSut r') = bits_of (m_nextToSut r) \<and> \<not> m_pendingRead r')"
proof -
  obtain b' where b': "DoDataCycles_Impl cfg (ParentTree AccessInterface a cs) b = Some (Inr (), b')" "finished n cs b b'"
    using DoDataCycles_Impl_eq [OF assms] by blast
  have "settled (register_of (system b') x) \<and> carried (register_of (system b) x) (register_of (system b') x)"
    if "x \<in> set (forest_registers cs)" for x using b'(2) that unfolding finished_def by blast
  then show ?thesis using b'(1) unfolding settled_def carried_def Let_def by (intro exI [of _ b']) metis
qed

theorem data_cycles_return_witness:
  "\<exists>b'. DoDataCycles_Impl (small_setup Loopback) (ParentTree AccessInterface 0 small_channels) small_bench = Some (Inr (), b')
    \<and> bits_of (m_lastToSut (register_of (system b') 0)) = [True, True]"
proof -
  have "interface_protocols small_bench 0 = Some 0" "answers (drivers (small_setup Loopback) 0)"
    using loopback.answering by (simp_all add: small_bench_def small_setup_def)
  from data_cycles_return [OF small_ready this] show ?thesis
    by (auto simp: Let_def small_bench_def small_registers small_flags)
qed

text \<open>C2: A thread blocked in iApply is released. If each register the thread waits for is a register
  below the access interface that still has to be sent or read, the data cycles remove the thread
  from the blocked threads and allow it to proceed.\<close>

theorem waiting_threads_released:
  fixes b :: "('s, 'k) Bench"
  assumes "interface_ready n b a cs" and "interface_protocols b a = Some p" and "answers (drivers cfg p)"
    and "t \<in> m_pendingThreads b" and "waits_below b (forest_registers cs) t"
  shows "\<exists>b'. DoDataCycles_Impl cfg (ParentTree AccessInterface a cs) b = Some (Inr (), b')
    \<and> t \<notin> m_pendingThreads b' \<and> may_proceed b' t"
  using DoDataCycles_Impl_eq [OF assms(1-3)] assms(4,5) by blast

theorem waiting_threads_released_witness:
  "\<exists>b'. DoDataCycles_Impl (small_setup Loopback) (ParentTree AccessInterface 0 small_channels) small_bench = Some (Inr (), b')
    \<and> 5 \<notin> m_pendingThreads b' \<and> may_proceed b' 5"
proof (rule waiting_threads_released [OF small_ready])
  show "interface_protocols small_bench 0 = Some 0" "answers (drivers (small_setup Loopback) 0)"
    using loopback.answering by (simp_all add: small_bench_def small_setup_def)
  show "5 \<in> m_pendingThreads small_bench" by (simp add: small_bench_def)
  have "waits_for small_bench 5 = {0}" "system small_bench = small_world"
    by (simp_all add: waits_for_def small_bench_def ApplicationData_create_def)
  then show "waits_below small_bench (forest_registers small_channels) 5"
    by (simp add: waits_below_def small_registers small_flags)
qed

text \<open>C21: A protocol that throws makes the data cycles run for ever. The exception is swallowed and
  only asks the manager to stop, but the loop looks at nothing but the pending registers, which stay
  pending: without a background thread it never returns.\<close>

theorem failing_protocol_never_ends:
  fixes b :: "('s, 'k) Bench"
  assumes "interface_ready n b a cs" and "interface_protocols b a = Some p" and "refuses (drivers cfg p)"
    and "\<not> m_joinable b" and "x \<in> set (forest_registers cs)"
    and "bits_of (m_nextToSut (register_of (system b) x)) \<noteq> bits_of (m_lastToSut (register_of (system b) x))"
  shows "DoDataCycles_Impl cfg (ParentTree AccessInterface a cs) b = None"
proof -
  have "stuck n cfg a cs b" using assms unfolding stuck_def settled_def by blast
  then show ?thesis by (simp add: DoDataCycles_Impl_def loop_stuck)
qed

theorem failing_protocol_never_ends_witness:
  "DoDataCycles_Impl (small_setup \<lparr>DoCallback = \<lambda>q k. act_throw RuntimeError, PushRequest = None\<rparr>)
     (ParentTree AccessInterface 0 small_channels) small_bench = None"
proof (rule failing_protocol_never_ends [OF small_ready])
  show "interface_protocols small_bench 0 = Some 0" "\<not> m_joinable small_bench" by (simp_all add: small_bench_def)
  show "refuses (drivers (small_setup \<lparr>DoCallback = \<lambda>q k. act_throw RuntimeError, PushRequest = None\<rparr>) 0)"
    by (simp add: refuses_def small_setup_def)
  show "0 \<in> set (forest_registers small_channels)" by simp
  have "system small_bench = small_world" by (simp add: small_bench_def)
  then show "bits_of (m_nextToSut (register_of (system small_bench) 0)) \<noteq> bits_of (m_lastToSut (register_of (system small_bench) 0))"
    by (simp add: small_registers) (simp add: written_reg_def sample_reg_def)
qed

section \<open>The registry of the threads\<close>

text \<open>C8: In every state the manager reaches from an empty registry by registering requests, blocking
  threads, reporting served registers and releasing threads, the table of registers and threads has
  no duplicates and lists a thread under a register exactly when the thread waits for that register,
  and every blocked thread is known and may not proceed.\<close>

theorem registry_reachable:
  fixes m m' :: "'a Manager_scheme"
  assumes "manager_step\<^sup>*\<^sup>* m m'" and "m_regIdToAppData m = []" and "m_pendingThreads m = {}" and "\<forall>t. waits_for m t = {}"
  shows "distinct (m_regIdToAppData m') \<and> (\<forall>r t. (r, t) \<in> set (m_regIdToAppData m') \<longleftrightarrow> r \<in> waits_for m' t)
    \<and> (\<forall>t \<in> m_pendingThreads m'. m_threadToAppData m' t \<noteq> None \<and> \<not> may_proceed m' t)"
proof -
  have start: "registry_ok m" using assms(2-4) by (simp add: registry_ok_def)
  have "registry_ok m'" using assms(1)
  proof (induction rule: rtranclp_induct)
    case base
    show ?case by (rule start)
  next
    case (step m1 m2)
    show ?case by (rule registry_step [OF step(2,3)])
  qed
  then show ?thesis by (simp add: registry_ok_def)
qed

definition idle_manager :: Manager where
  "idle_manager = \<lparr>system = small_world, identifierMapping = small_ids, m_managerThreadId = 1,
     m_threadToAppData = [5 \<mapsto> ApplicationData_create Running], m_regIdToAppData = [], m_pendingThreads = {}\<rparr>"

theorem registry_reachable_witness:
  "\<exists>m'. manager_step\<^sup>*\<^sup>* idle_manager m' \<and> m_regIdToAppData m' = [(0, 5)] \<and> 0 \<in> waits_for m' 5"
proof -
  define m where "m = snd (RegisterPendingThread 5 written_reg idle_manager)"
  have "manager_step idle_manager m" unfolding m_def
    by (rule manager_step.request [of 5 _ written_reg]) (simp_all add: idle_manager_def prod_eq_iff)
  then have steps: "manager_step\<^sup>*\<^sup>* idle_manager m" by simp
  have "m_regIdToAppData m = [(0, 5)]"
    by (simp add: m_def RegisterPendingThread_def act_bind_def act_then_def with_app_def ApplicationDataForThreadId_def
        idle_manager_def ApplicationData_create_def small_flags Let_def)
  moreover have "\<forall>t. waits_for idle_manager t = {}" by (simp add: waits_for_def idle_manager_def ApplicationData_create_def)
  then have "(0, 5) \<in> set (m_regIdToAppData m) \<longleftrightarrow> 0 \<in> waits_for m 5"
    using registry_reachable [OF steps] by (simp add: idle_manager_def)
  ultimately show ?thesis using steps by auto
qed

end
