(* ===== verification/Tree_Properties.thy ===== *)
theory Tree_Properties
  imports Cycle_Properties Configuration_Decisions
begin

text \<open>
  What the visitors of the model tree promise: propagation of pendings, collection and distribution of
  scan vectors, configuration of linkers. The instances use the small system and a linker with a one
  hot selector.
\<close>

section \<open>Visitors of the model tree\<close>

text \<open>C11: PropagatePending computes the pending state of the whole tree. It marks as pending exactly
  the registers whose next value differs from the value sent last (besides those already pending),
  and afterwards the pending count of every node is the number of pending registers below it. The
  iRunLoop count of an access interface or translator is 0, since these requests are treated at the
  interface; a register keeps its own, and a chain, linker or streamer has the largest of the count it
  had and those of its children, so that what is below an interface or translator does not show
  above it. Nothing else changes.\<close>

theorem propagation_counts:
  assumes "tree_ok n w t" and "length (tree_registers t) < 4294967296"
  shows "\<exists>w'. PropagatePending t w = (Inr (), w') \<and> registers w' = on_each marked (tree_registers t) (registers w)
    \<and> (\<forall>s \<in> subtrees t. PendingCount w' s = Inr (pending_below w' [s]) \<and> iRunLoopCount w' s = Inr (run_loops w s))
    \<and> selectors w' = selectors w \<and> (\<forall>p. map_option uncounted (parents w' p) = map_option uncounted (parents w p))"
  using PropagatePending_eq [of n t] assms unfolding propagates_def propagated_def counted_def by fastforce

lemma small_tree: "tree_ok small_sizes small_world (ParentTree AccessInterface 0 small_channels)"
  using small_ready by (simp add: interface_ready_def small_bench_def)

theorem propagation_counts_witness:
  "\<exists>w'. PropagatePending (ParentTree AccessInterface 0 small_channels) small_world = (Inr (), w')
    \<and> PendingCount w' (ParentTree AccessInterface 0 small_channels) = Inr 1"
proof -
  let ?t = "ParentTree AccessInterface 0 small_channels"
  obtain w' where w': "PropagatePending ?t small_world = (Inr (), w')"
    "registers w' = on_each marked (tree_registers ?t) (registers small_world)"
    "\<forall>s \<in> subtrees ?t. PendingCount w' s = Inr (pending_below w' [s])"
    using propagation_counts [OF small_tree] by auto
  have "Register_IsPending (marked written_reg)" "\<not> Register_IsPending (marked (sample_reg (Suc 0) [True]))"
    by (simp_all add: marked_def written_reg_def sample_reg_def SetPending_def Register_IsPending_def Node_IsPending_def)
  then have "pending_below w' [?t] = 1" using small_registers by (simp add: pending_below_def w'(2))
  then show ?thesis using w'(1,3) subtree_self by metis
qed

text \<open>C9: The visit before a scan collects the active chain. Along the registers on open paths, in the
  order of the tree, the vector to send is the concatenation of the next values of the pending and the
  bypass values of the other registers, the expected values and masks line up with it, and each
  streamer is recorded with the positions of the first bit below it and after the last.\<close>

theorem scan_vector_collected:
  assumes "visitable n w t" and "chain_ok n w (active w t)" and "width_of n (active w t) + 7 < 4294967296"
  shows "\<exists>v. ToSut w t (ToSutVisitor_create ign) = (Inr (), v)
    \<and> toSutVector v = bv_make (chain_bits (shift_out ign) w (active w t)) NotFixed
    \<and> expectedFromSut v = bv_make (chain_bits expect_bits w (active w t)) NotFixed
    \<and> dontCareMask v = bv_make (chain_bits mask_bits_of w (active w t)) NotFixed
    \<and> activeRegisters v = idents w (active w t) \<and> activeStreamers v = levels n w 0 t
    \<and> (checkExpected v \<longleftrightarrow> (\<exists>a \<in> set (active w t). m_mustCheckExpected (register_of w a)))"
proof -
  have start: "ToSutVisitor_create ign = collected ign [] [] [] [] [] False"
    by (simp add: ToSutVisitor_create_def collected_def BinaryVector_empty_make)
  then have "aligned ign 0 (ToSutVisitor_create ign)" unfolding aligned_def by fastforce
  from ToSut_collects(1) [OF assms(1,2) this] assms(3)
  have "ToSut w t (ToSutVisitor_create ign) = (Inr (), extended ign w (active w t) (levels n w 0 t) (ToSutVisitor_create ign))" by simp
  then show ?thesis by (simp add: start extended_def collected_def idents_def)
qed

theorem scan_vector_collected_witness:
  "\<exists>v. ToSut small_world (ParentTree Chain 1 [RegisterLeaf 0, RegisterLeaf 1]) (ToSutVisitor_create True) = (Inr (), v)
    \<and> toSutVector v = bv_make [True, True, True] NotFixed \<and> activeRegisters v = [0, 1]"
proof -
  let ?t = "ParentTree Chain 1 [RegisterLeaf 0, RegisterLeaf 1]"
  have act: "active small_world ?t = [0, Suc 0]" by (simp add: path_open_def)
  have "visitable small_sizes small_world ?t" using small_live by simp (simp add: small_world_def)
  moreover have "chain_ok small_sizes small_world (active small_world ?t)"
    using small_live act by (simp add: chain_ok_def mask_fits_def small_registers small_flags)
  moreover have "width_of small_sizes (active small_world ?t) + 7 < 4294967296" by (simp add: act width_of_def small_sizes_def)
  ultimately have "\<exists>v. ToSut small_world ?t (ToSutVisitor_create True) = (Inr (), v)
      \<and> toSutVector v = bv_make (chain_bits (shift_out True) small_world [0, Suc 0]) NotFixed
      \<and> activeRegisters v = idents small_world [0, Suc 0]"
    using scan_vector_collected [of small_sizes small_world ?t True] unfolding act by blast
  then show ?thesis by (simp add: chain_bits_def shift_out_def idents_def small_registers small_flags)
qed

text \<open>C10: The answer of a scan is dealt out along the chain. A vector as long as the active registers
  together gives each its own part: the register records it as received, its next value as sent, and
  is not pending any more; registers outside the chain are untouched. A vector of another length ends
  in logic_error.\<close>

theorem scan_answer_dealt:
  assumes "chain_ok n w as" and "known ids w as" and "distinct as" and "length ys < 4294967296" and "width_of n as < 4294967296"
  shows "if length ys = width_of n as
    then on_registers (FromSut_UpdateRegisters ids (idents w as) (bv_make ys p)) w = (Inr (), w\<lparr>registers := dealt n as ys (registers w)\<rparr>)
    else \<exists>st. on_registers (FromSut_UpdateRegisters ids (idents w as) (bv_make ys p)) w = (Inl LogicError, w\<lparr>registers := st\<rparr>)"
  using UpdateRegisters_loop_eq [OF assms(1-4), of 0 p] assms(5)
  by (auto simp: on_registers_def FromSut_UpdateRegisters_def split: if_splits)

theorem scan_answer_dealt_witness:
  "\<exists>w. on_registers (FromSut_UpdateRegisters small_ids [0, 1] (bv_make [True, False, True] NotFixed)) small_world = (Inr (), w)
    \<and> bits_of (m_lastFromSut (register_of w 0)) = [True, False] \<and> bits_of (m_lastFromSut (register_of w 1)) = [True]
    \<and> fst (on_registers (FromSut_UpdateRegisters small_ids [0, 1] (bv_make [True] NotFixed)) small_world) = Inl LogicError"
proof -
  let ?as = "[0, Suc 0]"
  have ids: "idents small_world ?as = [0, 1]" by (simp add: idents_def small_registers small_flags)
  have "chain_ok small_sizes small_world ?as" using small_ready by (simp add: interface_ready_def small_bench_def)
  moreover have "known small_ids small_world ?as" using small_ready by (simp add: interface_ready_def small_bench_def)
  moreover have "distinct ?as" "width_of small_sizes ?as = 3" by (simp_all add: width_of_def small_sizes_def)
  ultimately show ?thesis
    using scan_answer_dealt [of small_sizes small_world ?as small_ids "[True, False, True]" NotFixed]
      scan_answer_dealt [of small_sizes small_world ?as small_ids "[True]" NotFixed]
    unfolding ids
    by (auto simp: dealt_def register_of_def received_def small_registers small_sizes_def)
qed

section \<open>Configuration\<close>

text \<open>C6: Configuration keeps the model well formed. On a tree whose registers satisfy their invariant,
  whose nodes exist and whose linkers have selectors that fit their registers, Configure succeeds with
  every algorithm and leads to such a tree again; it changes no value that was sent or received, and
  no register outside the tree and the multiplexers of its linkers.\<close>

theorem configuration_well_formed:
  assumes "slack \<noteq> []" and "world_ok ord n A w [t]"
  shows "\<exists>w'. Configure null slack algorithm t w = (Inr (), w') \<and> world_ok ord n A w' [t] \<and> same_past (registers w) (registers w')
    \<and> (\<forall>a. a \<notin> touched w [t] \<longrightarrow> registers w' a = registers w a) \<and> (\<forall>p. p \<notin> set (tree_parents t) \<longrightarrow> parents w' p = parents w p)"
proof -
  have "config_ok ord n A (touched w [t]) (selector_links w [t]) (set (tree_parents t)) w [t]" using assms(2) by (simp add: config_ok_def)
  from Configure_run [OF assms(1) this] obtain w' where w': "Configure null slack algorithm t w = (Inr (), w')"
    "store_ok ord n A (registers w')" "configured n (touched w [t]) (selector_links w [t]) (set (tree_parents t)) w w'" by blast
  have "world_ok ord n A w' [t]" by (rule configured_world_ok [OF w'(3) assms(2) w'(2)])
  then show ?thesis using w'(1,3) unfolding configured_def by blast
qed

context exclusive_coding
begin

lemma configured_linker:
  assumes fits: "fits sel" and slack: "slack \<noteq> []" and ok: "world_ok ord n A w [ParentTree Linker l cs]"
    and link: "linked w l x sel" and mux: "mux_ok ord n A (m_muxRegisters sel) (registers w)"
  obtains w' R X P where "Configure null slack algorithm (ParentTree Linker l cs) w = (Inr (), w')"
    "config_ok ord n A R X P w [ParentTree Linker l cs]" "follows ord n A w l sel"
    "\<And>q. q \<in> paths_of sel \<Longrightarrow> Linker_IsActive w' l q = Inr (q \<in> live_paths ord n sel w')"
    "\<And>q. q \<in> paths_of sel \<Longrightarrow> Linker_IsSelected w' l q = Inr (q \<in> chosen ord n sel w')"
proof -
  let ?t = "ParentTree Linker l cs"
  have own: "config_ok ord n A (touched w [?t]) (selector_links w [?t]) (set (forest_parents [?t])) w [?t]" using ok by (simp add: config_ok_def)
  obtain w' where w': "Configure null slack algorithm ?t w = (Inr (), w')" "store_ok ord n A (registers w')"
    "configured n (touched w [?t]) (selector_links w [?t]) (set (tree_parents ?t)) w w'"
    using Configure_run [OF slack own] by blast
  have fol: "follows ord n A w l sel" using link mux unfolding follows_def same_code_def by blast
  have fol': "follows ord n A w' l sel" by (rule follows_kept [OF fol w'(3,2)])
  then obtain y sel' where y: "linked w' l y sel'" "same_code sel sel'" and mux': "mux_ok ord n A (m_muxRegisters sel) (registers w')"
    unfolding follows_def by blast
  show ?thesis by (rule that [OF w'(1) own fol IsActive_live(1,2) [OF y fits mux']])
qed

lemma linker_opens:
  assumes fits: "fits sel" and slack: "slack \<noteq> []" and alg: "algorithm \<noteq> Some CloseAll"
    and ok: "world_ok ord n A w [ParentTree Linker l cs]" and ind: "independent w (ParentTree Linker l cs)"
    and link: "linked w l x sel" and mux: "mux_ok ord n A (m_muxRegisters sel) (registers w)"
    and regs: "length (forest_registers cs) < 4294967296" and paths: "length cs \<le> m_pathsCount sel"
  shows "\<exists>w'. Configure null slack algorithm (ParentTree Linker l cs) w = (Inr (), w')
    \<and> (let S = {q. 1 \<le> q \<and> q \<le> length cs \<and> IsPending w' (cs ! (q - 1)) = Inr True
                   \<and> (algorithm = None \<or> Linker_IsActive w' l q = Inr False)}
       in S \<noteq> {} \<longrightarrow> (\<forall>q \<in> paths_of sel. Linker_IsSelected w' l q = Inr (q = Max S)))"
proof -
  obtain w' R X P where w': "Configure null slack algorithm (ParentTree Linker l cs) w = (Inr (), w')"
    "config_ok ord n A R X P w [ParentTree Linker l cs]" "follows ord n A w l sel"
    "\<And>q. q \<in> paths_of sel \<Longrightarrow> Linker_IsActive w' l q = Inr (q \<in> live_paths ord n sel w')"
    "\<And>q. q \<in> paths_of sel \<Longrightarrow> Linker_IsSelected w' l q = Inr (q \<in> chosen ord n sel w')"
    by (rule configured_linker [OF fits slack ok link mux]) blast
  let ?S = "{q. 1 \<le> q \<and> q \<le> length cs \<and> IsPending w' (cs ! (q - 1)) = Inr True \<and> (algorithm = None \<or> Linker_IsActive w' l q = Inr False)}"
  have S: "?S = wanted algorithm ord n sel w' cs 1"
  proof (rule set_eqI)
    fix q
    show "q \<in> ?S \<longleftrightarrow> q \<in> wanted algorithm ord n sel w' cs 1"
    proof (cases "1 \<le> q \<and> q \<le> length cs")
      case True
      then obtain i where i: "q = Suc i" "i < length cs" by (cases q) auto
      have "q \<in> paths_of sel" using True paths by (simp add: paths_of_def)
      then show ?thesis using w'(4) [of q] i by (auto simp: wanted_def wants_def)
    qed (auto simp: wanted_def)
  qed
  have "chosen ord n sel w' = {Max ?S}" if "?S \<noteq> {}"
    using linker_decided [OF fits slack alg w'(2) ind w'(3) regs paths w'(1)] that unfolding S by blast
  then show ?thesis using w'(1,5) by (intro exI [of _ w']) (auto simp: Let_def)
qed

lemma linker_closes:
  assumes fits: "fits sel" and slack: "slack \<noteq> []" and alg: "algorithm \<in> {None, Some LastOrDefault, Some LastOrDefault_Greedy}"
    and ok: "world_ok ord n A w [ParentTree Linker l cs]" and ind: "independent w (ParentTree Linker l cs)"
    and link: "linked w l x sel" and mux: "mux_ok ord n A (m_muxRegisters sel) (registers w)"
    and regs: "length (forest_registers cs) < 4294967296" and none: "CanSelectNone sel"
  shows "\<exists>w'. Configure null slack algorithm (ParentTree Linker l cs) w = (Inr (), w')
    \<and> ((\<forall>c \<in> set cs. IsPending w' c = Inr False) \<longrightarrow> (\<forall>q \<in> paths_of sel. Linker_IsSelected w' l q = Inr False) \<or> mux_waits sel (registers w'))"
proof -
  obtain w' R X P where w': "Configure null slack algorithm (ParentTree Linker l cs) w = (Inr (), w')"
    "config_ok ord n A R X P w [ParentTree Linker l cs]" "follows ord n A w l sel"
    "\<And>q. q \<in> paths_of sel \<Longrightarrow> Linker_IsSelected w' l q = Inr (q \<in> chosen ord n sel w')"
    by (rule configured_linker [OF fits slack ok link mux]) blast
  show ?thesis using linker_closed [OF fits slack alg w'(2) ind w'(3) regs none w'(1)] w'(1,4)
    by (intro exI [of _ w']) auto
qed

end

text \<open>Registers right below a linker are pending after the configuration when they have something to send or to read.\<close>

lemma touched_leaves: "touched w (map RegisterLeaf as) = set as"
  by (auto simp: touched_def linkers_in_def comp_def)

lemma configured_leaves:
  assumes "slack \<noteq> []" and "config_ok ord n A R X P w (map RegisterLeaf as)" and "at_linker ord n A R X P w l k"
    and "p + length as \<le> k + 1" and "k < 4294967295" and "distinct as" and "linker_muxes w l \<inter> set as = {}"
    and "Configure_paths null slack algorithm l (map RegisterLeaf as) p w = (Inr (), w')" and "a \<in> set as"
  shows "registers w' a = map_option refreshed (registers w a)"
  using assms(2-)
proof (induction as arbitrary: w p)
  case (Cons d as)
  have lt: "p + length (map RegisterLeaf as) < k + 1" using Cons.prems(3) by simp
  obtain w1 w2 where w: "Configure null slack algorithm (RegisterLeaf d) w = (Inr (), w1)"
    "Configure_paths null slack algorithm l (map RegisterLeaf as) (p + 1) w2 = (Inr (), w')"
    "configured n (linker_muxes w l) {x. \<exists>sel. linked w l x sel} {l} w1 w2" "configured n R X P w w2"
    "config_ok ord n A R X P w2 (RegisterLeaf d # map RegisterLeaf as)" "at_linker ord n A R X P w2 l k"
    by (rule Configure_paths_Cons [OF assms(1) Cons.prems(1) [unfolded list.map] Cons.prems(2) lt Cons.prems(4) Cons.prems(7) [unfolded list.map]])
  have muxes: "linker_muxes w2 l = linker_muxes w l" using configured_muxes [OF w(4)] .
  have own: "configured n (set as \<union> linker_muxes w2 l) (selector_links w2 (map RegisterLeaf as) \<union> {x. \<exists>sel. linked w2 l x sel})
      (set (forest_parents (map RegisterLeaf as)) \<union> {l}) w2 w'"
    using Configure_paths_own(1) [OF assms(1) config_ok_tail [OF w(5)] w(6) _ Cons.prems(4) w(2)] lt by (simp add: touched_leaves)
  obtain r where r: "registers w d = Some r" "reg_inv (n d) r"
    using Cons.prems(1) by (auto simp: config_ok_def world_ok_def live_register_def)
  have w1: "registers w1 = (registers w)(d \<mapsto> refreshed r)"
    using on_register_eq [OF r(1), where m = Configure_VisitRegister, OF Configure_VisitRegister_eq [OF r(2)]] w(1) by auto
  have same: "registers w2 x = registers w1 x" if "x \<in> set (d # as)" for x
    using w(3) that Cons.prems(6) unfolding configured_def by blast
  show ?case
  proof (cases "a = d")
    case True
    have "registers w' d = registers w2 d" using own muxes Cons.prems(5,6) unfolding configured_def by auto
    then show ?thesis using True same [of d] w1 r by simp
  next
    case False
    then have a: "a \<in> set as" using Cons.prems(8) by simp
    have "registers w' a = map_option refreshed (registers w2 a)"
      by (rule Cons.IH [OF config_ok_tail [OF w(5)] w(6) _ Cons.prems(4) _ _ w(2) a]) (use Cons.prems(3,5,6) muxes in auto)
    then show ?thesis using same [of a] w1 a False by simp
  qed
qed simp

lemma leaf_pending:
  assumes slack: "slack \<noteq> []" and ok: "world_ok ord n A w [ParentTree Linker l (map RegisterLeaf as)]"
    and ind: "independent w (ParentTree Linker l (map RegisterLeaf as))" and len: "length as < 4294967295" and dist: "distinct as"
    and run: "Configure null slack algorithm (ParentTree Linker l (map RegisterLeaf as)) w = (Inr (), w')" and a: "a \<in> set as"
  shows "IsPending w' (RegisterLeaf a) = Inr (\<not> settled (register_of w a))"
proof -
  let ?cs = "map RegisterLeaf as" and ?t = "ParentTree Linker l (map RegisterLeaf as)"
  have own: "config_ok ord n A (touched w [?t]) (selector_links w [?t]) (set (forest_parents [?t])) w [?t]" using ok by (simp add: config_ok_def)
  have "length (forest_registers ?cs) < 4294967296" using len by (simp add: comp_def)
  from VisitLinker_phases [OF slack own ind this run] obtain w0 w1 R X P where w: "configured n R X P w w0" "registers w0 = registers w"
    "config_ok ord n A R X P w0 ?cs" "at_linker ord n A R X P w0 l (length ?cs)" "Configure_paths null slack algorithm l ?cs 1 w0 = (Inr (), w1)"
    "\<forall>c \<in> set ?cs. IsPending w' c = IsPending w1 c" by metis
  have "linker_muxes w0 l \<inter> set as = {}" using ind configured_muxes [OF w(1)] by (simp add: touched_leaves)
  then have "registers w1 a = map_option refreshed (registers w a)"
    using configured_leaves [OF slack w(3,4) _ _ dist _ w(5) a] len w(2) by simp
  moreover obtain r where "registers w a = Some r" "reg_inv (n a) r" using ok a by (auto simp: world_ok_def live_register_def)
  ultimately show ?thesis using w(6) a refreshed_pending by (simp add: register_at_def deref_def register_of_def)
qed

text \<open>A linker over two registers, the second of which waits to be written, with a selector on a third.\<close>

definition linked_world :: "PathSelector \<Rightarrow> World" where
  "linked_world sel = \<lparr>registers = (\<lambda>a. if a = 0 then Some (sample_reg 7 [False, False, False])
       else if a = 1 then Some (sample_reg 1 [False, True, True])
       else if a = 2 then Some ((sample_reg 2 [False, False, True])\<lparr>m_nextToSut := bv_make [True, True, True] Fixed\<rparr>) else None),
     parents = (\<lambda>a. if a = 5 then Some ((plain_node 9)\<lparr>m_pathSelector := Some 1\<rparr>) else None), selectors = (\<lambda>a. if a = 1 then Some sel else None)\<rparr>"

abbreviation linked_tree :: SystemTree where
  "linked_tree \<equiv> ParentTree Linker 5 (map RegisterLeaf [1, 2])"

lemma linked_world_ok:
  assumes "OneHot_of (Some 0) small_store 3 props = Inr sel" and "\<not> IsSet props StartAtZero_flag"
  shows "fits_by one_hot_built sel" "m_pathsCount sel = 3" "m_properties sel = props"
    "linked (linked_world sel) 5 1 sel" "mux_ok Downto (\<lambda>_. 3) {0} (m_muxRegisters sel) (registers (linked_world sel))"
    "world_ok Downto (\<lambda>_. 3) {0} (linked_world sel) [linked_tree]" "independent (linked_world sel) linked_tree"
    "\<not> settled (register_of (linked_world sel) 2)" "settled (register_of (linked_world sel) 1)"
proof -
  let ?w = "linked_world sel"
  obtain sel0 where sel: "OneHot_of (Some 0) small_store 3 props = Inr sel0" "one_hot_built sel0"
    "m_muxRegisters sel0 = single_vr 0 (sample_reg 7 [False, False, False])" "m_pathsCount sel0 = 3" "m_properties sel0 = props"
    using OneHot_of_built [of small_store 0, OF small_reg(1,2) _ _ _ assms(2), of 3] by auto
  have built: "one_hot_built sel" "m_muxRegisters sel = single_vr 0 (sample_reg 7 [False, False, False])" using sel assms(1) by simp_all
  show paths: "m_pathsCount sel = 3" "m_properties sel = props" using sel assms(1) by simp_all
  show fits: "fits_by one_hot_built sel"
    using built(1) one_hot_row_coded [OF built(1)] unfolding fits_by_def row_coded_def by (blast intro: same_selector_refl)
  show link: "linked ?w 5 1 sel" by (simp add: linked_def linked_world_def)
  have reg0: "registers ?w 0 = Some (sample_reg 7 [False, False, False])" by (simp add: linked_world_def)
  show mux: "mux_ok Downto (\<lambda>_. 3) {0} (m_muxRegisters sel) (registers ?w)"
    unfolding built(2) using single_vr_ok [of "registers ?w" 0, OF reg0 small_reg(2) _ _ small_reg(3)] by (simp add: sample_reg_def)
  have inv: "reg_inv 3 (sample_reg i [x, y, z])" for i x y z using sample_reg_inv [of "[x, y, z]" i] by (simp add: numeral_3_eq_3)
  have "live_register (\<lambda>_. 3) ?w 1" "live_register (\<lambda>_. 3) ?w 2"
    using inv [of 1] inv [of 2 False False True] by (simp_all add: live_register_def linked_world_def) (simp add: reg_inv_def)
  moreover have "sel_ok sel" using one_hot.fits_ok [OF fits] .
  moreover have "linker_ok Downto (\<lambda>_. 3) {0} ?w 5 2"
    using link mux paths \<open>sel_ok sel\<close> unfolding linker_ok_def by (intro exI [of _ 1] exI [of _ sel]) simp
  moreover have "parents ?w 5 \<noteq> None" by (simp add: linked_world_def)
  moreover have "store_ok Downto (\<lambda>_. 3) {0} (registers ?w)" using mux by (simp add: mux_ok_def)
  ultimately show "world_ok Downto (\<lambda>_. 3) {0} ?w [linked_tree]" unfolding world_ok_def by (simp add: numeral_2_eq_2)
  have "linker_muxes ?w 5 = {0}"
    using link by (auto simp: linker_muxes_def linked_def mux_addresses_def built(2) single_vr_def)
  moreover have "selector_links ?w (map RegisterLeaf [1, 2]) = {}" by (simp add: selector_links_def linkers_in_def)
  ultimately show "independent ?w linked_tree" by (simp add: touched_def linkers_in_def)
  show "\<not> settled (register_of ?w 2)" "settled (register_of ?w 1)"
    by (simp_all add: settled_def register_of_def linked_world_def) (simp_all add: sample_reg_def)
qed

lemma small_one_hot_of:
  "\<exists>sel. OneHot_of (Some 0) small_store 3 0 = Inr sel" "\<exists>sel. OneHot_of (Some 0) small_store 3 1 = Inr sel"
  "\<not> IsSet 0 StartAtZero_flag" "\<not> IsSet 1 StartAtZero_flag"
proof -
  show s: "\<not> IsSet 0 StartAtZero_flag" "\<not> IsSet 1 StartAtZero_flag" by (simp_all add: IsSet_def StartAtZero_flag_def)
  show "\<exists>sel. OneHot_of (Some 0) small_store 3 0 = Inr sel" "\<exists>sel. OneHot_of (Some 0) small_store 3 1 = Inr sel"
    using OneHot_of_built [of small_store 0, OF small_reg(1,2) _ _ _ s(1), of 3] OneHot_of_built [of small_store 0, OF small_reg(1,2) _ _ _ s(2), of 3]
    by auto
qed

theorem configuration_well_formed_witness:
  "\<exists>sel w'. OneHot_of (Some 0) small_store 3 0 = Inr sel \<and> Configure False [0] (Some Last_Lazy) linked_tree (linked_world sel) = (Inr (), w')
    \<and> world_ok Downto (\<lambda>_. 3) {0} w' [linked_tree]"
proof -
  obtain sel where sel: "OneHot_of (Some 0) small_store 3 0 = Inr sel" using small_one_hot_of(1) by blast
  from configuration_well_formed [of "[0]", OF _ linked_world_ok(6) [OF sel small_one_hot_of(3)]] sel show ?thesis by blast
qed

text \<open>C5: Configuration opens the right path. On a linker with a binary or one hot selector, with every
  algorithm except the one that closes paths, exactly one path is selected after Configure when some
  child is pending (and, with an algorithm, not on an active path): that of the last such child.\<close>

theorem pending_path_opened:
  assumes "fits_by binary_built sel \<or> fits_by one_hot_built sel" and "slack \<noteq> []" and "algorithm \<noteq> Some CloseAll"
    and "world_ok ord n A w [ParentTree Linker l cs]" and "independent w (ParentTree Linker l cs)"
    and "linked w l x sel" and "mux_ok ord n A (m_muxRegisters sel) (registers w)"
    and "length (forest_registers cs) < 4294967296" and "length cs \<le> m_pathsCount sel"
  shows "\<exists>w'. Configure null slack algorithm (ParentTree Linker l cs) w = (Inr (), w')
    \<and> (let S = {q. 1 \<le> q \<and> q \<le> length cs \<and> IsPending w' (cs ! (q - 1)) = Inr True
                   \<and> (algorithm = None \<or> Linker_IsActive w' l q = Inr False)}
       in S \<noteq> {} \<longrightarrow> (\<forall>q \<in> paths_of sel. Linker_IsSelected w' l q = Inr (q = Max S)))"
  using assms(1) binary.linker_opens [OF _ assms(2-9)] one_hot.linker_opens [OF _ assms(2-9)] by blast

theorem pending_path_opened_witness:
  "\<exists>sel w'. OneHot_of (Some 0) small_store 3 0 = Inr sel \<and> Configure False [0] None linked_tree (linked_world sel) = (Inr (), w')
    \<and> Linker_IsSelected w' 5 2 = Inr True \<and> Linker_IsSelected w' 5 1 = Inr False"
proof -
  obtain sel where sel: "OneHot_of (Some 0) small_store 3 0 = Inr sel" using small_one_hot_of(1) by blast
  note w = linked_world_ok [OF sel small_one_hot_of(3)]
  have sizes: "length (forest_registers (map RegisterLeaf [1, 2])) < 4294967296" "length (map RegisterLeaf [1, 2]) \<le> m_pathsCount sel"
    using w(2) by simp_all
  let ?S = "\<lambda>w'. {q. 1 \<le> q \<and> q \<le> length (map RegisterLeaf [1, 2]) \<and> IsPending w' (map RegisterLeaf [1, 2] ! (q - 1)) = Inr True
                   \<and> (None = (None :: ConfigurationAlgorithm option) \<or> Linker_IsActive w' 5 q = Inr False)}"
  obtain w' where w': "Configure False [0] None linked_tree (linked_world sel) = (Inr (), w')"
    "?S w' \<noteq> {} \<longrightarrow> (\<forall>q \<in> paths_of sel. Linker_IsSelected w' 5 q = Inr (q = Max (?S w')))"
    using pending_path_opened [of sel "[0]" None, OF _ _ _ w(6,7,4,5) sizes, of False] w(1) by (auto simp: Let_def)
  have "IsPending w' (RegisterLeaf 2) = Inr True"
    using leaf_pending [OF _ w(6,7) _ _ w'(1), of 2] w(8) by simp
  then have "2 \<in> ?S w'" by simp
  moreover have "q \<le> 2" if "q \<in> ?S w'" for q using that by simp
  moreover have "finite (?S w')" by (rule finite_subset [of _ "{..2}"]) auto
  ultimately have "Max (?S w') = 2" "?S w' \<noteq> {}" by (auto intro!: Max_eqI)
  moreover have "1 \<in> paths_of sel" "2 \<in> paths_of sel" using w(2) by (simp_all add: paths_of_def)
  ultimately show ?thesis using sel w' by auto
qed

text \<open>C33: Configuration closes what is not needed. On a linker whose binary or one hot selector may select
  none, when no child is pending after Configure without an algorithm or with one of the two that
  return to the default, no path is selected, unless a register of the multiplexer is pending.\<close>

theorem idle_paths_closed:
  assumes "fits_by binary_built sel \<or> fits_by one_hot_built sel" and "slack \<noteq> []"
    and "algorithm \<in> {None, Some LastOrDefault, Some LastOrDefault_Greedy}"
    and "world_ok ord n A w [ParentTree Linker l cs]" and "independent w (ParentTree Linker l cs)"
    and "linked w l x sel" and "mux_ok ord n A (m_muxRegisters sel) (registers w)"
    and "length (forest_registers cs) < 4294967296" and "CanSelectNone sel"
  shows "\<exists>w'. Configure null slack algorithm (ParentTree Linker l cs) w = (Inr (), w')
    \<and> ((\<forall>c \<in> set cs. IsPending w' c = Inr False) \<longrightarrow> (\<forall>q \<in> paths_of sel. Linker_IsSelected w' l q = Inr False) \<or> mux_waits sel (registers w'))"
  using assms(1) binary.linker_closes [OF _ assms(2-9)] one_hot.linker_closes [OF _ assms(2-9)] by blast

theorem idle_paths_closed_witness:
  "\<exists>sel w'. OneHot_of (Some 0) small_store 3 1 = Inr sel
    \<and> Configure False [0] (Some LastOrDefault) (ParentTree Linker 5 (map RegisterLeaf [1])) (linked_world sel) = (Inr (), w')
    \<and> IsPending w' (RegisterLeaf 1) = Inr False
    \<and> ((\<forall>q \<in> paths_of sel. Linker_IsSelected w' 5 q = Inr False) \<or> mux_waits sel (registers w'))"
proof -
  let ?t = "ParentTree Linker 5 (map RegisterLeaf [1])"
  obtain sel where sel: "OneHot_of (Some 0) small_store 3 1 = Inr sel" using small_one_hot_of(2) by blast
  note w = linked_world_ok [OF sel small_one_hot_of(4)]
  have none: "CanSelectNone sel" using w(3) by (simp add: CanSelectNone_def CanSelectNone_flag_def)
  have ok: "world_ok Downto (\<lambda>_. 3) {0} (linked_world sel) [?t]"
  proof -
    have "linker_ok Downto (\<lambda>_. 3) {0} (linked_world sel) 5 2" using w(6) by (simp add: world_ok_def numeral_2_eq_2)
    then have "linker_ok Downto (\<lambda>_. 3) {0} (linked_world sel) 5 1" unfolding linker_ok_def by (meson le_trans one_le_numeral)
    then show ?thesis using w(6) by (simp add: world_ok_def)
  qed
  have ind: "independent (linked_world sel) ?t" using w(7) by (simp add: touched_def selector_links_def linkers_in_def)
  obtain w' where w': "Configure False [0] (Some LastOrDefault) ?t (linked_world sel) = (Inr (), w')"
    "(\<forall>c \<in> set (map RegisterLeaf [1]). IsPending w' c = Inr False) \<longrightarrow>
       (\<forall>q \<in> paths_of sel. Linker_IsSelected w' 5 q = Inr False) \<or> mux_waits sel (registers w')"
    using idle_paths_closed [of sel "[0]" "Some LastOrDefault", OF _ _ _ ok ind w(4,5) _ none, of False] w(1) by auto
  have "IsPending w' (RegisterLeaf 1) = Inr False" using leaf_pending [OF _ ok ind _ _ w'(1), of 1] w(9) by simp
  then show ?thesis using sel w' by auto
qed

end
