(* ===== verification/Application_Properties.thy ===== *)
theory Application_Properties
  imports Tree_Properties Streamer_Levels
begin

text \<open>
  What the requests of application threads and the streamers promise.
\<close>

section \<open>Requests of the application threads\<close>

text \<open>C7: The queued requests of a thread take effect in order. Processing them empties the three queues;
  each written register holds the value of the last write to it, and the thread waits for it when that
  value differs from the one sent last; every register to be refreshed or read is marked for reading
  and the thread waits for it. No other thread's data changes.\<close>

theorem requests_take_effect:
  fixes m :: "'a Manager_scheme"
  assumes "m_threadToAppData m t = Some d" and "t \<noteq> m_managerThreadId m"
    and "list_all2 (write_ok n m) (queuedWrites d) ws" and "list_all2 (addressed n m) (queuedRefreshes d) fs"
    and "list_all2 (read_ok n m) (queuedReads d) rs"
  shows "\<exists>m'. ProcessQueuedRequests null slack t m = (Inr (), m')
    \<and> (\<exists>d'. m_threadToAppData m' t = Some d' \<and> queuedWrites d' = [] \<and> queuedReads d' = [] \<and> queuedRefreshes d' = [])
    \<and> (\<forall>a \<in> set ws. last_written (queuedWrites d) ws a = Some (bits_of (m_nextToSut (register_of (system m') a)))
         \<and> (bits_of (m_nextToSut (register_of (system m') a)) \<noteq> bits_of (m_lastToSut (register_of (system m') a)) \<longrightarrow> awaited t m' a))
    \<and> (\<forall>a \<in> set fs \<union> set rs. awaited t m' a \<and> m_pendingRead (register_of (system m') a))
    \<and> (\<forall>u. u \<noteq> t \<longrightarrow> m_threadToAppData m' u = m_threadToAppData m u)"
  using ProcessQueuedRequests_eq [OF assms, of null slack]
  by (simp add: processed_def asked_def next_bits_of_def to_send_def to_read_def) blast

definition asking_manager :: Manager where
  "asking_manager = \<lparr>system = small_world, identifierMapping = small_ids, m_managerThreadId = 1,
     m_threadToAppData = (\<lambda>t. if t = 5 then Some ((ApplicationData_create Running)\<lparr>
         queuedWrites := [QueuedRequest_create (SingleRegister 0) (bv_make [True, False] NotFixed) (bv_make [] NotFixed),
                          QueuedRequest_create (SingleRegister 0) (bv_make [False, False] NotFixed) (bv_make [] NotFixed)],
         queuedReads := [QueuedRequest_create (SingleRegister 1) (bv_make [True] NotFixed) (bv_make [] NotFixed)]\<rparr>) else None),
     m_regIdToAppData = [], m_pendingThreads = {}\<rparr>"

theorem requests_take_effect_witness:
  "\<exists>m'. ProcessQueuedRequests False [0] 5 asking_manager = (Inr (), m')
    \<and> bits_of (m_nextToSut (register_of (system m') 0)) = [False, False] \<and> awaited 5 m' 1"
proof -
  let ?ws = "[QueuedRequest_create (SingleRegister 0) (bv_make [True, False] NotFixed) (bv_make [] NotFixed),
    QueuedRequest_create (SingleRegister 0) (bv_make [False, False] NotFixed) (bv_make [] NotFixed)]"
  let ?rs = "[QueuedRequest_create (SingleRegister (Suc 0)) (bv_make [True] NotFixed) (bv_make [] NotFixed)]"
  let ?d = "(ApplicationData_create Running)\<lparr>queuedWrites := ?ws, queuedReads := ?rs\<rparr>"
  have d: "m_threadToAppData asking_manager 5 = Some ?d" "5 \<noteq> m_managerThreadId asking_manager" by (simp_all add: asking_manager_def)
  have sys: "system asking_manager = small_world" "identifierMapping asking_manager = small_ids" by (simp_all add: asking_manager_def)
  have ids: "RegisterWithId small_ids 0 = Inr (Some 0)" "RegisterWithId small_ids (Suc 0) = Inr (Some (Suc 0))"
    by (simp_all add: RegisterWithId_def NodeWithId_def small_ids_def)
  have "list_all2 (write_ok small_sizes asking_manager) (queuedWrites ?d) [0, 0]"
    using small_live by (simp add: write_ok_def addressed_def sys QueuedRequest_create_def small_registers small_flags ids small_sizes_def)
  moreover have "list_all2 (read_ok small_sizes asking_manager) (queuedReads ?d) [Suc 0]"
    using small_live
    by (simp add: read_ok_def write_ok_def addressed_def sys QueuedRequest_create_def small_registers small_flags ids small_sizes_def)
  moreover have "list_all2 (addressed small_sizes asking_manager) (queuedRefreshes ?d) []" by (simp add: ApplicationData_create_def)
  ultimately show ?thesis
    using requests_take_effect [OF d, of small_sizes "[0, 0]" "[]" "[Suc 0]" False "[0]"]
    by (auto simp: QueuedRequest_create_def ApplicationData_create_def)
qed

section \<open>Streamers\<close>

text \<open>C34: The masks of a Trivium streamer consume the key stream without gaps. NewMask returns the next
  bits of the stream, the last bit first, taking first what an earlier mask left over; afterwards the
  stream continues behind them, whatever the widths of the masks, although the cipher only delivers
  whole bytes. A transparent streamer masks with zeroes.\<close>

theorem masks_consume_stream:
  assumes "protocol_ok p" and "keystream_of get_keystream ks" and "n < 4294967281" and "length (bits_of (m_Residual_Xor_Mask p)) < 4294967281"
  shows "\<exists>p'. NewMask get_keystream n p = (Inr (bv_make (rev (map (stream_bit ks p) [0..<n])) NotFixed), p')
    \<and> protocol_ok p' \<and> streamer_kind p' = streamer_kind p \<and> (\<forall>i. stream_bit ks p' i = stream_bit ks p (n + i))"
  using NewMask_eq [OF assms] by (simp add: new_mask_def renewed_def) blast

text \<open>A cipher whose key stream is all ones.\<close>

definition ones_cipher :: "unit cipher_object" where
  "ones_cipher n k = (Inr (replicate (n div 4) CHR ''F''), k)"

lemma ones_keystream: "keystream_of ones_cipher (\<lambda>_ _. True)"
proof -
  have F: "nibble_of CHR ''F'' = replicate 4 True"
    by (simp add: nibble_of_def hex_value_def isdigit_def digit_value_def byte_bits_def numeral_eq_Suc)
  have bits: "hex_bits (replicate m CHR ''F'') = replicate (4 * m) True" for m
    by (induction m) (simp_all add: F replicate_add)
  have digits: "hex_text (replicate m CHR ''F'')" for m by (simp add: hex_text_def hex_digit_def hex_value_def)
  have "\<exists>hexText k'. ones_cipher n k = (Inr hexText, k') \<and> hex_text hexText \<and> dropWhile leading_blank hexText \<noteq> []
      \<and> hex_bits hexText = map ((\<lambda>_ _. True) k) [0..<n]" if n: "n mod 8 = 0" "0 < n" for n and k :: unit
  proof -
    have "4 * (n div 4) = n" "0 < n div 4" using n by presburger+
    then show ?thesis using bits [of "n div 4"] digits
      by (simp add: ones_cipher_def leading_blank_def map_replicate_const)
  qed
  then show ?thesis unfolding keystream_of_def by auto
qed

definition trivium :: "bool list \<Rightarrow> unit StreamerProtocol" where
  "trivium rest = \<lparr>streamer_kind = TriviumStreamer, m_CurrentMask = bv_make [] NotFixed, m_Trinvium_Xor_Mask = bv_make [] NotFixed,
     m_Residual_Xor_Mask = bv_make rest NotFixed, cipher = ()\<rparr>"

lemma trivium_ok: "length rest < 4294967281 \<Longrightarrow> protocol_ok (trivium rest)" "bits_of (m_Residual_Xor_Mask (trivium rest)) = rest"
  by (simp_all add: protocol_ok_def trivium_def)

theorem masks_consume_stream_witness:
  "\<exists>p'. NewMask ones_cipher 10 (trivium [False, True, False])
    = (Inr (bv_make [True, True, True, True, True, True, True, False, True, False] NotFixed), p')"
proof -
  have "length (bits_of (m_Residual_Xor_Mask (trivium [False, True, False]))) < 4294967281" by (simp add: trivium_ok)
  from masks_consume_stream [OF trivium_ok(1) ones_keystream _ this, of 10] show ?thesis
    by (simp add: stream_bit_def trivium_def upt_conv_Cons) blast
qed

text \<open>C3: Encoding and decoding invert nested streamers in the circuit. A vector encoded through the levels
  of the active streamers arrives in the registers as it was, after the streamers of the circuit have
  added their masks to every bit that crosses their ends; and what the registers hold when the scan
  begins is what decoding returns, with the levels undone from the last to the first.\<close>

theorem streamers_inverted:
  fixes b :: "('s, 'k) Bench"
  assumes ok: "\<forall>lv \<in> set lvs. level_ok b (length xs) lv" "distinct (map (level_address b) lvs)" and ks: "keystream_of gk ks"
    and len: "length xs < 4294967281" "length captured = length xs" and active: "m_ActiveStreamers b = lvs"
  shows "\<exists>sent b'. encode_levels gk lvs (bv_make xs NotFixed) b = (Inr (bv_make sent NotFixed), b')
    \<and> fst (scan (map (masked_level ks b (length xs)) lvs) captured sent) = xs
    \<and> decode_levels gk (rev lvs) (bv_make (snd (scan (map (masked_level ks b (length xs)) lvs) captured sent)) NotFixed) b'
        = (Inr (bv_make captured NotFixed), b'\<lparr>m_ActiveStreamers := []\<rparr>)"
proof -
  let ?ls = "map (masked_level ks b (length xs)) lvs" and ?sent = "encode_all (map (masked_level ks b (length xs)) lvs) xs"
  obtain b' where b': "encode_levels gk lvs (bv_make xs NotFixed) b = (Inr (bv_make ?sent NotFixed), b')" "masks_made ks (length xs) lvs b b'"
    using encode_levels_eq [OF ok ks len(1)] by blast
  have levels: "levels_ok (length xs) ?ls"
    using ok(1) by (auto simp: levels_ok_def masked_level_def level_ok_def)
  note inverts = circuit_inverts [OF levels refl len(2)]
  let ?out = "snd (scan ?ls captured ?sent)"
  have out: "length ?out = length xs" using scan_eq [OF len(2)] levels by simp
  have eq: "b' = b\<lparr>streamer_protocols := streamer_protocols b'\<rparr>" using b'(2) unfolding masks_made_def by blast
  have same: "identifierMapping b' = identifierMapping b" "m_ActiveStreamers b' = lvs"
    by (subst eq, simp) (subst eq, simp add: active)
  have hold: "holds_mask b' (length xs) lv (masked_level ks b (length xs) lv)" if lv: "lv \<in> set lvs" for lv
  proof -
    obtain f e ident where v: "lv = (f, e, ident)" by (cases lv)
    obtain p where p: "f < e" "e \<le> length xs" "streamer_with_id ident b = Inr (level_address b lv)" "streamer_protocols b (level_address b lv) = Some p"
      using ok(1) lv unfolding v by (meson level_okE)
    obtain p' where p': "streamer_protocols b' (level_address b lv) = Some p'" "renewed ks (length xs) p p'"
      using b'(2) lv p(4) unfolding masks_made_def by fastforce
    have "streamer_with_id ident b' = Inr (level_address b lv)"
      using p(3) p'(1) same(1) by (auto simp: streamer_with_id_def rbind_def split: sum.splits NodeRef.splits if_splits)
    then show ?thesis using p p' new_mask_quiet [of p] v by (simp add: holds_mask_def masked_level_def renewed_def)
  qed
  have "list_all2 (holds_mask b' (length ?out)) lvs ?ls" unfolding out using hold by (simp add: list_all2_conv_all_nth)
  from decode_levels_eq [OF this, of gk] have "decode_levels gk (rev lvs) (bv_make ?out NotFixed) b'
      = (Inr (bv_make captured NotFixed), b'\<lparr>m_ActiveStreamers := []\<rparr>)" using out len(1) inverts(2) same(2) by simp
  then show ?thesis using b'(1) inverts(1) by blast
qed

definition streamer_bench :: "(unit, unit) Bench" where
  "streamer_bench = small_bench\<lparr>identifierMapping := [None, None, Some (ParentRef 3), Some (ParentRef 4)],
     streamer_protocols := (\<lambda>a. if a = 3 then Some (trivium []) else if a = 4 then Some (trivium [True, False]) else None),
     m_ActiveStreamers := [(1, 3, 2), (0, 4, 3)]\<rparr>"

theorem streamers_inverted_witness:
  "\<exists>sent b' ls. encode_levels ones_cipher [(1, 3, 2), (0, 4, 3)] (bv_make [True, False, True, True] NotFixed) streamer_bench
      = (Inr (bv_make sent NotFixed), b')
    \<and> fst (scan ls [False, True, True, False] sent) = [True, False, True, True]
    \<and> fst (decode_levels ones_cipher [(0, 4, 3), (1, 3, 2)] (bv_make (snd (scan ls [False, True, True, False] sent)) NotFixed) b')
        = Inr (bv_make [False, True, True, False] NotFixed)"
proof -
  let ?lvs = "[(1, 3, 2), (0, 4, 3)] :: (nat \<times> nat \<times> nat) list" and ?xs = "[True, False, True, True]" and ?c = "[False, True, True, False]"
  have "\<forall>lv \<in> set ?lvs. level_ok streamer_bench (length ?xs) lv"
    by (simp add: level_ok_def streamer_bench_def NodeWithId_def trivium_ok)
  moreover have "distinct (map (level_address streamer_bench) ?lvs)"
    by (simp add: level_address_def streamer_address_def streamer_bench_def NodeWithId_def)
  moreover have "m_ActiveStreamers streamer_bench = ?lvs" by (simp add: streamer_bench_def)
  ultimately obtain sent b' where s: "encode_levels ones_cipher ?lvs (bv_make ?xs NotFixed) streamer_bench = (Inr (bv_make sent NotFixed), b')"
    "fst (scan (map (masked_level (\<lambda>_ _. True) streamer_bench (length ?xs)) ?lvs) ?c sent) = ?xs"
    "decode_levels ones_cipher (rev ?lvs)
       (bv_make (snd (scan (map (masked_level (\<lambda>_ _. True) streamer_bench (length ?xs)) ?lvs) ?c sent)) NotFixed) b'
      = (Inr (bv_make ?c NotFixed), b'\<lparr>m_ActiveStreamers := []\<rparr>)"
    using streamers_inverted [OF _ _ ones_keystream, of ?lvs streamer_bench ?xs ?c] by auto
  show ?thesis by (rule exI, rule exI, rule exI, rule conjI [OF s(1) conjI [OF s(2)]]) (use s(3) in simp)
qed

end
