(* ===== verification/Node_Links.thy ===== *)
theory Node_Links
  imports Data_Cycle
begin

text \<open>
  The pointers between the nodes of a model: \<^verbatim>\<open>SystemModelNode.cpp\<close> and the child lists of
  \<^verbatim>\<open>ParentNode.cpp\<close>. Nodes are found in a heap under their address, which tells registers from parent
  nodes; a null pointer is \<open>None\<close>. The children of a parent are the chain of next siblings that begins
  at its first child. A chain may be circular: then a loop over it does not end, and the outcome is \<open>None\<close>.
\<close>

section \<open>Nodes\<close>

record RegistersAlias =
  m_baseName :: string
  m_virtualRegister :: VirtualRegister

text \<open>
  The members only parent nodes have are part of the same record; the other members of a node are those of
  \<open>World\<close>, under the same address.
\<close>

record Links =
  m_pNextSibling :: "NodeRef option"
  node_class :: NodeClass
  m_pFirstChild :: "NodeRef option"
  m_pOptionalChildAppender :: "nat option"
  m_aliases :: "RegistersAlias list"

type_synonym heap = "NodeRef \<Rightarrow> Links option"

type_synonym ('s, 'a) run = "'s \<Rightarrow> ('a result \<times> 's) option"

text \<open>Looking at nodes without changing them.\<close>

type_synonym 'a search = "heap \<Rightarrow> 'a result option"

definition search_bind :: "'a result option \<Rightarrow> ('a \<Rightarrow> 'b result option) \<Rightarrow> 'b result option" where
  "search_bind res f = Option.bind res (\<lambda>r. case r of Inl e \<Rightarrow> Some (Inl e) | Inr x \<Rightarrow> f x)"

definition node_at :: "heap \<Rightarrow> NodeRef \<Rightarrow> Links result" where
  "node_at h p = (case h p of None \<Rightarrow> Inl UndefinedBehaviour | Some nd \<Rightarrow> Inr nd)"

definition put_node :: "NodeRef \<Rightarrow> (Links \<Rightarrow> Links) \<Rightarrow> (heap, unit) act" where
  "put_node p f h = (case h p of None \<Rightarrow> (Inl UndefinedBehaviour, h) | Some nd \<Rightarrow> (Inr (), h(p \<mapsto> f nd)))"

definition set_next :: "NodeRef option \<Rightarrow> Links \<Rightarrow> Links" where
  "set_next q nd = nd\<lparr>m_pNextSibling := q\<rparr>"

definition set_first :: "NodeRef option \<Rightarrow> Links \<Rightarrow> Links" where
  "set_first q nd = nd\<lparr>m_pFirstChild := q\<rparr>"

section \<open>Siblings\<close>

partial_function (option) AppendSibling :: "NodeRef \<Rightarrow> NodeRef option \<Rightarrow> (heap, unit) run" where
  "AppendSibling p pSibling h =
    (case h p of None \<Rightarrow> Some (Inl UndefinedBehaviour, h)
     | Some nd \<Rightarrow> (case m_pNextSibling nd of
         Some q \<Rightarrow> AppendSibling q pSibling h
       | None \<Rightarrow> Some (Inr (), h(p \<mapsto> set_next pSibling nd))))"

definition SpliceSibling :: "NodeRef \<Rightarrow> NodeRef option \<Rightarrow> (heap, unit) act" where
  "SpliceSibling p pSibling =
    (case pSibling of None \<Rightarrow> act_throw InvalidArgument
     | Some s \<Rightarrow> act_bind (act_read (\<lambda>h. node_at h p)) (\<lambda>nd.
         if m_pNextSibling nd \<noteq> None
         then act_bind (act_read (\<lambda>h. node_at h s)) (\<lambda>sibling.
                if m_pNextSibling sibling \<noteq> None then act_throw RuntimeError
                else act_then (put_node s (set_next (m_pNextSibling nd))) (put_node p (set_next (Some s))))
         else put_node p (set_next (Some s))))"

section \<open>Children\<close>

partial_function (option) AppendChild :: "nat \<Rightarrow> NodeRef option \<Rightarrow> (heap, unit) run" where
  "AppendChild a pChild h =
    (case h (ParentRef a) of None \<Rightarrow> Some (Inl UndefinedBehaviour, h)
     | Some nd \<Rightarrow> (case m_pOptionalChildAppender nd of
         Some b \<Rightarrow> AppendChild b pChild h
       | None \<Rightarrow> (case m_pFirstChild nd of
           Some c \<Rightarrow> AppendSibling c pChild h
         | None \<Rightarrow> Some (Inr (), h(ParentRef a \<mapsto> set_first pChild nd)))))"

partial_function (option) PrependChild :: "nat \<Rightarrow> NodeRef option \<Rightarrow> (heap, unit) run" where
  "PrependChild a pChild h =
    (case h (ParentRef a) of None \<Rightarrow> Some (Inl UndefinedBehaviour, h)
     | Some nd \<Rightarrow> (case m_pOptionalChildAppender nd of
         Some b \<Rightarrow> PrependChild b pChild h
       | None \<Rightarrow> (case m_pFirstChild nd of
           Some c \<Rightarrow> (case pChild of None \<Rightarrow> Some (Inl UndefinedBehaviour, h)
             | Some q \<Rightarrow> (case AppendSibling q (Some c) h of
                 Some (Inr u, h1) \<Rightarrow> Some (put_node (ParentRef a) (set_first pChild) h1)
               | r \<Rightarrow> r))
         | None \<Rightarrow> Some (Inr (), h(ParentRef a \<mapsto> set_first pChild nd)))))"

partial_function (option) DeepestChildAppender_loop :: "nat \<Rightarrow> nat option search" where
  "DeepestChildAppender_loop appender h =
    (case h (ParentRef appender) of None \<Rightarrow> Some (Inl UndefinedBehaviour)
     | Some nd \<Rightarrow> (case m_pOptionalChildAppender nd of
         None \<Rightarrow> Some (Inr (Some appender))
       | Some nextAppender \<Rightarrow> DeepestChildAppender_loop nextAppender h))"

definition DeepestChildAppender :: "nat \<Rightarrow> nat option search" where
  "DeepestChildAppender a h =
    (case h (ParentRef a) of None \<Rightarrow> Some (Inl UndefinedBehaviour)
     | Some nd \<Rightarrow> (case m_pOptionalChildAppender nd of
         None \<Rightarrow> Some (Inr None) | Some b \<Rightarrow> DeepestChildAppender_loop b h))"

function ChildrenCount_loop :: "heap \<Rightarrow> NodeRef option \<Rightarrow> nat \<Rightarrow> nat result" where
  "ChildrenCount_loop h None count = Inr count"
| "ChildrenCount_loop h (Some child) count =
    (if count + 1 > 10000 then Inl LogicError
     else case h child of None \<Rightarrow> Inl UndefinedBehaviour
       | Some nd \<Rightarrow> ChildrenCount_loop h (m_pNextSibling nd) (count + 1))"
  by pat_completeness auto

termination
  by (relation "measure (\<lambda>(h, child, count). 10001 - count)") auto

definition DirectChildrenCount :: "nat \<Rightarrow> heap \<Rightarrow> nat result" where
  "DirectChildrenCount a h = rbind (node_at h (ParentRef a)) (\<lambda>nd. ChildrenCount_loop h (m_pFirstChild nd) 0)"

definition HasChildren :: "nat \<Rightarrow> heap \<Rightarrow> bool result" where
  "HasChildren a h = rbind (node_at h (ParentRef a)) (\<lambda>nd. Inr (m_pFirstChild nd \<noteq> None))"

partial_function (option) HasDirectChild_loop :: "NodeRef \<Rightarrow> NodeRef option \<Rightarrow> bool search" where
  "HasDirectChild_loop nodeRef currentChild h =
    (case currentChild of None \<Rightarrow> Some (Inr False)
     | Some c \<Rightarrow> if c = nodeRef then Some (Inr True)
         else (case h c of None \<Rightarrow> Some (Inl UndefinedBehaviour)
               | Some nd \<Rightarrow> HasDirectChild_loop nodeRef (m_pNextSibling nd) h))"

definition HasDirectChild :: "nat \<Rightarrow> NodeRef option \<Rightarrow> bool search" where
  "HasDirectChild a nodeRef h =
    (case nodeRef of None \<Rightarrow> Some (Inl InvalidArgument)
     | Some p \<Rightarrow> (case h (ParentRef a) of None \<Rightarrow> Some (Inl UndefinedBehaviour)
         | Some nd \<Rightarrow> HasDirectChild_loop p (m_pFirstChild nd) h))"

section \<open>Disconnecting children\<close>

definition DisconnectAllChildren :: "nat \<Rightarrow> (heap, NodeRef option) act" where
  "DisconnectAllChildren a =
    act_bind (act_read (\<lambda>h. node_at h (ParentRef a))) (\<lambda>nd.
    act_then (put_node (ParentRef a) (set_first None)) (act_return (m_pFirstChild nd)))"

definition clear_appender :: "NodeRef \<Rightarrow> Links \<Rightarrow> Links" where
  "clear_appender sibling nd =
    (if map_option ParentRef (m_pOptionalChildAppender nd) = Some sibling then nd\<lparr>m_pOptionalChildAppender := None\<rparr> else nd)"

text \<open>The next sibling of the disconnected node stays as it is.\<close>

definition DisconnectSibling :: "nat \<Rightarrow> NodeRef option \<Rightarrow> NodeRef \<Rightarrow> (heap, unit) act" where
  "DisconnectSibling a beforeNode sibling =
    act_bind (act_read (\<lambda>h. node_at h sibling)) (\<lambda>nd.
    act_then (case beforeNode of Some p \<Rightarrow> put_node p (set_next (m_pNextSibling nd))
                               | None \<Rightarrow> put_node (ParentRef a) (set_first (m_pNextSibling nd)))
             (put_node (ParentRef a) (clear_appender sibling)))"

partial_function (option) DisconnectChild_loop :: "nat \<Rightarrow> NodeRef \<Rightarrow> NodeRef option \<Rightarrow> NodeRef \<Rightarrow> (heap, unit) run" where
  "DisconnectChild_loop a child previousSibling currentChild h =
    (if currentChild = child then Some (DisconnectSibling a previousSibling currentChild h)
     else case h currentChild of None \<Rightarrow> Some (Inl UndefinedBehaviour, h)
       | Some nd \<Rightarrow> (case m_pNextSibling nd of None \<Rightarrow> Some (Inl RuntimeError, h)
           | Some nextChild \<Rightarrow> DisconnectChild_loop a child (Some currentChild) nextChild h))"

definition DisconnectChild :: "nat \<Rightarrow> NodeRef option \<Rightarrow> (heap, unit) run" where
  "DisconnectChild a child h =
    (case child of None \<Rightarrow> Some (Inl InvalidArgument, h)
     | Some c \<Rightarrow> (case h (ParentRef a) of None \<Rightarrow> Some (Inl UndefinedBehaviour, h)
         | Some nd \<Rightarrow> (case m_pFirstChild nd of None \<Rightarrow> Some (Inl RuntimeError, h)
             | Some firstChild \<Rightarrow> DisconnectChild_loop a c None firstChild h)))"

partial_function (option) DisconnectChannel_loop ::
    "nat \<Rightarrow> nat \<Rightarrow> nat \<Rightarrow> NodeRef option \<Rightarrow> NodeRef \<Rightarrow> (heap, NodeRef) run" where
  "DisconnectChannel_loop a channelId currentId previousSibling currentChild h =
    (if currentId = channelId
     then Some (act_then (DisconnectSibling a previousSibling currentChild) (act_return currentChild) h)
     else case h currentChild of None \<Rightarrow> Some (Inl UndefinedBehaviour, h)
       | Some nd \<Rightarrow> (case m_pNextSibling nd of None \<Rightarrow> Some (Inl RuntimeError, h)
           | Some nextChild \<Rightarrow> DisconnectChannel_loop a channelId (u32 (currentId + 1)) (Some currentChild) nextChild h))"

definition DisconnectChannel :: "nat \<Rightarrow> nat \<Rightarrow> (heap, NodeRef) run" where
  "DisconnectChannel a channelId h =
    (if channelId = 0 then Some (Inl InvalidArgument, h)
     else case h (ParentRef a) of None \<Rightarrow> Some (Inl UndefinedBehaviour, h)
       | Some nd \<Rightarrow> (case m_pFirstChild nd of None \<Rightarrow> Some (Inl RuntimeError, h)
           | Some firstChild \<Rightarrow> DisconnectChannel_loop a channelId 1 None firstChild h))"

section \<open>The list of nodes a chain represents\<close>

fun siblings :: "heap \<Rightarrow> NodeRef option \<Rightarrow> NodeRef list \<Rightarrow> bool" where
  "siblings h p [] \<longleftrightarrow> p = None"
| "siblings h p (x # xs) \<longleftrightarrow> p = Some x \<and> (case h x of None \<Rightarrow> False | Some nd \<Rightarrow> siblings h (m_pNextSibling nd) xs)"

definition children_are :: "heap \<Rightarrow> nat \<Rightarrow> NodeRef list \<Rightarrow> bool" where
  "children_are h a xs \<longleftrightarrow> (\<exists>nd. h (ParentRef a) = Some nd \<and> siblings h (m_pFirstChild nd) xs)"

lemma siblings_Cons: "siblings h p (x # xs) \<longleftrightarrow> (\<exists>nd. p = Some x \<and> h x = Some nd \<and> siblings h (m_pNextSibling nd) xs)"
  by (auto split: option.splits)

lemma siblings_None [simp]: "siblings h None xs \<longleftrightarrow> xs = []"
  by (cases xs) auto

lemma siblings_head: "siblings h (Some x) zs \<Longrightarrow> x \<in> set zs"
  by (cases zs) auto

lemma siblings_unique: "siblings h p xs \<Longrightarrow> siblings h p ys \<Longrightarrow> xs = ys"
proof (induction xs arbitrary: p ys)
  case (Cons x xs)
  then show ?case by (cases ys) (auto split: option.splits)
qed auto

lemma siblings_suffix: "siblings h p (xs @ x # ys) \<Longrightarrow> siblings h (Some x) (x # ys)"
proof (induction xs arbitrary: p)
  case Nil
  then show ?case by (simp split: option.splits)
next
  case (Cons z zs)
  from Cons.prems obtain nd where "h z = Some nd" "siblings h (m_pNextSibling nd) (zs @ x # ys)" unfolding append_Cons siblings_Cons by blast
  from this(2) show ?case by (rule Cons.IH)
qed

text \<open>A chain that ends has no node twice.\<close>

lemma siblings_distinct: "siblings h p xs \<Longrightarrow> distinct xs"
proof (induction xs arbitrary: p)
  case (Cons x xs)
  obtain nd where nd: "p = Some x" "h x = Some nd" "siblings h (m_pNextSibling nd) xs" using Cons.prems unfolding siblings_Cons by blast
  have "x \<notin> set xs"
  proof
    assume "x \<in> set xs"
    then obtain as bs where xs: "xs = as @ x # bs" by (meson split_list)
    then have "siblings h (Some x) (x # bs)" using siblings_suffix nd(3) by blast
    moreover have "siblings h (Some x) (x # xs)" using Cons.prems nd(1) by simp
    ultimately have "x # bs = x # xs" by (rule siblings_unique)
    then show False using xs by (auto dest: arg_cong [of _ _ length])
  qed
  then show ?case using Cons.IH nd(3) by simp
qed simp

lemma siblings_cong: "(\<And>x. x \<in> set xs \<Longrightarrow> map_option m_pNextSibling (h' x) = map_option m_pNextSibling (h x)) \<Longrightarrow> siblings h' p xs = siblings h p xs"
proof (induction xs arbitrary: p)
  case (Cons x xs)
  have "map_option m_pNextSibling (h' x) = map_option m_pNextSibling (h x)" by (rule Cons.prems) simp
  then show ?case using Cons by (cases "h x"; cases "h' x") auto
qed simp

lemma siblings_update: "x \<notin> set xs \<Longrightarrow> siblings (h(x \<mapsto> nd)) p xs = siblings h p xs"
  by (rule siblings_cong) auto

lemma siblings_alive: "siblings h p xs \<Longrightarrow> x \<in> set xs \<Longrightarrow> h x \<noteq> None"
  by (induction xs arbitrary: p) (auto split: option.splits)

section \<open>Appending\<close>

lemma next_update [simp]: "m_pFirstChild (set_next q nd) = m_pFirstChild nd" "m_pNextSibling (set_next q nd) = q"
  "m_pFirstChild (set_first q nd) = q" "m_pNextSibling (set_first q nd) = m_pNextSibling nd"
  "m_pOptionalChildAppender (set_next q nd) = m_pOptionalChildAppender nd" "m_pOptionalChildAppender (set_first q nd) = m_pOptionalChildAppender nd"
  by (simp_all add: set_next_def set_first_def)

lemma siblings_extended:
  assumes "siblings h p (xs @ l # zs)" and "h l = Some nd" and "siblings h q ys" and "l \<notin> set ys"
  shows "siblings (h(l \<mapsto> set_next q nd)) p (xs @ l # ys)"
  using assms(1)
proof (induction xs arbitrary: p)
  case Nil
  have "siblings (h(l \<mapsto> set_next q nd)) q ys" unfolding siblings_update [OF assms(4)] by (rule assms(3))
  moreover have "p = Some l" using Nil by (simp split: option.splits)
  ultimately show ?case unfolding append_Nil siblings_Cons by (intro exI [of _ "set_next q nd"]) simp
next
  case (Cons x xs)
  obtain nx where x: "p = Some x" "h x = Some nx" "siblings h (m_pNextSibling nx) (xs @ l # zs)"
    using Cons.prems unfolding append_Cons siblings_Cons by blast
  have "distinct (x # xs @ l # zs)" using siblings_distinct [OF Cons.prems] by simp
  then have "x \<noteq> l" by auto
  then show ?case unfolding append_Cons siblings_Cons by (intro exI [of _ nx] conjI Cons.IH x(1,3)) (simp add: x(2))
qed

lemma AppendSibling_eq:
  assumes "siblings h (Some x) (xs @ [l])"
  shows "\<exists>nd. h l = Some nd \<and> AppendSibling x q h = Some (Inr (), h(l \<mapsto> set_next q nd))"
  using assms
proof (induction xs arbitrary: x)
  case Nil
  then obtain nd where nd: "h l = Some nd" "m_pNextSibling nd = None" "x = l" by (auto split: option.splits)
  then show ?case by (intro exI [of _ nd]) (subst AppendSibling.simps, simp)
next
  case (Cons y ys)
  obtain z zs where z: "ys @ [l] = z # zs" by (cases ys) auto
  obtain nd where nd: "h x = Some nd" "siblings h (m_pNextSibling nd) (ys @ [l])"
    using Cons.prems unfolding append_Cons siblings_Cons by blast
  then have nz: "m_pNextSibling nd = Some z" by (simp add: z)
  have step: "AppendSibling x q h = AppendSibling z q h" by (subst AppendSibling.simps) (simp add: nd(1) nz)
  show ?case unfolding step by (rule Cons.IH) (use nd(2) nz in simp)
qed

definition plain_parent :: "heap \<Rightarrow> nat \<Rightarrow> bool" where
  "plain_parent h a \<longleftrightarrow> (\<exists>nd. h (ParentRef a) = Some nd \<and> m_pOptionalChildAppender nd = None)"

text \<open>Only the first child of \<open>a\<close> and the next siblings of the nodes of \<open>S\<close> may differ.\<close>

definition relinked :: "nat \<Rightarrow> NodeRef set \<Rightarrow> heap \<Rightarrow> heap \<Rightarrow> bool" where
  "relinked a S h h' \<longleftrightarrow> (\<forall>x. map_option (\<lambda>nd. nd\<lparr>m_pNextSibling := None, m_pFirstChild := None\<rparr>) (h' x)
      = map_option (\<lambda>nd. nd\<lparr>m_pNextSibling := None, m_pFirstChild := None\<rparr>) (h x)
    \<and> (x \<noteq> ParentRef a \<longrightarrow> map_option m_pFirstChild (h' x) = map_option m_pFirstChild (h x))
    \<and> (x \<notin> S \<longrightarrow> map_option m_pNextSibling (h' x) = map_option m_pNextSibling (h x)))"

lemma relinked_refl [simp]: "relinked a S h h"
  by (simp add: relinked_def)

lemma relinked_mono: "relinked a S h h' \<Longrightarrow> S \<subseteq> T \<Longrightarrow> relinked a T h h'"
  unfolding relinked_def by blast

lemma relinked_trans: "relinked a S h h1 \<Longrightarrow> relinked a S h1 h2 \<Longrightarrow> relinked a S h h2"
  by (simp add: relinked_def)

lemma relinked_first: "h (ParentRef a) = Some nd \<Longrightarrow> relinked a S h (h(ParentRef a \<mapsto> set_first q nd))"
  by (auto simp: relinked_def set_first_def)

lemma relinked_next: "h x = Some nd \<Longrightarrow> x \<in> S \<Longrightarrow> relinked a S h (h(x \<mapsto> set_next q nd))"
  by (auto simp: relinked_def set_next_def)

lemma relinked_next_same: "relinked a S h h' \<Longrightarrow> x \<notin> S \<Longrightarrow> map_option m_pNextSibling (h' x) = map_option m_pNextSibling (h x)"
  unfolding relinked_def by blast

lemma relinked_fields:
  assumes "relinked a S h h'" and "h x = Some nd"
  obtains nd' where "h' x = Some nd'" "node_class nd' = node_class nd" "m_pOptionalChildAppender nd' = m_pOptionalChildAppender nd"
    "m_aliases nd' = m_aliases nd" "x \<noteq> ParentRef a \<Longrightarrow> m_pFirstChild nd' = m_pFirstChild nd"
    "x \<notin> S \<Longrightarrow> m_pNextSibling nd' = m_pNextSibling nd"
proof -
  have same: "map_option (\<lambda>nd. nd\<lparr>m_pNextSibling := None, m_pFirstChild := None\<rparr>) (h' x) = Some (nd\<lparr>m_pNextSibling := None, m_pFirstChild := None\<rparr>)"
    and links: "x \<noteq> ParentRef a \<Longrightarrow> map_option m_pFirstChild (h' x) = Some (m_pFirstChild nd)"
    "x \<notin> S \<Longrightarrow> map_option m_pNextSibling (h' x) = Some (m_pNextSibling nd)"
    using assms unfolding relinked_def by simp_all
  obtain nd' where nd': "h' x = Some nd'" "nd'\<lparr>m_pNextSibling := None, m_pFirstChild := None\<rparr> = nd\<lparr>m_pNextSibling := None, m_pFirstChild := None\<rparr>"
    using same by (cases "h' x") simp_all
  have "node_class nd' = node_class nd" "m_pOptionalChildAppender nd' = m_pOptionalChildAppender nd" "m_aliases nd' = m_aliases nd"
    using arg_cong [OF nd'(2), of node_class] arg_cong [OF nd'(2), of m_pOptionalChildAppender] arg_cong [OF nd'(2), of m_aliases] by simp_all
  then show thesis using nd'(1) links by (intro that [of nd']) simp_all
qed

lemma AppendChild_last:
  assumes "children_are h a (ws @ [l])" and "plain_parent h a"
  shows "\<exists>nl. h l = Some nl \<and> AppendChild a q h = Some (Inr (), h(l \<mapsto> set_next q nl))"
proof -
  obtain nd where nd: "h (ParentRef a) = Some nd" "m_pOptionalChildAppender nd = None" "siblings h (m_pFirstChild nd) (ws @ [l])"
    using assms by (auto simp: children_are_def plain_parent_def)
  obtain x where x: "m_pFirstChild nd = Some x" using nd(3) by (cases ws) auto
  have "AppendChild a q h = AppendSibling x q h" by (subst AppendChild.simps) (simp add: nd(1,2) x)
  then show ?thesis using AppendSibling_eq [of h x ws l q] nd(3) x by simp
qed

lemma AppendChild_eq:
  assumes kids: "children_are h a xs" and plain: "plain_parent h a" and ys: "siblings h q ys" "set xs \<inter> set ys = {}"
  shows "\<exists>h'. AppendChild a q h = Some (Inr (), h') \<and> children_are h' a (xs @ ys) \<and> relinked a (set xs) h h' \<and> plain_parent h' a"
proof -
  obtain nd where nd: "h (ParentRef a) = Some nd" "m_pOptionalChildAppender nd = None" "siblings h (m_pFirstChild nd) xs"
    using kids plain by (auto simp: children_are_def plain_parent_def)
  show ?thesis
  proof (cases xs)
    case Nil
    let ?h = "h(ParentRef a \<mapsto> set_first q nd)"
    have "siblings ?h q ys" using ys(1) nd(1) siblings_cong [of ys ?h h q] by (auto split: if_splits)
    moreover have sn: "relinked a S h ?h" for S by (rule relinked_first) (rule nd(1))
    moreover have "AppendChild a q h = Some (Inr (), ?h)" using nd Nil by (subst AppendChild.simps) simp
    ultimately show ?thesis using Nil sn nd(2) unfolding children_are_def plain_parent_def by auto
  next
    case (Cons x zs)
    then obtain ws l where ws: "xs = ws @ [l]" by (metis list.distinct(1) rev_exhaust)
    obtain nl where l: "h l = Some nl" and run: "AppendChild a q h = Some (Inr (), h(l \<mapsto> set_next q nl))"
      using AppendChild_last [of h a ws l q] kids plain ws by blast
    let ?h = "h(l \<mapsto> set_next q nl)"
    have "siblings ?h (m_pFirstChild nd) (ws @ l # ys)" by (rule siblings_extended) (use nd(3) ws ys l in auto)
    moreover have "\<exists>nd'. ?h (ParentRef a) = Some nd' \<and> m_pFirstChild nd' = m_pFirstChild nd \<and> m_pOptionalChildAppender nd' = None"
      using nd(1,2) l by auto
    ultimately have "children_are ?h a (xs @ ys)" "plain_parent ?h a" unfolding children_are_def plain_parent_def by (auto simp: ws)
    moreover have "relinked a (set xs) h ?h" by (rule relinked_next, rule l) (simp add: ws)
    ultimately show ?thesis using run by (intro exI [of _ ?h]) (simp add: ws)
  qed
qed

lemma PrependChild_eq:
  assumes kids: "children_are h a xs" and plain: "plain_parent h a" and ys: "siblings h (Some q) ys" "set xs \<inter> set ys = {}"
  shows "\<exists>h'. PrependChild a (Some q) h = Some (Inr (), h') \<and> children_are h' a (ys @ xs) \<and> relinked a (set ys) h h' \<and> plain_parent h' a"
proof -
  obtain nd where nd: "h (ParentRef a) = Some nd" "m_pOptionalChildAppender nd = None" "siblings h (m_pFirstChild nd) xs"
    using kids plain by (auto simp: children_are_def plain_parent_def)
  obtain zs where zs: "ys = q # zs" using ys(1) by (cases ys) auto
  show ?thesis
  proof (cases xs)
    case Nil
    let ?h = "h(ParentRef a \<mapsto> set_first (Some q) nd)"
    have "siblings ?h (Some q) ys" using ys(1) nd(1) siblings_cong [of ys ?h h "Some q"] by (auto split: if_splits)
    moreover have sn: "relinked a S h ?h" for S by (rule relinked_first) (rule nd(1))
    moreover have "PrependChild a (Some q) h = Some (Inr (), ?h)" using nd Nil by (subst PrependChild.simps) simp
    ultimately show ?thesis using Nil sn nd(2) unfolding children_are_def plain_parent_def by auto
  next
    case (Cons x ws)
    then have first: "m_pFirstChild nd = Some x" using nd(3) by simp
    obtain us l where us: "ys = us @ [l]" using zs by (metis list.distinct(1) rev_exhaust)
    obtain nl where l: "h l = Some nl" "AppendSibling q (Some x) h = Some (Inr (), h(l \<mapsto> set_next (Some x) nl))"
      using AppendSibling_eq [of h q us l "Some x"] ys(1) us by blast
    let ?h1 = "h(l \<mapsto> set_next (Some x) nl)"
    obtain n1 where n1: "?h1 (ParentRef a) = Some n1" "m_pOptionalChildAppender n1 = None"
      using nd(1,2) l(1) by (cases "ParentRef a = l") auto
    let ?h = "?h1(ParentRef a \<mapsto> set_first (Some q) n1)"
    have "siblings ?h1 (Some q) (us @ l # xs)"
      by (rule siblings_extended) (use us nd(3) first ys l(1) in auto)
    then have "siblings ?h1 (Some q) (ys @ xs)" by (simp add: us)
    then have "siblings ?h (Some q) (ys @ xs)" using n1(1) siblings_cong [of "ys @ xs" ?h ?h1 "Some q"] by (auto split: if_splits)
    moreover have "PrependChild a (Some q) h = Some (Inr (), ?h)"
      using nd(1,2) first l(2) n1(1) by (subst PrependChild.simps) (simp add: put_node_def)
    moreover have "relinked a (set ys) h ?h"
      by (rule relinked_trans [of _ _ _ ?h1], rule relinked_next, rule l(1)) (simp add: us, rule relinked_first, rule n1(1))
    ultimately show ?thesis using n1(2) unfolding children_are_def plain_parent_def by auto
  qed
qed

section \<open>Counting and finding children\<close>

lemma ChildrenCount_loop_eq:
  "siblings h p xs \<Longrightarrow> ChildrenCount_loop h p k = (if k + length xs > 10000 \<and> xs \<noteq> [] then Inl LogicError else Inr (k + length xs))"
proof (induction xs arbitrary: p k)
  case (Cons x xs)
  obtain nd where "p = Some x" "h x = Some nd" "siblings h (m_pNextSibling nd) xs" using Cons.prems unfolding siblings_Cons by blast
  then show ?case using Cons.IH [of "m_pNextSibling nd" "Suc k"] by (cases xs) auto
qed simp

lemma DirectChildrenCount_eq:
  "children_are h a xs \<Longrightarrow> DirectChildrenCount a h = (if length xs > 10000 then Inl LogicError else Inr (length xs))"
  by (auto simp: children_are_def DirectChildrenCount_def node_at_def ChildrenCount_loop_eq)

lemma HasDirectChild_loop_eq: "siblings h p xs \<Longrightarrow> HasDirectChild_loop c p h = Some (Inr (c \<in> set xs))"
proof (induction xs arbitrary: p)
  case Nil
  then show ?case by (subst HasDirectChild_loop.simps) simp
next
  case (Cons x xs)
  obtain nd where "p = Some x" "h x = Some nd" "siblings h (m_pNextSibling nd) xs" using Cons.prems unfolding siblings_Cons by blast
  then show ?case using Cons.IH [of "m_pNextSibling nd"] by (subst HasDirectChild_loop.simps) auto
qed

lemma HasDirectChild_eq: "children_are h a xs \<Longrightarrow> HasDirectChild a (Some c) h = Some (Inr (c \<in> set xs))"
  by (auto simp: children_are_def HasDirectChild_def HasDirectChild_loop_eq)


section \<open>Disconnecting\<close>

lemma clear_appender_fields [simp]: "m_pFirstChild (clear_appender s nd) = m_pFirstChild nd" "m_pNextSibling (clear_appender s nd) = m_pNextSibling nd"
  "m_pOptionalChildAppender nd = None \<Longrightarrow> clear_appender s nd = nd"
  by (simp_all add: clear_appender_def)

lemma siblings_rest: "siblings h p (xs @ x # ys) \<Longrightarrow> h x = Some nd \<Longrightarrow> siblings h (m_pNextSibling nd) ys"
  using siblings_suffix [of h p xs x ys] by simp

definition node_before :: "NodeRef option \<Rightarrow> NodeRef list \<Rightarrow> NodeRef option" where
  "node_before p xs = (if xs = [] then p else Some (last xs))"

lemma DisconnectChild_loop_found:
  "siblings h (Some x) (xs @ c # ys) \<Longrightarrow> DisconnectChild_loop a c p x h = Some (DisconnectSibling a (node_before p xs) c h)"
proof (induction xs arbitrary: p x)
  case Nil
  then show ?case by (subst DisconnectChild_loop.simps) (simp add: node_before_def split: option.splits)
next
  case (Cons y ys')
  obtain nd where nd: "x = y" "h y = Some nd" "siblings h (m_pNextSibling nd) (ys' @ c # ys)"
    using Cons.prems unfolding append_Cons siblings_Cons by blast
  obtain z where z: "m_pNextSibling nd = Some z" using nd(3) by (cases ys') auto
  have "y \<noteq> c" using siblings_distinct [OF Cons.prems] by auto
  then have "DisconnectChild_loop a c p x h = DisconnectChild_loop a c (Some y) z h"
    by (subst DisconnectChild_loop.simps) (simp add: nd(1,2) z)
  also have "\<dots> = Some (DisconnectSibling a (node_before (Some y) ys') c h)" by (rule Cons.IH) (use nd(3) z in simp)
  finally show ?case by (simp add: node_before_def)
qed

lemma DisconnectChild_loop_missing:
  "siblings h (Some x) xs \<Longrightarrow> c \<notin> set xs \<Longrightarrow> DisconnectChild_loop a c p x h = Some (Inl RuntimeError, h)"
proof (induction xs arbitrary: p x)
  case (Cons y ys)
  obtain nd where nd: "x = y" "h y = Some nd" "siblings h (m_pNextSibling nd) ys"
    using Cons.prems unfolding siblings_Cons by blast
  show ?case using nd Cons.prems(2) Cons.IH [of _ "Some y"] by (cases "m_pNextSibling nd"; subst DisconnectChild_loop.simps) auto
qed simp

lemma DisconnectChannel_loop_found:
  "siblings h (Some x) (xs @ c # ys) \<Longrightarrow> n + length xs < 2 ^ 32
    \<Longrightarrow> DisconnectChannel_loop a (n + length xs) n p x h = Some (act_then (DisconnectSibling a (node_before p xs) c) (act_return c) h)"
proof (induction xs arbitrary: p x n)
  case Nil
  then show ?case by (subst DisconnectChannel_loop.simps) (simp add: node_before_def split: option.splits)
next
  case (Cons y ys')
  obtain nd where nd: "x = y" "h y = Some nd" "siblings h (m_pNextSibling nd) (ys' @ c # ys)"
    using Cons.prems(1) unfolding append_Cons siblings_Cons by blast
  obtain z where z: "m_pNextSibling nd = Some z" using nd(3) by (cases ys') auto
  have "u32 (n + 1) = Suc n" using Cons.prems(2) by (simp add: u32_def)
  then have "DisconnectChannel_loop a (n + length (y # ys')) n p x h = DisconnectChannel_loop a (Suc n + length ys') (Suc n) (Some y) z h"
    by (subst DisconnectChannel_loop.simps) (simp add: nd(1,2) z)
  also have "\<dots> = Some (act_then (DisconnectSibling a (node_before (Some y) ys') c) (act_return c) h)"
    by (rule Cons.IH) (use nd(3) z Cons.prems(2) in simp_all)
  also have "node_before (Some y) ys' = node_before p (y # ys')" by (simp add: node_before_def)
  finally show ?case .
qed

lemma DisconnectChannel_loop_missing:
  "siblings h (Some x) xs \<Longrightarrow> n + length xs \<le> m \<Longrightarrow> m < 2 ^ 32 \<Longrightarrow> DisconnectChannel_loop a m n p x h = Some (Inl RuntimeError, h)"
proof (induction xs arbitrary: p x n)
  case (Cons y ys)
  obtain nd where nd: "x = y" "h y = Some nd" "siblings h (m_pNextSibling nd) ys"
    using Cons.prems(1) unfolding siblings_Cons by blast
  have "u32 (n + 1) = Suc n" using Cons.prems by (simp add: u32_def)
  then show ?case using nd Cons.prems(2,3) Cons.IH [of _ "Suc n" "Some y"]
    by (cases "m_pNextSibling nd"; subst DisconnectChannel_loop.simps) auto
qed simp

text \<open>
  \<open>DisconnectSibling\<close> takes the node out of the list of children; the chain that begins at the
  disconnected node is still the one it was.
\<close>

lemma DisconnectSibling_eq:
  assumes kids: "children_are h a (xs @ c # ys)" and plain: "plain_parent h a"
  shows "\<exists>h'. DisconnectSibling a (node_before None xs) c h = (Inr (), h') \<and> children_are h' a (xs @ ys) \<and> plain_parent h' a
    \<and> relinked a (set xs) h h' \<and> siblings h' (Some c) (c # ys)"
proof -
  obtain nd where nd: "h (ParentRef a) = Some nd" "m_pOptionalChildAppender nd = None" "siblings h (m_pFirstChild nd) (xs @ c # ys)"
    using kids plain by (auto simp: children_are_def plain_parent_def)
  have chain: "siblings h (Some c) (c # ys)" by (rule siblings_suffix) (rule nd(3))
  then obtain nc where nc: "h c = Some nc" "siblings h (m_pNextSibling nc) ys" unfolding siblings_Cons by blast
  show ?thesis
  proof (cases "xs = []")
    case True
    let ?n = "set_first (m_pNextSibling nc) nd"
    let ?h = "h(ParentRef a \<mapsto> ?n)"
    have run: "DisconnectSibling a (node_before None xs) c h = (Inr (), ?h)"
      using nd(1,2) nc(1) True by (simp add: DisconnectSibling_def act_then_def act_bind_def node_at_def put_node_def node_before_def)
    have keep: "siblings ?h p zs = siblings h p zs" for p zs
      by (rule siblings_cong) (simp add: nd(1))
    have "children_are ?h a (xs @ ys)" "plain_parent ?h a"
      using True nc(2) nd(2) keep unfolding children_are_def plain_parent_def by auto
    moreover have "relinked a (set xs) h ?h" by (rule relinked_first) (rule nd(1))
    moreover have "siblings ?h (Some c) (c # ys)" unfolding keep by (rule chain)
    ultimately show ?thesis using run True by (intro exI [of _ ?h]) simp
  next
    case False
    then obtain ws l where ws: "xs = ws @ [l]" by (metis rev_exhaust)
    have l_in: "siblings h (m_pFirstChild nd) (ws @ l # c # ys)" using nd(3) by (simp add: ws)
    have "h l \<noteq> None" by (rule siblings_alive [OF l_in]) simp
    then obtain nl where l: "h l = Some nl" by blast
    have lc: "l \<notin> set (c # ys)" using siblings_distinct [OF l_in] by auto
    let ?h = "h(l \<mapsto> set_next (m_pNextSibling nc) nl)"
    have parent: "\<exists>n'. ?h (ParentRef a) = Some n' \<and> m_pFirstChild n' = m_pFirstChild nd \<and> m_pOptionalChildAppender n' = None"
      using nd(1,2) l by (cases "ParentRef a = l") auto
    obtain n' where n': "?h (ParentRef a) = Some n'" "m_pOptionalChildAppender n' = None" using parent by blast
    have put1: "put_node l (set_next (m_pNextSibling nc)) h = (Inr (), ?h)" by (simp add: put_node_def l)
    have put2: "put_node (ParentRef a) (clear_appender c) ?h = (Inr (), ?h)"
      unfolding put_node_def n'(1) by (simp only: option.case clear_appender_fields(3) [OF n'(2)] map_upd_triv [where t = ?h and k = "ParentRef a", OF n'(1)])
    have run: "DisconnectSibling a (node_before None xs) c h = (Inr (), ?h)"
      by (simp add: DisconnectSibling_def act_then_def act_bind_def node_before_def ws node_at_def nc(1) put1 put2)
    have "siblings ?h (m_pFirstChild nd) (ws @ l # ys)"
      by (rule siblings_extended [OF l_in]) (use l nc(2) lc in auto)
    then have "children_are ?h a (xs @ ys)" "plain_parent ?h a"
      using parent unfolding children_are_def plain_parent_def by (auto simp: ws)
    moreover have "relinked a (set xs) h ?h" by (rule relinked_next, rule l) (simp add: ws)
    moreover have "siblings ?h (Some c) (c # ys)" unfolding siblings_update [OF lc] by (rule chain)
    ultimately show ?thesis using run ws by (intro exI [of _ ?h]) simp
  qed
qed


lemma DisconnectChild_eq:
  assumes kids: "children_are h a (xs @ c # ys)" and plain: "plain_parent h a"
  shows "\<exists>h'. DisconnectChild a (Some c) h = Some (Inr (), h') \<and> children_are h' a (xs @ ys) \<and> plain_parent h' a
    \<and> relinked a (set xs) h h' \<and> siblings h' (Some c) (c # ys)"
proof -
  obtain nd where nd: "h (ParentRef a) = Some nd" "siblings h (m_pFirstChild nd) (xs @ c # ys)"
    using kids by (auto simp: children_are_def)
  obtain x where x: "m_pFirstChild nd = Some x" using nd(2) by (cases xs) auto
  have "DisconnectChild a (Some c) h = Some (DisconnectSibling a (node_before None xs) c h)"
    using DisconnectChild_loop_found [of h x xs c ys a None] nd x by (simp add: DisconnectChild_def)
  then show ?thesis using DisconnectSibling_eq [OF kids plain] by auto
qed

lemma DisconnectChild_missing:
  "children_are h a xs \<Longrightarrow> c \<notin> set xs \<Longrightarrow> DisconnectChild a (Some c) h = Some (Inl RuntimeError, h)"
  by (auto simp: children_are_def DisconnectChild_def DisconnectChild_loop_missing split: option.splits)

lemma DisconnectChannel_eq:
  assumes kids: "children_are h a (xs @ c # ys)" and plain: "plain_parent h a" and small: "length xs + 1 < 2 ^ 32"
  shows "\<exists>h'. DisconnectChannel a (length xs + 1) h = Some (Inr c, h') \<and> children_are h' a (xs @ ys) \<and> plain_parent h' a
    \<and> relinked a (set xs) h h' \<and> siblings h' (Some c) (c # ys)"
proof -
  obtain nd where nd: "h (ParentRef a) = Some nd" "siblings h (m_pFirstChild nd) (xs @ c # ys)"
    using kids by (auto simp: children_are_def)
  obtain x where x: "m_pFirstChild nd = Some x" using nd(2) by (cases xs) auto
  have "DisconnectChannel a (length xs + 1) h = Some (act_then (DisconnectSibling a (node_before None xs) c) (act_return c) h)"
    using DisconnectChannel_loop_found [of h x xs c ys 1 a None] nd x small by (simp add: DisconnectChannel_def)
  then show ?thesis using DisconnectSibling_eq [OF kids plain] by (auto simp: act_then_def act_bind_def)
qed

lemma DisconnectChannel_missing:
  "children_are h a xs \<Longrightarrow> length xs < n \<Longrightarrow> n < 2 ^ 32 \<Longrightarrow> DisconnectChannel a n h = Some (Inl RuntimeError, h)"
  by (auto simp: children_are_def DisconnectChannel_def DisconnectChannel_loop_missing split: option.splits)

section \<open>Circular chains\<close>

text \<open>Nodes whose next siblings are again among them.\<close>

definition endless :: "heap \<Rightarrow> NodeRef set \<Rightarrow> bool" where
  "endless h S \<longleftrightarrow> (\<forall>x \<in> S. \<exists>nd y. h x = Some nd \<and> m_pNextSibling nd = Some y \<and> y \<in> S)"

lemma endlessE: "endless h S \<Longrightarrow> x \<in> S \<Longrightarrow> (\<And>nd y. h x = Some nd \<Longrightarrow> m_pNextSibling nd = Some y \<Longrightarrow> y \<in> S \<Longrightarrow> P) \<Longrightarrow> P"
  unfolding endless_def by blast

lemma AppendSibling_endless:
  assumes S: "endless h S" and x: "x \<in> S"
  shows "AppendSibling x q h = None"
proof (rule ccontr)
  assume "AppendSibling x q h \<noteq> None"
  then obtain r where r: "AppendSibling x q h = Some r" by blast
  have "endless h S \<longrightarrow> x \<notin> S"
  proof (rule AppendSibling.raw_induct [where P = "\<lambda>x q h r. endless h S \<longrightarrow> x \<notin> S", OF _ r])
    fix append and p :: NodeRef and pSibling h r
    assume IH: "\<And>p pSibling h r. append p pSibling h = Some r \<Longrightarrow> endless h S \<longrightarrow> p \<notin> S"
      and eq: "(case h p of None \<Rightarrow> Some (Inl UndefinedBehaviour, h)
        | Some nd \<Rightarrow> (case m_pNextSibling nd of None \<Rightarrow> Some (Inr (), h(p \<mapsto> set_next pSibling nd))
          | Some q \<Rightarrow> append q pSibling h)) = Some r"
    show "endless h S \<longrightarrow> p \<notin> S"
    proof (intro impI notI)
      assume S: "endless h S" and p: "p \<in> S"
      obtain nd y where "h p = Some nd" "m_pNextSibling nd = Some y" "y \<in> S" using S p by (rule endlessE)
      then show False using IH [of y pSibling h r] eq S by simp
    qed
  qed
  then show False using S x by blast
qed

lemma ChildrenCount_endless: "endless h S \<Longrightarrow> x \<in> S \<Longrightarrow> ChildrenCount_loop h (Some x) k = Inl LogicError"
proof (induction "10001 - k" arbitrary: x k)
  case (Suc n)
  obtain nd y where "h x = Some nd" "m_pNextSibling nd = Some y" "y \<in> S" using Suc.prems by (rule endlessE)
  then show ?case using Suc.hyps(1) [of "k + 1" y] Suc.hyps(2) Suc.prems(1) by simp
qed simp

lemma siblings_endless: "siblings h p (xs @ [l]) \<Longrightarrow> x \<in> set xs \<Longrightarrow> \<exists>nd y. h x = Some nd \<and> m_pNextSibling nd = Some y \<and> y \<in> set (xs @ [l])"
proof (induction xs arbitrary: p)
  case (Cons z zs)
  obtain nd where nd: "h z = Some nd" "siblings h (m_pNextSibling nd) (zs @ [l])" using Cons.prems(1) unfolding append_Cons siblings_Cons by blast
  show ?case
  proof (cases "x = z")
    case True
    have "\<exists>y. m_pNextSibling nd = Some y \<and> y \<in> set (zs @ [l])" using nd(2) by (cases zs) auto
    then show ?thesis using True nd(1) by auto
  next
    case False
    then show ?thesis using Cons.IH [OF nd(2)] Cons.prems(2) by auto
  qed
qed simp

lemma reappended_endless:
  assumes kids: "children_are h a (xs @ c # ys)" and plain: "plain_parent h a" and ys: "ys \<noteq> []"
  shows "\<exists>h1 h2. DisconnectChild a (Some c) h = Some (Inr (), h1) \<and> AppendChild a (Some c) h1 = Some (Inr (), h2)
    \<and> DirectChildrenCount a h2 = Inl LogicError \<and> (\<forall>q. AppendChild a q h2 = None)"
proof -
  obtain h1 where h1: "DisconnectChild a (Some c) h = Some (Inr (), h1)" "children_are h1 a (xs @ ys)" "plain_parent h1 a"
    "siblings h1 (Some c) (c # ys)" using DisconnectChild_eq [OF kids plain] by blast
  obtain us l where us: "ys = us @ [l]" using ys by (metis rev_exhaust)
  obtain nl where l: "h1 l = Some nl" and run: "AppendChild a (Some c) h1 = Some (Inr (), h1(l \<mapsto> set_next (Some c) nl))"
    using AppendChild_last [of h1 a "xs @ us" l "Some c"] h1(2,3) us by auto
  let ?h = "h1(l \<mapsto> set_next (Some c) nl)"
  let ?S = "set (c # xs @ ys)"
  obtain nd where nd: "h1 (ParentRef a) = Some nd" "m_pOptionalChildAppender nd = None" "siblings h1 (m_pFirstChild nd) ((xs @ us) @ [l])"
    using h1(2,3) us by (auto simp: children_are_def plain_parent_def)
  have tour: "siblings h1 (Some c) ((c # us) @ [l])" using h1(4) us by simp
  have other: "\<exists>nx y. h1 x = Some nx \<and> m_pNextSibling nx = Some y \<and> y \<in> ?S" if "x \<in> ?S" "x \<noteq> l" for x
  proof (cases "x = c")
    case True
    then show ?thesis using siblings_endless [OF tour, of c] us by auto
  next
    case False
    then have "x \<in> set (xs @ us)" using that us by auto
    then have "\<exists>nx y. h1 x = Some nx \<and> m_pNextSibling nx = Some y \<and> y \<in> set ((xs @ us) @ [l])"
      by (rule siblings_endless [OF nd(3)])
    moreover have "set ((xs @ us) @ [l]) \<subseteq> ?S" using us by auto
    ultimately show ?thesis by blast
  qed
  have S: "endless ?h ?S" unfolding endless_def
  proof
    fix x assume x: "x \<in> ?S"
    show "\<exists>nx y. ?h x = Some nx \<and> m_pNextSibling nx = Some y \<and> y \<in> ?S"
    proof (cases "x = l")
      case True
      then show ?thesis by (intro exI [of _ "set_next (Some c) nl"] exI [of _ c]) simp
    next
      case False
      then have "?h x = h1 x" by simp
      then show ?thesis using other [OF x False] by (simp only:)
    qed
  qed
  obtain x where x: "m_pFirstChild nd = Some x" using nd(3) by (cases "xs @ us") auto
  have "x \<in> set ((xs @ us) @ [l])" using nd(3) unfolding x by (rule siblings_head)
  then have "x \<in> ?S" using us by auto
  moreover have "\<exists>n'. ?h (ParentRef a) = Some n' \<and> m_pFirstChild n' = Some x \<and> m_pOptionalChildAppender n' = None"
    using nd(1,2) x l by (cases "ParentRef a = l") auto
  then obtain n' where n': "?h (ParentRef a) = Some n'" "m_pFirstChild n' = Some x" "m_pOptionalChildAppender n' = None" by blast
  ultimately have "DirectChildrenCount a ?h = Inl LogicError" "AppendChild a q ?h = None" for q
    using ChildrenCount_endless [OF S] AppendSibling_endless [OF S]
    by (simp_all only: DirectChildrenCount_def node_at_def option.case rbind_Inr AppendChild.simps [of a q ?h])
  then show ?thesis using h1(1) run by blast
qed

end
