(* ===== verification/Node_Trees.thy ===== *)
theory Node_Trees
  imports Node_Links
begin

text \<open>
  The tree a heap of nodes represents, the shape the visitors of the other theories go through: appending
  and disconnecting a child are insertion and removal of a subtree, and \<^verbatim>\<open>FindParentOfNode\<close> of
  \<^verbatim>\<open>ParentNode.cpp\<close> searches it in depth.
\<close>

section \<open>Searching a parent\<close>

lemma search_bind_mono [partial_function_mono]:
  "mono_option B \<Longrightarrow> (\<And>y. mono_option (C y)) \<Longrightarrow> mono_option (\<lambda>f. search_bind (B f) (\<lambda>y. C y f))"
  unfolding search_bind_def
proof (intro partial_function_mono)
  fix r :: "error + 'c"
  assume "\<And>y. mono_option (C y)"
  then show "mono_option (\<lambda>f. case r of Inl e \<Rightarrow> Some (Inl e) | Inr x \<Rightarrow> C x f)"
    by (cases r) (simp_all add: option.const_mono)
qed

partial_function (option) FindParent_children :: "NodeRef \<Rightarrow> NodeRef option \<Rightarrow> nat option search" where
  "FindParent_children child currentChild h =
    (case currentChild of None \<Rightarrow> Some (Inr None)
     | Some c \<Rightarrow> (case h c of None \<Rightarrow> Some (Inl UndefinedBehaviour)
       | Some nd \<Rightarrow>
         search_bind (case c of RegisterRef a \<Rightarrow> Some (Inr None)
                      | ParentRef b \<Rightarrow> search_bind (HasDirectChild_loop child (m_pFirstChild nd) h) (\<lambda>found.
                          if found then Some (Inr (Some b)) else FindParent_children child (m_pFirstChild nd) h))
           (\<lambda>foundParent. if foundParent \<noteq> None then Some (Inr foundParent)
                           else FindParent_children child (m_pNextSibling nd) h)))"

definition FindParentOfNode :: "nat \<Rightarrow> NodeRef option \<Rightarrow> nat option search" where
  "FindParentOfNode a child h =
    (case child of None \<Rightarrow> Some (Inl InvalidArgument)
     | Some p \<Rightarrow> (case h (ParentRef a) of None \<Rightarrow> Some (Inl UndefinedBehaviour)
       | Some nd \<Rightarrow> search_bind (HasDirectChild_loop p (m_pFirstChild nd) h) (\<lambda>found.
           if found then Some (Inr (Some a)) else FindParent_children p (m_pFirstChild nd) h)))"

section \<open>Trees in a heap\<close>

fun tree_in :: "heap \<Rightarrow> SystemTree \<Rightarrow> bool" where
  "tree_in h (RegisterLeaf a) \<longleftrightarrow> h (RegisterRef a) \<noteq> None"
| "tree_in h (ParentTree cls a cs) \<longleftrightarrow> (\<exists>nd. h (ParentRef a) = Some nd \<and> node_class nd = cls
    \<and> siblings h (m_pFirstChild nd) (map node_ref cs)) \<and> (\<forall>c \<in> set cs. tree_in h c)"

fun tree_refs :: "SystemTree \<Rightarrow> NodeRef list" where
  "tree_refs (RegisterLeaf a) = [RegisterRef a]"
| "tree_refs (ParentTree cls a cs) = ParentRef a # concat (map tree_refs cs)"

abbreviation forest_refs :: "SystemTree list \<Rightarrow> NodeRef list" where
  "forest_refs ts \<equiv> concat (map tree_refs ts)"

lemma node_ref_in [simp]: "node_ref t \<in> set (tree_refs t)"
  by (cases t) simp_all

text \<open>A tree is in the heap when each of its nodes is, with the links to its children.\<close>

fun node_in :: "heap \<Rightarrow> SystemTree \<Rightarrow> bool" where
  "node_in h (RegisterLeaf a) \<longleftrightarrow> h (RegisterRef a) \<noteq> None"
| "node_in h (ParentTree cls a cs) \<longleftrightarrow> (\<exists>nd. h (ParentRef a) = Some nd \<and> node_class nd = cls
    \<and> siblings h (m_pFirstChild nd) (map node_ref cs))"

lemma tree_in_nodes: "tree_in h t \<longleftrightarrow> (\<forall>s \<in> subtrees t. node_in h s)"
  by (induction t) auto

lemma tree_refs_nodes: "set (tree_refs t) = node_ref ` subtrees t"
  by (induction t) (auto simp: image_UN)

lemma subtrees_trans: "s \<in> subtrees t \<Longrightarrow> u \<in> subtrees s \<Longrightarrow> u \<in> subtrees t"
  by (induction t) auto

lemma child_in: "ParentTree cls a cs \<in> subtrees t \<Longrightarrow> c \<in> set cs \<Longrightarrow> c \<in> subtrees t"
  by (rule subtrees_trans [of "ParentTree cls a cs"]) (auto intro: bexI [of _ c])

lemma distinct_concat_unique:
  "distinct (concat (map f ts)) \<Longrightarrow> t \<in> set ts \<Longrightarrow> u \<in> set ts \<Longrightarrow> x \<in> set (f t) \<Longrightarrow> x \<in> set (f u) \<Longrightarrow> t = u"
  by (induction ts) auto

text \<open>In a tree without repeated nodes, a node is at one place and below one parent.\<close>

lemma subtree_unique:
  "distinct (tree_refs t) \<Longrightarrow> s \<in> subtrees t \<Longrightarrow> u \<in> subtrees t \<Longrightarrow> node_ref s = node_ref u \<Longrightarrow> s = u"
proof (induction t)
  case (ParentTree cls a cs)
  have below: "\<exists>c \<in> set cs. x \<in> subtrees c \<and> node_ref x \<in> set (tree_refs c)" if "x \<in> subtrees (ParentTree cls a cs)" "node_ref x \<noteq> ParentRef a" for x
    using that by (auto simp: tree_refs_nodes)
  have top: "x = ParentTree cls a cs" if "x \<in> subtrees (ParentTree cls a cs)" "node_ref x = ParentRef a" for x
    using that ParentTree.prems(1) by (auto simp: tree_refs_nodes) (metis imageI)
  show ?case
  proof (cases "node_ref s = ParentRef a")
    case True
    then show ?thesis using top ParentTree.prems by metis
  next
    case False
    then obtain c d where c: "c \<in> set cs" "s \<in> subtrees c" "node_ref s \<in> set (tree_refs c)"
      and d: "d \<in> set cs" "u \<in> subtrees d" "node_ref s \<in> set (tree_refs d)" using below ParentTree.prems by metis
    have dist: "distinct (forest_refs cs)" using ParentTree.prems(1) by simp
    then have "c = d" using distinct_concat_unique c d by metis
    moreover have "distinct (tree_refs c)" using dist c(1) by (auto simp: distinct_concat_iff)
    ultimately show ?thesis using ParentTree.IH [OF c(1)] c(2) d(2) ParentTree.prems(4) by simp
  qed
qed simp

lemma subtree_size: "s \<in> subtrees t \<Longrightarrow> size s \<le> size t"
proof (induction t)
  case (ParentTree cls a cs)
  have "size s \<le> Suc (size_list size cs)" if "c \<in> set cs" "s \<in> subtrees c" for c
    using ParentTree.IH [OF that] size_list_estimation' [OF that(1), of "size s" size] by simp
  then show ?case using ParentTree.prems by auto
qed simp

lemma not_below_itself: "ParentTree cls a cs \<in> subtrees c \<Longrightarrow> c \<notin> set cs"
proof
  assume c: "ParentTree cls a cs \<in> subtrees c" "c \<in> set cs"
  have "size (ParentTree cls a cs) \<le> size c" using subtree_size c(1) .
  moreover have "size c \<le> size_list size cs" using size_list_estimation' [OF c(2), of "size c" size] by simp
  ultimately show False by simp
qed

lemma parent_unique:
  "distinct (tree_refs t) \<Longrightarrow> ParentTree c1 a as \<in> subtrees t \<Longrightarrow> ParentTree c2 b bs \<in> subtrees t
    \<Longrightarrow> x \<in> set as \<Longrightarrow> x \<in> set bs \<Longrightarrow> a = b"
proof (induction t)
  case (ParentTree cls r cs)
  have dist: "distinct (forest_refs cs)" using ParentTree.prems(1) by simp
  have top: "as = cs" if "ParentTree c r as \<in> subtrees (ParentTree cls r cs)" for c as
    using subtree_unique [OF ParentTree.prems(1) that, of "ParentTree cls r cs"] by simp
  have below: "\<exists>c \<in> set cs. ParentTree c' d ds \<in> subtrees c \<and> node_ref x \<in> set (tree_refs c)"
    if "ParentTree c' d ds \<in> subtrees (ParentTree cls r cs)" "x \<in> set ds" "d \<noteq> r" for c' d ds
    using that child_in [OF _ that(2)] by (auto simp: tree_refs_nodes)
  have no: False if d: "ParentTree c' d ds \<in> subtrees (ParentTree cls r cs)" "x \<in> set ds" "d \<noteq> r" "x \<in> set cs" for c' d ds
  proof -
    obtain c where c: "c \<in> set cs" "ParentTree c' d ds \<in> subtrees c" "node_ref x \<in> set (tree_refs c)" using below d by blast
    have "x = c" using distinct_concat_unique [OF dist d(4) c(1) node_ref_in c(3)] .
    then show False using not_below_itself c(2) d(2) by blast
  qed
  show ?case
  proof (cases "a = r \<or> b = r")
    case True
    then show ?thesis using no top ParentTree.prems by metis
  next
    case False
    then obtain c d where c: "c \<in> set cs" "ParentTree c1 a as \<in> subtrees c" "node_ref x \<in> set (tree_refs c)"
      and d: "d \<in> set cs" "ParentTree c2 b bs \<in> subtrees d" "node_ref x \<in> set (tree_refs d)"
      using below ParentTree.prems by metis
    have "c = d" using distinct_concat_unique [OF dist c(1) d(1) c(3) d(3)] .
    moreover have "distinct (tree_refs c)" using dist c(1) by (auto simp: distinct_concat_iff)
    ultimately show ?thesis using ParentTree.IH [OF c(1)] c(2) d(2) ParentTree.prems(4,5) by simp
  qed
qed simp

lemma node_in_kept:
  assumes new: "relinked b S h h'" and s: "node_in h s" "node_ref s \<noteq> ParentRef b"
    and kids: "\<And>cls a as x. s = ParentTree cls a as \<Longrightarrow> x \<in> set as \<Longrightarrow> node_ref x \<notin> S"
  shows "node_in h' s"
proof (cases s)
  case (RegisterLeaf a)
  then obtain nd where nd: "h (RegisterRef a) = Some nd" using s(1) by auto
  obtain nd' where "h' (RegisterRef a) = Some nd'" by (rule relinked_fields [OF new nd])
  then show ?thesis by (simp add: RegisterLeaf)
next
  case (ParentTree c a as)
  obtain nd where nd: "h (ParentRef a) = Some nd" "node_class nd = c" "siblings h (m_pFirstChild nd) (map node_ref as)"
    using s(1) ParentTree by auto
  have "siblings h' p (map node_ref as) = siblings h p (map node_ref as)" for p
    by (rule siblings_cong, rule relinked_next_same [OF new]) (use kids [OF ParentTree] in auto)
  moreover obtain nd' where "h' (ParentRef a) = Some nd'" "node_class nd' = node_class nd" "m_pFirstChild nd' = m_pFirstChild nd"
    by (rule relinked_fields [OF new nd(1)]) (use s(2) ParentTree in simp)
  ultimately show ?thesis using nd(2,3) ParentTree by simp
qed

text \<open>Relinking the children of \<open>b\<close> leaves the other nodes of the tree in the heap.\<close>

lemma node_in_relinked:
  assumes t: "tree_in h t" "distinct (tree_refs t)" and b: "ParentTree cls b bs \<in> subtrees t"
    and new: "relinked b (node_ref ` set bs) h h'" and s: "s \<in> subtrees t" "node_ref s \<noteq> ParentRef b"
  shows "node_in h' s"
proof (rule node_in_kept [OF new])
  show "node_in h s" using t(1) s(1) unfolding tree_in_nodes by blast
  show "node_ref s \<noteq> ParentRef b" by (rule s(2))
  fix c a as x assume as: "s = ParentTree c a as" and x: "x \<in> set as"
  show "node_ref x \<notin> node_ref ` set bs"
  proof
    assume "node_ref x \<in> node_ref ` set bs"
    then obtain e where e: "e \<in> set bs" "node_ref x = node_ref e" by auto
    have in_t: "ParentTree c a as \<in> subtrees t" using s(1) as by simp
    have "x = e" using subtree_unique [OF t(2) child_in [OF in_t x] child_in [OF b e(1)] e(2)] .
    then have "a = b" using parent_unique [OF t(2) in_t b x] e(1) by simp
    then show False using s(2) as by simp
  qed
qed

section \<open>The search finds the parent\<close>

fun parent_in :: "NodeRef \<Rightarrow> SystemTree \<Rightarrow> nat option"
  and parent_among :: "NodeRef \<Rightarrow> SystemTree list \<Rightarrow> nat option" where
  "parent_in p (RegisterLeaf a) = None"
| "parent_in p (ParentTree cls a cs) = (if p \<in> node_ref ` set cs then Some a else parent_among p cs)"
| "parent_among p [] = None"
| "parent_among p (c # cs) = (case parent_in p c of None \<Rightarrow> parent_among p cs | Some a \<Rightarrow> Some a)"

lemma search_bind_Inr [simp]: "search_bind (Some (Inr x)) f = f x"
  by (simp add: search_bind_def)

lemma FindParent_children_eq:
  "(\<forall>c \<in> set cs. tree_in h c) \<Longrightarrow> siblings h p (map node_ref cs) \<Longrightarrow> FindParent_children q p h = Some (Inr (parent_among q cs))"
proof (induction "size_list size cs" arbitrary: cs p rule: less_induct)
  case less
  show ?case
  proof (cases cs)
    case Nil
    then show ?thesis using less.prems(2) by (subst FindParent_children.simps) simp
  next
    case (Cons c rest)
    obtain nd where nd: "p = Some (node_ref c)" "h (node_ref c) = Some nd" "siblings h (m_pNextSibling nd) (map node_ref rest)"
      using less.prems(2) unfolding Cons list.map siblings_Cons by blast
    have rest: "FindParent_children q (m_pNextSibling nd) h = Some (Inr (parent_among q rest))"
      by (rule less.hyps) (use less.prems(1) nd(3) Cons in auto)
    show ?thesis
    proof (cases c)
      case (RegisterLeaf a)
      then show ?thesis using nd rest Cons by (subst FindParent_children.simps) simp
    next
      case (ParentTree cls b ds)
      have ds: "siblings h (m_pFirstChild nd) (map node_ref ds)" "\<forall>d \<in> set ds. tree_in h d"
        using less.prems(1) nd(2) Cons ParentTree by auto
      have "FindParent_children q (m_pFirstChild nd) h = Some (Inr (parent_among q ds))"
        by (rule less.hyps) (use ds Cons ParentTree in auto)
      then show ?thesis using nd rest Cons ParentTree HasDirectChild_loop_eq [OF ds(1), of q]
        by (subst FindParent_children.simps) (auto split: option.splits)
    qed
  qed
qed

lemma FindParentOfNode_eq:
  "tree_in h (ParentTree cls a cs) \<Longrightarrow> FindParentOfNode a (Some q) h = Some (Inr (parent_in q (ParentTree cls a cs)))"
  by (auto simp: FindParentOfNode_def HasDirectChild_loop_eq FindParent_children_eq)


section \<open>Inserting a subtree\<close>

fun insert_child :: "nat \<Rightarrow> SystemTree \<Rightarrow> SystemTree \<Rightarrow> SystemTree" where
  "insert_child b c (RegisterLeaf a) = RegisterLeaf a"
| "insert_child b c (ParentTree cls a cs) = ParentTree cls a (map (insert_child b c) cs @ (if a = b then [c] else []))"

lemma insert_child_ref [simp]: "node_ref (insert_child b c t) = node_ref t"
  by (cases t) simp_all

lemma insert_child_other: "ParentRef b \<notin> set (tree_refs t) \<Longrightarrow> insert_child b c t = t"
  by (induction t) (auto intro: map_idI)

lemma subtrees_insert_child:
  "s \<in> subtrees (insert_child b c t) \<Longrightarrow> (\<exists>u \<in> subtrees t. s = insert_child b c u) \<or> s \<in> subtrees c"
proof (induction t)
  case (ParentTree cls a cs)
  then consider "s = insert_child b c (ParentTree cls a cs)" | "s \<in> subtrees c" | d where "d \<in> set cs" "s \<in> subtrees (insert_child b c d)"
    by (auto split: if_splits)
  then show ?case
  proof cases
    case 3
    then show ?thesis using ParentTree.IH [OF 3] by auto
  qed auto
qed simp

lemma tree_in_insert:
  assumes t: "tree_in h t" "distinct (tree_refs t)" and b: "ParentTree cls b bs \<in> subtrees t"
    and c: "tree_in h c" "set (tree_refs c) \<inter> set (tree_refs t) = {}"
    and new: "relinked b (node_ref ` set bs) h h'" "children_are h' b (map node_ref bs @ [node_ref c])"
  shows "tree_in h' (insert_child b c t)"
  unfolding tree_in_nodes
proof
  fix s assume "s \<in> subtrees (insert_child b c t)"
  then consider (old) u where "u \<in> subtrees t" "s = insert_child b c u" | (added) "s \<in> subtrees c"
    using subtrees_insert_child by blast
  then show "node_in h' s"
  proof cases
    case old
    show ?thesis
    proof (cases "node_ref u = ParentRef b")
      case True
      then have u: "u = ParentTree cls b bs" using subtree_unique [OF t(2) old(1) b] by simp
      obtain nd where nd: "h (ParentRef b) = Some nd" "node_class nd = cls" using t(1) b unfolding tree_in_nodes by force
      obtain nd' where nd': "h' (ParentRef b) = Some nd'" "node_class nd' = cls"
        by (rule relinked_fields [OF new(1) nd(1)]) (simp add: nd(2))
      have kids: "siblings h' (m_pFirstChild nd') (map node_ref bs @ [node_ref c])" using new(2) nd'(1) by (simp add: children_are_def)
      have s: "s = ParentTree cls b (map (insert_child b c) bs @ [c])" by (simp add: old(2) u)
      show ?thesis using nd' kids by (simp add: s comp_def)
    next
      case False
      then have "node_in h' u" using node_in_relinked [OF t b new(1) old(1)] by simp
      then show ?thesis using False old(2) by (cases u) (simp_all add: comp_def)
    qed
  next
    case added
    have outside: "x \<in> subtrees c \<Longrightarrow> node_ref x \<notin> set (tree_refs t)" for x using c(2) by (auto simp: tree_refs_nodes)
    show ?thesis
    proof (rule node_in_kept [OF new(1)])
      show "node_in h s" using c(1) added unfolding tree_in_nodes by blast
      show "node_ref s \<noteq> ParentRef b" using outside [OF added] b by (force simp: tree_refs_nodes)
      fix cls' a as x assume s: "s = ParentTree cls' a as" and x: "x \<in> set as"
      have "x \<in> subtrees c" by (rule child_in [OF _ x]) (use added s in simp)
      then show "node_ref x \<notin> node_ref ` set bs"
        using outside child_in [OF b] by (fastforce simp: tree_refs_nodes)
    qed
  qed
qed


text \<open>Parents whose children are appended to themselves.\<close>

definition plain_heap :: "heap \<Rightarrow> bool" where
  "plain_heap h \<longleftrightarrow> (\<forall>x nd. h x = Some nd \<longrightarrow> m_pOptionalChildAppender nd = None)"

lemma plain_heap_relinked:
  assumes "relinked a S h h'" and "plain_heap h" and "\<And>x. h x = None \<Longrightarrow> h' x = None"
  shows "plain_heap h'"
  unfolding plain_heap_def
proof (intro allI impI)
  fix x nd' assume nd': "h' x = Some nd'"
  then obtain nd where nd: "h x = Some nd" using assms(3) by fastforce
  obtain n where "h' x = Some n" "m_pOptionalChildAppender n = m_pOptionalChildAppender nd" by (rule relinked_fields [OF assms(1) nd])
  then show "m_pOptionalChildAppender nd' = None" using nd nd' assms(2) by (simp add: plain_heap_def)
qed

lemma relinked_None: "relinked a S h h' \<Longrightarrow> h' x = None \<longleftrightarrow> h x = None"
  unfolding relinked_def by (metis option.map_disc_iff)

lemma tree_siblings: "tree_in h (ParentTree cls a cs) \<Longrightarrow> children_are h a (map node_ref cs)"
  by (auto simp: children_are_def)

lemma subtree_in: "tree_in h t \<Longrightarrow> s \<in> subtrees t \<Longrightarrow> tree_in h s"
  unfolding tree_in_nodes using subtrees_trans by blast

lemma parent_subtree: "b \<in> set (tree_parents t) \<Longrightarrow> \<exists>cls cs. ParentTree cls b cs \<in> subtrees t"
proof (induction t)
  case (ParentTree cls a cs)
  then consider "b = a" | c where "c \<in> set cs" "b \<in> set (tree_parents c)" by auto
  then show ?case
  proof cases
    case 2
    then obtain cls' ds where "ParentTree cls' b ds \<in> subtrees c" using ParentTree.IH by blast
    then show ?thesis using 2(1) by (intro exI [of _ cls'] exI [of _ ds]) auto
  qed auto
qed simp

lemma plain_heap_parent: "plain_heap h \<Longrightarrow> tree_in h t \<Longrightarrow> ParentTree cls b bs \<in> subtrees t \<Longrightarrow> plain_parent h b"
  unfolding tree_in_nodes plain_parent_def plain_heap_def by force

lemma append_in_tree:
  assumes t: "tree_in h t" "distinct (tree_refs t)" "b \<in> set (tree_parents t)" and plain: "plain_heap h"
    and c: "tree_in h c" "set (tree_refs c) \<inter> set (tree_refs t) = {}" "siblings h (Some (node_ref c)) [node_ref c]"
  shows "\<exists>h'. AppendChild b (Some (node_ref c)) h = Some (Inr (), h') \<and> tree_in h' (insert_child b c t) \<and> plain_heap h'
    \<and> (\<exists>S. relinked b S h h')"
proof -
  obtain cls bs where b: "ParentTree cls b bs \<in> subtrees t" using parent_subtree [OF t(3)] by blast
  have kids: "children_are h b (map node_ref bs)" by (rule tree_siblings [OF subtree_in [OF t(1) b]])
  have "node_ref c \<notin> node_ref ` set bs"
    using c(2) child_in [OF b] node_ref_in [of c] by (fastforce simp: tree_refs_nodes)
  then obtain h' where h': "AppendChild b (Some (node_ref c)) h = Some (Inr (), h')" "children_are h' b (map node_ref bs @ [node_ref c])"
    "relinked b (node_ref ` set bs) h h'"
    using AppendChild_eq [OF kids plain_heap_parent [OF plain t(1) b] c(3)] by auto
  have "plain_heap h'" using plain_heap_relinked [OF h'(3) plain] relinked_None [OF h'(3)] by blast
  then show ?thesis using h' tree_in_insert [OF t(1,2) b c(1,2) h'(3,2)] by blast
qed

section \<open>Removing a subtree\<close>

fun remove_child :: "nat \<Rightarrow> NodeRef \<Rightarrow> SystemTree \<Rightarrow> SystemTree" where
  "remove_child b q (RegisterLeaf a) = RegisterLeaf a"
| "remove_child b q (ParentTree cls a cs) =
    ParentTree cls a (filter (\<lambda>c. \<not> (a = b \<and> node_ref c = q)) (map (remove_child b q) cs))"

lemma remove_child_ref [simp]: "node_ref (remove_child b q t) = node_ref t"
  by (cases t) simp_all

lemma subtrees_remove_child: "s \<in> subtrees (remove_child b q t) \<Longrightarrow> \<exists>u \<in> subtrees t. s = remove_child b q u"
proof (induction t)
  case (ParentTree cls a cs)
  then consider "s = remove_child b q (ParentTree cls a cs)" | d where "d \<in> set cs" "s \<in> subtrees (remove_child b q d)"
    by (auto split: if_splits)
  then show ?case
  proof cases
    case 2
    then show ?thesis using ParentTree.IH [OF 2] by auto
  qed auto
qed simp

lemma tree_in_remove:
  assumes t: "tree_in h t" "distinct (tree_refs t)" and b: "ParentTree cls b (us @ c # vs) \<in> subtrees t"
    and new: "relinked b (node_ref ` set us) h h'" "children_are h' b (map node_ref (us @ vs))"
  shows "tree_in h' (remove_child b (node_ref c) t)" and "tree_in h' c"
proof -
  let ?bs = "us @ c # vs"
  have new': "relinked b (node_ref ` set ?bs) h h'" by (rule relinked_mono [OF new(1)]) auto
  have others: "node_in h' u" if "u \<in> subtrees t" "node_ref u \<noteq> ParentRef b" for u
    by (rule node_in_relinked [OF t b new' that])
  obtain nb where nb: "h (ParentRef b) = Some nb" "siblings h (m_pFirstChild nb) (map node_ref ?bs)"
    using tree_siblings [OF subtree_in [OF t(1) b]] unfolding children_are_def by blast
  have dist: "distinct (map node_ref ?bs)" by (rule siblings_distinct [OF nb(2)])
  have single: "node_ref d \<noteq> node_ref c" if "d \<in> set us \<or> d \<in> set vs" for d
  proof
    assume d: "node_ref d = node_ref c"
    have "node_ref d \<in> node_ref ` (set us \<union> set vs)" using that by (intro imageI) simp
    then show False using dist d by (simp add: image_Un)
  qed
  then have rest: "filter (\<lambda>d. node_ref d \<noteq> node_ref c) ?bs = us @ vs"
    by (simp add: filter_id_conv)
  show "tree_in h' (remove_child b (node_ref c) t)"
    unfolding tree_in_nodes
  proof
    fix s assume "s \<in> subtrees (remove_child b (node_ref c) t)"
    then obtain u where u: "u \<in> subtrees t" "s = remove_child b (node_ref c) u" using subtrees_remove_child by blast
    show "node_in h' s"
    proof (cases "node_ref u = ParentRef b")
      case True
      then have ub: "u = ParentTree cls b ?bs" using subtree_unique [OF t(2) u(1) b] by simp
      obtain nd where nd: "h (ParentRef b) = Some nd" "node_class nd = cls" using t(1) b unfolding tree_in_nodes by force
      obtain nd' where nd': "h' (ParentRef b) = Some nd'" "node_class nd' = cls"
        by (rule relinked_fields [OF new(1) nd(1)]) (simp add: nd(2))
      have kids: "siblings h' (m_pFirstChild nd') (map node_ref (us @ vs))" using new(2) nd'(1) by (simp add: children_are_def)
      have "map node_ref (filter (\<lambda>d. node_ref d \<noteq> node_ref c) (map (remove_child b (node_ref c)) ?bs))
          = map node_ref (filter (\<lambda>d. node_ref d \<noteq> node_ref c) ?bs)" by (simp only: filter_map map_map) (simp add: comp_def)
      then have "map node_ref (filter (\<lambda>d. node_ref d \<noteq> node_ref c) (map (remove_child b (node_ref c)) ?bs)) = map node_ref (us @ vs)"
        by (simp only: rest)
      then show ?thesis unfolding u(2) ub remove_child.simps node_in.simps using nd' kids by simp
    next
      case False
      then have "node_in h' u" using others u(1) by blast
      moreover have "filter (\<lambda>d. \<not> (a = b \<and> node_ref d = q)) ds = ds" if "a \<noteq> b" for a q ds using that by simp
      ultimately show ?thesis using False u(2) by (cases u) (simp_all add: comp_def)
    qed
  qed
  show "tree_in h' c"
    unfolding tree_in_nodes
  proof
    fix s assume s: "s \<in> subtrees c"
    have c_in: "c \<in> subtrees t" by (rule child_in [OF b]) simp
    have "node_ref s \<noteq> ParentRef b"
    proof
      assume "node_ref s = ParentRef b"
      then have "s = ParentTree cls b ?bs" using subtree_unique [OF t(2) subtrees_trans [OF c_in s] b] by simp
      then show False using not_below_itself [of cls b ?bs c] s by simp
    qed
    then show "node_in h' s" using others subtrees_trans [OF c_in s] by blast
  qed
qed

lemma disconnect_in_tree:
  assumes t: "tree_in h t" "distinct (tree_refs t)" and b: "ParentTree cls b bs \<in> subtrees t" and c: "c \<in> set bs" and plain: "plain_heap h"
  shows "\<exists>h'. DisconnectChild b (Some (node_ref c)) h = Some (Inr (), h') \<and> tree_in h' (remove_child b (node_ref c) t) \<and> tree_in h' c
    \<and> plain_heap h' \<and> (\<exists>S. relinked b S h h')"
proof -
  obtain us vs where bs: "bs = us @ c # vs" using split_list [OF c] by blast
  have kids: "children_are h b (map node_ref us @ node_ref c # map node_ref vs)"
    using tree_siblings [OF subtree_in [OF t(1) b]] by (simp add: bs)
  obtain h' where h': "DisconnectChild b (Some (node_ref c)) h = Some (Inr (), h')" "children_are h' b (map node_ref us @ map node_ref vs)"
    "relinked b (node_ref ` set us) h h'"
    using DisconnectChild_eq [OF kids plain_heap_parent [OF plain t(1) b]] by auto
  have "plain_heap h'" using plain_heap_relinked [OF h'(3) plain] relinked_None [OF h'(3)] by blast
  then show ?thesis using h' tree_in_remove [OF t(1,2) b [unfolded bs] h'(3)] by auto
qed


lemma remove_child_refs: "set (tree_refs (remove_child b q t)) \<subseteq> set (tree_refs t)"
proof (induction t)
  case (ParentTree cls a cs)
  then show ?case by fastforce
qed simp

lemma subtree_refs: "s \<in> subtrees t \<Longrightarrow> set (tree_refs s) \<subseteq> set (tree_refs t)"
  using subtrees_trans by (fastforce simp: tree_refs_nodes)

lemma removed_refs:
  "distinct (tree_refs t) \<Longrightarrow> ParentTree cls b bs \<in> subtrees t \<Longrightarrow> c \<in> set bs
    \<Longrightarrow> set (tree_refs c) \<inter> set (tree_refs (remove_child b (node_ref c) t)) = {}"
proof (induction t)
  case (ParentTree k a cs)
  have dist: "distinct (forest_refs cs)" "ParentRef a \<notin> set (forest_refs cs)" using ParentTree.prems(1) by simp_all
  have apart: "set (tree_refs d) \<inter> set (tree_refs e) = {}" if "d \<in> set cs" "e \<in> set cs" "d \<noteq> e" for d e
    using distinct_concat_unique [OF dist(1) that(1,2)] that(3) by blast
  show ?case
  proof (cases "a = b")
    case True
    have same: "cs = bs" using subtree_unique [OF ParentTree.prems(1,2), of "ParentTree k a cs"] True by simp
    have "set (tree_refs c) \<inter> set (tree_refs (remove_child b (node_ref c) d)) = {}" if d: "d \<in> set cs" "node_ref d \<noteq> node_ref c" for d
      using remove_child_refs [of b "node_ref c" d] apart [of d c] d ParentTree.prems(3) same by auto
    then have "set (tree_refs c) \<inter> set (forest_refs (filter (\<lambda>d. node_ref d \<noteq> node_ref c) (map (remove_child b (node_ref c)) cs))) = {}"
      by (fastforce simp: filter_map)
    then show ?thesis using dist(2) ParentTree.prems(3) same True by auto
  next
    case False
    then obtain d where d: "d \<in> set cs" "ParentTree cls b bs \<in> subtrees d" using ParentTree.prems(2) by auto
    have c: "set (tree_refs c) \<subseteq> set (tree_refs d)" by (rule subtree_refs [OF child_in [OF d(2) ParentTree.prems(3)]])
    have "distinct (tree_refs d)" using dist(1) d(1) by (auto simp: distinct_concat_iff)
    then have here: "set (tree_refs c) \<inter> set (tree_refs (remove_child b (node_ref c) d)) = {}"
      using ParentTree.IH [OF d(1)] d(2) ParentTree.prems(3) by blast
    have "set (tree_refs c) \<inter> set (tree_refs (remove_child b (node_ref c) e)) = {}" if e: "e \<in> set cs" for e
      using here apart [OF e d(1)] remove_child_refs [of b "node_ref c" e] c by (cases "e = d") auto
    moreover have "ParentRef a \<notin> set (tree_refs c)" using c dist(2) d(1) by auto
    ultimately show ?thesis using False by auto
  qed
qed simp

end
