(* ===== verification/System_Model.thy ===== *)
theory System_Model
  imports Node_Trees
begin

text \<open>
  \<^verbatim>\<open>SystemModel.cpp\<close>: creation of nodes, the registry that finds them by identifier, the root, and
  disconnection from the tree. The address at which a new object is made is an argument of the operation.
\<close>

section \<open>The state\<close>

text \<open>
  Nodes and their links, the protocol pointers of access interfaces, translators and streamers, the
  counter of identifiers, which all models share, and the members of one \<^verbatim>\<open>SystemModel\<close>.
\<close>

record SystemModel =
  model_world :: World
  links :: heap
  m_protocol :: "nat \<Rightarrow> nat option"
  sm_nextIdentifier :: nat
  m_autoRootNode :: bool
  m_root :: "nat option"
  m_identifierMapping :: "NodeRef option list"

definition SystemModel_create :: "World \<Rightarrow> heap \<Rightarrow> (nat \<Rightarrow> nat option) \<Rightarrow> nat \<Rightarrow> bool \<Rightarrow> SystemModel" where
  "SystemModel_create w h protocols counter autoRootNode =
    \<lparr>model_world = w, links = h, m_protocol = protocols, sm_nextIdentifier = counter,
     m_autoRootNode = autoRootNode, m_root = None, m_identifierMapping = []\<rparr>"

type_synonym 'a model_run = "SystemModel \<Rightarrow> ('a result \<times> SystemModel) option"

definition run_act :: "('s, 'a) act \<Rightarrow> ('s, 'a) run" where
  "run_act m s = Some (m s)"

definition run_links :: "(heap, 'a) run \<Rightarrow> 'a model_run" where
  "run_links m s = map_option (\<lambda>(res, h). (res, s\<lparr>links := h\<rparr>)) (m (links s))"

definition run_search :: "'a search \<Rightarrow> 'a model_run" where
  "run_search m s = map_option (\<lambda>res. (res, s)) (m (links s))"

definition run_bind :: "('s, 'a) run \<Rightarrow> ('a \<Rightarrow> ('s, 'b) run) \<Rightarrow> ('s, 'b) run" where
  "run_bind m f s = Option.bind (m s) (\<lambda>(res, s'). case res of Inl e \<Rightarrow> Some (Inl e, s') | Inr x \<Rightarrow> f x s')"

definition run_return :: "'a \<Rightarrow> ('s, 'a) run" where
  "run_return x = run_act (act_return x)"

definition run_throw :: "error \<Rightarrow> ('s, 'a) run" where
  "run_throw e = run_act (act_throw e)"

section \<open>Construction of nodes\<close>

definition SystemModelNode_identifier :: "(SystemModel, nat) act" where
  "SystemModelNode_identifier s =
    (case NextIdentifier (sm_nextIdentifier s) of (res, counter) \<Rightarrow> (res, s\<lparr>sm_nextIdentifier := counter\<rparr>))"

text \<open>A parent node that is not a linker ignores its path selector and is not ignored in paths.\<close>

definition ParentNode_create :: "nat \<Rightarrow> string \<Rightarrow> ParentNode" where
  "ParentNode_create ident name =
    \<lparr>m_identifier = ident, m_name = MakeNodeName name, m_pendingCount = 0, m_priority = 0, m_iRunloopCount = 0,
     m_ignoreForNodePath = False, m_pathSelector = None, m_KeepOpen = False\<rparr>"

definition new_links :: "NodeClass \<Rightarrow> Links" where
  "new_links cls = \<lparr>m_pNextSibling = None, node_class = cls, m_pFirstChild = None, m_pOptionalChildAppender = None, m_aliases = []\<rparr>"

definition put_parent :: "NodeClass \<Rightarrow> nat \<Rightarrow> ParentNode \<Rightarrow> SystemModel \<Rightarrow> SystemModel" where
  "put_parent cls a nd s = s\<lparr>model_world := (model_world s)\<lparr>parents := (parents (model_world s))(a \<mapsto> nd)\<rparr>,
                             links := (links s)(ParentRef a \<mapsto> new_links cls)\<rparr>"

definition put_register :: "nat \<Rightarrow> Register \<Rightarrow> SystemModel \<Rightarrow> SystemModel" where
  "put_register a r s = s\<lparr>model_world := (model_world s)\<lparr>registers := (registers (model_world s))(a \<mapsto> r)\<rparr>,
                          links := (links s)(RegisterRef a \<mapsto> new_links Chain)\<rparr>"

definition put_protocol :: "nat \<Rightarrow> nat option \<Rightarrow> SystemModel \<Rightarrow> SystemModel" where
  "put_protocol a protocol s = s\<lparr>m_protocol := (m_protocol s)(a := protocol)\<rparr>"

definition make_parent :: "NodeClass \<Rightarrow> string \<Rightarrow> nat \<Rightarrow> (SystemModel, NodeRef) act" where
  "make_parent cls name a =
    act_bind SystemModelNode_identifier (\<lambda>ident.
    act_then (act_modify (put_parent cls a (ParentNode_create ident name))) (act_return (ParentRef a)))"

definition make_linker :: "string \<Rightarrow> nat option \<Rightarrow> nat \<Rightarrow> (SystemModel, NodeRef) act" where
  "make_linker name pathSelector a =
    act_bind SystemModelNode_identifier (\<lambda>ident.
    act_bind (act_read (\<lambda>s. Linker_create ident name pathSelector)) (\<lambda>nd.
    act_then (act_modify (put_parent Linker a nd)) (act_return (ParentRef a))))"

definition make_register :: "string \<Rightarrow> BinaryVector \<Rightarrow> nat \<Rightarrow> (SystemModel, NodeRef) act" where
  "make_register name bypassSequence a =
    act_bind SystemModelNode_identifier (\<lambda>ident.
    act_bind (act_read (\<lambda>s. Register_create_no_reset ident name bypassSequence False Downto)) (\<lambda>reg.
    act_then (act_modify (put_register a reg)) (act_return (RegisterRef a))))"

section \<open>The registry\<close>

definition Identifier :: "SystemModel \<Rightarrow> NodeRef \<Rightarrow> nat result" where
  "Identifier s p = (case p of RegisterRef a \<Rightarrow> rbind (register_at (model_world s) a) (\<lambda>r. Inr (m_identifier r))
                             | ParentRef a \<Rightarrow> rbind (parent_at (model_world s) a) (\<lambda>nd. Inr (m_identifier nd)))"

definition put_mapping :: "NodeRef option list \<Rightarrow> SystemModel \<Rightarrow> SystemModel" where
  "put_mapping mapping s = s\<lparr>m_identifierMapping := mapping\<rparr>"

definition put_root :: "nat option \<Rightarrow> SystemModel \<Rightarrow> SystemModel" where
  "put_root root s = s\<lparr>m_root := root\<rparr>"

definition RegisterNode :: "NodeRef option \<Rightarrow> (SystemModel, unit) act" where
  "RegisterNode node =
    (case node of None \<Rightarrow> act_throw InvalidArgument
     | Some p \<Rightarrow> act_bind (act_read (\<lambda>s. Identifier s p)) (\<lambda>offset.
         act_bind (act_read (\<lambda>s. Inr (m_identifierMapping s))) (\<lambda>mapping.
           if offset = length mapping then act_modify (put_mapping (mapping @ [Some p]))
           else if offset < length mapping
           then if mapping ! offset \<noteq> None then act_throw LogicError
                else act_modify (put_mapping (mapping[offset := Some p]))
           else act_throw LogicError)))"

definition RemoveNodeFromModel :: "NodeRef option \<Rightarrow> (SystemModel, unit) act" where
  "RemoveNodeFromModel node =
    (case node of None \<Rightarrow> act_throw InvalidArgument
     | Some p \<Rightarrow> act_bind (act_read (\<lambda>s. Identifier s p)) (\<lambda>offset.
         act_bind (act_read (\<lambda>s. Inr (m_identifierMapping s))) (\<lambda>mapping.
           if offset \<ge> length mapping then act_throw LogicError
           else if mapping ! offset \<noteq> Some p then act_throw LogicError
           else act_modify (put_mapping (mapping[offset := None])))))"

definition node_of_class :: "NodeClass \<Rightarrow> SystemModel \<Rightarrow> nat \<Rightarrow> nat option result" where
  "node_of_class cls s identifier =
    rbind (NodeWithId (m_identifierMapping s) identifier) (\<lambda>p. case p of RegisterRef a \<Rightarrow> Inr None
      | ParentRef a \<Rightarrow> rbind (node_at (links s) p) (\<lambda>nd. Inr (if node_class nd = cls then Some a else None)))"

definition AccessInterfaceWithId :: "SystemModel \<Rightarrow> nat \<Rightarrow> nat option result" where
  "AccessInterfaceWithId = node_of_class AccessInterface"

definition LinkerWithId :: "SystemModel \<Rightarrow> nat \<Rightarrow> nat option result" where
  "LinkerWithId = node_of_class Linker"

definition ChainWithId :: "SystemModel \<Rightarrow> nat \<Rightarrow> nat option result" where
  "ChainWithId = node_of_class Chain"

section \<open>Creation of nodes\<close>

definition append_to :: "nat option \<Rightarrow> NodeRef \<Rightarrow> unit model_run" where
  "append_to parentNode node = (case parentNode of None \<Rightarrow> run_return ()
     | Some b \<Rightarrow> run_links (AppendChild b (Some node)))"

definition auto_root :: "nat \<Rightarrow> (SystemModel, unit) act" where
  "auto_root a = act_when (\<lambda>s. m_root s = None \<and> m_autoRootNode s) (act_modify (put_root (Some a)))"

text \<open>An access interface becomes the root only when it has no parent.\<close>

definition root_or_append :: "nat option \<Rightarrow> nat \<Rightarrow> unit model_run" where
  "root_or_append parentNode a s =
    (if parentNode = None \<and> m_root s = None \<and> m_autoRootNode s then Some (Inr (), put_root (Some a) s)
     else append_to parentNode (ParentRef a) s)"

definition CreateAccessInterface :: "string \<Rightarrow> nat option \<Rightarrow> nat option \<Rightarrow> nat \<Rightarrow> NodeRef model_run" where
  "CreateAccessInterface name protocol parentNode a =
    run_bind (run_act (make_parent AccessInterface name a)) (\<lambda>node.
    run_bind (run_act (act_modify (put_protocol a protocol))) (\<lambda>_.
    run_bind (run_act (RegisterNode (Some node))) (\<lambda>_.
    run_bind (root_or_append parentNode a) (\<lambda>_. run_return node))))"

definition CreateAccessInterfaceTranslator :: "string \<Rightarrow> nat option \<Rightarrow> nat option \<Rightarrow> nat \<Rightarrow> NodeRef model_run" where
  "CreateAccessInterfaceTranslator name protocol parentNode a =
    run_bind (run_act (make_parent AccessInterfaceTranslator name a)) (\<lambda>node.
    run_bind (run_act (act_modify (put_protocol a protocol))) (\<lambda>_.
    run_bind (run_act (RegisterNode (Some node))) (\<lambda>_.
    run_bind (root_or_append parentNode a) (\<lambda>_. run_return node))))"

definition CreateChain :: "string \<Rightarrow> nat option \<Rightarrow> nat \<Rightarrow> NodeRef model_run" where
  "CreateChain name parentNode a =
    run_bind (run_act (make_parent Chain name a)) (\<lambda>node.
    run_bind (run_act (RegisterNode (Some node))) (\<lambda>_.
    run_bind (run_act (auto_root a)) (\<lambda>_.
    run_bind (append_to parentNode node) (\<lambda>_. run_return node))))"

text \<open>Without a protocol argument a streamer gets a new transparent one, at the address given.\<close>

definition CreateStreamer :: "string \<Rightarrow> nat option \<Rightarrow> nat option \<Rightarrow> nat \<Rightarrow> NodeRef model_run" where
  "CreateStreamer name protocol parentNode a =
    run_bind (run_act (make_parent Streamer name a)) (\<lambda>node.
    run_bind (run_act (act_modify (put_protocol a protocol))) (\<lambda>_.
    run_bind (run_act (RegisterNode (Some node))) (\<lambda>_.
    run_bind (run_act (auto_root a)) (\<lambda>_.
    run_bind (append_to parentNode node) (\<lambda>_. run_return node)))))"

definition CreateLinker :: "string \<Rightarrow> nat option \<Rightarrow> nat option \<Rightarrow> nat \<Rightarrow> NodeRef model_run" where
  "CreateLinker name pathSelector parentNode a =
    run_bind (run_act (make_linker name pathSelector a)) (\<lambda>node.
    run_bind (append_to parentNode node) (\<lambda>_.
    run_bind (run_act (RegisterNode (Some node))) (\<lambda>_. run_return node)))"

definition CreateRegister :: "string \<Rightarrow> BinaryVector \<Rightarrow> nat option \<Rightarrow> nat \<Rightarrow> NodeRef model_run" where
  "CreateRegister name bypassSequence parentNode a =
    run_bind (run_act (make_register name bypassSequence a)) (\<lambda>node.
    run_bind (append_to parentNode node) (\<lambda>_.
    run_bind (run_act (RegisterNode (Some node))) (\<lambda>_. run_return node)))"

definition on_node :: "nat \<Rightarrow> (Register \<Rightarrow> Register) \<Rightarrow> (SystemModel, unit) act" where
  "on_node a f s = (case on_register a (act_modify f) (model_world s) of (res, w) \<Rightarrow> (res, s\<lparr>model_world := w\<rparr>))"

definition CreateRegister_hold :: "string \<Rightarrow> BinaryVector \<Rightarrow> bool \<Rightarrow> nat option \<Rightarrow> nat \<Rightarrow> NodeRef model_run" where
  "CreateRegister_hold name bypassSequence holdValue parentNode a =
    run_bind (CreateRegister name bypassSequence parentNode a) (\<lambda>node.
    run_bind (run_act (on_node a (SetHoldValue holdValue))) (\<lambda>_. run_return node))"

definition CreateBlackBox :: "string \<Rightarrow> BinaryVector \<Rightarrow> nat option \<Rightarrow> nat \<Rightarrow> NodeRef model_run" where
  "CreateBlackBox name bypassSequence parentNode a =
    run_bind (CreateRegister name bypassSequence parentNode a) (\<lambda>node.
    run_bind (run_act (on_node a SetAsBlackBox)) (\<lambda>_. run_return node))"

section \<open>Root and disconnection\<close>

definition ReplaceRoot :: "nat option \<Rightarrow> bool \<Rightarrow> (SystemModel, nat option) act" where
  "ReplaceRoot newRoot removeBeforeReplace =
    (case newRoot of None \<Rightarrow> act_throw InvalidArgument
     | Some a \<Rightarrow> act_bind (act_read (\<lambda>s. Inr (m_root s))) (\<lambda>oldRoot.
         act_then (case oldRoot of Some r \<Rightarrow> if removeBeforeReplace then RemoveNodeFromModel (Some (ParentRef r)) else act_return ()
                                 | None \<Rightarrow> act_return ())
         (act_then (act_modify (put_root (Some a))) (act_return oldRoot))))"

definition SetRoot :: "nat option \<Rightarrow> (SystemModel, unit) act" where
  "SetRoot newRoot = act_bind (ReplaceRoot newRoot True) (\<lambda>_. act_return ())"

definition DisconnectNode :: "NodeRef option \<Rightarrow> nat option \<Rightarrow> unit model_run" where
  "DisconnectNode node parentNode s =
    (case node of None \<Rightarrow> Some (Inl InvalidArgument, s)
     | Some p \<Rightarrow>
       if m_root s \<noteq> None \<and> p = ParentRef (the (m_root s)) then Some (Inr (), put_root None s)
       else (case (if parentNode = None then m_root s else parentNode) of None \<Rightarrow> Some (Inl RuntimeError, s)
         | Some b \<Rightarrow>
           run_bind (run_search (HasDirectChild b node)) (\<lambda>direct.
           run_bind (if direct then run_return (Some b) else run_search (FindParentOfNode b node)) (\<lambda>parent.
             case parent of None \<Rightarrow> run_throw RuntimeError
             | Some a \<Rightarrow> run_links (DisconnectChild a node))) s))"

section \<open>Computing runs\<close>

lemma run_simps [simp]:
  "run_act m s = Some (m s)"
  "run_return x s = Some (Inr x, s)" "run_throw e s = Some (Inl e, s)"
  "run_bind (run_act m) f s = (case m s of (Inl e, s') \<Rightarrow> Some (Inl e, s') | (Inr x, s') \<Rightarrow> f x s')"
  by (simp_all add: run_act_def run_return_def run_throw_def run_bind_def split: prod.split)

lemma run_bind_Inr: "m s = Some (Inr x, s') \<Longrightarrow> run_bind m f s = f x s'"
  by (simp add: run_bind_def)

lemma run_bind_Inl: "m s = Some (Inl e, s') \<Longrightarrow> run_bind m f s = Some (Inl e, s')"
  by (simp add: run_bind_def)

lemma put_fields [simp]:
  "links (put_mapping ms s) = links s" "model_world (put_mapping ms s) = model_world s" "m_root (put_mapping ms s) = m_root s"
  "sm_nextIdentifier (put_mapping ms s) = sm_nextIdentifier s" "m_identifierMapping (put_mapping ms s) = ms"
  "links (put_root r s) = links s" "model_world (put_root r s) = model_world s" "m_root (put_root r s) = r"
  "sm_nextIdentifier (put_root r s) = sm_nextIdentifier s" "m_identifierMapping (put_root r s) = m_identifierMapping s"
  "links (put_protocol a q s) = links s" "model_world (put_protocol a q s) = model_world s" "m_root (put_protocol a q s) = m_root s"
  "sm_nextIdentifier (put_protocol a q s) = sm_nextIdentifier s" "m_identifierMapping (put_protocol a q s) = m_identifierMapping s"
  by (simp_all add: put_mapping_def put_root_def put_protocol_def)

lemma Identifier_world: "model_world s' = model_world s \<Longrightarrow> Identifier s' p = Identifier s p"
  by (simp add: Identifier_def split: NodeRef.split)

lemma Identifier_put [simp]: "Identifier (put_mapping ms s) p = Identifier s p" "Identifier (put_root r s) p = Identifier s p"
  "Identifier (put_protocol a q s) p = Identifier s p" "Identifier (s\<lparr>links := h\<rparr>) p = Identifier s p"
  by (rule Identifier_world, simp)+

section \<open>Well formed models\<close>

text \<open>Identifiers count the nodes made, and each entry of the registry is the node with that identifier.\<close>

definition registered :: "SystemModel \<Rightarrow> bool" where
  "registered s \<longleftrightarrow> sm_nextIdentifier s = length (m_identifierMapping s)
    \<and> (\<forall>i p. i < length (m_identifierMapping s) \<longrightarrow> m_identifierMapping s ! i = Some p \<longrightarrow> Identifier s p = Inr i)"

definition known :: "SystemModel \<Rightarrow> NodeRef \<Rightarrow> bool" where
  "known s p \<longleftrightarrow> (\<exists>i < length (m_identifierMapping s). m_identifierMapping s ! i = Some p)"

text \<open>The links draw the tree below the root, and all its nodes are registered.\<close>

definition well_formed :: "SystemModel \<Rightarrow> SystemTree \<Rightarrow> bool" where
  "well_formed s t \<longleftrightarrow> registered s \<and> tree_in (links s) t \<and> distinct (tree_refs t) \<and> plain_heap (links s)
    \<and> map_option ParentRef (m_root s) = Some (node_ref t) \<and> (\<forall>p \<in> set (tree_refs t). known s p)"

definition fresh :: "SystemModel \<Rightarrow> NodeRef \<Rightarrow> bool" where
  "fresh s p \<longleftrightarrow> links s p = None \<and> (case p of RegisterRef a \<Rightarrow> registers (model_world s) a = None
    | ParentRef a \<Rightarrow> parents (model_world s) a = None)"

text \<open>A node has been made at \<open>p\<close> with the next identifier; nothing else has changed.\<close>

definition made :: "NodeClass \<Rightarrow> NodeRef \<Rightarrow> SystemModel \<Rightarrow> SystemModel \<Rightarrow> bool" where
  "made cls p s s1 \<longleftrightarrow> links s1 = (links s)(p \<mapsto> new_links cls) \<and> sm_nextIdentifier s1 = u32 (sm_nextIdentifier s + 1)
    \<and> m_identifierMapping s1 = m_identifierMapping s \<and> m_root s1 = m_root s
    \<and> Identifier s1 p = Inr (sm_nextIdentifier s) \<and> (\<forall>q. q \<noteq> p \<longrightarrow> Identifier s1 q = Identifier s q)"

lemma make_parent_made:
  "\<exists>s1. make_parent cls name a s = (Inr (ParentRef a), s1) \<and> made cls (ParentRef a) s s1"
  by (auto simp: make_parent_def act_bind_def act_then_def SystemModelNode_identifier_def NextIdentifier_def made_def put_parent_def
      ParentNode_create_def Identifier_def parent_at_def register_at_def split: NodeRef.split)

lemma make_linker_made:
  "\<exists>s1. make_linker name (Some q) a s = (Inr (ParentRef a), s1) \<and> made Linker (ParentRef a) s s1"
  by (auto simp: make_linker_def act_bind_def act_then_def SystemModelNode_identifier_def NextIdentifier_def made_def put_parent_def
      Linker_create_def Identifier_def parent_at_def register_at_def Let_def split: NodeRef.split)

lemma make_register_made:
  assumes "Register_create_no_reset (sm_nextIdentifier s) name bypassSequence False Downto = Inr reg"
  shows "\<exists>s1. make_register name bypassSequence a s = (Inr (RegisterRef a), s1) \<and> made Chain (RegisterRef a) s s1
    \<and> registers (model_world s1) a = Some reg"
proof -
  have "m_identifier reg = sm_nextIdentifier s"
    using assms by (auto simp: Register_create_no_reset_def Register_create_def rbind_Inr_iff Let_def check_defs split: if_splits)
  then show ?thesis using assms
    by (auto simp: make_register_def act_bind_def act_then_def SystemModelNode_identifier_def NextIdentifier_def made_def put_register_def
        Identifier_def parent_at_def register_at_def deref_def split: NodeRef.split)
qed

lemma made_protocol: "made cls p s s1 \<Longrightarrow> made cls p s (put_protocol a q s1)"
  by (simp add: made_def)

lemma fresh_Identifier: "fresh s p \<Longrightarrow> Identifier s p = Inl UndefinedBehaviour"
  by (auto simp: fresh_def Identifier_def parent_at_def register_at_def deref_def split: NodeRef.splits)

lemma registered_Identifier: "registered s \<Longrightarrow> i < length (m_identifierMapping s) \<Longrightarrow> m_identifierMapping s ! i = Some p \<Longrightarrow> Identifier s p = Inr i"
  by (simp add: registered_def)

lemma registered_unknown: "registered s \<Longrightarrow> fresh s p \<Longrightarrow> i < length (m_identifierMapping s) \<Longrightarrow> m_identifierMapping s ! i \<noteq> Some p"
  using registered_Identifier fresh_Identifier by fastforce

text \<open>Registering the new node.\<close>

lemma RegisterNode_made:
  assumes "made cls p s s1" and "registered s" and "sm_nextIdentifier s + 1 < 2 ^ 32" and "model_world s2 = model_world s1"
    and "m_identifierMapping s2 = m_identifierMapping s1"
  shows "RegisterNode (Some p) s2 = (Inr (), put_mapping (m_identifierMapping s @ [Some p]) s2)"
  using assms Identifier_world [OF assms(4), of p]
  by (simp add: RegisterNode_def act_bind_def made_def registered_def)


text \<open>The registry after the new node has been registered.\<close>

lemma registered_grown:
  assumes made: "made cls p s s1" and reg: "registered s" and new: "fresh s p" and small: "sm_nextIdentifier s + 1 < 2 ^ 32"
    and s2: "m_identifierMapping s2 = m_identifierMapping s @ [Some p]" "model_world s2 = model_world s1" "sm_nextIdentifier s2 = sm_nextIdentifier s1"
  shows "registered s2" and "known s q \<Longrightarrow> known s2 q" and "known s2 p"
proof -
  let ?n = "length (m_identifierMapping s)"
  have n: "sm_nextIdentifier s = ?n" using reg by (simp add: registered_def)
  have world: "Identifier s2 q = Identifier s1 q" for q by (rule Identifier_world) (rule s2(2))
  have "Identifier s2 q = Inr i" if q: "i < length (m_identifierMapping s2)" "m_identifierMapping s2 ! i = Some q" for i q
  proof (cases "i < ?n")
    case True
    then have entry: "m_identifierMapping s ! i = Some q" using q by (simp add: s2(1) nth_append)
    have "q \<noteq> p" using registered_unknown [OF reg new True] entry by blast
    then show ?thesis using made registered_Identifier [OF reg True entry] by (simp add: world made_def)
  next
    case False
    then have "i = ?n" using q(1) by (simp add: s2(1))
    then show ?thesis using q(2) made n by (simp add: s2(1) world made_def)
  qed
  then show "registered s2" using made n small by (simp add: registered_def s2 made_def u32_def)
  show "known s2 q" if "known s q" using that by (auto simp: known_def s2(1) nth_append)
  show "known s2 p" by (auto simp: known_def s2(1) nth_append intro!: exI [of _ ?n])
qed

text \<open>The links after the new node has been appended to a parent of the tree.\<close>

lemma links_grown:
  assumes wf: "well_formed s t" and made: "made cls (node_ref c) s s1" and new: "fresh s (node_ref c)" and b: "b \<in> set (tree_parents t)"
    and c: "c = ParentTree cls a [] \<or> c = RegisterLeaf a"
  shows "\<exists>h'. AppendChild b (Some (node_ref c)) (links s1) = Some (Inr (), h') \<and> tree_in h' (insert_child b c t) \<and> plain_heap h'"
proof -
  let ?p = "node_ref c"
  have l1: "links s1 = (links s)(?p \<mapsto> new_links cls)" using made by (simp add: made_def)
  have t: "tree_in (links s) t" "distinct (tree_refs t)" "plain_heap (links s)" using wf by (auto simp: well_formed_def)
  have absent: "?p \<notin> set (tree_refs t)"
  proof
    assume "?p \<in> set (tree_refs t)"
    then obtain u where "u \<in> subtrees t" "node_ref u = ?p" by (auto simp: tree_refs_nodes)
    then have "links s ?p \<noteq> None" using t(1) unfolding tree_in_nodes by (cases u) fastforce+
    then show False using new by (simp add: fresh_def)
  qed
  have refs: "tree_refs c = [?p]" using c by auto
  have "node_in (links s1) u" if u: "u \<in> subtrees t" for u
  proof -
    have "?p \<noteq> node_ref u" using absent u by (auto simp: tree_refs_nodes)
    moreover have "?p \<notin> set (map node_ref as)" if "u = ParentTree k x as" for k x as
      using absent child_in [of k x as t] u that by (auto simp: tree_refs_nodes)
    moreover have "node_in (links s) u" using t(1) u unfolding tree_in_nodes by blast
    ultimately show ?thesis unfolding l1 by (cases u) (auto simp: siblings_update)
  qed
  then have t1: "tree_in (links s1) t" unfolding tree_in_nodes by blast
  have c1: "tree_in (links s1) c" "siblings (links s1) (Some ?p) [?p]" using c by (auto simp: l1 new_links_def)
  have "plain_heap (links s1)" using t(3) by (auto simp: l1 plain_heap_def new_links_def)
  then show ?thesis using append_in_tree [OF t1 t(2) b _ c1(1) _ c1(2)] absent refs by auto
qed

lemma insert_child_refs: "set (tree_refs (insert_child b c t)) \<subseteq> set (tree_refs t) \<union> set (tree_refs c)"
proof (induction t)
  case (ParentTree cls a cs)
  then show ?case by (fastforce split: if_splits)
qed simp

lemma insert_child_distinct:
  assumes "distinct (tree_refs t)" and c: "distinct (tree_refs c)" "set (tree_refs c) \<inter> set (tree_refs t) = {}"
  shows "distinct (tree_refs (insert_child b c t))"
  using assms(1) c(2)
proof (induction t)
  case (ParentTree cls a cs)
  have dist: "distinct (forest_refs cs)" "ParentRef a \<notin> set (forest_refs cs)" using ParentTree.prems(1) by simp_all
  show ?case
  proof (cases "ParentRef b \<in> set (forest_refs cs)")
    case False
    then have "map (insert_child b c) cs = cs" by (intro map_idI insert_child_other) auto
    then show ?thesis using ParentTree.prems c(1) by auto
  next
    case True
    then have ab: "a \<noteq> b" using dist(2) by auto
    obtain d where d: "d \<in> set cs" "ParentRef b \<in> set (tree_refs d)" using True by auto
    obtain us vs where cs: "cs = us @ d # vs" using split_list [OF d(1)] by blast
    have "ParentRef b \<notin> set (forest_refs us)" "ParentRef b \<notin> set (forest_refs vs)" using dist(1) d(2) cs by auto
    then have same: "map (insert_child b c) us = us" "map (insert_child b c) vs = vs"
      by (intro map_idI insert_child_other; auto)+
    have d': "distinct (tree_refs (insert_child b c d))" using ParentTree.IH [OF d(1)] dist(1) ParentTree.prems(2) cs by auto
    let ?X = "insert (ParentRef a) (set (forest_refs us) \<union> set (forest_refs vs))"
    have "set (tree_refs d) \<inter> ?X = {}" "set (tree_refs c) \<inter> ?X = {}" using ParentTree.prems cs by auto
    then have "set (tree_refs (insert_child b c d)) \<inter> ?X = {}" using insert_child_refs [of b c d] by blast
    then show ?thesis using d' dist cs ab same by (auto simp del: set_concat set_map)
  qed
qed simp

section \<open>Creating nodes\<close>

text \<open>
  The operation returns the new node, the tree grows by it below \<open>b\<close>, the model stays well formed, and the
  identifier of the new node finds it.
\<close>

definition grows :: "nat \<Rightarrow> SystemTree \<Rightarrow> SystemModel \<Rightarrow> SystemTree \<Rightarrow> NodeRef model_run \<Rightarrow> bool" where
  "grows b c s t create \<longleftrightarrow> (\<exists>s'. create s = Some (Inr (node_ref c), s') \<and> well_formed s' (insert_child b c t)
    \<and> NodeWithId (m_identifierMapping s') (sm_nextIdentifier s) = Inr (node_ref c)
    \<and> sm_nextIdentifier s' = sm_nextIdentifier s + 1)"

lemma fresh_absent:
  assumes "well_formed s t" and "fresh s p"
  shows "p \<notin> set (tree_refs t)"
proof
  assume "p \<in> set (tree_refs t)"
  then have "known s p" using assms(1) by (simp add: well_formed_def)
  then show False using registered_unknown assms by (auto simp: known_def well_formed_def)
qed

lemma well_formed_grown:
  assumes wf: "well_formed s t" and made: "made cls (node_ref c) s s1" and new: "fresh s (node_ref c)"
    and c: "c = ParentTree cls a [] \<or> c = RegisterLeaf a" and small: "sm_nextIdentifier s + 1 < 2 ^ 32"
    and tree: "tree_in (links s2) (insert_child b c t)" "plain_heap (links s2)"
    and s2: "m_identifierMapping s2 = m_identifierMapping s @ [Some (node_ref c)]" "model_world s2 = model_world s1"
      "sm_nextIdentifier s2 = sm_nextIdentifier s1" "m_root s2 = m_root s1"
  shows "well_formed s2 (insert_child b c t) \<and> NodeWithId (m_identifierMapping s2) (sm_nextIdentifier s) = Inr (node_ref c)
    \<and> sm_nextIdentifier s2 = sm_nextIdentifier s + 1"
proof -
  have reg: "registered s" using wf by (simp add: well_formed_def)
  note grown = registered_grown [OF made reg new small s2(1-3)]
  have refs: "tree_refs c = [node_ref c]" using c by auto
  have "distinct (tree_refs (insert_child b c t))"
    using wf fresh_absent [OF wf new] refs by (intro insert_child_distinct) (auto simp: well_formed_def)
  moreover have "\<forall>q \<in> set (tree_refs (insert_child b c t)). known s2 q"
    using insert_child_refs [of b c t] wf grown(2,3) refs by (auto simp: well_formed_def)
  moreover have "map_option ParentRef (m_root s2) = Some (node_ref (insert_child b c t))"
    using wf s2(4) made by (simp add: well_formed_def made_def)
  moreover have "NodeWithId (m_identifierMapping s2) (sm_nextIdentifier s) = Inr (node_ref c)"
    using reg by (simp add: NodeWithId_def s2(1) registered_def)
  moreover have "sm_nextIdentifier s2 = sm_nextIdentifier s + 1" using made small s2(3) by (simp add: made_def u32_def)
  ultimately show ?thesis using tree grown(1) by (simp add: well_formed_def)
qed

lemma root_set: "well_formed s t \<Longrightarrow> m_root s \<noteq> None"
  by (auto simp: well_formed_def)

text \<open>Registration before the node is appended, and after it.\<close>

lemma registered_then_appended:
  assumes wf: "well_formed s t" and made: "made cls (node_ref c) s s1" and new: "fresh s (node_ref c)" and b: "b \<in> set (tree_parents t)"
    and c: "c = ParentTree cls a [] \<or> c = RegisterLeaf a" and small: "sm_nextIdentifier s + 1 < 2 ^ 32"
  shows "\<exists>s2. RegisterNode (Some (node_ref c)) s1 = (Inr (), s2) \<and> m_root s2 \<noteq> None
    \<and> (\<exists>s3. append_to (Some b) (node_ref c) s2 = Some (Inr (), s3) \<and> well_formed s3 (insert_child b c t)
      \<and> NodeWithId (m_identifierMapping s3) (sm_nextIdentifier s) = Inr (node_ref c) \<and> sm_nextIdentifier s3 = sm_nextIdentifier s + 1)"
proof -
  let ?s2 = "put_mapping (m_identifierMapping s @ [Some (node_ref c)]) s1"
  obtain h' where h': "AppendChild b (Some (node_ref c)) (links s1) = Some (Inr (), h')" "tree_in h' (insert_child b c t)" "plain_heap h'"
    using links_grown [OF wf made new b c] by blast
  have reg: "RegisterNode (Some (node_ref c)) s1 = (Inr (), ?s2)"
    by (rule RegisterNode_made [OF made _ small]) (use wf made in \<open>auto simp: well_formed_def made_def\<close>)
  have "append_to (Some b) (node_ref c) ?s2 = Some (Inr (), ?s2\<lparr>links := h'\<rparr>)"
    by (simp add: append_to_def run_links_def h'(1))
  moreover have "m_root ?s2 \<noteq> None" using root_set [OF wf] made by (simp add: made_def)
  ultimately show ?thesis using reg well_formed_grown [OF wf made new c small, of "?s2\<lparr>links := h'\<rparr>" b] h'(2,3)
    by (intro exI [of _ ?s2] conjI exI [of _ "?s2\<lparr>links := h'\<rparr>"]) simp_all
qed

lemma appended_then_registered:
  assumes wf: "well_formed s t" and made: "made cls (node_ref c) s s1" and new: "fresh s (node_ref c)" and b: "b \<in> set (tree_parents t)"
    and c: "c = ParentTree cls a [] \<or> c = RegisterLeaf a" and small: "sm_nextIdentifier s + 1 < 2 ^ 32"
  shows "\<exists>s2 s3. append_to (Some b) (node_ref c) s1 = Some (Inr (), s2) \<and> RegisterNode (Some (node_ref c)) s2 = (Inr (), s3)
      \<and> well_formed s3 (insert_child b c t) \<and> NodeWithId (m_identifierMapping s3) (sm_nextIdentifier s) = Inr (node_ref c)
      \<and> sm_nextIdentifier s3 = sm_nextIdentifier s + 1"
proof -
  obtain h' where h': "AppendChild b (Some (node_ref c)) (links s1) = Some (Inr (), h')" "tree_in h' (insert_child b c t)" "plain_heap h'"
    using links_grown [OF wf made new b c] by blast
  let ?s2 = "s1\<lparr>links := h'\<rparr>"
  let ?s3 = "put_mapping (m_identifierMapping s @ [Some (node_ref c)]) ?s2"
  have "append_to (Some b) (node_ref c) s1 = Some (Inr (), ?s2)"
    by (simp add: append_to_def run_links_def h'(1))
  moreover have "RegisterNode (Some (node_ref c)) ?s2 = (Inr (), ?s3)"
    by (rule RegisterNode_made [OF made _ small]) (use wf made in \<open>auto simp: well_formed_def made_def\<close>)
  ultimately show ?thesis using well_formed_grown [OF wf made new c small, of ?s3 b] h'(2,3)
    by (intro exI [of _ ?s2] conjI exI [of _ ?s3]) simp_all
qed

lemma made_root: "made cls p s s1 \<Longrightarrow> m_root s1 = m_root s"
  by (simp add: made_def)

lemma auto_root_set: "m_root s \<noteq> None \<Longrightarrow> auto_root a s = (Inr (), s)"
  by (auto simp: auto_root_def act_simps)

lemma root_or_append_some: "root_or_append (Some b) a = append_to (Some b) (ParentRef a)"
  by (simp add: root_or_append_def fun_eq_iff)

text \<open>The creations that register first, for the class \<open>cls\<close> of node and what happens to its protocol.\<close>

lemma parent_grows:
  assumes wf: "well_formed s t" and new: "fresh s (ParentRef a)" and b: "b \<in> set (tree_parents t)" and small: "sm_nextIdentifier s + 1 < 2 ^ 32"
    and f: "\<And>s1. made cls (ParentRef a) s s1 \<Longrightarrow> made cls (ParentRef a) s (f s1)"
    and create: "\<And>s1 s2 s3. make_parent cls name a s = (Inr (ParentRef a), s1) \<Longrightarrow> RegisterNode (Some (ParentRef a)) (f s1) = (Inr (), s2)
      \<Longrightarrow> m_root s2 \<noteq> None \<Longrightarrow> append_to (Some b) (ParentRef a) s2 = Some (Inr (), s3) \<Longrightarrow> create s = Some (Inr (ParentRef a), s3)"
  shows "grows b (ParentTree cls a []) s t create"
proof -
  obtain s1 where s1: "make_parent cls name a s = (Inr (ParentRef a), s1)" "made cls (ParentRef a) s s1"
    using make_parent_made by blast
  obtain s2 s3 where s2: "RegisterNode (Some (ParentRef a)) (f s1) = (Inr (), s2)" "m_root s2 \<noteq> None"
    and s3: "append_to (Some b) (ParentRef a) s2 = Some (Inr (), s3)" "well_formed s3 (insert_child b (ParentTree cls a []) t)"
      "NodeWithId (m_identifierMapping s3) (sm_nextIdentifier s) = Inr (ParentRef a)" "sm_nextIdentifier s3 = sm_nextIdentifier s + 1"
    using registered_then_appended [OF wf, of cls "ParentTree cls a []" "f s1" b a] f [OF s1(2)] new b small by auto
  show ?thesis using create [OF s1(1) s2 s3(1)] s3 by (simp add: grows_def)
qed

lemma CreateChain_grows:
  "well_formed s t \<Longrightarrow> fresh s (ParentRef a) \<Longrightarrow> b \<in> set (tree_parents t) \<Longrightarrow> sm_nextIdentifier s + 1 < 2 ^ 32
    \<Longrightarrow> grows b (ParentTree Chain a []) s t (CreateChain name (Some b) a)"
  by (rule parent_grows [where f = "\<lambda>s. s" and name = name]) (simp_all add: CreateChain_def run_bind_def auto_root_set)

lemma CreateStreamer_grows:
  "well_formed s t \<Longrightarrow> fresh s (ParentRef a) \<Longrightarrow> b \<in> set (tree_parents t) \<Longrightarrow> sm_nextIdentifier s + 1 < 2 ^ 32
    \<Longrightarrow> grows b (ParentTree Streamer a []) s t (CreateStreamer name protocol (Some b) a)"
  by (rule parent_grows [where f = "put_protocol a protocol" and name = name])
     (simp_all add: CreateStreamer_def run_bind_def auto_root_set made_protocol)

lemma CreateAccessInterface_grows:
  "well_formed s t \<Longrightarrow> fresh s (ParentRef a) \<Longrightarrow> b \<in> set (tree_parents t) \<Longrightarrow> sm_nextIdentifier s + 1 < 2 ^ 32
    \<Longrightarrow> grows b (ParentTree AccessInterface a []) s t (CreateAccessInterface name protocol (Some b) a)"
  by (rule parent_grows [where f = "put_protocol a protocol" and name = name])
     (simp_all add: CreateAccessInterface_def run_bind_def root_or_append_some made_protocol)

lemma CreateAccessInterfaceTranslator_grows:
  "well_formed s t \<Longrightarrow> fresh s (ParentRef a) \<Longrightarrow> b \<in> set (tree_parents t) \<Longrightarrow> sm_nextIdentifier s + 1 < 2 ^ 32
    \<Longrightarrow> grows b (ParentTree AccessInterfaceTranslator a []) s t (CreateAccessInterfaceTranslator name protocol (Some b) a)"
  by (rule parent_grows [where f = "put_protocol a protocol" and name = name])
     (simp_all add: CreateAccessInterfaceTranslator_def run_bind_def root_or_append_some made_protocol)

lemma CreateLinker_grows:
  assumes wf: "well_formed s t" and new: "fresh s (ParentRef a)" and b: "b \<in> set (tree_parents t)" and small: "sm_nextIdentifier s + 1 < 2 ^ 32"
  shows "grows b (ParentTree Linker a []) s t (CreateLinker name (Some q) (Some b) a)"
proof -
  obtain s1 where s1: "make_linker name (Some q) a s = (Inr (ParentRef a), s1)" "made Linker (ParentRef a) s s1"
    using make_linker_made by blast
  obtain s2 s3 where s2: "append_to (Some b) (ParentRef a) s1 = Some (Inr (), s2)" "RegisterNode (Some (ParentRef a)) s2 = (Inr (), s3)"
    and s3: "well_formed s3 (insert_child b (ParentTree Linker a []) t)"
      "NodeWithId (m_identifierMapping s3) (sm_nextIdentifier s) = Inr (ParentRef a)" "sm_nextIdentifier s3 = sm_nextIdentifier s + 1"
    using appended_then_registered [OF wf, of Linker "ParentTree Linker a []" s1 b a] s1(2) new b small by auto
  have "CreateLinker name (Some q) (Some b) a s = Some (Inr (ParentRef a), s3)"
    using s1(1) s2 by (simp add: CreateLinker_def run_bind_def)
  then show ?thesis using s3 by (simp add: grows_def)
qed

lemma CreateRegister_grows:
  assumes wf: "well_formed s t" and new: "fresh s (RegisterRef a)" and b: "b \<in> set (tree_parents t)" and small: "sm_nextIdentifier s + 1 < 2 ^ 32"
    and reg: "Register_create_no_reset (sm_nextIdentifier s) name bypassSequence False Downto = Inr reg"
  shows "grows b (RegisterLeaf a) s t (CreateRegister name bypassSequence (Some b) a)"
proof -
  obtain s1 where s1: "make_register name bypassSequence a s = (Inr (RegisterRef a), s1)" "made Chain (RegisterRef a) s s1"
    using make_register_made [OF reg] by blast
  obtain s2 s3 where s2: "append_to (Some b) (RegisterRef a) s1 = Some (Inr (), s2)" "RegisterNode (Some (RegisterRef a)) s2 = (Inr (), s3)"
    and s3: "well_formed s3 (insert_child b (RegisterLeaf a) t)"
      "NodeWithId (m_identifierMapping s3) (sm_nextIdentifier s) = Inr (RegisterRef a)" "sm_nextIdentifier s3 = sm_nextIdentifier s + 1"
    using appended_then_registered [OF wf, of Chain "RegisterLeaf a" s1 b a] s1(2) new b small by auto
  have "CreateRegister name bypassSequence (Some b) a s = Some (Inr (RegisterRef a), s3)"
    using s1(1) s2 by (simp add: CreateRegister_def run_bind_def)
  then show ?thesis using s3 by (simp add: grows_def)
qed

lemma Register_create_default:
  assumes "plain bypassSequence" and "BitsCount bypassSequence < 4294967289"
  shows "\<exists>reg. Register_create_no_reset ident name bypassSequence False Downto = Inr reg"
proof -
  obtain bs p where b: "bypassSequence = bv_make bs p" "length bs < 4294967296" "p \<noteq> FixedOnCopy"
    using assms(1) by (rule plainE)
  then show ?thesis using assms(2)
    by (simp add: Register_create_no_reset_def Register_create_def BinaryVector_fill_make BinaryVector_empty_make BinaryVector_move_make Let_def)
qed

text \<open>The first access interface or chain is the root of an empty model.\<close>

definition empty_model :: "SystemModel \<Rightarrow> bool" where
  "empty_model s \<longleftrightarrow> sm_nextIdentifier s = 0 \<and> m_identifierMapping s = [] \<and> m_root s = None \<and> m_autoRootNode s \<and> plain_heap (links s)"

lemma first_well_formed:
  assumes s: "empty_model s" and made: "made cls (ParentRef a) s s1" and auto: "m_autoRootNode s1"
  shows "well_formed (put_root (Some a) (put_mapping [Some (ParentRef a)] s1)) (ParentTree cls a [])"
    and "RegisterNode (Some (ParentRef a)) s1 = (Inr (), put_mapping [Some (ParentRef a)] s1)"
proof -
  have reg: "registered s" using s by (simp add: registered_def empty_model_def)
  show "RegisterNode (Some (ParentRef a)) s1 = (Inr (), put_mapping [Some (ParentRef a)] s1)"
    using RegisterNode_made [OF made reg, of s1] s made by (simp add: empty_model_def made_def)
  have l1: "links s1 = (links s)(ParentRef a \<mapsto> new_links cls)" using made by (simp add: made_def)
  have "plain_heap (links s1)" using s by (auto simp: l1 plain_heap_def new_links_def empty_model_def)
  moreover have "tree_in (links s1) (ParentTree cls a [])" by (simp add: l1 new_links_def)
  ultimately show "well_formed (put_root (Some a) (put_mapping [Some (ParentRef a)] s1)) (ParentTree cls a [])"
    using s made by (simp add: well_formed_def registered_def known_def made_def empty_model_def u32_def)
qed

lemma make_parent_auto: "make_parent cls name a s = (Inr p, s1) \<Longrightarrow> m_autoRootNode s1 = m_autoRootNode s"
  by (auto simp: make_parent_def act_bind_def act_then_def SystemModelNode_identifier_def NextIdentifier_def put_parent_def)

lemma CreateAccessInterface_first:
  assumes "empty_model s"
  shows "\<exists>s'. CreateAccessInterface name protocol None a s = Some (Inr (ParentRef a), s')
    \<and> well_formed s' (ParentTree AccessInterface a []) \<and> sm_nextIdentifier s' = 1"
proof -
  obtain s1 where s1: "make_parent AccessInterface name a s = (Inr (ParentRef a), s1)" "made AccessInterface (ParentRef a) s s1"
    using make_parent_made by blast
  let ?s1 = "put_protocol a protocol s1"
  have auto: "m_autoRootNode ?s1" using make_parent_auto [OF s1(1)] assms by (simp add: put_protocol_def empty_model_def)
  note first = first_well_formed [OF assms made_protocol [OF s1(2)] auto]
  let ?s' = "put_root (Some a) (put_mapping [Some (ParentRef a)] ?s1)"
  have "root_or_append None a (put_mapping [Some (ParentRef a)] ?s1) = Some (Inr (), ?s')"
    using auto s1(2) assms by (simp add: root_or_append_def made_def empty_model_def put_mapping_def put_protocol_def)
  then have "CreateAccessInterface name protocol None a s = Some (Inr (ParentRef a), ?s')"
    using s1(1) first(2) by (simp add: CreateAccessInterface_def run_bind_def)
  moreover have "sm_nextIdentifier ?s' = 1" using s1(2) assms by (simp add: made_def empty_model_def u32_def)
  ultimately show ?thesis using first(1) by blast
qed

lemma CreateChain_first:
  assumes "empty_model s"
  shows "\<exists>s'. CreateChain name None a s = Some (Inr (ParentRef a), s') \<and> well_formed s' (ParentTree Chain a []) \<and> sm_nextIdentifier s' = 1"
proof -
  obtain s1 where s1: "make_parent Chain name a s = (Inr (ParentRef a), s1)" "made Chain (ParentRef a) s s1"
    using make_parent_made by blast
  have auto: "m_autoRootNode s1" using make_parent_auto [OF s1(1)] assms by (simp add: empty_model_def)
  note first = first_well_formed [OF assms s1(2) auto]
  let ?s2 = "put_mapping [Some (ParentRef a)] s1"
  have "auto_root a ?s2 = (Inr (), put_root (Some a) ?s2)"
    using auto s1(2) assms by (simp add: auto_root_def act_simps made_def empty_model_def put_mapping_def)
  then have "CreateChain name None a s = Some (Inr (ParentRef a), put_root (Some a) ?s2)"
    using s1(1) first(2) by (simp add: CreateChain_def run_bind_def append_to_def)
  moreover have "sm_nextIdentifier (put_root (Some a) ?s2) = 1" using s1(2) assms by (simp add: made_def empty_model_def u32_def)
  ultimately show ?thesis using first(1) by blast
qed

section \<open>A node made outside the registry\<close>

text \<open>More nodes have been made than registered: then no node can be created any more.\<close>

definition stranded :: "SystemModel \<Rightarrow> bool" where
  "stranded s \<longleftrightarrow> length (m_identifierMapping s) < sm_nextIdentifier s"

lemma CreateLinker_null:
  "CreateLinker name None parentNode a s = Some (Inl InvalidArgument, s\<lparr>sm_nextIdentifier := u32 (sm_nextIdentifier s + 1)\<rparr>)"
  by (simp add: CreateLinker_def run_bind_def make_linker_def act_bind_def SystemModelNode_identifier_def NextIdentifier_def
      Linker_create_def Let_def check_defs)

lemma CreateLinker_null_strands:
  "registered s \<Longrightarrow> sm_nextIdentifier s + 1 < 2 ^ 32 \<Longrightarrow> \<exists>s'. CreateLinker name None parentNode a s = Some (Inl InvalidArgument, s')
    \<and> stranded s' \<and> sm_nextIdentifier s' = sm_nextIdentifier s + 1"
  by (auto simp: CreateLinker_null registered_def stranded_def u32_def)

lemma RegisterNode_stranded:
  assumes "Identifier s p = Inr n" and "length (m_identifierMapping s) < n"
  shows "RegisterNode (Some p) s = (Inl LogicError, s)"
  using assms by (simp add: RegisterNode_def act_bind_def)

text \<open>No node is returned, whatever the outcome, and the model is still stranded.\<close>

definition refused :: "NodeRef model_run \<Rightarrow> SystemModel \<Rightarrow> bool" where
  "refused create s \<longleftrightarrow> (\<forall>res s'. create s = Some (res, s')
    \<longrightarrow> (\<exists>e. res = Inl e) \<and> stranded s' \<and> sm_nextIdentifier s' = sm_nextIdentifier s + 1)"

lemma refused_throws:
  "create s = Some (Inl e, s') \<Longrightarrow> stranded s' \<Longrightarrow> sm_nextIdentifier s' = sm_nextIdentifier s + 1 \<Longrightarrow> refused create s"
  by (simp add: refused_def)

lemma made_stranded:
  assumes "stranded s" and "made cls p s s1" and "sm_nextIdentifier s + 1 < 2 ^ 32" and "model_world s2 = model_world s1"
    and "m_identifierMapping s2 = m_identifierMapping s1" and "sm_nextIdentifier s2 = sm_nextIdentifier s1"
  shows "RegisterNode (Some p) s2 = (Inl LogicError, s2)" and "stranded s2" and "sm_nextIdentifier s2 = sm_nextIdentifier s + 1"
proof -
  have "Identifier s2 p = Inr (sm_nextIdentifier s)" using assms(2) Identifier_world [OF assms(4)] by (simp add: made_def)
  then show "RegisterNode (Some p) s2 = (Inl LogicError, s2)"
    using assms by (intro RegisterNode_stranded) (simp_all add: made_def stranded_def)
qed (use assms in \<open>simp_all add: made_def stranded_def u32_def\<close>)

lemma append_to_keeps:
  "append_to parentNode p s = Some (res, s') \<Longrightarrow> model_world s' = model_world s \<and> m_identifierMapping s' = m_identifierMapping s
    \<and> sm_nextIdentifier s' = sm_nextIdentifier s"
  by (auto simp: append_to_def run_links_def split: option.splits)

lemma make_parent_stranded:
  assumes s: "stranded s" and small: "sm_nextIdentifier s + 1 < 2 ^ 32"
  shows "\<exists>s1. make_parent cls name a s = (Inr (ParentRef a), s1)
    \<and> (\<forall>s2 \<in> {s1, put_protocol a protocol s1}. RegisterNode (Some (ParentRef a)) s2 = (Inl LogicError, s2) \<and> stranded s2
      \<and> sm_nextIdentifier s2 = sm_nextIdentifier s + 1)"
proof -
  obtain s1 where s1: "make_parent cls name a s = (Inr (ParentRef a), s1)" "made cls (ParentRef a) s s1"
    using make_parent_made by blast
  then show ?thesis using made_stranded [OF s s1(2) small] by auto
qed

lemma appended_first_refused:
  assumes s: "stranded s" and small: "sm_nextIdentifier s + 1 < 2 ^ 32" and made: "made cls p s s1"
    and create: "create s = run_bind (append_to parentNode p) (\<lambda>_. run_bind (run_act (RegisterNode (Some p))) (\<lambda>_. run_return p)) s1"
  shows "refused create s"
  unfolding refused_def
proof (intro allI impI)
  fix res s' assume run: "create s = Some (res, s')"
  show "(\<exists>e. res = Inl e) \<and> stranded s' \<and> sm_nextIdentifier s' = sm_nextIdentifier s + 1"
  proof (cases "append_to parentNode p s1")
    case None
    then show ?thesis using run create by (simp add: run_bind_def)
  next
    case (Some r)
    obtain x s2 where r: "r = (x, s2)" by (cases r)
    note keep = append_to_keeps [OF Some [unfolded r]]
    note st = made_stranded [OF s made small, of s2]
    show ?thesis using run create Some r st keep by (cases x) (auto simp: run_bind_def)
  qed
qed

lemma creations_refused:
  assumes s: "stranded s" and small: "sm_nextIdentifier s + 1 < 2 ^ 32"
  shows "refused (CreateChain name parentNode a) s" and "refused (CreateStreamer name protocol parentNode a) s"
    and "refused (CreateAccessInterface name protocol parentNode a) s" and "refused (CreateAccessInterfaceTranslator name protocol parentNode a) s"
    and "refused (CreateLinker name selector parentNode a) s"
    and "refused (CreateRegister name bypassSequence parentNode a) s"
proof -
  note parent = make_parent_stranded [OF s small]
  show "refused (CreateChain name parentNode a) s"
    using parent [of Chain name a None] by (auto simp: CreateChain_def run_bind_def intro: refused_throws)
  show "refused (CreateStreamer name protocol parentNode a) s"
    using parent [of Streamer name a protocol] by (auto simp: CreateStreamer_def run_bind_def intro: refused_throws)
  show "refused (CreateAccessInterface name protocol parentNode a) s"
    using parent [of AccessInterface name a protocol] by (auto simp: CreateAccessInterface_def run_bind_def intro: refused_throws)
  show "refused (CreateAccessInterfaceTranslator name protocol parentNode a) s"
    using parent [of AccessInterfaceTranslator name a protocol]
    by (auto simp: CreateAccessInterfaceTranslator_def run_bind_def intro: refused_throws)
  show "refused (CreateLinker name selector parentNode a) s"
  proof (cases selector)
    case None
    show ?thesis unfolding None by (rule refused_throws, rule CreateLinker_null) (use s small in \<open>simp_all add: stranded_def u32_def\<close>)
  next
    case (Some q)
    obtain s1 where s1: "make_linker name (Some q) a s = (Inr (ParentRef a), s1)" "made Linker (ParentRef a) s s1"
      using make_linker_made by blast
    show ?thesis
      by (rule appended_first_refused [OF s small s1(2)]) (use s1(1) in \<open>simp add: CreateLinker_def Some\<close>)
  qed
  show "refused (CreateRegister name bypassSequence parentNode a) s"
  proof (cases "Register_create_no_reset (sm_nextIdentifier s) name bypassSequence False Downto")
    case (Inl e)
    then have "CreateRegister name bypassSequence parentNode a s = Some (Inl e, s\<lparr>sm_nextIdentifier := u32 (sm_nextIdentifier s + 1)\<rparr>)"
      by (simp add: CreateRegister_def run_bind_def make_register_def act_bind_def SystemModelNode_identifier_def NextIdentifier_def)
    then show ?thesis by (rule refused_throws) (use s small in \<open>simp_all add: stranded_def u32_def\<close>)
  next
    case (Inr reg)
    obtain s1 where s1: "make_register name bypassSequence a s = (Inr (RegisterRef a), s1)" "made Chain (RegisterRef a) s s1"
      using make_register_made [OF Inr] by blast
    show ?thesis
      by (rule appended_first_refused [OF s small s1(2)]) (use s1(1) in \<open>simp add: CreateRegister_def\<close>)
  qed
qed

section \<open>Disconnection\<close>

lemma parent_in_sound: "parent_in q t = Some a \<Longrightarrow> \<exists>cls cs c. ParentTree cls a cs \<in> subtrees t \<and> c \<in> set cs \<and> node_ref c = q"
  and parent_among_sound: "parent_among q ts = Some a \<Longrightarrow> \<exists>t \<in> set ts. \<exists>cls cs c. ParentTree cls a cs \<in> subtrees t \<and> c \<in> set cs \<and> node_ref c = q"
proof (induction q t and q ts rule: parent_in_parent_among.induct)
  case (2 p cls a cs)
  then show ?case by (auto split: if_splits)
next
  case (4 p c cs)
  then show ?case by (auto split: option.splits)
qed simp_all

lemma parent_among_None: "parent_among q ts = None \<longleftrightarrow> (\<forall>t \<in> set ts. parent_in q t = None)"
  by (induction ts) (auto split: option.splits)

lemma parent_in_complete: "ParentTree cls a cs \<in> subtrees t \<Longrightarrow> c \<in> set cs \<Longrightarrow> parent_in (node_ref c) t \<noteq> None"
proof (induction t)
  case (ParentTree k r ds)
  show ?case
  proof (cases "node_ref c \<in> node_ref ` set ds")
    case False
    then obtain d where "d \<in> set ds" "ParentTree cls a cs \<in> subtrees d" using ParentTree.prems by auto
    then have "\<exists>d \<in> set ds. parent_in (node_ref c) d \<noteq> None" using ParentTree.IH ParentTree.prems(2) by blast
    then have "parent_among (node_ref c) ds \<noteq> None" by (metis parent_among_None)
    then show ?thesis using False by simp
  qed simp
qed simp

lemma parent_in_eq:
  assumes t: "distinct (tree_refs t)" and b: "ParentTree cls b bs \<in> subtrees t" and c: "c \<in> set bs"
  shows "parent_in (node_ref c) t = Some b"
proof -
  obtain a where a: "parent_in (node_ref c) t = Some a" using parent_in_complete [OF b c] by blast
  then obtain k as d where d: "ParentTree k a as \<in> subtrees t" "d \<in> set as" "node_ref d = node_ref c" using parent_in_sound by blast
  have "d = c" using subtree_unique [OF t child_in [OF d(1,2)] child_in [OF b c] d(3)] .
  then show ?thesis using parent_unique [OF t d(1) b d(2)] c a by simp
qed

lemma tree_in_alive: "tree_in h t \<Longrightarrow> p \<in> set (tree_refs t) \<Longrightarrow> h p \<noteq> None"
  unfolding tree_in_nodes tree_refs_nodes by clarify (case_tac x; force)

text \<open>The node leaves the tree with all that is below it, and keeps its identifier.\<close>

lemma DisconnectNode_removes:
  assumes wf: "well_formed s t" and b: "ParentTree cls b bs \<in> subtrees t" and c: "c \<in> set bs"
  shows "\<exists>s'. DisconnectNode (Some (node_ref c)) None s = Some (Inr (), s') \<and> tree_in (links s') (remove_child b (node_ref c) t)
    \<and> tree_in (links s') c \<and> plain_heap (links s') \<and> m_root s' = m_root s \<and> m_identifierMapping s' = m_identifierMapping s
    \<and> model_world s' = model_world s \<and> sm_nextIdentifier s' = sm_nextIdentifier s"
proof -
  have t: "tree_in (links s) t" "distinct (tree_refs t)" "plain_heap (links s)" and root: "map_option ParentRef (m_root s) = Some (node_ref t)"
    using wf by (auto simp: well_formed_def)
  obtain r k cs where r: "m_root s = Some r" "t = ParentTree k r cs" using root by (cases t) auto
  have "c \<noteq> t"
  proof
    assume "c = t"
    then show False using not_below_itself [OF b] c by simp
  qed
  then have not_root: "node_ref c \<noteq> ParentRef r" using subtree_unique [OF t(2) child_in [OF b c], of t] r(2) by auto
  obtain h' where h': "DisconnectChild b (Some (node_ref c)) (links s) = Some (Inr (), h')" "tree_in h' (remove_child b (node_ref c) t)"
    "tree_in h' c" "plain_heap h'" using disconnect_in_tree [OF t(1,2) b c t(3)] by blast
  have parent: "parent_in (node_ref c) t = Some b" by (rule parent_in_eq [OF t(2) b c])
  have direct: "HasDirectChild r (Some (node_ref c)) (links s) = Some (Inr (node_ref c \<in> set (map node_ref cs)))"
    by (rule HasDirectChild_eq, rule tree_siblings [of _ k]) (use t(1) r(2) in simp)
  have search: "FindParentOfNode r (Some (node_ref c)) (links s) = Some (Inr (Some b))"
    using FindParentOfNode_eq [of "links s" k r cs "node_ref c"] t(1) r(2) parent by simp
  have "r = b" if "node_ref c \<in> set (map node_ref cs)" using parent r(2) that by auto
  then have "DisconnectNode (Some (node_ref c)) None s = Some (Inr (), s\<lparr>links := h'\<rparr>)"
    using not_root r(1) h'(1) direct search
    by (auto simp: DisconnectNode_def run_bind_def run_search_def run_links_def)
  then show ?thesis using h'(2-4) by (intro exI [of _ "s\<lparr>links := h'\<rparr>"]) simp
qed

lemma DisconnectNode_root:
  "m_root s = Some r \<Longrightarrow> DisconnectNode (Some (ParentRef r)) parentNode s = Some (Inr (), put_root None s)"
  by (simp add: DisconnectNode_def)

lemma DisconnectNode_missing:
  assumes wf: "well_formed s t" and q: "q \<notin> set (tree_refs t)"
  shows "DisconnectNode (Some q) None s = Some (Inl RuntimeError, s)"
proof -
  have t: "tree_in (links s) t" and root: "map_option ParentRef (m_root s) = Some (node_ref t)"
    using wf by (auto simp: well_formed_def)
  obtain r k cs where r: "m_root s = Some r" "t = ParentTree k r cs" using root by (cases t) auto
  have "parent_in q t = None"
  proof (rule ccontr)
    assume "parent_in q t \<noteq> None"
    then obtain cls a as c where "ParentTree cls a as \<in> subtrees t" "c \<in> set as" "node_ref c = q" using parent_in_sound by blast
    then show False using q child_in [of cls a as t c] by (auto simp: tree_refs_nodes)
  qed
  moreover have "HasDirectChild r (Some q) (links s) = Some (Inr (q \<in> set (map node_ref cs)))"
    by (rule HasDirectChild_eq, rule tree_siblings [of _ k]) (use t r(2) in simp)
  moreover have "q \<notin> node_ref ` set cs" using q r(2) node_ref_in by fastforce
  moreover have "q \<noteq> ParentRef r" using q r(2) by auto
  ultimately show ?thesis using r FindParentOfNode_eq [of "links s" k r cs q] t
    by (auto simp: DisconnectNode_def run_bind_def run_search_def run_throw_def)
qed

section \<open>The root\<close>

text \<open>Setting the root to the node that already is the root removes it from the registry.\<close>

lemma SetRoot_same:
  assumes wf: "well_formed s t" and r: "m_root s = Some r"
  shows "\<exists>i s'. Identifier s (ParentRef r) = Inr i \<and> NodeWithId (m_identifierMapping s) i = Inr (ParentRef r)
    \<and> SetRoot (Some r) s = (Inr (), s') \<and> m_root s' = Some r \<and> NodeWithId (m_identifierMapping s') i = Inl LogicError"
proof -
  have "known s (ParentRef r)" using wf r node_ref_in [of t] by (auto simp: well_formed_def)
  then obtain i where i: "i < length (m_identifierMapping s)" "m_identifierMapping s ! i = Some (ParentRef r)" by (auto simp: known_def)
  have ident: "Identifier s (ParentRef r) = Inr i" using wf registered_Identifier i by (simp add: well_formed_def)
  have "SetRoot (Some r) s = (Inr (), put_root (Some r) (put_mapping ((m_identifierMapping s)[i := None]) s))"
    using r i ident by (simp add: SetRoot_def ReplaceRoot_def act_bind_def act_then_def RemoveNodeFromModel_def)
  then show ?thesis using i ident by (simp add: NodeWithId_def)
qed

end
