(* ===== verification/System_Properties.thy ===== *)
theory System_Properties
  imports System_Model Cycle_Properties
begin

text \<open>
  What the child lists, the creation of nodes and their disconnection promise, with instances on a model of
  an access interface with two registers.
\<close>

section \<open>A small model\<close>

definition twin_world :: World where
  "twin_world = \<lparr>registers = (\<lambda>a. if a = 1 then Some (sample_reg 1 [True]) else if a = 2 then Some (sample_reg 2 [False]) else None),
     parents = (\<lambda>a. if a = 0 then Some (plain_node 0) else None), selectors = (\<lambda>_. None)\<rparr>"

definition twin_heap :: heap where
  "twin_heap = [ParentRef 0 \<mapsto> set_first (Some (RegisterRef 1)) (new_links AccessInterface),
     RegisterRef 1 \<mapsto> set_next (Some (RegisterRef 2)) (new_links Chain), RegisterRef 2 \<mapsto> new_links Chain]"

definition twin_model :: SystemModel where
  "twin_model = \<lparr>model_world = twin_world, links = twin_heap, m_protocol = (\<lambda>_. None), sm_nextIdentifier = 3,
     m_autoRootNode = True, m_root = Some 0, m_identifierMapping = [Some (ParentRef 0), Some (RegisterRef 1), Some (RegisterRef 2)]\<rparr>"

abbreviation twin_tree :: SystemTree where
  "twin_tree \<equiv> ParentTree AccessInterface 0 [RegisterLeaf 1, RegisterLeaf 2]"

lemma twin_heap_simps [simp]:
  "twin_heap (ParentRef 0) = Some (set_first (Some (RegisterRef 1)) (new_links AccessInterface))"
  "twin_heap (RegisterRef 1) = Some (set_next (Some (RegisterRef 2)) (new_links Chain))"
  "twin_heap (RegisterRef (Suc 0)) = Some (set_next (Some (RegisterRef 2)) (new_links Chain))"
  "twin_heap (RegisterRef 2) = Some (new_links Chain)"
  "twin_heap (ParentRef 3) = None" "twin_heap (RegisterRef 3) = None"
  by (simp_all add: twin_heap_def)

lemma new_links_simps [simp]: "m_pNextSibling (new_links cls) = None" "m_pFirstChild (new_links cls) = None"
  "m_pOptionalChildAppender (new_links cls) = None" "node_class (new_links cls) = cls" "node_class (set_first q nd) = node_class nd"
  "node_class (set_next q nd) = node_class nd"
  by (simp_all add: new_links_def set_first_def set_next_def)

lemma twin_tree_in: "tree_in twin_heap twin_tree"
  by simp

lemma twin_plain: "plain_heap twin_heap"
  by (auto simp: plain_heap_def twin_heap_def split: if_splits)

lemma twin_well_formed: "well_formed twin_model twin_tree"
proof -
  have "registered twin_model"
    by (auto simp: registered_def twin_model_def Identifier_def twin_world_def register_at_def parent_at_def deref_def
        plain_node_def sample_reg_def less_Suc_eq nth_Cons numeral_3_eq_3 numeral_2_eq_2 split: nat.splits if_splits)
  moreover have "\<forall>p \<in> set (tree_refs twin_tree). known twin_model p"
    by (auto simp: known_def twin_model_def intro: exI [of _ 0] exI [of _ 1] exI [of _ 2])
  ultimately show ?thesis using twin_tree_in twin_plain by (simp add: well_formed_def twin_model_def)
qed

lemma twin_fresh: "fresh twin_model (ParentRef 3)" "fresh twin_model (RegisterRef 3)"
  by (simp_all add: fresh_def twin_model_def twin_world_def)

lemma twin_children: "children_are twin_heap 0 ([] @ RegisterRef 1 # [RegisterRef 2])" "plain_parent twin_heap 0"
  by (simp_all add: children_are_def plain_parent_def)

section \<open>The tree grows and shrinks\<close>

text \<open>C4: Creating a node below a parent of a well formed model returns the node, appends it as the last child of
  that parent in the tree the links draw, registers it under the next identifier and keeps the model well formed.\<close>
theorem created_nodes_registered:
  assumes "well_formed s t" and "b \<in> set (tree_parents t)" and "sm_nextIdentifier s + 1 < 2 ^ 32"
    and "fresh s (ParentRef a)" and "fresh s (RegisterRef r)" and "plain bypassSequence" and "BitsCount bypassSequence < 4294967289"
  shows "grows b (ParentTree Chain a []) s t (CreateChain name (Some b) a)
    \<and> grows b (ParentTree Linker a []) s t (CreateLinker name (Some selector) (Some b) a)
    \<and> grows b (RegisterLeaf r) s t (CreateRegister name bypassSequence (Some b) r)
    \<and> grows b (ParentTree Streamer a []) s t (CreateStreamer name protocol (Some b) a)
    \<and> grows b (ParentTree AccessInterface a []) s t (CreateAccessInterface name protocol (Some b) a)
    \<and> grows b (ParentTree AccessInterfaceTranslator a []) s t (CreateAccessInterfaceTranslator name protocol (Some b) a)"
proof -
  obtain reg where reg: "Register_create_no_reset (sm_nextIdentifier s) name bypassSequence False Downto = Inr reg"
    using Register_create_default [OF assms(6,7)] by blast
  note node = assms(1,4,2,3)
  show ?thesis
    using CreateChain_grows [OF node] CreateLinker_grows [OF node] CreateRegister_grows [OF assms(1,5,2,3) reg]
      CreateStreamer_grows [OF node] CreateAccessInterface_grows [OF node] CreateAccessInterfaceTranslator_grows [OF node] by blast
qed

theorem created_nodes_registered_witness:
  "grows 0 (ParentTree Chain 3 []) twin_model twin_tree (CreateChain ''c'' (Some 0) 3)
    \<and> grows 0 (RegisterLeaf 3) twin_model twin_tree (CreateRegister ''c'' (bv_make [True, False] NotFixed) (Some 0) 3)"
proof -
  have pl: "plain (bv_make [True, False] NotFixed)" by (simp add: plain_def)
  have pre: "0 \<in> set (tree_parents twin_tree)" "sm_nextIdentifier twin_model + 1 < 2 ^ 32" "BitsCount (bv_make [True, False] NotFixed) < 4294967289"
    by (simp_all add: twin_model_def)
  show ?thesis using created_nodes_registered [OF twin_well_formed pre(1,2) twin_fresh pl pre(3), of "''c''"] by blast
qed

text \<open>C12: Disconnecting a child of any parent of a well formed model removes its subtree from the tree and
  nothing else: the subtree stays intact, and every identifier still finds its node.\<close>
theorem disconnected_node_removed:
  assumes "well_formed s t" and "ParentTree cls b bs \<in> subtrees t" and "c \<in> set bs"
  shows "\<exists>s'. DisconnectNode (Some (node_ref c)) None s = Some (Inr (), s') \<and> tree_in (links s') (remove_child b (node_ref c) t)
    \<and> set (tree_refs c) \<inter> set (tree_refs (remove_child b (node_ref c) t)) = {} \<and> tree_in (links s') c
    \<and> m_root s' = m_root s \<and> m_identifierMapping s' = m_identifierMapping s \<and> model_world s' = model_world s"
  using DisconnectNode_removes [OF assms] removed_refs [of t cls b bs c] assms by (auto simp: well_formed_def)

theorem disconnected_node_removed_witness:
  "\<exists>s'. DisconnectNode (Some (RegisterRef 1)) None twin_model = Some (Inr (), s')
    \<and> tree_in (links s') (ParentTree AccessInterface 0 [RegisterLeaf 2])"
  using disconnected_node_removed [OF twin_well_formed, of AccessInterface 0 "[RegisterLeaf 1, RegisterLeaf 2]" "RegisterLeaf 1"] by auto

text \<open>C16: The search for the parent of a node always ends. It finds the parent of every node below the one it
  starts from, and finds nothing for any other node.\<close>
theorem parent_of_node_found:
  assumes "tree_in h (ParentTree cls a cs)" and "distinct (tree_refs (ParentTree cls a cs))"
  shows "\<exists>found. FindParentOfNode a (Some q) h = Some (Inr found)
    \<and> (\<forall>b. found = Some b \<longleftrightarrow> (\<exists>k bs c. ParentTree k b bs \<in> subtrees (ParentTree cls a cs) \<and> c \<in> set bs \<and> node_ref c = q))"
  using FindParentOfNode_eq [OF assms(1), of q] parent_in_sound [of q "ParentTree cls a cs"] parent_in_eq [OF assms(2)]
  by blast

theorem parent_of_node_found_witness:
  "FindParentOfNode 0 (Some (RegisterRef 2)) twin_heap = Some (Inr (Some 0))"
proof -
  have "ParentTree AccessInterface 0 [RegisterLeaf 1, RegisterLeaf 2] \<in> subtrees twin_tree" by simp
  moreover have "RegisterLeaf 2 \<in> set [RegisterLeaf 1, RegisterLeaf 2]" by simp
  ultimately show ?thesis
    using parent_of_node_found [OF twin_tree_in, of "RegisterRef 2"] by fastforce
qed

section \<open>Where the code goes wrong\<close>

text \<open>C17: A disconnected child that is not the last one keeps its next sibling. Appending it again closes the list
  of children to a circle: counting the children throws, and appending to that parent never returns again.\<close>
theorem reappended_child_closes_circle:
  assumes "children_are h a (xs @ c # ys)" and "plain_parent h a" and "ys \<noteq> []"
  shows "\<exists>h1 h2. DisconnectChild a (Some c) h = Some (Inr (), h1) \<and> children_are h1 a (xs @ ys)
    \<and> AppendChild a (Some c) h1 = Some (Inr (), h2) \<and> DirectChildrenCount a h2 = Inl LogicError \<and> (\<forall>q. AppendChild a q h2 = None)"
  using reappended_endless [OF assms] DisconnectChild_eq [OF assms(1,2)] by fastforce

theorem reappended_child_closes_circle_witness:
  "\<exists>h1 h2. DisconnectChild 0 (Some (RegisterRef 1)) twin_heap = Some (Inr (), h1) \<and> AppendChild 0 (Some (RegisterRef 1)) h1 = Some (Inr (), h2)
    \<and> (\<forall>q. AppendChild 0 q h2 = None)"
  using reappended_child_closes_circle [OF twin_children] by blast

text \<open>C18: Creating a linker without a path selector throws but uses up an identifier. From then on no creation
  of a node succeeds, and none makes a later one succeed.\<close>
theorem failed_linker_blocks_creation:
  assumes "registered s" and "sm_nextIdentifier s + 2 < 2 ^ 32"
  shows "\<exists>s'. CreateLinker name None parentNode a s = Some (Inl InvalidArgument, s') \<and> stranded s'
    \<and> refused (CreateChain name' parentNode' b) s' \<and> refused (CreateStreamer name' protocol parentNode' b) s'
    \<and> refused (CreateAccessInterface name' protocol parentNode' b) s' \<and> refused (CreateAccessInterfaceTranslator name' protocol parentNode' b) s'
    \<and> refused (CreateLinker name' selector parentNode' b) s'
    \<and> refused (CreateRegister name' bypassSequence parentNode' b) s'"
proof -
  obtain s' where s': "CreateLinker name None parentNode a s = Some (Inl InvalidArgument, s')" "stranded s'"
    "sm_nextIdentifier s' = sm_nextIdentifier s + 1" using CreateLinker_null_strands [OF assms(1), of name parentNode a] assms(2) by auto
  have "sm_nextIdentifier s' + 1 < 2 ^ 32" using s'(3) assms(2) by simp
  note refused = creations_refused [OF s'(2) this]
  show ?thesis by (intro exI [of _ s'] conjI s'(1,2) refused)
qed

theorem failed_linker_blocks_creation_witness:
  "\<exists>s'. CreateLinker ''l'' None (Some 0) 3 twin_model = Some (Inl InvalidArgument, s') \<and> refused (CreateChain ''c'' (Some 0) 4) s'"
proof -
  have "registered twin_model" "sm_nextIdentifier twin_model + 2 < 2 ^ 32" using twin_well_formed by (simp_all add: well_formed_def twin_model_def)
  then show ?thesis using failed_linker_blocks_creation [where name = "''l''" and name' = "''c''"] by blast
qed

end
