(* ===== verification/Node_Paths.thy ===== *)
theory Node_Paths
  imports System_Model Text_Utility
begin

text \<open>
  Nodes found by name: \<^verbatim>\<open>FindChild\<close>, \<^verbatim>\<open>FindNode\<close> and \<^verbatim>\<open>FindRegister\<close> of \<^verbatim>\<open>ParentNode.cpp\<close>, the aliases of
  \<^verbatim>\<open>AliasRepository.cpp\<close>, and the cache of \<^verbatim>\<open>NodePathResolver.cpp\<close>.
\<close>

section \<open>Names\<close>

definition Name :: "SystemModel \<Rightarrow> NodeRef \<Rightarrow> string result" where
  "Name s p = (case p of RegisterRef a \<Rightarrow> rbind (register_at (model_world s) a) (\<lambda>r. Inr (m_name r))
                       | ParentRef a \<Rightarrow> rbind (parent_at (model_world s) a) (\<lambda>nd. Inr (m_name nd)))"

definition IgnoreForNodePath :: "SystemModel \<Rightarrow> nat \<Rightarrow> bool result" where
  "IgnoreForNodePath s a = rbind (parent_at (model_world s) a) (\<lambda>nd. Inr (m_ignoreForNodePath nd))"

definition ignored :: "SystemModel \<Rightarrow> NodeRef \<Rightarrow> bool result" where
  "ignored s p = (case p of RegisterRef a \<Rightarrow> Inr False | ParentRef a \<Rightarrow> IgnoreForNodePath s a)"

definition NextSibling :: "SystemModel \<Rightarrow> NodeRef \<Rightarrow> NodeRef option result" where
  "NextSibling s p = rbind (node_at (links s) p) (\<lambda>nd. Inr (m_pNextSibling nd))"

definition FirstChild :: "SystemModel \<Rightarrow> nat \<Rightarrow> NodeRef option result" where
  "FirstChild s a = rbind (node_at (links s) (ParentRef a)) (\<lambda>nd. Inr (m_pFirstChild nd))"

section \<open>Children\<close>

partial_function (option) FindChild_direct :: "SystemModel \<Rightarrow> string \<Rightarrow> NodeRef option \<Rightarrow> NodeRef option result option" where
  "FindChild_direct s childName currentChild =
    (case currentChild of None \<Rightarrow> Some (Inr None)
     | Some c \<Rightarrow> search_bind (Some (Name s c)) (\<lambda>name.
         if name = childName then Some (Inr (Some c))
         else search_bind (Some (NextSibling s c)) (\<lambda>next. FindChild_direct s childName next)))"

partial_function (option) FindChild_ignored :: "SystemModel \<Rightarrow> string \<Rightarrow> NodeRef option \<Rightarrow> NodeRef option result option" where
  "FindChild_ignored s childName currentChild =
    (case currentChild of None \<Rightarrow> Some (Inr None)
     | Some c \<Rightarrow>
       search_bind (Some (ignored s c)) (\<lambda>skip.
       search_bind (case c of RegisterRef a \<Rightarrow> Some (Inr None)
                    | ParentRef b \<Rightarrow> if \<not> skip then Some (Inr None)
                        else search_bind (Some (FirstChild s b)) (\<lambda>first.
                             search_bind (FindChild_direct s childName first) (\<lambda>found.
                               if found \<noteq> None then Some (Inr found) else FindChild_ignored s childName first)))
         (\<lambda>foundChild. if foundChild \<noteq> None then Some (Inr foundChild)
            else search_bind (Some (NextSibling s c)) (\<lambda>next. FindChild_ignored s childName next))))"

definition FindChild :: "SystemModel \<Rightarrow> nat \<Rightarrow> string \<Rightarrow> NodeRef option result option" where
  "FindChild s a childName =
    search_bind (Some (FirstChild s a)) (\<lambda>first.
    search_bind (FindChild_direct s childName first) (\<lambda>found.
      if found \<noteq> None then Some (Inr found) else FindChild_ignored s childName first))"

section \<open>Paths\<close>

text \<open>The next part of the path, the position after it, and whether the path is found not to be valid.\<close>

definition extractNextChunk :: "string \<Rightarrow> nat \<Rightarrow> string \<times> nat \<times> bool" where
  "extractNextChunk path startPos =
    (if startPos \<ge> length path then ([], startPos, False)
     else let dotPos = view_find ''.'' path startPos in
       if dotPos = Some startPos then (''<<< Not valid path ! >>>'', length path, True)
       else let endPos = (case dotPos of None \<Rightarrow> length path | Some d \<Rightarrow> d)
            in (take (endPos - startPos) (drop startPos path), endPos + 1, False))"

text \<open>What the loop over siblings leaves: the node found, the parents to process, and where the path stands.\<close>

record PathSearch =
  foundNode :: "NodeRef option"
  parentsToProcess :: "nat list"
  currentPathChunk :: string
  startPos :: nat
  notValidPath :: bool

partial_function (option) FindNode_siblings :: "SystemModel \<Rightarrow> string \<Rightarrow> NodeRef option \<Rightarrow> PathSearch \<Rightarrow> PathSearch result option" where
  "FindNode_siblings s path currentChild st =
    (case currentChild of None \<Rightarrow> Some (Inr st)
     | Some c \<Rightarrow>
       if notValidPath st then Some (Inr st) else
       search_bind (Some (ignored s c)) (\<lambda>skip.
       case c of
         ParentRef b \<Rightarrow>
           if skip then search_bind (Some (NextSibling s c)) (\<lambda>next.
             FindNode_siblings s path next (st\<lparr>parentsToProcess := parentsToProcess st @ [b]\<rparr>))
           else search_bind (Some (Name s c)) (\<lambda>name.
             if name = currentPathChunk st
             then (case extractNextChunk path (startPos st) of (part, pos, bad) \<Rightarrow>
               let st1 = st\<lparr>currentPathChunk := part, startPos := pos, notValidPath := bad\<rparr>
               in if part = [] then Some (Inr (st1\<lparr>foundNode := Some c\<rparr>))
                  else Some (Inr (st1\<lparr>parentsToProcess := [b]\<rparr>)))
             else search_bind (Some (NextSibling s c)) (\<lambda>next. FindNode_siblings s path next st))
       | RegisterRef a \<Rightarrow>
           search_bind (Some (Name s c)) (\<lambda>name.
             if name = currentPathChunk st
             then (case extractNextChunk path (startPos st) of (part, pos, bad) \<Rightarrow>
               let st1 = st\<lparr>currentPathChunk := part, startPos := pos, notValidPath := bad\<rparr>
               in if part = [] then Some (Inr (st1\<lparr>foundNode := Some c\<rparr>))
                  else Some (Inr (st1\<lparr>parentsToProcess := []\<rparr>)))
             else search_bind (Some (NextSibling s c)) (\<lambda>next. FindNode_siblings s path next st))))"

partial_function (option) FindNode_loop :: "SystemModel \<Rightarrow> string \<Rightarrow> nat \<Rightarrow> PathSearch \<Rightarrow> PathSearch result option" where
  "FindNode_loop s path nextParent st =
    search_bind (Some (FirstChild s nextParent)) (\<lambda>first.
    search_bind (FindNode_siblings s path first st) (\<lambda>st1.
      case parentsToProcess st1 of [] \<Rightarrow> Some (Inr st1)
      | front # rest \<Rightarrow>
          let st2 = st1\<lparr>parentsToProcess := rest\<rparr>
          in if foundNode st2 = None \<and> \<not> notValidPath st2 then FindNode_loop s path front st2 else Some (Inr st2)))"

definition FindNode :: "SystemModel \<Rightarrow> nat \<Rightarrow> string \<Rightarrow> NodeRef option result option" where
  "FindNode s a path =
    (if path = ''.'' then Some (Inr (Some (ParentRef a)))
     else case extractNextChunk path 0 of (part, pos, bad) \<Rightarrow>
       let st = \<lparr>foundNode = None, parentsToProcess = [], currentPathChunk = part, startPos = pos, notValidPath = bad\<rparr>
       in search_bind (if bad then Some (Inr st) else FindNode_loop s path a st) (\<lambda>st1.
          Some (Inr (if notValidPath st1 then None else foundNode st1))))"

section \<open>Aliases and registers\<close>

definition RegistersAlias_create :: "string \<Rightarrow> VirtualRegister \<Rightarrow> RegistersAlias result" where
  "RegistersAlias_create baseName virtualRegister =
    CheckParameterCondition (baseName \<noteq> []) (CheckParameterCondition (\<not> VR_Empty virtualRegister)
      (Inr \<lparr>m_baseName = baseName, m_virtualRegister = virtualRegister\<rparr>))"

fun FindRegisterAlias :: "RegistersAlias list \<Rightarrow> string \<Rightarrow> nat option" where
  "FindRegisterAlias [] aliasName = None"
| "FindRegisterAlias (alias # rest) aliasName =
    (if m_baseName alias = aliasName then Some 0 else map_option Suc (FindRegisterAlias rest aliasName))"

definition AddAlias :: "nat \<Rightarrow> RegistersAlias \<Rightarrow> (heap, unit) act" where
  "AddAlias a alias =
    act_bind (act_read (\<lambda>h. node_at h (ParentRef a))) (\<lambda>nd.
      if FindRegisterAlias (m_aliases nd) (m_baseName alias) \<noteq> None then act_throw RuntimeError
      else put_node (ParentRef a) (\<lambda>nd. nd\<lparr>m_aliases := m_aliases nd @ [alias]\<rparr>))"

definition HasAliases :: "Links \<Rightarrow> bool" where
  "HasAliases nd = (m_aliases nd \<noteq> [])"

lemma FindRegisterAlias_None: "FindRegisterAlias as name = None \<longleftrightarrow> name \<notin> m_baseName ` set as"
  by (induction as) auto

text \<open>The names of the aliases of a node stay distinct.\<close>

lemma AddAlias_distinct:
  assumes run: "AddAlias a alias h = (Inr (), h')" and nd: "h (ParentRef a) = Some nd" and dist: "distinct (map m_baseName (m_aliases nd))"
  shows "\<exists>nd'. h' (ParentRef a) = Some nd' \<and> m_aliases nd' = m_aliases nd @ [alias] \<and> distinct (map m_baseName (m_aliases nd'))"
proof -
  have "FindRegisterAlias (m_aliases nd) (m_baseName alias) = None" and h': "h' = h(ParentRef a \<mapsto> nd\<lparr>m_aliases := m_aliases nd @ [alias]\<rparr>)"
    using run nd by (auto simp: AddAlias_def act_bind_def node_at_def put_node_def split: if_splits)
  then show ?thesis using dist by (simp add: FindRegisterAlias_None)
qed

text \<open>A register, or the alias at an index among those of a parent: the two kinds of \<^verbatim>\<open>RegisterInterface\<close>.\<close>

datatype RegisterInterface = FoundRegister nat | FoundAlias nat nat

definition find_alias :: "SystemModel \<Rightarrow> nat \<Rightarrow> string \<Rightarrow> RegisterInterface option result" where
  "find_alias s a name = rbind (node_at (links s) (ParentRef a)) (\<lambda>nd.
    Inr (if HasAliases nd then map_option (FoundAlias a) (FindRegisterAlias (m_aliases nd) name) else None))"

partial_function (option) FindRegister_direct :: "SystemModel \<Rightarrow> string \<Rightarrow> NodeRef option \<Rightarrow> RegisterInterface option result option" where
  "FindRegister_direct s name currentChild =
    (case currentChild of None \<Rightarrow> Some (Inr None)
     | Some c \<Rightarrow> search_bind (Some (Name s c)) (\<lambda>childName.
         case c of RegisterRef a \<Rightarrow>
           if childName = name then Some (Inr (Some (FoundRegister a)))
           else search_bind (Some (NextSibling s c)) (\<lambda>next. FindRegister_direct s name next)
         | ParentRef b \<Rightarrow> search_bind (Some (NextSibling s c)) (\<lambda>next. FindRegister_direct s name next)))"

definition FindRegister_here :: "SystemModel \<Rightarrow> nat \<Rightarrow> string \<Rightarrow> RegisterInterface option result option" where
  "FindRegister_here s a name =
    search_bind (Some (find_alias s a name)) (\<lambda>found.
      if found \<noteq> None then Some (Inr found)
      else search_bind (Some (FirstChild s a)) (\<lambda>first. FindRegister_direct s name first))"

partial_function (option) FindRegister_ignored :: "SystemModel \<Rightarrow> string \<Rightarrow> NodeRef option \<Rightarrow> RegisterInterface option result option" where
  "FindRegister_ignored s name currentChild =
    (case currentChild of None \<Rightarrow> Some (Inr None)
     | Some c \<Rightarrow>
       search_bind (Some (ignored s c)) (\<lambda>skip.
       search_bind (case c of RegisterRef a \<Rightarrow> Some (Inr None)
                    | ParentRef b \<Rightarrow> if \<not> skip then Some (Inr None)
                        else search_bind (FindRegister_here s b name) (\<lambda>found.
                             if found \<noteq> None then Some (Inr found)
                             else search_bind (Some (FirstChild s b)) (\<lambda>first. FindRegister_ignored s name first)))
         (\<lambda>foundRegister. if foundRegister \<noteq> None then Some (Inr foundRegister)
            else search_bind (Some (NextSibling s c)) (\<lambda>next. FindRegister_ignored s name next))))"

definition findRegisterChildByName :: "SystemModel \<Rightarrow> nat \<Rightarrow> string \<Rightarrow> RegisterInterface option result option" where
  "findRegisterChildByName s a name =
    search_bind (FindRegister_here s a name) (\<lambda>found.
      if found \<noteq> None then Some (Inr found)
      else search_bind (Some (FirstChild s a)) (\<lambda>first. FindRegister_ignored s name first))"

definition FindRegister :: "SystemModel \<Rightarrow> nat \<Rightarrow> string \<Rightarrow> RegisterInterface option result option" where
  "FindRegister s a path =
    (let front = FrontTokens path ''.''; name = BackToken path ''.'';
         parentPath = (if length front = length path then [] else front)
     in if name = [] then Some (Inl InvalidArgument)
        else search_bind (if parentPath = [] then Some (Inr (Some (ParentRef a))) else FindNode s a parentPath) (\<lambda>parentNode.
          case parentNode of Some (ParentRef b) \<Rightarrow> findRegisterChildByName s b name
          | _ \<Rightarrow> Some (Inr None)))"

section \<open>The resolver of paths\<close>

record NodePathResolver =
  m_referenceNode :: "nat option"
  m_prefixNode :: "nat option"
  m_prefix :: string
  m_nodesCache :: "string \<Rightarrow> NodeRef option"
  m_registersCache :: "string \<Rightarrow> RegisterInterface option"

definition NodePathResolver_create :: "nat option \<Rightarrow> NodePathResolver" where
  "NodePathResolver_create referenceNode = \<lparr>m_referenceNode = referenceNode, m_prefixNode = referenceNode, m_prefix = [],
     m_nodesCache = (\<lambda>_. None), m_registersCache = (\<lambda>_. None)\<rparr>"

text \<open>The caches stay as they are.\<close>

definition ReferenceNode :: "nat option \<Rightarrow> NodePathResolver \<Rightarrow> NodePathResolver" where
  "ReferenceNode referenceNode r = r\<lparr>m_referenceNode := referenceNode, m_prefixNode := referenceNode, m_prefix := []\<rparr>"

type_synonym 'a resolve = "NodePathResolver \<Rightarrow> ('a result \<times> NodePathResolver) option"

definition Resolve :: "SystemModel \<Rightarrow> string \<Rightarrow> NodeRef option resolve" where
  "Resolve s path r =
    (case m_nodesCache r path of Some node \<Rightarrow> Some (Inr (Some node), r)
     | None \<Rightarrow> (case m_prefixNode r of None \<Rightarrow> Some (Inl RuntimeError, r)
       | Some a \<Rightarrow> map_option (\<lambda>res. (res, case res of Inr (Some node) \<Rightarrow> r\<lparr>m_nodesCache := (m_nodesCache r)(path \<mapsto> node)\<rparr>
                                              | _ \<Rightarrow> r)) (FindNode s a path)))"

definition TryResolveAsRegister :: "SystemModel \<Rightarrow> string \<Rightarrow> RegisterInterface option resolve" where
  "TryResolveAsRegister s registerPath r =
    (case m_registersCache r registerPath of Some reg \<Rightarrow> Some (Inr (Some reg), r)
     | None \<Rightarrow> (case m_prefixNode r of None \<Rightarrow> Some (Inl RuntimeError, r)
       | Some a \<Rightarrow> map_option (\<lambda>res. (res, case res of Inr (Some reg) \<Rightarrow> r\<lparr>m_registersCache := (m_registersCache r)(registerPath \<mapsto> reg)\<rparr>
                                              | _ \<Rightarrow> r)) (FindRegister s a registerPath)))"

definition ResolveAsRegister :: "SystemModel \<Rightarrow> string \<Rightarrow> RegisterInterface resolve" where
  "ResolveAsRegister s registerPath r = map_option (\<lambda>(res, r').
    (case res of Inl e \<Rightarrow> Inl e | Inr None \<Rightarrow> Inl InvalidArgument | Inr (Some reg) \<Rightarrow> Inr reg, r')) (TryResolveAsRegister s registerPath r)"

definition SetPrefix :: "SystemModel \<Rightarrow> string \<Rightarrow> unit resolve" where
  "SetPrefix s prefix r0 =
    (let r = r0\<lparr>m_nodesCache := (\<lambda>_. None), m_registersCache := (\<lambda>_. None)\<rparr>
     in if prefix = [] \<or> prefix = ''.'' then Some (Inr (), r\<lparr>m_prefixNode := m_referenceNode r, m_prefix := []\<rparr>)
        else case m_referenceNode r of None \<Rightarrow> Some (Inl RuntimeError, r)
          | Some a \<Rightarrow> map_option (\<lambda>res. case res of Inl e \<Rightarrow> (Inl e, r) | Inr None \<Rightarrow> (Inl RuntimeError, r)
              | Inr (Some (RegisterRef _)) \<Rightarrow> (Inl RuntimeError, r)
              | Inr (Some (ParentRef b)) \<Rightarrow> (Inr (), r\<lparr>m_prefixNode := Some b, m_prefix := prefix\<rparr>)) (FindNode s a prefix))"


section \<open>The path of names in a tree\<close>

definition tree_name :: "SystemModel \<Rightarrow> SystemTree \<Rightarrow> string" where
  "tree_name s t = (case Name s (node_ref t) of Inr n \<Rightarrow> n | Inl _ \<Rightarrow> [])"

definition tree_ignored :: "SystemModel \<Rightarrow> SystemTree \<Rightarrow> bool" where
  "tree_ignored s t \<longleftrightarrow> ignored s (node_ref t) = Inr True"

definition named :: "SystemModel \<Rightarrow> SystemTree \<Rightarrow> bool" where
  "named s t \<longleftrightarrow> (\<forall>u \<in> subtrees t. (\<exists>n. Name s (node_ref u) = Inr n) \<and> (\<exists>b. ignored s (node_ref u) = Inr b))"

fun tree_children :: "SystemTree \<Rightarrow> SystemTree list" where
  "tree_children (RegisterLeaf a) = []"
| "tree_children (ParentTree cls a cs) = cs"

fun tree_address :: "SystemTree \<Rightarrow> nat" where
  "tree_address (RegisterLeaf a) = a"
| "tree_address (ParentTree cls a cs) = a"

lemma tree_children_refs: "length (forest_refs (filter P (tree_children t))) < length (tree_refs t)"
proof (cases t)
  case (ParentTree cls a cs)
  have "length (forest_refs (filter P cs)) \<le> length (forest_refs cs)"
    by (induction cs) auto
  then show ?thesis by (simp add: ParentTree)
qed simp

text \<open>
  The first child of the given name, level by level: the children of a parent, then those of the ignored
  parents met before.
\<close>

function search_level :: "SystemModel \<Rightarrow> string \<Rightarrow> SystemTree list \<Rightarrow> SystemTree option" where
  "search_level s name [] = None"
| "search_level s name (p # ps) =
    (case find (\<lambda>c. \<not> tree_ignored s c \<and> tree_name s c = name) (tree_children p) of Some u \<Rightarrow> Some u
     | None \<Rightarrow> search_level s name (ps @ filter (tree_ignored s) (tree_children p)))"
  by pat_completeness auto

termination
proof (relation "measure (\<lambda>(s, name, ps). length (forest_refs ps))")
  fix s name p ps
  show "((s, name, ps @ filter (tree_ignored s) (tree_children p)), s, name, p # ps) \<in> measure (\<lambda>(s, name, ps). length (forest_refs ps))"
    using tree_children_refs [of "tree_ignored s" p] by simp
qed simp

fun lookup :: "SystemModel \<Rightarrow> SystemTree \<Rightarrow> string list \<Rightarrow> SystemTree option" where
  "lookup s t [] = Some t"
| "lookup s t (n # ns) = (case search_level s n [t] of None \<Rightarrow> None | Some u \<Rightarrow> lookup s u ns)"

text \<open>The names of a path; \<open>None\<close> when one is empty. A dot at the end is ignored.\<close>

function path_names :: "string \<Rightarrow> string list option" where
  "path_names [] = Some []"
| "path_names (c # cs) = (if c = CHR ''.'' then None
     else map_option (Cons (takeWhile (\<lambda>x. x \<noteq> CHR ''.'') (c # cs))) (path_names (tl (dropWhile (\<lambda>x. x \<noteq> CHR ''.'') cs))))"
  by pat_completeness auto

termination
proof (relation "measure length")
  fix c :: char and cs :: string
  show "(tl (dropWhile (\<lambda>x. x \<noteq> CHR ''.'') cs), c # cs) \<in> measure length"
    using length_dropWhile_le [of "\<lambda>x. x \<noteq> CHR ''.''" cs] by simp
qed simp

section \<open>Extracting the parts of a path\<close>

lemma occurs_dot: "occurs_at ''.'' path d \<longleftrightarrow> d < length path \<and> path ! d = CHR ''.''"
  by (auto simp: occurs_at_def take_Suc_conv_app_nth Suc_le_eq hd_drop_conv_nth Cons_nth_drop_Suc [symmetric])

lemma takeWhile_until:
  assumes "\<And>i. i < k \<Longrightarrow> P (xs ! i)" and "k < length xs \<Longrightarrow> \<not> P (xs ! k)" and "k \<le> length xs"
  shows "takeWhile P xs = take k xs" and "dropWhile P xs = drop k xs"
proof -
  show "takeWhile P xs = take k xs"
    using assms by (intro takeWhile_eq_take_P_nth) auto
  then show "dropWhile P xs = drop k xs" using assms(3) by (simp add: dropWhile_eq_drop)
qed

lemma extractNextChunk_end: "drop pos path = [] \<Longrightarrow> extractNextChunk path pos = ([], pos, False)"
  by (simp add: extractNextChunk_def)

lemma extractNextChunk_dot:
  assumes "drop pos path = CHR ''.'' # rest"
  shows "\<exists>part. extractNextChunk path pos = (part, length path, True) \<and> part \<noteq> []"
proof -
  have pos: "pos < length path" "path ! pos = CHR ''.''"
    using assms by (metis drop_all list.distinct(1) not_le, metis assms nth_via_drop)
  then have "view_find ''.'' path pos = Some pos"
    by (auto simp: view_find_def find_upt_Some occurs_dot simp del: upt_Suc)
  then show ?thesis using pos(1) by (simp add: extractNextChunk_def)
qed

lemma extractNextChunk_part:
  assumes "drop pos path = c # rest" and "c \<noteq> CHR ''.''"
  shows "\<exists>pos'. extractNextChunk path pos = (takeWhile (\<lambda>x. x \<noteq> CHR ''.'') (c # rest), pos', False)
    \<and> drop pos' path = tl (dropWhile (\<lambda>x. x \<noteq> CHR ''.'') (c # rest))"
proof -
  let ?P = "\<lambda>x. x \<noteq> CHR ''.''"
  have pos: "pos < length path" "path ! pos = c"
    using assms by (metis drop_all list.distinct(1) not_le, metis assms(1) nth_via_drop)
  show ?thesis
  proof (cases "view_find ''.'' path pos")
    case None
    then have "path ! q \<noteq> CHR ''.''" if "pos \<le> q" "q < length path" for q
      using that by (auto simp: view_find_def find_upt_None occurs_dot simp del: upt_Suc)
    then have all: "\<forall>x \<in> set (drop pos path). ?P x" by (auto simp: in_set_conv_nth)
    then have whole: "takeWhile ?P (drop pos path) = drop pos path" "dropWhile ?P (drop pos path) = []" by simp_all
    show ?thesis using None pos(1) unfolding assms(1) [symmetric] whole
      by (intro exI [of _ "length path + 1"]) (simp add: extractNextChunk_def)
  next
    case (Some d)
    then have d: "pos \<le> d" "d < length path" "path ! d = CHR ''.''" "\<And>q. pos \<le> q \<Longrightarrow> q < d \<Longrightarrow> path ! q \<noteq> CHR ''.''"
      by (auto simp: view_find_def find_upt_Some occurs_dot simp del: upt_Suc)
    have "d \<noteq> pos" using d(3) pos(2) assms(2) by auto
    have "takeWhile ?P (drop pos path) = take (d - pos) (drop pos path)" "dropWhile ?P (drop pos path) = drop (d - pos) (drop pos path)"
      using d by (intro takeWhile_until; simp)+
    moreover have "tl (drop (d - pos) (drop pos path)) = drop (d + 1) path" using d(1) by (simp add: drop_Suc tl_drop)
    ultimately show ?thesis using Some \<open>d \<noteq> pos\<close> pos(1) unfolding assms(1) [symmetric]
      by (intro exI [of _ "d + 1"]) (simp add: extractNextChunk_def)
  qed
qed

section \<open>The search follows the path\<close>

lemma search_level_leaf [simp]: "search_level s n [RegisterLeaf a] = None"
  by simp

declare search_level.simps(2) [simp del]

lemma namedD: "named s t \<Longrightarrow> u \<in> subtrees t \<Longrightarrow> Name s (node_ref u) = Inr (tree_name s u) \<and> ignored s (node_ref u) = Inr (tree_ignored s u)"
  unfolding named_def tree_name_def tree_ignored_def by (fastforce split: sum.splits)

lemma ignored_leaf [simp]: "tree_ignored s (RegisterLeaf a) \<longleftrightarrow> False"
  by (simp add: tree_ignored_def ignored_def)

lemma NextSibling_eq: "links s p = Some nd \<Longrightarrow> NextSibling s p = Inr (m_pNextSibling nd)"
  by (simp add: NextSibling_def node_at_def)

text \<open>What the search has found once it has met the child \<open>u\<close> of the name looked for.\<close>

definition met :: "SystemTree \<Rightarrow> nat list \<Rightarrow> string \<Rightarrow> PathSearch \<Rightarrow> PathSearch" where
  "met u queue path st = (case extractNextChunk path (startPos st) of (part, pos, bad) \<Rightarrow>
     let st1 = st\<lparr>currentPathChunk := part, startPos := pos, notValidPath := bad\<rparr>
     in if part = [] then st1\<lparr>parentsToProcess := queue, foundNode := Some (node_ref u)\<rparr>
        else st1\<lparr>parentsToProcess := (case u of RegisterLeaf a \<Rightarrow> [] | ParentTree cls a cs \<Rightarrow> [a])\<rparr>)"

abbreviation ignored_addresses :: "SystemModel \<Rightarrow> SystemTree list \<Rightarrow> nat list" where
  "ignored_addresses s cs \<equiv> map tree_address (filter (tree_ignored s) cs)"

lemma FindNode_siblings_eq:
  assumes "siblings (links s) p (map node_ref cs)" and "\<forall>c \<in> set cs. named s c" and "\<not> notValidPath st"
  shows "FindNode_siblings s path p st = Some (Inr (case find (\<lambda>c. \<not> tree_ignored s c \<and> tree_name s c = currentPathChunk st) cs of
      None \<Rightarrow> st\<lparr>parentsToProcess := parentsToProcess st @ ignored_addresses s cs\<rparr>
    | Some u \<Rightarrow> met u (parentsToProcess st @ ignored_addresses s (takeWhile (\<lambda>c. tree_ignored s c \<or> tree_name s c \<noteq> currentPathChunk st) cs)) path st))"
  using assms
proof (induction cs arbitrary: p st)
  case Nil
  then show ?case by (subst FindNode_siblings.simps) simp
next
  case (Cons c cs)
  obtain nd where nd: "p = Some (node_ref c)" "links s (node_ref c) = Some nd" "siblings (links s) (m_pNextSibling nd) (map node_ref cs)"
    using Cons.prems(1) unfolding list.map siblings_Cons by blast
  have c: "Name s (node_ref c) = Inr (tree_name s c)" "ignored s (node_ref c) = Inr (tree_ignored s c)" "NextSibling s (node_ref c) = Inr (m_pNextSibling nd)"
    using namedD [of s c c] Cons.prems(2) NextSibling_eq [OF nd(2)] by simp_all
  have rest: "\<forall>d \<in> set cs. named s d" using Cons.prems(2) by simp
  note IH = Cons.IH [OF nd(3) rest]
  show ?case
  proof (cases c)
    case (RegisterLeaf a)
    show ?thesis
      using c IH [OF Cons.prems(3)] Cons.prems(3) unfolding nd(1) RegisterLeaf
      by (subst FindNode_siblings.simps) (auto simp: met_def Let_def split: prod.split option.split)
  next
    case (ParentTree cls a ds)
    show ?thesis
      using c IH [OF Cons.prems(3)] IH [of "st\<lparr>parentsToProcess := parentsToProcess st @ [a]\<rparr>"] Cons.prems(3) unfolding nd(1) ParentTree
      by (subst FindNode_siblings.simps) (auto simp: met_def Let_def split: prod.split option.split)
  qed
qed


definition destination :: "SystemModel \<Rightarrow> SystemTree list \<Rightarrow> string \<Rightarrow> string \<Rightarrow> NodeRef option" where
  "destination s queue name rest = (case search_level s name queue of None \<Rightarrow> None
    | Some u \<Rightarrow> (case path_names rest of None \<Rightarrow> None | Some ns \<Rightarrow> map_option node_ref (lookup s u ns)))"

definition outcome :: "PathSearch \<Rightarrow> NodeRef option" where
  "outcome st = (if notValidPath st then None else foundNode st)"

text \<open>The trees the search may go through are in the heap and have names.\<close>

definition searchable :: "SystemModel \<Rightarrow> SystemTree \<Rightarrow> bool" where
  "searchable s t \<longleftrightarrow> tree_in (links s) t \<and> named s t"

lemma searchable_child: "searchable s t \<Longrightarrow> c \<in> set (tree_children t) \<Longrightarrow> searchable s c"
  by (cases t) (auto simp: searchable_def named_def)

fun is_parent :: "SystemTree \<Rightarrow> bool" where
  "is_parent (RegisterLeaf a) = False"
| "is_parent (ParentTree cls a cs) = True"

lemma FirstChild_eq:
  assumes "searchable s t" and "is_parent t"
  shows "\<exists>p. FirstChild s (tree_address t) = Inr p \<and> siblings (links s) p (map node_ref (tree_children t))"
  using assms by (cases t) (auto simp: searchable_def FirstChild_def node_at_def)

lemma ignored_is_parent: "tree_ignored s t \<Longrightarrow> is_parent t"
  by (cases t) simp_all

lemma FindNode_loop_eq:
  "\<forall>t \<in> set (t # ts). searchable s t \<and> is_parent t \<Longrightarrow> foundNode st = None \<Longrightarrow> \<not> notValidPath st
    \<Longrightarrow> parentsToProcess st = map tree_address ts
    \<Longrightarrow> \<exists>st'. FindNode_loop s path (tree_address t) st = Some (Inr st')
      \<and> outcome st' = destination s (t # ts) (currentPathChunk st) (drop (startPos st) path)"
proof (induction "(length path - startPos st, length (forest_refs (t # ts)))" arbitrary: t ts st rule: wf_induct_rule [OF wf_lex_prod [OF wf_less_than wf_less_than]])
  case less: 1
  let ?name = "currentPathChunk st"
  let ?rest = "drop (startPos st) path"
  have t: "searchable s t" "is_parent t" using less.prems(1) by simp_all
  obtain p where p: "FirstChild s (tree_address t) = Inr p" "siblings (links s) p (map node_ref (tree_children t))"
    using FirstChild_eq [OF t] by blast
  have kids: "\<forall>c \<in> set (tree_children t). searchable s c" using searchable_child [OF t(1)] by blast
  then have "\<forall>c \<in> set (tree_children t). named s c" by (simp add: searchable_def)
  note sib = FindNode_siblings_eq [OF p(2) this less.prems(3), of path]
  show ?case
  proof (cases "find (\<lambda>c. \<not> tree_ignored s c \<and> tree_name s c = ?name) (tree_children t)")
    case None
    let ?queue = "ts @ filter (tree_ignored s) (tree_children t)"
    have goal: "destination s (t # ts) ?name ?rest = destination s ?queue ?name ?rest" by (simp add: destination_def search_level.simps(2) None)
    have step: "FindNode_loop s path (tree_address t) st = (case map tree_address ?queue of [] \<Rightarrow> Some (Inr (st\<lparr>parentsToProcess := []\<rparr>))
        | front # rest \<Rightarrow> FindNode_loop s path front (st\<lparr>parentsToProcess := rest\<rparr>))"
      using p(1) sib None less.prems by (subst FindNode_loop.simps) (simp add: Let_def split: list.split)
    show ?thesis
    proof (cases ?queue)
      case Nil
      then show ?thesis unfolding goal step using less.prems by (simp add: outcome_def destination_def)
    next
      case (Cons u us)
      have "\<forall>x \<in> set ?queue. searchable s x \<and> is_parent x" using less.prems(1) kids ignored_is_parent by auto
      then have queue: "\<forall>x \<in> set (u # us). searchable s x \<and> is_parent x" unfolding Cons .
      have "\<exists>st'. FindNode_loop s path (tree_address u) (st\<lparr>parentsToProcess := map tree_address us\<rparr>) = Some (Inr st')
        \<and> outcome st' = destination s (u # us) (currentPathChunk (st\<lparr>parentsToProcess := map tree_address us\<rparr>))
            (drop (startPos (st\<lparr>parentsToProcess := map tree_address us\<rparr>)) path)"
      proof (rule less.hyps)
        have "length (forest_refs (u # us)) < length (forest_refs (t # ts))"
          using tree_children_refs [of "tree_ignored s" t] unfolding Cons [symmetric] by simp
        then show "((length path - startPos (st\<lparr>parentsToProcess := map tree_address us\<rparr>), length (forest_refs (u # us))),
            length path - startPos st, length (forest_refs (t # ts))) \<in> less_than <*lex*> less_than" by simp
      qed (use less.prems queue in simp_all)
      then show ?thesis unfolding goal step Cons by simp
    qed
  next
    case (Some u)
    have u: "u \<in> set (tree_children t)" using Some by (auto simp: find_Some_iff)
    have goal: "destination s (t # ts) ?name ?rest = (case path_names ?rest of None \<Rightarrow> None | Some ns \<Rightarrow> map_option node_ref (lookup s u ns))"
      by (simp add: destination_def search_level.simps(2) Some)
    obtain queue where step: "FindNode_siblings s path p st = Some (Inr (met u queue path st))" using sib Some by auto
    show ?thesis
    proof (cases ?rest)
      case Nil
      have "met u queue path st = st\<lparr>currentPathChunk := [], notValidPath := False, parentsToProcess := queue, foundNode := Some (node_ref u)\<rparr>"
        using less.prems(3) by (simp add: met_def extractNextChunk_end [OF Nil] Let_def)
      moreover have "destination s (t # ts) ?name ?rest = Some (node_ref u)" using goal by (simp add: Nil)
      ultimately show ?thesis using p(1) step
        by (subst FindNode_loop.simps) (cases queue; simp add: Let_def outcome_def)
    next
      case (Cons c cs)
      show ?thesis
      proof (cases "c = CHR ''.''")
        case True
        obtain part where part: "extractNextChunk path (startPos st) = (part, length path, True)" "part \<noteq> []"
          using extractNextChunk_dot Cons True by blast
        have "destination s (t # ts) ?name ?rest = None" using goal True by (simp add: Cons)
        then show ?thesis using p(1) step less.prems(2) part
          by (subst FindNode_loop.simps) (cases u; simp add: met_def Let_def outcome_def)
      next
        case False
        let ?part = "takeWhile (\<lambda>x. x \<noteq> CHR ''.'') (c # cs)"
        let ?rest' = "tl (dropWhile (\<lambda>x. x \<noteq> CHR ''.'') (c # cs))"
        obtain pos where pos: "extractNextChunk path (startPos st) = (?part, pos, False)" "drop pos path = ?rest'"
          using extractNextChunk_part [OF Cons False] by blast
        have names: "path_names ?rest = map_option (Cons ?part) (path_names ?rest')" using False by (simp add: Cons)
        show ?thesis
        proof (cases u)
          case (RegisterLeaf a)
          have "destination s (t # ts) ?name ?rest = None" unfolding goal names RegisterLeaf by (simp split: option.split)
          then show ?thesis using p(1) step less.prems(2) pos(1) False RegisterLeaf
            by (subst FindNode_loop.simps) (simp add: met_def Let_def outcome_def)
        next
          case (ParentTree cls a ds)
          let ?st = "st\<lparr>currentPathChunk := ?part, startPos := pos, notValidPath := False, parentsToProcess := []\<rparr>"
          have "FindNode_loop s path (tree_address t) st = FindNode_loop s path a ?st"
            using p(1) step less.prems(2) pos(1) False ParentTree
            by (subst FindNode_loop.simps) (simp add: met_def Let_def)
          moreover have "\<exists>st'. FindNode_loop s path (tree_address u) ?st = Some (Inr st')
            \<and> outcome st' = destination s [u] (currentPathChunk ?st) (drop (startPos ?st) path)"
          proof (rule less.hyps)
            have "length (drop pos path) < length ?rest" unfolding pos(2) Cons using False
              by (simp add: le_imp_less_Suc length_dropWhile_le le_diff_conv le_Suc_eq)
            then show "((length path - startPos ?st, length (forest_refs [u])), length path - startPos st, length (forest_refs (t # ts)))
              \<in> less_than <*lex*> less_than" by simp
          qed (use less.prems kids u ParentTree in simp_all)
          moreover have "destination s (t # ts) ?name ?rest = destination s [u] ?part ?rest'"
            unfolding goal names
            by (cases "path_names ?rest'") (simp_all add: destination_def del: takeWhile.simps dropWhile.simps split: option.split)
          ultimately show ?thesis using ParentTree pos(2) by simp
        qed
      qed
    qed
  qed
qed


text \<open>The node the names of the path lead to.\<close>

definition path_target :: "SystemModel \<Rightarrow> SystemTree \<Rightarrow> string \<Rightarrow> NodeRef option" where
  "path_target s t path = (case path_names path of None \<Rightarrow> None | Some ns \<Rightarrow> map_option node_ref (lookup s t ns))"

lemma FindNode_eq:
  assumes t: "searchable s t" "is_parent t" and path: "path \<noteq> []" "path \<noteq> ''.''"
  shows "FindNode s (tree_address t) path = Some (Inr (path_target s t path))"
proof -
  obtain c cs where c: "path = c # cs" using path(1) by (cases path) auto
  have d: "drop 0 path = c # cs" by (simp add: c)
  show ?thesis
  proof (cases "c = CHR ''.''")
    case True
    then show ?thesis using extractNextChunk_dot [OF d [unfolded True]] path(2) by (auto simp: FindNode_def path_target_def c Let_def)
  next
    case False
    let ?part = "takeWhile (\<lambda>x. x \<noteq> CHR ''.'') (c # cs)"
    obtain pos where pos: "extractNextChunk path 0 = (?part, pos, False)" "drop pos path = tl (dropWhile (\<lambda>x. x \<noteq> CHR ''.'') (c # cs))"
      using extractNextChunk_part [OF d False] by blast
    let ?st = "\<lparr>foundNode = None, parentsToProcess = [], currentPathChunk = ?part, startPos = pos, notValidPath = False\<rparr>"
    obtain st' where st': "FindNode_loop s path (tree_address t) ?st = Some (Inr st')"
      "outcome st' = destination s [t] ?part (drop pos path)"
      using FindNode_loop_eq [of t "[]" s ?st path] t by auto
    define rest where "rest = drop pos path"
    have "path_names path = map_option (Cons ?part) (path_names rest)" unfolding rest_def pos(2) using False c by simp
    then have "destination s [t] ?part (drop pos path) = path_target s t path"
      unfolding path_target_def destination_def rest_def [symmetric]
      by (cases "path_names rest") (simp_all del: takeWhile.simps split: option.split)
    then show ?thesis using pos(1) st' path(2) by (simp add: FindNode_def Let_def outcome_def)
  qed
qed

lemma FindNode_here: "FindNode s a ''.'' = Some (Inr (Some (ParentRef a)))"
  by (simp add: FindNode_def)

text \<open>Names without dots, joined by dots, are read back.\<close>

lemma path_names_join:
  assumes "\<forall>n \<in> set ns. n \<noteq> [] \<and> CHR ''.'' \<notin> set n"
  shows "path_names (join ''.'' ns) = Some ns"
  using assms
proof (induction ns)
  case (Cons n ns)
  obtain c cs where n: "n = c # cs" "c \<noteq> CHR ''.''" using Cons.prems by (cases n) auto
  have dots: "\<forall>x \<in> set cs. x \<noteq> CHR ''.''" using Cons.prems n by auto
  then have all: "takeWhile (\<lambda>x. x \<noteq> CHR ''.'') (cs @ CHR ''.'' # rest) = cs" "dropWhile (\<lambda>x. x \<noteq> CHR ''.'') (cs @ CHR ''.'' # rest) = CHR ''.'' # rest"
    "takeWhile (\<lambda>x. x \<noteq> CHR ''.'') cs = cs" "dropWhile (\<lambda>x. x \<noteq> CHR ''.'') cs = []" for rest
    by (simp_all add: takeWhile_append2 dropWhile_append2)
  show ?case using Cons n(2) by (cases ns) (simp_all add: n(1) all)
qed simp

section \<open>Children by name\<close>

text \<open>Unlike a path, the name of a child may be that of an ignored one.\<close>

fun child_in :: "SystemModel \<Rightarrow> string \<Rightarrow> SystemTree \<Rightarrow> SystemTree option"
  and child_among :: "SystemModel \<Rightarrow> string \<Rightarrow> SystemTree list \<Rightarrow> SystemTree option" where
  "child_in s name (RegisterLeaf a) = None"
| "child_in s name (ParentTree cls a cs) =
    (case find (\<lambda>c. tree_name s c = name) cs of Some c \<Rightarrow> Some c | None \<Rightarrow> child_among s name cs)"
| "child_among s name [] = None"
| "child_among s name (c # cs) =
    (case (if tree_ignored s c then child_in s name c else None) of Some d \<Rightarrow> Some d | None \<Rightarrow> child_among s name cs)"

lemma FindChild_direct_eq:
  "siblings (links s) p (map node_ref cs) \<Longrightarrow> \<forall>c \<in> set cs. named s c
    \<Longrightarrow> FindChild_direct s name p = Some (Inr (map_option node_ref (find (\<lambda>c. tree_name s c = name) cs)))"
proof (induction cs arbitrary: p)
  case Nil
  then show ?case by (subst FindChild_direct.simps) simp
next
  case (Cons c cs)
  obtain nd where nd: "p = Some (node_ref c)" "links s (node_ref c) = Some nd" "siblings (links s) (m_pNextSibling nd) (map node_ref cs)"
    using Cons.prems(1) unfolding list.map siblings_Cons by blast
  have c: "Name s (node_ref c) = Inr (tree_name s c)" "NextSibling s (node_ref c) = Inr (m_pNextSibling nd)"
    using namedD [of s c c] Cons.prems(2) NextSibling_eq [OF nd(2)] by simp_all
  have "FindChild_direct s name (m_pNextSibling nd) = Some (Inr (map_option node_ref (find (\<lambda>c. tree_name s c = name) cs)))"
    using Cons.IH [OF nd(3)] Cons.prems(2) by simp
  then show ?case using c unfolding nd(1) by (subst FindChild_direct.simps) simp
qed

lemma FindChild_ignored_eq:
  "\<forall>c \<in> set cs. searchable s c \<Longrightarrow> siblings (links s) p (map node_ref cs)
    \<Longrightarrow> FindChild_ignored s name p = Some (Inr (map_option node_ref (child_among s name cs)))"
proof (induction "size_list size cs" arbitrary: cs p rule: less_induct)
  case less
  show ?case
  proof (cases cs)
    case Nil
    then show ?thesis using less.prems(2) by (subst FindChild_ignored.simps) simp
  next
    case (Cons c rest)
    obtain nd where nd: "p = Some (node_ref c)" "links s (node_ref c) = Some nd" "siblings (links s) (m_pNextSibling nd) (map node_ref rest)"
      using less.prems(2) unfolding Cons list.map siblings_Cons by blast
    have rest: "FindChild_ignored s name (m_pNextSibling nd) = Some (Inr (map_option node_ref (child_among s name rest)))"
      by (rule less.hyps) (use less.prems(1) nd(3) Cons in auto)
    have sc: "searchable s c" using less.prems(1) Cons by simp
    then have c: "ignored s (node_ref c) = Inr (tree_ignored s c)" "NextSibling s (node_ref c) = Inr (m_pNextSibling nd)"
      using namedD [of s c c] NextSibling_eq [OF nd(2)] by (simp_all add: searchable_def)
    show ?thesis
    proof (cases c)
      case (RegisterLeaf a)
      then show ?thesis using c nd(1) rest Cons by (subst FindChild_ignored.simps) simp
    next
      case (ParentTree cls b ds)
      obtain q where q: "FirstChild s b = Inr q" "siblings (links s) q (map node_ref ds)"
        using FirstChild_eq [OF sc] ParentTree by auto
      have kids: "\<forall>d \<in> set ds. searchable s d" using searchable_child [OF sc] ParentTree by simp
      have "FindChild_ignored s name q = Some (Inr (map_option node_ref (child_among s name ds)))"
        by (rule less.hyps) (use q(2) kids Cons ParentTree in auto)
      moreover have "FindChild_direct s name q = Some (Inr (map_option node_ref (find (\<lambda>c. tree_name s c = name) ds)))"
        by (rule FindChild_direct_eq [OF q(2)]) (use kids in \<open>simp add: searchable_def\<close>)
      ultimately show ?thesis using c nd(1) rest Cons ParentTree q(1)
        by (subst FindChild_ignored.simps) (auto split: option.split)
    qed
  qed
qed

lemma FindChild_eq:
  assumes "searchable s (ParentTree cls a cs)"
  shows "FindChild s a name = Some (Inr (map_option node_ref (child_in s name (ParentTree cls a cs))))"
proof -
  obtain p where p: "FirstChild s a = Inr p" "siblings (links s) p (map node_ref cs)"
    using FirstChild_eq [OF assms] by auto
  have kids: "\<forall>c \<in> set cs. searchable s c" using searchable_child [OF assms] by simp
  then have "FindChild_direct s name p = Some (Inr (map_option node_ref (find (\<lambda>c. tree_name s c = name) cs)))"
    by (intro FindChild_direct_eq [OF p(2)]) (simp add: searchable_def)
  then show ?thesis using p(1) FindChild_ignored_eq [OF kids p(2), of name]
    by (auto simp: FindChild_def split: option.split)
qed

section \<open>Registers and aliases by name\<close>

definition alias_at :: "SystemModel \<Rightarrow> nat \<Rightarrow> string \<Rightarrow> RegisterInterface option" where
  "alias_at s a name = (case find_alias s a name of Inr found \<Rightarrow> found | Inl _ \<Rightarrow> None)"

fun register_child :: "SystemModel \<Rightarrow> string \<Rightarrow> SystemTree list \<Rightarrow> RegisterInterface option" where
  "register_child s name [] = None"
| "register_child s name (RegisterLeaf a # cs) =
    (if tree_name s (RegisterLeaf a) = name then Some (FoundRegister a) else register_child s name cs)"
| "register_child s name (ParentTree cls a ds # cs) = register_child s name cs"

text \<open>Aliases come first, then the registers that are children, then what is below ignored parents, in depth.\<close>

fun find_in :: "SystemModel \<Rightarrow> string \<Rightarrow> SystemTree \<Rightarrow> RegisterInterface option"
  and find_among :: "SystemModel \<Rightarrow> string \<Rightarrow> SystemTree list \<Rightarrow> RegisterInterface option" where
  "find_in s name (RegisterLeaf a) = None"
| "find_in s name (ParentTree cls a cs) =
    (case alias_at s a name of Some found \<Rightarrow> Some found
     | None \<Rightarrow> (case register_child s name cs of Some found \<Rightarrow> Some found | None \<Rightarrow> find_among s name cs))"
| "find_among s name [] = None"
| "find_among s name (c # cs) =
    (case (if tree_ignored s c then find_in s name c else None) of Some found \<Rightarrow> Some found | None \<Rightarrow> find_among s name cs)"

lemma FindRegister_direct_eq:
  "siblings (links s) p (map node_ref cs) \<Longrightarrow> \<forall>c \<in> set cs. named s c \<Longrightarrow> FindRegister_direct s name p = Some (Inr (register_child s name cs))"
proof (induction cs arbitrary: p)
  case Nil
  then show ?case by (subst FindRegister_direct.simps) simp
next
  case (Cons c cs)
  obtain nd where nd: "p = Some (node_ref c)" "links s (node_ref c) = Some nd" "siblings (links s) (m_pNextSibling nd) (map node_ref cs)"
    using Cons.prems(1) unfolding list.map siblings_Cons by blast
  have c: "Name s (node_ref c) = Inr (tree_name s c)" "NextSibling s (node_ref c) = Inr (m_pNextSibling nd)"
    using namedD [of s c c] Cons.prems(2) NextSibling_eq [OF nd(2)] by simp_all
  have IH: "FindRegister_direct s name (m_pNextSibling nd) = Some (Inr (register_child s name cs))"
    using Cons.IH [OF nd(3)] Cons.prems(2) by simp
  show ?case
  proof (cases c)
    case (RegisterLeaf a)
    then show ?thesis using c IH unfolding nd(1) by (subst FindRegister_direct.simps) simp
  next
    case (ParentTree cls a ds)
    then show ?thesis using c IH unfolding nd(1) by (subst FindRegister_direct.simps) simp
  qed
qed

lemma FindRegister_here_eq:
  assumes "searchable s (ParentTree cls a cs)"
  shows "FindRegister_here s a name = Some (Inr (case alias_at s a name of Some found \<Rightarrow> Some found | None \<Rightarrow> register_child s name cs))"
proof -
  obtain p where p: "FirstChild s a = Inr p" "siblings (links s) p (map node_ref cs)"
    using FirstChild_eq [OF assms] by auto
  have "\<forall>c \<in> set cs. named s c" using searchable_child [OF assms] by (simp add: searchable_def)
  then have "FindRegister_direct s name p = Some (Inr (register_child s name cs))"
    by (rule FindRegister_direct_eq [OF p(2)])
  moreover have "find_alias s a name = Inr (alias_at s a name)"
    using assms by (auto simp: searchable_def find_alias_def node_at_def alias_at_def)
  ultimately show ?thesis using p(1) by (auto simp: FindRegister_here_def split: option.split)
qed

lemma FindRegister_ignored_eq:
  "\<forall>c \<in> set cs. searchable s c \<Longrightarrow> siblings (links s) p (map node_ref cs) \<Longrightarrow> FindRegister_ignored s name p = Some (Inr (find_among s name cs))"
proof (induction "size_list size cs" arbitrary: cs p rule: less_induct)
  case less
  show ?case
  proof (cases cs)
    case Nil
    then show ?thesis using less.prems(2) by (subst FindRegister_ignored.simps) simp
  next
    case (Cons c rest)
    obtain nd where nd: "p = Some (node_ref c)" "links s (node_ref c) = Some nd" "siblings (links s) (m_pNextSibling nd) (map node_ref rest)"
      using less.prems(2) unfolding Cons list.map siblings_Cons by blast
    have rest: "FindRegister_ignored s name (m_pNextSibling nd) = Some (Inr (find_among s name rest))"
      by (rule less.hyps) (use less.prems(1) nd(3) Cons in auto)
    have sc: "searchable s c" using less.prems(1) Cons by simp
    then have c: "ignored s (node_ref c) = Inr (tree_ignored s c)" "NextSibling s (node_ref c) = Inr (m_pNextSibling nd)"
      using namedD [of s c c] NextSibling_eq [OF nd(2)] by (simp_all add: searchable_def)
    show ?thesis
    proof (cases c)
      case (RegisterLeaf a)
      then show ?thesis using c nd(1) rest Cons by (subst FindRegister_ignored.simps) simp
    next
      case (ParentTree cls b ds)
      obtain q where q: "FirstChild s b = Inr q" "siblings (links s) q (map node_ref ds)"
        using FirstChild_eq [OF sc] ParentTree by auto
      have "FindRegister_ignored s name q = Some (Inr (find_among s name ds))"
        by (rule less.hyps) (use q(2) sc searchable_child Cons ParentTree in fastforce)+
      then show ?thesis using c nd(1) rest Cons ParentTree q(1) FindRegister_here_eq [OF sc [unfolded ParentTree], of name]
        by (subst FindRegister_ignored.simps) (auto split: option.split)
    qed
  qed
qed

lemma findRegisterChildByName_eq:
  assumes "searchable s (ParentTree cls a cs)"
  shows "findRegisterChildByName s a name = Some (Inr (find_in s name (ParentTree cls a cs)))"
proof -
  obtain p where p: "FirstChild s a = Inr p" "siblings (links s) p (map node_ref cs)"
    using FirstChild_eq [OF assms] by auto
  have "FindRegister_ignored s name p = Some (Inr (find_among s name cs))"
    by (rule FindRegister_ignored_eq [OF _ p(2)]) (use searchable_child [OF assms] in simp)
  then show ?thesis using p(1) FindRegister_here_eq [OF assms, of name]
    by (auto simp: findRegisterChildByName_def split: option.split)
qed

lemma search_level_searchable: "search_level s name ps = Some u \<Longrightarrow> \<forall>p \<in> set ps. searchable s p \<Longrightarrow> searchable s u"
proof (induction s name ps rule: search_level.induct)
  case (2 s name p ps)
  have kids: "\<forall>c \<in> set (tree_children p). searchable s c" using searchable_child [of s p] 2(3) by simp
  show ?case
  proof (cases "find (\<lambda>c. \<not> tree_ignored s c \<and> tree_name s c = name) (tree_children p)")
    case None
    then show ?thesis using 2(1) [OF None] 2(2,3) kids by (auto simp: search_level.simps(2))
  next
    case (Some v)
    then have "v \<in> set (tree_children p)" by (auto simp: find_Some_iff)
    then show ?thesis using Some 2(2) kids by (auto simp: search_level.simps(2))
  qed
qed simp

lemma lookup_searchable: "lookup s t ns = Some u \<Longrightarrow> searchable s t \<Longrightarrow> searchable s u"
  by (induction s t ns rule: lookup.induct) (auto split: option.splits dest: search_level_searchable)

text \<open>The parent a register path leads to: without a parent part, the node itself.\<close>

definition parent_part :: "string \<Rightarrow> string" where
  "parent_part path = (if length (FrontTokens path ''.'') = length path then [] else FrontTokens path ''.'')"

definition register_parent :: "SystemModel \<Rightarrow> SystemTree \<Rightarrow> string \<Rightarrow> SystemTree option" where
  "register_parent s t path = (if parent_part path = [] \<or> parent_part path = ''.'' then Some t
    else case path_names (parent_part path) of None \<Rightarrow> None | Some ns \<Rightarrow> lookup s t ns)"

definition register_target :: "SystemModel \<Rightarrow> SystemTree \<Rightarrow> string \<Rightarrow> RegisterInterface option" where
  "register_target s t path = (case register_parent s t path of None \<Rightarrow> None | Some u \<Rightarrow> find_in s (BackToken path ''.'') u)"

lemma FindRegister_eq:
  assumes t: "searchable s t" "is_parent t"
  shows "FindRegister s (tree_address t) path = Some (if BackToken path ''.'' = [] then Inl InvalidArgument else Inr (register_target s t path))"
proof -
  let ?front = "parent_part path"
  have search: "(if ?front = [] then Some (Inr (Some (ParentRef (tree_address t)))) else FindNode s (tree_address t) ?front)
      = Some (Inr (map_option node_ref (register_parent s t path)))"
  proof (cases "?front = [] \<or> ?front = ''.''")
    case True
    then show ?thesis using t(2) FindNode_here by (cases t) (auto simp: register_parent_def)
  next
    case False
    then show ?thesis using FindNode_eq [OF t, of ?front] by (auto simp: register_parent_def path_target_def split: option.split)
  qed
  have run: "FindRegister s (tree_address t) path = (if BackToken path ''.'' = [] then Some (Inl InvalidArgument)
      else case map_option node_ref (register_parent s t path) of Some (ParentRef b) \<Rightarrow> findRegisterChildByName s b (BackToken path ''.'')
        | _ \<Rightarrow> Some (Inr None))"
    unfolding FindRegister_def Let_def parent_part_def [symmetric] search search_bind_Inr by (rule refl)
  show ?thesis
  proof (cases "register_parent s t path")
    case None
    then show ?thesis by (simp add: run register_target_def)
  next
    case (Some u)
    then have "searchable s u"
      using lookup_searchable t(1) by (auto simp: register_parent_def split: if_splits option.splits)
    then show ?thesis using Some findRegisterChildByName_eq [of s] by (cases u) (simp_all add: run register_target_def)
  qed
qed

section \<open>The cache of the resolver\<close>

text \<open>What is cached is what the search from the prefix node would find now.\<close>

definition cache_ok :: "SystemModel \<Rightarrow> NodePathResolver \<Rightarrow> bool" where
  "cache_ok s r \<longleftrightarrow>
    (\<forall>path node. m_nodesCache r path = Some node \<longrightarrow> (\<exists>a. m_prefixNode r = Some a \<and> FindNode s a path = Some (Inr (Some node))))
    \<and> (\<forall>path reg. m_registersCache r path = Some reg \<longrightarrow> (\<exists>a. m_prefixNode r = Some a \<and> FindRegister s a path = Some (Inr (Some reg))))"

lemma cache_ok_create: "cache_ok s (NodePathResolver_create referenceNode)"
  by (simp add: cache_ok_def NodePathResolver_create_def)

lemma SetPrefix_clears:
  assumes run: "SetPrefix s prefix r = Some (res, r')"
  shows "m_nodesCache r' = (\<lambda>_. None)" and "m_registersCache r' = (\<lambda>_. None)"
proof -
  let ?r = "r\<lparr>m_nodesCache := (\<lambda>_. None), m_registersCache := (\<lambda>_. None)\<rparr>"
  have "(\<exists>b name. r' = ?r\<lparr>m_prefixNode := b, m_prefix := name\<rparr>) \<or> r' = ?r"
  proof (cases "prefix = [] \<or> prefix = ''.'' \<or> m_referenceNode r = None")
    case True
    then show ?thesis using run by (auto simp: SetPrefix_def Let_def split: if_splits)
  next
    case False
    then obtain a where a: "m_referenceNode r = Some a" by blast
    obtain found where found: "FindNode s a prefix = Some found" using run False a by (cases "FindNode s a prefix") (auto simp: SetPrefix_def Let_def)
    show ?thesis
    proof (cases found)
      case (Inl e)
      then show ?thesis using run False a found by (auto simp: SetPrefix_def Let_def)
    next
      case (Inr node)
      then show ?thesis using run False a found by (cases node) (auto simp: SetPrefix_def Let_def split: NodeRef.splits)
    qed
  qed
  then show "m_nodesCache r' = (\<lambda>_. None)" "m_registersCache r' = (\<lambda>_. None)" by auto
qed

lemma cache_ok_SetPrefix: "SetPrefix s' prefix r = Some (res, r') \<Longrightarrow> cache_ok s r'"
  using SetPrefix_clears by (simp add: cache_ok_def)

lemma Resolve_eq:
  assumes ok: "cache_ok s r" and a: "m_prefixNode r = Some a"
  shows "map_option fst (Resolve s path r) = FindNode s a path"
    and "Resolve s path r = Some (res, r') \<Longrightarrow> cache_ok s r' \<and> m_prefixNode r' = Some a"
proof -
  show "map_option fst (Resolve s path r) = FindNode s a path"
  proof (cases "m_nodesCache r path")
    case None
    then show ?thesis using a by (simp add: Resolve_def option.map_comp comp_def option.map_ident)
  next
    case (Some node)
    then have "FindNode s a path = Some (Inr (Some node))" using ok a by (auto simp: cache_ok_def)
    then show ?thesis using Some by (simp add: Resolve_def)
  qed
  show "cache_ok s r' \<and> m_prefixNode r' = Some a" if run: "Resolve s path r = Some (res, r')"
    using run ok a unfolding Resolve_def cache_ok_def by (auto split: option.splits sum.splits if_splits)
qed

lemma TryResolveAsRegister_eq:
  assumes ok: "cache_ok s r" and a: "m_prefixNode r = Some a"
  shows "map_option fst (TryResolveAsRegister s path r) = FindRegister s a path"
    and "TryResolveAsRegister s path r = Some (res, r') \<Longrightarrow> cache_ok s r' \<and> m_prefixNode r' = Some a"
proof -
  show "map_option fst (TryResolveAsRegister s path r) = FindRegister s a path"
  proof (cases "m_registersCache r path")
    case None
    then show ?thesis using a by (simp add: TryResolveAsRegister_def option.map_comp comp_def option.map_ident)
  next
    case (Some reg)
    then have "FindRegister s a path = Some (Inr (Some reg))" using ok a by (auto simp: cache_ok_def)
    then show ?thesis using Some by (simp add: TryResolveAsRegister_def)
  qed
  show "cache_ok s r' \<and> m_prefixNode r' = Some a" if run: "TryResolveAsRegister s path r = Some (res, r')"
    using run ok a unfolding TryResolveAsRegister_def cache_ok_def by (auto split: option.splits sum.splits if_splits)
qed

text \<open>After the reference node has been replaced, a path in the cache still leads to where it led before.\<close>

lemma ReferenceNode_stale:
  assumes "m_nodesCache r path = Some node"
  shows "Resolve s path (ReferenceNode referenceNode r) = Some (Inr (Some node), ReferenceNode referenceNode r)"
  using assms by (simp add: Resolve_def ReferenceNode_def)

end
