(* ===== verification/Path_Properties.thy ===== *)
theory Path_Properties
  imports Node_Paths System_Properties
begin

text \<open>
  What the searches by path and the resolver promise, with an instance: an access interface with a register
  and a linker, whose name paths leave out, above a chain with another register.
\<close>

section \<open>A model with names\<close>

definition path_world :: World where
  "path_world = \<lparr>registers = (\<lambda>a. if a = 1 then Some ((sample_reg 1 [True])\<lparr>m_name := ''r1''\<rparr>) else if a = 2 then Some ((sample_reg 4 [False])\<lparr>m_name := ''r2''\<rparr>) else None),
     parents = (\<lambda>a. if a = 0 then Some ((plain_node 0)\<lparr>m_name := ''top''\<rparr>)
       else if a = 1 then Some ((plain_node 2)\<lparr>m_name := ''mux'', m_ignoreForNodePath := True\<rparr>)
       else if a = 2 then Some ((plain_node 3)\<lparr>m_name := ''chain''\<rparr>) else None), selectors = (\<lambda>_. None)\<rparr>"

definition path_heap :: heap where
  "path_heap = [ParentRef 0 \<mapsto> set_first (Some (RegisterRef 1)) (new_links AccessInterface),
     RegisterRef 1 \<mapsto> set_next (Some (ParentRef 1)) (new_links Chain), ParentRef 1 \<mapsto> set_first (Some (ParentRef 2)) (new_links Linker),
     ParentRef 2 \<mapsto> set_first (Some (RegisterRef 2)) (new_links Chain), RegisterRef 2 \<mapsto> new_links Chain]"

definition path_model :: SystemModel where
  "path_model = \<lparr>model_world = path_world, links = path_heap, m_protocol = (\<lambda>_. None), sm_nextIdentifier = 5, m_autoRootNode = True,
     m_root = Some 0, m_identifierMapping = [Some (ParentRef 0), Some (RegisterRef 1), Some (ParentRef 1), Some (ParentRef 2), Some (RegisterRef 2)]\<rparr>"

abbreviation path_tree :: SystemTree where
  "path_tree \<equiv> ParentTree AccessInterface 0 [RegisterLeaf 1, ParentTree Linker 1 [ParentTree Chain 2 [RegisterLeaf 2]]]"

lemma path_searchable: "searchable path_model path_tree" "is_parent path_tree"
proof -
  have "tree_in path_heap path_tree" by (simp add: path_heap_def)
  moreover have "named path_model path_tree"
    by (auto simp: named_def Name_def ignored_def IgnoreForNodePath_def path_model_def path_world_def register_at_def parent_at_def deref_def)
  ultimately show "searchable path_model path_tree" by (simp add: searchable_def path_model_def)
qed simp

lemma path_names_here: "path_names ''chain.r2'' = Some [''chain'', ''r2'']" "path_names ''r1'' = Some [''r1'']"
  by (simp_all add: path_names.simps)

lemma path_lookup:
  "lookup path_model path_tree [''chain'', ''r2''] = Some (RegisterLeaf 2)"
  by (simp add: search_level.simps tree_name_def tree_ignored_def Name_def ignored_def IgnoreForNodePath_def path_model_def path_world_def
      register_at_def parent_at_def deref_def plain_node_def)

lemma path_lookup_r1: "lookup path_model path_tree [''r1''] = Some (RegisterLeaf 1)"
  "lookup path_model (ParentTree Chain 2 [RegisterLeaf 2]) [''r1''] = None"
  by (simp_all add: search_level.simps tree_name_def tree_ignored_def Name_def ignored_def IgnoreForNodePath_def path_model_def path_world_def
      register_at_def parent_at_def deref_def plain_node_def)

section \<open>Searches\<close>

text \<open>C13: The search by path always ends. It finds the node its names lead to, level by level and through the
  nodes paths leave out; it finds nothing when a name leads nowhere or is empty, and itself for a single dot.\<close>
theorem node_found_by_path:
  assumes "searchable s t" and "is_parent t" and "path \<noteq> []"
  shows "FindNode s (tree_address t) path = Some (Inr (if path = ''.'' then Some (node_ref t) else path_target s t path))
    \<and> (\<forall>ns. path = join ''.'' ns \<longrightarrow> (\<forall>n \<in> set ns. n \<noteq> [] \<and> CHR ''.'' \<notin> set n) \<longrightarrow> path_target s t path = map_option node_ref (lookup s t ns))"
proof
  show "FindNode s (tree_address t) path = Some (Inr (if path = ''.'' then Some (node_ref t) else path_target s t path))"
    using FindNode_eq [OF assms(1,2,3)] FindNode_here assms(2) by (cases t) auto
  show "\<forall>ns. path = join ''.'' ns \<longrightarrow> (\<forall>n \<in> set ns. n \<noteq> [] \<and> CHR ''.'' \<notin> set n) \<longrightarrow> path_target s t path = map_option node_ref (lookup s t ns)"
    using path_names_join by (simp add: path_target_def)
qed

theorem node_found_by_path_witness:
  "FindNode path_model 0 ''chain.r2'' = Some (Inr (Some (RegisterRef 2)))"
  using node_found_by_path [OF path_searchable, of "''chain.r2''"] path_lookup by (simp add: path_target_def path_names_here)

text \<open>C25: The search for a register always ends: it throws invalid_argument for an empty name, and otherwise finds
  the alias or register of that name the parent part of the path leads to.\<close>
theorem register_found_by_path:
  assumes "searchable s t" and "is_parent t"
  shows "FindRegister s (tree_address t) path = Some (if BackToken path ''.'' = [] then Inl InvalidArgument else Inr (register_target s t path))"
  by (rule FindRegister_eq [OF assms])

theorem register_found_by_path_witness:
  "FindRegister path_model 0 ''chain.r2'' = Some (Inr (Some (FoundRegister 2)))"
proof -
  have parts: "BackToken ''chain.r2'' ''.'' = ''r2''" "parent_part ''chain.r2'' = ''chain''" by code_simp+
  have "lookup path_model path_tree [''chain''] = Some (ParentTree Chain 2 [RegisterLeaf 2])"
    by (simp add: search_level.simps tree_name_def tree_ignored_def Name_def ignored_def IgnoreForNodePath_def path_model_def path_world_def
        register_at_def parent_at_def deref_def plain_node_def)
  moreover have "find_in path_model ''r2'' (ParentTree Chain 2 [RegisterLeaf 2]) = Some (FoundRegister 2)"
    by (simp add: alias_at_def find_alias_def node_at_def path_model_def path_heap_def HasAliases_def set_first_def new_links_def
        tree_name_def Name_def path_world_def register_at_def deref_def)
  ultimately have "register_target path_model path_tree ''chain.r2'' = Some (FoundRegister 2)"
    by (simp add: register_target_def register_parent_def parts path_names.simps)
  then show ?thesis using register_found_by_path [OF path_searchable, of "''chain.r2''"] by (simp add: parts)
qed

section \<open>The resolver\<close>

text \<open>
  The resolvers that have only searched in the model \<open>s\<close> since they were created or their prefix was set.
  Before that, \<open>r\<close> and \<open>s'\<close> are arbitrary: the resolver may have been used in any way,
  its reference node replaced, and the model changed.
\<close>

inductive only_searched :: "SystemModel \<Rightarrow> NodePathResolver \<Rightarrow> bool" for s where
  created: "only_searched s (NodePathResolver_create referenceNode)"
| prefixed: "SetPrefix s' prefix r = Some (res, r') \<Longrightarrow> only_searched s r'"
| resolved: "only_searched s r \<Longrightarrow> Resolve s path r = Some (res, r') \<Longrightarrow> only_searched s r'"
| tried: "only_searched s r \<Longrightarrow> TryResolveAsRegister s path r = Some (res', r') \<Longrightarrow> only_searched s r'"
| registered: "only_searched s r \<Longrightarrow> ResolveAsRegister s path r = Some (res'', r') \<Longrightarrow> only_searched s r'"


lemma Resolve_cache_ok: "cache_ok s r \<Longrightarrow> Resolve s path r = Some (res, r') \<Longrightarrow> cache_ok s r'"
proof (cases "m_prefixNode r")
  case None
  assume "cache_ok s r" "Resolve s path r = Some (res, r')"
  then show ?thesis using None by (auto simp: Resolve_def split: option.splits)
next
  case (Some a)
  assume "cache_ok s r" "Resolve s path r = Some (res, r')"
  then show ?thesis using Resolve_eq(2) Some by blast
qed

lemma TryResolveAsRegister_cache_ok: "cache_ok s r \<Longrightarrow> TryResolveAsRegister s path r = Some (res, r') \<Longrightarrow> cache_ok s r'"
proof (cases "m_prefixNode r")
  case None
  assume "cache_ok s r" "TryResolveAsRegister s path r = Some (res, r')"
  then show ?thesis using None by (auto simp: TryResolveAsRegister_def split: option.splits)
next
  case (Some a)
  assume "cache_ok s r" "TryResolveAsRegister s path r = Some (res, r')"
  then show ?thesis using TryResolveAsRegister_eq(2) Some by blast
qed

lemma ResolveAsRegister_cache_ok: "cache_ok s r \<Longrightarrow> ResolveAsRegister s path r = Some (res, r') \<Longrightarrow> cache_ok s r'"
  using TryResolveAsRegister_cache_ok by (fastforce simp: ResolveAsRegister_def)

text \<open>C15: Since it was created or its prefix was last set, and as long as the model and its reference node stay as they are, the
  cache of a resolver does not show: it answers every path as a search from its prefix node would now,
  for nodes and for registers, whatever was resolved before. Setting the prefix restores this after any
  use, replacements of the reference node and changes of the model included.\<close>
theorem resolver_answers_search:
  assumes "only_searched s r" and "m_prefixNode r = Some a"
  shows "map_option fst (Resolve s path r) = FindNode s a path \<and> map_option fst (TryResolveAsRegister s path r) = FindRegister s a path"
proof -
  have "cache_ok s r" using assms(1)
    by induction (auto intro: cache_ok_create cache_ok_SetPrefix Resolve_cache_ok TryResolveAsRegister_cache_ok ResolveAsRegister_cache_ok)
  then show ?thesis using Resolve_eq(1) TryResolveAsRegister_eq(1) assms(2) by blast
qed

lemma path_resolved:
  "Resolve path_model ''r1'' (NodePathResolver_create (Some 0))
    = Some (Inr (Some (RegisterRef 1)), (NodePathResolver_create (Some 0))\<lparr>m_nodesCache := [''r1'' \<mapsto> RegisterRef 1]\<rparr>)"
  using FindNode_eq [OF path_searchable, of "''r1''"] path_lookup_r1(1)
  by (simp add: Resolve_def NodePathResolver_create_def path_target_def path_names_here)

theorem resolver_answers_search_witness:
  "map_option fst (Resolve path_model ''chain.r2'' ((NodePathResolver_create (Some 0))\<lparr>m_nodesCache := [''r1'' \<mapsto> RegisterRef 1]\<rparr>))
    = FindNode path_model 0 ''chain.r2''"
proof -
  have "only_searched path_model ((NodePathResolver_create (Some 0))\<lparr>m_nodesCache := [''r1'' \<mapsto> RegisterRef 1]\<rparr>)"
    by (rule only_searched.resolved [OF only_searched.created path_resolved])
  then show ?thesis using resolver_answers_search [of path_model _ 0] by (simp add: NodePathResolver_create_def)
qed

text \<open>C20: After its reference node has been replaced, the resolver answers every path it has found before with the
  node below the old reference, whatever the path means below the new one.\<close>
theorem resolver_keeps_old_answers:
  assumes "Resolve s path r = Some (Inr (Some node), r1)"
  shows "Resolve s path (ReferenceNode referenceNode r1) = Some (Inr (Some node), ReferenceNode referenceNode r1)"
proof -
  have "m_nodesCache r1 path = Some node"
    using assms by (auto simp: Resolve_def split: option.splits)
  then show ?thesis by (rule ReferenceNode_stale)
qed

theorem resolver_keeps_old_answers_witness:
  "\<exists>r. Resolve path_model ''r1'' (ReferenceNode (Some 2) r) = Some (Inr (Some (RegisterRef 1)), ReferenceNode (Some 2) r)
    \<and> FindNode path_model 2 ''r1'' = Some (Inr None)"
proof -
  have "searchable path_model (ParentTree Chain 2 [RegisterLeaf 2])"
    using searchable_child [OF searchable_child [OF path_searchable(1), of "ParentTree Linker 1 [ParentTree Chain 2 [RegisterLeaf 2]]"]] by simp
  then have "FindNode path_model 2 ''r1'' = Some (Inr None)"
    using FindNode_eq [of path_model "ParentTree Chain 2 [RegisterLeaf 2]" "''r1''"] path_lookup_r1(2) by (simp add: path_target_def path_names_here)
  then show ?thesis using resolver_keeps_old_answers [OF path_resolved] by blast
qed

end
