(* ===== verification/Check_Results.thy ===== *)
theory Check_Results
  imports Node_Paths BV_Text
begin

text \<open>
  The results of checks: \<^verbatim>\<open>Checker.cpp\<close>, \<^verbatim>\<open>SystemModelCheckerBase.cpp\<close> and \<^verbatim>\<open>CheckResult.cpp\<close>. A message is
  a value that says what is reported and of which nodes; a checker collects messages, and their text is
  made when the result is.
\<close>

section \<open>Messages\<close>

text \<open>A message names the node it is about first, a parent by its address; then what the text says of it.\<close>

datatype Message =
    NoRoot | NoMapping | NotTheIdentifier NodeRef nat | NoNodeWith nat
  | NotManaged NodeRef | SameIdentifier NodeRef NodeRef
  | AlsoChildOf NodeRef nat nat | TwiceInARow NodeRef nat | Twice NodeRef nat | IntoItself NodeRef | NoChild nat | NotSeen NodeRef
  | RootNeither NodeRef | NotAnInterface NodeRef | NoInterfaceChild nat | TooManyChannels nat nat nat | FewChannels nat nat nat
  | NoProtocol nat | NoParentTranslator nat | TranslatorWithoutChild nat | TranslatorChild nat | NotRaw nat NodeRef | NotTranslation nat NodeRef
  | NoSelector nat | NoPath nat | SinglePath nat | FewChildren nat nat nat | ManyChildren nat nat nat
  | NothingToCheck | NoName NodeRef | NoParentName NodeRef | SameName NodeRef | SameNameIgnored NodeRef | SameNameAsIgnored NodeRef
  | SameNameBothIgnored NodeRef | SamePath NodeRef string NodeRef | SamePathMany NodeRef string nat

definition TypeName :: "SystemModel \<Rightarrow> NodeRef \<Rightarrow> string" where
  "TypeName s p = (case p of RegisterRef a \<Rightarrow> ''Register''
     | ParentRef a \<Rightarrow> (case links s p of None \<Rightarrow> [] | Some nd \<Rightarrow> (case node_class nd of
         AccessInterface \<Rightarrow> ''AccessInterface'' | AccessInterfaceTranslator \<Rightarrow> ''AccessInterfaceTranslator''
       | Chain \<Rightarrow> ''Chain'' | Linker \<Rightarrow> ''Linker'' | Streamer \<Rightarrow> ''Streamer'')))"

definition name_text :: "SystemModel \<Rightarrow> NodeRef \<Rightarrow> string" where
  "name_text s p = (case Name s p of Inl e \<Rightarrow> [] | Inr n \<Rightarrow> n)"

definition identifier_text :: "SystemModel \<Rightarrow> NodeRef \<Rightarrow> string" where
  "identifier_text s p = (case Identifier s p of Inl e \<Rightarrow> [] | Inr n \<Rightarrow> to_string n)"

definition quoted :: "string \<Rightarrow> string" where
  "quoted text = [CHR 0x27] @ text @ [CHR 0x27]"

definition Stream :: "SystemModel \<Rightarrow> string \<Rightarrow> NodeRef \<Rightarrow> string" where
  "Stream s header p = (if header \<noteq> [] then header @ '' '' else []) @ TypeName s p @ '' '' @ quoted (name_text s p)
     @ '' (id: '' @ identifier_text s p @ '')''"

definition channels_text :: "nat \<Rightarrow> string" where
  "channels_text maxChannels = to_string maxChannels @ '' channels (including one '' @ quoted ''pseudo channel'' @ '' reserved for reset action)''"

definition children_text :: "nat \<Rightarrow> string" where
  "children_text childrenCount = to_string childrenCount @ (if childrenCount = 1 then '' child'' else '' children'')"

primrec message_text :: "SystemModel \<Rightarrow> Message \<Rightarrow> string" where
  "message_text s NoRoot = ''SystemModel has no root node''"
| "message_text s NoMapping = ''There is no mapping between identifiers and nodes''"
| "message_text s (NotTheIdentifier p i) = Stream s ''Found'' p @ [CHR 0x27] @ '' while expecting it to have id: '' @ quoted (to_string i)"
| "message_text s (NoNodeWith i) = ''Identifier '' @ quoted (to_string i) @ '' is not associated with a node''"
| "message_text s (NotManaged p) = Stream s [] p @ '' is not managed by SystemModel''"
| "message_text s (SameIdentifier p q) = Stream s [] p @ Stream s '' has same identifier as'' q @ '' ==> it is probably not managed by SystemModel''"
| "message_text s (AlsoChildOf p a b) = Stream s [] p @ Stream s '', child of'' (ParentRef a) @ Stream s '', is also child of'' (ParentRef b)"
| "message_text s (TwiceInARow p a) = Stream s [] p @ Stream s '' has been appended twice in a row to'' (ParentRef a)"
| "message_text s (Twice p a) = Stream s [] p @ Stream s '' has been appended twice to'' (ParentRef a)"
| "message_text s (IntoItself p) = Stream s [] p @ '' has been appended into itself''"
| "message_text s (NoChild a) = Stream s [] (ParentRef a) @ '' has no child''"
| "message_text s (NotSeen p) = Stream s [] p @ '' has not been seen by checker tree traversal (may be unconnected)''"
| "message_text s (RootNeither p) = Stream s [] p @ '' is neither an AccessInterface nor a Chain''"
| "message_text s (NotAnInterface p) = Stream s [] p @ '', children of Chain root node must be either AccessInterface or AccessInterfaceTranslator''"
| "message_text s (NoInterfaceChild a) = Stream s [] (ParentRef a) @ '' has no AccessInterface or AccessInterfaceTranslator child''"
| "message_text s (TooManyChannels a n m) = Stream s [] (ParentRef a) @ '' has too many children ('' @ to_string n
    @ '') ; its protocol supports a maximum of '' @ channels_text m"
| "message_text s (FewChannels a n m) = Stream s [] (ParentRef a) @ '' has only '' @ to_string n
    @ '' children even though its protocol supports a maximum of '' @ channels_text m"
| "message_text s (NoProtocol a) = Stream s [] (ParentRef a) @ '' has no associated AccessInterfaceProtocol''"
| "message_text s (NoParentTranslator a) = Stream s [] (ParentRef a) @ '' has a Raw protocol but no Parent Translator is set''"
| "message_text s (TranslatorWithoutChild a) = Stream s [] (ParentRef a) @ '' must have at least one child''"
| "message_text s (TranslatorChild a) = Stream s [] (ParentRef a) @ '' must have a child of type AccessInterface ''"
| "message_text s (NotRaw a p) = Stream s [] (ParentRef a) @ '' Must be associated with a Raw protocol, while AccessInterface ''
    @ name_text s p @ '' has a non-raw protocol''"
| "message_text s (NotTranslation a p) = Stream s [] (ParentRef a) @ '' Must be associated with a T-2-T protocol, while AccessInterface ''
    @ name_text s p @ '' has a non T-2-T protocol''"
| "message_text s (NoSelector a) = Stream s [] (ParentRef a) @ '' has no path selector''"
| "message_text s (NoPath a) = Stream s [] (ParentRef a) @ '' has a selector that can select no path at all''"
| "message_text s (SinglePath a) = Stream s [] (ParentRef a) @ '' has a selector that can select only 1 path (and cannot select none)''"
| "message_text s (FewChildren a n m) = Stream s [] (ParentRef a) @ '' has only '' @ children_text n
    @ '', even though it can select '' @ to_string m @ '' paths''"
| "message_text s (ManyChildren a n m) = Stream s [] (ParentRef a) @ '' has '' @ children_text n
    @ '', even though it can only select '' @ to_string m @ '' paths''"
| "message_text s NothingToCheck = ''No SystemModel (sub-)tree to check''"
| "message_text s (NoName p) = Stream s [] p @ '' Has no valid name''"
| "message_text s (NoParentName p) = Stream s [] p @ '' Has no valid name, even though it is parent node not ignored for node paths''"
| "message_text s (SameName p) = Stream s [] p @ '' Has same name as a previous sibling''"
| "message_text s (SameNameIgnored p) = Stream s [] p @ '' Has same name as a previous sibling (it is ignored for node paths)''"
| "message_text s (SameNameAsIgnored p) = Stream s [] p @ '' Has same name as a previous sibling (that is ignored for node paths)''"
| "message_text s (SameNameBothIgnored p) = Stream s [] p @ '' Has same name as previous sibling (both are ignored for node paths)''"
| "message_text s (SamePath p path q) = Stream s [] p @ '' Has same logical path '' @ [CHR 0x22] @ path @ [CHR 0x22]
    @ '' than Register with id: '' @ identifier_text s q"
| "message_text s (SamePathMany p path n) = Stream s [] p @ '' Has same logical path '' @ [CHR 0x22] @ path @ [CHR 0x22]
    @ '' than '' @ to_string n @ '' other Registers''"

section \<open>Checkers\<close>

record Checker =
  m_errors :: "Message list"
  m_warnings :: "Message list"
  m_infos :: "Message list"

definition ReportError :: "Message \<Rightarrow> ('a Checker_scheme, unit) act" where
  "ReportError msg = act_modify (\<lambda>c. c\<lparr>m_errors := m_errors c @ [msg]\<rparr>)"

definition ReportWarning :: "Message \<Rightarrow> ('a Checker_scheme, unit) act" where
  "ReportWarning msg = act_modify (\<lambda>c. c\<lparr>m_warnings := m_warnings c @ [msg]\<rparr>)"

definition ReportInfo :: "Message \<Rightarrow> ('a Checker_scheme, unit) act" where
  "ReportInfo msg = act_modify (\<lambda>c. c\<lparr>m_infos := m_infos c @ [msg]\<rparr>)"

text \<open>The number of messages and their text, one message after the other.\<close>

definition Report :: "string \<Rightarrow> nat \<times> string \<Rightarrow> nat \<times> string" where
  "Report message = (\<lambda>(counter, os). (u32 (counter + 1), os @ (if counter \<noteq> 0 then [CHR 0x0A] else []) @ ''  - '' @ message))"

definition reported :: "SystemModel \<Rightarrow> Message list \<Rightarrow> nat \<times> string" where
  "reported s msgs = fold (Report \<circ> message_text s) msgs (0, [])"

section \<open>Results\<close>

record CheckResult =
  infosCount :: nat
  warningsCount :: nat
  errorsCount :: nat
  infos :: string
  warnings :: string
  errors :: string

definition CheckResult_None :: CheckResult where
  "CheckResult_None = \<lparr>infosCount = 0, warningsCount = 0, errorsCount = 0, infos = [], warnings = [], errors = []\<rparr>"

definition MakeCheckResult :: "SystemModel \<Rightarrow> 'a Checker_scheme \<Rightarrow> CheckResult" where
  "MakeCheckResult s c = \<lparr>infosCount = fst (reported s (m_infos c)), warningsCount = fst (reported s (m_warnings c)),
     errorsCount = fst (reported s (m_errors c)), infos = snd (reported s (m_infos c)), warnings = snd (reported s (m_warnings c)),
     errors = snd (reported s (m_errors c))\<rparr>"

definition HasIssues :: "CheckResult \<Rightarrow> bool" where
  "HasIssues r \<longleftrightarrow> warningsCount r \<noteq> 0 \<or> errorsCount r \<noteq> 0"

definition HasWarnings :: "CheckResult \<Rightarrow> bool" where
  "HasWarnings r \<longleftrightarrow> warningsCount r \<noteq> 0"

definition HasErrors :: "CheckResult \<Rightarrow> bool" where
  "HasErrors r \<longleftrightarrow> errorsCount r \<noteq> 0"

definition reportCollected :: "string \<Rightarrow> nat \<Rightarrow> string \<Rightarrow> string" where
  "reportCollected header count text =
    header @ to_string count @ '':)'' @ [CHR 0x0A] @ (if text \<noteq> [] then text @ [CHR 0x0A] else [])"

definition MakeReport :: "CheckResult \<Rightarrow> string" where
  "MakeReport r = reportCollected ''Errors   ('' (errorsCount r) (errors r) @ reportCollected ''Warnings ('' (warningsCount r) (warnings r)
     @ reportCollected ''Infos    ('' (infosCount r) (infos r)"

definition InformativeReport :: "CheckResult \<Rightarrow> string" where
  "InformativeReport r = (if infosCount r \<noteq> 0 \<or> warningsCount r \<noteq> 0 \<or> errorsCount r \<noteq> 0 then MakeReport r else [])"

definition IssuesReport :: "CheckResult \<Rightarrow> string" where
  "IssuesReport r = (if HasIssues r then MakeReport r else [])"

definition MakeCompactErrorReport :: "CheckResult \<Rightarrow> string" where
  "MakeCompactErrorReport r = (if errorsCount r = 0 then ''No errors'' else if errorsCount r = 1 then errors r
     else ''Errors('' @ to_string (errorsCount r) @ ''): '' @ errors r)"

definition appended :: "string \<Rightarrow> string \<Rightarrow> string" where
  "appended text other = (if other \<noteq> [] then text @ [CHR 0x0A] @ other else text)"

text \<open>An empty text becomes an empty line when there is a text to append to it.\<close>

definition Merge :: "CheckResult \<Rightarrow> CheckResult \<Rightarrow> CheckResult" where
  "Merge other r = r\<lparr>infosCount := u32 (infosCount r + infosCount other), warningsCount := u32 (warningsCount r + warningsCount other),
     errorsCount := u32 (errorsCount r + errorsCount other), infos := appended (infos r) (infos other),
     warnings := appended (warnings r) (warnings other), errors := appended (errors r) (errors other)\<rparr>"

section \<open>Empty results\<close>

lemma reported_fold: "snd (fold (Report \<circ> message_text s) msgs (n, os)) = [] \<longleftrightarrow> msgs = [] \<and> os = []"
proof (induction msgs arbitrary: n os)
  case (Cons m ms)
  obtain k os' where st: "Report (message_text s m) (n, os) = (k, os')" "os' \<noteq> []" by (auto simp: Report_def)
  show ?case using Cons.IH [of k os'] st by simp
qed simp

lemma reported_empty: "snd (reported s msgs) = [] \<longleftrightarrow> msgs = []"
  by (simp add: reported_def reported_fold)

lemma reported_count: "fst (reported s msgs) = u32 (length msgs)"
proof -
  have "fst (fold (Report \<circ> message_text s) msgs (u32 n, os)) = u32 (n + length msgs)" for n os
  proof (induction msgs arbitrary: n os)
    case (Cons m ms)
    obtain os' where st: "Report (message_text s m) (u32 n, os) = (u32 (n + 1), os')" by (auto simp: Report_def u32_def mod_Suc_eq)
    show ?case using Cons.IH [of "n + 1" os'] st by simp
  qed simp
  from this [of 0 "[]"] show ?thesis by (simp add: reported_def u32_def)
qed

lemma MakeCheckResult_fields [simp]:
  "errors (MakeCheckResult s c) = [] \<longleftrightarrow> m_errors c = []" "warnings (MakeCheckResult s c) = [] \<longleftrightarrow> m_warnings c = []"
  "errorsCount (MakeCheckResult s c) = u32 (length (m_errors c))" "warningsCount (MakeCheckResult s c) = u32 (length (m_warnings c))"
  by (simp_all add: MakeCheckResult_def reported_empty reported_count)

lemma Merge_errors [simp]: "errors (Merge other r) = [] \<longleftrightarrow> errors other = [] \<and> errors r = []"
  by (auto simp: Merge_def appended_def)

end
