(* ===== verification/Model_Checks.thy ===== *)
theory Model_Checks
  imports Check_Results
begin

text \<open>
  The checks of the tree of a model: \<^verbatim>\<open>SystemModelChecker.cpp\<close>. Loops over siblings may not end, so a
  check is a run; what does not touch the links of nodes is an action.
\<close>

section \<open>Runs\<close>

lemma run_bind_mono [partial_function_mono]:
  assumes "mono_option (\<lambda>f. B f st)" and "\<And>y st. mono_option (\<lambda>f. C y f st)"
  shows "mono_option (\<lambda>f. run_bind (B f) (\<lambda>y. C y f) st)"
  unfolding run_bind_def
proof (intro partial_function_mono assms(1))
  fix r
  have "mono_option (\<lambda>f. case res of Inl e \<Rightarrow> Some (Inl e, st') | Inr x \<Rightarrow> C x f st')" for res st'
    by (cases res) (simp_all add: option.const_mono assms(2))
  then show "mono_option (\<lambda>f. case r of (res, st') \<Rightarrow> (case res of Inl e \<Rightarrow> Some (Inl e, st') | Inr x \<Rightarrow> C x f st'))"
    by (cases r) simp
qed

section \<open>The checker of the tree\<close>

text \<open>What the checker asks of the protocol a pointer leads to.\<close>

record ProtocolKind =
  MaxSupportedChannels :: nat
  is_Raw :: bool
  ParentTranslator_is_set :: bool
  is_T_2_T :: bool

type_synonym protocol_kinds = "nat \<Rightarrow> ProtocolKind"

record CollectedNodeInfo =
  info_parent :: "nat option"
  info_node :: "NodeRef option"

record SystemModelChecker = Checker +
  m_collectedNodeInfo :: "CollectedNodeInfo list"

definition SystemModelChecker_create :: SystemModelChecker where
  "SystemModelChecker_create = \<lparr>m_errors = [], m_warnings = [], m_infos = [], m_collectedNodeInfo = []\<rparr>"

type_synonym 'a check_act = "(SystemModelChecker, 'a) act"

type_synonym 'a check_run = "(SystemModelChecker, 'a) run"

definition asking :: "'a result \<Rightarrow> ('s, 'a) act" where
  "asking res = act_read (\<lambda>_. res)"

definition class_of :: "SystemModel \<Rightarrow> NodeRef \<Rightarrow> NodeClass option result" where
  "class_of s p = (case p of RegisterRef a \<Rightarrow> Inr None
                           | ParentRef a \<Rightarrow> rbind (node_at (links s) p) (\<lambda>nd. Inr (Some (node_class nd))))"

fun CheckIdentifiers_loop :: "SystemModel \<Rightarrow> nat list \<Rightarrow> unit check_act" where
  "CheckIdentifiers_loop s [] = act_return ()"
| "CheckIdentifiers_loop s (i # ids) =
    act_then (case m_identifierMapping s ! i of
        Some node \<Rightarrow> act_bind (asking (Identifier s node)) (\<lambda>ident.
          if ident \<noteq> u32 i then ReportError (NotTheIdentifier node i) else act_return ())
      | None \<Rightarrow> ReportInfo (NoNodeWith i))
    (CheckIdentifiers_loop s ids)"

definition CheckIdentifiers :: "SystemModel \<Rightarrow> unit check_act" where
  "CheckIdentifiers s = CheckIdentifiers_loop s [0..<length (m_identifierMapping s)]"

definition put_info :: "nat \<Rightarrow> CollectedNodeInfo \<Rightarrow> SystemModelChecker \<Rightarrow> SystemModelChecker" where
  "put_info i info c = c\<lparr>m_collectedNodeInfo := (m_collectedNodeInfo c)[i := info]\<rparr>"

text \<open>What is reported of a child that already has a parent.\<close>

definition report_again :: "SystemModel \<Rightarrow> nat \<Rightarrow> NodeRef \<Rightarrow> nat \<Rightarrow> unit check_act" where
  "report_again s parent child otherParent =
    (if otherParent \<noteq> parent then ReportError (AlsoChildOf child parent otherParent)
     else act_bind (asking (NextSibling s child)) (\<lambda>next.
       ReportError (if next = Some child then TwiceInARow child parent else Twice child parent)))"

text \<open>Returns whether the child is checked for the first time; a child that is not managed counts as such.\<close>

definition CheckChildNode :: "SystemModel \<Rightarrow> nat \<Rightarrow> NodeRef \<Rightarrow> bool check_act" where
  "CheckChildNode s parent child =
    act_bind (asking (Identifier s child)) (\<lambda>i.
    act_bind (act_read (\<lambda>c. Inr (m_collectedNodeInfo c))) (\<lambda>collectedInfo.
      if i \<ge> length collectedInfo \<or> m_identifierMapping s ! i = None
      then act_then (ReportError (NotManaged child)) (act_return True)
      else if m_identifierMapping s ! i \<noteq> Some child
      then act_then (ReportError (SameIdentifier child (the (m_identifierMapping s ! i)))) (act_return True)
      else let nodeInfos = collectedInfo ! i in
        case info_parent nodeInfos of
          Some p \<Rightarrow> act_then (report_again s parent child p)
            (act_then (act_modify (put_info i (nodeInfos\<lparr>info_node := Some child\<rparr>))) (act_return False))
        | None \<Rightarrow> act_then (act_modify (put_info i (nodeInfos\<lparr>info_parent := Some parent, info_node := Some child\<rparr>)))
              (act_return (info_node nodeInfos = None))))"

definition CheckNumberOfChannels :: "SystemModel \<Rightarrow> protocol_kinds \<Rightarrow> nat \<Rightarrow> unit check_act" where
  "CheckNumberOfChannels s kinds a =
    (case m_protocol s a of None \<Rightarrow> act_return ()
     | Some p \<Rightarrow> act_bind (asking (DirectChildrenCount a (links s))) (\<lambda>childrenCount.
         let maxChannels = MaxSupportedChannels (kinds p)
         in if childrenCount \<ge> maxChannels then ReportError (TooManyChannels a childrenCount maxChannels)
            else if maxChannels > u32 (childrenCount + 1) \<and> maxChannels - childrenCount < 100
            then ReportInfo (FewChannels a childrenCount maxChannels)
            else act_return ()))"

text \<open>The children of a chain at the root, with the numbers of interfaces and translators among them.\<close>

partial_function (option) RootChildren_loop ::
    "SystemModel \<Rightarrow> protocol_kinds \<Rightarrow> NodeRef option \<Rightarrow> nat \<Rightarrow> nat \<Rightarrow> (SystemModelChecker, nat \<times> nat) run" where
  "RootChildren_loop s kinds child aiCount aTCount st =
    (case child of None \<Rightarrow> run_return (aiCount, aTCount) st
     | Some c \<Rightarrow>
       run_bind (run_act (asking (class_of s c))) (\<lambda>cls.
       run_bind (run_act (case c of ParentRef a \<Rightarrow> if cls = Some AccessInterface then CheckNumberOfChannels s kinds a else act_return ()
                          | RegisterRef a \<Rightarrow> act_return ())) (\<lambda>_.
       run_bind (run_act (if cls \<noteq> Some AccessInterface \<and> cls \<noteq> Some AccessInterfaceTranslator
                          then ReportError (NotAnInterface c) else act_return ())) (\<lambda>_.
       run_bind (run_act (asking (NextSibling s c))) (\<lambda>next.
         RootChildren_loop s kinds next (if cls = Some AccessInterface then u32 (aiCount + 1) else aiCount)
           (if cls = Some AccessInterfaceTranslator then u32 (aTCount + 1) else aTCount))))) st)"

definition CheckAccessInterface :: "SystemModel \<Rightarrow> protocol_kinds \<Rightarrow> nat \<Rightarrow> unit check_run" where
  "CheckAccessInterface s kinds r =
    run_bind (run_act (asking (class_of s (ParentRef r)))) (\<lambda>cls.
      if cls = Some AccessInterface then run_act (CheckNumberOfChannels s kinds r)
      else if cls = Some AccessInterfaceTranslator then run_return ()
      else if cls = Some Chain
      then run_bind (run_act (asking (FirstChild s r))) (\<lambda>first.
           run_bind (RootChildren_loop s kinds first 0 0) (\<lambda>(aiCount, aTCount).
             run_act (if u32 (aiCount + aTCount) = 0 then ReportError (NoInterfaceChild r) else act_return ())))
      else run_act (ReportError (RootNeither (ParentRef r))))"

definition VisitAccessInterface :: "SystemModel \<Rightarrow> protocol_kinds \<Rightarrow> nat \<Rightarrow> unit check_act" where
  "VisitAccessInterface s kinds a =
    (case m_protocol s a of None \<Rightarrow> ReportWarning (NoProtocol a)
     | Some p \<Rightarrow> if is_Raw (kinds p) \<and> \<not> ParentTranslator_is_set (kinds p) then ReportError (NoParentTranslator a) else act_return ())"

definition protocol_is :: "(ProtocolKind \<Rightarrow> bool) \<Rightarrow> SystemModel \<Rightarrow> protocol_kinds \<Rightarrow> nat \<Rightarrow> bool" where
  "protocol_is P s kinds a = (case m_protocol s a of None \<Rightarrow> False | Some p \<Rightarrow> P (kinds p))"

definition VisitAccessInterfaceTranslator :: "SystemModel \<Rightarrow> protocol_kinds \<Rightarrow> nat \<Rightarrow> unit check_act" where
  "VisitAccessInterfaceTranslator s kinds a =
    act_bind (asking (FirstChild s a)) (\<lambda>first.
      case first of None \<Rightarrow> ReportError (TranslatorWithoutChild a)
      | Some node \<Rightarrow> act_bind (asking (class_of s node)) (\<lambda>cls.
          case node of RegisterRef b \<Rightarrow> ReportError (TranslatorChild a)
          | ParentRef b \<Rightarrow>
              if cls = Some AccessInterface
              then if \<not> protocol_is is_Raw s kinds b then ReportError (NotRaw a node) else act_return ()
              else if cls = Some AccessInterfaceTranslator
              then if \<not> protocol_is is_T_2_T s kinds b then ReportError (NotTranslation a node) else act_return ()
              else ReportError (TranslatorChild a)))"

definition VisitLinker :: "SystemModel \<Rightarrow> nat \<Rightarrow> unit check_act" where
  "VisitLinker s a =
    act_bind (asking (DirectChildrenCount a (links s))) (\<lambda>childrenCount.
    act_bind (asking (parent_at (model_world s) a)) (\<lambda>nd.
      if m_pathSelector nd = None then ReportError (NoSelector a)
      else act_bind (asking (selector_of (model_world s) a)) (\<lambda>(_, pathSelector).
        let selectablePaths = SelectablePaths pathSelector
        in act_then (if selectablePaths = 0 then ReportWarning (NoPath a)
                     else if selectablePaths = 1 \<and> \<not> CanSelectNone pathSelector then ReportWarning (SinglePath a)
                     else act_return ())
           (if childrenCount \<noteq> 0 \<and> childrenCount < selectablePaths then ReportWarning (FewChildren a childrenCount selectablePaths)
            else if childrenCount \<noteq> 0 \<and> childrenCount > selectablePaths then ReportError (ManyChildren a childrenCount selectablePaths)
            else act_return ()))))"

text \<open>\<^verbatim>\<open>Accept\<close> on the class of the node; nothing is checked of registers, chains and streamers.\<close>

definition Visit :: "SystemModel \<Rightarrow> protocol_kinds \<Rightarrow> NodeRef \<Rightarrow> unit check_act" where
  "Visit s kinds p = act_bind (asking (class_of s p)) (\<lambda>cls.
    case p of RegisterRef a \<Rightarrow> act_return ()
    | ParentRef a \<Rightarrow> if cls = Some AccessInterface then VisitAccessInterface s kinds a
        else if cls = Some AccessInterfaceTranslator then VisitAccessInterfaceTranslator s kinds a
        else if cls = Some Linker then VisitLinker s a
        else act_return ())"

text \<open>The loop over the children of a parent, with the call for each child that is a parent.\<close>

partial_function (option) CheckParent_loop ::
    "SystemModel \<Rightarrow> protocol_kinds \<Rightarrow> nat \<Rightarrow> NodeRef option \<Rightarrow> unit check_run" where
  "CheckParent_loop s kinds parent nextChild st =
    (case nextChild of None \<Rightarrow> run_return () st
     | Some c \<Rightarrow>
       if c = ParentRef parent
       then run_bind (run_act (ReportError (IntoItself c))) (\<lambda>_.
            run_bind (run_act (asking (NextSibling s c))) (\<lambda>next. CheckParent_loop s kinds parent next)) st
       else run_bind (run_act (CheckChildNode s parent c)) (\<lambda>checkedOnce st.
         if \<not> checkedOnce then run_return () st
         else run_bind (run_act (Visit s kinds c)) (\<lambda>_.
              run_bind (\<lambda>st. case c of RegisterRef a \<Rightarrow> run_return () st
                  | ParentRef b \<Rightarrow> run_bind (run_act (asking (FirstChild s b))) (\<lambda>first st.
                      if first = None then run_act (ReportWarning (NoChild b)) st else CheckParent_loop s kinds b first st) st) (\<lambda>_.
              run_bind (run_act (asking (NextSibling s c))) (\<lambda>next. CheckParent_loop s kinds parent next))) st) st)"

definition CheckParentNode :: "SystemModel \<Rightarrow> protocol_kinds \<Rightarrow> nat \<Rightarrow> unit check_run" where
  "CheckParentNode s kinds parent =
    run_bind (run_act (asking (FirstChild s parent))) (\<lambda>first.
      if first = None then run_act (ReportWarning (NoChild parent)) else CheckParent_loop s kinds parent first)"

fun Dangling_loop :: "SystemModel \<Rightarrow> nat \<Rightarrow> nat list \<Rightarrow> unit check_act" where
  "Dangling_loop s r [] = act_return ()"
| "Dangling_loop s r (i # ids) =
    act_bind (act_read (\<lambda>c. Inr (info_node (m_collectedNodeInfo c ! i)))) (\<lambda>seen.
    act_then (case m_identifierMapping s ! i of
        Some node \<Rightarrow> if node \<noteq> ParentRef r \<and> seen = None then ReportError (NotSeen node) else act_return ()
      | None \<Rightarrow> act_return ())
    (Dangling_loop s r ids))"

definition clear_infos :: "nat \<Rightarrow> SystemModelChecker \<Rightarrow> SystemModelChecker" where
  "clear_infos n c = c\<lparr>m_collectedNodeInfo := replicate n \<lparr>info_parent = None, info_node = None\<rparr>\<rparr>"

definition CheckTree :: "SystemModel \<Rightarrow> protocol_kinds \<Rightarrow> unit check_run" where
  "CheckTree s kinds =
    (case m_root s of None \<Rightarrow> run_act (ReportWarning NoRoot)
     | Some r \<Rightarrow>
       run_bind (run_act (if m_identifierMapping s = [] then ReportError NoMapping else act_return ())) (\<lambda>_.
       run_bind (run_act (act_modify (clear_infos (length (m_identifierMapping s))))) (\<lambda>_.
       run_bind (run_act (Visit s kinds (ParentRef r))) (\<lambda>_.
       run_bind (CheckAccessInterface s kinds r) (\<lambda>_.
       run_bind (CheckParentNode s kinds r) (\<lambda>_.
         run_act (Dangling_loop s r [0..<length (m_identifierMapping s)])))))))"

section \<open>What a check that reports no error has done\<close>

definition tidy :: "SystemModel \<Rightarrow> SystemModelChecker \<Rightarrow> bool" where
  "tidy s c \<longleftrightarrow> length (m_collectedNodeInfo c) = length (m_identifierMapping s)
    \<and> (\<forall>info \<in> set (m_collectedNodeInfo c). info_node info = None \<longleftrightarrow> info_parent info = None)"

text \<open>Errors are never withdrawn, and when none is added, the check has done what \<open>post\<close> says.\<close>

definition checked :: "SystemModel \<Rightarrow> ('a \<Rightarrow> SystemModelChecker \<Rightarrow> SystemModelChecker \<Rightarrow> bool) \<Rightarrow> SystemModelChecker
    \<Rightarrow> 'a result \<times> SystemModelChecker \<Rightarrow> bool" where
  "checked s post st y \<longleftrightarrow> (tidy s st \<longrightarrow> tidy s (snd y) \<and> (\<exists>msgs. m_errors (snd y) = m_errors st @ msgs
    \<and> (msgs = [] \<longrightarrow> (\<forall>x. fst y = Inr x \<longrightarrow> post x st (snd y)))))"

definition checks :: "SystemModel \<Rightarrow> 'a check_run \<Rightarrow> ('a \<Rightarrow> SystemModelChecker \<Rightarrow> SystemModelChecker \<Rightarrow> bool) \<Rightarrow> bool" where
  "checks s m post \<longleftrightarrow> (\<forall>st y. m st = Some y \<longrightarrow> checked s post st y)"

lemma checksI: "(\<And>st y. m st = Some y \<Longrightarrow> checked s post st y) \<Longrightarrow> checks s m post"
  by (simp add: checks_def)

lemma checksD: "checks s m post \<Longrightarrow> m st = Some y \<Longrightarrow> checked s post st y"
  unfolding checks_def by blast

lemma checks_bind:
  assumes m: "checks s m post" and f: "\<And>x. checks s (f x) (post' x)"
  shows "checks s (run_bind m f) (\<lambda>y st st'. \<exists>x st1. post x st st1 \<and> post' x y st1 st')"
proof (rule checksI)
  fix st y assume run: "run_bind m f st = Some y"
  obtain r st1 where r: "m st = Some (r, st1)" using run by (cases "m st") (auto simp: run_bind_def)
  show "checked s (\<lambda>y st st'. \<exists>x st1. post x st st1 \<and> post' x y st1 st') st y"
  proof (cases r)
    case (Inl e)
    then show ?thesis using run r m by (fastforce simp: run_bind_def checks_def checked_def)
  next
    case (Inr x)
    then have "checked s (post' x) st1 y" "checked s post st (Inr x, st1)" using run r m f by (cases y; simp add: run_bind_def checks_def)+
    then show ?thesis unfolding checked_def by fastforce
  qed
qed

lemma checks_mono: "checks s m post \<Longrightarrow> (\<And>x st st'. post x st st' \<Longrightarrow> post' x st st') \<Longrightarrow> checks s m post'"
  unfolding checks_def checked_def by fast

lemma checks_then:
  assumes "checks s m post" and "\<And>x. checks s (f x) (post' x)"
    and "\<And>x y st st1 st'. post x st st1 \<Longrightarrow> post' x y st1 st' \<Longrightarrow> post'' y st st'"
  shows "checks s (run_bind m f) post''"
  by (rule checks_mono [OF checks_bind [OF assms(1,2)]]) (use assms(3) in blast)

text \<open>Actions that only report.\<close>

definition report_only :: "SystemModelChecker \<Rightarrow> SystemModelChecker \<Rightarrow> bool" where
  "report_only st st' \<longleftrightarrow> m_collectedNodeInfo st' = m_collectedNodeInfo st \<and> (\<exists>msgs. m_errors st' = m_errors st @ msgs)"

definition reports :: "(SystemModelChecker, 'a) act \<Rightarrow> bool" where
  "reports m \<longleftrightarrow> (\<forall>st. report_only st (snd (m st)))"

lemma report_only_trans: "report_only st st1 \<Longrightarrow> report_only st1 st' \<Longrightarrow> report_only st st'"
  by (auto simp: report_only_def)

named_theorems reports_intros \<open>composition of actions that only report\<close>

lemma reports_prims [reports_intros]:
  "reports (act_return x)" "reports (act_read g)" "reports (ReportError msg)" "reports (ReportWarning msg)" "reports (ReportInfo msg)"
  by (simp_all add: reports_def report_only_def act_simps ReportError_def ReportWarning_def ReportInfo_def)

lemma reports_bind [reports_intros]:
  assumes "reports m" and "\<And>x. reports (f x)"
  shows "reports (act_bind m f)"
proof -
  have "report_only st (snd (act_bind m f st))" for st
  proof -
    obtain r st1 where r: "m st = (r, st1)" by (cases "m st")
    then have "report_only st st1" using assms(1) by (auto simp: reports_def dest: spec [of _ st])
    moreover have "report_only st1 (snd (f x st1))" for x using assms(2) by (simp add: reports_def)
    ultimately show ?thesis using r report_only_trans by (cases r) (auto simp: act_bind_def)
  qed
  then show ?thesis by (simp add: reports_def)
qed

lemma reports_then [reports_intros]: "reports m \<Longrightarrow> reports n \<Longrightarrow> reports (act_then m n)"
  by (simp add: act_then_def reports_bind)

lemma reports_asking [reports_intros]: "reports (asking res)"
  by (simp add: asking_def reports_prims)

lemma checks_reports: "reports m \<Longrightarrow> checks s (run_act m) (\<lambda>x st st'. m_collectedNodeInfo st' = m_collectedNodeInfo st)"
  unfolding checks_def checked_def reports_def report_only_def tidy_def by (auto split: prod.splits)

lemma checks_asking: "checks s (run_act (asking res)) (\<lambda>x st st'. res = Inr x \<and> st' = st)"
  by (auto simp: checks_def checked_def asking_def act_simps)

lemma checks_return: "checks s (run_return x) (\<lambda>y st st'. y = x \<and> st' = st)" "checks s (\<lambda>st. Some (Inr x, st)) (\<lambda>y st st'. y = x \<and> st' = st)"
  by (auto simp: checks_def checked_def)

lemma reports_cases [reports_intros]:
  "reports m \<Longrightarrow> reports n \<Longrightarrow> reports (if b then m else n)"
  "reports m \<Longrightarrow> (\<And>x. reports (f x)) \<Longrightarrow> reports (case opt of None \<Rightarrow> m | Some x \<Rightarrow> f x)"
  "(\<And>a. reports (g a)) \<Longrightarrow> (\<And>a. reports (k a)) \<Longrightarrow> reports (case p of RegisterRef a \<Rightarrow> g a | ParentRef a \<Rightarrow> k a)"
  "(\<And>x y. reports (h x y)) \<Longrightarrow> reports (case pair of (x, y) \<Rightarrow> h x y)"
  by (simp_all split: option.split NodeRef.split prod.split)

lemma reports_Visit: "reports (Visit s kinds c)"
  unfolding Visit_def VisitAccessInterface_def VisitAccessInterfaceTranslator_def VisitLinker_def Let_def
  by (intro reports_intros)

lemma reports_CheckNumberOfChannels: "reports (CheckNumberOfChannels s kinds a)"
  unfolding CheckNumberOfChannels_def Let_def by (intro reports_intros)

section \<open>The nodes a check has seen\<close>

text \<open>Each node of the set is registered and was seen for the first time, and no other node was seen.\<close>

definition sees :: "SystemModel \<Rightarrow> NodeRef set \<Rightarrow> SystemModelChecker \<Rightarrow> SystemModelChecker \<Rightarrow> bool" where
  "sees s A st st' \<longleftrightarrow>
    (\<forall>p \<in> A. \<exists>i < length (m_identifierMapping s). m_identifierMapping s ! i = Some p \<and> Identifier s p = Inr i
      \<and> info_parent (m_collectedNodeInfo st ! i) = None)
    \<and> (\<forall>i < length (m_identifierMapping s). info_parent (m_collectedNodeInfo st' ! i) = None
      \<longleftrightarrow> info_parent (m_collectedNodeInfo st ! i) = None \<and> (\<forall>p \<in> A. Identifier s p \<noteq> Inr i))"

lemma sees_none: "m_collectedNodeInfo st' = m_collectedNodeInfo st \<Longrightarrow> sees s {} st st'"
  by (simp add: sees_def)

lemma sees_new:
  assumes "sees s A st st'" and "i < length (m_identifierMapping s)" and "info_parent (m_collectedNodeInfo st ! i) = None"
    and "info_parent (m_collectedNodeInfo st' ! i) \<noteq> None"
  shows "\<exists>p \<in> A. Identifier s p = Inr i"
proof (rule ccontr)
  assume "\<not> (\<exists>p \<in> A. Identifier s p = Inr i)"
  then have "info_parent (m_collectedNodeInfo st' ! i) = None" using assms(1-3) unfolding sees_def by simp
  then show False using assms(4) by simp
qed

lemma sees_trans: "sees s A st st1 \<Longrightarrow> sees s B st1 st' \<Longrightarrow> sees s (A \<union> B) st st' \<and> A \<inter> B = {}"
  unfolding sees_def by (intro conjI ballI allI impI; fastforce)

lemma tidy_put: "tidy s c \<Longrightarrow> (info_node info = None \<longleftrightarrow> info_parent info = None) \<Longrightarrow> tidy s (put_info i info c)"
  using set_update_subset_insert [of "m_collectedNodeInfo c" i info] by (auto simp: tidy_def put_info_def)

lemma checked_error: "tidy s (snd y) \<or> \<not> tidy s st \<Longrightarrow> m_errors (snd y) = m_errors st @ [msg] \<Longrightarrow> checked s post st y"
  by (auto simp: checked_def)

lemma tidy_errors [simp]: "tidy s (c\<lparr>m_errors := msgs\<rparr>) \<longleftrightarrow> tidy s c"
  by (simp add: tidy_def)

lemma put_info_errors [simp]: "m_errors (put_info i info c) = m_errors c"
  by (simp add: put_info_def)

lemma report_again_eq:
  "(\<exists>msg. report_again s parent child p st = (Inr (), st\<lparr>m_errors := m_errors st @ [msg]\<rparr>)) \<or> (\<exists>e. report_again s parent child p st = (Inl e, st))"
  by (cases "NextSibling s child") (auto simp: report_again_def asking_def act_bind_def act_simps ReportError_def)

lemma CheckChildNode_sees: "checks s (run_act (CheckChildNode s parent c)) (\<lambda>once st st'. once \<and> sees s {c} st st')"
proof (rule checksI)
  fix st y assume "run_act (CheckChildNode s parent c) st = Some y"
  then have run: "y = CheckChildNode s parent c st" by simp
  show "checked s (\<lambda>once st st'. once \<and> sees s {c} st st') st y"
  proof (cases "Identifier s c")
    case (Inl e)
    then show ?thesis by (simp add: run CheckChildNode_def asking_def act_bind_def act_simps checked_def)
  next
    case (Inr i)
    let ?seen = "m_collectedNodeInfo st"
    note simps = run CheckChildNode_def Let_def asking_def act_bind_def act_then_def act_simps Inr ReportError_def
    consider "i \<ge> length ?seen \<or> m_identifierMapping s ! i \<noteq> Some c" | "i < length ?seen" "m_identifierMapping s ! i = Some c" by fastforce
    then show ?thesis
    proof cases
      case 1
      then show ?thesis by (intro checked_error [where msg = "if i \<ge> length ?seen \<or> m_identifierMapping s ! i = None then NotManaged c
          else SameIdentifier c (the (m_identifierMapping s ! i))"]) (auto simp: simps)
    next
      case 2
      show ?thesis
      proof (cases "info_parent (?seen ! i)")
        case None
        let ?st = "put_info i ((?seen ! i)\<lparr>info_parent := Some parent, info_node := Some c\<rparr>) st"
        have y: "y = (Inr (info_node (?seen ! i) = None), ?st)" using 2 None by (simp add: simps)
        have "sees s {c} st ?st" if "tidy s st"
          using that 2 None Inr by (auto simp: tidy_def sees_def put_info_def nth_list_update)
        moreover have "tidy s ?st" if "tidy s st" by (rule tidy_put [OF that]) simp
        moreover have "info_node (?seen ! i) = None" if "tidy s st" using that 2(1) None by (simp add: tidy_def)
        ultimately have "tidy s st \<longrightarrow> info_node (?seen ! i) = None \<and> sees s {c} st ?st \<and> tidy s ?st" by blast
        then show ?thesis by (simp add: y checked_def)
      next
        case (Some p)
        show ?thesis using report_again_eq [of s parent c p st]
        proof (elim disjE exE)
          fix msg assume "report_again s parent c p st = (Inr (), st\<lparr>m_errors := m_errors st @ [msg]\<rparr>)"
          then have y: "y = (Inr False, put_info i ((?seen ! i)\<lparr>info_node := Some c\<rparr>) (st\<lparr>m_errors := m_errors st @ [msg]\<rparr>))"
            using 2 Some by (simp add: simps)
          show ?thesis by (rule checked_error [where msg = msg]) (use y Some tidy_put [of s "st\<lparr>m_errors := m_errors st @ [msg]\<rparr>"] in auto)
        next
          fix e assume "report_again s parent c p st = (Inl e, st)"
          then show ?thesis using 2 Some by (simp add: simps checked_def)
        qed
      qed
    qed
  qed
qed

section \<open>The trees a check has gone through\<close>

definition explored :: "SystemModel \<Rightarrow> NodeRef option \<Rightarrow> SystemModelChecker \<Rightarrow> SystemModelChecker \<Rightarrow> bool" where
  "explored s nextChild st st' \<longleftrightarrow> (\<exists>ts. siblings (links s) nextChild (map node_ref ts) \<and> (\<forall>t \<in> set ts. tree_in (links s) t)
    \<and> distinct (forest_refs ts) \<and> sees s (set (forest_refs ts)) st st')"

text \<open>What the call for a child that is a parent has gone through; nothing for a register.\<close>

definition below :: "SystemModel \<Rightarrow> NodeRef \<Rightarrow> SystemModelChecker \<Rightarrow> SystemModelChecker \<Rightarrow> bool" where
  "below s c st st' \<longleftrightarrow> (\<exists>t. node_ref t = c \<and> (links s c \<noteq> None \<longrightarrow> tree_in (links s) t)
    \<and> distinct (forest_refs (tree_children t)) \<and> sees s (set (forest_refs (tree_children t))) st st')"

lemma explored_none: "m_collectedNodeInfo st' = m_collectedNodeInfo st \<Longrightarrow> explored s None st st'"
  unfolding explored_def by (intro exI [of _ "[]"]) (simp add: sees_none)

lemma below_register: "m_collectedNodeInfo st' = m_collectedNodeInfo st \<Longrightarrow> below s (RegisterRef a) st st'"
  unfolding below_def by (intro exI [of _ "RegisterLeaf a"]) (simp add: sees_none)

lemma below_parent:
  assumes "FirstChild s b = Inr first" and "explored s first st st'"
  shows "below s (ParentRef b) st st'"
proof -
  obtain nd where nd: "links s (ParentRef b) = Some nd" "first = m_pFirstChild nd"
    using assms(1) by (auto simp: FirstChild_def node_at_def split: option.splits)
  obtain ts where "siblings (links s) first (map node_ref ts)" "\<forall>t \<in> set ts. tree_in (links s) t"
    "distinct (forest_refs ts)" "sees s (set (forest_refs ts)) st st'" using assms(2) by (auto simp: explored_def)
  then show ?thesis using nd unfolding below_def by (intro exI [of _ "ParentTree (node_class nd) b ts"]) simp
qed

lemma tree_refs_children: "set (tree_refs t) = insert (node_ref t) (set (forest_refs (tree_children t)))"
  "distinct (tree_refs t) \<longleftrightarrow> node_ref t \<notin> set (forest_refs (tree_children t)) \<and> distinct (forest_refs (tree_children t))"
  by (cases t; simp)+

lemma explored_child:
  assumes "sees s {c} st st1" and "below s c st1 st2" and "NextSibling s c = Inr next" and "explored s next st2 st'"
  shows "explored s (Some c) st st'"
proof -
  obtain nd where nd: "links s c = Some nd" "next = m_pNextSibling nd"
    using assms(3) by (auto simp: NextSibling_def node_at_def split: option.splits)
  obtain t where t: "node_ref t = c" "tree_in (links s) t" "distinct (forest_refs (tree_children t))"
    "sees s (set (forest_refs (tree_children t))) st1 st2" using assms(2) nd(1) by (auto simp: below_def)
  obtain ts where ts: "siblings (links s) next (map node_ref ts)" "\<forall>t \<in> set ts. tree_in (links s) t"
    "distinct (forest_refs ts)" "sees s (set (forest_refs ts)) st2 st'" using assms(4) by (auto simp: explored_def)
  have first: "sees s (set (tree_refs t)) st st2" "distinct (tree_refs t)"
    unfolding tree_refs_children [of t] using sees_trans [OF assms(1) t(4)] t(1,3) by simp_all
  note all = sees_trans [OF first(1) ts(4)]
  show ?thesis unfolding explored_def
  proof (intro exI [of _ "t # ts"] conjI)
    show "siblings (links s) (Some c) (map node_ref (t # ts))" using t(1) ts(1) nd by simp
    show "\<forall>u \<in> set (t # ts). tree_in (links s) u" using t(2) ts(2) by simp
    show "distinct (forest_refs (t # ts))" using first(2) ts(3) all by simp
    show "sees s (set (forest_refs (t # ts))) st st'" using all by simp
  qed
qed

lemma checks_children:
  assumes "\<And>next. checks s (f next) (\<lambda>_. explored s next)"
  shows "checks s (run_bind (run_act (asking (FirstChild s b))) (\<lambda>first. if first = None then run_act (ReportWarning (NoChild b)) else f first))
    (\<lambda>_ st st'. below s (ParentRef b) st st' \<and> links s (ParentRef b) \<noteq> None)"
proof (rule checks_then [OF checks_asking, where post' = "\<lambda>first _ st st'. explored s first st st'"])
  fix first
  show "checks s (if first = None then run_act (ReportWarning (NoChild b)) else f first) (\<lambda>_. explored s first)"
    using checks_mono [OF checks_reports [OF reports_prims(4)]] explored_none assms by auto
next
  fix first u and st st1 st' :: SystemModelChecker
  assume "FirstChild s b = Inr first \<and> st1 = st" and "explored s first st1 st'"
  then show "below s (ParentRef b) st st' \<and> links s (ParentRef b) \<noteq> None"
    using below_parent by (auto simp: FirstChild_def node_at_def split: option.splits)
qed

lemma checks_once: "checks s m post \<Longrightarrow> checks s (\<lambda>st. if \<not> once then run_return x st else m st) (\<lambda>y st st'. once \<longrightarrow> post y st st')"
  by (cases once) (auto simp: checks_def checked_def)

lemma checks_siblings:
  assumes f: "\<And>b next. checks s (f b next) (\<lambda>_. explored s next)"
  shows "checks s (run_bind (run_act (CheckChildNode s parent c)) (\<lambda>checkedOnce st.
         if \<not> checkedOnce then run_return () st
         else run_bind (run_act (Visit s kinds c)) (\<lambda>_.
              run_bind (\<lambda>st. case c of RegisterRef a \<Rightarrow> run_return () st
                  | ParentRef b \<Rightarrow> run_bind (run_act (asking (FirstChild s b))) (\<lambda>first st.
                      if first = None then run_act (ReportWarning (NoChild b)) st else f b first st) st) (\<lambda>_.
              run_bind (run_act (asking (NextSibling s c))) (\<lambda>next. f parent next))) st)) (\<lambda>_. explored s (Some c))"
proof (rule checks_then [OF CheckChildNode_sees])
  let ?down = "\<lambda>st. case c of RegisterRef a \<Rightarrow> run_return () st
    | ParentRef b \<Rightarrow> run_bind (run_act (asking (FirstChild s b))) (\<lambda>first st.
        if first = None then run_act (ReportWarning (NoChild b)) st else f b first st) st"
  let ?next = "run_bind (run_act (asking (NextSibling s c))) (\<lambda>next. f parent next)"
  let ?post = "\<lambda>st st'. \<exists>st1 next. below s c st st1 \<and> NextSibling s c = Inr next \<and> explored s next st1 st'"
  fix once
  have "checks s ?down (\<lambda>_. below s c)"
  proof (cases c)
    case (RegisterRef a)
    then show ?thesis using checks_mono [OF checks_return(2) [of s "()"]] below_register by auto
  next
    case (ParentRef b)
    have "?down = run_bind (run_act (asking (FirstChild s b))) (\<lambda>first. if first = None then run_act (ReportWarning (NoChild b)) else f b first)"
      using ParentRef by (auto simp: fun_eq_iff split: prod.split sum.split)
    then show ?thesis using checks_mono [OF checks_children [OF f]] ParentRef by simp
  qed
  moreover have "checks s ?next (\<lambda>_ st st'. \<exists>next. NextSibling s c = Inr next \<and> explored s next st st')"
    by (rule checks_then [OF checks_asking f]) blast
  ultimately have "checks s (run_bind ?down (\<lambda>_. ?next)) (\<lambda>_. ?post)"
    by (rule checks_then) blast
  then have "checks s (run_bind (run_act (Visit s kinds c)) (\<lambda>_. run_bind ?down (\<lambda>_. ?next))) (\<lambda>_ st st'. \<exists>st1.
      m_collectedNodeInfo st1 = m_collectedNodeInfo st \<and> ?post st1 st')"
    by (rule checks_then [OF checks_reports [OF reports_Visit]]) blast
  then show "checks s (\<lambda>st. if \<not> once then run_return () st else run_bind (run_act (Visit s kinds c)) (\<lambda>_. run_bind ?down (\<lambda>_. ?next)) st)
      (\<lambda>_ st st'. once \<longrightarrow> (\<exists>st1. m_collectedNodeInfo st1 = m_collectedNodeInfo st \<and> ?post st1 st'))"
    by (rule checks_once)
next
  fix once u and st st1 st' :: SystemModelChecker
  assume "once \<and> sees s {c} st st1" and "once \<longrightarrow> (\<exists>st2. m_collectedNodeInfo st2 = m_collectedNodeInfo st1
    \<and> (\<exists>st3 next. below s c st2 st3 \<and> NextSibling s c = Inr next \<and> explored s next st3 st'))"
  then obtain st2 st3 nextNode where run: "sees s {c} st st1" "m_collectedNodeInfo st2 = m_collectedNodeInfo st1" "below s c st2 st3"
    "NextSibling s c = Inr nextNode" "explored s nextNode st3 st'" by blast
  have "sees s {c} st st2" using run(1,2) by (simp add: sees_def)
  then show "explored s (Some c) st st'" using explored_child run(3-5) by blast
qed

lemma CheckParent_loop_checks: "checks s (CheckParent_loop s kinds parent nextChild) (\<lambda>_. explored s nextChild)"
proof (rule checksI)
  fix st y assume "CheckParent_loop s kinds parent nextChild st = Some y"
  then show "checked s (\<lambda>_. explored s nextChild) st y"
  proof (rule CheckParent_loop.raw_induct [where P = "\<lambda>s kinds parent nextChild st y. checked s (\<lambda>_. explored s nextChild) st y", rotated])
    fix f :: "SystemModel \<Rightarrow> protocol_kinds \<Rightarrow> nat \<Rightarrow> NodeRef option \<Rightarrow> unit check_run" and s kinds parent nextChild st y
    assume IH: "\<And>s kinds parent nextChild st y. f s kinds parent nextChild st = Some y \<Longrightarrow> checked s (\<lambda>_. explored s nextChild) st y"
    have f: "checks s (f s kinds b p) (\<lambda>_. explored s p)" for b p by (rule checksI) (rule IH)
    assume run: "(case nextChild of None \<Rightarrow> run_return () st
     | Some c \<Rightarrow>
       if c = ParentRef parent
       then run_bind (run_act (ReportError (IntoItself c))) (\<lambda>_.
            run_bind (run_act (asking (NextSibling s c))) (\<lambda>next. f s kinds parent next)) st
       else run_bind (run_act (CheckChildNode s parent c)) (\<lambda>checkedOnce st.
         if \<not> checkedOnce then run_return () st
         else run_bind (run_act (Visit s kinds c)) (\<lambda>_.
              run_bind (\<lambda>st. case c of RegisterRef a \<Rightarrow> run_return () st
                  | ParentRef b \<Rightarrow> run_bind (run_act (asking (FirstChild s b))) (\<lambda>first st.
                      if first = None then run_act (ReportWarning (NoChild b)) st else f s kinds b first st) st) (\<lambda>_.
              run_bind (run_act (asking (NextSibling s c))) (\<lambda>next. f s kinds parent next))) st) st) = Some y"
    show "checked s (\<lambda>_. explored s nextChild) st y"
    proof (cases nextChild)
      case None
      then show ?thesis using run explored_none by (auto simp: checked_def)
    next
      case (Some c)
      show ?thesis
      proof (cases "c = ParentRef parent")
        case True
        have "checks s (run_bind (run_act (ReportError (IntoItself c))) (\<lambda>_. run_bind (run_act (asking (NextSibling s c)))
            (\<lambda>next. f s kinds parent next))) (\<lambda>_ _ _. False)"
        proof (rule checks_then [OF _ checks_then [OF checks_asking f]])
          show "checks s (run_act (ReportError (IntoItself c))) (\<lambda>_ _ _. False)"
            by (auto simp: checks_def ReportError_def act_simps intro: checked_error)
        qed auto
        then have "checks s (run_bind (run_act (ReportError (IntoItself c))) (\<lambda>_. run_bind (run_act (asking (NextSibling s c)))
            (\<lambda>next. f s kinds parent next))) (\<lambda>_. explored s nextChild)" by (rule checks_mono) simp
        then show ?thesis by (rule checksD) (use run Some True in simp)
      next
        case False
        have "checked s (\<lambda>_. explored s (Some c)) st y"
          by (rule checksD [OF checks_siblings [of s "f s kinds" parent c kinds, OF f]]) (use run Some False in simp)
        then show ?thesis using Some by simp
      qed
    qed
  qed
qed

section \<open>A tree without errors\<close>

definition unseen :: "SystemModelChecker \<Rightarrow> SystemModelChecker \<Rightarrow> bool" where
  "unseen st st' \<longleftrightarrow> m_collectedNodeInfo st' = m_collectedNodeInfo st"

lemma checks_unseen_bind: "checks s m (\<lambda>_. unseen) \<Longrightarrow> (\<And>x. checks s (f x) (\<lambda>_. unseen)) \<Longrightarrow> checks s (run_bind m f) (\<lambda>_. unseen)"
  by (rule checks_then [where post = "\<lambda>_. unseen" and post' = "\<lambda>_ _. unseen"]) (simp_all add: unseen_def)

lemma checks_unseen: "reports m \<Longrightarrow> checks s (run_act m) (\<lambda>_. unseen)"
  using checks_reports [of m s] by (simp add: unseen_def [abs_def])

lemma checks_unseen_cases:
  "checks s m (\<lambda>_. unseen) \<Longrightarrow> checks s m' (\<lambda>_. unseen) \<Longrightarrow> checks s (if b then m else m') (\<lambda>_. unseen)"
  "(\<And>x y. checks s (g x y) (\<lambda>_. unseen)) \<Longrightarrow> checks s (case pair of (x, y) \<Rightarrow> g x y) (\<lambda>_. unseen)"
  "checks s (run_return x) (\<lambda>_. unseen)"
  by (simp_all add: checks_def checked_def unseen_def split: prod.split)

lemma RootChildren_loop_checks: "checks s (RootChildren_loop s kinds child n m) (\<lambda>_. unseen)"
proof (rule checksI)
  fix st y assume "RootChildren_loop s kinds child n m st = Some y"
  then show "checked s (\<lambda>_. unseen) st y"
  proof (rule RootChildren_loop.raw_induct [where P = "\<lambda>s kinds child n m st y. checked s (\<lambda>_. unseen) st y", rotated])
    fix f :: "SystemModel \<Rightarrow> protocol_kinds \<Rightarrow> NodeRef option \<Rightarrow> nat \<Rightarrow> nat \<Rightarrow> (nat \<times> nat) check_run" and s kinds child n m st y
    assume IH: "\<And>s kinds child n m st y. f s kinds child n m st = Some y \<Longrightarrow> checked s (\<lambda>_. unseen) st y"
    have f: "checks s (f s kinds p i j) (\<lambda>_. unseen)" for p i j by (rule checksI) (rule IH)
    assume run: "(case child of None \<Rightarrow> run_return (n, m) st
     | Some c \<Rightarrow>
       run_bind (run_act (asking (class_of s c))) (\<lambda>cls.
       run_bind (run_act (case c of ParentRef a \<Rightarrow> if cls = Some AccessInterface then CheckNumberOfChannels s kinds a else act_return ()
                          | RegisterRef a \<Rightarrow> act_return ())) (\<lambda>_.
       run_bind (run_act (if cls \<noteq> Some AccessInterface \<and> cls \<noteq> Some AccessInterfaceTranslator
                          then ReportError (NotAnInterface c) else act_return ())) (\<lambda>_.
       run_bind (run_act (asking (NextSibling s c))) (\<lambda>next.
         f s kinds next (if cls = Some AccessInterface then u32 (n + 1) else n)
           (if cls = Some AccessInterfaceTranslator then u32 (m + 1) else m))))) st) = Some y"
    show "checked s (\<lambda>_. unseen) st y"
    proof (cases child)
      case None
      then show ?thesis using run by (auto simp: checked_def unseen_def)
    next
      case (Some c)
      have "checks s (run_bind (run_act (asking (class_of s c))) (\<lambda>cls.
       run_bind (run_act (case c of ParentRef a \<Rightarrow> if cls = Some AccessInterface then CheckNumberOfChannels s kinds a else act_return ()
                          | RegisterRef a \<Rightarrow> act_return ())) (\<lambda>_.
       run_bind (run_act (if cls \<noteq> Some AccessInterface \<and> cls \<noteq> Some AccessInterfaceTranslator
                          then ReportError (NotAnInterface c) else act_return ())) (\<lambda>_.
       run_bind (run_act (asking (NextSibling s c))) (\<lambda>next.
         f s kinds next (if cls = Some AccessInterface then u32 (n + 1) else n)
           (if cls = Some AccessInterfaceTranslator then u32 (m + 1) else m)))))) (\<lambda>_. unseen)"
        by (intro checks_unseen_bind checks_unseen f reports_intros reports_CheckNumberOfChannels)
      then show ?thesis by (rule checksD) (use run Some in simp)
    qed
  qed
qed

lemma CheckAccessInterface_checks: "checks s (CheckAccessInterface s kinds r) (\<lambda>_. unseen)"
  unfolding CheckAccessInterface_def
  by (intro checks_unseen_bind checks_unseen checks_unseen_cases RootChildren_loop_checks reports_intros reports_CheckNumberOfChannels)

text \<open>After a look for dangling nodes that reports none, every registered node but the root was seen.\<close>

lemma reports_Dangling: "reports (Dangling_loop s r ids)"
proof (induction ids)
  case (Cons i ids)
  then show ?case unfolding Dangling_loop.simps by (intro reports_intros)
qed (simp only: Dangling_loop.simps reports_prims)

lemma Dangling_none:
  "Dangling_loop s r ids st = (Inr (), st') \<Longrightarrow> m_errors st' = m_errors st
    \<Longrightarrow> \<forall>i \<in> set ids. \<forall>node. m_identifierMapping s ! i = Some node \<longrightarrow> node \<noteq> ParentRef r \<longrightarrow> info_node (m_collectedNodeInfo st ! i) \<noteq> None"
proof (induction ids arbitrary: st)
  case (Cons i ids)
  let ?bad = "\<exists>node. m_identifierMapping s ! i = Some node \<and> node \<noteq> ParentRef r \<and> info_node (m_collectedNodeInfo st ! i) = None"
  obtain st1 where st1: "Dangling_loop s r ids st1 = (Inr (), st')"
    "st1 = (if ?bad then st\<lparr>m_errors := m_errors st @ [NotSeen (the (m_identifierMapping s ! i))]\<rparr> else st)"
    using Cons.prems(1) by (auto simp: act_bind_def act_then_def act_simps ReportError_def split: option.splits if_splits)
  obtain msgs where "m_errors st' = m_errors st1 @ msgs"
    using reports_Dangling [of s r ids] st1(1) by (auto simp: reports_def report_only_def dest: spec [of _ st1])
  then have "\<not> ?bad" using st1(2) Cons.prems(2) by (cases ?bad) (simp_all only: if_True if_False, auto)
  moreover from this have "st1 = st" using st1(2) by (simp only: if_False)
  ultimately show ?case using Cons.IH [of st] st1(1) Cons.prems(2) by auto
qed simp

lemma Dangling_checks: "checks s (run_act (Dangling_loop s r ids)) (\<lambda>_ st st'. tidy s st
  \<and> (\<forall>i \<in> set ids. \<forall>node. m_identifierMapping s ! i = Some node \<longrightarrow> node \<noteq> ParentRef r \<longrightarrow> info_node (m_collectedNodeInfo st ! i) \<noteq> None))"
proof (rule checksI)
  fix st y assume y: "run_act (Dangling_loop s r ids) st = Some y"
  then have run: "Dangling_loop s r ids st = y" by simp
  have "checked s (\<lambda>_. unseen) st y" by (rule checksD [OF checks_unseen [OF reports_Dangling] y])
  then show "checked s (\<lambda>_ st st'. tidy s st
      \<and> (\<forall>i \<in> set ids. \<forall>node. m_identifierMapping s ! i = Some node \<longrightarrow> node \<noteq> ParentRef r \<longrightarrow> info_node (m_collectedNodeInfo st ! i) \<noteq> None)) st y"
    using Dangling_none [of s r ids st] run by (cases y; cases "fst y") (auto simp: checked_def)
qed

lemma CheckParentNode_checks: "checks s (CheckParentNode s kinds r) (\<lambda>_ st st'. below s (ParentRef r) st st' \<and> links s (ParentRef r) \<noteq> None)"
  unfolding CheckParentNode_def by (rule checks_children [OF CheckParent_loop_checks])

text \<open>The links below the root draw a tree, and the registered nodes are those of the tree.\<close>

definition draws_registered :: "SystemModel \<Rightarrow> nat \<Rightarrow> SystemTree \<Rightarrow> bool" where
  "draws_registered s r t \<longleftrightarrow> tree_in (links s) t \<and> node_ref t = ParentRef r \<and> distinct (tree_refs t)
    \<and> (\<forall>p \<in> set (tree_refs t) - {ParentRef r}. known s p \<and> (\<exists>i. Identifier s p = Inr i \<and> m_identifierMapping s ! i = Some p))
    \<and> (\<forall>p. known s p \<longrightarrow> p \<in> set (tree_refs t))"

text \<open>The root is not below itself: its first child would be seen twice.\<close>

lemma root_not_below:
  assumes t: "tree_in h t" and dist: "distinct (forest_refs (tree_children t))" and r: "node_ref t = ParentRef r"
  shows "ParentRef r \<notin> set (forest_refs (tree_children t))"
proof
  assume "ParentRef r \<in> set (forest_refs (tree_children t))"
  then obtain c where c: "c \<in> set (tree_children t)" "ParentRef r \<in> set (tree_refs c)" by auto
  then obtain cls ds where ds: "ParentTree cls r ds \<in> subtrees c" unfolding tree_refs_nodes by clarify (case_tac x; simp)
  obtain cls' cs where cs: "t = ParentTree cls' r cs" using r by (cases t) auto
  have "ParentTree cls r ds \<in> subtrees t" using ds c(1) cs by auto
  then have "tree_in h (ParentTree cls r ds)" using subtree_in [OF t] by blast
  then have "map node_ref ds = map node_ref cs" using t cs siblings_unique by fastforce
  moreover have "cs \<noteq> []" using c(1) cs by auto
  ultimately obtain d ds' e cs' where de: "ds = d # ds'" "cs = e # cs'" "node_ref d = node_ref e" by (cases ds; cases cs) auto
  have d: "d \<in> subtrees c" by (rule child_in [OF ds]) (simp add: de(1))
  have "node_ref e \<in> set (tree_refs c)" using d de(3) by (metis tree_refs_nodes imageI)
  then have same: "c = e" using distinct_concat_unique [of tree_refs cs c e "node_ref e"] dist c(1) cs de(2) by simp
  have "distinct (tree_refs c)" using dist c(1) by (auto simp: distinct_concat_iff)
  then have "d = c" using subtree_unique d de(3) same by (metis subtree_self)
  then show False using not_below_itself [OF ds] de(1) by simp
qed

lemma CheckTree_sound:
  assumes root: "m_root s = Some r" and run: "CheckTree s kinds st = Some (Inr (), st')" and clean: "m_errors st' = []"
  shows "\<exists>t. draws_registered s r t"
proof -
  let ?n = "length (m_identifierMapping s)"
  let ?rest = "run_bind (run_act (Visit s kinds (ParentRef r))) (\<lambda>_. run_bind (CheckAccessInterface s kinds r) (\<lambda>_.
       run_bind (CheckParentNode s kinds r) (\<lambda>_. run_act (Dangling_loop s r [0..<?n]))))"
  let ?st = "clear_infos ?n (if m_identifierMapping s = [] then st\<lparr>m_errors := m_errors st @ [NoMapping]\<rparr> else st)"
  have rest: "?rest ?st = Some (Inr (), st')"
    using run root by (cases "m_identifierMapping s = []") (simp_all add: CheckTree_def ReportError_def act_simps)
  have tidy: "tidy s ?st" by (simp add: tidy_def clear_infos_def)
  have empty: "info_parent (m_collectedNodeInfo ?st ! i) = None" if "i < ?n" for i using that by (simp add: clear_infos_def)
  let ?post = "\<lambda>st st'. \<exists>st1 st2. unseen st st1 \<and> below s (ParentRef r) st1 st2 \<and> links s (ParentRef r) \<noteq> None \<and> tidy s st2
      \<and> (\<forall>i < ?n. \<forall>node. m_identifierMapping s ! i = Some node \<longrightarrow> node \<noteq> ParentRef r \<longrightarrow> info_node (m_collectedNodeInfo st2 ! i) \<noteq> None)"
  have checks: "checks s ?rest (\<lambda>_. ?post)"
  proof (rule checks_then [OF checks_unseen [OF reports_Visit] checks_then [OF CheckAccessInterface_checks checks_then [OF CheckParentNode_checks Dangling_checks]]])
    fix x y u v and s0 s1 s2 s3 s4 :: SystemModelChecker
    show "below s (ParentRef r) s0 s1 \<and> links s (ParentRef r) \<noteq> None \<Longrightarrow>
        tidy s s1 \<and> (\<forall>i \<in> set [0..<?n]. \<forall>node. m_identifierMapping s ! i = Some node \<longrightarrow> node \<noteq> ParentRef r \<longrightarrow> info_node (m_collectedNodeInfo s1 ! i) \<noteq> None)
        \<Longrightarrow> ?post s0 s2" by (intro exI [of _ s0] exI [of _ s1]) (simp add: unseen_def)
    show "unseen s0 s1 \<Longrightarrow> ?post s1 s2 \<Longrightarrow> ?post s0 s2" by (fastforce simp: unseen_def)
    then show "unseen s0 s1 \<Longrightarrow> ?post s1 s2 \<Longrightarrow> ?post s0 s2" .
  qed
  then have res: "checked s (\<lambda>_. ?post) ?st (Inr (), st')" using rest by (rule checksD)
  then obtain msgs where msgs: "m_errors st' = m_errors ?st @ msgs" using tidy by (auto simp: checked_def)
  then have "msgs = []" using clean by simp
  then have "?post ?st st'" using res tidy msgs by (auto simp: checked_def)
  then obtain st1 st2 where st: "unseen ?st st1" "below s (ParentRef r) st1 st2" "links s (ParentRef r) \<noteq> None" "tidy s st2"
      "\<forall>i < ?n. \<forall>node. m_identifierMapping s ! i = Some node \<longrightarrow> node \<noteq> ParentRef r \<longrightarrow> info_node (m_collectedNodeInfo st2 ! i) \<noteq> None"
    by blast
  obtain t where t: "node_ref t = ParentRef r" "tree_in (links s) t" "distinct (forest_refs (tree_children t))"
    "sees s (set (forest_refs (tree_children t))) st1 st2" using st(2,3) by (auto simp: below_def)
  have refs: "set (tree_refs t) = insert (ParentRef r) (set (forest_refs (tree_children t)))" "distinct (tree_refs t)"
    using root_not_below [OF t(2,3,1)] t(1,3) tree_refs_children [of t] by auto
  have in_tree: "p \<in> set (tree_refs t)" if known: "known s p" for p
  proof -
    obtain i where i: "i < ?n" "m_identifierMapping s ! i = Some p" using known by (auto simp: known_def)
    show ?thesis
    proof (cases "p = ParentRef r")
      case False
      then have "info_node (m_collectedNodeInfo st2 ! i) \<noteq> None" using st(5) i by blast
      then have "info_parent (m_collectedNodeInfo st2 ! i) \<noteq> None" using st(4) i(1) unfolding tidy_def by (metis nth_mem)
      moreover have "info_parent (m_collectedNodeInfo st1 ! i) = None" using empty [OF i(1)] st(1) by (simp add: unseen_def)
      ultimately obtain q where q: "q \<in> set (forest_refs (tree_children t))" "Identifier s q = Inr i"
        using sees_new [OF t(4) i(1)] by blast
      then obtain j where "m_identifierMapping s ! j = Some q" "Identifier s q = Inr j" using t(4) unfolding sees_def by blast
      then have "q = p" using q(2) i(2) by simp
      then show ?thesis using q(1) refs(1) by blast
    qed (simp add: refs(1))
  qed
  have "known s p \<and> (\<exists>i. Identifier s p = Inr i \<and> m_identifierMapping s ! i = Some p)" if "p \<in> set (forest_refs (tree_children t))" for p
    using t(4) that unfolding sees_def known_def by blast
  then show ?thesis using t(1,2) refs in_tree unfolding draws_registered_def by (intro exI [of _ t]) blast
qed

end
