(* ===== verification/Names_Checks.thy ===== *)
theory Names_Checks
  imports Model_Checks
begin

text \<open>
  The checks of the names of a model, \<^verbatim>\<open>NamesChecker.cpp\<close>, and the whole check of
  \<^verbatim>\<open>SystemModelChecker::Check\<close>. The paths are cleared by the destructor of the scope also when an
  exception leaves it; as nothing reads the checker then, the model leaves this out.
\<close>

section \<open>The checker\<close>

record NamesChecker = Checker +
  m_processedNodes :: "NodeRef set"
  m_currentPathNodes :: "nat list"
  m_currentLogicalPath :: string
  m_leafPaths :: "(string \<times> NodeRef) list"

definition NamesChecker_create :: NamesChecker where
  "NamesChecker_create = \<lparr>m_errors = [], m_warnings = [], m_infos = [], m_processedNodes = {}, m_currentPathNodes = [],
     m_currentLogicalPath = [], m_leafPaths = []\<rparr>"

type_synonym 'a names_act = "(NamesChecker, 'a) act"

type_synonym 'a names_run = "(NamesChecker, 'a) run"

definition ClearPaths :: "NamesChecker \<Rightarrow> NamesChecker" where
  "ClearPaths c = c\<lparr>m_currentPathNodes := [], m_currentLogicalPath := [], m_leafPaths := []\<rparr>"

fun logical_path :: "SystemModel \<Rightarrow> nat list \<Rightarrow> string result" where
  "logical_path s [] = Inr []"
| "logical_path s (a # as) = rbind (Name s (ParentRef a)) (\<lambda>name. rbind (logical_path s as) (\<lambda>path. Inr (name @ ''.'' @ path)))"

definition RebuildLogicalPath :: "SystemModel \<Rightarrow> unit names_act" where
  "RebuildLogicalPath s = act_bind (act_read (\<lambda>c. logical_path s (m_currentPathNodes c))) (\<lambda>path.
     act_modify (\<lambda>c. c\<lparr>m_currentLogicalPath := path\<rparr>))"

definition PushParentPath :: "SystemModel \<Rightarrow> nat \<Rightarrow> unit names_act" where
  "PushParentPath s parent = act_bind (asking (IgnoreForNodePath s parent)) (\<lambda>skip.
     if skip then act_return ()
     else act_then (act_modify (\<lambda>c. c\<lparr>m_currentPathNodes := m_currentPathNodes c @ [parent]\<rparr>)) (RebuildLogicalPath s))"

definition PopParentPath :: "SystemModel \<Rightarrow> nat \<Rightarrow> unit names_act" where
  "PopParentPath s parent = act_bind (asking (IgnoreForNodePath s parent)) (\<lambda>skip.
     if skip then act_return ()
     else act_then (act_modify (\<lambda>c. c\<lparr>m_currentPathNodes := butlast (m_currentPathNodes c)\<rparr>)) (RebuildLogicalPath s))"

definition ErrorsCount :: "'a Checker_scheme \<Rightarrow> nat" where
  "ErrorsCount c = u32 (length (m_errors c))"

section \<open>Names of siblings\<close>

text \<open>The sets of names, by which siblings are compared, are arguments and results.\<close>

type_synonym name_sets = "string set \<times> string set"

definition report_sibling :: "SystemModel \<Rightarrow> NodeRef \<Rightarrow> string \<Rightarrow> bool \<Rightarrow> name_sets \<Rightarrow> unit names_act" where
  "report_sibling s child name skip sets = (case sets of (childNames, ignoredNames) \<Rightarrow>
     if name \<in> childNames then (if \<not> skip then ReportError (SameName child) else ReportInfo (SameNameIgnored child))
     else if name \<in> ignoredNames then ReportInfo (if \<not> skip then SameNameAsIgnored child else SameNameBothIgnored child)
     else act_return ())"

definition CheckSiblingName :: "SystemModel \<Rightarrow> NodeRef \<Rightarrow> name_sets \<Rightarrow> (bool \<times> name_sets) names_act" where
  "CheckSiblingName s child sets =
    act_bind (act_read (\<lambda>c. Inr (ErrorsCount c))) (\<lambda>initialErrorCount.
    act_bind (asking (Name s child)) (\<lambda>name.
    act_bind (asking (ignored s child)) (\<lambda>skip.
    act_bind (if name = [] \<or> name = ''unnamed''
        then act_then (case child of RegisterRef a \<Rightarrow> ReportInfo (NoName child)
                         | ParentRef a \<Rightarrow> if \<not> skip then ReportWarning (NoParentName child) else act_return ())
               (act_return sets)
        else act_then (report_sibling s child name skip sets)
               (act_return (if skip then (fst sets, insert name (snd sets)) else (insert name (fst sets), snd sets)))) (\<lambda>sets'.
    act_bind (act_read (\<lambda>c. Inr (ErrorsCount c))) (\<lambda>count.
      act_return (count \<noteq> initialErrorCount, sets'))))))"

section \<open>Paths of leaves\<close>

definition other_leaves :: "string \<Rightarrow> NamesChecker \<Rightarrow> NodeRef list" where
  "other_leaves path c = map snd (filter (\<lambda>(p, node). p = path) (m_leafPaths c))"

definition CheckLeafPath :: "SystemModel \<Rightarrow> NodeRef \<Rightarrow> bool \<Rightarrow> unit names_act" where
  "CheckLeafPath s child hasReportedAnError =
    act_bind (asking (Name s child)) (\<lambda>name.
    act_bind (act_read (\<lambda>c. Inr (m_currentLogicalPath c @ name))) (\<lambda>leafPath.
    act_bind (act_read (\<lambda>c. Inr (other_leaves leafPath c))) (\<lambda>others.
    act_then (if hasReportedAnError then act_return ()
              else if length others = 1 then ReportError (SamePath child leafPath (hd others))
              else if length others \<noteq> 0 then ReportError (SamePathMany child leafPath (length others))
              else act_return ())
      (act_modify (\<lambda>c. c\<lparr>m_leafPaths := (leafPath, child) # m_leafPaths c\<rparr>)))))"

section \<open>The traversal\<close>

text \<open>The first child to go on with; none when there is no child, or it has been the first child of another parent.\<close>

definition enter_parent :: "SystemModel \<Rightarrow> nat \<Rightarrow> NodeRef option names_act" where
  "enter_parent s parent =
    act_then (PushParentPath s parent)
    (act_bind (asking (FirstChild s parent)) (\<lambda>nextChild.
     case nextChild of None \<Rightarrow> act_return None
     | Some c \<Rightarrow> act_bind (act_read (\<lambda>st. Inr (c \<in> m_processedNodes st))) (\<lambda>seen.
         act_then (act_modify (\<lambda>st. st\<lparr>m_processedNodes := insert c (m_processedNodes st)\<rparr>))
           (act_return (if seen then None else Some c)))))"

partial_function (option) Names_loop :: "SystemModel \<Rightarrow> NodeRef option \<Rightarrow> name_sets \<Rightarrow> unit names_run" where
  "Names_loop s nextChild sets st =
    (case nextChild of None \<Rightarrow> run_return () st
     | Some c \<Rightarrow>
       run_bind (run_act (CheckSiblingName s c sets)) (\<lambda>(hasReportedAnError, sets').
       run_bind (\<lambda>st. case c of
           ParentRef b \<Rightarrow> run_bind (run_act (enter_parent s b)) (\<lambda>first.
             run_bind (Names_loop s first ({}, {})) (\<lambda>_. run_act (PopParentPath s b))) st
         | RegisterRef a \<Rightarrow> run_act (CheckLeafPath s c hasReportedAnError) st) (\<lambda>_.
       run_bind (run_act (asking (NextSibling s c))) (\<lambda>next. Names_loop s next sets'))) st)"

definition Names_CheckParentNode :: "SystemModel \<Rightarrow> nat \<Rightarrow> unit names_run" where
  "Names_CheckParentNode s parent = run_bind (run_act (enter_parent s parent)) (\<lambda>first.
     run_bind (Names_loop s first ({}, {})) (\<lambda>_. run_act (PopParentPath s parent)))"

definition NamesChecker_Check :: "SystemModel \<Rightarrow> nat option \<Rightarrow> (CheckResult result) option" where
  "NamesChecker_Check s root =
    map_option (\<lambda>(res, c). rbind res (\<lambda>_. Inr (MakeCheckResult s c)))
      ((case root of None \<Rightarrow> run_act (ReportWarning NothingToCheck)
        | Some r \<Rightarrow> run_bind (run_act (act_modify ClearPaths)) (\<lambda>_. Names_CheckParentNode s r)) NamesChecker_create)"

section \<open>The whole check\<close>

definition SystemModelChecker_Check :: "SystemModel \<Rightarrow> protocol_kinds \<Rightarrow> (CheckResult result) option" where
  "SystemModelChecker_Check s kinds =
    Option.bind (run_bind (run_act (CheckIdentifiers s)) (\<lambda>_. CheckTree s kinds) SystemModelChecker_create) (\<lambda>(res, c).
      case res of Inl e \<Rightarrow> Some (Inl e)
      | Inr u \<Rightarrow> map_option (\<lambda>names. rbind names (\<lambda>nameCheckerResult. Inr (Merge nameCheckerResult (MakeCheckResult s c))))
          (NamesChecker_Check s (m_root s)))"

end
