(* ===== verification/Checked_Names.thy ===== *)
theory Checked_Names
  imports Names_Checks
begin

text \<open>
  What the checks of names find in a tree: the names of siblings and the paths of leaves that they
  report are those that occur twice. A chain of siblings that does not end is never left.
\<close>

section \<open>Runs that return\<close>

named_theorems returns \<open>what a run that returns has gone through\<close>

lemma act_returns [returns]:
  "act_bind m f st = (Inr y, st') \<longleftrightarrow> (\<exists>x st1. m st = (Inr x, st1) \<and> f x st1 = (Inr y, st'))"
  "act_then n g st = (Inr y, st') \<longleftrightarrow> (\<exists>st1. n st = (Inr (), st1) \<and> g st1 = (Inr y, st'))"
  "asking res st = (Inr y, st') \<longleftrightarrow> res = Inr y \<and> st' = st"
  by (auto simp: act_then_def act_bind_def asking_def split: prod.splits sum.splits)

lemma run_returns [returns]:
  "run_bind m f st = Some (Inr y, st') \<longleftrightarrow> (\<exists>x st1. m st = Some (Inr x, st1) \<and> f x st1 = Some (Inr y, st'))"
  by (auto simp: run_bind_def split: bind_splits prod.splits sum.splits)

section \<open>Names and paths of a tree\<close>

text \<open>A node whose name must differ from those of its siblings.\<close>

definition named :: "SystemModel \<Rightarrow> NodeRef \<Rightarrow> bool" where
  "named s p \<longleftrightarrow> name_text s p \<noteq> [] \<and> name_text s p \<noteq> ''unnamed'' \<and> ignored s p \<noteq> Inr True"

definition sibling_names :: "SystemModel \<Rightarrow> SystemTree list \<Rightarrow> string list" where
  "sibling_names s ts = map (name_text s) (filter (named s) (map node_ref ts))"

fun names_differ :: "SystemModel \<Rightarrow> SystemTree \<Rightarrow> bool" where
  "names_differ s (RegisterLeaf a) \<longleftrightarrow> True"
| "names_differ s (ParentTree cls a cs) \<longleftrightarrow> distinct (sibling_names s cs) \<and> (\<forall>c \<in> set cs. names_differ s c)"

definition sub_path :: "SystemModel \<Rightarrow> nat \<Rightarrow> string \<Rightarrow> string" where
  "sub_path s b path = (if IgnoreForNodePath s b = Inr True then path else path @ name_text s (ParentRef b) @ ''.'')"

fun leaf_paths :: "SystemModel \<Rightarrow> string \<Rightarrow> SystemTree \<Rightarrow> (string \<times> NodeRef) list" where
  "leaf_paths s path (RegisterLeaf a) = [(path @ name_text s (RegisterRef a), RegisterRef a)]"
| "leaf_paths s path (ParentTree cls a cs) = concat (map (leaf_paths s (sub_path s a path)) cs)"

text \<open>The same of a chain of siblings, after the names and the leaves that were met before.\<close>

definition clear_after :: "SystemModel \<Rightarrow> SystemTree list \<Rightarrow> string set \<Rightarrow> string \<Rightarrow> string set \<Rightarrow> bool" where
  "clear_after s ts names path paths \<longleftrightarrow> distinct (sibling_names s ts) \<and> set (sibling_names s ts) \<inter> names = {}
    \<and> (\<forall>t \<in> set ts. names_differ s t)
    \<and> distinct (map fst (concat (map (leaf_paths s path) ts))) \<and> fst ` set (concat (map (leaf_paths s path) ts)) \<inter> paths = {}"

lemma sibling_names_simps [simp]:
  "sibling_names s [] = []"
  "sibling_names s (t # ts) = (if named s (node_ref t) then name_text s (node_ref t) # sibling_names s ts else sibling_names s ts)"
  by (simp_all add: sibling_names_def)

lemma clear_after_Cons:
  "clear_after s (t # ts) names path paths \<longleftrightarrow> \<not> (named s (node_ref t) \<and> name_text s (node_ref t) \<in> names)
    \<and> (names_differ s t \<and> distinct (map fst (leaf_paths s path t)) \<and> fst ` set (leaf_paths s path t) \<inter> paths = {})
    \<and> clear_after s ts (if named s (node_ref t) then insert (name_text s (node_ref t)) names else names) path
        (fst ` set (leaf_paths s path t) \<union> paths)"
proof -
  have "distinct (map fst (leaf_paths s path t @ rest)) \<and> fst ` set (leaf_paths s path t @ rest) \<inter> paths = {}
      \<longleftrightarrow> (distinct (map fst (leaf_paths s path t)) \<and> fst ` set (leaf_paths s path t) \<inter> paths = {})
        \<and> distinct (map fst rest) \<and> fst ` set rest \<inter> (fst ` set (leaf_paths s path t) \<union> paths) = {}" for rest
    unfolding map_append distinct_append set_append image_Un set_map by blast
  note leaves = this [of "concat (map (leaf_paths s path) ts)"]
  have "distinct (sibling_names s (t # ts)) \<and> set (sibling_names s (t # ts)) \<inter> names = {}
      \<longleftrightarrow> \<not> (named s (node_ref t) \<and> name_text s (node_ref t) \<in> names) \<and> distinct (sibling_names s ts)
        \<and> set (sibling_names s ts) \<inter> (if named s (node_ref t) then insert (name_text s (node_ref t)) names else names) = {}" by auto
  then show ?thesis using leaves unfolding clear_after_def list.map concat.simps list.set ball_simps by argo
qed

lemma logical_path_snoc: "logical_path s as = Inr path \<Longrightarrow> Name s (ParentRef b) = Inr name \<Longrightarrow> logical_path s (as @ [b]) = Inr (path @ name @ ''.'')"
  by (induction as arbitrary: path) (auto simp: rbind_def split: sum.splits)

section \<open>The steps of a check\<close>

text \<open>The leaves, the nodes gone through and the path are kept.\<close>

definition same_paths :: "NamesChecker \<Rightarrow> NamesChecker \<Rightarrow> bool" where
  "same_paths st st' \<longleftrightarrow> m_processedNodes st' = m_processedNodes st \<and> m_currentPathNodes st' = m_currentPathNodes st
    \<and> m_currentLogicalPath st' = m_currentLogicalPath st \<and> m_leafPaths st' = m_leafPaths st"

lemmas names_reports = ReportError_def ReportWarning_def ReportInfo_def same_paths_def

lemma u32_counts: "u32 (Suc n) \<noteq> u32 n"
  by (simp add: u32_def mod_Suc)

lemma CheckSiblingName_returns:
  assumes "CheckSiblingName s c sets st = (Inr (again, sets'), st')"
  defines "clash \<equiv> named s c \<and> name_text s c \<in> fst sets"
  shows "again \<longleftrightarrow> clash" "m_errors st' = m_errors st @ (if clash then [SameName c] else [])" "same_paths st st'"
    "fst sets' = (if named s c then insert (name_text s c) (fst sets) else fst sets)" "Name s c = Inr (name_text s c)"
proof -
  obtain name skip where asked: "Name s c = Inr name" "ignored s c = Inr skip"
    using assms(1) by (auto simp: CheckSiblingName_def returns)
  have name: "name_text s c = name" using asked(1) by (simp add: name_text_def)
  let ?inner = "if name = [] \<or> name = ''unnamed''
        then act_then (case c of RegisterRef a \<Rightarrow> ReportInfo (NoName c)
                         | ParentRef a \<Rightarrow> if \<not> skip then ReportWarning (NoParentName c) else act_return ())
               (act_return sets)
        else act_then (report_sibling s c name skip sets)
               (act_return (if skip then (fst sets, insert name (snd sets)) else (insert name (fst sets), snd sets)))"
  obtain st1 where st1: "?inner st = (Inr sets', st1)" "st' = st1" "again \<longleftrightarrow> ErrorsCount st1 \<noteq> ErrorsCount st"
    using assms(1) unfolding CheckSiblingName_def returns asked by auto
  have "(same_paths st st1 \<and> m_errors st1 = m_errors st @ (if clash then [SameName c] else []))
      \<and> fst sets' = (if named s c then insert name (fst sets) else fst sets)"
  proof (cases "name = [] \<or> name = ''unnamed''")
    case True
    then show ?thesis using st1(1) asked name by (auto simp: returns names_reports named_def clash_def split: NodeRef.splits if_splits)
  next
    case False
    obtain names skipped where sets: "sets = (names, skipped)" by (cases sets)
    have "report_sibling s c name skip sets st = (Inr (), st1)"
      "sets' = (if skip then (names, insert name skipped) else (insert name names, skipped))"
      using st1(1) False by (auto simp: returns sets)
    then show ?thesis using False asked name
      by (cases "name \<in> names"; cases "name \<in> skipped"; cases skip) (auto simp: report_sibling_def sets names_reports named_def clash_def)
  qed
  then show "again \<longleftrightarrow> clash" "m_errors st' = m_errors st @ (if clash then [SameName c] else [])" "same_paths st st'"
    "fst sets' = (if named s c then insert (name_text s c) (fst sets) else fst sets)" "Name s c = Inr (name_text s c)"
    using st1(2,3) asked(1) name by (simp_all add: ErrorsCount_def u32_counts)
qed

lemma CheckLeafPath_returns:
  assumes "CheckLeafPath s c again st = (Inr u, st')"
  defines "path \<equiv> m_currentLogicalPath st @ name_text s c"
  shows "m_processedNodes st' = m_processedNodes st" "m_currentPathNodes st' = m_currentPathNodes st"
    "m_currentLogicalPath st' = m_currentLogicalPath st" "m_leafPaths st' = (path, c) # m_leafPaths st"
    "\<exists>msgs. m_errors st' = m_errors st @ msgs \<and> (msgs = [] \<longleftrightarrow> again \<or> path \<notin> fst ` set (m_leafPaths st))"
proof -
  obtain others where others: "others = other_leaves path st" by blast
  have none: "others = [] \<longleftrightarrow> path \<notin> fst ` set (m_leafPaths st)" by (force simp: others other_leaves_def filter_empty_conv)
  have name: "Name s c = Inr (name_text s c)" using assms(1) by (auto simp: CheckLeafPath_def returns name_text_def)
  note run = assms(1) [unfolded CheckLeafPath_def returns]
  show "m_processedNodes st' = m_processedNodes st" "m_currentPathNodes st' = m_currentPathNodes st"
    "m_currentLogicalPath st' = m_currentLogicalPath st" "m_leafPaths st' = (path, c) # m_leafPaths st"
    using run name by (auto simp: names_reports path_def split: if_splits)
  show "\<exists>msgs. m_errors st' = m_errors st @ msgs \<and> (msgs = [] \<longleftrightarrow> again \<or> path \<notin> fst ` set (m_leafPaths st))"
    using run name unfolding none [symmetric] others by (auto simp: names_reports path_def split: if_splits)
qed

lemma PushParentPath_returns:
  assumes run: "PushParentPath s b st = (Inr u, st1)" and path: "logical_path s (m_currentPathNodes st) = Inr (m_currentLogicalPath st)"
  shows "m_currentPathNodes st1 = m_currentPathNodes st @ (if IgnoreForNodePath s b = Inr True then [] else [b])"
    "m_currentLogicalPath st1 = sub_path s b (m_currentLogicalPath st)"
    "logical_path s (m_currentPathNodes st1) = Inr (m_currentLogicalPath st1)"
    "m_processedNodes st1 = m_processedNodes st" "m_leafPaths st1 = m_leafPaths st" "m_errors st1 = m_errors st"
    "\<exists>skip. IgnoreForNodePath s b = Inr skip"
proof -
  obtain skip where skip: "IgnoreForNodePath s b = Inr skip" using run by (auto simp: PushParentPath_def returns)
  have name: "\<exists>name. Name s (ParentRef b) = Inr name" using skip
    by (auto simp: IgnoreForNodePath_def Name_def rbind_def split: sum.splits)
  then obtain name where name: "Name s (ParentRef b) = Inr name" by blast
  show "m_currentPathNodes st1 = m_currentPathNodes st @ (if IgnoreForNodePath s b = Inr True then [] else [b])"
    "m_currentLogicalPath st1 = sub_path s b (m_currentLogicalPath st)"
    "logical_path s (m_currentPathNodes st1) = Inr (m_currentLogicalPath st1)"
    "m_processedNodes st1 = m_processedNodes st" "m_leafPaths st1 = m_leafPaths st" "m_errors st1 = m_errors st"
    "\<exists>skip. IgnoreForNodePath s b = Inr skip"
    using run skip name path logical_path_snoc [OF path name]
    by (auto simp: PushParentPath_def RebuildLogicalPath_def returns sub_path_def name_text_def split: if_splits)
qed

lemma enter_parent_returns:
  assumes run: "enter_parent s b st = (Inr first, st1)" and path: "logical_path s (m_currentPathNodes st) = Inr (m_currentLogicalPath st)"
    and nd: "links s (ParentRef b) = Some nd" and fresh: "\<And>c. m_pFirstChild nd = Some c \<Longrightarrow> c \<notin> m_processedNodes st"
  shows "first = m_pFirstChild nd" "m_processedNodes st1 = set_option (m_pFirstChild nd) \<union> m_processedNodes st"
    "m_currentPathNodes st1 = m_currentPathNodes st @ (if IgnoreForNodePath s b = Inr True then [] else [b])"
    "m_currentLogicalPath st1 = sub_path s b (m_currentLogicalPath st)"
    "logical_path s (m_currentPathNodes st1) = Inr (m_currentLogicalPath st1)"
    "m_leafPaths st1 = m_leafPaths st" "m_errors st1 = m_errors st" "\<exists>skip. IgnoreForNodePath s b = Inr skip"
proof -
  have child: "FirstChild s b = Inr (m_pFirstChild nd)" using nd by (simp add: FirstChild_def node_at_def)
  obtain st0 where st0: "PushParentPath s b st = (Inr (), st0)"
    "(case m_pFirstChild nd of None \<Rightarrow> act_return None
     | Some c \<Rightarrow> act_bind (act_read (\<lambda>st. Inr (c \<in> m_processedNodes st))) (\<lambda>seen.
         act_then (act_modify (\<lambda>st. st\<lparr>m_processedNodes := insert c (m_processedNodes st)\<rparr>))
           (act_return (if seen then None else Some c)))) st0 = (Inr first, st1)"
    using run child by (auto simp: enter_parent_def returns)
  note push = PushParentPath_returns [OF st0(1) path]
  have "first = m_pFirstChild nd \<and> st1 = st0\<lparr>m_processedNodes := set_option (m_pFirstChild nd) \<union> m_processedNodes st0\<rparr>"
    using st0(2) fresh push(4) by (auto simp: returns split: option.splits)
  then show "first = m_pFirstChild nd" "m_processedNodes st1 = set_option (m_pFirstChild nd) \<union> m_processedNodes st"
    "m_currentPathNodes st1 = m_currentPathNodes st @ (if IgnoreForNodePath s b = Inr True then [] else [b])"
    "m_currentLogicalPath st1 = sub_path s b (m_currentLogicalPath st)"
    "logical_path s (m_currentPathNodes st1) = Inr (m_currentLogicalPath st1)"
    "m_leafPaths st1 = m_leafPaths st" "m_errors st1 = m_errors st" "\<exists>skip. IgnoreForNodePath s b = Inr skip"
    using push by simp_all
qed

lemma PopParentPath_returns:
  assumes run: "PopParentPath s b st = (Inr u, st1)" and path: "logical_path s as = Inr path"
    and nodes: "m_currentPathNodes st = as @ (if IgnoreForNodePath s b = Inr True then [] else [b])"
    and current: "m_currentLogicalPath st = sub_path s b path"
  shows "m_currentPathNodes st1 = as" "m_currentLogicalPath st1 = path"
    "m_processedNodes st1 = m_processedNodes st" "m_leafPaths st1 = m_leafPaths st" "m_errors st1 = m_errors st"
  using run path nodes current by (auto simp: PopParentPath_def RebuildLogicalPath_def returns sub_path_def split: if_splits)

text \<open>A register whose name can be read never stops the check.\<close>

lemma CheckSiblingName_Inr:
  assumes "register_at (model_world s) a = Inr r"
  shows "\<exists>again sets' st'. CheckSiblingName s (RegisterRef a) sets st = (Inr (again, sets'), st')"
  using assms
  by (cases sets; cases "m_name r = [] \<or> m_name r = ''unnamed''"; cases "m_name r \<in> fst sets"; cases "m_name r \<in> snd sets")
     (auto simp: CheckSiblingName_def Name_def ignored_def asking_def act_bind_def act_then_def report_sibling_def names_reports)

lemma CheckLeafPath_Inr:
  assumes "register_at (model_world s) a = Inr r"
  shows "\<exists>st'. CheckLeafPath s (RegisterRef a) again st = (Inr (), st')"
  using assms by (auto simp: CheckLeafPath_def Name_def asking_def act_bind_def act_then_def names_reports)

section \<open>A check of a tree\<close>

definition below_refs :: "SystemTree list \<Rightarrow> NodeRef set" where
  "below_refs ts = (\<Union>t \<in> set ts. set (forest_refs (tree_children t)))"

lemma below_refs_simps [simp]: "below_refs [] = {}" "below_refs (t # ts) = set (forest_refs (tree_children t)) \<union> below_refs ts"
  by (simp_all add: below_refs_def)

lemma below_refs_subset: "below_refs ts \<subseteq> set (forest_refs ts)"
proof (induction ts)
  case (Cons t ts)
  then show ?case using tree_refs_children(1) [of t] by auto
qed simp

text \<open>What the loop over a chain of trees has done when it returns.\<close>

definition went_through :: "SystemModel \<Rightarrow> SystemTree list \<Rightarrow> string set \<Rightarrow> NamesChecker \<Rightarrow> NamesChecker \<Rightarrow> bool" where
  "went_through s ts names st st' \<longleftrightarrow> m_currentPathNodes st' = m_currentPathNodes st \<and> m_currentLogicalPath st' = m_currentLogicalPath st
    \<and> m_processedNodes st' \<subseteq> below_refs ts \<union> m_processedNodes st
    \<and> m_leafPaths st' = rev (concat (map (leaf_paths s (m_currentLogicalPath st)) ts)) @ m_leafPaths st
    \<and> (\<exists>msgs. m_errors st' = m_errors st @ msgs
        \<and> (msgs = [] \<longleftrightarrow> clear_after s ts names (m_currentLogicalPath st) (fst ` set (m_leafPaths st))))"

lemma went_through_cons:
  assumes sibling: "m_errors st1 = m_errors st @ (if clash then [msg] else [])" "same_paths st st1"
      "clash \<longleftrightarrow> named s (node_ref t) \<and> name_text s (node_ref t) \<in> names"
    and child: "m_currentPathNodes st2 = m_currentPathNodes st1" "m_currentLogicalPath st2 = m_currentLogicalPath st1"
      "m_processedNodes st2 \<subseteq> set (forest_refs (tree_children t)) \<union> m_processedNodes st1"
      "m_leafPaths st2 = rev (leaf_paths s (m_currentLogicalPath st1) t) @ m_leafPaths st1"
      "\<exists>msgs. m_errors st2 = m_errors st1 @ msgs \<and> (\<not> clash \<longrightarrow> (msgs = [] \<longleftrightarrow> names_differ s t
          \<and> distinct (map fst (leaf_paths s (m_currentLogicalPath st1) t))
          \<and> fst ` set (leaf_paths s (m_currentLogicalPath st1) t) \<inter> fst ` set (m_leafPaths st1) = {}))"
    and rest: "went_through s ts (if named s (node_ref t) then insert (name_text s (node_ref t)) names else names) st2 st'"
  shows "went_through s (t # ts) names st st'"
proof -
  obtain msgs1 where msgs1: "m_errors st2 = m_errors st1 @ msgs1" "\<not> clash \<Longrightarrow> msgs1 = [] \<longleftrightarrow> names_differ s t
      \<and> distinct (map fst (leaf_paths s (m_currentLogicalPath st) t))
      \<and> fst ` set (leaf_paths s (m_currentLogicalPath st) t) \<inter> fst ` set (m_leafPaths st) = {}"
    using child(5) sibling(2) by (auto simp: same_paths_def)
  obtain msgs2 where msgs2: "m_errors st' = m_errors st2 @ msgs2"
    "msgs2 = [] \<longleftrightarrow> clear_after s ts (if named s (node_ref t) then insert (name_text s (node_ref t)) names else names)
        (m_currentLogicalPath st) (fst ` set (leaf_paths s (m_currentLogicalPath st) t) \<union> fst ` set (m_leafPaths st))"
    using rest child sibling(2) by (auto simp: went_through_def same_paths_def image_Un)
  let ?msgs = "(if clash then [msg] else []) @ msgs1 @ msgs2"
  have "?msgs = [] \<longleftrightarrow> clear_after s (t # ts) names (m_currentLogicalPath st) (fst ` set (m_leafPaths st))"
  proof (cases clash)
    case True
    then show ?thesis using sibling(3) by (simp add: clear_after_Cons)
  next
    case False
    then show ?thesis unfolding clear_after_Cons sibling(3) [symmetric] append_is_Nil_conv msgs1(2) [OF False] msgs2(2) by simp
  qed
  moreover have "m_errors st' = m_errors st @ ?msgs" using sibling(1) msgs1(1) msgs2(1) by simp
  ultimately have "\<exists>msgs. m_errors st' = m_errors st @ msgs
      \<and> (msgs = [] \<longleftrightarrow> clear_after s (t # ts) names (m_currentLogicalPath st) (fst ` set (m_leafPaths st)))" by blast
  then show ?thesis using rest child sibling(2) by (auto simp: went_through_def same_paths_def)
qed

text \<open>The call for a child that is a parent, around the loop over its children.\<close>

lemma Names_child_returns:
  assumes run: "enter_parent s b st = (Inr first, st1)" "PopParentPath s b st2 = (Inr (), st3)"
    and nd: "links s (ParentRef b) = Some nd" "siblings (links s) (m_pFirstChild nd) (map node_ref cs)"
    and path: "logical_path s (m_currentPathNodes st) = Inr (m_currentLogicalPath st)"
    and dist: "distinct (forest_refs cs)" and fresh: "m_processedNodes st \<inter> set (forest_refs cs) = {}"
    and loop: "\<lbrakk>first = m_pFirstChild nd; logical_path s (m_currentPathNodes st1) = Inr (m_currentLogicalPath st1);
      m_processedNodes st1 \<inter> below_refs cs = {}\<rbrakk> \<Longrightarrow> went_through s cs {} st1 st2"
  shows "m_currentPathNodes st3 = m_currentPathNodes st" "m_currentLogicalPath st3 = m_currentLogicalPath st"
    "m_processedNodes st3 \<subseteq> set (forest_refs cs) \<union> m_processedNodes st"
    "m_leafPaths st3 = rev (leaf_paths s (m_currentLogicalPath st) (ParentTree cls b cs)) @ m_leafPaths st"
    "\<exists>msgs. m_errors st3 = m_errors st @ msgs \<and> (msgs = [] \<longleftrightarrow> names_differ s (ParentTree cls b cs)
       \<and> distinct (map fst (leaf_paths s (m_currentLogicalPath st) (ParentTree cls b cs)))
       \<and> fst ` set (leaf_paths s (m_currentLogicalPath st) (ParentTree cls b cs)) \<inter> fst ` set (m_leafPaths st) = {})"
proof -
  have first: "set_option (m_pFirstChild nd) \<subseteq> set (forest_refs cs) - below_refs cs"
  proof (cases cs)
    case Nil
    then show ?thesis using nd(2) by simp
  next
    case (Cons c ds)
    have top: "m_pFirstChild nd = Some (node_ref c)" using nd(2) by (simp add: Cons)
    have "node_ref c \<notin> set (forest_refs (tree_children c))" using dist tree_refs_children(2) [of c] by (simp add: Cons)
    moreover have "set (tree_refs c) \<inter> set (forest_refs ds) = {}" using dist by (simp add: Cons)
    then have "node_ref c \<notin> below_refs ds" using below_refs_subset [of ds] node_ref_in [of c] by blast
    ultimately show ?thesis by (simp add: top Cons)
  qed
  have entered: "first = m_pFirstChild nd" "m_processedNodes st1 = set_option (m_pFirstChild nd) \<union> m_processedNodes st"
    "m_currentPathNodes st1 = m_currentPathNodes st @ (if IgnoreForNodePath s b = Inr True then [] else [b])"
    "m_currentLogicalPath st1 = sub_path s b (m_currentLogicalPath st)"
    "logical_path s (m_currentPathNodes st1) = Inr (m_currentLogicalPath st1)"
    "m_leafPaths st1 = m_leafPaths st" "m_errors st1 = m_errors st"
    by (rule enter_parent_returns [OF run(1) path nd(1)]; use first fresh in auto)+
  have "m_processedNodes st1 \<inter> below_refs cs = {}" using entered(2) first fresh below_refs_subset [of cs] by blast
  then have went: "went_through s cs {} st1 st2" by (rule loop [OF entered(1,5)])
  have left: "m_currentPathNodes st3 = m_currentPathNodes st" "m_currentLogicalPath st3 = m_currentLogicalPath st"
    "m_processedNodes st3 = m_processedNodes st2" "m_leafPaths st3 = m_leafPaths st2" "m_errors st3 = m_errors st2"
    by (rule PopParentPath_returns [OF run(2) path]; use went entered in \<open>simp add: went_through_def\<close>)+
  show "m_currentPathNodes st3 = m_currentPathNodes st" "m_currentLogicalPath st3 = m_currentLogicalPath st" by (rule left(1) left(2))+
  show "m_processedNodes st3 \<subseteq> set (forest_refs cs) \<union> m_processedNodes st"
    using went left(3) entered(2) first below_refs_subset [of cs] unfolding went_through_def by blast
  show "m_leafPaths st3 = rev (leaf_paths s (m_currentLogicalPath st) (ParentTree cls b cs)) @ m_leafPaths st"
    using went left(4) entered(4,6) by (simp add: went_through_def)
  obtain msgs where "m_errors st2 = m_errors st1 @ msgs"
    "msgs = [] \<longleftrightarrow> clear_after s cs {} (sub_path s b (m_currentLogicalPath st)) (fst ` set (m_leafPaths st))"
    using went entered(4,6) by (auto simp: went_through_def)
  then show "\<exists>msgs. m_errors st3 = m_errors st @ msgs \<and> (msgs = [] \<longleftrightarrow> names_differ s (ParentTree cls b cs)
       \<and> distinct (map fst (leaf_paths s (m_currentLogicalPath st) (ParentTree cls b cs)))
       \<and> fst ` set (leaf_paths s (m_currentLogicalPath st) (ParentTree cls b cs)) \<inter> fst ` set (m_leafPaths st) = {})"
    using left(5) entered(7) by (intro exI [of _ msgs]) (simp add: clear_after_def)
qed

lemma Names_loop_returns:
  "(\<forall>t \<in> set ts. tree_in (links s) t) \<Longrightarrow> siblings (links s) p (map node_ref ts) \<Longrightarrow> distinct (forest_refs ts)
    \<Longrightarrow> logical_path s (m_currentPathNodes st) = Inr (m_currentLogicalPath st) \<Longrightarrow> m_processedNodes st \<inter> below_refs ts = {}
    \<Longrightarrow> Names_loop s p sets st = Some (Inr (), st') \<Longrightarrow> went_through s ts (fst sets) st st'"
proof (induction "size_list size ts" arbitrary: ts p sets st st' rule: less_induct)
  case less
  show ?case
  proof (cases ts)
    case Nil
    then have "st' = st" using less.prems(2,6) by (subst (asm) Names_loop.simps) simp
    then show ?thesis by (simp add: Nil went_through_def clear_after_def)
  next
    case (Cons t rest)
    obtain nd where nd: "p = Some (node_ref t)" "links s (node_ref t) = Some nd" "siblings (links s) (m_pNextSibling nd) (map node_ref rest)"
      using less.prems(2) unfolding Cons list.map siblings_Cons by blast
    have after: "NextSibling s (node_ref t) = Inr (m_pNextSibling nd)" using nd(2) by (simp add: NextSibling_def node_at_def)
    obtain again sets' st1 st2 where run: "CheckSiblingName s (node_ref t) sets st = (Inr (again, sets'), st1)"
      "(case node_ref t of
           ParentRef b \<Rightarrow> run_bind (run_act (enter_parent s b)) (\<lambda>first.
             run_bind (Names_loop s first ({}, {})) (\<lambda>_. run_act (PopParentPath s b))) st1
         | RegisterRef a \<Rightarrow> run_act (CheckLeafPath s (node_ref t) again) st1) = Some (Inr (), st2)"
      "Names_loop s (m_pNextSibling nd) sets' st2 = Some (Inr (), st')"
      using less.prems(6) unfolding nd(1) Names_loop.simps [of s "Some (node_ref t)"] option.case returns after run_act_def
      by (auto simp: returns)
    note sibling = CheckSiblingName_returns [OF run(1)]
    have dist: "distinct (forest_refs (tree_children t))" "set (forest_refs (tree_children t)) \<inter> below_refs rest = {}" "distinct (forest_refs rest)"
      using less.prems(3) tree_refs_children [of t] below_refs_subset [of rest] by (auto simp: Cons)
    have st1: "logical_path s (m_currentPathNodes st1) = Inr (m_currentLogicalPath st1)" "m_processedNodes st1 \<inter> set (forest_refs (tree_children t)) = {}"
      using sibling(3) less.prems(4,5) by (auto simp: same_paths_def Cons)
    let ?clash = "named s (node_ref t) \<and> name_text s (node_ref t) \<in> fst sets"
    have child: "m_currentPathNodes st2 = m_currentPathNodes st1" "m_currentLogicalPath st2 = m_currentLogicalPath st1"
      "m_processedNodes st2 \<subseteq> set (forest_refs (tree_children t)) \<union> m_processedNodes st1"
      "m_leafPaths st2 = rev (leaf_paths s (m_currentLogicalPath st1) t) @ m_leafPaths st1"
      "\<exists>msgs. m_errors st2 = m_errors st1 @ msgs \<and> (\<not> ?clash \<longrightarrow> (msgs = [] \<longleftrightarrow> names_differ s t
          \<and> distinct (map fst (leaf_paths s (m_currentLogicalPath st1) t))
          \<and> fst ` set (leaf_paths s (m_currentLogicalPath st1) t) \<inter> fst ` set (m_leafPaths st1) = {}))"
    proof -
      have "m_currentPathNodes st2 = m_currentPathNodes st1 \<and> m_currentLogicalPath st2 = m_currentLogicalPath st1
        \<and> m_processedNodes st2 \<subseteq> set (forest_refs (tree_children t)) \<union> m_processedNodes st1
        \<and> m_leafPaths st2 = rev (leaf_paths s (m_currentLogicalPath st1) t) @ m_leafPaths st1
        \<and> (\<exists>msgs. m_errors st2 = m_errors st1 @ msgs \<and> (\<not> ?clash \<longrightarrow> (msgs = [] \<longleftrightarrow> names_differ s t
          \<and> distinct (map fst (leaf_paths s (m_currentLogicalPath st1) t))
          \<and> fst ` set (leaf_paths s (m_currentLogicalPath st1) t) \<inter> fst ` set (m_leafPaths st1) = {})))"
      proof (cases t)
        case (RegisterLeaf a)
        then have "CheckLeafPath s (RegisterRef a) again st1 = (Inr (), st2)" using run(2) by (simp add: run_act_def)
        note leaf = CheckLeafPath_returns [OF this]
        show ?thesis using leaf sibling(1) by (auto simp: RegisterLeaf)
      next
        case (ParentTree cls b cs)
        obtain first st3 st4 where steps: "enter_parent s b st1 = (Inr first, st3)" "Names_loop s first ({}, {}) st3 = Some (Inr (), st4)"
          "PopParentPath s b st4 = (Inr (), st2)" using run(2) unfolding ParentTree node_ref.simps NodeRef.case returns run_act_def by auto
        have kids: "siblings (links s) (m_pFirstChild nd) (map node_ref cs)" "\<forall>c \<in> set cs. tree_in (links s) c"
          using less.prems(1) nd(2) by (auto simp: Cons ParentTree)
        have loop: "went_through s cs {} st3 st4" if "first = m_pFirstChild nd"
          "logical_path s (m_currentPathNodes st3) = Inr (m_currentLogicalPath st3)" "m_processedNodes st3 \<inter> below_refs cs = {}"
          using less.hyps [of cs "m_pFirstChild nd" st3 "({}, {})" st4] kids dist(1) that steps(2) by (simp add: Cons ParentTree)
        have fresh: "links s (ParentRef b) = Some nd" "distinct (forest_refs cs)" "m_processedNodes st1 \<inter> set (forest_refs cs) = {}"
          using nd(2) dist(1) st1(2) by (simp_all add: ParentTree)
        note parent = Names_child_returns [OF steps(1,3) fresh(1) kids(1) st1(1) fresh(2,3) loop]
        show ?thesis unfolding ParentTree tree_children.simps using parent(1-3) parent(4,5) [where cls = cls] by blast
      qed
      then show "m_currentPathNodes st2 = m_currentPathNodes st1" "m_currentLogicalPath st2 = m_currentLogicalPath st1"
        "m_processedNodes st2 \<subseteq> set (forest_refs (tree_children t)) \<union> m_processedNodes st1"
        "m_leafPaths st2 = rev (leaf_paths s (m_currentLogicalPath st1) t) @ m_leafPaths st1"
        "\<exists>msgs. m_errors st2 = m_errors st1 @ msgs \<and> (\<not> ?clash \<longrightarrow> (msgs = [] \<longleftrightarrow> names_differ s t
          \<and> distinct (map fst (leaf_paths s (m_currentLogicalPath st1) t))
          \<and> fst ` set (leaf_paths s (m_currentLogicalPath st1) t) \<inter> fst ` set (m_leafPaths st1) = {}))" by blast+
    qed
    have "went_through s rest (fst sets') st2 st'"
    proof (rule less.hyps [OF _ _ nd(3) dist(3) _ _ run(3)])
      show "m_processedNodes st2 \<inter> below_refs rest = {}"
        using child(3) sibling(3) less.prems(5) dist(2) by (auto simp: Cons same_paths_def)
    qed (use less.prems(1) child(1,2) st1(1) in \<open>auto simp: Cons\<close>)
    then show ?thesis unfolding Cons sibling(4)
      by (rule went_through_cons [OF sibling(2,3) refl child])
  qed
qed

lemma NamesChecker_Check_returns:
  assumes check: "NamesChecker_Check s (Some r) = Some (Inr res)"
    and t: "tree_in (links s) t" "node_ref t = ParentRef r" "distinct (tree_refs t)"
  shows "errors res = [] \<longleftrightarrow> names_differ s t \<and> distinct (map fst (leaf_paths s [] t))"
proof -
  obtain cls cs nd where cs: "t = ParentTree cls r cs" "links s (ParentRef r) = Some nd" "siblings (links s) (m_pFirstChild nd) (map node_ref cs)"
    "\<forall>c \<in> set cs. tree_in (links s) c" "distinct (forest_refs cs)" using t by (cases t) auto
  obtain c where c: "Names_CheckParentNode s r NamesChecker_create = Some (Inr (), c)" "res = MakeCheckResult s c"
    using check by (auto simp: NamesChecker_Check_def ClearPaths_def NamesChecker_create_def rbind_Inr_iff)
  obtain first st1 st2 where steps: "enter_parent s r NamesChecker_create = (Inr first, st1)" "Names_loop s first ({}, {}) st1 = Some (Inr (), st2)"
    "PopParentPath s r st2 = (Inr (), c)" using c(1) unfolding Names_CheckParentNode_def returns run_act_def by auto
  have loop: "went_through s cs {} st1 st2" if "first = m_pFirstChild nd"
    "logical_path s (m_currentPathNodes st1) = Inr (m_currentLogicalPath st1)" "m_processedNodes st1 \<inter> below_refs cs = {}"
    using Names_loop_returns [OF cs(4,3,5) that(2,3), of "({}, {})" st2] that(1) steps(2) by simp
  have start: "logical_path s (m_currentPathNodes NamesChecker_create) = Inr (m_currentLogicalPath NamesChecker_create)"
    "m_processedNodes NamesChecker_create \<inter> set (forest_refs cs) = {}" by (simp_all add: NamesChecker_create_def)
  obtain msgs where "m_errors c = m_errors NamesChecker_create @ msgs" "msgs = [] \<longleftrightarrow> names_differ s t
       \<and> distinct (map fst (leaf_paths s (m_currentLogicalPath NamesChecker_create) t))
       \<and> fst ` set (leaf_paths s (m_currentLogicalPath NamesChecker_create) t) \<inter> fst ` set (m_leafPaths NamesChecker_create) = {}"
    using Names_child_returns(5) [OF steps(1,3) cs(2,3) start(1) cs(5) start(2) loop, where cls = cls] unfolding cs(1) by blast
  then show ?thesis unfolding c(2) by (simp add: NamesChecker_create_def)
qed

section \<open>The whole check\<close>

lemma Check_returns:
  assumes "SystemModelChecker_Check s kinds = Some (Inr res)"
  obtains c names where "run_bind (run_act (CheckIdentifiers s)) (\<lambda>_. CheckTree s kinds) SystemModelChecker_create = Some (Inr (), c)"
    "NamesChecker_Check s (m_root s) = Some (Inr names)" "res = Merge names (MakeCheckResult s c)"
proof -
  obtain x c where c: "run_bind (run_act (CheckIdentifiers s)) (\<lambda>_. CheckTree s kinds) SystemModelChecker_create = Some (x, c)"
    "(case x of Inl e \<Rightarrow> Some (Inl e) | Inr u \<Rightarrow> map_option (\<lambda>names. rbind names (\<lambda>nameCheckerResult. Inr (Merge nameCheckerResult (MakeCheckResult s c))))
        (NamesChecker_Check s (m_root s))) = Some (Inr res)"
    using assms unfolding SystemModelChecker_Check_def by (auto simp: bind_eq_Some_conv)
  then show thesis using that by (cases x) (auto simp: rbind_Inr_iff)
qed

lemma Check_sound:
  assumes root: "m_root s = Some r" and check: "SystemModelChecker_Check s kinds = Some (Inr res)" and clean: "errors res = []"
  shows "\<exists>t. draws_registered s r t \<and> names_differ s t \<and> distinct (map fst (leaf_paths s [] t))"
proof -
  obtain c names where c: "run_bind (run_act (CheckIdentifiers s)) (\<lambda>_. CheckTree s kinds) SystemModelChecker_create = Some (Inr (), c)"
    "NamesChecker_Check s (m_root s) = Some (Inr names)" "res = Merge names (MakeCheckResult s c)" by (rule Check_returns [OF check])
  obtain st where st: "CheckIdentifiers s SystemModelChecker_create = (Inr (), st)" "CheckTree s kinds st = Some (Inr (), c)"
    using c(1) unfolding returns run_act_def by auto
  have none: "m_errors c = []" "errors names = []" using clean c(3) by simp_all
  obtain t where t: "draws_registered s r t" using CheckTree_sound [OF root st(2) none(1)] by blast
  then have "tree_in (links s) t" "node_ref t = ParentRef r" "distinct (tree_refs t)" unfolding draws_registered_def by blast+
  then have "names_differ s t \<and> distinct (map fst (leaf_paths s [] t))"
    using NamesChecker_Check_returns [OF c(2) [unfolded root]] none(2) by blast
  then show ?thesis using t by blast
qed

section \<open>Siblings without end\<close>

definition readable :: "SystemModel \<Rightarrow> nat \<Rightarrow> bool" where
  "readable s a \<longleftrightarrow> (\<exists>r. register_at (model_world s) a = Inr r)"

lemma Names_loop_endless:
  assumes S: "endless (links s) (RegisterRef ` A)" and A: "\<And>a. a \<in> A \<Longrightarrow> readable s a" and a: "a \<in> A"
  shows "Names_loop s (Some (RegisterRef a)) sets st = None"
proof (rule ccontr)
  assume "Names_loop s (Some (RegisterRef a)) sets st \<noteq> None"
  then obtain y where y: "Names_loop s (Some (RegisterRef a)) sets st = Some y" by blast
  have "s = s \<longrightarrow> Some (RegisterRef a) \<notin> Some ` RegisterRef ` A"
  proof (rule Names_loop.raw_induct [where P = "\<lambda>s' p sets st y. s' = s \<longrightarrow> p \<notin> Some ` RegisterRef ` A", OF _ y])
    fix loop :: "SystemModel \<Rightarrow> NodeRef option \<Rightarrow> name_sets \<Rightarrow> unit names_run" and s' p sets st y
    assume IH: "\<And>s' p sets st y. loop s' p sets st = Some y \<Longrightarrow> s' = s \<longrightarrow> p \<notin> Some ` RegisterRef ` A"
      and eq: "(case p of None \<Rightarrow> run_return () st
     | Some c \<Rightarrow>
       run_bind (run_act (CheckSiblingName s' c sets)) (\<lambda>(hasReportedAnError, sets').
       run_bind (\<lambda>st. case c of
           RegisterRef a \<Rightarrow> run_act (CheckLeafPath s' c hasReportedAnError) st
         | ParentRef b \<Rightarrow> run_bind (run_act (enter_parent s' b)) (\<lambda>first.
             run_bind (loop s' first ({}, {})) (\<lambda>_. run_act (PopParentPath s' b))) st) (\<lambda>_.
       run_bind (run_act (asking (NextSibling s' c))) (\<lambda>next. loop s' next sets'))) st) = Some y"
    show "s' = s \<longrightarrow> p \<notin> Some ` RegisterRef ` A"
    proof (intro impI notI)
      assume s: "s' = s" and p: "p \<in> Some ` RegisterRef ` A"
      then obtain b where b: "p = Some (RegisterRef b)" "b \<in> A" by blast
      obtain r where r: "register_at (model_world s) b = Inr r" using A [OF b(2)] by (auto simp: readable_def)
      obtain nd y' where nd: "links s (RegisterRef b) = Some nd" "m_pNextSibling nd = Some y'" "y' \<in> RegisterRef ` A"
        using endlessE [OF S, of "RegisterRef b"] b(2) by blast
      have after: "NextSibling s (RegisterRef b) = Inr (Some y')" using nd by (simp add: NextSibling_def node_at_def)
      obtain again sets' st1 where one: "CheckSiblingName s (RegisterRef b) sets st = (Inr (again, sets'), st1)"
        using CheckSiblingName_Inr [OF r] by blast
      obtain st2 where two: "CheckLeafPath s (RegisterRef b) again st1 = (Inr (), st2)" using CheckLeafPath_Inr [OF r] by blast
      have "loop s (Some y') sets' st2 = Some y" using eq s b(1) one two after by (simp add: run_act_def run_bind_def asking_def)
      then show False using IH nd(3) by blast
    qed
  qed
  then show False using a by simp
qed

end
