(* ===== verification/Check_Properties.thy ===== *)
theory Check_Properties
  imports Checked_Names System_Properties
begin

text \<open>Properties of the checks of a model, each with a run on a model of an interface with two registers.\<close>

section \<open>A model to check\<close>

definition checked_world :: World where
  "checked_world = twin_world\<lparr>registers := (\<lambda>a. if a = 1 then Some ((sample_reg 1 [True])\<lparr>m_name := ''a''\<rparr>)
     else if a = 2 then Some ((sample_reg 2 [False])\<lparr>m_name := ''b''\<rparr>) else None)\<rparr>"

definition checked_model :: SystemModel where
  "checked_model = twin_model\<lparr>model_world := checked_world\<rparr>"


lemma checked_asked [simp]:
  "m_root checked_model = Some 0" "links checked_model = twin_heap" "m_protocol checked_model a = None"
  "m_identifierMapping checked_model = [Some (ParentRef 0), Some (RegisterRef 1), Some (RegisterRef 2)]"
  "Identifier checked_model (ParentRef 0) = Inr 0" "Identifier checked_model (RegisterRef 1) = Inr 1" "Identifier checked_model (RegisterRef 2) = Inr 2"
  "Name checked_model (ParentRef 0) = Inr ''n''" "Name checked_model (RegisterRef 1) = Inr ''a''" "Name checked_model (RegisterRef 2) = Inr ''b''"
  "IgnoreForNodePath checked_model 0 = Inr False"
  by (simp_all add: checked_model_def twin_model_def checked_world_def twin_world_def Identifier_def Name_def IgnoreForNodePath_def
      register_at_def parent_at_def deref_def sample_reg_def plain_node_def)

lemma checked_links [simp]:
  "FirstChild checked_model 0 = Inr (Some (RegisterRef 1))" "NextSibling checked_model (RegisterRef 1) = Inr (Some (RegisterRef 2))"
  "NextSibling checked_model (RegisterRef 2) = Inr None" "class_of checked_model (ParentRef 0) = Inr (Some AccessInterface)"
  "class_of checked_model (RegisterRef a) = Inr None"
  by (simp_all add: FirstChild_def NextSibling_def class_of_def node_at_def set_first_def set_next_def new_links_def)











section \<open>What the check tells\<close>



section \<open>Where the check goes wrong\<close>

lemma enter_parent_Inr:
  assumes "parent_at (model_world s) r = Inr nd" and "FirstChild s r = Inr (Some c)" and "c \<notin> m_processedNodes st" and "m_currentPathNodes st = []"
  shows "\<exists>st'. enter_parent s r st = (Inr (Some c), st')"
  using assms
  by (auto simp: enter_parent_def PushParentPath_def RebuildLogicalPath_def IgnoreForNodePath_def Name_def asking_def act_bind_def act_then_def)

lemma siblings_last: "siblings h p (us @ [l]) \<Longrightarrow> endless (h(l \<mapsto> set_next (Some c) nl)) (set (us @ [l])) \<longleftrightarrow> c \<in> set (us @ [l])"
proof (intro iffI)
  assume run: "siblings h p (us @ [l])" and c: "c \<in> set (us @ [l])"
  show "endless (h(l \<mapsto> set_next (Some c) nl)) (set (us @ [l]))" unfolding endless_def
  proof
    fix x assume "x \<in> set (us @ [l])"
    then show "\<exists>nd y. (h(l \<mapsto> set_next (Some c) nl)) x = Some nd \<and> m_pNextSibling nd = Some y \<and> y \<in> set (us @ [l])"
      using siblings_endless [OF run, of x] c by (cases "x = l") auto
  qed
qed (auto simp: endless_def)

text \<open>C19: When the children of the root are registers and one of them is appended to it again, the check of the model never
  reports anything: the check of names goes around the children for ever, and so no result of the whole check is ever returned.\<close>
theorem model_check_never_reports:
  assumes "m_root s = Some r" and "children_are (links s) r (map RegisterRef as)" and "plain_parent (links s) r" and "c \<in> set as"
    and "\<forall>a \<in> set as. readable s a" and "\<exists>nd. parent_at (model_world s) r = Inr nd"
  shows "\<exists>h. AppendChild r (Some (RegisterRef c)) (links s) = Some (Inr (), h) \<and> NamesChecker_Check (s\<lparr>links := h\<rparr>) (Some r) = None
    \<and> (\<forall>kinds res. SystemModelChecker_Check (s\<lparr>links := h\<rparr>) kinds \<noteq> Some (Inr res))"
proof -
  obtain us l where us: "map RegisterRef as = us @ [l]" using assms(4) by (cases as rule: rev_cases) auto
  obtain nl where h: "links s l = Some nl" "AppendChild r (Some (RegisterRef c)) (links s) = Some (Inr (), (links s)(l \<mapsto> set_next (Some (RegisterRef c)) nl))"
    using AppendChild_last [of "links s" r us l "Some (RegisterRef c)"] assms(2,3) us by auto
  let ?s = "s\<lparr>links := (links s)(l \<mapsto> set_next (Some (RegisterRef c)) nl)\<rparr>"
  obtain nd where nd: "links s (ParentRef r) = Some nd" "siblings (links s) (m_pFirstChild nd) (us @ [l])"
    using assms(2) us by (auto simp: children_are_def)
  have kids: "set (us @ [l]) = RegisterRef ` set as" unfolding us [symmetric] by simp
  have S: "endless (links ?s) (RegisterRef ` set as)" using siblings_last [OF nd(2)] assms(4) unfolding kids by simp
  obtain x where x: "m_pFirstChild nd = Some x" using nd(2) by (cases us) auto
  have "x \<in> set (us @ [l])" using nd(2) unfolding x by (rule siblings_head)
  then obtain a where a: "x = RegisterRef a" "a \<in> set as" unfolding kids by blast
  have "l \<noteq> ParentRef r" using kids by auto
  then have first: "FirstChild ?s r = Inr (Some (RegisterRef a))" using nd(1) x a(1) by (simp add: FirstChild_def node_at_def)
  have never: "Names_loop ?s (Some (RegisterRef a)) sets st = None" for sets st
    by (rule Names_loop_endless [OF S _ a(2)]) (use assms(5) in \<open>simp add: readable_def\<close>)
  obtain first st where enter: "enter_parent ?s r (ClearPaths NamesChecker_create) = (Inr first, st)" "first = Some (RegisterRef a)"
    using enter_parent_Inr [of ?s r _ "RegisterRef a" "ClearPaths NamesChecker_create"] assms(6) first
    by (fastforce simp: ClearPaths_def NamesChecker_create_def)
  have "NamesChecker_Check ?s (Some r) = None"
    using enter never by (simp add: NamesChecker_Check_def Names_CheckParentNode_def run_bind_def run_act_def)
  moreover from this have "SystemModelChecker_Check ?s kinds \<noteq> Some (Inr res)" for kinds res
    using Check_returns [of ?s kinds res] assms(1) by auto
  ultimately show ?thesis using h(2) by blast
qed

theorem model_check_never_reports_witness:
  "\<exists>h. AppendChild 0 (Some (RegisterRef 2)) twin_heap = Some (Inr (), h)
    \<and> (\<forall>kinds res. SystemModelChecker_Check (checked_model\<lparr>links := h\<rparr>) kinds \<noteq> Some (Inr res))"
proof -
  have "children_are (links checked_model) 0 (map RegisterRef [1, 2])" "plain_parent (links checked_model) 0"
    using twin_children by simp_all
  moreover have "\<forall>a \<in> set [1, 2]. readable checked_model a" "\<exists>nd. parent_at (model_world checked_model) 0 = Inr nd"
    by (simp_all add: readable_def checked_model_def checked_world_def twin_world_def register_at_def parent_at_def deref_def)
  ultimately show ?thesis using model_check_never_reports [OF checked_asked(1), of "[1, 2]" 2] by auto
qed

end
