(* ===== verification/Spec2Isabelle.thy ===== *)
theory Spec2Isabelle
  imports BV_Properties Base_Properties Model_Properties Model_Tree Scan_Chain Configuration Configuration_Decisions Application_Threads Requests Streamers Streamer_Circuit Data_Cycle Cycle_Visits Cycle_Channels Cycle_Loop Streamer_Levels Cycle_Properties Tree_Properties Application_Properties Node_Links Node_Trees System_Model System_Properties Node_Paths Path_Properties Check_Results Model_Checks Names_Checks Checked_Names Check_Properties
begin

text \<open>
  A verification library for the core of MAST (\<^verbatim>\<open>Mast_Core\<close>), the run time that drives the scan
  chains of a circuit under test.

  \<^bold>\<open>The program.\<close> MAST keeps a model of the circuit: registers, chains, linkers, streamers and access
  interfaces. Values travel as bit streams (\<^verbatim>\<open>BinaryVector\<close>). A \<^verbatim>\<open>Register\<close> stores the streams to
  send to and received from the circuit, a \<^verbatim>\<open>VirtualRegister\<close> presents slices of several registers
  as one, a path selector computes from it which paths of a linker are open, and configuration
  algorithms walk the model to open what pending registers need. Applications run in threads, queue
  requests for registers and wait; the manager (\<^verbatim>\<open>SystemModelManager_impl.cpp\<close>) takes the requests over,
  runs data cycles until no register is pending - propagate, configure, collect the bits of the active
  chain, encode them for the streamers, scan, decode, deal the answer out - and wakes the threads whose
  registers are served. Text readers and writers (binary, hexadecimal, ICL and SVF syntax) connect the
  streams to files and players.

  \<^bold>\<open>The theories.\<close>
  \<^item> \<open>Prelude\<close>: outcomes of functions that may throw, 32 and 8 bit counters, bytes as bit lists,
    stateful operations that keep the state an exception leaves behind.
  \<^item> \<open>BV_Core\<close>, \<open>Bit_Values\<close>, \<open>BV_Access\<close>, \<open>BV_Slices\<close>: the class \<^verbatim>\<open>BinaryVector\<close>
    (\<^verbatim>\<open>BinaryVector.hpp/.cpp\<close>). A vector is a record of bytes, bit count and size property;
    \<open>bv_inv\<close> is its invariant and \<open>bits_of\<close> its abstraction to a list of bits. Every operation has a
    lemma \<open>op_make\<close> that computes it on the canonical vector \<open>bv_make bs p\<close>. \<open>BV_Invariant\<close> shows that the modifying
    members keep \<open>bv_inv\<close>.
  \<^item> \<open>IndexedRange\<close>: \<^verbatim>\<open>IndexedRange.hpp\<close>.
  \<^item> \<open>Text_Utility\<close>, \<open>BV_Text\<close>, \<open>Binary_Text\<close>, \<open>Hex_Text\<close>: the string helpers of \<^verbatim>\<open>Utility.cpp\<close> and
    the text readers and writers of \<^verbatim>\<open>BinaryVector.cpp\<close>, with their round trips.
  \<^item> \<open>SVF_Vector\<close>: \<^verbatim>\<open>SVFVector.cpp\<close>.
  \<^item> \<open>Registers\<close>: \<^verbatim>\<open>Register.hpp/.cpp\<close> and the node data of \<^verbatim>\<open>SystemModelNode\<close>.
  \<^item> \<open>Virtual_Registers\<close>: \<^verbatim>\<open>VirtualRegister.hpp/.cpp\<close> over a store of shared registers.
  \<^item> \<open>Path_Selectors\<close>, \<open>Selector_Codes\<close>: the path selectors (binary, one hot, N hot, brocade and
    table based) and the proof that their tables code one path, or a set of paths, injectively.
  \<^item> \<open>Linkers\<close>: \<^verbatim>\<open>Linker.cpp\<close> and the \<open>World\<close>, the store of nodes and selectors all later theories share.
  \<^item> \<open>Model_Tree\<close>, \<open>Scan_Chain\<close>: the visitors that count pending registers, collect the bits of the
    active chain (\<^verbatim>\<open>ToSutVisitor.cpp\<close>) and deal out the answer (\<^verbatim>\<open>FromSutUpdater.cpp\<close>), on the tree of nodes.
  \<^item> \<open>Configuration\<close>, \<open>Configuration_Decisions\<close>: \<^verbatim>\<open>ConfigureVisitor.cpp\<close> with its four algorithms, and
    which path each linker ends up with. The locale \<open>exclusive_coding\<close> is what the algorithms need of a
    selector; the binary, one hot and N hot selectors are its interpretations.
  \<^item> \<open>Application_Threads\<close>, \<open>Requests\<close>: the registry of waiting threads and the queued requests of
    \<^verbatim>\<open>SystemModelManager_impl\<close>. A thread is a number; a lock is not modelled, every operation is one step.
  \<^item> \<open>Streamers\<close>, \<open>Streamer_Circuit\<close>, \<open>Streamer_Levels\<close>: the masks of the transparent and Trivium protocols,
    encoding and decoding of the vector, a circuit with streamers as the reference, and nested streamers.
  \<^item> \<open>Data_Cycle\<close>, \<open>Cycle_Visits\<close>, \<open>Cycle_Channels\<close>, \<open>Cycle_Loop\<close>: one data cycle over channels and access
    interfaces, the loop, and \<^verbatim>\<open>iApply\<close>; then what a visit, a channel and the whole loop leave behind.
  \<^item> \<open>Node_Links\<close>, \<open>Node_Trees\<close>, \<open>System_Model\<close>: the pointers between nodes
    (\<^verbatim>\<open>SystemModelNode.cpp\<close>, \<^verbatim>\<open>ParentNode.cpp\<close>) as a heap, the tree a heap draws, which is the tree the visitors
    walk, and \<^verbatim>\<open>SystemModel.cpp\<close>: creation, registry, root and disconnection.
  \<^item> \<open>Node_Paths\<close>: nodes, registers and aliases found by name and path (\<^verbatim>\<open>ParentNode.cpp\<close>, \<^verbatim>\<open>AliasRepository.cpp\<close>) and
    the caching \<^verbatim>\<open>NodePathResolver.cpp\<close>, against searches on trees.
  \<^item> \<open>Check_Results\<close>, \<open>Model_Checks\<close>, \<open>Names_Checks\<close>, \<open>Checked_Names\<close>: the messages and results of checks
    (\<^verbatim>\<open>Checker.cpp\<close>, \<^verbatim>\<open>CheckResult.cpp\<close>, \<^verbatim>\<open>SystemModelCheckerBase.cpp\<close>) and the checks of the tree and of the names of a
    model (\<^verbatim>\<open>SystemModelChecker.cpp\<close>, \<^verbatim>\<open>NamesChecker.cpp\<close>). A message is a value; its text is made when the result is.
    \<open>checks\<close> says what a check that adds no error has done, \<open>went_through\<close> what the check of the names of a chain of trees has done.
  \<^item> \<open>BV_Properties\<close>, \<open>Base_Properties\<close>, \<open>Model_Properties\<close>, \<open>Tree_Properties\<close>, \<open>Application_Properties\<close>,
    \<open>Cycle_Properties\<close>, \<open>System_Properties\<close>, \<open>Path_Properties\<close>, \<open>Check_Properties\<close>: what these components promise, with instances on small systems.

  \<^bold>\<open>Conventions.\<close> A \<^verbatim>\<open>uint32_t\<close> counter is a natural number reduced by \<open>u32\<close> where the code can
  wrap. A throwing function returns \<open>error + 'a\<close>; a read outside an object is the outcome
  \<open>UndefinedBehaviour\<close>. Loops recurse on the data or on a decreasing count. A loop that may run for ever
  is a \<open>partial_function\<close> whose value \<open>None\<close> says that it does not return: the loop of data cycles
  (\<open>DataCycles_loop\<close>: \<open>Cycle_Loop.loop_returns\<close> gives when it does, \<open>loop_stuck\<close> when it does not) and the walks over
  child lists, which pointers may close to circles (on a heap that draws a tree they are proved to return). No fuel is used.
  Memory outside an object the code may touch (the byte after a source vector in \<^verbatim>\<open>SetSlice\<close>, the
  null pointer of an empty \<^verbatim>\<open>std::vector\<close>) is a parameter of the definitions that touch it. So are the
  circuit behind a protocol (\<open>ProtocolObject\<close>), the cipher object a streamer calls, the pass of a translator, what a
  protocol answers a check of the model (\<open>ProtocolKind\<close>) and the addresses of new objects.

  \<^bold>\<open>Not modelled.\<close>
  \<^item> The threads a translator starts (\<^verbatim>\<open>AccessInterfaceTranslator\<close>, \<^verbatim>\<open>T_2_T_TranslatorProtocol\<close>) and application
    threads that run between two steps of a data cycle; mutexes, condition variables, joining. What a woken
    thread sees is modelled, when the scheduler wakes it is not.
  \<^item> The Python object behind the Trivium streamer and everything in \<^verbatim>\<open>External_Libs\<close>: third-party code.
  \<^item> Protocols that write SVF, STIL or I2C commands for external players, offline and simulation protocols:
    their effect is text in files or processes. The loopback protocol is modelled.
  \<^item> Configuration and YAML files, SIT and ICL readers (generated parsers), the builders and factories they
    call, printers, logging,
    plugins, dynamic libraries, remote protocols, and the C and C++ interfaces, which forward to the manager.
  \<^item> Exception messages.
\<close>

end
